(* ===== verification/Prelude.thy ===== *)
theory Prelude
  imports Main "HOL-Library.Word" "HOL-Library.Signed_Division"
begin

text \<open>
  Shared vocabulary of the development.

  \<^item> \<open>error\<close> and \<open>'a res\<close>: what a C++ routine does besides returning. An \<open>assert\<close> that
    fails, a throw, a wait that no step of the same thread can end, a read the
    language leaves undefined, \<^verbatim>\<open>exit\<close>, and (for loops with a step budget) running out of steps.
  \<^item> fixed-width integers of the source: \<open>int8\<close>, \<open>int16\<close>, \<open>int32\<close>, \<open>int64\<close> truncate an
    unbounded integer to the two's-complement value a variable of that width holds;
    unsigned variables are words.
  \<^item> generic facts on lists, modular arithmetic and the \<open>res\<close> type that several
    components use.
\<close>

unbundle bit_operations_syntax

section \<open>Outcomes\<close>

datatype error =
    Assert_failed
  | Undefined_behaviour
  | Never_returns
  | Out_of_steps
  | Unsupported_exception
  | Oom_exception
  | Process_exit
  | Invalid_arg_exception
  | Wrong_format
  | Io_exception
  | Bad_alloc

type_synonym 'a res = "error + 'a"

definition bind_res :: "'a res \<Rightarrow> ('a \<Rightarrow> 'b res) \<Rightarrow> 'b res" where
  "bind_res m f = (case m of Inl e \<Rightarrow> Inl e | Inr x \<Rightarrow> f x)"

definition assert_then :: "bool \<Rightarrow> 'b res \<Rightarrow> 'b res" where
  "assert_then b m = (if b then m else Inl Assert_failed)"

section \<open>Fixed-width integers\<close>

definition int8 :: "int \<Rightarrow> int" where
  "int8 x = signed_take_bit 7 x"

definition int16 :: "int \<Rightarrow> int" where
  "int16 x = signed_take_bit 15 x"

definition int32 :: "int \<Rightarrow> int" where
  "int32 x = signed_take_bit 31 x"

definition int64 :: "int \<Rightarrow> int" where
  "int64 x = signed_take_bit 63 x"

section \<open>The ordered map of the standard library\<close>

text \<open>
  \<^verbatim>\<open>std::map\<close> as the association list its iteration presents: keys in increasing order.
  \<^verbatim>\<open>insert\<close> leaves an existing entry alone.
\<close>

fun std_map_insert :: "'k::linorder \<Rightarrow> 'v \<Rightarrow> ('k \<times> 'v) list \<Rightarrow> ('k \<times> 'v) list" where
  "std_map_insert k v [] = [(k, v)]"
| "std_map_insert k v ((k', v') # m) =
     (if k < k' then (k, v) # (k', v') # m
      else if k = k' then (k', v') # m
      else (k', v') # std_map_insert k v m)"

section \<open>Automation shared by the components\<close>

named_theorems res_simps "rewriting of outcomes"
named_theorems width_simps "reading fixed-width integers that are in range"
named_theorems page_simps "field-wise effect of the page operations"
named_theorems cell_simps "field-wise effect of the page-cell operations"

lemma bind_res_simps [simp, res_simps]:
  "bind_res (Inl e) f = Inl e"
  "bind_res (Inr x) f = f x"
  by (simp_all add: bind_res_def)

lemma bind_res_Inr_iff [res_simps]:
  "bind_res m f = Inr y \<longleftrightarrow> (\<exists>x. m = Inr x \<and> f x = Inr y)"
  by (cases m) simp_all

lemma bind_res_cong [fundef_cong]:
  "m = m' \<Longrightarrow> (\<And>x. m' = Inr x \<Longrightarrow> f x = f' x) \<Longrightarrow> bind_res m f = bind_res m' f'"
  by (cases m') simp_all

lemma assert_then_Inr_iff [res_simps]:
  "assert_then b m = Inr y \<longleftrightarrow> b \<and> m = Inr y"
  by (simp add: assert_then_def)

lemma assert_then_True [simp]: "assert_then True m = m"
  by (simp add: assert_then_def)

lemma assert_then_False [simp]: "assert_then False m = Inl Assert_failed"
  by (simp add: assert_then_def)

lemma int16_id [width_simps]: "- 32768 \<le> x \<Longrightarrow> x < 32768 \<Longrightarrow> int16 x = x"
  by (simp add: int16_def signed_take_bit_int_eq_self)

lemma int32_id [width_simps]: "- 2147483648 \<le> x \<Longrightarrow> x < 2147483648 \<Longrightarrow> int32 x = x"
  by (simp add: int32_def signed_take_bit_int_eq_self)

lemma int8_id [width_simps]: "- 128 \<le> x \<Longrightarrow> x < 128 \<Longrightarrow> int8 x = x"
  by (simp add: int8_def signed_take_bit_int_eq_self)

lemma int64_id [width_simps]:
  "- 9223372036854775808 \<le> x \<Longrightarrow> x < 9223372036854775808 \<Longrightarrow> int64 x = x"
  by (simp add: int64_def signed_take_bit_int_eq_self)

section \<open>Division\<close>

text \<open>The division of C rounds towards zero; on non-negative numbers it is the one of the library.\<close>

lemma smod_mod: "0 \<le> a \<Longrightarrow> 0 < (m :: int) \<Longrightarrow> a smod m = a mod m"
  by (simp add: signed_modulo_int_def signed_divide_int_def sgn_if minus_mult_div_eq_mod mult.commute)

lemma sdiv_div: "0 \<le> a \<Longrightarrow> 0 < (m :: int) \<Longrightarrow> a sdiv m = a div m"
  by (simp add: signed_divide_int_def sgn_if)

lemma last_of_block:
  assumes "0 < (m :: nat)"
  shows "(b * m + m - 1) div m = b" "(b * m + m - 1) mod m = m - 1"
proof -
  have "b * m + m - 1 = (m - 1) + b * m" using assms by simp
  moreover have "((m - 1) + b * m) div m = b" "((m - 1) + b * m) mod m = m - 1"
    using assms by (simp_all only: div_mult_self1 mod_mult_self1) simp_all
  ultimately show "(b * m + m - 1) div m = b" "(b * m + m - 1) mod m = m - 1" by simp_all
qed

section \<open>Lists\<close>

lemma nth_le_update_max: "d < length xs \<Longrightarrow> xs ! d \<le> xs[k := max (a :: 'a :: linorder) (xs ! k)] ! d"
  by (cases "d = k") simp_all

lemma filter_upt_nth:
  "map (\<lambda>i. xs ! i) (filter (\<lambda>i. P (xs ! i)) [0..<length xs]) = filter P xs"
proof -
  have "map (\<lambda>i. xs ! i) (filter (\<lambda>i. P (xs ! i)) [0..<length xs])
      = filter P (map (\<lambda>i. xs ! i) [0..<length xs])"
    by (simp add: filter_map comp_def)
  then show ?thesis by (simp add: map_nth)
qed

lemma length_filter_list_update:
  assumes "i < length xs"
  shows "length (filter P (xs[i := v])) + (if P (xs ! i) then 1 else 0)
       = length (filter P xs) + (if P v then 1 else 0)"
proof -
  have split: "xs = take i xs @ xs ! i # drop (Suc i) xs"
    using assms by (rule id_take_nth_drop)
  have "xs[i := v] = take i xs @ v # drop (Suc i) xs"
    using assms by (rule upd_conv_take_nth_drop)
  then show ?thesis
    by (subst (3) split) simp
qed

lemma nth_list_update_if:
  "i < length xs \<Longrightarrow> xs[i := v] ! j = (if i = j then v else xs ! j)"
  by (simp add: nth_list_update)

end
