(* ===== verification/Page.thy ===== *)
theory Page
  imports Prelude
begin

text \<open>
  The cached page of \<^verbatim>\<open>libsafs/cache.h\<close>: the classes \<^verbatim>\<open>page\<close> and \<^verbatim>\<open>thread_safe_page\<close>, the
  page identifier \<^verbatim>\<open>data_loc_t\<close> of \<^verbatim>\<open>libsafs/io_request.h\<close>, the flag bits, the reference
  count, the hit counter and the APR bookkeeping of a page.

  A page is a record of its members. \<^verbatim>\<open>offset\<close> (a 32-bit \<^verbatim>\<open>int\<close>, in pages), \<^verbatim>\<open>refcnt\<close> (a
  \<^verbatim>\<open>short\<close>) and \<^verbatim>\<open>flush_score\<close> (a \<^verbatim>\<open>char\<close>) are integers truncated at every store; \<^verbatim>\<open>flags\<close> and
  \<^verbatim>\<open>hits\<close> are bytes; \<^verbatim>\<open>stime\<close> is a 64-bit unsigned word. The data pointer is an address or
  \<open>None\<close> for \<^verbatim>\<open>NULL\<close>. Two spellings of one operation (the plain one of \<^verbatim>\<open>page\<close> and the
  atomic one of \<^verbatim>\<open>thread_safe_page\<close>) have the same effect on one page and share a definition.
  The spin lock of a page is not state here: an operation is the atomic step its lock makes it.
\<close>

section \<open>Constants\<close>

definition PAGE_SIZE :: int where [simp]: "PAGE_SIZE = 4096"

definition PAGE_INVALID_OFFSET :: int where [simp]: "PAGE_INVALID_OFFSET = - 4096"

definition INVALID_FILE_ID :: int where [simp]: "INVALID_FILE_ID = - 1"

definition DATA_READY_BIT :: nat where [simp]: "DATA_READY_BIT = 0"
definition IO_PENDING_BIT :: nat where [simp]: "IO_PENDING_BIT = 1"
definition DIRTY_BIT :: nat where [simp]: "DIRTY_BIT = 2"
definition OLD_DIRTY_BIT :: nat where [simp]: "OLD_DIRTY_BIT = 3"
definition PREPARE_WRITEBACK :: nat where [simp]: "PREPARE_WRITEBACK = 4"
definition LOCK_BIT :: nat where [simp]: "LOCK_BIT = 5"
definition ACTIVE_BIT :: nat where [simp]: "ACTIVE_BIT = 6"
definition REFERENCED_BIT :: nat where [simp]: "REFERENCED_BIT = 7"

section \<open>Data\<close>

record data_loc_t =
  loc_file_id :: int
  loc_off :: int

definition invalid_data_loc :: data_loc_t where
  "invalid_data_loc = \<lparr>loc_file_id = - 1, loc_off = - 1\<rparr>"

record page =
  pg_off :: int
  pg_th_id :: nat
  pg_file_id :: int
  pg_data :: "nat option"
  pg_refcnt :: int
  pg_flags :: "8 word"
  pg_hits :: "8 word"
  pg_flush_score :: int
  pg_cref :: bool
  pg_lref :: bool
  pg_evicted :: bool
  pg_policy :: bool
  pg_boundary :: bool
  pg_stime :: "64 word"
  pg_node_id :: int

section \<open>Operations\<close>

subsection \<open>Identity\<close>

definition set_offset :: "int \<Rightarrow> page \<Rightarrow> page" where
  "set_offset off p = p\<lparr>pg_off := int32 (off div 2 ^ 12)\<rparr>"

definition empty_page :: page where
  "empty_page = \<lparr>pg_off = - 1, pg_th_id = 0, pg_file_id = - 1, pg_data = None, pg_refcnt = 0,
     pg_flags = 0, pg_hits = 0, pg_flush_score = 0, pg_cref = False, pg_lref = False,
     pg_evicted = False, pg_policy = False, pg_boundary = False, pg_stime = 0,
     pg_node_id = - 1\<rparr>"

text \<open>
  The second constructor does not initialise \<^verbatim>\<open>th_id\<close>; the value the member happens to hold
  is the argument \<open>junk\<close>.
\<close>

definition mk_page :: "nat \<Rightarrow> data_loc_t \<Rightarrow> nat option \<Rightarrow> int \<Rightarrow> page" where
  "mk_page junk pg_id d node =
     (set_offset (loc_off pg_id) empty_page)
       \<lparr>pg_th_id := junk, pg_file_id := loc_file_id pg_id, pg_data := d, pg_node_id := node\<rparr>"

definition set_id :: "data_loc_t \<Rightarrow> page \<Rightarrow> page" where
  "set_id pg_id p = (set_offset (loc_off pg_id) p)\<lparr>pg_file_id := loc_file_id pg_id\<rparr>"

definition is_valid :: "page \<Rightarrow> bool" where
  "is_valid p \<longleftrightarrow> pg_off p \<noteq> - 1"

definition initialized :: "page \<Rightarrow> bool" where
  "initialized p \<longleftrightarrow> pg_off p \<noteq> - 1"

definition get_offset :: "page \<Rightarrow> int" where
  "get_offset p = pg_off p * 2 ^ 12"

definition get_pg_offset :: "page \<Rightarrow> int" where
  "get_pg_offset p = pg_off p"

definition has_data :: "page \<Rightarrow> bool" where
  "has_data p \<longleftrightarrow> pg_data p \<noteq> None"

definition page_loc :: "page \<Rightarrow> data_loc_t" where
  "page_loc p = \<lparr>loc_file_id = pg_file_id p, loc_off = get_offset p\<rparr>"

subsection \<open>Flags\<close>

definition page_set_flag :: "8 word \<Rightarrow> nat \<Rightarrow> bool \<Rightarrow> bool \<times> 8 word" where
  "page_set_flag fl i v =
     (fl AND push_bit i 1 \<noteq> 0,
      if v then fl OR push_bit i 1 else fl AND NOT (push_bit i 1))"

definition set_flag :: "nat \<Rightarrow> bool \<Rightarrow> page \<Rightarrow> bool \<times> page" where
  "set_flag i v p =
     (let (orig, fl) = page_set_flag (pg_flags p) i v in (orig, p\<lparr>pg_flags := fl\<rparr>))"

definition get_flags_bit :: "nat \<Rightarrow> page \<Rightarrow> bool" where
  "get_flags_bit i p \<longleftrightarrow> pg_flags p AND push_bit i 1 \<noteq> 0"

definition test_flags :: "8 word \<Rightarrow> page \<Rightarrow> bool" where
  "test_flags fl p \<longleftrightarrow> pg_flags p AND fl \<noteq> 0"

definition data_ready :: "page \<Rightarrow> bool" where
  "data_ready p = get_flags_bit DATA_READY_BIT p"

definition set_data_ready :: "bool \<Rightarrow> page \<Rightarrow> page" where
  "set_data_ready v p = snd (set_flag DATA_READY_BIT v p)"

definition is_dirty :: "page \<Rightarrow> bool" where
  "is_dirty p = get_flags_bit DIRTY_BIT p"

definition set_dirty :: "bool \<Rightarrow> page \<Rightarrow> page" where
  "set_dirty v p = snd (set_flag DIRTY_BIT v p)"

definition is_old_dirty :: "page \<Rightarrow> bool" where
  "is_old_dirty p = get_flags_bit OLD_DIRTY_BIT p"

definition set_old_dirty :: "bool \<Rightarrow> page \<Rightarrow> page" where
  "set_old_dirty v p = snd (set_flag OLD_DIRTY_BIT v p)"

definition is_prepare_writeback :: "page \<Rightarrow> bool" where
  "is_prepare_writeback p = get_flags_bit PREPARE_WRITEBACK p"

definition set_prepare_writeback :: "bool \<Rightarrow> page \<Rightarrow> page" where
  "set_prepare_writeback v p = snd (set_flag PREPARE_WRITEBACK v p)"

definition is_io_pending :: "page \<Rightarrow> bool" where
  "is_io_pending p = get_flags_bit IO_PENDING_BIT p"

definition set_io_pending :: "bool \<Rightarrow> page \<Rightarrow> page" where
  "set_io_pending v p = snd (set_flag IO_PENDING_BIT v p)"

definition test_and_set_io_pending :: "page \<Rightarrow> bool \<times> page" where
  "test_and_set_io_pending p = set_flag IO_PENDING_BIT True p"

definition referenced :: "page \<Rightarrow> bool" where
  "referenced p = get_flags_bit REFERENCED_BIT p"

definition set_referenced :: "bool \<Rightarrow> page \<Rightarrow> page" where
  "set_referenced v p = snd (set_flag REFERENCED_BIT v p)"

definition active :: "page \<Rightarrow> bool" where
  "active p = get_flags_bit ACTIVE_BIT p"

definition set_active :: "bool \<Rightarrow> page \<Rightarrow> page" where
  "set_active v p = snd (set_flag ACTIVE_BIT v p)"

subsection \<open>Hits, flush score, references\<close>

definition set_flush_score :: "int \<Rightarrow> page \<Rightarrow> page" where
  "set_flush_score s p = p\<lparr>pg_flush_score := int8 s\<rparr>"

definition reset_hits :: "page \<Rightarrow> page" where
  "reset_hits p = p\<lparr>pg_hits := 0\<rparr>"

definition get_hits :: "page \<Rightarrow> nat" where
  "get_hits p = unat (pg_hits p)"

definition set_hits :: "int \<Rightarrow> page \<Rightarrow> page res" where
  "set_hits h p = assert_then (h \<le> 255) (Inr (p\<lparr>pg_hits := word_of_int h\<rparr>))"

definition hit :: "page \<Rightarrow> page" where
  "hit p = p\<lparr>pg_hits := pg_hits p + 1\<rparr>"

definition inc_ref :: "page \<Rightarrow> page" where
  "inc_ref p = p\<lparr>pg_refcnt := int16 (pg_refcnt p + 1)\<rparr>"

definition dec_ref :: "page \<Rightarrow> page" where
  "dec_ref p = p\<lparr>pg_refcnt := int16 (pg_refcnt p - 1)\<rparr>"

subsection \<open>APR bookkeeping\<close>

definition evicted_by_lifo :: "page \<Rightarrow> bool" where
  "evicted_by_lifo p \<longleftrightarrow> pg_evicted p \<and> pg_policy p"

definition evicted_by_clock :: "page \<Rightarrow> bool" where
  "evicted_by_clock p \<longleftrightarrow> pg_evicted p \<and> \<not> pg_policy p"

definition set_evicted :: "bool \<Rightarrow> page \<Rightarrow> page" where
  "set_evicted pol p = p\<lparr>pg_evicted := True, pg_policy := pol\<rparr>"

definition clear_evicted :: "page \<Rightarrow> page" where
  "clear_evicted p = p\<lparr>pg_evicted := False\<rparr>"

definition set_stime :: "64 word \<Rightarrow> page \<Rightarrow> page" where
  "set_stime t p = p\<lparr>pg_stime := t\<rparr>"

definition test_and_clear_page_ref :: "page \<Rightarrow> bool \<times> page" where
  "test_and_clear_page_ref p = (get_hits p \<noteq> 0, reset_hits p)"

definition test_and_clear_page_lref :: "page \<Rightarrow> bool \<times> page" where
  "test_and_clear_page_lref p = (pg_lref p, p\<lparr>pg_lref := False\<rparr>)"

definition test_and_clear_page_cref :: "page \<Rightarrow> bool \<times> page" where
  "test_and_clear_page_cref p = (pg_cref p, p\<lparr>pg_cref := False\<rparr>)"

definition set_lref :: "page \<Rightarrow> page" where
  "set_lref p = p\<lparr>pg_lref := True\<rparr>"

definition set_cref :: "page \<Rightarrow> page" where
  "set_cref p = p\<lparr>pg_cref := True\<rparr>"

definition set_boundary :: "nat \<Rightarrow> page \<Rightarrow> page" where
  "set_boundary th p = p\<lparr>pg_boundary := True, pg_th_id := th\<rparr>"

definition clear_boundary :: "page \<Rightarrow> page" where
  "clear_boundary p = p\<lparr>pg_th_id := 0, pg_boundary := False\<rparr>"

section \<open>Laws\<close>

subsection \<open>Flag bits\<close>

text \<open>
  Masking with a shifted one is reading a bit, so the flag operations are single-bit
  updates of the byte.
\<close>

lemma get_flags_bit_iff [page_simps]: "get_flags_bit i p \<longleftrightarrow> bit (pg_flags p) i"
  by (simp add: get_flags_bit_def push_bit_eq_mult and_exp_eq_0_iff_not_bit)

lemma bit_page_set_flag:
  "i < 8 \<Longrightarrow> bit (snd (page_set_flag fl i v)) j \<longleftrightarrow> (if j = i then v else bit fl j)"
  by (auto simp: page_set_flag_def bit_simps) (use bit_imp_le_length in fastforce)+

lemma fst_page_set_flag: "fst (page_set_flag fl i v) \<longleftrightarrow> bit fl i"
  by (simp add: page_set_flag_def push_bit_eq_mult and_exp_eq_0_iff_not_bit)

lemma set_flag_simps [page_simps]:
  "fst (set_flag i v p) \<longleftrightarrow> bit (pg_flags p) i"
  "snd (set_flag i v p) = p\<lparr>pg_flags := snd (page_set_flag (pg_flags p) i v)\<rparr>"
  by (simp_all add: set_flag_def fst_page_set_flag split: prod.splits)
     (metis fst_conv fst_page_set_flag)

lemmas flag_set_defs = set_data_ready_def set_dirty_def set_old_dirty_def
  set_prepare_writeback_def set_io_pending_def set_referenced_def set_active_def

lemmas flag_get_defs = data_ready_def is_dirty_def is_old_dirty_def is_prepare_writeback_def
  is_io_pending_def referenced_def active_def

lemma data_ready_set [simp]: "data_ready (set_data_ready v p) = v"
  by (simp add: flag_set_defs flag_get_defs page_simps bit_page_set_flag)

lemma dirty_after [simp]:
  "is_dirty (set_data_ready v p) = is_dirty p"
  "is_dirty (set_dirty v p) = v"
  "is_dirty (set_old_dirty v p) = is_dirty p"
  "is_dirty (set_prepare_writeback v p) = is_dirty p"
  "is_dirty (set_io_pending v p) = is_dirty p"
  by (simp_all add: flag_set_defs flag_get_defs page_simps bit_page_set_flag)

lemma old_dirty_after [simp]:
  "is_old_dirty (set_data_ready v p) = is_old_dirty p"
  "is_old_dirty (set_dirty v p) = is_old_dirty p"
  "is_old_dirty (set_old_dirty v p) = v"
  "is_old_dirty (set_prepare_writeback v p) = is_old_dirty p"
  "is_old_dirty (set_io_pending v p) = is_old_dirty p"
  by (simp_all add: flag_set_defs flag_get_defs page_simps bit_page_set_flag)

lemma io_pending_after [simp]:
  "is_io_pending (set_data_ready v p) = is_io_pending p"
  "is_io_pending (set_dirty v p) = is_io_pending p"
  "is_io_pending (set_old_dirty v p) = is_io_pending p"
  "is_io_pending (set_prepare_writeback v p) = is_io_pending p"
  "is_io_pending (set_io_pending v p) = v"
  by (simp_all add: flag_set_defs flag_get_defs page_simps bit_page_set_flag)

lemma prepare_writeback_after [simp]:
  "is_prepare_writeback (set_data_ready v p) = is_prepare_writeback p"
  "is_prepare_writeback (set_dirty v p) = is_prepare_writeback p"
  "is_prepare_writeback (set_old_dirty v p) = is_prepare_writeback p"
  "is_prepare_writeback (set_prepare_writeback v p) = v"
  "is_prepare_writeback (set_io_pending v p) = is_prepare_writeback p"
  by (simp_all add: flag_set_defs flag_get_defs page_simps bit_page_set_flag)

subsection \<open>What an operation leaves alone\<close>

text \<open>
  \<open>page_core\<close> is the part of a page that identifies it and that the reference protocol
  protects: its location, its data pointer and its reference count. Bookkeeping operations
  (flags, hits, APR marks) leave it alone.
\<close>

definition page_core :: "page \<Rightarrow> int \<times> int \<times> nat option \<times> int" where
  "page_core p = (pg_off p, pg_file_id p, pg_data p, pg_refcnt p)"

lemma page_core_eq_iff:
  "page_core p = page_core q \<longleftrightarrow>
     pg_off p = pg_off q \<and> pg_file_id p = pg_file_id q \<and> pg_data p = pg_data q
     \<and> pg_refcnt p = pg_refcnt q"
  by (simp add: page_core_def)

lemma page_core_bookkeeping [simp]:
  "page_core (set_data_ready v p) = page_core p"
  "page_core (set_dirty v p) = page_core p"
  "page_core (set_old_dirty v p) = page_core p"
  "page_core (set_prepare_writeback v p) = page_core p"
  "page_core (set_io_pending v p) = page_core p"
  "page_core (reset_hits p) = page_core p"
  "page_core (hit p) = page_core p"
  "page_core (set_evicted b p) = page_core p"
  "page_core (clear_evicted p) = page_core p"
  "page_core (set_stime t p) = page_core p"
  "page_core (set_cref p) = page_core p"
  "page_core (set_boundary th p) = page_core p"
  "page_core (clear_boundary p) = page_core p"
  "page_core (set_flush_score sc p) = page_core p"
  "page_core (p\<lparr>pg_hits := h\<rparr>) = page_core p"
  "page_core (p\<lparr>pg_lref := b\<rparr>) = page_core p"
  by (simp_all add: page_core_def flag_set_defs page_simps reset_hits_def hit_def set_evicted_def
      clear_evicted_def set_stime_def set_cref_def set_boundary_def clear_boundary_def
      set_flush_score_def)

lemma has_data_core: "page_core p = page_core q \<Longrightarrow> has_data p = has_data q"
  by (simp add: page_core_def has_data_def)

lemma has_data_make [simp]:
  "has_data (mk_page junk l (Some d) node)" "\<not> has_data empty_page"
  by (simp_all add: has_data_def mk_page_def empty_page_def set_offset_def)

lemma page_core_set_hits: "set_hits h p = Inr q \<Longrightarrow> page_core q = page_core p"
  by (auto simp: set_hits_def res_simps)

lemma dirty_bookkeeping [simp]:
  "is_dirty (reset_hits p) = is_dirty p"
  "is_dirty (hit p) = is_dirty p"
  "is_dirty (p\<lparr>pg_hits := h\<rparr>) = is_dirty p"
  "is_dirty (inc_ref p) = is_dirty p"
  "is_dirty (clear_evicted p) = is_dirty p"
  "is_dirty (set_evicted b p) = is_dirty p"
  "is_dirty (set_stime t p) = is_dirty p"
  "is_dirty (clear_boundary p) = is_dirty p"
  by (simp_all add: is_dirty_def get_flags_bit_def reset_hits_def hit_def inc_ref_def
      clear_evicted_def set_evicted_def set_stime_def clear_boundary_def)

lemma get_hits_simps [simp]:
  "get_hits (reset_hits p) = 0"
  "get_hits (set_data_ready v p) = get_hits p"
  by (simp_all add: get_hits_def reset_hits_def flag_set_defs page_simps)

lemma get_hits_le: "get_hits p \<le> 255"
proof -
  have "unat (pg_hits p) < 2 ^ LENGTH(8)" by (rule unsigned_less)
  then show ?thesis by (simp add: get_hits_def)
qed

lemma set_id_core [page_simps]:
  "pg_data (set_id l p) = pg_data p" "pg_refcnt (set_id l p) = pg_refcnt p"
  "pg_flags (set_id l p) = pg_flags p" "pg_file_id (set_id l p) = loc_file_id l"
  "pg_off (set_id l p) = int32 (loc_off l div 4096)"
  by (simp_all add: set_id_def set_offset_def)

subsection \<open>Locations\<close>

text \<open>A location a page can hold: page-aligned and within the 8 TB a 32-bit page index spans.\<close>

definition page_aligned_loc :: "data_loc_t \<Rightarrow> bool" where
  "page_aligned_loc l \<longleftrightarrow> 0 \<le> loc_off l \<and> loc_off l < 2 ^ 43 \<and> 4096 dvd loc_off l"

lemma page_loc_set_id: "page_aligned_loc l \<Longrightarrow> page_loc (set_id l p) = l"
  by (auto simp: page_aligned_loc_def page_loc_def get_offset_def page_simps int32_id)

lemma is_valid_set_id: "page_aligned_loc l \<Longrightarrow> is_valid (set_id l p)"
  by (auto simp: page_aligned_loc_def is_valid_def page_simps int32_id)

section \<open>Properties\<close>

text \<open>
  A flag operation on a page changes the one bit it is for: it returns the bit's old value, gives
  the bit the new value, leaves the other seven bits and every other member of the page alone.
\<close>

theorem set_flag_one_bit:
  assumes "i < 8"
  shows "fst (set_flag i v p) = bit (pg_flags p) i
    \<and> bit (pg_flags (snd (set_flag i v p))) j = (if j = i then v else bit (pg_flags p) j)
    \<and> (snd (set_flag i v p))\<lparr>pg_flags := pg_flags p\<rparr> = p"
  using assms by (simp add: page_simps bit_page_set_flag)

theorem set_flag_one_bit_witness:
  "fst (set_flag 2 True empty_page) = False \<and> bit (pg_flags (snd (set_flag 2 True empty_page))) 2"
  using set_flag_one_bit [of 2 True empty_page 2]
  by (simp add: empty_page_def)

text \<open>
  A page given the identity of a page-aligned location below 8 TB reports exactly that location,
  counts as initialised, and keeps its memory, reference count and flags.
\<close>

theorem set_id_round_trip:
  assumes "page_aligned_loc l"
  shows "page_loc (set_id l p) = l \<and> is_valid (set_id l p) \<and> pg_data (set_id l p) = pg_data p
    \<and> pg_refcnt (set_id l p) = pg_refcnt p \<and> pg_flags (set_id l p) = pg_flags p"
  using page_loc_set_id [OF assms] is_valid_set_id [OF assms] by (simp add: page_simps)

theorem set_id_round_trip_witness:
  "page_loc (set_id \<lparr>loc_file_id = 3, loc_off = 81920\<rparr> empty_page) = \<lparr>loc_file_id = 3, loc_off = 81920\<rparr>"
  using set_id_round_trip [of "\<lparr>loc_file_id = 3, loc_off = 81920\<rparr>" empty_page]
  by (simp add: page_aligned_loc_def)

end
