(* ===== verification/Page_Cell.thy ===== *)
theory Page_Cell
  imports Page "HOL-Library.Multiset"
begin

text \<open>
  The page buffer of a page set: \<^verbatim>\<open>page_cell<thread_safe_page>\<close> of
  \<^verbatim>\<open>libsafs/associative_cache.h\<close> and \<^verbatim>\<open>.cpp\<close>. It has room for \<^verbatim>\<open>CELL_SIZE\<close> pages; a slot whose
  page has no data is free. \<^verbatim>\<open>maps\<close> presents the used slots as an array without gaps: virtual
  index \<open>i\<close> is the physical slot \<open>maps ! i\<close>. A page pointer into the buffer is a physical slot
  number. Unsigned-char arithmetic on \<^verbatim>\<open>idx\<close> and \<^verbatim>\<open>num_pages\<close> is written out modulo 256.

  \<open>cell_wf\<close> is the invariant the code's \<^verbatim>\<open>sanity_check\<close> asserts: the count is the number of
  used slots and the map lists them in order. The lemmas show which operations keep it, what each
  does to the list of pages, and that \<^verbatim>\<open>sanity_check\<close> accepts exactly the well-formed cells.
\<close>

definition CELL_SIZE :: nat where [simp]: "CELL_SIZE = 16"
definition CELL_MIN_NUM_PAGES :: nat where [simp]: "CELL_MIN_NUM_PAGES = 8"

record page_cell =
  pc_idx :: nat
  pc_num_pages :: nat
  pc_maps :: "nat list"
  pc_buf :: "page list"

definition empty_cell :: page_cell where
  "empty_cell = \<lparr>pc_idx = 0, pc_num_pages = 0, pc_maps = replicate CELL_SIZE 0,
     pc_buf = replicate CELL_SIZE empty_page\<rparr>"

section \<open>Operations\<close>

definition contain :: "page_cell \<Rightarrow> nat \<Rightarrow> bool" where
  "contain c k \<longleftrightarrow> k < pc_num_pages c"

definition used_slots :: "page list \<Rightarrow> nat list" where
  "used_slots b = filter (\<lambda>i. has_data (b ! i)) [0..<length b]"

definition get_num_used_pages :: "page_cell \<Rightarrow> nat" where
  "get_num_used_pages c = length (filter has_data (pc_buf c))"

definition set_pages :: "nat \<Rightarrow> nat list \<Rightarrow> nat \<Rightarrow> int \<Rightarrow> page_cell \<Rightarrow> page_cell res" where
  "set_pages junk pages num node c =
     assert_then (num \<le> CELL_SIZE)
       (if length pages < num then Inl Undefined_behaviour
        else Inr (c\<lparr>
          pc_buf := map (\<lambda>d. mk_page junk invalid_data_loc (Some d) node) (take num pages)
                      @ drop num (pc_buf c),
          pc_idx := 0,
          pc_num_pages := num,
          pc_maps := [0..<num] @ drop num (pc_maps c)\<rparr>))"

definition rebuild_map :: "page_cell \<Rightarrow> page_cell res" where
  "rebuild_map c =
     (let us = used_slots (pc_buf c)
      in assert_then (length us = pc_num_pages c)
           (Inr (c\<lparr>pc_maps := us @ drop (length us) (pc_maps c)\<rparr>)))"

text \<open>Storing pages into the free slots from the left; what does not fit is left over.\<close>

fun fill_free :: "page list \<Rightarrow> page list \<Rightarrow> page list \<times> page list" where
  "fill_free ns [] = ([], ns)"
| "fill_free [] (b # bs) = (b # bs, [])"
| "fill_free (n # ns) (b # bs) =
     (if \<not> has_data b then (let (bs', rest) = fill_free ns bs in (n # bs', rest))
      else (let (bs', rest) = fill_free (n # ns) bs in (b # bs', rest)))"

definition add_pages :: "nat \<Rightarrow> nat list \<Rightarrow> nat \<Rightarrow> int \<Rightarrow> page_cell \<Rightarrow> page_cell res" where
  "add_pages junk pages num node c =
     assert_then (pc_num_pages c = get_num_used_pages c)
       (assert_then (num + pc_num_pages c \<le> CELL_SIZE)
         (if length pages < num then Inl Undefined_behaviour
          else rebuild_map (c\<lparr>
            pc_buf := fst (fill_free
              (map (\<lambda>d. mk_page junk invalid_data_loc (Some d) node) (take num pages)) (pc_buf c)),
            pc_num_pages := (pc_num_pages c + num) mod 256\<rparr>)))"

definition inject_pages :: "page list \<Rightarrow> page_cell \<Rightarrow> page_cell res" where
  "inject_pages ps c =
     (let (b, rest) = fill_free ps (pc_buf c)
      in assert_then (rest = [])
           (rebuild_map (c\<lparr>pc_buf := b, pc_num_pages := (pc_num_pages c + length ps) mod 256\<rparr>)))"

text \<open>
  Up to \<open>n\<close> used pages taken from the left, each slot left empty. A referenced page is waited
  for, which no step of this thread ends.
\<close>

fun take_used :: "nat \<Rightarrow> page list \<Rightarrow> (page list \<times> page list) res" where
  "take_used n [] = Inr ([], [])"
| "take_used 0 (b # bs) = Inr ([], b # bs)"
| "take_used (Suc n) (b # bs) =
     (if \<not> has_data b
      then bind_res (take_used (Suc n) bs) (\<lambda>(st, bs'). Inr (st, b # bs'))
      else if 0 < pg_refcnt b then Inl Never_returns
      else bind_res (take_used n bs) (\<lambda>(st, bs'). Inr (b # st, empty_page # bs')))"

definition steal_pages :: "nat \<Rightarrow> page_cell \<Rightarrow> (page list \<times> page_cell) res" where
  "steal_pages npages c =
     bind_res (take_used npages (pc_buf c)) (\<lambda>(st, b).
       let n = (pc_num_pages c + 256 - length st mod 256) mod 256;
           c' = c\<lparr>pc_buf := b, pc_num_pages := n\<rparr>
       in if 0 < n then bind_res (rebuild_map c') (\<lambda>c''. Inr (st, c''))
          else Inr (st, c'\<lparr>pc_maps := replicate CELL_SIZE 0\<rparr>))"

definition steal_page :: "nat \<Rightarrow> bool \<Rightarrow> page_cell \<Rightarrow> page_cell res" where
  "steal_page k rebuild c =
     assert_then (pg_refcnt (pc_buf c ! k) = 0)
       (let c' = c\<lparr>pc_num_pages := (pc_num_pages c + 255) mod 256\<rparr>
        in if rebuild then rebuild_map c' else Inr c')"

definition get_page :: "page_cell \<Rightarrow> nat \<Rightarrow> nat res" where
  "get_page c i =
     (if length (pc_maps c) \<le> i \<or> length (pc_buf c) \<le> pc_maps c ! i then Inl Undefined_behaviour
      else assert_then (has_data (pc_buf c ! (pc_maps c ! i))) (Inr (pc_maps c ! i)))"

definition get_empty_page :: "page_cell \<Rightarrow> (nat \<times> page_cell) res" where
  "get_empty_page c =
     (if pc_num_pages c = 0 then Inl Never_returns
      else let i = pc_idx c mod pc_num_pages c
           in bind_res (get_page c i) (\<lambda>k. Inr (k, c\<lparr>pc_idx := (i + 1) mod 256\<rparr>)))"

definition get_idx :: "page_cell \<Rightarrow> nat \<Rightarrow> nat res" where
  "get_idx c k = assert_then (k < pc_num_pages c) (Inr k)"

definition upd_page :: "nat \<Rightarrow> (page \<Rightarrow> page) \<Rightarrow> page_cell \<Rightarrow> page_cell" where
  "upd_page k f c = c\<lparr>pc_buf := (pc_buf c)[k := f (pc_buf c ! k)]\<rparr>"

fun scale_down_from :: "nat \<Rightarrow> nat \<Rightarrow> page_cell \<Rightarrow> page_cell res" where
  "scale_down_from i 0 c = Inr c"
| "scale_down_from i (Suc n) c =
     bind_res (get_page c i) (\<lambda>k.
     bind_res (set_hits (int (get_hits (pc_buf c ! k) div 2)) (pc_buf c ! k)) (\<lambda>p.
       scale_down_from (Suc i) n (c\<lparr>pc_buf := (pc_buf c)[k := p]\<rparr>)))"

definition scale_down_hits :: "page_cell \<Rightarrow> page_cell res" where
  "scale_down_hits c = scale_down_from 0 (pc_num_pages c) c"

text \<open>\<^verbatim>\<open>sanity_check\<close> as a predicate: the conjunction of its assertions.\<close>

definition cell_sanity_check :: "nat \<Rightarrow> page_cell \<Rightarrow> bool" where
  "cell_sanity_check min_cell_size c \<longleftrightarrow>
     min_cell_size \<le> pc_num_pages c
     \<and> length (filter has_data (pc_buf c)) = pc_num_pages c
     \<and> (\<forall>i < pc_num_pages c. 0 < i \<longrightarrow> pc_maps c ! (i - 1) < pc_maps c ! i)
     \<and> (\<forall>i < pc_num_pages c. has_data (pc_buf c ! (pc_maps c ! i)))"

section \<open>The invariant\<close>

definition cell_shape :: "page_cell \<Rightarrow> bool" where
  "cell_shape c \<longleftrightarrow> length (pc_buf c) = CELL_SIZE \<and> length (pc_maps c) = CELL_SIZE
     \<and> (\<forall>m \<in> set (pc_maps c). m < CELL_SIZE) \<and> pc_idx c < 256"

definition cell_wf :: "page_cell \<Rightarrow> bool" where
  "cell_wf c \<longleftrightarrow> cell_shape c
     \<and> take (pc_num_pages c) (pc_maps c) = used_slots (pc_buf c)
     \<and> pc_num_pages c = length (used_slots (pc_buf c))"

text \<open>The pages of a cell, in slot order; this is the list the virtual array presents.\<close>

definition cell_pages :: "page_cell \<Rightarrow> page list" where
  "cell_pages c = filter has_data (pc_buf c)"

section \<open>Laws\<close>

subsection \<open>Used slots and the virtual array\<close>

lemma length_used_slots: "length (used_slots b) = length (filter has_data b)"
  using arg_cong [OF filter_upt_nth [of b has_data], of length]
  by (simp add: used_slots_def)

lemma set_used_slots: "set (used_slots b) = {i. i < length b \<and> has_data (b ! i)}"
  by (auto simp: used_slots_def)

lemma sorted_used_slots: "sorted (used_slots b)" "distinct (used_slots b)"
  by (simp_all add: used_slots_def sorted_wrt_filter)

lemma length_used_slots_le: "length (used_slots b) \<le> length b"
  by (simp add: length_used_slots)

lemma cell_pages_slots: "cell_pages c = map (\<lambda>i. pc_buf c ! i) (used_slots (pc_buf c))"
  unfolding cell_pages_def used_slots_def by (rule filter_upt_nth [symmetric])

lemma cell_wfD:
  assumes "cell_wf c"
  shows "length (pc_buf c) = CELL_SIZE" "length (pc_maps c) = CELL_SIZE" "pc_idx c < 256"
    "pc_num_pages c = length (used_slots (pc_buf c))" "pc_num_pages c \<le> CELL_SIZE"
  using assms length_used_slots_le [of "pc_buf c"] by (auto simp: cell_wf_def cell_shape_def)

lemma num_pages_cell_pages: "cell_wf c \<Longrightarrow> pc_num_pages c = length (cell_pages c)"
  by (simp add: cell_wf_def cell_pages_slots)

lemma maps_nth:
  assumes "cell_wf c" "i < pc_num_pages c"
  shows "pc_maps c ! i = used_slots (pc_buf c) ! i"
  using assms by (metis cell_wf_def nth_take)

lemma maps_used:
  assumes "cell_wf c" "i < pc_num_pages c"
  shows "pc_maps c ! i < CELL_SIZE" "has_data (pc_buf c ! (pc_maps c ! i))"
proof -
  have "used_slots (pc_buf c) ! i \<in> set (used_slots (pc_buf c))"
    using assms by (simp add: cell_wf_def)
  then show "pc_maps c ! i < CELL_SIZE" "has_data (pc_buf c ! (pc_maps c ! i))"
    using assms by (auto simp: set_used_slots maps_nth cell_wfD)
qed

lemma get_page_wf [cell_simps]:
  assumes "cell_wf c" "i < pc_num_pages c"
  shows "get_page c i = Inr (pc_maps c ! i)"
  using assms maps_used [OF assms] cell_wfD [OF assms(1)] by (simp add: get_page_def)

lemma get_page_Inr:
  "get_page c i = Inr k \<Longrightarrow> k = pc_maps c ! i \<and> k < length (pc_buf c) \<and> has_data (pc_buf c ! k)"
  by (auto simp: get_page_def res_simps split: if_splits)

lemma nth_cell_pages:
  assumes "cell_wf c" "i < pc_num_pages c"
  shows "pc_buf c ! (pc_maps c ! i) = cell_pages c ! i"
  using assms cell_wfD(4) [OF assms(1)] by (simp add: cell_pages_slots maps_nth)

lemma slot_index:
  assumes "cell_wf c" "k < CELL_SIZE" "has_data (pc_buf c ! k)"
  obtains i where "i < pc_num_pages c" "pc_maps c ! i = k"
proof -
  have "k \<in> set (used_slots (pc_buf c))"
    using assms by (simp add: set_used_slots cell_wfD)
  then obtain i where "i < length (used_slots (pc_buf c))" "used_slots (pc_buf c) ! i = k"
    by (auto simp: in_set_conv_nth)
  then show ?thesis using that [of i] assms(1) by (simp add: maps_nth cell_wfD(4))
qed

lemma empty_cell_wf: "cell_wf empty_cell"
  by (simp add: empty_cell_def cell_wf_def cell_shape_def used_slots_def)

subsection \<open>Rebuilding the map\<close>

lemma rebuild_map_wf:
  assumes "cell_shape c" "pc_num_pages c = length (used_slots (pc_buf c))"
  shows "\<exists>c'. rebuild_map c = Inr c' \<and> cell_wf c' \<and> pc_buf c' = pc_buf c
    \<and> pc_num_pages c' = pc_num_pages c \<and> pc_idx c' = pc_idx c"
proof -
  have le: "length (used_slots (pc_buf c)) \<le> CELL_SIZE"
    using assms length_used_slots_le [of "pc_buf c"] by (simp add: cell_shape_def)
  have "\<forall>m \<in> set (used_slots (pc_buf c)). m < CELL_SIZE"
    using assms by (simp add: set_used_slots cell_shape_def)
  then show ?thesis
    using assms le unfolding rebuild_map_def cell_wf_def cell_shape_def Let_def
    by (auto dest: in_set_dropD)
qed

lemma rebuild_map_Inr:
  assumes "rebuild_map c = Inr c'" "cell_shape c"
  shows "cell_wf c'" "pc_buf c' = pc_buf c" "pc_num_pages c' = pc_num_pages c"
proof -
  have "pc_num_pages c = length (used_slots (pc_buf c))"
    using assms(1) by (simp add: rebuild_map_def Let_def res_simps)
  then show "cell_wf c'" "pc_buf c' = pc_buf c" "pc_num_pages c' = pc_num_pages c"
    using rebuild_map_wf [OF assms(2)] assms(1) by auto
qed

lemma used_slots_update:
  "has_data p = has_data (b ! k) \<Longrightarrow> used_slots (b[k := p]) = used_slots b"
proof -
  assume "has_data p = has_data (b ! k)"
  then have "has_data (b[k := p] ! i) = has_data (b ! i)" for i
    by (cases "k < length b") (auto simp: nth_list_update_if list_update_beyond)
  then show ?thesis by (simp add: used_slots_def)
qed

lemma cell_wf_upd:
  assumes "cell_wf c" "has_data p = has_data (pc_buf c ! k)"
  shows "cell_wf (c\<lparr>pc_buf := (pc_buf c)[k := p]\<rparr>)"
  using assms unfolding cell_wf_def cell_shape_def
  by (clarsimp simp: used_slots_update)

lemma cell_wf_upd_page:
  assumes "cell_wf c" "\<And>p. has_data (f p) = has_data p"
  shows "cell_wf (upd_page k f c)"
  unfolding upd_page_def using assms by (intro cell_wf_upd) auto

lemma upd_page_simps [cell_simps]:
  "pc_num_pages (upd_page k f c) = pc_num_pages c"
  "pc_maps (upd_page k f c) = pc_maps c"
  "pc_idx (upd_page k f c) = pc_idx c"
  "pc_buf (upd_page k f c) = (pc_buf c)[k := f (pc_buf c ! k)]"
  by (simp_all add: upd_page_def)

subsection \<open>Adding and removing pages\<close>

lemma length_fill_free: "length (fst (fill_free ns b)) = length b"
  by (induction ns b rule: fill_free.induct) (auto split: prod.splits)

lemma fill_free_rest:
  "length (snd (fill_free ns b)) = length ns - length (filter (\<lambda>p. \<not> has_data p) b)"
  by (induction ns b rule: fill_free.induct) (auto split: prod.splits)

lemma fill_free_mset:
  assumes "\<forall>p \<in> set ns. has_data p"
  shows "mset (filter has_data (fst (fill_free ns b))) + mset (snd (fill_free ns b))
       = mset ns + mset (filter has_data b)"
  using assms by (induction ns b rule: fill_free.induct) (auto split: prod.splits)

lemma free_plus_used:
  "length (filter (\<lambda>p. \<not> has_data p) b) + length (filter has_data b) = length b"
  by (induction b) auto

lemma inject_pages_ok:
  assumes wf: "cell_wf c" and data: "\<forall>p \<in> set ps. has_data p"
    and room: "length ps + pc_num_pages c \<le> CELL_SIZE"
  shows "\<exists>c'. inject_pages ps c = Inr c' \<and> cell_wf c'
    \<and> mset (cell_pages c') = mset ps + mset (cell_pages c)
    \<and> pc_num_pages c' = pc_num_pages c + length ps"
proof -
  let ?b = "fst (fill_free ps (pc_buf c))"
  have used: "pc_num_pages c = length (filter has_data (pc_buf c))"
    using wf by (simp add: cell_wf_def length_used_slots)
  have rest: "snd (fill_free ps (pc_buf c)) = []"
    using room used free_plus_used [of "pc_buf c"] cell_wfD(1) [OF wf]
    by (simp flip: length_0_conv add: fill_free_rest)
  then have ms: "mset (filter has_data ?b) = mset ps + mset (cell_pages c)"
    using fill_free_mset [OF data, of "pc_buf c"] by (simp add: cell_pages_def)
  have len: "length (used_slots ?b) = pc_num_pages c + length ps"
    using arg_cong [OF ms, of size] used by (simp add: length_used_slots cell_pages_def del: mset_filter)
  let ?c = "c\<lparr>pc_buf := ?b, pc_num_pages := (pc_num_pages c + length ps) mod 256\<rparr>"
  have "cell_shape ?c" and "pc_num_pages ?c = length (used_slots (pc_buf ?c))"
    using wf room len by (simp_all add: cell_wf_def cell_shape_def length_fill_free)
  from rebuild_map_wf [OF this] show ?thesis
    using rest ms room unfolding inject_pages_def
    by (auto simp: split_beta cell_pages_def)
qed

lemma add_pages_inject:
  assumes "cell_wf c" "length pages \<ge> num" "num + pc_num_pages c \<le> CELL_SIZE"
  shows "add_pages junk pages num node c
    = inject_pages (map (\<lambda>d. mk_page junk invalid_data_loc (Some d) node) (take num pages)) c"
proof -
  let ?ps = "map (\<lambda>d. mk_page junk invalid_data_loc (Some d) node) (take num pages)"
  have used: "pc_num_pages c = length (filter has_data (pc_buf c))"
    using assms(1) by (simp add: cell_wf_def length_used_slots)
  have "length ?ps = num" using assms(2) by simp
  then have "snd (fill_free ?ps (pc_buf c)) = []"
    using assms(3) used free_plus_used [of "pc_buf c"] cell_wfD(1) [OF assms(1)]
    by (simp flip: length_0_conv add: fill_free_rest)
  then show ?thesis
    using assms used by (simp add: add_pages_def inject_pages_def get_num_used_pages_def
        split_beta min_absorb2)
qed

lemma take_used_ok:
  assumes "\<forall>p \<in> set b. has_data p \<longrightarrow> pg_refcnt p \<le> 0"
  shows "\<exists>st b'. take_used n b = Inr (st, b') \<and> length b' = length b
    \<and> st = take n (filter has_data b)
    \<and> filter has_data b' = drop n (filter has_data b)"
  using assms
proof (induction n b rule: take_used.induct)
  case (3 n b bs)
  then show ?case by auto
qed auto

lemma steal_pages_ok:
  assumes wf: "cell_wf c" and free: "\<forall>p \<in> set (cell_pages c). pg_refcnt p \<le> 0"
  shows "\<exists>c'. steal_pages n c = Inr (take n (cell_pages c), c') \<and> cell_wf c'
    \<and> cell_pages c' = drop n (cell_pages c)"
proof -
  obtain b' where tu: "take_used n (pc_buf c) = Inr (take n (cell_pages c), b')"
    and len: "length b' = length (pc_buf c)"
    and b': "filter has_data b' = drop n (cell_pages c)"
    using take_used_ok [of "pc_buf c" n] free unfolding cell_pages_def by auto
  have np: "pc_num_pages c = length (cell_pages c)" "length (cell_pages c) \<le> 16"
    using num_pages_cell_pages [OF wf] cell_wfD(5) [OF wf] by simp_all
  have num: "(pc_num_pages c + 256 - length (take n (cell_pages c)) mod 256) mod 256
      = length (used_slots b')"
    using np by (cases "n < length (cell_pages c)")
      (simp_all add: length_used_slots b' min_def mod_if)
  let ?c = "c\<lparr>pc_buf := b', pc_num_pages := length (used_slots b')\<rparr>"
  have shape: "cell_shape ?c" using wf len by (simp add: cell_wf_def cell_shape_def)
  from rebuild_map_wf [OF this] obtain c' where "rebuild_map ?c = Inr c'" "cell_wf c'"
    "pc_buf c' = b'" by auto
  moreover have "cell_wf (?c\<lparr>pc_maps := replicate CELL_SIZE 0\<rparr>)" if "used_slots b' = []"
    using shape that by (simp add: cell_wf_def cell_shape_def)
  ultimately show ?thesis
    unfolding steal_pages_def tu bind_res_simps prod.case Let_def num
    by (cases "used_slots b' = []") (simp_all add: cell_pages_def b')
qed

subsection \<open>The sanity check\<close>

lemma strictly_sorted_nth:
  assumes "\<And>i. i < n \<Longrightarrow> 0 < i \<Longrightarrow> (f :: nat \<Rightarrow> nat) (i - 1) < f i" "i < j" "j < n"
  shows "f i < f j"
  using assms(2,3)
proof (induction j)
  case (Suc j)
  have "f j < f (Suc j)" using assms(1) [of "Suc j"] Suc.prems by simp
  then show ?case using Suc by (cases "i = j") auto
qed simp

lemma sanity_check_wf:
  assumes shape: "cell_shape c" and sane: "cell_sanity_check m c"
  shows "cell_wf c"
proof -
  let ?n = "pc_num_pages c" and ?us = "used_slots (pc_buf c)"
  have n: "?n = length ?us" and n16: "?n \<le> CELL_SIZE"
    using sane shape length_used_slots_le [of "pc_buf c"]
    by (auto simp: cell_sanity_check_def length_used_slots cell_shape_def)
  have mono: "\<And>i j. i < j \<Longrightarrow> j < ?n \<Longrightarrow> pc_maps c ! i < pc_maps c ! j"
    using strictly_sorted_nth [of ?n "\<lambda>i. pc_maps c ! i"] sane
    by (auto simp: cell_sanity_check_def)
  have len: "length (take ?n (pc_maps c)) = ?n" using shape n16 by (simp add: cell_shape_def)
  have srt: "sorted (take ?n (pc_maps c))" "distinct (take ?n (pc_maps c))"
    using mono len by (auto simp: sorted_iff_nth_mono_less distinct_conv_nth less_imp_le)
      (metis linorder_neq_iff nat_less_le)
  have "set (take ?n (pc_maps c)) \<subseteq> set ?us"
    using sane shape n16
    unfolding cell_sanity_check_def cell_shape_def set_used_slots
    by (clarsimp simp: in_set_conv_nth [of _ "take _ _"])
  moreover have "card (set (take ?n (pc_maps c))) = card (set ?us)"
    using srt(2) sorted_used_slots(2) [of "pc_buf c"] len n by (simp add: distinct_card)
  ultimately have "set (take ?n (pc_maps c)) = set ?us"
    by (simp add: card_subset_eq)
  then have "take ?n (pc_maps c) = ?us"
    using srt sorted_used_slots sorted_distinct_set_unique by blast
  then show ?thesis using shape n by (simp add: cell_wf_def)
qed

lemma wf_sanity_check:
  assumes wf: "cell_wf c" and "m \<le> pc_num_pages c"
  shows "cell_sanity_check m c"
proof -
  have "used_slots (pc_buf c) ! (i - 1) < used_slots (pc_buf c) ! i"
    if "i < pc_num_pages c" "0 < i" for i
    using that strict_sorted_iff [of "used_slots (pc_buf c)"] sorted_used_slots [of "pc_buf c"]
      cell_wfD(4) [OF wf]
    by (simp add: sorted_wrt_iff_nth_less)
  then show ?thesis
    using assms(2) maps_used(2) [OF wf] cell_wfD(4) [OF wf]
    unfolding cell_sanity_check_def length_used_slots
    by (auto simp: maps_nth [OF wf])
qed

section \<open>Properties\<close>

text \<open>A small cell for examples: two pages of a file, one of them in use.\<close>

definition sample_page :: "int \<Rightarrow> nat \<Rightarrow> int \<Rightarrow> nat \<Rightarrow> page" where
  "sample_page off d ref hits = (set_id \<lparr>loc_file_id = 1, loc_off = off\<rparr>
     (mk_page 0 invalid_data_loc (Some d) 0))\<lparr>pg_refcnt := ref, pg_hits := of_nat hits\<rparr>"

definition sample_cell :: "page list \<Rightarrow> page_cell" where
  "sample_cell ps = \<lparr>pc_idx = 0, pc_num_pages = length ps,
     pc_maps = [0..<length ps] @ replicate (CELL_SIZE - length ps) 0,
     pc_buf = ps @ replicate (CELL_SIZE - length ps) empty_page\<rparr>"

lemma sample_page_simps [simp]:
  "has_data (sample_page off d ref hits)" "pg_refcnt (sample_page off d ref hits) = ref"
  "pg_data (sample_page off d ref hits) = Some d" "pg_flags (sample_page off d ref hits) = 0"
  "hits < 256 \<Longrightarrow> get_hits (sample_page off d ref hits) = hits"
  by (simp_all add: sample_page_def has_data_def set_id_def set_offset_def mk_page_def get_hits_def
      unat_of_nat empty_page_def)

lemma sample_cell_wf:
  assumes "length ps \<le> CELL_SIZE" "\<forall>p \<in> set ps. has_data p"
  shows "cell_wf (sample_cell ps)" "cell_pages (sample_cell ps) = ps"
proof -
  obtain n where n: "CELL_SIZE = length ps + n" using assms(1) le_iff_add by blast
  let ?b = "ps @ replicate n empty_page"
  have "filter (\<lambda>i. has_data (?b ! i)) [0..<length ps] = [0..<length ps]"
    using assms(2) by (auto simp: filter_id_conv nth_append)
  moreover have "filter (\<lambda>i. has_data (?b ! i)) [length ps..<length ps + n] = []"
    by (auto simp: filter_empty_conv nth_append)
  moreover have "[0..<length ps + n] = [0..<length ps] @ [length ps..<length ps + n]"
    by (rule upt_add_eq_append) simp
  ultimately have "used_slots ?b = [0..<length ps]"
    unfolding used_slots_def length_append length_replicate by simp
  then have "used_slots (ps @ replicate (CELL_SIZE - length ps) empty_page) = [0..<length ps]"
    using arg_cong [OF n, of "\<lambda>x. x - length ps"] by (simp only: add_diff_cancel_left')
  then show "cell_wf (sample_cell ps)"
    using assms(1) by (auto simp: cell_wf_def cell_shape_def sample_cell_def)
  have "filter has_data ps = ps" using assms(2) by (auto simp: filter_id_conv)
  then show "cell_pages (sample_cell ps) = ps"
    by (simp add: cell_pages_def sample_cell_def)
qed

text \<open>
  Injecting pages into a cell that has room succeeds, keeps the cell well-formed and adds
  exactly those pages: none is lost, none is copied, the ones there before stay.
\<close>

theorem inject_pages_adds:
  assumes "cell_wf c" "\<forall>p \<in> set ps. has_data p" "length ps + pc_num_pages c \<le> CELL_SIZE"
  shows "\<exists>c'. inject_pages ps c = Inr c' \<and> cell_wf c'
    \<and> mset (cell_pages c') = mset ps + mset (cell_pages c)
    \<and> pc_num_pages c' = pc_num_pages c + length ps"
  using assms by (rule inject_pages_ok)

theorem inject_pages_adds_witness:
  "\<exists>c'. inject_pages [sample_page 0 7 0 0] empty_cell = Inr c' \<and> pc_num_pages c' = 1"
  using inject_pages_adds [of empty_cell "[sample_page 0 7 0 0]"] empty_cell_wf
  by (auto simp: empty_cell_def)

text \<open>
  Taking up to \<open>n\<close> pages from a cell whose pages nobody references succeeds, gives the first
  \<open>n\<close> pages of the virtual array in order and leaves exactly the others, in order, in a
  well-formed cell.
\<close>

theorem steal_pages_takes:
  assumes "cell_wf c" "\<forall>p \<in> set (cell_pages c). pg_refcnt p \<le> 0"
  shows "\<exists>c'. steal_pages n c = Inr (take n (cell_pages c), c') \<and> cell_wf c'
    \<and> cell_pages c' = drop n (cell_pages c)"
  using assms by (rule steal_pages_ok)

theorem steal_pages_takes_witness:
  "\<exists>c'. steal_pages 1 (sample_cell [sample_page 0 7 0 0, sample_page 4096 8 0 0])
      = Inr ([sample_page 0 7 0 0], c') \<and> cell_pages c' = [sample_page 4096 8 0 0]"
  using steal_pages_takes [of "sample_cell [sample_page 0 7 0 0, sample_page 4096 8 0 0]" 1]
  by (auto simp: sample_cell_wf)

text \<open>
  The assertions of \<^verbatim>\<open>sanity_check\<close> characterise the invariant: on a cell of the right shape they
  all hold exactly when the page count is the number of used slots and the map lists the used
  slots in increasing order, and the cell has the minimal number of pages.
\<close>

theorem sanity_check_iff_wf:
  assumes "cell_shape c"
  shows "cell_sanity_check m c \<longleftrightarrow> cell_wf c \<and> m \<le> pc_num_pages c"
proof -
  have "m \<le> pc_num_pages c" if "cell_sanity_check m c" using that by (simp add: cell_sanity_check_def)
  then show ?thesis using sanity_check_wf [OF assms] wf_sanity_check by blast
qed

theorem sanity_check_iff_wf_witness:
  "cell_sanity_check 0 empty_cell \<longleftrightarrow> cell_wf empty_cell \<and> 0 \<le> pc_num_pages empty_cell"
  using sanity_check_iff_wf [of empty_cell 0] by (simp add: cell_shape_def empty_cell_def)

end
