(* ===== verification/Eviction.thy ===== *)
theory Eviction
  imports Page_Cell
begin

text \<open>
  The eviction policies of \<^verbatim>\<open>libsafs/associative_cache.cpp\<close> other than APR: LRU, LFU, FIFO,
  clock, generalised clock (with the flush scores and the eviction forecast), LIFO and random.

  A policy is its own state and a function \<^verbatim>\<open>evict_page\<close> from that state and a cell to the slot
  of the victim (\<open>None\<close> for \<^verbatim>\<open>NULL\<close>) and the two updated states. The scans of the clock policies
  are total: \<open>clock_scan\<close> and \<open>gclock_scan\<close> terminate from every state, whatever the 32-bit clock
  head does at its wrap-around. LFU, FIFO and LRU wait in a loop for a page to be released
  when they find none; nothing the same thread does ends that wait, so it is the outcome
  \<open>Never_returns\<close>. The LIFO scan dereferences a list iterator past the last element: the
  argument \<open>sent\<close> is what that read gives, \<open>None\<close> for the language's answer (undefined) and
  \<open>Some\<close> of the list's size for a standard library that keeps the size in the end node.
\<close>

section \<open>LRU, LFU, FIFO\<close>

definition LRU_evict_page :: "nat list \<Rightarrow> page_cell \<Rightarrow> (nat option \<times> nat list \<times> page_cell) res" where
  "LRU_evict_page pos_vec c =
     bind_res (if length pos_vec < pc_num_pages c then Inr (length pos_vec, pos_vec)
               else case pos_vec of [] \<Rightarrow> Inl Undefined_behaviour | pos # rest \<Rightarrow> Inr (pos, rest))
       (\<lambda>(pos, pos_vec'). bind_res (get_page c pos) (\<lambda>k.
         if pg_refcnt (pc_buf c ! k) \<noteq> 0 then Inl Never_returns
         else Inr (Some k, pos_vec' @ [pos], upd_page k (set_data_ready False) c)))"

definition LRU_access_page :: "nat list \<Rightarrow> page_cell \<Rightarrow> nat \<Rightarrow> nat list res" where
  "LRU_access_page pos_vec c k =
     bind_res (get_idx c k) (\<lambda>pos. Inr (remove1 pos pos_vec @ [pos]))"

fun LFU_scan :: "nat \<Rightarrow> nat \<Rightarrow> nat \<Rightarrow> nat option \<Rightarrow> page_cell \<Rightarrow> nat option res" where
  "LFU_scan i 0 min_hits ret c = Inr ret"
| "LFU_scan i (Suc n) min_hits ret c =
     bind_res (get_page c i) (\<lambda>k.
       if pg_refcnt (pc_buf c ! k) \<noteq> 0 then LFU_scan (Suc i) n min_hits ret c
       else let h = get_hits (pc_buf c ! k);
                (min_hits, ret) = (if h < min_hits then (h, Some k) else (min_hits, ret))
            in if min_hits = 0 then Inr ret else LFU_scan (Suc i) n min_hits ret c)"

definition LFU_evict_page :: "page_cell \<Rightarrow> (nat option \<times> unit \<times> page_cell) res" where
  "LFU_evict_page c =
     bind_res (LFU_scan 0 (pc_num_pages c) 2147483647 None c) (\<lambda>ret.
       case ret of None \<Rightarrow> Inl Never_returns
       | Some k \<Rightarrow> Inr (Some k, (), upd_page k (reset_hits \<circ> set_data_ready False) c))"

text \<open>
  One round over the cell visits every page; a round without an unreferenced page repeats
  forever.
\<close>

fun FIFO_scan :: "nat \<Rightarrow> page_cell \<Rightarrow> (nat \<times> page_cell) res" where
  "FIFO_scan 0 c = Inl Never_returns"
| "FIFO_scan (Suc n) c =
     bind_res (get_empty_page c) (\<lambda>(k, c').
       if pg_refcnt (pc_buf c' ! k) \<noteq> 0 then FIFO_scan n c' else Inr (k, c'))"

definition FIFO_evict_page :: "page_cell \<Rightarrow> (nat option \<times> unit \<times> page_cell) res" where
  "FIFO_evict_page c =
     bind_res (FIFO_scan (pc_num_pages c) c) (\<lambda>(k, c').
       Inr (Some k, (), upd_page k (set_data_ready False) c'))"

section \<open>Clock\<close>

text \<open>
  The clock, LIFO and random scans count the referenced and the dirty pages they pass. When
  the counts reach the size of the cell they start over and dirty pages are no longer avoided.
\<close>

definition recount :: "nat \<Rightarrow> nat \<Rightarrow> nat \<Rightarrow> bool \<Rightarrow> nat \<times> nat \<times> bool" where
  "recount n nref ndirty avoid =
     (if n \<le> ndirty + nref then (0, 0, False) else (nref, ndirty, avoid))"

function clock_scan ::
  "32 word \<Rightarrow> nat \<Rightarrow> nat \<Rightarrow> bool \<Rightarrow> page_cell \<Rightarrow> (nat option \<times> 32 word \<times> page_cell) res" where
  "clock_scan head nref ndirty avoid c =
     (if pc_num_pages c = 0 then Inl Undefined_behaviour
      else bind_res (get_page c (unat head mod pc_num_pages c)) (\<lambda>k.
        case recount (pc_num_pages c) nref ndirty avoid of (nref', ndirty', avoid') \<Rightarrow>
           if pg_refcnt (pc_buf c ! k) \<noteq> 0
           then (if pc_num_pages c \<le> nref' + 1 then Inr (None, head, c)
                 else clock_scan (head + 1) (nref' + 1) ndirty' avoid' c)
           else if avoid' \<and> is_dirty (pc_buf c ! k)
           then clock_scan (head + 1) nref' (ndirty' + 1) avoid' c
           else if get_hits (pc_buf c ! k) = 0 then Inr (Some k, head, c)
           else clock_scan (head + 1) nref' ndirty' avoid' (upd_page k reset_hits c)))"
  by pat_completeness auto

definition hit_sum :: "page_cell \<Rightarrow> nat" where
  "hit_sum c = sum_list (map get_hits (pc_buf c))"

definition scan_budget :: "nat \<Rightarrow> nat \<Rightarrow> bool \<Rightarrow> page_cell \<Rightarrow> nat" where
  "scan_budget nref ndirty avoid c =
     (let n = pc_num_pages c; full = (n \<le> ndirty + nref)
      in (if \<not> full \<and> (avoid \<or> 0 < ndirty) then n + 2 else 0)
         + (n + 1 - (if full then 0 else ndirty + nref)) + hit_sum c)"

lemma hit_sum_upd:
  assumes "k < length (pc_buf c)" "get_hits (f (pc_buf c ! k)) < get_hits (pc_buf c ! k)"
  shows "hit_sum (upd_page k f c) < hit_sum c"
proof -
  have "get_hits (pc_buf c ! k) \<le> sum_list (map get_hits (pc_buf c))"
    using assms(1) by (simp add: member_le_sum_list)
  then show ?thesis
    using assms by (simp add: hit_sum_def upd_page_def map_update sum_list_update)
qed

termination clock_scan
proof (relation "measure (\<lambda>(head, nref, ndirty, avoid, c). scan_budget nref ndirty avoid c)",
    goal_cases)
  case (4 head nref ndirty avoid c k)
  then have "hit_sum (upd_page k reset_hits c) < hit_sum c"
    by (intro hit_sum_upd) (auto dest: get_page_Inr)
  with 4 show ?case
    by (auto simp: scan_budget_def Let_def upd_page_simps recount_def split: if_splits)
qed (auto simp: scan_budget_def Let_def recount_def split: if_splits)

declare clock_scan.simps [simp del]

definition clock_evict_page :: "32 word \<Rightarrow> page_cell \<Rightarrow> (nat option \<times> 32 word \<times> page_cell) res" where
  "clock_evict_page head c =
     bind_res (clock_scan head 0 0 True c) (\<lambda>(ret, head', c').
       case ret of None \<Rightarrow> Inr (None, head', c')
       | Some k \<Rightarrow> Inr (Some k, head', upd_page k (reset_hits \<circ> set_data_ready False) c'))"

section \<open>Generalised clock\<close>

text \<open>\<^verbatim>\<open>set_hits(get_hits() - 1)\<close> of a page that has been hit; the byte never exceeds 255.\<close>

definition lower_hits :: "page \<Rightarrow> page" where
  "lower_hits p = p\<lparr>pg_hits := word_of_nat (get_hits p - 1)\<rparr>"

function gclock_scan ::
  "32 word \<Rightarrow> nat \<Rightarrow> nat \<Rightarrow> bool \<Rightarrow> page_cell \<Rightarrow> (nat option \<times> 32 word \<times> page_cell) res" where
  "gclock_scan head nref ndirty avoid c =
     (if pc_num_pages c = 0 then Inl Undefined_behaviour
      else bind_res (get_page c (unat head mod pc_num_pages c)) (\<lambda>k.
        case recount (pc_num_pages c) nref ndirty avoid of (nref', ndirty', avoid') \<Rightarrow>
           if pg_refcnt (pc_buf c ! k) \<noteq> 0
           then (if pc_num_pages c \<le> nref' + 1 then Inr (None, head + 1, c)
                 else gclock_scan (head + 1) (nref' + 1) ndirty' avoid' c)
           else if avoid' \<and> is_dirty (pc_buf c ! k)
           then gclock_scan (head + 1) nref' (ndirty' + 1) avoid' c
           else if get_hits (pc_buf c ! k) = 0 then Inr (Some k, head + 1, c)
           else gclock_scan (head + 1) nref' ndirty' avoid' (upd_page k lower_hits c)))"
  by pat_completeness auto

lemma get_hits_lower: "get_hits (lower_hits p) = get_hits p - 1"
proof -
  have "get_hits (q\<lparr>pg_hits := word_of_nat n\<rparr>) = n" if "n < 256" for n q
    using that by (simp add: get_hits_def unat_of_nat)
  then show ?thesis
    unfolding lower_hits_def using get_hits_le [of p] by simp
qed

termination gclock_scan
proof (relation "measure (\<lambda>(head, nref, ndirty, avoid, c). scan_budget nref ndirty avoid c)",
    goal_cases)
  case (4 head nref ndirty avoid c k)
  then have "hit_sum (upd_page k lower_hits c) < hit_sum c"
    by (intro hit_sum_upd) (auto dest: get_page_Inr simp: get_hits_lower)
  with 4 show ?case
    by (auto simp: scan_budget_def Let_def upd_page_simps recount_def split: if_splits)
qed (auto simp: scan_budget_def Let_def recount_def split: if_splits)

declare gclock_scan.simps [simp del]

definition gclock_evict_page :: "32 word \<Rightarrow> page_cell \<Rightarrow> (nat option \<times> 32 word \<times> page_cell) res" where
  "gclock_evict_page head c =
     bind_res (gclock_scan head 0 0 True c) (\<lambda>(ret, head', c').
       case ret of None \<Rightarrow> Inr (None, head', c')
       | Some k \<Rightarrow> Inr (Some k, head', upd_page k (set_data_ready False) c'))"

subsection \<open>Flush scores\<close>

text \<open>The slots the virtual indices \<open>i, i + 1, \<dots>\<close> stand for, as a loop over \<^verbatim>\<open>get_page\<close> reads them.\<close>

fun slots_from :: "page_cell \<Rightarrow> nat \<Rightarrow> nat \<Rightarrow> nat list res" where
  "slots_from c i 0 = Inr []"
| "slots_from c i (Suc n) =
     bind_res (get_page c i) (\<lambda>k. bind_res (slots_from c (Suc i) n) (\<lambda>ks. Inr (k # ks)))"

definition raw_flush_score :: "nat \<Rightarrow> nat \<Rightarrow> nat \<Rightarrow> page \<Rightarrow> nat" where
  "raw_flush_score n head i p = get_hits p * n + (i + n - head) mod n"

definition scored_slots :: "nat \<Rightarrow> nat \<Rightarrow> page_cell \<Rightarrow> nat list \<Rightarrow> (nat \<times> nat) list" where
  "scored_slots n head c ks =
     map (\<lambda>(i, k). (k, raw_flush_score n head i (pc_buf c ! k)))
       (filter (\<lambda>(i, k). is_valid (pc_buf c ! k)) (List.enumerate 0 ks))"

definition store_scores :: "(nat \<times> nat) list \<Rightarrow> page_cell \<Rightarrow> page_cell" where
  "store_scores kss c = fold (\<lambda>(k, sc). upd_page k (set_flush_score (int sc))) kss c"

definition assign_flush_scores :: "32 word \<Rightarrow> page_cell \<Rightarrow> page_cell res" where
  "assign_flush_scores clock_head c =
     (let n = pc_num_pages c in
      if n = 0 then Inl Undefined_behaviour
      else bind_res (slots_from c 0 n) (\<lambda>ks.
        let pages = scored_slots n (unat clock_head mod n) c ks;
            c1 = store_scores pages c;
            sorted_pages = sort_key snd pages
        in Inr (store_scores (map (\<lambda>(i, k, sc). (k, i)) (List.enumerate 0 sorted_pages)) c1)))"

subsection \<open>Forecast of the next victims\<close>

definition MAX_NUM_WRITEBACK :: nat where [simp]: "MAX_NUM_WRITEBACK = 4"

type_synonym forecast = "int list \<times> (int \<times> nat) list \<times> nat"

fun predict_pass ::
  "32 word \<Rightarrow> int \<Rightarrow> 8 word \<Rightarrow> 8 word \<Rightarrow> page_cell \<Rightarrow> nat list \<Rightarrow> forecast \<Rightarrow> (bool \<times> forecast) res"
where
  "predict_pass head num set_fl clr_fl c [] st = Inr (False, st)"
| "predict_pass head num set_fl clr_fl c (i # is) (hits, pages, likely) =
     (let idx = unat (head + of_nat i) mod pc_num_pages c; h = hits ! idx in
      if h < 0 then predict_pass head num set_fl clr_fl c is (hits, pages, likely)
      else if h = 0 then
        bind_res (get_page c idx) (\<lambda>k.
          let p = pc_buf c ! k; sel = (test_flags set_fl p \<and> \<not> test_flags clr_fl p);
              pages' = (if sel then std_map_insert (get_offset p) k pages else pages);
              st' = (hits[idx := - 1], pages', likely + 1)
          in if sel \<and> int (length pages') = num then Inr (True, (hits[idx := - 1], pages', likely))
             else if MAX_NUM_WRITEBACK \<le> likely + 1 then Inr (True, st')
             else predict_pass head num set_fl clr_fl c is st')
      else if MAX_NUM_WRITEBACK \<le> likely then Inr (True, (hits[idx := h - 1], pages, likely))
      else predict_pass head num set_fl clr_fl c is (hits[idx := h - 1], pages, likely))"

text \<open>
  The outer \<^verbatim>\<open>while (true)\<close>: a pass that does not return lowers every counter that is not
  negative yet, so after 256 passes every page has been considered and further passes change
  nothing.
\<close>

fun predict_loop ::
  "nat \<Rightarrow> 32 word \<Rightarrow> int \<Rightarrow> 8 word \<Rightarrow> 8 word \<Rightarrow> page_cell \<Rightarrow> forecast \<Rightarrow> (int \<times> nat) list res" where
  "predict_loop 0 head num set_fl clr_fl c st = Inl Never_returns"
| "predict_loop (Suc passes) head num set_fl clr_fl c st =
     bind_res (predict_pass head num set_fl clr_fl c [0..<pc_num_pages c] st) (\<lambda>(fin, st').
       if fin then Inr (fst (snd st')) else predict_loop passes head num set_fl clr_fl c st')"

definition gclock_predict_evicted_pages ::
  "32 word \<Rightarrow> page_cell \<Rightarrow> int \<Rightarrow> 8 word \<Rightarrow> 8 word \<Rightarrow> (int \<times> nat) list
     \<Rightarrow> ((int \<times> nat) list \<times> page_cell) res" where
  "gclock_predict_evicted_pages head c num set_fl clr_fl pages =
     bind_res (slots_from c 0 (pc_num_pages c)) (\<lambda>ks.
     bind_res (assign_flush_scores head c) (\<lambda>c'.
     bind_res (predict_loop 257 head num set_fl clr_fl c'
                 (map (\<lambda>k. int (get_hits (pc_buf c ! k))) ks, pages, 0)) (\<lambda>pages'.
       Inr (pages', c'))))"

section \<open>LIFO\<close>

record lifo_policy =
  lp_num_entry :: nat
  lp_lifo_head :: nat
  lp_lifo_lt :: "nat list"
  lp_warm_up :: bool

definition LIFO_init :: "nat \<Rightarrow> lifo_policy" where
  "LIFO_init min_cell_size = \<lparr>lp_num_entry = 0, lp_lifo_head = 0,
     lp_lifo_lt = [0..<min_cell_size], lp_warm_up = True\<rparr>"

text \<open>
  What an iterator reads that walks from the back of a list towards its front and past it:
  the elements, the end node, the elements again. Four rounds are more than the scan takes.
\<close>

definition back_reads :: "'a option \<Rightarrow> 'a list \<Rightarrow> 'a option list" where
  "back_reads sent lt = concat (replicate 4 (map Some (rev lt) @ [sent]))"

fun LIFO_scan ::
  "nat option list \<Rightarrow> nat \<Rightarrow> nat \<Rightarrow> bool \<Rightarrow> page_cell \<Rightarrow> (nat \<times> nat) option res" where
  "LIFO_scan [] nref ndirty avoid c = Inl Out_of_steps"
| "LIFO_scan (None # reads) nref ndirty avoid c = Inl Undefined_behaviour"
| "LIFO_scan (Some off # reads) nref ndirty avoid c =
     (if off = pc_num_pages c then LIFO_scan reads nref ndirty avoid c
      else bind_res (get_page c off) (\<lambda>k.
        case recount (pc_num_pages c) nref ndirty avoid of (nref', ndirty', avoid') \<Rightarrow>
           if pg_refcnt (pc_buf c ! k) \<noteq> 0
           then (if pc_num_pages c \<le> nref' + 1 then Inr None
                 else LIFO_scan reads (nref' + 1) ndirty' avoid' c)
           else if avoid' \<and> is_dirty (pc_buf c ! k)
           then LIFO_scan reads nref' (ndirty' + 1) avoid' c
           else Inr (Some (off, k))))"

definition LIFO_evict_page ::
  "nat option \<Rightarrow> lifo_policy \<Rightarrow> page_cell \<Rightarrow> (nat option \<times> lifo_policy \<times> page_cell) res" where
  "LIFO_evict_page sent pol c =
     (if lp_warm_up pol then
        (if pc_num_pages c = 0 then Inl Undefined_behaviour
         else bind_res (get_page c (lp_lifo_head pol mod pc_num_pages c)) (\<lambda>k.
           Inr (Some k,
             pol\<lparr>lp_lifo_head := lp_lifo_head pol + 1, lp_num_entry := lp_num_entry pol + 1,
               lp_warm_up := \<not> pc_num_pages c \<le> lp_num_entry pol + 1\<rparr>,
             upd_page k (set_data_ready False) c)))
      else bind_res (LIFO_scan (back_reads sent (lp_lifo_lt pol)) 0 0 True c) (\<lambda>r.
        case r of None \<Rightarrow> Inr (None, pol, c)
        | Some (off, k) \<Rightarrow>
            Inr (Some k,
              pol\<lparr>lp_lifo_head := off, lp_lifo_lt := removeAll off (lp_lifo_lt pol) @ [off]\<rparr>,
              upd_page k (set_data_ready False) c)))"

section \<open>Random\<close>

record random_policy =
  rp_warm_up :: bool
  rp_num_entry :: nat

text \<open>The argument \<open>rands\<close> is what the successive calls of \<^verbatim>\<open>rand()\<close> return.\<close>

fun random_scan :: "nat list \<Rightarrow> nat \<Rightarrow> nat \<Rightarrow> bool \<Rightarrow> page_cell \<Rightarrow> nat option res" where
  "random_scan [] nref ndirty avoid c = Inl Out_of_steps"
| "random_scan (r # rands) nref ndirty avoid c =
     (if pc_num_pages c = 0 then Inl Undefined_behaviour
      else bind_res (get_page c (r mod pc_num_pages c)) (\<lambda>k.
        case recount (pc_num_pages c) nref ndirty avoid of (nref', ndirty', avoid') \<Rightarrow>
           if pg_refcnt (pc_buf c ! k) \<noteq> 0
           then (if pc_num_pages c \<le> nref' + 1 then Inr None
                 else random_scan rands (nref' + 1) ndirty' avoid' c)
           else if avoid' \<and> is_dirty (pc_buf c ! k)
           then random_scan rands nref' (ndirty' + 1) avoid' c
           else Inr (Some k)))"

definition random_evict_page ::
  "nat list \<Rightarrow> random_policy \<Rightarrow> page_cell \<Rightarrow> (nat option \<times> random_policy \<times> page_cell) res" where
  "random_evict_page rands pol c =
     (if rp_warm_up pol then
        (if pc_num_pages c = 0 then Inl Undefined_behaviour
         else bind_res (get_page c (0 mod pc_num_pages c)) (\<lambda>k.
           Inr (Some k,
             pol\<lparr>rp_num_entry := rp_num_entry pol + 1,
               rp_warm_up := \<not> pc_num_pages c \<le> rp_num_entry pol + 1\<rparr>,
             upd_page k (set_data_ready False) c)))
      else bind_res (random_scan rands 0 0 True c) (\<lambda>r.
        case r of None \<Rightarrow> Inr (None, pol, c)
        | Some k \<Rightarrow> Inr (Some k, pol, upd_page k (set_data_ready False) c)))"

end
