(* ===== verification/Eviction_Laws.thy ===== *)
theory Eviction_Laws
  imports Eviction
begin

text \<open>
  What the page cache relies on in an eviction policy, as the locale \<open>eviction\<close>, and the proof
  that every policy of \<open>Eviction\<close> provides it. A victim is a page of the cell that nobody
  references; choosing it changes no page's location, data pointer, reference count or dirty
  bit and marks the victim's data as not ready. The policy may keep an invariant of its own
  (LIFO hands out the pages of a new cell in order without looking at them, so it relies on
  those not handed out yet being unused).
\<close>

section \<open>Cells that differ in bookkeeping only\<close>

definition same_pages :: "page_cell \<Rightarrow> page_cell \<Rightarrow> bool" where
  "same_pages c c' \<longleftrightarrow> pc_num_pages c' = pc_num_pages c \<and> pc_maps c' = pc_maps c \<and> pc_idx c' < 256
     \<and> map page_core (pc_buf c') = map page_core (pc_buf c)
     \<and> map is_dirty (pc_buf c') = map is_dirty (pc_buf c)"

definition agree_except :: "nat \<Rightarrow> page_cell \<Rightarrow> page_cell \<Rightarrow> bool" where
  "agree_except k c c' \<longleftrightarrow> pc_num_pages c' = pc_num_pages c \<and> pc_maps c' = pc_maps c
     \<and> length (pc_buf c') = length (pc_buf c)
     \<and> (\<forall>j < length (pc_buf c). j \<noteq> k \<longrightarrow> page_core (pc_buf c' ! j) = page_core (pc_buf c ! j))"

definition good_victim :: "page_cell \<Rightarrow> nat \<Rightarrow> page_cell \<Rightarrow> bool" where
  "good_victim c k c' \<longleftrightarrow> k < CELL_SIZE \<and> has_data (pc_buf c ! k) \<and> pg_refcnt (pc_buf c ! k) = 0
     \<and> same_pages c c' \<and> \<not> data_ready (pc_buf c' ! k)"

lemma same_pages_refl: "pc_idx c < 256 \<Longrightarrow> same_pages c c"
  by (simp add: same_pages_def)

lemma same_pages_trans: "same_pages a b \<Longrightarrow> same_pages b c \<Longrightarrow> same_pages a c"
  by (simp add: same_pages_def)

lemma same_pages_length: "same_pages c c' \<Longrightarrow> length (pc_buf c') = length (pc_buf c)"
  unfolding same_pages_def by (metis length_map)

lemma same_pages_nth:
  assumes "same_pages c c'" "k < length (pc_buf c)"
  shows "page_core (pc_buf c' ! k) = page_core (pc_buf c ! k)"
    "is_dirty (pc_buf c' ! k) = is_dirty (pc_buf c ! k)"
  using assms same_pages_length [OF assms(1)] unfolding same_pages_def
  by (metis nth_map)+

lemma same_pages_agree: "same_pages c c' \<Longrightarrow> agree_except k c c'"
  using same_pages_nth [of c c'] same_pages_length [of c c']
  by (simp add: agree_except_def same_pages_def)

lemma agree_except_trans:
  "agree_except k a b \<Longrightarrow> agree_except k b c \<Longrightarrow> agree_except k a c"
  by (simp add: agree_except_def)

lemma same_pages_used_slots:
  assumes "same_pages c c'"
  shows "used_slots (pc_buf c') = used_slots (pc_buf c)"
proof -
  have "has_data (pc_buf c' ! i) = has_data (pc_buf c ! i)" if "i < length (pc_buf c)" for i
    by (rule has_data_core) (rule same_pages_nth [OF assms that])
  then show ?thesis
    unfolding used_slots_def same_pages_length [OF assms] by (intro filter_cong) simp_all
qed

lemma same_pages_wf: "same_pages c c' \<Longrightarrow> cell_wf c \<Longrightarrow> cell_wf c'"
  using same_pages_used_slots [of c c'] same_pages_length [of c c']
  by (auto simp: cell_wf_def cell_shape_def same_pages_def)

lemma same_pages_upd:
  assumes "same_pages c c'" "\<And>p. page_core (f p) = page_core p" "\<And>p. is_dirty (f p) = is_dirty p"
  shows "same_pages c (upd_page k f c')"
proof (cases "k < length (pc_buf c')")
  case True
  then show ?thesis
    using assms unfolding same_pages_def
    by (simp add: upd_page_simps map_update list_update_same_conv)
      (metis list_update_id nth_map)
next
  case False
  then show ?thesis using assms(1) by (simp add: same_pages_def upd_page_def list_update_beyond)
qed

lemma good_victim_upd:
  assumes wf: "cell_wf c" and same: "same_pages c c'" and k: "k < length (pc_buf c)"
    and data: "has_data (pc_buf c ! k)" and ref: "pg_refcnt (pc_buf c ! k) = 0"
    and f: "\<And>p. page_core (f p) = page_core p" "\<And>p. is_dirty (f p) = is_dirty p"
      "\<And>p. \<not> data_ready (f p)"
  shows "good_victim c k (upd_page k f c')"
  using k data ref same_pages_upd [OF same f(1,2), of k] cell_wfD(1) [OF wf] f(3)
    same_pages_length [OF same]
  by (simp add: good_victim_def upd_page_simps)

section \<open>The contract\<close>

locale eviction =
  fixes evict :: "int \<Rightarrow> 'st \<Rightarrow> page_cell \<Rightarrow> (nat option \<times> 'st \<times> page_cell) res"
    and pol_inv :: "'st \<Rightarrow> page_cell \<Rightarrow> bool"
  assumes evict_victim: "cell_wf c \<Longrightarrow> pol_inv st c \<Longrightarrow> evict off st c = Inr (Some k, st', c')
      \<Longrightarrow> good_victim c k c'"
    and evict_none: "cell_wf c \<Longrightarrow> pol_inv st c \<Longrightarrow> evict off st c = Inr (None, st', c')
      \<Longrightarrow> same_pages c c' \<and> pol_inv st' c'"
    and inv_evict: "cell_wf c \<Longrightarrow> pol_inv st c \<Longrightarrow> evict off st c = Inr (Some k, st', c')
      \<Longrightarrow> agree_except k c' c'' \<Longrightarrow> pol_inv st' c''"
    and inv_use: "cell_wf c \<Longrightarrow> pol_inv st c \<Longrightarrow> k < CELL_SIZE \<Longrightarrow> is_valid (pc_buf c ! k)
      \<Longrightarrow> agree_except k c c'' \<Longrightarrow> pol_inv st c''"
begin

lemma victim_wf:
  assumes "cell_wf c" "pol_inv st c" "evict off st c = Inr (r, st', c')"
  shows "cell_wf c'"
  using assms evict_victim [of c st off _ st' c'] evict_none [of c st off st' c']
  by (cases r) (auto simp: good_victim_def intro: same_pages_wf)

lemma victim_unreferenced:
  assumes "cell_wf c" "pol_inv st c" "evict off st c = Inr (Some k, st', c')"
  shows "pg_refcnt (pc_buf c' ! k) = 0" "has_data (pc_buf c' ! k)" "k < length (pc_buf c')"
proof -
  have v: "good_victim c k c'" using assms by (rule evict_victim)
  then have k: "k < length (pc_buf c)" using cell_wfD(1) [OF assms(1)] by (simp add: good_victim_def)
  from v have s: "same_pages c c'" by (simp add: good_victim_def)
  show "k < length (pc_buf c')" using k same_pages_length [OF s] by simp
  show "pg_refcnt (pc_buf c' ! k) = 0" "has_data (pc_buf c' ! k)"
    using v same_pages_nth(1) [OF s k] has_data_core [OF same_pages_nth(1) [OF s k]]
    by (simp_all add: good_victim_def page_core_eq_iff)
qed

end

text \<open>
  A policy without an invariant of its own provides the contract as soon as it picks good
  victims and changes bookkeeping only.
\<close>

lemma eviction_stateless:
  assumes "\<And>c off st k st' c'. cell_wf c \<Longrightarrow> evict off st c = Inr (Some k, st', c')
      \<Longrightarrow> good_victim c k c'"
    and "\<And>c off st st' c'. cell_wf c \<Longrightarrow> evict off st c = Inr (None, st', c') \<Longrightarrow> same_pages c c'"
  shows "eviction evict (\<lambda>_ _. True)"
  using assms by unfold_locales auto

end
