(* ===== verification/Policy_Proofs.thy ===== *)
theory Policy_Proofs
  imports Eviction_Laws
begin

text \<open>
  Every policy of \<open>Eviction\<close> provides the contract \<open>eviction\<close>; the clock policies never fail
  and prefer clean pages; LIFO reuses the page it handed out last.
\<close>

section \<open>Outcomes of a scan\<close>

definition free_slot :: "page_cell \<Rightarrow> nat \<Rightarrow> bool" where
  "free_slot c k \<longleftrightarrow> k < length (pc_buf c) \<and> has_data (pc_buf c ! k) \<and> pg_refcnt (pc_buf c ! k) = 0"

definition scan_ok :: "page_cell \<Rightarrow> (nat option \<times> 'h \<times> page_cell) res \<Rightarrow> bool" where
  "scan_ok c m \<longleftrightarrow> (\<exists>r h c'. m = Inr (r, h, c') \<and> same_pages c c' \<and> (\<forall>k. r = Some k \<longrightarrow> free_slot c k))"

lemma free_slot_same:
  assumes "same_pages c d"
  shows "free_slot d k = free_slot c k"
proof (cases "k < length (pc_buf c)")
  case True
  have core: "page_core (pc_buf d ! k) = page_core (pc_buf c ! k)"
    using assms True by (rule same_pages_nth)
  have "pg_refcnt (pc_buf d ! k) = pg_refcnt (pc_buf c ! k)" using core by (simp add: page_core_def)
  then show ?thesis
    using has_data_core [OF core] same_pages_length [OF assms] by (simp add: free_slot_def)
next
  case False
  then show ?thesis using same_pages_length [OF assms] by (simp add: free_slot_def)
qed

lemma scan_ok_step: "same_pages c d \<Longrightarrow> scan_ok d m \<Longrightarrow> scan_ok c m"
  unfolding scan_ok_def by (metis free_slot_same same_pages_trans)

lemma scan_ok_InrD:
  assumes "scan_ok c (Inr (r, h, c'))"
  shows "same_pages c c'" "r = Some k \<Longrightarrow> free_slot c k"
  using assms by (auto simp: scan_ok_def)

lemma victim_of_scan:
  assumes "cell_wf c" "same_pages c c'" "free_slot c k"
    and "\<And>p. page_core (f p) = page_core p" "\<And>p. is_dirty (f p) = is_dirty p"
      "\<And>p. \<not> data_ready (f p)"
  shows "good_victim c k (upd_page k f c')"
  using assms by (intro good_victim_upd) (auto simp: free_slot_def)

lemma data_ready_reset [simp]: "data_ready (reset_hits p) = data_ready p"
  by (simp add: data_ready_def get_flags_bit_def reset_hits_def)

lemma lower_hits_core [simp]:
  "page_core (lower_hits p) = page_core p" "is_dirty (lower_hits p) = is_dirty p"
  by (simp_all add: lower_hits_def)

lemma same_pages_bookkeeping:
  assumes "cell_wf c" "\<And>p. page_core (f p) = page_core p" "\<And>p. is_dirty (f p) = is_dirty p"
  shows "same_pages c (upd_page k f c)"
  using same_pages_upd [OF same_pages_refl [OF cell_wfD(3) [OF assms(1)]] assms(2,3)] .

section \<open>Clock and generalised clock\<close>

lemma clock_scan_ok:
  assumes "cell_wf c" "0 < pc_num_pages c"
  shows "scan_ok c (clock_scan head nref ndirty avoid c)"
  using assms
proof (induction head nref ndirty avoid c rule: clock_scan.induct)
  case (1 head nref ndirty avoid c)
  let ?n = "pc_num_pages c" and ?k = "pc_maps c ! (unat head mod pc_num_pages c)"
  note wf = 1(4) and n = 1(5)
  have gp: "get_page c (unat head mod ?n) = Inr ?k" using n by (intro get_page_wf [OF wf]) simp
  have same: "same_pages c c" using cell_wfD(3) [OF wf] by (rule same_pages_refl)
  have up: "same_pages c (upd_page ?k reset_hits c)"
    using wf by (rule same_pages_bookkeeping) simp_all
  then have upwf: "cell_wf (upd_page ?k reset_hits c)"
    and upn: "0 < pc_num_pages (upd_page ?k reset_hits c)"
    using wf n by (auto simp: upd_page_simps intro: same_pages_wf)
  obtain nr nd av where rc: "recount ?n nref ndirty avoid = (nr, nd, av)"
    by (cases "recount ?n nref ndirty avoid") auto
  have found: "scan_ok c (Inr (Some ?k, head, c))" if "pg_refcnt (pc_buf c ! ?k) = 0"
    using same that get_page_Inr [OF gp] by (simp add: scan_ok_def free_slot_def)
  have null: "scan_ok c (Inr (None, head, c))" using same by (simp add: scan_ok_def)
  show ?case
    using n gp rc found null 1(1) [OF _ gp rc [symmetric] refl _ _ wf n]
      1(2) [OF _ gp rc [symmetric] refl _ _ wf n]
      scan_ok_step [OF up 1(3) [OF _ gp rc [symmetric] refl _ _ _ upwf upn]]
    by (subst clock_scan.simps) auto
qed

lemma gclock_scan_ok:
  assumes "cell_wf c" "0 < pc_num_pages c"
  shows "scan_ok c (gclock_scan head nref ndirty avoid c)"
  using assms
proof (induction head nref ndirty avoid c rule: gclock_scan.induct)
  case (1 head nref ndirty avoid c)
  let ?n = "pc_num_pages c" and ?k = "pc_maps c ! (unat head mod pc_num_pages c)"
  note wf = 1(4) and n = 1(5)
  have gp: "get_page c (unat head mod ?n) = Inr ?k" using n by (intro get_page_wf [OF wf]) simp
  have same: "same_pages c c" using cell_wfD(3) [OF wf] by (rule same_pages_refl)
  have up: "same_pages c (upd_page ?k lower_hits c)"
    using wf by (rule same_pages_bookkeeping) simp_all
  then have upwf: "cell_wf (upd_page ?k lower_hits c)"
    and upn: "0 < pc_num_pages (upd_page ?k lower_hits c)"
    using wf n by (auto simp: upd_page_simps intro: same_pages_wf)
  obtain nr nd av where rc: "recount ?n nref ndirty avoid = (nr, nd, av)"
    by (cases "recount ?n nref ndirty avoid") auto
  have found: "scan_ok c (Inr (Some ?k, head + 1, c))" if "pg_refcnt (pc_buf c ! ?k) = 0"
    using same that get_page_Inr [OF gp] by (simp add: scan_ok_def free_slot_def)
  have null: "scan_ok c (Inr (None, head + 1, c))" using same by (simp add: scan_ok_def)
  show ?case
    using n gp rc found null 1(1) [OF _ gp rc [symmetric] refl _ _ wf n]
      1(2) [OF _ gp rc [symmetric] refl _ _ wf n]
      scan_ok_step [OF up 1(3) [OF _ gp rc [symmetric] refl _ _ _ upwf upn]]
    by (subst gclock_scan.simps) auto
qed

lemma clock_victim:
  assumes "cell_wf c" "clock_evict_page head c = Inr (r, head', c')"
  shows "r = Some k \<Longrightarrow> good_victim c k c'" "r = None \<Longrightarrow> same_pages c c'"
proof -
  obtain r1 c1 where scan: "clock_scan head 0 0 True c = Inr (r1, head', c1)"
    and r: "r = r1" "c' = (case r1 of None \<Rightarrow> c1
        | Some k \<Rightarrow> upd_page k (reset_hits \<circ> set_data_ready False) c1)"
    using assms(2) by (auto simp: clock_evict_page_def res_simps split: option.splits)
  have "0 < pc_num_pages c"
    using scan by (subst (asm) clock_scan.simps) (simp split: if_splits)
  from clock_scan_ok [OF assms(1) this] scan have ok: "scan_ok c (Inr (r1, head', c1))" by metis
  show "r = Some k \<Longrightarrow> good_victim c k c'" "r = None \<Longrightarrow> same_pages c c'"
    using r scan_ok_InrD [OF ok] by (auto intro!: victim_of_scan [OF assms(1)])
qed

lemma gclock_victim:
  assumes "cell_wf c" "gclock_evict_page head c = Inr (r, head', c')"
  shows "r = Some k \<Longrightarrow> good_victim c k c'" "r = None \<Longrightarrow> same_pages c c'"
proof -
  obtain r1 c1 where scan: "gclock_scan head 0 0 True c = Inr (r1, head', c1)"
    and r: "r = r1" "c' = (case r1 of None \<Rightarrow> c1 | Some k \<Rightarrow> upd_page k (set_data_ready False) c1)"
    using assms(2) by (auto simp: gclock_evict_page_def res_simps split: option.splits)
  have "0 < pc_num_pages c"
    using scan by (subst (asm) gclock_scan.simps) (simp split: if_splits)
  from gclock_scan_ok [OF assms(1) this] scan have ok: "scan_ok c (Inr (r1, head', c1))" by metis
  show "r = Some k \<Longrightarrow> good_victim c k c'" "r = None \<Longrightarrow> same_pages c c'"
    using r scan_ok_InrD [OF ok] by (auto intro!: victim_of_scan [OF assms(1)])
qed

interpretation clock: eviction "\<lambda>_. clock_evict_page" "\<lambda>_ _. True"
  by (rule eviction_stateless) (auto dest: clock_victim)

interpretation gclock: eviction "\<lambda>_. gclock_evict_page" "\<lambda>_ _. True"
  by (rule eviction_stateless) (auto dest: gclock_victim)

section \<open>LFU, FIFO, LRU\<close>

definition vpage :: "page_cell \<Rightarrow> nat \<Rightarrow> page" where
  "vpage c i = pc_buf c ! (pc_maps c ! i)"

lemma free_slot_virtual:
  assumes "cell_wf c" "i < pc_num_pages c" "pg_refcnt (vpage c i) = 0"
  shows "free_slot c (pc_maps c ! i)"
  using assms get_page_Inr [OF get_page_wf [OF assms(1,2)]] by (simp add: free_slot_def vpage_def)

definition least_hits :: "page_cell \<Rightarrow> nat \<Rightarrow> nat option \<Rightarrow> bool" where
  "least_hits c n r \<longleftrightarrow> (case r of
     None \<Rightarrow> \<forall>j < n. pg_refcnt (vpage c j) \<noteq> 0
   | Some k \<Rightarrow> free_slot c k
       \<and> (\<forall>j < n. pg_refcnt (vpage c j) = 0 \<longrightarrow> get_hits (pc_buf c ! k) \<le> get_hits (vpage c j)))"

lemma least_hits_Suc:
  assumes "cell_wf c" "i < pc_num_pages c" "least_hits c i r"
  shows "pg_refcnt (vpage c i) \<noteq> 0 \<Longrightarrow> least_hits c (Suc i) r"
    "pg_refcnt (vpage c i) = 0 \<Longrightarrow> (\<And>k. r = Some k \<Longrightarrow> get_hits (pc_buf c ! k) \<le> get_hits (vpage c i))
      \<Longrightarrow> r \<noteq> None \<Longrightarrow> least_hits c (Suc i) r"
    "pg_refcnt (vpage c i) = 0 \<Longrightarrow> (\<And>k. r = Some k \<Longrightarrow> get_hits (vpage c i) < get_hits (pc_buf c ! k))
      \<Longrightarrow> least_hits c (Suc i) (Some (pc_maps c ! i))"
  using assms free_slot_virtual [OF assms(1,2)]
  by (auto simp: least_hits_def less_Suc_eq vpage_def split: option.splits)

lemma LFU_scan_least:
  assumes "cell_wf c" "i + n = pc_num_pages c" "least_hits c i r"
    "mh = (case r of None \<Rightarrow> 2147483647 | Some k \<Rightarrow> get_hits (pc_buf c ! k))"
  shows "\<exists>r'. LFU_scan i n mh r c = Inr r' \<and> least_hits c (pc_num_pages c) r'"
  using assms(2-)
proof (induction n arbitrary: i mh r)
  case 0
  then show ?case by simp
next
  case (Suc n)
  let ?h = "get_hits (vpage c i)"
  have i: "i < pc_num_pages c" using Suc.prems(1) by simp
  have gp: "get_page c i = Inr (pc_maps c ! i)" using assms(1) i by (rule get_page_wf)
  have vp: "pc_buf c ! (pc_maps c ! i) = vpage c i" by (simp add: vpage_def)
  have sum: "Suc i + n = pc_num_pages c" using Suc.prems(1) by simp
  note next_i = least_hits_Suc [OF assms(1) i Suc.prems(2)]
  have zero: "least_hits c (pc_num_pages c) (Some k)"
    if "least_hits c j (Some k)" "get_hits (pc_buf c ! k) = 0" for j k
    using that by (simp add: least_hits_def)
  consider (ref) "pg_refcnt (vpage c i) \<noteq> 0" | (lower) "pg_refcnt (vpage c i) = 0" "?h < mh"
    | (higher) "pg_refcnt (vpage c i) = 0" "\<not> ?h < mh" by blast
  then show ?case
  proof cases
    case ref
    then show ?thesis using Suc.IH [OF sum next_i(1) Suc.prems(3)] gp vp by simp
  next
    case lower
    then have l: "least_hits c (Suc i) (Some (pc_maps c ! i))"
      using Suc.prems(3) by (intro next_i(3)) auto
    show ?thesis
      using lower gp vp zero [OF l] Suc.IH [OF sum l, of ?h] by (auto simp: Let_def)
  next
    case higher
    then have r: "r \<noteq> None" using Suc.prems(3) get_hits_le [of "vpage c i"] by (cases r) auto
    then obtain k where k: "r = Some k" by blast
    have l: "least_hits c (Suc i) r"
      using higher r k Suc.prems(3) by (intro next_i(2)) auto
    show ?thesis
      using higher gp vp k zero [OF l [unfolded k]] Suc.IH [OF sum l Suc.prems(3)] Suc.prems(3)
      by auto
  qed
qed

lemma LFU_victim:
  assumes "cell_wf c" "LFU_evict_page c = Inr (r, u, c')"
  obtains k where "r = Some k" "good_victim c k c'"
    "\<forall>j < pc_num_pages c. pg_refcnt (vpage c j) = 0 \<longrightarrow> get_hits (pc_buf c ! k) \<le> get_hits (vpage c j)"
proof -
  have "least_hits c 0 None" by (simp add: least_hits_def)
  then obtain r' where scan: "LFU_scan 0 (pc_num_pages c) 2147483647 None c = Inr r'"
    and l: "least_hits c (pc_num_pages c) r'"
    using LFU_scan_least [OF assms(1), of 0 "pc_num_pages c" None 2147483647] by auto
  obtain k where r': "r' = Some k" and r: "r = Some k"
    and c': "c' = upd_page k (reset_hits \<circ> set_data_ready False) c"
    using assms(2) scan by (auto simp: LFU_evict_page_def split: option.splits)
  have "same_pages c c" using cell_wfD(3) [OF assms(1)] by (rule same_pages_refl)
  then have "good_victim c k c'"
    unfolding c' using l r' by (intro victim_of_scan [OF assms(1)]) (auto simp: least_hits_def)
  then show ?thesis using that [of k] r l r' by (simp add: least_hits_def)
qed

interpretation lfu: eviction "\<lambda>_ _. LFU_evict_page" "\<lambda>_ _. True"
  by (rule eviction_stateless) (metis LFU_victim option.inject option.distinct(1))+

lemma get_empty_page_same:
  assumes "cell_wf c" "get_empty_page c = Inr (k, c')"
  shows "same_pages c c'" "k < length (pc_buf c)" "has_data (pc_buf c ! k)"
    "pc_buf c' = pc_buf c"
  using assms get_page_Inr
  by (auto simp: get_empty_page_def res_simps Let_def same_pages_def split: if_splits)

lemma FIFO_scan_ok:
  assumes "cell_wf c" "FIFO_scan n c = Inr (k, c')"
  shows "same_pages c c' \<and> free_slot c k"
  using assms
proof (induction n arbitrary: c)
  case (Suc n)
  from Suc.prems(2) obtain k1 c1 where g: "get_empty_page c = Inr (k1, c1)"
    and rest: "(if pg_refcnt (pc_buf c1 ! k1) \<noteq> 0 then FIFO_scan n c1 else Inr (k1, c1)) = Inr (k, c')"
    by (auto simp: res_simps)
  note e = get_empty_page_same [OF Suc.prems(1) g]
  have "cell_wf c1" using e(1) Suc.prems(1) by (rule same_pages_wf)
  then show ?case
    using Suc.IH [of c1] rest e same_pages_trans [OF e(1)] free_slot_same [OF e(1)]
    by (auto simp: free_slot_def split: if_splits)
qed simp

lemma FIFO_victim:
  assumes "cell_wf c" "FIFO_evict_page c = Inr (r, u, c')"
  obtains k where "r = Some k" "good_victim c k c'"
proof -
  obtain k c1 where scan: "FIFO_scan (pc_num_pages c) c = Inr (k, c1)" and r: "r = Some k"
    and c': "c' = upd_page k (set_data_ready False) c1"
    using assms(2) by (auto simp: FIFO_evict_page_def res_simps)
  have "good_victim c k c'"
    unfolding c' using FIFO_scan_ok [OF assms(1) scan]
    by (intro victim_of_scan [OF assms(1)]) auto
  then show ?thesis using r that by blast
qed

interpretation fifo_pol: eviction "\<lambda>_ _. FIFO_evict_page" "\<lambda>_ _. True"
  by (rule eviction_stateless) (metis FIFO_victim option.inject option.distinct(1))+

lemma LRU_victim:
  assumes "cell_wf c" "LRU_evict_page pv c = Inr (r, pv', c')"
  obtains k where "r = Some k" "good_victim c k c'"
proof -
  obtain pos k where gp: "get_page c pos = Inr k" and r: "r = Some k"
    and ref: "pg_refcnt (pc_buf c ! k) = 0" and c': "c' = upd_page k (set_data_ready False) c"
    using assms(2) by (auto simp: LRU_evict_page_def res_simps split: if_splits)
  have "same_pages c c" using cell_wfD(3) [OF assms(1)] by (rule same_pages_refl)
  then have "good_victim c k c'"
    unfolding c' using get_page_Inr [OF gp] ref
    by (intro victim_of_scan [OF assms(1)]) (auto simp: free_slot_def)
  then show ?thesis using r that by blast
qed

interpretation lru: eviction "\<lambda>_. LRU_evict_page" "\<lambda>_ _. True"
  by (rule eviction_stateless) (metis LRU_victim option.inject option.distinct(1))+

section \<open>Preference for clean pages\<close>

text \<open>
  A page the scans may take at once: unreferenced, clean, no hits. One such page within the
  next round, and no wrap-around of the 32-bit head on the way, and the victim is clean: the
  counts of a round cannot reach the size of the cell before the scan is at that page.
\<close>

definition takeable :: "page \<Rightarrow> bool" where
  "takeable p \<longleftrightarrow> pg_refcnt p = 0 \<and> \<not> is_dirty p \<and> get_hits p = 0"

lemma virtual_distinct:
  assumes "cell_wf c" "i < pc_num_pages c" "j < pc_num_pages c" "i \<noteq> j"
  shows "pc_maps c ! i \<noteq> pc_maps c ! j"
  using assms sorted_used_slots(2) [of "pc_buf c"]
  by (simp add: maps_nth cell_wfD(4) nth_eq_iff_index_eq)

lemma head_step:
  "unat (head :: 32 word) + Suc d < 2 ^ 32 \<Longrightarrow> unat (head + 1) = Suc (unat head)"
  by (simp add: unat_word_ariths)

lemma mod_round_distinct:
  assumes "0 < d" "d < (n :: nat)"
  shows "h mod n \<noteq> (h + d) mod n"
proof
  assume "h mod n = (h + d) mod n"
  then have "n dvd d" by (metis add.commute mod_eq_dvd_iff_nat diff_add_inverse2 le_add2)
  then show False using assms by (simp add: nat_dvd_not_less)
qed

lemma takeable_upd:
  assumes wf: "cell_wf c" and n: "0 < pc_num_pages c" and d: "0 < d" "d < pc_num_pages c"
    and t: "takeable (vpage c ((unat head + d) mod pc_num_pages c))"
  shows "takeable (vpage (upd_page (pc_maps c ! (unat head mod pc_num_pages c)) f c)
    ((unat head + d) mod pc_num_pages c))"
proof -
  have "pc_maps c ! (unat head mod pc_num_pages c) \<noteq> pc_maps c ! ((unat head + d) mod pc_num_pages c)"
    using virtual_distinct [OF wf] mod_round_distinct [OF d] n by simp
  then show ?thesis using t by (simp add: vpage_def upd_page_simps)
qed

lemma upd_page_dirty:
  "(\<And>p. is_dirty (f p) = is_dirty p) \<Longrightarrow>
   is_dirty (pc_buf (upd_page k f c) ! j) = is_dirty (pc_buf c ! j)"
  by (cases "k < length (pc_buf c)")
    (simp_all add: upd_page_simps nth_list_update_if list_update_beyond)

lemma clock_scan_clean:
  assumes "cell_wf c" "takeable (vpage c ((unat head + d) mod pc_num_pages c))"
    "nref + ndirty + d < pc_num_pages c" "unat head + d < 2 ^ 32" "avoid"
  shows "\<exists>k head' c'. clock_scan head nref ndirty avoid c = Inr (Some k, head', c')
    \<and> \<not> is_dirty (pc_buf c ! k)"
  using assms
proof (induction d arbitrary: head nref ndirty avoid c)
  case 0
  then have "get_page c (unat head mod pc_num_pages c) = Inr (pc_maps c ! (unat head mod pc_num_pages c))"
    by (intro get_page_wf) auto
  then show ?case
    using 0 by (subst clock_scan.simps) (auto simp: recount_def takeable_def vpage_def)
next
  case (Suc d)
  let ?n = "pc_num_pages c" and ?k = "pc_maps c ! (unat head mod pc_num_pages c)"
  have n: "0 < ?n" using Suc.prems(3) by simp
  have gp: "get_page c (unat head mod ?n) = Inr ?k"
    using n by (intro get_page_wf [OF Suc.prems(1)]) simp
  have h: "unat (head + 1) = Suc (unat head)" using head_step [of head d] Suc.prems(4) by simp
  have rc: "recount ?n nref ndirty avoid = (nref, ndirty, avoid)"
    using Suc.prems(3) by (simp add: recount_def)
  have up: "same_pages c (upd_page ?k reset_hits c)"
    using Suc.prems(1) by (rule same_pages_bookkeeping) simp_all
  have dirty: "is_dirty (pc_buf (upd_page ?k reset_hits c) ! j) = is_dirty (pc_buf c ! j)" for j
    by (rule upd_page_dirty) simp
  have tu: "takeable (vpage (upd_page ?k reset_hits c)
      ((unat (head + 1) + d) mod pc_num_pages (upd_page ?k reset_hits c)))"
    using takeable_upd [OF Suc.prems(1) n, of "Suc d" head reset_hits] Suc.prems(2,3) h
    by (simp add: upd_page_simps)
  have t: "takeable (vpage c ((unat (head + 1) + d) mod ?n))" using Suc.prems(2) h by simp
  note ih = Suc.IH [OF _ _ _ _ Suc.prems(5), of _ "head + 1"]
  have le: "unat (head + 1) + d < 2 ^ 32" using Suc.prems(4) h by simp
  let ?p = "pc_buf c ! ?k"
  have eq: "clock_scan head nref ndirty avoid c =
     (if pg_refcnt ?p \<noteq> 0 then clock_scan (head + 1) (nref + 1) ndirty avoid c
      else if is_dirty ?p then clock_scan (head + 1) nref (ndirty + 1) avoid c
      else if get_hits ?p = 0 then Inr (Some ?k, head, c)
      else clock_scan (head + 1) nref ndirty avoid (upd_page ?k reset_hits c))"
    using gp n rc Suc.prems(3,5) by (subst clock_scan.simps) simp
  have "\<exists>k head' c'. clock_scan (head + 1) nref ndirty avoid (upd_page ?k reset_hits c)
      = Inr (Some k, head', c') \<and> \<not> is_dirty (pc_buf c ! k)"
    using ih [OF same_pages_wf [OF up Suc.prems(1)] tu _ le, of nref ndirty] Suc.prems(3)
    by (simp add: upd_page_simps(1) dirty)
  then show ?case
    using ih [OF Suc.prems(1) t _ le, of "nref + 1" ndirty]
      ih [OF Suc.prems(1) t _ le, of nref "ndirty + 1"] Suc.prems(3)
    unfolding eq by simp
qed

lemma gclock_scan_clean:
  assumes "cell_wf c" "takeable (vpage c ((unat head + d) mod pc_num_pages c))"
    "nref + ndirty + d < pc_num_pages c" "unat head + d < 2 ^ 32" "avoid"
  shows "\<exists>k head' c'. gclock_scan head nref ndirty avoid c = Inr (Some k, head', c')
    \<and> \<not> is_dirty (pc_buf c ! k)"
  using assms
proof (induction d arbitrary: head nref ndirty avoid c)
  case 0
  then have "get_page c (unat head mod pc_num_pages c) = Inr (pc_maps c ! (unat head mod pc_num_pages c))"
    by (intro get_page_wf) auto
  then show ?case
    using 0 by (subst gclock_scan.simps) (auto simp: recount_def takeable_def vpage_def)
next
  case (Suc d)
  let ?n = "pc_num_pages c" and ?k = "pc_maps c ! (unat head mod pc_num_pages c)"
  have n: "0 < ?n" using Suc.prems(3) by simp
  have gp: "get_page c (unat head mod ?n) = Inr ?k"
    using n by (intro get_page_wf [OF Suc.prems(1)]) simp
  have h: "unat (head + 1) = Suc (unat head)" using head_step [of head d] Suc.prems(4) by simp
  have rc: "recount ?n nref ndirty avoid = (nref, ndirty, avoid)"
    using Suc.prems(3) by (simp add: recount_def)
  have up: "same_pages c (upd_page ?k lower_hits c)"
    using Suc.prems(1) by (rule same_pages_bookkeeping) simp_all
  have dirty: "is_dirty (pc_buf (upd_page ?k lower_hits c) ! j) = is_dirty (pc_buf c ! j)" for j
    by (rule upd_page_dirty) simp
  have tu: "takeable (vpage (upd_page ?k lower_hits c)
      ((unat (head + 1) + d) mod pc_num_pages (upd_page ?k lower_hits c)))"
    using takeable_upd [OF Suc.prems(1) n, of "Suc d" head lower_hits] Suc.prems(2,3) h
    by (simp add: upd_page_simps)
  have t: "takeable (vpage c ((unat (head + 1) + d) mod ?n))" using Suc.prems(2) h by simp
  note ih = Suc.IH [OF _ _ _ _ Suc.prems(5), of _ "head + 1"]
  have le: "unat (head + 1) + d < 2 ^ 32" using Suc.prems(4) h by simp
  let ?p = "pc_buf c ! ?k"
  have eq: "gclock_scan head nref ndirty avoid c =
     (if pg_refcnt ?p \<noteq> 0 then gclock_scan (head + 1) (nref + 1) ndirty avoid c
      else if is_dirty ?p then gclock_scan (head + 1) nref (ndirty + 1) avoid c
      else if get_hits ?p = 0 then Inr (Some ?k, head + 1, c)
      else gclock_scan (head + 1) nref ndirty avoid (upd_page ?k lower_hits c))"
    using gp n rc Suc.prems(3,5) by (subst gclock_scan.simps) simp
  have "\<exists>k head' c'. gclock_scan (head + 1) nref ndirty avoid (upd_page ?k lower_hits c)
      = Inr (Some k, head', c') \<and> \<not> is_dirty (pc_buf c ! k)"
    using ih [OF same_pages_wf [OF up Suc.prems(1)] tu _ le, of nref ndirty] Suc.prems(3)
    by (simp add: upd_page_simps(1) dirty)
  then show ?case
    using ih [OF Suc.prems(1) t _ le, of "nref + 1" ndirty]
      ih [OF Suc.prems(1) t _ le, of nref "ndirty + 1"] Suc.prems(3)
    unfolding eq by simp
qed

section \<open>All pages referenced\<close>

lemma clock_scan_null:
  assumes "cell_wf c" "0 < pc_num_pages c" "\<forall>i < pc_num_pages c. pg_refcnt (vpage c i) \<noteq> 0"
  shows "\<exists>head'. clock_scan head nref ndirty avoid c = Inr (None, head', c)"
  using assms
proof (induction head nref ndirty avoid c rule: clock_scan.induct)
  case (1 head nref ndirty avoid c)
  let ?n = "pc_num_pages c" and ?k = "pc_maps c ! (unat head mod pc_num_pages c)"
  have gp: "get_page c (unat head mod ?n) = Inr ?k" using 1(5) by (intro get_page_wf [OF 1(4)]) simp
  have ref: "pg_refcnt (pc_buf c ! ?k) \<noteq> 0" using 1(5,6) by (simp add: vpage_def)
  obtain nr nd av where rc: "recount ?n nref ndirty avoid = (nr, nd, av)"
    by (cases "recount ?n nref ndirty avoid") auto
  show ?case
    using gp ref rc 1(5) 1(1) [OF _ gp rc [symmetric] refl ref _ 1(4,5,6)]
    by (subst clock_scan.simps) auto
qed

lemma gclock_scan_null:
  assumes "cell_wf c" "0 < pc_num_pages c" "\<forall>i < pc_num_pages c. pg_refcnt (vpage c i) \<noteq> 0"
  shows "\<exists>head'. gclock_scan head nref ndirty avoid c = Inr (None, head', c)"
  using assms
proof (induction head nref ndirty avoid c rule: gclock_scan.induct)
  case (1 head nref ndirty avoid c)
  let ?n = "pc_num_pages c" and ?k = "pc_maps c ! (unat head mod pc_num_pages c)"
  have gp: "get_page c (unat head mod ?n) = Inr ?k" using 1(5) by (intro get_page_wf [OF 1(4)]) simp
  have ref: "pg_refcnt (pc_buf c ! ?k) \<noteq> 0" using 1(5,6) by (simp add: vpage_def)
  obtain nr nd av where rc: "recount ?n nref ndirty avoid = (nr, nd, av)"
    by (cases "recount ?n nref ndirty avoid") auto
  show ?case
    using gp ref rc 1(5) 1(1) [OF _ gp rc [symmetric] refl ref _ 1(4,5,6)]
    by (subst gclock_scan.simps) auto
qed

section \<open>LIFO and random\<close>

lemma LIFO_scan_free:
  assumes "cell_wf c" "LIFO_scan reads nref ndirty avoid c = Inr (Some (off, k))"
  shows "free_slot c k \<and> k = pc_maps c ! off"
  using assms
proof (induction reads nref ndirty avoid c rule: LIFO_scan.induct)
  case (3 off' reads nref ndirty avoid c)
  show ?case
  proof (cases "off' = pc_num_pages c")
    case True
    then show ?thesis using 3 by auto
  next
    case False
    then obtain k' where gp: "get_page c off' = Inr k'" using 3(5) by (auto simp: res_simps)
    obtain nr nd av where rc: "recount (pc_num_pages c) nref ndirty avoid = (nr, nd, av)"
      by (cases "recount (pc_num_pages c) nref ndirty avoid") auto
    show ?thesis
      using 3(5) False gp rc get_page_Inr [OF gp] 3(2) [OF False gp rc [symmetric] refl _ _ 3(4)]
        3(3) [OF False gp rc [symmetric] refl _ _ 3(4)]
      by (auto simp: free_slot_def split: if_splits)
  qed
qed simp_all

text \<open>While the cell warms up, the pages not handed out yet are unused.\<close>

definition lifo_inv :: "lifo_policy \<Rightarrow> page_cell \<Rightarrow> bool" where
  "lifo_inv pol c \<longleftrightarrow> lp_warm_up pol \<longrightarrow>
     lp_lifo_head pol < pc_num_pages c \<and> lp_num_entry pol = lp_lifo_head pol
     \<and> (\<forall>i < pc_num_pages c. lp_lifo_head pol \<le> i \<longrightarrow>
          pg_refcnt (vpage c i) = 0 \<and> \<not> is_valid (vpage c i))"

lemma vpage_agree:
  assumes "cell_wf c" "agree_except k c c'" "i < pc_num_pages c" "pc_maps c ! i \<noteq> k"
  shows "pg_refcnt (vpage c' i) = pg_refcnt (vpage c i)" "is_valid (vpage c' i) = is_valid (vpage c i)"
proof -
  have "page_core (pc_buf c' ! (pc_maps c ! i)) = page_core (pc_buf c ! (pc_maps c ! i))"
    using assms maps_used(1) [OF assms(1,3)] cell_wfD(1) [OF assms(1)] by (simp add: agree_except_def)
  then show "pg_refcnt (vpage c' i) = pg_refcnt (vpage c i)"
    "is_valid (vpage c' i) = is_valid (vpage c i)"
    using assms(2) by (simp_all add: vpage_def agree_except_def page_core_def is_valid_def)
qed

lemma LIFO_warm_up_step:
  assumes "LIFO_evict_page sent pol c = Inr (r, pol', c')" "lp_warm_up pol"
    "cell_wf c" "lifo_inv pol c"
  shows "r = Some (pc_maps c ! lp_lifo_head pol)" "free_slot c (pc_maps c ! lp_lifo_head pol)"
    "c' = upd_page (pc_maps c ! lp_lifo_head pol) (set_data_ready False) c"
    "lp_lifo_head pol' = Suc (lp_lifo_head pol)" "lp_num_entry pol' = Suc (lp_num_entry pol)"
    "lp_warm_up pol' \<longleftrightarrow> Suc (lp_num_entry pol) < pc_num_pages c"
  using assms get_page_wf [of c "lp_lifo_head pol"] free_slot_virtual [of c "lp_lifo_head pol"]
  by (auto simp: LIFO_evict_page_def lifo_inv_def res_simps split: if_splits)

lemma LIFO_settled_step:
  assumes "LIFO_evict_page sent pol c = Inr (r, pol', c')" "\<not> lp_warm_up pol" "cell_wf c"
  shows "\<not> lp_warm_up pol'" "r = None \<Longrightarrow> c' = c"
    "r = Some k \<Longrightarrow> free_slot c k \<and> c' = upd_page k (set_data_ready False) c"
proof -
  obtain s where scan: "LIFO_scan (back_reads sent (lp_lifo_lt pol)) 0 0 True c = Inr s"
    and res: "(case s of None \<Rightarrow> Inr (None, pol, c) | Some (off, k) \<Rightarrow>
        Inr (Some k, pol\<lparr>lp_lifo_head := off, lp_lifo_lt := removeAll off (lp_lifo_lt pol) @ [off]\<rparr>,
          upd_page k (set_data_ready False) c)) = (Inr (r, pol', c') :: _ res)"
    using assms(1,2) by (auto simp: LIFO_evict_page_def res_simps)
  show "\<not> lp_warm_up pol'" "r = None \<Longrightarrow> c' = c"
    "r = Some k \<Longrightarrow> free_slot c k \<and> c' = upd_page k (set_data_ready False) c"
    using res assms(2) LIFO_scan_free [OF assms(3)] scan by (auto split: option.splits)
qed

lemma LIFO_victim:
  assumes "cell_wf c" "lifo_inv pol c" "LIFO_evict_page sent pol c = Inr (Some k, pol', c')"
  shows "good_victim c k c'"
proof -
  have "same_pages c c" using cell_wfD(3) [OF assms(1)] by (rule same_pages_refl)
  moreover have "free_slot c k \<and> c' = upd_page k (set_data_ready False) c"
    using LIFO_warm_up_step(1,2,3) [OF assms(3) _ assms(1,2)]
      LIFO_settled_step(3) [OF assms(3) _ assms(1)]
    by (cases "lp_warm_up pol") auto
  ultimately show ?thesis by (auto intro!: victim_of_scan [OF assms(1)])
qed

lemma LIFO_inv_evict:
  assumes "cell_wf c" "lifo_inv pol c" "LIFO_evict_page sent pol c = Inr (Some k, pol', c')"
    "agree_except k c' c''"
  shows "lifo_inv pol' c''"
proof (cases "lp_warm_up pol")
  case True
  note st = LIFO_warm_up_step [OF assms(3) True assms(1,2)]
  have k: "k = pc_maps c ! lp_lifo_head pol" using st(1) by simp
  have "same_pages c c'"
    unfolding st(3) using assms(1) by (rule same_pages_bookkeeping) simp_all
  then have agree: "agree_except k c c''"
    using assms(4) same_pages_agree agree_except_trans by blast
  then have n: "pc_num_pages c'' = pc_num_pages c" by (simp add: agree_except_def)
  have inv: "lp_lifo_head pol < pc_num_pages c" "lp_num_entry pol = lp_lifo_head pol"
    "\<And>i. i < pc_num_pages c \<Longrightarrow> lp_lifo_head pol \<le> i \<Longrightarrow>
       pg_refcnt (vpage c i) = 0 \<and> \<not> is_valid (vpage c i)"
    using assms(2) True by (simp_all add: lifo_inv_def)
  have "pg_refcnt (vpage c'' i) = 0 \<and> \<not> is_valid (vpage c'' i)"
    if i: "i < pc_num_pages c" "Suc (lp_lifo_head pol) \<le> i" for i
  proof -
    have "pc_maps c ! i \<noteq> k"
      unfolding k using virtual_distinct [OF assms(1) i(1) inv(1)] i(2) by simp
    then show ?thesis
      using vpage_agree [OF assms(1) agree i(1)] inv(3) [OF i(1)] i(2) by simp
  qed
  then show ?thesis using st n inv(2) by (simp add: lifo_inv_def)
next
  case False
  then show ?thesis using LIFO_settled_step(1) [OF assms(3) False assms(1)] by (simp add: lifo_inv_def)
qed

lemma LIFO_inv_use:
  assumes "cell_wf c" "lifo_inv pol c" "is_valid (pc_buf c ! k)" "agree_except k c c''"
  shows "lifo_inv pol c''"
proof -
  have "pc_maps c ! i \<noteq> k" if "\<not> is_valid (vpage c i)" for i
    using that assms(3) by (auto simp: vpage_def)
  then have "pg_refcnt (vpage c'' i) = 0 \<and> \<not> is_valid (vpage c'' i)"
    if "i < pc_num_pages c" "pg_refcnt (vpage c i) = 0 \<and> \<not> is_valid (vpage c i)" for i
    using that vpage_agree [OF assms(1,4)] by simp
  moreover have "pc_num_pages c'' = pc_num_pages c" using assms(4) by (simp add: agree_except_def)
  ultimately show ?thesis using assms(2) by (simp add: lifo_inv_def)
qed

lemma LIFO_none:
  assumes "cell_wf c" "lifo_inv pol c" "LIFO_evict_page sent pol c = Inr (None, pol', c')"
  shows "same_pages c c' \<and> lifo_inv pol' c'"
proof -
  have "\<not> lp_warm_up pol" using LIFO_warm_up_step(1) [OF assms(3) _ assms(1,2)] by auto
  then show ?thesis
    using LIFO_settled_step [OF assms(3) _ assms(1)] cell_wfD(3) [OF assms(1)]
    by (auto simp: lifo_inv_def intro: same_pages_refl)
qed

interpretation lifo: eviction "\<lambda>_. LIFO_evict_page sent" lifo_inv for sent
  by unfold_locales
    (erule (2) LIFO_victim, erule (2) LIFO_none, erule (3) LIFO_inv_evict, erule (3) LIFO_inv_use)

text \<open>
  The scan runs through the list from its back and stops at the first page that is unreferenced
  and clean; until then the counts stay below the size of the cell.
\<close>

lemma LIFO_scan_first:
  assumes wf: "cell_wf c" and good: "off < pc_num_pages c" "pg_refcnt (vpage c off) = 0"
      "\<not> is_dirty (vpage c off)"
    and bad: "\<forall>i \<in> set pre. i < pc_num_pages c \<and> (pg_refcnt (vpage c i) \<noteq> 0 \<or> is_dirty (vpage c i))"
    and count: "nref + ndirty + length pre < pc_num_pages c"
  shows "LIFO_scan (map Some pre @ Some off # rest) nref ndirty True c
    = Inr (Some (off, pc_maps c ! off))"
  using bad count
proof (induction pre arbitrary: nref ndirty)
  case Nil
  then show ?case
    using good get_page_wf [OF wf good(1)] by (simp add: recount_def vpage_def)
next
  case (Cons i pre)
  have "get_page c i = Inr (pc_maps c ! i)" using wf Cons.prems(1) by (intro get_page_wf) auto
  then show ?case
    using Cons.IH [of "Suc nref" ndirty] Cons.IH [of nref "Suc ndirty"] Cons.prems
    by (auto simp: recount_def vpage_def)
qed

lemma LIFO_picks_latest:
  assumes wf: "cell_wf c" and settled: "\<not> lp_warm_up pol"
    and lt: "lp_lifo_lt pol = old @ off # newer"
    and good: "off < pc_num_pages c" "pg_refcnt (vpage c off) = 0" "\<not> is_dirty (vpage c off)"
    and bad: "\<forall>i \<in> set newer. i < pc_num_pages c
      \<and> (pg_refcnt (vpage c i) \<noteq> 0 \<or> is_dirty (vpage c i))"
    and len: "length newer < pc_num_pages c"
  shows "LIFO_evict_page sent pol c = Inr (Some (pc_maps c ! off),
     pol\<lparr>lp_lifo_head := off, lp_lifo_lt := removeAll off (lp_lifo_lt pol) @ [off]\<rparr>,
     upd_page (pc_maps c ! off) (set_data_ready False) c)"
proof -
  have "back_reads sent (lp_lifo_lt pol) = map Some (rev newer) @ Some off #
      (map Some (rev old) @ sent # concat (replicate 3 (map Some (rev (lp_lifo_lt pol)) @ [sent])))"
    by (simp add: back_reads_def lt numeral_eq_Suc)
  then have "LIFO_scan (back_reads sent (lp_lifo_lt pol)) 0 0 True c
      = Inr (Some (off, pc_maps c ! off))"
    using LIFO_scan_first [OF wf good, of "rev newer" 0 0] bad len by simp
  then show ?thesis using settled by (simp add: LIFO_evict_page_def)
qed

lemma random_scan_free:
  assumes "cell_wf c" "random_scan rands nref ndirty avoid c = Inr (Some k)"
  shows "free_slot c k"
  using assms
proof (induction rands nref ndirty avoid c rule: random_scan.induct)
  case (2 r rands nref ndirty avoid c)
  have n: "pc_num_pages c \<noteq> 0" using 2(4) by (auto split: if_splits)
  then obtain k' where gp: "get_page c (r mod pc_num_pages c) = Inr k'"
    using 2(4) by (auto simp: res_simps)
  obtain nr nd av where rc: "recount (pc_num_pages c) nref ndirty avoid = (nr, nd, av)"
    by (cases "recount (pc_num_pages c) nref ndirty avoid") auto
  show ?case
    using 2(4) n gp rc get_page_Inr [OF gp] 2(1) [OF n gp rc [symmetric] refl _ _ 2(3)]
      2(2) [OF n gp rc [symmetric] refl _ _ 2(3)]
    by (auto simp: free_slot_def split: if_splits)
qed simp

lemma random_step:
  assumes "cell_wf c" "\<not> rp_warm_up pol" "random_evict_page rands pol c = Inr (r, pol', c')"
  shows "pol' = pol" "r = Some k \<Longrightarrow> good_victim c k c'" "r = None \<Longrightarrow> same_pages c c'"
proof -
  have same: "same_pages c c" using cell_wfD(3) [OF assms(1)] by (rule same_pages_refl)
  obtain s where scan: "random_scan rands 0 0 True c = Inr s"
    and res: "(case s of None \<Rightarrow> Inr (None, pol, c)
      | Some k \<Rightarrow> Inr (Some k, pol, upd_page k (set_data_ready False) c)) = (Inr (r, pol', c') :: _ res)"
    using assms(2,3) by (auto simp: random_evict_page_def res_simps)
  show "pol' = pol" "r = Some k \<Longrightarrow> good_victim c k c'" "r = None \<Longrightarrow> same_pages c c'"
    using res same random_scan_free [OF assms(1)] scan
    by (auto split: option.splits intro!: victim_of_scan [OF assms(1)])
qed

interpretation random: eviction "\<lambda>_. random_evict_page rands" "\<lambda>pol _. \<not> rp_warm_up pol" for rands
  by unfold_locales (auto dest: random_step)

end
