(* ===== verification/Policy_Props.thy ===== *)
theory Policy_Props
  imports Policy_Proofs
begin

text \<open>The properties of the eviction policies other than APR.\<close>

text \<open>Examples: a cell of two clean pages, one of them in use.\<close>

definition two_pages :: page_cell where
  "two_pages = sample_cell [sample_page 0 7 1 0, sample_page 4096 8 0 1]"

lemma two_pages_wf: "cell_wf two_pages" "pc_num_pages two_pages = 2"
  unfolding two_pages_def by (rule sample_cell_wf) (simp_all add: sample_cell_def)

lemma two_pages_vpage:
  "vpage two_pages 0 = sample_page 0 7 1 0" "vpage two_pages 1 = sample_page 4096 8 0 1"
  by (simp_all add: vpage_def sample_cell_def two_pages_def)

lemma sample_cell_eval:
  "pc_num_pages (sample_cell ps) = length ps"
  "i < length ps \<Longrightarrow> pc_maps (sample_cell ps) ! i = i"
  "i < length ps \<Longrightarrow> pc_buf (sample_cell ps) ! i = ps ! i"
  by (simp_all add: sample_cell_def nth_append)

text \<open>
  The clock policy always returns: on every well-formed cell that has a page, from every
  position of its head, it finds a page nobody references and only marks that page's data as not
  ready and clears reference bits, or it answers \<^verbatim>\<open>NULL\<close> and leaves every page's location, memory,
  reference count and dirty bit alone.
\<close>

theorem clock_evict_page_total:
  assumes "cell_wf c" "0 < pc_num_pages c"
  shows "\<exists>r head' c'. clock_evict_page head c = Inr (r, head', c')
    \<and> (case r of None \<Rightarrow> same_pages c c' | Some k \<Rightarrow> good_victim c k c')"
proof -
  obtain r1 h c1 where "clock_scan head 0 0 True c = Inr (r1, h, c1)"
    using clock_scan_ok [OF assms, of head 0 0 True] by (auto simp: scan_ok_def)
  then obtain r head' c' where e: "clock_evict_page head c = Inr (r, head', c')"
    by (cases r1) (auto simp: clock_evict_page_def)
  then show ?thesis using clock_victim [OF assms(1) e] by (auto split: option.split)
qed

theorem clock_evict_page_total_witness:
  "\<exists>r head' c'. clock_evict_page 5 two_pages = Inr (r, head', c')
    \<and> (case r of None \<Rightarrow> same_pages two_pages c' | Some k \<Rightarrow> good_victim two_pages k c')"
  using clock_evict_page_total [OF two_pages_wf(1), of 5] two_pages_wf(2) by simp

text \<open>The same for the generalised clock, whose scan lowers hit counters one by one.\<close>

theorem gclock_evict_page_total:
  assumes "cell_wf c" "0 < pc_num_pages c"
  shows "\<exists>r head' c'. gclock_evict_page head c = Inr (r, head', c')
    \<and> (case r of None \<Rightarrow> same_pages c c' | Some k \<Rightarrow> good_victim c k c')"
proof -
  obtain r1 h c1 where "gclock_scan head 0 0 True c = Inr (r1, h, c1)"
    using gclock_scan_ok [OF assms, of head 0 0 True] by (auto simp: scan_ok_def)
  then obtain r head' c' where e: "gclock_evict_page head c = Inr (r, head', c')"
    by (cases r1) (auto simp: gclock_evict_page_def)
  then show ?thesis using gclock_victim [OF assms(1) e] by (auto split: option.split)
qed

theorem gclock_evict_page_total_witness:
  "\<exists>r head' c'. gclock_evict_page 5 two_pages = Inr (r, head', c')
    \<and> (case r of None \<Rightarrow> same_pages two_pages c' | Some k \<Rightarrow> good_victim two_pages k c')"
  using gclock_evict_page_total [OF two_pages_wf(1), of 5] two_pages_wf(2) by simp

text \<open>
  The clock policy spares dirty pages: when a page that is unreferenced, clean and not recently
  hit lies within one lap of the head, the victim is a clean page.
\<close>

theorem clock_evicts_clean:
  assumes "cell_wf c" "d < pc_num_pages c" "unat head + d < 2 ^ 32"
    "takeable (vpage c ((unat head + d) mod pc_num_pages c))"
  shows "\<exists>k head' c'. clock_evict_page head c = Inr (Some k, head', c') \<and> \<not> is_dirty (pc_buf c ! k)"
  using clock_scan_clean [OF assms(1,4), of 0 0 True] assms(2,3) by (auto simp: clock_evict_page_def)

abbreviation idle_cell :: page_cell where
  "idle_cell \<equiv> sample_cell [sample_page 0 7 0 0, sample_page 4096 8 0 0]"

lemma idle_cell_wf: "cell_wf idle_cell"
  by (rule sample_cell_wf) simp_all

theorem clock_evicts_clean_witness:
  "\<exists>k head' c'. clock_evict_page 0 idle_cell = Inr (Some k, head', c') \<and> \<not> is_dirty (pc_buf idle_cell ! k)"
  using clock_evicts_clean [OF idle_cell_wf, of 1 0]
  by (simp add: sample_cell_eval takeable_def vpage_def flag_get_defs get_flags_bit_def)

text \<open>When every page of the cell is referenced, the clock policy answers \<^verbatim>\<open>NULL\<close> and changes no page.\<close>

theorem clock_all_referenced:
  assumes "cell_wf c" "0 < pc_num_pages c" "\<forall>i < pc_num_pages c. pg_refcnt (vpage c i) \<noteq> 0"
  shows "\<exists>head'. clock_evict_page head c = Inr (None, head', c)"
  using clock_scan_null [OF assms, of head 0 0 True] by (auto simp: clock_evict_page_def)

theorem clock_all_referenced_witness:
  "\<exists>head'. clock_evict_page 0 (sample_cell [sample_page 0 7 1 0]) = Inr (None, head', sample_cell [sample_page 0 7 1 0])"
proof -
  have "cell_wf (sample_cell [sample_page 0 7 1 0])" by (rule sample_cell_wf) simp_all
  from clock_all_referenced [OF this, of 0] show ?thesis
    by (simp add: sample_cell_eval vpage_def)
qed

text \<open>
  The converse fails: the clock policy counts a referenced page once per lap, so it can
  answer \<^verbatim>\<open>NULL\<close> on a cell that has an unreferenced page (here the second of two pages, hit once).
\<close>

theorem clock_null_with_free_page:
  "\<exists>head' c'. clock_evict_page 0 two_pages = Inr (None, head', c') \<and> pg_refcnt (vpage two_pages 1) = 0"
proof -
  define c1 where "c1 = upd_page 1 reset_hits two_pages"
  have nd: "\<not> is_dirty (sample_page off d ref h)" for off d ref h
    by (simp add: flag_get_defs get_flags_bit_def)
  have b: "pc_buf two_pages ! 0 = sample_page 0 7 1 0" "pc_buf two_pages ! 1 = sample_page 4096 8 0 1"
    "pc_maps two_pages ! 0 = 0" "pc_maps two_pages ! 1 = 1"
    by (simp_all add: two_pages_def sample_cell_eval)
  have c1: "pc_num_pages c1 = 2" "pc_maps c1 ! 0 = 0" "pc_buf c1 ! 0 = sample_page 0 7 1 0" "cell_wf c1"
    using b two_pages_wf(2) cell_wf_upd_page [OF two_pages_wf(1), of reset_hits]
    by (simp_all add: c1_def upd_page_simps has_data_def reset_hits_def)
  have g: "get_page two_pages 0 = Inr 0" "get_page two_pages 1 = Inr 1" "get_page c1 0 = Inr 0"
    using get_page_wf [OF two_pages_wf(1)] get_page_wf [OF c1(4)] two_pages_wf(2) b c1 by simp_all
  have 3: "clock_scan 2 1 0 True c1 = Inr (None, 2, c1)"
    by (subst clock_scan.simps) (simp add: c1 g recount_def)
  have 2: "clock_scan 1 1 0 True two_pages = Inr (None, 2, c1)"
    using 3 by (subst clock_scan.simps)
      (simp add: two_pages_wf(2) g b recount_def nd c1_def [symmetric] del: One_nat_def)
  have 1: "clock_scan 0 0 0 True two_pages = Inr (None, 2, c1)"
    using 2 by (subst clock_scan.simps) (simp add: two_pages_wf(2) g b recount_def del: One_nat_def)
  show ?thesis using two_pages_vpage(2) by (simp add: clock_evict_page_def 1)
qed

text \<open>
  When the LFU policy returns, its victim is an unreferenced page and no unreferenced page of
  the cell has fewer hits.
\<close>

theorem LFU_evicts_least_hits:
  assumes "cell_wf c" "LFU_evict_page c = Inr (r, u, c')"
  shows "\<exists>k. r = Some k \<and> good_victim c k c'
    \<and> (\<forall>j < pc_num_pages c. pg_refcnt (vpage c j) = 0 \<longrightarrow> get_hits (pc_buf c ! k) \<le> get_hits (vpage c j))"
  using LFU_victim [OF assms] by metis

theorem LFU_evicts_least_hits_witness:
  "\<exists>k c'. LFU_evict_page two_pages = Inr (Some k, (), c') \<and> good_victim two_pages k c'"
proof -
  have "LFU_evict_page two_pages = Inr (Some 1, (), upd_page 1 (reset_hits \<circ> set_data_ready False) two_pages)"
    using get_page_wf [OF two_pages_wf(1), of 0] get_page_wf [OF two_pages_wf(1), of 1] two_pages_wf(2)
    by (simp add: LFU_evict_page_def two_pages_def sample_cell_eval numeral_2_eq_2)
  from LFU_evicts_least_hits [OF two_pages_wf(1) this] this show ?thesis by auto
qed

text \<open>
  Past its warm-up, the LIFO policy evicts the most recently used index whose page is neither
  referenced nor dirty, when all indices used later are referenced or dirty and do not fill the
  cell; that index becomes the most recent one.
\<close>

theorem LIFO_evicts_latest:
  assumes "cell_wf c" "\<not> lp_warm_up pol" "lp_lifo_lt pol = old @ off # newer"
    "off < pc_num_pages c" "pg_refcnt (vpage c off) = 0" "\<not> is_dirty (vpage c off)"
    "\<forall>i \<in> set newer. i < pc_num_pages c \<and> (pg_refcnt (vpage c i) \<noteq> 0 \<or> is_dirty (vpage c i))"
    "length newer < pc_num_pages c"
  shows "LIFO_evict_page sent pol c = Inr (Some (pc_maps c ! off),
     pol\<lparr>lp_lifo_head := off, lp_lifo_lt := removeAll off (lp_lifo_lt pol) @ [off]\<rparr>,
     upd_page (pc_maps c ! off) (set_data_ready False) c)"
  using assms by (rule LIFO_picks_latest)

theorem LIFO_evicts_latest_witness:
  "\<exists>pol'. LIFO_evict_page None \<lparr>lp_num_entry = 2, lp_lifo_head = 2, lp_lifo_lt = [1, 0], lp_warm_up = False\<rparr>
      two_pages = Inr (Some 1, pol', upd_page 1 (set_data_ready False) two_pages) \<and> lp_lifo_lt pol' = [0, 1]"
  using LIFO_evicts_latest [OF two_pages_wf(1), of "\<lparr>lp_num_entry = 2, lp_lifo_head = 2,
      lp_lifo_lt = [1, 0], lp_warm_up = False\<rparr>" "[]" 1 "[0]" None]
  by (simp add: two_pages_def sample_cell_eval vpage_def flag_get_defs get_flags_bit_def)

text \<open>When the LRU policy returns, its victim is an unreferenced page of the cell and the victim's
  position becomes the most recently used one.\<close>

theorem LRU_evicts_unreferenced:
  assumes "cell_wf c" "LRU_evict_page pos c = Inr (r, pos', c')"
  shows "\<exists>k i. r = Some k \<and> good_victim c k c' \<and> k = pc_maps c ! i \<and> last pos' = i"
proof -
  obtain k where "r = Some k" "good_victim c k c'" using LRU_victim [OF assms] by metis
  moreover have "k = pc_maps c ! last pos'" if "r = Some k"
    using assms(2) that get_page_Inr by (auto simp: LRU_evict_page_def res_simps split: if_splits list.splits)
  ultimately show ?thesis by auto
qed

theorem LRU_evicts_unreferenced_witness:
  "\<exists>k c'. LRU_evict_page [] idle_cell = Inr (Some k, [0], c') \<and> good_victim idle_cell k c'"
proof -
  have "LRU_evict_page [] idle_cell = Inr (Some 0, [0], upd_page 0 (set_data_ready False) idle_cell)"
    using get_page_wf [OF idle_cell_wf, of 0] by (simp add: LRU_evict_page_def sample_cell_eval)
  from LRU_evicts_unreferenced [OF idle_cell_wf this] this show ?thesis by auto
qed

end
