(* ===== verification/APR.thy ===== *)
theory APR
  imports Policy_Proofs Complex_Main
begin

text \<open>
  The adaptive policy \<^verbatim>\<open>APR_eviction_policy\<close> of \<^verbatim>\<open>libsafs/associative_cache.cpp\<close>, the policy the
  build selects. A sampled cell (a voter) runs a clock scan and a LIFO scan on every miss, lets the
  two victims challenge each other and adds the rewards to a local and a global score; the sign
  of the global score is the policy of all other cells (the followers).

  Every routine is a function on \<open>apr_ctx\<close>: the policy object, the global variables it shares with
  the other cells and the page buffer it is called on. A page pointer is a slot of the buffer.
  \<^verbatim>\<open>unsigned int\<close> members are 32-bit words (an \<^verbatim>\<open>int\<close> index that was computed from one is
  the same word: indices are only compared for equality and used to subscript), \<^verbatim>\<open>time\<close> and
  \<^verbatim>\<open>stime\<close> are 64-bit words. Scores are exact rationals where the code has \<^verbatim>\<open>double\<close>: rounding
  and underflow of the rewards are abstracted away, everything else about them is kept.
  Subscripts outside \<^verbatim>\<open>global_ghost\<close>, \<^verbatim>\<open>clock_page\<close> or \<^verbatim>\<open>lifo_page\<close> are the outcome
  \<open>Undefined_behaviour\<close>. \<^verbatim>\<open>update_hash\<close> stores a number that nothing reads.
\<close>

section \<open>State\<close>

definition DECAY_FACTOR_DEFAULT :: rat where "DECAY_FACTOR_DEFAULT = 7 / 10"

abbreviation (input) CLOCK :: bool where "CLOCK \<equiv> False"
abbreviation (input) LIFO :: bool where "LIFO \<equiv> True"

definition MAX_POW_BIT :: nat where [simp]: "MAX_POW_BIT = 64"
definition APR_SAMPLE_SIZE :: int where [simp]: "APR_SAMPLE_SIZE = 100"

record ghost_t =
  gh_present :: bool
  gh_policy :: bool
  gh_pg_idx :: "32 word"
  gh_stime :: "64 word"

record apr_global =
  gl_ghost :: "ghost_t list"
  gl_score :: rat
  gl_policy :: bool
  gl_time_check :: int

record apr_policy =
  ap_sample :: bool
  ap_policy :: bool
  ap_warm_up :: bool
  ap_default_policy :: bool
  ap_clock_head :: "32 word"
  ap_lifo_head :: "32 word"
  ap_lifo_lt :: "32 word list"
  ap_lifo_page :: "bool list"
  ap_clock_page :: "bool list"
  ap_curr_score :: rat
  ap_local_score :: rat
  ap_num_entry :: nat
  ap_time :: "64 word"

record apr_ctx =
  cx_pol :: apr_policy
  cx_glob :: apr_global
  cx_buf :: page_cell

definition APR_init :: "nat \<Rightarrow> apr_policy" where
  "APR_init min_cell_size = \<lparr>ap_sample = False, ap_policy = LIFO, ap_warm_up = True,
     ap_default_policy = LIFO, ap_clock_head = 0, ap_lifo_head = 0,
     ap_lifo_lt = map of_nat [0..<min_cell_size],
     ap_lifo_page = replicate min_cell_size False, ap_clock_page = replicate min_cell_size False,
     ap_curr_score = 0, ap_local_score = 1, ap_num_entry = 0, ap_time = 0\<rparr>"

definition notify_sample :: "apr_policy \<Rightarrow> apr_policy" where
  "notify_sample pol = pol\<lparr>ap_sample := True\<rparr>"

text \<open>\<^verbatim>\<open>create_array\<close> makes the first \<^verbatim>\<open>APR_SAMPLE_SIZE\<close> cells of an array voters.\<close>

definition sampled_policies :: "nat \<Rightarrow> nat \<Rightarrow> apr_policy list" where
  "sampled_policies min_cell_size num =
     map (\<lambda>i. if 0 < APR_SAMPLE_SIZE - int i then notify_sample (APR_init min_cell_size)
              else APR_init min_cell_size) [0..<num]"

definition upd_pol :: "(apr_policy \<Rightarrow> apr_policy) \<Rightarrow> apr_ctx \<Rightarrow> apr_ctx" where
  "upd_pol f cx = cx\<lparr>cx_pol := f (cx_pol cx)\<rparr>"

definition upd_pg :: "nat \<Rightarrow> (page \<Rightarrow> page) \<Rightarrow> apr_ctx \<Rightarrow> apr_ctx" where
  "upd_pg k f cx = cx\<lparr>cx_buf := upd_page k f (cx_buf cx)\<rparr>"

definition cx_page :: "apr_ctx \<Rightarrow> nat \<Rightarrow> page" where
  "cx_page cx k = pc_buf (cx_buf cx) ! k"

section \<open>Ghosts and stale marks\<close>

definition ghost_at :: "int \<Rightarrow> apr_ctx \<Rightarrow> ghost_t res" where
  "ghost_at off cx =
     (if 0 \<le> off \<and> off < int (length (gl_ghost (cx_glob cx)))
      then Inr (gl_ghost (cx_glob cx) ! nat off) else Inl Undefined_behaviour)"

definition put_ghost :: "int \<Rightarrow> ghost_t \<Rightarrow> apr_ctx \<Rightarrow> apr_ctx" where
  "put_ghost off gh cx =
     cx\<lparr>cx_glob := (cx_glob cx)\<lparr>gl_ghost := (gl_ghost (cx_glob cx))[nat off := gh]\<rparr>\<rparr>"

definition clear_ghost :: "int \<Rightarrow> apr_ctx \<Rightarrow> apr_ctx res" where
  "clear_ghost off cx =
     bind_res (ghost_at off cx) (\<lambda>gh. Inr (put_ghost off (gh\<lparr>gh_present := False\<rparr>) cx))"

definition stale_at :: "bool list \<Rightarrow> 32 word \<Rightarrow> bool res" where
  "stale_at l i = (if unat i < length l then Inr (l ! unat i) else Inl Undefined_behaviour)"

definition set_clock_stale :: "32 word \<Rightarrow> bool \<Rightarrow> apr_ctx \<Rightarrow> apr_ctx res" where
  "set_clock_stale i v cx =
     bind_res (stale_at (ap_clock_page (cx_pol cx)) i) (\<lambda>_.
       Inr (upd_pol (\<lambda>p. p\<lparr>ap_clock_page := (ap_clock_page p)[unat i := v]\<rparr>) cx))"

definition set_lifo_stale :: "32 word \<Rightarrow> bool \<Rightarrow> apr_ctx \<Rightarrow> apr_ctx res" where
  "set_lifo_stale i v cx =
     bind_res (stale_at (ap_lifo_page (cx_pol cx)) i) (\<lambda>_.
       Inr (upd_pol (\<lambda>p. p\<lparr>ap_lifo_page := (ap_lifo_page p)[unat i := v]\<rparr>) cx))"

definition is_ghost :: "int \<Rightarrow> apr_ctx \<Rightarrow> bool res" where
  "is_ghost off cx = bind_res (ghost_at off cx) (\<lambda>gh. Inr (gh_present gh))"

definition reg_ghost :: "nat \<Rightarrow> 32 word \<Rightarrow> apr_ctx \<Rightarrow> apr_ctx res" where
  "reg_ghost k idx cx =
     (let off = get_pg_offset (cx_page cx k) in
      bind_res (ghost_at off cx) (\<lambda>gh.
        Inr (put_ghost off (gh\<lparr>gh_present := True, gh_policy := ap_policy (cx_pol cx),
               gh_stime := ap_time (cx_pol cx), gh_pg_idx := idx\<rparr>) cx)))"

section \<open>Rewards\<close>

text \<open>The table \<^verbatim>\<open>pow_val\<close> that \<^verbatim>\<open>init\<close> fills: each entry is the square of the one before.\<close>

primrec pow_val :: "nat \<Rightarrow> rat" where
  "pow_val 0 = DECAY_FACTOR_DEFAULT"
| "pow_val (Suc i) = pow_val i * pow_val i"

text \<open>
  The loop of \<^verbatim>\<open>spow\<close> from a given bit on, \<open>n\<close> more rounds. The table has \<^verbatim>\<open>MAX_POW_BIT\<close> entries,
  the loop makes one round more.
\<close>

fun spow_from :: "nat \<Rightarrow> nat \<Rightarrow> rat \<Rightarrow> 64 word \<Rightarrow> rat res" where
  "spow_from b 0 acc pw = Inr acc"
| "spow_from b (Suc n) acc pw =
     (if pw AND 1 \<noteq> 0
      then (if b < MAX_POW_BIT then spow_from (Suc b) n (acc * pow_val b) (drop_bit 1 pw)
            else Inl Undefined_behaviour)
      else spow_from (Suc b) n acc (drop_bit 1 pw))"

definition spow :: "64 word \<Rightarrow> rat res" where
  "spow pw = spow_from 0 (Suc MAX_POW_BIT) 1 pw"

definition end_challenge :: "64 word \<Rightarrow> bool \<Rightarrow> apr_ctx \<Rightarrow> apr_ctx res" where
  "end_challenge stime winner cx =
     bind_res (spow (ap_time (cx_pol cx) - stime)) (\<lambda>reward.
       Inr (upd_pol (\<lambda>p. p\<lparr>ap_curr_score :=
              (if winner = LIFO then ap_curr_score p + reward else ap_curr_score p - reward)\<rparr>) cx))"

definition end_challenge_unit :: "bool \<Rightarrow> apr_ctx \<Rightarrow> apr_ctx" where
  "end_challenge_unit winner cx =
     upd_pol (\<lambda>p. p\<lparr>ap_curr_score :=
       (if winner = LIFO then ap_curr_score p + 1 else ap_curr_score p - 1)\<rparr>) cx"

definition eval_challenge_off :: "int \<Rightarrow> apr_ctx \<Rightarrow> apr_ctx res" where
  "eval_challenge_off off cx =
     bind_res (ghost_at off cx) (\<lambda>gh.
       let winner = (if gh_policy gh = LIFO then CLOCK else LIFO) in
       bind_res (end_challenge (gh_stime gh) winner cx) (\<lambda>cx1.
       bind_res (clear_ghost off cx1) (\<lambda>cx2.
         if winner = CLOCK then set_clock_stale (gh_pg_idx gh) False cx2
         else set_lifo_stale (gh_pg_idx gh) False cx2)))"

definition eval_challenge_pg :: "nat \<Rightarrow> apr_ctx \<Rightarrow> apr_ctx res" where
  "eval_challenge_pg k cx =
     (let p = cx_page cx k in
      if evicted_by_lifo p then end_challenge (pg_stime p) CLOCK cx
      else if evicted_by_clock p then end_challenge (pg_stime p) LIFO cx
      else Inl Assert_failed)"

section \<open>Challenges\<close>

text \<open>\<^verbatim>\<open>update_lifo_list\<close> looks for the index from the back and moves it to the back.\<close>

definition update_lifo_list :: "32 word \<Rightarrow> apr_ctx \<Rightarrow> apr_ctx" where
  "update_lifo_list idx cx =
     upd_pol (\<lambda>p. if idx \<in> set (ap_lifo_lt p)
                  then p\<lparr>ap_lifo_lt := rev (remove1 idx (rev (ap_lifo_lt p))) @ [idx]\<rparr> else p) cx"

definition refresh_chal :: "nat \<Rightarrow> 32 word \<Rightarrow> apr_ctx \<Rightarrow> apr_ctx res" where
  "refresh_chal k idx cx =
     bind_res (set_clock_stale idx False cx) (\<lambda>cx1.
     bind_res (set_lifo_stale idx False cx1) (\<lambda>cx2.
       clear_ghost (get_pg_offset (cx_page cx k)) (upd_pg k clear_evicted cx2)))"

definition remove_page :: "nat \<Rightarrow> bool \<Rightarrow> apr_ctx \<Rightarrow> apr_ctx res" where
  "remove_page k pol cx =
     refresh_chal k (if pol then ap_lifo_head (cx_pol cx) else ap_clock_head (cx_pol cx) - 1) cx"

definition start_challenge :: "nat \<Rightarrow> bool \<Rightarrow> apr_ctx \<Rightarrow> apr_ctx res" where
  "start_challenge k policy cx =
     assert_then (\<not> pg_evicted (cx_page cx k))
       (let cx1 = (if policy = LIFO
                   then upd_pol (\<lambda>p. p\<lparr>ap_lifo_lt :=
                          ap_lifo_head p # removeAll (ap_lifo_head p) (ap_lifo_lt p)\<rparr>) cx
                   else cx)
        in Inr (upd_pg k (set_stime (ap_time (cx_pol cx)) \<circ> set_evicted policy) cx1))"

definition pevict_page :: "nat \<Rightarrow> apr_ctx \<Rightarrow> apr_ctx res" where
  "pevict_page k cx =
     (let idx = (if ap_policy (cx_pol cx) then ap_lifo_head (cx_pol cx)
                 else ap_clock_head (cx_pol cx) - 1);
          cx1 = upd_pg k clear_evicted cx
      in bind_res (if \<not> ap_policy (cx_pol cx) then set_lifo_stale idx True cx1
                   else bind_res (set_clock_stale idx True cx1) (\<lambda>cx2. Inr (update_lifo_list idx cx2)))
           (\<lambda>cx3. if 0 \<le> get_pg_offset (cx_page cx3 k) then reg_ghost k idx cx3 else Inr cx3))"

text \<open>
  \<^verbatim>\<open>test_and_clear_clock\<close> reads and clears the hit counter, and for a page that is not a ghost
  reads and clears it once more.
\<close>

definition test_and_clear_clock :: "nat \<Rightarrow> apr_ctx \<Rightarrow> (bool \<times> apr_ctx) res" where
  "test_and_clear_clock k cx =
     (let (ref, p1) = test_and_clear_page_ref (cx_page cx k);
          cx1 = upd_pg k (\<lambda>_. p1) cx
      in bind_res (is_ghost (get_pg_offset p1) cx1) (\<lambda>g.
        if g then Inr (ref, cx1)
        else let (ref2, p2) = test_and_clear_page_ref p1;
                 cx2 = upd_pg k (\<lambda>_. p2) cx1
             in if ref2
                then bind_res (if pg_evicted p2 then eval_challenge_pg k cx2 else Inr cx2)
                       (\<lambda>cx3. Inr (ref2, upd_pg k clear_evicted cx3))
                else Inr (ref2, cx2)))"

definition test_and_clear_lifo :: "nat \<Rightarrow> apr_ctx \<Rightarrow> (bool \<times> apr_ctx) res" where
  "test_and_clear_lifo k cx =
     (let (ref, p1) = test_and_clear_page_ref (cx_page cx k);
          (lref, p2) = test_and_clear_page_lref p1;
          cx1 = upd_pg k (\<lambda>_. p2) cx
      in bind_res (if ref then
             let cx2 = upd_pg k set_cref cx1 in
             bind_res (if pg_evicted (cx_page cx2 k) then eval_challenge_pg k cx2 else Inr cx2)
               (\<lambda>cx3. Inr (upd_pg k clear_evicted cx3))
           else Inr cx1)
         (\<lambda>cx4. Inr (ref \<or> lref, cx4)))"

section \<open>Voters\<close>

text \<open>
  The result of a scan: whether it left the routine with \<^verbatim>\<open>return NULL\<close>, and the page it found.
  The number argument is how many pages the scan may still look at (\<^verbatim>\<open>num_scan_max - num_scan\<close>).
\<close>

type_synonym scan_result = "bool \<times> nat option \<times> apr_ctx"

definition drop_stale_clock :: "nat \<Rightarrow> 32 word \<Rightarrow> apr_ctx \<Rightarrow> apr_ctx res" where
  "drop_stale_clock k off cx =
     bind_res (ghost_at (get_pg_offset (cx_page cx k)) cx) (\<lambda>gh.
     bind_res (end_challenge (gh_stime gh) LIFO cx) (\<lambda>cx1.
     bind_res (clear_ghost (get_pg_offset (cx_page cx k)) cx1) (\<lambda>cx2.
       set_clock_stale off False cx2)))"

definition drop_stale_lifo :: "nat \<Rightarrow> 32 word \<Rightarrow> apr_ctx \<Rightarrow> apr_ctx res" where
  "drop_stale_lifo k off cx =
     bind_res (ghost_at (get_pg_offset (cx_page cx k)) cx) (\<lambda>gh.
     bind_res (end_challenge (gh_stime gh) CLOCK cx) (\<lambda>cx1.
     bind_res (clear_ghost (get_pg_offset (cx_page cx k)) cx1) (\<lambda>cx2.
       set_lifo_stale off False cx2)))"

fun voter_clock_scan :: "nat \<Rightarrow> nat \<Rightarrow> nat \<Rightarrow> bool \<Rightarrow> apr_ctx \<Rightarrow> scan_result res" where
  "voter_clock_scan 0 nref ndirty avoid cx = Inr (False, None, cx)"
| "voter_clock_scan (Suc n) nref ndirty avoid cx =
     (let num = pc_num_pages (cx_buf cx);
          off = ap_clock_head (cx_pol cx) mod of_nat num;
          cx1 = upd_pol (\<lambda>p. p\<lparr>ap_clock_head := ap_clock_head p + 1\<rparr>) cx
      in if num = 0 then Inl Undefined_behaviour
      else bind_res (get_page (cx_buf cx) (unat off)) (\<lambda>k.
        case recount num nref ndirty avoid of (nref', ndirty', avoid') \<Rightarrow>
          if pg_refcnt (cx_page cx1 k) \<noteq> 0
          then (if num \<le> nref' + 1 then Inr (True, None, cx1)
                else voter_clock_scan n (nref' + 1) ndirty' avoid' cx1)
          else if avoid' \<and> is_dirty (cx_page cx1 k)
          then voter_clock_scan n nref' (ndirty' + 1) avoid' cx1
          else bind_res (test_and_clear_clock k cx1) (\<lambda>(ref, cx2).
            if ref then voter_clock_scan n nref' ndirty' avoid' cx2
            else if \<not> ap_policy (cx_pol cx2)
            then bind_res (stale_at (ap_clock_page (cx_pol cx2)) off) (\<lambda>st.
              if st then bind_res (drop_stale_clock k off cx2) (voter_clock_scan n nref' ndirty' avoid')
              else Inr (False, Some k, upd_pol (\<lambda>p. p\<lparr>ap_clock_head := off + 1\<rparr>) cx2))
            else if evicted_by_clock (cx_page cx2 k)
            then voter_clock_scan n nref' ndirty' avoid' cx2
            else Inr (False, Some k, upd_pol (\<lambda>p. p\<lparr>ap_clock_head := off + 1\<rparr>) cx2))))"

definition voter_clock_evict :: "apr_ctx \<Rightarrow> (nat option \<times> apr_ctx) res" where
  "voter_clock_evict cx =
     (if pc_num_pages (cx_buf cx) = 0 then Inl Undefined_behaviour
      else bind_res (voter_clock_scan (2 * pc_num_pages (cx_buf cx)) 0 0 True cx) (\<lambda>(early, ret, cx1).
        if early then Inr (None, cx1)
        else if \<not> ap_default_policy (cx_pol cx1) \<and> ap_warm_up (cx_pol cx1) \<and> ret = None
        then Inl Undefined_behaviour
        else let cx2 = (if \<not> ap_default_policy (cx_pol cx1) \<and> ap_warm_up (cx_pol cx1)
                           \<and> 0 \<le> get_pg_offset (cx_page cx1 (the ret))
                        then upd_pol (\<lambda>p. p\<lparr>ap_warm_up := False\<rparr>) cx1 else cx1)
             in Inr (ret, case ret of None \<Rightarrow> cx2 | Some k \<Rightarrow> upd_pg k (set_data_ready False) cx2)))"

text \<open>
  The LIFO scans start at the second element from the back and read as \<open>back_reads\<close> describes.
  \<^verbatim>\<open>avoid_dirty\<close> and \<^verbatim>\<open>avoid_boundary\<close> start true and become false together: one flag here.
\<close>

definition lifo_reads :: "32 word option \<Rightarrow> 32 word list \<Rightarrow> 32 word option list" where
  "lifo_reads sent lt = tl (back_reads sent lt)"

definition recount3 :: "nat \<Rightarrow> nat \<Rightarrow> nat \<Rightarrow> nat \<Rightarrow> bool \<Rightarrow> nat \<times> nat \<times> nat \<times> bool" where
  "recount3 n nref ndirty nbound avoid =
     (if n \<le> ndirty + nref + nbound then (0, 0, 0, False) else (nref, ndirty, nbound, avoid))"

fun voter_lifo_scan ::
  "32 word option list \<Rightarrow> nat \<Rightarrow> nat \<Rightarrow> nat \<Rightarrow> nat \<Rightarrow> bool \<Rightarrow> apr_ctx \<Rightarrow> scan_result res" where
  "voter_lifo_scan [] n nref ndirty nbound avoid cx = Inl Out_of_steps"
| "voter_lifo_scan (None # reads) n nref ndirty nbound avoid cx = Inl Undefined_behaviour"
| "voter_lifo_scan (Some off # reads) n nref ndirty nbound avoid cx =
     (let num = pc_num_pages (cx_buf cx) in
      if unat off = num
      then (if n = 0 then Inr (False, None, cx) else voter_lifo_scan reads n nref ndirty nbound avoid cx)
      else bind_res (get_page (cx_buf cx) (unat off)) (\<lambda>k.
        case recount3 num nref ndirty nbound avoid of (nref', ndirty', nbound', avoid') \<Rightarrow>
        let next = (\<lambda>nref ndirty nbound cx.
              if n \<le> 1 then Inr (False, None, cx)
              else voter_lifo_scan reads (n - 1) nref ndirty nbound avoid' cx);
            cx1 = (if pg_boundary (cx_page cx k) then upd_pg k clear_boundary cx else cx);
            found = (False, Some k, upd_pol (\<lambda>p. p\<lparr>ap_lifo_head := off\<rparr>) cx1)
        in if pg_refcnt (cx_page cx k) \<noteq> 0
           then (if num \<le> nref' + 1 then Inr (True, None, cx) else next (nref' + 1) ndirty' nbound' cx)
           else if avoid' \<and> is_dirty (cx_page cx k) then next nref' (ndirty' + 1) nbound' cx
           else if pg_boundary (cx_page cx k) \<and> avoid' then next nref' ndirty' (nbound' + 1) cx
           else if ap_policy (cx_pol cx1)
           then bind_res (stale_at (ap_lifo_page (cx_pol cx1)) off) (\<lambda>st.
             if st then bind_res (drop_stale_lifo k off cx1) (next nref' ndirty' nbound')
             else Inr found)
           else if evicted_by_lifo (cx_page cx1 k)
           then (if num \<le> nref' then Inr (True, None, cx1) else next nref' ndirty' nbound' cx1)
           else Inr found))"

definition voter_lifo_evict :: "32 word option \<Rightarrow> apr_ctx \<Rightarrow> (nat option \<times> apr_ctx) res" where
  "voter_lifo_evict sent cx =
     (let num = pc_num_pages (cx_buf cx); pol = cx_pol cx in
      if ap_warm_up pol then
        (if num = 0 then Inl Undefined_behaviour
         else bind_res (get_page (cx_buf cx) (unat (ap_lifo_head pol) mod num)) (\<lambda>k.
           Inr (Some k, upd_pg k (set_data_ready False)
             (upd_pol (\<lambda>p. p\<lparr>ap_lifo_head := ap_lifo_head p + 1, ap_num_entry := ap_num_entry p + 1,
                ap_warm_up := \<not> num \<le> ap_num_entry p + 1\<rparr>) cx))))
      else bind_res (voter_lifo_scan (lifo_reads sent (ap_lifo_lt pol)) (2 * num) 0 0 0 True cx)
        (\<lambda>(early, ret, cx1).
          Inr (ret, case ret of None \<Rightarrow> cx1 | Some k \<Rightarrow> upd_pg k (set_data_ready False) cx1)))"

text \<open>
  \<^verbatim>\<open>voter_actual_victim\<close>, one definition per block: the two victims are the same page; the block of
  the policy in charge, whose victim is really evicted; the block of the other policy, whose victim
  is evicted virtually.
\<close>

definition same_victim :: "nat \<Rightarrow> apr_ctx \<Rightarrow> apr_ctx res" where
  "same_victim k cx =
     bind_res (if pg_evicted (cx_page cx k)
               then end_challenge (pg_stime (cx_page cx k))
                      (if evicted_by_lifo (cx_page cx k) then LIFO else CLOCK) cx
               else Inr cx) (\<lambda>cx1.
     bind_res (remove_page k CLOCK cx1) (\<lambda>cx2.
       Inr (update_lifo_list (ap_clock_head (cx_pol cx2) - 1) cx2)))"

definition real_clock :: "nat \<Rightarrow> apr_ctx \<Rightarrow> apr_ctx res" where
  "real_clock k cx =
     (if pg_evicted (cx_page cx k) then
        (if evicted_by_clock (cx_page cx k) then pevict_page k cx
         else bind_res (end_challenge (pg_stime (cx_page cx k)) LIFO cx) (\<lambda>cx1.
              bind_res (remove_page k CLOCK cx1) (\<lambda>cx2.
                Inr (update_lifo_list (ap_clock_head (cx_pol cx2) - 1) cx2))))
      else bind_res (start_challenge k CLOCK cx) (pevict_page k))"

definition virtual_lifo :: "nat \<Rightarrow> apr_ctx \<Rightarrow> apr_ctx res" where
  "virtual_lifo k cx =
     bind_res (if pg_evicted (cx_page cx k) then Inr True
               else stale_at (ap_lifo_page (cx_pol cx)) (ap_lifo_head (cx_pol cx))) (\<lambda>over.
       if over then
         bind_res (stale_at (ap_lifo_page (cx_pol cx)) (ap_lifo_head (cx_pol cx))) (\<lambda>st.
         bind_res (if st then bind_res (remove_page k LIFO cx) (\<lambda>cx1.
                     Inr (update_lifo_list (ap_lifo_head (cx_pol cx1)) cx1))
                   else refresh_chal k (ap_lifo_head (cx_pol cx)) cx) (\<lambda>cx2.
           end_challenge (pg_stime (cx_page cx2 k)) CLOCK cx2))
       else start_challenge k LIFO cx)"

definition real_lifo :: "nat \<Rightarrow> apr_ctx \<Rightarrow> apr_ctx res" where
  "real_lifo k cx =
     (if pg_evicted (cx_page cx k) then
        (if evicted_by_lifo (cx_page cx k) then pevict_page k cx
         else bind_res (end_challenge (pg_stime (cx_page cx k)) CLOCK cx) (\<lambda>cx1.
              bind_res (remove_page k LIFO cx1) (\<lambda>cx2.
                Inr (update_lifo_list (ap_lifo_head (cx_pol cx2)) cx2))))
      else bind_res (start_challenge k LIFO cx) (pevict_page k))"

definition virtual_clock :: "nat \<Rightarrow> apr_ctx \<Rightarrow> apr_ctx res" where
  "virtual_clock k cx =
     bind_res (if pg_evicted (cx_page cx k) then Inr True
               else stale_at (ap_clock_page (cx_pol cx)) (ap_clock_head (cx_pol cx) - 1)) (\<lambda>over.
       if over then
         bind_res (stale_at (ap_clock_page (cx_pol cx)) (ap_clock_head (cx_pol cx) - 1)) (\<lambda>st.
         bind_res (if st then bind_res (remove_page k CLOCK cx) (\<lambda>cx1.
                     Inr (update_lifo_list (ap_lifo_head (cx_pol cx1)) cx1))
                   else refresh_chal k (ap_clock_head (cx_pol cx) - 1) cx) (\<lambda>cx2.
           end_challenge (pg_stime (cx_page cx2 k)) LIFO cx2))
       else start_challenge k CLOCK cx)"

definition on_victim :: "(nat \<Rightarrow> apr_ctx \<Rightarrow> apr_ctx res) \<Rightarrow> nat option \<Rightarrow> apr_ctx \<Rightarrow> apr_ctx res" where
  "on_victim f v cx = (case v of None \<Rightarrow> Inr cx | Some k \<Rightarrow> f k cx)"

definition voter_actual_victim ::
  "nat option \<Rightarrow> nat option \<Rightarrow> apr_ctx \<Rightarrow> (nat option \<times> apr_ctx) res" where
  "voter_actual_victim clock lifo cx =
     (if clock = lifo
      then bind_res (on_victim same_victim clock cx) (\<lambda>cx1. Inr (clock, cx1))
      else if \<not> ap_policy (cx_pol cx)
      then bind_res (on_victim real_clock clock cx) (\<lambda>cx1.
           bind_res (on_victim virtual_lifo lifo cx1) (\<lambda>cx2. Inr (clock, cx2)))
      else bind_res (on_victim real_lifo lifo cx) (\<lambda>cx1.
           bind_res (on_victim virtual_clock clock cx1) (\<lambda>cx2. Inr (lifo, cx2))))"

section \<open>Followers\<close>

text \<open>\<^verbatim>\<open>follower_clock_evict\<close> is the loop of \<^verbatim>\<open>clock_eviction_policy::evict_page\<close> on this object's head.\<close>

definition follower_clock_evict :: "apr_ctx \<Rightarrow> (nat option \<times> apr_ctx) res" where
  "follower_clock_evict cx =
     bind_res (clock_evict_page (ap_clock_head (cx_pol cx)) (cx_buf cx)) (\<lambda>(ret, head, c).
       Inr (ret, cx\<lparr>cx_pol := (cx_pol cx)\<lparr>ap_clock_head := head\<rparr>, cx_buf := c\<rparr>))"

fun follower_lifo_scan ::
  "32 word option list \<Rightarrow> nat \<Rightarrow> nat \<Rightarrow> nat \<Rightarrow> bool \<Rightarrow> apr_ctx \<Rightarrow> (nat option \<times> apr_ctx) res" where
  "follower_lifo_scan [] nref ndirty nbound avoid cx = Inl Out_of_steps"
| "follower_lifo_scan (None # reads) nref ndirty nbound avoid cx = Inl Undefined_behaviour"
| "follower_lifo_scan (Some off # reads) nref ndirty nbound avoid cx =
     (let num = pc_num_pages (cx_buf cx) in
      if unat off = num then follower_lifo_scan reads nref ndirty nbound avoid cx
      else bind_res (get_page (cx_buf cx) (unat off)) (\<lambda>k.
        case recount3 num nref ndirty nbound avoid of (nref', ndirty', nbound', avoid') \<Rightarrow>
        if pg_refcnt (cx_page cx k) \<noteq> 0
        then (if num \<le> nref' + 1 then Inr (None, cx)
              else follower_lifo_scan reads (nref' + 1) ndirty' nbound' avoid' cx)
        else if avoid' \<and> is_dirty (cx_page cx k)
        then follower_lifo_scan reads nref' (ndirty' + 1) nbound' avoid' cx
        else if pg_boundary (cx_page cx k) \<and> avoid'
        then follower_lifo_scan reads nref' ndirty' (nbound' + 1) avoid' cx
        else let cx1 = (if pg_boundary (cx_page cx k) then upd_pg k clear_boundary cx else cx)
             in Inr (Some k, upd_pol (\<lambda>p. p\<lparr>ap_lifo_head := off,
                   ap_lifo_lt := removeAll off (ap_lifo_lt p) @ [off]\<rparr>) cx1)))"

definition follower_lifo_evict :: "32 word option \<Rightarrow> apr_ctx \<Rightarrow> (nat option \<times> apr_ctx) res" where
  "follower_lifo_evict sent cx =
     (let num = pc_num_pages (cx_buf cx); pol = cx_pol cx in
      if ap_warm_up pol then
        assert_then (ap_default_policy pol = LIFO)
         (if num = 0 then Inl Undefined_behaviour
          else bind_res (get_page (cx_buf cx) (unat (ap_lifo_head pol) mod num)) (\<lambda>k.
            Inr (Some k, upd_pg k (set_data_ready False)
              (upd_pol (\<lambda>p. p\<lparr>ap_lifo_head := ap_lifo_head p + 1, ap_num_entry := ap_num_entry p + 1,
                 ap_warm_up := \<not> num \<le> ap_num_entry p + 1\<rparr>) cx))))
      else bind_res (follower_lifo_scan (lifo_reads sent (ap_lifo_lt pol)) 0 0 0 True cx)
        (\<lambda>(ret, cx1).
          Inr (ret, case ret of None \<Rightarrow> cx1 | Some k \<Rightarrow> upd_pg k (set_data_ready False) cx1)))"

section \<open>Scores and the eviction routine\<close>

text \<open>
  \<^verbatim>\<open>update_score\<close>: the compare-and-exchange loop adds the score of this eviction to the global
  one; the policy follows its sign.
\<close>

definition update_score :: "apr_ctx \<Rightarrow> apr_ctx" where
  "update_score cx =
     (if ap_curr_score (cx_pol cx) \<noteq> 0 then
        let g = cx_glob cx; desired = gl_score g + ap_curr_score (cx_pol cx);
            pol = (if gl_policy g = CLOCK \<and> 0 < desired then LIFO
                   else if gl_policy g = LIFO \<and> desired \<le> 0 then CLOCK else gl_policy g)
        in cx\<lparr>cx_glob := g\<lparr>gl_score := desired, gl_policy := pol\<rparr>\<rparr>
      else cx)"

definition tick_global :: "apr_ctx \<Rightarrow> apr_ctx" where
  "tick_global cx =
     (let g = cx_glob cx; t = int32 (gl_time_check g + 1) in
      cx\<lparr>cx_glob := g\<lparr>gl_time_check := t,
        gl_score := (if APR_SAMPLE_SIZE dvd t then gl_score g * DECAY_FACTOR_DEFAULT
                     else gl_score g)\<rparr>\<rparr>)"

definition update_policy :: "apr_policy \<Rightarrow> apr_policy" where
  "update_policy p = p\<lparr>ap_policy := (0 < ap_curr_score p)\<rparr>"

definition voter_evict_page :: "32 word option \<Rightarrow> int \<Rightarrow> apr_ctx \<Rightarrow> (nat option \<times> apr_ctx) res" where
  "voter_evict_page sent off cx0 =
     (let cx = upd_pol (\<lambda>p. p\<lparr>ap_policy := (0 < ap_local_score p)\<rparr>) cx0 in
      bind_res (is_ghost off cx) (\<lambda>g.
      bind_res (if g then eval_challenge_off off cx else Inr cx) (\<lambda>cx1.
      bind_res (if ap_warm_up (cx_pol cx1)
                then (if ap_default_policy (cx_pol cx1) = CLOCK then voter_clock_evict cx1
                      else voter_lifo_evict sent cx1)
                else bind_res (voter_clock_evict cx1) (\<lambda>(clock, cx2).
                     bind_res (voter_lifo_evict sent cx2) (\<lambda>(lifo, cx3).
                     bind_res (voter_actual_victim clock lifo cx3) (\<lambda>(v, cx4).
                       Inr (v, upd_pol (\<lambda>p. p\<lparr>ap_time := ap_time p + 1,
                         ap_local_score := ap_local_score p * DECAY_FACTOR_DEFAULT\<rparr>) cx4)))))
        (\<lambda>(v, cx5).
          Inr (v, tick_global (update_score
            (upd_pol (\<lambda>p. p\<lparr>ap_local_score := ap_local_score p + ap_curr_score p\<rparr>) cx5)))))))"

definition follower_evict_page :: "32 word option \<Rightarrow> apr_ctx \<Rightarrow> (nat option \<times> apr_ctx) res" where
  "follower_evict_page sent cx0 =
     (let cx = (if ap_warm_up (cx_pol cx0) then cx0
                else upd_pol (\<lambda>p. p\<lparr>ap_policy := gl_policy (cx_glob cx0)\<rparr>) cx0)
      in if \<not> ap_policy (cx_pol cx) then follower_clock_evict cx else follower_lifo_evict sent cx)"

definition APR_evict_ctx :: "32 word option \<Rightarrow> int \<Rightarrow> apr_ctx \<Rightarrow> (nat option \<times> apr_ctx) res" where
  "APR_evict_ctx sent off cx =
     (let cx1 = upd_pol (\<lambda>p. p\<lparr>ap_curr_score := 0\<rparr>) cx in
      if ap_sample (cx_pol cx1) then voter_evict_page sent off cx1
      else follower_evict_page sent cx1)"

text \<open>The routine with the state split the way a page set calls it.\<close>

type_synonym apr_state = "apr_policy \<times> apr_global"

definition APR_evict_page ::
  "32 word option \<Rightarrow> int \<Rightarrow> apr_state \<Rightarrow> page_cell \<Rightarrow> (nat option \<times> apr_state \<times> page_cell) res" where
  "APR_evict_page sent off st c =
     bind_res (APR_evict_ctx sent off \<lparr>cx_pol = fst st, cx_glob = snd st, cx_buf = c\<rparr>) (\<lambda>(v, cx).
       Inr (v, (cx_pol cx, cx_glob cx), cx_buf cx))"

text \<open>The base class's \<^verbatim>\<open>access_page\<close>, which APR does not redefine, does nothing.\<close>

definition access_page :: "'p \<Rightarrow> page_cell \<Rightarrow> nat \<Rightarrow> 'p res" where
  "access_page st c k = Inr st"

text \<open>\<^verbatim>\<open>evict_page\<close> without an offset leaves the process; the forecast is the base class's.\<close>

definition APR_evict_page_no_offset :: "apr_state \<Rightarrow> page_cell \<Rightarrow> (nat option \<times> apr_state \<times> page_cell) res" where
  "APR_evict_page_no_offset st c = Inl Process_exit"

definition policy_predict_evicted_pages ::
  "'p \<Rightarrow> page_cell \<Rightarrow> int \<Rightarrow> 8 word \<Rightarrow> 8 word \<Rightarrow> (int \<times> nat) list
     \<Rightarrow> ((int \<times> nat) list \<times> page_cell) res" where
  "policy_predict_evicted_pages st c num set_fl clr_fl pages = Inl Unsupported_exception"

end
