(* ===== verification/Hash_Cell.thy ===== *)
theory Hash_Cell
  imports Policy_Proofs
begin

text \<open>
  The page set \<^verbatim>\<open>hash_cell\<close> of \<^verbatim>\<open>libsafs/associative_cache.h\<close> and \<^verbatim>\<open>.cpp\<close>: lookup with and without
  eviction, growing, splitting (\<^verbatim>\<open>rehash\<close>), merging and shrinking a set, and the selection of
  pages for write-back. The eviction policy a build selects with \<^verbatim>\<open>#ifdef\<close> is the type parameter
  \<open>'p\<close> (its state) with its operations as arguments; the other pieces of global state a routine
  reads are arguments too: the calling thread, the table \<^verbatim>\<open>page_info\<close> and the hash function of the
  next level. Every routine runs under the cell's lock, so it is one atomic step.
\<close>

section \<open>State\<close>

record apr_stats =
  st_cache_access :: nat
  st_hit_count :: nat
  st_miss_count :: nat
  st_cold_miss :: nat

record page_info_t =
  pi_likelihood :: "32 word"
  pi_boundary :: bool

record 'p hash_cell =
  hc_hash :: int
  hc_flags :: "32 word"
  hc_stats :: apr_stats
  hc_buf :: page_cell
  hc_policy :: 'p
  hc_num_accesses :: nat
  hc_num_evictions :: nat

definition new_hash_cell :: "'p \<Rightarrow> 'p hash_cell" where
  "new_hash_cell pol = \<lparr>hc_hash = - 1, hc_flags = 0,
     hc_stats = \<lparr>st_cache_access = 0, st_hit_count = 0, st_miss_count = 0, st_cold_miss = 0\<rparr>,
     hc_buf = empty_cell, hc_policy = pol, hc_num_accesses = 0, hc_num_evictions = 0\<rparr>"

section \<open>Flags of a cell\<close>

definition IN_QUEUE :: nat where [simp]: "IN_QUEUE = 1"

definition atomic_set_flag :: "nat \<Rightarrow> 32 word \<Rightarrow> bool \<times> 32 word" where
  "atomic_set_flag i fl = (fl AND push_bit i 1 \<noteq> 0, fl OR push_bit i 1)"

definition atomic_clear_flag :: "nat \<Rightarrow> 32 word \<Rightarrow> bool \<times> 32 word" where
  "atomic_clear_flag i fl = (fl AND push_bit i 1 \<noteq> 0, fl AND NOT (push_bit i 1))"

definition atomic_test_flag :: "nat \<Rightarrow> 32 word \<Rightarrow> bool" where
  "atomic_test_flag i fl \<longleftrightarrow> fl AND push_bit i 1 \<noteq> 0"

definition is_in_queue :: "'p hash_cell \<Rightarrow> bool" where
  "is_in_queue hc = atomic_test_flag IN_QUEUE (hc_flags hc)"

definition set_in_queue :: "bool \<Rightarrow> 'p hash_cell \<Rightarrow> bool \<times> 'p hash_cell" where
  "set_in_queue v hc =
     (let (orig, fl) = (if v then atomic_set_flag IN_QUEUE (hc_flags hc)
                        else atomic_clear_flag IN_QUEUE (hc_flags hc))
      in (orig, hc\<lparr>hc_flags := fl\<rparr>))"

definition hc_get_num_pages :: "'p hash_cell \<Rightarrow> nat" where
  "hc_get_num_pages hc = pc_num_pages (hc_buf hc)"

definition is_deficit :: "'p hash_cell \<Rightarrow> bool" where
  "is_deficit hc \<longleftrightarrow> pc_num_pages (hc_buf hc) < CELL_MIN_NUM_PAGES"

definition is_full :: "'p hash_cell \<Rightarrow> bool" where
  "is_full hc \<longleftrightarrow> pc_num_pages (hc_buf hc) = CELL_SIZE"

section \<open>Initialisation and growth\<close>

text \<open>
  \<^verbatim>\<open>init\<close>: \<open>free_pages\<close> is what the memory manager hands out, \<open>None\<close> when it has not enough.
\<close>

definition hc_init ::
  "nat \<Rightarrow> nat \<Rightarrow> int \<Rightarrow> int \<Rightarrow> nat list option option \<Rightarrow> 'p hash_cell \<Rightarrow> 'p hash_cell res" where
  "hc_init junk min_cell_size node h free_pages hc =
     assert_then (h < 2147483647)
       (bind_res (case free_pages of None \<Rightarrow> Inr (hc_buf hc)
                  | Some None \<Rightarrow> Inl Oom_exception
                  | Some (Some pages) \<Rightarrow> set_pages junk pages min_cell_size node (hc_buf hc))
         (\<lambda>b. Inr (hc\<lparr>hc_hash := h, hc_buf := b, hc_num_accesses := 0, hc_num_evictions := 0\<rparr>)))"

definition hc_add_pages :: "nat \<Rightarrow> nat list \<Rightarrow> nat \<Rightarrow> int \<Rightarrow> 'p hash_cell \<Rightarrow> 'p hash_cell res" where
  "hc_add_pages junk pages num node hc =
     bind_res (add_pages junk pages num node (hc_buf hc)) (\<lambda>b. Inr (hc\<lparr>hc_buf := b\<rparr>))"

definition add_pages_to_min ::
  "nat \<Rightarrow> nat list \<Rightarrow> nat \<Rightarrow> int \<Rightarrow> 'p hash_cell \<Rightarrow> (nat \<times> 'p hash_cell) res" where
  "add_pages_to_min junk pages num node hc =
     (let req = int CELL_MIN_NUM_PAGES - int (pc_num_pages (hc_buf hc)) in
      if 0 < req then
        let k = nat (min req (int num))
        in bind_res (hc_add_pages junk pages k node hc) (\<lambda>hc'. Inr (k, hc'))
      else Inr (0, hc))"

section \<open>Lookup\<close>

fun find_from :: "page_cell \<Rightarrow> data_loc_t \<Rightarrow> nat \<Rightarrow> nat \<Rightarrow> nat option res" where
  "find_from c l i 0 = Inr None"
| "find_from c l i (Suc n) =
     bind_res (get_page c i) (\<lambda>k.
       if get_offset (pc_buf c ! k) = loc_off l \<and> pg_file_id (pc_buf c ! k) = loc_file_id l
       then Inr (Some k) else find_from c l (Suc i) n)"

definition find_page :: "page_cell \<Rightarrow> data_loc_t \<Rightarrow> nat option res" where
  "find_page c l = find_from c l 0 (pc_num_pages c)"

text \<open>\<^verbatim>\<open>search(pg_id)\<close>: only looks the page up and takes a reference.\<close>

definition search_only :: "data_loc_t \<Rightarrow> 'p hash_cell \<Rightarrow> (nat option \<times> 'p hash_cell) res" where
  "search_only l hc =
     bind_res (find_page (hc_buf hc) l) (\<lambda>r.
       case r of None \<Rightarrow> Inr (None, hc)
       | Some k \<Rightarrow> Inr (Some k, hc\<lparr>hc_buf := upd_page k inc_ref (hc_buf hc)\<rparr>))"

text \<open>What \<^verbatim>\<open>search\<close> does to the victim it reuses for the page at \<open>l\<close>.\<close>

definition retarget :: "bool \<Rightarrow> nat \<Rightarrow> data_loc_t \<Rightarrow> page \<Rightarrow> (data_loc_t \<times> page) res" where
  "retarget boundary th l p =
     (let p1 = (if boundary then set_boundary th p else p);
          p2 = set_data_ready False p1
      in assert_then (\<not> is_io_pending p2)
        (let p3 = (if is_dirty p2 \<and> \<not> is_old_dirty p2
                   then set_old_dirty True (set_dirty False p2) else p2);
             old_file = pg_file_id p3
         in if get_offset p3 = - 1
            then assert_then (old_file = INVALID_FILE_ID)
              (Inr (\<lparr>loc_file_id = old_file, loc_off = PAGE_INVALID_OFFSET\<rparr>, set_id l p3))
            else Inr (\<lparr>loc_file_id = old_file, loc_off = get_offset p3\<rparr>, set_id l p3)))"

text \<open>The end of \<^verbatim>\<open>search\<close> for both outcomes: take a reference and count the access.\<close>

definition take_page :: "nat \<Rightarrow> page_cell \<Rightarrow> page_cell res" where
  "take_page k c =
     (let c1 = upd_page k inc_ref c in
      bind_res (if get_hits (pc_buf c1 ! k) = 255 then scale_down_hits c1 else Inr c1) (\<lambda>c2.
        Inr (upd_page k hit c2)))"

definition search ::
  "(int \<Rightarrow> 'p \<Rightarrow> page_cell \<Rightarrow> (nat option \<times> 'p \<times> page_cell) res)
   \<Rightarrow> ('p \<Rightarrow> page_cell \<Rightarrow> nat \<Rightarrow> 'p res)
   \<Rightarrow> nat \<Rightarrow> page_info_t list \<Rightarrow> data_loc_t \<Rightarrow> data_loc_t \<Rightarrow> 'p hash_cell
   \<Rightarrow> (nat option \<times> data_loc_t \<times> 'p hash_cell) res" where
  "search evict access_page th page_info l old_id hc0 =
     (let hc = hc0\<lparr>hc_num_accesses := hc_num_accesses hc0 + 1,
                   hc_stats := (hc_stats hc0)\<lparr>st_cache_access := st_cache_access (hc_stats hc0) + 1\<rparr>\<rparr>;
          off = loc_off l sdiv PAGE_SIZE
      in bind_res (find_page (hc_buf hc) l) (\<lambda>r. case r of
         Some k \<Rightarrow>
           (let b1 = (if th \<noteq> pg_th_id (pc_buf (hc_buf hc) ! k)
                      then upd_page k clear_boundary (hc_buf hc) else hc_buf hc)
            in bind_res (access_page (hc_policy hc) b1 k) (\<lambda>pol.
               bind_res (take_page k b1) (\<lambda>b2.
                 Inr (Some k, old_id, hc\<lparr>hc_policy := pol, hc_buf := b2,
                   hc_stats := (hc_stats hc)\<lparr>st_hit_count := st_hit_count (hc_stats hc) + 1\<rparr>\<rparr>))))
       | None \<Rightarrow>
           bind_res (evict off (hc_policy hc) (hc_buf hc)) (\<lambda>(v, pol, b1).
             let hc1 = hc\<lparr>hc_policy := pol, hc_buf := b1,
                          hc_num_evictions := hc_num_evictions hc + 1\<rparr>
             in case v of
               None \<Rightarrow> Inr (None, old_id, hc1)
             | Some k \<Rightarrow>
                 if off < 0 \<or> int (length page_info) \<le> off then Inl Undefined_behaviour
                 else bind_res (retarget (pi_boundary (page_info ! nat off)) th l (pc_buf b1 ! k))
                   (\<lambda>(old, p). bind_res (take_page k (b1\<lparr>pc_buf := (pc_buf b1)[k := p]\<rparr>)) (\<lambda>b2.
                     Inr (Some k, old, hc1\<lparr>hc_buf := b2,
                       hc_stats := (hc_stats hc1)
                         \<lparr>st_miss_count := st_miss_count (hc_stats hc1) + 1,
                          st_cold_miss := st_cold_miss (hc_stats hc1)
                            + (if get_pg_offset (pc_buf b1 ! k) = - 1 then 1 else 0)\<rparr>\<rparr>))))))"

section \<open>Splitting and merging\<close>

text \<open>
  First pass of \<^verbatim>\<open>rehash\<close>: a page whose hash at the next level is not the new cell's gets its
  hit counter set to 1; a page of the new cell that nobody uses is collected.
\<close>

fun rehash_scan ::
  "(data_loc_t \<Rightarrow> int) \<Rightarrow> int \<Rightarrow> int \<Rightarrow> page_cell \<Rightarrow> nat \<Rightarrow> nat \<Rightarrow> (nat list \<times> page_cell) res" where
  "rehash_scan hash1 this_h exp_h c i 0 = Inr ([], c)"
| "rehash_scan hash1 this_h exp_h c i (Suc n) =
     bind_res (get_page c i) (\<lambda>k.
       let h = hash1 (page_loc (pc_buf c ! k)) in
       if h \<noteq> exp_h then
         bind_res (set_hits 1 (pc_buf c ! k)) (\<lambda>p.
           rehash_scan hash1 this_h exp_h (c\<lparr>pc_buf := (pc_buf c)[k := p]\<rparr>) (Suc i) n)
       else if this_h \<noteq> h \<and> pg_refcnt (pc_buf c ! k) = 0 then
         bind_res (rehash_scan hash1 this_h exp_h c (Suc i) n) (\<lambda>(ks, c'). Inr (k # ks, c'))
       else rehash_scan hash1 this_h exp_h c (Suc i) n)"

text \<open>Taking collected pages out of a cell, one \<^verbatim>\<open>steal_page\<close> each, without rebuilding the map.\<close>

fun steal_slots :: "nat list \<Rightarrow> page_cell \<Rightarrow> (page list \<times> page_cell) res" where
  "steal_slots [] c = Inr ([], c)"
| "steal_slots (k # ks) c =
     bind_res (steal_page k False c) (\<lambda>c1.
     bind_res (steal_slots ks (c1\<lparr>pc_buf := (pc_buf c1)[k := empty_page]\<rparr>)) (\<lambda>(ps, c2).
       Inr (pc_buf c ! k # ps, c2)))"

fun empty_slots_from :: "page_cell \<Rightarrow> nat \<Rightarrow> nat \<Rightarrow> nat \<Rightarrow> nat list res" where
  "empty_slots_from c req i 0 = Inr []"
| "empty_slots_from c req i (Suc n) =
     (if req = 0 then Inr []
      else bind_res (get_page c i) (\<lambda>k.
        if \<not> initialized (pc_buf c ! k)
        then bind_res (empty_slots_from c (req - 1) (Suc i) n) (\<lambda>ks. Inr (k # ks))
        else empty_slots_from c req (Suc i) n))"

definition move_slots :: "nat list \<Rightarrow> page_cell \<Rightarrow> page_cell \<Rightarrow> (page_cell \<times> page_cell) res" where
  "move_slots ks src dst =
     bind_res (steal_slots ks src) (\<lambda>(ps, src1).
     bind_res (rebuild_map src1) (\<lambda>src2.
     bind_res (inject_pages ps dst) (\<lambda>dst2. Inr (src2, dst2))))"

text \<open>Last part of \<^verbatim>\<open>rehash\<close>: empty pages fill the new cell up to the minimal size.\<close>

definition refill :: "nat \<Rightarrow> page_cell \<Rightarrow> page_cell \<Rightarrow> (page_cell \<times> page_cell) res" where
  "refill min_cell_size b e =
     (let required = int min_cell_size - int (pc_num_pages e) in
      if 0 < required then
        bind_res (empty_slots_from b (nat required) 0 (pc_num_pages b)) (\<lambda>es. move_slots es b e)
      else Inr (b, e))"

definition rehash ::
  "(data_loc_t \<Rightarrow> int) \<Rightarrow> nat \<Rightarrow> 'p hash_cell \<Rightarrow> 'p hash_cell
     \<Rightarrow> ('p hash_cell \<times> 'p hash_cell) res" where
  "rehash hash1 min_cell_size this expanded =
     bind_res (rehash_scan hash1 (hc_hash this) (hc_hash expanded) (hc_buf this) 0
                 (pc_num_pages (hc_buf this))) (\<lambda>(ks, b1).
     bind_res (if ks \<noteq> [] then move_slots ks b1 (hc_buf expanded) else Inr (b1, hc_buf expanded))
       (\<lambda>(b2, e2).
     bind_res (refill min_cell_size b2 e2) (\<lambda>(b3, e3).
       Inr (this\<lparr>hc_buf := b3\<rparr>, expanded\<lparr>hc_buf := e3\<rparr>))))"

definition merge :: "'p hash_cell \<Rightarrow> 'p hash_cell \<Rightarrow> ('p hash_cell \<times> 'p hash_cell) res" where
  "merge this cell =
     assert_then (pc_num_pages (hc_buf cell) + pc_num_pages (hc_buf this) \<le> CELL_SIZE)
       (bind_res (steal_pages CELL_SIZE (hc_buf cell)) (\<lambda>(ps, cb).
        bind_res (inject_pages ps (hc_buf this)) (\<lambda>tb.
          Inr (this\<lparr>hc_buf := tb\<rparr>, cell\<lparr>hc_buf := cb\<rparr>))))"

text \<open>
  \<^verbatim>\<open>steal_pages\<close>: evicts up to \<open>n\<close> pages and gives their memory away. \<open>evict0\<close> is the policy's
  \<^verbatim>\<open>evict_page(buf)\<close> without an offset.
\<close>

fun hc_steal_from ::
  "('p \<Rightarrow> page_cell \<Rightarrow> (nat option \<times> 'p \<times> page_cell) res) \<Rightarrow> nat \<Rightarrow> 'p \<Rightarrow> page_cell
     \<Rightarrow> (nat list \<times> 'p \<times> page_cell) res" where
  "hc_steal_from evict0 0 pol c = Inr ([], pol, c)"
| "hc_steal_from evict0 (Suc n) pol c =
     bind_res (evict0 pol c) (\<lambda>(v, pol1, c1). case v of
         None \<Rightarrow> Inr ([], pol1, c1)
       | Some k \<Rightarrow>
           assert_then (\<not> is_dirty (pc_buf c1 ! k))
             (case pg_data (pc_buf c1 ! k) of None \<Rightarrow> Inl Undefined_behaviour
              | Some d \<Rightarrow>
                  bind_res (steal_page k False (c1\<lparr>pc_buf := (pc_buf c1)[k := empty_page]\<rparr>)) (\<lambda>c2.
                  bind_res (hc_steal_from evict0 n pol1 c2) (\<lambda>(ds, pol2, c3).
                    Inr (d # ds, pol2, c3)))))"

definition hc_steal_pages ::
  "('p \<Rightarrow> page_cell \<Rightarrow> (nat option \<times> 'p \<times> page_cell) res) \<Rightarrow> nat \<Rightarrow> 'p hash_cell
     \<Rightarrow> (nat list \<times> 'p hash_cell) res" where
  "hc_steal_pages evict0 npages hc =
     bind_res (hc_steal_from evict0 npages (hc_policy hc) (hc_buf hc)) (\<lambda>(ds, pol, c).
     bind_res (rebuild_map c) (\<lambda>c'. Inr (ds, hc\<lparr>hc_policy := pol, hc_buf := c'\<rparr>)))"

section \<open>Pages for write-back\<close>

definition selected :: "8 word \<Rightarrow> 8 word \<Rightarrow> page \<Rightarrow> bool" where
  "selected set_fl clr_fl p \<longleftrightarrow> test_flags set_fl p \<and> \<not> test_flags clr_fl p"

definition num_pages :: "8 word \<Rightarrow> 8 word \<Rightarrow> 'p hash_cell \<Rightarrow> nat res" where
  "num_pages set_fl clr_fl hc =
     bind_res (slots_from (hc_buf hc) 0 (pc_num_pages (hc_buf hc))) (\<lambda>ks.
       Inr (length (filter (\<lambda>k. selected set_fl clr_fl (pc_buf (hc_buf hc) ! k)) ks)))"

fun get_pages_from ::
  "8 word \<Rightarrow> 8 word \<Rightarrow> nat list \<Rightarrow> page_cell \<Rightarrow> (int \<times> nat) list \<Rightarrow> (int \<times> nat) list \<times> page_cell" where
  "get_pages_from set_fl clr_fl [] c pages = (pages, c)"
| "get_pages_from set_fl clr_fl (k # ks) c pages =
     (if selected set_fl clr_fl (pc_buf c ! k)
      then get_pages_from set_fl clr_fl ks (upd_page k inc_ref c)
             (std_map_insert (get_offset (pc_buf c ! k)) k pages)
      else get_pages_from set_fl clr_fl ks c pages)"

text \<open>\<^verbatim>\<open>get_pages\<close> does not look at its argument \<^verbatim>\<open>num_pages\<close>.\<close>

definition hc_get_pages ::
  "int \<Rightarrow> 8 word \<Rightarrow> 8 word \<Rightarrow> (int \<times> nat) list \<Rightarrow> 'p hash_cell
     \<Rightarrow> ((int \<times> nat) list \<times> 'p hash_cell) res" where
  "hc_get_pages num set_fl clr_fl pages hc =
     bind_res (slots_from (hc_buf hc) 0 (pc_num_pages (hc_buf hc))) (\<lambda>ks.
       let (pages', c) = get_pages_from set_fl clr_fl ks (hc_buf hc) pages
       in Inr (pages', hc\<lparr>hc_buf := c\<rparr>))"

definition hc_predict_evicted_pages ::
  "('p \<Rightarrow> page_cell \<Rightarrow> int \<Rightarrow> 8 word \<Rightarrow> 8 word \<Rightarrow> (int \<times> nat) list
      \<Rightarrow> ((int \<times> nat) list \<times> page_cell) res)
   \<Rightarrow> int \<Rightarrow> 8 word \<Rightarrow> 8 word \<Rightarrow> (int \<times> nat) list \<Rightarrow> 'p hash_cell
   \<Rightarrow> ((int \<times> nat) list \<times> 'p hash_cell) res" where
  "hc_predict_evicted_pages predict num set_fl clr_fl pages hc =
     bind_res (predict (hc_policy hc) (hc_buf hc) num set_fl clr_fl pages) (\<lambda>(pages', c).
       Inr (pages', hc\<lparr>hc_buf := fold (\<lambda>(off, k). upd_page k inc_ref) pages' c\<rparr>))"

definition is_referenced :: "'p hash_cell \<Rightarrow> bool" where
  "is_referenced hc \<longleftrightarrow> (\<exists>i < pc_num_pages (hc_buf hc). 0 < pg_refcnt (vpage (hc_buf hc) i))"

definition hc_sanity_check :: "nat \<Rightarrow> 'p hash_cell \<Rightarrow> bool" where
  "hc_sanity_check min_cell_size hc \<longleftrightarrow>
     cell_sanity_check min_cell_size (hc_buf hc) \<and> \<not> is_referenced hc"

end
