(* ===== verification/Hash_Cell_Laws.thy ===== *)
theory Hash_Cell_Laws
  imports Hash_Cell
begin

text \<open>
  A page set is a small map from locations to slots. \<open>cell_lookup\<close> is that map; the lemmas of the
  locale \<open>eviction\<close> show that \<^verbatim>\<open>search\<close>, whatever the eviction policy, finds exactly the page of
  the map, replaces an unreferenced page otherwise, keeps every other page and keeps locations
  unique. Splitting and merging move pages without losing or copying one.
\<close>

section \<open>Everything but the hit counter\<close>

definition sans_hits :: "page \<Rightarrow> page" where
  "sans_hits p = p\<lparr>pg_hits := 0\<rparr>"

lemma sans_hitsD:
  assumes "sans_hits p = sans_hits q"
  shows "page_core p = page_core q" "pg_flags p = pg_flags q" "page_loc p = page_loc q"
    "has_data p = has_data q" "is_valid p = is_valid q" "pg_refcnt p = pg_refcnt q"
  using arg_cong [OF assms, of pg_off] arg_cong [OF assms, of pg_file_id]
    arg_cong [OF assms, of pg_data] arg_cong [OF assms, of pg_refcnt]
    arg_cong [OF assms, of pg_flags]
  by (simp_all add: sans_hits_def page_core_def page_loc_def get_offset_def has_data_def is_valid_def)

definition same_but_hits :: "page_cell \<Rightarrow> page_cell \<Rightarrow> bool" where
  "same_but_hits c c' \<longleftrightarrow> pc_num_pages c' = pc_num_pages c \<and> pc_maps c' = pc_maps c
     \<and> pc_idx c' = pc_idx c \<and> map sans_hits (pc_buf c') = map sans_hits (pc_buf c)"

lemma same_but_hits_nth:
  assumes "same_but_hits c c'" "k < length (pc_buf c)"
  shows "sans_hits (pc_buf c' ! k) = sans_hits (pc_buf c ! k)"
  using assms unfolding same_but_hits_def by (metis length_map nth_map)

lemma same_but_hits_length: "same_but_hits c c' \<Longrightarrow> length (pc_buf c') = length (pc_buf c)"
  unfolding same_but_hits_def by (metis length_map)

lemma same_but_hits_same_pages:
  assumes "same_but_hits c c'" "pc_idx c < 256"
  shows "same_pages c c'"
proof -
  have len: "length (pc_buf c') = length (pc_buf c)" using assms(1) by (rule same_but_hits_length)
  have nth: "page_core (pc_buf c' ! j) = page_core (pc_buf c ! j)"
    "is_dirty (pc_buf c' ! j) = is_dirty (pc_buf c ! j)" if "j < length (pc_buf c)" for j
    using sans_hitsD(1,2) [OF same_but_hits_nth [OF assms(1) that]]
    by (simp_all add: is_dirty_def get_flags_bit_def)
  have "map page_core (pc_buf c') = map page_core (pc_buf c)"
    by (rule nth_equalityI) (simp_all add: len nth(1))
  moreover have "map is_dirty (pc_buf c') = map is_dirty (pc_buf c)"
    by (rule nth_equalityI) (simp_all add: len nth(2))
  ultimately show ?thesis using assms by (simp add: same_pages_def same_but_hits_def)
qed

lemma scale_down_from_ok:
  assumes "cell_wf c" "i + n = pc_num_pages c"
  shows "\<exists>c'. scale_down_from i n c = Inr c' \<and> same_but_hits c c'"
  using assms
proof (induction n arbitrary: i c)
  case 0
  then show ?case by (simp add: same_but_hits_def)
next
  case (Suc n)
  let ?k = "pc_maps c ! i"
  let ?p = "(pc_buf c ! ?k)\<lparr>pg_hits := word_of_int (int (get_hits (pc_buf c ! ?k) div 2))\<rparr>"
  let ?c = "c\<lparr>pc_buf := (pc_buf c)[?k := ?p]\<rparr>"
  have gp: "get_page c i = Inr ?k" using Suc.prems by (intro get_page_wf) auto
  have "get_hits (pc_buf c ! ?k) div 2 \<le> 255" using get_hits_le [of "pc_buf c ! ?k"] by simp
  then have "int (get_hits (pc_buf c ! ?k) div 2) \<le> 255" by linarith
  then have eq: "scale_down_from i (Suc n) c = scale_down_from (Suc i) n ?c"
    using gp by (simp add: set_hits_def)
  have wf: "cell_wf ?c" using Suc.prems(1) by (rule cell_wf_upd) (simp add: has_data_def)
  have hb: "same_but_hits c ?c"
    using get_page_Inr [OF gp]
    by (simp add: same_but_hits_def map_update sans_hits_def list_update_same_conv)
  obtain c' where "scale_down_from (Suc i) n ?c = Inr c'" "same_but_hits ?c c'"
    using Suc.IH [OF wf, of "Suc i"] Suc.prems(2) by auto
  then show ?case using eq hb by (simp add: same_but_hits_def)
qed

lemma scale_down_hits_ok:
  "cell_wf c \<Longrightarrow> \<exists>c'. scale_down_hits c = Inr c' \<and> same_but_hits c c'"
  unfolding scale_down_hits_def by (rule scale_down_from_ok) simp_all

lemma upd_page_nth [cell_simps]:
  "k < length (pc_buf c) \<Longrightarrow>
   pc_buf (upd_page k f c) ! j = (if j = k then f (pc_buf c ! k) else pc_buf c ! j)"
  by (auto simp: upd_page_simps nth_list_update)

lemma take_page_ok:
  assumes wf: "cell_wf c" and k: "k < length (pc_buf c)"
  shows "\<exists>c'. take_page k c = Inr c' \<and> cell_wf c' \<and> pc_num_pages c' = pc_num_pages c
    \<and> pc_maps c' = pc_maps c \<and> length (pc_buf c') = length (pc_buf c)
    \<and> (\<forall>j < length (pc_buf c). sans_hits (pc_buf c' ! j)
         = sans_hits (if j = k then inc_ref (pc_buf c ! k) else pc_buf c ! j))"
proof -
  let ?c1 = "upd_page k inc_ref c"
  have wf1: "cell_wf ?c1" using wf by (rule cell_wf_upd_page) (simp add: has_data_def inc_ref_def)
  obtain c2 where c2: "(if get_hits (pc_buf ?c1 ! k) = 255 then scale_down_hits ?c1 else Inr ?c1)
      = Inr c2" and hb: "same_but_hits ?c1 c2"
  proof (cases "get_hits (pc_buf ?c1 ! k) = 255")
    case True
    then show ?thesis using scale_down_hits_ok [OF wf1] that by auto
  next
    case False
    then show ?thesis using that [of ?c1] by (simp add: same_but_hits_def)
  qed
  have same: "same_pages ?c1 c2"
    using hb cell_wfD(3) [OF wf1] by (rule same_but_hits_same_pages)
  have wf2: "cell_wf c2" using same wf1 by (rule same_pages_wf)
  have wf3: "cell_wf (upd_page k hit c2)"
    using wf2 by (rule cell_wf_upd_page) (simp add: has_data_def hit_def)
  have len: "length (pc_buf c2) = length (pc_buf c)"
    using same_but_hits_length [OF hb] by (simp add: upd_page_simps)
  have "sans_hits (pc_buf (upd_page k hit c2) ! j)
      = sans_hits (if j = k then inc_ref (pc_buf c ! k) else pc_buf c ! j)"
    if j: "j < length (pc_buf c)" for j
  proof -
    have "sans_hits (hit p) = sans_hits p" for p by (simp add: sans_hits_def hit_def)
    then have "sans_hits (pc_buf (upd_page k hit c2) ! j) = sans_hits (pc_buf c2 ! j)"
      using k len by (simp add: upd_page_nth)
    also have "\<dots> = sans_hits (pc_buf ?c1 ! j)"
      using same_but_hits_nth [OF hb] j by (simp add: upd_page_simps)
    finally show ?thesis using k by (simp add: upd_page_nth)
  qed
  moreover have "take_page k c = Inr (upd_page k hit c2)"
    using c2 by (simp add: take_page_def)
  moreover have "pc_num_pages c2 = pc_num_pages c" "pc_maps c2 = pc_maps c"
    using hb by (simp_all add: same_but_hits_def upd_page_simps)
  ultimately show ?thesis using wf3 len by (simp add: upd_page_simps)
qed

section \<open>A cell as a map\<close>

definition holds :: "page_cell \<Rightarrow> data_loc_t \<Rightarrow> nat \<Rightarrow> bool" where
  "holds c l k \<longleftrightarrow> k < length (pc_buf c) \<and> has_data (pc_buf c ! k) \<and> page_loc (pc_buf c ! k) = l"

definition unique_locs :: "page_cell \<Rightarrow> bool" where
  "unique_locs c \<longleftrightarrow> (\<forall>l j k. page_aligned_loc l \<longrightarrow> holds c l j \<longrightarrow> holds c l k \<longrightarrow> j = k)"

lemma find_from_spec:
  assumes "cell_wf c" "i + n = pc_num_pages c"
  shows "\<exists>r. find_from c l i n = Inr r
    \<and> (\<forall>k. r = Some k \<longrightarrow> holds c l k)
    \<and> (r = None \<longrightarrow> (\<forall>j. i \<le> j \<longrightarrow> j < pc_num_pages c \<longrightarrow> page_loc (vpage c j) \<noteq> l))"
  using assms(2)
proof (induction n arbitrary: i)
  case 0
  then show ?case by simp
next
  case (Suc n)
  have gp: "get_page c i = Inr (pc_maps c ! i)" using assms(1) Suc.prems by (intro get_page_wf) auto
  have iff: "get_offset (pc_buf c ! k) = loc_off l \<and> pg_file_id (pc_buf c ! k) = loc_file_id l
      \<longleftrightarrow> page_loc (pc_buf c ! k) = l" for k
    by (cases l) (auto simp: page_loc_def)
  obtain r where r: "find_from c l (Suc i) n = Inr r" "\<forall>k. r = Some k \<longrightarrow> holds c l k"
    "r = None \<longrightarrow> (\<forall>j. Suc i \<le> j \<longrightarrow> j < pc_num_pages c \<longrightarrow> page_loc (vpage c j) \<noteq> l)"
    using Suc.IH [of "Suc i"] Suc.prems by auto
  show ?case
  proof (cases "page_loc (pc_buf c ! (pc_maps c ! i)) = l")
    case True
    then show ?thesis using gp get_page_Inr [OF gp] by (simp add: iff holds_def)
  next
    case False
    then show ?thesis
      using gp r by (auto simp: iff vpage_def) (metis le_antisym not_less_eq_eq)
  qed
qed

lemma find_page_spec:
  assumes "cell_wf c"
  obtains r where "find_page c l = Inr r" "\<And>k. r = Some k \<Longrightarrow> holds c l k"
    "r = None \<Longrightarrow> \<forall>k. \<not> holds c l k"
proof -
  obtain r where r: "find_from c l 0 (pc_num_pages c) = Inr r" "\<forall>k. r = Some k \<longrightarrow> holds c l k"
    "r = None \<longrightarrow> (\<forall>j. 0 \<le> j \<longrightarrow> j < pc_num_pages c \<longrightarrow> page_loc (vpage c j) \<noteq> l)"
    using find_from_spec [OF assms, of 0 "pc_num_pages c" l] by auto
  have "\<not> holds c l k" if "r = None" for k
    using that r(3) slot_index [OF assms, of k] cell_wfD(1) [OF assms]
    by (auto simp: holds_def vpage_def)
  then show ?thesis using that [of r] r by (simp add: find_page_def)
qed

section \<open>Lookup\<close>

lemma get_offset_not_m1: "get_offset p \<noteq> - 1"
proof
  assume "get_offset p = - 1"
  moreover have "even (get_offset p)" by (simp add: get_offset_def)
  ultimately show False by simp
qed

lemma core_proj:
  assumes "page_core p = page_core q"
  shows "page_loc p = page_loc q" "is_valid p = is_valid q" "pg_refcnt p = pg_refcnt q"
    "pg_data p = pg_data q"
  using assms by (simp_all add: page_core_eq_iff page_loc_def get_offset_def is_valid_def)

lemma core_retargeted:
  "page_core p = page_core q \<Longrightarrow> page_core (set_id l p) = page_core (set_id l q)"
  by (simp add: page_core_eq_iff page_simps)

lemma data_ready_set_id [simp]: "data_ready (set_id l p) = data_ready p"
  "is_dirty (set_id l p) = is_dirty p" "is_old_dirty (set_id l p) = is_old_dirty p"
  by (simp_all add: flag_get_defs get_flags_bit_def page_simps)

lemma data_ready_set_others [simp]:
  "data_ready (set_dirty v p) = data_ready p" "data_ready (set_old_dirty v p) = data_ready p"
  by (simp_all add: flag_set_defs flag_get_defs page_simps bit_page_set_flag)

lemma boundary_flags [simp]:
  "is_dirty (set_boundary th p) = is_dirty p" "is_old_dirty (set_boundary th p) = is_old_dirty p"
  "is_io_pending (set_boundary th p) = is_io_pending p"
  by (simp_all add: flag_get_defs get_flags_bit_def set_boundary_def)

lemma retarget_Inr:
  assumes "retarget bd th l p = Inr (old, q)"
  shows "old = page_loc p" "page_core q = page_core (set_id l p)" "\<not> data_ready q"
    "is_old_dirty q \<longleftrightarrow> is_old_dirty p \<or> is_dirty p" "is_dirty q \<longleftrightarrow> is_dirty p \<and> is_old_dirty p"
    "\<not> is_io_pending p"
proof -
  let ?p2 = "set_data_ready False (if bd then set_boundary th p else p)"
  let ?p3 = "if is_dirty ?p2 \<and> \<not> is_old_dirty ?p2
    then set_old_dirty True (set_dirty False ?p2) else ?p2"
  have core: "page_core ?p3 = page_core p" by simp
  have "\<not> is_io_pending ?p2" and q: "q = set_id l ?p3" and old: "old = page_loc ?p3"
    using assms get_offset_not_m1 unfolding retarget_def Let_def
    by (simp_all add: res_simps page_loc_def split: if_splits)
  then show "\<not> is_io_pending p" by (simp split: if_splits)
  show "old = page_loc p" using old core_proj(1) [OF core] by simp
  show "page_core q = page_core (set_id l p)" unfolding q by (rule core_retargeted [OF core])
  show "\<not> data_ready q" "is_old_dirty q \<longleftrightarrow> is_old_dirty p \<or> is_dirty p"
    "is_dirty q \<longleftrightarrow> is_dirty p \<and> is_old_dirty p"
    unfolding q by (auto split: if_splits)
qed

text \<open>
  What a caller of \<^verbatim>\<open>search\<close> learns. On a hit the page it gets is the one at the location asked
  for, with one reference more; on a miss it is a page nobody referenced, now standing for the
  location asked for, with one reference and no data yet, and \<^verbatim>\<open>old_id\<close> is the location it stood
  for before. In both cases no other page changes its location, memory or reference count.
\<close>

definition hit_post :: "data_loc_t \<Rightarrow> page_cell \<Rightarrow> nat \<Rightarrow> page_cell \<Rightarrow> bool" where
  "hit_post l c k c' \<longleftrightarrow> holds c l k \<and> holds c' l k \<and> agree_except k c c'
     \<and> pg_refcnt (pc_buf c' ! k) = int16 (pg_refcnt (pc_buf c ! k) + 1)
     \<and> pg_data (pc_buf c' ! k) = pg_data (pc_buf c ! k)
     \<and> pg_flags (pc_buf c' ! k) = pg_flags (pc_buf c ! k)"

definition miss_post :: "data_loc_t \<Rightarrow> page_cell \<Rightarrow> nat \<Rightarrow> data_loc_t \<Rightarrow> page_cell \<Rightarrow> bool" where
  "miss_post l c k old c' \<longleftrightarrow> free_slot c k \<and> old = page_loc (pc_buf c ! k) \<and> holds c' l k
     \<and> agree_except k c c' \<and> pg_refcnt (pc_buf c' ! k) = 1
     \<and> pg_data (pc_buf c' ! k) = pg_data (pc_buf c ! k)
     \<and> \<not> data_ready (pc_buf c' ! k)
     \<and> (is_dirty (pc_buf c ! k) \<longrightarrow> is_old_dirty (pc_buf c' ! k))"

definition search_post ::
  "data_loc_t \<Rightarrow> data_loc_t \<Rightarrow> page_cell \<Rightarrow> nat option \<times> data_loc_t \<times> page_cell \<Rightarrow> bool" where
  "search_post l old_id c = (\<lambda>(r, old, c').
     if \<exists>k. holds c l k then old = old_id \<and> (\<exists>k. r = Some k \<and> hit_post l c k c')
     else case r of None \<Rightarrow> old = old_id \<and> same_pages c c'
          | Some k \<Rightarrow> miss_post l c k old c')"

lemma int16_1 [simp]: "int16 1 = 1"
  by (simp add: int16_def)

lemma holds_core:
  assumes "holds c l k" "k < length (pc_buf c')" "page_core (pc_buf c' ! k) = page_core (pc_buf c ! k)"
  shows "holds c' l k"
  using assms core_proj(1) [OF assms(3)] has_data_core [OF assms(3)] by (simp add: holds_def)

lemma take_page_Inr:
  assumes "cell_wf c" "k < length (pc_buf c)" "take_page k c = Inr c'"
  shows "cell_wf c'" "agree_except k c c'"
    "sans_hits (pc_buf c' ! k) = sans_hits (inc_ref (pc_buf c ! k))"
proof -
  obtain c2 where "take_page k c = Inr c2" and wf2: "cell_wf c2"
    and shape: "pc_num_pages c2 = pc_num_pages c" "pc_maps c2 = pc_maps c"
      "length (pc_buf c2) = length (pc_buf c)"
    and nth: "\<And>j. j < length (pc_buf c) \<Longrightarrow> sans_hits (pc_buf c2 ! j)
         = sans_hits (if j = k then inc_ref (pc_buf c ! k) else pc_buf c ! j)"
    using take_page_ok [OF assms(1,2)] by blast
  then have "c' = c2" using assms(3) by simp
  moreover have "page_core (pc_buf c2 ! j) = page_core (pc_buf c ! j)"
    if "j < length (pc_buf c)" "j \<noteq> k" for j
    using sans_hitsD(1) [OF nth [OF that(1)]] that(2) by simp
  ultimately show "cell_wf c'" "agree_except k c c'"
    "sans_hits (pc_buf c' ! k) = sans_hits (inc_ref (pc_buf c ! k))"
    using wf2 shape nth [OF assms(2)] by (simp_all add: agree_except_def)
qed

lemma inc_ref_simps [page_simps]:
  "page_loc (inc_ref p) = page_loc p" "has_data (inc_ref p) = has_data p"
  "pg_data (inc_ref p) = pg_data p" "pg_flags (inc_ref p) = pg_flags p"
  "pg_refcnt (inc_ref p) = int16 (pg_refcnt p + 1)"
  by (simp_all add: inc_ref_def page_loc_def has_data_def get_offset_def)

lemma take_page_hit:
  assumes wf: "cell_wf c" and h: "holds c l k" and same: "same_pages c b"
    and fl: "pg_flags (pc_buf b ! k) = pg_flags (pc_buf c ! k)" and tk: "take_page k b = Inr c'"
  shows "cell_wf c'" "hit_post l c k c'"
proof -
  have k: "k < length (pc_buf c)" using h by (simp add: holds_def)
  then have kb: "k < length (pc_buf b)" using same_pages_length [OF same] by simp
  note core = same_pages_nth(1) [OF same k]
  note t = take_page_Inr [OF same_pages_wf [OF same wf] kb tk]
  show "cell_wf c'" by (rule t(1))
  have "pg_data (pc_buf c' ! k) = pg_data (pc_buf b ! k)"
    using sans_hitsD(1) [OF t(3)] by (simp add: page_core_def inc_ref_def)
  then show "hit_post l c k c'"
    using h core_proj [OF core] has_data_core [OF core] fl sans_hitsD [OF t(3)] t(2) kb
      agree_except_trans [OF same_pages_agree [OF same] t(2)]
    by (simp add: hit_post_def holds_def page_simps agree_except_def)
qed

lemma take_page_miss:
  assumes wf: "cell_wf c" and v: "good_victim c k b" and l: "page_aligned_loc l"
    and rt: "retarget bd th l (pc_buf b ! k) = Inr (old, p)"
    and tk: "take_page k (b\<lparr>pc_buf := (pc_buf b)[k := p]\<rparr>) = Inr c'"
  shows "cell_wf c'" "miss_post l c k old c'" "agree_except k b c'" "is_valid (pc_buf c' ! k)"
proof -
  let ?b = "b\<lparr>pc_buf := (pc_buf b)[k := p]\<rparr>"
  have same: "same_pages c b" and k: "k < length (pc_buf c)" and free: "free_slot c k"
    using v cell_wfD(1) [OF wf] by (simp_all add: good_victim_def free_slot_def)
  have kb: "k < length (pc_buf b)" using k same_pages_length [OF same] by simp
  note core = same_pages_nth [OF same k]
  note r = retarget_Inr [OF rt]
  have "has_data p = has_data (pc_buf b ! k)"
    using has_data_core [OF r(2)] by (simp add: has_data_def page_simps)
  then have "cell_wf ?b" by (rule cell_wf_upd [OF same_pages_wf [OF same wf]])
  moreover have "k < length (pc_buf ?b)" using kb by simp
  ultimately have t: "cell_wf c'" "agree_except k ?b c'"
    "sans_hits (pc_buf c' ! k) = sans_hits (inc_ref p)"
    using take_page_Inr [of ?b k c'] tk kb by simp_all
  show "cell_wf c'" by (rule t(1))
  have ag: "agree_except k b ?b" by (simp add: agree_except_def)
  show ab: "agree_except k b c'" using ag t(2) by (rule agree_except_trans)
  have p: "page_loc p = l" "pg_refcnt p = 0" "pg_data p = pg_data (pc_buf c ! k)" "is_valid p"
    using core_proj [OF r(2)] core_proj [OF core(1)] free page_loc_set_id [OF l]
      is_valid_set_id [OF l] by (simp_all add: free_slot_def page_simps)
  have d: "pg_data (pc_buf c' ! k) = pg_data p" "is_valid (pc_buf c' ! k) = is_valid p"
    using sans_hitsD(1,5) [OF t(3)] by (simp_all add: page_core_def inc_ref_def is_valid_def)
  then show "is_valid (pc_buf c' ! k)" using p by simp
  have "\<not> data_ready (pc_buf c' ! k)" "is_dirty (pc_buf c ! k) \<longrightarrow> is_old_dirty (pc_buf c' ! k)"
    using r(3,4) sans_hitsD(2) [OF t(3)] core(2)
    by (simp_all add: data_ready_def is_old_dirty_def get_flags_bit_def page_simps)
  moreover have "holds c' l k"
    using sans_hitsD [OF t(3)] p d t(2) kb free
    by (simp add: holds_def page_simps agree_except_def has_data_def free_slot_def)
  ultimately show "miss_post l c k old c'"
    using free r(1) core_proj(1) [OF core(1)] sans_hitsD(6) [OF t(3)] p d
      agree_except_trans [OF same_pages_agree [OF same] ab]
    by (simp add: miss_post_def page_simps)
qed

text \<open>The three ways through \<^verbatim>\<open>search\<close>.\<close>

definition drop_boundary :: "nat \<Rightarrow> nat \<Rightarrow> page_cell \<Rightarrow> page_cell" where
  "drop_boundary th k c = (if th \<noteq> pg_th_id (pc_buf c ! k) then upd_page k clear_boundary c else c)"

lemma search_hitD:
  assumes "search evict access th info l old_id hc = Inr (r, old, hc')"
    and "find_page (hc_buf hc) l = Inr (Some k)"
  shows "access (hc_policy hc) (drop_boundary th k (hc_buf hc)) k = Inr (hc_policy hc')"
    "take_page k (drop_boundary th k (hc_buf hc)) = Inr (hc_buf hc')" "r = Some k" "old = old_id"
proof -
  have "\<exists>pol b2. access (hc_policy hc) (drop_boundary th k (hc_buf hc)) k = Inr pol
    \<and> take_page k (drop_boundary th k (hc_buf hc)) = Inr b2
    \<and> r = Some k \<and> old = old_id \<and> hc_policy hc' = pol \<and> hc_buf hc' = b2"
    using assms unfolding drop_boundary_def
    by (simp add: search_def Let_def res_simps cong: if_cong) force
  then show "access (hc_policy hc) (drop_boundary th k (hc_buf hc)) k = Inr (hc_policy hc')"
    "take_page k (drop_boundary th k (hc_buf hc)) = Inr (hc_buf hc')" "r = Some k" "old = old_id"
    by auto
qed

lemma search_missD:
  assumes "search evict access th info l old_id hc = Inr (r, old, hc')"
    and "find_page (hc_buf hc) l = Inr None"
  obtains (full) b1 where "evict (loc_off l sdiv PAGE_SIZE) (hc_policy hc) (hc_buf hc)
      = Inr (None, hc_policy hc', b1)" "r = None" "old = old_id" "hc_buf hc' = b1"
  | (victim) k b1 bd p where "evict (loc_off l sdiv PAGE_SIZE) (hc_policy hc) (hc_buf hc)
      = Inr (Some k, hc_policy hc', b1)" "r = Some k" "retarget bd th l (pc_buf b1 ! k) = Inr (old, p)"
    "take_page k (b1\<lparr>pc_buf := (pc_buf b1)[k := p]\<rparr>) = Inr (hc_buf hc')"
proof -
  obtain v pol b1 where ev: "evict (loc_off l sdiv PAGE_SIZE) (hc_policy hc) (hc_buf hc) = Inr (v, pol, b1)"
    using assms by (auto simp: search_def Let_def res_simps)
  show ?thesis
  proof (cases v)
    case None
    then show ?thesis using assms ev full by (auto simp: search_def Let_def)
  next
    case (Some k)
    then show ?thesis
      using assms ev victim by (auto simp: search_def Let_def res_simps split: if_splits)
  qed
qed

lemma drop_boundary_same:
  assumes "cell_wf c"
  shows "same_pages c (drop_boundary th k c)"
    "k < length (pc_buf c) \<Longrightarrow> pg_flags (pc_buf (drop_boundary th k c) ! k) = pg_flags (pc_buf c ! k)"
proof -
  show "same_pages c (drop_boundary th k c)"
    using same_pages_bookkeeping [OF assms, of clear_boundary k]
      same_pages_refl [OF cell_wfD(3) [OF assms]]
    by (simp add: drop_boundary_def)
qed (simp add: drop_boundary_def upd_page_nth clear_boundary_def)

lemma holds_valid: "holds c l k \<Longrightarrow> page_aligned_loc l \<Longrightarrow> is_valid (pc_buf c ! k)"
  by (auto simp: holds_def page_loc_def get_offset_def is_valid_def page_aligned_loc_def)

context eviction
begin

lemma search_correct:
  assumes wf: "cell_wf (hc_buf hc)" and inv: "pol_inv (hc_policy hc) (hc_buf hc)"
    and l: "page_aligned_loc l"
    and access: "\<And>st c k st'. pol_inv st c \<Longrightarrow> access st c k = Inr st' \<Longrightarrow> pol_inv st' c"
    and ok: "search evict access th info l old_id hc = Inr (r, old, hc')"
  shows "search_post l old_id (hc_buf hc) (r, old, hc_buf hc')
    \<and> cell_wf (hc_buf hc') \<and> pol_inv (hc_policy hc') (hc_buf hc')"
proof -
  obtain f where f: "find_page (hc_buf hc) l = Inr f" "\<And>k. f = Some k \<Longrightarrow> holds (hc_buf hc) l k"
    "f = None \<Longrightarrow> \<forall>k. \<not> holds (hc_buf hc) l k"
    using find_page_spec [OF wf] by blast
  show ?thesis
  proof (cases f)
    case (Some k)
    let ?c = "hc_buf hc" and ?b = "drop_boundary th k (hc_buf hc)"
    note s = search_hitD [OF ok f(1) [unfolded Some]]
    have h: "holds ?c l k" using f(2) Some by simp
    then have k: "k < length (pc_buf ?c)" "k < CELL_SIZE" and v: "is_valid (pc_buf ?c ! k)"
      using cell_wfD(1) [OF wf] holds_valid [OF _ l] by (simp_all add: holds_def)
    note same = drop_boundary_same(1) [OF wf, of th k]
    note t = take_page_hit [OF wf h same drop_boundary_same(2) [OF wf k(1)] s(2)]
    have "is_valid (pc_buf ?b ! k)" using core_proj(2) [OF same_pages_nth(1) [OF same k(1)]] v by simp
    moreover have "pol_inv (hc_policy hc') ?b"
      using access [OF inv_use [OF wf inv k(2) v same_pages_agree [OF same]] s(1)] .
    moreover have "agree_except k ?b (hc_buf hc')"
      using take_page_Inr(2) [OF same_pages_wf [OF same wf] _ s(2)] k same_pages_length [OF same]
      by simp
    ultimately have "pol_inv (hc_policy hc') (hc_buf hc')"
      using inv_use [OF same_pages_wf [OF same wf]] k(2) by blast
    then show ?thesis using t s(3,4) h by (auto simp: search_post_def)
  next
    case None
    then have none: "\<not> (\<exists>k. holds (hc_buf hc) l k)" using f(3) by simp
    from ok f(1) [unfolded None] show ?thesis
    proof (cases rule: search_missD)
      case (full b1)
      then show ?thesis
        using evict_none [OF wf inv full(1)] none same_pages_wf wf by (auto simp: search_post_def)
    next
      case (victim k b1 bd p)
      have v: "good_victim (hc_buf hc) k b1" using evict_victim [OF wf inv victim(1)] .
      note t = take_page_miss [OF wf v l victim(3,4)]
      show ?thesis
        using t victim(2) none inv_evict [OF wf inv victim(1) t(3)] by (simp add: search_post_def)
    qed
  qed
qed

end

subsection \<open>The locations a cell caches\<close>

definition cell_locs :: "page_cell \<Rightarrow> data_loc_t set" where
  "cell_locs c = {l. page_aligned_loc l \<and> (\<exists>k. holds c l k)}"

lemma holds_agree:
  assumes "agree_except k c c'" "j \<noteq> k"
  shows "holds c' l j = holds c l j"
proof (cases "j < length (pc_buf c)")
  case True
  then have core: "page_core (pc_buf c' ! j) = page_core (pc_buf c ! j)"
    using assms by (simp add: agree_except_def)
  then show ?thesis
    using assms(1) core_proj(1) [OF core] has_data_core [OF core]
    by (simp add: holds_def agree_except_def)
next
  case False
  then show ?thesis using assms(1) by (simp add: holds_def agree_except_def)
qed

lemma same_locs:
  assumes "\<And>m j. holds c' m j = holds c m j"
  shows "cell_locs c' = cell_locs c" "unique_locs c' = unique_locs c"
  using assms by (simp_all add: cell_locs_def unique_locs_def)

lemma search_post_locs:
  assumes u: "unique_locs c" and l: "page_aligned_loc l" and post: "search_post l old_id c (r, old, c')"
  shows "unique_locs c'"
    "cell_locs c' = (if l \<in> cell_locs c \<or> r = None then cell_locs c
                     else insert l (cell_locs c - {old}))"
proof -
  have here: "l \<in> cell_locs c \<longleftrightarrow> (\<exists>k. holds c l k)" using l by (simp add: cell_locs_def)
  have "unique_locs c' \<and> cell_locs c' = (if l \<in> cell_locs c \<or> r = None then cell_locs c
    else insert l (cell_locs c - {old}))"
  proof (cases "\<exists>k. holds c l k")
    case True
    then obtain k where k: "hit_post l c k c'" using post by (auto simp: search_post_def)
    then have eq: "holds c' m j = holds c m j" for m j
      using holds_agree [of k c c' j m] by (cases "j = k") (auto simp: hit_post_def holds_def)
    show ?thesis using same_locs [of c' c, OF eq] u here True by simp
  next
    case False
    show ?thesis
    proof (cases r)
      case None
      then have same: "same_pages c c'" using post False by (simp add: search_post_def)
      have eq: "holds c' m j = holds c m j" for m j
        using holds_agree [OF same_pages_agree [OF same, of "Suc j"], of j m] by simp
      show ?thesis using same_locs [of c' c, OF eq] u None by simp
    next
      case (Some k)
      then have m: "miss_post l c k old c'" using post False by (simp add: search_post_def)
      have new: "holds c' x j \<longleftrightarrow> (if j = k then x = l else holds c x j)" for x j
        using m holds_agree [of k c c' j x] by (auto simp: miss_post_def holds_def)
      have old: "holds c old k" using m by (auto simp: miss_post_def free_slot_def holds_def)
      have "unique_locs c'"
        unfolding unique_locs_def new
      proof (intro allI impI)
        fix x i j
        assume x: "page_aligned_loc x" and ij: "if i = k then x = l else holds c x i"
          "if j = k then x = l else holds c x j"
        have "i = j" if "holds c x i" "holds c x j"
          using u x that unfolding unique_locs_def by blast
        then show "i = j" using ij False by (metis (full_types))
      qed
      moreover have "cell_locs c' = insert l (cell_locs c - {old})"
      proof (rule set_eqI)
        fix x
        have "(\<exists>j. j \<noteq> k \<and> holds c x j) \<longleftrightarrow> (\<exists>j. holds c x j) \<and> x \<noteq> old" if "page_aligned_loc x"
        proof -
          have "x = old" if "holds c x k" using that old by (simp add: holds_def)
          moreover have "j = k" if "holds c x j" "x = old" for j
            using u old that \<open>page_aligned_loc x\<close> unfolding unique_locs_def by blast
          ultimately show ?thesis by metis
        qed
        moreover have "(\<exists>j. holds c' x j) \<longleftrightarrow> x = l \<or> (\<exists>j. j \<noteq> k \<and> holds c x j)"
          unfolding new by auto
        ultimately show "x \<in> cell_locs c' \<longleftrightarrow> x \<in> insert l (cell_locs c - {old})"
          using l by (auto simp: cell_locs_def)
      qed
      ultimately show ?thesis using here False Some by simp
    qed
  qed
  then show "unique_locs c'" "cell_locs c' = (if l \<in> cell_locs c \<or> r = None then cell_locs c
                     else insert l (cell_locs c - {old}))" by simp_all
qed

section \<open>Splitting and merging\<close>

lemma sans_hits_filter:
  "map sans_hits b' = map sans_hits b \<Longrightarrow>
   map sans_hits (filter has_data b') = map sans_hits (filter has_data b)"
proof (induction b' b rule: list_induct2')
  case (4 x xs y ys)
  then show ?case using sans_hitsD(4) [of x y] by auto
qed auto

lemma same_but_hits_pages:
  "same_but_hits c c' \<Longrightarrow> map sans_hits (cell_pages c') = map sans_hits (cell_pages c)"
  unfolding cell_pages_def same_but_hits_def by (intro sans_hits_filter) simp

lemma mset_empty_slot:
  assumes "k < length b" "has_data (b ! k)"
  shows "mset (filter has_data b) = add_mset (b ! k) (mset (filter has_data (b[k := empty_page])))"
proof -
  have "b ! k \<in># filter_mset has_data (mset b)" using assms by simp
  then show ?thesis using assms by (simp add: mset_update)
qed

text \<open>Slots a cell can give away: used, unreferenced, each once.\<close>

definition givable :: "nat list \<Rightarrow> page_cell \<Rightarrow> bool" where
  "givable ks c \<longleftrightarrow> distinct ks \<and> (\<forall>k \<in> set ks. free_slot c k)"

definition counted :: "page_cell \<Rightarrow> bool" where
  "counted c \<longleftrightarrow> cell_shape c \<and> pc_num_pages c = length (used_slots (pc_buf c))"

lemma steal_slots_ok:
  assumes "givable ks c" "counted c"
  shows "\<exists>c'. steal_slots ks c = Inr (map (\<lambda>k. pc_buf c ! k) ks, c') \<and> counted c'
    \<and> mset (cell_pages c) = mset (map (\<lambda>k. pc_buf c ! k) ks) + mset (cell_pages c')"
  using assms
proof (induction ks arbitrary: c)
  case (Cons k ks)
  let ?n = "(pc_num_pages c + 255) mod 256"
  let ?c = "c\<lparr>pc_num_pages := ?n, pc_buf := (pc_buf c)[k := empty_page]\<rparr>"
  have k: "k < length (pc_buf c)" "has_data (pc_buf c ! k)" "pg_refcnt (pc_buf c ! k) = 0"
    and notin: "k \<notin> set ks" using Cons.prems(1) by (simp_all add: givable_def free_slot_def)
  note ms = mset_empty_slot [OF k(1,2)]
  have "length (used_slots (pc_buf c)) = Suc (length (used_slots (pc_buf ?c)))"
    using arg_cong [OF ms, of size] by (simp add: length_used_slots del: mset_filter)
  moreover have "length (used_slots (pc_buf c)) \<le> 16"
    using Cons.prems(2) length_used_slots_le [of "pc_buf c"] by (simp add: counted_def cell_shape_def)
  ultimately have cnt: "counted ?c" using Cons.prems(2) by (simp add: counted_def cell_shape_def)
  have giv: "givable ks ?c"
    using Cons.prems(1) notin k(1) by (auto simp: givable_def free_slot_def nth_list_update)
  have eq: "map (\<lambda>j. pc_buf ?c ! j) ks = map (\<lambda>j. pc_buf c ! j) ks"
  proof (rule map_cong)
    fix j
    assume "j \<in> set ks"
    then have "k \<noteq> j" using notin by auto
    then show "pc_buf ?c ! j = pc_buf c ! j" by simp
  qed simp
  from Cons.IH [OF giv cnt] obtain c' where
    c': "steal_slots ks ?c = Inr (map (\<lambda>j. pc_buf c ! j) ks, c')" "counted c'"
      "mset (cell_pages ?c) = mset (map (\<lambda>j. pc_buf c ! j) ks) + mset (cell_pages c')"
    unfolding eq by blast
  have "mset (cell_pages c) = add_mset (pc_buf c ! k) (mset (cell_pages ?c))"
    using ms by (simp add: cell_pages_def)
  then show ?case using c' k by (simp add: steal_page_def)
qed (simp add: counted_def)

lemma move_slots_ok:
  assumes giv: "givable ks src" and wf: "cell_wf src" "cell_wf dst"
    and room: "length ks + pc_num_pages dst \<le> CELL_SIZE"
  shows "\<exists>src' dst'. move_slots ks src dst = Inr (src', dst') \<and> cell_wf src' \<and> cell_wf dst'
    \<and> mset (cell_pages src) = mset (map (\<lambda>k. pc_buf src ! k) ks) + mset (cell_pages src')
    \<and> mset (cell_pages dst') = mset (map (\<lambda>k. pc_buf src ! k) ks) + mset (cell_pages dst)
    \<and> pc_num_pages dst' = pc_num_pages dst + length ks"
proof -
  let ?ps = "map (\<lambda>k. pc_buf src ! k) ks"
  have "counted src" using wf(1) by (simp add: counted_def cell_wf_def)
  from steal_slots_ok [OF giv this] obtain s1 where
    s1: "steal_slots ks src = Inr (?ps, s1)" "counted s1"
      "mset (cell_pages src) = mset ?ps + mset (cell_pages s1)" by blast
  from s1(2) rebuild_map_wf [of s1] obtain s2 where
    s2: "rebuild_map s1 = Inr s2" "cell_wf s2" "pc_buf s2 = pc_buf s1"
    by (auto simp: counted_def)
  have "\<forall>p \<in> set ?ps. has_data p" using giv by (auto simp: givable_def free_slot_def)
  moreover have "length ?ps + pc_num_pages dst \<le> CELL_SIZE" using room by simp
  ultimately obtain d where "inject_pages ?ps dst = Inr d" "cell_wf d"
    "mset (cell_pages d) = mset ?ps + mset (cell_pages dst)"
    "pc_num_pages d = pc_num_pages dst + length ?ps"
    using inject_pages_ok [OF wf(2)] by blast
  then show ?thesis using s1 s2 by (simp add: move_slots_def cell_pages_def)
qed

definition moves :: "(data_loc_t \<Rightarrow> int) \<Rightarrow> int \<Rightarrow> int \<Rightarrow> page \<Rightarrow> bool" where
  "moves hash1 this_h exp_h p \<longleftrightarrow> hash1 (page_loc p) = exp_h \<and> this_h \<noteq> exp_h \<and> pg_refcnt p = 0"

lemma drop_used_slots:
  assumes "cell_wf c" "i < pc_num_pages c"
  shows "drop i (used_slots (pc_buf c)) = pc_maps c ! i # drop (Suc i) (used_slots (pc_buf c))"
  using assms cell_wfD(4) [OF assms(1)] by (simp add: maps_nth Cons_nth_drop_Suc)

lemma same_but_hits_used:
  assumes "same_but_hits c c'" "pc_idx c < 256"
  shows "used_slots (pc_buf c') = used_slots (pc_buf c)"
  using same_pages_used_slots [OF same_but_hits_same_pages [OF assms]] .

lemma same_but_hits_trans: "same_but_hits a b \<Longrightarrow> same_but_hits b c \<Longrightarrow> same_but_hits a c"
  by (simp add: same_but_hits_def)

lemma moves_hits:
  assumes "sans_hits p = sans_hits q"
  shows "moves hash1 th eh p = moves hash1 th eh q" "initialized p = initialized q"
  using sans_hitsD [OF assms] by (simp_all add: moves_def initialized_def is_valid_def)

lemma filter_moves_hits:
  assumes "same_but_hits c c'" "\<forall>k \<in> set ks. k < length (pc_buf c)"
  shows "filter (\<lambda>k. moves h th eh (pc_buf c' ! k)) ks = filter (\<lambda>k. moves h th eh (pc_buf c ! k)) ks"
  using assms moves_hits(1) [OF same_but_hits_nth [OF assms(1)]] by (intro filter_cong) auto

lemma rehash_scan_ok:
  assumes "cell_wf c" "i + n = pc_num_pages c"
  shows "\<exists>c'. rehash_scan h th eh c i n
      = Inr (filter (\<lambda>k. moves h th eh (pc_buf c ! k)) (drop i (used_slots (pc_buf c))), c')
    \<and> same_but_hits c c'"
  using assms
proof (induction n arbitrary: i c)
  case 0
  then show ?case using cell_wfD(4) [OF 0(1)] by (simp add: same_but_hits_def)
next
  case (Suc n)
  let ?k = "pc_maps c ! i"
  have i: "i < pc_num_pages c" using Suc.prems(2) by simp
  note gp = get_page_wf [OF Suc.prems(1) i]
  note drop = drop_used_slots [OF Suc.prems(1) i]
  show ?case
  proof (cases "h (page_loc (pc_buf c ! ?k)) = eh")
    case True
    then show ?thesis
      using Suc.IH [OF Suc.prems(1), of "Suc i"] Suc.prems(2) gp
      by (auto simp: drop moves_def)
  next
    case False
    let ?p = "(pc_buf c ! ?k)\<lparr>pg_hits := 1\<rparr>"
    let ?c = "c\<lparr>pc_buf := (pc_buf c)[?k := ?p]\<rparr>"
    have eq: "rehash_scan h th eh c i (Suc n) = rehash_scan h th eh ?c (Suc i) n"
      using False gp by (simp add: set_hits_def)
    have wf: "cell_wf ?c" using Suc.prems(1) by (rule cell_wf_upd) (simp add: has_data_def)
    have hb: "same_but_hits c ?c"
      using get_page_Inr [OF gp]
      by (simp add: same_but_hits_def map_update sans_hits_def list_update_same_conv)
    have "\<forall>k \<in> set (drop (Suc i) (used_slots (pc_buf c))). k < length (pc_buf c)"
      by (auto dest!: in_set_dropD simp: set_used_slots)
    note flt = filter_moves_hits [OF hb this, of h th eh]
    have "\<exists>c'. rehash_scan h th eh ?c (Suc i) n
        = Inr (filter (\<lambda>k. moves h th eh (pc_buf ?c ! k)) (drop (Suc i) (used_slots (pc_buf ?c))), c')
      \<and> same_but_hits ?c c'"
      using Suc.prems(2) by (intro Suc.IH [OF wf]) simp
    then show ?thesis
      using False eq flt same_but_hits_used [OF hb cell_wfD(3) [OF Suc.prems(1)]]
        same_but_hits_trans [OF hb]
      by (auto simp: drop moves_def)
  qed
qed

lemma empty_slots_from_ok:
  assumes "cell_wf c" "i + n = pc_num_pages c"
  shows "empty_slots_from c req i n
    = Inr (take req (filter (\<lambda>k. \<not> initialized (pc_buf c ! k)) (drop i (used_slots (pc_buf c)))))"
  using assms(2)
proof (induction n arbitrary: i req)
  case 0
  then show ?case using cell_wfD(4) [OF assms(1)] by simp
next
  case (Suc n)
  then have i: "i < pc_num_pages c" by simp
  show ?case
    using Suc.IH [of "Suc i"] Suc.prems get_page_wf [OF assms(1) i]
    by (cases req) (simp_all add: drop_used_slots [OF assms(1) i])
qed

lemma givable_filter:
  assumes "\<And>k. k < length (pc_buf c) \<Longrightarrow> has_data (pc_buf c ! k) \<Longrightarrow> P k \<Longrightarrow> pg_refcnt (pc_buf c ! k) = 0"
  shows "givable (filter P (used_slots (pc_buf c))) c"
  using assms sorted_used_slots(2) by (auto simp: givable_def free_slot_def set_used_slots)

lemma map_filter_used:
  "map (\<lambda>k. pc_buf c ! k) (filter (\<lambda>k. P (pc_buf c ! k)) (used_slots (pc_buf c)))
   = filter P (cell_pages c)"
  by (simp add: cell_pages_slots filter_map comp_def)

lemma mset_filter_rest:
  "mset xs = mset (filter P xs) + M \<Longrightarrow> M = filter_mset (\<lambda>x. \<not> P x) (mset xs)"
  by (metis add_left_cancel mset_filter multiset_partition)

text \<open>First half of \<^verbatim>\<open>rehash\<close>: the pages that belong to the new cell go there.\<close>

lemma rehash_exchange:
  assumes wf: "cell_wf b" "cell_wf e" and e: "pc_num_pages e = 0"
    and ks: "ks = filter (\<lambda>k. moves h th eh (pc_buf b ! k)) (used_slots (pc_buf b))"
  shows "\<exists>b2 e2. (if ks \<noteq> [] then move_slots ks b e else Inr (b, e)) = Inr (b2, e2)
    \<and> cell_wf b2 \<and> cell_wf e2
    \<and> mset (cell_pages b2) = filter_mset (\<lambda>p. \<not> moves h th eh p) (mset (cell_pages b))
    \<and> mset (cell_pages e2) = filter_mset (moves h th eh) (mset (cell_pages b))"
proof -
  have none: "cell_pages e = []" using num_pages_cell_pages [OF wf(2)] e by simp
  have ps: "map (\<lambda>k. pc_buf b ! k) ks = filter (moves h th eh) (cell_pages b)"
    unfolding ks by (rule map_filter_used)
  have giv: "givable ks b" unfolding ks by (rule givable_filter) (simp add: moves_def)
  have "length ks \<le> length (used_slots (pc_buf b))" unfolding ks by (rule length_filter_le)
  then have "length ks + pc_num_pages e \<le> CELL_SIZE" using cell_wfD(4,5) [OF wf(1)] e by simp
  from move_slots_ok [OF giv wf this] obtain b2 e2 where
    m: "move_slots ks b e = Inr (b2, e2)" "cell_wf b2" "cell_wf e2"
      "mset (cell_pages b) = mset (filter (moves h th eh) (cell_pages b)) + mset (cell_pages b2)"
      "mset (cell_pages e2) = mset (filter (moves h th eh) (cell_pages b)) + mset (cell_pages e)"
    unfolding ps by blast
  show ?thesis
  proof (cases "ks = []")
    case True
    then have "filter (moves h th eh) (cell_pages b) = []" using ps by simp
    then have "filter_mset (moves h th eh) (mset (cell_pages b)) = {#}"
      by (simp flip: mset_filter)
    moreover from this have "filter_mset (\<lambda>p. \<not> moves h th eh p) (mset (cell_pages b)) = mset (cell_pages b)"
      by (metis add_0 multiset_partition)
    ultimately show ?thesis using True wf none by simp
  next
    case False
    then show ?thesis using m mset_filter_rest [OF m(4)] none by simp
  qed
qed

lemma refill_ok:
  assumes wf: "cell_wf b" "cell_wf e" and min: "m \<le> CELL_SIZE"
    and idle: "\<forall>p \<in> set (cell_pages b). \<not> initialized p \<longrightarrow> pg_refcnt p = 0"
  shows "\<exists>b' e'. refill m b e = Inr (b', e') \<and> cell_wf b' \<and> cell_wf e'
    \<and> mset (cell_pages b') + mset (cell_pages e') = mset (cell_pages b) + mset (cell_pages e)
    \<and> set (cell_pages b') \<subseteq> set (cell_pages b)
    \<and> (\<forall>p \<in> set (cell_pages e'). p \<in> set (cell_pages e) \<or> \<not> initialized p)"
proof (cases "0 < int m - int (pc_num_pages e)")
  case False
  then show ?thesis using wf by (simp add: refill_def)
next
  case True
  let ?F = "filter (\<lambda>k. \<not> initialized (pc_buf b ! k)) (used_slots (pc_buf b))"
  let ?r = "nat (int m - int (pc_num_pages e))"
  let ?ps = "map (\<lambda>k. pc_buf b ! k) (take ?r ?F)"
  have "givable ?F b"
    using idle by (intro givable_filter) (auto simp: cell_pages_def)
  then have giv: "givable (take ?r ?F) b"
    by (auto simp: givable_def dest: in_set_takeD)
  have room: "length (take ?r ?F) + pc_num_pages e \<le> CELL_SIZE" using min True by simp
  from move_slots_ok [OF giv wf room] obtain b3 e3 where
    m: "move_slots (take ?r ?F) b e = Inr (b3, e3)" "cell_wf b3" "cell_wf e3"
      "mset (cell_pages b) = mset ?ps + mset (cell_pages b3)"
      "mset (cell_pages e3) = mset ?ps + mset (cell_pages e)"
    by blast
  have "refill m b e = Inr (b3, e3)"
    using True m(1) empty_slots_from_ok [OF wf(1), of 0] by (simp add: refill_def Let_def)
  moreover have "set (cell_pages b3) \<subseteq> set (cell_pages b)"
    using arg_cong [OF m(4), of set_mset] by auto
  moreover have "\<forall>p \<in> set (cell_pages e3). p \<in> set (cell_pages e) \<or> \<not> initialized p"
    using arg_cong [OF m(5), of set_mset] by (auto dest!: in_set_takeD)
  ultimately show ?thesis using m by simp
qed

lemma rehash_ok:
  assumes wf: "cell_wf (hc_buf this)" "cell_wf (hc_buf new)" and e: "pc_num_pages (hc_buf new) = 0"
    and min: "m \<le> CELL_SIZE"
    and idle: "\<forall>p \<in> set (cell_pages (hc_buf this)). \<not> initialized p \<longrightarrow> pg_refcnt p = 0"
  shows "\<exists>b e. rehash h m this new = Inr (this\<lparr>hc_buf := b\<rparr>, new\<lparr>hc_buf := e\<rparr>)
    \<and> cell_wf b \<and> cell_wf e
    \<and> image_mset sans_hits (mset (cell_pages b) + mset (cell_pages e))
        = image_mset sans_hits (mset (cell_pages (hc_buf this)))
    \<and> (\<forall>p \<in> set (cell_pages b). \<not> moves h (hc_hash this) (hc_hash new) p)
    \<and> (\<forall>p \<in> set (cell_pages e). moves h (hc_hash this) (hc_hash new) p \<or> \<not> initialized p)"
proof -
  let ?P = "moves h (hc_hash this) (hc_hash new)" and ?c = "hc_buf this"
  obtain b1 where scan: "rehash_scan h (hc_hash this) (hc_hash new) ?c 0 (pc_num_pages ?c)
      = Inr (filter (\<lambda>k. ?P (pc_buf ?c ! k)) (used_slots (pc_buf ?c)), b1)"
    and hb: "same_but_hits ?c b1"
    using rehash_scan_ok [OF wf(1), of 0 "pc_num_pages ?c" h] by auto
  have wf1: "cell_wf b1"
    using same_pages_wf [OF same_but_hits_same_pages [OF hb cell_wfD(3) [OF wf(1)]] wf(1)] .
  let ?ks = "filter (\<lambda>k. ?P (pc_buf b1 ! k)) (used_slots (pc_buf b1))"
  have ks: "filter (\<lambda>k. ?P (pc_buf ?c ! k)) (used_slots (pc_buf ?c)) = ?ks"
    using filter_moves_hits [OF hb, of "used_slots (pc_buf ?c)"]
      same_but_hits_used [OF hb cell_wfD(3) [OF wf(1)]] by (simp add: set_used_slots)
  obtain b2 e2 where ex: "(if ?ks \<noteq> [] then move_slots ?ks b1 (hc_buf new) else Inr (b1, hc_buf new))
      = Inr (b2, e2)" and wf2: "cell_wf b2" "cell_wf e2"
    and b2: "mset (cell_pages b2) = filter_mset (\<lambda>p. \<not> ?P p) (mset (cell_pages b1))"
    and e2: "mset (cell_pages e2) = filter_mset ?P (mset (cell_pages b1))"
    using rehash_exchange [OF wf1 wf(2) e refl] by blast
  have hits: "image_mset sans_hits (mset (cell_pages b1)) = image_mset sans_hits (mset (cell_pages ?c))"
    using arg_cong [OF same_but_hits_pages [OF hb], of mset] by simp
  have sets: "\<forall>p \<in> set (cell_pages b2). \<not> ?P p" "\<forall>p \<in> set (cell_pages e2). ?P p"
    "set (cell_pages b2) \<subseteq> set (cell_pages b1)"
    using arg_cong [OF b2, of set_mset] arg_cong [OF e2, of set_mset] by auto
  have all: "mset (cell_pages b2) + mset (cell_pages e2) = mset (cell_pages b1)"
    unfolding b2 e2 by (metis add.commute multiset_partition)
  have idle2: "\<forall>p \<in> set (cell_pages b2). \<not> initialized p \<longrightarrow> pg_refcnt p = 0"
  proof (intro ballI impI)
    fix p
    assume p: "p \<in> set (cell_pages b2)" "\<not> initialized p"
    have "sans_hits p \<in># image_mset sans_hits (mset (cell_pages ?c))"
      using p(1) sets(3) unfolding hits [symmetric] by auto
    then obtain q where q: "q \<in> set (cell_pages ?c)" "sans_hits p = sans_hits q" by auto
    then show "pg_refcnt p = 0"
      using idle p(2) moves_hits(2) [OF q(2)] sans_hitsD(6) [OF q(2)] by simp
  qed
  obtain b3 e3 where r: "refill m b2 e2 = Inr (b3, e3)" "cell_wf b3" "cell_wf e3"
    "mset (cell_pages b3) + mset (cell_pages e3) = mset (cell_pages b2) + mset (cell_pages e2)"
    "set (cell_pages b3) \<subseteq> set (cell_pages b2)"
    "\<forall>p \<in> set (cell_pages e3). p \<in> set (cell_pages e2) \<or> \<not> initialized p"
    using refill_ok [OF wf2 min idle2] by blast
  have "rehash h m this new = Inr (this\<lparr>hc_buf := b3\<rparr>, new\<lparr>hc_buf := e3\<rparr>)"
    using scan ex r(1) by (simp add: rehash_def ks)
  then show ?thesis
    using r(2-) sets(1,2) all hits
    by (intro exI [of _ b3] exI [of _ e3]) (auto simp flip: image_mset_union)
qed

lemma merge_ok:
  assumes wf: "cell_wf (hc_buf this)" "cell_wf (hc_buf other)"
    and room: "pc_num_pages (hc_buf other) + pc_num_pages (hc_buf this) \<le> CELL_SIZE"
    and free: "\<forall>p \<in> set (cell_pages (hc_buf other)). pg_refcnt p \<le> 0"
  shows "\<exists>t c. merge this other = Inr (this\<lparr>hc_buf := t\<rparr>, other\<lparr>hc_buf := c\<rparr>)
    \<and> cell_wf t \<and> cell_wf c \<and> pc_num_pages c = 0
    \<and> mset (cell_pages t) = mset (cell_pages (hc_buf other)) + mset (cell_pages (hc_buf this))"
proof -
  let ?ps = "cell_pages (hc_buf other)"
  have np: "length ?ps = pc_num_pages (hc_buf other)" using num_pages_cell_pages [OF wf(2)] by simp
  then have "take CELL_SIZE ?ps = ?ps" "drop CELL_SIZE ?ps = []"
    using cell_wfD(5) [OF wf(2)] by simp_all
  with steal_pages_ok [OF wf(2) free, of CELL_SIZE] obtain c where
    c: "steal_pages CELL_SIZE (hc_buf other) = Inr (?ps, c)" "cell_wf c" "cell_pages c = []" by auto
  have "\<forall>p \<in> set ?ps. has_data p" by (simp add: cell_pages_def)
  from inject_pages_ok [OF wf(1) this] obtain t where
    t: "inject_pages ?ps (hc_buf this) = Inr t" "cell_wf t"
      "mset (cell_pages t) = mset ?ps + mset (cell_pages (hc_buf this))"
    using room np by auto
  have "pc_num_pages c = 0" using num_pages_cell_pages [OF c(2)] c(3) by simp
  then show ?thesis
    using c t room by (intro exI [of _ t] exI [of _ c]) (simp add: merge_def)
qed

end
