(* ===== verification/APR_Laws.thy ===== *)
theory APR_Laws
  imports APR Hash_Cell_Laws
begin

text \<open>
  The adaptive policy provides the contract \<open>eviction\<close>: whatever the challenges, the ghosts and the
  scores do, the page it gives away is an unreferenced page of the cell. Further: \<^verbatim>\<open>spow\<close> computes
  the power it is named after, the policy of the followers is the sign of the global score after
  every eviction, and the LIFO list stays a permutation of the cell's indices.
\<close>

section \<open>Steps that change bookkeeping only\<close>

text \<open>
  \<open>calm\<close>: the pages keep their location, memory, reference count and dirty bit, none of them gets
  ready data, and the policy object keeps the members that say which scan runs; the global score
  and policy are not touched. Every routine below \<^verbatim>\<open>evict_page\<close> is calm.
\<close>

definition calm :: "apr_ctx \<Rightarrow> apr_ctx \<Rightarrow> bool" where
  "calm cx cx' \<longleftrightarrow> (pc_idx (cx_buf cx) < 256 \<longrightarrow> same_pages (cx_buf cx) (cx_buf cx'))
     \<and> (\<forall>j < length (pc_buf (cx_buf cx)). data_ready (cx_page cx' j) \<longrightarrow> data_ready (cx_page cx j))
     \<and> ap_warm_up (cx_pol cx') = ap_warm_up (cx_pol cx)
     \<and> ap_default_policy (cx_pol cx') = ap_default_policy (cx_pol cx)
     \<and> ap_sample (cx_pol cx') = ap_sample (cx_pol cx)
     \<and> ap_policy (cx_pol cx') = ap_policy (cx_pol cx)
     \<and> gl_score (cx_glob cx') = gl_score (cx_glob cx)
     \<and> gl_policy (cx_glob cx') = gl_policy (cx_glob cx)"

definition keeps :: "apr_ctx res \<Rightarrow> apr_ctx \<Rightarrow> bool" where
  "keeps m cx \<longleftrightarrow> (\<forall>cx'. m = Inr cx' \<longrightarrow> calm cx cx')"

lemma calm_refl [simp]: "calm cx cx"
  by (simp add: calm_def same_pages_refl)

lemma calm_same: "calm cx cx' \<Longrightarrow> cell_wf (cx_buf cx) \<Longrightarrow> same_pages (cx_buf cx) (cx_buf cx')"
  by (simp add: calm_def cell_wfD(3))

lemma calm_wf: "calm cx cx' \<Longrightarrow> cell_wf (cx_buf cx) \<Longrightarrow> cell_wf (cx_buf cx')"
  using calm_same same_pages_wf by blast

lemma calm_trans:
  assumes "calm a b" "calm b c" "cell_wf (cx_buf a)"
  shows "calm a c"
  using assms calm_same [OF assms(1,3)] calm_same [OF assms(2) calm_wf [OF assms(1,3)]]
    same_pages_length [OF calm_same [OF assms(1,3)]]
  unfolding calm_def by (auto intro: same_pages_trans)

lemma calm_upd_pg:
  assumes "\<And>p. page_core (f p) = page_core p" "\<And>p. is_dirty (f p) = is_dirty p"
    "\<And>p. data_ready (f p) \<Longrightarrow> data_ready p"
  shows "calm cx (upd_pg k f cx)"
proof -
  have "same_pages (cx_buf cx) (upd_page k f (cx_buf cx))" if "pc_idx (cx_buf cx) < 256"
    using same_pages_upd [OF same_pages_refl [OF that] assms(1,2)] .
  moreover have "data_ready (pc_buf (upd_page k f (cx_buf cx)) ! j) \<longrightarrow> data_ready (pc_buf (cx_buf cx) ! j)"
    if "j < length (pc_buf (cx_buf cx))" for j
    using assms(3) that by (cases "j = k") (auto simp: upd_page_simps)
  ultimately show ?thesis by (simp add: calm_def upd_pg_def cx_page_def)
qed

lemma calm_pages [simp]:
  "calm cx (upd_pg k clear_evicted cx)" "calm cx (upd_pg k reset_hits cx)"
  "calm cx (upd_pg k clear_boundary cx)" "calm cx (upd_pg k (set_stime t \<circ> set_evicted b) cx)"
  by (rule calm_upd_pg; simp add: data_ready_def get_flags_bit_def clear_evicted_def
      reset_hits_def clear_boundary_def set_stime_def set_evicted_def page_core_def is_dirty_def)+

lemma calm_not_ready [simp]: "calm cx (upd_pg k (set_data_ready False) cx)"
  by (rule calm_upd_pg) simp_all

lemma calm_upd_pol:
  assumes "ap_warm_up (f (cx_pol cx)) = ap_warm_up (cx_pol cx)"
    "ap_default_policy (f (cx_pol cx)) = ap_default_policy (cx_pol cx)"
    "ap_sample (f (cx_pol cx)) = ap_sample (cx_pol cx)"
    "ap_policy (f (cx_pol cx)) = ap_policy (cx_pol cx)"
  shows "calm cx (upd_pol f cx)"
  using assms by (simp add: calm_def upd_pol_def same_pages_refl cx_page_def)

lemma calm_put_ghost [simp]: "calm cx (put_ghost off gh cx)"
  by (simp add: calm_def put_ghost_def same_pages_refl cx_page_def)

lemma keeps_Inr [simp]: "keeps (Inr cx') cx = calm cx cx'"
  by (simp add: keeps_def)

lemma keeps_Inl [simp]: "keeps (Inl e) cx"
  by (simp add: keeps_def)

lemma keeps_assert [simp]: "(b \<Longrightarrow> keeps m cx) \<Longrightarrow> keeps (assert_then b m) cx"
  by (cases b) simp_all

lemma keeps_seq:
  assumes "keeps m cx" "\<And>cx1. cell_wf (cx_buf cx1) \<Longrightarrow> keeps (f cx1) cx1" "cell_wf (cx_buf cx)"
  shows "keeps (bind_res m f) cx"
  unfolding keeps_def
proof (intro allI impI)
  fix cx'
  assume "bind_res m f = Inr cx'"
  then obtain cx1 where cx1: "m = Inr cx1" "f cx1 = Inr cx'" by (auto simp: res_simps)
  have c1: "calm cx cx1" using assms(1) cx1(1) by (simp add: keeps_def)
  moreover have "calm cx1 cx'"
    using assms(2) [OF calm_wf [OF c1 assms(3)]] cx1(2) by (simp add: keeps_def)
  ultimately show "calm cx cx'" using assms(3) by (rule calm_trans)
qed

lemma keeps_read: "(\<And>x. keeps (f x) cx) \<Longrightarrow> keeps (bind_res m f) cx"
  by (cases m) simp_all

lemma keeps_step:
  assumes "calm cx cx1" "keeps m cx1" "cell_wf (cx_buf cx)"
  shows "keeps m cx"
  using assms calm_trans by (auto simp: keeps_def)

lemma update_lifo_list_calm [simp]: "calm cx (update_lifo_list idx cx)"
  unfolding update_lifo_list_def by (rule calm_upd_pol) simp_all

lemma stale_keeps [simp]:
  "keeps (set_clock_stale i v cx) cx" "keeps (set_lifo_stale i v cx) cx"
  unfolding set_clock_stale_def set_lifo_stale_def by (auto intro!: keeps_read calm_upd_pol)

lemma ghost_keeps [simp]: "keeps (clear_ghost off cx) cx" "keeps (reg_ghost k i cx) cx"
  unfolding clear_ghost_def reg_ghost_def Let_def by (auto intro!: keeps_read)

lemma end_challenge_keeps [simp]: "keeps (end_challenge t w cx) cx"
  unfolding end_challenge_def by (auto intro!: keeps_read calm_upd_pol)

lemma eval_challenge_keeps:
  assumes "cell_wf (cx_buf cx)"
  shows "keeps (eval_challenge_off off cx) cx" "keeps (eval_challenge_pg k cx) cx"
  using assms unfolding eval_challenge_off_def eval_challenge_pg_def Let_def
  by (auto intro!: keeps_read [where m = "ghost_at _ _"] keeps_seq)

lemma refresh_keeps:
  assumes "cell_wf (cx_buf cx)"
  shows "keeps (refresh_chal k i cx) cx" "keeps (remove_page k pol cx) cx"
proof -
  have "keeps (clear_ghost off (upd_pg k clear_evicted cx1)) cx1" if "cell_wf (cx_buf cx1)" for off cx1
    by (rule keeps_step [OF calm_pages(1) ghost_keeps(1) that])
  then have "keeps (refresh_chal k i cx) cx" for i
    using assms unfolding refresh_chal_def by (intro keeps_seq) simp_all
  then show "keeps (refresh_chal k i cx) cx" "keeps (remove_page k pol cx) cx"
    by (simp_all add: remove_page_def)
qed

lemma start_challenge_keeps:
  assumes "cell_wf (cx_buf cx)"
  shows "keeps (start_challenge k pol cx) cx"
proof -
  have "calm cx (upd_pol (\<lambda>p. p\<lparr>ap_lifo_lt := g p\<rparr>) cx)" for g
    by (rule calm_upd_pol) simp_all
  then show ?thesis
    using calm_trans [OF _ calm_pages(4) assms] unfolding start_challenge_def Let_def by simp
qed

lemma pevict_keeps:
  assumes "cell_wf (cx_buf cx)"
  shows "keeps (pevict_page k cx) cx"
proof -
  let ?cx = "upd_pg k clear_evicted cx"
  have wf: "cell_wf (cx_buf ?cx)" using calm_wf [OF calm_pages(1) assms] .
  have "keeps (bind_res (set_clock_stale i True ?cx) (\<lambda>cx2. Inr (update_lifo_list i cx2))) ?cx" for i
    using wf by (intro keeps_seq) simp_all
  then show ?thesis
    unfolding pevict_page_def Let_def
    by (intro keeps_seq [OF keeps_step [OF calm_pages(1) [of _ k] _ assms] _ assms]) auto
qed

section \<open>The blocks of \<^verbatim>\<open>voter_actual_victim\<close>\<close>

lemma real_keeps:
  assumes "cell_wf (cx_buf cx)"
  shows "keeps (real_clock k cx) cx" "keeps (real_lifo k cx) cx" "keeps (same_victim k cx) cx"
proof -
  have rm: "keeps (bind_res (remove_page k pol cx1) (\<lambda>cx2. Inr (update_lifo_list (i cx2) cx2))) cx1"
    if "cell_wf (cx_buf cx1)" for cx1 pol i
    using that refresh_keeps(2) by (intro keeps_seq) simp_all
  have st: "keeps (bind_res (start_challenge k pol cx) (pevict_page k)) cx" for pol
    using assms start_challenge_keeps pevict_keeps by (intro keeps_seq) simp_all
  have en: "keeps (bind_res (end_challenge t w cx) (\<lambda>cx1. bind_res (remove_page k pol cx1)
      (\<lambda>cx2. Inr (update_lifo_list (i cx2) cx2)))) cx" for t w pol i
    by (rule keeps_seq [OF end_challenge_keeps rm assms])
  show "keeps (real_clock k cx) cx" "keeps (real_lifo k cx) cx"
    using st en pevict_keeps [OF assms] by (simp_all add: real_clock_def real_lifo_def)
  show "keeps (same_victim k cx) cx"
    unfolding same_victim_def by (rule keeps_seq [OF _ rm assms]) simp
qed

lemma virtual_keeps:
  assumes "cell_wf (cx_buf cx)"
  shows "keeps (virtual_clock k cx) cx" "keeps (virtual_lifo k cx) cx"
proof -
  have rm: "keeps (bind_res (remove_page k pol cx) (\<lambda>cx2. Inr (update_lifo_list (i cx2) cx2))) cx"
    for pol i using assms refresh_keeps(2) by (intro keeps_seq) simp_all
  have "keeps (bind_res (if st then bind_res (remove_page k pol cx)
      (\<lambda>cx1. Inr (update_lifo_list (i cx1) cx1)) else refresh_chal k j cx)
    (\<lambda>cx2. end_challenge (t cx2) w cx2)) cx" for st pol i j t w
    using assms rm refresh_keeps(1) by (intro keeps_seq) simp_all
  then show "keeps (virtual_clock k cx) cx" "keeps (virtual_lifo k cx) cx"
    using start_challenge_keeps [OF assms]
    by (auto simp: virtual_clock_def virtual_lifo_def intro!: keeps_read [where m = "stale_at _ _"]
        keeps_read [where m = "if _ then _ else stale_at _ _"])
qed

lemma on_victim_keeps:
  "(\<And>k. keeps (f k cx) cx) \<Longrightarrow> keeps (on_victim f v cx) cx"
  by (cases v) (simp_all add: on_victim_def)

lemma voter_actual_victim_calm:
  assumes wf: "cell_wf (cx_buf cx)" and ok: "voter_actual_victim clock lifo cx = Inr (v, cx')"
  shows "calm cx cx'" "v = clock \<or> v = lifo"
proof -
  let ?two = "\<lambda>f a g b. bind_res (on_victim f a cx) (on_victim g b)"
  have two: "keeps (?two real_clock clock virtual_lifo lifo) cx"
    "keeps (?two real_lifo lifo virtual_clock clock) cx"
    using wf real_keeps virtual_keeps by (auto intro!: keeps_seq on_victim_keeps)
  have one: "keeps (on_victim same_victim clock cx) cx"
    using real_keeps(3) [OF wf] by (intro on_victim_keeps)
  show "calm cx cx'" "v = clock \<or> v = lifo"
    using ok one two by (auto simp: voter_actual_victim_def res_simps keeps_def split: if_splits)
qed

section \<open>The scans\<close>

text \<open>
  Clearing the hit counter twice: \<^verbatim>\<open>test_and_clear_clock\<close> answers yes only for a page that is
  registered as a ghost, and never settles a virtual eviction.
\<close>

lemma test_and_clear_clock_eq:
  "test_and_clear_clock k cx =
     bind_res (is_ghost (get_pg_offset (cx_page cx k)) cx) (\<lambda>g.
       Inr (g \<and> get_hits (cx_page cx k) \<noteq> 0, upd_pg k reset_hits cx))"
proof -
  have "upd_pg k (\<lambda>_. reset_hits (cx_page cx k)) cx = upd_pg k reset_hits cx"
    by (simp add: upd_pg_def upd_page_def cx_page_def)
  moreover have "upd_pg k (\<lambda>_. reset_hits (reset_hits (cx_page cx k))) (upd_pg k reset_hits cx)
      = upd_pg k reset_hits cx"
    by (simp add: upd_pg_def upd_page_def cx_page_def reset_hits_def)
  moreover have "is_ghost off (upd_pg k f cx) = is_ghost off cx" for off f
    by (simp add: is_ghost_def ghost_at_def upd_pg_def)
  moreover have "get_pg_offset (reset_hits p) = get_pg_offset p" for p
    by (simp add: get_pg_offset_def reset_hits_def)
  ultimately show ?thesis
    by (cases "is_ghost (get_pg_offset (cx_page cx k)) cx")
      (simp_all add: test_and_clear_clock_def test_and_clear_page_ref_def Let_def)
qed

lemma drop_stale_keeps:
  assumes "cell_wf (cx_buf cx)"
  shows "keeps (drop_stale_clock k i cx) cx" "keeps (drop_stale_lifo k i cx) cx"
  using assms unfolding drop_stale_clock_def drop_stale_lifo_def
  by (auto intro!: keeps_read [where m = "ghost_at _ _"] keeps_seq)

definition finds :: "scan_result res \<Rightarrow> apr_ctx \<Rightarrow> bool" where
  "finds m cx \<longleftrightarrow> (\<forall>e r cx'. m = Inr (e, r, cx') \<longrightarrow>
     calm cx cx' \<and> (\<forall>k. r = Some k \<longrightarrow> free_slot (cx_buf cx) k))"

lemma finds_Inr [simp]:
  "finds (Inr (e, r, cx')) cx \<longleftrightarrow> calm cx cx' \<and> (\<forall>k. r = Some k \<longrightarrow> free_slot (cx_buf cx) k)"
  by (simp add: finds_def)

lemma finds_Inl [simp]: "finds (Inl e) cx"
  by (simp add: finds_def)

lemma finds_read: "(\<And>x. m = Inr x \<Longrightarrow> finds (f x) cx) \<Longrightarrow> finds (bind_res m f) cx"
  by (cases m) simp_all

lemma finds_if: "(b \<Longrightarrow> finds x cx) \<Longrightarrow> (\<not> b \<Longrightarrow> finds y cx) \<Longrightarrow> finds (if b then x else y) cx"
  by simp

lemma finds_step:
  assumes "calm cx cx1" "finds m cx1" "cell_wf (cx_buf cx)"
  shows "finds m cx"
  using assms calm_trans free_slot_same [OF calm_same [OF assms(1,3)]] by (auto simp: finds_def)

lemma finds_seq:
  assumes "keeps m cx" "\<And>cx1. cell_wf (cx_buf cx1) \<Longrightarrow> finds (f cx1) cx1" "cell_wf (cx_buf cx)"
  shows "finds (bind_res m f) cx"
proof (rule finds_read)
  fix cx1
  assume "m = Inr cx1"
  then have c1: "calm cx cx1" using assms(1) by (simp add: keeps_def)
  then show "finds (f cx1) cx"
    using finds_step [OF c1 assms(2) assms(3)] calm_wf [OF c1 assms(3)] by simp
qed

lemma free_slot_got:
  "get_page c i = Inr k \<Longrightarrow> pg_refcnt (pc_buf c ! k) = 0 \<Longrightarrow> free_slot c k"
  by (auto simp: free_slot_def dest: get_page_Inr)

lemma calm_head [simp]:
  "calm cx (upd_pol (\<lambda>p. p\<lparr>ap_clock_head := h p\<rparr>) cx)" "calm cx (upd_pol (\<lambda>p. p\<lparr>ap_lifo_head := h p\<rparr>) cx)"
  by (rule calm_upd_pol; simp)+

lemma upd_pol_buf [simp]: "cx_buf (upd_pol f cx) = cx_buf cx"
  by (simp add: upd_pol_def)

text \<open>What a scan does with a page that passed the reference and dirty tests.\<close>

lemma clock_candidate_finds:
  assumes wf: "cell_wf (cx_buf cx)" and free: "free_slot (cx_buf cx) k"
    and cont: "\<And>cx1. cell_wf (cx_buf cx1) \<Longrightarrow> finds (cont cx1) cx1"
  shows "finds (bind_res (test_and_clear_clock k cx) (\<lambda>(ref, cx2).
      if ref then cont cx2
      else if \<not> ap_policy (cx_pol cx2)
      then bind_res (stale_at (ap_clock_page (cx_pol cx2)) off) (\<lambda>st.
        if st then bind_res (drop_stale_clock k off cx2) cont
        else Inr (False, Some k, upd_pol (\<lambda>p. p\<lparr>ap_clock_head := off + 1\<rparr>) cx2))
      else if evicted_by_clock (cx_page cx2 k) then cont cx2
      else Inr (False, Some k, upd_pol (\<lambda>p. p\<lparr>ap_clock_head := off + 1\<rparr>) cx2))) cx"
    (is "finds (bind_res _ (\<lambda>(ref, cx2). ?rest ref cx2)) cx")
proof -
  let ?cx2 = "upd_pg k reset_hits cx"
  have wf2: "cell_wf (cx_buf ?cx2)" using calm_wf [OF calm_pages(2) wf] .
  have free2: "free_slot (cx_buf ?cx2) k"
    using free free_slot_same [OF calm_same [OF calm_pages(2) wf]] by simp
  have "finds (bind_res (drop_stale_clock k off ?cx2) cont) ?cx2"
    using drop_stale_keeps(1) [OF wf2] cont wf2 by (rule finds_seq)
  then have "finds (?rest ref ?cx2) ?cx2" for ref
    using cont [OF wf2] free2 by (auto intro!: finds_read)
  then have "finds (?rest ref ?cx2) cx" for ref
    by (rule finds_step [OF calm_pages(2) _ wf])
  then show ?thesis
    unfolding test_and_clear_clock_eq
    by (cases "is_ghost (get_pg_offset (cx_page cx k)) cx") simp_all
qed

lemma voter_clock_scan_finds:
  assumes "cell_wf (cx_buf cx)"
  shows "finds (voter_clock_scan n nref ndirty avoid cx) cx"
  using assms
proof (induction n arbitrary: nref ndirty avoid cx)
  case (Suc n)
  let ?cx1 = "upd_pol (\<lambda>p. p\<lparr>ap_clock_head := ap_clock_head p + 1\<rparr>) cx"
  have wf1: "cell_wf (cx_buf ?cx1)" using Suc.prems by simp
  note step = finds_step [OF calm_head(1) _ Suc.prems]
  note ih = step [OF Suc.IH [OF wf1]]
  obtain a b d where rc: "recount (pc_num_pages (cx_buf cx)) nref ndirty avoid = (a, b, d)"
    by (metis prod_cases3)
  show ?case
    unfolding voter_clock_scan.simps Let_def rc prod.case
    apply (rule finds_if, simp)
    apply (rule finds_read, rule finds_if, rule finds_if, simp, rule ih)
    apply (rule finds_if, rule ih)
    apply (rule step, rule clock_candidate_finds [OF wf1 _ Suc.IH])
    by (simp_all add: cx_page_def free_slot_got)
qed simp

text \<open>The LIFO scan. Its continuation stops when the number of pages to look at is used up.\<close>

lemma voter_lifo_scan_finds:
  assumes "cell_wf (cx_buf cx)"
  shows "finds (voter_lifo_scan reads n nref ndirty nbound avoid cx) cx"
  using assms
proof (induction reads arbitrary: n nref ndirty nbound avoid cx)
  case (Cons x reads)
  show ?case
  proof (cases x)
    case (Some off)
    obtain a b d e where rc: "recount3 (pc_num_pages (cx_buf cx)) nref ndirty nbound avoid = (a, b, d, e)"
      by (metis prod_cases4)
    have cont: "finds (if n \<le> 1 then Inr (False, None, cx1)
        else voter_lifo_scan reads (n - 1) i j k e cx1) cx1" if "cell_wf (cx_buf cx1)" for i j k cx1
      using Cons.IH [OF that] by simp
    have cand: "finds (if ap_policy (cx_pol cx1)
        then bind_res (stale_at (ap_lifo_page (cx_pol cx1)) off) (\<lambda>st.
          if st then bind_res (drop_stale_lifo k off cx1) (\<lambda>cx. if n \<le> 1 then Inr (False, None, cx)
            else voter_lifo_scan reads (n - 1) a b d e cx)
          else Inr (False, Some k, upd_pol (\<lambda>p. p\<lparr>ap_lifo_head := off\<rparr>) cx1))
        else if evicted_by_lifo (cx_page cx1 k)
        then (if pc_num_pages (cx_buf cx) \<le> a then Inr (True, None, cx1)
              else if n \<le> 1 then Inr (False, None, cx1) else voter_lifo_scan reads (n - 1) a b d e cx1)
        else Inr (False, Some k, upd_pol (\<lambda>p. p\<lparr>ap_lifo_head := off\<rparr>) cx1)) cx1"
      if "free_slot (cx_buf cx1) k" "cell_wf (cx_buf cx1)" for k cx1
      using that finds_seq [OF drop_stale_keeps(2) cont] Cons.IH by (auto intro!: finds_read)
    show ?thesis
      unfolding Some voter_lifo_scan.simps Let_def rc prod.case
      apply (rule finds_if, rule finds_if, simp, rule Cons.IH [OF Cons.prems])
      apply (rule finds_read, rule finds_if, rule finds_if, simp, rule cont [OF Cons.prems])
      apply (rule finds_if, rule cont [OF Cons.prems], rule finds_if, rule cont [OF Cons.prems])
      subgoal for k
        using free_slot_got [of "cx_buf cx" "unat off" k] Cons.prems
          free_slot_same [OF calm_same [OF calm_pages(3) Cons.prems]] calm_wf [OF calm_pages(3) Cons.prems]
        by (intro finds_step [OF _ cand Cons.prems]) (simp_all add: cx_page_def)
      done
  qed simp
qed simp

section \<open>Victims\<close>

definition picks :: "nat option \<Rightarrow> apr_ctx \<Rightarrow> apr_ctx \<Rightarrow> bool" where
  "picks r cx cx' \<longleftrightarrow> calm cx cx'
     \<and> (\<forall>k. r = Some k \<longrightarrow> free_slot (cx_buf cx) k \<and> \<not> data_ready (cx_page cx' k))"

lemma picks_not_ready:
  assumes "cell_wf (cx_buf cx)" "calm cx cx1" "\<forall>k. r = Some k \<longrightarrow> free_slot (cx_buf cx) k"
  shows "picks r cx (case r of None \<Rightarrow> cx1 | Some k \<Rightarrow> upd_pg k (set_data_ready False) cx1)"
proof (cases r)
  case (Some k)
  have "k < length (pc_buf (cx_buf cx1))"
    using assms Some same_pages_length [OF calm_same [OF assms(2,1)]] by (simp add: free_slot_def)
  then show ?thesis
    using Some assms calm_trans [OF assms(2) calm_not_ready assms(1)]
    by (simp add: picks_def cx_page_def upd_pg_def upd_page_nth)
qed (use assms in \<open>simp add: picks_def\<close>)

lemma picks_later:
  assumes p: "picks r cx cx1" and c: "calm cx1 cx2" and wf: "cell_wf (cx_buf cx)"
  shows "picks r cx cx2"
  unfolding picks_def
proof (intro conjI allI impI)
  have c1: "calm cx cx1" using p by (simp add: picks_def)
  then show "calm cx cx2" using c wf by (rule calm_trans)
  fix k
  assume "r = Some k"
  then have k: "free_slot (cx_buf cx) k" "\<not> data_ready (cx_page cx1 k)" using p by (simp_all add: picks_def)
  show "free_slot (cx_buf cx) k" by (rule k)
  have "k < length (pc_buf (cx_buf cx1))"
    using k(1) same_pages_length [OF calm_same [OF c1 wf]] by (simp add: free_slot_def)
  then show "\<not> data_ready (cx_page cx2 k)" using c k(2) unfolding calm_def by blast
qed

lemma picks_earlier:
  assumes "calm cx cx1" "picks r cx1 cx2" "cell_wf (cx_buf cx)"
  shows "picks r cx cx2"
  unfolding picks_def
proof (intro conjI allI impI)
  show "calm cx cx2" using assms calm_trans by (simp add: picks_def)
  fix k
  assume "r = Some k"
  then show "free_slot (cx_buf cx) k" "\<not> data_ready (cx_page cx2 k)"
    using assms(2) free_slot_same [OF calm_same [OF assms(1,3)]] by (simp_all add: picks_def)
qed

lemma voter_clock_picks:
  assumes wf: "cell_wf (cx_buf cx)" and warm: "\<not> ap_warm_up (cx_pol cx)"
    and ok: "voter_clock_evict cx = Inr (r, cx')"
  shows "picks r cx cx'"
proof -
  obtain e r1 cx1 where scan:
    "voter_clock_scan (2 * pc_num_pages (cx_buf cx)) 0 0 True cx = Inr (e, r1, cx1)"
    using ok by (auto simp: voter_clock_evict_def res_simps split: if_splits)
  then have f: "calm cx cx1" "\<forall>k. r1 = Some k \<longrightarrow> free_slot (cx_buf cx) k"
    using voter_clock_scan_finds [OF wf] unfolding finds_def by blast+
  have "\<not> ap_warm_up (cx_pol cx1)" using f(1) warm by (simp add: calm_def)
  then have "(r = None \<and> cx' = cx1)
    \<or> (r = r1 \<and> cx' = (case r1 of None \<Rightarrow> cx1 | Some k \<Rightarrow> upd_pg k (set_data_ready False) cx1))"
    using ok scan by (auto simp: voter_clock_evict_def Let_def split: if_splits)
  then show ?thesis using picks_not_ready [OF wf f] f(1) by (auto simp: picks_def)
qed

lemma voter_lifo_picks:
  assumes wf: "cell_wf (cx_buf cx)" and warm: "\<not> ap_warm_up (cx_pol cx)"
    and ok: "voter_lifo_evict sent cx = Inr (r, cx')"
  shows "picks r cx cx'"
proof -
  obtain e r1 cx1 where scan: "voter_lifo_scan (lifo_reads sent (ap_lifo_lt (cx_pol cx)))
      (2 * pc_num_pages (cx_buf cx)) 0 0 0 True cx = Inr (e, r1, cx1)"
    using ok warm by (auto simp: voter_lifo_evict_def res_simps)
  then have f: "calm cx cx1" "\<forall>k. r1 = Some k \<longrightarrow> free_slot (cx_buf cx) k"
    using voter_lifo_scan_finds [OF wf] unfolding finds_def by blast+
  have "r = r1 \<and> cx' = (case r1 of None \<Rightarrow> cx1 | Some k \<Rightarrow> upd_pg k (set_data_ready False) cx1)"
    using ok scan warm by (auto simp: voter_lifo_evict_def)
  then show ?thesis using picks_not_ready [OF wf f] by simp
qed

definition found :: "nat option \<times> apr_ctx \<Rightarrow> scan_result" where
  "found = (\<lambda>(r, cx). (False, r, cx))"

lemma follower_lifo_scan_finds:
  assumes "cell_wf (cx_buf cx)"
  shows "finds (map_sum id found (follower_lifo_scan reads nref ndirty nbound avoid cx)) cx"
proof (induction reads arbitrary: nref ndirty nbound avoid)
  case (Cons x reads)
  obtain a b d e where rc: "recount3 (pc_num_pages (cx_buf cx)) nref ndirty nbound avoid = (a, b, d, e)"
    by (metis prod_cases4)
  have lt: "calm cx1 (upd_pol (\<lambda>p. p\<lparr>ap_lifo_head := i p, ap_lifo_lt := l p\<rparr>) cx1)" for cx1 i l
    by (rule calm_upd_pol) simp_all
  note lt2 = calm_trans [OF calm_pages(3) lt assms]
  show ?case
  proof (cases x)
    case (Some off)
    show ?thesis
    proof (cases "get_page (cx_buf cx) (unat off)")
      case (Inr k)
      then show ?thesis
        using Cons.IH lt lt2 free_slot_got [OF Inr] by (simp add: Some rc Let_def cx_page_def found_def)
    qed (use Cons.IH in \<open>simp add: Some Let_def\<close>)
  qed simp
qed simp

lemma follower_lifo_picks:
  assumes wf: "cell_wf (cx_buf cx)" and warm: "\<not> ap_warm_up (cx_pol cx)"
    and ok: "follower_lifo_evict sent cx = Inr (r, cx')"
  shows "picks r cx cx'"
proof -
  obtain r1 cx1 where scan: "follower_lifo_scan (lifo_reads sent (ap_lifo_lt (cx_pol cx))) 0 0 0 True cx
      = Inr (r1, cx1)"
    using ok warm by (auto simp: follower_lifo_evict_def res_simps)
  moreover have "r = r1 \<and> cx' = (case r1 of None \<Rightarrow> cx1 | Some k \<Rightarrow> upd_pg k (set_data_ready False) cx1)"
    using ok scan warm by (auto simp: follower_lifo_evict_def)
  moreover have "finds (Inr (found (r1, cx1))) cx"
    using follower_lifo_scan_finds [OF wf] scan by (metis map_sum.simps(2))
  ultimately show ?thesis using picks_not_ready [OF wf] by (simp add: found_def)
qed

lemma picks_good:
  assumes "picks r cx cx'" "cell_wf (cx_buf cx)"
  shows "r = Some k \<Longrightarrow> good_victim (cx_buf cx) k (cx_buf cx')"
    "r = None \<Longrightarrow> same_pages (cx_buf cx) (cx_buf cx')"
  using assms calm_same cell_wfD(1) [OF assms(2)]
  by (auto simp: picks_def good_victim_def free_slot_def cx_page_def)

text \<open>The whole routine once the cell is warm.\<close>

lemma calm_time [simp]:
  "calm cx (upd_pol (\<lambda>p. p\<lparr>ap_time := t p, ap_local_score := s p\<rparr>) cx)"
  "calm cx (upd_pol (\<lambda>p. p\<lparr>ap_local_score := s p\<rparr>) cx)"
  "calm cx (upd_pol (\<lambda>p. p\<lparr>ap_curr_score := s p\<rparr>) cx)"
  by (rule calm_upd_pol; simp)+

text \<open>The warm part of a voter's eviction, between the policy switch and the global score.\<close>

lemma voter_warm_picks:
  assumes wf: "cell_wf (cx_buf cx)" and warm: "\<not> ap_warm_up (cx_pol cx)"
    and ok: "bind_res (voter_clock_evict cx) (\<lambda>(clock, cx2).
               bind_res (voter_lifo_evict sent cx2) (\<lambda>(lifo, cx3).
                 voter_actual_victim clock lifo cx3)) = Inr (v, cx4)"
  shows "picks v cx cx4"
proof -
  obtain clock cx2 lifo cx3 where a: "voter_clock_evict cx = Inr (clock, cx2)"
    and b: "voter_lifo_evict sent cx2 = Inr (lifo, cx3)"
    and c: "voter_actual_victim clock lifo cx3 = Inr (v, cx4)"
    using ok by (auto simp: res_simps)
  have pa: "picks clock cx cx2" using voter_clock_picks [OF wf warm a] .
  then have c2: "calm cx cx2" by (simp add: picks_def)
  then have w2: "\<not> ap_warm_up (cx_pol cx2)" using warm by (simp add: calm_def)
  have pb: "picks lifo cx2 cx3" using voter_lifo_picks [OF calm_wf [OF c2 wf] w2 b] .
  then have "calm cx2 cx3" by (simp add: picks_def)
  then have p3: "picks clock cx cx3" using picks_later [OF pa _ wf] by simp
  have q3: "picks lifo cx cx3" using picks_earlier [OF c2 pb wf] .
  have "cell_wf (cx_buf cx3)" using calm_wf p3 wf by (auto simp: picks_def)
  note d = voter_actual_victim_calm [OF this c]
  show ?thesis using d picks_later [OF p3 d(1) wf] picks_later [OF q3 d(1) wf] by auto
qed

lemma global_buf [simp]:
  "cx_buf (tick_global cx) = cx_buf cx" "cx_pol (tick_global cx) = cx_pol cx"
  "cx_buf (update_score cx) = cx_buf cx" "cx_pol (update_score cx) = cx_pol cx"
  by (simp_all add: tick_global_def update_score_def Let_def)

definition score_step :: "apr_ctx \<Rightarrow> apr_ctx" where
  "score_step cx = tick_global (update_score
     (upd_pol (\<lambda>p. p\<lparr>ap_local_score := ap_local_score p + ap_curr_score p\<rparr>) cx))"

lemma score_step_simps [simp]:
  "cx_buf (score_step cx) = cx_buf cx" "ap_warm_up (cx_pol (score_step cx)) = ap_warm_up (cx_pol cx)"
  "ap_sample (cx_pol (score_step cx)) = ap_sample (cx_pol cx)"
  by (simp_all add: score_step_def upd_pol_def)

lemma voter_evict_warm:
  assumes wf: "cell_wf (cx_buf cx)" and warm: "\<not> ap_warm_up (cx_pol cx)"
    and ok: "voter_evict_page sent off cx = Inr (v, cx')"
  obtains cx0 cx5 where "cx0 = upd_pol (\<lambda>p. p\<lparr>ap_policy := (0 < ap_local_score p)\<rparr>) cx"
    "cx' = score_step cx5" "picks v cx0 cx5"
proof -
  let ?cx0 = "upd_pol (\<lambda>p. p\<lparr>ap_policy := (0 < ap_local_score p)\<rparr>) cx"
  obtain g cx1 where g: "is_ghost off ?cx0 = Inr g"
    and e: "(if g then eval_challenge_off off ?cx0 else Inr ?cx0) = Inr cx1"
    using ok unfolding voter_evict_page_def Let_def by (auto simp: res_simps)
  have wf0: "cell_wf (cx_buf ?cx0)" using wf by simp
  have c1: "calm ?cx0 cx1"
    using e eval_challenge_keeps(1) [OF wf0] by (auto simp: keeps_def split: if_splits)
  have w1: "\<not> ap_warm_up (cx_pol cx1)" using c1 warm by (simp add: calm_def upd_pol_def)
  obtain cx4 where four: "bind_res (voter_clock_evict cx1) (\<lambda>(clock, cx2).
               bind_res (voter_lifo_evict sent cx2) (\<lambda>(lifo, cx3).
                 voter_actual_victim clock lifo cx3)) = Inr (v, cx4)"
    and cx': "cx' = score_step (upd_pol (\<lambda>p. p\<lparr>ap_time := ap_time p + 1,
                 ap_local_score := ap_local_score p * DECAY_FACTOR_DEFAULT\<rparr>) cx4)"
    using ok g e w1 unfolding voter_evict_page_def Let_def score_step_def by (auto simp: res_simps)
  have "picks v cx1 cx4" using voter_warm_picks [OF calm_wf [OF c1 wf0] w1 four] .
  then have "picks v ?cx0 (upd_pol (\<lambda>p. p\<lparr>ap_time := ap_time p + 1,
                 ap_local_score := ap_local_score p * DECAY_FACTOR_DEFAULT\<rparr>) cx4)"
    by (rule picks_later [OF picks_earlier [OF c1 _ wf0] calm_time(1) wf0])
  then show ?thesis using that cx' by blast
qed

section \<open>The contract\<close>

text \<open>
  A cell that is not warm yet hands out its pages in order, as the LIFO policy does; \<open>as_lifo\<close> is
  that part of the state.
\<close>

definition as_lifo :: "apr_policy \<Rightarrow> lifo_policy" where
  "as_lifo p = \<lparr>lp_num_entry = ap_num_entry p, lp_lifo_head = unat (ap_lifo_head p), lp_lifo_lt = [],
     lp_warm_up = ap_warm_up p\<rparr>"

definition apr_inv :: "apr_state \<Rightarrow> page_cell \<Rightarrow> bool" where
  "apr_inv st c \<longleftrightarrow> lifo_inv (as_lifo (fst st)) c
     \<and> (ap_warm_up (fst st) \<longrightarrow> ap_default_policy (fst st) \<and> (\<not> ap_sample (fst st) \<longrightarrow> ap_policy (fst st)))"

definition framed :: "apr_ctx \<Rightarrow> apr_ctx \<Rightarrow> bool" where
  "framed cx cx' \<longleftrightarrow> cx_buf cx' = cx_buf cx \<and> as_lifo (cx_pol cx') = as_lifo (cx_pol cx)
     \<and> ap_default_policy (cx_pol cx') = ap_default_policy (cx_pol cx)
     \<and> ap_sample (cx_pol cx') = ap_sample (cx_pol cx)"

lemma framed_steps:
  "end_challenge t w cx = Inr cx' \<Longrightarrow> framed cx cx'" "clear_ghost off cx = Inr cx' \<Longrightarrow> framed cx cx'"
  "set_clock_stale i v cx = Inr cx' \<Longrightarrow> framed cx cx'" "set_lifo_stale i v cx = Inr cx' \<Longrightarrow> framed cx cx'"
  unfolding end_challenge_def clear_ghost_def set_clock_stale_def set_lifo_stale_def
  by (auto simp: framed_def res_simps upd_pol_def put_ghost_def as_lifo_def)

lemma framed_trans: "framed a b \<Longrightarrow> framed b c \<Longrightarrow> framed a c"
  by (simp add: framed_def)

lemma eval_challenge_off_framed:
  assumes "eval_challenge_off off cx = Inr cx'"
  shows "framed cx cx'"
proof -
  obtain t w i v cx1 cx2 where "end_challenge t w cx = Inr cx1" "clear_ghost off cx1 = Inr cx2"
    "set_clock_stale i v cx2 = Inr cx' \<or> set_lifo_stale i v cx2 = Inr cx'"
    using assms unfolding eval_challenge_off_def Let_def bind_res_Inr_iff by metis
  then show ?thesis using framed_steps framed_trans by metis
qed

lemma eval_challenge_off_frame:
  assumes "eval_challenge_off off cx = Inr cx'"
  shows "cx_buf cx' = cx_buf cx" "as_lifo (cx_pol cx') = as_lifo (cx_pol cx)"
    "ap_default_policy (cx_pol cx') = ap_default_policy (cx_pol cx)"
    "ap_sample (cx_pol cx') = ap_sample (cx_pol cx)"
  using eval_challenge_off_framed [OF assms] by (simp_all add: framed_def)

lemma warm_up_as_lifo:
  assumes wf: "cell_wf (cx_buf cx)" and inv: "lifo_inv (as_lifo (cx_pol cx)) (cx_buf cx)"
    and warm: "ap_warm_up (cx_pol cx)"
    and ok: "voter_lifo_evict sent cx = Inr (r, cx') \<or> follower_lifo_evict sent cx = Inr (r, cx')"
  shows "LIFO_evict_page None (as_lifo (cx_pol cx)) (cx_buf cx) = Inr (r, as_lifo (cx_pol cx'), cx_buf cx')"
    "r \<noteq> None" "ap_default_policy (cx_pol cx') = ap_default_policy (cx_pol cx)"
    "ap_policy (cx_pol cx') = ap_policy (cx_pol cx)" "ap_sample (cx_pol cx') = ap_sample (cx_pol cx)"
proof -
  have "unat (ap_lifo_head (cx_pol cx)) < 16"
    using inv warm cell_wfD(5) [OF wf] by (simp add: lifo_inv_def as_lifo_def)
  then have "unat (ap_lifo_head (cx_pol cx) + 1) = unat (ap_lifo_head (cx_pol cx)) + 1"
    by (simp add: unat_word_ariths)
  then have "LIFO_evict_page None (as_lifo (cx_pol cx)) (cx_buf cx) = Inr (r, as_lifo (cx_pol cx'), cx_buf cx')
    \<and> r \<noteq> None \<and> ap_default_policy (cx_pol cx') = ap_default_policy (cx_pol cx)
    \<and> ap_policy (cx_pol cx') = ap_policy (cx_pol cx) \<and> ap_sample (cx_pol cx') = ap_sample (cx_pol cx)"
    using ok warm
    by (auto simp: voter_lifo_evict_def follower_lifo_evict_def Let_def LIFO_evict_page_def as_lifo_def
        res_simps upd_pg_def upd_pol_def split: if_splits)
  then show "LIFO_evict_page None (as_lifo (cx_pol cx)) (cx_buf cx) = Inr (r, as_lifo (cx_pol cx'), cx_buf cx')"
    "r \<noteq> None" "ap_default_policy (cx_pol cx') = ap_default_policy (cx_pol cx)"
    "ap_policy (cx_pol cx') = ap_policy (cx_pol cx)" "ap_sample (cx_pol cx') = ap_sample (cx_pol cx)"
    by simp_all
qed

text \<open>The routine on a context, split into its two roles.\<close>

lemma APR_evict_pageD:
  assumes "APR_evict_page sent off st c = Inr (r, st', c')"
  obtains cx cx' where "cx_buf cx = c" "cx_pol cx = (fst st)\<lparr>ap_curr_score := 0\<rparr>"
    "cx_glob cx = snd st" "st' = (cx_pol cx', cx_glob cx')" "c' = cx_buf cx'"
    "(if ap_sample (fst st) then voter_evict_page sent off cx else follower_evict_page sent cx) = Inr (r, cx')"
proof -
  define cx where "cx = upd_pol (\<lambda>p. p\<lparr>ap_curr_score := 0\<rparr>) \<lparr>cx_pol = fst st, cx_glob = snd st, cx_buf = c\<rparr>"
  have cx: "cx_buf cx = c" "cx_pol cx = (fst st)\<lparr>ap_curr_score := 0\<rparr>" "cx_glob cx = snd st"
    by (simp_all add: cx_def upd_pol_def)
  obtain cx' where "(if ap_sample (fst st) then voter_evict_page sent off cx
      else follower_evict_page sent cx) = Inr (r, cx')" "st' = (cx_pol cx', cx_glob cx')" "c' = cx_buf cx'"
    using assms by (auto simp: APR_evict_page_def APR_evict_ctx_def Let_def res_simps cx_def [symmetric] cx(2))
  then show ?thesis by (rule that [OF cx, rotated 2])
qed

lemma follower_clock_step:
  assumes "cell_wf (cx_buf cx)" "follower_clock_evict cx = Inr (r, cx')"
  shows "r = Some k \<Longrightarrow> good_victim (cx_buf cx) k (cx_buf cx')"
    "r = None \<Longrightarrow> same_pages (cx_buf cx) (cx_buf cx')"
    "ap_warm_up (cx_pol cx') = ap_warm_up (cx_pol cx)"
  using assms clock_victim [OF assms(1)] by (auto simp: follower_clock_evict_def res_simps)

lemma voter_prologue:
  assumes "voter_evict_page sent off cx = Inr (r, cx')"
  obtains cx1 where "cx_buf cx1 = cx_buf cx" "as_lifo (cx_pol cx1) = as_lifo (cx_pol cx)"
    "ap_default_policy (cx_pol cx1) = ap_default_policy (cx_pol cx)"
    "ap_sample (cx_pol cx1) = ap_sample (cx_pol cx)"
    "ap_warm_up (cx_pol cx) \<Longrightarrow> ap_default_policy (cx_pol cx) \<Longrightarrow>
       \<exists>cx5. voter_lifo_evict sent cx1 = Inr (r, cx5) \<and> cx' = score_step cx5"
proof -
  define cx0 where "cx0 = upd_pol (\<lambda>p. p\<lparr>ap_policy := (0 < ap_local_score p)\<rparr>) cx"
  have cx0: "cx_buf cx0 = cx_buf cx" "as_lifo (cx_pol cx0) = as_lifo (cx_pol cx)"
    "ap_default_policy (cx_pol cx0) = ap_default_policy (cx_pol cx)"
    "ap_sample (cx_pol cx0) = ap_sample (cx_pol cx)"
    by (simp_all add: cx0_def upd_pol_def as_lifo_def)
  obtain g cx1 where g: "is_ghost off cx0 = Inr g"
    and e: "(if g then eval_challenge_off off cx0 else Inr cx0) = Inr cx1"
    using assms unfolding voter_evict_page_def Let_def cx0_def [symmetric] by (auto simp: res_simps)
  have fr: "cx_buf cx1 = cx_buf cx" "as_lifo (cx_pol cx1) = as_lifo (cx_pol cx)"
    "ap_default_policy (cx_pol cx1) = ap_default_policy (cx_pol cx)"
    "ap_sample (cx_pol cx1) = ap_sample (cx_pol cx)"
    using e cx0 by (cases g; simp add: eval_challenge_off_frame)+
  moreover have "\<exists>cx5. voter_lifo_evict sent cx1 = Inr (r, cx5) \<and> cx' = score_step cx5"
    if "ap_warm_up (cx_pol cx)" "ap_default_policy (cx_pol cx)"
  proof -
    have "ap_warm_up (cx_pol cx1)" using that(1) arg_cong [OF fr(2), of lp_warm_up] by (simp add: as_lifo_def)
    then have "bind_res (voter_lifo_evict sent cx1) (\<lambda>(v, cx5). Inr (v, score_step cx5)) = Inr (r, cx')"
      using assms g e that fr(3)
      unfolding voter_evict_page_def Let_def cx0_def [symmetric] score_step_def by simp
    then show ?thesis by (auto simp: res_simps)
  qed
  ultimately show ?thesis by (rule that)
qed

lemma APR_warming:
  assumes wf: "cell_wf c" and inv: "apr_inv st c" and warm: "ap_warm_up (fst st)"
    and ok: "APR_evict_page sent off st c = Inr (r, st', c')"
  shows "LIFO_evict_page None (as_lifo (fst st)) c = Inr (r, as_lifo (fst st'), c') \<and> r \<noteq> None
    \<and> ap_default_policy (fst st') \<and> (\<not> ap_sample (fst st') \<longrightarrow> ap_policy (fst st'))"
proof -
  from ok obtain cx cx' where cx: "cx_buf cx = c" "cx_pol cx = (fst st)\<lparr>ap_curr_score := 0\<rparr>"
    and st': "st' = (cx_pol cx', cx_glob cx')" "c' = cx_buf cx'"
    and run: "(if ap_sample (fst st) then voter_evict_page sent off cx
      else follower_evict_page sent cx) = Inr (r, cx')"
    using APR_evict_pageD by metis
  have cx2: "as_lifo (cx_pol cx) = as_lifo (fst st)" "ap_warm_up (cx_pol cx)" "ap_default_policy (cx_pol cx)"
    "ap_sample (cx_pol cx) = ap_sample (fst st)" "\<not> ap_sample (fst st) \<longrightarrow> ap_policy (cx_pol cx)"
    and li: "lifo_inv (as_lifo (fst st)) c"
    using warm inv cx(2) by (simp_all add: as_lifo_def apr_inv_def)
  show ?thesis
  proof (cases "ap_sample (fst st)")
    case False
    then have "follower_lifo_evict sent cx = Inr (r, cx')"
      using run cx2 by (simp add: follower_evict_page_def)
    then show ?thesis using warm_up_as_lifo [of cx sent r cx'] wf li cx cx2 False st' by simp
  next
    case True
    then have "voter_evict_page sent off cx = Inr (r, cx')" using run by simp
    then obtain cx1 cx5 where fr: "cx_buf cx1 = c" "as_lifo (cx_pol cx1) = as_lifo (fst st)"
      "ap_default_policy (cx_pol cx1)" "ap_sample (cx_pol cx1)"
      and five: "voter_lifo_evict sent cx1 = Inr (r, cx5)" "cx' = score_step cx5"
      using voter_prologue cx cx2 True by metis
    have "ap_warm_up (cx_pol cx1)" using warm arg_cong [OF fr(2), of lp_warm_up] by (simp add: as_lifo_def)
    moreover have "as_lifo (cx_pol cx') = as_lifo (cx_pol cx5)"
      "ap_default_policy (cx_pol cx') = ap_default_policy (cx_pol cx5)"
      "ap_sample (cx_pol cx') = ap_sample (cx_pol cx5)" "cx_buf cx' = cx_buf cx5"
      using five(2) by (simp_all add: as_lifo_def score_step_def upd_pol_def)
    ultimately show ?thesis using warm_up_as_lifo [of cx1 sent r cx5] five(1) wf li fr st' by simp
  qed
qed

lemma APR_warm:
  assumes wf: "cell_wf c" and warm: "\<not> ap_warm_up (fst st)"
    and ok: "APR_evict_page sent off st c = Inr (r, st', c')"
  shows "(r = Some k \<longrightarrow> good_victim c k c') \<and> (r = None \<longrightarrow> same_pages c c') \<and> \<not> ap_warm_up (fst st')"
proof -
  from ok obtain cx cx' where cx: "cx_buf cx = c" "cx_pol cx = (fst st)\<lparr>ap_curr_score := 0\<rparr>"
    and st': "st' = (cx_pol cx', cx_glob cx')" "c' = cx_buf cx'"
    and run: "(if ap_sample (fst st) then voter_evict_page sent off cx
      else follower_evict_page sent cx) = Inr (r, cx')"
    using APR_evict_pageD by metis
  have w: "\<not> ap_warm_up (cx_pol cx)" and wf': "cell_wf (cx_buf cx)" using warm wf cx by simp_all
  have post: "(r = Some k \<longrightarrow> good_victim c k (cx_buf cx2)) \<and> (r = None \<longrightarrow> same_pages c (cx_buf cx2))
      \<and> \<not> ap_warm_up (cx_pol cx2)"
    if "picks r cx1 cx2" "cx_buf cx1 = c" "\<not> ap_warm_up (cx_pol cx1)" for cx1 cx2
    using picks_good [OF that(1)] that wf by (auto simp: picks_def calm_def)
  show ?thesis
  proof (cases "ap_sample (fst st)")
    case True
    then have "voter_evict_page sent off cx = Inr (r, cx')" using run by simp
    then obtain cx0 cx5 where "cx0 = upd_pol (\<lambda>p. p\<lparr>ap_policy := (0 < ap_local_score p)\<rparr>) cx"
      "cx' = score_step cx5" "picks r cx0 cx5"
      using voter_evict_warm [OF wf' w] by blast
    then show ?thesis using post [of cx0 cx5] cx w st' by (simp add: upd_pol_def)
  next
    case False
    define cf where "cf = upd_pol (\<lambda>p. p\<lparr>ap_policy := gl_policy (cx_glob cx)\<rparr>) cx"
    have cf: "cx_buf cf = c" "\<not> ap_warm_up (cx_pol cf)" "cell_wf (cx_buf cf)"
      using cx w wf by (simp_all add: cf_def upd_pol_def)
    have run2: "(if \<not> ap_policy (cx_pol cf) then follower_clock_evict cf else follower_lifo_evict sent cf)
        = Inr (r, cx')"
      using run False w by (simp add: follower_evict_page_def Let_def cf_def split: if_splits)
    show ?thesis
    proof (cases "ap_policy (cx_pol cf)")
      case True
      then have "follower_lifo_evict sent cf = Inr (r, cx')" using run2 by simp
      from post [OF follower_lifo_picks [OF cf(3,2) this] cf(1,2)] show ?thesis using st' by simp
    next
      case False
      then show ?thesis using follower_clock_step [OF cf(3), of r cx'] run2 cf st' by auto
    qed
  qed
qed

lemma settled_inv: "\<not> ap_warm_up (fst st) \<Longrightarrow> apr_inv st c"
  by (simp add: apr_inv_def lifo_inv_def as_lifo_def)

interpretation apr: eviction "APR_evict_page sent" apr_inv for sent
proof (unfold_locales, goal_cases)
  case (1 c st off k st' c')
  then show ?case
    using APR_warm [of c st sent off "Some k" st' c'] APR_warming [of c st sent off "Some k" st' c']
      LIFO_victim [of c "as_lifo (fst st)" None k]
    by (cases "ap_warm_up (fst st)") (auto simp: apr_inv_def)
next
  case (2 c st off st' c')
  then show ?case
    using APR_warm [of c st sent off None st' c'] APR_warming [of c st sent off None st' c']
      settled_inv [of st' c']
    by (cases "ap_warm_up (fst st)") auto
next
  case (3 c st off k st' c' c'')
  then show ?case
    using APR_warm [of c st sent off "Some k" st' c'] APR_warming [of c st sent off "Some k" st' c']
      LIFO_inv_evict [of c "as_lifo (fst st)" None k "as_lifo (fst st')" c' c'']
      settled_inv [of st' c'']
    by (cases "ap_warm_up (fst st)") (auto simp: apr_inv_def)
next
  case (4 c st k c'')
  then show ?case using LIFO_inv_use by (auto simp: apr_inv_def)
qed

section \<open>Rewards and scores\<close>

lemma pow_val_power: "pow_val i = DECAY_FACTOR_DEFAULT ^ (2 ^ i)"
  by (induction i) (simp_all add: mult_2 flip: power_add)

lemma low_bit: "(pw :: 64 word) AND 1 \<noteq> 0 \<longleftrightarrow> odd (unat pw)"
proof -
  have "odd (unat pw) \<longleftrightarrow> bit pw 0" by (simp add: bit_unsigned_iff flip: bit_0)
  then show ?thesis using and_exp_eq_0_iff_not_bit [of pw 0] by simp
qed

lemma spow_from_power:
  assumes "b + n = Suc MAX_POW_BIT" "unat pw < 2 ^ (MAX_POW_BIT - b)"
  shows "spow_from b n acc pw = Inr (acc * DECAY_FACTOR_DEFAULT ^ (unat pw * 2 ^ b))"
  using assms
proof (induction n arbitrary: b acc pw)
  case (Suc n)
  let ?m = "unat (drop_bit 1 pw)"
  have half: "?m = unat pw div 2" by (simp add: drop_bit_eq_div unat_div)
  have b: "b \<le> 64" using Suc.prems(1) by simp
  have bound: "?m < 2 ^ (MAX_POW_BIT - Suc b)"
  proof (cases "b = 64")
    case False
    then have "(2 :: nat) ^ (64 - b) = 2 * 2 ^ (64 - Suc b)" using b by (simp flip: power_Suc add: Suc_diff_Suc)
    then show ?thesis using Suc.prems(2) half by simp
  qed (use Suc.prems(2) half in simp)
  have ih: "spow_from (Suc b) n a (drop_bit 1 pw) = Inr (a * DECAY_FACTOR_DEFAULT ^ (?m * 2 ^ Suc b))" for a
    using Suc.prems(1) bound by (intro Suc.IH) simp_all
  show ?case
  proof (cases "odd (unat pw)")
    case True
    then have "b < MAX_POW_BIT" using Suc.prems(2) b by (cases "b = 64") (auto elim!: oddE)
    moreover have "2 ^ b + ?m * 2 ^ Suc b = unat pw * 2 ^ b"
    proof -
      obtain m where m: "unat pw = 2 * m + 1" using True by (rule oddE)
      then have "?m = m" using half by simp
      then show ?thesis unfolding m by (simp add: algebra_simps)
    qed
    ultimately show ?thesis
      using True ih by (simp add: low_bit pow_val_power mult.assoc del: drop_bit_Suc flip: power_add)
  next
    case False
    then have "?m * 2 ^ Suc b = unat pw * 2 ^ b" using half by (simp add: mult.assoc)
    then have "spow_from (Suc b) n acc (drop_bit 1 pw) = Inr (acc * DECAY_FACTOR_DEFAULT ^ (unat pw * 2 ^ b))"
      using ih [of acc] by (simp only:)
    then show ?thesis using False by (simp add: low_bit)
  qed
qed simp

lemma spow_power: "spow pw = Inr (DECAY_FACTOR_DEFAULT ^ unat pw)"
  unfolding spow_def using spow_from_power [of 0 "Suc MAX_POW_BIT" pw 1] unsigned_less [of pw, where ?'a = nat]
  by simp

text \<open>The followers' policy is the sign of the global score.\<close>

definition score_sync :: "apr_global \<Rightarrow> bool" where
  "score_sync g \<longleftrightarrow> gl_policy g = (0 < gl_score g)"

lemma update_score_sync: "score_sync (cx_glob cx) \<Longrightarrow> score_sync (cx_glob (update_score cx))"
  by (auto simp: score_sync_def update_score_def Let_def)

lemma tick_global_sync: "score_sync (cx_glob cx) \<Longrightarrow> score_sync (cx_glob (tick_global cx))"
  by (simp add: score_sync_def tick_global_def Let_def DECAY_FACTOR_DEFAULT_def zero_less_mult_iff)

lemma score_step_sync: "score_sync (cx_glob cx) \<Longrightarrow> score_sync (cx_glob (score_step cx))"
  unfolding score_step_def
  by (intro tick_global_sync update_score_sync) (simp add: upd_pol_def)

lemma voter_glob:
  assumes wf: "cell_wf (cx_buf cx)" and ok: "voter_evict_page sent off cx = Inr (r, cx')"
    and def: "ap_warm_up (cx_pol cx) \<longrightarrow> ap_default_policy (cx_pol cx)"
  obtains cx5 where "cx' = score_step cx5" "gl_score (cx_glob cx5) = gl_score (cx_glob cx)"
    "gl_policy (cx_glob cx5) = gl_policy (cx_glob cx)"
proof (cases "ap_warm_up (cx_pol cx)")
  case False
  then obtain cx0 cx5 where "cx0 = upd_pol (\<lambda>p. p\<lparr>ap_policy := (0 < ap_local_score p)\<rparr>) cx"
    "cx' = score_step cx5" "picks r cx0 cx5"
    using voter_evict_warm [OF wf _ ok] by blast
  then show ?thesis using that by (auto simp: picks_def calm_def upd_pol_def)
next
  case True
  define cx0 where "cx0 = upd_pol (\<lambda>p. p\<lparr>ap_policy := (0 < ap_local_score p)\<rparr>) cx"
  have wf0: "cell_wf (cx_buf cx0)" using wf by (simp add: cx0_def)
  obtain g cx1 where g: "is_ghost off cx0 = Inr g"
    and e: "(if g then eval_challenge_off off cx0 else Inr cx0) = Inr cx1"
    using ok unfolding voter_evict_page_def Let_def cx0_def [symmetric] by (auto simp: res_simps)
  have c: "calm cx0 cx1"
    using e eval_challenge_keeps(1) [OF wf0] by (auto simp: keeps_def split: if_splits)
  have "ap_warm_up (cx_pol cx1)" "ap_default_policy (cx_pol cx1)"
    using c True def by (simp_all add: calm_def cx0_def upd_pol_def)
  then have "bind_res (voter_lifo_evict sent cx1) (\<lambda>(v, cx5). Inr (v, score_step cx5)) = Inr (r, cx')"
    using ok g e unfolding voter_evict_page_def Let_def cx0_def [symmetric] score_step_def by simp
  then obtain cx5 where "voter_lifo_evict sent cx1 = Inr (r, cx5)" "cx' = score_step cx5"
    by (auto simp: res_simps)
  moreover from this have "cx_glob cx5 = cx_glob cx1"
    using \<open>ap_warm_up (cx_pol cx1)\<close>
    by (auto simp: voter_lifo_evict_def Let_def res_simps upd_pg_def upd_pol_def split: if_splits)
  ultimately show ?thesis using that [of cx5] c by (simp add: calm_def cx0_def upd_pol_def)
qed

lemma follower_glob:
  assumes wf: "cell_wf (cx_buf cx)" and ok: "follower_evict_page sent cx = Inr (r, cx')"
  shows "gl_score (cx_glob cx') = gl_score (cx_glob cx) \<and> gl_policy (cx_glob cx') = gl_policy (cx_glob cx)"
proof -
  define cf where "cf = (if ap_warm_up (cx_pol cx) then cx
    else upd_pol (\<lambda>p. p\<lparr>ap_policy := gl_policy (cx_glob cx)\<rparr>) cx)"
  have cf: "cell_wf (cx_buf cf)" "cx_glob cf = cx_glob cx" using wf by (simp_all add: cf_def upd_pol_def)
  have "follower_clock_evict cf = Inr (r, cx') \<or> follower_lifo_evict sent cf = Inr (r, cx')"
    using ok unfolding follower_evict_page_def Let_def cf_def [symmetric] by (metis (full_types))
  then show ?thesis
  proof
    assume "follower_clock_evict cf = Inr (r, cx')"
    then show ?thesis using cf(2) by (auto simp: follower_clock_evict_def res_simps)
  next
    assume f: "follower_lifo_evict sent cf = Inr (r, cx')"
    show ?thesis
    proof (cases "ap_warm_up (cx_pol cf)")
      case True
      then show ?thesis
        using f cf(2)
        by (auto simp: follower_lifo_evict_def Let_def res_simps upd_pg_def upd_pol_def split: if_splits)
    next
      case False
      then show ?thesis using follower_lifo_picks [OF cf(1) _ f] cf(2) by (simp add: picks_def calm_def)
    qed
  qed
qed

lemma APR_score_sync:
  assumes wf: "cell_wf c" and inv: "apr_inv st c" and sync: "score_sync (snd st)"
    and ok: "APR_evict_page sent off st c = Inr (r, st', c')"
  shows "score_sync (snd st')"
proof -
  from ok obtain cx cx' where cx: "cx_buf cx = c" "cx_pol cx = (fst st)\<lparr>ap_curr_score := 0\<rparr>"
      "cx_glob cx = snd st"
    and st': "st' = (cx_pol cx', cx_glob cx')"
    and run: "(if ap_sample (fst st) then voter_evict_page sent off cx
      else follower_evict_page sent cx) = Inr (r, cx')"
    using APR_evict_pageD by metis
  have wf': "cell_wf (cx_buf cx)" using wf cx by simp
  have def: "ap_warm_up (cx_pol cx) \<longrightarrow> ap_default_policy (cx_pol cx)"
    using inv cx(2) by (simp add: apr_inv_def)
  have "score_sync (cx_glob cx')"
  proof (cases "ap_sample (fst st)")
    case True
    then have "voter_evict_page sent off cx = Inr (r, cx')" using run by simp
    then obtain cx5 where "cx' = score_step cx5" "gl_score (cx_glob cx5) = gl_score (cx_glob cx)"
      "gl_policy (cx_glob cx5) = gl_policy (cx_glob cx)"
      using voter_glob [OF wf' _ def] by blast
    then show ?thesis using score_step_sync [of cx5] sync cx(3) by (simp add: score_sync_def)
  next
    case False
    then show ?thesis
      using follower_glob [OF wf', of sent r cx'] run sync cx(3) by (simp add: score_sync_def)
  qed
  then show ?thesis using st' by simp
qed

end
