(* ===== verification/Cell_Props.thy ===== *)
theory Cell_Props
  imports APR_Laws
begin

text \<open>The properties of a page set and of its adaptive eviction policy.\<close>

section \<open>Examples\<close>

text \<open>A page set of two fresh pages, managed by a follower of the adaptive policy.\<close>

abbreviation fresh :: "nat \<Rightarrow> page" where
  "fresh d \<equiv> mk_page 0 invalid_data_loc (Some d) 0"

definition fresh_cell :: page_cell where
  "fresh_cell = sample_cell [fresh 7, fresh 8]"

definition fresh_glob :: apr_global where
  "fresh_glob = \<lparr>gl_ghost = [], gl_score = 1, gl_policy = True, gl_time_check = 0\<rparr>"

definition fresh_state :: apr_state where
  "fresh_state = (APR_init 2, fresh_glob)"

lemma fresh_cell_wf: "cell_wf fresh_cell" "cell_pages fresh_cell = [fresh 7, fresh 8]" "pc_num_pages fresh_cell = 2"
  unfolding fresh_cell_def
  by (rule sample_cell_wf; simp) (rule sample_cell_wf, simp, simp, simp add: sample_cell_def)

lemma fresh_cell_eval:
  "pc_maps fresh_cell ! 0 = 0" "pc_maps fresh_cell ! 1 = 1"
  "pc_maps fresh_cell ! Suc 0 = 1" "pc_buf fresh_cell ! Suc 0 = fresh 8"
  "pc_buf fresh_cell ! 0 = fresh 7" "pc_buf fresh_cell ! 1 = fresh 8" "length (pc_buf fresh_cell) = 16"
  by (simp_all add: fresh_cell_def sample_cell_def)

lemma fresh_eval:
  "pg_refcnt (fresh d) = 0" "pg_off (fresh d) = - 1" "pg_file_id (fresh d) = - 1" "pg_flags (fresh d) = 0"
  "pg_hits (fresh d) = 0" "pg_data (fresh d) = Some d"
  by (simp_all add: mk_page_def set_offset_def invalid_data_loc_def empty_page_def int32_def)

lemma empty_cell_simps: "cell_pages empty_cell = []" "pc_num_pages empty_cell = 0"
  by (simp_all add: empty_cell_def cell_pages_def)

lemma fresh_state_inv: "apr_inv fresh_state fresh_cell"
proof -
  have "pg_refcnt (vpage fresh_cell i) = 0 \<and> \<not> is_valid (vpage fresh_cell i)" if "i < 2" for i
    using that by (cases i) (auto simp: vpage_def fresh_cell_eval fresh_eval is_valid_def)
  then show ?thesis
    by (simp add: apr_inv_def lifo_inv_def as_lifo_def fresh_state_def APR_init_def fresh_cell_wf)
qed

lemma fresh_evict:
  "\<exists>st'. APR_evict_page None 1 fresh_state fresh_cell
     = Inr (Some 0, st', upd_page 0 (set_data_ready False) fresh_cell)"
  using get_page_wf [OF fresh_cell_wf(1), of 0]
  by (simp add: APR_evict_page_def APR_evict_ctx_def fresh_state_def APR_init_def upd_pol_def upd_pg_def
      follower_evict_page_def follower_lifo_evict_def Let_def fresh_cell_wf fresh_cell_eval)

section \<open>Adaptive eviction\<close>

text \<open>
  C10. Whatever a voter's two scans, the challenges, ghosts and scores do, and in whichever role the
  cell is, a page the adaptive policy gives away is a page of the cell that nobody references: no
  page changes its location, memory, reference count or dirty bit, and the victim's data is marked
  as not ready. A \<^verbatim>\<open>NULL\<close> answer leaves the same parts of all pages alone.
\<close>

theorem APR_evicts_unreferenced:
  assumes "cell_wf c" "apr_inv st c" "APR_evict_page sent off st c = Inr (r, st', c')"
  shows "case r of None \<Rightarrow> same_pages c c' \<and> apr_inv st' c' | Some k \<Rightarrow> good_victim c k c'"
proof (cases r)
  case None
  then show ?thesis using apr.evict_none [OF assms(1,2)] assms(3) by simp
next
  case (Some k)
  then show ?thesis using apr.evict_victim [OF assms(1,2)] assms(3) by simp
qed

theorem APR_evicts_unreferenced_witness:
  "\<exists>st' c'. APR_evict_page None 1 fresh_state fresh_cell = Inr (Some 0, st', c') \<and> good_victim fresh_cell 0 c'"
proof -
  obtain st' where e: "APR_evict_page None 1 fresh_state fresh_cell
     = Inr (Some 0, st', upd_page 0 (set_data_ready False) fresh_cell)"
    using fresh_evict by blast
  from APR_evicts_unreferenced [OF fresh_cell_wf(1) fresh_state_inv e] e show ?thesis by auto
qed

text \<open>
  The policy the followers use is the sign of the global score: every eviction, by a voter (which
  may change the score, decay it and switch the policy) or by a follower, keeps
  \<^verbatim>\<open>global_policy\<close> equal to LIFO exactly when \<^verbatim>\<open>global_score\<close> is positive.
\<close>

theorem APR_policy_is_sign_of_score:
  assumes "cell_wf c" "apr_inv st c" "score_sync (snd st)"
    "APR_evict_page sent off st c = Inr (r, st', c')"
  shows "gl_policy (snd st') = (0 < gl_score (snd st'))"
  using APR_score_sync [OF assms] by (simp add: score_sync_def)

theorem APR_policy_is_sign_of_score_witness:
  "\<exists>st' c'. APR_evict_page None 1 fresh_state fresh_cell = Inr (Some 0, st', c')
     \<and> gl_policy (snd st') = (0 < gl_score (snd st'))"
proof -
  obtain st' where e: "APR_evict_page None 1 fresh_state fresh_cell
     = Inr (Some 0, st', upd_page 0 (set_data_ready False) fresh_cell)"
    using fresh_evict by blast
  have "score_sync (snd fresh_state)" by (simp add: score_sync_def fresh_state_def fresh_glob_def)
  from APR_policy_is_sign_of_score [OF fresh_cell_wf(1) fresh_state_inv this e] e show ?thesis by auto
qed

text \<open>
  \<^verbatim>\<open>spow\<close> computes the decay factor to the given power by the table of repeated squares, for every
  64-bit exponent; it never reads past the table although its loop makes one round more than the
  table has entries.
\<close>

theorem spow_is_power: "spow pw = Inr (DECAY_FACTOR_DEFAULT ^ unat pw)"
  by (rule spow_power)

text \<open>
  \<^verbatim>\<open>test_and_clear_clock\<close> clears the hit counter twice, so it reports a page as recently used
  only when the page's location is a registered ghost; for every other page it reports no use
  whatever its counter was, and it never settles a challenge.
\<close>

theorem test_and_clear_clock_only_ghosts:
  "test_and_clear_clock k cx =
     bind_res (is_ghost (get_pg_offset (cx_page cx k)) cx) (\<lambda>g.
       Inr (g \<and> get_hits (cx_page cx k) \<noteq> 0, upd_pg k reset_hits cx))"
  by (rule test_and_clear_clock_eq)

section \<open>Lookup in a page set\<close>

text \<open>
  C9. A page set is a map from locations to pages. When \<^verbatim>\<open>search\<close> returns: on a hit it returns the
  page at the location asked for with one reference more and caches the same locations; on a miss
  it returns a page that was unreferenced, now at the location asked for, with one reference, its
  data not ready and a dirty page marked as old dirty, and \<^verbatim>\<open>old_id\<close> is the location it had; if there
  is no page to evict it returns \<^verbatim>\<open>NULL\<close> and caches the same locations. Locations stay unique, the
  cell and the policy state stay well-formed, and no other page changes.
\<close>

theorem search_refines_map:
  assumes "cell_wf (hc_buf hc)" "apr_inv (hc_policy hc) (hc_buf hc)" "unique_locs (hc_buf hc)"
    "page_aligned_loc l"
    "search (APR_evict_page sent) access_page th info l old_id hc = Inr (r, old, hc')"
  shows "search_post l old_id (hc_buf hc) (r, old, hc_buf hc')
    \<and> cell_locs (hc_buf hc') = (if l \<in> cell_locs (hc_buf hc) \<or> r = None then cell_locs (hc_buf hc)
        else insert l (cell_locs (hc_buf hc) - {old}))
    \<and> cell_wf (hc_buf hc') \<and> unique_locs (hc_buf hc') \<and> apr_inv (hc_policy hc') (hc_buf hc')"
proof -
  have p: "search_post l old_id (hc_buf hc) (r, old, hc_buf hc') \<and> cell_wf (hc_buf hc')
    \<and> apr_inv (hc_policy hc') (hc_buf hc')"
    using assms by (intro apr.search_correct [of hc l access_page]) (auto simp: access_page_def)
  then have "search_post l old_id (hc_buf hc) (r, old, hc_buf hc')" by simp
  from search_post_locs [OF assms(3,4) this] p show ?thesis by simp
qed

abbreviation loc1 :: data_loc_t where
  "loc1 \<equiv> \<lparr>loc_file_id = 1, loc_off = 4096\<rparr>"

definition fresh_hc :: "apr_state hash_cell" where
  "fresh_hc = (new_hash_cell fresh_state)\<lparr>hc_buf := fresh_cell\<rparr>"

lemma fresh_find: "find_page fresh_cell loc1 = Inr None"
  using get_page_wf [OF fresh_cell_wf(1), of 0] get_page_wf [OF fresh_cell_wf(1), of 1]
  by (simp add: find_page_def fresh_cell_wf numeral_2_eq_2 fresh_cell_eval get_offset_def fresh_eval)

lemma fresh_unique: "unique_locs fresh_cell" "cell_locs fresh_cell = {}"
proof -
  have "\<not> holds fresh_cell l k" if "page_aligned_loc l" for l k
  proof
    assume h: "holds fresh_cell l k"
    then have "pc_buf fresh_cell ! k \<in> set (cell_pages fresh_cell)"
      by (auto simp: holds_def cell_pages_def)
    then have "page_loc (pc_buf fresh_cell ! k) = \<lparr>loc_file_id = - 1, loc_off = - 4096\<rparr>"
      by (auto simp: fresh_cell_wf page_loc_def get_offset_def fresh_eval)
    then have "l = \<lparr>loc_file_id = - 1, loc_off = - 4096\<rparr>" using h by (simp add: holds_def)
    then show False using that by (simp add: page_aligned_loc_def)
  qed
  then show "unique_locs fresh_cell" "cell_locs fresh_cell = {}"
    by (auto simp: unique_locs_def cell_locs_def)
qed

lemma fresh_search:
  "\<exists>r old hc'. search (APR_evict_page None) access_page 9 [\<lparr>pi_likelihood = 0, pi_boundary = False\<rparr>,
     \<lparr>pi_likelihood = 0, pi_boundary = False\<rparr>] loc1 loc1 fresh_hc = Inr (r, old, hc') \<and> r \<noteq> None"
proof -
  let ?b = "upd_page 0 (set_data_ready False) fresh_cell"
  obtain st' where e: "APR_evict_page None 1 fresh_state fresh_cell = Inr (Some 0, st', ?b)"
    using fresh_evict by blast
  have wf: "cell_wf ?b"
    by (rule cell_wf_upd_page [OF fresh_cell_wf(1)]) (rule has_data_core [OF page_core_bookkeeping(1)])
  have v: "pc_buf ?b ! 0 = set_data_ready False (fresh 7)"
    by (simp add: upd_page_def fresh_cell_eval)
  have np: "\<not> is_io_pending (set_data_ready False (set_data_ready False (fresh 7)))"
    by (simp add: flag_set_defs page_simps page_set_flag_def fresh_eval is_io_pending_def get_flags_bit_def)
  obtain old p where rt: "retarget False 9 loc1 (pc_buf ?b ! 0) = Inr (old, p)"
    unfolding v using np get_offset_not_m1 by (auto simp: retarget_def Let_def)
  have "has_data p = has_data (pc_buf ?b ! 0)"
    using has_data_core [OF retarget_Inr(2) [OF rt]] by (simp add: has_data_def page_simps)
  then have "cell_wf (?b\<lparr>pc_buf := (pc_buf ?b)[0 := p]\<rparr>)" by (rule cell_wf_upd [OF wf])
  from take_page_ok [OF this, of 0] obtain b2 where tk: "take_page 0 (?b\<lparr>pc_buf := (pc_buf ?b)[0 := p]\<rparr>) = Inr b2"
    by (auto simp: upd_page_def fresh_cell_eval)
  have d: "(4096 :: int) sdiv 4096 = 1" by (simp add: signed_divide_int_def)
  show ?thesis
    using e rt fresh_find tk by (simp add: search_def Let_def fresh_hc_def new_hash_cell_def d)
qed

theorem search_refines_map_witness:
  "\<exists>k old hc'. search (APR_evict_page None) access_page 9 [\<lparr>pi_likelihood = 0, pi_boundary = False\<rparr>,
       \<lparr>pi_likelihood = 0, pi_boundary = False\<rparr>] loc1 loc1 fresh_hc = Inr (Some k, old, hc')
     \<and> cell_locs (hc_buf hc') = {loc1}"
proof -
  let ?info = "[\<lparr>pi_likelihood = 0, pi_boundary = False\<rparr>, \<lparr>pi_likelihood = 0, pi_boundary = False\<rparr>]"
  obtain k old hc' where s: "search (APR_evict_page None) access_page 9 ?info loc1 loc1 fresh_hc = Inr (Some k, old, hc')"
    using fresh_search by auto
  have "page_aligned_loc loc1" by (simp add: page_aligned_loc_def)
  from search_refines_map [OF _ _ _ this s] s show ?thesis
    by (simp add: fresh_hc_def new_hash_cell_def fresh_cell_wf fresh_state_inv fresh_unique)
qed

text \<open>
  A lookup of a cached page always returns it: if the set holds the location, \<^verbatim>\<open>search\<close> does not
  fail, does not evict and leaves \<^verbatim>\<open>old_id\<close> alone, whatever the eviction policy.
\<close>

theorem search_hit_returns:
  assumes "cell_wf (hc_buf hc)" "holds (hc_buf hc) l j"
  shows "\<exists>k hc'. search evict access_page th info l old_id hc = Inr (Some k, old_id, hc')
    \<and> hit_post l (hc_buf hc) k (hc_buf hc') \<and> hc_num_evictions hc' = hc_num_evictions hc"
proof -
  obtain f where f: "find_page (hc_buf hc) l = Inr f" "\<And>k. f = Some k \<Longrightarrow> holds (hc_buf hc) l k"
    "f = None \<Longrightarrow> \<forall>k. \<not> holds (hc_buf hc) l k"
    using find_page_spec [OF assms(1)] by blast
  then obtain k where k: "f = Some k" "holds (hc_buf hc) l k" using assms(2) by (cases f) auto
  let ?b = "drop_boundary th k (hc_buf hc)"
  note same = drop_boundary_same(1) [OF assms(1), of th k]
  have lt: "k < length (pc_buf (hc_buf hc))" using k(2) by (simp add: holds_def)
  then obtain b2 where tk: "take_page k ?b = Inr b2"
    using take_page_ok [OF same_pages_wf [OF same assms(1)]] same_pages_length [OF same] by metis
  have "hit_post l (hc_buf hc) k b2"
    by (rule take_page_hit(2) [OF assms(1) k(2) same drop_boundary_same(2) [OF assms(1) lt] tk])
  then show ?thesis
    using f(1) k(1) tk by (simp add: search_def Let_def access_page_def drop_boundary_def cong: if_cong)
qed

theorem search_hit_returns_witness:
  "\<exists>k hc'. search (APR_evict_page None) access_page 9 [] loc1 loc1
      (fresh_hc\<lparr>hc_buf := sample_cell [sample_page 4096 7 2 0]\<rparr>) = Inr (Some k, loc1, hc')"
proof -
  have "cell_wf (sample_cell [sample_page 4096 7 2 0])" by (rule sample_cell_wf) simp_all
  moreover have "holds (sample_cell [sample_page 4096 7 2 0]) loc1 0"
    by (simp add: holds_def sample_cell_def sample_page_def page_loc_def get_offset_def set_id_def
        set_offset_def mk_page_def has_data_def int32_def)
  ultimately show ?thesis
    using search_hit_returns [of "fresh_hc\<lparr>hc_buf := sample_cell [sample_page 4096 7 2 0]\<rparr>" loc1 0
        "APR_evict_page None" 9 "[]" loc1] by auto
qed

section \<open>Splitting and merging\<close>

text \<open>
  C30. Splitting a page set into an empty new one succeeds and loses nothing: together the two sets
  hold the same pages as before (up to hit counters). Every page nobody uses whose hash at the
  next level is the new set's has moved, no other initialised page has, and both sets are
  well-formed.
\<close>

theorem rehash_moves_pages:
  assumes "cell_wf (hc_buf this)" "cell_wf (hc_buf new)" "pc_num_pages (hc_buf new) = 0" "m \<le> CELL_SIZE"
    "\<forall>p \<in> set (cell_pages (hc_buf this)). \<not> initialized p \<longrightarrow> pg_refcnt p = 0"
  shows "\<exists>b e. rehash h m this new = Inr (this\<lparr>hc_buf := b\<rparr>, new\<lparr>hc_buf := e\<rparr>)
    \<and> cell_wf b \<and> cell_wf e
    \<and> image_mset sans_hits (mset (cell_pages b) + mset (cell_pages e))
        = image_mset sans_hits (mset (cell_pages (hc_buf this)))
    \<and> (\<forall>p \<in> set (cell_pages b). \<not> moves h (hc_hash this) (hc_hash new) p)
    \<and> (\<forall>p \<in> set (cell_pages e). moves h (hc_hash this) (hc_hash new) p \<or> \<not> initialized p)"
  using assms by (rule rehash_ok)

theorem rehash_moves_pages_witness:
  "\<exists>b e. rehash (\<lambda>l. 1) 1 (fresh_hc\<lparr>hc_hash := 0\<rparr>) ((new_hash_cell fresh_state)\<lparr>hc_hash := 1\<rparr>)
     = Inr (fresh_hc\<lparr>hc_hash := 0, hc_buf := b\<rparr>, (new_hash_cell fresh_state)\<lparr>hc_hash := 1, hc_buf := e\<rparr>)
     \<and> cell_wf b \<and> cell_wf e"
  using rehash_moves_pages [of "fresh_hc\<lparr>hc_hash := 0\<rparr>" "(new_hash_cell fresh_state)\<lparr>hc_hash := 1\<rparr>" 1 "\<lambda>l. 1"]
    fresh_cell_wf empty_cell_wf
  by (auto simp: fresh_hc_def new_hash_cell_def fresh_eval empty_cell_simps)

text \<open>
  Merging a page set whose pages nobody uses into another one with enough room succeeds, moves
  all its pages there and leaves it empty.
\<close>

theorem merge_moves_pages:
  assumes "cell_wf (hc_buf this)" "cell_wf (hc_buf other)"
    "pc_num_pages (hc_buf other) + pc_num_pages (hc_buf this) \<le> CELL_SIZE"
    "\<forall>p \<in> set (cell_pages (hc_buf other)). pg_refcnt p \<le> 0"
  shows "\<exists>t c. merge this other = Inr (this\<lparr>hc_buf := t\<rparr>, other\<lparr>hc_buf := c\<rparr>)
    \<and> cell_wf t \<and> cell_wf c \<and> pc_num_pages c = 0
    \<and> mset (cell_pages t) = mset (cell_pages (hc_buf other)) + mset (cell_pages (hc_buf this))"
  using assms by (rule merge_ok)

theorem merge_moves_pages_witness:
  "\<exists>t c. merge (new_hash_cell fresh_state) fresh_hc
     = Inr ((new_hash_cell fresh_state)\<lparr>hc_buf := t\<rparr>, fresh_hc\<lparr>hc_buf := c\<rparr>)
     \<and> mset (cell_pages t) = {#fresh 7, fresh 8#}"
  using merge_moves_pages [of "new_hash_cell fresh_state" fresh_hc] fresh_cell_wf empty_cell_wf
  by (auto simp: fresh_hc_def new_hash_cell_def fresh_eval empty_cell_simps)

end
