(* ===== verification/Assoc_Cache.thy ===== *)
theory Assoc_Cache
  imports Hash_Cell_Laws
begin

text \<open>
  The table of page sets \<^verbatim>\<open>associative_cache\<close> of \<^verbatim>\<open>libsafs/associative_cache.h\<close> and \<^verbatim>\<open>.cpp\<close>: linear
  hashing over arrays of cells, lookup, growing and shrinking the cache, walking the cells.

  The table is a list of arrays; an array that is not there (\<^verbatim>\<open>NULL\<close>) is \<open>None\<close>. A pointer to a
  cell is its global index. The counter of the sequence lock is not state: a reader of \<^verbatim>\<open>level\<close>,
  \<^verbatim>\<open>split\<close> and the table retries until it saw them unchanged, so a lookup reads one consistent
  state. What the memory manager hands out, the policy objects of a new array and the uninitialised
  member of a new page are arguments. \<open>'g\<close> is the global state the policies of all cells share.
\<close>

section \<open>State\<close>

definition TABLE_EXPANDING :: nat where [simp]: "TABLE_EXPANDING = 0"

record ('p, 'g) acache =
  ac_table :: "'p hash_cell list option list"
  ac_expand_cell_idx :: nat
  ac_npages :: int
  ac_offset_factor :: int
  ac_flags :: "32 word"
  ac_init_ncells :: nat
  ac_node_id :: int
  ac_expandable :: bool
  ac_height :: int
  ac_level :: nat
  ac_split :: nat
  ac_glob :: 'g

section \<open>Hashing\<close>

definition CONST_A :: int where "CONST_A = 27644437"
definition CONST_P :: int where "CONST_P = 68718952447"

definition universal_hash :: "int \<Rightarrow> int \<Rightarrow> int" where
  "universal_hash v m = int32 (int64 (v * CONST_A) smod CONST_P smod m)"

definition hash_at :: "nat \<Rightarrow> ('p, 'g) acache \<Rightarrow> data_loc_t \<Rightarrow> int" where
  "hash_at level ac l =
     universal_hash (loc_off l sdiv PAGE_SIZE sdiv ac_offset_factor ac + loc_file_id l)
       (int32 (int (ac_init_ncells ac) * 2 ^ level))"

definition hash :: "('p, 'g) acache \<Rightarrow> data_loc_t \<Rightarrow> int" where
  "hash ac l = hash_at (ac_level ac) ac l"

definition hash1 :: "('p, 'g) acache \<Rightarrow> data_loc_t \<Rightarrow> int" where
  "hash1 ac l = hash_at (ac_level ac + 1) ac l"

definition get_num_cells :: "('p, 'g) acache \<Rightarrow> nat" where
  "get_num_cells ac = 2 ^ ac_level ac * ac_init_ncells ac + ac_split ac"

section \<open>Cells\<close>

definition get_cell :: "('p, 'g) acache \<Rightarrow> nat \<Rightarrow> 'p hash_cell option res" where
  "get_cell ac i =
     (if ac_init_ncells ac = 0 then Inl Undefined_behaviour
      else assert_then (i div ac_init_ncells ac < length (ac_table ac))
        (case ac_table ac ! (i div ac_init_ncells ac) of
           None \<Rightarrow> Inr None
         | Some cells \<Rightarrow>
             if i mod ac_init_ncells ac < length cells then Inr (Some (cells ! (i mod ac_init_ncells ac)))
             else Inl Undefined_behaviour))"

text \<open>Reading through the pointer \<^verbatim>\<open>get_cell\<close> returns.\<close>

definition cell_at :: "('p, 'g) acache \<Rightarrow> nat \<Rightarrow> 'p hash_cell res" where
  "cell_at ac i = bind_res (get_cell ac i) (\<lambda>r. case r of None \<Rightarrow> Inl Undefined_behaviour | Some hc \<Rightarrow> Inr hc)"

definition put_cell :: "nat \<Rightarrow> 'p hash_cell \<Rightarrow> ('p, 'g) acache \<Rightarrow> ('p, 'g) acache" where
  "put_cell i hc ac =
     (let a = i div ac_init_ncells ac in
      case ac_table ac ! a of
        None \<Rightarrow> ac
      | Some cells \<Rightarrow>
          ac\<lparr>ac_table := (ac_table ac)[a := Some (cells[i mod ac_init_ncells ac := hc])]\<rparr>)"

definition get_cell_offset :: "('p, 'g) acache \<Rightarrow> data_loc_t \<Rightarrow> nat res" where
  "get_cell_offset ac l =
     (let h = hash ac l; idx = (if h < int (ac_split ac) then hash1 ac l else h) in
      if idx < 0 then Inl Assert_failed
      else bind_res (get_cell ac (nat idx)) (\<lambda>r. assert_then (r \<noteq> None) (Inr (nat idx))))"

section \<open>Lookup\<close>

text \<open>A cell with its policy object together with the state the policies share.\<close>

definition lend :: "'g \<Rightarrow> 'p hash_cell \<Rightarrow> ('p \<times> 'g) hash_cell" where
  "lend g hc = \<lparr>hc_hash = hc_hash hc, hc_flags = hc_flags hc, hc_stats = hc_stats hc, hc_buf = hc_buf hc,
     hc_policy = (hc_policy hc, g), hc_num_accesses = hc_num_accesses hc,
     hc_num_evictions = hc_num_evictions hc\<rparr>"

definition give_back :: "('p \<times> 'g) hash_cell \<Rightarrow> 'p hash_cell" where
  "give_back hc = \<lparr>hc_hash = hc_hash hc, hc_flags = hc_flags hc, hc_stats = hc_stats hc, hc_buf = hc_buf hc,
     hc_policy = fst (hc_policy hc), hc_num_accesses = hc_num_accesses hc,
     hc_num_evictions = hc_num_evictions hc\<rparr>"

definition ac_search ::
  "(int \<Rightarrow> 'p \<times> 'g \<Rightarrow> page_cell \<Rightarrow> (nat option \<times> ('p \<times> 'g) \<times> page_cell) res)
   \<Rightarrow> ('p \<times> 'g \<Rightarrow> page_cell \<Rightarrow> nat \<Rightarrow> ('p \<times> 'g) res)
   \<Rightarrow> nat \<Rightarrow> page_info_t list \<Rightarrow> data_loc_t \<Rightarrow> data_loc_t \<Rightarrow> ('p, 'g) acache
   \<Rightarrow> ((nat \<times> nat) option \<times> data_loc_t \<times> ('p, 'g) acache) res" where
  "ac_search evict access_page th page_info l old_id ac =
     bind_res (get_cell_offset ac l) (\<lambda>i.
     bind_res (cell_at ac i) (\<lambda>hc.
     bind_res (search evict access_page th page_info l old_id (lend (ac_glob ac) hc)) (\<lambda>(r, old, hc').
       Inr (map_option (Pair i) r, old,
         (put_cell i (give_back hc') ac)\<lparr>ac_glob := snd (hc_policy hc')\<rparr>))))"

definition ac_search_only ::
  "data_loc_t \<Rightarrow> ('p, 'g) acache \<Rightarrow> ((nat \<times> nat) option \<times> ('p, 'g) acache) res" where
  "ac_search_only l ac =
     bind_res (get_cell_offset ac l) (\<lambda>i.
     bind_res (cell_at ac i) (\<lambda>hc.
     bind_res (search_only l hc) (\<lambda>(r, hc').
       Inr (map_option (Pair i) r, put_cell i hc' ac))))"

fun count_pages :: "('p, 'g) acache \<Rightarrow> nat \<Rightarrow> nat \<Rightarrow> nat res" where
  "count_pages ac i 0 = Inr 0"
| "count_pages ac i (Suc n) =
     bind_res (cell_at ac i) (\<lambda>hc. bind_res (count_pages ac (Suc i) n) (\<lambda>m.
       Inr (hc_get_num_pages hc + m)))"

definition ac_get_num_used_pages :: "('p, 'g) acache \<Rightarrow> nat res" where
  "ac_get_num_used_pages ac = count_pages ac 0 (get_num_cells ac)"

fun check_cells :: "nat \<Rightarrow> ('p, 'g) acache \<Rightarrow> nat \<Rightarrow> nat \<Rightarrow> unit res" where
  "check_cells m ac i 0 = Inr ()"
| "check_cells m ac i (Suc n) =
     bind_res (cell_at ac i) (\<lambda>hc. assert_then (hc_sanity_check m hc) (check_cells m ac (Suc i) n))"

definition ac_sanity_check :: "nat \<Rightarrow> ('p, 'g) acache \<Rightarrow> unit res" where
  "ac_sanity_check m ac = check_cells m ac 0 (get_num_cells ac)"

fun count_dirty :: "('p, 'g) acache \<Rightarrow> nat \<Rightarrow> nat \<Rightarrow> nat res" where
  "count_dirty ac i 0 = Inr 0"
| "count_dirty ac i (Suc n) =
     bind_res (cell_at ac i) (\<lambda>hc.
     bind_res (num_pages (snd (page_set_flag 0 DIRTY_BIT True)) 0 hc) (\<lambda>d.
     bind_res (count_dirty ac (Suc i) n) (\<lambda>m. Inr (d + m))))"

definition get_num_dirty_pages :: "('p, 'g) acache \<Rightarrow> nat res" where
  "get_num_dirty_pages ac = count_dirty ac 0 (get_num_cells ac)"

text \<open>
  Neighbours of a cell. A pointer is an array and a position in it; \<open>index\<close> is the number the cell
  carries (\<^verbatim>\<open>get_hash\<close>), the search for the array compares pointers with the array's first cell.
\<close>

definition get_prev_cell :: "('p, 'g) acache \<Rightarrow> nat \<Rightarrow> nat \<times> nat \<Rightarrow> (nat \<times> nat) option res" where
  "get_prev_cell ac index ptr =
     (if index = 0 then Inr None
      else if index mod ac_init_ncells ac \<noteq> 0 then Inr (Some (fst ptr, snd ptr - 1))
      else if snd ptr = 0 \<and> fst ptr < length (ac_table ac)
      then assert_then (0 < fst ptr) (Inr (Some (fst ptr - 1, ac_init_ncells ac - 1)))
      else Inr None)"

definition get_next_cell :: "('p, 'g) acache \<Rightarrow> nat \<Rightarrow> nat \<times> nat \<Rightarrow> (nat \<times> nat) option" where
  "get_next_cell ac index ptr =
     (if index mod ac_init_ncells ac \<noteq> ac_init_ncells ac - 1 then Some (fst ptr, snd ptr + 1)
      else if snd ptr + 1 = ac_init_ncells ac \<and> fst ptr < length (ac_table ac)
      then (if fst ptr = length (ac_table ac) - 1 then None
            else if ac_table ac ! (fst ptr + 1) = None then None else Some (fst ptr + 1, 0))
      else None)"

section \<open>Growing\<close>

text \<open>
  What a run of \<^verbatim>\<open>expand\<close> reads besides the cache: the minimal cell size of the configuration, the
  policy objects of a new array and what the uninitialised member of a new page holds.
\<close>

record 'p expand_env =
  ee_min :: nat
  ee_pols :: "'p list"
  ee_junk :: nat

text \<open>
  The loop that fills existing cells up to \<^verbatim>\<open>height\<close>, raising it after the last cell. \<open>pages\<close> are
  the pages not used yet (\<^verbatim>\<open>&pages[pg_idx]\<close>).
\<close>

function fill_cells ::
  "'p expand_env \<Rightarrow> nat \<Rightarrow> nat list \<Rightarrow> ('p, 'g) acache \<Rightarrow> (nat list \<times> ('p, 'g) acache) res" where
  "fill_cells env ncells pages ac =
     bind_res (get_cell ac (ac_expand_cell_idx ac)) (\<lambda>cell.
      if int CELL_SIZE < ac_height ac \<or> pages = [] then Inr (pages, ac)
      else case cell of None \<Rightarrow> Inl Undefined_behaviour | Some hc \<Rightarrow>
        let missing = nat (min (ac_height ac - int (hc_get_num_pages hc)) (int (length pages)));
            next = (\<lambda>ac'. if ncells \<le> ac_expand_cell_idx ac + 1
                          then ac'\<lparr>ac_expand_cell_idx := 0, ac_height := ac_height ac + 1\<rparr>
                          else ac'\<lparr>ac_expand_cell_idx := ac_expand_cell_idx ac + 1, ac_height := ac_height ac\<rparr>)
        in if ac_height ac \<le> int (hc_get_num_pages hc) then fill_cells env ncells pages (next ac)
           else bind_res (hc_add_pages (ee_junk env) pages missing (ac_node_id ac) hc) (\<lambda>hc'.
             fill_cells env ncells (drop missing pages)
               (next (put_cell (ac_expand_cell_idx ac) hc' ac))))"
  by pat_completeness auto

termination fill_cells
  by (relation "measures [\<lambda>(env, ncells, pages, ac). nat (int CELL_SIZE + 1 - ac_height ac),
        \<lambda>(env, ncells, pages, ac). ncells - ac_expand_cell_idx ac]")
    (auto simp: Let_def)

declare fill_cells.simps [simp del]

text \<open>Doubling the table: the new arrays are created empty and stored behind the old ones.\<close>

definition new_array :: "'p expand_env \<Rightarrow> nat \<Rightarrow> nat \<Rightarrow> 'p hash_cell list" where
  "new_array env ncells i =
     map (\<lambda>j. (new_hash_cell (ee_pols env ! j))\<lparr>hc_hash := int32 (int (i * ncells + j))\<rparr>) [0..<ncells]"

definition double_table :: "'p expand_env \<Rightarrow> ('p, 'g) acache \<Rightarrow> ('p, 'g) acache res" where
  "double_table env ac =
     (let n = 2 ^ ac_level ac in
      if length (ac_table ac) < 2 * n then Inl Undefined_behaviour
      else Inr (ac\<lparr>ac_table := take n (ac_table ac)
             @ map (\<lambda>i. Some (new_array env (ac_init_ncells ac) i)) [n..<2 * n]
             @ drop (2 * n) (ac_table ac)\<rparr>))"

text \<open>
  One step of the splitting loop: the cell at \<^verbatim>\<open>split\<close> and its new partner. The flag says that the
  split failed and was undone.
\<close>

definition split_cell ::
  "'p expand_env \<Rightarrow> nat list \<Rightarrow> ('p, 'g) acache \<Rightarrow> (bool \<times> nat list \<times> ('p, 'g) acache) res" where
  "split_cell env pages ac =
     (let lo = ac_split ac; hi = ac_split ac + 2 ^ ac_level ac * ac_init_ncells ac; m = int (ee_min env) in
      bind_res (cell_at ac hi) (\<lambda>e0.
      bind_res (cell_at ac lo) (\<lambda>c0.
      bind_res (rehash (hash1 ac) (ee_min env) c0 e0) (\<lambda>(c1, e1).
      let required = max (int (hc_get_num_pages e1) - m) 0 + max (int (hc_get_num_pages c1) - m) 0 in
      bind_res (if required \<le> int (length pages) then
            bind_res (add_pages_to_min (ee_junk env) pages (length pages) (ac_node_id ac) c1) (\<lambda>(a, c2).
            bind_res (add_pages_to_min (ee_junk env) (drop a pages) (length pages - a) (ac_node_id ac) e1)
              (\<lambda>(b, e2). Inr (drop b (drop a pages), c2, e2)))
          else Inr (pages, c1, e1)) (\<lambda>(pages', c2, e2).
      if int (hc_get_num_pages e2) < m \<or> int (hc_get_num_pages c2) < m
      then bind_res (merge c2 e2) (\<lambda>(c3, e3). Inr (True, pages', put_cell lo c3 (put_cell hi e3 ac)))
      else Inr (False, pages', (put_cell lo c2 (put_cell hi e2 ac))\<lparr>ac_split := ac_split ac + 1\<rparr>))))))"

fun split_cells ::
  "'p expand_env \<Rightarrow> nat \<Rightarrow> nat list \<Rightarrow> ('p, 'g) acache \<Rightarrow> (bool \<times> nat list \<times> ('p, 'g) acache) res" where
  "split_cells env 0 pages ac = Inr (False, pages, ac)"
| "split_cells env (Suc n) pages ac =
     bind_res (split_cell env pages ac) (\<lambda>(over, pages', ac').
       if over then Inr (True, pages', ac') else split_cells env n pages' ac')"

definition end_of_level :: "nat \<Rightarrow> ('p, 'g) acache \<Rightarrow> ('p, 'g) acache" where
  "end_of_level num_half ac =
     (if ac_split ac = num_half then ac\<lparr>ac_split := 0, ac_level := ac_level ac + 1\<rparr> else ac)"

text \<open>
  The outer loop. Each round that does not finish doubles the table, and the table has room for
  as many arrays as \<^verbatim>\<open>cells_table\<close> has entries; that many rounds are the bound of \<open>expand\<close>. The
  flag says whether the routine left from inside the loop with all pages placed.
\<close>

fun expand_rounds ::
  "nat \<Rightarrow> 'p expand_env \<Rightarrow> nat list \<Rightarrow> ('p, 'g) acache \<Rightarrow> (bool \<times> nat list \<times> ('p, 'g) acache) res" where
  "expand_rounds 0 env pages ac = Inl Out_of_steps"
| "expand_rounds (Suc n) env pages ac =
     (if pages = [] then Inr (False, pages, ac)
      else bind_res (if ac_split ac = 0 then
               bind_res (fill_cells env (get_num_cells ac) pages ac) (\<lambda>(pages', ac').
                 if pages' = [] then Inr (True, pages', ac')
                 else bind_res (double_table env ac') (\<lambda>ac''. Inr (False, pages', ac'')))
             else Inr (False, pages, ac)) (\<lambda>(done, pages1, ac1).
        if done then Inr (True, pages1, ac1)
        else let num_half = 2 ^ ac_level ac1 * ac_init_ncells ac1 in
          bind_res (split_cells env (num_half - ac_split ac1) pages1
                     (ac1\<lparr>ac_height := int (ee_min env) + 1\<rparr>)) (\<lambda>(over, pages2, ac2).
            let ac3 = end_of_level num_half ac2 in
            if over then Inr (False, pages2, ac3) else expand_rounds n env pages2 ac3)))"

text \<open>
  \<^verbatim>\<open>expand\<close> returns the number the code returns, the pages it gives back to the memory manager, and
  the cache. \<open>free_pages\<close> is the memory manager's answer, \<open>None\<close> when it has not enough.
\<close>

definition expand ::
  "'p expand_env \<Rightarrow> nat \<Rightarrow> nat list option \<Rightarrow> ('p, 'g) acache \<Rightarrow> (int \<times> nat list \<times> ('p, 'g) acache) res" where
  "expand env npages free_pages ac =
     (let (orig, fl) = atomic_set_flag TABLE_EXPANDING (ac_flags ac) in
      if orig then Inr (0, [], ac\<lparr>ac_flags := fl\<rparr>)
      else let clear = (\<lambda>ac'. ac'\<lparr>ac_flags := snd (atomic_clear_flag TABLE_EXPANDING fl)\<rparr>) in
        case free_pages of
          None \<Rightarrow> Inr (0, [], clear ac)
        | Some pages \<Rightarrow>
            bind_res (expand_rounds (Suc (length (ac_table ac))) env pages (ac\<lparr>ac_flags := fl\<rparr>))
              (\<lambda>(done, rest, ac').
                let ac2 = (clear ac')\<lparr>ac_npages := ac_npages ac' + int npages\<rparr> in
                if done then Inr (int npages, [], ac2)
                else Inr (int (length rest), rest, ac2)))"

section \<open>Shrinking\<close>

text \<open>The loop that takes pages above \<^verbatim>\<open>height\<close> from the cells; it runs until \<^verbatim>\<open>height\<close> is below the minimum.\<close>

function drain_cells ::
  "('p \<times> 'g \<Rightarrow> page_cell \<Rightarrow> (nat option \<times> ('p \<times> 'g) \<times> page_cell) res) \<Rightarrow> nat \<Rightarrow> nat \<Rightarrow> nat
   \<Rightarrow> nat list \<Rightarrow> ('p, 'g) acache \<Rightarrow> (nat list \<times> ('p, 'g) acache) res" where
  "drain_cells evict0 m ncells npages taken ac =
     bind_res (get_cell ac (ac_expand_cell_idx ac)) (\<lambda>cell.
      if ac_height ac < int m then Inr (taken, ac)
      else case cell of None \<Rightarrow> Inl Undefined_behaviour | Some hc \<Rightarrow>
        let num = nat (min (int npages - int (length taken))
                     (max 0 (int (hc_get_num_pages hc) - ac_height ac)));
            i = ac_expand_cell_idx ac;
            next = (\<lambda>ac'. if i = 0 then ac'\<lparr>ac_height := ac_height ac - 1, ac_expand_cell_idx := ncells - 1\<rparr>
                          else ac'\<lparr>ac_height := ac_height ac, ac_expand_cell_idx := i - 1\<rparr>)
        in if 0 < num then
             bind_res (hc_steal_pages evict0 num (lend (ac_glob ac) hc)) (\<lambda>(ds, hc').
               drain_cells evict0 m ncells npages (taken @ ds)
                 (next ((put_cell i (give_back hc') ac)\<lparr>ac_glob := snd (hc_policy hc')\<rparr>)))
           else drain_cells evict0 m ncells npages taken (next ac))"
  by pat_completeness auto

termination drain_cells
  by (relation "measures [\<lambda>(e, m, ncells, npages, taken, ac). nat (ac_height ac + 1 - int m),
        \<lambda>(e, m, ncells, npages, taken, ac). ac_expand_cell_idx ac]")
    (auto simp: Let_def)

declare drain_cells.simps [simp del]

fun merge_cells :: "nat \<Rightarrow> nat \<Rightarrow> ('p, 'g) acache \<Rightarrow> ('p, 'g) acache res" where
  "merge_cells num_half 0 ac = Inr ac"
| "merge_cells num_half (Suc n) ac =
     bind_res (cell_at ac (Suc n + num_half)) (\<lambda>hi.
     bind_res (cell_at ac (Suc n)) (\<lambda>lo.
     bind_res (merge lo hi) (\<lambda>(lo', hi').
       merge_cells num_half n
         ((put_cell (Suc n) lo' (put_cell (Suc n + num_half) hi' ac))\<lparr>ac_split := n\<rparr>))))"

text \<open>
  Halving the table: \<^verbatim>\<open>num_half\<close> is computed before \<^verbatim>\<open>level\<close> is lowered, the arrays to destroy after.
\<close>

definition halve_table :: "('p, 'g) acache \<Rightarrow> ('p, 'g) acache res" where
  "halve_table ac =
     (let num_half = 2 ^ ac_level ac * ac_init_ncells ac div 2;
          ac1 = (if ac_split ac = 0 then ac\<lparr>ac_split := num_half - 1, ac_level := ac_level ac - 1\<rparr> else ac)
      in bind_res (merge_cells num_half (ac_split ac1) ac1) (\<lambda>ac2.
        let orig_narrays = 2 ^ ac_level ac2; narrays = orig_narrays div 2 in
        if length (ac_table ac2) < orig_narrays then Inl Undefined_behaviour
        else Inr (ac2\<lparr>ac_table := take narrays (ac_table ac2)
               @ replicate (orig_narrays - narrays) None @ drop orig_narrays (ac_table ac2)\<rparr>)))"

text \<open>Every round but the last lowers \<^verbatim>\<open>level\<close>.\<close>

fun shrink_rounds ::
  "nat \<Rightarrow> ('p \<times> 'g \<Rightarrow> page_cell \<Rightarrow> (nat option \<times> ('p \<times> 'g) \<times> page_cell) res) \<Rightarrow> nat \<Rightarrow> nat \<Rightarrow> nat
   \<Rightarrow> nat list \<Rightarrow> ('p, 'g) acache \<Rightarrow> (nat list \<times> ('p, 'g) acache) res" where
  "shrink_rounds 0 evict0 m ncells npages taken ac = Inl Out_of_steps"
| "shrink_rounds (Suc n) evict0 m ncells npages taken ac =
     (if npages \<le> length taken then Inr (taken, ac)
      else bind_res (if ac_split ac = 0 then drain_cells evict0 m ncells npages taken ac
                     else Inr (taken, ac)) (\<lambda>(taken1, ac1).
        if ac_split ac = 0 \<and> length taken1 = npages then Inr (taken1, ac1)
        else if ac_level ac1 = 0 then Inr (taken1, ac1)
        else bind_res (halve_table ac1) (shrink_rounds n evict0 m ncells npages taken1)))"

definition shrink ::
  "('p \<times> 'g \<Rightarrow> page_cell \<Rightarrow> (nat option \<times> ('p \<times> 'g) \<times> page_cell) res) \<Rightarrow> nat \<Rightarrow> nat
   \<Rightarrow> ('p, 'g) acache \<Rightarrow> (bool \<times> nat list \<times> ('p, 'g) acache) res" where
  "shrink evict0 m npages ac =
     (let (orig, fl) = atomic_set_flag TABLE_EXPANDING (ac_flags ac) in
      if orig then Inr (False, [], ac\<lparr>ac_flags := fl\<rparr>)
      else bind_res (shrink_rounds (Suc (Suc (ac_level ac))) evict0 m (get_num_cells ac) npages []
                       (ac\<lparr>ac_flags := fl\<rparr>)) (\<lambda>(taken, ac').
        Inr (True, taken, ac'\<lparr>ac_flags := snd (atomic_clear_flag TABLE_EXPANDING fl),
               ac_npages := ac_npages ac' - int npages\<rparr>)))"

end
