(* ===== verification/Assoc_Laws.thy ===== *)
theory Assoc_Laws
  imports Assoc_Cache APR_Laws
begin

text \<open>
  The table as one map from locations to pages. Linear hashing sends a location to exactly one
  existing cell (\<open>locate\<close>); splitting a cell moves a page exactly when its address changes. On a
  table whose pages all lie where \<open>locate\<close> says, a lookup in one cell decides whether the page is
  cached anywhere, and replaces one location by another in the set of cached locations.
\<close>

section \<open>Addresses\<close>

definition hashable :: "data_loc_t \<Rightarrow> bool" where
  "hashable l \<longleftrightarrow> page_aligned_loc l \<and> 0 \<le> loc_file_id l \<and> loc_file_id l < 2 ^ 31"

definition hash_key :: "('p, 'g) acache \<Rightarrow> data_loc_t \<Rightarrow> int" where
  "hash_key ac l = loc_off l div 4096 div ac_offset_factor ac + loc_file_id l"

definition sized :: "('p, 'g) acache \<Rightarrow> bool" where
  "sized ac \<longleftrightarrow> 0 < ac_init_ncells ac \<and> 0 < ac_offset_factor ac
     \<and> int (ac_init_ncells ac) * 2 ^ (ac_level ac + 1) < 2 ^ 31
     \<and> ac_split ac < 2 ^ ac_level ac * ac_init_ncells ac"

lemma universal_hash_mod:
  assumes "0 \<le> v" "v < 2 ^ 38" "0 < m" "m < 2 ^ 31"
  shows "universal_hash v m = v * CONST_A mod CONST_P mod m"
proof -
  have "v * CONST_A \<le> 2 ^ 38 * CONST_A"
    using assms(2) by (intro mult_right_mono) (simp_all add: CONST_A_def)
  then have r: "0 \<le> v * CONST_A" "v * CONST_A < 2 ^ 63" using assms(1) by (simp_all add: CONST_A_def)
  then have i64: "int64 (v * CONST_A) = v * CONST_A" by (intro int64_id) simp_all
  have "0 \<le> v * CONST_A mod CONST_P mod m" using assms(3) by simp
  moreover have "v * CONST_A mod CONST_P mod m < 2147483648"
    using assms(4) by (intro less_trans [OF pos_mod_bound [OF assms(3)]]) simp
  ultimately have "int32 (v * CONST_A mod CONST_P mod m) = v * CONST_A mod CONST_P mod m"
    by (intro int32_id) linarith+
  then show ?thesis
    using r(1) assms(3) i64 by (simp add: universal_hash_def smod_mod CONST_P_def)
qed

lemma hash_key_range:
  assumes "hashable l" "sized ac"
  shows "0 \<le> hash_key ac l" "hash_key ac l < 2 ^ 38"
proof -
  let ?q = "loc_off l div 4096"
  obtain k where "loc_off l = 4096 * k" using assms(1) by (auto simp: hashable_def page_aligned_loc_def)
  then have q: "0 \<le> ?q" "?q < 2 ^ 31" and f: "0 < ac_offset_factor ac"
    using assms by (simp_all add: hashable_def page_aligned_loc_def sized_def)
  have "?q div ac_offset_factor ac \<le> ?q" "0 \<le> ?q div ac_offset_factor ac"
    using q(1) f zdiv_mono2 [of ?q 1 "ac_offset_factor ac"] by (simp_all add: pos_imp_zdiv_nonneg_iff)
  then show "0 \<le> hash_key ac l" "hash_key ac l < 2 ^ 38"
    using q assms(1) by (simp_all add: hash_key_def hashable_def)
qed

lemma hash_at_mod:
  assumes "hashable l" "sized ac" "lv \<le> ac_level ac + 1"
  shows "hash_at lv ac l = hash_key ac l * CONST_A mod CONST_P mod (int (ac_init_ncells ac) * 2 ^ lv)"
proof -
  let ?m = "int (ac_init_ncells ac) * 2 ^ lv"
  have "?m \<le> int (ac_init_ncells ac) * 2 ^ (ac_level ac + 1)"
    using assms(3) by (intro mult_left_mono power_increasing) simp_all
  moreover have "int (ac_init_ncells ac) * 2 ^ (ac_level ac + 1) < 2 ^ 31" "0 < ac_init_ncells ac"
    using assms(2) unfolding sized_def by blast+
  ultimately have m: "0 < ?m" "?m < 2 ^ 31" by (simp, linarith)
  then have "int32 ?m = ?m" by (intro int32_id) simp_all
  moreover have "loc_off l sdiv PAGE_SIZE sdiv ac_offset_factor ac + loc_file_id l = hash_key ac l"
    using assms(1,2)
    by (simp add: hash_key_def sdiv_div hashable_def page_aligned_loc_def sized_def pos_imp_zdiv_nonneg_iff)
  ultimately show ?thesis
    using universal_hash_mod [OF hash_key_range [OF assms(1,2)] m] by (simp add: hash_at_def)
qed

lemma mod_double:
  assumes "0 < (n :: int)"
  shows "x mod (2 * n) = x mod n \<or> x mod (2 * n) = x mod n + n"
proof -
  let ?y = "x mod (2 * n)"
  have y: "0 \<le> ?y" "?y < 2 * n" using assms by simp_all
  have eq: "x mod n = ?y mod n" by (simp add: mod_mod_cancel)
  show ?thesis
  proof (cases "?y < n")
    case True
    then show ?thesis unfolding eq using y(1) by simp
  next
    case False
    then have "?y mod n = ?y - n" using y(2) mod_pos_pos_trivial [of "?y - n" n] by (simp del: mod_pos_pos_trivial)
    then show ?thesis unfolding eq by simp
  qed
qed

definition half :: "('p, 'g) acache \<Rightarrow> int" where
  "half ac = int (ac_init_ncells ac) * 2 ^ ac_level ac"

lemma hash_range:
  assumes "hashable l" "sized ac"
  shows "0 \<le> hash ac l" "hash ac l < half ac"
    "hash1 ac l = hash ac l \<or> hash1 ac l = hash ac l + half ac"
proof -
  let ?x = "hash_key ac l * CONST_A mod CONST_P"
  have h: "hash ac l = ?x mod half ac" "hash1 ac l = ?x mod (2 * half ac)"
    using hash_at_mod [OF assms] by (simp_all add: hash_def hash1_def half_def algebra_simps)
  have "0 < half ac" using assms(2) by (simp add: half_def sized_def)
  then show "0 \<le> hash ac l" "hash ac l < half ac"
    "hash1 ac l = hash ac l \<or> hash1 ac l = hash ac l + half ac"
    using h mod_double [of "half ac" ?x] by simp_all
qed

text \<open>The index of the one cell a location belongs to.\<close>

definition locate :: "('p, 'g) acache \<Rightarrow> data_loc_t \<Rightarrow> nat" where
  "locate ac l = nat (if hash ac l < int (ac_split ac) then hash1 ac l else hash ac l)"

lemma locate_range:
  assumes "hashable l" "sized ac"
  shows "locate ac l < get_num_cells ac"
    "int (locate ac l) = (if hash ac l < int (ac_split ac) then hash1 ac l else hash ac l)"
proof -
  define N where "N = 2 ^ ac_level ac * ac_init_ncells ac"
  have h: "half ac = int N" "get_num_cells ac = N + ac_split ac"
    by (simp_all add: half_def N_def get_num_cells_def)
  show 1: "int (locate ac l) = (if hash ac l < int (ac_split ac) then hash1 ac l else hash ac l)"
    using hash_range [OF assms] h by (auto simp: locate_def)
  have "int (locate ac l) < int (get_num_cells ac)"
    using hash_range [OF assms] h 1 assms(2) by (auto simp: N_def [symmetric] sized_def)
  then show "locate ac l < get_num_cells ac" by simp
qed

section \<open>Reading and writing cells\<close>

definition arrays :: "('p, 'g) acache \<Rightarrow> nat" where
  "arrays ac = 2 ^ ac_level ac + (if ac_split ac = 0 then 0 else 2 ^ ac_level ac)"

definition table_wf :: "('p, 'g) acache \<Rightarrow> bool" where
  "table_wf ac \<longleftrightarrow> sized ac \<and> arrays ac \<le> length (ac_table ac)
     \<and> (\<forall>a < arrays ac. \<exists>cells. ac_table ac ! a = Some cells \<and> length cells = ac_init_ncells ac)"

lemma index_array:
  assumes "sized ac" "i < get_num_cells ac"
  shows "i div ac_init_ncells ac < arrays ac"
proof -
  have "i < arrays ac * ac_init_ncells ac"
    using assms by (auto simp: sized_def get_num_cells_def arrays_def algebra_simps)
  then show ?thesis using assms(1) by (simp add: sized_def less_mult_imp_div_less)
qed

lemma cell_at_ok:
  assumes "table_wf ac" "i div ac_init_ncells ac < arrays ac"
  shows "\<exists>hc. get_cell ac i = Inr (Some hc) \<and> cell_at ac i = Inr hc"
proof -
  obtain cells where "ac_table ac ! (i div ac_init_ncells ac) = Some cells"
    "length cells = ac_init_ncells ac"
    using assms by (auto simp: table_wf_def)
  then show ?thesis
    using assms by (simp add: get_cell_def cell_at_def table_wf_def sized_def)
qed

lemma get_cell_offset_ok:
  assumes "table_wf ac" "hashable l"
  shows "get_cell_offset ac l = Inr (locate ac l)"
proof -
  have s: "sized ac" using assms(1) by (simp add: table_wf_def)
  note r = locate_range [OF assms(2) s]
  obtain hc where "get_cell ac (locate ac l) = Inr (Some hc)"
    using cell_at_ok [OF assms(1) index_array [OF s r(1)]] by blast
  then show ?thesis
    using r(2) unfolding get_cell_offset_def Let_def r(2) [symmetric] by simp
qed

lemma put_cell_frame [simp]:
  "ac_init_ncells (put_cell i hc ac) = ac_init_ncells ac" "ac_level (put_cell i hc ac) = ac_level ac"
  "ac_split (put_cell i hc ac) = ac_split ac" "ac_offset_factor (put_cell i hc ac) = ac_offset_factor ac"
  "length (ac_table (put_cell i hc ac)) = length (ac_table ac)" "ac_glob (put_cell i hc ac) = ac_glob ac"
  by (simp_all add: put_cell_def Let_def split: option.split)

lemma put_cell_addresses [simp]:
  "hash (put_cell i hc ac) = hash ac" "hash1 (put_cell i hc ac) = hash1 ac"
  "locate (put_cell i hc ac) = locate ac" "get_num_cells (put_cell i hc ac) = get_num_cells ac"
  by (simp_all add: fun_eq_iff hash_def hash1_def hash_at_def locate_def get_num_cells_def)

lemma put_cell_wf:
  assumes "table_wf ac"
  shows "table_wf (put_cell i hc ac)"
proof -
  have "\<exists>cells. ac_table (put_cell i hc ac) ! a = Some cells \<and> length cells = ac_init_ncells ac"
    if "a < arrays ac" for a
  proof -
    obtain cells where "ac_table ac ! a = Some cells" "length cells = ac_init_ncells ac"
      using assms \<open>a < arrays ac\<close> by (auto simp: table_wf_def)
    moreover have "a < length (ac_table ac)" using assms that by (simp add: table_wf_def)
    ultimately show ?thesis
      by (cases "a = i div ac_init_ncells ac")
        (simp_all add: put_cell_def Let_def split: option.split)
  qed
  moreover have "arrays (put_cell i hc ac) = arrays ac" "sized (put_cell i hc ac) = sized ac"
    by (simp_all add: arrays_def sized_def)
  ultimately show ?thesis using assms by (simp add: table_wf_def)
qed

definition present :: "('p, 'g) acache \<Rightarrow> nat \<Rightarrow> bool" where
  "present ac i \<longleftrightarrow> 0 < ac_init_ncells ac \<and> i div ac_init_ncells ac < length (ac_table ac)
     \<and> (\<exists>cells. ac_table ac ! (i div ac_init_ncells ac) = Some cells \<and> length cells = ac_init_ncells ac)"

lemma present_wf: "table_wf ac \<Longrightarrow> i div ac_init_ncells ac < arrays ac \<Longrightarrow> present ac i"
  by (auto simp: present_def table_wf_def sized_def)

lemma cell_at_present: "present ac i \<Longrightarrow> \<exists>hc. cell_at ac i = Inr hc"
  by (auto simp: present_def cell_at_def get_cell_def)

lemma cell_at_put:
  assumes "present ac i" "present ac j"
  shows "cell_at (put_cell i hc ac) j = (if j = i then Inr hc else cell_at ac j)" "present (put_cell i hc ac) j"
proof -
  let ?n = "ac_init_ncells ac"
  obtain ci cj where c: "ac_table ac ! (i div ?n) = Some ci" "length ci = ?n"
      "ac_table ac ! (j div ?n) = Some cj" "length cj = ?n"
    and n: "0 < ?n" "i div ?n < length (ac_table ac)" "j div ?n < length (ac_table ac)"
    using assms by (auto simp: present_def)
  have "j = i" if "j div ?n = i div ?n" "j mod ?n = i mod ?n"
    using that by (metis div_mult_mod_eq)
  then show "cell_at (put_cell i hc ac) j = (if j = i then Inr hc else cell_at ac j)"
    using c n by (cases "j div ?n = i div ?n")
      (auto simp: cell_at_def get_cell_def put_cell_def Let_def nth_list_update)
  show "present (put_cell i hc ac) j"
    using c n by (cases "j div ?n = i div ?n") (simp_all add: present_def put_cell_def Let_def)
qed

section \<open>The table as a set of cached locations\<close>

definition cells :: "('p, 'g) acache \<Rightarrow> nat \<Rightarrow> page_cell" where
  "cells ac i = hc_buf (case cell_at ac i of Inr hc \<Rightarrow> hc)"

definition cache_locs :: "('p, 'g) acache \<Rightarrow> data_loc_t set" where
  "cache_locs ac = (\<Union>i < get_num_cells ac. cell_locs (cells ac i))"

text \<open>Every cell is well-formed and caches, each once, only locations that belong to it.\<close>

definition placed :: "('p, 'g) acache \<Rightarrow> bool" where
  "placed ac \<longleftrightarrow> table_wf ac \<and> (\<forall>i < get_num_cells ac. cell_wf (cells ac i) \<and> unique_locs (cells ac i)
     \<and> (\<forall>l \<in> cell_locs (cells ac i). hashable l \<and> locate ac l = i))"

lemma cell_at_cells:
  assumes "table_wf ac" "i < get_num_cells ac"
  obtains hc where "cell_at ac i = Inr hc" "cells ac i = hc_buf hc"
  using cell_at_ok [OF assms(1) index_array] assms by (auto simp: table_wf_def cells_def)

lemma cells_put:
  assumes "table_wf ac" "i < get_num_cells ac" "j < get_num_cells ac"
  shows "cells (put_cell i hc ac) j = (if j = i then hc_buf hc else cells ac j)"
  using cell_at_put(1) [OF present_wf [OF assms(1) index_array] present_wf [OF assms(1) index_array]] assms
  by (simp add: cells_def table_wf_def)

lemma cached_iff:
  assumes "placed ac" "hashable l"
  shows "l \<in> cache_locs ac \<longleftrightarrow> l \<in> cell_locs (cells ac (locate ac l))"
proof -
  have "locate ac l < get_num_cells ac"
    using assms locate_range by (auto simp: placed_def table_wf_def)
  then show ?thesis using assms(1) by (auto simp: cache_locs_def placed_def)
qed

text \<open>Replacing one cell by one with other locations of the same address.\<close>

lemma placed_put:
  assumes ok: "placed ac" and i: "i < get_num_cells ac"
    and new: "cell_wf (hc_buf hc)" "unique_locs (hc_buf hc)"
      "\<And>l. l \<in> cell_locs (hc_buf hc) \<Longrightarrow> hashable l \<and> locate ac l = i"
  shows "placed (put_cell i hc ac)"
    "cache_locs (put_cell i hc ac) = cache_locs ac - cell_locs (cells ac i) \<union> cell_locs (hc_buf hc)"
proof -
  have wf: "table_wf ac" using ok by (simp add: placed_def)
  have c: "cells (put_cell i hc ac) j = (if j = i then hc_buf hc else cells ac j)"
    if "j < get_num_cells ac" for j using cells_put [OF wf i that] .
  show "placed (put_cell i hc ac)"
    using ok new put_cell_wf [OF wf] by (simp add: placed_def c)
  have "l \<notin> cell_locs (cells ac i)" if "l \<in> cell_locs (cells ac j)" "j < get_num_cells ac" "j \<noteq> i" for l j
    using ok i that unfolding placed_def by metis
  then show "cache_locs (put_cell i hc ac) = cache_locs ac - cell_locs (cells ac i) \<union> cell_locs (hc_buf hc)"
    using i by (auto simp: cache_locs_def c split: if_splits)
qed

lemma get_cell_glob [simp]: "get_cell (ac\<lparr>ac_glob := g\<rparr>) i = get_cell ac i"
  by (simp add: get_cell_def cong: if_cong option.case_cong)

lemma set_glob [simp]:
  "cell_at (ac\<lparr>ac_glob := g\<rparr>) = cell_at ac" "get_num_cells (ac\<lparr>ac_glob := g\<rparr>) = get_num_cells ac"
  "locate (ac\<lparr>ac_glob := g\<rparr>) = locate ac" "table_wf (ac\<lparr>ac_glob := g\<rparr>) = table_wf ac"
  "cells (ac\<lparr>ac_glob := g\<rparr>) = cells ac"
  by (simp_all add: fun_eq_iff cell_at_def get_num_cells_def locate_def hash_def hash1_def
      hash_at_def table_wf_def sized_def arrays_def cells_def)

lemma set_glob_placed [simp]: "placed (ac\<lparr>ac_glob := g\<rparr>) = placed ac" "cache_locs (ac\<lparr>ac_glob := g\<rparr>) = cache_locs ac"
  by (simp_all add: placed_def cache_locs_def)

text \<open>
  A policy whose cells share state: its invariant on a cell does not depend on the shared part, so
  an eviction in one cell does not disturb the others.
\<close>

locale shared_eviction = eviction evict pol_inv
  for evict :: "int \<Rightarrow> 'p \<times> 'g \<Rightarrow> page_cell \<Rightarrow> (nat option \<times> ('p \<times> 'g) \<times> page_cell) res"
    and pol_inv :: "'p \<times> 'g \<Rightarrow> page_cell \<Rightarrow> bool" +
  assumes inv_shared: "pol_inv (p, g) c \<Longrightarrow> pol_inv (p, g') c"
begin

definition cells_inv :: "('p, 'g) acache \<Rightarrow> bool" where
  "cells_inv ac \<longleftrightarrow> (\<forall>i < get_num_cells ac. \<forall>hc. cell_at ac i = Inr hc \<longrightarrow>
     pol_inv (hc_policy hc, ac_glob ac) (hc_buf hc))"

lemma cells_inv_put:
  assumes wf: "table_wf ac" and inv: "cells_inv ac" and i: "i < get_num_cells ac"
    and new: "pol_inv (hc_policy hc, g) (hc_buf hc)"
  shows "cells_inv ((put_cell i hc ac)\<lparr>ac_glob := g\<rparr>)"
  unfolding cells_inv_def
proof (intro allI impI)
  fix j h
  assume j: "j < get_num_cells ((put_cell i hc ac)\<lparr>ac_glob := g\<rparr>)"
    and h: "cell_at ((put_cell i hc ac)\<lparr>ac_glob := g\<rparr>) j = Inr h"
  have j': "j < get_num_cells ac" using j by simp
  have at: "Inr h = (if j = i then Inr hc else cell_at ac j)"
    using cell_at_put(1) [OF present_wf [OF wf index_array] present_wf [OF wf index_array]] i j' wf h
    by (simp add: table_wf_def)
  show "pol_inv (hc_policy h, ac_glob ((put_cell i hc ac)\<lparr>ac_glob := g\<rparr>)) (hc_buf h)"
  proof (cases "j = i")
    case True
    then show ?thesis using at new by simp
  next
    case False
    then have "pol_inv (hc_policy h, ac_glob ac) (hc_buf h)"
      using at inv j' unfolding cells_inv_def by metis
    then show ?thesis by (rule inv_shared)
  qed
qed

lemma ac_search_correct:
  assumes ok: "placed ac" and inv: "cells_inv ac" and l: "hashable l"
    and access: "\<And>st c k st'. pol_inv st c \<Longrightarrow> access st c k = Inr st' \<Longrightarrow> pol_inv st' c"
    and run: "ac_search evict access th info l old_id ac = Inr (r, old, ac')"
  shows "placed ac' \<and> cells_inv ac'
    \<and> (\<forall>i k. r = Some (i, k) \<longrightarrow> i = locate ac l \<and> holds (cells ac' i) l k)
    \<and> (if l \<in> cache_locs ac then r \<noteq> None \<and> old = old_id \<and> cache_locs ac' = cache_locs ac
       else if r = None then old = old_id \<and> cache_locs ac' = cache_locs ac
       else cache_locs ac' = insert l (cache_locs ac - {old}))"
proof -
  let ?i = "locate ac l"
  have wf: "table_wf ac" using ok by (simp add: placed_def)
  then have i: "?i < get_num_cells ac" using locate_range(1) [OF l, of ac] by (simp add: table_wf_def)
  obtain hc where hc: "cell_at ac ?i = Inr hc" "cells ac ?i = hc_buf hc" using cell_at_cells [OF wf i] .
  obtain r1 hc1 where s: "search evict access th info l old_id (lend (ac_glob ac) hc) = Inr (r1, old, hc1)"
    and r: "r = map_option (Pair ?i) r1"
    and ac': "ac' = (put_cell ?i (give_back hc1) ac)\<lparr>ac_glob := snd (hc_policy hc1)\<rparr>"
    using run hc(1) get_cell_offset_ok [OF wf l] by (auto simp: ac_search_def res_simps)
  have c: "cell_wf (hc_buf hc)" "unique_locs (hc_buf hc)"
    "\<And>m. m \<in> cell_locs (hc_buf hc) \<Longrightarrow> hashable m \<and> locate ac m = ?i"
    using ok i hc(2) by (auto simp: placed_def)
  have al: "page_aligned_loc l" using l by (simp add: hashable_def)
  have pinv: "pol_inv (hc_policy (lend (ac_glob ac) hc)) (hc_buf (lend (ac_glob ac) hc))"
    using inv i hc(1) by (simp add: cells_inv_def lend_def)
  have buf: "hc_buf (lend (ac_glob ac) hc) = hc_buf hc" by (simp add: lend_def)
  from c(1) have "search_post l old_id (hc_buf hc) (r1, old, hc_buf hc1) \<and> cell_wf (hc_buf hc1)
    \<and> pol_inv (hc_policy hc1) (hc_buf hc1)"
    by (rule search_correct [OF _ pinv al _ s, unfolded buf]) (rule access)
  then have post: "search_post l old_id (hc_buf hc) (r1, old, hc_buf hc1)" "cell_wf (hc_buf hc1)"
    "pol_inv (hc_policy hc1) (hc_buf hc1)" by simp_all
  note locs = search_post_locs [OF c(2) al post(1)]
  have new: "hashable m \<and> locate ac m = ?i" if "m \<in> cell_locs (hc_buf hc1)" for m
    using that c(3) l unfolding locs(2) by (auto split: if_splits)
  have gb: "hc_buf (give_back hc1) = hc_buf hc1" "hc_policy (give_back hc1) = fst (hc_policy hc1)"
    by (simp_all add: give_back_def)
  note put = placed_put [OF ok i, of "give_back hc1", unfolded gb, OF post(2) locs(1) new]
  have sub: "cell_locs (hc_buf hc) \<subseteq> cache_locs ac" using i hc(2) by (auto simp: cache_locs_def)
  have cl: "cache_locs ac' = cache_locs ac - cell_locs (hc_buf hc) \<union> cell_locs (hc_buf hc1)"
    using put(2) hc(2) by (simp add: ac')
  have here: "l \<in> cache_locs ac \<longleftrightarrow> l \<in> cell_locs (hc_buf hc)" using cached_iff [OF ok l] hc(2) by simp
  have "cells_inv ac'"
    unfolding ac' using post(3) gb by (intro cells_inv_put [OF wf inv i]) simp
  moreover have "holds (cells ac' ?i) l k" if "r1 = Some k" for k
    using post(1) that cells_put [OF wf i i, of "give_back hc1"]
    by (auto simp: ac' gb search_post_def hit_post_def miss_post_def split: if_splits)
  moreover have "r1 \<noteq> None \<and> old = old_id" if "l \<in> cell_locs (hc_buf hc)"
    using post(1) that by (auto simp: search_post_def cell_locs_def)
  moreover have "old = old_id" if "r1 = None"
    using post(1) that by (auto simp: search_post_def split: if_splits)
  moreover have "old \<in> cell_locs (hc_buf hc)"
    if "old \<in> cache_locs ac" "l \<notin> cell_locs (hc_buf hc)" "r1 = Some k" for k
  proof -
    have "page_aligned_loc old" using that(1) by (auto simp: cache_locs_def cell_locs_def)
    moreover have "holds (hc_buf hc) old k"
      using post(1) that(2,3) al
      by (auto simp: search_post_def cell_locs_def miss_post_def free_slot_def holds_def split: if_splits)
    ultimately show ?thesis by (auto simp: cell_locs_def)
  qed
  ultimately show ?thesis
    using put(1) here cl locs(2) sub r by (auto simp: ac')
qed

end

interpretation apr_table: shared_eviction "APR_evict_page sent" apr_inv for sent
  by unfold_locales (simp add: apr_inv_def)

section \<open>Splitting a cell\<close>

lemma locate_split:
  assumes "hashable l" "sized ac" "sized (ac\<lparr>ac_split := Suc (ac_split ac)\<rparr>)"
  shows "locate (ac\<lparr>ac_split := Suc (ac_split ac)\<rparr>) l
    = (if locate ac l = ac_split ac then nat (hash1 ac l) else locate ac l)"
proof -
  let ?ac = "ac\<lparr>ac_split := Suc (ac_split ac)\<rparr>"
  have h: "hash ?ac l = hash ac l" "hash1 ?ac l = hash1 ac l"
    by (simp_all add: hash_def hash1_def hash_at_def)
  have "int (ac_split ac) < int (2 ^ ac_level ac * ac_init_ncells ac)"
    using assms(2) unfolding sized_def of_nat_less_iff by blast
  then have "int (ac_split ac) < half ac" by (simp add: half_def mult.commute)
  then show ?thesis
    using hash_range [OF assms(1,2)] h by (auto simp: locate_def)
qed

text \<open>Locations of a cell by counting its pages, so that moving pages is multiset arithmetic.\<close>

definition loc_count :: "page multiset \<Rightarrow> data_loc_t \<Rightarrow> nat" where
  "loc_count M l = size (filter_mset (\<lambda>p. page_loc p = l) M)"

abbreviation pages_of :: "page_cell \<Rightarrow> page multiset" where
  "pages_of c \<equiv> mset (cell_pages c)"

lemma loc_count_add [simp]: "loc_count (M + N) l = loc_count M l + loc_count N l"
  by (simp add: loc_count_def)

lemma loc_count_hits:
  assumes "image_mset sans_hits M = image_mset sans_hits N"
  shows "loc_count M l = loc_count N l"
proof -
  have "page_loc (sans_hits p) = page_loc p" for p
    by (simp add: sans_hits_def page_loc_def get_offset_def)
  then have "loc_count M l = size (filter_mset (\<lambda>p. page_loc p = l) (image_mset sans_hits M))" for M
    by (simp add: loc_count_def filter_mset_image_mset)
  then show ?thesis using assms by simp
qed

lemma loc_count_card: "loc_count (pages_of c) l = card {k. holds c l k}"
proof -
  have "loc_count (pages_of c) l = length (filter (\<lambda>p. has_data p \<and> page_loc p = l) (pc_buf c))"
    unfolding loc_count_def cell_pages_def mset_filter [symmetric] filter_filter size_mset
    by (simp add: conj_commute)
  then show ?thesis by (simp add: length_filter_conv_card holds_def)
qed

lemma finite_holds: "finite {k. holds c l k}"
  by (rule finite_subset [of _ "{..< length (pc_buf c)}"]) (auto simp: holds_def)

lemma unique_locs_count: "unique_locs c \<longleftrightarrow> (\<forall>l. page_aligned_loc l \<longrightarrow> loc_count (pages_of c) l \<le> 1)"
  unfolding unique_locs_def loc_count_card
  using card_le_Suc0_iff_eq [OF finite_holds] by (auto simp: One_nat_def)

lemma cell_locs_count: "cell_locs c = {l. page_aligned_loc l \<and> 0 < loc_count (pages_of c) l}"
  unfolding cell_locs_def loc_count_card using finite_holds by (auto simp: card_gt_0_iff)

lemma cell_locs_pages: "cell_locs c = {l. page_aligned_loc l \<and> (\<exists>p \<in> set (cell_pages c). page_loc p = l)}"
  by (auto simp: cell_locs_def holds_def cell_pages_def in_set_conv_nth)

text \<open>Fresh pages have no location.\<close>

lemma fresh_page:
  "\<not> initialized (mk_page junk invalid_data_loc d node)"
  by (simp add: initialized_def mk_page_def set_offset_def invalid_data_loc_def empty_page_def int32_def)

lemma uninitialized_loc: "\<not> initialized p \<Longrightarrow> \<not> page_aligned_loc (page_loc p)"
  by (simp add: initialized_def page_loc_def get_offset_def page_aligned_loc_def)

lemma loc_count_fresh:
  assumes "\<forall>p \<in># M. \<not> initialized p" "page_aligned_loc l"
  shows "loc_count M l = 0"
  using assms uninitialized_loc by (auto simp: loc_count_def filter_mset_eq_mempty_iff)

lemma add_pages_locs:
  assumes wf: "cell_wf c" and ok: "add_pages junk pages num node c = Inr c'"
  shows "cell_wf c'" "page_aligned_loc l \<Longrightarrow> loc_count (pages_of c') l = loc_count (pages_of c) l"
proof -
  let ?ps = "map (\<lambda>d. mk_page junk invalid_data_loc (Some d) node) (take num pages)"
  have b: "num + pc_num_pages c \<le> CELL_SIZE" "num \<le> length pages"
    using ok by (auto simp: add_pages_def res_simps split: if_splits)
  have inj: "inject_pages ?ps c = Inr c'" using add_pages_inject [OF wf b(2,1)] ok by simp
  have "\<forall>p \<in> set ?ps. has_data p" "length ?ps + pc_num_pages c \<le> CELL_SIZE" using b by auto
  from inject_pages_ok [OF wf this] inj
  have i: "cell_wf c'" "pages_of c' = mset ?ps + pages_of c" by auto
  show "cell_wf c'" by (rule i)
  have "\<forall>p \<in># mset ?ps. \<not> initialized p" using fresh_page by auto
  then show "loc_count (pages_of c') l = loc_count (pages_of c) l" if "page_aligned_loc l"
    using that loc_count_fresh unfolding i(2) by simp
qed

lemma add_pages_to_min_locs:
  assumes wf: "cell_wf (hc_buf hc)" and ok: "add_pages_to_min junk pages num node hc = Inr (k, hc')"
  shows "cell_wf (hc_buf hc')"
    "page_aligned_loc l \<Longrightarrow> loc_count (pages_of (hc_buf hc')) l = loc_count (pages_of (hc_buf hc)) l"
  using ok add_pages_locs [OF wf] wf
  by (auto simp: add_pages_to_min_def hc_add_pages_def Let_def res_simps split: if_splits)

text \<open>
  The table while its cells are being split: the new arrays exist, the partner of the next cell is
  empty, and the two cells carry their indices.
\<close>

definition splittable :: "('p, 'g) acache \<Rightarrow> bool" where
  "splittable ac \<longleftrightarrow> placed ac \<and> (let n = 2 ^ ac_level ac; hi = ac_split ac + n * ac_init_ncells ac in
     2 * n \<le> length (ac_table ac)
     \<and> (\<forall>a < 2 * n. \<exists>cells. ac_table ac ! a = Some cells \<and> length cells = ac_init_ncells ac)
     \<and> Suc (ac_split ac) < n * ac_init_ncells ac
     \<and> (\<forall>c e. cell_at ac (ac_split ac) = Inr c \<longrightarrow> cell_at ac hi = Inr e \<longrightarrow>
          hc_hash c = int (ac_split ac) \<and> hc_hash e = int hi
          \<and> cell_wf (hc_buf e) \<and> pc_num_pages (hc_buf e) = 0
          \<and> (\<forall>p \<in> set (cell_pages (hc_buf c)). pg_refcnt p = 0)))"

lemma rehash_locs:
  assumes wf: "cell_wf (hc_buf c)" "cell_wf (hc_buf e)" and e: "pc_num_pages (hc_buf e) = 0"
    and m: "m \<le> CELL_SIZE" and free: "\<forall>p \<in> set (cell_pages (hc_buf c)). pg_refcnt p = 0"
    and ne: "hc_hash c \<noteq> hc_hash e" and ok: "rehash h m c e = Inr (c', e')"
  shows "cell_wf (hc_buf c')" "cell_wf (hc_buf e')"
    "loc_count (pages_of (hc_buf c')) l + loc_count (pages_of (hc_buf e')) l = loc_count (pages_of (hc_buf c)) l"
    "l \<in> cell_locs (hc_buf c') \<Longrightarrow> h l \<noteq> hc_hash e" "l \<in> cell_locs (hc_buf e') \<Longrightarrow> h l = hc_hash e"
proof -
  obtain b' x' where r: "c' = c\<lparr>hc_buf := b'\<rparr>" "e' = e\<lparr>hc_buf := x'\<rparr>" "cell_wf b'" "cell_wf x'"
    "image_mset sans_hits (pages_of b' + pages_of x') = image_mset sans_hits (pages_of (hc_buf c))"
    "\<forall>p \<in> set (cell_pages b'). \<not> moves h (hc_hash c) (hc_hash e) p"
    "\<forall>p \<in> set (cell_pages x'). moves h (hc_hash c) (hc_hash e) p \<or> \<not> initialized p"
    using rehash_ok [OF wf e m, of h] free ok by auto
  show "cell_wf (hc_buf c')" "cell_wf (hc_buf e')" using r by simp_all
  show "loc_count (pages_of (hc_buf c')) l + loc_count (pages_of (hc_buf e')) l = loc_count (pages_of (hc_buf c)) l"
    using loc_count_hits [OF r(5), of l] r(1,2) by simp
  have "pg_refcnt p = 0" if "p \<in> set (cell_pages b')" for p
  proof -
    have "sans_hits p \<in># image_mset sans_hits (pages_of (hc_buf c))"
      unfolding r(5) [symmetric] using that by auto
    then obtain q where "q \<in> set (cell_pages (hc_buf c))" "sans_hits p = sans_hits q" by auto
    then show ?thesis using free sans_hitsD(6) [of p q] by simp
  qed
  then show "h l \<noteq> hc_hash e" if "l \<in> cell_locs (hc_buf c')"
    using that r(1,6) ne by (auto simp: cell_locs_pages moves_def)
  show "h l = hc_hash e" if "l \<in> cell_locs (hc_buf e')"
    using that r(2,7) uninitialized_loc by (auto simp: cell_locs_pages moves_def)
qed

lemma split_cellD:
  assumes "split_cell env pages ac = Inr (False, pages', ac')"
  obtains c0 e0 c1 e1 c2 e2 where
    "cell_at ac (ac_split ac) = Inr c0"
    "cell_at ac (ac_split ac + 2 ^ ac_level ac * ac_init_ncells ac) = Inr e0"
    "rehash (hash1 ac) (ee_min env) c0 e0 = Inr (c1, e1)"
    "c2 = c1 \<or> (\<exists>ps n k. add_pages_to_min (ee_junk env) ps n (ac_node_id ac) c1 = Inr (k, c2))"
    "e2 = e1 \<or> (\<exists>ps n k. add_pages_to_min (ee_junk env) ps n (ac_node_id ac) e1 = Inr (k, e2))"
    "ac' = (put_cell (ac_split ac) c2 (put_cell (ac_split ac + 2 ^ ac_level ac * ac_init_ncells ac) e2 ac))
       \<lparr>ac_split := ac_split ac + 1\<rparr>"
proof -
  obtain c0 e0 c1 e1 where s: "cell_at ac (ac_split ac + 2 ^ ac_level ac * ac_init_ncells ac) = Inr e0"
    "cell_at ac (ac_split ac) = Inr c0" "rehash (hash1 ac) (ee_min env) c0 e0 = Inr (c1, e1)"
    using assms by (auto simp: split_cell_def Let_def bind_res_Inr_iff)
  let ?add = "add_pages_to_min (ee_junk env)"
  obtain ps c2 e2 where add: "(if max (int (hc_get_num_pages e1) - int (ee_min env)) 0
        + max (int (hc_get_num_pages c1) - int (ee_min env)) 0 \<le> int (length pages)
      then bind_res (?add pages (length pages) (ac_node_id ac) c1) (\<lambda>(a, c2).
           bind_res (?add (drop a pages) (length pages - a) (ac_node_id ac) e1) (\<lambda>(b, e2).
             Inr (drop b (drop a pages), c2, e2)))
      else Inr (pages, c1, e1)) = Inr (ps, c2, e2)"
    and ac': "ac' = (put_cell (ac_split ac) c2 (put_cell (ac_split ac + 2 ^ ac_level ac * ac_init_ncells ac) e2 ac))
       \<lparr>ac_split := ac_split ac + 1\<rparr>"
    using assms s unfolding split_cell_def Let_def
    by (auto simp: bind_res_Inr_iff split: if_splits)
  have "c2 = c1 \<or> (\<exists>ps n k. ?add ps n (ac_node_id ac) c1 = Inr (k, c2))"
    "e2 = e1 \<or> (\<exists>ps n k. ?add ps n (ac_node_id ac) e1 = Inr (k, e2))"
    using add by (auto simp: bind_res_Inr_iff split: if_splits)
  then show ?thesis using that s ac' by blast
qed

lemma topped_up_locs:
  assumes "cell_wf (hc_buf c)"
    and "c' = c \<or> (\<exists>ps n k. add_pages_to_min junk ps n node c = Inr (k, c'))"
  shows "cell_wf (hc_buf c')"
    "page_aligned_loc l \<Longrightarrow> loc_count (pages_of (hc_buf c')) l = loc_count (pages_of (hc_buf c)) l"
    "cell_locs (hc_buf c') = cell_locs (hc_buf c)"
proof -
  have *: "cell_wf (hc_buf c') \<and> (\<forall>l. page_aligned_loc l \<longrightarrow>
      loc_count (pages_of (hc_buf c')) l = loc_count (pages_of (hc_buf c)) l)"
    using assms add_pages_to_min_locs [OF assms(1)] by blast
  then show "cell_wf (hc_buf c')" "cell_locs (hc_buf c') = cell_locs (hc_buf c)"
    by (auto simp: cell_locs_count)
  show "page_aligned_loc l \<Longrightarrow> loc_count (pages_of (hc_buf c')) l = loc_count (pages_of (hc_buf c)) l"
    using * by simp
qed

text \<open>Two cells that share out the locations of one.\<close>

lemma shared_out:
  assumes "\<And>l. page_aligned_loc l \<Longrightarrow>
      loc_count (pages_of a) l + loc_count (pages_of b) l = loc_count (pages_of c) l"
    and "unique_locs c"
  shows "unique_locs a" "unique_locs b" "cell_locs c = cell_locs a \<union> cell_locs b"
proof -
  have le: "loc_count (pages_of a) l + loc_count (pages_of b) l \<le> 1" if "page_aligned_loc l" for l
    using assms that by (simp add: unique_locs_count)
  then show "unique_locs a" "unique_locs b"
    unfolding unique_locs_count by (metis add_leD1, metis add_leD2)
  show "cell_locs c = cell_locs a \<union> cell_locs b"
    unfolding cell_locs_count using assms(1) by fastforce
qed

lemma splittable_present:
  assumes "splittable ac" "j \<le> ac_split ac + 2 ^ ac_level ac * ac_init_ncells ac"
  shows "present ac j"
proof -
  have n: "0 < ac_init_ncells ac" and lt: "Suc (ac_split ac) < 2 ^ ac_level ac * ac_init_ncells ac"
    using assms(1) by (simp_all add: splittable_def Let_def placed_def table_wf_def sized_def)
  then have "j div ac_init_ncells ac < 2 * 2 ^ ac_level ac"
    using assms(2) by (simp add: less_mult_imp_div_less)
  then show ?thesis using assms(1) n by (auto simp: splittable_def Let_def present_def)
qed

lemma split_cells_at:
  assumes spl: "splittable ac" and lohi: "lo = ac_split ac" "hi = lo + 2 ^ ac_level ac * ac_init_ncells ac"
    and j: "j \<le> hi"
  shows "cell_at ((put_cell lo c (put_cell hi e ac))\<lparr>ac_split := v\<rparr>) j
    = (if j = lo then Inr c else if j = hi then Inr e else cell_at ac j)"
proof -
  have p: "present ac hi" "present ac lo" "present ac j"
    using splittable_present [OF spl] lohi j by simp_all
  have "cell_at ((put_cell lo c (put_cell hi e ac))\<lparr>ac_split := v\<rparr>) j = cell_at (put_cell lo c (put_cell hi e ac)) j"
    by (simp add: cell_at_def get_cell_def cong: if_cong option.case_cong)
  then show ?thesis
    using cell_at_put(1) [OF cell_at_put(2) [OF p(1,2)] cell_at_put(2) [OF p(1,3)]] cell_at_put(1) [OF p(1,3)]
    by simp
qed

lemma put_cell_array:
  assumes "a < length (ac_table ac)" "ac_table ac ! a = Some xs" "length xs = n"
  shows "\<exists>ys. ac_table (put_cell i hc ac) ! a = Some ys \<and> length ys = n"
  using assms by (cases "a = i div ac_init_ncells ac") (simp_all add: put_cell_def Let_def split: option.split)

lemma split_table_wf:
  assumes "splittable ac" "sized (ac\<lparr>ac_split := Suc lo\<rparr>)"
  shows "table_wf ((put_cell lo c (put_cell hi e ac))\<lparr>ac_split := Suc lo\<rparr>)"
proof -
  have "\<exists>ys. ac_table (put_cell lo c (put_cell hi e ac)) ! a = Some ys \<and> length ys = ac_init_ncells ac"
    if lt: "a < 2 * 2 ^ ac_level ac" for a
  proof -
    have all: "\<forall>a < 2 * 2 ^ ac_level ac. \<exists>cells. ac_table ac ! a = Some cells \<and> length cells = ac_init_ncells ac"
      and len: "2 * 2 ^ ac_level ac \<le> length (ac_table ac)"
      using assms(1) unfolding splittable_def Let_def by blast+
    then obtain xs where "ac_table ac ! a = Some xs" "length xs = ac_init_ncells ac" "a < length (ac_table ac)"
      using lt less_le_trans [OF lt len] by blast
    from put_cell_array [OF this(3,1,2), of hi e] show ?thesis
      using put_cell_array [of a "put_cell hi e ac" _ _ lo c] \<open>a < length (ac_table ac)\<close> by auto
  qed
  moreover have "2 * 2 ^ ac_level ac \<le> length (ac_table ac)"
    using assms(1) unfolding splittable_def Let_def by blast
  moreover have "arrays ((put_cell lo c (put_cell hi e ac))\<lparr>ac_split := Suc lo\<rparr>) = 2 * 2 ^ ac_level ac"
    by (simp add: arrays_def)
  moreover have "sized ((put_cell lo c (put_cell hi e ac))\<lparr>ac_split := Suc lo\<rparr>)"
    using assms(2) by (simp add: sized_def)
  ultimately show ?thesis by (simp add: table_wf_def)
qed

text \<open>The table after the two cells have been stored and \<^verbatim>\<open>split\<close> has moved on.\<close>

lemma hash_of_split:
  assumes "hashable l" "sized ac" "locate ac l = ac_split ac"
  shows "hash ac l = int (ac_split ac)"
proof -
  have "ac_split ac < 2 ^ ac_level ac * ac_init_ncells ac" using assms(2) by (simp add: sized_def)
  then have "int (ac_split ac) < int (2 ^ ac_level ac * ac_init_ncells ac)" by (simp only: of_nat_less_iff)
  then show ?thesis
    using hash_range [OF assms(1,2)] locate_range(2) [OF assms(1,2)] assms(3)
    by (auto simp: half_def mult.commute split: if_splits)
qed

lemma split_table:
  assumes spl: "splittable ac" and lohi: "lo = ac_split ac" "hi = lo + 2 ^ ac_level ac * ac_init_ncells ac"
    and ac': "ac' = (put_cell lo c (put_cell hi e ac))\<lparr>ac_split := Suc lo\<rparr>"
    and wf: "cell_wf (hc_buf c)" "cell_wf (hc_buf e)" "unique_locs (hc_buf c)" "unique_locs (hc_buf e)"
    and locs: "cell_locs (cells ac lo) = cell_locs (hc_buf c) \<union> cell_locs (hc_buf e)"
    and stay: "\<And>l. l \<in> cell_locs (hc_buf c) \<Longrightarrow> hash1 ac l \<noteq> int hi"
    and move: "\<And>l. l \<in> cell_locs (hc_buf e) \<Longrightarrow> hash1 ac l = int hi"
  shows "placed ac'" "cache_locs ac' = cache_locs ac"
proof -
  let ?s = "ac\<lparr>ac_split := Suc lo\<rparr>"
  have pl: "placed ac" and sz: "sized ac" and num: "get_num_cells ac = hi" "get_num_cells ac' = Suc hi"
    and lt: "lo < hi" "Suc lo < 2 ^ ac_level ac * ac_init_ncells ac"
    using spl lohi by (simp_all add: splittable_def placed_def table_wf_def Let_def get_num_cells_def ac' sized_def)
  have sz': "sized ?s" using sz lt(2) by (simp add: sized_def)
  have wf': "table_wf ac'" using spl sz' split_table_wf [of ac lo c hi e] by (simp add: ac' splittable_def)
  have cells': "cells ac' j = (if j = lo then hc_buf c else if j = hi then hc_buf e else cells ac j)"
    if "j \<le> hi" for j using split_cells_at [OF spl lohi that] by (simp add: ac' cells_def)
  have addr: "locate ac' l = (if locate ac l = lo then nat (hash1 ac l) else locate ac l)" if "hashable l" for l
  proof -
    have "locate ac' l = locate ?s l"
      by (simp add: ac' locate_def hash_def hash1_def hash_at_def)
    then show ?thesis using locate_split [OF that sz] sz' lohi(1) by simp
  qed
  have old: "hashable l \<and> locate ac l = j" if "l \<in> cell_locs (cells ac j)" "j < hi" for l j
    using pl that num by (auto simp: placed_def)
  have two: "nat (hash1 ac l) = lo \<or> hash1 ac l = int hi" if "hashable l" "locate ac l = lo" for l
    using hash_range(3) [OF that(1) sz] hash_of_split [OF that(1) sz] that(2) lohi by (auto simp: half_def mult.commute)
  have at: "hashable l \<and> locate ac' l = lo" if "l \<in> cell_locs (hc_buf c)" for l
    using that old [of l lo] two [of l] stay [of l] addr [of l] lt locs by auto
  have at2: "hashable l \<and> locate ac' l = hi" if "l \<in> cell_locs (hc_buf e)" for l
    using that old [of l lo] move [of l] addr [of l] lt locs by auto
  have "cell_wf (cells ac' j) \<and> unique_locs (cells ac' j) \<and> (\<forall>l \<in> cell_locs (cells ac' j). hashable l \<and> locate ac' l = j)"
    if "j < get_num_cells ac'" for j
  proof (cases "j = lo \<or> j = hi")
    case True
    then show ?thesis using wf at at2 lt by (auto simp: cells')
  next
    case False
    then have j: "j < hi" "cells ac' j = cells ac j" using that num cells' [of j] by auto
    then show ?thesis using pl num(1) addr old [OF _ j(1)] False by (simp add: placed_def)
  qed
  then show "placed ac'" using wf' by (simp add: placed_def)
  have "cache_locs ac' = (\<Union>j < hi. cell_locs (cells ac' j)) \<union> cell_locs (hc_buf e)"
    using lt by (simp add: cache_locs_def num lessThan_Suc cells' Un_commute)
  also have "\<dots> = cache_locs ac"
  proof -
    have un: "(\<Union>j < hi. f j) = f lo \<union> (\<Union>j \<in> {..< hi} - {lo}. f j)" for f :: "nat \<Rightarrow> data_loc_t set"
      using lt(1) by auto
    have "(\<Union>j \<in> {..< hi} - {lo}. cell_locs (cells ac' j)) = (\<Union>j \<in> {..< hi} - {lo}. cell_locs (cells ac j))"
      by (intro SUP_cong) (auto simp: cells')
    then show ?thesis
      unfolding cache_locs_def num un using lt(1) locs by (auto simp: cells')
  qed
  finally show "cache_locs ac' = cache_locs ac" .
qed

lemma split_cell_placed:
  assumes spl: "splittable ac" and m: "ee_min env \<le> CELL_SIZE"
    and ok: "split_cell env pages ac = Inr (False, pages', ac')"
  shows "placed ac'" "cache_locs ac' = cache_locs ac"
proof -
  define N lo hi where "N = 2 ^ ac_level ac * ac_init_ncells ac" and "lo = ac_split ac" and "hi = lo + N"
  have pl: "placed ac" and wf: "table_wf ac" and sz: "sized ac"
    using spl by (simp_all add: splittable_def placed_def table_wf_def)
  have lt: "Suc lo < N" and num: "get_num_cells ac = hi"
    using spl by (simp_all add: splittable_def Let_def N_def lo_def hi_def get_num_cells_def)
  from ok obtain c0 e0 c1 e1 c2 e2 where s: "cell_at ac lo = Inr c0" "cell_at ac hi = Inr e0"
    "rehash (hash1 ac) (ee_min env) c0 e0 = Inr (c1, e1)"
    and c2: "c2 = c1 \<or> (\<exists>ps n k. add_pages_to_min (ee_junk env) ps n (ac_node_id ac) c1 = Inr (k, c2))"
    and e2: "e2 = e1 \<or> (\<exists>ps n k. add_pages_to_min (ee_junk env) ps n (ac_node_id ac) e1 = Inr (k, e2))"
    and ac': "ac' = (put_cell lo c2 (put_cell hi e2 ac))\<lparr>ac_split := lo + 1\<rparr>"
    unfolding lo_def hi_def N_def by (rule split_cellD)
  have e: "hc_hash c0 = int lo" "hc_hash e0 = int hi" "cell_wf (hc_buf e0)" "pc_num_pages (hc_buf e0) = 0"
    "\<forall>p \<in> set (cell_pages (hc_buf c0)). pg_refcnt p = 0"
    using spl s(1,2) by (simp_all add: splittable_def Let_def lo_def hi_def N_def)
  have lohi: "lo < hi" using lt by (simp add: hi_def)
  have c0: "cells ac lo = hc_buf c0" using s(1) by (simp add: cells_def)
  have wf0: "cell_wf (hc_buf c0)" "unique_locs (hc_buf c0)"
    "\<And>l. l \<in> cell_locs (hc_buf c0) \<Longrightarrow> hashable l \<and> locate ac l = lo"
    using pl num lohi c0 unfolding placed_def by (auto dest!: spec [of _ lo])
  have ne: "hc_hash c0 \<noteq> hc_hash e0" using e(1,2) lohi by simp
  note r = rehash_locs [OF wf0(1) e(3,4) m e(5) ne s(3)]
  note c = topped_up_locs [OF r(1) c2] and x = topped_up_locs [OF r(2) e2]
  note sh = shared_out [of "hc_buf c2" "hc_buf e2" "hc_buf c0", OF _ wf0(2), unfolded c(3) x(3)]
  have sh': "unique_locs (hc_buf c2)" "unique_locs (hc_buf e2)"
    "cell_locs (hc_buf c0) = cell_locs (hc_buf c2) \<union> cell_locs (hc_buf e2)"
    using sh r(3) c(2) x(2) unfolding c(3) x(3) by simp_all
  show "placed ac'" "cache_locs ac' = cache_locs ac"
    using split_table [OF spl lo_def, of hi ac' c2 e2] sh' c x r(4,5) e(2) c0 ac' by (simp_all add: hi_def N_def)
qed

end
