(* ===== verification/Assoc_Props.thy ===== *)
theory Assoc_Props
  imports Assoc_Laws Cell_Props
begin

text \<open>The properties of the table of page sets.\<close>

section \<open>Examples\<close>

text \<open>A table of one cell with two fresh pages.\<close>

definition tiny_cache :: "(apr_policy, apr_global) acache" where
  "tiny_cache = \<lparr>ac_table = [Some [(new_hash_cell (APR_init 2))\<lparr>hc_buf := fresh_cell\<rparr>]],
     ac_expand_cell_idx = 0, ac_npages = 2, ac_offset_factor = 1, ac_flags = 0, ac_init_ncells = 1,
     ac_node_id = 0, ac_expandable = True, ac_height = 2, ac_level = 0, ac_split = 0, ac_glob = fresh_glob\<rparr>"

text \<open>A table of two empty cells whose two partners exist, about to be split.\<close>

definition empty_cells :: "int \<Rightarrow> apr_policy hash_cell list" where
  "empty_cells i = [(new_hash_cell (APR_init 2))\<lparr>hc_hash := i\<rparr>, (new_hash_cell (APR_init 2))\<lparr>hc_hash := i + 1\<rparr>]"

definition split_cache :: "(apr_policy, apr_global) acache" where
  "split_cache = tiny_cache\<lparr>ac_table := [Some (empty_cells 0), Some (empty_cells 2)], ac_init_ncells := 2\<rparr>"

lemma loc1_hashable: "hashable loc1"
  by (simp add: hashable_def page_aligned_loc_def)

lemma tiny_wf: "table_wf tiny_cache" "get_num_cells tiny_cache = 1"
  by (simp_all add: table_wf_def sized_def arrays_def tiny_cache_def get_num_cells_def)

lemma tiny_cell:
  "cell_at tiny_cache 0 = Inr ((new_hash_cell (APR_init 2))\<lparr>hc_buf := fresh_cell\<rparr>)"
  "cells tiny_cache 0 = fresh_cell" "locate tiny_cache loc1 = 0"
proof -
  show "cell_at tiny_cache 0 = Inr ((new_hash_cell (APR_init 2))\<lparr>hc_buf := fresh_cell\<rparr>)"
    by (simp add: cell_at_def get_cell_def tiny_cache_def)
  then show "cells tiny_cache 0 = fresh_cell" by (simp add: cells_def)
  show "locate tiny_cache loc1 = 0"
    using locate_range(1) [OF loc1_hashable, of tiny_cache] tiny_wf by (simp add: table_wf_def)
qed

lemma tiny_placed: "placed tiny_cache" "cache_locs tiny_cache = {}"
  using tiny_wf tiny_cell(2) fresh_cell_wf(1) fresh_unique
  by (simp_all add: placed_def cache_locs_def)

lemma split_cache_cells:
  "cell_at split_cache 0 = Inr (empty_cells 0 ! 0)" "cell_at split_cache 2 = Inr (empty_cells 2 ! 0)"
  "cell_at split_cache 1 = Inr (empty_cells 0 ! 1)" "cell_at split_cache (Suc 0) = Inr (empty_cells 0 ! 1)"
  "cell_at split_cache (Suc (Suc 0)) = Inr (empty_cells 2 ! 0)"
  by (simp_all add: cell_at_def get_cell_def split_cache_def tiny_cache_def empty_cells_def)

lemma empty_cell_locs: "cell_locs empty_cell = {}" "unique_locs empty_cell"
  using empty_cell_simps(1) by (simp_all add: cell_locs_pages unique_locs_count loc_count_def)

lemma empty_cells_buf: "hc_buf (empty_cells i ! 0) = empty_cell" "hc_buf (empty_cells i ! Suc 0) = empty_cell"
  by (simp_all add: empty_cells_def new_hash_cell_def)

lemma split_cache_fields:
  "ac_init_ncells split_cache = 2" "ac_level split_cache = 0" "ac_split split_cache = 0"
  "ac_table split_cache = [Some (empty_cells 0), Some (empty_cells 2)]" "ac_offset_factor split_cache = 1"
  by (simp_all add: split_cache_def tiny_cache_def)

lemma split_cache_splittable: "splittable split_cache"
proof -
  have "table_wf split_cache" "get_num_cells split_cache = 2"
    by (simp_all add: table_wf_def sized_def arrays_def get_num_cells_def split_cache_fields empty_cells_def)
  moreover have "cells split_cache i = empty_cell" if "i < 2" for i
    using that split_cache_cells empty_cells_buf by (cases i) (auto simp: cells_def less_Suc_eq)
  ultimately have "placed split_cache"
    using empty_cell_wf empty_cell_locs by (simp add: placed_def)
  moreover have "\<exists>cells. ac_table split_cache ! a = Some cells \<and> length cells = 2" if "a < 2" for a
    using that by (cases a) (auto simp: split_cache_fields empty_cells_def less_Suc_eq)
  ultimately show ?thesis
    using empty_cell_wf
    by (simp add: splittable_def Let_def split_cache_fields split_cache_cells empty_cells_buf empty_cell_simps)
      (simp add: empty_cells_def new_hash_cell_def)
qed

lemma add_nothing:
  assumes "hc_buf hc = empty_cell"
  shows "\<exists>c. add_pages_to_min 0 [] 0 n hc = Inr (0, c)"
proof -
  obtain b where "add_pages 0 [] 0 n empty_cell = Inr b"
    using inject_pages_ok [OF empty_cell_wf, of "[]"] add_pages_inject [OF empty_cell_wf, of 0 "[]"]
    by (auto simp: empty_cell_simps)
  then show ?thesis using assms by (simp add: add_pages_to_min_def hc_add_pages_def)
qed

lemma split_cache_runs:
  "\<exists>ac'. split_cell \<lparr>ee_min = 0, ee_pols = [], ee_junk = 0\<rparr> [] split_cache = Inr (False, [], ac')"
proof -
  have e: "rehash h 0 c e = Inr (c, e)"
    if "hc_buf c = empty_cell" "hc_buf e = empty_cell" for h and c e :: "apr_policy hash_cell"
    using that by (cases c; cases e) (simp add: rehash_def refill_def empty_cell_simps)
  note b = empty_cells_buf [unfolded One_nat_def [symmetric]]
  obtain c d where "add_pages_to_min 0 [] 0 (ac_node_id split_cache) (empty_cells 0 ! 0) = Inr (0, c)"
    "add_pages_to_min 0 [] 0 (ac_node_id split_cache) (empty_cells 2 ! 0) = Inr (0, d)"
    using add_nothing [OF b(1)] by metis
  then show ?thesis
    by (simp add: split_cell_def Let_def split_cache_fields split_cache_cells e [OF b(1) b(1)]
        hc_get_num_pages_def b empty_cell_simps)
qed

section \<open>Lookup in the table\<close>

text \<open>
  C31. Linear hashing always finds a cell: in a well-formed table every page location is sent to
  one cell that exists, the one with its hash at the current level, or at the next level when that
  cell has been split already; the hash at the next level differs from the one at the current
  level by nothing or by half of the doubled table.
\<close>

theorem linear_hashing_finds_cell:
  assumes "table_wf ac" "hashable l"
  shows "\<exists>i hc. get_cell_offset ac l = Inr i \<and> i < get_num_cells ac \<and> cell_at ac i = Inr hc
    \<and> int i = (if hash ac l < int (ac_split ac) then hash1 ac l else hash ac l)
    \<and> (hash1 ac l = hash ac l \<or> hash1 ac l = hash ac l + int (2 ^ ac_level ac * ac_init_ncells ac))"
proof -
  have sz: "sized ac" using assms(1) by (simp add: table_wf_def)
  note i = locate_range [OF assms(2) sz]
  obtain hc where "cell_at ac (locate ac l) = Inr hc" using cell_at_cells [OF assms(1) i(1)] .
  then show ?thesis
    using i get_cell_offset_ok [OF assms] hash_range(3) [OF assms(2) sz] by (auto simp: half_def mult.commute)
qed

theorem linear_hashing_finds_cell_witness: "\<exists>hc. get_cell_offset tiny_cache loc1 = Inr 0 \<and> cell_at tiny_cache 0 = Inr hc"
  using linear_hashing_finds_cell [OF tiny_wf(1) loc1_hashable] tiny_wf(2) by auto

text \<open>
  C8. The page cache with the adaptive policy is one map from locations to pages. A lookup that
  returns keeps every page in the cell its location hashes to and every location cached at most
  once. It returns the page of the location asked for; if the location was cached nothing is
  evicted and the cached locations stay the same, otherwise it takes the place of the location
  reported in \<^verbatim>\<open>old_id\<close>, or nothing happens when there is no page to evict.
\<close>

theorem cache_search_refines_map:
  assumes "placed ac" "hashable l"
    "\<forall>i hc. i < get_num_cells ac \<longrightarrow> cell_at ac i = Inr hc \<longrightarrow> apr_inv (hc_policy hc, ac_glob ac) (hc_buf hc)"
    "ac_search (APR_evict_page sent) access_page th info l old_id ac = Inr (r, old, ac')"
  shows "placed ac'
    \<and> (\<forall>i hc. i < get_num_cells ac' \<longrightarrow> cell_at ac' i = Inr hc \<longrightarrow> apr_inv (hc_policy hc, ac_glob ac') (hc_buf hc))
    \<and> (\<forall>i k. r = Some (i, k) \<longrightarrow> get_cell_offset ac l = Inr i \<and> holds (cells ac' i) l k)
    \<and> (if l \<in> cache_locs ac then r \<noteq> None \<and> old = old_id \<and> cache_locs ac' = cache_locs ac
       else if r = None then old = old_id \<and> cache_locs ac' = cache_locs ac
       else cache_locs ac' = insert l (cache_locs ac - {old}))"
proof -
  have inv: "apr_table.cells_inv ac" using assms(3) by (simp add: apr_table.cells_inv_def)
  have acc: "\<And>st c k st'. apr_inv st c \<Longrightarrow> access_page st c k = Inr st' \<Longrightarrow> apr_inv st' c"
    by (simp add: access_page_def)
  have at: "get_cell_offset ac l = Inr (locate ac l)"
    using get_cell_offset_ok [OF _ assms(2), of ac] assms(1) unfolding placed_def by blast
  show ?thesis
    using apr_table.ac_search_correct [OF assms(1) inv assms(2) acc assms(4)] at
    unfolding apr_table.cells_inv_def by auto
qed

theorem cache_search_refines_map_witness:
  "\<exists>k old ac'. ac_search (APR_evict_page None) access_page 9 [\<lparr>pi_likelihood = 0, pi_boundary = False\<rparr>,
       \<lparr>pi_likelihood = 0, pi_boundary = False\<rparr>] loc1 loc1 tiny_cache = Inr (Some (0, k), old, ac')
     \<and> cache_locs ac' = {loc1} \<and> placed ac'"
proof -
  let ?info = "[\<lparr>pi_likelihood = 0, pi_boundary = False\<rparr>, \<lparr>pi_likelihood = 0, pi_boundary = False\<rparr>]"
  obtain k old hc' where s: "search (APR_evict_page None) access_page 9 ?info loc1 loc1 fresh_hc = Inr (Some k, old, hc')"
    using fresh_search by auto
  have "lend fresh_glob ((new_hash_cell (APR_init 2))\<lparr>hc_buf := fresh_cell\<rparr>) = fresh_hc"
    by (simp add: lend_def fresh_hc_def new_hash_cell_def fresh_state_def)
  moreover have "ac_glob tiny_cache = fresh_glob" by (simp add: tiny_cache_def)
  ultimately obtain ac' where run: "ac_search (APR_evict_page None) access_page 9 ?info loc1 loc1 tiny_cache
      = Inr (Some (0, k), old, ac')"
    using s tiny_cell get_cell_offset_ok [OF tiny_wf(1) loc1_hashable] by (simp add: ac_search_def)
  have "\<forall>i hc. i < get_num_cells tiny_cache \<longrightarrow> cell_at tiny_cache i = Inr hc \<longrightarrow>
      apr_inv (hc_policy hc, ac_glob tiny_cache) (hc_buf hc)"
    using fresh_state_inv tiny_wf(2) tiny_cell(1) \<open>ac_glob tiny_cache = fresh_glob\<close>
    by (auto simp: fresh_state_def new_hash_cell_def)
  from cache_search_refines_map [OF tiny_placed(1) loc1_hashable this run] run show ?thesis
    by (simp add: tiny_placed(2))
qed

section \<open>Resizing the table\<close>



text \<open>
  Only one thread resizes the table: with \<^verbatim>\<open>TABLE_EXPANDING\<close> set, \<^verbatim>\<open>expand\<close> and \<^verbatim>\<open>shrink\<close> refuse and
  change nothing; otherwise, when they return, the flag is clear again.
\<close>

lemma expanding_flag:
  "fst (atomic_set_flag TABLE_EXPANDING fl) = atomic_test_flag TABLE_EXPANDING fl"
  "atomic_test_flag TABLE_EXPANDING fl \<Longrightarrow> snd (atomic_set_flag TABLE_EXPANDING fl) = fl"
  "\<not> atomic_test_flag TABLE_EXPANDING (snd (atomic_clear_flag TABLE_EXPANDING fl))"
  by (simp_all add: atomic_set_flag_def atomic_test_flag_def atomic_clear_flag_def and_one_eq or_one_eq
      odd_iff_mod_2_eq_one even_and_iff flip: even_iff_mod_2_eq_zero)

theorem resizing_is_exclusive:
  "if atomic_test_flag TABLE_EXPANDING (ac_flags ac)
   then expand env n free ac = Inr (0, [], ac) \<and> shrink evict m n ac = Inr (False, [], ac)
   else (case expand env n free ac of Inl e \<Rightarrow> True
         | Inr (r, rest, ac') \<Rightarrow> \<not> atomic_test_flag TABLE_EXPANDING (ac_flags ac'))
     \<and> (case shrink evict m n ac of Inl e \<Rightarrow> True
         | Inr (ok, taken, ac') \<Rightarrow> ok \<and> \<not> atomic_test_flag TABLE_EXPANDING (ac_flags ac'))"
proof (cases "atomic_test_flag TABLE_EXPANDING (ac_flags ac)")
  case True
  then show ?thesis
    using expanding_flag(1,2) [of "ac_flags ac"] by (simp add: expand_def shrink_def Let_def split_beta del: TABLE_EXPANDING_def)
next
  case False
  then have f: "\<not> fst (atomic_set_flag TABLE_EXPANDING (ac_flags ac))" using expanding_flag(1) by simp
  have "\<not> atomic_test_flag TABLE_EXPANDING (ac_flags ac')" if "expand env n free ac = Inr (r, rest, ac')" for r rest ac'
    using that f expanding_flag(3)
    by (auto simp: expand_def Let_def split_beta bind_res_Inr_iff simp del: TABLE_EXPANDING_def
        split: option.splits if_splits)
  moreover have "ok \<and> \<not> atomic_test_flag TABLE_EXPANDING (ac_flags ac')"
    if "shrink evict m n ac = Inr (ok, taken, ac')" for ok taken ac'
    using that f expanding_flag(3)
    by (auto simp: shrink_def Let_def split_beta bind_res_Inr_iff simp del: TABLE_EXPANDING_def)
  ultimately show ?thesis using False by (auto split: sum.split prod.split)
qed

lemma merge_cells_frame:
  assumes "merge_cells num_half n ac = Inr ac'"
  shows "ac_level ac' = ac_level ac \<and> ac_init_ncells ac' = ac_init_ncells ac
    \<and> length (ac_table ac') = length (ac_table ac) \<and> (n = ac_split ac \<longrightarrow> ac_split ac' = 0)"
  using assms
proof (induction num_half n ac rule: merge_cells.induct)
  case (2 num_half n ac)
  obtain hi lo lo' hi' where "cell_at ac (Suc n + num_half) = Inr hi" "cell_at ac (Suc n) = Inr lo"
    "merge lo hi = Inr (lo', hi')"
    "merge_cells num_half n ((put_cell (Suc n) lo' (put_cell (Suc n + num_half) hi' ac))\<lparr>ac_split := n\<rparr>) = Inr ac'"
    using "2.prems" by (auto simp: bind_res_Inr_iff)
  from "2.IH" [OF this(1,2,3) refl this(4)] show ?case by simp
qed simp

text \<open>
  C39. Halving the table destroys cells that are still in use. \<^verbatim>\<open>shrink\<close> lowers \<^verbatim>\<open>level\<close> before it
  computes which arrays to destroy, so after the halving the last array of the smaller table, whose
  cells linear hashing still addresses, is gone and \<^verbatim>\<open>get_cell\<close> returns \<^verbatim>\<open>NULL\<close> for them.
\<close>

theorem shrink_destroys_live_array:
  assumes "0 < ac_level ac" "ac_split ac = 0" "0 < ac_init_ncells ac" "halve_table ac = Inr ac'"
  shows "\<exists>i < get_num_cells ac'. get_cell ac' i = Inr None"
proof -
  let ?h = "2 ^ ac_level ac * ac_init_ncells ac div 2"
  let ?ac1 = "ac\<lparr>ac_split := ?h - 1, ac_level := ac_level ac - 1\<rparr>"
  obtain ac2 where m: "merge_cells ?h (?h - 1) ?ac1 = Inr ac2"
    and len: "2 ^ ac_level ac2 \<le> length (ac_table ac2)"
    and ac': "ac' = ac2\<lparr>ac_table := take (2 ^ ac_level ac2 div 2) (ac_table ac2)
        @ replicate (2 ^ ac_level ac2 - 2 ^ ac_level ac2 div 2) None @ drop (2 ^ ac_level ac2) (ac_table ac2)\<rparr>"
    using assms by (auto simp: halve_table_def Let_def bind_res_Inr_iff split: if_splits)
  note fr = merge_cells_frame [OF m, simplified]
  define k :: nat where "k = 2 ^ ac_level ac2"
  have k: "0 < k" "k div 2 < k" "k - Suc (k div 2) < k - k div 2" by (simp_all add: k_def diff_less_mono2)
  have "ac_table ac' ! (k - 1) = None" "k \<le> length (ac_table ac')"
    using k len nth_append_right [of "take (k div 2) (ac_table ac2)" "k - 1"]
      nth_append_left [of "k - 1 - k div 2" "replicate (k - k div 2) None"]
    by (simp_all add: ac' k_def [symmetric])
  moreover have "ac_init_ncells ac' = ac_init_ncells ac" using fr by (simp add: ac')
  ultimately have "get_cell ac' ((k - 1) * ac_init_ncells ac) = Inr None"
    using assms(3) k(1) by (simp add: get_cell_def Suc_diff_le Suc_le_eq assert_then_def)
  moreover have "(k - 1) * ac_init_ncells ac < get_num_cells ac'"
  proof -
    have "get_num_cells ac' = k * ac_init_ncells ac" using fr by (simp add: get_num_cells_def ac' k_def)
    then show ?thesis using assms(3) k(1) by simp
  qed
  ultimately show ?thesis by blast
qed

theorem shrink_destroys_live_array_witness:
  "\<exists>ac'. halve_table (split_cache\<lparr>ac_level := 1, ac_init_ncells := 1\<rparr>) = Inr ac'
     \<and> (\<exists>i < get_num_cells ac'. get_cell ac' i = Inr None)"
proof -
  let ?ac = "split_cache\<lparr>ac_level := 1, ac_init_ncells := 1\<rparr>"
  obtain ac' where "halve_table ?ac = Inr ac'"
    by (simp add: halve_table_def split_cache_def tiny_cache_def)
  with shrink_destroys_live_array [OF _ _ _ this] show ?thesis by (simp add: split_cache_fields)
qed

end
