(* ===== verification/Fifo_Queue.thy ===== *)
theory Fifo_Queue
  imports Prelude
begin

text \<open>
  The queues of \<^verbatim>\<open>libsafs/container.h\<close>: the ring buffer \<^verbatim>\<open>fifo_queue\<close>, and its locked
  version \<^verbatim>\<open>thread_safe_FIFO_queue\<close>; \<^verbatim>\<open>blocking_FIFO_queue\<close> follows in \<open>Blocking_Queue\<close>.

  The positions \<^verbatim>\<open>start\<close> and \<^verbatim>\<open>end\<close> only grow (64-bit counters, numbers here); a position is turned
  into a slot by masking. A queue made around a caller's array (\<open>fq_wrap\<close>) has no memory of its own:
  \<^verbatim>\<open>get_size\<close> asserts on it, so it can only be read. Reading or writing outside the buffer is
  \<open>Undefined_behaviour\<close>. What a fresh array holds is the argument \<open>dflt\<close>. A call of a locked queue is
  one step under its lock.
\<close>

section \<open>The ring buffer\<close>

definition INT_MAX :: nat where "INT_MAX = 2147483647"

text \<open>\<^verbatim>\<open>(int) ceil(log2(n))\<close> for a positive \<open>n\<close>.\<close>

fun ceil_log2 :: "nat \<Rightarrow> nat" where
  "ceil_log2 n = (if n \<le> 1 then 0 else Suc (ceil_log2 ((n + 1) div 2)))"

declare ceil_log2.simps [simp del]

record 'a fifo_queue =
  fq_size_mask :: nat
  fq_buf :: "'a list"
  fq_allocated :: bool
  fq_start :: nat
  fq_end :: nat
  fq_resizable :: bool
  fq_node_id :: int

definition loc_in_queue :: "'a fifo_queue \<Rightarrow> nat \<Rightarrow> nat" where
  "loc_in_queue q i = i AND fq_size_mask q"

definition fq_wrap :: "'a list \<Rightarrow> nat \<Rightarrow> 'a fifo_queue" where
  "fq_wrap entries num = \<lparr>fq_size_mask = INT_MAX, fq_buf = entries, fq_allocated = False, fq_start = 0,
     fq_end = num, fq_resizable = False, fq_node_id = - 1\<rparr>"

definition fq_new :: "'a \<Rightarrow> int \<Rightarrow> nat \<Rightarrow> bool \<Rightarrow> 'a fifo_queue res" where
  "fq_new dflt node sz resizable =
     (if sz = 0 \<or> 31 \<le> ceil_log2 sz then Inl Undefined_behaviour
      else Inr \<lparr>fq_size_mask = 2 ^ ceil_log2 sz - 1, fq_buf = replicate (2 ^ ceil_log2 sz) dflt,
             fq_allocated = True, fq_start = 0, fq_end = 0, fq_resizable = resizable, fq_node_id = node\<rparr>)"

definition fq_get_size :: "'a fifo_queue \<Rightarrow> nat res" where
  "fq_get_size q = assert_then (fq_allocated q) (Inr (fq_size_mask q + 1))"

definition fq_get_num_entries :: "'a fifo_queue \<Rightarrow> int" where
  "fq_get_num_entries q = int32 (int (fq_end q) - int (fq_start q))"

definition fq_get_num_remaining :: "'a fifo_queue \<Rightarrow> int res" where
  "fq_get_num_remaining q = bind_res (fq_get_size q) (\<lambda>n. Inr (int n - fq_get_num_entries q))"

definition fq_is_empty :: "'a fifo_queue \<Rightarrow> bool" where
  "fq_is_empty q \<longleftrightarrow> fq_end q \<le> fq_start q"

definition fq_is_full :: "'a fifo_queue \<Rightarrow> bool res" where
  "fq_is_full q = bind_res (fq_get_size q) (\<lambda>n. Inr (int n \<le> int (fq_end q) - int (fq_start q)))"

definition fq_read :: "'a fifo_queue \<Rightarrow> nat \<Rightarrow> 'a res" where
  "fq_read q i =
     (if loc_in_queue q i < length (fq_buf q) then Inr (fq_buf q ! loc_in_queue q i)
      else Inl Undefined_behaviour)"

definition fq_write :: "nat \<Rightarrow> 'a list \<Rightarrow> 'a fifo_queue \<Rightarrow> 'a fifo_queue res" where
  "fq_write k xs q =
     (if k + length xs \<le> length (fq_buf q)
      then Inr (q\<lparr>fq_buf := take k (fq_buf q) @ xs @ drop (k + length xs) (fq_buf q)\<rparr>)
      else Inl Undefined_behaviour)"

definition fq_front :: "'a fifo_queue \<Rightarrow> 'a res" where
  "fq_front q = assert_then (\<not> fq_is_empty q) (fq_read q (fq_start q))"

definition fq_back :: "'a fifo_queue \<Rightarrow> 'a res" where
  "fq_back q = assert_then (\<not> fq_is_empty q) (fq_read q (fq_end q - 1))"

definition fq_pop_front :: "'a fifo_queue \<Rightarrow> ('a \<times> 'a fifo_queue) res" where
  "fq_pop_front q =
     assert_then (fq_start q < fq_end q)
       (bind_res (fq_read q (fq_start q)) (\<lambda>x. Inr (x, q\<lparr>fq_start := fq_start q + 1\<rparr>)))"

definition fq_push_back :: "'a \<Rightarrow> 'a fifo_queue \<Rightarrow> 'a fifo_queue res" where
  "fq_push_back v q =
     bind_res (fq_get_size q) (\<lambda>n.
     assert_then (int (fq_end q) - int (fq_start q) < int n)
       (bind_res (fq_write (loc_in_queue q (fq_end q)) [v] q) (\<lambda>q'.
         Inr (q'\<lparr>fq_end := fq_end q + 1\<rparr>))))"

fun fq_fetch :: "nat \<Rightarrow> 'a fifo_queue \<Rightarrow> ('a list \<times> 'a fifo_queue) res" where
  "fq_fetch 0 q = Inr ([], q)"
| "fq_fetch (Suc n) q =
     (if fq_is_empty q then Inr ([], q)
      else bind_res (fq_read q (fq_start q)) (\<lambda>x.
           bind_res (fq_fetch n (q\<lparr>fq_start := fq_start q + 1\<rparr>)) (\<lambda>(xs, q').
             Inr (x # xs, q'))))"

text \<open>Adding the entries of an array; the result is how many were added.\<close>

fun fq_add :: "'a list \<Rightarrow> 'a fifo_queue \<Rightarrow> (nat \<times> 'a fifo_queue) res" where
  "fq_add [] q = bind_res (fq_is_full q) (\<lambda>_. Inr (0, q))"
| "fq_add (x # xs) q =
     bind_res (fq_is_full q) (\<lambda>full.
       if full then Inr (0, q)
       else bind_res (fq_write (loc_in_queue q (fq_end q)) [x] q) (\<lambda>q1.
            bind_res (fq_add xs (q1\<lparr>fq_end := fq_end q + 1\<rparr>)) (\<lambda>(n, q').
              Inr (Suc n, q'))))"

text \<open>Adding the entries of another queue, in at most two runs: up to the end of the buffer and from its start.\<close>

definition fq_take_run :: "nat \<Rightarrow> int \<Rightarrow> 'a fifo_queue \<Rightarrow> 'a fifo_queue \<Rightarrow> (nat \<times> 'a fifo_queue \<times> 'a fifo_queue) res" where
  "fq_take_run k len q src =
     bind_res (fq_fetch (nat len) src) (\<lambda>(xs, src').
     bind_res (fq_write k xs q) (\<lambda>q'.
       Inr (length xs, q'\<lparr>fq_end := fq_end q + length xs\<rparr>, src')))"

definition fq_add_queue :: "'a fifo_queue \<Rightarrow> 'a fifo_queue \<Rightarrow> (nat \<times> 'a fifo_queue \<times> 'a fifo_queue) res" where
  "fq_add_queue src q =
     (let idx = loc_in_queue q (fq_end q) in
      bind_res (fq_get_size q) (\<lambda>sz.
      bind_res (fq_get_num_remaining q) (\<lambda>room.
      let len = min (int sz - int idx) room in
      bind_res (fq_take_run idx len q src) (\<lambda>(n, q1, src1).
      bind_res (fq_get_num_remaining q1) (\<lambda>room1.
        if int n < len \<or> room1 = 0 then Inr (n, q1, src1)
        else assert_then (loc_in_queue q1 (fq_end q1) = 0)
          (bind_res (fq_take_run 0 room1 q1 src1) (\<lambda>(m, q2, src2).
            Inr (n + m, q2, src2))))))))"

fun fq_copy :: "'a fifo_queue \<Rightarrow> nat \<Rightarrow> nat \<Rightarrow> 'a list res" where
  "fq_copy q i 0 = Inr []"
| "fq_copy q i (Suc n) =
     bind_res (fq_read q (fq_start q + i)) (\<lambda>x. bind_res (fq_copy q (Suc i) n) (\<lambda>xs. Inr (x # xs)))"

definition expand_queue :: "'a \<Rightarrow> nat \<Rightarrow> 'a fifo_queue \<Rightarrow> 'a fifo_queue res" where
  "expand_queue dflt new_size q =
     (if new_size = 0 \<or> 31 \<le> ceil_log2 new_size then Inl Undefined_behaviour
      else let n = 2 ^ ceil_log2 new_size; num = nat (fq_get_num_entries q) in
        bind_res (fq_get_size q) (\<lambda>sz.
        assert_then (fq_resizable q \<and> sz < n)
          (bind_res (fq_copy q 0 num) (\<lambda>xs.
            if n < num then Inl Undefined_behaviour
            else Inr (q\<lparr>fq_buf := xs @ replicate (n - num) dflt, fq_size_mask := n - 1,
                   fq_start := 0, fq_end := num\<rparr>)))))"

section \<open>The locked queue\<close>

record 'a ts_queue =
  ts_fifo :: "'a fifo_queue"
  ts_max_size :: nat

definition ts_new :: "'a \<Rightarrow> int \<Rightarrow> nat \<Rightarrow> 'a ts_queue res" where
  "ts_new dflt node sz =
     bind_res (fq_new dflt node sz False) (\<lambda>q. Inr \<lparr>ts_fifo = q, ts_max_size = sz\<rparr>)"

definition ts_new_growing :: "'a \<Rightarrow> int \<Rightarrow> nat \<Rightarrow> nat \<Rightarrow> 'a ts_queue res" where
  "ts_new_growing dflt node init_size max_size =
     bind_res (fq_new dflt node init_size (init_size < max_size)) (\<lambda>q.
       Inr \<lparr>ts_fifo = q, ts_max_size = max_size\<rparr>)"

definition ts_fetch :: "nat \<Rightarrow> 'a ts_queue \<Rightarrow> ('a list \<times> 'a ts_queue) res" where
  "ts_fetch n q = bind_res (fq_fetch n (ts_fifo q)) (\<lambda>(xs, f). Inr (xs, q\<lparr>ts_fifo := f\<rparr>))"

text \<open>The loop that doubles the size until it is enough.\<close>

function grow_size :: "nat \<Rightarrow> nat \<Rightarrow> nat \<Rightarrow> nat" where
  "grow_size required max_size n =
     (if n < required \<and> n < max_size \<and> 0 < n then grow_size required max_size (n * 2) else n)"
  by pat_completeness auto

termination grow_size
  by (relation "measure (\<lambda>(required, max_size, n). required - n)") auto

declare grow_size.simps [simp del]

definition ts_add :: "'a \<Rightarrow> 'a list \<Rightarrow> 'a ts_queue \<Rightarrow> (nat \<times> 'a ts_queue) res" where
  "ts_add dflt entries q =
     bind_res (fq_add entries (ts_fifo q)) (\<lambda>(n, f).
     bind_res (fq_get_size f) (\<lambda>sz.
       if n < length entries \<and> sz < ts_max_size q then
         bind_res (expand_queue dflt (grow_size (sz + length entries - n) (ts_max_size q) sz) f) (\<lambda>f1.
         bind_res (fq_add (drop n entries) f1) (\<lambda>(m, f2).
         assert_then (n + m = length entries) (Inr (n + m, q\<lparr>ts_fifo := f2\<rparr>))))
       else Inr (n, q\<lparr>ts_fifo := f\<rparr>)))"

text \<open>Adding a whole queue returns 0 whatever it added.\<close>

definition ts_add_queue :: "'a \<Rightarrow> 'a fifo_queue \<Rightarrow> 'a ts_queue \<Rightarrow> (nat \<times> 'a ts_queue \<times> 'a fifo_queue) res" where
  "ts_add_queue dflt src q =
     bind_res (fq_add_queue src (ts_fifo q)) (\<lambda>(n, f, src1).
     bind_res (fq_get_size f) (\<lambda>sz.
       if \<not> fq_is_empty src1 \<and> sz < ts_max_size q then
         bind_res (expand_queue dflt (grow_size (sz + nat (fq_get_num_entries src1)) (ts_max_size q) sz) f)
           (\<lambda>f1. bind_res (fq_add_queue src1 f1) (\<lambda>(m, f2, src2).
              assert_then (fq_is_empty src2) (Inr (0, q\<lparr>ts_fifo := f2\<rparr>, src2))))
       else Inr (0, q\<lparr>ts_fifo := f\<rparr>, src1)))"

definition ts_addByForce :: "'a \<Rightarrow> 'a list \<Rightarrow> 'a ts_queue \<Rightarrow> 'a ts_queue res" where
  "ts_addByForce dflt entries q =
     bind_res (ts_add dflt entries q) (\<lambda>(n, q'). assert_then (n = length entries) (Inr q'))"

definition ts_pop_front :: "'a ts_queue \<Rightarrow> ('a \<times> 'a ts_queue) res" where
  "ts_pop_front q =
     bind_res (ts_fetch 1 q) (\<lambda>(xs, q'). assert_then (length xs = 1) (Inr (hd xs, q')))"

text \<open>\<^verbatim>\<open>push_back\<close> tries again until the entry is in: with a full queue that cannot grow, only another thread ends the loop.\<close>

definition ts_push_back :: "'a \<Rightarrow> 'a \<Rightarrow> 'a ts_queue \<Rightarrow> 'a ts_queue res" where
  "ts_push_back dflt x q =
     bind_res (ts_add dflt [x] q) (\<lambda>(n, q'). if n = 0 then Inl Never_returns else Inr q')"

definition ts_get_num_entries :: "'a ts_queue \<Rightarrow> int" where
  "ts_get_num_entries q = fq_get_num_entries (ts_fifo q)"

definition ts_is_full :: "'a ts_queue \<Rightarrow> bool res" where
  "ts_is_full q = fq_is_full (ts_fifo q)"

definition ts_is_empty :: "'a ts_queue \<Rightarrow> bool" where
  "ts_is_empty q = fq_is_empty (ts_fifo q)"

end
