(* ===== verification/Fifo_Laws.thy ===== *)
theory Fifo_Laws
  imports Fifo_Queue
begin

text \<open>
  The ring buffer as a list (\<open>fq_list\<close>). \<open>fq_wf\<close> is the invariant of a queue with its own memory (its size is a
  power of two and it holds at most that many entries), \<open>fq_readable\<close> what fetching needs, which a
  queue around a caller's array has too. Every operation is a list operation on \<open>fq_list\<close> and none
  fails on such queues. The locale \<open>bounded_queue\<close> is what the clients of a queue rely on.
\<close>

section \<open>Powers of two\<close>

lemma ceil_log2_upper: "n \<le> 2 ^ ceil_log2 n"
proof (induction n rule: ceil_log2.induct)
  case (1 n)
  show ?case
  proof (cases "n \<le> 1")
    case True
    then show ?thesis by (simp add: ceil_log2.simps)
  next
    case False
    then have "(n + 1) div 2 \<le> 2 ^ ceil_log2 ((n + 1) div 2)" using 1 by simp
    then show ?thesis using False by (subst ceil_log2.simps) simp
  qed
qed

lemma ceil_log2_lower: "1 < n \<Longrightarrow> 2 ^ ceil_log2 n < 2 * n"
proof (induction n rule: ceil_log2.induct)
  case (1 n)
  show ?case
  proof (cases "(n + 1) div 2 \<le> 1")
    case True
    then have "n = 2" using "1.prems" by linarith
    then show ?thesis by (simp add: ceil_log2.simps)
  next
    case False
    then have "2 ^ ceil_log2 ((n + 1) div 2) < 2 * ((n + 1) div 2)" using 1 by simp
    moreover have "ceil_log2 ((n + 1) div 2) \<noteq> 0" using False by (subst ceil_log2.simps) simp
    then obtain e where "ceil_log2 ((n + 1) div 2) = Suc e" by (cases "ceil_log2 ((n + 1) div 2)") auto
    ultimately have "2 * 2 ^ e < n" "ceil_log2 n = Suc (Suc e)" using "1.prems" by (simp_all add: ceil_log2.simps [of n])
    then show ?thesis by simp
  qed
qed

lemma ceil_log2_small: "n \<le> 2 ^ k \<Longrightarrow> ceil_log2 n \<le> k"
proof (induction n arbitrary: k rule: ceil_log2.induct)
  case (1 n)
  show ?case
  proof (cases "n \<le> 1")
    case True
    then show ?thesis by (simp add: ceil_log2.simps)
  next
    case False
    then obtain j where "k = Suc j" using "1.prems" by (cases k) auto
    then show ?thesis using 1 False by (subst ceil_log2.simps) simp
  qed
qed

section \<open>The queue as a list\<close>

definition fq_list :: "'a fifo_queue \<Rightarrow> 'a list" where
  "fq_list q = map (\<lambda>i. fq_buf q ! loc_in_queue q i) [fq_start q..<fq_end q]"

definition fq_readable :: "'a fifo_queue \<Rightarrow> bool" where
  "fq_readable q \<longleftrightarrow> (\<forall>i. fq_start q \<le> i \<longrightarrow> i < fq_end q \<longrightarrow> loc_in_queue q i < length (fq_buf q))
     \<and> fq_start q \<le> fq_end q"

definition fq_wf :: "'a fifo_queue \<Rightarrow> bool" where
  "fq_wf q \<longleftrightarrow> fq_allocated q \<and> (\<exists>k < 31. fq_size_mask q = 2 ^ k - 1 \<and> length (fq_buf q) = 2 ^ k)
     \<and> fq_start q \<le> fq_end q \<and> fq_end q - fq_start q \<le> length (fq_buf q)"

abbreviation fq_cap :: "'a fifo_queue \<Rightarrow> nat" where
  "fq_cap q \<equiv> length (fq_buf q)"

lemma length_fq_list [simp]: "length (fq_list q) = fq_end q - fq_start q"
  by (simp add: fq_list_def)

lemma nth_fq_list: "i < length (fq_list q) \<Longrightarrow> fq_list q ! i = fq_buf q ! loc_in_queue q (fq_start q + i)"
  by (simp add: fq_list_def nth_upt)

lemma fq_wf_loc:
  assumes "fq_wf q"
  shows "loc_in_queue q i = i mod fq_cap q" "0 < fq_cap q" "fq_get_size q = Inr (fq_cap q)" "fq_cap q < 2 ^ 31"
proof -
  obtain k where k: "k < 31" "fq_size_mask q = 2 ^ k - 1" "fq_cap q = 2 ^ k" "fq_allocated q"
    using assms by (auto simp: fq_wf_def)
  have "loc_in_queue q i = i AND mask k" by (simp add: loc_in_queue_def k mask_eq_exp_minus_1)
  also have "\<dots> = i mod 2 ^ k" by (simp flip: take_bit_eq_mask add: take_bit_eq_mod)
  finally show "loc_in_queue q i = i mod fq_cap q" by (simp add: k)
  show "0 < fq_cap q" "fq_get_size q = Inr (fq_cap q)" by (simp_all add: k fq_get_size_def)
  have "(2::nat) ^ k < 2 ^ 31" using k(1) by (rule power_strict_increasing) simp
  then show "fq_cap q < 2 ^ 31" by (simp add: k)
qed

lemma fq_wf_readable: "fq_wf q \<Longrightarrow> fq_readable q"
  using fq_wf_loc(1,2) [of q] unfolding fq_readable_def by (simp add: fq_wf_def)

lemma fq_num_entries:
  assumes "fq_end q - fq_start q < 2 ^ 31" "fq_start q \<le> fq_end q"
  shows "fq_get_num_entries q = int (length (fq_list q))"
proof -
  define d where "d = fq_end q - fq_start q"
  have e: "fq_end q = fq_start q + d" using assms(2) by (simp add: d_def)
  have "d < 2147483648" using assms(1) by (simp add: d_def)
  then have "int32 (int d) = int d" by (intro int32_id) simp_all
  then show ?thesis by (simp add: fq_get_num_entries_def e)
qed

lemma fq_wf_counts:
  assumes "fq_wf q"
  shows "fq_get_num_entries q = int (length (fq_list q))"
    "fq_get_num_remaining q = Inr (int (fq_cap q) - int (length (fq_list q)))"
    "fq_is_full q = Inr (fq_cap q \<le> length (fq_list q))"
    "fq_is_empty q = (fq_list q = [])" "length (fq_list q) \<le> fq_cap q"
proof -
  have w: "fq_end q - fq_start q \<le> fq_cap q" "fq_start q \<le> fq_end q" using assms by (auto simp: fq_wf_def)
  show n: "fq_get_num_entries q = int (length (fq_list q))"
    using w fq_wf_loc(4) [OF assms] by (intro fq_num_entries) simp_all
  show "fq_get_num_remaining q = Inr (int (fq_cap q) - int (length (fq_list q)))"
    by (simp add: fq_get_num_remaining_def fq_wf_loc(3) [OF assms] n)
  show "fq_is_full q = Inr (fq_cap q \<le> length (fq_list q))"
    using w by (simp add: fq_is_full_def fq_wf_loc(3) [OF assms]) linarith
  show "fq_is_empty q = (fq_list q = [])" by (auto simp: fq_is_empty_def fq_list_def)
  show "length (fq_list q) \<le> fq_cap q" using w by simp
qed

lemma fq_new_ok:
  assumes "0 < n" "n \<le> 2 ^ 30"
  shows "\<exists>q. fq_new dflt node n r = Inr q \<and> fq_wf q \<and> fq_list q = [] \<and> n \<le> fq_cap q \<and> fq_resizable q = r
    \<and> fq_cap q = 2 ^ ceil_log2 n"
proof -
  have "ceil_log2 n \<le> 30" by (rule ceil_log2_small) (use assms in simp)
  then show ?thesis
    using assms ceil_log2_upper [of n] by (auto simp: fq_new_def fq_wf_def fq_list_def)
qed

section \<open>Fetching\<close>

lemma fq_list_Cons:
  assumes "fq_start q < fq_end q"
  shows "fq_list q = fq_buf q ! loc_in_queue q (fq_start q) # fq_list (q\<lparr>fq_start := fq_start q + 1\<rparr>)"
  using assms by (simp add: fq_list_def upt_conv_Cons loc_in_queue_def)

lemma fq_fetch_ok:
  assumes "fq_readable q"
  shows "fq_fetch n q = Inr (take n (fq_list q), q\<lparr>fq_start := fq_start q + min n (length (fq_list q))\<rparr>)"
  using assms
proof (induction n q rule: fq_fetch.induct)
  case (1 q)
  then show ?case by simp
next
  case (2 n q)
  show ?case
  proof (cases "fq_is_empty q")
    case True
    then show ?thesis by (simp add: fq_is_empty_def fq_list_def)
  next
    case False
    let ?q = "q\<lparr>fq_start := fq_start q + 1\<rparr>"
    have lt: "fq_start q < fq_end q" using False by (simp add: fq_is_empty_def)
    have rd: "fq_read q (fq_start q) = Inr (fq_buf q ! loc_in_queue q (fq_start q))"
      using "2.prems" lt by (simp add: fq_read_def fq_readable_def)
    have "fq_readable ?q" using "2.prems" lt by (auto simp: fq_readable_def loc_in_queue_def)
    from "2.IH" [OF False rd this] show ?thesis
      using False rd lt fq_list_Cons [OF lt] by (simp add: Suc_diff_Suc)
  qed
qed

lemma fq_list_drop:
  assumes "n \<le> length (fq_list q)"
  shows "fq_list (q\<lparr>fq_start := fq_start q + n\<rparr>) = drop n (fq_list q)"
  using assms by (simp add: fq_list_def loc_in_queue_def drop_map)

lemma fq_fetch_list:
  assumes "fq_readable q"
  shows "\<exists>q'. fq_fetch n q = Inr (take n (fq_list q), q') \<and> fq_list q' = drop n (fq_list q)
    \<and> fq_readable q' \<and> (fq_wf q \<longrightarrow> fq_wf q') \<and> fq_cap q' = fq_cap q \<and> fq_resizable q' = fq_resizable q
    \<and> fq_end q' = fq_end q"
proof -
  let ?m = "min n (length (fq_list q))"
  let ?q = "q\<lparr>fq_start := fq_start q + ?m\<rparr>"
  have "fq_list ?q = drop n (fq_list q)" using fq_list_drop [of ?m q] by (auto simp: min_def)
  moreover have "fq_readable ?q" using assms by (auto simp: fq_readable_def loc_in_queue_def)
  moreover have "fq_wf q \<longrightarrow> fq_wf ?q" by (auto simp: fq_wf_def)
  ultimately show ?thesis using fq_fetch_ok [OF assms, of n] by simp
qed

section \<open>Adding\<close>

text \<open>A position before \<open>e\<close> does not share a slot with the positions from \<open>e\<close> on, up to a full turn.\<close>

lemma ring_gap:
  fixes p e c n :: nat
  assumes "p < e" "e + n \<le> p + c" "0 < c" "e mod c + n \<le> c"
  shows "\<not> (e mod c \<le> p mod c \<and> p mod c < e mod c + n)"
proof
  assume a: "e mod c \<le> p mod c \<and> p mod c < e mod c + n"
  define d where "d = p mod c - e mod c"
  have "(e + d) mod c = (e mod c + d) mod c" by (simp add: mod_add_left_eq)
  also have "\<dots> = p mod c" using a assms(3) by (simp add: d_def)
  finally have "c dvd e + d - p" using assms(1) mod_eq_dvd_iff_nat [of p "e + d" c] by simp
  moreover have "0 < e + d - p" "e + d - p < c" using assms a by (simp_all add: d_def) linarith+
  ultimately show False using dvd_imp_le not_less by blast
qed

text \<open>Writing a run of entries that does not cross the end of the buffer.\<close>

lemma fq_write_run:
  assumes wf: "fq_wf q" and k: "k = loc_in_queue q (fq_end q)"
    and fits: "k + length xs \<le> fq_cap q" "length (fq_list q) + length xs \<le> fq_cap q"
  shows "\<exists>q'. fq_write k xs q = Inr q' \<and> fq_wf (q'\<lparr>fq_end := fq_end q + length xs\<rparr>)
    \<and> fq_list (q'\<lparr>fq_end := fq_end q + length xs\<rparr>) = fq_list q @ xs \<and> fq_cap q' = fq_cap q
    \<and> fq_resizable q' = fq_resizable q"
proof -
  define b c where "b = take k (fq_buf q) @ xs @ drop (k + length xs) (fq_buf q)" and "c = fq_cap q"
  let ?q = "q\<lparr>fq_buf := b, fq_end := fq_end q + length xs\<rparr>"
  have len: "length b = c" using fits(1) by (simp add: b_def c_def)
  have wf': "fq_wf ?q" using wf fits(2) len by (auto simp: fq_wf_def c_def)
  have loc: "loc_in_queue q i = i mod c" "loc_in_queue ?q i = i mod c" "0 < c" for i
    using fq_wf_loc [OF wf] fq_wf_loc [OF wf'] len by (simp_all add: c_def)
  have se: "fq_start q \<le> fq_end q" using wf by (simp add: fq_wf_def)
  have fit: "k + length xs \<le> c" "fq_end q - fq_start q + length xs \<le> c" using fits by (simp_all add: c_def)
  have k': "k = fq_end q mod c" using k loc by simp
  have nth: "b ! j = (if k \<le> j \<and> j < k + length xs then xs ! (j - k) else fq_buf q ! j)" if "j < c" for j
    using that fit(1) by (auto simp: b_def c_def nth_append)
  have "fq_list ?q ! i = (fq_list q @ xs) ! i" if i: "i < fq_end q + length xs - fq_start q" for i
  proof -
    define p where "p = fq_start q + i"
    have at: "fq_list ?q ! i = b ! (p mod c)"
      using i loc(2) by (simp add: fq_list_def p_def)
    have lt: "p mod c < c" using loc(3) by simp
    show ?thesis
    proof (cases "p < fq_end q")
      case True
      have "\<not> (k \<le> p mod c \<and> p mod c < k + length xs)"
        unfolding k' by (rule ring_gap [OF True _ loc(3)]) (use fit se in \<open>simp_all add: k' p_def\<close>)
      then have "fq_list ?q ! i = fq_buf q ! (p mod c)" using at nth [OF lt] by (simp only: if_False)
      moreover have "fq_list q ! i = fq_buf q ! (p mod c)" "i < length (fq_list q)"
        using True loc(1) by (simp_all add: nth_fq_list p_def)
      ultimately show ?thesis by (simp only: nth_append if_True)
    next
      case False
      define d where "d = p - fq_end q"
      have d: "d < length xs" "p = fq_end q + d" using False i se by (simp_all add: d_def p_def)
      have "p mod c = (k + d) mod c" unfolding k' d(2) by (simp add: mod_add_left_eq)
      also have "\<dots> = k + d" using d(1) fit(1) by simp
      finally have "fq_list ?q ! i = xs ! d" using at nth [OF lt] d(1) by simp
      moreover have "i = length (fq_list q) + d" using d(2) se by (simp add: p_def)
      ultimately show ?thesis by (simp add: nth_append)
    qed
  qed
  then have "fq_list ?q = fq_list q @ xs" using se by (intro nth_equalityI) simp_all
  then show ?thesis using fits(1) wf' len by (simp add: fq_write_def b_def c_def)
qed

declare length_fq_list [simp del]

lemma fq_add_ok:
  assumes "fq_wf q"
  shows "\<exists>q'. fq_add xs q = Inr (min (length xs) (fq_cap q - length (fq_list q)), q') \<and> fq_wf q'
    \<and> fq_list q' = fq_list q @ take (fq_cap q - length (fq_list q)) xs \<and> fq_cap q' = fq_cap q
    \<and> fq_resizable q' = fq_resizable q"
  using assms
proof (induction xs q rule: fq_add.induct)
  case (1 q)
  then show ?case by (simp add: fq_wf_counts)
next
  case (2 x xs q)
  let ?n = "length (fq_list q)"
  show ?case
  proof (cases "fq_cap q \<le> ?n")
    case True
    then show ?thesis using "2.prems" fq_wf_counts(3,5) [OF "2.prems"] by simp
  next
    case False
    then have nf: "fq_is_full q = Inr False" using fq_wf_counts(3) [OF "2.prems"] by simp
    have "loc_in_queue q (fq_end q) + length [x] \<le> fq_cap q"
      using fq_wf_loc(1,2) [OF "2.prems"] by (simp add: Suc_le_eq)
    then obtain q1 where q1: "fq_write (loc_in_queue q (fq_end q)) [x] q = Inr q1"
      "fq_wf (q1\<lparr>fq_end := fq_end q + 1\<rparr>)" "fq_list (q1\<lparr>fq_end := fq_end q + 1\<rparr>) = fq_list q @ [x]"
      "fq_cap q1 = fq_cap q" "fq_resizable q1 = fq_resizable q"
      using fq_write_run [OF "2.prems" refl, of "[x]"] False by auto
    let ?q = "q1\<lparr>fq_end := fq_end q + 1\<rparr>"
    have len: "length (fq_list ?q) = Suc ?n" unfolding q1(3) by simp
    have "fq_cap q - ?n = Suc (fq_cap q - Suc ?n)" using False by simp
    with "2.IH" [OF nf _ q1(1,2)] len q1 nf show ?thesis
      by auto
  qed
qed

lemma fq_pop_front_ok:
  assumes "fq_wf q" "fq_list q = x # xs"
  shows "\<exists>q'. fq_pop_front q = Inr (x, q') \<and> fq_wf q' \<and> fq_list q' = xs \<and> fq_cap q' = fq_cap q"
proof -
  have lt: "fq_start q < fq_end q" using length_fq_list [of q] assms(2) by simp
  have "fq_readable q" using fq_wf_readable [OF assms(1)] .
  then have "fq_read q (fq_start q) = Inr x"
    using lt assms(2) fq_list_Cons [OF lt] by (simp add: fq_read_def fq_readable_def)
  moreover have "fq_wf (q\<lparr>fq_start := fq_start q + 1\<rparr>)" using assms(1) lt by (auto simp: fq_wf_def)
  ultimately show ?thesis using lt assms(2) fq_list_Cons [OF lt] by (simp add: fq_pop_front_def)
qed

lemma fq_push_back_ok:
  assumes "fq_wf q" "length (fq_list q) < fq_cap q"
  shows "\<exists>q'. fq_push_back x q = Inr q' \<and> fq_wf q' \<and> fq_list q' = fq_list q @ [x] \<and> fq_cap q' = fq_cap q"
proof -
  have "loc_in_queue q (fq_end q) + length [x] \<le> fq_cap q"
    using fq_wf_loc(1,2) [OF assms(1)] by (simp add: Suc_le_eq)
  moreover have "int (fq_end q) - int (fq_start q) < int (fq_cap q)"
    using assms by (simp add: fq_wf_def length_fq_list)
  ultimately show ?thesis
    using fq_write_run [OF assms(1) refl, of "[x]"] assms(2) fq_wf_loc(3) [OF assms(1)]
    by (auto simp: fq_push_back_def)
qed

section \<open>Adding a queue to a queue\<close>

lemma fq_take_run_ok:
  assumes wf: "fq_wf q" "fq_readable src" and k: "k = loc_in_queue q (fq_end q)"
    and fits: "k + n \<le> fq_cap q" "length (fq_list q) + n \<le> fq_cap q"
  shows "\<exists>q' src'. fq_take_run k (int n) q src = Inr (min n (length (fq_list src)), q', src') \<and> fq_wf q'
    \<and> fq_list q' = fq_list q @ take n (fq_list src) \<and> fq_list src' = drop n (fq_list src) \<and> fq_readable src'
    \<and> fq_cap q' = fq_cap q \<and> fq_resizable q' = fq_resizable q
    \<and> fq_end q' = fq_end q + min n (length (fq_list src))"
proof -
  obtain src' where f: "fq_fetch n src = Inr (take n (fq_list src), src')"
    "fq_list src' = drop n (fq_list src)" "fq_readable src'"
    using fq_fetch_list [OF wf(2), of n] by blast
  obtain q' where w: "fq_write k (take n (fq_list src)) q = Inr q'"
    "fq_wf (q'\<lparr>fq_end := fq_end q + length (take n (fq_list src))\<rparr>)"
    "fq_list (q'\<lparr>fq_end := fq_end q + length (take n (fq_list src))\<rparr>) = fq_list q @ take n (fq_list src)"
    "fq_cap q' = fq_cap q" "fq_resizable q' = fq_resizable q"
    using fq_write_run [OF wf(1) k, of "take n (fq_list src)"] fits
    by (metis (no_types, lifting) add_left_mono length_take min.cobounded2 order_trans)
  then show ?thesis using f by (simp add: fq_take_run_def min.commute)
qed

lemma fq_add_queue_ok:
  assumes wf: "fq_wf q" and src: "fq_readable src"
  shows "\<exists>n q' src'. fq_add_queue src q = Inr (n, q', src') \<and> n = min (fq_cap q - length (fq_list q)) (length (fq_list src))
    \<and> fq_wf q' \<and> fq_list q' = fq_list q @ take n (fq_list src) \<and> fq_list src' = drop n (fq_list src)
    \<and> fq_readable src' \<and> fq_cap q' = fq_cap q \<and> fq_resizable q' = fq_resizable q"
proof -
  define c k r l where "c = fq_cap q" and "k = loc_in_queue q (fq_end q)"
    and "r = c - length (fq_list q)" and "l = min (c - k) r"
  have kc: "k < c" "k = fq_end q mod c" using fq_wf_loc(1,2) [OF wf] by (simp_all add: k_def c_def)
  have room: "fq_get_num_remaining q = Inr (int r)" and le: "length (fq_list q) \<le> c"
    using fq_wf_counts(2,5) [OF wf] by (simp_all add: r_def c_def of_nat_diff)
  have len: "min (int c - int k) (int r) = int l" using kc by (simp add: l_def of_nat_diff)
  have fit: "k + l \<le> c" "length (fq_list q) + l \<le> c" using kc(1) le by (auto simp: l_def r_def)
  obtain q1 src1 where t: "fq_take_run k (int l) q src = Inr (min l (length (fq_list src)), q1, src1)" "fq_wf q1"
    "fq_list q1 = fq_list q @ take l (fq_list src)" "fq_list src1 = drop l (fq_list src)" "fq_readable src1"
    "fq_cap q1 = c" "fq_resizable q1 = fq_resizable q" "fq_end q1 = fq_end q + min l (length (fq_list src))"
    using fq_take_run_ok [OF wf src k_def fit [unfolded c_def]] unfolding c_def by blast
  let ?m = "min l (length (fq_list src))"
  have room1: "fq_get_num_remaining q1 = Inr (int (r - ?m))"
  proof -
    have "length (fq_list q1) = length (fq_list q) + ?m" using t(3) by (simp only: length_append length_take min.commute)
    moreover have "length (fq_list q1) \<le> c" using fq_wf_counts(5) [OF t(2)] t(6) by simp
    ultimately show ?thesis using fq_wf_counts(2) [OF t(2)] t(6) by (simp add: r_def of_nat_diff)
  qed
  have run: "fq_add_queue src q = (if int ?m < int l \<or> int (r - ?m) = 0 then Inr (?m, q1, src1)
      else assert_then (loc_in_queue q1 (fq_end q1) = 0)
        (bind_res (fq_take_run 0 (int (r - ?m)) q1 src1) (\<lambda>(m, q2, src2). Inr (?m + m, q2, src2))))"
    using fq_wf_loc(3) [OF wf] room room1 t(1) len
    by (simp only: fq_add_queue_def Let_def k_def [symmetric] c_def [symmetric] bind_res_simps prod.case)
  show ?thesis
  proof (cases "?m < l \<or> r - ?m = 0")
    case True
    then have m: "?m = min r (length (fq_list src))" by (auto simp: l_def min_def split: if_splits)
    have "take l (fq_list src) = take ?m (fq_list src)" "drop l (fq_list src) = drop ?m (fq_list src)"
      by (simp_all add: min_def)
    moreover have "fq_add_queue src q = Inr (?m, q1, src1)" using True unfolding run of_nat_less_iff of_nat_eq_0_iff by (simp only: if_True)
    ultimately show ?thesis
      using t m by (intro exI [of _ ?m] exI [of _ q1] exI [of _ src1]) (simp only: c_def [symmetric] r_def [symmetric] simp_thms)
  next
    case False
    then have m: "?m = l" "l < r" "l = c - k" "l \<le> length (fq_list src)" by (auto simp: l_def)
    have "fq_end q1 mod c = 0"
    proof -
      have "(fq_end q + (c - k)) mod c = (k + (c - k)) mod c" unfolding kc(2) by (simp only: mod_add_left_eq)
      then show ?thesis using t(8) m kc(1) by simp
    qed
    then have z: "loc_in_queue q1 (fq_end q1) = 0" using fq_wf_loc(1) [OF t(2)] t(6) by simp
    obtain q2 src2 where u: "fq_take_run 0 (int (r - l)) q1 src1 = Inr (min (r - l) (length (fq_list src1)), q2, src2)"
      "fq_wf q2" "fq_list q2 = fq_list q1 @ take (r - l) (fq_list src1)"
      "fq_list src2 = drop (r - l) (fq_list src1)" "fq_readable src2" "fq_cap q2 = c" "fq_resizable q2 = fq_resizable q"
      using fq_take_run_ok [OF t(2,5) z [symmetric], of "r - l"] t(3,6,7) m le
      by (auto simp: r_def c_def)
    have n: "l + min (r - l) (length (fq_list src1)) = min r (length (fq_list src))"
      using t(4) m by (simp) linarith
    have "fq_list q2 = fq_list q @ take r (fq_list src)" "fq_list src2 = drop r (fq_list src)"
      using u(3,4) t(3,4) m(2) by (simp_all flip: take_add)
    moreover have "take r (fq_list src) = take (min r (length (fq_list src))) (fq_list src)"
      "drop r (fq_list src) = drop (min r (length (fq_list src))) (fq_list src)" by (simp_all add: min_def)
    moreover have "fq_add_queue src q = Inr (min r (length (fq_list src)), q2, src2)"
      using False z u(1) n m(1) unfolding run of_nat_less_iff of_nat_eq_0_iff by simp
    ultimately show ?thesis
      using u by (intro exI [of _ "min r (length (fq_list src))"] exI [of _ q2] exI [of _ src2])
        (simp only: c_def [symmetric] r_def [symmetric] simp_thms)
  qed
qed

section \<open>Growing\<close>

lemma fq_copy_ok:
  assumes "fq_readable q" "fq_start q + i + n \<le> fq_end q"
  shows "fq_copy q i n = Inr (take n (drop i (fq_list q)))"
  using assms(2)
proof (induction n arbitrary: i)
  case (Suc n)
  have "fq_read q (fq_start q + i) = Inr (fq_list q ! i)"
    using assms(1) Suc.prems by (simp add: fq_read_def fq_readable_def nth_fq_list length_fq_list)
  moreover have "i < length (fq_list q)" using Suc.prems by (simp add: length_fq_list)
  ultimately show ?case using Suc by (simp add: Cons_nth_drop_Suc [symmetric])
qed simp

lemma expand_queue_ok:
  assumes wf: "fq_wf q" and r: "fq_resizable q" and n: "n \<le> 2 ^ 30" "fq_cap q < n"
  shows "\<exists>q'. expand_queue dflt n q = Inr q' \<and> fq_wf q' \<and> fq_list q' = fq_list q
    \<and> fq_cap q' = 2 ^ ceil_log2 n \<and> n \<le> fq_cap q' \<and> fq_resizable q'"
proof -
  let ?n = "2 ^ ceil_log2 n" and ?k = "length (fq_list q)"
  have log: "ceil_log2 n \<le> 30" by (rule ceil_log2_small [OF n(1)])
  have up: "n \<le> ?n" by (rule ceil_log2_upper)
  have k: "?k \<le> fq_cap q" "nat (fq_get_num_entries q) = ?k" using fq_wf_counts(1,5) [OF wf] by simp_all
  have "fq_start q \<le> fq_end q" using wf by (simp add: fq_wf_def)
  then have copy: "fq_copy q 0 ?k = Inr (fq_list q)"
    using fq_copy_ok [OF fq_wf_readable [OF wf], of 0 ?k] by (simp add: length_fq_list)
  let ?q = "q\<lparr>fq_buf := fq_list q @ replicate (?n - ?k) dflt, fq_size_mask := ?n - 1, fq_start := 0, fq_end := ?k\<rparr>"
  have wf': "fq_wf ?q" using wf log up k(1) n(2) unfolding fq_wf_def by (auto intro!: exI [of _ "ceil_log2 n"])
  have "fq_list ?q ! i = fq_list q ! i" if i: "i < ?k" for i
  proof -
    have "fq_list ?q ! i = fq_buf ?q ! loc_in_queue ?q (fq_start ?q + i)"
      by (rule nth_fq_list, subst length_fq_list) (simp add: i)
    also have "loc_in_queue ?q (fq_start ?q + i) = i" using fq_wf_loc(1) [OF wf', of i] i k(1) n(2) up by simp
    finally show ?thesis using i by (simp add: nth_append)
  qed
  moreover have "length (fq_list ?q) = ?k" by (subst length_fq_list) simp
  ultimately have "fq_list ?q = fq_list q" by (intro nth_equalityI) (simp_all only:)
  moreover have "expand_queue dflt n q = Inr ?q"
    using log up k n r copy fq_wf_loc(3) [OF wf] by (simp add: expand_queue_def Let_def)
  ultimately show ?thesis using wf' r up k n(2) by (simp)
qed

lemma grow_size_ok:
  assumes "0 < n" "n < required" "required \<le> max_size"
  shows "required \<le> grow_size required max_size n \<and> grow_size required max_size n < 2 * required
    \<and> n < grow_size required max_size n"
  using assms
proof (induction required max_size n rule: grow_size.induct)
  case (1 required max_size n)
  have e: "grow_size required max_size n = grow_size required max_size (n * 2)"
    using "1.prems" by (subst grow_size.simps) simp
  show ?case
  proof (cases "n * 2 < required")
    case True
    then show ?thesis using 1 unfolding e by auto
  next
    case False
    then have "grow_size required max_size (n * 2) = n * 2" by (subst grow_size.simps) simp
    then show ?thesis using False "1.prems" unfolding e by simp
  qed
qed

end
