(* ===== verification/Blocking_Queue.thy ===== *)
theory Blocking_Queue
  imports Fifo_Laws
begin

text \<open>
  What clients rely on of a queue (locale \<open>bounded_queue\<close>), the locked queue, and
  \<^verbatim>\<open>blocking_FIFO_queue\<close> of \<^verbatim>\<open>libsafs/container.h\<close>.

  For the blocking queue a critical section under the mutex is one step. \<open>bq_add_partial\<close> and \<open>bq_fetch\<close>
  are the calls as one thread sees them; a wait on the condition variable that no other thread ends
  is \<open>Never_returns\<close>. \<open>bq_step\<close> interleaves the critical sections of one producer that adds a whole
  queue (\<^verbatim>\<open>add\<close>) and one consumer that fetches again and again: a thread that waits goes on only
  after the other one has signalled, and then tests its condition again.
\<close>

section \<open>The contract of a queue\<close>

locale bounded_queue =
  fixes fetch :: "nat \<Rightarrow> 'q \<Rightarrow> ('a list \<times> 'q) res"
    and add :: "'a list \<Rightarrow> 'q \<Rightarrow> (nat \<times> 'q) res"
    and entries :: "'q \<Rightarrow> 'a list"
    and capacity :: "'q \<Rightarrow> nat"
    and inv :: "'q \<Rightarrow> bool"
  assumes fetch_ok: "inv q \<Longrightarrow> \<exists>q'. fetch n q = Inr (take n (entries q), q') \<and> inv q'
      \<and> entries q' = drop n (entries q) \<and> capacity q' = capacity q"
    and add_ok: "inv q \<Longrightarrow> length (entries q) + length xs \<le> capacity q \<Longrightarrow>
      \<exists>q'. add xs q = Inr (length xs, q') \<and> inv q' \<and> entries q' = entries q @ xs \<and> capacity q' = capacity q"
    and bounded: "inv q \<Longrightarrow> length (entries q) \<le> capacity q"
begin

text \<open>What has been fetched can always be put back, whole or in part.\<close>

lemma put_back:
  assumes "inv q" "fetch n q = Inr (xs, q1)" "length ys \<le> length xs"
  shows "\<exists>q2. add ys q1 = Inr (length ys, q2) \<and> inv q2 \<and> entries q2 = drop n (entries q) @ ys
    \<and> capacity q2 = capacity q"
proof -
  have q1: "xs = take n (entries q)" "inv q1" "entries q1 = drop n (entries q)" "capacity q1 = capacity q"
    using fetch_ok [OF assms(1), of n] assms(2) by auto
  have "length (entries q1) + length ys \<le> capacity q1"
    using bounded [OF assms(1)] assms(3) q1 by (cases "n \<le> length (entries q)") simp_all
  from add_ok [OF q1(2) this] show ?thesis using q1 by simp
qed

text \<open>First in, first out: what is added comes out after what was there, in its order.\<close>

lemma fifo_order:
  assumes "inv q" "length (entries q) + length xs \<le> capacity q"
  shows "\<exists>q1 q2. add xs q = Inr (length xs, q1)
    \<and> fetch (length (entries q) + length xs) q1 = Inr (entries q @ xs, q2) \<and> entries q2 = []"
proof -
  obtain q1 where q1: "add xs q = Inr (length xs, q1)" "inv q1" "entries q1 = entries q @ xs"
    using add_ok [OF assms] by blast
  then show ?thesis using fetch_ok [OF q1(2), of "length (entries q) + length xs"] by auto
qed

end

interpretation ring: bounded_queue fq_fetch fq_add fq_list fq_cap fq_wf
proof
  fix q :: "'a fifo_queue" and n and xs :: "'a list"
  assume wf: "fq_wf q"
  show "\<exists>q'. fq_fetch n q = Inr (take n (fq_list q), q') \<and> fq_wf q' \<and> fq_list q' = drop n (fq_list q)
    \<and> fq_cap q' = fq_cap q"
    using fq_fetch_list [OF fq_wf_readable [OF wf], of n] wf by blast
  show "length (fq_list q) \<le> fq_cap q" by (rule fq_wf_counts(5) [OF wf])
  assume "length (fq_list q) + length xs \<le> fq_cap q"
  then show "\<exists>q'. fq_add xs q = Inr (length xs, q') \<and> fq_wf q' \<and> fq_list q' = fq_list q @ xs
    \<and> fq_cap q' = fq_cap q"
    using fq_add_ok [OF wf, of xs] by (auto simp: min_def)
qed

section \<open>The locked queue\<close>

abbreviation ts_list :: "'a ts_queue \<Rightarrow> 'a list" where
  "ts_list q \<equiv> fq_list (ts_fifo q)"

abbreviation ts_cap :: "'a ts_queue \<Rightarrow> nat" where
  "ts_cap q \<equiv> fq_cap (ts_fifo q)"

abbreviation ts_wf :: "'a ts_queue \<Rightarrow> bool" where
  "ts_wf q \<equiv> fq_wf (ts_fifo q)"

interpretation locked: bounded_queue ts_fetch "ts_add dflt" ts_list ts_cap ts_wf for dflt
proof
  fix q :: "'a ts_queue" and n and xs :: "'a list"
  assume wf: "ts_wf q"
  show "\<exists>q'. ts_fetch n q = Inr (take n (ts_list q), q') \<and> ts_wf q' \<and> ts_list q' = drop n (ts_list q)
    \<and> ts_cap q' = ts_cap q"
    using ring.fetch_ok [OF wf, of n] by (auto simp: ts_fetch_def)
  show "length (ts_list q) \<le> ts_cap q" by (rule ring.bounded [OF wf])
  assume "length (ts_list q) + length xs \<le> ts_cap q"
  from ring.add_ok [OF wf this] obtain f where "fq_add xs (ts_fifo q) = Inr (length xs, f)" "fq_wf f"
    "fq_list f = ts_list q @ xs" "fq_cap f = ts_cap q" by blast
  then show "\<exists>q'. ts_add dflt xs q = Inr (length xs, q') \<and> ts_wf q' \<and> ts_list q' = ts_list q @ xs
    \<and> ts_cap q' = ts_cap q"
    using fq_wf_loc(3) [of f] by (simp add: ts_add_def)
qed

text \<open>A queue that may grow takes everything, as long as the largest size is enough.\<close>

lemma ts_add_grows:
  assumes wf: "ts_wf q" "fq_resizable (ts_fifo q)"
    and room: "ts_cap q + length xs \<le> ts_max_size q" "ts_max_size q \<le> 2 ^ 29"
  shows "\<exists>q'. ts_add dflt xs q = Inr (length xs, q') \<and> ts_wf q' \<and> ts_list q' = ts_list q @ xs"
proof -
  define r n where "r = ts_cap q - length (ts_list q)" and "n = min (length xs) r"
  obtain f where f: "fq_add xs (ts_fifo q) = Inr (n, f)" "fq_wf f" "fq_list f = ts_list q @ take r xs"
    "fq_cap f = ts_cap q" "fq_resizable f"
    using fq_add_ok [OF wf(1), of xs] wf(2) unfolding r_def n_def by auto
  have sz: "fq_get_size f = Inr (ts_cap q)" using fq_wf_loc(3) [OF f(2)] f(4) by simp
  show ?thesis
  proof (cases "n < length xs")
    case False
    then show ?thesis using f sz by (simp add: ts_add_def n_def min_def split: if_splits)
  next
    case True
    let ?g = "grow_size (ts_cap q + length xs - n) (ts_max_size q) (ts_cap q)"
    have n: "n = r" using True by (simp add: n_def)
    have "0 < ts_cap q" by (rule fq_wf_loc(2) [OF wf(1)])
    then have g: "ts_cap q + length xs - n \<le> ?g" "?g < 2 * (ts_cap q + length xs - n)" "ts_cap q < ?g"
      using grow_size_ok [of "ts_cap q" "ts_cap q + length xs - n" "ts_max_size q"] True room(1) by auto
    have "?g \<le> 2 ^ 30" using g(2) room by simp
    then obtain f1 where f1: "expand_queue dflt ?g f = Inr f1" "fq_wf f1" "fq_list f1 = fq_list f" "?g \<le> fq_cap f1"
      using expand_queue_ok [OF f(2,5), of ?g dflt] g(3) f(4) by auto
    have fits: "length (fq_list f1) + length (drop n xs) \<le> fq_cap f1"
    proof -
      have "length (fq_list f1) \<le> ts_cap q" using f1(3) ring.bounded [OF f(2)] f(4) by simp
      then show ?thesis using g(1) f1(4) True by simp
    qed
    from ring.add_ok [OF f1(2) this] obtain f2 where "fq_add (drop n xs) f1 = Inr (length (drop n xs), f2)"
      "fq_wf f2" "fq_list f2 = ts_list q @ take n xs @ drop n xs"
      using f(3) f1(3) n by auto
    moreover have "ts_cap q < ts_max_size q" using True room(1) by simp
    ultimately show ?thesis
      using f(1) sz f1(1) True by (simp add: ts_add_def)
  qed
qed

section \<open>The blocking queue\<close>

record 'a blocking_queue =
  bq_fifo :: "'a fifo_queue"
  bq_num_empty :: nat
  bq_num_full :: nat
  bq_max_size :: nat
  bq_interrupted :: bool

definition bq_new :: "'a \<Rightarrow> int \<Rightarrow> nat \<Rightarrow> nat \<Rightarrow> 'a blocking_queue res" where
  "bq_new dflt node init_size max_size =
     bind_res (fq_new dflt node init_size (init_size < max_size)) (\<lambda>q.
     assert_then (init_size \<le> max_size)
       (Inr \<lparr>bq_fifo = q, bq_num_empty = 0, bq_num_full = 0, bq_max_size = max_size, bq_interrupted = False\<rparr>))"

text \<open>One critical section of \<^verbatim>\<open>add_partial\<close>: grow if the entries do not fit, then add what fits.\<close>

definition bq_make_room :: "'a \<Rightarrow> int \<Rightarrow> nat \<Rightarrow> 'a fifo_queue \<Rightarrow> 'a fifo_queue res" where
  "bq_make_room dflt num max_size q =
     bind_res (fq_get_size q) (\<lambda>sz.
       if int sz - fq_get_num_entries q < num \<and> sz < max_size
       then expand_queue dflt (nat (min (max (int sz * 2) (fq_get_num_entries q + num)) (int max_size))) q
       else Inr q)"

definition bq_add_round ::
  "'a \<Rightarrow> 'a fifo_queue \<Rightarrow> 'a blocking_queue \<Rightarrow> (nat \<times> 'a blocking_queue \<times> 'a fifo_queue) res" where
  "bq_add_round dflt src q =
     bind_res (bq_make_room dflt (fq_get_num_entries src) (bq_max_size q) (bq_fifo q)) (\<lambda>f.
     bind_res (fq_add_queue src f) (\<lambda>(n, f', src').
       Inr (n, q\<lparr>bq_fifo := f'\<rparr>, src')))"

text \<open>The argument \<open>n\<close> bounds the rounds; the call needs at most two when nobody else runs.\<close>

fun bq_add_partial ::
  "nat \<Rightarrow> 'a \<Rightarrow> nat \<Rightarrow> nat \<Rightarrow> 'a fifo_queue \<Rightarrow> 'a blocking_queue \<Rightarrow> (nat \<times> 'a blocking_queue \<times> 'a fifo_queue) res" where
  "bq_add_partial 0 dflt min_added added src q = Inl Out_of_steps"
| "bq_add_partial (Suc n) dflt min_added added src q =
     (if fq_is_empty src then Inr (added, q, src)
      else bind_res (bq_add_round dflt src q) (\<lambda>(k, q1, src1).
        if added + k < min_added then
          bind_res (fq_is_full (bq_fifo q1)) (\<lambda>full.
            if full \<and> \<not> fq_is_empty src1 then Inl Never_returns
            else bq_add_partial n dflt min_added (added + k) src1 q1)
        else Inr (added + k, q1, src1)))"

definition bq_add :: "'a \<Rightarrow> 'a list \<Rightarrow> 'a blocking_queue \<Rightarrow> (nat \<times> 'a blocking_queue \<times> 'a fifo_queue) res" where
  "bq_add dflt xs q = bq_add_partial 2 dflt INT_MAX 0 (fq_wrap xs (length xs)) q"

definition bq_non_blocking_add ::
  "'a \<Rightarrow> 'a list \<Rightarrow> 'a blocking_queue \<Rightarrow> (nat \<times> 'a blocking_queue \<times> 'a fifo_queue) res" where
  "bq_non_blocking_add dflt xs q = bq_add_partial 2 dflt 0 0 (fq_wrap xs (length xs)) q"

text \<open>Fetching; the flag says whether the queue was full before, when the waiting producers are woken.\<close>

definition bq_take :: "nat \<Rightarrow> 'a blocking_queue \<Rightarrow> ('a list \<times> bool \<times> 'a blocking_queue) res" where
  "bq_take n q =
     bind_res (fq_is_full (bq_fifo q)) (\<lambda>full.
     bind_res (fq_fetch n (bq_fifo q)) (\<lambda>(xs, f). Inr (xs, full, q\<lparr>bq_fifo := f\<rparr>)))"

definition bq_fetch ::
  "bool \<Rightarrow> bool \<Rightarrow> nat \<Rightarrow> 'a blocking_queue \<Rightarrow> ('a list \<times> bool \<times> 'a blocking_queue) res" where
  "bq_fetch blocking interruptible n q =
     (if blocking \<and> fq_is_empty (bq_fifo q) then
        let q1 = q\<lparr>bq_num_empty := bq_num_empty q + 1\<rparr> in
        if interruptible \<and> bq_interrupted q then bq_take n (q1\<lparr>bq_interrupted := False\<rparr>)
        else Inl Never_returns
      else bq_take n q)"

definition bq_wakeup :: "'a blocking_queue \<Rightarrow> 'a blocking_queue" where
  "bq_wakeup q = (if fq_is_empty (bq_fifo q) then q\<lparr>bq_interrupted := True\<rparr> else q)"

section \<open>A producer and a consumer\<close>

datatype waiter = Running | Waiting | Woken

definition signal :: "waiter \<Rightarrow> waiter" where
  "signal w = (if w = Waiting then Woken else w)"

record 'a bq_sys =
  sy_queue :: "'a blocking_queue"
  sy_src :: "'a fifo_queue"
  sy_out :: "'a list"
  sy_prod :: waiter
  sy_cons :: waiter

text \<open>The test of the producer's waiting loop.\<close>

definition producer_test :: "'a bq_sys \<Rightarrow> 'a bq_sys res" where
  "producer_test s =
     bind_res (fq_is_full (bq_fifo (sy_queue s))) (\<lambda>full.
       if full \<and> \<not> fq_is_empty (sy_src s)
       then Inr (s\<lparr>sy_queue := (sy_queue s)\<lparr>bq_num_full := bq_num_full (sy_queue s) + 1\<rparr>, sy_prod := Waiting\<rparr>)
       else Inr (s\<lparr>sy_prod := Running\<rparr>))"

definition producer_round :: "'a \<Rightarrow> 'a bq_sys \<Rightarrow> 'a bq_sys res" where
  "producer_round dflt s =
     bind_res (bq_add_round dflt (sy_src s) (sy_queue s)) (\<lambda>(n, q, src).
       producer_test (s\<lparr>sy_queue := q, sy_src := src,
         sy_cons := (if fq_is_empty (bq_fifo (sy_queue s)) then signal (sy_cons s) else sy_cons s)\<rparr>))"

definition consumer_round :: "nat \<Rightarrow> 'a bq_sys \<Rightarrow> 'a bq_sys res" where
  "consumer_round n s =
     (if fq_is_empty (bq_fifo (sy_queue s))
      then Inr (s\<lparr>sy_queue := (sy_queue s)\<lparr>bq_num_empty := bq_num_empty (sy_queue s) + 1\<rparr>, sy_cons := Waiting\<rparr>)
      else bind_res (bq_take n (sy_queue s)) (\<lambda>(xs, full, q).
        Inr (s\<lparr>sy_queue := q, sy_out := sy_out s @ xs, sy_cons := Running,
          sy_prod := (if full then signal (sy_prod s) else sy_prod s)\<rparr>)))"

inductive bq_step :: "'a \<Rightarrow> nat \<Rightarrow> 'a bq_sys \<Rightarrow> 'a bq_sys \<Rightarrow> bool" for dflt n where
  add: "sy_prod s = Running \<Longrightarrow> \<not> fq_is_empty (sy_src s) \<Longrightarrow> producer_round dflt s = Inr s' \<Longrightarrow> bq_step dflt n s s'"
| retest: "sy_prod s = Woken \<Longrightarrow> producer_test s = Inr s' \<Longrightarrow> bq_step dflt n s s'"
| fetch: "sy_cons s \<noteq> Waiting \<Longrightarrow> consumer_round n s = Inr s' \<Longrightarrow> bq_step dflt n s s'"

definition bq_start :: "'a blocking_queue \<Rightarrow> 'a fifo_queue \<Rightarrow> 'a bq_sys" where
  "bq_start q src = \<lparr>sy_queue = q, sy_src = src, sy_out = [], sy_prod = Running, sy_cons = Running\<rparr>"

section \<open>No entry is lost and nobody waits for ever\<close>

abbreviation bq_list :: "'a blocking_queue \<Rightarrow> 'a list" where
  "bq_list q \<equiv> fq_list (bq_fifo q)"

definition bq_wf :: "'a blocking_queue \<Rightarrow> bool" where
  "bq_wf q \<longleftrightarrow> fq_wf (bq_fifo q) \<and> (fq_cap (bq_fifo q) < bq_max_size q \<longrightarrow> fq_resizable (bq_fifo q))
     \<and> bq_max_size q \<le> 2 ^ 30"

definition src_wf :: "'a fifo_queue \<Rightarrow> bool" where
  "src_wf src \<longleftrightarrow> fq_readable src \<and> length (fq_list src) < 2 ^ 31"

lemma src_wf_counts:
  assumes "src_wf src"
  shows "fq_get_num_entries src = int (length (fq_list src))" "fq_is_empty src = (fq_list src = [])"
  using assms fq_num_entries [of src]
  by (auto simp: src_wf_def fq_readable_def length_fq_list fq_is_empty_def simp flip: length_0_conv)

lemma bq_make_room_ok:
  assumes wf: "bq_wf q"
  shows "\<exists>f. bq_make_room dflt (int num) (bq_max_size q) (bq_fifo q) = Inr f \<and> bq_wf (q\<lparr>bq_fifo := f\<rparr>)
    \<and> fq_list f = bq_list q"
proof -
  let ?f = "bq_fifo q" and ?m = "bq_max_size q"
  have f: "fq_wf ?f" "?m \<le> 2 ^ 30" using wf by (simp_all add: bq_wf_def)
  have sz: "fq_get_size ?f = Inr (fq_cap ?f)" "0 < fq_cap ?f" by (rule fq_wf_loc [OF f(1)])+
  show ?thesis
  proof (cases "int (fq_cap ?f) - fq_get_num_entries ?f < int num \<and> fq_cap ?f < ?m")
    case True
    let ?n = "nat (min (max (int (fq_cap ?f) * 2) (fq_get_num_entries ?f + int num)) (int ?m))"
    have n: "fq_cap ?f < ?n" "?n \<le> ?m" using True sz(2) by auto
    obtain f' where "expand_queue dflt ?n ?f = Inr f'" "fq_wf f'" "fq_list f' = fq_list ?f" "fq_resizable f'"
      using expand_queue_ok [OF f(1) _ _ n(1), of dflt] True wf n(2) f(2) by (auto simp: bq_wf_def)
    then show ?thesis using True sz wf by (simp add: bq_make_room_def bq_wf_def)
  next
    case False
    then show ?thesis using sz wf by (auto simp: bq_make_room_def)
  qed
qed

lemma bq_add_round_ok:
  assumes wf: "bq_wf q" and src: "src_wf src"
  shows "\<exists>n q' src'. bq_add_round dflt src q = Inr (n, q', src') \<and> bq_wf q' \<and> src_wf src'
    \<and> bq_list q' = bq_list q @ take n (fq_list src) \<and> fq_list src' = drop n (fq_list src) \<and> n \<le> length (fq_list src)
    \<and> (n < length (fq_list src) \<longrightarrow> fq_is_full (bq_fifo q') = Inr True)"
proof -
  obtain f where f: "bq_make_room dflt (fq_get_num_entries src) (bq_max_size q) (bq_fifo q) = Inr f"
    "bq_wf (q\<lparr>bq_fifo := f\<rparr>)" "fq_list f = bq_list q"
    using bq_make_room_ok [OF wf, of dflt "length (fq_list src)"] src_wf_counts(1) [OF src] by auto
  have "fq_wf f" "fq_readable src" using f(2) src by (simp_all add: bq_wf_def src_wf_def)
  from fq_add_queue_ok [OF this] obtain n f' src' where a: "fq_add_queue src f = Inr (n, f', src')"
    "n = min (fq_cap f - length (fq_list f)) (length (fq_list src))" "fq_wf f'"
    "fq_list f' = fq_list f @ take n (fq_list src)" "fq_list src' = drop n (fq_list src)" "fq_readable src'"
    "fq_cap f' = fq_cap f" "fq_resizable f' = fq_resizable f" by blast
  have "bq_wf (q\<lparr>bq_fifo := f'\<rparr>)" using f(2) a by (simp add: bq_wf_def)
  moreover have "src_wf src'" using src a(5,6) by (auto simp: src_wf_def)
  moreover have "fq_is_full f' = Inr True" if "n < length (fq_list src)"
  proof -
    have "length (fq_list f') = length (fq_list f) + n" using a(4) that by simp
    then have "fq_cap f' \<le> length (fq_list f')" using a(2,7) that by simp
    then show ?thesis using fq_wf_counts(3) [OF a(3)] by simp
  qed
  ultimately show ?thesis using f a by (auto simp: bq_add_round_def)
qed

text \<open>The invariant of the two threads: a waiting producer found the queue full, a waiting consumer found it empty.\<close>

definition bq_inv :: "'a list \<Rightarrow> 'a bq_sys \<Rightarrow> bool" where
  "bq_inv whole s \<longleftrightarrow> bq_wf (sy_queue s) \<and> src_wf (sy_src s)
     \<and> sy_out s @ bq_list (sy_queue s) @ fq_list (sy_src s) = whole
     \<and> (sy_prod s = Waiting \<longrightarrow> fq_is_full (bq_fifo (sy_queue s)) = Inr True \<and> fq_list (sy_src s) \<noteq> [])
     \<and> (sy_cons s = Waiting \<longrightarrow> bq_list (sy_queue s) = [])"

text \<open>What is left to do: entries that still have to move, then changes of state of the threads.\<close>

definition effort :: "waiter \<Rightarrow> nat" where
  "effort w = (case w of Waiting \<Rightarrow> 0 | Running \<Rightarrow> 1 | Woken \<Rightarrow> 2)"

definition bq_work :: "'a bq_sys \<Rightarrow> nat" where
  "bq_work s = 5 * (2 * length (fq_list (sy_src s)) + length (bq_list (sy_queue s)))
     + effort (sy_prod s) + effort (sy_cons s)"

lemma effort_le: "effort w \<le> 2" "effort (signal w) \<le> 2"
  by (simp_all add: effort_def signal_def split: waiter.split)

lemma signal_Waiting [simp]: "signal w \<noteq> Waiting"
  by (simp add: signal_def)

lemma bq_wf_counts:
  assumes "bq_wf q"
  shows "fq_is_empty (bq_fifo q) = (bq_list q = [])" "\<exists>b. fq_is_full (bq_fifo q) = Inr b"
    "fq_is_full (bq_fifo q) = Inr True \<Longrightarrow> bq_list q \<noteq> []"
  using assms fq_wf_counts(3,4) [of "bq_fifo q"] fq_wf_loc(2) [of "bq_fifo q"] by (auto simp: bq_wf_def)

lemma producer_test_ok:
  assumes "bq_wf (sy_queue s)" "src_wf (sy_src s)"
    "sy_out s @ bq_list (sy_queue s) @ fq_list (sy_src s) = whole" "sy_cons s = Waiting \<longrightarrow> bq_list (sy_queue s) = []"
  shows "\<exists>s'. producer_test s = Inr s' \<and> bq_inv whole s' \<and> sy_src s' = sy_src s \<and> sy_cons s' = sy_cons s
    \<and> bq_list (sy_queue s') = bq_list (sy_queue s) \<and> sy_prod s' \<noteq> Woken
    \<and> (fq_is_full (bq_fifo (sy_queue s)) = Inr True \<and> fq_list (sy_src s) \<noteq> [] \<longrightarrow> sy_prod s' = Waiting)"
proof -
  obtain full where f: "fq_is_full (bq_fifo (sy_queue s)) = Inr full" using bq_wf_counts(2) [OF assms(1)] by blast
  show ?thesis
    using f assms src_wf_counts(2) [OF assms(2)]
    by (auto simp: producer_test_def bq_inv_def bq_wf_def)
qed

lemma producer_round_ok:
  assumes inv: "bq_inv whole s" and p: "sy_prod s = Running" "\<not> fq_is_empty (sy_src s)"
  shows "\<exists>s'. producer_round dflt s = Inr s' \<and> bq_inv whole s' \<and> bq_work s' < bq_work s"
proof -
  have wf: "bq_wf (sy_queue s)" "src_wf (sy_src s)" and ne: "fq_list (sy_src s) \<noteq> []"
    using inv p(2) src_wf_counts(2) by (auto simp: bq_inv_def)
  from bq_add_round_ok [OF wf] obtain n q src where a: "bq_add_round dflt (sy_src s) (sy_queue s) = Inr (n, q, src)"
    "bq_wf q" "src_wf src" "bq_list q = bq_list (sy_queue s) @ take n (fq_list (sy_src s))"
    "fq_list src = drop n (fq_list (sy_src s))" "n \<le> length (fq_list (sy_src s))"
    "n < length (fq_list (sy_src s)) \<longrightarrow> fq_is_full (bq_fifo q) = Inr True" by blast
  let ?c = "if fq_is_empty (bq_fifo (sy_queue s)) then signal (sy_cons s) else sy_cons s"
  let ?s = "s\<lparr>sy_queue := q, sy_src := src, sy_cons := ?c\<rparr>"
  have "sy_cons ?s = Waiting \<longrightarrow> bq_list (sy_queue ?s) = []"
    using inv bq_wf_counts(1) [OF wf(1)] by (auto simp: bq_inv_def)
  moreover have "sy_out ?s @ bq_list (sy_queue ?s) @ fq_list (sy_src ?s) = whole"
    using inv a(4,5) by (simp add: bq_inv_def)
  ultimately obtain s' where t: "producer_test ?s = Inr s'" "bq_inv whole s'" "sy_src s' = src" "sy_cons s' = ?c"
    "bq_list (sy_queue s') = bq_list q" "sy_prod s' \<noteq> Woken"
    "fq_is_full (bq_fifo q) = Inr True \<and> fq_list src \<noteq> [] \<longrightarrow> sy_prod s' = Waiting"
    using producer_test_ok [of ?s whole] a(2,3) by auto
  have len: "length (bq_list q) = length (bq_list (sy_queue s)) + n" "length (fq_list src) = length (fq_list (sy_src s)) - n"
    using a(4,5,6) by simp_all
  have "bq_work s' < bq_work s"
  proof (cases "n = 0")
    case True
    then have "sy_prod s' = Waiting" "bq_list (sy_queue s) \<noteq> []"
      using a ne t(7) bq_wf_counts(3) [OF a(2)] by auto
    then show ?thesis
      using True len t p(1) bq_wf_counts(1) [OF wf(1)] by (simp add: bq_work_def effort_def)
  next
    case False
    then show ?thesis
      using len t(3,5) a(6) effort_le [of "sy_prod s'"] effort_le [of "sy_cons s'"] by (simp add: bq_work_def)
  qed
  then show ?thesis using a(1) t(1,2) by (simp add: producer_round_def)
qed

lemma retest_ok:
  assumes inv: "bq_inv whole s" and p: "sy_prod s = Woken"
  shows "\<exists>s'. producer_test s = Inr s' \<and> bq_inv whole s' \<and> bq_work s' < bq_work s"
proof -
  obtain s' where t: "producer_test s = Inr s'" "bq_inv whole s'" "sy_src s' = sy_src s" "sy_cons s' = sy_cons s"
    "bq_list (sy_queue s') = bq_list (sy_queue s)" "sy_prod s' \<noteq> Woken"
    using producer_test_ok [of s whole] inv by (auto simp: bq_inv_def)
  then have "effort (sy_prod s') < effort (sy_prod s)" using p by (cases "sy_prod s'") (simp_all add: effort_def)
  then show ?thesis using t by (simp add: bq_work_def)
qed

lemma consumer_round_ok:
  assumes inv: "bq_inv whole s" and c: "sy_cons s \<noteq> Waiting" and n: "0 < n"
  shows "\<exists>s'. consumer_round n s = Inr s' \<and> bq_inv whole s' \<and> bq_work s' < bq_work s"
proof (cases "bq_list (sy_queue s) = []")
  case True
  have wf: "bq_wf (sy_queue s)" using inv by (simp add: bq_inv_def)
  have "effort Waiting < effort (sy_cons s)" using c by (cases "sy_cons s") (simp_all add: effort_def)
  then show ?thesis
    using True inv bq_wf_counts(1) [OF wf] by (simp add: consumer_round_def bq_inv_def bq_wf_def bq_work_def)
next
  case False
  let ?q = "sy_queue s"
  have wf: "bq_wf ?q" using inv by (simp add: bq_inv_def)
  then have fw: "fq_wf (bq_fifo ?q)" by (simp add: bq_wf_def)
  obtain full where full: "fq_is_full (bq_fifo ?q) = Inr full" using bq_wf_counts(2) [OF wf] by blast
  obtain f where f: "fq_fetch n (bq_fifo ?q) = Inr (take n (bq_list ?q), f)" "fq_list f = drop n (bq_list ?q)"
    "fq_wf f" "fq_cap f = fq_cap (bq_fifo ?q)" "fq_resizable f = fq_resizable (bq_fifo ?q)"
    using fq_fetch_list [OF fq_wf_readable [OF fw], of n] fw by blast
  let ?s = "s\<lparr>sy_queue := ?q\<lparr>bq_fifo := f\<rparr>, sy_out := sy_out s @ take n (bq_list ?q), sy_cons := Running,
      sy_prod := (if full then signal (sy_prod s) else sy_prod s)\<rparr>"
  have run: "consumer_round n s = Inr ?s"
    using False bq_wf_counts(1) [OF wf] full f(1) by (simp add: consumer_round_def bq_take_def)
  have "bq_inv whole ?s"
    using inv full f False by (auto simp: bq_inv_def bq_wf_def)
  moreover have "length (fq_list f) < length (bq_list ?q)" using f(2) False n by simp
  then have "bq_work ?s < bq_work s"
    using effort_le [of "sy_prod s"] effort_le [of Running] by (simp add: bq_work_def)
  ultimately show ?thesis using run by blast
qed

lemma bq_step_ok:
  assumes "bq_inv whole s" "bq_step dflt n s s'" "0 < n"
  shows "bq_inv whole s' \<and> bq_work s' < bq_work s"
  using assms(2,1,3)
proof cases
  case add
  then show ?thesis using producer_round_ok [OF assms(1) add(1,2), of dflt] by auto
next
  case retest
  then show ?thesis using retest_ok [OF assms(1)] by fastforce
next
  case fetch
  then show ?thesis using consumer_round_ok [OF assms(1) _ assms(3)] by fastforce
qed

lemma bq_run_ok:
  assumes "(bq_step dflt n)\<^sup>*\<^sup>* s s'" "bq_inv whole s" "0 < n"
  shows "bq_inv whole s'"
  using assms by (induction rule: rtranclp_induct) (auto dest: bq_step_ok)

lemma bq_stuck_done:
  assumes inv: "bq_inv whole s" and n: "0 < n" and stuck: "\<And>s'. \<not> bq_step dflt n s s'"
  shows "sy_out s = whole" "fq_list (sy_src s) = []"
proof -
  have wf: "bq_wf (sy_queue s)" "src_wf (sy_src s)" using inv by (simp_all add: bq_inv_def)
  have "sy_cons s = Waiting" using consumer_round_ok [OF inv _ n] stuck bq_step.fetch by metis
  then have e: "bq_list (sy_queue s) = []" using inv by (simp add: bq_inv_def)
  have "sy_prod s \<noteq> Woken" using retest_ok [OF inv] stuck bq_step.retest by metis
  moreover have "sy_prod s \<noteq> Waiting" using inv e bq_wf_counts(3) [OF wf(1)] by (auto simp: bq_inv_def)
  ultimately have "sy_prod s = Running" by (cases "sy_prod s") simp_all
  then have "fq_is_empty (sy_src s)" using producer_round_ok [OF inv] stuck bq_step.add by metis
  then show src: "fq_list (sy_src s) = []" using src_wf_counts(2) [OF wf(2)] by simp
  show "sy_out s = whole" using inv e src by (simp add: bq_inv_def)
qed

section \<open>Properties\<close>

text \<open>A queue with two slots that may grow to eight, and an array of three entries to add.\<close>

definition small_queue :: "nat fifo_queue" where
  "small_queue = \<lparr>fq_size_mask = 1, fq_buf = [0, 0], fq_allocated = True, fq_start = 0, fq_end = 0,
     fq_resizable = True, fq_node_id = 0\<rparr>"

lemma small_queue_wf: "fq_wf small_queue" "fq_list small_queue = []" "fq_cap small_queue = 2" "fq_resizable small_queue"
  by (auto simp: small_queue_def fq_wf_def fq_list_def intro!: exI [of _ 1])

lemma fq_wrap_src:
  assumes "length xs < 2 ^ 31"
  shows "src_wf (fq_wrap xs (length xs))" "fq_list (fq_wrap xs (length xs)) = xs"
proof -
  have "i AND INT_MAX = i" if "i < length xs" for i
  proof -
    have "i AND INT_MAX = take_bit 31 i" by (simp add: INT_MAX_def take_bit_eq_mask mask_eq_exp_minus_1)
    also have "\<dots> = i" using that assms by (intro take_bit_nat_eq_self) simp
    finally show ?thesis .
  qed
  then have loc: "loc_in_queue (fq_wrap xs (length xs)) i = i" if "i < length xs" for i
    using that by (simp add: loc_in_queue_def fq_wrap_def)
  then show l: "fq_list (fq_wrap xs (length xs)) = xs"
    by (intro nth_equalityI) (simp_all add: length_fq_list nth_fq_list, simp_all add: fq_wrap_def)
  show "src_wf (fq_wrap xs (length xs))"
    using assms l loc by (auto simp: src_wf_def fq_readable_def) (simp_all add: fq_wrap_def)
qed

text \<open>
  C34. The ring buffer is a bounded list. Adding an array appends as many of its entries as there is
  room for and reports their number, fetching takes entries from the front, and both always
  succeed; adding another queue moves as many entries as fit, in order, out of the one into the
  other, also across the end of the buffer.
\<close>

theorem fifo_queue_refines_list:
  assumes "fq_wf q" "fq_readable src"
  shows "(\<exists>q'. fq_add xs q = Inr (min (length xs) (fq_cap q - length (fq_list q)), q') \<and> fq_wf q'
      \<and> fq_list q' = fq_list q @ take (fq_cap q - length (fq_list q)) xs)
    \<and> (\<exists>q'. fq_fetch n q = Inr (take n (fq_list q), q') \<and> fq_wf q' \<and> fq_list q' = drop n (fq_list q))
    \<and> (\<exists>m q' src'. fq_add_queue src q = Inr (m, q', src') \<and> m = min (fq_cap q - length (fq_list q)) (length (fq_list src))
      \<and> fq_wf q' \<and> fq_list q' = fq_list q @ take m (fq_list src) \<and> fq_list src' = drop m (fq_list src))"
  using fq_add_ok [OF assms(1), of xs] ring.fetch_ok [OF assms(1), of n] fq_add_queue_ok [OF assms]
  by blast

theorem fifo_queue_refines_list_witness:
  "\<exists>q'. fq_add [5, 6, 7] small_queue = Inr (2, q') \<and> fq_list q' = [5, 6]"
  using fifo_queue_refines_list [OF small_queue_wf(1) fq_wf_readable [OF small_queue_wf(1)], of "[5, 6, 7]" 0]
  by (auto simp: small_queue_wf)

text \<open>
  A locked queue that may grow never refuses entries below its maximal size: \<^verbatim>\<open>add\<close> doubles the
  buffer until they fit, keeps the old entries in order and appends all the new ones.
\<close>

theorem locked_queue_grows:
  assumes "ts_wf q" "fq_resizable (ts_fifo q)" "ts_cap q + length xs \<le> ts_max_size q" "ts_max_size q \<le> 2 ^ 29"
  shows "\<exists>q'. ts_add dflt xs q = Inr (length xs, q') \<and> ts_wf q' \<and> ts_list q' = ts_list q @ xs"
  using ts_add_grows [OF assms] .

theorem locked_queue_grows_witness:
  "\<exists>q'. ts_add 0 [5, 6, 7] \<lparr>ts_fifo = small_queue, ts_max_size = 8\<rparr> = Inr (3, q') \<and> ts_list q' = [5, 6, 7]"
  using locked_queue_grows [of "\<lparr>ts_fifo = small_queue, ts_max_size = 8\<rparr>" "[5, 6, 7]" 0] small_queue_wf
  by auto

text \<open>
  C18. A producer and a consumer of a blocking queue, interleaved in any way. What has been fetched, what
  is in the queue and what is still to be added are together always the original sequence, in
  its order. Every step brings the end nearer, so every run ends, and where no step is possible
  everything has been delivered: no signal is lost and the two never wait for each other.
\<close>

theorem blocking_queue_delivers:
  assumes "bq_wf q" "src_wf src" "0 < n" "(bq_step dflt n)\<^sup>*\<^sup>* (bq_start q src) s"
  shows "sy_out s @ bq_list (sy_queue s) @ fq_list (sy_src s) = bq_list q @ fq_list src
    \<and> (\<forall>s'. bq_step dflt n s s' \<longrightarrow> bq_work s' < bq_work s)
    \<and> ((\<exists>s'. bq_step dflt n s s') \<or> sy_out s = bq_list q @ fq_list src)"
proof -
  let ?w = "bq_list q @ fq_list src"
  have "bq_inv ?w (bq_start q src)" using assms(1,2) by (simp add: bq_inv_def bq_start_def)
  then have inv: "bq_inv ?w s" by (rule bq_run_ok [OF assms(4) _ assms(3)])
  then have "sy_out s @ bq_list (sy_queue s) @ fq_list (sy_src s) = ?w" by (simp add: bq_inv_def)
  then show ?thesis using bq_step_ok [OF inv _ assms(3)] bq_stuck_done(1) [OF inv assms(3)] by blast
qed

theorem blocking_queue_delivers_witness:
  "let q = \<lparr>bq_fifo = small_queue, bq_num_empty = 0, bq_num_full = 0, bq_max_size = 2, bq_interrupted = False\<rparr>;
       s = bq_start q (fq_wrap [5, 6, 7] 3)
   in (\<exists>s'. bq_step 0 1 s s') \<and> bq_list (sy_queue s) @ fq_list (sy_src s) = [5, 6, 7]"
proof -
  let ?q = "\<lparr>bq_fifo = small_queue, bq_num_empty = 0, bq_num_full = 0, bq_max_size = 2, bq_interrupted = False\<rparr>"
  let ?src = "fq_wrap [5, 6, 7 :: nat] 3"
  have "bq_wf ?q" using small_queue_wf by (simp add: bq_wf_def)
  moreover have "src_wf ?src" "fq_list ?src = [5, 6, 7]" using fq_wrap_src [of "[5, 6, 7 :: nat]"] by (simp_all add: numeral_3_eq_3)
  ultimately show ?thesis
    using blocking_queue_delivers [of ?q ?src 1 0 "bq_start ?q ?src"] small_queue_wf(2) by (simp add: Let_def bq_start_def)
qed

end
