(* ===== verification/File_Mapper.thy ===== *)
theory File_Mapper
  imports Prelude
begin

text \<open>
  Where the pages of a SAFS file lie: \<^verbatim>\<open>libsafs/file_mapper.h\<close> and \<^verbatim>\<open>.cpp\<close> (striping over the disks of a RAID)
  and \<^verbatim>\<open>libsafs/file_partition.h\<close> (the part of a file one I/O thread owns).

  Page offsets, sizes and block numbers are natural numbers; on these the division of C++ is the one
  of the library. A mapper without files divides by zero (\<open>Undefined_behaviour\<close>). The start disk of the
  RAID mappers, a static member the program draws at random, is the argument \<open>start\<close>.

  The locale \<open>striping\<close> is the contract of a way of striping: a block can be found again from its place, and
  among the last few blocks of a file there is one on every disk that lies behind all others there. In
  it are proved that no two pages share a place and that the file sizes computed for the disks
  hold all pages. The three mappers interpret it.
\<close>

section \<open>Mappers\<close>

definition FILE_CONST_A :: nat where "FILE_CONST_A = 31"
definition FILE_CONST_P :: nat where "FILE_CONST_P = 191"

record block_identifier =
  bi_idx :: nat
  bi_off :: nat

record part_file_info =
  pf_name :: string
  pf_disk_id :: int
  pf_node_id :: int

datatype mapping_option = RAID0 | RAID5 | HASH

record file_mapper =
  fm_option :: mapping_option
  fm_file_id :: int
  fm_files :: "part_file_info list"
  fm_name :: string
  fm_block_size :: nat

definition get_num_files :: "file_mapper \<Rightarrow> nat" where
  "get_num_files m = length (fm_files m)"

definition get_file_name :: "file_mapper \<Rightarrow> nat \<Rightarrow> string res" where
  "get_file_name m i = (if i < length (fm_files m) then Inr (pf_name (fm_files m ! i)) else Inl Undefined_behaviour)"

definition get_file_node_id :: "file_mapper \<Rightarrow> nat \<Rightarrow> int res" where
  "get_file_node_id m i = (if i < length (fm_files m) then Inr (pf_node_id (fm_files m ! i)) else Inl Undefined_behaviour)"

definition get_disk_id :: "file_mapper \<Rightarrow> nat \<Rightarrow> int res" where
  "get_disk_id m i = (if i < length (fm_files m) then Inr (pf_disk_id (fm_files m ! i)) else Inl Undefined_behaviour)"

text \<open>The constructor asserts the block size; \<open>gen\<close> is the counter of file ids, which it advances.\<close>

definition new_file_mapper ::
  "mapping_option \<Rightarrow> int \<Rightarrow> string \<Rightarrow> part_file_info list \<Rightarrow> nat \<Rightarrow> (file_mapper \<times> int) res" where
  "new_file_mapper opt gen name files block =
     assert_then (0 < block)
       (Inr (\<lparr>fm_option = opt, fm_file_id = gen + 1, fm_files = files, fm_name = name, fm_block_size = block\<rparr>, gen + 1))"

definition create_mapper ::
  "nat \<Rightarrow> nat \<Rightarrow> int \<Rightarrow> part_file_info list \<Rightarrow> string \<Rightarrow> (file_mapper \<times> int) option res" where
  "create_mapper block opt gen files name =
     (if block = 0 then Inr None
      else if opt = 0 then bind_res (new_file_mapper RAID0 gen name files block) (\<lambda>m. Inr (Some m))
      else if opt = 1 then bind_res (new_file_mapper RAID5 gen name files block) (\<lambda>m. Inr (Some m))
      else if opt = 2 then bind_res (new_file_mapper HASH gen name files block) (\<lambda>m. Inr (Some m))
      else Inr None)"

text \<open>\<open>draws\<close> are the numbers \<^verbatim>\<open>random()\<close> returns, one after the other.\<close>

fun gen_RAID_rand_start :: "nat list \<Rightarrow> nat \<Rightarrow> nat res" where
  "gen_RAID_rand_start [] num_files = Inl Out_of_steps"
| "gen_RAID_rand_start (r # draws) num_files =
     (if r = 0 then gen_RAID_rand_start draws num_files
      else if num_files = 0 then Inl Undefined_behaviour
      else Inr (r mod num_files))"

subsection \<open>RAID0\<close>

definition RAID0_map :: "nat \<Rightarrow> file_mapper \<Rightarrow> nat \<Rightarrow> block_identifier res" where
  "RAID0_map start m off =
     (if fm_block_size m = 0 \<or> get_num_files m = 0 then Inl Undefined_behaviour
      else let idx_in_block = off mod fm_block_size m; block_idx = off div fm_block_size m in
        Inr \<lparr>bi_idx = (block_idx + start) mod get_num_files m,
             bi_off = block_idx div get_num_files m * fm_block_size m + idx_in_block\<rparr>)"

definition RAID0_map2file :: "nat \<Rightarrow> file_mapper \<Rightarrow> nat \<Rightarrow> nat res" where
  "RAID0_map2file start m off =
     (if fm_block_size m = 0 \<or> get_num_files m = 0 then Inl Undefined_behaviour
      else Inr ((off div fm_block_size m + start) mod get_num_files m))"

subsection \<open>RAID5\<close>

definition RAID5_map :: "nat \<Rightarrow> file_mapper \<Rightarrow> nat \<Rightarrow> block_identifier res" where
  "RAID5_map start m off =
     (if fm_block_size m = 0 \<or> get_num_files m = 0 then Inl Undefined_behaviour
      else let idx_in_block = off mod fm_block_size m; block_idx = off div fm_block_size m;
               idx = block_idx mod get_num_files m;
               shift = block_idx div get_num_files m mod get_num_files m in
        Inr \<lparr>bi_idx = (idx + shift + start) mod get_num_files m,
             bi_off = block_idx div get_num_files m * fm_block_size m + idx_in_block\<rparr>)"

definition RAID5_map2file :: "nat \<Rightarrow> file_mapper \<Rightarrow> nat \<Rightarrow> nat res" where
  "RAID5_map2file start m off =
     (if fm_block_size m = 0 \<or> get_num_files m = 0 then Inl Undefined_behaviour
      else let block_idx = off div fm_block_size m;
               shift = block_idx div get_num_files m mod get_num_files m in
        Inr ((block_idx mod get_num_files m + shift + start) mod get_num_files m))"

subsection \<open>Hashing\<close>

definition cycle_size_in_bucket :: "nat \<Rightarrow> nat \<Rightarrow> nat" where
  "cycle_size_in_bucket n idx =
     (if idx < FILE_CONST_P mod n then FILE_CONST_P div n + 1 else FILE_CONST_P div n)"

definition hash_map :: "file_mapper \<Rightarrow> nat \<Rightarrow> block_identifier res" where
  "hash_map m off =
     (if fm_block_size m = 0 \<or> get_num_files m = 0 then Inl Undefined_behaviour
      else let idx_in_block = off mod fm_block_size m; block_idx = off div fm_block_size m;
               p_idx = FILE_CONST_A * block_idx mod FILE_CONST_P;
               idx = p_idx mod get_num_files m;
               cycle_idx = block_idx div FILE_CONST_P;
               cycle_len_in_bucket = cycle_size_in_bucket (get_num_files m) idx in
        Inr \<lparr>bi_idx = idx,
             bi_off = (cycle_idx * cycle_len_in_bucket + p_idx div get_num_files m) * fm_block_size m + idx_in_block\<rparr>)"

definition hash_map2file :: "file_mapper \<Rightarrow> nat \<Rightarrow> nat res" where
  "hash_map2file m off =
     (if fm_block_size m = 0 \<or> get_num_files m = 0 then Inl Undefined_behaviour
      else Inr (FILE_CONST_A * (off div fm_block_size m) mod FILE_CONST_P mod get_num_files m))"

subsection \<open>Dispatch and file sizes\<close>

definition fm_map :: "nat \<Rightarrow> file_mapper \<Rightarrow> nat \<Rightarrow> block_identifier res" where
  "fm_map start m off =
     (case fm_option m of RAID0 \<Rightarrow> RAID0_map start m off | RAID5 \<Rightarrow> RAID5_map start m off | HASH \<Rightarrow> hash_map m off)"

definition fm_map2file :: "nat \<Rightarrow> file_mapper \<Rightarrow> nat \<Rightarrow> nat res" where
  "fm_map2file start m off =
     (case fm_option m of RAID0 \<Rightarrow> RAID0_map2file start m off | RAID5 \<Rightarrow> RAID5_map2file start m off
      | HASH \<Rightarrow> hash_map2file m off)"

text \<open>The loop over the last blocks of a file; \<open>k\<close> are the rounds left.\<close>

fun size_loop :: "(nat \<Rightarrow> block_identifier res) \<Rightarrow> nat \<Rightarrow> nat \<Rightarrow> nat \<Rightarrow> nat \<Rightarrow> nat list \<Rightarrow> nat list res" where
  "size_loop mp block sz i 0 ret = Inr ret"
| "size_loop mp block sz i (Suc k) ret =
     (if sz < i * block then Inr ret
      else if block = 0 then Inl Undefined_behaviour
      else bind_res (mp ((sz div block - i) * block + block - 1)) (\<lambda>bid.
        if bi_idx bid < length ret
        then size_loop mp block sz (Suc i) k (ret[bi_idx bid := max (bi_off bid + 1) (ret ! bi_idx bid)])
        else Inl Undefined_behaviour))"

definition get_size_per_disk :: "nat \<Rightarrow> file_mapper \<Rightarrow> nat \<Rightarrow> nat list res" where
  "get_size_per_disk start m sz =
     size_loop (fm_map start m) (fm_block_size m) sz 0
       (case fm_option m of HASH \<Rightarrow> FILE_CONST_P | _ \<Rightarrow> get_num_files m * 2)
       (replicate (get_num_files m) 0)"

section \<open>The part of a file on some disks\<close>

record file_partition =
  lp_mapper :: "file_mapper option"
  lp_indices :: "nat list"
  lp_file_map :: "int list"

fun index_files :: "nat \<Rightarrow> nat list \<Rightarrow> int list \<Rightarrow> int list res" where
  "index_files i [] fm = Inr fm"
| "index_files i (d # ds) fm =
     (if d < length fm then index_files (Suc i) ds (fm[d := int i]) else Inl Undefined_behaviour)"

definition new_partition :: "nat list \<Rightarrow> file_mapper \<Rightarrow> file_partition res" where
  "new_partition indices m =
     bind_res (index_files 0 indices (replicate (get_num_files m) (- 1))) (\<lambda>fm.
       Inr \<lparr>lp_mapper = Some m, lp_indices = indices, lp_file_map = fm\<rparr>)"

definition lp_local :: "file_partition \<Rightarrow> nat \<Rightarrow> nat res" where
  "lp_local lp d =
     (if d < length (lp_file_map lp)
      then assert_then (0 \<le> lp_file_map lp ! d) (Inr (nat (lp_file_map lp ! d)))
      else Inl Undefined_behaviour)"

definition lp_map :: "nat \<Rightarrow> file_partition \<Rightarrow> nat \<Rightarrow> block_identifier res" where
  "lp_map start lp off =
     (case lp_mapper lp of
        None \<Rightarrow> Inl Assert_failed
      | Some m \<Rightarrow> bind_res (fm_map start m off) (\<lambda>bid.
          bind_res (lp_local lp (bi_idx bid)) (\<lambda>i. Inr (bid\<lparr>bi_idx := i\<rparr>))))"

definition lp_map2file :: "nat \<Rightarrow> file_partition \<Rightarrow> nat \<Rightarrow> nat res" where
  "lp_map2file start lp off =
     (case lp_mapper lp of
        None \<Rightarrow> Inl Assert_failed
      | Some m \<Rightarrow> bind_res (fm_map2file start m off) (lp_local lp))"

definition lp_get_file_name :: "file_partition \<Rightarrow> nat \<Rightarrow> string res" where
  "lp_get_file_name lp i =
     (case lp_mapper lp of
        None \<Rightarrow> Inl Assert_failed
      | Some m \<Rightarrow> if i < length (lp_indices lp) then get_file_name m (lp_indices lp ! i) else Inl Undefined_behaviour)"

definition lp_get_disk_id :: "file_partition \<Rightarrow> nat \<Rightarrow> int res" where
  "lp_get_disk_id lp i =
     (case lp_mapper lp of
        None \<Rightarrow> Inl Assert_failed
      | Some m \<Rightarrow> if i < length (lp_indices lp) then get_disk_id m (lp_indices lp ! i) else Inl Undefined_behaviour)"

section \<open>The contract of striping\<close>

locale striping =
  fixes place :: "nat \<Rightarrow> nat \<times> nat"
    and unplace :: "nat \<times> nat \<Rightarrow> nat"
    and disks :: nat
    and window :: nat
  assumes on_disk: "fst (place b) < disks"
    and unplace: "unplace (place b) = b"
    and last_on_disk: "b \<le> s \<Longrightarrow> \<exists>i < window. i \<le> s \<and> fst (place (s - i)) = fst (place b)
      \<and> snd (place b) \<le> snd (place (s - i))"
begin

text \<open>The place of a page, with blocks of \<open>block\<close> pages.\<close>

definition page_place :: "nat \<Rightarrow> nat \<Rightarrow> block_identifier" where
  "page_place block off = \<lparr>bi_idx = fst (place (off div block)),
     bi_off = snd (place (off div block)) * block + off mod block\<rparr>"

definition page_at :: "nat \<Rightarrow> block_identifier \<Rightarrow> nat" where
  "page_at block bid = unplace (bi_idx bid, bi_off bid div block) * block + bi_off bid mod block"

lemma page_at_place: "0 < block \<Longrightarrow> page_at block (page_place block off) = off"
  by (simp add: page_at_def page_place_def unplace)

lemma page_place_inj: "0 < block \<Longrightarrow> page_place block off = page_place block off' \<Longrightarrow> off = off'"
  by (metis page_at_place)

lemma size_loop_grows:
  assumes "size_loop (\<lambda>off. Inr (page_place block off)) block sz i k ret = Inr ret'"
  shows "length ret' = length ret \<and> (\<forall>d < length ret. ret ! d \<le> ret' ! d)"
  using assms
proof (induction k arbitrary: i ret)
  case (Suc k)
  show ?case
  proof (cases "sz < i * block")
    case True
    then show ?thesis using Suc.prems by simp
  next
    case False
    let ?bid = "page_place block ((sz div block - i) * block + block - 1)"
    let ?r = "ret[bi_idx ?bid := max (bi_off ?bid + 1) (ret ! bi_idx ?bid)]"
    have "size_loop (\<lambda>off. Inr (page_place block off)) block sz (Suc i) k ?r = Inr ret'" "bi_idx ?bid < length ret"
      using Suc.prems False by (simp_all split: if_splits)
    then have r: "length ret' = length ret" "\<forall>d < length ret. ?r ! d \<le> ret' ! d" using Suc.IH [of "Suc i" ?r] by simp_all
    have "ret ! d \<le> ?r ! d" if "d < length ret" for d using that by (rule nth_le_update_max)
    then show ?thesis using r by (meson order_trans)
  qed
qed simp

lemma size_loop_ok:
  assumes "0 < block" "length ret = disks"
  shows "\<exists>ret'. size_loop (\<lambda>off. Inr (page_place block off)) block sz i k ret = Inr ret' \<and> length ret' = disks
    \<and> (\<forall>j. i \<le> j \<longrightarrow> j < i + k \<longrightarrow> j \<le> sz div block \<longrightarrow>
        (snd (place (sz div block - j)) + 1) * block \<le> ret' ! fst (place (sz div block - j)))"
  using assms(2)
proof (induction k arbitrary: i ret)
  case (Suc k)
  show ?case
  proof (cases "sz < i * block")
    case True
    then have "sz div block < i" using assms(1) by (simp add: div_less_iff_less_mult)
    then show ?thesis using True Suc.prems by auto
  next
    case False
    define b where "b = sz div block - i"
    let ?bid = "page_place block (b * block + block - 1)"
    note q = last_of_block [OF assms(1), of b]
    have bid: "bi_idx ?bid = fst (place b)" "bi_off ?bid + 1 = (snd (place b) + 1) * block"
      unfolding page_place_def q using assms(1) by simp_all
    let ?r = "ret[fst (place b) := max (bi_off ?bid + 1) (ret ! fst (place b))]"
    have "length ?r = disks" using Suc.prems by simp
    from Suc.IH [OF this, of "Suc i"] obtain ret' where r:
      "size_loop (\<lambda>off. Inr (page_place block off)) block sz (Suc i) k ?r = Inr ret'" "length ret' = disks"
      "\<forall>j. Suc i \<le> j \<longrightarrow> j < Suc i + k \<longrightarrow> j \<le> sz div block \<longrightarrow>
        (snd (place (sz div block - j)) + 1) * block \<le> ret' ! fst (place (sz div block - j))" by blast
    have "fst (place b) < length ?r" using on_disk [of b] Suc.prems by simp
    then have "?r ! fst (place b) \<le> ret' ! fst (place b)" using size_loop_grows [OF r(1)] by blast
    then have here: "(snd (place b) + 1) * block \<le> ret' ! fst (place b)"
      using on_disk [of b] Suc.prems bid(2) by simp
    have run: "size_loop (\<lambda>off. Inr (page_place block off)) block sz i (Suc k) ret = Inr ret'"
      using False assms(1) r(1) Suc.prems on_disk [of b] bid by (simp add: b_def)
    have all: "(snd (place (sz div block - j)) + 1) * block \<le> ret' ! fst (place (sz div block - j))"
      if "i \<le> j" "j < i + Suc k" "j \<le> sz div block" for j
    proof (cases "j = i")
      case True
      then show ?thesis using here by (simp add: b_def)
    next
      case False
      then show ?thesis using r(3) that by auto
    qed
    show ?thesis using run r(2) all by blast
  qed
qed simp

lemma sizes_cover:
  assumes "0 < block" "off < sz"
    and run: "size_loop (\<lambda>off. Inr (page_place block off)) block sz 0 window (replicate disks 0) = Inr ret"
  shows "bi_off (page_place block off) < ret ! bi_idx (page_place block off)"
proof -
  let ?s = "sz div block" and ?b = "off div block"
  have "?b \<le> ?s" using assms(2) by (simp add: div_le_mono)
  then obtain i where i: "i < window" "i \<le> ?s" "fst (place (?s - i)) = fst (place ?b)"
    "snd (place ?b) \<le> snd (place (?s - i))"
    using last_on_disk by blast
  obtain ret' where "size_loop (\<lambda>off. Inr (page_place block off)) block sz 0 window (replicate disks 0) = Inr ret'"
    "\<forall>j. 0 \<le> j \<longrightarrow> j < 0 + window \<longrightarrow> j \<le> ?s \<longrightarrow>
      (snd (place (?s - j)) + 1) * block \<le> ret' ! fst (place (?s - j))"
    using size_loop_ok [OF assms(1), of "replicate disks 0" sz 0 window] by auto
  then have top: "(snd (place (?s - i)) + 1) * block \<le> ret ! fst (place ?b)" using run i by auto
  have "snd (place ?b) * block + off mod block < (snd (place ?b) + 1) * block" using assms(1) by simp
  also have "\<dots> \<le> (snd (place (?s - i)) + 1) * block" using i(4) by simp
  finally show ?thesis using top by (simp add: page_place_def)
qed

end

section \<open>The three mappers\<close>

definition RAID0_place :: "nat \<Rightarrow> nat \<Rightarrow> nat \<Rightarrow> nat \<times> nat" where
  "RAID0_place start n b = ((b + start) mod n, b div n)"

definition RAID0_unplace :: "nat \<Rightarrow> nat \<Rightarrow> nat \<times> nat \<Rightarrow> nat" where
  "RAID0_unplace start n p = snd p * n + (fst p + (n - start mod n)) mod n"

definition RAID5_place :: "nat \<Rightarrow> nat \<Rightarrow> nat \<Rightarrow> nat \<times> nat" where
  "RAID5_place start n b = ((b mod n + b div n mod n + start) mod n, b div n)"

definition RAID5_unplace :: "nat \<Rightarrow> nat \<Rightarrow> nat \<times> nat \<Rightarrow> nat" where
  "RAID5_unplace start n p = RAID0_unplace (snd p + start) n p"

definition hash_place :: "nat \<Rightarrow> nat \<Rightarrow> nat \<times> nat" where
  "hash_place n b =
     (let p = FILE_CONST_A * b mod FILE_CONST_P
      in (p mod n, b div FILE_CONST_P * cycle_size_in_bucket n (p mod n) + p div n))"

text \<open>37 is the inverse of the factor modulo 191.\<close>

definition hash_unplace :: "nat \<Rightarrow> nat \<times> nat \<Rightarrow> nat" where
  "hash_unplace n p =
     (let len = cycle_size_in_bucket n (fst p)
      in snd p div len * FILE_CONST_P + 37 * (snd p mod len * n + fst p) mod FILE_CONST_P)"

lemma rotate_back:
  assumes "0 < (n :: nat)" "x < n"
  shows "((x + r) mod n + (n - r mod n)) mod n = x"
proof -
  have "r mod n < n" using assms(1) by simp
  have "((x + r) mod n + (n - r mod n)) mod n = (x + r mod n + (n - r mod n)) mod n"
    by (intro mod_add_cong) (simp_all add: mod_simps)
  also have "\<dots> = (x + n) mod n" using \<open>r mod n < n\<close> by simp
  finally show ?thesis using assms by simp
qed

lemma RAID0_unplace_ok: "0 < n \<Longrightarrow> RAID0_unplace start n ((b + start) mod n, b div n) = b"
  using rotate_back [of n "b mod n" start] by (simp add: RAID0_unplace_def mod_add_left_eq)

interpretation raid0: striping "RAID0_place start (Suc k)" "RAID0_unplace start (Suc k)" "Suc k" "Suc k * 2" for start k
proof
  fix b s :: nat
  let ?n = "Suc k"
  show "fst (RAID0_place start ?n b) < ?n" by (simp add: RAID0_place_def)
  show "RAID0_unplace start ?n (RAID0_place start ?n b) = b" by (simp add: RAID0_place_def RAID0_unplace_ok)
  assume le: "b \<le> s"
  define i where "i = (s - b) mod ?n"
  have i: "i < ?n" "i \<le> s - b" by (simp_all add: i_def)
  have "?n dvd (s - b) - i" unfolding i_def by (rule dvd_minus_mod)
  then have "?n dvd (s - i) - b" by (simp only: diff_commute)
  moreover have bs: "b \<le> s - i" using le i(2) by linarith
  ultimately have "(s - i) mod ?n = b mod ?n" using mod_eq_dvd_iff_nat by blast
  then have "(s - i + start) mod ?n = (b + start) mod ?n" by (metis mod_add_left_eq)
  moreover have "b div ?n \<le> (s - i) div ?n" using bs by (rule div_le_mono)
  ultimately show "\<exists>i < ?n * 2. i \<le> s \<and> fst (RAID0_place start ?n (s - i)) = fst (RAID0_place start ?n b)
      \<and> snd (RAID0_place start ?n b) \<le> snd (RAID0_place start ?n (s - i))"
    using i le by (intro exI [of _ i]) (simp add: RAID0_place_def)
qed

text \<open>In every row of a RAID5 file each disk has exactly one block.\<close>

lemma RAID5_row:
  assumes "0 < n" "d < n"
  shows "\<exists>c < n. fst (RAID5_place start n (r * n + c)) = d"
proof -
  let ?c = "(d + (n - (r + start) mod n)) mod n"
  have c: "?c < n" using assms(1) by simp
  have "(r + start) mod n < n" using assms(1) by simp
  have "(?c + (r mod n + start)) mod n = (d + (n - (r + start) mod n) + (r + start) mod n) mod n"
    by (intro mod_add_cong) (simp_all add: mod_simps)
  also have "d + (n - (r + start) mod n) + (r + start) mod n = d + n" using \<open>(r + start) mod n < n\<close> by simp
  also have "(d + n) mod n = d" using assms by simp
  finally show ?thesis using c by (auto simp: RAID5_place_def add.assoc intro!: exI [of _ ?c])
qed

lemma RAID5_unplace_ok: "0 < n \<Longrightarrow> RAID5_unplace start n (RAID5_place start n b) = b"
proof -
  assume n: "0 < n"
  have "(b mod n + b div n mod n + start) mod n = (b + (b div n + start)) mod n"
    unfolding add.assoc by (intro mod_add_cong) (simp_all add: mod_simps)
  then show ?thesis using RAID0_unplace_ok [OF n, of "b div n + start" b] by (simp add: RAID5_unplace_def RAID5_place_def)
qed

interpretation raid5: striping "RAID5_place start (Suc k)" "RAID5_unplace start (Suc k)" "Suc k" "Suc k * 2" for start k
proof
  fix b s :: nat
  let ?n = "Suc k" and ?p = "RAID5_place start (Suc k)"
  show disk: "fst (?p b) < ?n" by (simp add: RAID5_place_def)
  show "RAID5_unplace start ?n (?p b) = b" by (rule RAID5_unplace_ok) simp
  assume le: "b \<le> s"
  have snd: "snd (?p x) = x div ?n" for x by (simp add: RAID5_place_def)
  show "\<exists>i < ?n * 2. i \<le> s \<and> fst (?p (s - i)) = fst (?p b) \<and> snd (?p b) \<le> snd (?p (s - i))"
  proof (cases "b div ?n = s div ?n")
    case True
    define a where "a = s div ?n * ?n"
    have "s = a + s mod ?n" unfolding a_def by (simp only: div_mult_mod_eq)
    moreover have "b = a + b mod ?n" unfolding a_def True [symmetric] by (simp only: div_mult_mod_eq)
    moreover have "s mod ?n \<le> k" using mod_less_divisor [of ?n s, OF zero_less_Suc] by (simp only: less_Suc_eq_le)
    ultimately have "s \<le> a + k" "a \<le> b" by linarith+
    then have "s - b < ?n * 2" by simp
    then show ?thesis using le by (intro exI [of _ "s - b"]) simp
  next
    case False
    then have lt: "b div ?n < s div ?n" using le by (simp add: div_le_mono le_neq_implies_less)
    define r where "r = s div ?n - 1"
    obtain c where c: "c < ?n" "fst (?p (r * ?n + c)) = fst (?p b)" using RAID5_row [OF _ disk, of start r] by auto
    have r: "s div ?n = Suc r" "b div ?n \<le> r" using lt by (simp_all add: r_def)
    define a where "a = r * ?n"
    have "s = Suc r * ?n + s mod ?n" using r(1) by (metis div_mult_mod_eq)
    then have "s = a + ?n + s mod ?n" by (simp add: a_def)
    moreover have "s mod ?n \<le> k" using mod_less_divisor [of ?n s, OF zero_less_Suc] by (simp only: less_Suc_eq_le)
    ultimately have "a + ?n \<le> s" "s \<le> a + ?n + k" by linarith+
    then have "a + c \<le> s" "s - (a + c) < ?n * 2" using c(1) by simp_all
    then have "r * ?n + c \<le> s" "s - (r * ?n + c) < ?n * 2" by (simp_all add: a_def)
    moreover have "(r * ?n + c) div ?n = r" using c(1) div_mult_self3 [of ?n r c] by simp
    ultimately show ?thesis
      using c(2) r(2) by (intro exI [of _ "s - (r * ?n + c)"]) (simp add: snd)
  qed
qed

text \<open>The hash mapper goes through all residues modulo 191 once in a cycle.\<close>

lemma cycle_size_pos:
  assumes "0 < n"
  shows "p < FILE_CONST_P \<Longrightarrow> p div n < cycle_size_in_bucket n (p mod n)"
proof -
  assume p: "p < FILE_CONST_P"
  show "p div n < cycle_size_in_bucket n (p mod n)"
  proof (cases "p mod n < FILE_CONST_P mod n")
    case True
    then show ?thesis using p by (simp add: cycle_size_in_bucket_def less_Suc_eq_le div_le_mono)
  next
    case False
    have "p div n < FILE_CONST_P div n"
    proof (rule ccontr)
      assume "\<not> p div n < FILE_CONST_P div n"
      then have "FILE_CONST_P div n * n \<le> p div n * n" by simp
      then have "FILE_CONST_P \<le> p"
        using False div_mult_mod_eq [of p n] div_mult_mod_eq [of FILE_CONST_P n] by linarith
      then show False using p by simp
    qed
    then show ?thesis using False by (simp add: cycle_size_in_bucket_def)
  qed
qed

lemma hash_unplace_ok:
  assumes "0 < n"
  shows "hash_unplace n (hash_place n b) = b"
proof -
  define p len where "p = FILE_CONST_A * b mod FILE_CONST_P" and "len = cycle_size_in_bucket n (p mod n)"
  have p: "p < FILE_CONST_P" by (simp add: p_def FILE_CONST_P_def)
  have len: "p div n < len" unfolding len_def using cycle_size_pos [OF assms p] .
  then have q: "(b div FILE_CONST_P * len + p div n) div len = b div FILE_CONST_P"
    "(b div FILE_CONST_P * len + p div n) mod len = p div n" by simp_all
  have "37 * p mod FILE_CONST_P = 37 * (FILE_CONST_A * b) mod FILE_CONST_P"
    unfolding p_def by (simp only: mod_mult_right_eq)
  also have "\<dots> = b mod FILE_CONST_P"
  proof -
    have "37 * (FILE_CONST_A * b) = b + 6 * b * FILE_CONST_P" by (simp add: FILE_CONST_A_def FILE_CONST_P_def)
    then show ?thesis by (simp only: mod_mult_self1)
  qed
  finally have "37 * p mod FILE_CONST_P = b mod FILE_CONST_P" .
  moreover have "hash_unplace n (hash_place n b) = b div FILE_CONST_P * FILE_CONST_P
      + 37 * (p div n * n + p mod n) mod FILE_CONST_P"
    using q by (simp only: hash_unplace_def hash_place_def Let_def fst_conv snd_conv p_def [symmetric] len_def [symmetric])
  ultimately show ?thesis by (simp only: div_mult_mod_eq)
qed

interpretation hashed: striping "hash_place (Suc k)" "hash_unplace (Suc k)" "Suc k" FILE_CONST_P for k
proof
  fix b s :: nat
  let ?n = "Suc k" and ?P = FILE_CONST_P
  show "fst (hash_place ?n b) < ?n" by (simp add: hash_place_def Let_def)
  show "hash_unplace ?n (hash_place ?n b) = b" by (rule hash_unplace_ok) simp
  assume le: "b \<le> s"
  define i where "i = (s - b) mod ?P"
  have P: "0 < ?P" by (simp add: FILE_CONST_P_def)
  have i: "i < ?P" "i \<le> s - b" using P by (simp_all add: i_def)
  have "?P dvd (s - b) - i" unfolding i_def by (rule dvd_minus_mod)
  then have "?P dvd (s - i) - b" by (simp only: diff_commute)
  moreover have bs: "b \<le> s - i" using le i(2) by linarith
  ultimately have "(s - i) mod ?P = b mod ?P" using mod_eq_dvd_iff_nat by blast
  then have "FILE_CONST_A * (s - i) mod ?P = FILE_CONST_A * b mod ?P" by (rule mod_mult_cong [OF refl])
  moreover have "b div ?P \<le> (s - i) div ?P" using bs by (rule div_le_mono)
  ultimately show "\<exists>i < ?P. i \<le> s \<and> fst (hash_place ?n (s - i)) = fst (hash_place ?n b)
      \<and> snd (hash_place ?n b) \<le> snd (hash_place ?n (s - i))"
    using i le by (intro exI [of _ i]) (simp add: hash_place_def Let_def)
qed

section \<open>Mappers as striping\<close>

definition fm_wf :: "file_mapper \<Rightarrow> bool" where
  "fm_wf m \<longleftrightarrow> 0 < fm_block_size m \<and> fm_files m \<noteq> []"

lemma RAID0_map_place:
  assumes "fm_wf m" "get_num_files m = Suc k"
  shows "RAID0_map start m off = Inr (raid0.page_place start k (fm_block_size m) off)"
    "RAID0_map2file start m off = Inr (bi_idx (raid0.page_place start k (fm_block_size m) off))"
  using assms by (simp_all add: RAID0_map_def RAID0_map2file_def raid0.page_place_def RAID0_place_def fm_wf_def Let_def)

lemma RAID5_map_place:
  assumes "fm_wf m" "get_num_files m = Suc k"
  shows "RAID5_map start m off = Inr (raid5.page_place start k (fm_block_size m) off)"
    "RAID5_map2file start m off = Inr (bi_idx (raid5.page_place start k (fm_block_size m) off))"
  using assms by (simp_all add: RAID5_map_def RAID5_map2file_def raid5.page_place_def RAID5_place_def fm_wf_def Let_def)

lemma hash_map_place:
  assumes "fm_wf m" "get_num_files m = Suc k"
  shows "hash_map m off = Inr (hashed.page_place k (fm_block_size m) off)"
    "hash_map2file m off = Inr (bi_idx (hashed.page_place k (fm_block_size m) off))"
  using assms by (simp_all add: hash_map_def hash_map2file_def hashed.page_place_def hash_place_def fm_wf_def Let_def)

text \<open>The page at a place on the disks, the inverse of the mapping.\<close>

definition fm_page_at :: "nat \<Rightarrow> file_mapper \<Rightarrow> block_identifier \<Rightarrow> nat" where
  "fm_page_at start m bid =
     (let n = get_num_files m; b = fm_block_size m; p = (bi_idx bid, bi_off bid div b) in
      (case fm_option m of RAID0 \<Rightarrow> RAID0_unplace start n p | RAID5 \<Rightarrow> RAID5_unplace start n p
       | HASH \<Rightarrow> hash_unplace n p) * b + bi_off bid mod b)"

lemma num_files_Suc:
  assumes "fm_wf m"
  obtains k where "get_num_files m = Suc k"
  using assms by (cases "get_num_files m") (auto simp: fm_wf_def get_num_files_def)

lemma fm_map_ok:
  assumes wf: "fm_wf m"
  shows "\<exists>bid. fm_map start m off = Inr bid \<and> fm_map2file start m off = Inr (bi_idx bid)
    \<and> bi_idx bid < get_num_files m \<and> fm_page_at start m bid = off"
proof -
  obtain k where k: "get_num_files m = Suc k" using num_files_Suc [OF wf] .
  have b: "0 < fm_block_size m" using wf by (simp add: fm_wf_def)
  show ?thesis
  proof (cases "fm_option m")
    case RAID0
    then show ?thesis
      using RAID0_map_place [OF wf k] raid0.page_at_place [OF b, of start k off] raid0.on_disk [of start k]
      by (simp add: fm_map_def fm_map2file_def fm_page_at_def k raid0.page_at_def Let_def)
        (simp add: raid0.page_place_def)
  next
    case RAID5
    then show ?thesis
      using RAID5_map_place [OF wf k] raid5.page_at_place [OF b, of start k off] raid5.on_disk [of start k]
      by (simp add: fm_map_def fm_map2file_def fm_page_at_def k raid5.page_at_def Let_def)
        (simp add: raid5.page_place_def)
  next
    case HASH
    then show ?thesis
      using hash_map_place [OF wf k] hashed.page_at_place [OF b, of k off] hashed.on_disk [of k]
      by (simp add: fm_map_def fm_map2file_def fm_page_at_def k hashed.page_at_def Let_def)
        (simp add: hashed.page_place_def)
  qed
qed

lemma get_size_per_disk_ok:
  assumes wf: "fm_wf m"
  shows "\<exists>ret. get_size_per_disk start m sz = Inr ret \<and> length ret = get_num_files m
    \<and> (\<forall>off < sz. \<forall>bid. fm_map start m off = Inr bid \<longrightarrow> bi_off bid < ret ! bi_idx bid)"
proof -
  obtain k where k: "get_num_files m = Suc k" using num_files_Suc [OF wf] .
  have b: "0 < fm_block_size m" using wf by (simp add: fm_wf_def)
  have l: "length (replicate (Suc k) 0) = Suc k" by simp
  show ?thesis
  proof (cases "fm_option m")
    case RAID0
    then have m: "fm_map start m = (\<lambda>off. Inr (raid0.page_place start k (fm_block_size m) off))"
      using RAID0_map_place(1) [OF wf k] by (simp add: fun_eq_iff fm_map_def)
    obtain ret where "get_size_per_disk start m sz = Inr ret" "length ret = Suc k"
      using raid0.size_loop_ok [OF b l, of start sz 0 "Suc k * 2"] RAID0 unfolding get_size_per_disk_def m k by auto
    then show ?thesis
      using raid0.sizes_cover [OF b, of _ sz start k ret] RAID0 m k unfolding get_size_per_disk_def by auto
  next
    case RAID5
    then have m: "fm_map start m = (\<lambda>off. Inr (raid5.page_place start k (fm_block_size m) off))"
      using RAID5_map_place(1) [OF wf k] by (simp add: fun_eq_iff fm_map_def)
    obtain ret where "get_size_per_disk start m sz = Inr ret" "length ret = Suc k"
      using raid5.size_loop_ok [OF b l, of start sz 0 "Suc k * 2"] RAID5 unfolding get_size_per_disk_def m k by auto
    then show ?thesis
      using raid5.sizes_cover [OF b, of _ sz start k ret] RAID5 m k unfolding get_size_per_disk_def by auto
  next
    case HASH
    then have m: "fm_map start m = (\<lambda>off. Inr (hashed.page_place k (fm_block_size m) off))"
      using hash_map_place(1) [OF wf k] by (simp add: fun_eq_iff fm_map_def)
    obtain ret where "get_size_per_disk start m sz = Inr ret" "length ret = Suc k"
      using hashed.size_loop_ok [OF b l, of sz 0 FILE_CONST_P] HASH unfolding get_size_per_disk_def m k by auto
    then show ?thesis
      using hashed.sizes_cover [OF b, of _ sz k ret] HASH m k unfolding get_size_per_disk_def by auto
  qed
qed

section \<open>Partitions\<close>

lemma index_files_ok:
  assumes "distinct ds" "\<forall>d \<in> set ds. d < length fm"
  shows "\<exists>fm'. index_files i ds fm = Inr fm' \<and> length fm' = length fm
    \<and> (\<forall>j < length ds. fm' ! (ds ! j) = int (i + j)) \<and> (\<forall>d < length fm. d \<notin> set ds \<longrightarrow> fm' ! d = fm ! d)"
  using assms
proof (induction ds arbitrary: i fm)
  case (Cons d ds)
  then have d: "d < length fm" "distinct ds" "d \<notin> set ds" "\<forall>e \<in> set ds. e < length (fm[d := int i])" by auto
  from Cons.IH [OF d(2,4), of "Suc i"] obtain fm' where f: "index_files (Suc i) ds (fm[d := int i]) = Inr fm'"
    "length fm' = length fm" "\<forall>j < length ds. fm' ! (ds ! j) = int (Suc i + j)"
    "\<forall>e < length fm. e \<notin> set ds \<longrightarrow> fm' ! e = fm[d := int i] ! e" by auto
  have "fm' ! ((d # ds) ! j) = int (i + j)" if "j < length (d # ds)" for j
    using that f(3,4) d by (cases j) auto
  then show ?case using f d(1) by auto
qed simp

lemma new_partition_ok:
  assumes "distinct ds" "\<forall>d \<in> set ds. d < get_num_files m"
  shows "\<exists>lp. new_partition ds m = Inr lp \<and> lp_mapper lp = Some m \<and> lp_indices lp = ds
    \<and> (\<forall>d < get_num_files m. if d \<in> set ds then \<exists>i < length ds. ds ! i = d \<and> lp_local lp d = Inr i
         else lp_local lp d = Inl Assert_failed)"
proof -
  obtain fm where f: "index_files 0 ds (replicate (get_num_files m) (- 1)) = Inr fm" "length fm = get_num_files m"
    "\<forall>j < length ds. fm ! (ds ! j) = int j" "\<forall>d < get_num_files m. d \<notin> set ds \<longrightarrow> fm ! d = - 1"
    using index_files_ok [OF assms(1), of "replicate (get_num_files m) (- 1)" 0] assms(2) by auto
  have "if d \<in> set ds then \<exists>i < length ds. ds ! i = d \<and> lp_local \<lparr>lp_mapper = Some m, lp_indices = ds, lp_file_map = fm\<rparr> d = Inr i
      else lp_local \<lparr>lp_mapper = Some m, lp_indices = ds, lp_file_map = fm\<rparr> d = Inl Assert_failed"
    if d: "d < get_num_files m" for d
  proof (cases "d \<in> set ds")
    case True
    then obtain i where "i < length ds" "ds ! i = d" by (auto simp: in_set_conv_nth)
    then show ?thesis using True f d by (auto simp: lp_local_def intro!: exI [of _ i])
  next
    case False
    then show ?thesis using f d by (simp add: lp_local_def)
  qed
  then show ?thesis using f(1) by (simp add: new_partition_def)
qed

section \<open>Properties\<close>

definition two_disks :: "mapping_option \<Rightarrow> file_mapper" where
  "two_disks opt = \<lparr>fm_option = opt, fm_file_id = 1,
     fm_files = [\<lparr>pf_name = ''a'', pf_disk_id = 0, pf_node_id = 0\<rparr>, \<lparr>pf_name = ''b'', pf_disk_id = 1, pf_node_id = 0\<rparr>],
     fm_name = ''f'', fm_block_size = 4\<rparr>"

lemma two_disks_wf: "fm_wf (two_disks opt)"
  by (simp add: two_disks_def fm_wf_def)

text \<open>
  C22. Striping loses and mixes up nothing: RAID0, RAID5 and hashing map every page of a file to one of
  its disks, the same disk that \<^verbatim>\<open>map2file\<close> names, and the page can be computed back from its place.
  So no two pages of a file share a place.
\<close>

theorem striping_round_trip:
  assumes "fm_wf m"
  shows "\<exists>bid. fm_map start m off = Inr bid \<and> fm_map2file start m off = Inr (bi_idx bid)
    \<and> bi_idx bid < get_num_files m \<and> fm_page_at start m bid = off"
  by (rule fm_map_ok [OF assms])

theorem striping_round_trip_witness:
  "\<exists>bid. fm_map 1 (two_disks RAID5) 13 = Inr bid \<and> fm_page_at 1 (two_disks RAID5) bid = 13"
  using striping_round_trip [OF two_disks_wf, of 1 RAID5 13] by blast

text \<open>
  C35. The file sizes computed for the disks are enough: although \<^verbatim>\<open>get_size_per_disk\<close> looks only at the
  last blocks of a file, every page of a file of the given size lies below the size computed for
  its disk, for all three mappers.
\<close>

theorem sizes_hold_file:
  assumes "fm_wf m"
  shows "\<exists>ret. get_size_per_disk start m sz = Inr ret \<and> length ret = get_num_files m
    \<and> (\<forall>off < sz. \<forall>bid. fm_map start m off = Inr bid \<longrightarrow> bi_off bid < ret ! bi_idx bid)"
  by (rule get_size_per_disk_ok [OF assms])

theorem sizes_hold_file_witness:
  "\<exists>ret. get_size_per_disk 0 (two_disks RAID0) 9 = Inr ret \<and> length ret = 2"
  using sizes_hold_file [OF two_disks_wf, of 0 RAID0 9] by (auto simp: two_disks_def get_num_files_def)

text \<open>
  The partitions of a file: given distinct disks of the mapper, the partition is built, and it maps a
  page to the position of its disk among them with the offset unchanged; for a page on another
  disk its assertion fails.
\<close>

theorem partition_maps_own_pages:
  assumes "fm_wf m" "distinct ds" "\<forall>d \<in> set ds. d < get_num_files m"
  shows "\<exists>lp. new_partition ds m = Inr lp \<and> (\<forall>off bid. fm_map start m off = Inr bid \<longrightarrow>
    (if bi_idx bid \<in> set ds
     then \<exists>i < length ds. ds ! i = bi_idx bid \<and> lp_map start lp off = Inr (bid\<lparr>bi_idx := i\<rparr>) \<and> lp_map2file start lp off = Inr i
     else lp_map start lp off = Inl Assert_failed))"
proof -
  obtain lp where lp: "new_partition ds m = Inr lp" "lp_mapper lp = Some m"
    "\<forall>d < get_num_files m. if d \<in> set ds then \<exists>i < length ds. ds ! i = d \<and> lp_local lp d = Inr i
         else lp_local lp d = Inl Assert_failed"
    using new_partition_ok [OF assms(2,3)] by blast
  have "if bi_idx bid \<in> set ds
     then \<exists>i < length ds. ds ! i = bi_idx bid \<and> lp_map start lp off = Inr (bid\<lparr>bi_idx := i\<rparr>) \<and> lp_map2file start lp off = Inr i
     else lp_map start lp off = Inl Assert_failed" if m: "fm_map start m off = Inr bid" for off bid
  proof -
    have "bi_idx bid < get_num_files m" "fm_map2file start m off = Inr (bi_idx bid)"
      using fm_map_ok [OF assms(1), of start off] m by auto
    then show ?thesis using lp m by (auto simp: lp_map_def lp_map2file_def split: if_splits)
  qed
  then show ?thesis using lp(1) by blast
qed

theorem partition_maps_own_pages_witness:
  "\<exists>lp. new_partition [1] (two_disks RAID0) = Inr lp \<and> lp_map 0 lp 5 = Inr \<lparr>bi_idx = 0, bi_off = 1\<rparr>"
proof -
  have m: "fm_map 0 (two_disks RAID0) 5 = Inr \<lparr>bi_idx = 1, bi_off = 1\<rparr>"
    by (simp add: fm_map_def RAID0_map_def two_disks_def get_num_files_def)
  have "\<exists>lp. new_partition [1] (two_disks RAID0) = Inr lp \<and> (\<forall>off bid. fm_map 0 (two_disks RAID0) off = Inr bid \<longrightarrow>
      (if bi_idx bid \<in> set [1]
       then \<exists>i < length [1 :: nat]. [1] ! i = bi_idx bid \<and> lp_map 0 lp off = Inr (bid\<lparr>bi_idx := i\<rparr>) \<and> lp_map2file 0 lp off = Inr i
       else lp_map 0 lp off = Inl Assert_failed))"
    by (rule partition_maps_own_pages [OF two_disks_wf]) (simp_all add: two_disks_def get_num_files_def)
  then obtain lp where "new_partition [1] (two_disks RAID0) = Inr lp"
    "\<exists>i < length [1 :: nat]. lp_map 0 lp 5 = Inr (\<lparr>bi_idx = 1, bi_off = 1\<rparr>\<lparr>bi_idx := i\<rparr>)" using m by fastforce
  then show ?thesis by auto
qed

end
