(* ===== verification/Slab_Allocator.thy ===== *)
theory Slab_Allocator
  imports Fifo_Laws "HOL-Library.Multiset"
begin

text \<open>
  The allocator of pages: \<^verbatim>\<open>libsafs/slab_allocator.h\<close> and \<^verbatim>\<open>.cpp\<close>, and the memory manager of the page cache on
  top of it (\<^verbatim>\<open>libsafs/memory_manager.cpp\<close>).

  Free objects are kept in a linked list whose pointers live in the objects themselves, so the model
  has a heap: the \<^verbatim>\<open>next\<close> pointer of every address (\<open>None\<close> is \<^verbatim>\<open>NULL\<close>). Chunks come from the operating system:
  \<open>chunks\<close> are the addresses its calls return, one after the other (\<open>None\<close> when it has no memory). Each
  call runs under the allocator's lock or belongs to one thread; the small buffer a thread keeps is
  the ring buffer of \<open>Fifo_Queue\<close>.

  \<open>Slab_Laws\<close> shows that allocation and release only move objects between the free list and the caller.
\<close>

section \<open>Lists of free objects\<close>

type_synonym heap = "nat \<Rightarrow> nat option"

record linked_obj_list =
  ll_head :: "nat option"
  ll_end :: "nat option"
  ll_size :: int

definition ll_empty :: linked_obj_list where
  "ll_empty = \<lparr>ll_head = None, ll_end = None, ll_size = 0\<rparr>"

definition ll_add :: "nat \<Rightarrow> heap \<times> linked_obj_list \<Rightarrow> (heap \<times> linked_obj_list) res" where
  "ll_add obj hl =
     (case hl of (h, l) \<Rightarrow>
        bind_res (if ll_size l = 0 then assert_then (ll_head l = None) (Inr (l\<lparr>ll_end := Some obj\<rparr>)) else Inr l) (\<lambda>l1.
          Inr (h(obj := ll_head l1), l1\<lparr>ll_head := Some obj, ll_size := ll_size l1 + 1\<rparr>)))"

definition ll_add_list ::
  "linked_obj_list \<Rightarrow> heap \<times> linked_obj_list \<Rightarrow> (heap \<times> linked_obj_list \<times> linked_obj_list) res" where
  "ll_add_list l2 hl =
     (case hl of (h, l) \<Rightarrow>
        if ll_size l2 = 0 then Inr (h, l, l2)
        else let l2' = l2\<lparr>ll_head := None, ll_end := None, ll_size := 0\<rparr> in
          if ll_size l = 0 then Inr (h, \<lparr>ll_head = ll_head l2, ll_end = ll_end l2, ll_size = ll_size l2\<rparr>, l2')
          else case ll_end l2 of
            None \<Rightarrow> Inl Undefined_behaviour
          | Some e \<Rightarrow> Inr (h(e := ll_head l), l\<lparr>ll_head := ll_head l2, ll_size := ll_size l + ll_size l2\<rparr>, l2'))"

text \<open>Walking at most \<open>n\<close> objects: the last one passed, the one after it, and how many were passed.\<close>

fun ll_walk :: "heap \<Rightarrow> nat \<Rightarrow> nat option \<Rightarrow> nat option \<Rightarrow> nat option \<times> nat option \<times> nat" where
  "ll_walk h 0 prev obj = (prev, obj, 0)"
| "ll_walk h (Suc n) prev obj =
     (case obj of None \<Rightarrow> (prev, None, 0)
      | Some a \<Rightarrow> (case ll_walk h n (Some a) (h a) of (p, ob, k) \<Rightarrow> (p, ob, Suc k)))"

definition ll_pop :: "nat \<Rightarrow> heap \<times> linked_obj_list \<Rightarrow> (nat option \<times> heap \<times> linked_obj_list) res" where
  "ll_pop num hl =
     (case hl of (h, l) \<Rightarrow>
        (case ll_walk h num None (ll_head l) of (prev, obj, k) \<Rightarrow>
           let h1 = (case prev of None \<Rightarrow> h | Some p \<Rightarrow> h(p := None));
               l1 = l\<lparr>ll_head := obj, ll_size := ll_size l - int k\<rparr>
           in assert_then (0 \<le> ll_size l1)
             (Inr (ll_head l, h1, if ll_size l1 = 0 then l1\<lparr>ll_end := None\<rparr> else l1))))"

section \<open>The allocator\<close>

definition ROUNDUP_PAGE :: "nat \<Rightarrow> nat" where
  "ROUNDUP_PAGE n = (n + 4095) div 4096 * 4096"

record slab =
  sl_obj_size :: nat
  sl_increase_size :: nat
  sl_max_size :: nat
  sl_node_id :: int
  sl_local_buf_size :: nat
  sl_thread_safe :: bool
  sl_list :: linked_obj_list
  sl_curr_size :: nat
  sl_alloc_bufs :: "nat list"
  sl_heap :: heap

definition new_slab :: "nat \<Rightarrow> nat \<Rightarrow> nat \<Rightarrow> int \<Rightarrow> nat \<Rightarrow> bool \<Rightarrow> slab res" where
  "new_slab obj_size increase max_size node local_buf thread_safe =
     assert_then (8 \<le> obj_size)
       (Inr \<lparr>sl_obj_size = obj_size, sl_increase_size = ROUNDUP_PAGE increase, sl_max_size = max_size,
          sl_node_id = node, sl_local_buf_size = (if thread_safe then local_buf else 0), sl_thread_safe = thread_safe,
          sl_list = ll_empty, sl_curr_size = 0, sl_alloc_bufs = [], sl_heap = (\<lambda>_. None)\<rparr>)"

text \<open>Linking objects into a fresh list, as \<^verbatim>\<open>free\<close> and the code for a new chunk do. Each is reset first.\<close>

fun link_all :: "nat list \<Rightarrow> heap \<times> linked_obj_list \<Rightarrow> (heap \<times> linked_obj_list) res" where
  "link_all [] hl = Inr hl"
| "link_all (a # as) hl = bind_res (ll_add a ((fst hl)(a := None), snd hl)) (link_all as)"

definition slab_free :: "nat list \<Rightarrow> slab \<Rightarrow> slab res" where
  "slab_free objs s =
     bind_res (link_all objs (sl_heap s, ll_empty)) (\<lambda>(h, tmp).
     bind_res (ll_add_list tmp (h, sl_list s)) (\<lambda>(h', l', _).
       Inr (s\<lparr>sl_heap := h', sl_list := l'\<rparr>)))"

text \<open>Writing a chain of objects to the caller's array, which has room for \<open>n\<close> more.\<close>

fun collect :: "heap \<Rightarrow> nat \<Rightarrow> nat option \<Rightarrow> nat list res" where
  "collect h n None = Inr []"
| "collect h 0 (Some a) = Inl Undefined_behaviour"
| "collect h (Suc n) (Some a) = bind_res (collect h n (h a)) (\<lambda>xs. Inr (a # xs))"

definition chunk_objs :: "slab \<Rightarrow> nat \<Rightarrow> nat list" where
  "chunk_objs s base = map (\<lambda>i. base + sl_obj_size s * i) [0..<sl_increase_size s div sl_obj_size s]"

definition slab_grow :: "nat option \<Rightarrow> slab \<Rightarrow> slab res" where
  "slab_grow chunk s =
     (case chunk of
        None \<Rightarrow> Inl Assert_failed
      | Some base \<Rightarrow>
          assert_then (4096 dvd base)
            (if sl_obj_size s = 0 then Inl Undefined_behaviour
             else bind_res (link_all (chunk_objs s base) (sl_heap s, ll_empty)) (\<lambda>(h, tmp).
               bind_res (ll_add_list tmp (h, sl_list s)) (\<lambda>(h', l', _).
                 Inr (s\<lparr>sl_curr_size := sl_curr_size s + sl_increase_size s,
                   sl_alloc_bufs := sl_alloc_bufs s @ [base], sl_heap := h', sl_list := l'\<rparr>)))))"

text \<open>
  \<open>got\<close> are the objects allocated so far. The calls to the operating system bound the rounds.
\<close>

fun slab_alloc_loop :: "nat option list \<Rightarrow> nat \<Rightarrow> nat list \<Rightarrow> slab \<Rightarrow> (nat list \<times> nat option list \<times> slab) res" where
  "slab_alloc_loop chunks n got s =
     bind_res (ll_pop (n - length got) (sl_heap s, sl_list s)) (\<lambda>(o1, h, l).
     let s1 = s\<lparr>sl_heap := h, sl_list := l\<rparr> in
     bind_res (collect h (n - length got) o1) (\<lambda>xs.
     let got1 = got @ xs in
     if length got1 = n then Inr (got1, chunks, s1)
     else if sl_curr_size s1 < sl_max_size s1 then
       (case chunks of
          [] \<Rightarrow> Inl Out_of_steps
        | c # cs \<Rightarrow> bind_res (slab_grow c s1) (slab_alloc_loop cs n got1))
     else bind_res (slab_free got1 s1) (\<lambda>s2. Inr ([], chunks, s2))))"

declare slab_alloc_loop.simps [simp del]

definition slab_alloc :: "nat option list \<Rightarrow> nat \<Rightarrow> slab \<Rightarrow> (nat list \<times> nat option list \<times> slab) res" where
  "slab_alloc chunks n s = slab_alloc_loop chunks n [] s"

definition slab_contains :: "slab \<Rightarrow> nat \<Rightarrow> bool" where
  "slab_contains s addr \<longleftrightarrow> (\<exists>base \<in> set (sl_alloc_bufs s). base \<le> addr \<and> addr < base + sl_increase_size s)"

text \<open>One object, through the buffer \<open>buf\<close> of the calling thread.\<close>

definition slab_alloc1 ::
  "nat option list \<Rightarrow> slab \<Rightarrow> nat fifo_queue \<Rightarrow> (nat option \<times> nat option list \<times> slab \<times> nat fifo_queue) res" where
  "slab_alloc1 chunks s buf =
     (if sl_local_buf_size s = 0 then
        bind_res (slab_alloc chunks 1 s) (\<lambda>(xs, chunks', s').
          Inr (case xs of [] \<Rightarrow> None | x # _ \<Rightarrow> Some x, chunks', s', buf))
      else bind_res (if fq_is_empty buf then
               bind_res (slab_alloc chunks (sl_local_buf_size s) s) (\<lambda>(xs, chunks', s').
                 if xs = [] then Inr (True, chunks', s', buf)
                 else bind_res (fq_add xs buf) (\<lambda>(k, buf').
                   assert_then (k = length xs) (Inr (False, chunks', s', buf'))))
             else Inr (False, chunks, s, buf)) (\<lambda>(none, chunks', s', buf').
        if none then Inr (None, chunks', s', buf')
        else bind_res (fq_pop_front buf') (\<lambda>(x, buf''). Inr (Some x, chunks', s', buf''))))"

definition slab_free1 :: "nat \<Rightarrow> slab \<Rightarrow> nat fifo_queue \<Rightarrow> (slab \<times> nat fifo_queue) res" where
  "slab_free1 obj s buf =
     (if sl_local_buf_size s = 0 then bind_res (slab_free [obj] s) (\<lambda>s'. Inr (s', buf))
      else bind_res (fq_is_full buf) (\<lambda>full.
        bind_res (if full then
              bind_res (fq_fetch (sl_local_buf_size s) buf) (\<lambda>(xs, buf').
              bind_res (slab_free xs s) (\<lambda>s'. Inr (s', buf')))
            else Inr (s, buf)) (\<lambda>(s', buf').
          bind_res (fq_push_back obj buf') (\<lambda>buf''. Inr (s', buf'')))))"

section \<open>The memory manager\<close>

definition SHRINK_NPAGES :: nat where "SHRINK_NPAGES = 1024"
definition INCREASE_SIZE :: nat where "INCREASE_SIZE = 1024 * 1024 * 128"

definition new_memory_manager :: "nat \<Rightarrow> int \<Rightarrow> slab res" where
  "new_memory_manager max_size node =
     new_slab 4096 (if INCREASE_SIZE \<le> max_size then INCREASE_SIZE else max_size) max_size node 100 True"

text \<open>The cache of the largest size, by its position; the first one of several.\<close>

fun largest_cache :: "nat \<Rightarrow> nat \<Rightarrow> nat option \<Rightarrow> nat list \<Rightarrow> nat option" where
  "largest_cache i sz best [] = best"
| "largest_cache i sz best (c # cs) =
     (if sz < c then largest_cache (Suc i) c (Some i) cs else largest_cache (Suc i) sz best cs)"

text \<open>
  \<open>sizes\<close> are the sizes of the registered caches, \<open>request\<close> the position of the one that asks, \<open>shrink i k\<close> what
  shrinking cache \<open>i\<close> by \<open>k\<close> pages does: \<open>None\<close> for failure, else the pages it wrote to the buffer. Entries
  it did not write are read uninitialised. The routine returns true whatever the second attempt gave.
\<close>

definition get_free_pages ::
  "nat list \<Rightarrow> nat \<Rightarrow> (nat \<Rightarrow> nat \<Rightarrow> nat list option) \<Rightarrow> nat option list \<Rightarrow> nat \<Rightarrow> slab
   \<Rightarrow> (bool \<times> nat list \<times> nat option list \<times> slab) res" where
  "get_free_pages sizes request shrink chunks npages s =
     bind_res (slab_alloc chunks npages s) (\<lambda>(pages, chunks1, s1).
       if pages \<noteq> [] then Inr (True, pages, chunks1, s1)
       else case largest_cache 0 0 None sizes of
         None \<Rightarrow> Inr (False, [], chunks1, s1)
       | Some i \<Rightarrow>
           if i = request then Inr (False, [], chunks1, s1)
           else let num = max SHRINK_NPAGES npages in
             case shrink i num of
               None \<Rightarrow> Inr (False, [], chunks1, s1)
             | Some buf \<Rightarrow>
                 if length buf < num then Inl Undefined_behaviour
                 else bind_res (slab_free (take num buf) s1) (\<lambda>s2.
                   bind_res (slab_alloc chunks1 npages s2) (\<lambda>(pages2, chunks2, s3).
                     Inr (True, pages2, chunks2, s3))))"

definition mm_free_pages :: "nat list \<Rightarrow> slab \<Rightarrow> slab res" where
  "mm_free_pages pages s = slab_free pages s"

end
