(* ===== verification/Slab_Laws.thy ===== *)
theory Slab_Laws
  imports Slab_Allocator
begin

text \<open>
  What the allocator of \<open>Slab_Allocator\<close> keeps. \<open>chain\<close> says which objects a pointer leads to, \<open>ll_wf\<close> that a
  list of free objects is what its members claim. \<open>slab_inv s free used\<close> is the invariant of an allocator:
  the objects of its chunks are the free and the used ones, each once. The locale \<open>object_pool\<close> is what
  the users of an allocator rely on; the slab allocator interprets it.
\<close>

section \<open>Chains of objects\<close>

fun chain :: "heap \<Rightarrow> nat option \<Rightarrow> nat list \<Rightarrow> bool" where
  "chain h p [] \<longleftrightarrow> p = None"
| "chain h p (x # xs) \<longleftrightarrow> p = Some x \<and> chain h (h x) xs"

definition ll_wf :: "heap \<Rightarrow> linked_obj_list \<Rightarrow> nat list \<Rightarrow> bool" where
  "ll_wf h l xs \<longleftrightarrow> chain h (ll_head l) xs \<and> distinct xs \<and> ll_size l = int (length xs)
     \<and> ll_end l = (if xs = [] then None else Some (last xs))"

lemma chain_frame:
  "(\<And>y. y \<in> set xs \<Longrightarrow> h' y = h y) \<Longrightarrow> chain h' p xs = chain h p xs"
  by (induction xs arbitrary: p) auto

lemma chain_upd [simp]: "y \<notin> set xs \<Longrightarrow> chain (h(y := v)) p xs = chain h p xs"
  by (rule chain_frame) auto

lemma chain_if [simp]: "y \<notin> set xs \<Longrightarrow> chain (\<lambda>a. if a = y then v else h a) p xs = chain h p xs"
  by (rule chain_frame) auto

lemma ll_wf_frame:
  "(\<And>y. y \<in> set xs \<Longrightarrow> h' y = h y) \<Longrightarrow> ll_wf h' l xs = ll_wf h l xs"
  using chain_frame [of xs h' h "ll_head l"] by (simp add: ll_wf_def)

lemma ll_wf_empty [simp]: "ll_wf h ll_empty []"
  by (simp add: ll_wf_def ll_empty_def)

lemma chain_append:
  assumes "chain h p xs" "chain h q ys" "distinct (xs @ ys)" "xs \<noteq> []"
  shows "chain (h(last xs := q)) p (xs @ ys)"
  using assms
proof (induction xs arbitrary: p)
  case (Cons x xs)
  show ?case
  proof (cases "xs = []")
    case True
    then show ?thesis using Cons.prems by simp
  next
    case False
    then have "last xs \<noteq> x" using Cons.prems by auto
    then show ?thesis using False Cons by simp
  qed
qed simp

lemma ll_add_ok:
  assumes "ll_wf h l xs" "a \<notin> set xs"
  shows "\<exists>h' l'. ll_add a (h, l) = Inr (h', l') \<and> ll_wf h' l' (a # xs) \<and> (\<forall>y. y \<noteq> a \<longrightarrow> h' y = h y)"
proof (cases "xs = []")
  case True
  then show ?thesis using assms by (simp add: ll_wf_def ll_add_def)
next
  case False
  then have "ll_size l \<noteq> 0" using assms by (simp add: ll_wf_def)
  then show ?thesis using assms False by (auto simp: ll_wf_def ll_add_def)
qed

lemma link_all_ok:
  assumes "ll_wf h l xs" "distinct (as @ xs)"
  shows "\<exists>h' l'. link_all as (h, l) = Inr (h', l') \<and> ll_wf h' l' (rev as @ xs) \<and> (\<forall>y. y \<notin> set as \<longrightarrow> h' y = h y)"
  using assms
proof (induction as arbitrary: h l xs)
  case (Cons a as)
  have "ll_wf (h(a := None)) l xs" using Cons.prems by (subst ll_wf_frame [of xs _ h]) auto
  then obtain h1 l1 where 1: "ll_add a (h(a := None), l) = Inr (h1, l1)" "ll_wf h1 l1 (a # xs)"
      "\<And>y. y \<noteq> a \<Longrightarrow> h1 y = h y"
    using ll_add_ok [of "h(a := None)" l xs a] Cons.prems by auto
  from Cons.IH [OF 1(2)] Cons.prems obtain h' l' where
    "link_all as (h1, l1) = Inr (h', l')" "ll_wf h' l' (rev as @ a # xs)" "\<forall>y. y \<notin> set as \<longrightarrow> h' y = h1 y" by auto
  then show ?case using 1 by auto
qed simp

lemma ll_add_list_ok:
  assumes "ll_wf h l xs" "ll_wf h l2 ys" "distinct (ys @ xs)"
  shows "\<exists>h' l' l2'. ll_add_list l2 (h, l) = Inr (h', l', l2') \<and> ll_wf h' l' (ys @ xs) \<and> ll_wf h' l2' []"
proof (cases "ys = [] \<or> xs = []")
  case True
  then show ?thesis using assms by (auto simp: ll_add_list_def ll_wf_def)
next
  case False
  then have ne: "ys \<noteq> []" "xs \<noteq> []" "ll_size l2 \<noteq> 0" "ll_size l \<noteq> 0" "ll_end l2 = Some (last ys)"
    using assms by (auto simp: ll_wf_def)
  have "chain (h(last ys := ll_head l)) (ll_head l2) (ys @ xs)"
    using assms ne by (intro chain_append) (simp_all add: ll_wf_def)
  then show ?thesis using assms ne by (simp add: ll_add_list_def ll_wf_def Let_def)
qed

lemma ll_walk_chain:
  assumes "chain h p xs" "distinct xs"
  shows "ll_walk h n prev p
    = (if n = 0 \<or> xs = [] then prev else Some (last (take n xs)), case drop n xs of [] \<Rightarrow> None | x # _ \<Rightarrow> Some x,
       min n (length xs))"
  using assms
proof (induction n arbitrary: xs prev p)
  case 0
  then show ?case by (cases xs) simp_all
next
  case (Suc n)
  show ?case
  proof (cases xs)
    case (Cons x xs')
    then show ?thesis using Suc.prems Suc.IH [of "h x" xs' "Some x"] by (cases "n = 0 \<or> xs' = []") auto
  qed (use Suc.prems in simp)
qed

lemma chain_head: "chain h p xs \<Longrightarrow> p = (case xs of [] \<Rightarrow> None | x # _ \<Rightarrow> Some x)"
  by (cases xs) simp_all

lemma chain_drop: "chain h p xs \<Longrightarrow> chain h (case drop n xs of [] \<Rightarrow> None | x # _ \<Rightarrow> Some x) (drop n xs)"
proof (induction xs arbitrary: p n)
  case (Cons x xs)
  then show ?case by (cases n) auto
qed simp

lemma chain_cut:
  assumes "chain h p xs" "distinct xs" "xs \<noteq> []" "0 < n"
  shows "chain (h(last (take n xs) := None)) p (take n xs)"
  using assms
proof (induction n arbitrary: xs p)
  case (Suc n)
  then obtain x xs' where x: "xs = x # xs'" by (cases xs) auto
  show ?case
  proof (cases "n = 0 \<or> xs' = []")
    case True
    then show ?thesis using Suc.prems x by auto
  next
    case False
    then have "take n xs' \<noteq> []" by simp
    then have "last (take n xs') \<in> set xs'" using last_in_set set_take_subset by fast
    then have "last (take n xs') \<noteq> x" using Suc.prems x by auto
    then show ?thesis using Suc False x by auto
  qed
qed simp

lemma last_in_take: "0 < n \<Longrightarrow> xs \<noteq> [] \<Longrightarrow> last (take n xs) \<in> set (take n xs)"
  by (rule last_in_set) simp

lemma ll_pop_ok:
  assumes "ll_wf h l xs" "0 < n"
  shows "\<exists>p h' l'. ll_pop n (h, l) = Inr (p, h', l') \<and> chain h' p (take n xs) \<and> ll_wf h' l' (drop n xs)"
proof (cases "xs = []")
  case True
  then show ?thesis using assms by (simp add: ll_pop_def ll_wf_def ll_walk_chain [where xs = "[]"])
next
  case False
  let ?e = "last (take n xs)" and ?q = "case drop n xs of [] \<Rightarrow> None | x # _ \<Rightarrow> Some x"
  have c: "chain h (ll_head l) xs" "distinct xs" using assms by (simp_all add: ll_wf_def)
  have w: "ll_walk h n None (ll_head l) = (Some ?e, ?q, min n (length xs))"
    using ll_walk_chain [OF c] assms(2) False by simp
  have e: "?e \<in> set (take n xs)" using assms(2) False by (rule last_in_take)
  have d: "?e \<notin> set (drop n xs)" using e c(2) set_take_disj_set_drop_if_distinct [of xs n n] by auto
  have "chain (h(?e := None)) ?q (drop n xs)" using chain_drop [OF c(1)] d by simp
  moreover have "chain (h(?e := None)) (ll_head l) (take n xs)" using chain_cut [OF c False assms(2)] .
  moreover have "last xs = last (drop n xs)" if "n < length xs" using that by simp
  ultimately show ?thesis
    using assms(1) c(2) False by (auto simp: ll_pop_def w ll_wf_def Let_def min_def)
qed

lemma collect_ok: "chain h p xs \<Longrightarrow> length xs \<le> n \<Longrightarrow> collect h n p = Inr xs"
proof (induction xs arbitrary: p n)
  case (Cons x xs)
  then show ?case by (cases n) auto
qed simp

section \<open>The objects of an allocator\<close>

definition apart :: "nat \<Rightarrow> nat \<Rightarrow> nat \<Rightarrow> bool" where
  "apart inc b c \<longleftrightarrow> b + inc \<le> c \<or> c + inc \<le> b"

definition slab_objs :: "slab \<Rightarrow> nat list" where
  "slab_objs s = concat (map (chunk_objs s) (sl_alloc_bufs s))"

definition slab_inv :: "slab \<Rightarrow> nat list \<Rightarrow> nat list \<Rightarrow> bool" where
  "slab_inv s free used \<longleftrightarrow> ll_wf (sl_heap s) (sl_list s) free \<and> mset (free @ used) = mset (slab_objs s)
     \<and> sorted_wrt (apart (sl_increase_size s)) (sl_alloc_bufs s) \<and> 0 < sl_obj_size s \<and> 0 < sl_increase_size s
     \<and> sl_curr_size s = length (sl_alloc_bufs s) * sl_increase_size s"

text \<open>
  The operating system returns page-aligned chunks that overlap no other, and enough of them to reach the
  size the allocator may grow to.
\<close>

definition chunk_supply :: "slab \<Rightarrow> nat option list \<Rightarrow> bool" where
  "chunk_supply s chunks \<longleftrightarrow> (\<forall>c \<in> set chunks. \<exists>b. c = Some b \<and> 4096 dvd b)
     \<and> sorted_wrt (apart (sl_increase_size s)) (sl_alloc_bufs s @ map the chunks)
     \<and> sl_max_size s \<le> sl_curr_size s + length chunks * sl_increase_size s"

lemma chunk_objs_cong [simp]:
  "chunk_objs (s\<lparr>sl_heap := h\<rparr>) = chunk_objs s" "chunk_objs (s\<lparr>sl_list := l\<rparr>) = chunk_objs s"
  "chunk_objs (s\<lparr>sl_curr_size := n\<rparr>) = chunk_objs s" "chunk_objs (s\<lparr>sl_alloc_bufs := bs\<rparr>) = chunk_objs s"
  by (simp_all add: chunk_objs_def fun_eq_iff)

lemma in_chunk_objs:
  assumes "x \<in> set (chunk_objs s b)" "0 < sl_obj_size s"
  shows "b \<le> x" "x < b + sl_increase_size s"
proof -
  obtain i where i: "i < sl_increase_size s div sl_obj_size s" "x = b + sl_obj_size s * i"
    using assms(1) by (auto simp: chunk_objs_def)
  then have "sl_obj_size s * Suc i \<le> sl_obj_size s * (sl_increase_size s div sl_obj_size s)"
    by (intro mult_le_mono2) simp
  also have "\<dots> \<le> sl_increase_size s" by simp
  finally show "x < b + sl_increase_size s" using i(2) assms(2) by simp
  show "b \<le> x" using i by simp
qed

lemma distinct_chunk_objs: "0 < sl_obj_size s \<Longrightarrow> distinct (chunk_objs s b)"
  by (simp add: chunk_objs_def distinct_map inj_on_def)

lemma distinct_objs:
  assumes "0 < sl_obj_size s" "sorted_wrt (apart (sl_increase_size s)) bs"
  shows "distinct (concat (map (chunk_objs s) bs))"
  using assms(2)
proof (induction bs)
  case (Cons b bs)
  have "x \<notin> set (chunk_objs s c)" if "x \<in> set (chunk_objs s b)" "c \<in> set bs" for x c
    using in_chunk_objs [OF _ assms(1)] that Cons.prems by (fastforce simp: apart_def)
  then show ?case using Cons distinct_chunk_objs [OF assms(1)] by auto
qed simp

lemma slab_inv_distinct:
  assumes "slab_inv s free used"
  shows "distinct (free @ used)"
proof -
  have "distinct (slab_objs s)" using assms distinct_objs by (simp add: slab_inv_def slab_objs_def)
  then show ?thesis using assms mset_eq_imp_distinct_iff [of "free @ used" "slab_objs s"] by (simp add: slab_inv_def)
qed

lemma slab_inv_used_cong: "mset used = mset used' \<Longrightarrow> slab_inv s free used = slab_inv s free used'"
  by (simp add: slab_inv_def)

text \<open>Adding a list of objects to the free ones, as \<^verbatim>\<open>free\<close> and the code for a new chunk do.\<close>

lemma give_back:
  assumes "ll_wf h l free" "distinct (xs @ free)"
  shows "\<exists>h1 tmp h' l' tmp'. link_all xs (h, ll_empty) = Inr (h1, tmp) \<and> ll_add_list tmp (h1, l) = Inr (h', l', tmp')
    \<and> ll_wf h' l' (rev xs @ free)"
proof -
  obtain h1 tmp where 1: "link_all xs (h, ll_empty) = Inr (h1, tmp)" "ll_wf h1 tmp (rev xs)"
      "\<And>y. y \<notin> set xs \<Longrightarrow> h1 y = h y"
    using link_all_ok [of h ll_empty "[]" xs] assms(2) by auto
  have "ll_wf h1 l free" using assms 1(3) by (subst ll_wf_frame [of free h1 h]) auto
  from ll_add_list_ok [OF this 1(2)] assms(2) 1(1) show ?thesis by auto
qed

lemma slab_free_ok:
  assumes "slab_inv s free used" "mset used = mset (xs @ used')"
  shows "\<exists>h l. slab_free xs s = Inr (s\<lparr>sl_heap := h, sl_list := l\<rparr>)
    \<and> slab_inv (s\<lparr>sl_heap := h, sl_list := l\<rparr>) (rev xs @ free) used'"
proof -
  have "slab_inv s free (xs @ used')" using assms slab_inv_used_cong by blast
  then have d: "distinct (xs @ free)" using slab_inv_distinct [of s free "xs @ used'"] by auto
  obtain h1 tmp h l tmp' where "link_all xs (sl_heap s, ll_empty) = Inr (h1, tmp)"
      "ll_add_list tmp (h1, sl_list s) = Inr (h, l, tmp')" "ll_wf h l (rev xs @ free)"
    using give_back [of "sl_heap s" "sl_list s" free xs] assms(1) d by (auto simp: slab_inv_def)
  then show ?thesis using assms by (auto simp: slab_free_def slab_inv_def slab_objs_def ac_simps)
qed

lemma slab_grow_ok:
  assumes "slab_inv s free used" "4096 dvd b" "sorted_wrt (apart (sl_increase_size s)) (sl_alloc_bufs s @ [b])"
  shows "\<exists>h l. let s' = s\<lparr>sl_curr_size := sl_curr_size s + sl_increase_size s, sl_alloc_bufs := sl_alloc_bufs s @ [b],
      sl_heap := h, sl_list := l\<rparr> in
    slab_grow (Some b) s = Inr s' \<and> slab_inv s' (rev (chunk_objs s b) @ free) used"
proof -
  have p: "0 < sl_obj_size s" using assms by (simp add: slab_inv_def)
  have "distinct (slab_objs s @ chunk_objs s b)"
    using distinct_objs [OF p assms(3)] by (simp add: slab_objs_def)
  moreover have "set free \<subseteq> set (slab_objs s)"
    using assms(1) mset_eq_setD [of "free @ used" "slab_objs s"] by (auto simp: slab_inv_def)
  ultimately have d: "distinct (chunk_objs s b @ free)" using slab_inv_distinct [OF assms(1)] by auto
  obtain h1 tmp h l tmp' where "link_all (chunk_objs s b) (sl_heap s, ll_empty) = Inr (h1, tmp)"
      "ll_add_list tmp (h1, sl_list s) = Inr (h, l, tmp')" "ll_wf h l (rev (chunk_objs s b) @ free)"
    using give_back [of "sl_heap s" "sl_list s" free "chunk_objs s b"] assms(1) d by (auto simp: slab_inv_def)
  then show ?thesis using assms p by (auto simp: slab_grow_def slab_inv_def slab_objs_def ac_simps Let_def)
qed

section \<open>Allocation\<close>

definition same_config :: "slab \<Rightarrow> slab \<Rightarrow> bool" where
  "same_config s s' \<longleftrightarrow> sl_obj_size s' = sl_obj_size s \<and> sl_increase_size s' = sl_increase_size s
     \<and> sl_max_size s' = sl_max_size s \<and> sl_local_buf_size s' = sl_local_buf_size s"

lemma chunk_supply_cong [simp]:
  "chunk_supply (s\<lparr>sl_heap := h\<rparr>) = chunk_supply s" "chunk_supply (s\<lparr>sl_list := l\<rparr>) = chunk_supply s"
  by (simp_all add: chunk_supply_def fun_eq_iff)

lemma same_config_simps [simp]:
  "same_config s s" "same_config s (s'\<lparr>sl_heap := h\<rparr>) = same_config s s'" "same_config s (s'\<lparr>sl_list := l\<rparr>) = same_config s s'"
  by (simp_all add: same_config_def)

lemma pop_objs:
  assumes "slab_inv s free used" "0 < n"
  shows "\<exists>p h l. ll_pop n (sl_heap s, sl_list s) = Inr (p, h, l) \<and> collect h n p = Inr (take n free)
    \<and> slab_inv (s\<lparr>sl_heap := h, sl_list := l\<rparr>) (drop n free) (take n free @ used)"
proof -
  obtain p h l where "ll_pop n (sl_heap s, sl_list s) = Inr (p, h, l)" "chain h p (take n free)"
      "ll_wf h l (drop n free)"
    using ll_pop_ok [of "sl_heap s" "sl_list s" free n] assms by (auto simp: slab_inv_def)
  moreover have "mset (drop n free @ take n free @ used) = mset (free @ used)"
    by (metis append_take_drop_id mset_append union_assoc union_commute)
  ultimately show ?thesis
    using assms collect_ok [of h p "take n free" n]
    by (auto simp: slab_inv_def slab_objs_def simp flip: add.assoc)
qed

text \<open>
  \<open>alloc_outcome\<close>: what a call with \<open>got\<close> objects already taken delivers, all \<open>n\<close> or, when the allocator must not
  grow further, none.
\<close>

definition alloc_outcome ::
  "nat \<Rightarrow> nat list \<Rightarrow> slab \<Rightarrow> nat list \<Rightarrow> nat list \<Rightarrow> nat list \<times> nat option list \<times> slab \<Rightarrow> bool" where
  "alloc_outcome n got s free used r \<longleftrightarrow>
     (case r of (xs, chunks', s') \<Rightarrow> \<exists>free'. slab_inv s' free' (xs @ used) \<and> chunk_supply s' chunks' \<and> same_config s s'
        \<and> (length xs = n \<or> xs = [] \<and> length free' < n \<and> sl_max_size s \<le> sl_curr_size s')
        \<and> (n \<le> length free + length got \<longrightarrow> length xs = n))"

lemma alloc_round:
  assumes "slab_inv s free (got @ used)" "length got < n"
  shows "\<exists>h l. let k = n - length got; s1 = s\<lparr>sl_heap := h, sl_list := l\<rparr>; got1 = got @ take k free in
    slab_inv s1 (drop k free) (got1 @ used)
    \<and> slab_alloc_loop chunks n got s =
        (if length got1 = n then Inr (got1, chunks, s1)
         else if sl_curr_size s < sl_max_size s then
           (case chunks of [] \<Rightarrow> Inl Out_of_steps | c # cs \<Rightarrow> bind_res (slab_grow c s1) (slab_alloc_loop cs n got1))
         else bind_res (slab_free got1 s1) (\<lambda>s2. Inr ([], chunks, s2)))"
proof -
  let ?k = "n - length got"
  obtain p h l where r: "ll_pop ?k (sl_heap s, sl_list s) = Inr (p, h, l)" "collect h ?k p = Inr (take ?k free)"
      "slab_inv (s\<lparr>sl_heap := h, sl_list := l\<rparr>) (drop ?k free) (take ?k free @ got @ used)"
    using pop_objs [OF assms(1), of ?k] assms(2) by auto
  have "slab_inv (s\<lparr>sl_heap := h, sl_list := l\<rparr>) (drop ?k free) ((got @ take ?k free) @ used)"
    using r(3) by (subst slab_inv_used_cong) (auto simp: ac_simps)
  then show ?thesis
    using r(1,2) by (subst slab_alloc_loop.simps) (auto simp: Let_def intro!: exI [of _ h] exI [of _ l])
qed

lemma alloc_stops:
  assumes "slab_inv s free (got @ used)" "length got < n" "chunk_supply s chunks"
    and "length (got @ take (n - length got) free) \<noteq> n \<Longrightarrow> sl_max_size s \<le> sl_curr_size s"
  shows "\<exists>r. slab_alloc_loop chunks n got s = Inr r \<and> alloc_outcome n got s free used r"
proof -
  let ?k = "n - length got" and ?got = "got @ take (n - length got) free"
  show ?thesis
  proof (cases "length ?got = n")
    case True
    then obtain h l where "slab_inv (s\<lparr>sl_heap := h, sl_list := l\<rparr>) (drop ?k free) (?got @ used)"
        "slab_alloc_loop chunks n got s = Inr (?got, chunks, s\<lparr>sl_heap := h, sl_list := l\<rparr>)"
      using alloc_round [OF assms(1,2), of chunks] by (auto simp: Let_def)
    then show ?thesis using True assms(3) by (auto simp: alloc_outcome_def simp del: append_assoc)
  next
    case False
    then have f: "length free < ?k" "length ?got < n" "sl_max_size s \<le> sl_curr_size s" using assms(2,4) by auto
    obtain h l where hl: "slab_inv (s\<lparr>sl_heap := h, sl_list := l\<rparr>) (drop ?k free) (?got @ used)"
        "slab_alloc_loop chunks n got s
         = bind_res (slab_free ?got (s\<lparr>sl_heap := h, sl_list := l\<rparr>)) (\<lambda>s2. Inr ([], chunks, s2))"
      using alloc_round [OF assms(1,2), of chunks] False f(3) by (auto simp: Let_def)
    obtain h' l' where "slab_free ?got (s\<lparr>sl_heap := h, sl_list := l\<rparr>) = Inr (s\<lparr>sl_heap := h', sl_list := l'\<rparr>)"
        "slab_inv (s\<lparr>sl_heap := h', sl_list := l'\<rparr>) (rev ?got @ drop ?k free) used"
      using slab_free_ok [OF hl(1) refl] by auto
    moreover have "length (rev ?got @ drop ?k free) < n" using f by auto
    ultimately show ?thesis using f hl(2) assms(3) unfolding alloc_outcome_def
      by (auto intro!: exI [of _ "rev ?got @ drop ?k free"])
  qed
qed

lemma slab_alloc_loop_ok:
  assumes "slab_inv s free (got @ used)" "length got < n" "chunk_supply s chunks"
  shows "\<exists>r. slab_alloc_loop chunks n got s = Inr r \<and> alloc_outcome n got s free used r"
  using assms
proof (induction chunks arbitrary: s free got)
  case (Nil s free got)
  have "sl_max_size s \<le> sl_curr_size s" using Nil(3) by (simp add: chunk_supply_def)
  then show ?case using alloc_stops [OF Nil] by simp
next
  case (Cons c cs s free got)
  let ?k = "n - length got" and ?got = "got @ take (n - length got) free"
  show ?case
  proof (cases "length ?got \<noteq> n \<and> sl_curr_size s < sl_max_size s")
    case True
    then have f: "length free < ?k" using Cons.prems(2) by auto
    obtain h l where hl: "slab_inv (s\<lparr>sl_heap := h, sl_list := l\<rparr>) (drop ?k free) (?got @ used)"
        "slab_alloc_loop (c # cs) n got s = bind_res (slab_grow c (s\<lparr>sl_heap := h, sl_list := l\<rparr>)) (slab_alloc_loop cs n ?got)"
      using alloc_round [OF Cons.prems(1,2), of "c # cs"] True by (auto simp: Let_def)
    let ?s = "s\<lparr>sl_heap := h, sl_list := l\<rparr>"
    obtain b where b: "c = Some b" "4096 dvd b" using Cons.prems(3) by (auto simp: chunk_supply_def)
    have "sorted_wrt (apart (sl_increase_size ?s)) (sl_alloc_bufs ?s @ [b])"
      using Cons.prems(3) b by (auto simp: chunk_supply_def sorted_wrt_append)
    from slab_grow_ok [OF hl(1) b(2) this] obtain s2 where s2: "slab_grow c ?s = Inr s2"
        "slab_inv s2 (rev (chunk_objs ?s b) @ drop ?k free) (?got @ used)" "chunk_supply s2 cs" "same_config s s2"
      using Cons.prems(3) b by (auto simp: Let_def chunk_supply_def same_config_def sorted_wrt_append algebra_simps)
    have "length ?got < n" using f by simp
    from Cons.IH [OF s2(2) this s2(3)] show ?thesis
      using hl(2) s2(1,4) f by (auto simp: alloc_outcome_def same_config_def)
  qed (rule alloc_stops [OF Cons.prems], auto)
qed

lemma slab_alloc_ok:
  assumes "slab_inv s free used" "0 < n" "chunk_supply s chunks"
  shows "\<exists>xs chunks' s' free'. slab_alloc chunks n s = Inr (xs, chunks', s') \<and> slab_inv s' free' (xs @ used)
    \<and> chunk_supply s' chunks' \<and> same_config s s' \<and> (length xs = n \<or> xs = [] \<and> length free' < n \<and> sl_max_size s \<le> sl_curr_size s')
    \<and> (n \<le> length free \<longrightarrow> length xs = n)"
  using slab_alloc_loop_ok [of s free "[]" used n chunks] assms by (auto simp: slab_alloc_def alloc_outcome_def)

section \<open>The contract of an allocator\<close>

locale object_pool =
  fixes alloc :: "nat \<Rightarrow> 's \<Rightarrow> ('a list \<times> 's) res"
    and free :: "'a list \<Rightarrow> 's \<Rightarrow> 's res"
    and inv :: "'s \<Rightarrow> 'a list \<Rightarrow> 'a list \<Rightarrow> bool"
  assumes apart_lists: "inv s fr us \<Longrightarrow> distinct (fr @ us)"
    and releases: "inv s fr us \<Longrightarrow> mset us = mset (xs @ us') \<Longrightarrow>
      \<exists>s' fr'. free xs s = Inr s' \<and> inv s' fr' us' \<and> mset fr' = mset (xs @ fr)"
    and takes: "inv s fr us \<Longrightarrow> 0 < n \<Longrightarrow>
      \<exists>xs s' fr'. alloc n s = Inr (xs, s') \<and> inv s' fr' (xs @ us) \<and> (length xs = n \<or> xs = [])
        \<and> (n \<le> length fr \<longrightarrow> length xs = n)"
begin

lemma never_shared:
  assumes "inv s fr us" "0 < n"
  shows "\<exists>xs s' fr'. alloc n s = Inr (xs, s') \<and> inv s' fr' (xs @ us) \<and> (length xs = n \<or> xs = [])
    \<and> distinct xs \<and> set xs \<inter> set us = {}"
proof -
  obtain xs s' fr' where "alloc n s = Inr (xs, s')" "inv s' fr' (xs @ us)" "length xs = n \<or> xs = []"
    using takes [OF assms] by auto
  moreover from this have "distinct (fr' @ xs @ us)" using apart_lists by blast
  ultimately show ?thesis by auto
qed

lemma recycled:
  assumes "inv s fr us" "mset us = mset (xs @ us')" "0 < n" "n \<le> length xs"
  shows "\<exists>s1 ys s2 fr'. free xs s = Inr s1 \<and> alloc n s1 = Inr (ys, s2) \<and> length ys = n \<and> inv s2 fr' (ys @ us')"
proof -
  obtain s1 fr1 where 1: "free xs s = Inr s1" "inv s1 fr1 us'" "mset fr1 = mset (xs @ fr)"
    using releases [OF assms(1,2)] by auto
  then have "n \<le> length fr1" using assms(4) mset_eq_length [OF 1(3)] by simp
  then show ?thesis using takes [OF 1(2) assms(3)] 1(1) by auto
qed

end

text \<open>The state of the slab allocator as a pool: the chunks still to come and the allocator.\<close>

definition pool_alloc :: "nat \<Rightarrow> nat option list \<times> slab \<Rightarrow> (nat list \<times> nat option list \<times> slab) res" where
  "pool_alloc n cs = slab_alloc (fst cs) n (snd cs)"

definition pool_free :: "nat list \<Rightarrow> nat option list \<times> slab \<Rightarrow> (nat option list \<times> slab) res" where
  "pool_free xs cs = bind_res (slab_free xs (snd cs)) (\<lambda>s. Inr (fst cs, s))"

definition pool_inv :: "nat option list \<times> slab \<Rightarrow> nat list \<Rightarrow> nat list \<Rightarrow> bool" where
  "pool_inv cs fr us \<longleftrightarrow> slab_inv (snd cs) fr us \<and> chunk_supply (snd cs) (fst cs)"

interpretation slabs: object_pool pool_alloc pool_free pool_inv
proof unfold_locales
  fix s :: "nat option list \<times> slab" and fr us xs us' :: "nat list" and n :: nat
  assume i: "pool_inv s fr us"
  then show "distinct (fr @ us)" using slab_inv_distinct unfolding pool_inv_def by blast
  show "\<exists>s' fr'. pool_free xs s = Inr s' \<and> pool_inv s' fr' us' \<and> mset fr' = mset (xs @ fr)" if "mset us = mset (xs @ us')"
    using slab_free_ok [of "snd s" fr us xs us'] i that
    by (auto simp: pool_inv_def pool_free_def intro!: exI [of _ "rev xs @ fr"])
  show "\<exists>xs s' fr'. pool_alloc n s = Inr (xs, s') \<and> pool_inv s' fr' (xs @ us) \<and> (length xs = n \<or> xs = [])
      \<and> (n \<le> length fr \<longrightarrow> length xs = n)" if "0 < n"
    using slab_alloc_ok [of "snd s" fr us n "fst s"] i that by (auto simp: pool_inv_def pool_alloc_def)
qed

end
