(* ===== verification/Slab_Props.thy ===== *)
theory Slab_Props
  imports Slab_Laws
begin

text \<open>
  Properties of the slab allocator and of the memory manager: allocation gives all or nothing and never
  an object somebody else holds, the buffers of the threads lose nothing, and the memory manager
  delivers what it promises.
\<close>

section \<open>One object at a time\<close>

abbreviation obj_of :: "nat option \<Rightarrow> nat list" where
  "obj_of r \<equiv> (case r of None \<Rightarrow> [] | Some x \<Rightarrow> [x])"

lemma slab_alloc1_ok:
  assumes "slab_inv s free (fq_list buf @ used)" "chunk_supply s chunks" "fq_wf buf" "sl_local_buf_size s \<le> fq_cap buf"
  shows "\<exists>r chunks' s' buf' free'. slab_alloc1 chunks s buf = Inr (r, chunks', s', buf') \<and> fq_wf buf'
    \<and> chunk_supply s' chunks' \<and> same_config s s' \<and> fq_cap buf' = fq_cap buf
    \<and> slab_inv s' free' (fq_list buf' @ obj_of r @ used)"
proof -
  consider "sl_local_buf_size s = 0" | "sl_local_buf_size s \<noteq> 0" "fq_list buf \<noteq> []" | "sl_local_buf_size s \<noteq> 0" "fq_list buf = []"
    by blast
  then show ?thesis
  proof cases
    case 1
    obtain xs chunks' s' free' where a: "slab_alloc chunks 1 s = Inr (xs, chunks', s')"
        "slab_inv s' free' (xs @ fq_list buf @ used)" "chunk_supply s' chunks'" "same_config s s'" "length xs = 1 \<or> xs = []"
      using slab_alloc_ok [OF assms(1) _ assms(2), of 1] by auto
    then have r: "xs = obj_of (case xs of [] \<Rightarrow> None | x # _ \<Rightarrow> Some x)" by (auto simp: length_Suc_conv)
    have "slab_inv s' free' (fq_list buf @ xs @ used)"
      using a(2) by (subst slab_inv_used_cong) (auto simp: ac_simps)
    with a(1,3,4) r assms(3) 1 show ?thesis by (auto simp: slab_alloc1_def split: list.splits)
  next
    case 2
    then obtain x xs where x: "fq_list buf = x # xs" by (cases "fq_list buf") auto
    obtain buf' where b: "fq_pop_front buf = Inr (x, buf')" "fq_wf buf'" "fq_list buf' = xs" "fq_cap buf' = fq_cap buf"
      using fq_pop_front_ok [OF assms(3) x] by auto
    have "slab_inv s free (fq_list buf' @ obj_of (Some x) @ used)"
      using assms(1) by (subst slab_inv_used_cong) (auto simp: x b)
    then show ?thesis using b assms 2 by (fastforce simp: slab_alloc1_def fq_wf_counts(4))
  next
    case 3
    let ?n = "sl_local_buf_size s"
    obtain xs chunks' s' free' where a: "slab_alloc chunks ?n s = Inr (xs, chunks', s')"
        "slab_inv s' free' (xs @ used)" "chunk_supply s' chunks'" "same_config s s'" "length xs = ?n \<or> xs = []"
      using slab_alloc_ok [OF assms(1) _ assms(2), of ?n] 3 by auto
    show ?thesis
    proof (cases xs)
      case Nil
      then show ?thesis using a assms 3 by (fastforce simp: slab_alloc1_def fq_wf_counts(4))
    next
      case (Cons x xs')
      then have len: "length xs \<le> fq_cap buf" using a(5) assms(4) by auto
      obtain buf1 where b1: "fq_add xs buf = Inr (length xs, buf1)" "fq_wf buf1" "fq_list buf1 = x # xs'" "fq_cap buf1 = fq_cap buf"
        using fq_add_ok [OF assms(3), of xs] 3 len Cons length_fq_list [of buf] by (auto simp: min_def)
      obtain buf2 where b2: "fq_pop_front buf1 = Inr (x, buf2)" "fq_wf buf2" "fq_list buf2 = xs'" "fq_cap buf2 = fq_cap buf1"
        using fq_pop_front_ok [OF b1(2,3)] by auto
      have "slab_inv s' free' (fq_list buf2 @ obj_of (Some x) @ used)"
        using a(2) by (subst slab_inv_used_cong) (auto simp: Cons b2)
      then show ?thesis using a b1 b2 assms(3) 3 Cons
        by (fastforce simp: slab_alloc1_def fq_wf_counts(4))
    qed
  qed
qed

lemma slab_free1_ok:
  assumes "slab_inv s free (fq_list buf @ obj # used)" "fq_wf buf"
  shows "\<exists>h l buf' free'. let s' = s\<lparr>sl_heap := h, sl_list := l\<rparr> in slab_free1 obj s buf = Inr (s', buf') \<and> fq_wf buf'
    \<and> fq_cap buf' = fq_cap buf \<and> slab_inv s' free' (fq_list buf' @ used)"
proof -
  let ?n = "sl_local_buf_size s"
  consider "?n = 0" | "?n \<noteq> 0" "length (fq_list buf) < fq_cap buf" | "?n \<noteq> 0" "length (fq_list buf) = fq_cap buf"
    using fq_wf_counts(5) [OF assms(2)] by linarith
  then show ?thesis
  proof cases
    case 1
    have "mset (fq_list buf @ obj # used) = mset ([obj] @ fq_list buf @ used)" by simp
    from slab_free_ok [OF assms(1) this] 1 assms(2) show ?thesis by (fastforce simp: slab_free1_def Let_def)
  next
    case 2
    obtain buf' where b: "fq_push_back obj buf = Inr buf'" "fq_wf buf'" "fq_list buf' = fq_list buf @ [obj]" "fq_cap buf' = fq_cap buf"
      using fq_push_back_ok [OF assms(2) 2(2), of obj] by auto
    moreover have "s = s\<lparr>sl_heap := sl_heap s, sl_list := sl_list s\<rparr>" by simp
    ultimately show ?thesis using 2 assms fq_wf_counts(3) [OF assms(2)]
      by (auto simp: slab_free1_def Let_def intro!: exI [of _ "sl_heap s"] exI [of _ "sl_list s"])
  next
    case 3
    have ne: "0 < fq_cap buf" using fq_wf_loc(2) [OF assms(2)] .
    obtain buf1 where f: "fq_fetch ?n buf = Inr (take ?n (fq_list buf), buf1)" "fq_list buf1 = drop ?n (fq_list buf)" "fq_wf buf1"
        "fq_cap buf1 = fq_cap buf"
      using fq_fetch_list [OF fq_wf_readable [OF assms(2)], of ?n] assms(2) by auto
    then have "length (fq_list buf1) < fq_cap buf1" using 3 ne by simp
    from fq_push_back_ok [OF f(3) this, of obj] obtain buf2 where b: "fq_push_back obj buf1 = Inr buf2" "fq_wf buf2"
        "fq_list buf2 = fq_list buf1 @ [obj]" "fq_cap buf2 = fq_cap buf" using f(4) by auto
    have "mset (fq_list buf @ obj # used) = mset (take ?n (fq_list buf) @ drop ?n (fq_list buf) @ obj # used)"
      by (simp flip: append_assoc)
    from slab_free_ok [OF assms(1) this] f b 3 fq_wf_counts(3) [OF assms(2)]
    show ?thesis by (fastforce simp: slab_free1_def Let_def)
  qed
qed

section \<open>The memory manager\<close>

lemma get_free_pages_ok:
  assumes "slab_inv s free used" "chunk_supply s chunks" "0 < n"
    and shrinks: "\<And>i k buf. shrink i k = Some buf \<Longrightarrow> length buf = k \<and> (\<exists>rest. mset used = mset (buf @ rest))"
  shows "\<exists>ok pages chunks' s' free' given. get_free_pages sizes request shrink chunks n s = Inr (ok, pages, chunks', s')
    \<and> chunk_supply s' chunks' \<and> same_config s s' \<and> (ok \<longrightarrow> length pages = n) \<and> (\<not> ok \<longrightarrow> pages = [] \<and> given = [])
    \<and> (given = [] \<or> (\<exists>i. largest_cache 0 0 None sizes = Some i \<and> i \<noteq> request \<and> shrink i (max SHRINK_NPAGES n) = Some given))
    \<and> (\<exists>rest. mset used = mset (given @ rest) \<and> slab_inv s' free' (pages @ rest))"
proof -
  obtain xs chunks1 s1 free1 where a: "slab_alloc chunks n s = Inr (xs, chunks1, s1)" "slab_inv s1 free1 (xs @ used)"
      "chunk_supply s1 chunks1" "same_config s s1" "length xs = n \<or> xs = []"
    using slab_alloc_ok [OF assms(1,3,2)] by auto
  consider "xs \<noteq> []" | "xs = []" "\<And>i buf. largest_cache 0 0 None sizes = Some i \<Longrightarrow> i \<noteq> request
        \<Longrightarrow> shrink i (max SHRINK_NPAGES n) \<noteq> Some buf"
    | i buf where "xs = []" "largest_cache 0 0 None sizes = Some i" "i \<noteq> request" "shrink i (max SHRINK_NPAGES n) = Some buf"
    by blast
  then show ?thesis
  proof cases
    case 1
    then show ?thesis using a by (fastforce simp: get_free_pages_def)
  next
    case 2
    then have "get_free_pages sizes request shrink chunks n s = Inr (False, [], chunks1, s1)"
      using a(1) by (auto simp: get_free_pages_def Let_def split: option.splits)
    then show ?thesis using a 2(1) by fastforce
  next
    case 3
    obtain rest where buf: "length buf = max SHRINK_NPAGES n" "mset used = mset (buf @ rest)"
      using shrinks [OF 3(4)] by auto
    then obtain h l where f: "slab_free buf s1 = Inr (s1\<lparr>sl_heap := h, sl_list := l\<rparr>)"
        "slab_inv (s1\<lparr>sl_heap := h, sl_list := l\<rparr>) (rev buf @ free1) rest"
      using slab_free_ok [of s1 free1 used buf rest] a(2) 3(1) by auto
    obtain ys chunks2 s2 free2 where g: "slab_alloc chunks1 n (s1\<lparr>sl_heap := h, sl_list := l\<rparr>) = Inr (ys, chunks2, s2)"
        "slab_inv s2 free2 (ys @ rest)" "chunk_supply s2 chunks2" "same_config s1 s2" "length ys = n"
      using slab_alloc_ok [OF f(2) assms(3), of chunks1] a(3) buf(1) by (auto simp: same_config_def)
    then have "get_free_pages sizes request shrink chunks n s = Inr (True, ys, chunks2, s2)"
      using a(1) 3 buf(1) f(1) by (simp add: get_free_pages_def Let_def)
    moreover have "same_config s s2" using a(4) g(4) by (simp add: same_config_def)
    ultimately show ?thesis using g 3 buf(2) by blast
  qed
qed

section \<open>Properties\<close>

text \<open>A new memory manager of two pages, and one whose 1024 pages are all in use.\<close>

definition empty_slab :: slab where
  "empty_slab = \<lparr>sl_obj_size = 4096, sl_increase_size = 8192, sl_max_size = 8192, sl_node_id = 0, sl_local_buf_size = 1,
     sl_thread_safe = True, sl_list = ll_empty, sl_curr_size = 0, sl_alloc_bufs = [], sl_heap = (\<lambda>_. None)\<rparr>"

definition full_slab :: slab where
  "full_slab = empty_slab\<lparr>sl_increase_size := 4194304, sl_max_size := 4194304, sl_curr_size := 4194304, sl_alloc_bufs := [4096]\<rparr>"

lemma empty_slab_inv: "slab_inv empty_slab [] []" "chunk_supply empty_slab [Some 4096]"
  by (simp_all add: empty_slab_def slab_inv_def slab_objs_def chunk_supply_def)

lemma full_slab_inv: "slab_inv full_slab [] (chunk_objs full_slab 4096)" "chunk_supply full_slab []"
    "length (chunk_objs full_slab 4096) = 1024"
  by (simp_all add: full_slab_def empty_slab_def slab_inv_def slab_objs_def chunk_supply_def chunk_objs_def)

lemma new_slab_inv:
  assumes "new_slab obj inc mx node buf ts = Inr s" "0 < inc"
  shows "slab_inv s [] []"
  using assms by (auto simp: new_slab_def slab_inv_def slab_objs_def ROUNDUP_PAGE_def assert_then_def split: if_splits)

text \<open>
  C21. Allocation is all or nothing and never shares an object. It returns, having asked the operating system
  for chunks as needed; either all \<open>n\<close> objects are delivered, pairwise different and different from every
  object in use, or none is, and then the allocator has reached its maximal size and fewer than \<open>n\<close>
  objects are free. Objects only move between the free list and the users: the invariant, which
  counts every object of every chunk once, is kept, and releasing objects puts them back.
\<close>

theorem slab_alloc_all_or_nothing:
  assumes "slab_inv s free used" "chunk_supply s chunks" "0 < n"
  shows "\<exists>xs chunks' s' free'. slab_alloc chunks n s = Inr (xs, chunks', s') \<and> slab_inv s' free' (xs @ used)
    \<and> distinct xs \<and> set xs \<inter> set used = {}
    \<and> (length xs = n \<or> xs = [] \<and> length free' < n \<and> sl_max_size s \<le> sl_curr_size s')
    \<and> (\<exists>s''. slab_free xs s' = Inr s'' \<and> slab_inv s'' (rev xs @ free') used)"
proof -
  obtain xs chunks' s' free' where a: "slab_alloc chunks n s = Inr (xs, chunks', s')" "slab_inv s' free' (xs @ used)"
      "length xs = n \<or> xs = [] \<and> length free' < n \<and> sl_max_size s \<le> sl_curr_size s'"
    using slab_alloc_ok [OF assms(1,3,2)] by auto
  moreover have "distinct xs" "set xs \<inter> set used = {}" using slab_inv_distinct [OF a(2)] by auto
  ultimately show ?thesis using slab_free_ok [OF a(2) refl] by blast
qed

theorem slab_alloc_all_or_nothing_witness:
  "\<exists>xs chunks' s'. slab_alloc [Some 4096] 2 empty_slab = Inr (xs, chunks', s') \<and> distinct xs"
  using slab_alloc_all_or_nothing [OF empty_slab_inv(1) empty_slab_inv(2), of 2] by fastforce

text \<open>
  The buffers threads keep in front of the allocator lose and duplicate nothing. Taking one object
  through the buffer of a thread always returns; the object, if there is one, leaves the free objects
  or the buffer and becomes used. Giving one back returns too and the object is in the buffer or free
  afterwards, also when the full buffer has to be emptied first.
\<close>

theorem thread_buffers_lose_nothing:
  assumes "slab_inv s free (fq_list buf @ used)" "chunk_supply s chunks" "fq_wf buf" "sl_local_buf_size s \<le> fq_cap buf"
  shows "(\<exists>r chunks' s' buf' free'. slab_alloc1 chunks s buf = Inr (r, chunks', s', buf') \<and> fq_wf buf'
      \<and> fq_cap buf' = fq_cap buf \<and> slab_inv s' free' (fq_list buf' @ (case r of None \<Rightarrow> [] | Some x \<Rightarrow> [x]) @ used))
    \<and> (\<forall>obj rest. used = obj # rest \<longrightarrow> (\<exists>s' buf' free'. slab_free1 obj s buf = Inr (s', buf') \<and> fq_wf buf'
      \<and> fq_cap buf' = fq_cap buf \<and> slab_inv s' free' (fq_list buf' @ rest)))"
  using slab_alloc1_ok [OF assms] slab_free1_ok [of s free buf _ _] assms(1,3) by (fastforce simp: Let_def)

theorem thread_buffers_lose_nothing_witness:
  "\<exists>r chunks' s' buf'. slab_alloc1 [Some 4096] empty_slab
      \<lparr>fq_size_mask = 0, fq_buf = [0], fq_allocated = True, fq_start = 0, fq_end = 0, fq_resizable = False, fq_node_id = 0\<rparr>
      = Inr (r, chunks', s', buf') \<and> fq_wf buf'"
proof -
  let ?b = "\<lparr>fq_size_mask = 0, fq_buf = [0], fq_allocated = True, fq_start = 0, fq_end = 0, fq_resizable = False, fq_node_id = 0\<rparr>
    :: nat fifo_queue"
  have "fq_wf ?b" "fq_list ?b = []" by (auto simp: fq_wf_def fq_list_def intro!: exI [of _ 0])
  then show ?thesis
    using thread_buffers_lose_nothing [of empty_slab "[]" ?b "[]" "[Some 4096]"] empty_slab_inv by (auto simp: empty_slab_def)
qed

text \<open>
  The memory manager keeps its word. If shrinking a cache really yields the number of pages asked for,
  pages of that allocator in use, then \<^verbatim>\<open>get_free_pages\<close> returns true with all \<open>n\<close> pages, taken from free
  memory or from the largest cache other than the one that asks, or false with no page and no cache
  shrunk; pages a cache keeps stay its own.
\<close>

theorem get_free_pages_delivers:
  assumes "slab_inv s free used" "chunk_supply s chunks" "0 < n"
    and "\<forall>i k buf. shrink i k = Some buf \<longrightarrow> length buf = k \<and> (\<exists>rest. mset used = mset (buf @ rest))"
  shows "\<exists>ok pages chunks' s' free' given. get_free_pages sizes request shrink chunks n s = Inr (ok, pages, chunks', s')
    \<and> (ok \<longrightarrow> length pages = n) \<and> (\<not> ok \<longrightarrow> pages = [] \<and> given = [])
    \<and> (given = [] \<or> (\<exists>i. largest_cache 0 0 None sizes = Some i \<and> i \<noteq> request \<and> shrink i (max SHRINK_NPAGES n) = Some given))
    \<and> (\<exists>rest. mset used = mset (given @ rest) \<and> slab_inv s' free' (pages @ rest) \<and> set pages \<inter> set rest = {})"
proof -
  obtain ok pages chunks' s' free' given rest where
    "get_free_pages sizes request shrink chunks n s = Inr (ok, pages, chunks', s')"
    "ok \<longrightarrow> length pages = n" "\<not> ok \<longrightarrow> pages = [] \<and> given = []"
    "given = [] \<or> (\<exists>i. largest_cache 0 0 None sizes = Some i \<and> i \<noteq> request \<and> shrink i (max SHRINK_NPAGES n) = Some given)"
    "mset used = mset (given @ rest)" "slab_inv s' free' (pages @ rest)"
    using get_free_pages_ok [where shrink = shrink and sizes = sizes and request = request, OF assms(1-3)] assms(4) by blast
  moreover from this have "set pages \<inter> set rest = {}" using slab_inv_distinct by fastforce
  ultimately show ?thesis by blast
qed

theorem get_free_pages_delivers_witness:
  "\<exists>ok pages chunks' s'. get_free_pages [7] 1 (\<lambda>_ k. if k = 1024 then Some (chunk_objs full_slab 4096) else None) [] 1 full_slab
     = Inr (ok, pages, chunks', s') \<and> (ok \<longrightarrow> length pages = 1)"
proof -
  have "length buf = k \<and> (\<exists>rest. mset (chunk_objs full_slab 4096) = mset (buf @ rest))"
    if "(if k = 1024 then Some (chunk_objs full_slab 4096) else None) = Some buf" for k buf
    using that full_slab_inv(3) by (auto split: if_splits intro!: exI [of _ "[]"])
  then show ?thesis
    using get_free_pages_delivers [OF full_slab_inv(1,2), of 1
        "\<lambda>_ k. if k = 1024 then Some (chunk_objs full_slab 4096) else None" "[7]" 1] by fastforce
qed

end
