(* ===== verification/Flusher.thy ===== *)
theory Flusher
  imports Assoc_Props Blocking_Queue
begin

text \<open>
  The dirty page flusher of \<^verbatim>\<open>libsafs/associative_cache.cpp\<close> (\<^verbatim>\<open>associative_flusher\<close> and \<^verbatim>\<open>flush_io\<close>): which dirty
  pages of a page set are written back, the queue of page sets that have more of them, and what
  happens when a write completes or is discarded.

  A page set is its index in the table, a page the pair of set and slot. \<open>fl_issued\<close> collects the requests
  handed to the I/O layer. The policy that selects pages is an argument of the routines; the code has two
  (\<open>eviction_select\<close>, which asks the eviction policy of the set, and \<open>default_select\<close>). Between the
  selection of a page and its locking the model lets no other thread run. The waiting list of a page
  lives in the I/O layer: \<open>waiting\<close> says whether a request hangs on a page.
\<close>

section \<open>Selecting pages\<close>

definition DIRTY_PAGES_THRESHOLD :: nat where "DIRTY_PAGES_THRESHOLD = 1"
definition NUM_WRITEBACK_DIRTY_PAGES :: nat where "NUM_WRITEBACK_DIRTY_PAGES = 2"

definition dirty_flags :: "8 word" where
  "dirty_flags = snd (page_set_flag 0 DIRTY_BIT True)"

definition skip_flags :: "8 word" where
  "skip_flags = snd (page_set_flag (snd (page_set_flag 0 IO_PENDING_BIT True)) PREPARE_WRITEBACK True)"

type_synonym 'p select = "nat \<Rightarrow> 'p hash_cell \<Rightarrow> ((int \<times> nat) list \<times> 'p hash_cell) res"

definition eviction_select ::
  "('p \<Rightarrow> page_cell \<Rightarrow> int \<Rightarrow> 8 word \<Rightarrow> 8 word \<Rightarrow> (int \<times> nat) list \<Rightarrow> ((int \<times> nat) list \<times> page_cell) res)
   \<Rightarrow> 'p select" where
  "eviction_select predict num hc = hc_predict_evicted_pages predict (int num) dirty_flags skip_flags [] hc"

definition default_select :: "'p select" where
  "default_select num hc = hc_get_pages (int num) dirty_flags skip_flags [] hc"

section \<open>Flushing a page set\<close>

record flush_req =
  fr_loc :: data_loc_t
  fr_pages :: "(nat \<times> nat) list"
  fr_high_prio :: bool
  fr_discarded :: bool

text \<open>\<open>num\<close> requests have been made, the array has room for \<open>sz\<close>.\<close>

fun flush_pages :: "nat \<Rightarrow> nat \<Rightarrow> nat \<Rightarrow> (int \<times> nat) list \<Rightarrow> page_cell \<Rightarrow> (flush_req list \<times> page_cell) res" where
  "flush_pages sz i num [] c = Inr ([], c)"
| "flush_pages sz i num ((off, k) # ps) c =
     (let p = pc_buf c ! k in
      assert_then (\<not> is_old_dirty p \<and> data_ready p \<and> num < sz)
        (if \<not> is_io_pending p \<and> \<not> is_prepare_writeback p \<and> is_dirty p
         then bind_res (flush_pages sz i (Suc num) ps (upd_page k dec_ref (upd_page k (set_prepare_writeback True) c)))
           (\<lambda>(rs, c'). Inr (\<lparr>fr_loc = \<lparr>loc_file_id = pg_file_id p, loc_off = get_offset p\<rparr>, fr_pages = [(i, k)],
                fr_high_prio = False, fr_discarded = False\<rparr> # rs, c'))
         else flush_pages sz i num ps (upd_page k dec_ref c)))"

definition flush_cell ::
  "'p select \<Rightarrow> nat \<Rightarrow> nat \<Rightarrow> 'p hash_cell \<Rightarrow> (flush_req list \<times> 'p hash_cell) res" where
  "flush_cell select sz i hc =
     bind_res (select NUM_WRITEBACK_DIRTY_PAGES hc) (\<lambda>(pages, hc').
     bind_res (flush_pages sz i 0 pages (hc_buf hc')) (\<lambda>(rs, c).
       Inr (rs, hc'\<lparr>hc_buf := c\<rparr>)))"

section \<open>The flusher\<close>

record ('p, 'g) flusher =
  fl_cache :: "('p, 'g) acache"
  fl_dirty_cells :: "nat ts_queue"
  fl_num_pending :: int
  fl_max_pending :: int
  fl_issued :: "flush_req list"

text \<open>
  \<^verbatim>\<open>create_flusher\<close>: a flusher is made at most once, for an I/O instance on the node of the cache. The queue
  has room for the page sets there are then.
\<close>

definition create_flusher ::
  "nat \<Rightarrow> int \<Rightarrow> int option \<Rightarrow> int \<Rightarrow> ('p, 'g) acache \<Rightarrow> ('p, 'g) flusher option \<Rightarrow> ('p, 'g) flusher option res" where
  "create_flusher dflt node io_node max_pending ac fl =
     (case (fl, io_node) of
        (None, Some n) \<Rightarrow>
          if n = node \<or> node = - 1 then
            bind_res (ts_new dflt n (get_num_cells ac)) (\<lambda>q.
              Inr (Some \<lparr>fl_cache = ac, fl_dirty_cells = q, fl_num_pending = 0, fl_max_pending = max_pending, fl_issued = []\<rparr>))
          else Inr None
      | _ \<Rightarrow> Inr fl)"

definition flush_one :: "'p select \<Rightarrow> nat \<Rightarrow> ('p, 'g) flusher \<Rightarrow> (nat \<times> ('p, 'g) flusher) res" where
  "flush_one select i fl =
     bind_res (cell_at (fl_cache fl) i) (\<lambda>hc.
     bind_res (flush_cell select NUM_WRITEBACK_DIRTY_PAGES i hc) (\<lambda>(rs, hc').
       Inr (length rs, fl\<lparr>fl_cache := put_cell i hc' (fl_cache fl), fl_issued := fl_issued fl @ rs\<rparr>)))"

definition mark_queued :: "bool \<Rightarrow> nat \<Rightarrow> ('p, 'g) flusher \<Rightarrow> (bool \<times> ('p, 'g) flusher) res" where
  "mark_queued v i fl =
     bind_res (cell_at (fl_cache fl) i) (\<lambda>hc.
       let (orig, hc') = set_in_queue v hc in Inr (orig, fl\<lparr>fl_cache := put_cell i hc' (fl_cache fl)\<rparr>))"

text \<open>Adding page sets to the queue: what does not fit is not added.\<close>

definition queue_cells :: "nat list \<Rightarrow> ('p, 'g) flusher \<Rightarrow> ('p, 'g) flusher res" where
  "queue_cells is fl =
     bind_res (ts_add 0 is (fl_dirty_cells fl)) (\<lambda>(n, q). Inr (fl\<lparr>fl_dirty_cells := q\<rparr>))"

fun run_cells :: "'p select \<Rightarrow> nat list \<Rightarrow> ('p, 'g) flusher \<Rightarrow> (nat list \<times> nat \<times> ('p, 'g) flusher) res" where
  "run_cells select [] fl = Inr ([], 0, fl)"
| "run_cells select (i # is) fl =
     bind_res (flush_one select i fl) (\<lambda>(ret, fl1).
     bind_res (if ret = NUM_WRITEBACK_DIRTY_PAGES then Inr fl1
               else bind_res (mark_queued False i fl1) (\<lambda>(orig, fl2). Inr fl2)) (\<lambda>fl2.
     bind_res (run_cells select is fl2) (\<lambda>(tmp, n, fl3).
       Inr (if ret = NUM_WRITEBACK_DIRTY_PAGES then i # tmp else tmp, ret + n, fl3))))"

definition inc_pending :: "int \<Rightarrow> ('p, 'g) flusher \<Rightarrow> ('p, 'g) flusher" where
  "inc_pending n fl = fl\<lparr>fl_num_pending := int32 (fl_num_pending fl + n)\<rparr>"

fun flusher_run :: "nat \<Rightarrow> 'p select \<Rightarrow> ('p, 'g) flusher \<Rightarrow> ('p, 'g) flusher res" where
  "flusher_run rounds select fl =
     (if ts_get_num_entries (fl_dirty_cells fl) \<le> 0 then Inr fl
      else bind_res (ts_fetch 32 (fl_dirty_cells fl)) (\<lambda>(is, q).
        bind_res (run_cells select is (fl\<lparr>fl_dirty_cells := q\<rparr>)) (\<lambda>(tmp, n, fl1).
        bind_res (queue_cells tmp fl1) (\<lambda>fl2.
          let fl3 = inc_pending (int n) fl2 in
          if fl_max_pending fl3 < fl_num_pending fl3 then Inr fl3
          else case rounds of 0 \<Rightarrow> Inl Out_of_steps | Suc r \<Rightarrow> flusher_run r select fl3))))"

declare flusher_run.simps [simp del]

text \<open>
  \<^verbatim>\<open>flush_dirty_pages\<close> for pages an application has just written; \<open>locs\<close> are their locations. The result is
  the page sets to queue and the number of flushes.
\<close>

definition flush_written ::
  "'p select \<Rightarrow> data_loc_t \<Rightarrow> ('p, 'g) flusher \<Rightarrow> (nat list \<times> nat \<times> ('p, 'g) flusher) res" where
  "flush_written select l fl =
     bind_res (get_cell_offset (fl_cache fl) l) (\<lambda>i.
     bind_res (cell_at (fl_cache fl) i) (\<lambda>hc.
     bind_res (num_pages dirty_flags skip_flags hc) (\<lambda>n.
       if DIRTY_PAGES_THRESHOLD < n then
         if fl_max_pending fl < fl_num_pending fl then
           bind_res (mark_queued True i fl) (\<lambda>(orig, fl1). Inr (if orig then [] else [i], 0, fl1))
         else
           bind_res (flush_one select i fl) (\<lambda>(ret, fl1).
             if ret = NUM_WRITEBACK_DIRTY_PAGES \<and> 6 < int n - int ret
             then bind_res (mark_queued True i fl1) (\<lambda>(orig, fl2). Inr (if orig then [] else [i], ret, fl2))
             else Inr ([], ret, fl1))
       else Inr ([], 0, fl))))"

fun flush_each ::
  "'p select \<Rightarrow> data_loc_t list \<Rightarrow> ('p, 'g) flusher \<Rightarrow> (nat list \<times> nat \<times> ('p, 'g) flusher) res" where
  "flush_each select [] fl = Inr ([], 0, fl)"
| "flush_each select (l # ls) fl =
     bind_res (flush_written select l fl) (\<lambda>(is, n, fl1).
     bind_res (flush_each select ls fl1) (\<lambda>(js, m, fl2). Inr (is @ js, n + m, fl2)))"

definition flush_dirty_pages ::
  "bool \<Rightarrow> 'p select \<Rightarrow> data_loc_t list \<Rightarrow> ('p, 'g) flusher \<Rightarrow> ('p, 'g) flusher res" where
  "flush_dirty_pages use_flusher select locs fl =
     (if \<not> use_flusher then Inr fl
      else bind_res (flush_each select locs fl) (\<lambda>(is, n, fl1).
        let fl2 = (if 0 < n then inc_pending (int n) fl1 else fl1) in
        if is = [] then Inr fl2 else queue_cells is fl2))"

definition mark_dirty_pages ::
  "bool \<Rightarrow> 'p select \<Rightarrow> data_loc_t list \<Rightarrow> ('p, 'g) flusher option \<Rightarrow> ('p, 'g) flusher option res" where
  "mark_dirty_pages use_flusher select locs fl =
     (case fl of None \<Rightarrow> Inr None
      | Some f \<Rightarrow> bind_res (flush_dirty_pages use_flusher select locs f) (\<lambda>f'. Inr (Some f')))"

text \<open>
  \<^verbatim>\<open>flush_dirty_pages\<close> with a number of pages to flush. When the queue runs empty the routine returns at
  once, without adding to the number of pending flushes.
\<close>

fun flush_number ::
  "nat \<Rightarrow> 'p select \<Rightarrow> nat \<Rightarrow> nat \<Rightarrow> ('p, 'g) flusher \<Rightarrow> (nat \<times> ('p, 'g) flusher) res" where
  "flush_number rounds select max_num done fl =
     (if max_num \<le> done then Inr (done, inc_pending (int done) fl)
      else let k = (max_num - done) div NUM_WRITEBACK_DIRTY_PAGES; k' = (if k = 0 then 1 else k) in
        bind_res (ts_fetch k' (fl_dirty_cells fl)) (\<lambda>(is, q).
          if is = [] then Inr (done, fl\<lparr>fl_dirty_cells := q\<rparr>)
          else bind_res (run_cells select is (fl\<lparr>fl_dirty_cells := q\<rparr>)) (\<lambda>(tmp, n, fl1).
            bind_res (queue_cells tmp fl1) (\<lambda>fl2.
              case rounds of 0 \<Rightarrow> Inl Out_of_steps | Suc r \<Rightarrow> flush_number r select max_num (done + n) fl2))))"

declare flush_number.simps [simp del]

definition flush_dirty_pages_max ::
  "nat \<Rightarrow> bool \<Rightarrow> 'p select \<Rightarrow> nat \<Rightarrow> ('p, 'g) flusher \<Rightarrow> (nat \<times> ('p, 'g) flusher) res" where
  "flush_dirty_pages_max rounds use_flusher select max_num fl =
     (if \<not> use_flusher then Inr (0, fl) else flush_number rounds select max_num 0 fl)"

section \<open>Completion\<close>

definition written_back :: "page \<Rightarrow> page" where
  "written_back p = dec_ref (set_io_pending False (set_dirty False p))"

fun complete_pages ::
  "(nat \<times> nat \<Rightarrow> bool) \<Rightarrow> bool \<Rightarrow> (nat \<times> nat) list \<Rightarrow> ('p, 'g) flusher \<Rightarrow> ('p, 'g) flusher res" where
  "complete_pages waiting single [] fl = Inr fl"
| "complete_pages waiting single ((i, k) # ps) fl =
     bind_res (cell_at (fl_cache fl) i) (\<lambda>hc.
       let p = pc_buf (hc_buf hc) ! k; p' = written_back p in
       assert_then (is_dirty p \<and> \<not> waiting (i, k) \<and> (single \<or> 0 \<le> pg_refcnt p'))
         (complete_pages waiting single ps
           (fl\<lparr>fl_cache := put_cell i (hc\<lparr>hc_buf := upd_page k written_back (hc_buf hc)\<rparr>) (fl_cache fl)\<rparr>)))"

definition complete_req ::
  "(nat \<times> nat \<Rightarrow> bool) \<Rightarrow> 'p select \<Rightarrow> flush_req \<Rightarrow> ('p, 'g) flusher \<Rightarrow> (nat list \<times> nat \<times> ('p, 'g) flusher) res" where
  "complete_req waiting select r fl =
     (if fr_discarded r then
        bind_res (get_cell_offset (fl_cache fl) (fr_loc r)) (\<lambda>i.
        bind_res (cell_at (fl_cache fl) i) (\<lambda>hc.
          if is_in_queue hc then Inr ([], 0, fl)
          else if fl_num_pending fl < fl_max_pending fl then
            bind_res (flush_one select i fl) (\<lambda>(ret, fl1).
              if ret = NUM_WRITEBACK_DIRTY_PAGES then
                bind_res (mark_queued True i fl1) (\<lambda>(orig, fl2). Inr (if orig then [] else [i], ret, fl2))
              else Inr ([], ret, fl1))
          else Inr ([i], 0, fl)))
      else assert_then (fr_pages r \<noteq> [])
        (bind_res (complete_pages waiting (length (fr_pages r) = 1) (fr_pages r) fl) (\<lambda>fl1. Inr ([], 0, fl1))))"

fun complete_reqs ::
  "(nat \<times> nat \<Rightarrow> bool) \<Rightarrow> 'p select \<Rightarrow> flush_req list \<Rightarrow> ('p, 'g) flusher \<Rightarrow> (nat list \<times> nat \<times> ('p, 'g) flusher) res" where
  "complete_reqs waiting select [] fl = Inr ([], 0, fl)"
| "complete_reqs waiting select (r # rs) fl =
     bind_res (complete_req waiting select r fl) (\<lambda>(is, n, fl1).
     bind_res (complete_reqs waiting select rs fl1) (\<lambda>(js, m, fl2). Inr (is @ js, n + m, fl2)))"

definition notify_completion ::
  "nat \<Rightarrow> (nat \<times> nat \<Rightarrow> bool) \<Rightarrow> 'p select \<Rightarrow> flush_req list \<Rightarrow> ('p, 'g) flusher \<Rightarrow> ('p, 'g) flusher res" where
  "notify_completion rounds waiting select rs fl =
     bind_res (complete_reqs waiting select rs fl) (\<lambda>(is, n, fl1).
     bind_res (if is = [] then Inr fl1 else queue_cells is fl1) (\<lambda>fl2.
       let fl3 = inc_pending (- int (length rs)) (if 0 < n then inc_pending (int n) fl2 else fl2) in
       if fl_num_pending fl3 < fl_max_pending fl3 then flusher_run rounds select fl3 else Inr fl3))"

end
