(* ===== verification/Flusher_Laws.thy ===== *)
theory Flusher_Laws
  imports Flusher
begin

text \<open>
  What a policy that selects dirty pages promises the flusher (locale \<open>page_selector\<close>) and what flushing
  a page set does under this contract. The forecast of the generalized clock interprets it: it returns
  for every page set of at least \<open>MAX_NUM_WRITEBACK\<close> pages and picks dirty pages that are not being
  written, no more than asked for.
\<close>

section \<open>Cells that differ in flush scores only\<close>

definition sans_score :: "page \<Rightarrow> page" where
  "sans_score p = p\<lparr>pg_flush_score := 0\<rparr>"

definition same_but_score :: "page_cell \<Rightarrow> page_cell \<Rightarrow> bool" where
  "same_but_score c c' \<longleftrightarrow> pc_num_pages c' = pc_num_pages c \<and> pc_maps c' = pc_maps c \<and> pc_idx c' = pc_idx c
     \<and> map sans_score (pc_buf c') = map sans_score (pc_buf c)"

lemma sans_scoreD:
  assumes "sans_score p = sans_score q"
  shows "pg_flags p = pg_flags q" "pg_data p = pg_data q" "pg_refcnt p = pg_refcnt q" "pg_off p = pg_off q"
    "pg_file_id p = pg_file_id q" "pg_hits p = pg_hits q"
  using assms by (cases p; cases q; simp add: sans_score_def)+

lemma sans_score_set [simp]: "sans_score (set_flush_score v p) = sans_score p"
  by (simp add: sans_score_def set_flush_score_def)

lemma same_but_score_refl [simp]: "same_but_score c c"
  by (simp add: same_but_score_def)

lemma same_but_score_trans: "same_but_score a b \<Longrightarrow> same_but_score b c \<Longrightarrow> same_but_score a c"
  by (simp add: same_but_score_def)

lemma same_but_score_upd: "same_but_score c (upd_page k (set_flush_score v) c)"
proof (cases "k < length (pc_buf c)")
  case True
  then show ?thesis
    by (simp add: same_but_score_def upd_page_def map_update) (metis length_map list_update_id nth_map)
qed (simp add: same_but_score_def upd_page_def list_update_beyond)

lemma store_scores_same: "same_but_score c (store_scores kss c)"
proof (induction kss arbitrary: c)
  case (Cons ks kss)
  obtain k v where "ks = (k, v)" by fastforce
  then show ?case
    using same_but_score_trans [OF same_but_score_upd Cons, of c k "int v"] by (simp add: store_scores_def)
qed (simp add: store_scores_def)

lemma same_but_score_length: "same_but_score c c' \<Longrightarrow> length (pc_buf c') = length (pc_buf c)"
  unfolding same_but_score_def by (metis length_map)

lemma same_but_score_nth:
  "same_but_score c c' \<Longrightarrow> k < length (pc_buf c) \<Longrightarrow> sans_score (pc_buf c' ! k) = sans_score (pc_buf c ! k)"
  using same_but_score_length [of c c'] unfolding same_but_score_def by (metis nth_map)

lemma has_data_score: "sans_score p = sans_score q \<Longrightarrow> has_data p = has_data q"
  using sans_scoreD(2) [of p q] by (simp add: has_data_def)

lemma selected_score: "sans_score p = sans_score q \<Longrightarrow> selected f g p = selected f g q"
  using sans_scoreD(1) [of p q] by (simp add: selected_def test_flags_def)

lemma used_slots_cong:
  "length b' = length b \<Longrightarrow> (\<And>j. j < length b \<Longrightarrow> has_data (b' ! j) = has_data (b ! j)) \<Longrightarrow> used_slots b' = used_slots b"
  unfolding used_slots_def by (intro filter_cong) auto

lemma same_but_score_used: "same_but_score c c' \<Longrightarrow> used_slots (pc_buf c') = used_slots (pc_buf c)"
  by (intro used_slots_cong same_but_score_length has_data_score same_but_score_nth)

lemma same_but_score_wf: "same_but_score c c' \<Longrightarrow> cell_wf c \<Longrightarrow> cell_wf c'"
  using same_but_score_used [of c c'] same_but_score_length [of c c']
  unfolding cell_wf_def cell_shape_def same_but_score_def by metis

section \<open>Ordered maps\<close>

lemma std_map_insert_set: "set (std_map_insert k v m) \<subseteq> insert (k, v) (set m)"
  by (induction k v m rule: std_map_insert.induct) auto

lemma std_map_insert_keys: "fst ` set (std_map_insert k v m) = insert k (fst ` set m)"
  by (induction k v m rule: std_map_insert.induct) auto

lemma std_map_insert_sorted: "sorted_wrt (<) (map fst m) \<Longrightarrow> sorted_wrt (<) (map fst (std_map_insert k v m))"
proof (induction k v m rule: std_map_insert.induct)
  case (2 k v k' v' m)
  have "k' < x" if "k' < k" "x \<in> fst ` set (std_map_insert k v m)" for x
    using that 2(2) by (auto simp: std_map_insert_keys)
  then show ?case using 2 by (auto dest: less_trans)
qed simp

lemma std_map_insert_length: "length (std_map_insert k v m) \<le> Suc (length m)"
  by (induction k v m rule: std_map_insert.induct) auto

section \<open>The forecast of the generalized clock\<close>

lemma slots_from_ok:
  assumes "cell_wf c" "i + n \<le> pc_num_pages c"
  shows "slots_from c i n = Inr (map (\<lambda>j. pc_maps c ! j) [i..<i + n])"
  using assms(2)
proof (induction n arbitrary: i)
  case (Suc n)
  then show ?case using get_page_wf [OF assms(1), of i] Suc.IH [of "Suc i"] upt_conv_Cons [of i "i + Suc n"] by simp
qed simp

lemma slots_from_used:
  assumes "cell_wf c"
  shows "slots_from c 0 (pc_num_pages c) = Inr (used_slots (pc_buf c))"
proof -
  have "map (\<lambda>j. pc_maps c ! j) [0..<pc_num_pages c] = used_slots (pc_buf c)"
    using maps_nth [OF assms] cell_wfD(4) [OF assms] by (intro nth_equalityI) auto
  then show ?thesis using slots_from_ok [OF assms, of 0 "pc_num_pages c"] by simp
qed

definition forecast_ok :: "8 word \<Rightarrow> 8 word \<Rightarrow> page_cell \<Rightarrow> (int \<times> nat) list \<Rightarrow> bool" where
  "forecast_ok set_fl clr_fl c pages \<longleftrightarrow> sorted_wrt (<) (map fst pages)
     \<and> (\<forall>(off, k) \<in> set pages. off = get_offset (pc_buf c ! k) \<and> k \<in> set (used_slots (pc_buf c)) \<and> selected set_fl clr_fl (pc_buf c ! k))"

lemma forecast_ok_insert:
  assumes "forecast_ok s f c pages" "k \<in> set (used_slots (pc_buf c))" "selected s f (pc_buf c ! k)"
  shows "forecast_ok s f c (std_map_insert (get_offset (pc_buf c ! k)) k pages)"
  using assms std_map_insert_sorted [of pages "get_offset (pc_buf c ! k)" k]
    std_map_insert_set [of "get_offset (pc_buf c ! k)" k pages] by (auto simp: forecast_ok_def)

lemma forecast_ok_distinct:
  assumes "forecast_ok s f c pages"
  shows "distinct (map snd pages)"
proof -
  have "distinct (map fst pages)" using assms by (simp add: forecast_ok_def strict_sorted_iff)
  moreover have "map fst pages = map ((\<lambda>k. get_offset (pc_buf c ! k)) \<circ> snd) pages"
    using assms by (intro map_cong) (auto simp: forecast_ok_def)
  ultimately show ?thesis by (metis distinct_map map_map)
qed

lemma get_page_used:
  assumes "cell_wf c" "get_page c i = Inr k"
  shows "k \<in> set (used_slots (pc_buf c))"
  using get_page_Inr [OF assms(2)] by (auto simp: set_used_slots)

lemma predict_pass_ok:
  assumes "cell_wf c" "predict_pass head num s f c is (hits, pages, likely) = Inr (fin, hits', pages', likely')"
    "forecast_ok s f c pages" "int (length pages) < num"
  shows "forecast_ok s f c pages' \<and> int (length pages') \<le> num \<and> (\<not> fin \<longrightarrow> int (length pages') < num)"
  using assms(2-)
proof (induction "is" arbitrary: hits pages likely)
  case (Cons i "is")
  let ?idx = "unat (head + of_nat i) mod pc_num_pages c"
  consider "hits ! ?idx < 0" | "hits ! ?idx = 0" | "0 < hits ! ?idx" by linarith
  then show ?case
  proof cases
    case 1
    then show ?thesis using Cons.prems Cons.IH [of hits pages likely] by (simp add: Let_def)
  next
    case 2
    then obtain k where k: "get_page c ?idx = Inr k" using Cons.prems(1) by (auto simp: Let_def res_simps)
    then have u: "k \<in> set (used_slots (pc_buf c))" using get_page_used [OF assms(1)] by blast
    let ?sel = "test_flags s (pc_buf c ! k) \<and> \<not> test_flags f (pc_buf c ! k)"
    let ?p = "if ?sel then std_map_insert (get_offset (pc_buf c ! k)) k pages else pages"
    have ok: "forecast_ok s f c ?p" using forecast_ok_insert [OF Cons.prems(2) u] Cons.prems(2) by (simp add: selected_def)
    have len: "int (length ?p) \<le> num" "\<not> (?sel \<and> int (length ?p) = num) \<Longrightarrow> int (length ?p) < num"
      using std_map_insert_length [of "get_offset (pc_buf c ! k)" k pages] Cons.prems(3) by (auto split: if_splits)
    from Cons.prems(1) 2 k ok len show ?thesis
      using Cons.IH [of "hits[?idx := - 1]" ?p "likely + 1"] by (auto simp: Let_def split: if_splits)
  next
    case 3
    then show ?thesis using Cons.prems Cons.IH [of "hits[?idx := hits ! ?idx - 1]" pages likely]
      by (auto simp: Let_def split: if_splits)
  qed
qed simp

lemma predict_loop_ok:
  assumes "cell_wf c" "predict_loop passes head num s f c (hits, pages, likely) = Inr pages'"
    "forecast_ok s f c pages" "int (length pages) < num"
  shows "forecast_ok s f c pages' \<and> int (length pages') \<le> num"
  using assms(2-)
proof (induction passes arbitrary: hits pages likely)
  case (Suc passes)
  from Suc.prems(1) obtain fin hits1 pages1 likely1 where
    p: "predict_pass head num s f c [0..<pc_num_pages c] (hits, pages, likely) = Inr (fin, hits1, pages1, likely1)"
    "fin \<Longrightarrow> pages' = pages1" "\<not> fin \<Longrightarrow> predict_loop passes head num s f c (hits1, pages1, likely1) = Inr pages'"
    by (auto simp: bind_res_def split: sum.splits prod.splits if_splits)
  note ok = predict_pass_ok [OF assms(1) p(1) Suc.prems(2,3)]
  show ?case
  proof (cases fin)
    case True
    then show ?thesis using p ok by simp
  next
    case False
    then show ?thesis using p ok Suc.IH [of hits1 pages1 likely1] by simp
  qed
qed simp

text \<open>
  The passes end: every pass that goes on lowers each counter that is not negative yet, so after 256 passes
  every page has been counted.
\<close>

abbreviation num_dropped :: "int list \<Rightarrow> nat" where
  "num_dropped hits \<equiv> length (filter (\<lambda>h. h < 0) hits)"

lemma predict_pass_returns:
  assumes "cell_wf c" "0 < pc_num_pages c" "length hits = pc_num_pages c" "likely = num_dropped hits" "likely < MAX_NUM_WRITEBACK"
    "distinct (map (\<lambda>i. unat (head + of_nat i) mod pc_num_pages c) is)"
  shows "\<exists>fin hits' pages' likely'. predict_pass head num s f c is (hits, pages, likely) = Inr (fin, hits', pages', likely')
    \<and> (\<not> fin \<longrightarrow> length hits' = pc_num_pages c \<and> likely' = num_dropped hits' \<and> likely' < MAX_NUM_WRITEBACK
      \<and> (\<forall>j < pc_num_pages c. hits' ! j = (if j \<in> (\<lambda>i. unat (head + of_nat i) mod pc_num_pages c) ` set is \<and> 0 \<le> hits ! j
            then hits ! j - 1 else hits ! j)))"
  using assms(3-)
proof (induction "is" arbitrary: hits pages likely)
  case (Cons i "is")
  let ?n = "pc_num_pages c" and ?idx = "unat (head + of_nat i) mod pc_num_pages c"
  have idx: "?idx < ?n" using assms(2) by simp
  have notin: "?idx \<notin> (\<lambda>i. unat (head + of_nat i) mod ?n) ` set is" using Cons.prems(4) by simp
  consider "hits ! ?idx < 0" | "hits ! ?idx = 0" | "0 < hits ! ?idx" by linarith
  then show ?case
  proof cases
    case 1
    then show ?thesis using Cons.IH [of hits likely pages] Cons.prems by (fastforce simp: Let_def)
  next
    case 2
    let ?h = "hits[?idx := - 1]"
    have cnt: "num_dropped ?h = likely + 1"
      using length_filter_list_update [of ?idx hits "\<lambda>h. h < 0" "- 1"] 2 idx Cons.prems(1,2) by simp
    have k: "get_page c ?idx = Inr (pc_maps c ! ?idx)" using get_page_wf [OF assms(1) idx] .
    show ?thesis
    proof (cases "likely + 1 < MAX_NUM_WRITEBACK")
      case True
      define P where "P = pc_buf c ! (pc_maps c ! ?idx)"
      define sel where "sel \<longleftrightarrow> test_flags s P \<and> \<not> test_flags f P"
      define pg where "pg = (if sel then std_map_insert (get_offset P) (pc_maps c ! ?idx) pages else pages)"
      have step: "predict_pass head num s f c (i # is) (hits, pages, likely)
          = (if sel \<and> int (length pg) = num then Inr (True, ?h, pg, likely) else predict_pass head num s f c is (?h, pg, likely + 1))"
        using 2 k True
        by (cases "test_flags s P"; cases "test_flags f P") (simp_all add: Let_def sel_def pg_def P_def [symmetric])
      have "length ?h = ?n" "likely + 1 = num_dropped ?h" using Cons.prems cnt by simp_all
      from Cons.IH [OF this True, of pg] Cons.prems(4) obtain fin hits' pages' likely' where
        ih: "predict_pass head num s f c is (?h, pg, likely + 1) = Inr (fin, hits', pages', likely')"
        "\<not> fin \<Longrightarrow> length hits' = ?n \<and> likely' = num_dropped hits' \<and> likely' < MAX_NUM_WRITEBACK
          \<and> (\<forall>j < ?n. hits' ! j = (if j \<in> (\<lambda>i. unat (head + of_nat i) mod ?n) ` set is \<and> 0 \<le> ?h ! j then ?h ! j - 1 else ?h ! j))"
        by auto
      have "hits' ! j = (if j \<in> insert ?idx ((\<lambda>i. unat (head + of_nat i) mod ?n) ` set is) \<and> 0 \<le> hits ! j then hits ! j - 1 else hits ! j)"
        if "\<not> fin" "j < ?n" for j
        using ih(2) that 2 notin idx Cons.prems(1) by (cases "j = ?idx") auto
      then show ?thesis
        using ih unfolding step by (cases "sel \<and> int (length pg) = num") (auto intro: exI [of _ True])
    next
      case False
      then show ?thesis using 2 k by (auto simp: Let_def intro: exI [of _ True])
    qed
  next
    case 3
    let ?h = "hits[?idx := hits ! ?idx - 1]"
    have cnt: "num_dropped ?h = likely"
      using length_filter_list_update [of ?idx hits "\<lambda>h. h < 0" "hits ! ?idx - 1"] 3 idx Cons.prems(1,2) by simp
    have "length ?h = ?n" "likely = num_dropped ?h" using Cons.prems cnt by simp_all
    from Cons.IH [OF this Cons.prems(3), of pages] Cons.prems(4) obtain fin hits' pages' likely' where
      ih: "predict_pass head num s f c is (?h, pages, likely) = Inr (fin, hits', pages', likely')"
      "\<not> fin \<Longrightarrow> length hits' = ?n \<and> likely' = num_dropped hits' \<and> likely' < MAX_NUM_WRITEBACK
        \<and> (\<forall>j < ?n. hits' ! j = (if j \<in> (\<lambda>i. unat (head + of_nat i) mod ?n) ` set is \<and> 0 \<le> ?h ! j then ?h ! j - 1 else ?h ! j))"
      by auto
    have "hits' ! j = (if j \<in> insert ?idx ((\<lambda>i. unat (head + of_nat i) mod ?n) ` set is) \<and> 0 \<le> hits ! j then hits ! j - 1 else hits ! j)"
      if "\<not> fin" "j < ?n" for j
      using ih(2) that 3 notin idx Cons.prems(1) by (cases "j = ?idx") auto
    moreover have "predict_pass head num s f c (i # is) (hits, pages, likely) = predict_pass head num s f c is (?h, pages, likely)"
      using 3 Cons.prems(3) by (simp add: Let_def)
    ultimately show ?thesis using ih by auto
  qed
qed (use assms in auto)

definition gclock_fits :: "32 word \<Rightarrow> nat \<Rightarrow> bool" where
  "gclock_fits head n \<longleftrightarrow> MAX_NUM_WRITEBACK \<le> n \<and> unat head + n \<le> 2 ^ 32"

lemma clock_positions:
  assumes "gclock_fits head n"
  shows "distinct (map (\<lambda>i. unat (head + of_nat i) mod n) [0..<n])"
    "(\<lambda>i. unat (head + of_nat i) mod n) ` {0..<n} = {..<n}"
proof -
  have n: "0 < n" "unat head + n \<le> 2 ^ 32" using assms by (simp_all add: gclock_fits_def)
  have pos: "unat (head + of_nat i) mod n = (unat head + i) mod n" if "i < n" for i
  proof -
    have "unat (of_nat i :: 32 word) = i" using that n by (simp add: unat_of_nat take_bit_nat_eq_self)
    then have "unat (head + of_nat i) = unat head + i"
      using that n(2) unat_add_lem [of head "of_nat i"] by simp
    then show ?thesis by simp
  qed
  have "inj_on (\<lambda>i. (unat head + i) mod n) {0..<n}"
  proof (rule inj_onI)
    fix i j
    assume a: "i \<in> {0..<n}" "j \<in> {0..<n}" "(unat head + i) mod n = (unat head + j) mod n"
    then have "i mod n = j mod n" unfolding nat_mod_eq_iff by (simp add: add.assoc)
    then show "i = j" using a by simp
  qed
  then have inj: "inj_on (\<lambda>i. unat (head + of_nat i) mod n) {0..<n}" 
    using pos by (subst inj_on_cong [of "{0..<n}" _ "\<lambda>i. (unat head + i) mod n"]) auto
  then show "distinct (map (\<lambda>i. unat (head + of_nat i) mod n) [0..<n])" by (simp add: distinct_map)
  have "card ((\<lambda>i. unat (head + of_nat i) mod n) ` {0..<n}) = n" using card_image [OF inj] by simp
  then show "(\<lambda>i. unat (head + of_nat i) mod n) ` {0..<n} = {..<n}"
    using n(1) by (intro card_subset_eq) auto
qed

lemma predict_loop_returns:
  assumes "cell_wf c" "gclock_fits head (pc_num_pages c)" "length hits = pc_num_pages c" "likely = num_dropped hits"
    "likely < MAX_NUM_WRITEBACK" "\<forall>j < pc_num_pages c. hits ! j < int r" "r < passes"
  shows "\<exists>pages'. predict_loop passes head num s f c (hits, pages, likely) = Inr pages'"
  using assms(3-)
proof (induction r arbitrary: hits pages likely passes)
  let ?n = "pc_num_pages c"
  case 0
  then have "filter (\<lambda>h. h < 0) hits = hits" by (auto simp: filter_id_conv in_set_conv_nth)
  then have "likely = ?n" using 0 by simp
  then show ?case using 0(3) assms(2) by (simp add: gclock_fits_def)
next
  let ?n = "pc_num_pages c"
  case (Suc r)
  obtain p where p: "passes = Suc p" "r < p" using Suc.prems(5) by (cases passes) auto
  have n: "0 < ?n" using assms(2) by (simp add: gclock_fits_def)
  note pos = clock_positions [OF assms(2)]
  obtain fin hits' pages' likely' where
    ps: "predict_pass head num s f c [0..<?n] (hits, pages, likely) = Inr (fin, hits', pages', likely')"
    "\<not> fin \<Longrightarrow> length hits' = ?n \<and> likely' = num_dropped hits' \<and> likely' < MAX_NUM_WRITEBACK
      \<and> (\<forall>j < ?n. hits' ! j = (if 0 \<le> hits ! j then hits ! j - 1 else hits ! j))"
    using predict_pass_returns [OF assms(1) n Suc.prems(1-3) pos(1), of num s f pages] pos(2) by auto
  show ?case
  proof (cases fin)
    case True
    then show ?thesis using ps(1) p(1) by simp
  next
    case False
    then have "\<forall>j < ?n. hits' ! j < int r" using ps(2) Suc.prems(4) by auto
    then show ?thesis using Suc.IH [of hits' likely' p pages'] ps False p by simp
  qed
qed

section \<open>The contract of a selection policy\<close>

definition picked :: "page_cell \<Rightarrow> (int \<times> nat) list \<Rightarrow> page_cell \<Rightarrow> bool" where
  "picked c pages c' \<longleftrightarrow> distinct (map snd pages)
     \<and> (\<forall>k \<in> snd ` set pages. k \<in> set (used_slots (pc_buf c)) \<and> selected dirty_flags skip_flags (pc_buf c ! k))
     \<and> pc_num_pages c' = pc_num_pages c \<and> pc_maps c' = pc_maps c \<and> pc_idx c' = pc_idx c
     \<and> length (pc_buf c') = length (pc_buf c)
     \<and> (\<forall>j < length (pc_buf c). sans_score (pc_buf c' ! j)
          = (if j \<in> snd ` set pages then inc_ref (sans_score (pc_buf c ! j)) else sans_score (pc_buf c ! j)))"

locale page_selector =
  fixes select :: "'p select" and fits :: "'p \<Rightarrow> nat \<Rightarrow> bool"
  assumes picks: "cell_wf (hc_buf hc) \<Longrightarrow> fits (hc_policy hc) (pc_num_pages (hc_buf hc)) \<Longrightarrow> 0 < n \<Longrightarrow>
    \<exists>pages c. select n hc = Inr (pages, hc\<lparr>hc_buf := c\<rparr>) \<and> picked (hc_buf hc) pages c \<and> length pages \<le> n"

lemma upd_page_fields [simp]:
  "pc_num_pages (upd_page k f c) = pc_num_pages c" "pc_maps (upd_page k f c) = pc_maps c"
  "pc_idx (upd_page k f c) = pc_idx c" "length (pc_buf (upd_page k f c)) = length (pc_buf c)"
  by (simp_all add: upd_page_def)

lemma fold_inc_ref:
  assumes "distinct ks" "\<forall>k \<in> set ks. k < length (pc_buf c)"
  shows "let c' = fold (\<lambda>k. upd_page k inc_ref) ks c in
    pc_num_pages c' = pc_num_pages c \<and> pc_maps c' = pc_maps c \<and> pc_idx c' = pc_idx c
    \<and> length (pc_buf c') = length (pc_buf c)
    \<and> (\<forall>j < length (pc_buf c). pc_buf c' ! j = (if j \<in> set ks then inc_ref (pc_buf c ! j) else pc_buf c ! j))"
  using assms
proof (induction ks arbitrary: c)
  case (Cons k ks)
  let ?c = "upd_page k inc_ref c"
  have "let c' = fold (\<lambda>k. upd_page k inc_ref) ks ?c in
    pc_num_pages c' = pc_num_pages ?c \<and> pc_maps c' = pc_maps ?c \<and> pc_idx c' = pc_idx ?c
    \<and> length (pc_buf c') = length (pc_buf ?c)
    \<and> (\<forall>j < length (pc_buf ?c). pc_buf c' ! j = (if j \<in> set ks then inc_ref (pc_buf ?c ! j) else pc_buf ?c ! j))"
    using Cons.prems by (intro Cons.IH) auto
  then show ?case using Cons.prems by (auto simp: Let_def upd_page_nth)
qed (simp add: Let_def)

lemma sans_score_inc: "sans_score (inc_ref p) = inc_ref (sans_score p)"
  by (simp add: sans_score_def inc_ref_def)

lemma gclock_forecast:
  assumes "cell_wf c" "gclock_fits head (pc_num_pages c)" "0 < n"
  shows "\<exists>pages c'. gclock_predict_evicted_pages head c (int n) s f [] = Inr (pages, c') \<and> same_but_score c c'
    \<and> forecast_ok s f c' pages \<and> length pages \<le> n"
proof -
  let ?hits = "map (\<lambda>k. int (get_hits (pc_buf c ! k))) (used_slots (pc_buf c))"
  have n: "pc_num_pages c \<noteq> 0" using assms(2) by (simp add: gclock_fits_def)
  obtain c' where c': "assign_flush_scores head c = Inr c'" "same_but_score c c'"
    using n slots_from_used [OF assms(1)] same_but_score_trans [OF store_scores_same store_scores_same]
    by (auto simp: assign_flush_scores_def Let_def)
  note wf = same_but_score_wf [OF c'(2) assms(1)]
  have np: "pc_num_pages c' = pc_num_pages c" using c'(2) by (simp add: same_but_score_def)
  have len: "length ?hits = pc_num_pages c'" using cell_wfD(4) [OF assms(1)] np by simp
  have "num_dropped ?hits = 0" by (auto simp: filter_empty_conv)
  moreover have "\<forall>j < pc_num_pages c'. ?hits ! j < int 256"
    using len get_hits_le by (auto simp: le_less_trans [OF get_hits_le])
  ultimately obtain pages where l: "predict_loop 257 head (int n) s f c' (?hits, [], 0) = Inr pages"
    using predict_loop_returns [OF wf, of head ?hits 0 256 257 "int n" s f "[]"] assms(2) len np by auto
  then have "forecast_ok s f c' pages \<and> int (length pages) \<le> int n"
    using assms(3) by (intro predict_loop_ok [OF wf l]) (simp_all add: forecast_ok_def)
  then show ?thesis
    using c' l slots_from_used [OF assms(1)] by (auto simp: gclock_predict_evicted_pages_def)
qed

interpretation gclock_select: page_selector "eviction_select gclock_predict_evicted_pages" gclock_fits
proof
  fix hc :: "32 word hash_cell" and n :: nat
  let ?c = "hc_buf hc"
  assume a: "cell_wf ?c" "gclock_fits (hc_policy hc) (pc_num_pages ?c)" "0 < n"
  obtain pages c where f: "gclock_predict_evicted_pages (hc_policy hc) ?c (int n) dirty_flags skip_flags [] = Inr (pages, c)"
      "same_but_score ?c c" "forecast_ok dirty_flags skip_flags c pages" "length pages \<le> n"
    using gclock_forecast [OF a] by blast
  let ?ks = "map snd pages" and ?d = "fold (\<lambda>k. upd_page k inc_ref) (map snd pages) c"
  have d: "distinct ?ks" by (rule forecast_ok_distinct [OF f(3)])
  have len: "length (pc_buf c) = length (pc_buf ?c)" by (rule same_but_score_length [OF f(2)])
  have k: "k \<in> set (used_slots (pc_buf ?c)) \<and> selected dirty_flags skip_flags (pc_buf ?c ! k)" if "k \<in> snd ` set pages" for k
  proof -
    have u: "k \<in> set (used_slots (pc_buf c))" "selected dirty_flags skip_flags (pc_buf c ! k)"
      using f(3) that by (auto simp: forecast_ok_def)
    then have "k < length (pc_buf ?c)" using len by (simp add: set_used_slots)
    then show ?thesis
      using u same_but_score_used [OF f(2)] selected_score [OF same_but_score_nth [OF f(2)]] by auto
  qed
  then have "\<forall>k \<in> set ?ks. k < length (pc_buf c)" using len by (auto simp: set_used_slots)
  from fold_inc_ref [OF d this] f(2) len d k have "picked ?c pages ?d"
    by (auto simp: picked_def Let_def same_but_score_def sans_score_inc same_but_score_nth [OF f(2)])
  moreover have "fold (\<lambda>(off, k). upd_page k inc_ref) pages c = ?d" by (simp add: fold_map comp_def case_prod_unfold)
  ultimately show "\<exists>pages c. eviction_select gclock_predict_evicted_pages n hc = Inr (pages, hc\<lparr>hc_buf := c\<rparr>)
      \<and> picked ?c pages c \<and> length pages \<le> n"
    using f(1,4) by (auto simp: eviction_select_def hc_predict_evicted_pages_def)
qed

section \<open>Flushing one page set\<close>

lemma selected_iff:
  "selected dirty_flags skip_flags p \<longleftrightarrow> is_dirty p \<and> \<not> is_io_pending p \<and> \<not> is_prepare_writeback p"
proof -
  have "pg_flags p AND 18 = (pg_flags p AND 2) OR (pg_flags p AND 16)"
    by (simp flip: bit.conj_disj_distrib)
  then show ?thesis
    by (auto simp: selected_def test_flags_def dirty_flags_def skip_flags_def page_set_flag_def is_dirty_def is_io_pending_def
        is_prepare_writeback_def get_flags_bit_def or_eq_0_iff)
qed

definition flush_request :: "nat \<Rightarrow> page_cell \<Rightarrow> nat \<Rightarrow> flush_req" where
  "flush_request i c k = \<lparr>fr_loc = page_loc (pc_buf c ! k), fr_pages = [(i, k)], fr_high_prio = False, fr_discarded = False\<rparr>"

text \<open>
  A page set in which every dirty page holds valid data and nothing is left of an earlier location. Such
  pages can be written back.
\<close>

definition writable :: "page_cell \<Rightarrow> bool" where
  "writable c \<longleftrightarrow> cell_wf c \<and> (\<forall>k \<in> set (used_slots (pc_buf c)). - 32768 \<le> pg_refcnt (pc_buf c ! k)
     \<and> pg_refcnt (pc_buf c ! k) < 32767 \<and> (is_dirty (pc_buf c ! k) \<longrightarrow> data_ready (pc_buf c ! k) \<and> \<not> is_old_dirty (pc_buf c ! k)))"

definition flushed :: "nat \<Rightarrow> page_cell \<Rightarrow> flush_req list \<Rightarrow> page_cell \<Rightarrow> bool" where
  "flushed i c rs c' \<longleftrightarrow> (\<exists>ks. distinct ks \<and> rs = map (flush_request i c) ks
     \<and> (\<forall>k \<in> set ks. k \<in> set (used_slots (pc_buf c)) \<and> selected dirty_flags skip_flags (pc_buf c ! k))
     \<and> pc_num_pages c' = pc_num_pages c \<and> pc_maps c' = pc_maps c \<and> pc_idx c' = pc_idx c
     \<and> length (pc_buf c') = length (pc_buf c)
     \<and> (\<forall>j < length (pc_buf c). sans_score (pc_buf c' ! j)
          = sans_score (if j \<in> set ks then set_prepare_writeback True (pc_buf c ! j) else pc_buf c ! j)))"

lemma flush_pages_ok:
  assumes "distinct (map snd ps)" "num + length ps \<le> sz"
    "\<forall>k \<in> snd ` set ps. k < length (pc_buf c) \<and> selected dirty_flags skip_flags (pc_buf c ! k)
      \<and> data_ready (pc_buf c ! k) \<and> \<not> is_old_dirty (pc_buf c ! k)"
  shows "\<exists>c'. flush_pages sz i num ps c = Inr (map (flush_request i c) (map snd ps), c')
    \<and> pc_num_pages c' = pc_num_pages c \<and> pc_maps c' = pc_maps c \<and> pc_idx c' = pc_idx c
    \<and> length (pc_buf c') = length (pc_buf c)
    \<and> (\<forall>j < length (pc_buf c). pc_buf c' ! j
        = (if j \<in> snd ` set ps then dec_ref (set_prepare_writeback True (pc_buf c ! j)) else pc_buf c ! j))"
  using assms
proof (induction ps arbitrary: num c)
  case (Cons op ps)
  obtain off k where op: "op = (off, k)" by fastforce
  let ?c = "upd_page k dec_ref (upd_page k (set_prepare_writeback True) c)"
  have k: "k < length (pc_buf c)" "selected dirty_flags skip_flags (pc_buf c ! k)" "data_ready (pc_buf c ! k)"
      "\<not> is_old_dirty (pc_buf c ! k)"
    using Cons.prems(3) op by auto
  have other: "pc_buf ?c ! j = (if j = k then dec_ref (set_prepare_writeback True (pc_buf c ! k)) else pc_buf c ! j)" for j
    using k(1) by (simp add: upd_page_nth)
  have "\<forall>j \<in> snd ` set ps. j < length (pc_buf ?c) \<and> selected dirty_flags skip_flags (pc_buf ?c ! j)
      \<and> data_ready (pc_buf ?c ! j) \<and> \<not> is_old_dirty (pc_buf ?c ! j)"
    using Cons.prems op by (auto simp: other)
  from Cons.IH [OF _ _ this, of "Suc num"] Cons.prems(1,2) op obtain c' where
    c': "flush_pages sz i (Suc num) ps ?c = Inr (map (flush_request i ?c) (map snd ps), c')"
      "pc_num_pages c' = pc_num_pages c" "pc_maps c' = pc_maps c" "pc_idx c' = pc_idx c" "length (pc_buf c') = length (pc_buf c)"
      "\<forall>j < length (pc_buf c). pc_buf c' ! j
        = (if j \<in> snd ` set ps then dec_ref (set_prepare_writeback True (pc_buf ?c ! j)) else pc_buf ?c ! j)"
    by auto
  have "map (flush_request i ?c) (map snd ps) = map (flush_request i c) (map snd ps)"
    using Cons.prems(1) op by (auto simp: flush_request_def other)
  then show ?case using c' k Cons.prems(1,2) op selected_iff [of "pc_buf c ! k"]
    by (auto simp: Let_def other flush_request_def page_loc_def)
qed simp

lemma inc_dec_ref:
  assumes "- 32768 \<le> pg_refcnt p" "pg_refcnt p < 32767"
  shows "dec_ref (inc_ref p) = p"
  using assms by (simp add: dec_ref_def inc_ref_def int16_id)

lemma flushed_page:
  assumes "sans_score q = sans_score (if b then set_prepare_writeback True p else p)"
  shows "has_data q = has_data p" "pg_refcnt q = pg_refcnt p" "is_dirty q = is_dirty p" "data_ready q = data_ready p"
    "is_old_dirty q = is_old_dirty p" "is_io_pending q = is_io_pending p" "page_loc q = page_loc p"
    "is_prepare_writeback q \<longleftrightarrow> b \<or> is_prepare_writeback p"
proof -
  let ?r = "if b then set_prepare_writeback True p else p"
  note e = sans_scoreD [OF assms]
  have "is_dirty q = is_dirty ?r" "data_ready q = data_ready ?r" "is_old_dirty q = is_old_dirty ?r"
      "is_io_pending q = is_io_pending ?r" "is_prepare_writeback q = is_prepare_writeback ?r"
    using e(1) by (simp_all add: flag_get_defs get_flags_bit_def)
  moreover have "data_ready (set_prepare_writeback True p) = data_ready p"
    by (simp add: flag_set_defs flag_get_defs page_simps bit_page_set_flag)
  ultimately show "is_dirty q = is_dirty p" "data_ready q = data_ready p" "is_old_dirty q = is_old_dirty p"
      "is_io_pending q = is_io_pending p" "is_prepare_writeback q \<longleftrightarrow> b \<or> is_prepare_writeback p"
    by (simp_all split: if_splits)
  have "pg_data q = pg_data p" "pg_refcnt q = pg_refcnt p" "pg_off q = pg_off p" "pg_file_id q = pg_file_id p"
    using e(2-5) by (simp_all add: flag_set_defs page_simps split: if_splits)
  then show "has_data q = has_data p" "pg_refcnt q = pg_refcnt p" "page_loc q = page_loc p"
    by (simp_all add: has_data_def page_loc_def get_offset_def)
qed

lemma flushedD:
  assumes "flushed i c rs c'"
  shows "used_slots (pc_buf c') = used_slots (pc_buf c)"
    and "pc_num_pages c' = pc_num_pages c" "cell_wf c \<Longrightarrow> cell_wf c'"
    and "\<And>j. j < length (pc_buf c) \<Longrightarrow> is_dirty (pc_buf c' ! j) = is_dirty (pc_buf c ! j)
      \<and> pg_refcnt (pc_buf c' ! j) = pg_refcnt (pc_buf c ! j) \<and> data_ready (pc_buf c' ! j) = data_ready (pc_buf c ! j)
      \<and> is_old_dirty (pc_buf c' ! j) = is_old_dirty (pc_buf c ! j) \<and> is_io_pending (pc_buf c' ! j) = is_io_pending (pc_buf c ! j)
      \<and> page_loc (pc_buf c' ! j) = page_loc (pc_buf c ! j)"
proof -
  obtain ks where f: "pc_num_pages c' = pc_num_pages c" "pc_maps c' = pc_maps c" "pc_idx c' = pc_idx c"
      "length (pc_buf c') = length (pc_buf c)"
      "\<And>j. j < length (pc_buf c) \<Longrightarrow> sans_score (pc_buf c' ! j)
          = sans_score (if j \<in> set ks then set_prepare_writeback True (pc_buf c ! j) else pc_buf c ! j)"
    using assms by (auto simp: flushed_def)
  show u: "used_slots (pc_buf c') = used_slots (pc_buf c)"
    using f(4) flushed_page(1) [OF f(5)] by (intro used_slots_cong) auto
  show "pc_num_pages c' = pc_num_pages c" by fact
  show "cell_wf c'" if "cell_wf c" using that u f(1-4) unfolding cell_wf_def cell_shape_def by metis
  show "is_dirty (pc_buf c' ! j) = is_dirty (pc_buf c ! j)
      \<and> pg_refcnt (pc_buf c' ! j) = pg_refcnt (pc_buf c ! j) \<and> data_ready (pc_buf c' ! j) = data_ready (pc_buf c ! j)
      \<and> is_old_dirty (pc_buf c' ! j) = is_old_dirty (pc_buf c ! j) \<and> is_io_pending (pc_buf c' ! j) = is_io_pending (pc_buf c ! j)
      \<and> page_loc (pc_buf c' ! j) = page_loc (pc_buf c ! j)" if "j < length (pc_buf c)" for j
    using flushed_page [OF f(5) [OF that]] by simp
qed

lemma flushed_writable: "flushed i c rs c' \<Longrightarrow> writable c \<Longrightarrow> writable c'"
  using flushedD [of i c rs c'] by (simp add: writable_def set_used_slots)

definition todo_slots :: "page_cell \<Rightarrow> nat set" where
  "todo_slots c = {k \<in> set (used_slots (pc_buf c)). selected dirty_flags skip_flags (pc_buf c ! k)}"

definition marked_slots :: "page_cell \<Rightarrow> nat set" where
  "marked_slots c = {k \<in> set (used_slots (pc_buf c)). is_prepare_writeback (pc_buf c ! k)}"

lemma flushed_sets:
  assumes "flushed i c rs c'"
  shows "\<exists>ks. distinct ks \<and> rs = map (flush_request i c) ks \<and> set ks \<subseteq> todo_slots c
    \<and> todo_slots c' = todo_slots c - set ks \<and> marked_slots c' = marked_slots c \<union> set ks"
proof -
  obtain ks where ks: "distinct ks" "rs = map (flush_request i c) ks"
      "\<forall>k \<in> set ks. k \<in> set (used_slots (pc_buf c)) \<and> selected dirty_flags skip_flags (pc_buf c ! k)"
      "\<And>j. j < length (pc_buf c) \<Longrightarrow> sans_score (pc_buf c' ! j)
          = sans_score (if j \<in> set ks then set_prepare_writeback True (pc_buf c ! j) else pc_buf c ! j)"
    using assms by (auto simp: flushed_def)
  note p = flushed_page(3,6,8) [OF ks(4)]
  have "todo_slots c' = todo_slots c - set ks" "marked_slots c' = marked_slots c \<union> set ks"
    using p ks(3) flushedD(1) [OF assms] by (auto simp: todo_slots_def marked_slots_def selected_iff set_used_slots)
  moreover have "set ks \<subseteq> todo_slots c" using ks(3) by (auto simp: todo_slots_def)
  ultimately show ?thesis using ks(1,2) by blast
qed

lemma sans_score_dec: "sans_score (dec_ref p) = dec_ref (sans_score p)"
  by (simp add: sans_score_def dec_ref_def)

lemma sans_score_prepare: "sans_score (set_prepare_writeback v p) = set_prepare_writeback v (sans_score p)"
  by (simp add: sans_score_def flag_set_defs page_simps)

lemma dec_ref_prepare: "dec_ref (set_prepare_writeback v p) = set_prepare_writeback v (dec_ref p)"
  by (simp add: dec_ref_def flag_set_defs page_simps)

lemma inc_ref_loc: "sans_score q = inc_ref (sans_score p) \<Longrightarrow> page_loc q = page_loc p"
  by (cases p; cases q) (simp add: sans_score_def inc_ref_def page_loc_def get_offset_def)

lemma flags_cong:
  assumes "pg_flags q = pg_flags p"
  shows "selected s f q = selected s f p" "data_ready q = data_ready p" "is_old_dirty q = is_old_dirty p"
  using assms by (simp_all add: selected_def test_flags_def flag_get_defs get_flags_bit_def)

context page_selector
begin

lemma flush_cell_ok:
  assumes "writable (hc_buf hc)" "fits (hc_policy hc) (pc_num_pages (hc_buf hc))"
  shows "\<exists>rs c'. flush_cell select NUM_WRITEBACK_DIRTY_PAGES i hc = Inr (rs, hc\<lparr>hc_buf := c'\<rparr>)
    \<and> flushed i (hc_buf hc) rs c' \<and> length rs \<le> NUM_WRITEBACK_DIRTY_PAGES"
proof -
  let ?c = "hc_buf hc"
  have wf: "cell_wf ?c" using assms(1) by (simp add: writable_def)
  obtain pages c1 where s: "select NUM_WRITEBACK_DIRTY_PAGES hc = Inr (pages, hc\<lparr>hc_buf := c1\<rparr>)" "picked ?c pages c1"
      "length pages \<le> NUM_WRITEBACK_DIRTY_PAGES"
    using picks [OF wf assms(2), of NUM_WRITEBACK_DIRTY_PAGES] by (auto simp: NUM_WRITEBACK_DIRTY_PAGES_def)
  have k1: "k \<in> set (used_slots (pc_buf ?c)) \<and> selected dirty_flags skip_flags (pc_buf ?c ! k)"
    if "k \<in> snd ` set pages" for k
    using s(2) that unfolding picked_def by blast
  have k2: "sans_score (pc_buf c1 ! k) = inc_ref (sans_score (pc_buf ?c ! k))" if "k \<in> snd ` set pages" for k
    using s(2) that k1 [OF that] by (simp add: picked_def set_used_slots)
  note k = k1 k2
  have fl: "pg_flags (pc_buf c1 ! k) = pg_flags (pc_buf ?c ! k)" if "k \<in> snd ` set pages" for k
    using arg_cong [OF k(2) [OF that], of pg_flags] by (simp add: sans_score_def inc_ref_def)
  have ready: "\<forall>k \<in> snd ` set pages. k < length (pc_buf c1) \<and> selected dirty_flags skip_flags (pc_buf c1 ! k)
      \<and> data_ready (pc_buf c1 ! k) \<and> \<not> is_old_dirty (pc_buf c1 ! k)"
  proof
    fix k
    assume "k \<in> snd ` set pages"
    note k = k1 [OF this] flags_cong [OF fl [OF this]]
    moreover have "data_ready (pc_buf ?c ! k) \<and> \<not> is_old_dirty (pc_buf ?c ! k)"
      using k(1) assms(1) by (simp add: writable_def selected_iff)
    ultimately show "k < length (pc_buf c1) \<and> selected dirty_flags skip_flags (pc_buf c1 ! k)
        \<and> data_ready (pc_buf c1 ! k) \<and> \<not> is_old_dirty (pc_buf c1 ! k)"
      using s(2) by (simp add: picked_def set_used_slots)
  qed
  have d: "distinct (map snd pages)" using s(2) by (simp add: picked_def)
  obtain c2 where c2: "flush_pages NUM_WRITEBACK_DIRTY_PAGES i 0 pages c1 = Inr (map (flush_request i c1) (map snd pages), c2)"
      "pc_num_pages c2 = pc_num_pages c1" "pc_maps c2 = pc_maps c1" "pc_idx c2 = pc_idx c1" "length (pc_buf c2) = length (pc_buf c1)"
      "\<And>j. j < length (pc_buf c1) \<Longrightarrow> pc_buf c2 ! j
        = (if j \<in> snd ` set pages then dec_ref (set_prepare_writeback True (pc_buf c1 ! j)) else pc_buf c1 ! j)"
    using flush_pages_ok [OF d _ ready, of 0 NUM_WRITEBACK_DIRTY_PAGES i] s(3) by auto
  have reqs: "map (flush_request i c1) (map snd pages) = map (flush_request i ?c) (map snd pages)"
    using k(2) inc_ref_loc by (fastforce simp: flush_request_def)
  have "sans_score (pc_buf c2 ! j)
      = sans_score (if j \<in> snd ` set pages then set_prepare_writeback True (pc_buf ?c ! j) else pc_buf ?c ! j)"
    if "j < length (pc_buf ?c)" for j
  proof (cases "j \<in> snd ` set pages")
    case True
    have "- 32768 \<le> pg_refcnt (sans_score (pc_buf ?c ! j))" "pg_refcnt (sans_score (pc_buf ?c ! j)) < 32767"
      using k(1) [OF True] assms(1) by (auto simp: writable_def sans_score_def)
    note id = inc_dec_ref [OF this]
    have "sans_score (pc_buf c2 ! j) = set_prepare_writeback True (dec_ref (sans_score (pc_buf c1 ! j)))"
      using c2(6) [of j] True ready by (simp add: sans_score_dec sans_score_prepare dec_ref_prepare)
    also have "\<dots> = sans_score (set_prepare_writeback True (pc_buf ?c ! j))"
      using k(2) [OF True] id by (simp add: sans_score_prepare)
    finally show ?thesis using True by simp
  next
    case False
    then show ?thesis using c2(6) [of j] s(2) that by (simp add: picked_def)
  qed
  then have "flushed i ?c (map (flush_request i ?c) (map snd pages)) c2"
    using d k1 c2(2-5) s(2) unfolding flushed_def picked_def set_map [symmetric] by (metis (no_types, lifting))
  moreover have "flush_cell select NUM_WRITEBACK_DIRTY_PAGES i hc = Inr (map (flush_request i ?c) (map snd pages), hc\<lparr>hc_buf := c2\<rparr>)"
    unfolding flush_cell_def s(1) using c2(1) unfolding reqs by simp
  ultimately show ?thesis using s(3) by auto
qed

end

section \<open>The state of the flusher\<close>

definition fcell :: "('p, 'g) flusher \<Rightarrow> nat \<Rightarrow> 'p hash_cell" where
  "fcell fl i = (case cell_at (fl_cache fl) i of Inr hc \<Rightarrow> hc)"

abbreviation ncells :: "('p, 'g) flusher \<Rightarrow> nat" where
  "ncells fl \<equiv> get_num_cells (fl_cache fl)"

text \<open>The pages still to be flushed and the pages marked for write-back.\<close>

definition todo :: "('p, 'g) flusher \<Rightarrow> (nat \<times> nat) set" where
  "todo fl = (SIGMA i : {..<ncells fl}. todo_slots (hc_buf (fcell fl i)))"

definition marked :: "('p, 'g) flusher \<Rightarrow> (nat \<times> nat) set" where
  "marked fl = (SIGMA i : {..<ncells fl}. marked_slots (hc_buf (fcell fl i)))"

text \<open>
  \<open>queue_ok fl held\<close>: the page sets marked as queued are exactly those in the queue and those the flusher holds in its
  hands, each once; the queue has room for all page sets.
\<close>

definition queue_ok :: "('p, 'g) flusher \<Rightarrow> nat list \<Rightarrow> bool" where
  "queue_ok fl held \<longleftrightarrow> ts_wf (fl_dirty_cells fl) \<and> distinct (ts_list (fl_dirty_cells fl) @ held)
     \<and> ncells fl \<le> ts_cap (fl_dirty_cells fl)
     \<and> (\<forall>i. i \<in> set (ts_list (fl_dirty_cells fl) @ held) \<longleftrightarrow> i < ncells fl \<and> is_in_queue (fcell fl i))"

text \<open>Progress: the pages of the new requests are different, were to be flushed and are marked now.\<close>

definition progress :: "('p, 'g) flusher \<Rightarrow> flush_req list \<Rightarrow> ('p, 'g) flusher \<Rightarrow> bool" where
  "progress fl new fl' \<longleftrightarrow> fl_issued fl' = fl_issued fl @ new \<and> fl_max_pending fl' = fl_max_pending fl \<and> ncells fl' = ncells fl
     \<and> (\<forall>r \<in> set new. length (fr_pages r) = 1) \<and> distinct (concat (map fr_pages new)) \<and> set (concat (map fr_pages new)) \<subseteq> todo fl
     \<and> todo fl' = todo fl - set (concat (map fr_pages new)) \<and> marked fl' = marked fl \<union> set (concat (map fr_pages new))"

lemma progress_refl: "progress fl [] fl"
  by (simp add: progress_def)

lemma progress_trans: "progress a xs b \<Longrightarrow> progress b ys c \<Longrightarrow> progress a (xs @ ys) c"
  unfolding progress_def by auto

lemma finite_todo: "finite (todo fl)"
  by (simp add: todo_def todo_slots_def)

lemma length_pages: "(\<forall>r \<in> set new. length (fr_pages r) = 1) \<Longrightarrow> length (concat (map fr_pages new)) = length new"
  by (induction new) auto

lemma progress_card:
  assumes "progress fl new fl'"
  shows "card (todo fl') + length new = card (todo fl)"
proof -
  let ?ps = "concat (map fr_pages new)"
  have "card (set ?ps) = length new"
    using assms distinct_card [of ?ps] length_pages [of new] by (simp add: progress_def)
  moreover have "card (todo fl - set ?ps) = card (todo fl) - card (set ?ps)"
    using assms by (intro card_Diff_subset) (simp_all add: progress_def)
  moreover have "card (set ?ps) \<le> card (todo fl)"
    using assms finite_todo by (intro card_mono) (simp_all add: progress_def)
  ultimately show ?thesis using assms by (simp add: progress_def)
qed

lemma cell_at_fcell:
  assumes "table_wf (fl_cache fl)" "i < ncells fl"
  shows "cell_at (fl_cache fl) i = Inr (fcell fl i)"
  by (rule cell_at_cells [OF assms]) (simp add: fcell_def)

lemma fcell_put:
  assumes "table_wf (fl_cache fl)" "i < ncells fl" "j < ncells fl"
  shows "fcell (fl\<lparr>fl_cache := put_cell i hc (fl_cache fl)\<rparr>) j = (if j = i then hc else fcell fl j)"
proof -
  have "sized (fl_cache fl)" using assms(1) by (simp add: table_wf_def)
  then have "present (fl_cache fl) i" "present (fl_cache fl) j"
    using assms index_array present_wf by blast+
  then show ?thesis using cell_at_put(1) [of "fl_cache fl" i j hc] by (simp add: fcell_def)
qed

lemma fcell_frame [simp]:
  "fcell (fl\<lparr>fl_dirty_cells := q\<rparr>) = fcell fl" "fcell (fl\<lparr>fl_issued := rs\<rparr>) = fcell fl" "fcell (fl\<lparr>fl_num_pending := n\<rparr>) = fcell fl"
  by (simp_all add: fcell_def fun_eq_iff)

lemma todo_frame [simp]:
  "todo (fl\<lparr>fl_dirty_cells := q\<rparr>) = todo fl" "todo (fl\<lparr>fl_issued := rs\<rparr>) = todo fl" "todo (fl\<lparr>fl_num_pending := n\<rparr>) = todo fl"
  "marked (fl\<lparr>fl_dirty_cells := q\<rparr>) = marked fl" "marked (fl\<lparr>fl_issued := rs\<rparr>) = marked fl" "marked (fl\<lparr>fl_num_pending := n\<rparr>) = marked fl"
  by (simp_all add: todo_def marked_def)

lemma is_in_queue_set: "is_in_queue (snd (set_in_queue v hc)) = v" "fst (set_in_queue v hc) = is_in_queue hc"
    "hc_buf (snd (set_in_queue v hc)) = hc_buf hc" "hc_policy (snd (set_in_queue v hc)) = hc_policy hc"
proof -
  have "(x OR 2) AND 2 \<noteq> 0" "(x AND - 3) AND 2 = 0" for x :: "32 word"
    using and_exp_eq_0_iff_not_bit [of "x OR 2" 1] and_exp_eq_0_iff_not_bit [of "x AND NOT 2" 1] by (simp_all add: bit_simps)
  then show "is_in_queue (snd (set_in_queue v hc)) = v" "fst (set_in_queue v hc) = is_in_queue hc"
    by (simp_all add: set_in_queue_def is_in_queue_def atomic_set_flag_def atomic_clear_flag_def atomic_test_flag_def)
qed (simp_all add: set_in_queue_def atomic_set_flag_def atomic_clear_flag_def)

end
