(* ===== verification/Flusher_Run.thy ===== *)
theory Flusher_Run
  imports Flusher_Laws
begin

text \<open>
  The flusher as a whole: the loops over the queue of dirty page sets end, every page set marked as queued is in
  the queue, and no page is given to the I/O layer twice. Everything is proved in \<open>page_selector\<close> and used for the
  generalized clock. The last section shows where the completion handler breaks the discipline of the queue.
\<close>

section \<open>Steps on one page set\<close>

definition cells_ok :: "('p \<Rightarrow> nat \<Rightarrow> bool) \<Rightarrow> ('p, 'g) flusher \<Rightarrow> bool" where
  "cells_ok fits fl \<longleftrightarrow> table_wf (fl_cache fl) \<and> (\<forall>i < ncells fl. writable (hc_buf (fcell fl i))
     \<and> fits (hc_policy (fcell fl i)) (pc_num_pages (hc_buf (fcell fl i))))"

lemma cells_ok_frame [simp]:
  "cells_ok fits (fl\<lparr>fl_dirty_cells := q\<rparr>) = cells_ok fits fl" "cells_ok fits (fl\<lparr>fl_issued := rs\<rparr>) = cells_ok fits fl"
  "cells_ok fits (fl\<lparr>fl_num_pending := n\<rparr>) = cells_ok fits fl"
  by (simp_all add: cells_ok_def)

lemma queue_ok_cong:
  assumes "ncells fl' = ncells fl" "fl_dirty_cells fl' = fl_dirty_cells fl"
    "\<And>i. i < ncells fl \<Longrightarrow> is_in_queue (fcell fl' i) = is_in_queue (fcell fl i)"
  shows "queue_ok fl' held = queue_ok fl held"
  using assms by (auto simp: queue_ok_def)

lemma replace_cell:
  assumes "cells_ok fits fl" "i < ncells fl" "hc_policy hc = hc_policy (fcell fl i)"
    "pc_num_pages (hc_buf hc) = pc_num_pages (hc_buf (fcell fl i))" "writable (hc_buf hc)"
  shows "cells_ok fits (fl\<lparr>fl_cache := put_cell i hc (fl_cache fl)\<rparr>)"
  using assms put_cell_wf [of "fl_cache fl" i hc] fcell_put [of fl i _ hc] by (simp add: cells_ok_def)

lemma replace_todo:
  assumes "table_wf (fl_cache fl)" "i < ncells fl"
  shows "todo (fl\<lparr>fl_cache := put_cell i hc (fl_cache fl)\<rparr>) = todo fl - {i} \<times> UNIV \<union> {i} \<times> todo_slots (hc_buf hc)"
    "marked (fl\<lparr>fl_cache := put_cell i hc (fl_cache fl)\<rparr>) = marked fl - {i} \<times> UNIV \<union> {i} \<times> marked_slots (hc_buf hc)"
  using assms by (auto simp: todo_def marked_def fcell_put split: if_splits)

lemma todo_at: "i < ncells fl \<Longrightarrow> (i, k) \<in> todo fl \<longleftrightarrow> k \<in> todo_slots (hc_buf (fcell fl i))"
  by (simp add: todo_def)

lemma marked_at: "i < ncells fl \<Longrightarrow> (i, k) \<in> marked fl \<longleftrightarrow> k \<in> marked_slots (hc_buf (fcell fl i))"
  by (simp add: marked_def)

lemma replace_row:
  assumes "\<And>k. (i, k) \<in> A \<longleftrightarrow> k \<in> B"
  shows "A - {i} \<times> UNIV \<union> {i} \<times> (B - K) = A - {i} \<times> K" "A - {i} \<times> UNIV \<union> {i} \<times> (B \<union> K) = A \<union> {i} \<times> K"
    "K \<subseteq> B \<Longrightarrow> {i} \<times> K \<subseteq> A"
  using assms by auto

lemma mark_queued_ok:
  assumes "cells_ok fits fl" "i < ncells fl"
  shows "\<exists>fl'. mark_queued v i fl = Inr (is_in_queue (fcell fl i), fl') \<and> cells_ok fits fl' \<and> progress fl [] fl'
    \<and> fl_dirty_cells fl' = fl_dirty_cells fl \<and> fl_num_pending fl' = fl_num_pending fl
    \<and> (\<forall>j < ncells fl. is_in_queue (fcell fl' j) = (if j = i then v else is_in_queue (fcell fl j)))"
proof -
  let ?hc = "snd (set_in_queue v (fcell fl i))"
  let ?fl = "fl\<lparr>fl_cache := put_cell i ?hc (fl_cache fl)\<rparr>"
  have t: "table_wf (fl_cache fl)" using assms(1) by (simp add: cells_ok_def)
  have "mark_queued v i fl = Inr (is_in_queue (fcell fl i), ?fl)"
    using cell_at_fcell [OF t assms(2)] is_in_queue_set(2) [of v "fcell fl i"]
    by (simp add: mark_queued_def case_prod_unfold Let_def)
  moreover have "writable (hc_buf (fcell fl i))" using assms by (simp add: cells_ok_def)
  then have "cells_ok fits ?fl" by (intro replace_cell [OF assms]) (simp_all add: is_in_queue_set)
  moreover have "progress fl [] ?fl"
    using replace_todo [OF t assms(2), of ?hc] assms(2) is_in_queue_set(3) [of v "fcell fl i"]
    by (auto simp: progress_def todo_def marked_def)
  ultimately show ?thesis using fcell_put [OF t assms(2), of _ ?hc] is_in_queue_set(1) [of v "fcell fl i"] by auto
qed

lemma mark_and_hold:
  assumes "cells_ok fits fl" "queue_ok fl held" "i < ncells fl"
  shows "\<exists>fl'. mark_queued True i fl = Inr (is_in_queue (fcell fl i), fl') \<and> cells_ok fits fl' \<and> progress fl [] fl'
    \<and> fl_dirty_cells fl' = fl_dirty_cells fl \<and> fl_num_pending fl' = fl_num_pending fl
    \<and> queue_ok fl' (held @ (if is_in_queue (fcell fl i) then [] else [i]))"
proof -
  obtain fl' where m: "mark_queued True i fl = Inr (is_in_queue (fcell fl i), fl')" "cells_ok fits fl'" "progress fl [] fl'"
      "fl_dirty_cells fl' = fl_dirty_cells fl" "fl_num_pending fl' = fl_num_pending fl"
      "\<forall>j < ncells fl. is_in_queue (fcell fl' j) = (if j = i then True else is_in_queue (fcell fl j))"
    using mark_queued_ok [OF assms(1,3), of True] by blast
  moreover have "ncells fl' = ncells fl" using m(3) by (simp add: progress_def)
  ultimately show ?thesis using assms(2,3) by (auto simp: queue_ok_def split: if_splits)
qed

context page_selector
begin

lemma flush_one_ok:
  assumes "cells_ok fits fl" "i < ncells fl"
  shows "\<exists>rs fl'. flush_one select i fl = Inr (length rs, fl') \<and> length rs \<le> NUM_WRITEBACK_DIRTY_PAGES \<and> cells_ok fits fl'
    \<and> progress fl rs fl' \<and> fl_dirty_cells fl' = fl_dirty_cells fl \<and> fl_num_pending fl' = fl_num_pending fl
    \<and> (\<forall>j < ncells fl. is_in_queue (fcell fl' j) = is_in_queue (fcell fl j))"
proof -
  let ?hc = "fcell fl i" and ?c = "hc_buf (fcell fl i)"
  have t: "table_wf (fl_cache fl)" "writable ?c" "fits (hc_policy ?hc) (pc_num_pages ?c)"
    using assms by (simp_all add: cells_ok_def)
  obtain rs c' where r: "flush_cell select NUM_WRITEBACK_DIRTY_PAGES i ?hc = Inr (rs, ?hc\<lparr>hc_buf := c'\<rparr>)"
      "flushed i ?c rs c'" "length rs \<le> NUM_WRITEBACK_DIRTY_PAGES"
    using flush_cell_ok [OF t(2,3)] by blast
  let ?fl = "fl\<lparr>fl_cache := put_cell i (?hc\<lparr>hc_buf := c'\<rparr>) (fl_cache fl), fl_issued := fl_issued fl @ rs\<rparr>"
  obtain ks where ks: "distinct ks" "rs = map (flush_request i ?c) ks" "set ks \<subseteq> todo_slots ?c"
      "todo_slots c' = todo_slots ?c - set ks" "marked_slots c' = marked_slots ?c \<union> set ks"
    using flushed_sets [OF r(2)] by blast
  have pages: "concat (map fr_pages rs) = map (Pair i) ks"
    unfolding ks(2) by (induction ks) (simp_all add: flush_request_def)
  note row = replace_row [OF todo_at [OF assms(2)], of "set ks"] replace_row [OF marked_at [OF assms(2)], of "set ks"]
  have "todo ?fl = todo fl - {i} \<times> set ks" "marked ?fl = marked fl \<union> {i} \<times> set ks" "{i} \<times> set ks \<subseteq> todo fl"
    using replace_todo [OF t(1) assms(2), of "?hc\<lparr>hc_buf := c'\<rparr>"] ks(3-5) row by simp_all
  moreover have "set (concat (map fr_pages rs)) = {i} \<times> set ks" "distinct (concat (map fr_pages rs))"
      "\<forall>r \<in> set rs. length (fr_pages r) = 1"
    using ks(1) unfolding pages by (auto simp: distinct_map inj_on_def ks(2) flush_request_def)
  ultimately have "progress fl rs ?fl" by (simp add: progress_def)
  moreover have "cells_ok fits ?fl"
    using replace_cell [OF assms, of "?hc\<lparr>hc_buf := c'\<rparr>"] flushedD(2) [OF r(2)] flushed_writable [OF r(2) t(2)] by simp
  moreover have "is_in_queue (fcell ?fl j) = is_in_queue (fcell fl j)" if "j < ncells fl" for j
    using fcell_put [OF t(1) assms(2) that, of "?hc\<lparr>hc_buf := c'\<rparr>"] by (simp add: is_in_queue_def)
  moreover have "flush_one select i fl = Inr (length rs, ?fl)"
    using cell_at_fcell [OF t(1) assms(2)] r(1) by (simp add: flush_one_def)
  ultimately show ?thesis using r(3) by (intro exI [of _ rs] exI [of _ ?fl]) simp
qed

lemma run_cells_ok:
  assumes "cells_ok fits fl" "queue_ok fl (is @ held)"
  shows "\<exists>tmp new fl'. run_cells select is fl = Inr (tmp, length new, fl') \<and> cells_ok fits fl' \<and> queue_ok fl' (tmp @ held)
    \<and> progress fl new fl' \<and> NUM_WRITEBACK_DIRTY_PAGES * length tmp \<le> length new
    \<and> fl_dirty_cells fl' = fl_dirty_cells fl \<and> fl_num_pending fl' = fl_num_pending fl"
  using assms
proof (induction "is" arbitrary: fl held)
  case Nil
  then show ?case using progress_refl by fastforce
next
  case (Cons i "is")
  have i: "i < ncells fl" using Cons.prems(2) by (auto simp: queue_ok_def)
  obtain rs fl1 where f: "flush_one select i fl = Inr (length rs, fl1)" "length rs \<le> NUM_WRITEBACK_DIRTY_PAGES"
      "cells_ok fits fl1" "progress fl rs fl1" "fl_dirty_cells fl1 = fl_dirty_cells fl" "fl_num_pending fl1 = fl_num_pending fl"
      "\<forall>j < ncells fl. is_in_queue (fcell fl1 j) = is_in_queue (fcell fl j)"
    using flush_one_ok [OF Cons.prems(1) i] by blast
  have n1: "ncells fl1 = ncells fl" using f(4) by (simp add: progress_def)
  have q1: "queue_ok fl1 (i # is @ held)" using queue_ok_cong [of fl1 fl] n1 f(5,7) Cons.prems(2) by simp
  show ?case
  proof (cases "length rs = NUM_WRITEBACK_DIRTY_PAGES")
    case True
    have "queue_ok fl1 (is @ i # held)" using q1 by (auto simp: queue_ok_def)
    from Cons.IH [OF f(3) this] obtain tmp new fl' where "run_cells select is fl1 = Inr (tmp, length new, fl')" "cells_ok fits fl'"
        "queue_ok fl' (tmp @ i # held)" "progress fl1 new fl'" "NUM_WRITEBACK_DIRTY_PAGES * length tmp \<le> length new"
        "fl_dirty_cells fl' = fl_dirty_cells fl1" "fl_num_pending fl' = fl_num_pending fl1" by blast
    moreover have "queue_ok fl' ((i # tmp) @ held)" using calculation(3) by (auto simp: queue_ok_def)
    ultimately show ?thesis using f(1,4,5,6) True progress_trans [OF f(4)]
      by (intro exI [of _ "i # tmp"] exI [of _ "rs @ new"] exI [of _ fl']) simp
  next
    case False
    obtain fl2 where m: "mark_queued False i fl1 = Inr (is_in_queue (fcell fl1 i), fl2)" "cells_ok fits fl2" "progress fl1 [] fl2"
        "fl_dirty_cells fl2 = fl_dirty_cells fl1" "fl_num_pending fl2 = fl_num_pending fl1"
        "\<forall>j < ncells fl1. is_in_queue (fcell fl2 j) = (if j = i then False else is_in_queue (fcell fl1 j))"
      using mark_queued_ok [OF f(3), of i False] i n1 by auto
    have "ncells fl2 = ncells fl1" using m(3) by (simp add: progress_def)
    then have "queue_ok fl2 (is @ held)" using q1 m(4,6) by (auto simp: queue_ok_def split: if_splits)
    from Cons.IH [OF m(2) this] obtain tmp new fl' where "run_cells select is fl2 = Inr (tmp, length new, fl')" "cells_ok fits fl'"
        "queue_ok fl' (tmp @ held)" "progress fl2 new fl'" "NUM_WRITEBACK_DIRTY_PAGES * length tmp \<le> length new"
        "fl_dirty_cells fl' = fl_dirty_cells fl2" "fl_num_pending fl' = fl_num_pending fl2" by blast
    then show ?thesis using f(1,4,5,6) m False progress_trans [OF progress_trans [OF f(4) m(3)]]
      by (intro exI [of _ tmp] exI [of _ "rs @ new"] exI [of _ fl']) simp
  qed
qed

lemma queue_cells_ok:
  assumes "queue_ok fl tmp"
  shows "\<exists>q. queue_cells tmp fl = Inr (fl\<lparr>fl_dirty_cells := q\<rparr>) \<and> queue_ok (fl\<lparr>fl_dirty_cells := q\<rparr>) []
    \<and> ts_list q = ts_list (fl_dirty_cells fl) @ tmp"
proof -
  let ?q = "fl_dirty_cells fl"
  have w: "ts_wf ?q" "distinct (ts_list ?q @ tmp)" "set (ts_list ?q @ tmp) \<subseteq> {..<ncells fl}" "ncells fl \<le> ts_cap ?q"
    using assms by (auto simp: queue_ok_def)
  have "length (ts_list ?q @ tmp) = card (set (ts_list ?q @ tmp))" using distinct_card [OF w(2)] by simp
  also have "\<dots> \<le> ncells fl" using card_mono [OF _ w(3)] by simp
  finally have "length (ts_list ?q) + length tmp \<le> ts_cap ?q" using w(4) by simp
  then obtain q where "ts_add 0 tmp ?q = Inr (length tmp, q)" "ts_wf q" "ts_list q = ts_list ?q @ tmp" "ts_cap q = ts_cap ?q"
    using locked.add_ok [OF w(1)] by blast
  then show ?thesis using assms by (auto simp: queue_cells_def queue_ok_def)
qed

text \<open>
  One round of the loops: fetch, flush, put back what has more. The work, queued page sets plus pages to be
  flushed, gets less.
\<close>

lemma round_ok:
  assumes "cells_ok fits fl" "queue_ok fl []" "ts_list (fl_dirty_cells fl) \<noteq> []" "0 < k"
  shows "\<exists>is q tmp new fl1 fl2. ts_fetch k (fl_dirty_cells fl) = Inr (is, q) \<and> is \<noteq> []
    \<and> run_cells select is (fl\<lparr>fl_dirty_cells := q\<rparr>) = Inr (tmp, length new, fl1) \<and> queue_cells tmp fl1 = Inr fl2
    \<and> cells_ok fits fl2 \<and> queue_ok fl2 [] \<and> progress fl new fl2 \<and> fl_num_pending fl2 = fl_num_pending fl
    \<and> length (ts_list (fl_dirty_cells fl2)) + card (todo fl2) < length (ts_list (fl_dirty_cells fl)) + card (todo fl)"
proof -
  let ?q = "fl_dirty_cells fl" and ?is = "take k (ts_list (fl_dirty_cells fl))"
  obtain q where q: "ts_fetch k ?q = Inr (?is, q)" "ts_wf q" "ts_list q = drop k (ts_list ?q)" "ts_cap q = ts_cap ?q"
    using locked.fetch_ok [of ?q k] assms(2) by (auto simp: queue_ok_def)
  have all: "set (take k (ts_list ?q)) \<union> set (drop k (ts_list ?q)) = set (ts_list ?q)"
    by (metis append_take_drop_id set_append)
  have "queue_ok (fl\<lparr>fl_dirty_cells := q\<rparr>) (?is @ [])"
    using assms(2) q(2-4) all set_take_disj_set_drop_if_distinct [of "ts_list ?q" k k] by (auto simp: queue_ok_def)
  from run_cells_ok [OF _ this] assms(1) obtain tmp new fl1 where
    r: "run_cells select ?is (fl\<lparr>fl_dirty_cells := q\<rparr>) = Inr (tmp, length new, fl1)" "cells_ok fits fl1" "queue_ok fl1 tmp"
      "progress (fl\<lparr>fl_dirty_cells := q\<rparr>) new fl1" "NUM_WRITEBACK_DIRTY_PAGES * length tmp \<le> length new"
      "fl_dirty_cells fl1 = q" "fl_num_pending fl1 = fl_num_pending fl" by auto
  obtain q2 where a: "queue_cells tmp fl1 = Inr (fl1\<lparr>fl_dirty_cells := q2\<rparr>)" "queue_ok (fl1\<lparr>fl_dirty_cells := q2\<rparr>) []"
      "ts_list q2 = ts_list q @ tmp"
    using queue_cells_ok [OF r(3)] r(6) by auto
  have p: "progress fl new (fl1\<lparr>fl_dirty_cells := q2\<rparr>)" using r(4) by (simp add: progress_def)
  have "0 < length (ts_list ?q)" using assms(3) unfolding length_greater_0_conv .
  then have "length (ts_list q) < length (ts_list ?q)" using assms(4) unfolding q(3) length_drop by (rule diff_less [rotated])
  then have "length (ts_list q2) + card (todo fl1) < length (ts_list ?q) + card (todo fl)"
    using progress_card [OF p] r(5) unfolding a(3) length_append NUM_WRITEBACK_DIRTY_PAGES_def todo_frame by linarith
  then show ?thesis using q(1) r a p assms(3,4) by (intro exI conjI) (assumption | simp)+
qed

lemma flusher_run_ok:
  assumes "cells_ok fits fl" "queue_ok fl []" "length (ts_list (fl_dirty_cells fl)) + card (todo fl) \<le> rounds"
    "- (2 ^ 31) \<le> fl_num_pending fl" "fl_num_pending fl + int (card (todo fl)) < 2 ^ 31"
  shows "\<exists>new fl'. flusher_run rounds select fl = Inr fl' \<and> cells_ok fits fl' \<and> queue_ok fl' [] \<and> progress fl new fl'
    \<and> fl_num_pending fl' = fl_num_pending fl + int (length new)
    \<and> (ts_list (fl_dirty_cells fl') = [] \<or> fl_max_pending fl' < fl_num_pending fl')"
  using assms
proof (induction rounds arbitrary: fl)
  case 0
  then have "ts_list (fl_dirty_cells fl) = []" by simp
  then show ?case
    using 0 fq_wf_counts(1) [of "ts_fifo (fl_dirty_cells fl)"] progress_refl
    by (subst flusher_run.simps) (fastforce simp: ts_get_num_entries_def queue_ok_def)
next
  case (Suc rounds)
  have wf: "ts_wf (fl_dirty_cells fl)" using Suc.prems(2) by (simp add: queue_ok_def)
  note num = fq_wf_counts(1) [OF wf]
  show ?case
  proof (cases "ts_list (fl_dirty_cells fl) = []")
    case True
    then have "flusher_run (Suc rounds) select fl = Inr fl"
      using num by (subst flusher_run.simps) (simp add: ts_get_num_entries_def)
    then show ?thesis using Suc.prems True progress_refl by fastforce
  next
    case False
    obtain "is" q tmp new fl1 fl2 where r: "ts_fetch 32 (fl_dirty_cells fl) = Inr (is, q)"
        "run_cells select is (fl\<lparr>fl_dirty_cells := q\<rparr>) = Inr (tmp, length new, fl1)" "queue_cells tmp fl1 = Inr fl2"
        "cells_ok fits fl2" "queue_ok fl2 []" "progress fl new fl2" "fl_num_pending fl2 = fl_num_pending fl"
        "length (ts_list (fl_dirty_cells fl2)) + card (todo fl2) < length (ts_list (fl_dirty_cells fl)) + card (todo fl)"
      using round_ok [OF Suc.prems(1,2) False, of 32] by auto
    let ?fl = "inc_pending (int (length new)) fl2"
    note card = progress_card [OF r(6)]
    have pend: "fl_num_pending ?fl = fl_num_pending fl + int (length new)"
      using r(7) Suc.prems(4,5) card by (simp add: inc_pending_def int32_id)
    have ok: "cells_ok fits ?fl" "queue_ok ?fl []" "progress fl new ?fl" "todo ?fl = todo fl2" "fl_dirty_cells ?fl = fl_dirty_cells fl2"
      using r(4-6) by (simp_all add: inc_pending_def queue_ok_def progress_def)
    have ne: "\<not> ts_get_num_entries (fl_dirty_cells fl) \<le> 0" using num False by (simp add: ts_get_num_entries_def)
    have step: "flusher_run (Suc rounds) select fl
        = (if fl_max_pending ?fl < fl_num_pending ?fl then Inr ?fl else flusher_run rounds select ?fl)"
      using ne r(1-3) by (subst flusher_run.simps) (simp add: Let_def)
    show ?thesis
    proof (cases "fl_max_pending ?fl < fl_num_pending ?fl")
      case True
      then show ?thesis using step ok pend by auto
    next
      case False
      have "length (ts_list (fl_dirty_cells ?fl)) + card (todo ?fl) \<le> rounds" using r(8) Suc.prems(3) ok(4,5) by simp
      moreover have "- (2 ^ 31) \<le> fl_num_pending ?fl" "fl_num_pending ?fl + int (card (todo ?fl)) < 2 ^ 31"
        using Suc.prems(4,5) pend card ok(4) by simp_all
      ultimately obtain new' fl' where "flusher_run rounds select ?fl = Inr fl'" "cells_ok fits fl'" "queue_ok fl' []" "progress ?fl new' fl'"
          "fl_num_pending fl' = fl_num_pending ?fl + int (length new')"
          "ts_list (fl_dirty_cells fl') = [] \<or> fl_max_pending fl' < fl_num_pending fl'"
        using Suc.IH [OF ok(1,2)] by blast
      then show ?thesis using step False pend progress_trans [OF ok(3)]
        by (intro exI [of _ "new @ new'"] exI [of _ fl']) simp
    qed
  qed
qed

lemma flush_written_ok:
  assumes "cells_ok fits fl" "queue_ok fl held" "hashable l"
  shows "\<exists>is new fl'. flush_written select l fl = Inr (is, length new, fl') \<and> cells_ok fits fl' \<and> queue_ok fl' (held @ is)
    \<and> progress fl new fl' \<and> fl_dirty_cells fl' = fl_dirty_cells fl \<and> fl_num_pending fl' = fl_num_pending fl"
proof -
  have t: "table_wf (fl_cache fl)" using assms(1) by (simp add: cells_ok_def)
  let ?i = "locate (fl_cache fl) l"
  have i: "?i < ncells fl" using t assms(3) locate_range(1) [of l "fl_cache fl"] by (simp add: table_wf_def)
  have "cell_wf (hc_buf (fcell fl ?i))" using assms(1) i by (simp add: cells_ok_def writable_def)
  then obtain n where n: "num_pages dirty_flags skip_flags (fcell fl ?i) = Inr n"
    using slots_from_used by (auto simp: num_pages_def)
  note pre = get_cell_offset_ok [OF t assms(3)] cell_at_fcell [OF t i] n
  consider "n \<le> DIRTY_PAGES_THRESHOLD" | "DIRTY_PAGES_THRESHOLD < n" "fl_max_pending fl < fl_num_pending fl"
    | "DIRTY_PAGES_THRESHOLD < n" "\<not> fl_max_pending fl < fl_num_pending fl" by linarith
  then show ?thesis
  proof cases
    case 1
    then show ?thesis using assms pre progress_refl by (fastforce simp: flush_written_def)
  next
    case 2
    from mark_and_hold [OF assms(1,2) i] obtain fl1 where
      "mark_queued True ?i fl = Inr (is_in_queue (fcell fl ?i), fl1)" "cells_ok fits fl1" "progress fl [] fl1"
      "fl_dirty_cells fl1 = fl_dirty_cells fl" "fl_num_pending fl1 = fl_num_pending fl"
      "queue_ok fl1 (held @ (if is_in_queue (fcell fl ?i) then [] else [?i]))" by blast
    then show ?thesis using pre 2 by (intro exI [of _ "if is_in_queue (fcell fl ?i) then [] else [?i]"] exI [of _ "[]"] exI [of _ fl1])
        (simp add: flush_written_def)
  next
    case 3
    obtain rs fl1 where f: "flush_one select ?i fl = Inr (length rs, fl1)" "cells_ok fits fl1" "progress fl rs fl1"
        "fl_dirty_cells fl1 = fl_dirty_cells fl" "fl_num_pending fl1 = fl_num_pending fl"
        "\<forall>j < ncells fl. is_in_queue (fcell fl1 j) = is_in_queue (fcell fl j)"
      using flush_one_ok [OF assms(1) i] by blast
    have n1: "ncells fl1 = ncells fl" using f(3) by (simp add: progress_def)
    have q1: "queue_ok fl1 held" using queue_ok_cong [of fl1 fl] n1 f(4,6) assms(2) by simp
    show ?thesis
    proof (cases "length rs = NUM_WRITEBACK_DIRTY_PAGES \<and> 6 < int n - int (length rs)")
      case True
      have i1: "?i < ncells fl1" using i n1 by simp
      from mark_and_hold [OF f(2) q1 i1] obtain fl2 where
        m: "mark_queued True ?i fl1 = Inr (is_in_queue (fcell fl1 ?i), fl2)" "cells_ok fits fl2" "progress fl1 [] fl2"
        "fl_dirty_cells fl2 = fl_dirty_cells fl1" "fl_num_pending fl2 = fl_num_pending fl1"
        "queue_ok fl2 (held @ (if is_in_queue (fcell fl1 ?i) then [] else [?i]))" by blast
      then show ?thesis using pre 3 f True progress_trans [OF f(3) m(3)]
        by (intro exI [of _ "if is_in_queue (fcell fl1 ?i) then [] else [?i]"] exI [of _ rs] exI [of _ fl2])
          (simp add: flush_written_def)
    next
      case False
      then show ?thesis using pre 3 f q1
        by (intro exI [of _ "[]"] exI [of _ rs] exI [of _ fl1]) (auto simp: flush_written_def)
    qed
  qed
qed

lemma flush_each_ok:
  assumes "cells_ok fits fl" "queue_ok fl held" "\<forall>l \<in> set locs. hashable l"
  shows "\<exists>is new fl'. flush_each select locs fl = Inr (is, length new, fl') \<and> cells_ok fits fl' \<and> queue_ok fl' (held @ is)
    \<and> progress fl new fl' \<and> fl_dirty_cells fl' = fl_dirty_cells fl \<and> fl_num_pending fl' = fl_num_pending fl"
  using assms
proof (induction locs arbitrary: fl held)
  case Nil
  then show ?case using progress_refl by fastforce
next
  case (Cons l locs)
  obtain "is" new fl1 where 1: "flush_written select l fl = Inr (is, length new, fl1)" "cells_ok fits fl1" "queue_ok fl1 (held @ is)"
      "progress fl new fl1" "fl_dirty_cells fl1 = fl_dirty_cells fl" "fl_num_pending fl1 = fl_num_pending fl"
    using flush_written_ok [OF Cons.prems(1,2), of l] Cons.prems(3) by auto
  obtain js new' fl2 where 2: "flush_each select locs fl1 = Inr (js, length new', fl2)" "cells_ok fits fl2" "queue_ok fl2 ((held @ is) @ js)"
      "progress fl1 new' fl2" "fl_dirty_cells fl2 = fl_dirty_cells fl1" "fl_num_pending fl2 = fl_num_pending fl1"
    using Cons.IH [OF 1(2,3)] Cons.prems(3) by auto
  show ?case using 1 2 progress_trans [OF 1(4) 2(4)]
    by (intro exI [of _ "is @ js"] exI [of _ "new @ new'"] exI [of _ fl2]) simp
qed

lemma flush_dirty_pages_ok:
  assumes "cells_ok fits fl" "queue_ok fl []" "\<forall>l \<in> set locs. hashable l"
    "- (2 ^ 31) \<le> fl_num_pending fl" "fl_num_pending fl + int (card (todo fl)) < 2 ^ 31"
  shows "\<exists>new fl'. flush_dirty_pages True select locs fl = Inr fl' \<and> cells_ok fits fl' \<and> queue_ok fl' [] \<and> progress fl new fl'
    \<and> fl_num_pending fl' = fl_num_pending fl + int (length new)"
proof -
  obtain "is" new fl1 where 1: "flush_each select locs fl = Inr (is, length new, fl1)" "cells_ok fits fl1" "queue_ok fl1 is"
      "progress fl new fl1" "fl_num_pending fl1 = fl_num_pending fl"
    using flush_each_ok [OF assms(1-3)] by auto
  let ?fl = "inc_pending (int (length new)) fl1"
  have pend: "fl_num_pending ?fl = fl_num_pending fl + int (length new)"
    using 1(5) assms(4,5) progress_card [OF 1(4)] by (simp add: inc_pending_def int32_id)
  have same: "(if 0 < length new then ?fl else fl1) = ?fl"
    using assms(4,5) 1(5) by (simp add: inc_pending_def int32_id)
  have ok: "cells_ok fits ?fl" "queue_ok ?fl is" "progress fl new ?fl"
    using 1(2-4) by (simp_all add: inc_pending_def queue_ok_def progress_def)
  show ?thesis
  proof (cases "is = []")
    case True
    then show ?thesis using 1(1) same pend ok by (auto simp: flush_dirty_pages_def Let_def)
  next
    case False
    obtain q where q: "queue_cells is ?fl = Inr (?fl\<lparr>fl_dirty_cells := q\<rparr>)" "queue_ok (?fl\<lparr>fl_dirty_cells := q\<rparr>) []"
      using queue_cells_ok [OF ok(2)] by blast
    have "flush_dirty_pages True select locs fl = Inr (?fl\<lparr>fl_dirty_cells := q\<rparr>)"
      using 1(1) False q(1) same by (simp add: flush_dirty_pages_def Let_def)
    moreover have "progress fl new (?fl\<lparr>fl_dirty_cells := q\<rparr>)" using ok(3) by (simp add: progress_def)
    ultimately show ?thesis using q(2) ok(1) pend by (intro exI [of _ new] exI [of _ "?fl\<lparr>fl_dirty_cells := q\<rparr>"]) simp
  qed
qed

end

section \<open>Properties\<close>

abbreviation gclock_flush :: "32 word select" where
  "gclock_flush \<equiv> eviction_select gclock_predict_evicted_pages"

text \<open>One page set of four dirty pages, queued; and the same page set, not queued, with many flushes pending.\<close>

definition dirty_page :: "nat \<Rightarrow> page" where
  "dirty_page d = empty_page\<lparr>pg_off := int d, pg_file_id := 1, pg_data := Some d, pg_flags := 5\<rparr>"

definition dirty_cell :: page_cell where
  "dirty_cell = sample_cell [dirty_page 1, dirty_page 2, dirty_page 3, dirty_page 4]"

definition small_flusher :: "32 word \<Rightarrow> nat list \<Rightarrow> (32 word, unit) flusher" where
  "small_flusher flags queued = \<lparr>fl_cache = \<lparr>ac_table = [Some [(new_hash_cell 0)\<lparr>hc_buf := dirty_cell, hc_flags := flags\<rparr>]],
       ac_expand_cell_idx = 0, ac_npages = 4, ac_offset_factor = 1, ac_flags = 0, ac_init_ncells = 1, ac_node_id = 0,
       ac_expandable = False, ac_height = 4, ac_level = 0, ac_split = 0, ac_glob = ()\<rparr>,
     fl_dirty_cells = \<lparr>ts_fifo = \<lparr>fq_size_mask = 0, fq_buf = [0], fq_allocated = True, fq_start = 0, fq_end = length queued,
       fq_resizable = False, fq_node_id = 0\<rparr>, ts_max_size = 1\<rparr>,
     fl_num_pending = 3, fl_max_pending = 1, fl_issued = []\<rparr>"

lemma dirty_cell_wf: "cell_wf dirty_cell" "pc_num_pages dirty_cell = 4"
    "cell_pages dirty_cell = [dirty_page 1, dirty_page 2, dirty_page 3, dirty_page 4]"
proof -
  show "cell_wf dirty_cell" "cell_pages dirty_cell = [dirty_page 1, dirty_page 2, dirty_page 3, dirty_page 4]"
    unfolding dirty_cell_def by (rule sample_cell_wf; simp add: dirty_page_def has_data_def)+
  then show "pc_num_pages dirty_cell = 4" using num_pages_cell_pages by simp
qed

lemma dirty_cell_writable: "writable dirty_cell"
proof -
  have "pc_buf dirty_cell ! k \<in> set (cell_pages dirty_cell)" if "k \<in> set (used_slots (pc_buf dirty_cell))" for k
    using that by (simp add: cell_pages_slots)
  then have "\<exists>d. pc_buf dirty_cell ! k = dirty_page d" if "k \<in> set (used_slots (pc_buf dirty_cell))" for k
    using that dirty_cell_wf(3) by fastforce
  moreover have "pg_refcnt (dirty_page d) = 0 \<and> data_ready (dirty_page d) \<and> \<not> is_old_dirty (dirty_page d)" for d
    by (simp add: dirty_page_def empty_page_def flag_get_defs get_flags_bit_def)
  ultimately show ?thesis using dirty_cell_wf(1) unfolding writable_def
    by (metis (no_types, opaque_lifting) neg_0_le_iff_le neg_numeral_le_zero zero_less_numeral)
qed

lemma small_flusher_ok:
  "ncells (small_flusher fl qs) = 1"
  "fcell (small_flusher fl qs) 0 = (new_hash_cell 0)\<lparr>hc_buf := dirty_cell, hc_flags := fl\<rparr>"
  "cells_ok gclock_fits (small_flusher fl qs)"
proof -
  show n: "ncells (small_flusher fl qs) = 1" by (simp add: small_flusher_def get_num_cells_def)
  show f: "fcell (small_flusher fl qs) 0 = (new_hash_cell 0)\<lparr>hc_buf := dirty_cell, hc_flags := fl\<rparr>"
    by (simp add: fcell_def cell_at_def get_cell_def small_flusher_def)
  have "table_wf (fl_cache (small_flusher fl qs))"
    by (simp add: table_wf_def sized_def arrays_def small_flusher_def)
  moreover have "gclock_fits 0 4" by (simp add: gclock_fits_def)
  ultimately show "cells_ok gclock_fits (small_flusher fl qs)"
    using dirty_cell_writable by (simp add: cells_ok_def n f dirty_cell_wf(2)) (simp add: new_hash_cell_def)
qed

lemma small_flusher_fields:
  "ts_list (fl_dirty_cells (small_flusher f [0])) = [0]" "ts_list (fl_dirty_cells (small_flusher f [])) = []"
  "fl_num_pending (small_flusher f qs) = 3" "fl_max_pending (small_flusher f qs) = 1"
  by (simp_all add: small_flusher_def fq_list_def loc_in_queue_def)

lemma small_flusher_queue: "queue_ok (small_flusher 2 [0]) []" "queue_ok (small_flusher 0 []) []"
proof -
  have w: "ts_wf (fl_dirty_cells (small_flusher f [0]))" "ts_wf (fl_dirty_cells (small_flusher f []))"
      "ts_cap (fl_dirty_cells (small_flusher f qs)) = 1" for f qs
    by (auto simp: small_flusher_def fq_wf_def intro!: exI [of _ 0])
  have q: "is_in_queue (fcell (small_flusher 2 [0]) 0)" "\<not> is_in_queue (fcell (small_flusher 0 []) 0)"
    by (simp_all add: small_flusher_ok(2) is_in_queue_def atomic_test_flag_def)
  show "queue_ok (small_flusher 2 [0]) []" "queue_ok (small_flusher 0 []) []"
    using q by (auto simp: queue_ok_def small_flusher_fields w small_flusher_ok(1))
qed


lemma card_todo_small: "card (todo (small_flusher f qs)) \<le> 16"
proof -
  have "todo (small_flusher f qs) \<subseteq> {0} \<times> {..<16}"
    using cell_wfD(1) [OF dirty_cell_wf(1)] by (auto simp: todo_def todo_slots_def small_flusher_ok set_used_slots)
  from card_mono [OF _ this] show ?thesis by simp
qed




text \<open>
  The completion handler does not keep it. When a flush was discarded, its page set is not queued and enough
  flushes are pending, the handler puts the page set into the queue without marking it, so later it can be
  queued a second time.
\<close>

theorem completion_queues_unmarked:
  assumes "table_wf (fl_cache fl)" "queue_ok fl []" "fr_discarded r" "hashable (fr_loc r)"
    "\<not> is_in_queue (fcell fl (locate (fl_cache fl) (fr_loc r)))" "fl_max_pending fl < fl_num_pending fl" "fl_num_pending fl < 2 ^ 31"
    "- (2 ^ 31) \<le> fl_max_pending fl"
  shows "\<exists>fl'. notify_completion rounds waiting select [r] fl = Inr fl'
    \<and> locate (fl_cache fl) (fr_loc r) \<in> set (ts_list (fl_dirty_cells fl'))
    \<and> \<not> is_in_queue (fcell fl' (locate (fl_cache fl) (fr_loc r))) \<and> \<not> queue_ok fl' []"
proof -
  let ?i = "locate (fl_cache fl) (fr_loc r)" and ?q = "fl_dirty_cells fl"
  have i: "?i < ncells fl" using assms(1,4) locate_range(1) [of "fr_loc r" "fl_cache fl"] by (simp add: table_wf_def)
  have "distinct (ts_list ?q @ [?i])" "set (ts_list ?q @ [?i]) \<subseteq> {..<ncells fl}" "ts_wf ?q" "ncells fl \<le> ts_cap ?q"
    using assms(2,5) i by (auto simp: queue_ok_def)
  then have "length (ts_list ?q) + length [?i] \<le> ts_cap ?q"
    using distinct_card [of "ts_list ?q @ [?i]"] card_mono [of "{..<ncells fl}" "set (ts_list ?q @ [?i])"] by simp
  then obtain q where q: "ts_add 0 [?i] ?q = Inr (1, q)" "ts_list q = ts_list ?q @ [?i]"
    using locked.add_ok [OF \<open>ts_wf ?q\<close>, of "[?i]"] by auto
  let ?fl = "inc_pending (- 1) (fl\<lparr>fl_dirty_cells := q\<rparr>)"
  have "complete_reqs waiting select [r] fl = Inr ([?i], 0, fl)"
    using assms(3,5,6) get_cell_offset_ok [OF assms(1,4)] cell_at_fcell [OF assms(1) i] by (simp add: complete_req_def)
  moreover have "\<not> fl_num_pending ?fl < fl_max_pending ?fl"
    using assms(6-8) by (simp add: inc_pending_def int32_id)
  ultimately have "notify_completion rounds waiting select [r] fl = Inr ?fl"
    using q(1) by (simp add: notify_completion_def queue_cells_def Let_def)
  moreover have "?i \<in> set (ts_list (fl_dirty_cells ?fl))" "\<not> is_in_queue (fcell ?fl ?i)"
    using q(2) assms(5) by (simp_all add: inc_pending_def)
  ultimately show ?thesis by (auto simp: queue_ok_def)
qed

theorem completion_queues_unmarked_witness:
  "\<exists>fl'. notify_completion 0 (\<lambda>_. False) gclock_flush [\<lparr>fr_loc = \<lparr>loc_file_id = 1, loc_off = 4096\<rparr>, fr_pages = [(0, 0)],
      fr_high_prio = False, fr_discarded = True\<rparr>] (small_flusher 0 []) = Inr fl' \<and> \<not> queue_ok fl' []"
proof -
  let ?r = "\<lparr>fr_loc = \<lparr>loc_file_id = 1, loc_off = 4096\<rparr>, fr_pages = [(0, 0)], fr_high_prio = False, fr_discarded = True\<rparr>"
  have t: "table_wf (fl_cache (small_flusher 0 []))" using small_flusher_ok(3) by (simp add: cells_ok_def)
  have h: "hashable (fr_loc ?r)" by (simp add: hashable_def page_aligned_loc_def)
  have "locate (fl_cache (small_flusher 0 [])) (fr_loc ?r) = 0"
    using locate_range(1) [OF h, of "fl_cache (small_flusher 0 [])"] t small_flusher_ok(1) [of 0 "[]"] by (simp add: table_wf_def)
  then show ?thesis
    using completion_queues_unmarked [OF t small_flusher_queue(2) _ h, of 0 "\<lambda>_. False" gclock_flush]
      small_flusher_ok(2) [of 0 "[]"] by (simp add: is_in_queue_def atomic_test_flag_def small_flusher_fields) blast
qed

end
