(* ===== verification/Bitmap.thy ===== *)
theory Bitmap
  imports Prelude
begin

text \<open>
  The bitmaps of the graph engine (\<^verbatim>\<open>flash-graph/bitmap.h\<close>): \<^verbatim>\<open>bitmap\<close>, which counts its set bits and
  lists them, and \<^verbatim>\<open>thread_safe_bitmap\<close>, whose words are atomic variables. The array of \<^verbatim>\<open>long\<close>s is a
  list of 64-bit words; an index and a number of bits (\<^verbatim>\<open>size_t\<close>) is a natural number, far below
  the width of the type. \<open>bit_set\<close> is the contract of a bitmap, with the set of its
  indexes as the abstract value.
\<close>

section \<open>Data and operations\<close>

definition NUM_BITS_LONG :: nat where
  "NUM_BITS_LONG = 64"

definition ROUNDUP :: "nat \<Rightarrow> nat \<Rightarrow> nat" where
  "ROUNDUP off base = nat ((int off + int base - 1) AND NOT (int base - 1))"

record bitmap =
  num_set_bits :: int
  max_num_bits :: nat
  bm_ptr :: "64 word list"

definition bm_get_num_longs :: "bitmap \<Rightarrow> nat" where
  "bm_get_num_longs bm = ROUNDUP (max_num_bits bm) NUM_BITS_LONG div NUM_BITS_LONG"

definition new_bitmap :: "nat \<Rightarrow> bitmap" where
  "new_bitmap n = \<lparr>num_set_bits = 0, max_num_bits = n,
     bm_ptr = (if n > 0 then replicate (ROUNDUP n NUM_BITS_LONG div NUM_BITS_LONG) 0 else [])\<rparr>"

definition bm_test :: "64 word list \<Rightarrow> nat \<Rightarrow> bool" where
  "bm_test p idx = (p ! (idx div NUM_BITS_LONG) AND push_bit (idx mod NUM_BITS_LONG) 1 \<noteq> 0)"

definition bm_get :: "bitmap \<Rightarrow> nat \<Rightarrow> bool res" where
  "bm_get bm idx = assert_then (idx < max_num_bits bm) (Inr (bm_test (bm_ptr bm) idx))"

definition bm_set :: "nat \<Rightarrow> bitmap \<Rightarrow> bitmap res" where
  "bm_set idx bm = assert_then (idx < max_num_bits bm)
     (let arr_off = idx div NUM_BITS_LONG; inside_off = idx mod NUM_BITS_LONG in
      if \<not> bm_test (bm_ptr bm) idx
      then Inr (bm\<lparr>num_set_bits := num_set_bits bm + 1,
                   bm_ptr := (bm_ptr bm)[arr_off := bm_ptr bm ! arr_off OR push_bit inside_off 1]\<rparr>)
      else Inr bm)"

definition bm_reset :: "nat \<Rightarrow> bitmap \<Rightarrow> bitmap res" where
  "bm_reset idx bm = assert_then (idx < max_num_bits bm)
     (let arr_off = idx div NUM_BITS_LONG; inside_off = idx mod NUM_BITS_LONG in
      if bm_test (bm_ptr bm) idx
      then Inr (bm\<lparr>num_set_bits := num_set_bits bm - 1,
                   bm_ptr := (bm_ptr bm)[arr_off := bm_ptr bm ! arr_off AND NOT (push_bit inside_off 1)]\<rparr>)
      else Inr bm)"

text \<open>A loop that applies a fallible step to a list of indexes in order.\<close>

fun each_res :: "('a \<Rightarrow> 's \<Rightarrow> 's res) \<Rightarrow> 'a list \<Rightarrow> 's \<Rightarrow> 's res" where
  "each_res f [] s = Inr s"
| "each_res f (x # xs) s = bind_res (f x s) (each_res f xs)"

definition bm_set_all :: "bitmap \<Rightarrow> bitmap res" where
  "bm_set_all bm =
     (if max_num_bits bm > 0 then
        let full = bm_get_num_longs bm - 1;
            bm1 = bm\<lparr>bm_ptr := replicate full (- 1) @ drop full (bm_ptr bm),
                     num_set_bits := int (NUM_BITS_LONG * full)\<rparr>
        in each_res bm_set [NUM_BITS_LONG * full..<max_num_bits bm] bm1
      else Inr bm)"

definition bm_clear :: "bitmap \<Rightarrow> bitmap" where
  "bm_clear bm = bm\<lparr>bm_ptr := replicate (bm_get_num_longs bm) 0 @ drop (bm_get_num_longs bm) (bm_ptr bm),
                    num_set_bits := 0\<rparr>"

definition get_set_bits_long :: "64 word \<Rightarrow> nat \<Rightarrow> nat list \<Rightarrow> nat list" where
  "get_set_bits_long value idx v =
     fold (\<lambda>i v. if value AND push_bit i 1 \<noteq> 0 then v @ [i + idx * NUM_BITS_LONG] else v)
       [0..<NUM_BITS_LONG] v"

text \<open>The scan over the words \<open>i\<close>, \<dots>, \<open>k - 1\<close>; a word that is zero is skipped.\<close>

fun scan_longs :: "64 word list \<Rightarrow> nat list \<Rightarrow> nat list \<Rightarrow> nat list" where
  "scan_longs p [] v = v"
| "scan_longs p (i # is) v =
     scan_longs p is (if p ! i \<noteq> 0 then get_set_bits_long (p ! i) i v else v)"

fun scan_reset_longs :: "nat list \<Rightarrow> 64 word list \<times> nat list \<Rightarrow> 64 word list \<times> nat list" where
  "scan_reset_longs [] (p, v) = (p, v)"
| "scan_reset_longs (i # is) (p, v) =
     scan_reset_longs is
       (if p ! i \<noteq> 0 then (p[i := 0], get_set_bits_long (p ! i) i v) else (p, v))"

definition bm_get_set_bits :: "bitmap \<Rightarrow> nat list \<Rightarrow> nat list res" where
  "bm_get_set_bits bm v =
     (let v' = scan_longs (bm_ptr bm) [0..<bm_get_num_longs bm] v
      in assert_then (int (length v') = num_set_bits bm) (Inr v'))"

definition bm_get_reset_set_bits :: "bitmap \<Rightarrow> nat list \<Rightarrow> (bitmap \<times> nat list) res" where
  "bm_get_reset_set_bits bm v =
     (case scan_reset_longs [0..<bm_get_num_longs bm] (bm_ptr bm, v) of (p, v') \<Rightarrow>
        assert_then (int (length v') = num_set_bits bm)
          (Inr (bm\<lparr>bm_ptr := p, num_set_bits := 0\<rparr>, v')))"

definition bm_range_end :: "bitmap \<Rightarrow> nat \<Rightarrow> nat" where
  "bm_range_end bm end_idx =
     (if end_idx = max_num_bits bm then ROUNDUP end_idx NUM_BITS_LONG else end_idx)"

definition bm_get_set_bits_range :: "bitmap \<Rightarrow> nat \<Rightarrow> nat \<Rightarrow> nat list \<Rightarrow> nat list res" where
  "bm_get_set_bits_range bm begin_idx end_idx v =
     assert_then (begin_idx mod NUM_BITS_LONG = 0)
     (let e = bm_range_end bm end_idx in
      assert_then (e mod NUM_BITS_LONG = 0)
      (let long_end = e div NUM_BITS_LONG;
           long_end = (if long_end > bm_get_num_longs bm then bm_get_num_longs bm else long_end)
       in Inr (scan_longs (bm_ptr bm) [begin_idx div NUM_BITS_LONG..<long_end] v)))"

definition bm_get_reset_set_bits_range :: "bitmap \<Rightarrow> nat \<Rightarrow> nat \<Rightarrow> nat list \<Rightarrow> (bitmap \<times> nat list) res" where
  "bm_get_reset_set_bits_range bm begin_idx end_idx v =
     assert_then (begin_idx mod NUM_BITS_LONG = 0)
     (let e = bm_range_end bm end_idx in
      assert_then (e mod NUM_BITS_LONG = 0)
      (let long_end = e div NUM_BITS_LONG;
           long_end = (if long_end > bm_get_num_longs bm then bm_get_num_longs bm else long_end)
       in case scan_reset_longs [begin_idx div NUM_BITS_LONG..<long_end] (bm_ptr bm, v) of (p, v') \<Rightarrow>
          (let n = num_set_bits bm - int (length v' - length v)
           in assert_then (n \<ge> 0) (Inr (bm\<lparr>bm_ptr := p, num_set_bits := n\<rparr>, v')))))"

definition bm_copy_to :: "bitmap \<Rightarrow> bitmap \<Rightarrow> bitmap res" where
  "bm_copy_to bm m = assert_then (max_num_bits bm = max_num_bits m)
     (Inr (m\<lparr>num_set_bits := num_set_bits bm,
               bm_ptr := take (bm_get_num_longs m) (bm_ptr bm) @ drop (bm_get_num_longs m) (bm_ptr m)\<rparr>))"

text \<open>
  The thread-safe bitmap: every operation is one atomic read-modify-write of a word, so a run of
  several threads is a sequence of these operations.
\<close>

record ts_bitmap =
  ts_max_num_bits :: nat
  ts_ptr :: "64 word list"

definition tsb_clear_all :: "ts_bitmap \<Rightarrow> ts_bitmap" where
  "tsb_clear_all bm =
     (let num_longs = ROUNDUP (ts_max_num_bits bm) NUM_BITS_LONG div NUM_BITS_LONG
      in bm\<lparr>ts_ptr := replicate num_longs 0 @ drop num_longs (ts_ptr bm)\<rparr>)"

definition new_ts_bitmap :: "nat \<Rightarrow> 64 word list \<Rightarrow> ts_bitmap" where
  "new_ts_bitmap n mem = tsb_clear_all \<lparr>ts_max_num_bits = n, ts_ptr = mem\<rparr>"

definition tsb_set :: "nat \<Rightarrow> ts_bitmap \<Rightarrow> ts_bitmap res" where
  "tsb_set idx bm = assert_then (idx < ts_max_num_bits bm)
     (let arr_off = idx div NUM_BITS_LONG; inside_off = idx mod NUM_BITS_LONG
      in Inr (bm\<lparr>ts_ptr := (ts_ptr bm)[arr_off := ts_ptr bm ! arr_off OR push_bit inside_off 1]\<rparr>))"

definition tsb_get :: "ts_bitmap \<Rightarrow> nat \<Rightarrow> bool res" where
  "tsb_get bm idx = assert_then (idx < ts_max_num_bits bm) (Inr (bm_test (ts_ptr bm) idx))"

definition tsb_clear :: "nat \<Rightarrow> ts_bitmap \<Rightarrow> ts_bitmap res" where
  "tsb_clear idx bm = assert_then (idx < ts_max_num_bits bm)
     (let arr_off = idx div NUM_BITS_LONG; inside_off = idx mod NUM_BITS_LONG
      in Inr (bm\<lparr>ts_ptr := (ts_ptr bm)[arr_off := ts_ptr bm ! arr_off AND NOT (push_bit inside_off 1)]\<rparr>))"

section \<open>Words\<close>

lemma ROUNDUP_eq: "ROUNDUP n (2 ^ k) = (n + 2 ^ k - 1) div 2 ^ k * 2 ^ k"
proof -
  have "(int n + 2 ^ k - 1) AND NOT (2 ^ k - 1) = (int n + 2 ^ k - 1) div 2 ^ k * 2 ^ k"
  proof -
    have "(int n + 2 ^ k - 1) AND NOT (mask k) = push_bit k (drop_bit k (int n + 2 ^ k - 1))"
      by (rule bit_eqI) (auto simp: bit_simps)
    then show ?thesis by (simp add: mask_eq_exp_minus_1 push_bit_eq_mult drop_bit_eq_div)
  qed
  moreover have "int (n + 2 ^ k - 1) = int n + 2 ^ k - 1"
  proof -
    have "1 \<le> n + 2 ^ k" by (simp add: Suc_le_eq)
    then show ?thesis by (simp only: of_nat_diff of_nat_add of_nat_power of_nat_numeral of_nat_1)
  qed
  ultimately have "(int n + 2 ^ k - 1) AND NOT (2 ^ k - 1) = int ((n + 2 ^ k - 1) div 2 ^ k * 2 ^ k)"
    by (simp only: of_nat_mult of_nat_div of_nat_power of_nat_numeral)
  then show ?thesis
    unfolding ROUNDUP_def by (simp only: of_nat_power of_nat_numeral nat_int)
qed

text \<open>The set of indexes an array of words stands for.\<close>

definition bits_of :: "64 word list \<Rightarrow> nat set" where
  "bits_of p = {i. i < NUM_BITS_LONG * length p \<and> bm_test p i}"

lemma bm_test_bit: "bm_test p i = bit (p ! (i div 64)) (i mod 64)"
  by (simp add: bm_test_def NUM_BITS_LONG_def and_exp_eq_0_iff_not_bit push_bit_of_1)

lemma bits_of_iff: "i \<in> bits_of p \<longleftrightarrow> i < 64 * length p \<and> bit (p ! (i div 64)) (i mod 64)"
  by (simp add: bits_of_def bm_test_bit NUM_BITS_LONG_def)

lemma finite_bits_of [simp]: "finite (bits_of p)"
  by (rule finite_subset[of _ "{..<64 * length p}"]) (auto simp: bits_of_iff)

lemma div_mod_64_eq: "(i :: nat) div 64 = j div 64 \<Longrightarrow> i mod 64 = j mod 64 \<Longrightarrow> i = j"
  by (metis div_mult_mod_eq)

lemma bits_of_set:
  assumes "i < 64 * length p"
  shows "bits_of (p[i div 64 := p ! (i div 64) OR push_bit (i mod 64) 1]) = insert i (bits_of p)"
proof -
  have "i div 64 < length p" using assms by (simp add: less_mult_imp_div_less mult.commute)
  then show ?thesis
    using assms
    by (auto simp: bits_of_iff nth_list_update_if bit_or_iff push_bit_of_1 bit_exp_iff
        split: if_splits intro: div_mod_64_eq div_mod_64_eq[symmetric])
qed

lemma bits_of_reset:
  assumes "i < 64 * length p"
  shows "bits_of (p[i div 64 := p ! (i div 64) AND NOT (push_bit (i mod 64) 1)]) = bits_of p - {i}"
proof -
  have "i div 64 < length p" using assms by (simp add: less_mult_imp_div_less mult.commute)
  then show ?thesis
    using assms
    by (auto simp: bits_of_iff nth_list_update_if bit_and_iff bit_not_iff push_bit_of_1 bit_exp_iff
        split: if_splits intro: div_mod_64_eq div_mod_64_eq[symmetric])
qed

section \<open>Listing the set bits\<close>

lemma get_set_bits_long_eq:
  "get_set_bits_long w i v = v @ map (\<lambda>j. j + i * 64) (filter (bit w) [0..<64])"
proof -
  have "fold (\<lambda>j v. if w AND push_bit j 1 \<noteq> 0 then v @ [j + i * 64] else v) js v
      = v @ map (\<lambda>j. j + i * 64) (filter (bit w) js)" for js
    by (induction js arbitrary: v) (simp_all add: and_exp_eq_0_iff_not_bit push_bit_of_1)
  then show ?thesis unfolding get_set_bits_long_def NUM_BITS_LONG_def .
qed

lemma long_bits_filter:
  "map (\<lambda>j. j + i * 64) (filter (bit (p ! i)) [0..<64]) = filter (bm_test p) [64 * i..<64 * Suc i]"
proof -
  have "[64 * i..<64 * Suc i] = map (\<lambda>j. j + i * 64) [0..<64]"
    by (simp add: map_add_upt mult.commute add.commute)
  moreover have "bm_test p (j + i * 64) = bit (p ! i) j" if "j < 64" for j
    using that by (simp add: bm_test_bit)
  ultimately show ?thesis
    by (simp only: filter_map comp_def) (rule arg_cong[where f = "map _"], rule filter_cong, auto)
qed

lemma scan_longs_append: "scan_longs p (is @ js) v = scan_longs p js (scan_longs p is v)"
  by (induction "is" arbitrary: v) simp_all

lemma scan_longs_step: "(if p ! i \<noteq> 0 then get_set_bits_long (p ! i) i v else v)
    = v @ filter (bm_test p) [64 * i..<64 * Suc i]"
  by (simp only: get_set_bits_long_eq long_bits_filter[symmetric]) simp

lemma upt_blocks: "a \<le> b \<Longrightarrow> [64 * a..<64 * Suc b] = [64 * a..<64 * b] @ [64 * b..<64 * Suc b]"
  using upt_add_eq_append[of "64 * a" "64 * b" 64] by (simp add: add.commute)

text \<open>The scan lists the set bits of its range in increasing order.\<close>

lemma scan_longs_eq:
  assumes "a \<le> b"
  shows "scan_longs p [a..<b] v = v @ filter (bm_test p) [64 * a..<64 * b]"
  using assms
proof (induction rule: dec_induct)
  case (step n)
  have "[a..<Suc n] = [a..<n] @ [n]" using step by simp
  then show ?case
    using step.IH by (simp only: scan_longs_append upt_blocks[OF step.hyps(1)] filter_append scan_longs.simps scan_longs_step append_assoc)
qed simp

lemma scan_reset_longs_append:
  "scan_reset_longs (is @ js) pv = scan_reset_longs js (scan_reset_longs is pv)"
  by (induction "is" pv rule: scan_reset_longs.induct) simp_all

text \<open>Scanning and resetting collects the same bits, and clears the words of the range.\<close>

definition zero_longs :: "64 word list \<Rightarrow> nat \<Rightarrow> nat \<Rightarrow> 64 word list" where
  "zero_longs p a b = map (\<lambda>i. if a \<le> i \<and> i < b then 0 else p ! i) [0..<length p]"

lemma length_zero_longs [simp]: "length (zero_longs p a b) = length p"
  by (simp add: zero_longs_def)

lemma zero_longs_nth: "i < length p \<Longrightarrow> zero_longs p a b ! i = (if a \<le> i \<and> i < b then 0 else p ! i)"
  by (simp add: zero_longs_def)

lemma bits_of_zero_longs: "bits_of (zero_longs p a b) = bits_of p - {64 * a..<64 * b}"
proof (rule set_eqI)
  fix i
  have "i div 64 < length p" if "i < 64 * length p"
    using that by (simp add: less_mult_imp_div_less mult.commute)
  moreover have "a \<le> i div 64 \<and> i div 64 < b \<longleftrightarrow> 64 * a \<le> i \<and> i < 64 * b"
    by (simp add: less_eq_div_iff_mult_less_eq div_less_iff_less_mult mult.commute)
  ultimately show "i \<in> bits_of (zero_longs p a b) \<longleftrightarrow> i \<in> bits_of p - {64 * a..<64 * b}"
    by (cases "i < 64 * length p") (simp_all add: bits_of_iff zero_longs_nth)
qed

lemma scan_reset_longs_eq:
  assumes "a \<le> b" "b \<le> length p"
  shows "scan_reset_longs [a..<b] (p, v) = (zero_longs p a b, v @ filter (bm_test p) [64 * a..<64 * b])"
  using assms
proof (induction rule: dec_induct)
  case base
  have "zero_longs p a a = p" by (rule nth_equalityI) (auto simp: zero_longs_nth)
  then show ?case by simp
next
  case (step n)
  let ?q = "zero_longs p a n"
  have nth: "?q ! n = p ! n" using step.prems by (simp add: zero_longs_nth)
  have upd: "?q[n := 0] = zero_longs p a (Suc n)" "p ! n = 0 \<Longrightarrow> ?q = zero_longs p a (Suc n)"
    using step by (auto intro!: nth_equalityI simp: zero_longs_nth nth_list_update less_Suc_eq)
  have list: "(if p ! n \<noteq> 0 then get_set_bits_long (p ! n) n (v @ filter (bm_test p) [64 * a..<64 * n])
        else v @ filter (bm_test p) [64 * a..<64 * n])
      = v @ filter (bm_test p) [64 * a..<64 * Suc n]"
    by (simp only: scan_longs_step upt_blocks[OF step.hyps(1)] filter_append append_assoc)
  have "[a..<Suc n] = [a..<n] @ [n]" using step by simp
  then have "scan_reset_longs [a..<Suc n] (p, v)
      = scan_reset_longs [n] (?q, v @ filter (bm_test p) [64 * a..<64 * n])"
    using step by (simp only: scan_reset_longs_append Suc_leD)
  also have "\<dots> = (zero_longs p a (Suc n),
      if p ! n \<noteq> 0 then get_set_bits_long (p ! n) n (v @ filter (bm_test p) [64 * a..<64 * n])
      else v @ filter (bm_test p) [64 * a..<64 * n])"
    using nth upd(1) by (cases "p ! n = 0") (simp_all add: upd(2)[symmetric])
  finally show ?case by (simp only: list)
qed

end
