(* ===== verification/Bitmap_Laws.thy ===== *)
theory Bitmap_Laws
  imports Bitmap
begin

text \<open>
  What the bitmaps promise. \<open>bm_wf\<close> is the invariant of \<^verbatim>\<open>bitmap\<close>: the count is the number of set bits and no bit
  beyond the capacity is set. The locale \<open>bit_set\<close> is the contract both bitmaps fulfil: a finite set of
  indexes below a capacity, with an assertion failure for any other index.
\<close>

section \<open>The invariant\<close>

definition bm_wf :: "bitmap \<Rightarrow> bool" where
  "bm_wf bm \<longleftrightarrow> length (bm_ptr bm) = bm_get_num_longs bm
     \<and> bits_of (bm_ptr bm) \<subseteq> {..<max_num_bits bm}
     \<and> num_set_bits bm = int (card (bits_of (bm_ptr bm)))"

definition tsb_wf :: "ts_bitmap \<Rightarrow> bool" where
  "tsb_wf bm \<longleftrightarrow> length (ts_ptr bm) = ROUNDUP (ts_max_num_bits bm) NUM_BITS_LONG div NUM_BITS_LONG
     \<and> bits_of (ts_ptr bm) \<subseteq> {..<ts_max_num_bits bm}"

abbreviation bm_bits :: "bitmap \<Rightarrow> nat set" where
  "bm_bits bm \<equiv> bits_of (bm_ptr bm)"

lemma num_longs_eq: "ROUNDUP n NUM_BITS_LONG div NUM_BITS_LONG = (n + 63) div 64"
  using ROUNDUP_eq[of n 6] by (simp add: NUM_BITS_LONG_def)

lemma num_longs_cover: "(n :: nat) \<le> 64 * ((n + 63) div 64)"
  using div_mult_mod_eq[of "n + 63" 64] mod_less_divisor[of 64 "n + 63"] by linarith

lemma num_longs_pred: "0 < (n :: nat) \<Longrightarrow> 64 * ((n + 63) div 64 - 1) < n"
  using div_mult_mod_eq[of "n + 63" 64] by linarith

lemma bm_longs: "bm_get_num_longs bm = (max_num_bits bm + 63) div 64"
  by (simp add: bm_get_num_longs_def num_longs_eq)

lemma bits_of_zero [simp]: "bits_of (replicate n 0) = {}"
proof -
  have "i div 64 < n" if "i < 64 * n" for i :: nat
    using that by (simp add: less_mult_imp_div_less mult.commute)
  then show ?thesis by (auto simp: bits_of_iff)
qed

lemma bm_test_bits: "length p = (n + 63) div 64 \<Longrightarrow> i < n \<Longrightarrow> bm_test p i \<longleftrightarrow> i \<in> bits_of p"
  using num_longs_cover[of n] by (auto simp: bits_of_def NUM_BITS_LONG_def)

lemma new_bitmap_wf: "bm_wf (new_bitmap n)" "bm_bits (new_bitmap n) = {}" "max_num_bits (new_bitmap n) = n"
  using bits_of_zero[of 0] by (simp_all add: bm_wf_def new_bitmap_def bm_get_num_longs_def num_longs_eq)

lemma new_ts_bitmap_wf:
  assumes "length mem = ROUNDUP n NUM_BITS_LONG div NUM_BITS_LONG"
  shows "tsb_wf (new_ts_bitmap n mem)" "bits_of (ts_ptr (new_ts_bitmap n mem)) = {}"
  using assms by (simp_all add: tsb_wf_def new_ts_bitmap_def tsb_clear_all_def Let_def)

lemma bm_clear_wf:
  assumes "bm_wf bm"
  shows "bm_wf (bm_clear bm)" "bm_bits (bm_clear bm) = {}" "max_num_bits (bm_clear bm) = max_num_bits bm"
  using assms by (simp_all add: bm_wf_def bm_clear_def bm_get_num_longs_def)

lemma bm_set_step:
  assumes "length (bm_ptr bm) = bm_get_num_longs bm" "i < max_num_bits bm"
  shows "\<exists>bm'. bm_set i bm = Inr bm' \<and> length (bm_ptr bm') = bm_get_num_longs bm'
    \<and> max_num_bits bm' = max_num_bits bm \<and> bm_bits bm' = insert i (bm_bits bm)
    \<and> num_set_bits bm' = num_set_bits bm + (if i \<in> bm_bits bm then 0 else 1)"
proof -
  have len: "length (bm_ptr bm) = (max_num_bits bm + 63) div 64" using assms(1) by (simp add: bm_longs)
  have lt: "i < 64 * length (bm_ptr bm)" using assms(2) num_longs_cover[of "max_num_bits bm"] len by simp
  show ?thesis
  proof (cases "i \<in> bm_bits bm")
    case True
    then show ?thesis
      using assms bm_test_bits[OF len assms(2)] by (simp add: bm_set_def Let_def insert_absorb)
  next
    case False
    then show ?thesis
      using assms bm_test_bits[OF len assms(2)] bits_of_set[OF lt]
      by (simp add: bm_set_def Let_def NUM_BITS_LONG_def bm_get_num_longs_def)
  qed
qed

lemma bm_set_ok:
  assumes "bm_wf bm" "i < max_num_bits bm"
  shows "\<exists>bm'. bm_set i bm = Inr bm' \<and> bm_wf bm' \<and> max_num_bits bm' = max_num_bits bm
    \<and> bm_bits bm' = insert i (bm_bits bm)"
proof -
  obtain bm' where "bm_set i bm = Inr bm'" "length (bm_ptr bm') = bm_get_num_longs bm'"
    "max_num_bits bm' = max_num_bits bm" "bm_bits bm' = insert i (bm_bits bm)"
    "num_set_bits bm' = num_set_bits bm + (if i \<in> bm_bits bm then 0 else 1)"
    using bm_set_step[of bm i] assms by (auto simp: bm_wf_def)
  then show ?thesis
    using assms by (auto simp: bm_wf_def card_insert_if)
qed

lemma bm_reset_ok:
  assumes "bm_wf bm" "i < max_num_bits bm"
  shows "\<exists>bm'. bm_reset i bm = Inr bm' \<and> bm_wf bm' \<and> max_num_bits bm' = max_num_bits bm
    \<and> bm_bits bm' = bm_bits bm - {i}"
proof -
  have len: "length (bm_ptr bm) = (max_num_bits bm + 63) div 64"
    using assms(1) by (simp add: bm_wf_def bm_longs)
  have lt: "i < 64 * length (bm_ptr bm)" using assms(2) num_longs_cover[of "max_num_bits bm"] len by simp
  have card: "int (card (bm_bits bm - {i})) = int (card (bm_bits bm)) - 1" if "i \<in> bm_bits bm"
    using card_Suc_Diff1[OF finite_bits_of that] by simp
  show ?thesis
    using assms bits_of_reset[OF lt] bm_test_bits[OF len assms(2)] card
    by (auto simp: bm_reset_def bm_wf_def bm_get_num_longs_def NUM_BITS_LONG_def Let_def)
qed

lemma bm_get_ok: "bm_wf bm \<Longrightarrow> i < max_num_bits bm \<Longrightarrow> bm_get bm i = Inr (i \<in> bm_bits bm)"
  by (simp add: bm_get_def bm_test_bits bm_wf_def bm_longs)

section \<open>The contract\<close>

locale bit_set =
  fixes inv :: "'s \<Rightarrow> bool" and cap :: "'s \<Rightarrow> nat" and bits :: "'s \<Rightarrow> nat set"
    and get :: "'s \<Rightarrow> nat \<Rightarrow> bool res"
    and put :: "nat \<Rightarrow> 's \<Rightarrow> 's res"
    and rem :: "nat \<Rightarrow> 's \<Rightarrow> 's res"
  assumes bits_below: "inv s \<Longrightarrow> bits s \<subseteq> {..<cap s}"
    and get_in: "inv s \<Longrightarrow> i < cap s \<Longrightarrow> get s i = Inr (i \<in> bits s)"
    and put_in: "inv s \<Longrightarrow> i < cap s \<Longrightarrow>
      \<exists>s'. put i s = Inr s' \<and> inv s' \<and> cap s' = cap s \<and> bits s' = insert i (bits s)"
    and rem_in: "inv s \<Longrightarrow> i < cap s \<Longrightarrow>
      \<exists>s'. rem i s = Inr s' \<and> inv s' \<and> cap s' = cap s \<and> bits s' = bits s - {i}"
    and out_of_range: "cap s \<le> i \<Longrightarrow>
      get s i = Inl Assert_failed \<and> put i s = Inl Assert_failed \<and> rem i s = Inl Assert_failed"
begin

lemma put_each:
  assumes "inv s" "\<forall>i\<in>set is. i < cap s"
  shows "\<exists>s'. each_res put is s = Inr s' \<and> inv s' \<and> cap s' = cap s \<and> bits s' = bits s \<union> set is"
  using assms
proof (induction "is" arbitrary: s)
  case (Cons i "is")
  obtain s1 where s1: "put i s = Inr s1" "inv s1" "cap s1 = cap s" "bits s1 = insert i (bits s)"
    using put_in[of s i] Cons.prems by auto
  show ?case using Cons.IH[OF s1(2)] s1 Cons.prems by auto
qed simp

text \<open>Whatever the order in which bits are set, for instance by several threads, the same set results.\<close>

lemma put_order:
  assumes "inv s" "\<forall>i\<in>set is. i < cap s" "set js = set is"
  shows "\<exists>s1 s2. each_res put is s = Inr s1 \<and> each_res put js s = Inr s2 \<and> bits s1 = bits s2"
  using put_each[OF assms(1,2)] put_each[of s js] assms by auto

end

interpretation bm: bit_set bm_wf max_num_bits bm_bits bm_get bm_set bm_reset
proof
  show "bm_bits bm \<subseteq> {..<max_num_bits bm}" if "bm_wf bm" for bm
    using that by (simp add: bm_wf_def)
  show "max_num_bits bm \<le> i \<Longrightarrow> bm_get bm i = Inl Assert_failed \<and> bm_set i bm = Inl Assert_failed
      \<and> bm_reset i bm = Inl Assert_failed" for bm i
    by (simp add: bm_get_def bm_set_def bm_reset_def)
qed (simp_all add: bm_get_ok bm_set_ok bm_reset_ok)

interpretation tsb: bit_set tsb_wf ts_max_num_bits "\<lambda>s. bits_of (ts_ptr s)" tsb_get tsb_set tsb_clear
proof
  fix bm :: ts_bitmap and i
  show "bits_of (ts_ptr bm) \<subseteq> {..<ts_max_num_bits bm}" if "tsb_wf bm"
    using that by (simp add: tsb_wf_def)
  show "ts_max_num_bits bm \<le> i \<Longrightarrow> tsb_get bm i = Inl Assert_failed \<and> tsb_set i bm = Inl Assert_failed
      \<and> tsb_clear i bm = Inl Assert_failed"
    by (simp add: tsb_get_def tsb_set_def tsb_clear_def)
  assume wf: "tsb_wf bm" and i: "i < ts_max_num_bits bm"
  have len: "length (ts_ptr bm) = (ts_max_num_bits bm + 63) div 64"
    using wf by (simp add: tsb_wf_def num_longs_eq)
  have lt: "i < 64 * length (ts_ptr bm)" using i num_longs_cover[of "ts_max_num_bits bm"] len by simp
  show "tsb_get bm i = Inr (i \<in> bits_of (ts_ptr bm))"
    using i by (simp add: tsb_get_def bm_test_bits[OF len])
  show "\<exists>s'. tsb_set i bm = Inr s' \<and> tsb_wf s' \<and> ts_max_num_bits s' = ts_max_num_bits bm
      \<and> bits_of (ts_ptr s') = insert i (bits_of (ts_ptr bm))"
    using wf i bits_of_set[OF lt] by (simp add: tsb_set_def tsb_wf_def NUM_BITS_LONG_def Let_def)
  show "\<exists>s'. tsb_clear i bm = Inr s' \<and> tsb_wf s' \<and> ts_max_num_bits s' = ts_max_num_bits bm
      \<and> bits_of (ts_ptr s') = bits_of (ts_ptr bm) - {i}"
    using wf i bits_of_reset[OF lt] by (auto simp: tsb_clear_def tsb_wf_def NUM_BITS_LONG_def Let_def)
qed

section \<open>Listing and fetching\<close>

lemma filter_test_range:
  assumes "length p = (n + 63) div 64" "bits_of p \<subseteq> {..<n}" "b \<le> length p"
  shows "filter (bm_test p) [64 * a..<64 * b] = sorted_list_of_set (bits_of p \<inter> {64 * a..<64 * b})"
proof -
  have eq: "set (filter (bm_test p) [64 * a..<64 * b]) = bits_of p \<inter> {64 * a..<64 * b}"
    using assms(3) by (auto simp: bits_of_def NUM_BITS_LONG_def)
  have "sorted (filter (bm_test p) [64 * a..<64 * b])" "distinct (filter (bm_test p) [64 * a..<64 * b])"
    by (simp_all add: sorted_wrt_filter)
  then show ?thesis
    by (simp only: eq[symmetric] sorted_list_of_set_sort_remdups distinct_remdups_id sorted_sort_id)
qed

lemma bits_within: "bm_wf bm \<Longrightarrow> bm_bits bm \<inter> {64 * a..<64 * bm_get_num_longs bm} = bm_bits bm - {..<64 * a}"
  using num_longs_cover[of "max_num_bits bm"] by (auto simp: bm_wf_def bm_longs)

lemma bm_get_set_bits_ok:
  assumes "bm_wf bm"
  shows "bm_get_set_bits bm [] = Inr (sorted_list_of_set (bm_bits bm))"
proof -
  have "scan_longs (bm_ptr bm) [0..<bm_get_num_longs bm] [] = sorted_list_of_set (bm_bits bm)"
    using assms bits_within[OF assms, of 0] filter_test_range[of "bm_ptr bm" "max_num_bits bm" "bm_get_num_longs bm" 0]
    by (simp add: scan_longs_eq bm_wf_def bm_longs)
  then show ?thesis
    using assms by (simp add: bm_get_set_bits_def bm_wf_def)
qed

lemma bm_range_end_mult: "bm_range_end bm (64 * b) = 64 * b"
proof -
  have "(64 * b + 63) div 64 * 64 = 64 * b" by simp
  then have "ROUNDUP (64 * b) 64 = 64 * b" using ROUNDUP_eq[of "64 * b" 6] by simp
  then show ?thesis by (simp only: bm_range_end_def NUM_BITS_LONG_def if_cancel)
qed

text \<open>Fetching a range of words takes its bits out of the map, in increasing order.\<close>

lemma bm_get_reset_range_ok:
  assumes "bm_wf bm" "a \<le> bm_get_num_longs bm"
  shows "\<exists>bm'. bm_get_reset_set_bits_range bm (64 * a) (64 * b) v
      = Inr (bm', v @ sorted_list_of_set (bm_bits bm \<inter> {64 * a..<64 * b}))
    \<and> bm_wf bm' \<and> max_num_bits bm' = max_num_bits bm \<and> bm_bits bm' = bm_bits bm - {64 * a..<64 * b}"
proof -
  define e where "e = min b (bm_get_num_longs bm)"
  have e: "(if bm_get_num_longs bm < b then bm_get_num_longs bm else b) = e" by (simp add: e_def)
  have cut: "bm_bits bm \<inter> {64 * a..<64 * b} = bm_bits bm \<inter> {64 * a..<64 * e}"
  proof -
    have "x < 64 * bm_get_num_longs bm" if "x \<in> bm_bits bm" for x
      using assms(1) that num_longs_cover[of "max_num_bits bm"] by (auto simp: bm_wf_def bm_longs)
    then show ?thesis by (auto simp: e_def min_def) (meson less_le_trans less_imp_le mult_le_mono2 not_le)
  qed
  show ?thesis
  proof (cases "a \<le> e")
    case True
    have len: "length (bm_ptr bm) = (max_num_bits bm + 63) div 64" "e \<le> length (bm_ptr bm)"
      "bm_bits bm \<subseteq> {..<max_num_bits bm}"
      using assms(1) by (auto simp: bm_wf_def bm_longs e_def)
    let ?T = "bm_bits bm \<inter> {64 * a..<64 * e}"
    have scan: "scan_reset_longs [a..<e] (bm_ptr bm, v) = (zero_longs (bm_ptr bm) a e, v @ sorted_list_of_set ?T)"
      using scan_reset_longs_eq[OF True len(2)] filter_test_range[OF len(1,3,2)] by simp
    have card: "int (card (bm_bits bm)) - int (card ?T) = int (card (bm_bits bm - ?T))"
      using card_Diff_subset[of ?T "bm_bits bm"] card_mono[of "bm_bits bm" ?T] by simp
    have rest: "bm_bits bm - {64 * a..<64 * b} = bm_bits bm - ?T" "bm_bits bm - {64 * a..<64 * e} = bm_bits bm - ?T"
      using cut by auto
    have "card ?T \<le> card (bm_bits bm)" by (rule card_mono) auto
    then have "bm_get_reset_set_bits_range bm (64 * a) (64 * b) v
        = Inr (bm\<lparr>bm_ptr := zero_longs (bm_ptr bm) a e, num_set_bits := int (card (bm_bits bm - ?T))\<rparr>,
               v @ sorted_list_of_set ?T)"
      using assms(1) scan card
      by (simp add: bm_get_reset_set_bits_range_def NUM_BITS_LONG_def bm_range_end_mult e bm_wf_def Let_def
          cong: if_cong split del: if_split)
    then show ?thesis
      using assms(1) bits_of_zero_longs[of "bm_ptr bm" a e] cut rest by (auto simp: bm_wf_def bm_get_num_longs_def)
  next
    case False
    then have none: "bm_bits bm \<inter> {64 * a..<64 * b} = {}" and "[a..<e] = []" using cut by auto
    then have "bm_get_reset_set_bits_range bm (64 * a) (64 * b) v = Inr (bm, v)"
      using assms(1)
      by (simp add: bm_get_reset_set_bits_range_def NUM_BITS_LONG_def bm_range_end_mult e bm_wf_def Let_def
          del: upt_eq_Nil_conv cong: if_cong split del: if_split)
    then show ?thesis
      using assms(1) none by (auto simp: Diff_triv)
  qed
qed

section \<open>Setting all bits\<close>

text \<open>
  \<^verbatim>\<open>set_all\<close> fills all words but the last one, takes the number of their bits as the count and then
  sets the remaining bits one by one; each of those that was already set is not counted.
\<close>

lemma bm_set_count:
  assumes "length (bm_ptr bm) = bm_get_num_longs bm" "\<forall>i\<in>set is. i < max_num_bits bm" "distinct is"
  shows "\<exists>bm'. each_res bm_set is bm = Inr bm' \<and> length (bm_ptr bm') = bm_get_num_longs bm
    \<and> max_num_bits bm' = max_num_bits bm \<and> bm_bits bm' = bm_bits bm \<union> set is
    \<and> num_set_bits bm' = num_set_bits bm + int (card (set is - bm_bits bm))"
  using assms
proof (induction "is" arbitrary: bm)
  case (Cons i "is")
  obtain bm1 where bm1: "bm_set i bm = Inr bm1" "length (bm_ptr bm1) = bm_get_num_longs bm1"
    "max_num_bits bm1 = max_num_bits bm" "bm_bits bm1 = insert i (bm_bits bm)"
    "num_set_bits bm1 = num_set_bits bm + (if i \<in> bm_bits bm then 0 else 1)"
    using bm_set_step[of bm i] Cons.prems by auto
  have "set (i # is) - bm_bits bm = (if i \<in> bm_bits bm then {} else {i}) \<union> (set is - bm_bits bm1)"
    using Cons.prems bm1(4) by auto
  moreover have "set is - bm_bits bm = set is - bm_bits bm1" if "i \<in> bm_bits bm"
    using that bm1(4) by auto
  ultimately have card: "card (set (i # is) - bm_bits bm) = (if i \<in> bm_bits bm then 0 else 1) + card (set is - bm_bits bm1)"
    using Cons.prems bm1(4) by simp
  obtain bm2 where bm2: "each_res bm_set is bm1 = Inr bm2" "length (bm_ptr bm2) = bm_get_num_longs bm1"
    "max_num_bits bm2 = max_num_bits bm1" "bm_bits bm2 = bm_bits bm1 \<union> set is"
    "num_set_bits bm2 = num_set_bits bm1 + int (card (set is - bm_bits bm1))"
    using Cons.IH[OF bm1(2)] Cons.prems bm1(3) by auto
  show ?case
  proof (intro exI conjI)
    show "each_res bm_set (i # is) bm = Inr bm2" using bm1(1) bm2(1) by simp
    show "length (bm_ptr bm2) = bm_get_num_longs bm" using bm2(2) bm1(3) by (simp add: bm_get_num_longs_def)
    show "max_num_bits bm2 = max_num_bits bm" using bm2(3) bm1(3) by simp
    show "bm_bits bm2 = bm_bits bm \<union> set (i # is)" using bm2(4) bm1(4) by simp
    show "num_set_bits bm2 = num_set_bits bm + int (card (set (i # is) - bm_bits bm))"
      unfolding bm2(5) bm1(5) card by simp
  qed
qed simp

lemma bm_set_all_count:
  assumes "bm_wf bm"
  defines "full \<equiv> bm_get_num_longs bm - 1"
  shows "\<exists>bm'. bm_set_all bm = Inr bm' \<and> max_num_bits bm' = max_num_bits bm \<and> bm_bits bm' = {..<max_num_bits bm}
    \<and> length (bm_ptr bm') = bm_get_num_longs bm
    \<and> num_set_bits bm' = int (max_num_bits bm) - int (card (bm_bits bm \<inter> {64 * full..}))"
proof (cases "max_num_bits bm = 0")
  case True
  then show ?thesis using assms(1) by (auto simp: bm_set_all_def bm_wf_def)
next
  case False
  let ?p = "replicate full (- 1) @ drop full (bm_ptr bm)"
  let ?bm1 = "bm\<lparr>bm_ptr := ?p, num_set_bits := int (64 * full)\<rparr>"
  have wf: "length (bm_ptr bm) = bm_get_num_longs bm" "bm_bits bm \<subseteq> {..<max_num_bits bm}"
    using assms(1) by (simp_all add: bm_wf_def)
  have pos: "0 < bm_get_num_longs bm" using False by (simp add: bm_longs)
  have full: "64 * full < max_num_bits bm" "length ?p = bm_get_num_longs bm"
    using num_longs_pred[of "max_num_bits bm"] False wf(1) pos by (simp_all add: full_def bm_longs)
  have bits: "bits_of ?p = {..<64 * full} \<union> (bm_bits bm \<inter> {64 * full..})"
  proof (rule set_eqI)
    fix i
    have "i div 64 < full \<longleftrightarrow> i < 64 * full" by (simp add: div_less_iff_less_mult mult.commute)
    moreover have "i div 64 < length (bm_ptr bm)" if "i < 64 * length (bm_ptr bm)"
      using that by (simp add: less_mult_imp_div_less mult.commute)
    ultimately show "i \<in> bits_of ?p \<longleftrightarrow> i \<in> {..<64 * full} \<union> (bm_bits bm \<inter> {64 * full..})"
      using full(2) wf(1) pos
      by (auto simp: bits_of_iff nth_append not_less full_def)
  qed
  let ?tail = "{64 * full..<max_num_bits bm}"
  have "card (?tail - bits_of ?p) = card ?tail - card (bm_bits bm \<inter> {64 * full..})"
  proof -
    have "?tail - bits_of ?p = ?tail - (bm_bits bm \<inter> {64 * full..})" using bits by auto
    moreover have "bm_bits bm \<inter> {64 * full..} \<subseteq> ?tail" using wf(2) by auto
    ultimately show ?thesis using card_Diff_subset[of "bm_bits bm \<inter> {64 * full..}" ?tail] by simp
  qed
  moreover have "card (bm_bits bm \<inter> {64 * full..}) \<le> card ?tail"
    using wf(2) by (intro card_mono) auto
  ultimately have card: "int (64 * full) + int (card (?tail - bits_of ?p))
      = int (max_num_bits bm) - int (card (bm_bits bm \<inter> {64 * full..}))"
    using full(1) by simp
  have run: "bm_set_all bm = each_res bm_set [64 * full..<max_num_bits bm] ?bm1"
    using False by (simp add: bm_set_all_def NUM_BITS_LONG_def full_def Let_def)
  have longs: "bm_get_num_longs ?bm1 = bm_get_num_longs bm" by (simp add: bm_get_num_longs_def)
  obtain bm' where bm': "each_res bm_set [64 * full..<max_num_bits bm] ?bm1 = Inr bm'"
    "length (bm_ptr bm') = bm_get_num_longs ?bm1" "max_num_bits bm' = max_num_bits bm"
    "bm_bits bm' = bits_of ?p \<union> ?tail" "num_set_bits bm' = int (64 * full) + int (card (?tail - bits_of ?p))"
    using bm_set_count[of ?bm1 "[64 * full..<max_num_bits bm]"] full(2) longs by auto
  have "bits_of ?p \<union> ?tail = {..<max_num_bits bm}" using bits wf(2) full(1) by auto
  then show ?thesis
    using run bm' card longs by (simp only: ex_simps) blast
qed

end
