(* ===== verification/Bitmap_Props.thy ===== *)
theory Bitmap_Props
  imports Bitmap_Laws
begin

text \<open>
  The properties of the bitmaps: runs of operations against runs on a set of indexes, concurrent setting of bits in the
  thread-safe bitmap, and the miscount of \<^verbatim>\<open>set_all\<close>.
\<close>

section \<open>Runs\<close>

datatype bm_cmd = BSet nat | BReset nat | BClear

fun bm_apply :: "bm_cmd \<Rightarrow> bitmap \<Rightarrow> bitmap res" where
  "bm_apply (BSet i) bm = bm_set i bm"
| "bm_apply (BReset i) bm = bm_reset i bm"
| "bm_apply BClear bm = Inr (bm_clear bm)"

fun cmd_below :: "nat \<Rightarrow> bm_cmd \<Rightarrow> bool" where
  "cmd_below n (BSet i) = (i < n)"
| "cmd_below n (BReset i) = (i < n)"
| "cmd_below n BClear = True"

fun set_apply :: "bm_cmd \<Rightarrow> nat set \<Rightarrow> nat set" where
  "set_apply (BSet i) A = insert i A"
| "set_apply (BReset i) A = A - {i}"
| "set_apply BClear A = {}"

lemma bm_apply_ok:
  assumes "bm_wf bm" "cmd_below (max_num_bits bm) c"
  shows "\<exists>bm'. bm_apply c bm = Inr bm' \<and> bm_wf bm' \<and> max_num_bits bm' = max_num_bits bm
    \<and> bm_bits bm' = set_apply c (bm_bits bm)"
  using assms bm.put_in[of bm] bm.rem_in[of bm] bm_clear_wf[of bm] by (cases c) auto

lemma bm_run_ok:
  assumes "bm_wf bm" "list_all (cmd_below (max_num_bits bm)) cs"
  shows "\<exists>bm'. each_res bm_apply cs bm = Inr bm' \<and> bm_wf bm' \<and> max_num_bits bm' = max_num_bits bm
    \<and> bm_bits bm' = fold set_apply cs (bm_bits bm)"
  using assms
proof (induction cs arbitrary: bm)
  case (Cons c cs)
  obtain bm1 where "bm_apply c bm = Inr bm1" "bm_wf bm1" "max_num_bits bm1 = max_num_bits bm"
    "bm_bits bm1 = set_apply c (bm_bits bm)"
    using bm_apply_ok[of bm c] Cons.prems by auto
  then show ?case using Cons.IH[of bm1] Cons.prems by auto
qed simp



text \<open>
  Setting all bits gives every bit but the right count only if no bit of the last word was set before: each of
  those is missing from the count, and then collecting the bits fails its assertion.
\<close>

theorem set_all_miscounts:
  assumes "bm_wf bm"
  defines "stale \<equiv> card {i \<in> bm_bits bm. NUM_BITS_LONG * (bm_get_num_longs bm - 1) \<le> i}"
  shows "\<exists>bm'. bm_set_all bm = Inr bm' \<and> (\<forall>i<max_num_bits bm. bm_get bm' i = Inr True)
    \<and> num_set_bits bm' = int (max_num_bits bm) - int stale
    \<and> bm_get_set_bits bm' [] = (if stale = 0 then Inr [0..<max_num_bits bm] else Inl Assert_failed)"
proof -
  let ?n = "max_num_bits bm"
  have stale: "stale = card (bm_bits bm \<inter> {64 * (bm_get_num_longs bm - 1)..})"
    by (simp add: stale_def NUM_BITS_LONG_def Int_def)
  obtain bm' where bm': "bm_set_all bm = Inr bm'" "max_num_bits bm' = ?n" "bm_bits bm' = {..<?n}"
    "length (bm_ptr bm') = bm_get_num_longs bm" "num_set_bits bm' = int ?n - int stale"
    using bm_set_all_count[OF assms(1)] unfolding stale by blast
  have longs: "bm_get_num_longs bm' = bm_get_num_longs bm" using bm'(2) by (simp add: bm_get_num_longs_def)
  have len: "length (bm_ptr bm') = (?n + 63) div 64" using bm'(4) by (simp add: bm_longs)
  have "bm_get bm' i = Inr True" if "i < ?n" for i
    using that bm_test_bits[OF len that] bm'(2,3) by (simp add: bm_get_def)
  moreover have "scan_longs (bm_ptr bm') [0..<bm_get_num_longs bm'] [] = [0..<?n]"
  proof -
    let ?L = "length (bm_ptr bm')"
    have bits: "bm_bits bm' \<inter> {64 * 0..<64 * ?L} = {0..<?n}"
      unfolding bm'(3) len using num_longs_cover[of ?n] by auto
    have "scan_longs (bm_ptr bm') [0..<?L] [] = filter (bm_test (bm_ptr bm')) [64 * 0..<64 * ?L]"
      using scan_longs_eq[of 0 ?L "bm_ptr bm'" "[]"] by (simp only: append_Nil le0 simp_thms)
    also have "\<dots> = sorted_list_of_set {0..<?n}"
      using filter_test_range[OF len _ order_refl, of 0] bits bm'(3) by (simp only: order_refl)
    finally show ?thesis by (simp only: sorted_list_of_set_range bm'(4) longs)
  qed
  ultimately show ?thesis
    using bm'(1,5) by (auto simp: bm_get_set_bits_def Let_def)
qed

theorem set_all_miscounts_witness:
  "\<exists>bm'. bm_set_all (bm_clear (new_bitmap 70)) = Inr bm' \<and> (\<forall>i<max_num_bits (bm_clear (new_bitmap 70)). bm_get bm' i = Inr True)"
  using set_all_miscounts[OF bm_clear_wf(1)[OF new_bitmap_wf(1)[of 70]]] by blast

text \<open>
  Threads that set bits of a thread-safe bitmap: whatever the interleaving of their atomic operations, none is lost and
  no other bit changes.
\<close>

theorem thread_safe_sets_commute:
  assumes "length mem = ROUNDUP n NUM_BITS_LONG div NUM_BITS_LONG" "run \<in> shuffles xs ys" "\<forall>i\<in>set xs \<union> set ys. i < n"
  shows "\<exists>bm. each_res tsb_set run (new_ts_bitmap n mem) = Inr bm
    \<and> (\<forall>i<n. tsb_get bm i = Inr (i \<in> set xs \<union> set ys))"
proof -
  have wf: "tsb_wf (new_ts_bitmap n mem)" "bits_of (ts_ptr (new_ts_bitmap n mem)) = {}"
    "ts_max_num_bits (new_ts_bitmap n mem) = n"
    using new_ts_bitmap_wf[OF assms(1)] by (simp_all add: new_ts_bitmap_def tsb_clear_all_def Let_def)
  have run: "set run = set xs \<union> set ys" using assms(2) by (rule set_shuffles)
  obtain bm where "each_res tsb_set run (new_ts_bitmap n mem) = Inr bm" "tsb_wf bm" "ts_max_num_bits bm = n"
    "bits_of (ts_ptr bm) = set run"
    using tsb.put_each[OF wf(1), of run] wf(2,3) assms(3) run by auto
  then show ?thesis using tsb.get_in[of bm] run by auto
qed

theorem thread_safe_sets_commute_witness:
  "\<exists>bm. each_res tsb_set [1, 65, 2, 66] (new_ts_bitmap 100 [7, 7]) = Inr bm
     \<and> (\<forall>i<100. tsb_get bm i = Inr (i \<in> set [1, 2] \<union> set [65, 66]))"
proof (rule thread_safe_sets_commute)
  show "length [7, 7 :: 64 word] = ROUNDUP 100 NUM_BITS_LONG div NUM_BITS_LONG" by (simp add: num_longs_eq)
  show "[1, 65, 2, 66] \<in> shuffles [1, 2 :: nat] [65, 66]" by (simp add: shuffles.simps)
  show "\<forall>i\<in>set [1, 2] \<union> set [65, 66]. i < (100 :: nat)" by simp
qed

end
