(* ===== verification/Active_Set.thy ===== *)
theory Active_Set
  imports Bitmap_Laws
begin

text \<open>
  The vertices a worker thread activates for the next iteration (\<^verbatim>\<open>active_vertex_set\<close> in
  \<^verbatim>\<open>flash-graph/worker_thread.h\<close> and \<^verbatim>\<open>worker_thread.cpp\<close>): a vector for few vertices, a bitmap for many, and a
  \<^verbatim>\<open>scan_pointer\<close> (\<^verbatim>\<open>scan_pointer.h\<close>) that walks over the words of the bitmap in either direction.
  A local vertex id is a number; \<^verbatim>\<open>size_t\<close> differences wrap around at 64 bits, the number of active
  vertices (\<^verbatim>\<open>vsize_t\<close>) at 32 bits. The loop that fetches from the bitmap may run forever, so it is a partial
  function: \<open>None\<close> means that it does not return.
\<close>

section \<open>Scan pointers\<close>

definition size_sub :: "nat \<Rightarrow> nat \<Rightarrow> nat" where
  "size_sub a b = nat ((int a - int b) mod 2 ^ 64)"

record scan_pointer =
  sp_range_start :: nat
  sp_size :: nat
  sp_idx :: nat
  sp_forward :: bool

definition new_scan_pointer :: "nat \<Rightarrow> bool \<Rightarrow> scan_pointer" where
  "new_scan_pointer n fwd = \<lparr>sp_range_start = 0, sp_size = n, sp_idx = (if fwd then 0 else n + 0), sp_forward = fwd\<rparr>"

definition sp_get_num_remaining :: "scan_pointer \<Rightarrow> nat" where
  "sp_get_num_remaining sp =
     (if sp_forward sp then size_sub (sp_size sp + sp_range_start sp) (sp_idx sp)
      else size_sub (sp_idx sp) (sp_range_start sp))"

definition sp_move :: "nat \<Rightarrow> scan_pointer \<Rightarrow> scan_pointer" where
  "sp_move dist sp =
     (if sp_forward sp then sp\<lparr>sp_idx := min ((sp_idx sp + dist) mod 2 ^ 64) (sp_size sp)\<rparr>
      else if sp_idx sp \<ge> dist then sp\<lparr>sp_idx := sp_idx sp - dist\<rparr>
      else sp\<lparr>sp_idx := 0\<rparr>)"

definition sp_get_range_end :: "scan_pointer \<Rightarrow> nat" where
  "sp_get_range_end sp = sp_range_start sp + sp_size sp"

definition sp_set_scan_dir :: "bool \<Rightarrow> scan_pointer \<Rightarrow> scan_pointer" where
  "sp_set_scan_dir fwd sp =
     (if sp_forward sp = fwd then sp
      else if fwd then
        (let new_start = sp_range_start sp; new_size = size_sub (sp_idx sp) (sp_range_start sp)
         in \<lparr>sp_range_start = new_start, sp_size = new_size, sp_idx = new_start, sp_forward = fwd\<rparr>)
      else
        (let new_start = sp_idx sp; new_size = size_sub (sp_get_range_end sp) (sp_idx sp)
         in \<lparr>sp_range_start = new_start, sp_size = new_size, sp_idx = new_start + new_size, sp_forward = fwd\<rparr>))"

section \<open>Active vertex sets\<close>

definition MAX_ACTIVE_V :: nat where
  "MAX_ACTIVE_V = 1024"

record active_vertex_set =
  active_map :: bitmap
  bitmap_fetch_idx :: scan_pointer
  active_v :: "nat list"

definition new_active_vertex_set :: "nat \<Rightarrow> active_vertex_set" where
  "new_active_vertex_set num_vertices =
     \<lparr>active_map = new_bitmap num_vertices, bitmap_fetch_idx = new_scan_pointer 0 True, active_v = []\<rparr>"

definition bm_get_num_set_bits :: "bitmap \<Rightarrow> nat" where
  "bm_get_num_set_bits bm = nat (num_set_bits bm mod 2 ^ 64)"

definition as_set_bitmap :: "nat list \<Rightarrow> active_vertex_set \<Rightarrow> active_vertex_set res" where
  "as_set_bitmap ids s = bind_res (each_res bm_set ids (active_map s)) (\<lambda>bm. Inr (s\<lparr>active_map := bm\<rparr>))"

definition activate_all :: "active_vertex_set \<Rightarrow> active_vertex_set res" where
  "activate_all s = bind_res (bm_set_all (active_map s)) (\<lambda>bm. Inr (s\<lparr>active_map := bm\<rparr>))"

definition force_bitmap :: "active_vertex_set \<Rightarrow> active_vertex_set res" where
  "force_bitmap s = bind_res (as_set_bitmap (active_v s) s) (\<lambda>s. Inr (s\<lparr>active_v := []\<rparr>))"

definition activate_vertex :: "nat \<Rightarrow> active_vertex_set \<Rightarrow> active_vertex_set res" where
  "activate_vertex i s =
     (if bm_get_num_set_bits (active_map s) > 0 then as_set_bitmap [i] s
      else if length (active_v s) < MAX_ACTIVE_V then Inr (s\<lparr>active_v := active_v s @ [i]\<rparr>)
      else bind_res (as_set_bitmap [i] s) (\<lambda>s.
           bind_res (as_set_bitmap (active_v s) s) (\<lambda>s. Inr (s\<lparr>active_v := []\<rparr>))))"

definition activate_vertices :: "nat list \<Rightarrow> active_vertex_set \<Rightarrow> active_vertex_set res" where
  "activate_vertices ids s =
     (if bm_get_num_set_bits (active_map s) > 0 then as_set_bitmap ids s
      else if length (active_v s) + length ids < MAX_ACTIVE_V then Inr (s\<lparr>active_v := active_v s @ ids\<rparr>)
      else bind_res (as_set_bitmap ids s) (\<lambda>s.
           bind_res (as_set_bitmap (active_v s) s) (\<lambda>s. Inr (s\<lparr>active_v := []\<rparr>))))"

definition get_num_active_vertices :: "active_vertex_set \<Rightarrow> nat" where
  "get_num_active_vertices s =
     (if active_v s = [] then bm_get_num_set_bits (active_map s) else length (active_v s)) mod 2 ^ 32"

definition as_finalize :: "active_vertex_set \<Rightarrow> active_vertex_set res" where
  "as_finalize s =
     (if active_v s \<noteq> [] then
        (let sorted_v = sort (active_v s); unique_v = remdups_adj sorted_v
         in assert_then (length unique_v \<le> length sorted_v) (Inr (s\<lparr>active_v := unique_v\<rparr>)))
      else Inr s)"

definition reset_active_vertex :: "nat \<Rightarrow> active_vertex_set \<Rightarrow> active_vertex_set res" where
  "reset_active_vertex i s = assert_then (active_v s = [])
     (bind_res (bm_reset i (active_map s)) (\<lambda>bm. Inr (s\<lparr>active_map := bm\<rparr>)))"

definition is_active :: "active_vertex_set \<Rightarrow> nat \<Rightarrow> bool res" where
  "is_active s i = assert_then (active_v s = []) (bm_get (active_map s) i)"

definition as_clear :: "active_vertex_set \<Rightarrow> active_vertex_set" where
  "as_clear s = s\<lparr>active_v := [], active_map := bm_clear (active_map s), bitmap_fetch_idx := new_scan_pointer 0 True\<rparr>"

definition set_dir :: "bool \<Rightarrow> active_vertex_set \<Rightarrow> active_vertex_set" where
  "set_dir fwd s = s\<lparr>bitmap_fetch_idx := new_scan_pointer (bm_get_num_longs (active_map s)) fwd\<rparr>"

text \<open>One round of the loop in \<^verbatim>\<open>fetch_reset_active_vertices\<close>, and the loop.\<close>

definition fetch_round :: "nat \<Rightarrow> active_vertex_set \<Rightarrow> nat list \<Rightarrow> (active_vertex_set \<times> nat list) res" where
  "fetch_round max_num s ids =
     (let curr_loc = sp_idx (bitmap_fetch_idx s);
          sp = sp_move (max_num div NUM_BITS_LONG) (bitmap_fetch_idx s);
          new_loc = sp_idx sp
      in bind_res (bm_get_reset_set_bits_range (active_map s) (min curr_loc new_loc * NUM_BITS_LONG)
                     (max curr_loc new_loc * NUM_BITS_LONG) ids)
           (\<lambda>(bm, ids'). Inr (s\<lparr>active_map := bm, bitmap_fetch_idx := sp\<rparr>, ids')))"

partial_function (option) fetch_loop ::
  "nat \<Rightarrow> active_vertex_set \<Rightarrow> nat list \<Rightarrow> (active_vertex_set \<times> nat list) res option" where
  "fetch_loop max_num s ids =
     (if length ids < max_num \<and> sp_get_num_remaining (bitmap_fetch_idx s) > 0
      then case fetch_round max_num s ids of
             Inl e \<Rightarrow> Some (Inl e)
           | Inr r \<Rightarrow> fetch_loop max_num (fst r) (snd r)
      else Some (Inr (s, ids)))"

definition fetch_reset_active_vertices ::
  "nat \<Rightarrow> active_vertex_set \<Rightarrow> nat list \<Rightarrow> (active_vertex_set \<times> nat list) res option" where
  "fetch_reset_active_vertices max_num s local_ids =
     (if active_v s \<noteq> [] then
        (let num = min max_num (length (active_v s))
         in Some (Inr (s\<lparr>active_v := drop num (active_v s)\<rparr>, local_ids @ take num (active_v s))))
      else fetch_loop max_num s [])"

definition fetch_reset_all :: "active_vertex_set \<Rightarrow> nat list \<Rightarrow> (active_vertex_set \<times> nat list) res option" where
  "fetch_reset_all s local_ids = fetch_reset_active_vertices (get_num_active_vertices s) s local_ids"

section \<open>The invariant\<close>

text \<open>The words a scan pointer has not visited yet.\<close>

definition sp_lo :: "scan_pointer \<Rightarrow> nat" where
  "sp_lo sp = (if sp_forward sp then sp_idx sp else 0)"

definition sp_hi :: "scan_pointer \<Rightarrow> nat" where
  "sp_hi sp = (if sp_forward sp then sp_size sp else sp_idx sp)"

definition sp_wf :: "scan_pointer \<Rightarrow> bool" where
  "sp_wf sp \<longleftrightarrow> sp_range_start sp = 0 \<and> sp_idx sp \<le> sp_size sp \<and> sp_size sp < 2 ^ 32"

definition as_active :: "active_vertex_set \<Rightarrow> nat set" where
  "as_active s = set (active_v s) \<union> bm_bits (active_map s)"

abbreviation as_cap :: "active_vertex_set \<Rightarrow> nat" where
  "as_cap s \<equiv> max_num_bits (active_map s)"

definition as_wf :: "active_vertex_set \<Rightarrow> bool" where
  "as_wf s \<longleftrightarrow> bm_wf (active_map s) \<and> as_cap s < 2 ^ 32 \<and> set (active_v s) \<subseteq> {..<as_cap s}
     \<and> (active_v s = [] \<or> bm_bits (active_map s) = {}) \<and> length (active_v s) \<le> MAX_ACTIVE_V
     \<and> sp_wf (bitmap_fetch_idx s) \<and> sp_size (bitmap_fetch_idx s) \<le> bm_get_num_longs (active_map s)"

text \<open>All set bits lie in the words the scan pointer has still to visit.\<close>

definition as_ready :: "active_vertex_set \<Rightarrow> bool" where
  "as_ready s \<longleftrightarrow> as_wf s \<and> distinct (active_v s)
     \<and> bm_bits (active_map s) \<subseteq> {64 * sp_lo (bitmap_fetch_idx s)..<64 * sp_hi (bitmap_fetch_idx s)}"

lemma size_sub_eq: "b \<le> a \<Longrightarrow> a < 2 ^ 64 \<Longrightarrow> size_sub a b = a - b"
  by (simp add: size_sub_def of_nat_diff[symmetric] nat_mod_distrib del: of_nat_diff)

lemma sp_remaining: "sp_wf sp \<Longrightarrow> sp_get_num_remaining sp = sp_hi sp - sp_lo sp"
  by (auto simp: sp_get_num_remaining_def sp_wf_def sp_hi_def sp_lo_def size_sub_eq)

lemma sp_move_wf:
  assumes "sp_wf sp" "d < 2 ^ 32"
  shows "sp_wf (sp_move d sp)" "sp_size (sp_move d sp) = sp_size sp" "sp_forward (sp_move d sp) = sp_forward sp"
  using assms by (auto simp: sp_move_def sp_wf_def)

section \<open>Fetching\<close>

text \<open>The words visited by one move, and what is left to visit.\<close>

lemma sp_move_visits:
  assumes "sp_wf sp" "d < 2 ^ 32" "0 < d" "0 < sp_get_num_remaining sp"
  defines "lo \<equiv> min (sp_idx sp) (sp_idx (sp_move d sp))" and "hi \<equiv> max (sp_idx sp) (sp_idx (sp_move d sp))"
  shows "lo < hi" "hi \<le> sp_size sp"
    "{64 * sp_lo (sp_move d sp)..<64 * sp_hi (sp_move d sp)} = {64 * sp_lo sp..<64 * sp_hi sp} - {64 * lo..<64 * hi}"
    "sp_get_num_remaining (sp_move d sp) < sp_get_num_remaining sp"
proof -
  have rem: "sp_get_num_remaining sp = sp_hi sp - sp_lo sp"
    "sp_get_num_remaining (sp_move d sp) = sp_hi (sp_move d sp) - sp_lo (sp_move d sp)"
    using sp_remaining sp_move_wf(1)[OF assms(1,2)] assms(1) by auto
  have nowrap: "(sp_idx sp + d) mod 2 ^ 64 = sp_idx sp + d"
    using assms(1,2) by (simp add: sp_wf_def)
  show "lo < hi" "hi \<le> sp_size sp"
    "{64 * sp_lo (sp_move d sp)..<64 * sp_hi (sp_move d sp)} = {64 * sp_lo sp..<64 * sp_hi sp} - {64 * lo..<64 * hi}"
    "sp_get_num_remaining (sp_move d sp) < sp_get_num_remaining sp"
    using assms(1,3,4) rem nowrap
    by (auto simp: lo_def hi_def sp_lo_def sp_hi_def sp_move_def sp_wf_def min_def max_def)
qed

lemma fetch_round_ok:
  assumes ready: "as_ready s" and "active_v s = []" and d: "64 \<le> max_num" "max_num < 2 ^ 38"
    and rem: "0 < sp_get_num_remaining (bitmap_fetch_idx s)"
  shows "\<exists>s' new. fetch_round max_num s ids = Inr (s', ids @ new) \<and> as_ready s' \<and> active_v s' = []
    \<and> as_cap s' = as_cap s \<and> distinct new \<and> set new \<subseteq> bm_bits (active_map s)
    \<and> bm_bits (active_map s') = bm_bits (active_map s) - set new
    \<and> sp_get_num_remaining (bitmap_fetch_idx s') < sp_get_num_remaining (bitmap_fetch_idx s)"
proof -
  let ?sp = "bitmap_fetch_idx s" let ?m = "active_map s"
  define sp' where "sp' = sp_move (max_num div 64) ?sp"
  define lo where "lo = min (sp_idx ?sp) (sp_idx sp')"
  define hi where "hi = max (sp_idx ?sp) (sp_idx sp')"
  have wf: "as_wf s" "sp_wf ?sp" "bm_wf ?m" "sp_size ?sp \<le> bm_get_num_longs ?m"
    "bm_bits ?m \<subseteq> {64 * sp_lo ?sp..<64 * sp_hi ?sp}"
    using ready by (simp_all add: as_ready_def as_wf_def)
  have step: "max_num div 64 < 2 ^ 32" "0 < max_num div 64"
    using d by (simp_all add: div_less_iff_less_mult div_greater_zero_iff)
  note visit = sp_move_visits[OF wf(2) step rem, folded sp'_def, folded lo_def hi_def]
  have sp': "sp_wf sp'" "sp_size sp' = sp_size ?sp"
    using sp_move_wf[OF wf(2) step(1)] by (simp_all add: sp'_def)
  have "lo \<le> bm_get_num_longs ?m" using visit(1,2) wf(4) by simp
  then obtain bm' where bm': "bm_get_reset_set_bits_range ?m (64 * lo) (64 * hi) ids
      = Inr (bm', ids @ sorted_list_of_set (bm_bits ?m \<inter> {64 * lo..<64 * hi}))"
    "bm_wf bm'" "max_num_bits bm' = max_num_bits ?m" "bm_bits bm' = bm_bits ?m - {64 * lo..<64 * hi}"
    using bm_get_reset_range_ok[OF wf(3)] by blast
  let ?s' = "s\<lparr>active_map := bm', bitmap_fetch_idx := sp'\<rparr>"
  let ?new = "sorted_list_of_set (bm_bits ?m \<inter> {64 * lo..<64 * hi})"
  have "fetch_round max_num s ids = Inr (?s', ids @ ?new)"
    using bm'(1)
    by (simp add: fetch_round_def NUM_BITS_LONG_def Let_def sp'_def[symmetric] lo_def hi_def mult.commute)
  moreover have "bm_get_num_longs bm' = bm_get_num_longs ?m" using bm'(3) by (simp add: bm_get_num_longs_def)
  then have "as_wf ?s'" using wf(1,4) sp' bm' by (auto simp: as_wf_def)
  then have "as_ready ?s'" using ready bm'(4) visit(3) wf(5) by (auto simp: as_ready_def)
  moreover have "distinct ?new" "set ?new \<subseteq> bm_bits ?m" "bm_bits (active_map ?s') = bm_bits ?m - set ?new"
    using bm'(4) by auto
  ultimately show ?thesis
    using visit(4) assms(2) bm'(3) by (intro exI[of _ ?s'] exI[of _ ?new]) simp
qed

lemma fetch_loop_ok:
  assumes "as_ready s" "active_v s = []" "64 \<le> max_num" "max_num < 2 ^ 38"
  shows "\<exists>s' new. fetch_loop max_num s ids = Some (Inr (s', ids @ new)) \<and> as_ready s' \<and> active_v s' = []
    \<and> as_cap s' = as_cap s \<and> distinct new \<and> set new \<subseteq> bm_bits (active_map s)
    \<and> bm_bits (active_map s') = bm_bits (active_map s) - set new
    \<and> (max_num \<le> length (ids @ new) \<or> bm_bits (active_map s') = {})"
  using assms
proof (induction "sp_get_num_remaining (bitmap_fetch_idx s)" arbitrary: s ids rule: less_induct)
  case less
  show ?case
  proof (cases "length ids < max_num \<and> 0 < sp_get_num_remaining (bitmap_fetch_idx s)")
    case True
    obtain s1 new1 where s1: "fetch_round max_num s ids = Inr (s1, ids @ new1)" "as_ready s1" "active_v s1 = []"
      "as_cap s1 = as_cap s" "distinct new1" "set new1 \<subseteq> bm_bits (active_map s)"
      "bm_bits (active_map s1) = bm_bits (active_map s) - set new1"
      "sp_get_num_remaining (bitmap_fetch_idx s1) < sp_get_num_remaining (bitmap_fetch_idx s)"
      using fetch_round_ok[OF less.prems] True by blast
    obtain s2 new2 where s2: "fetch_loop max_num s1 (ids @ new1) = Some (Inr (s2, (ids @ new1) @ new2))"
      "as_ready s2" "active_v s2 = []" "as_cap s2 = as_cap s1" "distinct new2" "set new2 \<subseteq> bm_bits (active_map s1)"
      "bm_bits (active_map s2) = bm_bits (active_map s1) - set new2"
      "max_num \<le> length ((ids @ new1) @ new2) \<or> bm_bits (active_map s2) = {}"
      using less.hyps[OF s1(8,2,3) less.prems(3,4)] by blast
    have "fetch_loop max_num s ids = Some (Inr (s2, ids @ (new1 @ new2)))"
      using True s1(1) s2(1) by (simp add: fetch_loop.simps[of max_num s ids])
    then show ?thesis
      using s1 s2 by (intro exI[of _ s2] exI[of _ "new1 @ new2"]) auto
  next
    case False
    moreover have "bm_bits (active_map s) = {}" if "sp_get_num_remaining (bitmap_fetch_idx s) = 0"
      using less.prems(1) that sp_remaining[of "bitmap_fetch_idx s"] by (auto simp: as_ready_def as_wf_def)
    ultimately show ?thesis
      using less.prems
      by (intro exI[of _ s] exI[of _ "[]"]) (auto simp: fetch_loop.simps[of max_num s ids])
  qed
qed

text \<open>With a budget below one word the loop never moves the scan pointer and so never returns.\<close>

lemma fetch_loop_stuck:
  assumes "as_ready s" "active_v s = []" "0 < max_num" "max_num < 64"
    "0 < sp_get_num_remaining (bitmap_fetch_idx s)"
  shows "fetch_loop max_num s [] = None"
proof (rule ccontr)
  assume "fetch_loop max_num s [] \<noteq> None"
  then obtain r where r: "fetch_loop max_num s [] = Some r" by blast
  let ?sp = "bitmap_fetch_idx s" let ?a = "sp_idx (bitmap_fetch_idx s)"
  have wf: "bm_wf (active_map s)" "sp_wf ?sp" "?a \<le> bm_get_num_longs (active_map s)"
    using assms(1) by (auto simp: as_ready_def as_wf_def sp_wf_def)
  have "sp_move 0 ?sp = ?sp" using wf(2) by (auto simp: sp_move_def sp_wf_def)
  moreover have "bm_get_reset_set_bits_range (active_map s) (64 * ?a) (64 * ?a) [] = Inr (active_map s, [])"
  proof -
    have "min ?a (bm_get_num_longs (active_map s)) = ?a" using wf(3) by simp
    then show ?thesis
      using wf(1,3) by (simp add: bm_get_reset_set_bits_range_def NUM_BITS_LONG_def bm_range_end_mult Let_def bm_wf_def)
  qed
  ultimately have round: "fetch_round max_num s [] = Inr (s, [])"
    using assms(4) by (simp add: fetch_round_def NUM_BITS_LONG_def Let_def mult.commute)
  have "x = max_num \<and> t = s \<and> v = [] \<longrightarrow> False" if "fetch_loop x t v = Some y" for x t v y
    by (rule fetch_loop.raw_induct[OF _ that, of "\<lambda>x t v y. x = max_num \<and> t = s \<and> v = [] \<longrightarrow> False"])
       (use round assms(3,5) in fastforce)
  then show False using r by blast
qed

section \<open>Activating\<close>

lemma num_set_bits_card:
  assumes "as_wf s"
  shows "bm_get_num_set_bits (active_map s) = card (bm_bits (active_map s))"
    "card (bm_bits (active_map s)) < 2 ^ 32"
proof -
  have "card (bm_bits (active_map s)) \<le> as_cap s"
    using assms card_mono[of "{..<as_cap s}" "bm_bits (active_map s)"] by (simp add: as_wf_def bm_wf_def)
  then show "card (bm_bits (active_map s)) < 2 ^ 32" using assms by (simp add: as_wf_def)
  then show "bm_get_num_set_bits (active_map s) = card (bm_bits (active_map s))"
    using assms by (simp add: bm_get_num_set_bits_def as_wf_def bm_wf_def nat_mod_distrib)
qed

lemma as_set_bitmap_ok:
  assumes "as_wf s" "\<forall>i\<in>set ids. i < as_cap s"
  shows "\<exists>bm. as_set_bitmap ids s = Inr (s\<lparr>active_map := bm\<rparr>) \<and> bm_wf bm \<and> max_num_bits bm = as_cap s
    \<and> bm_bits bm = bm_bits (active_map s) \<union> set ids \<and> bm_get_num_longs bm = bm_get_num_longs (active_map s)"
  using bm.put_each[of "active_map s" ids] assms by (auto simp: as_set_bitmap_def as_wf_def bm_get_num_longs_def)

text \<open>Both ways to put vertices into the bitmap: directly, or together with those of the vector.\<close>

lemma as_to_bitmap:
  assumes "as_wf s" "\<forall>i\<in>set ids. i < as_cap s"
  shows "\<exists>s'. bind_res (as_set_bitmap ids s) (\<lambda>s. bind_res (as_set_bitmap (active_v s) s) (\<lambda>s. Inr (s\<lparr>active_v := []\<rparr>)))
      = Inr s' \<and> as_wf s' \<and> as_active s' = as_active s \<union> set ids \<and> as_cap s' = as_cap s \<and> active_v s' = []"
proof -
  obtain bm where bm: "as_set_bitmap ids s = Inr (s\<lparr>active_map := bm\<rparr>)" "bm_wf bm" "max_num_bits bm = as_cap s"
    "bm_bits bm = bm_bits (active_map s) \<union> set ids" "bm_get_num_longs bm = bm_get_num_longs (active_map s)"
    using as_set_bitmap_ok[OF assms] by blast
  have "\<forall>i\<in>set (active_v s). i < max_num_bits bm" using assms(1) bm(3) by (auto simp: as_wf_def)
  then obtain bm2 where bm2: "each_res bm_set (active_v s) bm = Inr bm2" "bm_wf bm2" "max_num_bits bm2 = max_num_bits bm"
    "bm_bits bm2 = bm_bits bm \<union> set (active_v s)"
    using bm.put_each[OF bm(2), of "active_v s"] by blast
  have "bm_get_num_longs bm2 = bm_get_num_longs (active_map s)" using bm2(3) bm(3) by (simp add: bm_get_num_longs_def)
  then show ?thesis
    using assms(1) bm bm2 by (auto simp: as_set_bitmap_def as_wf_def as_active_def)
qed

lemma as_add_bitmap:
  assumes "as_wf s" "\<forall>i\<in>set ids. i < as_cap s" "bm_get_num_set_bits (active_map s) > 0"
  shows "\<exists>s'. as_set_bitmap ids s = Inr s' \<and> as_wf s' \<and> as_active s' = as_active s \<union> set ids \<and> as_cap s' = as_cap s"
proof -
  have "active_v s = []" using assms(1,3) num_set_bits_card[OF assms(1)] by (auto simp: as_wf_def)
  then show ?thesis using as_set_bitmap_ok[OF assms(1,2)] assms(1) by (auto simp: as_wf_def as_active_def)
qed

lemma activate_vertices_ok:
  assumes "as_wf s" "\<forall>i\<in>set ids. i < as_cap s"
  shows "\<exists>s'. activate_vertices ids s = Inr s' \<and> as_wf s' \<and> as_active s' = as_active s \<union> set ids \<and> as_cap s' = as_cap s"
proof (cases "bm_get_num_set_bits (active_map s) > 0")
  case True
  then show ?thesis using as_add_bitmap[OF assms True] by (simp add: activate_vertices_def)
next
  case False
  then have empty: "bm_bits (active_map s) = {}" using num_set_bits_card(1)[OF assms(1)] by simp
  show ?thesis
    using False as_to_bitmap[OF assms] assms empty
    by (auto simp: activate_vertices_def as_wf_def as_active_def)
qed

lemma activate_vertex_ok:
  assumes "as_wf s" "i < as_cap s"
  shows "\<exists>s'. activate_vertex i s = Inr s' \<and> as_wf s' \<and> as_active s' = insert i (as_active s) \<and> as_cap s' = as_cap s"
proof (cases "bm_get_num_set_bits (active_map s) > 0")
  case True
  then show ?thesis using as_add_bitmap[OF assms(1) _ True, of "[i]"] assms(2) by (simp add: activate_vertex_def)
next
  case False
  then have empty: "bm_bits (active_map s) = {}" using num_set_bits_card(1)[OF assms(1)] by simp
  show ?thesis
    using False as_to_bitmap[OF assms(1), of "[i]"] assms empty
    by (auto simp: activate_vertex_def as_wf_def as_active_def)
qed

lemma force_bitmap_ok:
  assumes "as_wf s"
  shows "\<exists>s'. force_bitmap s = Inr s' \<and> as_wf s' \<and> as_active s' = as_active s \<and> as_cap s' = as_cap s \<and> active_v s' = []"
proof -
  have "as_set_bitmap [] s = Inr s" by (simp add: as_set_bitmap_def)
  then show ?thesis using as_to_bitmap[OF assms, of "[]"] by (simp add: force_bitmap_def)
qed

lemma sorted_remdups_adj: "sorted xs \<Longrightarrow> distinct (remdups_adj xs)"
  by (induction xs rule: remdups_adj.induct) auto

lemma as_finalize_ok:
  assumes "as_wf s"
  shows "\<exists>s'. as_finalize s = Inr s' \<and> as_wf s' \<and> as_active s' = as_active s \<and> as_cap s' = as_cap s
    \<and> distinct (active_v s') \<and> sorted (active_v s') \<and> active_map s' = active_map s \<and> bitmap_fetch_idx s' = bitmap_fetch_idx s"
proof -
  have "length (remdups_adj (sort (active_v s))) \<le> length (active_v s)"
    using remdups_adj_length[of "sort (active_v s)"] by simp
  then show ?thesis
    using assms sorted_remdups_adj[of "sort (active_v s)"]
    by (auto simp: as_finalize_def Let_def as_wf_def as_active_def intro: sorted_remdups_adj)
qed

lemma as_clear_ok: "as_wf s \<Longrightarrow> as_wf (as_clear s) \<and> as_active (as_clear s) = {} \<and> as_cap (as_clear s) = as_cap s"
  using bm_clear_wf[of "active_map s"]
  by (auto simp: as_clear_def as_wf_def as_active_def sp_wf_def new_scan_pointer_def)

lemma new_active_vertex_set_ok:
  "n < 2 ^ 32 \<Longrightarrow> as_wf (new_active_vertex_set n) \<and> as_active (new_active_vertex_set n) = {}
    \<and> as_cap (new_active_vertex_set n) = n"
  using new_bitmap_wf[of n]
  by (auto simp: new_active_vertex_set_def as_wf_def as_active_def sp_wf_def new_scan_pointer_def)

text \<open>After the direction has been set, everything that is active can be fetched.\<close>

lemma set_dir_ready:
  assumes "as_wf s" "distinct (active_v s)"
  shows "as_ready (set_dir fwd s)" "as_active (set_dir fwd s) = as_active s" "as_cap (set_dir fwd s) = as_cap s"
proof -
  have "bm_get_num_longs (active_map s) < 2 ^ 32"
  proof -
    have "(as_cap s + 63) div 64 < 2 ^ 32"
      using assms(1) by (simp add: as_wf_def div_less_iff_less_mult)
    then show ?thesis by (simp add: bm_longs)
  qed
  moreover have "bm_bits (active_map s) \<subseteq> {..<64 * bm_get_num_longs (active_map s)}"
    using assms(1) num_longs_cover[of "as_cap s"] by (auto simp: as_wf_def bm_wf_def bm_longs)
  ultimately show "as_ready (set_dir fwd s)" "as_active (set_dir fwd s) = as_active s" "as_cap (set_dir fwd s) = as_cap s"
    using assms
    by (auto simp: as_ready_def as_wf_def set_dir_def new_scan_pointer_def sp_wf_def sp_lo_def sp_hi_def as_active_def
        lessThan_atLeast0)
qed

text \<open>A fetch delivers active vertices, each once, and something as long as there is something.\<close>

lemma fetch_reset_ok:
  assumes "as_ready s" "64 \<le> max_num" "max_num < 2 ^ 38"
  shows "\<exists>s' new. fetch_reset_active_vertices max_num s [] = Some (Inr (s', new)) \<and> as_ready s' \<and> as_cap s' = as_cap s
    \<and> distinct new \<and> set new \<subseteq> as_active s \<and> as_active s' = as_active s - set new
    \<and> (as_active s \<noteq> {} \<longrightarrow> new \<noteq> [])"
proof (cases "active_v s = []")
  case True
  then show ?thesis
    using fetch_loop_ok[OF assms(1) True assms(2,3), of "[]"] assms(2)
    by (auto simp: fetch_reset_active_vertices_def as_active_def)
next
  case False
  define n where "n = min max_num (length (active_v s))"
  have v: "distinct (active_v s)" "bm_bits (active_map s) = {}"
    using assms(1) False by (auto simp: as_ready_def as_wf_def)
  have split: "set (active_v s) = set (take n (active_v s)) \<union> set (drop n (active_v s))"
    "set (take n (active_v s)) \<inter> set (drop n (active_v s)) = {}"
    using set_take_disj_set_drop_if_distinct[OF v(1), of n n]
    by (simp_all flip: set_append)
  have "as_ready (s\<lparr>active_v := drop n (active_v s)\<rparr>)"
    using assms(1) v by (auto simp: as_ready_def as_wf_def dest: in_set_dropD)
  moreover have "0 < n" using False assms(2) by (simp add: n_def)
  ultimately show ?thesis
    using False v split
    by (auto simp: fetch_reset_active_vertices_def Let_def n_def[symmetric] as_active_def)
qed

end
