(* ===== verification/Partitioner.thy ===== *)
theory Partitioner
  imports Prelude
begin

text \<open>
  The partitioners of the graph engine (\<^verbatim>\<open>flash-graph/partitioner.h\<close>, \<^verbatim>\<open>partitioner.cpp\<close>): they assign every vertex to a
  partition and to an offset in it. A vertex id is a 32-bit word. \<^verbatim>\<open>size_t\<close> values that may become negative
  are 64-bit words; the mixed calls of \<^verbatim>\<open>min\<close> and \<^verbatim>\<open>max\<close> in the source resolve to the functions on
  \<^verbatim>\<open>long\<close> in \<^verbatim>\<open>common_c.h\<close>, so they read these words as signed numbers. Partition ids and offsets are natural
  numbers. The loop that lists a partition may run forever when vertex ids wrap around, so it is a partial
  function.
\<close>

type_synonym vertex_id = "32 word"

fun log2_int :: "nat \<Rightarrow> nat" where
  "log2_int n = (if n \<le> 1 then 0 else Suc (log2_int (n div 2)))"

declare log2_int.simps [simp del]

section \<open>Modulo partitioning\<close>

record modulo_partitioner =
  mp_num_parts_log :: nat
  mp_mask :: vertex_id

definition new_modulo_partitioner :: "nat \<Rightarrow> modulo_partitioner res" where
  "new_modulo_partitioner num_parts =
     (if num_parts = 0 then Inl Undefined_behaviour
      else let l = log2_int num_parts
           in assert_then (push_bit l 1 = num_parts)
                (Inr \<lparr>mp_num_parts_log = l, mp_mask = push_bit l 1 - 1\<rparr>))"

definition mp_get_num_partitions :: "modulo_partitioner \<Rightarrow> nat" where
  "mp_get_num_partitions p = push_bit (mp_num_parts_log p) 1"

definition mp_map :: "modulo_partitioner \<Rightarrow> vertex_id \<Rightarrow> nat" where
  "mp_map p i = unat (i AND mp_mask p)"

definition mp_map2loc :: "modulo_partitioner \<Rightarrow> vertex_id \<Rightarrow> nat \<times> nat" where
  "mp_map2loc p i = (unat (i AND mp_mask p), unat (drop_bit (mp_num_parts_log p) i))"

definition mp_loc2map :: "modulo_partitioner \<Rightarrow> nat \<Rightarrow> nat \<Rightarrow> vertex_id" where
  "mp_loc2map p part_id off = of_nat (push_bit (mp_num_parts_log p) off + part_id)"

function mp_list_loop :: "nat \<Rightarrow> nat \<Rightarrow> nat \<Rightarrow> vertex_id list \<Rightarrow> vertex_id list" where
  "mp_list_loop l tot i ids =
     (if i < tot then mp_list_loop l tot (i + push_bit l 1) (ids @ [of_nat i]) else ids)"
  by auto
termination
  by (relation "measure (\<lambda>(l, tot, i, ids). tot - i)") (auto simp: push_bit_of_1 intro!: diff_less_mono2)

declare mp_list_loop.simps [simp del]

definition mp_get_all_vertices_in_part :: "modulo_partitioner \<Rightarrow> nat \<Rightarrow> nat \<Rightarrow> vertex_id list \<Rightarrow> vertex_id list" where
  "mp_get_all_vertices_in_part p part_id tot_num_vertices ids =
     mp_list_loop (mp_num_parts_log p) tot_num_vertices part_id ids"

definition mp_get_part_size :: "modulo_partitioner \<Rightarrow> nat \<Rightarrow> nat \<Rightarrow> nat" where
  "mp_get_part_size p part_id num_vertices =
     (let num_parts = push_bit (mp_num_parts_log p) 1
      in unat ((of_nat num_vertices - of_nat part_id + of_nat num_parts - 1) :: 64 word) div num_parts)"

section \<open>Range partitioning\<close>

record range_partitioner =
  RANGE_SIZE_LOG :: nat
  RANGE_SIZE :: nat
  RANGE_MASK :: "64 word"
  rp_num_parts_log :: nat
  rp_mask :: vertex_id

definition new_range_partitioner :: "nat \<Rightarrow> nat \<Rightarrow> range_partitioner res" where
  "new_range_partitioner part_range_size_log num_parts =
     (if num_parts = 0 then Inl Undefined_behaviour
      else let l = log2_int num_parts
           in assert_then (push_bit l 1 = num_parts)
                (Inr \<lparr>RANGE_SIZE_LOG = part_range_size_log, RANGE_SIZE = push_bit part_range_size_log 1,
                      RANGE_MASK = push_bit part_range_size_log 1 - 1, rp_num_parts_log = l,
                      rp_mask = push_bit l 1 - 1\<rparr>))"

definition rp_get_num_partitions :: "range_partitioner \<Rightarrow> nat" where
  "rp_get_num_partitions p = push_bit (rp_num_parts_log p) 1"

definition rp_map :: "range_partitioner \<Rightarrow> vertex_id \<Rightarrow> nat" where
  "rp_map p i = unat (drop_bit (RANGE_SIZE_LOG p) i AND rp_mask p)"

definition rp_map2loc :: "range_partitioner \<Rightarrow> vertex_id \<Rightarrow> nat \<times> nat" where
  "rp_map2loc p i =
     (let shifted_id = drop_bit (RANGE_SIZE_LOG p) i
      in (unat (shifted_id AND rp_mask p),
          unat (ucast (push_bit (RANGE_SIZE_LOG p) (drop_bit (rp_num_parts_log p) shifted_id))
                + (ucast i AND RANGE_MASK p))))"

definition rp_loc2map :: "range_partitioner \<Rightarrow> nat \<Rightarrow> nat \<Rightarrow> vertex_id" where
  "rp_loc2map p part_id off =
     (let local_range_id = drop_bit (RANGE_SIZE_LOG p) off;
          in_range_off = unat (of_nat off AND RANGE_MASK p)
      in of_nat (push_bit (rp_num_parts_log p + RANGE_SIZE_LOG p) local_range_id
                 + push_bit (RANGE_SIZE_LOG p) part_id + in_range_off))"

definition rp_stripe_log :: "range_partitioner \<Rightarrow> nat" where
  "rp_stripe_log p = RANGE_SIZE_LOG p + rp_num_parts_log p"

definition rp_get_part_end :: "range_partitioner \<Rightarrow> nat \<Rightarrow> nat \<Rightarrow> vertex_id res" where
  "rp_get_part_end p part_id tot_num_vertices =
     (let num_ranges = drop_bit (rp_stripe_log p) tot_num_vertices in
      assert_then (push_bit (rp_stripe_log p) num_ranges \<le> tot_num_vertices)
      (assert_then (tot_num_vertices < push_bit (rp_stripe_log p) (num_ranges + 1))
       (let num = (of_nat tot_num_vertices - of_nat (push_bit (rp_stripe_log p) num_ranges)) :: 64 word;
            num = fold (\<lambda>_ num. num - of_nat (RANGE_SIZE p)) [0..<part_id] num;
            vid_end = of_nat (part_id * RANGE_SIZE p + push_bit (rp_stripe_log p) num_ranges)
        in if num > 0 then Inr (vid_end + word_of_int (min (sint num) (int (RANGE_SIZE p)))) else Inr vid_end)))"

partial_function (option) rp_list_loop ::
  "range_partitioner \<Rightarrow> vertex_id \<Rightarrow> vertex_id \<Rightarrow> vertex_id list \<Rightarrow> vertex_id list option" where
  "rp_list_loop p vid_end vid_start ids =
     (if vid_start < vid_end
      then (let size = min (int (RANGE_SIZE p)) (uint (vid_end - vid_start))
            in rp_list_loop p vid_end (vid_start + of_nat (push_bit (rp_stripe_log p) 1))
                 (ids @ map (\<lambda>i. vid_start + of_nat i) [0..<nat size]))
      else Some ids)"

definition rp_get_all_vertices_in_part ::
  "range_partitioner \<Rightarrow> nat \<Rightarrow> nat \<Rightarrow> vertex_id list \<Rightarrow> vertex_id list res option" where
  "rp_get_all_vertices_in_part p part_id tot_num_vertices ids =
     (case rp_get_part_end p part_id tot_num_vertices of
        Inl e \<Rightarrow> Some (Inl e)
      | Inr vid_end \<Rightarrow> map_option Inr (rp_list_loop p vid_end (of_nat (part_id * RANGE_SIZE p)) ids))"

definition rp_get_part_size :: "range_partitioner \<Rightarrow> nat \<Rightarrow> nat \<Rightarrow> nat res" where
  "rp_get_part_size p part_id num_vertices =
     bind_res (rp_get_part_end p part_id num_vertices) (\<lambda>vid_end.
       let num_local_ranges = drop_bit (rp_stripe_log p) (unat vid_end);
           last = ucast vid_end - of_nat (push_bit (rp_stripe_log p) num_local_ranges)
                  - of_nat (push_bit (RANGE_SIZE_LOG p) part_id) :: 64 word;
           last = word_of_int (max 0 (sint last)) :: 64 word
       in Inr (unat (of_nat (push_bit (RANGE_SIZE_LOG p) num_local_ranges) + last)))"

section \<open>Distributing lists of vertices\<close>

text \<open>
  The variants of \<^verbatim>\<open>map2loc\<close> for arrays and edge iterators; an iterator is the list of ids it
  delivers. \<open>m2l\<close> is the routine for one vertex. A partition without a vector in \<^verbatim>\<open>locs\<close> is an access outside the array.
  The variant with a bound stops recording at the bound.
\<close>

fun push_locs :: "('v \<Rightarrow> nat \<times> nat) \<Rightarrow> 'v list \<Rightarrow> nat list list \<Rightarrow> nat list list res" where
  "push_locs m2l [] locs = Inr locs"
| "push_locs m2l (i # ids) locs =
     (let (part_id, off) = m2l i
      in if part_id < length locs then push_locs m2l ids (locs[part_id := locs ! part_id @ [off]])
         else Inl Undefined_behaviour)"

definition mp_map2loc_list ::
  "modulo_partitioner \<Rightarrow> vertex_id list \<Rightarrow> nat list list \<Rightarrow> nat list list res" where
  "mp_map2loc_list p ids locs = assert_then (length locs \<le> mp_get_num_partitions p) (push_locs (mp_map2loc p) ids locs)"

definition rp_map2loc_list ::
  "range_partitioner \<Rightarrow> vertex_id list \<Rightarrow> nat list list \<Rightarrow> nat list list res" where
  "rp_map2loc_list p ids locs = assert_then (length locs \<le> rp_get_num_partitions p) (push_locs (rp_map2loc p) ids locs)"

fun record_locs :: "('v \<Rightarrow> nat \<times> nat) \<Rightarrow> 'v list \<Rightarrow> nat \<Rightarrow> (nat \<times> nat) list \<Rightarrow> (nat \<times> nat) list" where
  "record_locs m2l [] num locs = locs"
| "record_locs m2l (i # ids) num locs =
     (if length locs = num then record_locs m2l ids num locs
      else record_locs m2l ids num (locs @ [m2l i]))"

definition mp_map2loc_bounded :: "modulo_partitioner \<Rightarrow> vertex_id list \<Rightarrow> nat \<Rightarrow> (nat \<times> nat) list" where
  "mp_map2loc_bounded p ids num = record_locs (mp_map2loc p) ids num []"

definition rp_map2loc_bounded :: "range_partitioner \<Rightarrow> vertex_id list \<Rightarrow> nat \<Rightarrow> (nat \<times> nat) list" where
  "rp_map2loc_bounded p ids num = record_locs (rp_map2loc p) ids num []"

end
