(* ===== verification/Partitioner_Laws.thy ===== *)
theory Partitioner_Laws
  imports Partitioner
begin

text \<open>
  The arithmetic of the partitioners. \<open>in_part\<close> says which vertices belong to a partition, \<open>part_count\<close> how many
  of the first ones do. The words of the source are related to these numbers as long as the number of
  vertices leaves room for one more stripe of ranges below \<open>2 ^ 32\<close>, which is also what keeps the listing loop
  from wrapping around.
\<close>

section \<open>Words and numbers\<close>

lemma unat_and_low: "unat (w AND (push_bit n 1 - 1) :: 'a :: len word) = unat w mod 2 ^ n"
proof -
  have "w AND (push_bit n 1 - 1) = take_bit n w"
    by (simp add: push_bit_of_1 mask_eq_exp_minus_1[symmetric] take_bit_eq_mask)
  moreover have "unat (take_bit n w) = take_bit n (unat w)" by (rule unsigned_take_bit_eq)
  ultimately show ?thesis by (simp only: take_bit_eq_mod)
qed

lemma unat_drop: "unat (drop_bit n w :: 'a :: len word) = unat w div 2 ^ n"
  using unat_drop_bit_eq[of n w] by (simp only: drop_bit_eq_div)

lemma word_eq_of_nat: "w = of_nat (unat w)" for w :: "'a :: len word"
  by simp

lemma unat_of_nat_small: "x < 2 ^ LENGTH('a) \<Longrightarrow> unat (of_nat x :: 'a :: len word) = x"
  by (simp add: unat_of_nat take_bit_eq_mod)

lemma unat_of_nat_32: "x < 2 ^ 32 \<Longrightarrow> unat (of_nat x :: 32 word) = x"
  by (rule unat_of_nat_small) simp

lemma unat_ucast_64 [simp]: "unat (ucast (x :: 32 word) :: 64 word) = unat x"
  using unsigned_less[of x, where 'a = nat] by (simp add: unsigned_ucast_eq take_bit_eq_mod)

lemma sint_64: "- 9223372036854775808 \<le> x \<Longrightarrow> x < 9223372036854775808 \<Longrightarrow> sint (word_of_int x :: 64 word) = x"
  by (simp add: signed_of_int signed_take_bit_int_eq_self)

lemma min_signed:
  "c \<le> b \<Longrightarrow> min (int b - int c) (int R) = int (min (b - c) R)"
  "b < c \<Longrightarrow> min (int b - int c) (int R) = int b - int c"
  by (metis of_nat_diff of_nat_min) simp

section \<open>Counting a partition\<close>

text \<open>Ranges of \<open>R\<close> vertices are dealt out to \<open>P\<close> partitions in turn.\<close>

definition in_part :: "nat \<Rightarrow> nat \<Rightarrow> nat \<Rightarrow> nat \<Rightarrow> bool" where
  "in_part R P q i \<longleftrightarrow> i div R mod P = q"

definition part_off :: "nat \<Rightarrow> nat \<Rightarrow> nat \<Rightarrow> nat" where
  "part_off R P i = i div R div P * R + i mod R"

definition part_count :: "nat \<Rightarrow> nat \<Rightarrow> nat \<Rightarrow> nat \<Rightarrow> nat" where
  "part_count R P q n = n div (R * P) * R + min R (n mod (R * P) - q * R)"

lemma div_eq_iff_bounds: "0 < R \<Longrightarrow> b div R = q \<longleftrightarrow> q * R \<le> b \<and> b < q * R + (R :: nat)"
  by (metis add.commute div_nat_eqI div_times_less_eq_dividend dividend_less_div_times less_Suc_eq_le
      mult.commute mult_Suc)

lemma stripe_div:
  assumes "0 < R" "b < R * (P :: nat)"
  shows "(a * (R * P) + b) div R = a * P + b div R" "b div R < P"
proof -
  have eq: "a * (R * P) + b = b + R * (a * P)" by (simp add: ac_simps)
  show "(a * (R * P) + b) div R = a * P + b div R" unfolding eq using assms(1) by simp
  show "b div R < P" using assms by (simp add: div_less_iff_less_mult mult.commute)
qed

lemma in_part_iff:
  assumes "0 < R" "b < R * P"
  shows "in_part R P q (a * (R * P) + b) \<longleftrightarrow> q * R \<le> b \<and> b < q * R + R"
  using stripe_div[OF assms] div_eq_iff_bounds[OF assms(1), of b q] by (simp add: in_part_def)

lemma part_off_stripe:
  assumes "0 < R" "b < R * P"
  shows "part_off R P (a * (R * P) + b) = a * R + b mod R"
proof -
  have "(a * (R * P) + b) mod R = b mod R"
    by (metis mod_mult_self3 mult.assoc mult.commute)
  then show ?thesis using stripe_div(1)[OF assms, of a] stripe_div(2)[OF assms] by (simp add: part_off_def)
qed

text \<open>One more vertex: if it belongs to the partition, it gets the next offset.\<close>

lemma part_count_Suc:
  assumes "0 < R" "q < P"
  shows "part_count R P q (Suc n) = part_count R P q n + (if in_part R P q n then 1 else 0)"
    and "in_part R P q n \<Longrightarrow> part_off R P n = part_count R P q n"
proof -
  define a where "a = n div (R * P)"
  define b where "b = n mod (R * P)"
  have S: "0 < R * P" using assms by simp
  have n: "n = a * (R * P) + b" by (simp only: a_def b_def div_mult_mod_eq)
  have b: "b < R * P" using S by (simp add: b_def)
  have room: "q * R + R \<le> R * P"
    using assms(2) mult_le_mono2[of "Suc q" P R] by (simp add: mult.commute)
  have count: "part_count R P q n = a * R + min R (b - q * R)"
    by (simp add: part_count_def a_def b_def)
  have part: "in_part R P q n \<longleftrightarrow> q * R \<le> b \<and> b < q * R + R"
    using in_part_iff[OF assms(1) b] n by simp
  show "part_count R P q (Suc n) = part_count R P q n + (if in_part R P q n then 1 else 0)"
  proof (cases "Suc b = R * P")
    case True
    have "Suc n = Suc a * (R * P)" using n True by simp
    then have "Suc n div (R * P) = Suc a" "Suc n mod (R * P) = 0" using S by simp_all
    then have "part_count R P q (Suc n) = Suc a * R" by (simp add: part_count_def)
    then show ?thesis using count part True room by (auto simp: min_def)
  next
    case False
    then have "Suc b < R * P" "Suc n = a * (R * P) + Suc b" using b n by simp_all
    then have "Suc n div (R * P) = a" "Suc n mod (R * P) = Suc b"
      by (simp_all only: div_mult_self3 mod_mult_self3 div_less mod_less)
    then show ?thesis using count part by (auto simp: part_count_def min_def)
  qed
  show "part_off R P n = part_count R P q n" if "in_part R P q n"
  proof -
    have bd: "q * R \<le> b" "b < q * R + R" using that part by simp_all
    then have "b mod R = b - q * R"
      using div_eq_iff_bounds[OF assms(1), of b q] by (simp add: minus_div_mult_eq_mod[symmetric])
    then show ?thesis using part_off_stripe[OF assms(1) b, of a] n count bd by simp
  qed
qed

text \<open>So the vertices of a partition, in increasing order, have the offsets 0, 1, 2 and so on.\<close>

definition part_list :: "nat \<Rightarrow> nat \<Rightarrow> nat \<Rightarrow> nat \<Rightarrow> nat list" where
  "part_list R P q n = filter (in_part R P q) [0..<n]"

lemma part_list_offs:
  assumes "0 < R" "q < P"
  shows "map (part_off R P) (part_list R P q n) = [0..<part_count R P q n]"
proof (induction n)
  case (Suc n)
  then show ?case
    using part_count_Suc[OF assms, of n] by (simp add: part_list_def)
qed (simp add: part_list_def part_count_def)

lemma length_part_list: "0 < R \<Longrightarrow> q < P \<Longrightarrow> length (part_list R P q n) = part_count R P q n"
  using arg_cong[OF part_list_offs[of R q P n], of length] by simp

text \<open>A vertex is determined by its partition and offset.\<close>

lemma part_off_inverse:
  assumes "0 < R"
  shows "(part_off R P i div R * P + i div R mod P) * R + part_off R P i mod R = i"
proof -
  have "part_off R P i div R = i div R div P" "part_off R P i mod R = i mod R"
    using assms by (simp_all add: part_off_def)
  then show ?thesis by (simp add: div_mult_mod_eq)
qed

section \<open>The end of a partition\<close>

text \<open>The value \<^verbatim>\<open>get_part_end\<close> returns, as a number.\<close>

definition part_end :: "nat \<Rightarrow> nat \<Rightarrow> nat \<Rightarrow> nat \<Rightarrow> nat" where
  "part_end R P q n =
     (let a = n div (R * P); b = n mod (R * P)
      in if q * R \<le> b then q * R + a * (R * P) + min (b - q * R) R else n)"

lemma part_end_le: "part_end R P q n \<le> n"
proof -
  have "n div (R * P) * (R * P) + n mod (R * P) = n" by (rule div_mult_mod_eq)
  then show ?thesis unfolding part_end_def Let_def min_def by (split if_split) auto
qed

text \<open>Seen from the start of a range of the partition, the end is as good as the number of vertices.\<close>

lemma part_end_from_range:
  assumes "0 < R" "q < P" and v_def: "v = q * R + k * (R * P)"
  shows "v < part_end R P q n \<longleftrightarrow> v < n" "v < n \<Longrightarrow> min R (part_end R P q n - v) = min R (n - v)"
proof -
  define a where "a = n div (R * P)"
  define b where "b = n mod (R * P)"
  have S: "0 < R * P" using assms by simp
  have n: "n = a * (R * P) + b" by (simp only: a_def b_def div_mult_mod_eq)
  have b: "b < R * P" using S by (simp add: b_def)
  have room: "q * R + R \<le> R * P"
    using assms(2) mult_le_mono2[of "Suc q" P R] by (simp add: mult.commute)
  have e: "part_end R P q n = (if q * R \<le> b then q * R + a * (R * P) + min (b - q * R) R else n)"
    by (simp add: part_end_def a_def b_def Let_def)
  have "(v < part_end R P q n \<longleftrightarrow> v < n) \<and> (v < n \<longrightarrow> min R (part_end R P q n - v) = min R (n - v))"
  proof (cases k a rule: linorder_cases)
    case less
    then have "k * (R * P) + R * P \<le> a * (R * P)"
      using mult_le_mono1[of "Suc k" a "R * P"] by simp
    then show ?thesis using e n room S by (auto simp: v_def min_def)
  next
    case equal
    then show ?thesis using e n assms(1) by (auto simp: v_def min_def)
  next
    case greater
    then have "a * (R * P) + R * P \<le> k * (R * P)"
      using mult_le_mono1[of "Suc a" k "R * P"] by simp
    then show ?thesis using e n b room by (auto simp: v_def min_def)
  qed
  then show "v < part_end R P q n \<longleftrightarrow> v < n" "v < n \<Longrightarrow> min R (part_end R P q n - v) = min R (n - v)"
    by simp_all
qed

text \<open>The part of the list from the start of a range on: this range, then the rest.\<close>

lemma part_list_from_range:
  assumes "0 < R" "q < P" and v_def: "v = q * R + k * (R * P)" and less: "v < n"
  shows "filter (in_part R P q) [v..<n] = [v..<v + min R (n - v)] @ filter (in_part R P q) [v + R * P..<n]"
proof -
  have room: "q * R + R \<le> R * P"
    using assms(2) mult_le_mono2[of "Suc q" P R] by (simp add: mult.commute)
  have part: "in_part R P q (v + j) \<longleftrightarrow> j < R" if "j < R * P" for j
  proof (cases "q * R + j < R * P")
    case True
    then show ?thesis using in_part_iff[OF assms(1) True, of q k] by (simp add: v_def ac_simps)
  next
    case False
    have eq: "v + j = Suc k * (R * P) + (q * R + j - R * P)" using False by (simp add: v_def)
    have lt: "q * R + j - R * P < R * P" using that room assms(1) by linarith
    show ?thesis
      unfolding eq in_part_iff[OF assms(1) lt] using that room False assms(1) by linarith
  qed
  have in_block: "in_part R P q x" if "v \<le> x" "x < v + min R (n - v)" for x
    using part[of "x - v"] that room by simp
  have no_gap: "\<not> in_part R P q x" if "v + min R (n - v) \<le> x" "x < min n (v + R * P)" for x
    using part[of "x - v"] that less by (auto simp: min_def split: if_splits)
  have "[v..<n] = [v..<v + min R (n - v)] @ [v + min R (n - v)..<min n (v + R * P)] @ [v + R * P..<n]"
  proof -
    have le: "v + min R (n - v) \<le> min n (v + R * P)" using less room assms(2) by (auto simp: min_def)
    have "[v..<n] = [v..<min n (v + R * P)] @ [v + R * P..<n]"
      using less upt_add_eq_append[of v "v + R * P" "n - (v + R * P)"] by (auto simp: min_def)
    moreover have "[v..<min n (v + R * P)] = [v..<v + min R (n - v)] @ [v + min R (n - v)..<min n (v + R * P)]"
      using upt_add_eq_append[of v "v + min R (n - v)" "min n (v + R * P) - (v + min R (n - v))"] le by simp
    ultimately show ?thesis by simp
  qed
  moreover have "filter (in_part R P q) [v..<v + min R (n - v)] = [v..<v + min R (n - v)]"
    using in_block by (auto intro: filter_True)
  moreover have "filter (in_part R P q) [v + min R (n - v)..<min n (v + R * P)] = []"
    using no_gap by (auto intro: filter_False)
  ultimately show ?thesis by simp
qed

section \<open>The range partitioner\<close>

text \<open>
  \<open>rp_ok\<close> holds of a partitioner the constructor returns, when a stripe of ranges fits the \<^verbatim>\<open>int\<close>s of the source;
  \<open>rp_fits\<close> says that a stripe more than all vertices still fits in a vertex id.
\<close>

definition rp_ok :: "range_partitioner \<Rightarrow> bool" where
  "rp_ok p \<longleftrightarrow> RANGE_SIZE p = 2 ^ RANGE_SIZE_LOG p \<and> RANGE_MASK p = push_bit (RANGE_SIZE_LOG p) 1 - 1
     \<and> rp_mask p = push_bit (rp_num_parts_log p) 1 - 1 \<and> rp_stripe_log p < 31"

abbreviation rp_R :: "range_partitioner \<Rightarrow> nat" where
  "rp_R p \<equiv> 2 ^ RANGE_SIZE_LOG p"

abbreviation rp_P :: "range_partitioner \<Rightarrow> nat" where
  "rp_P p \<equiv> 2 ^ rp_num_parts_log p"

definition rp_fits :: "range_partitioner \<Rightarrow> nat \<Rightarrow> bool" where
  "rp_fits p n \<longleftrightarrow> n + 2 ^ rp_stripe_log p \<le> 2 ^ 32"

lemma rp_stripe: "2 ^ rp_stripe_log p = rp_R p * rp_P p"
  by (simp add: rp_stripe_log_def power_add)

lemma log2_int_power: "log2_int (2 ^ n) = n"
proof (induction n)
  case (Suc n)
  have "(2 :: nat) ^ Suc n div 2 = 2 ^ n" by simp
  moreover have "\<not> (2 :: nat) ^ Suc n \<le> 1" using one_less_power[of "2 :: nat" "Suc n"] by linarith
  ultimately show ?case using Suc by (simp only: log2_int.simps[of "2 ^ Suc n"]) simp
qed (simp add: log2_int.simps)

lemma new_range_partitioner_ok:
  assumes "r + n < 31"
  shows "\<exists>p. new_range_partitioner r (2 ^ n) = Inr p \<and> rp_ok p \<and> RANGE_SIZE_LOG p = r \<and> rp_num_parts_log p = n"
  using assms by (simp add: new_range_partitioner_def log2_int_power push_bit_of_1 rp_ok_def rp_stripe_log_def Let_def)

lemma new_range_partitioner_assert:
  assumes "0 < k" "\<nexists>n. k = 2 ^ n"
  shows "new_range_partitioner r k = Inl Assert_failed"
  using assms by (fastforce simp: new_range_partitioner_def push_bit_of_1 Let_def assert_then_def dest: sym)

lemma rp_map2loc_eq:
  assumes "rp_ok p"
  shows "rp_map2loc p i = (unat i div rp_R p mod rp_P p, part_off (rp_R p) (rp_P p) (unat i))"
    "rp_map p i = unat i div rp_R p mod rp_P p"
proof -
  let ?r = "RANGE_SIZE_LOG p" let ?n = "rp_num_parts_log p"
  let ?x = "push_bit ?r (drop_bit ?n (drop_bit ?r i))"
  have lt: "?r < 32" "?n < 32" using assms by (simp_all add: rp_ok_def rp_stripe_log_def)
  have i: "unat i < 2 ^ 32" using unsigned_less[of i] by simp
  have le: "unat i div 2 ^ ?r div 2 ^ ?n * 2 ^ ?r + unat i mod 2 ^ ?r \<le> unat i"
  proof -
    have "unat i div 2 ^ ?r div 2 ^ ?n * 2 ^ ?r \<le> unat i div 2 ^ ?r * 2 ^ ?r"
      by (intro mult_le_mono1 div_le_dividend)
    then show ?thesis using div_mult_mod_eq[of "unat i" "2 ^ ?r"] by linarith
  qed
  have "unat ?x = unat i div 2 ^ ?r div 2 ^ ?n * 2 ^ ?r"
  proof -
    have "drop_bit ?n (drop_bit ?r i) = of_nat (unat i div 2 ^ ?r div 2 ^ ?n)"
      using word_eq_of_nat[of "drop_bit ?n (drop_bit ?r i)"] by (simp only: unat_drop)
    then have eq: "push_bit ?r (drop_bit ?n (drop_bit ?r i)) = of_nat (unat i div 2 ^ ?r div 2 ^ ?n * 2 ^ ?r)"
      by (simp only: push_bit_eq_mult of_nat_mult of_nat_power of_nat_numeral)
    have "unat i div 2 ^ ?r div 2 ^ ?n * 2 ^ ?r < 2 ^ LENGTH(32)" using le i by simp
    then show ?thesis unfolding eq by (rule unat_of_nat_small)
  qed
  moreover have "unat (ucast i AND RANGE_MASK p) = unat i mod 2 ^ ?r"
  proof -
    show ?thesis using assms unat_and_low[of "ucast i :: 64 word" ?r] by (simp add: rp_ok_def)
  qed
  ultimately have "unat (ucast ?x + (ucast i AND RANGE_MASK p)) = part_off (rp_R p) (rp_P p) (unat i)"
    using le i unat_add_lem[of "ucast ?x :: 64 word" "ucast i AND RANGE_MASK p"] by (simp add: part_off_def)
  then show "rp_map2loc p i = (unat i div rp_R p mod rp_P p, part_off (rp_R p) (rp_P p) (unat i))"
    "rp_map p i = unat i div rp_R p mod rp_P p"
    using assms unat_and_low[of "drop_bit ?r i" ?n]
    by (simp_all add: rp_map2loc_def rp_map_def Let_def rp_ok_def unat_drop)
qed

lemma rp_loc2map_eq:
  assumes "rp_ok p"
  shows "rp_loc2map p q off = of_nat ((off div rp_R p * rp_P p + q) * rp_R p + off mod rp_R p)"
proof -
  let ?r = "RANGE_SIZE_LOG p"
  have r: "?r < 31" using assms by (simp add: rp_ok_def rp_stripe_log_def)
  have "unat (of_nat off AND RANGE_MASK p) = off mod rp_R p"
  proof -
    have "unat (of_nat off AND RANGE_MASK p) = off mod 2 ^ 64 mod 2 ^ ?r"
      using assms unat_and_low[of "of_nat off :: 64 word" ?r] by (simp add: rp_ok_def unat_of_nat take_bit_eq_mod)
    moreover have "(2 :: nat) ^ ?r dvd 2 ^ 64" by (rule le_imp_power_dvd) (use r in simp)
    ultimately show ?thesis by (simp only: mod_mod_cancel)
  qed
  then show ?thesis
    by (simp add: rp_loc2map_def Let_def push_bit_eq_mult drop_bit_eq_div power_add algebra_simps)
qed

lemma rp_round_trip:
  assumes "rp_ok p" "rp_map2loc p i = (q, off)"
  shows "rp_loc2map p q off = i"
proof -
  have "rp_loc2map p q off = of_nat (unat i)"
    unfolding rp_loc2map_eq[OF assms(1)]
    using assms rp_map2loc_eq(1)[OF assms(1), of i] part_off_inverse[of "rp_R p" "rp_P p" "unat i"] by simp
  then show ?thesis by simp
qed

lemma fold_const_sub: "fold (\<lambda>_ x. x - c) [0..<k] (x :: 64 word) = x - of_nat k * c"
  by (induction k) (simp_all add: algebra_simps)

text \<open>The subtraction in \<^verbatim>\<open>get_part_end\<close> may wrap around; read as a signed number the result is exact.\<close>

lemma rp_get_part_end_eq:
  assumes "rp_ok p" "q < rp_P p" "n < 2 ^ 32"
  shows "rp_get_part_end p q n = Inr (of_nat (part_end (rp_R p) (rp_P p) q n))"
proof -
  let ?R = "rp_R p" let ?S = "rp_R p * rp_P p"
  define a where "a = n div ?S"
  define b where "b = n mod ?S"
  have S: "?S < 2 ^ 31"
    using assms(1) power_strict_increasing[of "rp_stripe_log p" 31 "2 :: nat"] by (simp add: rp_ok_def rp_stripe)
  have n: "n = a * ?S + b" by (simp only: a_def b_def div_mult_mod_eq)
  have b: "b < ?S" by (simp add: b_def)
  have qR: "q * ?R < ?S" using assms(2) by (simp add: mult.commute)
  have asserts: "push_bit (rp_stripe_log p) (drop_bit (rp_stripe_log p) n) = a * ?S"
    "push_bit (rp_stripe_log p) (drop_bit (rp_stripe_log p) n + 1) = a * ?S + ?S"
    by (simp_all add: push_bit_eq_mult drop_bit_eq_div rp_stripe a_def)
  define num where "num = (of_nat n - of_nat (a * ?S) - of_nat q * of_nat ?R :: 64 word)"
  have num: "num = word_of_int (int b - int (q * ?R))"
    by (simp add: num_def n)
  have "?S < 2147483648" using S by simp
  then have "b < 2147483648" "q * ?R < 2147483648" using b qR by linarith+
  then have "int b < 2147483648" "int (q * ?R) < 2147483648" by linarith+
  then have sint: "sint num = int b - int (q * ?R)"
    unfolding num by (intro sint_64) linarith+
  have pos: "num > 0 \<longleftrightarrow> b \<noteq> q * ?R"
  proof -
    have "num = 0" if "b = q * ?R" unfolding num that by simp
    moreover have "b = q * ?R" if "num = 0" using sint unfolding that by (simp del: of_nat_mult of_nat_power)
    ultimately show ?thesis unfolding word_gt_0 by blast
  qed
  have "vid + word_of_int (min (sint num) (int ?R)) = of_nat (part_end ?R (rp_P p) q n)"
    if "vid = of_nat (q * ?R + a * ?S)" for vid :: "32 word"
  proof -
    have "int (q * ?R + a * ?S) + min (int b - int (q * ?R)) (int ?R) = int (part_end ?R (rp_P p) q n)"
    proof (cases "q * ?R \<le> b")
      case True
      then have "part_end ?R (rp_P p) q n = q * ?R + a * ?S + min (b - q * ?R) ?R"
        by (simp only: part_end_def Let_def a_def[symmetric] b_def[symmetric] if_True)
      then show ?thesis unfolding min_signed(1)[OF True] by (simp only: of_nat_add)
    next
      case False
      then have "part_end ?R (rp_P p) q n = n"
        by (simp only: part_end_def Let_def a_def[symmetric] b_def[symmetric] if_False)
      then have "part_end ?R (rp_P p) q n = a * ?S + b" using n by (rule trans)
      moreover have "min (int b - int (q * ?R)) (int ?R) = int b - int (q * ?R)"
        using False by (intro min_signed(2)) simp
      ultimately show ?thesis by (simp only: of_nat_add)
    qed
    then have "word_of_int (int (q * ?R + a * ?S) + min (int b - int (q * ?R)) (int ?R)) = (of_nat (part_end ?R (rp_P p) q n) :: 32 word)"
      by simp
    then show ?thesis using that sint by simp
  qed
  moreover have "part_end ?R (rp_P p) q n = q * ?R + a * ?S" if "b = q * ?R"
    using that by (simp add: part_end_def Let_def a_def[symmetric] b_def[symmetric])
  moreover have "rp_get_part_end p q n = (if num > 0 then Inr (of_nat (q * ?R + a * ?S) + word_of_int (min (sint num) (int ?R)))
      else Inr (of_nat (q * ?R + a * ?S)))"
  proof -
    have R: "RANGE_SIZE p = ?R" using assms(1) by (simp add: rp_ok_def)
    have le: "(a * ?S \<le> n) = True" "(n < a * ?S + ?S) = True" using n b by simp_all
    show ?thesis
      by (simp only: rp_get_part_end_def Let_def asserts fold_const_sub R num_def le assert_then_True)
  qed
  ultimately show ?thesis using pos by (cases "b = q * ?R") (simp_all only: if_True if_False simp_thms)
qed

lemma rp_list_loop_eq:
  assumes "rp_ok p" "q < rp_P p" "rp_fits p n" "q * rp_R p + k * (rp_R p * rp_P p) < 2 ^ 32"
  shows "rp_list_loop p (of_nat (part_end (rp_R p) (rp_P p) q n)) (of_nat (q * rp_R p + k * (rp_R p * rp_P p))) ids
     = Some (ids @ map of_nat (filter (in_part (rp_R p) (rp_P p) q) [q * rp_R p + k * (rp_R p * rp_P p)..<n]))"
  using assms(4)
proof (induction "n - k" arbitrary: k ids rule: less_induct)
  case less
  let ?R = "rp_R p" let ?S = "rp_R p * rp_P p"
  let ?v = "q * ?R + k * ?S" let ?e = "part_end ?R (rp_P p) q n"
  have fits: "n + ?S \<le> 2 ^ 32" using assms(3) by (simp add: rp_fits_def rp_stripe)
  have S: "0 < ?S" by simp
  have e: "?e < 2 ^ 32" using part_end_le[of ?R "rp_P p" q n] fits S by linarith
  have unat: "unat (of_nat ?e :: 32 word) = ?e" "unat (of_nat ?v :: 32 word) = ?v"
    using unat_of_nat_32[OF e] unat_of_nat_32[OF less.prems] .
  have range: "?v < ?e \<longleftrightarrow> ?v < n" "?v < n \<Longrightarrow> min ?R (?e - ?v) = min ?R (n - ?v)"
    using part_end_from_range[OF _ assms(2) refl, of ?R k n] by simp_all
  show ?case
  proof (cases "?v < n")
    case True
    have step: "of_nat ?v + of_nat (push_bit (rp_stripe_log p) 1) = (of_nat (q * ?R + Suc k * ?S) :: 32 word)"
      by (simp add: push_bit_of_1 rp_stripe algebra_simps)
    have next_v: "q * ?R + Suc k * ?S < 2 ^ 32" using True fits by simp
    have "uint (of_nat ?e - of_nat ?v :: 32 word) = int (?e - ?v)"
    proof -
      have "of_nat ?e - of_nat ?v = (of_nat (?e - ?v) :: 32 word)"
        using range(1) True by (simp add: of_nat_diff)
      moreover have "unat (of_nat (?e - ?v) :: 32 word) = ?e - ?v"
        using e by (intro unat_of_nat_small) simp
      ultimately show ?thesis by (metis of_nat_unat)
    qed
    then have "nat (min (int (RANGE_SIZE p)) (uint (of_nat ?e - of_nat ?v :: 32 word))) = min ?R (n - ?v)"
      using assms(1) range(2)[OF True] by (simp only: rp_ok_def of_nat_min[symmetric] nat_int)
    moreover have "map (\<lambda>i. of_nat ?v + of_nat i :: 32 word) [0..<min ?R (n - ?v)] = map of_nat [?v..<?v + min ?R (n - ?v)]"
      using map_add_upt[of ?v "min ?R (n - ?v)", symmetric] by (simp add: add.commute comp_def)
    moreover have "n - Suc k < n - k"
    proof -
      have "k \<le> k * ?S" by simp
      then have "k < n" using True by linarith
      then show ?thesis by simp
    qed
    moreover have "of_nat ?v < (of_nat ?e :: 32 word)" using True range(1) unat by (simp only: word_less_nat_alt)
    ultimately have "rp_list_loop p (of_nat ?e) (of_nat ?v) ids
        = Some ((ids @ map of_nat [?v..<?v + min ?R (n - ?v)])
            @ map of_nat (filter (in_part ?R (rp_P p) q) [q * ?R + Suc k * ?S..<n]))"
      by (simp only: rp_list_loop.simps[of p "of_nat ?e" "of_nat ?v"] if_True Let_def step less.hyps[OF _ next_v])
    moreover have "filter (in_part ?R (rp_P p) q) [?v..<n]
        = [?v..<?v + min ?R (n - ?v)] @ filter (in_part ?R (rp_P p) q) [q * ?R + Suc k * ?S..<n]"
      using part_list_from_range[OF _ assms(2) refl True] by (simp add: add.commute add.left_commute)
    ultimately show ?thesis by (simp only: map_append append_assoc)
  next
    case False
    then show ?thesis
      using range(1) unat
      by (simp add: rp_list_loop.simps[of p "of_nat ?e" "of_nat ?v"] word_less_nat_alt del: of_nat_add of_nat_mult)
  qed
qed

lemma rp_get_all_vertices_eq:
  assumes "rp_ok p" "q < rp_P p" "rp_fits p n"
  shows "rp_get_all_vertices_in_part p q n ids
     = Some (Inr (ids @ map of_nat (part_list (rp_R p) (rp_P p) q n)))"
proof -
  let ?R = "rp_R p" let ?S = "rp_R p * rp_P p"
  have fits: "n + ?S \<le> 2 ^ 32" using assms(3) by (simp add: rp_fits_def rp_stripe)
  have qR: "q * ?R < ?S" using assms(2) by (simp add: mult.commute)
  have "0 < ?S" by simp
  then have small: "n < 2 ^ 32" "q * ?R + 0 * ?S < 2 ^ 32" using fits qR by linarith+
  have "filter (in_part ?R (rp_P p) q) [q * ?R..<n] = part_list ?R (rp_P p) q n"
  proof -
    have none: "\<not> in_part ?R (rp_P p) q x" if "x < q * ?R" for x
      using in_part_iff[of ?R x "rp_P p" q 0] that qR by simp
    have "part_list ?R (rp_P p) q n = filter (in_part ?R (rp_P p) q) [0..<min n (q * ?R)] @ filter (in_part ?R (rp_P p) q) [q * ?R..<n]"
      using upt_add_eq_append[of 0 "q * ?R" "n - q * ?R"]
      by (cases "q * ?R \<le> n") (simp_all add: part_list_def flip: filter_append)
    moreover have "filter (in_part ?R (rp_P p) q) [0..<min n (q * ?R)] = []"
      using none by (auto intro: filter_False)
    ultimately show ?thesis by simp
  qed
  then show ?thesis
    using rp_get_part_end_eq[OF assms(1,2) small(1)] rp_list_loop_eq[OF assms small(2), of ids] assms(1)
    by (simp add: rp_get_all_vertices_in_part_def rp_ok_def)
qed

lemma rp_get_part_size_eq:
  assumes "rp_ok p" "q < rp_P p" "n < 2 ^ 32"
  shows "rp_get_part_size p q n = Inr (part_count (rp_R p) (rp_P p) q n)"
proof -
  let ?R = "rp_R p" let ?S = "rp_R p * rp_P p" let ?e = "part_end (rp_R p) (rp_P p) q n"
  define a where "a = n div ?S"
  define b where "b = n mod ?S"
  have S: "?S < 2147483648"
    using assms(1) power_strict_increasing[of "rp_stripe_log p" 31 "2 :: nat"] by (simp add: rp_ok_def rp_stripe)
  have n: "n = a * ?S + b" by (simp only: a_def b_def div_mult_mod_eq)
  have b: "b < ?S" by (simp add: b_def)
  have qR: "q * ?R < ?S" "q * ?R + ?R \<le> ?S"
    using assms(2) mult_le_mono2[of "Suc q" "rp_P p" ?R] by (simp_all add: mult.commute)
  have e: "?e < 2 ^ 32" "?e = a * ?S + (if q * ?R \<le> b then q * ?R + min (b - q * ?R) ?R else b)"
  proof -
    show "?e < 2 ^ 32" using part_end_le[of ?R "rp_P p" q n] assms(3) by linarith
    have "?e = (if q * ?R \<le> b then q * ?R + a * ?S + min (b - q * ?R) ?R else n)"
      by (simp only: part_end_def Let_def a_def[symmetric] b_def[symmetric])
    then show "?e = a * ?S + (if q * ?R \<le> b then q * ?R + min (b - q * ?R) ?R else b)"
      using n by simp
  qed
  have "(if q * ?R \<le> b then q * ?R + min (b - q * ?R) ?R else b) < ?S"
    using b qR by (auto simp: min_def)
  then have div: "?e div ?S = a" unfolding e(2) by simp
  let ?last = "ucast (of_nat ?e :: 32 word) - of_nat (a * ?S) - of_nat (q * ?R) :: 64 word"
  have "?last = word_of_int (int ?e - int (a * ?S) - int (q * ?R))"
  proof -
    have "(ucast (of_nat ?e :: 32 word) :: 64 word) = of_nat ?e"
      using word_eq_of_nat[of "ucast (of_nat ?e :: 32 word) :: 64 word"] unat_of_nat_32[OF e(1)] by simp
    then show ?thesis by simp
  qed
  also have "int ?e - int (a * ?S) - int (q * ?R) = min (int b - int (q * ?R)) (int ?R)"
  proof (cases "q * ?R \<le> b")
    case True
    then show ?thesis unfolding e(2) min_signed(1)[OF True] by (simp only: if_True of_nat_add)
  next
    case False
    then show ?thesis
      using min_signed(2)[of b "q * ?R" ?R] unfolding e(2) if_not_P[OF False] of_nat_add by linarith
  qed
  finally have last: "?last = word_of_int (min (int b - int (q * ?R)) (int ?R))" .
  have small: "int b < 2147483648" "int (q * ?R) < 2147483648" using b qR S by linarith+
  have "sint ?last = min (int b - int (q * ?R)) (int ?R)"
    unfolding last using small by (intro sint_64) linarith+
  then have max: "max 0 (sint ?last) = int (min ?R (b - q * ?R))"
  proof (cases "q * ?R \<le> b")
    case True
    then show ?thesis using min_signed(1)[OF True, of ?R] \<open>sint ?last = _\<close> by (simp add: min.commute del: of_nat_mult of_nat_power)
  next
    case False
    then show ?thesis
      using min_signed(2)[of b "q * ?R" ?R] \<open>sint ?last = _\<close> by (simp add: not_le del: of_nat_mult of_nat_power)
  qed
  have "a * ?R \<le> a * ?S" by (rule mult_le_mono2) simp
  then have aR: "a * ?R \<le> n" using n by linarith
  have "unat (of_nat (a * ?R) + word_of_int (int (min ?R (b - q * ?R))) :: 64 word) = a * ?R + min ?R (b - q * ?R)"
  proof -
    have "a * ?R + min ?R (b - q * ?R) < 2 ^ LENGTH(64)" using aR assms(3) small(1) by simp
    then have "unat (of_nat (a * ?R + min ?R (b - q * ?R)) :: 64 word) = a * ?R + min ?R (b - q * ?R)"
      by (rule unat_of_nat_small)
    then show ?thesis by (simp only: of_nat_add of_int_of_nat_eq)
  qed
  then show ?thesis
    using rp_get_part_end_eq[OF assms] unat_of_nat_32[OF e(1)] max div
    by (simp add: rp_get_part_size_def Let_def push_bit_eq_mult drop_bit_eq_div rp_stripe part_count_def
        a_def[symmetric] b_def[symmetric])
qed

section \<open>The modulo partitioner\<close>

text \<open>Modulo partitioning is range partitioning with ranges of one vertex.\<close>

definition mp_ok :: "modulo_partitioner \<Rightarrow> bool" where
  "mp_ok p \<longleftrightarrow> mp_mask p = push_bit (mp_num_parts_log p) 1 - 1 \<and> mp_num_parts_log p < 31"

abbreviation mp_P :: "modulo_partitioner \<Rightarrow> nat" where
  "mp_P p \<equiv> 2 ^ mp_num_parts_log p"

lemma new_modulo_partitioner_ok:
  assumes "n < 31"
  shows "\<exists>p. new_modulo_partitioner (2 ^ n) = Inr p \<and> mp_ok p \<and> mp_num_parts_log p = n"
  using assms by (simp add: new_modulo_partitioner_def log2_int_power push_bit_of_1 mp_ok_def Let_def)

lemma mp_map2loc_eq:
  assumes "mp_ok p"
  shows "mp_map2loc p i = (unat i div 1 mod mp_P p, part_off 1 (mp_P p) (unat i))"
    "mp_map p i = unat i div 1 mod mp_P p"
  using assms unat_and_low[of i "mp_num_parts_log p"]
  by (simp_all add: mp_map2loc_def mp_map_def mp_ok_def part_off_def unat_drop)

lemma mp_round_trip:
  assumes "mp_ok p" "mp_map2loc p i = (q, off)"
  shows "mp_loc2map p q off = i"
proof -
  have "mp_loc2map p q off = of_nat (unat i)"
    using assms mp_map2loc_eq(1)[OF assms(1), of i] part_off_inverse[of 1 "mp_P p" "unat i"]
    by (auto simp: mp_loc2map_def push_bit_eq_mult)
  then show ?thesis by simp
qed

lemma mp_list_loop_eq:
  assumes "q < 2 ^ l"
  shows "mp_list_loop l n (q + k * 2 ^ l) ids = ids @ map of_nat (filter (in_part 1 (2 ^ l) q) [q + k * 2 ^ l..<n])"
proof (induction "n - (q + k * 2 ^ l)" arbitrary: k ids rule: less_induct)
  case less
  let ?v = "q + k * 2 ^ l"
  show ?case
  proof (cases "?v < n")
    case True
    have step: "?v + push_bit l 1 = q + Suc k * 2 ^ l" by (simp add: push_bit_of_1)
    have "n - (q + Suc k * 2 ^ l) < n - ?v" using True by (intro diff_less_mono2) simp_all
    moreover have "filter (in_part 1 (2 ^ l) q) [?v..<n] = ?v # filter (in_part 1 (2 ^ l) q) [q + Suc k * 2 ^ l..<n]"
      using part_list_from_range[of 1 q "2 ^ l" ?v k n] assms True by (simp add: add.commute add.left_commute)
    ultimately show ?thesis
      using True less.hyps[of "Suc k"] by (simp only: mp_list_loop.simps[of l n ?v] if_True step) simp
  next
    case False
    then show ?thesis by (simp add: mp_list_loop.simps[of l n ?v])
  qed
qed

lemma mp_get_all_vertices_eq:
  assumes "q < mp_P p"
  shows "mp_get_all_vertices_in_part p q n ids = ids @ map of_nat (part_list 1 (mp_P p) q n)"
proof -
  have none: "\<not> in_part 1 (mp_P p) q x" if "x < q" for x
    using that assms by (simp add: in_part_def)
  have "part_list 1 (mp_P p) q n = filter (in_part 1 (mp_P p) q) [0..<min n q] @ filter (in_part 1 (mp_P p) q) [q..<n]"
    using upt_add_eq_append[of 0 q "n - q"] by (cases "q \<le> n") (simp_all add: part_list_def flip: filter_append)
  moreover have "filter (in_part 1 (mp_P p) q) [0..<min n q] = []"
    using none by (auto intro: filter_False)
  ultimately show ?thesis
    using mp_list_loop_eq[OF assms, of n 0 ids] by (simp add: mp_get_all_vertices_in_part_def)
qed

lemma mp_get_part_size_eq:
  assumes "q < mp_P p" "n + mp_P p < 2 ^ 64"
  shows "mp_get_part_size p q n = part_count 1 (mp_P p) q n"
proof -
  let ?P = "mp_P p"
  have "(of_nat n - of_nat q + of_nat (push_bit (mp_num_parts_log p) 1) - 1 :: 64 word) = of_nat (n + ?P - 1 - q)"
    using assms(1) by (simp add: of_nat_diff push_bit_of_1)
  moreover have "unat (of_nat (n + ?P - 1 - q) :: 64 word) = n + ?P - 1 - q"
    using assms(2) by (intro unat_of_nat_small) simp
  ultimately have size: "mp_get_part_size p q n = (n + ?P - 1 - q) div ?P"
    by (simp add: mp_get_part_size_def Let_def push_bit_of_1)
  define a where "a = n div ?P"
  define b where "b = n mod ?P"
  have n: "n = a * ?P + b" by (simp only: a_def b_def div_mult_mod_eq)
  have b: "b < ?P" by (simp add: b_def)
  have "n + ?P - 1 - q = a * ?P + (b + ?P - 1 - q)" using n assms(1) by simp
  moreover have "(b + ?P - 1 - q) div ?P = (if q < b then 1 else 0)"
    using b assms(1) by (auto simp: div_nat_eqI)
  ultimately have "(n + ?P - 1 - q) div ?P = a + (if q < b then 1 else 0)" by simp
  then show ?thesis
    using size by (auto simp: part_count_def a_def[symmetric] b_def[symmetric] min_def)
qed

section \<open>Distributing lists of vertices\<close>

lemma push_locs_eq:
  "\<forall>i\<in>set ids. fst (m2l i) < length locs \<Longrightarrow>
   push_locs m2l ids locs
     = Inr (map (\<lambda>q. locs ! q @ map (\<lambda>i. snd (m2l i)) (filter (\<lambda>i. fst (m2l i) = q) ids)) [0..<length locs])"
proof (induction m2l ids locs rule: push_locs.induct)
  case (1 m2l locs)
  then show ?case by (simp add: map_nth)
next
  case (2 m2l i ids locs)
  obtain q off where qo: "m2l i = (q, off)" by (cases "m2l i")
  have q: "q < length locs" using 2(2) qo by simp
  show ?case
    using 2(1)[OF refl qo[symmetric] q] 2(2) qo q by (auto simp: nth_list_update intro!: nth_equalityI)
qed

lemma record_locs_eq:
  "length locs \<le> num \<Longrightarrow> record_locs m2l ids num locs = locs @ map m2l (take (num - length locs) ids)"
proof (induction ids arbitrary: locs)
  case (Cons i ids)
  show ?case
  proof (cases "length locs = num")
    case True
    then show ?thesis using Cons by simp
  next
    case False
    then have "num - length locs = Suc (num - Suc (length locs))" using Cons.prems by simp
    then show ?thesis using False Cons by simp
  qed
qed simp

end
