(* ===== verification/Partitioner_Props.thy ===== *)
theory Partitioner_Props
  imports Partitioner_Laws
begin

text \<open>
  What the graph engine relies on when it asks a partitioner: the locale \<open>graph_partitioner\<close>, interpreted by modulo
  and range partitioning, and the properties of both. Every vertex has one place, the places of a partition are
  filled without gaps, and \<^verbatim>\<open>get_part_size\<close> agrees with \<^verbatim>\<open>get_all_vertices_in_part\<close>.
\<close>

section \<open>The contract\<close>

text \<open>The vertices of a partition in increasing order; the \<open>j\<close>-th one has offset \<open>j\<close>.\<close>

definition lists_part :: "(vertex_id \<Rightarrow> nat \<times> nat) \<Rightarrow> nat \<Rightarrow> nat \<Rightarrow> vertex_id list \<Rightarrow> bool" where
  "lists_part m2l q n ids \<longleftrightarrow> sorted_wrt (<) ids \<and> (\<forall>i. i \<in> set ids \<longleftrightarrow> unat i < n \<and> fst (m2l i) = q)
     \<and> map (\<lambda>i. snd (m2l i)) ids = [0..<length ids]"

locale graph_partitioner =
  fixes ok :: "'p \<Rightarrow> bool" and num_parts :: "'p \<Rightarrow> nat" and fits :: "'p \<Rightarrow> nat \<Rightarrow> bool"
    and map2loc :: "'p \<Rightarrow> vertex_id \<Rightarrow> nat \<times> nat"
    and loc2map :: "'p \<Rightarrow> nat \<Rightarrow> nat \<Rightarrow> vertex_id"
    and all_in_part :: "'p \<Rightarrow> nat \<Rightarrow> nat \<Rightarrow> vertex_id list res option"
    and part_size :: "'p \<Rightarrow> nat \<Rightarrow> nat \<Rightarrow> nat res"
  assumes part_less: "ok p \<Longrightarrow> fst (map2loc p i) < num_parts p"
    and round_trip: "ok p \<Longrightarrow> map2loc p i = (q, off) \<Longrightarrow> loc2map p q off = i"
    and listing: "ok p \<Longrightarrow> fits p n \<Longrightarrow> q < num_parts p \<Longrightarrow>
      \<exists>ids. all_in_part p q n = Some (Inr ids) \<and> lists_part (map2loc p) q n ids \<and> part_size p q n = Inr (length ids)"
begin

lemma place_unique: "ok p \<Longrightarrow> map2loc p i = map2loc p j \<Longrightarrow> i = j"
  using round_trip[of p i] round_trip[of p j] by (metis surj_pair)

text \<open>The vertex at a place is found at this position of the listing of its partition.\<close>

lemma place_in_listing:
  assumes "ok p" "fits p n" "unat i < n" "map2loc p i = (q, off)"
  shows "\<exists>ids. all_in_part p q n = Some (Inr ids) \<and> part_size p q n = Inr (length ids) \<and> off < length ids \<and> ids ! off = i"
proof -
  have q: "q < num_parts p" using part_less[OF assms(1), of i] assms(4) by simp
  obtain ids where ids: "all_in_part p q n = Some (Inr ids)" "lists_part (map2loc p) q n ids"
    "part_size p q n = Inr (length ids)"
    using listing[OF assms(1,2) q] by blast
  have "i \<in> set ids" using ids(2) assms(3,4) by (simp add: lists_part_def)
  then obtain j where j: "j < length ids" "ids ! j = i" by (auto simp: in_set_conv_nth)
  have "map (\<lambda>i. snd (map2loc p i)) ids ! j = [0..<length ids] ! j"
    using ids(2) by (simp add: lists_part_def)
  then have "off = j" using j assms(4) by simp
  then show ?thesis using ids j by blast
qed

end

section \<open>The two partitioners\<close>

lemma lists_part_list:
  assumes "0 < R" "q < P" "n \<le> 2 ^ 32"
    and m2l: "\<And>i. m2l i = (unat i div R mod P, part_off R P (unat i))"
  shows "lists_part m2l q n (map of_nat (part_list R P q n))"
proof -
  have less: "x < 2 ^ 32" if "x \<in> set (part_list R P q n)" for x
    using that assms(3) by (auto simp: part_list_def)
  have un: "unat (of_nat x :: vertex_id) = x" if "x \<in> set (part_list R P q n)" for x
    using unat_of_nat_32[OF less[OF that]] .
  have "sorted_wrt (<) (part_list R P q n)" by (simp add: part_list_def sorted_wrt_filter)
  then have "sorted_wrt (<) (map of_nat (part_list R P q n) :: vertex_id list)"
    unfolding sorted_wrt_map
    by (rule sorted_wrt_mono_rel[rotated]) (simp add: un word_less_nat_alt)
  moreover have "i \<in> set (map of_nat (part_list R P q n)) \<longleftrightarrow> unat i < n \<and> unat i div R mod P = q" for i :: vertex_id
  proof
    assume "i \<in> set (map of_nat (part_list R P q n))"
    then obtain x where x: "x \<in> set (part_list R P q n)" "i = of_nat x" by auto
    then show "unat i < n \<and> unat i div R mod P = q" using un[OF x(1)] by (simp add: part_list_def in_part_def)
  next
    assume "unat i < n \<and> unat i div R mod P = q"
    then have "unat i \<in> set (part_list R P q n)" by (simp add: part_list_def in_part_def)
    then have "of_nat (unat i) \<in> (of_nat :: nat \<Rightarrow> vertex_id) ` set (part_list R P q n)" by (rule imageI)
    then show "i \<in> set (map of_nat (part_list R P q n))" by simp
  qed
  moreover have "map (\<lambda>i. snd (m2l i)) (map of_nat (part_list R P q n)) = [0..<length (part_list R P q n)]"
  proof -
    have "map (\<lambda>i. snd (m2l i)) (map of_nat (part_list R P q n)) = map (part_off R P) (part_list R P q n)"
      using un by (auto simp: m2l)
    then show ?thesis using part_list_offs[OF assms(1,2)] length_part_list[OF assms(1,2)] by simp
  qed
  ultimately show ?thesis by (simp add: lists_part_def m2l)
qed

definition mp_fits :: "modulo_partitioner \<Rightarrow> nat \<Rightarrow> bool" where
  "mp_fits p n \<longleftrightarrow> n \<le> 2 ^ 32"

interpretation rp: graph_partitioner rp_ok rp_get_num_partitions rp_fits rp_map2loc rp_loc2map
  "\<lambda>p q n. rp_get_all_vertices_in_part p q n []" rp_get_part_size
proof
  fix p :: range_partitioner and i :: vertex_id and q n :: nat
  assume ok: "rp_ok p"
  show "fst (rp_map2loc p i) < rp_get_num_partitions p"
    using rp_map2loc_eq(1)[OF ok, of i] by (simp add: rp_get_num_partitions_def push_bit_of_1)
  show "rp_map2loc p i = (q, n) \<Longrightarrow> rp_loc2map p q n = i"
    using rp_round_trip[OF ok] .
  assume fits: "rp_fits p n" and "q < rp_get_num_partitions p"
  then have q: "q < rp_P p" by (simp add: rp_get_num_partitions_def push_bit_of_1)
  have "n + rp_R p * rp_P p \<le> 2 ^ 32" "0 < rp_R p * rp_P p"
    using fits by (simp_all add: rp_fits_def rp_stripe)
  then have n: "n < 2 ^ 32" by linarith
  show "\<exists>ids. rp_get_all_vertices_in_part p q n [] = Some (Inr ids) \<and> lists_part (rp_map2loc p) q n ids
      \<and> rp_get_part_size p q n = Inr (length ids)"
    using rp_get_all_vertices_eq[OF ok q fits, of "[]"] rp_get_part_size_eq[OF ok q n]
      lists_part_list[OF _ q less_imp_le[OF n] rp_map2loc_eq(1)[OF ok]] length_part_list[of "rp_R p" q "rp_P p" n] q
    by simp
qed

interpretation mp: graph_partitioner mp_ok mp_get_num_partitions mp_fits mp_map2loc mp_loc2map
  "\<lambda>p q n. Some (Inr (mp_get_all_vertices_in_part p q n []))" "\<lambda>p q n. Inr (mp_get_part_size p q n)"
proof
  fix p :: modulo_partitioner and i :: vertex_id and q n :: nat
  assume ok: "mp_ok p"
  show "fst (mp_map2loc p i) < mp_get_num_partitions p"
    using mp_map2loc_eq(1)[OF ok, of i] by (simp add: mp_get_num_partitions_def push_bit_of_1)
  show "mp_map2loc p i = (q, n) \<Longrightarrow> mp_loc2map p q n = i"
    using mp_round_trip[OF ok] .
  assume fits: "mp_fits p n" and "q < mp_get_num_partitions p"
  then have q: "q < mp_P p" by (simp add: mp_get_num_partitions_def push_bit_of_1)
  have n: "n \<le> 2 ^ 32" using fits by (simp add: mp_fits_def)
  have "mp_P p \<le> 2 ^ 31" using ok by (intro power_increasing) (simp_all add: mp_ok_def)
  then have "n + mp_P p < 2 ^ 64" using n by simp
  then show "\<exists>ids. Some (Inr (mp_get_all_vertices_in_part p q n [])) = Some (Inr ids) \<and> lists_part (mp_map2loc p) q n ids
      \<and> Inr (mp_get_part_size p q n) = Inr (length ids)"
    using mp_get_all_vertices_eq[OF q, of n "[]"] mp_get_part_size_eq[OF q]
      lists_part_list[OF _ q n mp_map2loc_eq(1)[OF ok]] length_part_list[of 1 q "mp_P p" n] q
    by simp
qed

section \<open>When the listing loop returns\<close>

text \<open>If the number of vertices leaves no room for another stripe, the start of the next range wraps around to the first one.\<close>

lemma rp_list_loop_forever:
  assumes "rp_ok p" "n < 2 ^ 32" "\<not> rp_fits p n"
  shows "rp_list_loop p (of_nat (part_end (rp_R p) (rp_P p) 0 n)) (of_nat (k * 2 ^ rp_stripe_log p)) ids = None"
proof -
  let ?S = "2 ^ rp_stripe_log p :: nat" let ?e = "part_end (rp_R p) (rp_P p) 0 n"
  let ?w = "of_nat ?e :: vertex_id"
  have sl: "rp_stripe_log p \<le> 32" using assms(1) by (simp add: rp_ok_def)
  define m where "m = 32 - rp_stripe_log p"
  have pow: "2 ^ 32 = 2 ^ m * ?S" using sl by (simp add: m_def power_add[symmetric])
  have "(2 ^ m - 1) * ?S + ?S = Suc (2 ^ m - 1) * ?S" by (simp only: mult_Suc add.commute)
  also have "Suc (2 ^ m - 1) = 2 ^ m" by simp
  finally have "(2 ^ m - 1) * ?S + ?S = 2 ^ 32" by (simp only: pow)
  then have big: "(2 ^ m - 1) * ?S < n" using assms(3) by (simp add: rp_fits_def)
  have e_less: "?e < 2 ^ 32" using part_end_le[of "rp_R p" "rp_P p" 0 n] assms(2) by linarith
  have "(2 ^ m - 1) * ?S < ?e"
    using part_end_from_range(1)[of "rp_R p" 0 "rp_P p" "(2 ^ m - 1) * ?S" "2 ^ m - 1" n] big by (simp add: rp_stripe)
  moreover have "(x mod 2 ^ m) * ?S \<le> (2 ^ m - 1) * ?S" for x :: nat
  proof (rule mult_le_mono1)
    have "x mod 2 ^ m < 2 ^ m" by simp
    then show "x mod 2 ^ m \<le> 2 ^ m - 1" by linarith
  qed
  ultimately have below: "(x mod 2 ^ m) * ?S < ?e" for x using le_less_trans by blast
  have word: "unat (of_nat (x * ?S) :: vertex_id) = (x mod 2 ^ m) * ?S" for x
    by (simp add: unat_of_nat take_bit_eq_mod pow[simplified] mult_mod_left del: of_nat_mult)
  have less: "of_nat (x * ?S) < ?w" for x
    using below[of x] by (simp only: word_less_nat_alt word unat_of_nat_32[OF e_less])
  have step: "of_nat (x * ?S) + of_nat (push_bit (rp_stripe_log p) 1) = (of_nat (Suc x * ?S) :: vertex_id)" for x
    by (simp add: push_bit_of_1)
  have "\<forall>x. p' = p \<and> w = ?w \<longrightarrow> v \<noteq> of_nat (x * ?S)"
    if "rp_list_loop p' w v l = Some y" for p' w v l y
  proof (rule rp_list_loop.raw_induct[OF _ that, of "\<lambda>p' w v l y. \<forall>x. p' = p \<and> w = ?w \<longrightarrow> v \<noteq> of_nat (x * ?S)"],
      intro allI impI notI)
    fix loop :: "range_partitioner \<Rightarrow> vertex_id \<Rightarrow> vertex_id \<Rightarrow> vertex_id list \<Rightarrow> vertex_id list option"
      and q' w' v' l' y' x
    assume IH: "\<And>p' w v l y. loop p' w v l = Some y \<Longrightarrow> \<forall>x. p' = p \<and> w = ?w \<longrightarrow> v \<noteq> of_nat (x * ?S)"
    assume run: "(if v' < w' then let size = min (int (RANGE_SIZE q')) (uint (w' - v'))
        in loop q' w' (v' + of_nat (push_bit (rp_stripe_log q') 1)) (l' @ map (\<lambda>i. v' + of_nat i) [0..<nat size])
        else Some l') = Some y'" and eq: "q' = p \<and> w' = ?w" "v' = of_nat (x * ?S)"
    then obtain l2 where "loop p ?w (of_nat (Suc x * ?S)) l2 = Some y'"
      using less[of x] step[of x] by (auto simp: Let_def simp del: of_nat_mult mult_Suc)
    then show False using IH by blast
  qed
  then show ?thesis by (metis not_None_eq)
qed

text \<open>
  C33. Listing the partitions of a range partitioner returns for every partition exactly if a whole stripe of
  ranges fits between the number of vertices and the end of the 32-bit vertex ids; otherwise the loop for partition 0
  runs forever.
\<close>

theorem range_listing_terminates_iff:
  assumes "new_range_partitioner r (2 ^ k) = Inr p" "r + k < 31" "n < 2 ^ 32"
  shows "(\<forall>q<2 ^ k. rp_get_all_vertices_in_part p q n [] \<noteq> None) \<longleftrightarrow> n + 2 ^ (r + k) \<le> 2 ^ 32"
proof -
  have p: "rp_ok p" "RANGE_SIZE_LOG p = r" "rp_num_parts_log p = k"
    using new_range_partitioner_ok[OF assms(2)] assms(1) by auto
  have fits: "rp_fits p n \<longleftrightarrow> n + 2 ^ (r + k) \<le> 2 ^ 32" using p by (simp add: rp_fits_def rp_stripe_log_def)
  show ?thesis
  proof (cases "rp_fits p n")
    case True
    then show ?thesis using rp_get_all_vertices_eq[OF p(1) _ True] p(3) fits by simp
  next
    case False
    have "rp_get_all_vertices_in_part p 0 n [] = None"
      using rp_get_part_end_eq[OF p(1) _ assms(3), of 0] rp_list_loop_forever[OF p(1) assms(3) False, of 0 "[]"]
      by (simp add: rp_get_all_vertices_in_part_def)
    then show ?thesis using False fits by (metis zero_less_numeral zero_less_power)
  qed
qed

theorem range_listing_terminates_iff_witness:
  "(\<forall>q<2 ^ 1. rp_get_all_vertices_in_part
      \<lparr>RANGE_SIZE_LOG = 1, RANGE_SIZE = 2, RANGE_MASK = 1, rp_num_parts_log = 1, rp_mask = 1\<rparr> q 4294967295 [] \<noteq> None)
   \<longleftrightarrow> 4294967295 + 2 ^ (1 + 1) \<le> (2 ^ 32 :: nat)"
  by (rule range_listing_terminates_iff) (simp_all add: new_range_partitioner_def log2_int.simps push_bit_of_1 Let_def)

text \<open>
  C16. With room for one more stripe, range partitioning lists for every partition exactly the vertices that it maps
  there, \<^verbatim>\<open>get_part_size\<close> is their number although the computation of the last range may wrap around, the vertex at position
  \<open>j\<close> of the listing has offset \<open>j\<close>, and \<^verbatim>\<open>loc2map\<close> finds it again.
\<close>

theorem range_partition_listing:
  assumes "new_range_partitioner r (2 ^ k) = Inr p" "r + k < 31" "n + 2 ^ (r + k) \<le> 2 ^ 32" "q < 2 ^ k"
  shows "\<exists>ids. rp_get_all_vertices_in_part p q n [] = Some (Inr ids) \<and> rp_get_part_size p q n = Inr (length ids)
    \<and> distinct ids \<and> (\<forall>i. i \<in> set ids \<longleftrightarrow> unat i < n \<and> rp_map p i = q)
    \<and> (\<forall>j<length ids. rp_map2loc p (ids ! j) = (q, j) \<and> rp_loc2map p q j = ids ! j)"
proof -
  have p: "rp_ok p" "RANGE_SIZE_LOG p = r" "rp_num_parts_log p = k"
    using new_range_partitioner_ok[OF assms(2)] assms(1) by auto
  have fits: "rp_fits p n" using p assms(3) by (simp add: rp_fits_def rp_stripe_log_def)
  have q: "q < rp_get_num_partitions p" using assms(4) p by (simp add: rp_get_num_partitions_def push_bit_of_1)
  obtain ids where ids: "rp_get_all_vertices_in_part p q n [] = Some (Inr ids)" "lists_part (rp_map2loc p) q n ids"
    "rp_get_part_size p q n = Inr (length ids)"
    using rp.listing[OF p(1) fits q] by blast
  have "fst (rp_map2loc p i) = rp_map p i" for i using rp_map2loc_eq[OF p(1), of i] by simp
  then have set: "\<forall>i. i \<in> set ids \<longleftrightarrow> unat i < n \<and> rp_map p i = q" using ids(2) by (simp add: lists_part_def)
  have "rp_map2loc p (ids ! j) = (q, j)" if "j < length ids" for j
  proof -
    have "map (\<lambda>i. snd (rp_map2loc p i)) ids ! j = [0..<length ids] ! j"
      using ids(2) by (simp add: lists_part_def)
    moreover have "fst (rp_map2loc p (ids ! j)) = q"
      using ids(2) nth_mem[OF that] by (auto simp: lists_part_def)
    ultimately show ?thesis using that by (simp add: prod_eq_iff)
  qed
  moreover have "distinct ids"
    using ids(2) by (simp add: lists_part_def strict_sorted_iff)
  ultimately show ?thesis using ids(1,3) set rp.round_trip[OF p(1)] by blast
qed

theorem range_partition_listing_witness:
  "\<exists>ids. rp_get_all_vertices_in_part \<lparr>RANGE_SIZE_LOG = 1, RANGE_SIZE = 2, RANGE_MASK = 1, rp_num_parts_log = 1, rp_mask = 1\<rparr> 1 5 []
      = Some (Inr ids) \<and> rp_get_part_size \<lparr>RANGE_SIZE_LOG = 1, RANGE_SIZE = 2, RANGE_MASK = 1, rp_num_parts_log = 1, rp_mask = 1\<rparr> 1 5
      = Inr (length ids)"
  using range_partition_listing[of 1 1 "\<lparr>RANGE_SIZE_LOG = 1, RANGE_SIZE = 2, RANGE_MASK = 1, rp_num_parts_log = 1, rp_mask = 1\<rparr>" 5 1]
  by (simp add: new_range_partitioner_def log2_int.simps push_bit_of_1 Let_def) blast

text \<open>
  Both partitioners give every vertex a place in an existing partition and find the vertex again from its place.
\<close>

theorem partition_round_trip:
  assumes "new_modulo_partitioner (2 ^ k) = Inr mp" "new_range_partitioner r (2 ^ k) = Inr rp" "r + k < 31"
    and "mp_map2loc mp i = (q, off)" "rp_map2loc rp i = (q', off')"
  shows "q < 2 ^ k \<and> mp_map mp i = q \<and> mp_loc2map mp q off = i
    \<and> q' < 2 ^ k \<and> rp_map rp i = q' \<and> rp_loc2map rp q' off' = i"
proof -
  have mp: "mp_ok mp" "mp_num_parts_log mp = k" using new_modulo_partitioner_ok[of k] assms(1,3) by auto
  have rp: "rp_ok rp" "rp_num_parts_log rp = k" using new_range_partitioner_ok[OF assms(3)] assms(2) by auto
  have "q < 2 ^ k \<and> mp_map mp i = q \<and> mp_loc2map mp q off = i"
    using mp.part_less[OF mp(1), of i] mp.round_trip[OF mp(1) assms(4)] assms(4) mp_map2loc_eq[OF mp(1), of i] mp(2)
    by (simp add: mp_get_num_partitions_def push_bit_of_1)
  moreover have "q' < 2 ^ k \<and> rp_map rp i = q' \<and> rp_loc2map rp q' off' = i"
    using rp.part_less[OF rp(1), of i] rp.round_trip[OF rp(1) assms(5)] assms(5) rp_map2loc_eq[OF rp(1), of i] rp(2)
    by (simp add: rp_get_num_partitions_def push_bit_of_1)
  ultimately show ?thesis by blast
qed

theorem partition_round_trip_witness:
  "mp_loc2map \<lparr>mp_num_parts_log = 1, mp_mask = 1\<rparr> 1 2 = 5
   \<and> rp_loc2map \<lparr>RANGE_SIZE_LOG = 1, RANGE_SIZE = 2, RANGE_MASK = 1, rp_num_parts_log = 1, rp_mask = 1\<rparr> 0 3 = 5"
  using partition_round_trip[of 1 "\<lparr>mp_num_parts_log = 1, mp_mask = 1\<rparr>" 1
      "\<lparr>RANGE_SIZE_LOG = 1, RANGE_SIZE = 2, RANGE_MASK = 1, rp_num_parts_log = 1, rp_mask = 1\<rparr>" 5 1 2 0 3]
  by (simp add: new_modulo_partitioner_def new_range_partitioner_def log2_int.simps push_bit_of_1 Let_def
      mp_map2loc_def rp_map2loc_def drop_bit_eq_div push_bit_eq_mult)

end
