(* ===== verification/Graph_Index.thy ===== *)
theory Graph_Index
  imports Partitioner_Props
begin

text \<open>
  The in-memory container of the vertices (\<^verbatim>\<open>flash-graph/graph_index.h\<close>: \<^verbatim>\<open>graph_local_partition\<close>, \<^verbatim>\<open>NUMA_graph_index\<close>) and the
  tagged pointers to vertices (\<^verbatim>\<open>vertex_pointer.h\<close>). An array of vertices is the list of the ids its elements have been
  constructed with, \<open>None\<close> for an element that has not been constructed. The address of a vertex names the array and the
  position in it, so that the comparisons of addresses in the source become comparisons of arrays and positions.
  The vertical partitions of a vertex are further arrays. A listing of a partition that does not return is
  \<open>Inl Never_returns\<close>.
\<close>

section \<open>Tagged pointers\<close>

definition PART_BIT_LOC :: nat where
  "PART_BIT_LOC = 48"

definition PART_MASK :: "64 word" where
  "PART_MASK = 0xFFFF000000000000"

definition ADDR_MASK :: "64 word" where
  "ADDR_MASK = 0x0000FFFFFFFFFFFF"

definition new_compute_vertex_pointer :: "64 word \<Rightarrow> bool \<Rightarrow> 64 word res" where
  "new_compute_vertex_pointer v part =
     assert_then (v \<noteq> 0) (assert_then (v > 100000) (Inr (v + push_bit PART_BIT_LOC (of_bool part))))"

definition cvp_is_part :: "64 word \<Rightarrow> bool" where
  "cvp_is_part addr = (addr AND PART_MASK \<noteq> 0)"

definition cvp_is_valid :: "64 word \<Rightarrow> bool" where
  "cvp_is_valid addr = (addr AND ADDR_MASK \<noteq> 0)"

definition cvp_get :: "64 word \<Rightarrow> 64 word res" where
  "cvp_get addr = assert_then (addr AND ADDR_MASK \<noteq> 0) (Inr (addr AND ADDR_MASK))"

section \<open>One partition\<close>

datatype vertex_addr =
    Main_vertex nat nat
  | Part_vertex nat nat nat

text \<open>\<open>Main_vertex q i\<close>: element \<open>i\<close> of the array of partition \<open>q\<close>; \<open>Part_vertex q v i\<close>: element \<open>i\<close> of its vertical partition \<open>v\<close>.\<close>

definition INVALID_VERTEX_ID :: vertex_id where
  "INVALID_VERTEX_ID = - 1"

record local_partition =
  glp_part_id :: nat
  glp_tot_num_vertices :: nat
  glp_num_vertices :: nat
  glp_vertex_arr :: "vertex_id option list option"
  glp_part_vertex_arrs :: "vertex_id list list"

definition returns :: "'a res option \<Rightarrow> 'a res" where
  "returns r = (case r of None \<Rightarrow> Inl Never_returns | Some x \<Rightarrow> x)"

definition new_local_partition :: "range_partitioner \<Rightarrow> nat \<Rightarrow> nat \<Rightarrow> local_partition res" where
  "new_local_partition p part_id tot =
     bind_res (rp_get_part_size p part_id tot) (\<lambda>n.
       Inr \<lparr>glp_part_id = part_id, glp_tot_num_vertices = tot, glp_num_vertices = n,
            glp_vertex_arr = None, glp_part_vertex_arrs = []\<rparr>)"

fun construct_vertices ::
  "range_partitioner \<Rightarrow> nat \<Rightarrow> vertex_id list \<Rightarrow> vertex_id option list \<Rightarrow> vertex_id option list res" where
  "construct_vertices p part_id [] arr = Inr arr"
| "construct_vertices p part_id (vid # vids) arr =
     (let (q, part_off) = rp_map2loc p vid
      in assert_then (part_id = q)
           (if part_off < length arr then construct_vertices p part_id vids (arr[part_off := Some vid])
            else Inl Undefined_behaviour))"

definition glp_init :: "range_partitioner \<Rightarrow> local_partition \<Rightarrow> local_partition res" where
  "glp_init p g =
     (if glp_num_vertices g = 0 then Inr g
      else
        bind_res (returns (rp_get_all_vertices_in_part p (glp_part_id g) (glp_tot_num_vertices g) [])) (\<lambda>local_ids.
        assert_then (length local_ids = glp_num_vertices g)
        (bind_res (construct_vertices p (glp_part_id g) local_ids (replicate (glp_num_vertices g) None)) (\<lambda>arr.
         if length local_ids < glp_num_vertices g
         then assert_then (length local_ids = glp_num_vertices g - 1)
                (Inr (g\<lparr>glp_vertex_arr := Some (arr[length local_ids := Some INVALID_VERTEX_ID])\<rparr>))
         else Inr (g\<lparr>glp_vertex_arr := Some arr\<rparr>)))))"

definition glp_init_vparts ::
  "range_partitioner \<Rightarrow> nat \<Rightarrow> vertex_id list \<Rightarrow> local_partition \<Rightarrow> local_partition res" where
  "glp_init_vparts p num_parts ids g =
     (if ids = [] then Inr g
      else assert_then (sorted ids) (assert_then (num_parts > 1)
        (assert_then (\<forall>i\<in>set ids. glp_part_id g = rp_map p i)
          (Inr (g\<lparr>glp_part_vertex_arrs := replicate num_parts ids\<rparr>)))))"

definition in_vertex_arr :: "local_partition \<Rightarrow> vertex_addr \<Rightarrow> bool" where
  "in_vertex_arr g v = (case v of
      Main_vertex q i \<Rightarrow> glp_vertex_arr g \<noteq> None \<and> q = glp_part_id g \<and> i < glp_num_vertices g
    | Part_vertex q v i \<Rightarrow> False)"

definition glp_get_local_id :: "local_partition \<Rightarrow> vertex_addr \<Rightarrow> vertex_id" where
  "glp_get_local_id g v =
     (if in_vertex_arr g v then (case v of Main_vertex q i \<Rightarrow> of_nat i | Part_vertex q v i \<Rightarrow> INVALID_VERTEX_ID)
      else INVALID_VERTEX_ID)"

definition glp_get_vertex_id :: "range_partitioner \<Rightarrow> local_partition \<Rightarrow> vertex_addr \<Rightarrow> vertex_id" where
  "glp_get_vertex_id p g v =
     (case v of
        Main_vertex q i \<Rightarrow>
          (if in_vertex_arr g v then rp_loc2map p (glp_part_id g) (unat (of_nat i :: vertex_id)) else INVALID_VERTEX_ID)
      | Part_vertex q vpart i \<Rightarrow>
          (if q = glp_part_id g \<and> vpart < length (glp_part_vertex_arrs g) \<and> i < length (glp_part_vertex_arrs g ! vpart)
           then glp_part_vertex_arrs g ! vpart ! i else INVALID_VERTEX_ID))"

definition glp_get_vertex :: "local_partition \<Rightarrow> nat \<Rightarrow> vertex_addr res" where
  "glp_get_vertex g i =
     assert_then (glp_vertex_arr g \<noteq> None)
       (if i < glp_num_vertices g then Inr (Main_vertex (glp_part_id g) i) else Inl Undefined_behaviour)"

definition glp_get_num_vpart_vertices :: "local_partition \<Rightarrow> nat" where
  "glp_get_num_vpart_vertices g =
     (if glp_part_vertex_arrs g = [] then 0 else length (glp_part_vertex_arrs g ! 0))"

text \<open>A pointer to a vertically partitioned vertex: its id and its position.\<close>

type_synonym vpart_vertex_pointer = "vertex_id \<times> nat"

definition glp_get_vpart_vertex_pointers :: "local_partition \<Rightarrow> nat \<Rightarrow> vpart_vertex_pointer list" where
  "glp_get_vpart_vertex_pointers g num =
     (let act_num = min num (glp_get_num_vpart_vertices g)
      in map (\<lambda>i. (glp_part_vertex_arrs g ! 0 ! i, i)) [0..<act_num])"

text \<open>\<^verbatim>\<open>compute_vertex_pointer\<close>s: an address with the flag of a vertical part.\<close>

type_synonym compute_vertex_pointer = "vertex_addr \<times> bool"

definition glp_get_vpart_vertices ::
  "local_partition \<Rightarrow> nat \<Rightarrow> vpart_vertex_pointer list \<Rightarrow> compute_vertex_pointer list res" where
  "glp_get_vpart_vertices g vpart_id ps =
     assert_then (vpart_id < length (glp_part_vertex_arrs g))
       (let act_num = min (length ps) (glp_get_num_vpart_vertices g)
        in Inr (map (\<lambda>q. (Part_vertex (glp_part_id g) vpart_id (snd q), True)) (take act_num ps)))"

text \<open>\<^verbatim>\<open>std::lower_bound\<close> on a sorted array: the first position whose element is not smaller.\<close>

definition lower_bound :: "vertex_id list \<Rightarrow> vertex_id \<Rightarrow> nat" where
  "lower_bound xs x = length (takeWhile (\<lambda>y. y < x) xs)"

definition glp_get_vpart_vertices_of ::
  "local_partition \<Rightarrow> vertex_id \<Rightarrow> nat \<Rightarrow> compute_vertex_pointer list res" where
  "glp_get_vpart_vertices_of g i num =
     assert_then (glp_part_vertex_arrs g \<noteq> [])
       (let off = lower_bound (glp_part_vertex_arrs g ! 0) i
        in if off = length (glp_part_vertex_arrs g ! 0) then Inr []
           else Inr (map (\<lambda>v. (Part_vertex (glp_part_id g) v off, True))
                       [0..<min num (length (glp_part_vertex_arrs g))]))"

section \<open>The whole index\<close>

record graph_index =
  gi_num_vertices :: nat
  gi_min_vertex_id :: vertex_id
  gi_max_vertex_id :: vertex_id
  gi_partitioner :: range_partitioner
  gi_index_arr :: "local_partition list"

fun map_res :: "('a \<Rightarrow> 'b res) \<Rightarrow> 'a list \<Rightarrow> 'b list res" where
  "map_res f [] = Inr []"
| "map_res f (x # xs) = bind_res (f x) (\<lambda>y. bind_res (map_res f xs) (\<lambda>ys. Inr (y # ys)))"

text \<open>The threads that initialise the partitions share nothing, so the partitions are initialised one after the other.\<close>

definition gi_init :: "nat \<Rightarrow> nat \<Rightarrow> nat \<Rightarrow> graph_index res" where
  "gi_init part_range_size_log num_vertices num_threads =
     bind_res (new_range_partitioner part_range_size_log num_threads) (\<lambda>p.
     bind_res (map_res (\<lambda>i. new_local_partition p i num_vertices) [0..<num_threads]) (\<lambda>gs.
     bind_res (map_res (glp_init p) gs) (\<lambda>gs'.
       Inr \<lparr>gi_num_vertices = num_vertices, gi_min_vertex_id = 0, gi_max_vertex_id = of_nat num_vertices - 1,
            gi_partitioner = p, gi_index_arr = gs'\<rparr>)))"

definition at_part :: "graph_index \<Rightarrow> nat \<Rightarrow> (local_partition \<Rightarrow> 'a res) \<Rightarrow> 'a res" where
  "at_part gi q f = (if q < length (gi_index_arr gi) then f (gi_index_arr gi ! q) else Inl Undefined_behaviour)"

definition gi_init_vparts :: "nat \<Rightarrow> nat \<Rightarrow> vertex_id list \<Rightarrow> graph_index \<Rightarrow> graph_index res" where
  "gi_init_vparts hpart_id num_vparts ids gi =
     at_part gi hpart_id (\<lambda>g. bind_res (glp_init_vparts (gi_partitioner gi) num_vparts ids g) (\<lambda>g'.
       Inr (gi\<lparr>gi_index_arr := (gi_index_arr gi)[hpart_id := g']\<rparr>)))"

definition gi_get_vertex :: "graph_index \<Rightarrow> vertex_id \<Rightarrow> vertex_addr res" where
  "gi_get_vertex gi i =
     (let (q, off) = rp_map2loc (gi_partitioner gi) i in at_part gi q (\<lambda>g. glp_get_vertex g off))"

definition gi_get_vertices :: "graph_index \<Rightarrow> vertex_id list \<Rightarrow> vertex_addr list res" where
  "gi_get_vertices gi ids = map_res (gi_get_vertex gi) ids"

definition gi_get_local_vertex :: "graph_index \<Rightarrow> nat \<Rightarrow> nat \<Rightarrow> vertex_addr res" where
  "gi_get_local_vertex gi part_id i = at_part gi part_id (\<lambda>g. glp_get_vertex g i)"

definition gi_get_local_vertices :: "graph_index \<Rightarrow> nat \<Rightarrow> nat list \<Rightarrow> vertex_addr list res" where
  "gi_get_local_vertices gi part_id ids = map_res (gi_get_local_vertex gi part_id) ids"

definition gi_get_vpart_vertices_of :: "graph_index \<Rightarrow> vertex_id \<Rightarrow> nat \<Rightarrow> compute_vertex_pointer list res" where
  "gi_get_vpart_vertices_of gi i num =
     at_part gi (rp_map (gi_partitioner gi) i) (\<lambda>g. glp_get_vpart_vertices_of g i num)"

fun find_vertex_id :: "range_partitioner \<Rightarrow> local_partition list \<Rightarrow> vertex_addr \<Rightarrow> vertex_id" where
  "find_vertex_id p [] v = INVALID_VERTEX_ID"
| "find_vertex_id p (g # gs) v =
     (let i = glp_get_vertex_id p g v in if i \<noteq> INVALID_VERTEX_ID then i else find_vertex_id p gs v)"

definition gi_get_vertex_id :: "graph_index \<Rightarrow> vertex_addr \<Rightarrow> vertex_id" where
  "gi_get_vertex_id gi v = find_vertex_id (gi_partitioner gi) (gi_index_arr gi) v"

definition gi_get_local_id :: "graph_index \<Rightarrow> nat \<Rightarrow> vertex_addr \<Rightarrow> vertex_id res" where
  "gi_get_local_id gi part_id v = at_part gi part_id (\<lambda>g. Inr (glp_get_local_id g v))"

text \<open>The id of the element a pointer refers to is read from the element itself for a vertical part.\<close>

definition gi_get_pointer_id :: "graph_index \<Rightarrow> nat \<Rightarrow> compute_vertex_pointer \<Rightarrow> vertex_id res" where
  "gi_get_pointer_id gi part_id v =
     (if snd v then
        (case fst v of
           Part_vertex q vpart i \<Rightarrow>
             at_part gi q (\<lambda>g. if vpart < length (glp_part_vertex_arrs g) \<and> i < length (glp_part_vertex_arrs g ! vpart)
                              then Inr (glp_part_vertex_arrs g ! vpart ! i) else Inl Undefined_behaviour)
         | Main_vertex q i \<Rightarrow> Inl Undefined_behaviour)
      else bind_res (gi_get_local_id gi part_id (fst v)) (\<lambda>local_id.
             Inr (rp_loc2map (gi_partitioner gi) part_id (unat local_id))))"

definition gi_belong2part :: "graph_index \<Rightarrow> vertex_addr \<Rightarrow> nat \<Rightarrow> bool res" where
  "gi_belong2part gi v part_id =
     at_part gi part_id (\<lambda>g. Inr (glp_get_vertex_id (gi_partitioner gi) g v \<noteq> INVALID_VERTEX_ID))"

text \<open>The id of the vertex stored at an address.\<close>

definition vertex_at :: "graph_index \<Rightarrow> vertex_addr \<Rightarrow> vertex_id option" where
  "vertex_at gi v = (case v of
      Main_vertex q i \<Rightarrow>
        (if q < length (gi_index_arr gi)
         then (case glp_vertex_arr (gi_index_arr gi ! q) of
                 None \<Rightarrow> None | Some arr \<Rightarrow> (if i < length arr then arr ! i else None))
         else None)
    | Part_vertex q vpart i \<Rightarrow>
        (if q < length (gi_index_arr gi) \<and> vpart < length (glp_part_vertex_arrs (gi_index_arr gi ! q))
            \<and> i < length (glp_part_vertex_arrs (gi_index_arr gi ! q) ! vpart)
         then Some (glp_part_vertex_arrs (gi_index_arr gi ! q) ! vpart ! i) else None))"

end
