(* ===== verification/Vertex_Queue.thy ===== *)
theory Vertex_Queue
  imports Active_Set Graph_Index "HOL-Library.Multiset"
begin

text \<open>
  The queues from which a worker thread takes the active vertices of an iteration (\<^verbatim>\<open>default_vertex_queue\<close>,
  \<^verbatim>\<open>customized_vertex_queue\<close> in \<^verbatim>\<open>flash-graph/worker_thread.h\<close> and \<^verbatim>\<open>worker_thread.cpp\<close>). Every operation runs under the lock of
  the queue, so other threads that steal vertices perform whole fetches. The number of vertical partitions, the
  scan direction of the iteration and the user's scheduler are arguments.
\<close>

section \<open>Splitting off the vertically partitioned vertices\<close>

definition delete_val :: "vertex_id list \<Rightarrow> vertex_id \<Rightarrow> vertex_id list" where
  "delete_val vec val = fold (\<lambda>x out. if x \<noteq> val then out @ [x] else out) vec []"

fun split_loop ::
  "vpart_vertex_pointer list \<Rightarrow> vertex_id list \<Rightarrow> vertex_id list \<times> vpart_vertex_pointer list" where
  "split_loop [] vs = (vs, [])"
| "split_loop (p # ps) [] = ([], [])"
| "split_loop (p # ps) (v # vs) =
     (if fst p = v then (let (kept, sel) = split_loop ps vs in (INVALID_VERTEX_ID # kept, p # sel))
      else if fst p > v then (let (kept, sel) = split_loop (p # ps) vs in (v # kept, sel))
      else split_loop ps (v # vs))"

definition split_vertices ::
  "graph_index \<Rightarrow> nat \<Rightarrow> vertex_id list \<Rightarrow> (vertex_id list \<times> vpart_vertex_pointer list) res" where
  "split_vertices gi part_id vertices =
     assert_then (sorted vertices)
       (at_part gi part_id (\<lambda>g.
          let tmp = glp_get_vpart_vertex_pointers g (glp_get_num_vpart_vertices g);
              (kept, sel) = split_loop tmp vertices
          in Inr (delete_val kept INVALID_VERTEX_ID, sel)))"

section \<open>The default queue\<close>

definition VERTEX_BUF_SIZE :: nat where
  "VERTEX_BUF_SIZE = 64 * 1024"

record vertex_queue =
  vq_vertex_buf :: "compute_vertex_pointer list"
  vq_vpart_ps :: "vpart_vertex_pointer list"
  vq_curr_vpart :: nat
  vq_active_vertices :: active_vertex_set
  vq_buf_fetch_idx :: scan_pointer
  vq_num_active :: nat
  vq_part_id :: nat

definition new_default_vertex_queue :: "graph_index \<Rightarrow> nat \<Rightarrow> vertex_queue res" where
  "new_default_vertex_queue gi part_id =
     bind_res (rp_get_part_size (gi_partitioner gi) part_id (gi_num_vertices gi)) (\<lambda>num_local_vertices.
       Inr \<lparr>vq_vertex_buf = [], vq_vpart_ps = [], vq_curr_vpart = 0,
            vq_active_vertices = new_active_vertex_set num_local_vertices,
            vq_buf_fetch_idx = new_scan_pointer 0 True, vq_num_active = 0, vq_part_id = part_id\<rparr>)"

definition vq_init_list :: "graph_index \<Rightarrow> nat \<Rightarrow> vertex_id list \<Rightarrow> bool \<Rightarrow> vertex_queue \<Rightarrow> vertex_queue res" where
  "vq_init_list gi num_vparts buf is_sorted q =
     (let vertices = (if is_sorted then buf else sort buf) in
      bind_res (split_vertices gi (vq_part_id q) vertices) (\<lambda>(kept, ps).
      bind_res (gi_get_vertices gi kept) (\<lambda>addrs.
        Inr (q\<lparr>vq_vertex_buf := map (\<lambda>v. (v, False)) addrs, vq_vpart_ps := ps, vq_curr_vpart := 0,
               vq_active_vertices := as_clear (vq_active_vertices q),
               vq_buf_fetch_idx := new_scan_pointer (length kept) True,
               vq_num_active := length kept + length ps * num_vparts\<rparr>))))"

text \<open>The loop over the vertically partitioned vertices when an iteration starts.\<close>

fun take_active_vparts ::
  "range_partitioner \<Rightarrow> vpart_vertex_pointer list \<Rightarrow> active_vertex_set \<times> vpart_vertex_pointer list \<times> nat
     \<Rightarrow> (active_vertex_set \<times> vpart_vertex_pointer list \<times> nat) res" where
  "take_active_vparts p [] st = Inr st"
| "take_active_vparts p (v # vs) (s, ps, num) =
     (let (part_id, off) = rp_map2loc p (fst v)
      in bind_res (is_active s off) (\<lambda>b.
         if b then bind_res (reset_active_vertex off s) (\<lambda>s'. take_active_vparts p vs (s', ps @ [v], size_sub num 1))
         else take_active_vparts p vs (s, ps, num)))"

definition vq_init_next ::
  "graph_index \<Rightarrow> nat \<Rightarrow> bool \<Rightarrow> active_vertex_set \<Rightarrow> vertex_queue \<Rightarrow> (vertex_queue \<times> active_vertex_set) res" where
  "vq_init_next gi num_vparts forward next_activated q =
     assert_then (get_num_active_vertices (vq_active_vertices q) = 0)
     (bind_res (as_finalize next_activated) (\<lambda>s.
      let num = get_num_active_vertices s in
      at_part gi (vq_part_id q) (\<lambda>g.
      let tmp = glp_get_vpart_vertex_pointers g (glp_get_num_vpart_vertices g) in
      bind_res
        (if tmp = [] then Inr (s, [], num)
         else bind_res (force_bitmap s) (\<lambda>s.
              bind_res (take_active_vparts (gi_partitioner gi) tmp (s, [], num)) (\<lambda>(s, ps, num).
                Inr (s, ps, num + length ps * num_vparts))))
        (\<lambda>(s, ps, num).
          Inr (q\<lparr>vq_vertex_buf := [], vq_vpart_ps := ps, vq_curr_vpart := 0, vq_active_vertices := set_dir forward s,
                 vq_buf_fetch_idx := new_scan_pointer 0 True, vq_num_active := num\<rparr>,
               vq_active_vertices q)))))"

definition vq_fetch_from_map :: "graph_index \<Rightarrow> bool \<Rightarrow> vertex_queue \<Rightarrow> vertex_queue res" where
  "vq_fetch_from_map gi forward q =
     assert_then (sp_get_num_remaining (vq_buf_fetch_idx q) = 0)
     (bind_res (returns (fetch_reset_active_vertices VERTEX_BUF_SIZE (vq_active_vertices q) [])) (\<lambda>(s, local_ids).
      bind_res (gi_get_local_vertices gi (vq_part_id q) local_ids) (\<lambda>addrs.
        Inr (q\<lparr>vq_vertex_buf := map (\<lambda>v. (v, False)) addrs, vq_active_vertices := s,
               vq_buf_fetch_idx := new_scan_pointer (length addrs) forward\<rparr>))))"

definition vq_fetch_vparts :: "graph_index \<Rightarrow> nat \<Rightarrow> vertex_queue \<Rightarrow> vertex_queue res" where
  "vq_fetch_vparts gi num_vparts q =
     (if vq_curr_vpart q \<ge> num_vparts then Inr q
      else assert_then (sp_get_num_remaining (vq_buf_fetch_idx q) = 0)
        (at_part gi (vq_part_id q) (\<lambda>g.
         bind_res (glp_get_vpart_vertices g (vq_curr_vpart q) (vq_vpart_ps q)) (\<lambda>vs.
           Inr (q\<lparr>vq_vertex_buf := vs, vq_curr_vpart := vq_curr_vpart q + 1,
                  vq_buf_fetch_idx := new_scan_pointer (length vs) True\<rparr>)))))"

text \<open>Taking up to \<open>num\<close> pointers out of the buffer.\<close>

definition vq_take :: "nat \<Rightarrow> vertex_queue \<Rightarrow> vertex_queue \<times> compute_vertex_pointer list" where
  "vq_take num q =
     (if sp_get_num_remaining (vq_buf_fetch_idx q) > 0 \<and> num > 0 then
        (let num_to_fetch = min num (sp_get_num_remaining (vq_buf_fetch_idx q));
             curr_loc = sp_idx (vq_buf_fetch_idx q);
             sp = sp_move num_to_fetch (vq_buf_fetch_idx q);
             new_loc = sp_idx sp
         in (q\<lparr>vq_buf_fetch_idx := sp\<rparr>, take num_to_fetch (drop (min curr_loc new_loc) (vq_vertex_buf q))))
      else (q, []))"

definition vq_fetch ::
  "graph_index \<Rightarrow> nat \<Rightarrow> bool \<Rightarrow> nat \<Rightarrow> vertex_queue \<Rightarrow> (vertex_queue \<times> compute_vertex_pointer list) res" where
  "vq_fetch gi num_vparts forward num q =
     (if vq_num_active q = 0 then Inr (q, [])
      else
        (let (q1, first) = vq_take num q in
         assert_then (num = length first \<or> sp_get_num_remaining (vq_buf_fetch_idx q1) = 0)
         (bind_res
           (if sp_get_num_remaining (vq_buf_fetch_idx q1) = 0
            then bind_res (vq_fetch_from_map gi forward q1) (\<lambda>q2.
                 if vq_vertex_buf q2 = [] \<and> vq_vpart_ps q2 \<noteq> [] then vq_fetch_vparts gi num_vparts q2 else Inr q2)
            else Inr q1)
           (\<lambda>q2.
             let (q3, again) = vq_take (num - length first) q2;
                 fetched = first @ again
             in Inr (q3\<lparr>vq_num_active := size_sub (vq_num_active q3) (length fetched)\<rparr>, fetched)))))"

definition vq_is_empty :: "vertex_queue \<Rightarrow> bool" where
  "vq_is_empty q = (vq_num_active q = 0)"

section \<open>The queue of a user-defined scheduler\<close>

record customized_queue =
  cq_sorted_vertices :: "compute_vertex_pointer list"
  cq_fetch_idx :: scan_pointer
  cq_part_id :: nat

definition cq_get_pointers ::
  "graph_index \<Rightarrow> nat \<Rightarrow> nat \<Rightarrow> vertex_id list \<Rightarrow> vpart_vertex_pointer list \<Rightarrow> compute_vertex_pointer list res" where
  "cq_get_pointers gi num_vparts part_id vertices ps =
     bind_res (gi_get_vertices gi vertices) (\<lambda>addrs.
       if num_vparts \<le> 1 then Inr (map (\<lambda>v. (v, False)) addrs)
       else bind_res (map_res (\<lambda>i. at_part gi part_id (\<lambda>g. glp_get_vpart_vertices g i ps)) [0..<num_vparts]) (\<lambda>parts.
              Inr (map (\<lambda>v. (v, False)) addrs @ concat parts)))"

definition cq_init_list ::
  "graph_index \<Rightarrow> nat \<Rightarrow> (compute_vertex_pointer list \<Rightarrow> compute_vertex_pointer list) \<Rightarrow> bool
     \<Rightarrow> vertex_id list \<Rightarrow> bool \<Rightarrow> customized_queue \<Rightarrow> customized_queue res" where
  "cq_init_list gi num_vparts schedule forward buf is_sorted q =
     (let vertices = (if is_sorted then buf else sort buf) in
      bind_res (if num_vparts > 1 then split_vertices gi (cq_part_id q) vertices else Inr (vertices, [])) (\<lambda>(kept, ps).
      bind_res (cq_get_pointers gi num_vparts (cq_part_id q) kept ps) (\<lambda>vs.
        Inr (q\<lparr>cq_sorted_vertices := schedule vs, cq_fetch_idx := new_scan_pointer (length (schedule vs)) forward\<rparr>))))"

definition cq_init_next ::
  "graph_index \<Rightarrow> nat \<Rightarrow> (compute_vertex_pointer list \<Rightarrow> compute_vertex_pointer list) \<Rightarrow> bool
     \<Rightarrow> active_vertex_set \<Rightarrow> customized_queue \<Rightarrow> (customized_queue \<times> active_vertex_set) res" where
  "cq_init_next gi num_vparts schedule forward next_activated q =
     bind_res (returns (fetch_reset_all next_activated [])) (\<lambda>(s, local_ids).
     let vertices = map (rp_loc2map (gi_partitioner gi) (cq_part_id q)) local_ids in
     bind_res (if num_vparts > 1 then split_vertices gi (cq_part_id q) vertices else Inr (vertices, [])) (\<lambda>(kept, ps).
     bind_res (cq_get_pointers gi num_vparts (cq_part_id q) kept ps) (\<lambda>vs.
       Inr (q\<lparr>cq_sorted_vertices := schedule vs, cq_fetch_idx := new_scan_pointer (length (schedule vs)) forward\<rparr>, s))))"

definition cq_fetch :: "nat \<Rightarrow> customized_queue \<Rightarrow> customized_queue \<times> compute_vertex_pointer list" where
  "cq_fetch num q =
     (let num_fetches = min num (sp_get_num_remaining (cq_fetch_idx q))
      in if num_fetches > 0 then
           (let curr_loc = sp_idx (cq_fetch_idx q);
                sp = sp_move num_fetches (cq_fetch_idx q);
                new_loc = sp_idx sp
            in (q\<lparr>cq_fetch_idx := sp\<rparr>, take num_fetches (drop (min curr_loc new_loc) (cq_sorted_vertices q))))
         else (q, []))"

definition cq_get_num_vertices :: "customized_queue \<Rightarrow> nat" where
  "cq_get_num_vertices q = sp_get_num_remaining (cq_fetch_idx q)"

section \<open>Starting and ending an iteration\<close>

text \<open>
  The vertices that asked to be notified of the end of an iteration: their bits are collected and reset in strides, and the
  vertices they stand for are notified in this order.
\<close>

definition notify_stride :: nat where
  "notify_stride = 1024 * 64"

definition notify_step :: "nat \<Rightarrow> bitmap \<times> nat list \<Rightarrow> (bitmap \<times> nat list) res" where
  "notify_step i st = (case st of (bm, notified) \<Rightarrow>
     bind_res (bm_get_reset_set_bits_range bm i (min (i + notify_stride) (max_num_bits bm)) []) (\<lambda>(bm', buf).
       Inr (bm', notified @ buf)))"

definition collect_notified :: "bitmap \<Rightarrow> (bitmap \<times> nat list) res" where
  "collect_notified bm =
     (if bm_get_num_set_bits bm > 0
      then each_res notify_step
             (map (\<lambda>j. j * notify_stride) [0..<(max_num_bits bm + notify_stride - 1) div notify_stride]) (bm, [])
      else Inr (bm, []))"

text \<open>
  What \<^verbatim>\<open>worker_thread::init\<close> and \<^verbatim>\<open>enter_next_level\<close> do with the queue: initialise it with the activated vertices and
  assert that none is left. With \<^verbatim>\<open>start_all\<close>, all vertices are activated first.
\<close>

definition enter_default ::
  "graph_index \<Rightarrow> nat \<Rightarrow> bool \<Rightarrow> active_vertex_set \<Rightarrow> vertex_queue \<Rightarrow> (vertex_queue \<times> active_vertex_set) res" where
  "enter_default gi num_vparts forward next_activated q =
     bind_res (vq_init_next gi num_vparts forward next_activated q) (\<lambda>(q', s).
       assert_then (get_num_active_vertices s = 0) (Inr (q', s)))"

definition enter_customized ::
  "graph_index \<Rightarrow> nat \<Rightarrow> (compute_vertex_pointer list \<Rightarrow> compute_vertex_pointer list) \<Rightarrow> bool
     \<Rightarrow> active_vertex_set \<Rightarrow> customized_queue \<Rightarrow> (customized_queue \<times> active_vertex_set) res" where
  "enter_customized gi num_vparts schedule forward next_activated q =
     bind_res (cq_init_next gi num_vparts schedule forward next_activated q) (\<lambda>(q', s).
       assert_then (get_num_active_vertices s = 0) (Inr (q', s)))"

end
