(* ===== verification/Graph_Index_Props.thy ===== *)
theory Graph_Index_Props
  imports Graph_Index
begin

text \<open>
  The graph index after initialisation: every vertex is constructed at its place and can be found from its id and
  back. The proofs use the contract of the partitioner only.
\<close>

section \<open>Initialisation\<close>

lemma construct_vertices_ok:
  assumes "\<forall>j<length vids. rp_map2loc p (vids ! j) = (q, length pre + j)"
  shows "construct_vertices p q vids (map Some pre @ replicate (length vids) None) = Inr (map Some (pre @ vids))"
  using assms
proof (induction vids arbitrary: pre)
  case (Cons vid vids)
  have hd: "rp_map2loc p vid = (q, length pre)" using Cons.prems[rule_format, of 0] by simp
  have tl: "\<forall>j<length vids. rp_map2loc p (vids ! j) = (q, length (pre @ [vid]) + j)"
    using Cons.prems[rule_format, of "Suc j" for j] by auto
  have upd: "(map Some pre @ replicate (length (vid # vids)) None)[length pre := Some vid]
      = map Some (pre @ [vid]) @ replicate (length vids) None"
    by (simp add: list_update_append)
  have "construct_vertices p q (vid # vids) (map Some pre @ replicate (length (vid # vids)) None)
      = construct_vertices p q vids (map Some (pre @ [vid]) @ replicate (length vids) None)"
    using hd by (simp only: construct_vertices.simps Let_def prod.case upd) simp
  then show ?case using Cons.IH[OF tl] by simp
qed simp

lemma map_res_eq:
  "(\<And>x. x \<in> set xs \<Longrightarrow> f x = Inr (g x)) \<Longrightarrow> map_res f xs = Inr (map g xs)"
  by (induction xs) simp_all

text \<open>The partition \<open>q\<close> of \<open>n\<close> vertices, once initialised with the listing \<open>ids\<close>.\<close>

definition built_partition :: "nat \<Rightarrow> nat \<Rightarrow> vertex_id list \<Rightarrow> local_partition" where
  "built_partition q n ids =
     \<lparr>glp_part_id = q, glp_tot_num_vertices = n, glp_num_vertices = length ids,
      glp_vertex_arr = (if ids = [] then None else Some (map Some ids)), glp_part_vertex_arrs = []\<rparr>"

lemma lists_part_place:
  assumes "lists_part m2l q n ids" "j < length ids"
  shows "m2l (ids ! j) = (q, j)" "unat (ids ! j) < n"
proof -
  have "map (\<lambda>i. snd (m2l i)) ids ! j = [0..<length ids] ! j" using assms(1) by (simp add: lists_part_def)
  then show "m2l (ids ! j) = (q, j)" "unat (ids ! j) < n"
    using assms nth_mem[OF assms(2)] by (auto simp: lists_part_def prod_eq_iff)
qed

lemma glp_init_ok:
  assumes "rp_ok p" "rp_fits p n" "q < rp_get_num_partitions p"
  shows "\<exists>ids. lists_part (rp_map2loc p) q n ids
    \<and> bind_res (new_local_partition p q n) (glp_init p) = Inr (built_partition q n ids)"
proof -
  obtain ids where ids: "rp_get_all_vertices_in_part p q n [] = Some (Inr ids)" "lists_part (rp_map2loc p) q n ids"
    "rp_get_part_size p q n = Inr (length ids)"
    using rp.listing[OF assms] by blast
  have "construct_vertices p q ids (replicate (length ids) None) = Inr (map Some ids)"
    using construct_vertices_ok[of ids p q "[]"] lists_part_place(1)[OF ids(2)] by simp
  then show ?thesis
    using ids by (auto simp: new_local_partition_def glp_init_def built_partition_def returns_def)
qed

lemma gi_init_ok:
  assumes "r + k < 31" "n + 2 ^ (r + k) \<le> 2 ^ 32"
  shows "\<exists>gi ids. gi_init r n (2 ^ k) = Inr gi \<and> rp_ok (gi_partitioner gi) \<and> rp_fits (gi_partitioner gi) n
    \<and> rp_get_num_partitions (gi_partitioner gi) = 2 ^ k \<and> gi_num_vertices gi = n
    \<and> gi_index_arr gi = map (\<lambda>q. built_partition q n (ids q)) [0..<2 ^ k]
    \<and> (\<forall>q<2 ^ k. lists_part (rp_map2loc (gi_partitioner gi)) q n (ids q))"
proof -
  obtain p where p: "new_range_partitioner r (2 ^ k) = Inr p" "rp_ok p" "RANGE_SIZE_LOG p = r" "rp_num_parts_log p = k"
    using new_range_partitioner_ok[OF assms(1)] by blast
  have fits: "rp_fits p n" using p assms(2) by (simp add: rp_fits_def rp_stripe_log_def)
  have np: "rp_get_num_partitions p = 2 ^ k" using p by (simp add: rp_get_num_partitions_def push_bit_of_1)
  obtain ids where ids: "\<And>q. q < 2 ^ k \<Longrightarrow> lists_part (rp_map2loc p) q n (ids q)
      \<and> bind_res (new_local_partition p q n) (glp_init p) = Inr (built_partition q n (ids q))"
    using glp_init_ok[OF p(2) fits] np by metis
  obtain g where g: "\<And>q. q < 2 ^ k \<Longrightarrow> new_local_partition p q n = Inr (g q) \<and> glp_init p (g q) = Inr (built_partition q n (ids q))"
    using ids by (simp add: bind_res_Inr_iff) metis
  have "map_res (\<lambda>q. new_local_partition p q n) [0..<2 ^ k] = Inr (map g [0..<2 ^ k])"
    by (rule map_res_eq) (use g in simp)
  moreover have "map_res (glp_init p) (map g [0..<2 ^ k]) = Inr (map (\<lambda>q. built_partition q n (ids q)) [0..<2 ^ k])"
  proof -
    have "map_res (glp_init p) (map g xs) = Inr (map (\<lambda>q. built_partition q n (ids q)) xs)" if "\<forall>q\<in>set xs. q < 2 ^ k" for xs
      using that by (induction xs) (simp_all add: g)
    then show ?thesis by simp
  qed
  ultimately show ?thesis
    using p fits np ids by (intro exI[of _ "\<lparr>gi_num_vertices = n, gi_min_vertex_id = 0, gi_max_vertex_id = of_nat n - 1,
      gi_partitioner = p, gi_index_arr = map (\<lambda>q. built_partition q n (ids q)) [0..<2 ^ k]\<rparr>"] exI[of _ ids])
      (simp add: gi_init_def)
qed

section \<open>Properties\<close>

lemma glp_get_vertex_id_built:
  assumes "rp_ok p" "lists_part (rp_map2loc p) q n ids" "j < length ids" "n < 2 ^ 32"
  shows "glp_get_vertex_id p (built_partition q n ids) (Main_vertex q j) = ids ! j"
    "q' \<noteq> q \<Longrightarrow> glp_get_vertex_id p (built_partition q' n ids') (Main_vertex q j) = INVALID_VERTEX_ID"
    "ids ! j \<noteq> INVALID_VERTEX_ID"
proof -
  note place = lists_part_place[OF assms(2,3)]
  have "distinct ids" using assms(2) by (simp add: lists_part_def strict_sorted_iff)
  then have "length ids \<le> card (UNIV :: vertex_id set)"
    using card_mono[of "UNIV :: vertex_id set" "set ids"] by (simp add: distinct_card)
  then have "j < 2 ^ 32" using assms(3) by (simp add: card_word)
  then have "unat (of_nat j :: vertex_id) = j" by (rule unat_of_nat_32)
  then show "glp_get_vertex_id p (built_partition q n ids) (Main_vertex q j) = ids ! j"
    using rp.round_trip[OF assms(1) place(1)] assms(3)
    by (auto simp: glp_get_vertex_id_def built_partition_def in_vertex_arr_def)
  show "q' \<noteq> q \<Longrightarrow> glp_get_vertex_id p (built_partition q' n ids') (Main_vertex q j) = INVALID_VERTEX_ID"
    by (simp add: glp_get_vertex_id_def built_partition_def in_vertex_arr_def)
  show "ids ! j \<noteq> INVALID_VERTEX_ID"
  proof
    assume eq: "ids ! j = INVALID_VERTEX_ID"
    have "unat (- 1 :: vertex_id) = 4294967295" by (simp add: unsigned_minus_1_eq_mask mask_eq_exp_minus_1)
    then show False using place(2) assms(4) eq by (simp add: INVALID_VERTEX_ID_def)
  qed
qed

lemma find_vertex_id_built:
  assumes "\<forall>q\<in>set qs. q \<noteq> q0 \<longrightarrow> glp_get_vertex_id p (g q) v = INVALID_VERTEX_ID"
    "glp_get_vertex_id p (g q0) v = i" "q0 \<in> set qs" "i \<noteq> INVALID_VERTEX_ID"
  shows "find_vertex_id p (map g qs) v = i"
  using assms by (induction qs) (auto simp: Let_def)

text \<open>
  C27. The initialised graph index is well typed: each partition has an array of exactly \<^verbatim>\<open>get_part_size\<close> vertices (no array if
  that is zero), every element of it has been constructed, and the element at position \<open>j\<close> is the vertex whose place is
  \<open>j\<close>.
\<close>

theorem graph_index_well_typed:
  assumes "r + k < 31" "n + 2 ^ (r + k) \<le> 2 ^ 32"
  shows "\<exists>gi. gi_init r n (2 ^ k) = Inr gi \<and> length (gi_index_arr gi) = 2 ^ k
    \<and> (\<forall>q<2 ^ k. \<forall>g. gi_index_arr gi ! q = g \<longrightarrow>
          glp_part_id g = q \<and> rp_get_part_size (gi_partitioner gi) q n = Inr (glp_num_vertices g)
          \<and> (glp_vertex_arr g = None \<longleftrightarrow> glp_num_vertices g = 0)
          \<and> (\<forall>arr. glp_vertex_arr g = Some arr \<longrightarrow> length arr = glp_num_vertices g
               \<and> (\<forall>j<length arr. \<exists>i. arr ! j = Some i \<and> unat i < n \<and> rp_map2loc (gi_partitioner gi) i = (q, j))))"
proof -
  obtain gi ids where gi: "gi_init r n (2 ^ k) = Inr gi" "rp_ok (gi_partitioner gi)" "rp_fits (gi_partitioner gi) n"
    "rp_get_num_partitions (gi_partitioner gi) = 2 ^ k"
    "gi_index_arr gi = map (\<lambda>q. built_partition q n (ids q)) [0..<2 ^ k]"
    "\<forall>q<2 ^ k. lists_part (rp_map2loc (gi_partitioner gi)) q n (ids q)"
    using gi_init_ok[OF assms] by blast
  have "rp_get_part_size (gi_partitioner gi) q n = Inr (length (ids q))" if q: "q < 2 ^ k" for q
  proof -
    obtain js where js: "lists_part (rp_map2loc (gi_partitioner gi)) q n js"
      "rp_get_part_size (gi_partitioner gi) q n = Inr (length js)"
      using rp.listing[OF gi(2,3)] q gi(4) by metis
    have "js = ids q"
      using js(1) gi(6) q by (intro sorted_distinct_set_unique) (auto simp: lists_part_def strict_sorted_iff)
    then show ?thesis using js(2) by simp
  qed
  then show ?thesis
    using gi(1,5,6) lists_part_place[of "rp_map2loc (gi_partitioner gi)" _ n]
    by (intro exI[of _ gi]) (auto simp: built_partition_def split: if_splits)
qed

theorem graph_index_well_typed_witness:
  "\<exists>gi. gi_init 1 7 (2 ^ 1) = Inr gi \<and> length (gi_index_arr gi) = 2 ^ 1"
  using graph_index_well_typed[of 1 1 7] by auto

text \<open>
  C32. Round trip through the graph index: every vertex of the graph is found, the element found is the vertex, its address leads
  back to the id, and it belongs to the partition it is mapped to and to no other.
\<close>

theorem graph_index_round_trip:
  assumes "r + k < 31" "n + 2 ^ (r + k) \<le> 2 ^ 32" "gi_init r n (2 ^ k) = Inr gi" "unat i < n"
  shows "\<exists>v. gi_get_vertex gi i = Inr v \<and> vertex_at gi v = Some i \<and> gi_get_vertex_id gi v = i
    \<and> (\<forall>q<2 ^ k. gi_belong2part gi v q = Inr (q = rp_map (gi_partitioner gi) i))"
proof -
  let ?p = "gi_partitioner gi"
  obtain ids where gi: "rp_ok ?p" "rp_fits ?p n" "rp_get_num_partitions ?p = 2 ^ k"
    "gi_index_arr gi = map (\<lambda>q. built_partition q n (ids q)) [0..<2 ^ k]"
    "\<forall>q<2 ^ k. lists_part (rp_map2loc ?p) q n (ids q)"
    using gi_init_ok[OF assms(1,2)] assms(3) by (metis sum.inject(2))
  obtain q j where loc: "rp_map2loc ?p i = (q, j)" by (cases "rp_map2loc ?p i")
  have q: "q < 2 ^ k" "rp_map ?p i = q"
    using rp.part_less[OF gi(1), of i] gi(3) loc rp_map2loc_eq[OF gi(1), of i] by auto
  have part: "lists_part (rp_map2loc ?p) q n (ids q)" using gi(5) q(1) by simp
  obtain js where "rp_get_all_vertices_in_part ?p q n [] = Some (Inr js)" and js: "j < length js" "js ! j = i"
    "lists_part (rp_map2loc ?p) q n js"
    using rp.place_in_listing[OF gi(1,2) assms(4) loc] rp.listing[OF gi(1,2)] q(1) gi(3)
    by (metis option.inject sum.inject(2))
  have "js = ids q"
    using js(3) part by (intro sorted_distinct_set_unique) (auto simp: lists_part_def strict_sorted_iff)
  then have j: "j < length (ids q)" "ids q ! j = i" using js by simp_all
  have "0 < (2 :: nat) ^ (r + k)" by simp
  then have "n < 2 ^ 32" using assms(2) by linarith
  note built = glp_get_vertex_id_built[OF gi(1) part j(1) this]
  have "gi_get_vertex gi i = Inr (Main_vertex q j)"
    using loc q(1) j(1) gi(4) by (auto simp: gi_get_vertex_def at_part_def glp_get_vertex_def built_partition_def)
  moreover have "vertex_at gi (Main_vertex q j) = Some i"
    using q(1) j gi(4) by (auto simp: vertex_at_def built_partition_def)
  moreover have "gi_get_vertex_id gi (Main_vertex q j) = i"
    unfolding gi_get_vertex_id_def gi(4)
    by (rule find_vertex_id_built[of _ q]) (use built q(1) j(2) in auto)
  moreover have "gi_belong2part gi (Main_vertex q j) q' = Inr (q' = rp_map ?p i)" if "q' < 2 ^ k" for q'
    using that built q j(2) gi(4) by (cases "q' = q") (auto simp: gi_belong2part_def at_part_def)
  ultimately show ?thesis by blast
qed

theorem graph_index_round_trip_witness:
  "\<exists>gi v. gi_init 1 7 (2 ^ 1) = Inr gi \<and> gi_get_vertex gi 5 = Inr v \<and> gi_get_vertex_id gi v = 5"
proof -
  obtain gi where gi: "gi_init 1 7 (2 ^ 1) = Inr gi" using gi_init_ok[of 1 1 7] by auto
  have "unat (5 :: vertex_id) < 7" by simp
  then show ?thesis using graph_index_round_trip[of 1 1 7 gi 5] gi by auto
qed

text \<open>
  Looking up the vertical parts of a vertex that has none does not fail: it returns the parts of the next larger
  vertex that has some.
\<close>

theorem vpart_lookup_returns_other_vertex:
  assumes "sorted arr" "a \<in> set arr" "i < a" "i \<notin> set arr" "0 < num_vparts" "glp_part_vertex_arrs g = replicate num_vparts arr"
    "0 < num"
  shows "\<exists>v vs off. glp_get_vpart_vertices_of g i num = Inr ((v, True) # vs) \<and> v = Part_vertex (glp_part_id g) 0 off
    \<and> off < length arr \<and> i < arr ! off"
proof -
  let ?off = "lower_bound arr i"
  have "takeWhile (\<lambda>y. y < i) arr \<noteq> arr" using assms(2,3) by (metis less_asym set_takeWhileD)
  then have len: "?off < length arr"
    using length_takeWhile_le[of "\<lambda>y. y < i" arr] takeWhile_eq_take[of "\<lambda>y. y < i" arr]
    unfolding lower_bound_def by (metis le_neq_implies_less take_all_iff order_refl)
  have "\<not> arr ! ?off < i" unfolding lower_bound_def by (rule nth_length_takeWhile) (use len in \<open>simp add: lower_bound_def\<close>)
  moreover have "arr ! ?off \<noteq> i" using assms(4) nth_mem[OF len] by metis
  ultimately have gt: "i < arr ! ?off" by simp
  have "[0..<min num num_vparts] = 0 # [1..<min num num_vparts]" using assms(5,7) by (simp add: upt_conv_Cons)
  then have "glp_get_vpart_vertices_of g i num
      = Inr ((Part_vertex (glp_part_id g) 0 ?off, True) # map (\<lambda>v. (Part_vertex (glp_part_id g) v ?off, True)) [1..<min num num_vparts])"
    using assms(5,6) len by (simp add: glp_get_vpart_vertices_of_def Let_def)
  then show ?thesis using len gt by blast
qed

theorem vpart_lookup_returns_other_vertex_witness:
  "\<exists>v vs off. glp_get_vpart_vertices_of
      \<lparr>glp_part_id = 0, glp_tot_num_vertices = 9, glp_num_vertices = 9, glp_vertex_arr = None,
       glp_part_vertex_arrs = replicate 2 [2, 6]\<rparr> 4 1
     = Inr ((v, True) # vs) \<and> v = Part_vertex 0 0 off \<and> off < length [2, 6 :: vertex_id] \<and> 4 < [2, 6 :: vertex_id] ! off"
  using vpart_lookup_returns_other_vertex[of "[2, 6]" 6 4 2 "\<lparr>glp_part_id = 0, glp_tot_num_vertices = 9, glp_num_vertices = 9,
      glp_vertex_arr = None, glp_part_vertex_arrs = replicate 2 [2, 6]\<rparr>" 1]
  by simp

end
