(* ===== verification/Vertex_Queue_Laws.thy ===== *)
theory Vertex_Queue_Laws
  imports Vertex_Queue Graph_Index_Props
begin

text \<open>
  The default queue as a multiset: \<open>pending\<close> are the vertices it has still to deliver (the rest of the buffer, the
  active vertices in the set, the vertical parts of the partitions not yet scanned). A fetch takes vertices out of
  \<open>pending\<close>, and it takes some as long as there are some.
\<close>

section \<open>Slices of the buffer\<close>

definition sp_rest :: "scan_pointer \<Rightarrow> 'a list \<Rightarrow> 'a list" where
  "sp_rest sp buf = (if sp_forward sp then drop (sp_idx sp) buf else take (sp_idx sp) buf)"

lemma sp_wf_new: "n < 2 ^ 32 \<Longrightarrow> sp_wf (new_scan_pointer n fwd)" "sp_size (new_scan_pointer n fwd) = n"
  "sp_rest (new_scan_pointer (length buf) fwd) buf = buf"
  by (simp_all add: sp_wf_def new_scan_pointer_def sp_rest_def)

lemma length_sp_rest: "sp_wf sp \<Longrightarrow> sp_size sp = length buf \<Longrightarrow> length (sp_rest sp buf) = sp_get_num_remaining sp"
  by (auto simp: sp_remaining sp_rest_def sp_hi_def sp_lo_def sp_wf_def)

lemma sp_take_rest:
  assumes "sp_wf sp" "sp_size sp = length buf" "k \<le> sp_get_num_remaining sp"
  defines "sp' \<equiv> sp_move k sp"
  shows "sp_wf sp'" "sp_size sp' = length buf"
    "mset (sp_rest sp buf) = mset (take k (drop (min (sp_idx sp) (sp_idx sp')) buf)) + mset (sp_rest sp' buf)"
    "length (take k (drop (min (sp_idx sp) (sp_idx sp')) buf)) = k"
proof -
  have rem: "k \<le> sp_hi sp - sp_lo sp" using assms(1,3) by (simp add: sp_remaining)
  have k: "k < 2 ^ 32" using assms(1) rem by (auto simp: sp_wf_def sp_hi_def sp_lo_def split: if_splits)
  show "sp_wf sp'" "sp_size sp' = length buf" using sp_move_wf[OF assms(1) k] assms(2) by (simp_all add: sp'_def)
  have "mset (sp_rest sp buf) = mset (take k (drop (min (sp_idx sp) (sp_idx sp')) buf)) + mset (sp_rest sp' buf)
      \<and> length (take k (drop (min (sp_idx sp) (sp_idx sp')) buf)) = k"
  proof (cases "sp_forward sp")
    case True
    then have le: "sp_idx sp + k \<le> length buf" using rem assms(1,2) by (auto simp: sp_hi_def sp_lo_def sp_wf_def)
    have nowrap: "(sp_idx sp + k) mod 2 ^ 64 = sp_idx sp + k" using assms(1) k by (simp add: sp_wf_def)
    have "sp' = sp\<lparr>sp_idx := sp_idx sp + k\<rparr>" using True le assms(2) nowrap by (simp add: sp'_def sp_move_def)
    moreover have "drop (sp_idx sp) buf = take k (drop (sp_idx sp) buf) @ drop (sp_idx sp + k) buf"
      by (metis add.commute append_take_drop_id drop_drop)
    then have "mset (drop (sp_idx sp) buf) = mset (take k (drop (sp_idx sp) buf)) + mset (drop (sp_idx sp + k) buf)"
      by (metis mset_append)
    ultimately show ?thesis using True le by (simp add: sp_rest_def)
  next
    case False
    then have le: "k \<le> sp_idx sp" "sp_idx sp \<le> length buf" using rem assms(1,2) by (auto simp: sp_hi_def sp_lo_def sp_wf_def)
    have "sp' = sp\<lparr>sp_idx := sp_idx sp - k\<rparr>" using False le by (simp add: sp'_def sp_move_def)
    moreover have "take (sp_idx sp) buf = take (sp_idx sp - k) buf @ take k (drop (sp_idx sp - k) buf)"
      using le take_add[of "sp_idx sp - k" k buf] by simp
    then have "mset (take (sp_idx sp) buf) = mset (take k (drop (sp_idx sp - k) buf)) + mset (take (sp_idx sp - k) buf)"
      by (metis mset_append union_commute)
    ultimately show ?thesis using False le by (simp add: sp_rest_def)
  qed
  then show "mset (sp_rest sp buf) = mset (take k (drop (min (sp_idx sp) (sp_idx sp')) buf)) + mset (sp_rest sp' buf)"
    "length (take k (drop (min (sp_idx sp) (sp_idx sp')) buf)) = k" by simp_all
qed

section \<open>Pending vertices\<close>

definition vpart_pointers :: "nat \<Rightarrow> nat \<Rightarrow> vpart_vertex_pointer list \<Rightarrow> compute_vertex_pointer list" where
  "vpart_pointers part_id v ps = map (\<lambda>p. (Part_vertex part_id v (snd p), True)) ps"

definition map_pending :: "vertex_queue \<Rightarrow> compute_vertex_pointer multiset" where
  "map_pending q = image_mset (\<lambda>i. (Main_vertex (vq_part_id q) i, False)) (mset_set (as_active (vq_active_vertices q)))"

definition vpart_pending :: "nat \<Rightarrow> vertex_queue \<Rightarrow> compute_vertex_pointer multiset" where
  "vpart_pending nv q = (\<Sum>v\<in>{vq_curr_vpart q..<nv}. mset (vpart_pointers (vq_part_id q) v (vq_vpart_ps q)))"

definition buf_pending :: "vertex_queue \<Rightarrow> compute_vertex_pointer multiset" where
  "buf_pending q = mset (sp_rest (vq_buf_fetch_idx q) (vq_vertex_buf q))"

definition pending :: "nat \<Rightarrow> vertex_queue \<Rightarrow> compute_vertex_pointer multiset" where
  "pending nv q = buf_pending q + map_pending q + vpart_pending nv q"

text \<open>The partition the queue belongs to has the arrays the queue refers to.\<close>

definition vq_part_ok :: "graph_index \<Rightarrow> nat \<Rightarrow> vertex_queue \<Rightarrow> bool" where
  "vq_part_ok gi nv q \<longleftrightarrow> vq_part_id q < length (gi_index_arr gi) \<and>
     (let g = gi_index_arr gi ! vq_part_id q in
      glp_part_id g = vq_part_id q \<and> as_cap (vq_active_vertices q) \<le> glp_num_vertices g
      \<and> (0 < glp_num_vertices g \<longrightarrow> glp_vertex_arr g \<noteq> None)
      \<and> (vq_vpart_ps q = [] \<or> length (glp_part_vertex_arrs g) = nv
           \<and> length (vq_vpart_ps q) \<le> glp_get_num_vpart_vertices g \<and> glp_get_num_vpart_vertices g < 2 ^ 32))"

definition vq_inv :: "graph_index \<Rightarrow> nat \<Rightarrow> vertex_queue \<Rightarrow> bool" where
  "vq_inv gi nv q \<longleftrightarrow> sp_wf (vq_buf_fetch_idx q) \<and> sp_size (vq_buf_fetch_idx q) = length (vq_vertex_buf q)
     \<and> as_ready (vq_active_vertices q) \<and> vq_part_ok gi nv q
     \<and> vq_num_active q = size (pending nv q) \<and> vq_num_active q < 2 ^ 64"

lemma finite_as_active [simp]: "finite (as_active s)"
  by (simp add: as_active_def)

lemma as_active_cap: "as_wf s \<Longrightarrow> i \<in> as_active s \<Longrightarrow> i < as_cap s"
  by (auto simp: as_active_def as_wf_def bm_wf_def)

lemma gi_get_local_vertices_ok:
  assumes "vq_part_ok gi nv q" "\<forall>i\<in>set ids. i < as_cap (vq_active_vertices q)"
  shows "gi_get_local_vertices gi (vq_part_id q) ids = Inr (map (Main_vertex (vq_part_id q)) ids)"
  unfolding gi_get_local_vertices_def
  by (rule map_res_eq)
     (use assms in \<open>fastforce simp: vq_part_ok_def gi_get_local_vertex_def at_part_def glp_get_vertex_def Let_def\<close>)

section \<open>The steps of a fetch\<close>

lemma vq_take_ok:
  assumes "sp_wf (vq_buf_fetch_idx q)" "sp_size (vq_buf_fetch_idx q) = length (vq_vertex_buf q)"
  shows "\<exists>sp vs. vq_take num q = (q\<lparr>vq_buf_fetch_idx := sp\<rparr>, vs) \<and> sp_wf sp \<and> sp_size sp = length (vq_vertex_buf q)
    \<and> buf_pending q = mset vs + mset (sp_rest sp (vq_vertex_buf q))
    \<and> length vs = min num (sp_get_num_remaining (vq_buf_fetch_idx q))"
proof (cases "sp_get_num_remaining (vq_buf_fetch_idx q) > 0 \<and> num > 0")
  case True
  let ?k = "min num (sp_get_num_remaining (vq_buf_fetch_idx q))"
  note t = sp_take_rest[OF assms, of ?k, simplified]
  show ?thesis
    using True t by (auto simp: vq_take_def Let_def buf_pending_def)
next
  case False
  then show ?thesis
    using assms by (intro exI[of _ "vq_buf_fetch_idx q"] exI[of _ "[]"]) (auto simp: vq_take_def buf_pending_def)
qed

lemma buf_empty_iff:
  assumes "sp_wf (vq_buf_fetch_idx q)" "sp_size (vq_buf_fetch_idx q) = length (vq_vertex_buf q)"
  shows "sp_get_num_remaining (vq_buf_fetch_idx q) = size (buf_pending q)"
  using length_sp_rest[OF assms] by (simp add: buf_pending_def)

lemma vq_fetch_from_map_ok:
  assumes "sp_get_num_remaining (vq_buf_fetch_idx q) = 0" "as_ready (vq_active_vertices q)" "vq_part_ok gi nv q"
  shows "\<exists>q'. vq_fetch_from_map gi forward q = Inr q' \<and> sp_wf (vq_buf_fetch_idx q')
    \<and> sp_size (vq_buf_fetch_idx q') = length (vq_vertex_buf q') \<and> as_ready (vq_active_vertices q') \<and> vq_part_ok gi nv q'
    \<and> map_pending q = buf_pending q' + map_pending q' \<and> vpart_pending nv q' = vpart_pending nv q
    \<and> vq_num_active q' = vq_num_active q \<and> vq_vpart_ps q' = vq_vpart_ps q \<and> vq_curr_vpart q' = vq_curr_vpart q
    \<and> vq_part_id q' = vq_part_id q
    \<and> sp_get_num_remaining (vq_buf_fetch_idx q') = length (vq_vertex_buf q') \<and> (vq_vertex_buf q' = [] \<longleftrightarrow> map_pending q = {#})"
proof -
  let ?s = "vq_active_vertices q"
  obtain s new where s: "fetch_reset_active_vertices VERTEX_BUF_SIZE ?s [] = Some (Inr (s, new))" "as_ready s"
    "as_cap s = as_cap ?s" "distinct new" "set new \<subseteq> as_active ?s" "as_active s = as_active ?s - set new"
    "as_active ?s \<noteq> {} \<longrightarrow> new \<noteq> []"
    using fetch_reset_ok[OF assms(2), of VERTEX_BUF_SIZE] by (auto simp: VERTEX_BUF_SIZE_def)
  have wf: "as_wf ?s" using assms(2) by (simp add: as_ready_def)
  have lt: "\<forall>i\<in>set new. i < as_cap ?s" using s(5) as_active_cap[OF wf] by auto
  have len: "length new < 2 ^ 32"
  proof -
    have "length new = card (set new)" using s(4) by (simp add: distinct_card)
    also have "\<dots> \<le> as_cap ?s" using lt card_mono[of "{..<as_cap ?s}" "set new"] by auto
    also have "\<dots> < 2 ^ 32" using wf by (simp add: as_wf_def)
    finally show ?thesis .
  qed
  let ?buf = "map (\<lambda>v. (v, False)) (map (Main_vertex (vq_part_id q)) new)"
  let ?q = "q\<lparr>vq_vertex_buf := ?buf, vq_active_vertices := s, vq_buf_fetch_idx := new_scan_pointer (length new) forward\<rparr>"
  have run: "vq_fetch_from_map gi forward q = Inr ?q"
    using assms(1) s(1) gi_get_local_vertices_ok[OF assms(3) lt] by (simp add: vq_fetch_from_map_def returns_def)
  have sp: "sp_wf (new_scan_pointer (length new) forward)" using sp_wf_new(1)[OF len] .
  have "mset_set (as_active ?s) = mset new + mset_set (as_active s)"
  proof -
    have "mset_set (as_active ?s) = mset_set (set new \<union> as_active s)" using s(5,6) by (simp add: Un_absorb1)
    also have "\<dots> = mset_set (set new) + mset_set (as_active s)" using s(6) by (intro mset_set_Union) auto
    finally show ?thesis using s(4) by (simp add: mset_set_set)
  qed
  moreover have rest: "sp_rest (new_scan_pointer (length new) forward) ?buf = ?buf"
    using sp_wf_new(3)[of ?buf forward] by simp
  ultimately have "map_pending q = buf_pending ?q + map_pending ?q"
    by (simp add: map_pending_def buf_pending_def multiset.map_comp comp_def)
  moreover have "vq_part_ok gi nv ?q" using assms(3) s(3) by (simp add: vq_part_ok_def)
  moreover have "sp_get_num_remaining (new_scan_pointer (length new) forward) = length new"
    using length_sp_rest[OF sp, of ?buf] rest by (simp add: sp_wf_new(2))
  moreover have "new = [] \<longleftrightarrow> map_pending q = {#}" using s(5,7) by (auto simp: map_pending_def mset_set_empty_iff)
  ultimately show ?thesis
    using run sp s(2) by (intro exI[of _ ?q]) (simp add: sp_wf_new(2) vpart_pending_def)
qed

lemma vq_fetch_vparts_ok:
  assumes "sp_get_num_remaining (vq_buf_fetch_idx q) = 0" "vq_part_ok gi nv q" "vq_vpart_ps q \<noteq> []"
    "vq_curr_vpart q < nv"
  shows "\<exists>q'. vq_fetch_vparts gi nv q = Inr q' \<and> sp_wf (vq_buf_fetch_idx q')
    \<and> sp_size (vq_buf_fetch_idx q') = length (vq_vertex_buf q') \<and> vq_active_vertices q' = vq_active_vertices q
    \<and> vq_part_ok gi nv q' \<and> vpart_pending nv q = buf_pending q' + vpart_pending nv q' \<and> map_pending q' = map_pending q
    \<and> vq_num_active q' = vq_num_active q \<and> buf_pending q' \<noteq> {#}"
proof -
  let ?v = "vq_curr_vpart q" let ?vs = "vpart_pointers (vq_part_id q) (vq_curr_vpart q) (vq_vpart_ps q)"
  let ?q = "q\<lparr>vq_vertex_buf := ?vs, vq_curr_vpart := ?v + 1, vq_buf_fetch_idx := new_scan_pointer (length ?vs) True\<rparr>"
  have run: "vq_fetch_vparts gi nv q = Inr ?q"
    using assms by (simp add: vq_fetch_vparts_def vq_part_ok_def at_part_def glp_get_vpart_vertices_def Let_def vpart_pointers_def)
  have len: "length ?vs < 2 ^ 32" using assms(2,3) by (auto simp: vq_part_ok_def Let_def vpart_pointers_def)
  have buf: "buf_pending ?q = mset ?vs"
    by (simp add: buf_pending_def sp_wf_new(3))
  have "{?v..<nv} = insert ?v {?v + 1..<nv}" using assms(4) by auto
  then have "vpart_pending nv q = mset ?vs + vpart_pending nv ?q"
    by (simp add: vpart_pending_def)
  then show ?thesis
    using run buf sp_wf_new(1)[OF len] assms(2,3)
    by (intro exI[of _ ?q]) (simp add: sp_wf_new(2) map_pending_def vq_part_ok_def vpart_pointers_def)
qed

lemma vpart_pending_empty: "vq_vpart_ps q = [] \<Longrightarrow> vpart_pending nv q = {#}"
  by (simp add: vpart_pending_def vpart_pointers_def)

lemma vpart_pending_done: "nv \<le> vq_curr_vpart q \<Longrightarrow> vpart_pending nv q = {#}"
  by (simp add: vpart_pending_def)

text \<open>Refilling an empty buffer: from the map, and when that gives nothing, from the next vertical partition.\<close>

lemma vq_refill_ok:
  assumes "sp_get_num_remaining (vq_buf_fetch_idx q) = 0" "as_ready (vq_active_vertices q)" "vq_part_ok gi nv q"
  shows "\<exists>q'. bind_res (vq_fetch_from_map gi forward q) (\<lambda>q2.
        if vq_vertex_buf q2 = [] \<and> vq_vpart_ps q2 \<noteq> [] then vq_fetch_vparts gi nv q2 else Inr q2) = Inr q'
    \<and> sp_wf (vq_buf_fetch_idx q') \<and> sp_size (vq_buf_fetch_idx q') = length (vq_vertex_buf q')
    \<and> as_ready (vq_active_vertices q') \<and> vq_part_ok gi nv q'
    \<and> map_pending q + vpart_pending nv q = pending nv q' \<and> vq_num_active q' = vq_num_active q
    \<and> (pending nv q' \<noteq> {#} \<longrightarrow> buf_pending q' \<noteq> {#})"
proof -
  obtain q1 where q1: "vq_fetch_from_map gi forward q = Inr q1" "sp_wf (vq_buf_fetch_idx q1)"
    "sp_size (vq_buf_fetch_idx q1) = length (vq_vertex_buf q1)" "as_ready (vq_active_vertices q1)" "vq_part_ok gi nv q1"
    "map_pending q = buf_pending q1 + map_pending q1" "vpart_pending nv q1 = vpart_pending nv q"
    "vq_num_active q1 = vq_num_active q"
    "sp_get_num_remaining (vq_buf_fetch_idx q1) = length (vq_vertex_buf q1)" "vq_vertex_buf q1 = [] \<longleftrightarrow> map_pending q = {#}"
    using vq_fetch_from_map_ok[OF assms, of forward] by blast
  show ?thesis
  proof (cases "vq_vertex_buf q1 = [] \<and> vq_vpart_ps q1 \<noteq> [] \<and> vq_curr_vpart q1 < nv")
    case True
    then have rem: "sp_get_num_remaining (vq_buf_fetch_idx q1) = 0" using q1(9) by simp
    obtain q2 where q2: "vq_fetch_vparts gi nv q1 = Inr q2" "sp_wf (vq_buf_fetch_idx q2)"
      "sp_size (vq_buf_fetch_idx q2) = length (vq_vertex_buf q2)" "vq_active_vertices q2 = vq_active_vertices q1"
      "vq_part_ok gi nv q2" "vpart_pending nv q1 = buf_pending q2 + vpart_pending nv q2" "map_pending q2 = map_pending q1"
      "vq_num_active q2 = vq_num_active q1" "buf_pending q2 \<noteq> {#}"
      using vq_fetch_vparts_ok[OF rem q1(5)] True by blast
    have "buf_pending q1 = {#}" using buf_empty_iff[OF q1(2,3)] rem by simp
    then have "map_pending q + vpart_pending nv q = pending nv q2"
      using q1(6,7) q2(6,7) by (simp add: pending_def)
    then show ?thesis using q1 q2 True by auto
  next
    case False
    have eq: "map_pending q + vpart_pending nv q = pending nv q1" using q1(6,7) by (simp add: pending_def)
    have "buf_pending q1 \<noteq> {#}" if "pending nv q1 \<noteq> {#}"
    proof (cases "vq_vertex_buf q1 = []")
      case True
      then have "vpart_pending nv q1 = {#}" using False vpart_pending_empty vpart_pending_done by (metis not_le)
      then show ?thesis using that True q1(6,7,10) eq by auto
    next
      case False
      then show ?thesis using buf_empty_iff[OF q1(2,3)] q1(9) by auto
    qed
    moreover have "vq_fetch_vparts gi nv q1 = Inr q1" if "\<not> vq_curr_vpart q1 < nv"
      using that by (simp add: vq_fetch_vparts_def)
    ultimately show ?thesis using q1 eq False by auto
  qed
qed

lemma pending_update_idx:
  "pending nv (q\<lparr>vq_buf_fetch_idx := sp\<rparr>) = mset (sp_rest sp (vq_vertex_buf q)) + map_pending q + vpart_pending nv q"
  by (simp add: pending_def buf_pending_def map_pending_def vpart_pending_def)

lemma pending_update_num [simp]: "pending nv (q\<lparr>vq_num_active := n\<rparr>) = pending nv q"
  by (simp add: pending_def buf_pending_def map_pending_def vpart_pending_def)

lemma vq_part_ok_updates [simp]:
  "vq_part_ok gi nv (q\<lparr>vq_num_active := n\<rparr>) = vq_part_ok gi nv q"
  "vq_part_ok gi nv (q\<lparr>vq_buf_fetch_idx := sp\<rparr>) = vq_part_ok gi nv q"
  by (simp_all add: vq_part_ok_def)

text \<open>The second taking and the bookkeeping at the end of a fetch.\<close>

lemma vq_take_finish:
  assumes "sp_wf (vq_buf_fetch_idx q)" "sp_size (vq_buf_fetch_idx q) = length (vq_vertex_buf q)"
    "as_ready (vq_active_vertices q)" "vq_part_ok gi nv q" "vq_num_active q = length first + size (pending nv q)"
    "vq_num_active q < 2 ^ 64"
  shows "\<exists>q' again. vq_take num q = (q', again) \<and> length again = min num (size (buf_pending q))
    \<and> pending nv q = mset again + pending nv q'
    \<and> vq_inv gi nv (q'\<lparr>vq_num_active := size_sub (vq_num_active q') (length (first @ again))\<rparr>)"
proof -
  obtain sp vs where t: "vq_take num q = (q\<lparr>vq_buf_fetch_idx := sp\<rparr>, vs)" "sp_wf sp" "sp_size sp = length (vq_vertex_buf q)"
    "buf_pending q = mset vs + mset (sp_rest sp (vq_vertex_buf q))"
    "length vs = min num (sp_get_num_remaining (vq_buf_fetch_idx q))"
    using vq_take_ok[OF assms(1,2), of num] by blast
  have p: "pending nv q = mset vs + pending nv (q\<lparr>vq_buf_fetch_idx := sp\<rparr>)"
    unfolding pending_update_idx using t(4) by (simp add: pending_def)
  then have "size (pending nv q) = length vs + size (pending nv (q\<lparr>vq_buf_fetch_idx := sp\<rparr>))" by simp
  then have "size_sub (vq_num_active q) (length (first @ vs)) = size (pending nv (q\<lparr>vq_buf_fetch_idx := sp\<rparr>))"
    using assms(5,6) size_sub_eq[of "length (first @ vs)" "vq_num_active q"] by simp
  moreover have "size (pending nv (q\<lparr>vq_buf_fetch_idx := sp\<rparr>)) < 2 ^ 64"
    using assms(5,6) \<open>size (pending nv q) = _\<close> by linarith
  ultimately have "vq_inv gi nv (q\<lparr>vq_buf_fetch_idx := sp,
      vq_num_active := size_sub (vq_num_active (q\<lparr>vq_buf_fetch_idx := sp\<rparr>)) (length (first @ vs))\<rparr>)"
    using t(2,3) assms(3,4) by (simp add: vq_inv_def)
  moreover have "length vs = min num (size (buf_pending q))" using t(5) buf_empty_iff[OF assms(1,2)] by (rule subst[rotated])
  ultimately show ?thesis using t(1) p by blast
qed

lemma vq_fetch_ok:
  assumes inv: "vq_inv gi nv q" and num: "0 < num"
  shows "\<exists>q' vs. vq_fetch gi nv forward num q = Inr (q', vs) \<and> vq_inv gi nv q' \<and> pending nv q = mset vs + pending nv q'
    \<and> length vs \<le> num \<and> (pending nv q \<noteq> {#} \<longrightarrow> vs \<noteq> [])"
proof (cases "vq_num_active q = 0")
  case True
  then have "pending nv q = {#}" using inv by (simp add: vq_inv_def)
  then show ?thesis using True inv by (simp add: vq_fetch_def)
next
  case False
  have q: "sp_wf (vq_buf_fetch_idx q)" "sp_size (vq_buf_fetch_idx q) = length (vq_vertex_buf q)"
    "as_ready (vq_active_vertices q)" "vq_part_ok gi nv q" "vq_num_active q = size (pending nv q)" "vq_num_active q < 2 ^ 64"
    using inv by (simp_all add: vq_inv_def)
  obtain sp first where t: "vq_take num q = (q\<lparr>vq_buf_fetch_idx := sp\<rparr>, first)" "sp_wf sp"
    "sp_size sp = length (vq_vertex_buf q)" "buf_pending q = mset first + mset (sp_rest sp (vq_vertex_buf q))"
    "length first = min num (sp_get_num_remaining (vq_buf_fetch_idx q))"
    using vq_take_ok[OF q(1,2), of num] by blast
  let ?q1 = "q\<lparr>vq_buf_fetch_idx := sp\<rparr>"
  have p1: "pending nv q = mset first + pending nv ?q1"
    unfolding pending_update_idx using t(4) by (simp add: pending_def)
  have rem1: "sp_get_num_remaining sp = size (buf_pending ?q1)" using buf_empty_iff[of ?q1] t(2,3) by simp
  have "size (buf_pending q) = length first + size (buf_pending ?q1)" using t(4) by (simp add: buf_pending_def)
  then have full: "num = length first \<or> sp_get_num_remaining sp = 0"
    using t(5) buf_empty_iff[OF q(1,2)] rem1 by linarith
  define refill where "refill = (if sp_get_num_remaining sp = 0
      then bind_res (vq_fetch_from_map gi forward ?q1) (\<lambda>q2.
        if vq_vertex_buf q2 = [] \<and> vq_vpart_ps q2 \<noteq> [] then vq_fetch_vparts gi nv q2 else Inr q2)
      else Inr ?q1)"
  have "\<exists>q2. refill = Inr q2 \<and> sp_wf (vq_buf_fetch_idx q2) \<and> sp_size (vq_buf_fetch_idx q2) = length (vq_vertex_buf q2)
      \<and> as_ready (vq_active_vertices q2) \<and> vq_part_ok gi nv q2 \<and> pending nv ?q1 = pending nv q2
      \<and> vq_num_active q2 = vq_num_active q \<and> (pending nv q2 \<noteq> {#} \<longrightarrow> buf_pending q2 \<noteq> {#})"
  proof (cases "sp_get_num_remaining sp = 0")
    case True
    have "buf_pending ?q1 = {#}" using True rem1 by simp
    then have "pending nv ?q1 = map_pending ?q1 + vpart_pending nv ?q1" by (simp add: pending_def)
    then show ?thesis using vq_refill_ok[of ?q1 gi nv forward] True q(3,4) by (auto simp: refill_def)
  next
    case False
    then show ?thesis using t(2,3) q(3,4) rem1 by (intro exI[of _ ?q1]) (auto simp: refill_def)
  qed
  then obtain q2 where q2: "refill = Inr q2" "sp_wf (vq_buf_fetch_idx q2)"
    "sp_size (vq_buf_fetch_idx q2) = length (vq_vertex_buf q2)" "as_ready (vq_active_vertices q2)" "vq_part_ok gi nv q2"
    "pending nv ?q1 = pending nv q2" "vq_num_active q2 = vq_num_active q" "pending nv q2 \<noteq> {#} \<longrightarrow> buf_pending q2 \<noteq> {#}"
    by blast
  have "vq_num_active q2 = length first + size (pending nv q2)" using q(5) q2(6,7) p1 by simp
  then obtain q3 again where q3: "vq_take (num - length first) q2 = (q3, again)"
    "length again = min (num - length first) (size (buf_pending q2))" "pending nv q2 = mset again + pending nv q3"
    "vq_inv gi nv (q3\<lparr>vq_num_active := size_sub (vq_num_active q3) (length (first @ again))\<rparr>)"
    using vq_take_finish[OF q2(2-5), of first "num - length first"] q2(7) q(6) by auto
  have "vq_fetch gi nv forward num q
      = Inr (q3\<lparr>vq_num_active := size_sub (vq_num_active q3) (length (first @ again))\<rparr>, first @ again)"
    using False full t(1) q2(1) q3(1) by (simp add: vq_fetch_def refill_def[symmetric])
  moreover have "length (first @ again) \<le> num" using q3(2) t(5) by simp
  moreover have "first @ again \<noteq> []" if "pending nv q \<noteq> {#}"
  proof (cases "first = []")
    case True
    then have "buf_pending q2 \<noteq> {#}" using that p1 q2(6,8) by simp
    then have "0 < size (buf_pending q2)" by (metis gr0I size_eq_0_iff_empty)
    then show ?thesis using q3(2) num True by auto
  qed simp
  moreover have "pending nv q = mset (first @ again)
      + pending nv (q3\<lparr>vq_num_active := size_sub (vq_num_active q3) (length (first @ again))\<rparr>)"
    using q3(3) p1 q2(6) by simp
  ultimately show ?thesis using q3(4) by blast
qed

section \<open>Sequences of fetches\<close>

text \<open>
  All fetches of an iteration, by the owner of the queue and by the threads that steal from it, in the order in which they get the
  lock; each asks for some number of vertices and may scan in its own direction.
\<close>

fun vq_fetches ::
  "graph_index \<Rightarrow> nat \<Rightarrow> (bool \<times> nat) list \<Rightarrow> vertex_queue \<Rightarrow> (vertex_queue \<times> compute_vertex_pointer list) res" where
  "vq_fetches gi nv [] q = Inr (q, [])"
| "vq_fetches gi nv ((forward, num) # reqs) q =
     bind_res (vq_fetch gi nv forward num q) (\<lambda>(q1, vs).
     bind_res (vq_fetches gi nv reqs q1) (\<lambda>(q2, ws). Inr (q2, vs @ ws)))"

lemma vq_fetches_ok:
  assumes "vq_inv gi nv q" "\<forall>(f, num)\<in>set reqs. 0 < num"
  shows "\<exists>q' vs. vq_fetches gi nv reqs q = Inr (q', vs) \<and> vq_inv gi nv q' \<and> pending nv q = mset vs + pending nv q'
    \<and> min (length reqs) (size (pending nv q)) \<le> length vs"
  using assms
proof (induction reqs arbitrary: q)
  case (Cons r reqs)
  obtain f num where r: "r = (f, num)" "0 < num" using Cons.prems(2) by (cases r) auto
  obtain q1 vs where q1: "vq_fetch gi nv f num q = Inr (q1, vs)" "vq_inv gi nv q1" "pending nv q = mset vs + pending nv q1"
    "pending nv q \<noteq> {#} \<longrightarrow> vs \<noteq> []"
    using vq_fetch_ok[OF Cons.prems(1) r(2)] by blast
  obtain q2 ws where q2: "vq_fetches gi nv reqs q1 = Inr (q2, ws)" "vq_inv gi nv q2" "pending nv q1 = mset ws + pending nv q2"
    "min (length reqs) (size (pending nv q1)) \<le> length ws"
    using Cons.IH[OF q1(2)] Cons.prems(2) by auto
  have sizes: "size (pending nv q) = length vs + size (pending nv q1)" using q1(3) by simp
  have "min (length (r # reqs)) (size (pending nv q)) \<le> length (vs @ ws)"
  proof (cases "pending nv q = {#}")
    case False
    then have "0 < length vs" using q1(4) by simp
    then show ?thesis using q2(4) sizes unfolding length_append list.size by linarith
  qed simp
  then show ?case using q1 q2 r(1) by simp
qed simp

section \<open>Starting an iteration\<close>

text \<open>The offsets of the vertically partitioned vertices of a partition.\<close>

definition vpart_offs :: "range_partitioner \<Rightarrow> vpart_vertex_pointer list \<Rightarrow> nat list" where
  "vpart_offs p vs = map (\<lambda>v. snd (rp_map2loc p (fst v))) vs"

lemma take_active_vparts_ok:
  assumes "as_wf s" "active_v s = []" "distinct (vpart_offs p vs)" "\<forall>i\<in>set (vpart_offs p vs). i < as_cap s"
    and "card (as_active s) \<le> num" "num < 2 ^ 64"
  shows "\<exists>s'. take_active_vparts p vs (s, ps, num)
      = Inr (s', ps @ filter (\<lambda>v. snd (rp_map2loc p (fst v)) \<in> as_active s) vs,
             num - card (as_active s \<inter> set (vpart_offs p vs)))
    \<and> as_wf s' \<and> active_v s' = [] \<and> as_cap s' = as_cap s \<and> as_active s' = as_active s - set (vpart_offs p vs)"
  using assms
proof (induction vs arbitrary: s ps num)
  case (Cons v vs)
  obtain q off where loc: "rp_map2loc p (fst v) = (q, off)" by (cases "rp_map2loc p (fst v)")
  have off: "off < as_cap s" "off \<notin> set (vpart_offs p vs)" using Cons.prems(3,4) loc by (simp_all add: vpart_offs_def)
  have active: "is_active s off = Inr (off \<in> as_active s)"
    using bm.get_in[of "active_map s" off] Cons.prems(1,2) off(1) by (simp add: is_active_def as_wf_def as_active_def)
  show ?case
  proof (cases "off \<in> as_active s")
    case True
    obtain m where m: "bm_reset off (active_map s) = Inr m" "bm_wf m" "max_num_bits m = as_cap s"
      "bm_bits m = bm_bits (active_map s) - {off}"
      using bm.rem_in[of "active_map s" off] Cons.prems(1) off(1) by (auto simp: as_wf_def)
    let ?s = "s\<lparr>active_map := m\<rparr>"
    have reset: "reset_active_vertex off s = Inr ?s" using m(1) Cons.prems(2) by (simp add: reset_active_vertex_def)
    have act: "as_active ?s = as_active s - {off}" using m(4) Cons.prems(2) by (simp add: as_active_def)
    have wf: "as_wf ?s"
      using Cons.prems(1,2) m by (auto simp: as_wf_def bm_get_num_longs_def)
    have card: "card (as_active ?s) = card (as_active s) - 1" using act True by simp
    have pos: "0 < card (as_active s)" using True card_gt_0_iff[of "as_active s"] by auto
    have num: "size_sub num 1 = num - 1" using size_sub_eq[of 1 num] pos Cons.prems(5,6) by simp
    have "as_active s \<inter> set (vpart_offs p (v # vs)) = insert off (as_active ?s \<inter> set (vpart_offs p vs))"
      using True act loc off(2) by (auto simp: vpart_offs_def)
    then have inter: "card (as_active s \<inter> set (vpart_offs p (v # vs))) = Suc (card (as_active ?s \<inter> set (vpart_offs p vs)))"
      using off(2) by simp
    have filt: "filter (\<lambda>v. snd (rp_map2loc p (fst v)) \<in> as_active ?s) vs = filter (\<lambda>v. snd (rp_map2loc p (fst v)) \<in> as_active s) vs"
      using act off(2) by (intro filter_cong) (auto simp: vpart_offs_def)
    obtain s' where "take_active_vparts p vs (?s, ps @ [v], num - 1)
        = Inr (s', (ps @ [v]) @ filter (\<lambda>v. snd (rp_map2loc p (fst v)) \<in> as_active ?s) vs,
               num - 1 - card (as_active ?s \<inter> set (vpart_offs p vs)))" "as_wf s'" "active_v s' = []" "as_cap s' = as_cap s"
        "as_active s' = as_active ?s - set (vpart_offs p vs)"
    proof -
      have "card (as_active ?s) \<le> num - 1" "num - 1 < 2 ^ 64" using card Cons.prems(5,6) by linarith+
      moreover have "active_v ?s = []" "distinct (vpart_offs p vs)" "\<forall>i\<in>set (vpart_offs p vs). i < as_cap ?s"
        using Cons.prems m(3) by (simp_all add: vpart_offs_def)
      ultimately show thesis using Cons.IH[OF wf, of "num - 1" "ps @ [v]"] that m(3) by auto
    qed
    then show ?thesis
      using loc active True reset num inter filt act
      by (intro exI[of _ s']) (auto simp: vpart_offs_def)
  next
    case False
    have "as_active s \<inter> set (vpart_offs p (v # vs)) = as_active s \<inter> set (vpart_offs p vs)"
      using False loc by (auto simp: vpart_offs_def)
    moreover have "as_active s - set (vpart_offs p (v # vs)) = as_active s - set (vpart_offs p vs)"
      using False loc by (auto simp: vpart_offs_def)
    ultimately show ?thesis
      using Cons.IH[OF Cons.prems(1,2), of num ps] Cons.prems loc active False by (simp add: vpart_offs_def)
  qed
qed (auto simp: vpart_offs_def)

lemma num_active_card:
  assumes "as_wf s" "distinct (active_v s)"
  shows "get_num_active_vertices s = card (as_active s)" "card (as_active s) < 2 ^ 32"
proof -
  have "length (active_v s) < 2 ^ 32" using assms(1) by (simp add: as_wf_def MAX_ACTIVE_V_def)
  moreover have "card (as_active s) = (if active_v s = [] then card (bm_bits (active_map s)) else length (active_v s))"
    using assms by (auto simp: as_active_def as_wf_def distinct_card)
  ultimately show "get_num_active_vertices s = card (as_active s)" "card (as_active s) < 2 ^ 32"
    using num_set_bits_card[OF assms(1)] by (auto simp: get_num_active_vertices_def)
qed

lemma num_active_empty: "as_wf s \<Longrightarrow> as_active s = {} \<Longrightarrow> get_num_active_vertices s = 0"
  using num_active_card[of s] by (simp add: as_active_def)

section \<open>Notifications\<close>

lemma sorted_list_of_set_split:
  assumes "finite A" "a \<le> (b :: nat)"
  shows "sorted_list_of_set (A \<inter> {..<a}) @ sorted_list_of_set (A \<inter> {a..<b}) = sorted_list_of_set (A \<inter> {..<b})"
proof (rule sorted_distinct_set_unique)
  show "sorted (sorted_list_of_set (A \<inter> {..<a}) @ sorted_list_of_set (A \<inter> {a..<b}))"
    using assms(1) by (auto simp: sorted_append)
qed (use assms in auto)

text \<open>A range that ends at the capacity reaches to the end of the last word.\<close>

lemma bm_get_reset_to_capacity:
  assumes "bm_wf bm" "a \<le> bm_get_num_longs bm" "e = min (64 * b) (max_num_bits bm)"
  shows "\<exists>bm'. bm_get_reset_set_bits_range bm (64 * a) e v = Inr (bm', v @ sorted_list_of_set (bm_bits bm \<inter> {64 * a..<64 * b}))
    \<and> bm_wf bm' \<and> max_num_bits bm' = max_num_bits bm \<and> bm_bits bm' = bm_bits bm - {64 * a..<64 * b}"
proof (cases "64 * b \<le> max_num_bits bm")
  case True
  then show ?thesis using bm_get_reset_range_ok[OF assms(1,2), of b v] assms(3) by simp
next
  case False
  let ?L = "bm_get_num_longs bm"
  have "ROUNDUP (max_num_bits bm) 64 = 64 * ?L"
    using ROUNDUP_eq[of "max_num_bits bm" 6] by (simp add: bm_longs mult.commute)
  then have "bm_range_end bm (max_num_bits bm) = 64 * ?L" by (simp add: bm_range_end_def NUM_BITS_LONG_def)
  then have "bm_get_reset_set_bits_range bm (64 * a) e v = bm_get_reset_set_bits_range bm (64 * a) (64 * ?L) v"
    using False assms(3) bm_range_end_mult[of bm ?L] by (simp add: bm_get_reset_set_bits_range_def)
  moreover have "bm_bits bm \<inter> {64 * a..<64 * b} = bm_bits bm \<inter> {64 * a..<64 * ?L}" "bm_bits bm - {64 * a..<64 * b} = bm_bits bm - {64 * a..<64 * ?L}"
    using False assms(1) num_longs_cover[of "max_num_bits bm"] by (auto simp: bm_wf_def bm_longs)
  ultimately show ?thesis using bm_get_reset_range_ok[OF assms(1,2), of ?L v] by simp
qed

lemma notify_steps_ok:
  assumes "bm_wf bm" "j \<le> (max_num_bits bm + notify_stride - 1) div notify_stride"
  shows "\<exists>bm'. each_res notify_step (map (\<lambda>j. j * notify_stride) [0..<j]) (bm, [])
      = Inr (bm', sorted_list_of_set (bm_bits bm \<inter> {..<j * notify_stride}))
    \<and> bm_wf bm' \<and> max_num_bits bm' = max_num_bits bm \<and> bm_bits bm' = bm_bits bm - {..<j * notify_stride}"
  using assms(2)
proof (induction j)
  case 0
  then show ?case using assms(1) by simp
next
  case (Suc j)
  obtain bm1 where bm1: "each_res notify_step (map (\<lambda>j. j * notify_stride) [0..<j]) (bm, [])
      = Inr (bm1, sorted_list_of_set (bm_bits bm \<inter> {..<j * notify_stride}))" "bm_wf bm1" "max_num_bits bm1 = max_num_bits bm"
    "bm_bits bm1 = bm_bits bm - {..<j * notify_stride}"
    using Suc by auto
  let ?a = "j * 1024"
  have "j * notify_stride < max_num_bits bm"
    using Suc.prems by (simp add: notify_stride_def less_eq_div_iff_mult_less_eq)
  then have a: "?a \<le> bm_get_num_longs bm1"
    using bm1(3) num_longs_cover[of "max_num_bits bm"] by (simp add: bm_longs notify_stride_def)
  have bounds: "j * notify_stride = 64 * ?a" "j * notify_stride + notify_stride = 64 * (?a + 1024)"
    "Suc j * notify_stride = 64 * (?a + 1024)" by (simp_all add: notify_stride_def)
  obtain bm2 where bm2: "bm_get_reset_set_bits_range bm1 (j * notify_stride) (min (j * notify_stride + notify_stride) (max_num_bits bm1)) []
      = Inr (bm2, sorted_list_of_set (bm_bits bm1 \<inter> {64 * ?a..<64 * (?a + 1024)}))" "bm_wf bm2" "max_num_bits bm2 = max_num_bits bm1"
    "bm_bits bm2 = bm_bits bm1 - {64 * ?a..<64 * (?a + 1024)}"
    using bm_get_reset_to_capacity[OF bm1(2) a refl, of "?a + 1024" "[]"] by (auto simp: notify_stride_def mult.commute[of j])
  have new: "bm_bits bm1 \<inter> {64 * ?a..<64 * (?a + 1024)} = bm_bits bm \<inter> {j * notify_stride..<Suc j * notify_stride}"
    unfolding bm1(4) bounds by auto
  have "each_res notify_step (map (\<lambda>j. j * notify_stride) [0..<Suc j]) (bm, []) = notify_step (j * notify_stride) (bm1, sorted_list_of_set (bm_bits bm \<inter> {..<j * notify_stride}))"
  proof -
    have app: "each_res f (xs @ [x]) st = bind_res (each_res f xs st) (f x)" for f xs x and st :: "bitmap \<times> nat list"
      by (induction xs arbitrary: st) (simp_all add: bind_res_def split: sum.splits)
    show ?thesis using bm1(1) by (simp add: app)
  qed
  also have "\<dots> = Inr (bm2, sorted_list_of_set (bm_bits bm \<inter> {..<Suc j * notify_stride}))"
    using bm2(1) new sorted_list_of_set_split[of "bm_bits bm" "j * notify_stride" "Suc j * notify_stride"]
    by (simp add: notify_step_def)
  finally have run: "each_res notify_step (map (\<lambda>j. j * notify_stride) [0..<Suc j]) (bm, [])
      = Inr (bm2, sorted_list_of_set (bm_bits bm \<inter> {..<Suc j * notify_stride}))" .
  have "bm_bits bm2 = bm_bits bm - {..<Suc j * notify_stride}"
    unfolding bm2(4) bm1(4) by (auto simp: notify_stride_def)
  then show ?case using run bm2(2,3) bm1(3) by (metis (no_types))
qed

lemma collect_notified_ok:
  assumes "bm_wf bm" "max_num_bits bm < 2 ^ 32"
  shows "\<exists>bm'. collect_notified bm = Inr (bm', sorted_list_of_set (bm_bits bm)) \<and> bm_wf bm' \<and> bm_bits bm' = {}"
proof -
  let ?k = "(max_num_bits bm + notify_stride - 1) div notify_stride"
  have card: "card (bm_bits bm) \<le> max_num_bits bm"
    using assms(1) card_mono[of "{..<max_num_bits bm}" "bm_bits bm"] by (simp add: bm_wf_def)
  then have num: "bm_get_num_set_bits bm = card (bm_bits bm)"
    using assms by (simp add: bm_get_num_set_bits_def bm_wf_def nat_mod_distrib)
  have "max_num_bits bm \<le> ?k * notify_stride"
    using div_mult_mod_eq[of "max_num_bits bm + notify_stride - 1" notify_stride] mod_less_divisor[of notify_stride "max_num_bits bm + notify_stride - 1"]
    unfolding notify_stride_def by linarith
  then have all: "bm_bits bm \<inter> {..<?k * notify_stride} = bm_bits bm" "bm_bits bm - {..<?k * notify_stride} = {}"
    using assms(1) by (auto simp: bm_wf_def)
  show ?thesis
    using notify_steps_ok[OF assms(1) order_refl] num assms(1) unfolding all
    by (cases "bm_bits bm = {}") (auto simp: collect_notified_def card_eq_0_iff)
qed

end
