(* ===== verification/Vertex_Queue_Props.thy ===== *)
theory Vertex_Queue_Props
  imports Vertex_Queue_Laws
begin

text \<open>
  An iteration of a worker thread from the activation of vertices to their delivery, for the default queue; and what happens
  with a user-defined scheduler when all vertices are activated.
\<close>

section \<open>The start of an iteration\<close>

text \<open>A partition that is built and whose vertically partitioned vertices are \<open>ids\<close>.\<close>

definition part_built :: "graph_index \<Rightarrow> nat \<Rightarrow> nat \<Rightarrow> nat \<Rightarrow> vertex_id list \<Rightarrow> bool" where
  "part_built gi nv part cnt ids \<longleftrightarrow> part < length (gi_index_arr gi) \<and>
     (let g = gi_index_arr gi ! part in
      glp_part_id g = part \<and> glp_num_vertices g = cnt \<and> (0 < cnt \<longrightarrow> glp_vertex_arr g \<noteq> None)
      \<and> glp_part_vertex_arrs g = (if ids = [] then [] else replicate nv ids) \<and> (ids = [] \<or> 1 < nv))"

lemma part_built_pointers:
  assumes "part_built gi nv part cnt ids"
  defines "g \<equiv> gi_index_arr gi ! part"
  shows "glp_get_vpart_vertex_pointers g (glp_get_num_vpart_vertices g) = zip ids [0..<length ids]"
    "glp_get_num_vpart_vertices g = length ids"
proof -
  show n: "glp_get_num_vpart_vertices g = length ids"
    using assms(1) by (auto simp: part_built_def g_def glp_get_num_vpart_vertices_def Let_def)
  have "glp_get_vpart_vertex_pointers g (length ids) = map (\<lambda>i. (ids ! i, i)) [0..<length ids]"
    using n assms(1) by (auto simp: glp_get_vpart_vertex_pointers_def Let_def part_built_def g_def)
  also have "\<dots> = zip ids [0..<length ids]" by (rule nth_equalityI) simp_all
  finally show "glp_get_vpart_vertex_pointers g (glp_get_num_vpart_vertices g) = zip ids [0..<length ids]"
    using n by simp
qed

text \<open>What is to be delivered when the vertices \<open>A\<close> are active and \<open>ids\<close> are vertically partitioned.\<close>

definition expected ::
  "range_partitioner \<Rightarrow> nat \<Rightarrow> nat \<Rightarrow> vertex_id list \<Rightarrow> nat set \<Rightarrow> compute_vertex_pointer multiset" where
  "expected p nv part ids A =
     image_mset (\<lambda>i. (Main_vertex part i, False)) (mset_set (A - {snd (rp_map2loc p i) |i. i \<in> set ids}))
     + (\<Sum>v\<in>{0..<nv}. mset (map (\<lambda>j. (Part_vertex part v j, True))
           (filter (\<lambda>j. snd (rp_map2loc p (ids ! j)) \<in> A) [0..<length ids])))"

lemma active_vparts_eq:
  "map (\<lambda>p. (Part_vertex part v (snd p), True)) (filter (\<lambda>v. f (fst v)) (zip ids [0..<length ids]))
     = map (\<lambda>j. (Part_vertex part v j, True)) (filter (\<lambda>j. f (ids ! j)) [0..<length ids])"
proof -
  have zip: "zip ids [0..<length ids] = map (\<lambda>j. (ids ! j, j)) [0..<length ids]"
    by (rule nth_equalityI) simp_all
  show ?thesis unfolding zip by (simp add: filter_map comp_def)
qed

lemma vq_init_next_ok:
  assumes built: "part_built gi nv part cnt ids" and wf: "as_wf nxt" "as_cap nxt = cnt"
    and q: "as_wf (vq_active_vertices q)" "as_active (vq_active_vertices q) = {}" "vq_part_id q = part"
    and offs: "distinct (map (\<lambda>i. snd (rp_map2loc (gi_partitioner gi) i)) ids)"
      "\<forall>i\<in>set ids. snd (rp_map2loc (gi_partitioner gi) i) < cnt" and nv: "nv < 2 ^ 31"
  shows "\<exists>q'. vq_init_next gi nv forward nxt q = Inr (q', vq_active_vertices q) \<and> vq_inv gi nv q'
    \<and> pending nv q' = expected (gi_partitioner gi) nv part ids (as_active nxt)"
proof -
  let ?p = "gi_partitioner gi" let ?vs = "zip ids [0..<length ids]" let ?A = "as_active nxt"
  obtain s where s: "as_finalize nxt = Inr s" "as_wf s" "as_active s = ?A" "as_cap s = cnt" "distinct (active_v s)"
    using as_finalize_ok[OF wf(1)] wf(2) by auto
  have num: "get_num_active_vertices s = card ?A" "card ?A < 2 ^ 32" using num_active_card[OF s(2,5)] s(3) by simp_all
  have offs_eq: "vpart_offs ?p ?vs = map (\<lambda>i. snd (rp_map2loc ?p i)) ids"
    by (rule nth_equalityI) (simp_all add: vpart_offs_def)
  define ps where "ps = filter (\<lambda>v. snd (rp_map2loc ?p (fst v)) \<in> ?A) ?vs"
  define V where "V = {snd (rp_map2loc ?p i) |i. i \<in> set ids}"
  have V: "set (vpart_offs ?p ?vs) = V" by (auto simp: offs_eq V_def)
  have len_ids: "length ids \<le> cnt"
  proof -
    have "length ids = card ((\<lambda>i. snd (rp_map2loc ?p i)) ` set ids)"
      using distinct_card[OF offs(1)] by simp
    also have "\<dots> \<le> card {..<cnt}" using offs(2) by (intro card_mono) auto
    finally show ?thesis by simp
  qed
  have cnt: "cnt < 2 ^ 32" using wf by (simp add: as_wf_def)
  have len_ps: "length ps = card (?A \<inter> V)" "length ps \<le> length ids"
  proof -
    have "distinct (vpart_offs ?p ps)"
      using offs(1) offs_eq by (simp add: ps_def vpart_offs_def distinct_map_filter)
    moreover have "set (vpart_offs ?p ps) = ?A \<inter> V" unfolding V[symmetric] by (auto simp: ps_def vpart_offs_def)
    ultimately show "length ps = card (?A \<inter> V)" using distinct_card by (fastforce simp: vpart_offs_def)
    show "length ps \<le> length ids" using length_filter_le[of _ ?vs] by (simp add: ps_def)
  qed
  define tot where "tot = card (?A - V) + length ps * nv"
  have "\<exists>s2. (if ?vs = [] then Inr (s, [], get_num_active_vertices s)
       else bind_res (force_bitmap s) (\<lambda>s.
            bind_res (take_active_vparts ?p ?vs (s, [], card ?A)) (\<lambda>(s, ps, num). Inr (s, ps, num + length ps * nv))))
      = Inr (s2, ps, tot) \<and> as_wf s2 \<and> distinct (active_v s2) \<and> as_cap s2 = cnt \<and> as_active s2 = ?A - V"
  proof (cases "?vs = []")
    case True
    then have "V = {}" "ps = []" by (auto simp: V_def ps_def)
    then show ?thesis using True s num by (simp add: tot_def)
  next
    case False
    obtain s1 where s1: "force_bitmap s = Inr s1" "as_wf s1" "as_active s1 = ?A" "as_cap s1 = cnt" "active_v s1 = []"
      using force_bitmap_ok[OF s(2)] s(3,4) by auto
    have "distinct (vpart_offs ?p ?vs)" "\<forall>i\<in>set (vpart_offs ?p ?vs). i < as_cap s1"
      using offs s1(4) by (auto simp: offs_eq)
    then obtain s2 where s2: "take_active_vparts ?p ?vs (s1, [], card ?A)
        = Inr (s2, [] @ ps, card ?A - card (?A \<inter> V))" "as_wf s2" "active_v s2 = []" "as_cap s2 = cnt" "as_active s2 = ?A - V"
      using take_active_vparts_ok[OF s1(2,5), of ?p ?vs "card ?A" "[]"] num(2) s1(3,4) unfolding V ps_def by auto
    have "card ?A - card (?A \<inter> V) = card (?A - V)" by (simp add: card_Diff_subset_Int)
    then show ?thesis using False s1(1) s2 by (auto simp: tot_def)
  qed
  then obtain s2 where s2: "(if ?vs = [] then Inr (s, [], get_num_active_vertices s)
       else bind_res (force_bitmap s) (\<lambda>s.
            bind_res (take_active_vparts ?p ?vs (s, [], card ?A)) (\<lambda>(s, ps, num). Inr (s, ps, num + length ps * nv))))
      = Inr (s2, ps, tot)" "as_wf s2" "distinct (active_v s2)" "as_cap s2 = cnt" "as_active s2 = ?A - V" by blast
  let ?q = "q\<lparr>vq_vertex_buf := [], vq_vpart_ps := ps, vq_curr_vpart := 0, vq_active_vertices := set_dir forward s2,
      vq_buf_fetch_idx := new_scan_pointer 0 True, vq_num_active := tot\<rparr>"
  have run: "vq_init_next gi nv forward nxt q = Inr (?q, vq_active_vertices q)"
    using num_active_empty[OF q(1,2)] s(1) s2(1) q(3) built part_built_pointers[OF built] num(1)
    by (cases "ids = []") (simp_all add: vq_init_next_def at_part_def part_built_def Let_def)
  have dir: "as_ready (set_dir forward s2)" "as_active (set_dir forward s2) = ?A - V" "as_cap (set_dir forward s2) = cnt"
    using set_dir_ready[OF s2(2,3), of forward] s2(4,5) by simp_all
  have pend: "pending nv ?q = expected ?p nv part ids ?A"
    using dir(2) q(3) active_vparts_eq[of part _ "\<lambda>i. snd (rp_map2loc ?p i) \<in> ?A" ids]
    by (simp add: pending_def buf_pending_def map_pending_def vpart_pending_def expected_def sp_rest_def vpart_pointers_def
        ps_def V_def new_scan_pointer_def)
  have "size (pending nv ?q) = tot"
  proof -
    have "size (\<Sum>v\<in>{0..<nv}. mset (vpart_pointers part v ps)) = nv * length ps"
      by (simp add: size_multiset_sum vpart_pointers_def)
    then show ?thesis
      using dir(2) q(3) by (simp add: pending_def buf_pending_def map_pending_def vpart_pending_def sp_rest_def tot_def)
  qed
  moreover have "tot < 2 ^ 64"
  proof -
    have "length ps * nv \<le> 2 ^ 32 * 2 ^ 31" using len_ps(2) len_ids cnt nv by (intro mult_le_mono) simp_all
    moreover have "card (?A - V) < 2 ^ 32" using num(2) card_mono[of ?A "?A - V"] by auto
    ultimately show ?thesis by (simp add: tot_def)
  qed
  moreover have "vq_part_ok gi nv ?q"
    using built q(3) dir(3) part_built_pointers(2)[OF built] len_ps(2) len_ids cnt
    by (auto simp: vq_part_ok_def part_built_def Let_def ps_def)
  ultimately have "vq_inv gi nv ?q" using dir(1) sp_wf_new(1)[of 0 True] by (simp add: vq_inv_def sp_wf_new(2))
  then show ?thesis using run pend by blast
qed

section \<open>Delivery\<close>

lemma activations_ok:
  assumes "as_wf s" "\<forall>b\<in>set batches. \<forall>i\<in>set b. i < as_cap s"
  shows "\<exists>s'. each_res activate_vertices batches s = Inr s' \<and> as_wf s' \<and> as_cap s' = as_cap s
    \<and> as_active s' = as_active s \<union> set (concat batches)"
  using assms
proof (induction batches arbitrary: s)
  case (Cons b bs)
  obtain s1 where "activate_vertices b s = Inr s1" "as_wf s1" "as_active s1 = as_active s \<union> set b" "as_cap s1 = as_cap s"
    using activate_vertices_ok[of s b] Cons.prems by auto
  then show ?case using Cons.IH[of s1] Cons.prems by auto
qed simp

lemma gi_init_part_built:
  assumes "r + k < 31" "n + 2 ^ (r + k) \<le> 2 ^ 32" "gi_init r n (2 ^ k) = Inr gi0" "part < 2 ^ k"
    "gi_init_vparts part nv ids gi0 = Inr gi" "\<forall>i\<in>set ids. unat i < n"
  shows "\<exists>cnt. part_built gi nv part cnt ids \<and> rp_get_part_size (gi_partitioner gi) part n = Inr cnt \<and> cnt < 2 ^ 32
    \<and> gi_num_vertices gi = n \<and> rp_ok (gi_partitioner gi)
    \<and> (\<forall>i\<in>set ids. fst (rp_map2loc (gi_partitioner gi) i) = part \<and> snd (rp_map2loc (gi_partitioner gi) i) < cnt)"
proof -
  let ?p = "gi_partitioner gi0"
  obtain ls where gi: "rp_ok ?p" "rp_fits ?p n" "rp_get_num_partitions ?p = 2 ^ k" "gi_num_vertices gi0 = n"
    "gi_index_arr gi0 = map (\<lambda>q. built_partition q n (ls q)) [0..<2 ^ k]"
    "\<forall>q<2 ^ k. lists_part (rp_map2loc ?p) q n (ls q)"
    using gi_init_ok[OF assms(1,2)] assms(3) by (metis sum.inject(2))
  let ?g = "built_partition part n (ls part)"
  have at: "part < length (gi_index_arr gi0)" "gi_index_arr gi0 ! part = ?g" using gi(5) assms(4) by simp_all
  obtain js where js: "rp_get_all_vertices_in_part ?p part n [] = Some (Inr js)" "lists_part (rp_map2loc ?p) part n js"
    "rp_get_part_size ?p part n = Inr (length js)"
    using rp.listing[OF gi(1,2)] assms(4) gi(3) by metis
  have ls: "js = ls part"
    using js(2) gi(6) assms(4) by (intro sorted_distinct_set_unique) (auto simp: lists_part_def strict_sorted_iff)
  have small: "length js < 2 ^ 32"
  proof -
    have dist: "distinct js" "\<forall>i\<in>set js. unat i < n" using js(2) by (auto simp: lists_part_def strict_sorted_iff)
    have "length js = card (unat ` set js)"
      using dist(1) card_image[of unat "set js"] by (simp add: distinct_card inj_on_def word_unat_eq_iff)
    also have "\<dots> \<le> card {..<n}" using dist(2) by (intro card_mono) auto
    also have "\<dots> < 2 ^ 32"
    proof -
      have "0 < (2 :: nat) ^ (r + k)" by simp
      then show ?thesis using assms(2) unfolding card_lessThan by linarith
    qed
    finally show ?thesis .
  qed
  obtain g' where g': "glp_init_vparts ?p nv ids ?g = Inr g'" "gi = gi0\<lparr>gi_index_arr := (gi_index_arr gi0)[part := g']\<rparr>"
    using assms(5) at by (auto simp: gi_init_vparts_def at_part_def bind_res_Inr_iff)
  have p: "gi_partitioner gi = ?p" "gi_num_vertices gi = n" using g'(2) gi(4) by simp_all
  have g: "glp_part_id g' = part" "glp_num_vertices g' = length js" "0 < length js \<longrightarrow> glp_vertex_arr g' \<noteq> None"
    "glp_part_vertex_arrs g' = (if ids = [] then [] else replicate nv ids)" "ids = [] \<or> 1 < nv"
    "\<forall>i\<in>set ids. rp_map ?p i = part"
    using g'(1) ls by (auto simp: glp_init_vparts_def built_partition_def assert_then_def split: if_splits)
  have "part_built gi nv part (length js) ids"
    using at(1) g g'(2) by (simp add: part_built_def)
  moreover have "fst (rp_map2loc ?p i) = part \<and> snd (rp_map2loc ?p i) < length js" if i: "i \<in> set ids" for i
  proof -
    obtain off where off: "rp_map2loc ?p i = (part, off)"
      using g(6) i rp_map2loc_eq[OF gi(1), of i] by simp
    then show ?thesis using rp.place_in_listing[OF gi(1,2) _ off] assms(6) i js(3) by auto
  qed
  ultimately show ?thesis using js(3) small p gi(1) by auto
qed

text \<open>
  C11. One iteration of a worker thread with the default queue: whatever batches of vertices of the partition are activated, with
  repetitions, starting the iteration succeeds; then any sequence of fetches by the owner and by stealing threads delivers
  each active vertex at most once (a vertically partitioned one once per vertical partition), and if there are as many fetches
  as vertices to deliver, each exactly once, after which the queue is empty.
\<close>

theorem iteration_delivers_once:
  assumes "r + k < 31" "n + 2 ^ (r + k) \<le> 2 ^ 32" "gi_init r n (2 ^ k) = Inr gi0" "part < 2 ^ k"
    and "gi_init_vparts part nv ids gi0 = Inr gi" "distinct ids" "\<forall>i\<in>set ids. unat i < n" "nv < 2 ^ 31"
    and "new_default_vertex_queue gi part = Inr q" "rp_get_part_size (gi_partitioner gi) part n = Inr cnt"
    and "\<forall>b\<in>set batches. \<forall>i\<in>set b. i < cnt" "\<forall>(f, num)\<in>set reqs. 0 < num"
  defines "todo \<equiv> expected (gi_partitioner gi) nv part ids (set (concat batches))"
  shows "\<exists>nxt q1 s q2 vs. each_res activate_vertices batches (new_active_vertex_set cnt) = Inr nxt
    \<and> enter_default gi nv forward nxt q = Inr (q1, s) \<and> vq_num_active q1 = size todo
    \<and> vq_fetches gi nv reqs q1 = Inr (q2, vs) \<and> mset vs \<subseteq># todo
    \<and> (size todo \<le> length reqs \<longrightarrow> mset vs = todo \<and> vq_is_empty q2)"
proof -
  obtain cnt' where built: "part_built gi nv part cnt' ids" "rp_get_part_size (gi_partitioner gi) part n = Inr cnt'"
    "cnt' < 2 ^ 32" "gi_num_vertices gi = n" "rp_ok (gi_partitioner gi)"
    "\<forall>i\<in>set ids. fst (rp_map2loc (gi_partitioner gi) i) = part \<and> snd (rp_map2loc (gi_partitioner gi) i) < cnt'"
    using gi_init_part_built[OF assms(1-5,7)] by blast
  have cnt: "cnt' = cnt" using built(2) assms(10) by simp
  have q: "vq_active_vertices q = new_active_vertex_set cnt" "vq_part_id q = part"
    using assms(9,10) built(4) by (auto simp: new_default_vertex_queue_def)
  note new = new_active_vertex_set_ok[OF built(3)[unfolded cnt]]
  obtain nxt where nxt: "each_res activate_vertices batches (new_active_vertex_set cnt) = Inr nxt" "as_wf nxt"
    "as_cap nxt = cnt" "as_active nxt = set (concat batches)"
    using activations_ok[of "new_active_vertex_set cnt" batches] new assms(11) by auto
  have inj: "distinct (map (\<lambda>i. snd (rp_map2loc (gi_partitioner gi) i)) ids)"
    unfolding distinct_map
  proof (intro conjI inj_onI)
    fix i j assume ij: "i \<in> set ids" "j \<in> set ids"
      and "snd (rp_map2loc (gi_partitioner gi) i) = snd (rp_map2loc (gi_partitioner gi) j)"
    then have "rp_map2loc (gi_partitioner gi) i = rp_map2loc (gi_partitioner gi) j" using built(6) by (simp add: prod_eq_iff)
    then show "i = j" by (rule rp.place_unique[OF built(5)])
  qed (rule assms(6))
  have offs: "\<forall>i\<in>set ids. snd (rp_map2loc (gi_partitioner gi) i) < cnt" using built(6) cnt by simp
  obtain q1 where q1: "vq_init_next gi nv forward nxt q = Inr (q1, vq_active_vertices q)" "vq_inv gi nv q1" "pending nv q1 = todo"
    using vq_init_next_ok[OF built(1)[unfolded cnt] nxt(2,3) _ _ q(2) inj offs assms(8), of forward] q(1) new nxt(4)
    by (auto simp: todo_def)
  obtain q2 vs where q2: "vq_fetches gi nv reqs q1 = Inr (q2, vs)" "vq_inv gi nv q2" "pending nv q1 = mset vs + pending nv q2"
    "min (length reqs) (size (pending nv q1)) \<le> length vs"
    using vq_fetches_ok[OF q1(2) assms(12)] by blast
  have "get_num_active_vertices (vq_active_vertices q) = 0" using num_active_empty new q(1) by simp
  then have "enter_default gi nv forward nxt q = Inr (q1, vq_active_vertices q)" using q1(1) by (simp add: enter_default_def)
  moreover have "vq_num_active q1 = size todo" using q1(2,3) by (simp add: vq_inv_def)
  moreover have "mset vs \<subseteq># todo" using q2(3) q1(3) by simp
  moreover have "mset vs = todo \<and> vq_is_empty q2" if "size todo \<le> length reqs"
  proof -
    have "size (mset vs + pending nv q2) \<le> length vs" using q2(3,4) q1(3) that by simp
    then have "pending nv q2 = {#}" by simp
    then show ?thesis using q2(2,3) q1(3) by (simp add: vq_is_empty_def vq_inv_def)
  qed
  ultimately show ?thesis using nxt(1) q2(1) by blast
qed

lemma iteration_example:
  "gi_init 1 7 (2 ^ 1) = Inr gi0 \<Longrightarrow> gi_init_vparts 0 2 [] gi0 = Inr gi0"
  "gi_init 1 7 (2 ^ 1) = Inr gi0 \<Longrightarrow> rp_get_part_size (gi_partitioner gi0) 0 7 = Inr 4"
proof -
  assume gi0: "gi_init 1 7 (2 ^ 1) = Inr gi0"
  have p: "gi_partitioner gi0 = \<lparr>RANGE_SIZE_LOG = 1, RANGE_SIZE = 2, RANGE_MASK = 1, rp_num_parts_log = 1, rp_mask = 1\<rparr>"
    using gi0 by (auto simp: gi_init_def bind_res_Inr_iff new_range_partitioner_def log2_int.simps push_bit_of_1 Let_def)
  show "rp_get_part_size (gi_partitioner gi0) 0 7 = Inr 4"
    unfolding p by (subst rp_get_part_size_eq) (simp_all add: rp_ok_def rp_stripe_log_def push_bit_of_1 part_count_def)
  show "gi_init_vparts 0 2 [] gi0 = Inr gi0"
  proof -
    have "length (gi_index_arr gi0) = 2 ^ 1"
      using gi_init_ok[of 1 1 7] gi0 by auto
    then show ?thesis by (simp add: gi_init_vparts_def at_part_def glp_init_vparts_def)
  qed
qed

theorem iteration_delivers_once_witness:
  "\<exists>gi q nxt q1 s q2 vs. gi_init 1 7 (2 ^ 1) = Inr gi \<and> new_default_vertex_queue gi 0 = Inr q
     \<and> each_res activate_vertices [[0, 3], [3]] (new_active_vertex_set 4) = Inr nxt
     \<and> enter_default gi 2 True nxt q = Inr (q1, s) \<and> vq_fetches gi 2 [(True, 1), (False, 5)] q1 = Inr (q2, vs)"
proof -
  obtain gi where gi: "gi_init 1 7 (2 ^ 1) = Inr gi" using gi_init_ok[of 1 1 7] by auto
  have n: "gi_num_vertices gi = 7" using gi by (auto simp: gi_init_def bind_res_Inr_iff)
  obtain q where q: "new_default_vertex_queue gi 0 = Inr q"
    using iteration_example(2)[OF gi] n by (simp add: new_default_vertex_queue_def)
  show ?thesis
    using iteration_delivers_once[of 1 1 7 gi 0 2 "[]" gi q 4 "[[0, 3], [3]]" "[(True, 1), (False, 5)]" True]
      gi q iteration_example[OF gi] by auto
qed

text \<open>
  C40. With a user-defined scheduler an iteration that starts with all vertices of a non-empty partition fails: the vertices are in the
  bitmap, whose scan pointer has never been set, so the queue fetches none of them and the assertion that no activated vertex is left fails.
\<close>

theorem customized_queue_start_all_fails:
  assumes "0 < cnt" "cnt < 2 ^ 32" "nv \<le> 1"
  shows "\<exists>s. activate_all (new_active_vertex_set cnt) = Inr s \<and> get_num_active_vertices s = cnt
    \<and> fetch_reset_all s [] = Some (Inr (s, []))
    \<and> enter_customized gi nv schedule forward s q = Inl Assert_failed"
proof -
  have wf: "bm_wf (new_bitmap cnt)" "bm_bits (new_bitmap cnt) = {}" "max_num_bits (new_bitmap cnt) = cnt"
    using new_bitmap_wf[of cnt] by simp_all
  obtain bm where bm: "bm_set_all (new_bitmap cnt) = Inr bm" "num_set_bits bm = int cnt"
    using bm_set_all_count[OF wf(1)] wf(2,3) by auto
  let ?s = "(new_active_vertex_set cnt)\<lparr>active_map := bm\<rparr>"
  have all: "activate_all (new_active_vertex_set cnt) = Inr ?s"
    using bm(1) by (simp add: activate_all_def new_active_vertex_set_def)
  have num: "get_num_active_vertices ?s = cnt"
    using bm(2) assms(2) by (simp add: get_num_active_vertices_def new_active_vertex_set_def bm_get_num_set_bits_def nat_mod_distrib)
  have "sp_get_num_remaining (bitmap_fetch_idx ?s) = 0"
    by (simp add: new_active_vertex_set_def new_scan_pointer_def sp_get_num_remaining_def size_sub_def)
  then have fetch: "fetch_reset_all ?s [] = Some (Inr (?s, []))"
    by (simp add: fetch_reset_all_def fetch_reset_active_vertices_def fetch_loop.simps new_active_vertex_set_def)
  then have "enter_customized gi nv schedule forward ?s q = Inl Assert_failed"
    using assms(1,3) num
    by (simp add: enter_customized_def cq_init_next_def returns_def cq_get_pointers_def gi_get_vertices_def Let_def)
  then show ?thesis using all num fetch by blast
qed

theorem customized_queue_start_all_fails_witness:
  "\<exists>s. activate_all (new_active_vertex_set 3) = Inr s \<and> get_num_active_vertices s = 3
     \<and> enter_customized \<lparr>gi_num_vertices = 3, gi_min_vertex_id = 0, gi_max_vertex_id = 2,
         gi_partitioner = \<lparr>RANGE_SIZE_LOG = 1, RANGE_SIZE = 2, RANGE_MASK = 1, rp_num_parts_log = 0, rp_mask = 0\<rparr>, gi_index_arr = []\<rparr>
       1 (\<lambda>vs. vs) True s \<lparr>cq_sorted_vertices = [], cq_fetch_idx = new_scan_pointer 0 True, cq_part_id = 0\<rparr> = Inl Assert_failed"
  using customized_queue_start_all_fails[of 3 1 "\<lparr>gi_num_vertices = 3, gi_min_vertex_id = 0, gi_max_vertex_id = 2,
      gi_partitioner = \<lparr>RANGE_SIZE_LOG = 1, RANGE_SIZE = 2, RANGE_MASK = 1, rp_num_parts_log = 0, rp_mask = 0\<rparr>, gi_index_arr = []\<rparr>"
      "\<lambda>vs. vs" True "\<lparr>cq_sorted_vertices = [], cq_fetch_idx = new_scan_pointer 0 True, cq_part_id = 0\<rparr>"]
  by auto

end
