(* ===== verification/Byte_Array.thy ===== *)
theory Byte_Array
  imports Page
begin

text \<open>
  Page byte arrays (\<^verbatim>\<open>libsafs/cache.h\<close>, \<^verbatim>\<open>cache.cpp\<close>): how a user task reads the bytes it asked
  for, which lie in pages. \<open>page_byte_array\<close> is the abstract class, the results of its virtual
  methods as fields; the copying routine, the random-access iterator, the sequential iterator and
  the \<^verbatim>\<open>PAGE_FOREACH\<close> loop are defined on it. An element type of the C++ templates is the number
  \<open>sz\<close> of its bytes, an element the list of its bytes. A page is the memory readable from the
  pointer that \<^verbatim>\<open>get_page\<close> returns; reading behind its end is undefined behaviour. Offsets
  are natural numbers below the range of \<^verbatim>\<open>off_t\<close>; where the code mixes them with \<^verbatim>\<open>size_t\<close>
  the conversion is written out.
\<close>

type_synonym byte = "8 word"

definition page_bytes :: nat where
  "page_bytes = 4096"

definition read_mem :: "byte list \<Rightarrow> nat \<Rightarrow> nat \<Rightarrow> byte list res" where
  "read_mem p off n = (if off + n \<le> length p then Inr (take n (drop off p)) else Inl Undefined_behaviour)"

text \<open>The value of a difference of two offsets once it is converted to an unsigned 64-bit number.\<close>

definition unsigned_diff :: "nat \<Rightarrow> nat \<Rightarrow> nat" where
  "unsigned_diff a b = nat ((int a - int b) mod 2 ^ 64)"

record page_byte_array =
  pba_size :: nat
  pba_offset :: nat
  pba_first :: nat
  pba_page :: "nat \<Rightarrow> byte list res"

section \<open>Copying\<close>

function copy_pages :: "page_byte_array \<Rightarrow> nat \<Rightarrow> nat \<Rightarrow> byte list \<Rightarrow> (byte list \<times> nat) res" where
  "copy_pages arr pg_idx last_pg_idx buf =
     (if pg_idx < last_pg_idx
      then bind_res (pba_page arr pg_idx) (\<lambda>p.
           bind_res (read_mem p 0 page_bytes) (\<lambda>b.
           copy_pages arr (pg_idx + 1) last_pg_idx (buf @ b)))
      else Inr (buf, pg_idx))"
  by pat_completeness auto
termination by (relation "measure (\<lambda>(_, pg_idx, last_pg_idx, _). last_pg_idx - pg_idx)") auto

declare copy_pages.simps [simp del]

definition pba_memcpy :: "page_byte_array \<Rightarrow> nat \<Rightarrow> nat \<Rightarrow> byte list res" where
  "pba_memcpy arr rel_off num =
     (if num = 0 then Inr []
      else let off = pba_first arr + rel_off;
               end_off = off + num;
               page_begin = off div page_bytes * page_bytes;
               pg_idx = off div page_bytes;
               off_in_pg = off mod page_bytes
           in assert_then (end_off \<le> pba_size arr + pba_first arr)
              (if end_off - page_begin > page_bytes
               then bind_res (pba_page arr pg_idx) (\<lambda>p.
                    bind_res (read_mem p off_in_pg (page_bytes - off_in_pg)) (\<lambda>part1.
                    bind_res (copy_pages arr (pg_idx + 1) (end_off div page_bytes) part1) (\<lambda>(buf, pg_idx).
                    let part2_size = num - length buf
                    in if part2_size > 0
                       then bind_res (pba_page arr pg_idx) (\<lambda>p.
                            bind_res (read_mem p 0 part2_size) (\<lambda>part2. Inr (buf @ part2)))
                       else Inr buf)))
               else bind_res (pba_page arr pg_idx) (\<lambda>p. read_mem p off_in_pg num)))"

definition pba_get :: "page_byte_array \<Rightarrow> nat \<Rightarrow> nat \<Rightarrow> byte list res" where
  "pba_get arr sz idx = pba_memcpy arr (sz * idx) sz"

definition pba_get_off_in_bytes :: "page_byte_array \<Rightarrow> nat \<Rightarrow> nat \<Rightarrow> byte list res" where
  "pba_get_off_in_bytes arr sz idx = pba_memcpy arr idx sz"

section \<open>The random-access iterator\<close>

record const_iterator =
  ci_arr :: page_byte_array
  ci_off :: nat
  ci_end :: nat

definition elements_fit :: "nat \<Rightarrow> nat \<Rightarrow> nat \<Rightarrow> bool" where
  "elements_fit sz off end_off \<longleftrightarrow>
     (page_bytes - off mod page_bytes) mod sz = 0 \<or> end_off < page_bytes"

definition new_const_iterator :: "page_byte_array \<Rightarrow> nat \<Rightarrow> nat \<Rightarrow> nat \<Rightarrow> const_iterator res" where
  "new_const_iterator arr sz byte_off byte_end =
     (let off = pba_first arr + byte_off; end_off = pba_first arr + byte_end
      in assert_then (byte_end \<le> pba_size arr)
        (assert_then (elements_fit sz off end_off)
        (assert_then (unsigned_diff byte_end byte_off mod sz = 0)
          (Inr \<lparr>ci_arr = arr, ci_off = off, ci_end = end_off\<rparr>))))"

definition ci_deref :: "nat \<Rightarrow> const_iterator \<Rightarrow> byte list res" where
  "ci_deref sz it = bind_res (pba_page (ci_arr it) (ci_off it div page_bytes))
     (\<lambda>data. read_mem data (ci_off it mod page_bytes) sz)"

definition ci_distance :: "nat \<Rightarrow> const_iterator \<Rightarrow> const_iterator \<Rightarrow> int" where
  "ci_distance sz it it' = int64 (int (unsigned_diff (ci_off it) (ci_off it') div sz))"

definition ci_plus :: "nat \<Rightarrow> const_iterator \<Rightarrow> nat \<Rightarrow> const_iterator res" where
  "ci_plus sz it num = (let ret = it\<lparr>ci_off := ci_off it + num * sz\<rparr>
     in assert_then (ci_end ret \<ge> ci_off ret) (Inr ret))"

definition ci_incr :: "nat \<Rightarrow> const_iterator \<Rightarrow> const_iterator" where
  "ci_incr sz it = it\<lparr>ci_off := ci_off it + sz\<rparr>"

definition ci_eq :: "const_iterator \<Rightarrow> const_iterator \<Rightarrow> bool" where
  "ci_eq it it' \<longleftrightarrow> ci_off it = ci_off it'"

definition ci_advance :: "nat \<Rightarrow> const_iterator \<Rightarrow> nat \<Rightarrow> const_iterator res" where
  "ci_advance sz it num = (let it' = it\<lparr>ci_off := ci_off it + num * sz\<rparr>
     in assert_then (ci_end it' \<ge> ci_off it') (Inr it'))"

definition ci_has_next :: "nat \<Rightarrow> const_iterator \<Rightarrow> bool" where
  "ci_has_next sz it \<longleftrightarrow> unsigned_diff (ci_end it) (ci_off it) \<ge> sz"

definition pba_begin :: "page_byte_array \<Rightarrow> nat \<Rightarrow> nat \<Rightarrow> const_iterator res" where
  "pba_begin arr sz byte_off = new_const_iterator arr sz byte_off (pba_size arr)"

definition pba_end :: "page_byte_array \<Rightarrow> nat \<Rightarrow> const_iterator res" where
  "pba_end arr sz = new_const_iterator arr sz (pba_size arr) (pba_size arr)"

definition pba_get_iterator :: "page_byte_array \<Rightarrow> nat \<Rightarrow> nat \<Rightarrow> nat \<Rightarrow> (const_iterator \<times> const_iterator) res" where
  "pba_get_iterator arr sz byte_off byte_end =
     bind_res (new_const_iterator arr sz byte_off byte_end) (\<lambda>b.
     bind_res (new_const_iterator arr sz byte_end byte_end) (\<lambda>e. Inr (b, e)))"

section \<open>The sequential iterator\<close>

text \<open>A position within one page: the page and two byte offsets into it; the null pointers are the
  empty page.\<close>

record seq_page_iterator =
  spi_page :: "byte list"
  spi_data :: nat
  spi_data_end :: nat

definition null_page_iterator :: seq_page_iterator where
  "null_page_iterator = \<lparr>spi_page = [], spi_data = 0, spi_data_end = 0\<rparr>"

definition new_page_iterator :: "byte list \<Rightarrow> nat \<Rightarrow> nat \<Rightarrow> seq_page_iterator" where
  "new_page_iterator page byte_off byte_end = \<lparr>spi_page = page, spi_data = byte_off, spi_data_end = byte_end\<rparr>"

definition spi_num_entries :: "nat \<Rightarrow> seq_page_iterator \<Rightarrow> int" where
  "spi_num_entries sz it = int32 ((int (spi_data_end it) - int (spi_data it)) sdiv int sz)"

definition spi_has_next :: "seq_page_iterator \<Rightarrow> bool" where
  "spi_has_next it \<longleftrightarrow> spi_data it < spi_data_end it"

definition spi_next :: "nat \<Rightarrow> seq_page_iterator \<Rightarrow> (byte list \<times> seq_page_iterator) res" where
  "spi_next sz it = bind_res (read_mem (spi_page it) (spi_data it) sz)
     (\<lambda>e. Inr (e, it\<lparr>spi_data := spi_data it + sz\<rparr>))"

definition spi_curr :: "nat \<Rightarrow> seq_page_iterator \<Rightarrow> byte list res" where
  "spi_curr sz it = read_mem (spi_page it) (spi_data it) sz"

record seq_const_iterator =
  sci_arr :: page_byte_array
  sci_curr_page_it :: seq_page_iterator
  sci_start :: nat
  sci_off :: nat
  sci_end :: nat

definition ROUND_PAGE :: "nat \<Rightarrow> nat" where
  "ROUND_PAGE off = off div page_bytes * page_bytes"

definition next_page_off :: "nat \<Rightarrow> nat" where
  "next_page_off off = (off + page_bytes - 1) div page_bytes * page_bytes"

definition page_it_at :: "page_byte_array \<Rightarrow> nat \<Rightarrow> nat \<Rightarrow> seq_page_iterator res" where
  "page_it_at arr off end_off =
     (let pg_end = (if end_off - ROUND_PAGE off \<ge> page_bytes then page_bytes else end_off - ROUND_PAGE off)
      in bind_res (pba_page arr (off div page_bytes)) (\<lambda>p.
         Inr (new_page_iterator p (off mod page_bytes) pg_end)))"

definition new_seq_const_iterator :: "page_byte_array \<Rightarrow> nat \<Rightarrow> nat \<Rightarrow> nat \<Rightarrow> seq_const_iterator res" where
  "new_seq_const_iterator arr sz byte_off byte_end =
     assert_then (byte_end \<le> pba_size arr)
    (assert_then (byte_off \<le> byte_end)
    (let off = pba_first arr + byte_off; end_off = pba_first arr + byte_end
     in bind_res (if byte_off = byte_end then Inr null_page_iterator else page_it_at arr off end_off) (\<lambda>cur.
        assert_then (elements_fit sz off end_off)
       (assert_then (unsigned_diff byte_end byte_off mod sz = 0)
         (Inr \<lparr>sci_arr = arr, sci_curr_page_it = cur, sci_start = off, sci_off = off, sci_end = end_off\<rparr>)))))"

definition sci_has_next :: "seq_const_iterator \<Rightarrow> (bool \<times> seq_const_iterator) res" where
  "sci_has_next it =
     (if spi_has_next (sci_curr_page_it it) then Inr (True, it)
      else let off = next_page_off (sci_off it + 1)
           in if off < sci_end it
              then bind_res (pba_page (sci_arr it) (off div page_bytes)) (\<lambda>p.
                   Inr (True, it\<lparr>sci_off := off,
                     sci_curr_page_it := new_page_iterator p 0 (min page_bytes (sci_end it - off))\<rparr>))
              else Inr (False, it\<lparr>sci_off := off\<rparr>))"

definition sci_num_tot_entries :: "nat \<Rightarrow> seq_const_iterator \<Rightarrow> int" where
  "sci_num_tot_entries sz it = int32 (int (unsigned_diff (sci_end it) (sci_off it) div sz))"

definition sci_num_entries_in_page :: "nat \<Rightarrow> seq_const_iterator \<Rightarrow> int" where
  "sci_num_entries_in_page sz it = spi_num_entries sz (sci_curr_page_it it)"

definition sci_next :: "nat \<Rightarrow> seq_const_iterator \<Rightarrow> (byte list \<times> seq_const_iterator) res" where
  "sci_next sz it = bind_res (spi_next sz (sci_curr_page_it it))
     (\<lambda>(e, cur). Inr (e, it\<lparr>sci_curr_page_it := cur\<rparr>))"

definition sci_move_to :: "nat \<Rightarrow> seq_const_iterator \<Rightarrow> nat \<Rightarrow> (bool \<times> seq_const_iterator) res" where
  "sci_move_to sz it idx =
     (let off = sci_start it + idx * sz
      in if off \<ge> sci_end it then Inr (False, it\<lparr>sci_off := off\<rparr>)
         else bind_res (page_it_at (sci_arr it) off (sci_end it)) (\<lambda>cur.
              Inr (True, it\<lparr>sci_off := off, sci_curr_page_it := cur\<rparr>)))"

definition sci_curr :: "nat \<Rightarrow> seq_const_iterator \<Rightarrow> (byte list \<times> seq_const_iterator) res" where
  "sci_curr sz it = bind_res (sci_has_next it) (\<lambda>(b, it').
     assert_then b (bind_res (spi_curr sz (sci_curr_page_it it')) (\<lambda>e. Inr (e, it'))))"

definition pba_get_seq_iterator :: "page_byte_array \<Rightarrow> nat \<Rightarrow> nat \<Rightarrow> nat \<Rightarrow> seq_const_iterator res" where
  "pba_get_seq_iterator arr sz byte_off byte_end = new_seq_const_iterator arr sz byte_off byte_end"

text \<open>The macro \<^verbatim>\<open>PAGE_FOREACH\<close> with a body that records the element: the inner loop compares its
  counter with the entries left in the page, which shrink while the counter grows. Both loops carry
  a budget of steps.\<close>

fun foreach_inner :: "nat \<Rightarrow> nat \<Rightarrow> int \<Rightarrow> seq_const_iterator \<Rightarrow> byte list list
    \<Rightarrow> (seq_const_iterator \<times> byte list list) res" where
  "foreach_inner 0 sz i it vs = Inl Out_of_steps"
| "foreach_inner (Suc fuel) sz i it vs =
     (if i < sci_num_entries_in_page sz it
      then bind_res (sci_next sz it) (\<lambda>(v, it'). foreach_inner fuel sz (i + 1) it' (vs @ [v]))
      else Inr (it, vs))"

fun page_foreach :: "nat \<Rightarrow> nat \<Rightarrow> seq_const_iterator \<Rightarrow> byte list list \<Rightarrow> byte list list res" where
  "page_foreach 0 sz it vs = Inl Out_of_steps"
| "page_foreach (Suc fuel) sz it vs =
     bind_res (sci_has_next it) (\<lambda>(b, it').
       if b then bind_res (foreach_inner (Suc fuel) sz 0 it' vs) (\<lambda>(it'', vs'). page_foreach fuel sz it'' vs')
       else Inr vs)"

text \<open>The loop most clients write: ask, then take the next element.\<close>

fun seq_loop :: "nat \<Rightarrow> nat \<Rightarrow> seq_const_iterator \<Rightarrow> byte list list \<Rightarrow> byte list list res" where
  "seq_loop 0 sz it vs = Inl Out_of_steps"
| "seq_loop (Suc fuel) sz it vs =
     bind_res (sci_has_next it) (\<lambda>(b, it').
       if b then bind_res (sci_next sz it') (\<lambda>(v, it''). seq_loop fuel sz it'' (vs @ [v]))
       else Inr vs)"

text \<open>The loop over a pair of random-access iterators.\<close>

fun ci_loop :: "nat \<Rightarrow> nat \<Rightarrow> const_iterator \<Rightarrow> const_iterator \<Rightarrow> byte list list \<Rightarrow> byte list list res" where
  "ci_loop 0 sz it stop vs = Inl Out_of_steps"
| "ci_loop (Suc fuel) sz it stop vs =
     (if ci_eq it stop then Inr vs
      else bind_res (ci_deref sz it) (\<lambda>v. ci_loop fuel sz (ci_incr sz it) stop (vs @ [v])))"

section \<open>A region of an array\<close>

definition sub_page_byte_array :: "page_byte_array \<Rightarrow> nat \<Rightarrow> page_byte_array res" where
  "sub_page_byte_array orig off = assert_then (off \<le> pba_size orig)
     (Inr \<lparr>pba_size = pba_size orig - off,
           pba_offset = off + pba_offset orig,
           pba_first = (off + pba_first orig) mod page_bytes,
           pba_page = (\<lambda>idx. pba_page orig ((off + pba_first orig) div page_bytes + idx))\<rparr>)"

end
