(* ===== verification/Ext_Vertex.thy ===== *)
theory Ext_Vertex
  imports Byte_Array Bitmap
begin

text \<open>
  Vertices (\<^verbatim>\<open>flash-graph/vertex.h\<close>, \<^verbatim>\<open>vertex.cpp\<close>): the vertices that are built in memory, their
  layout in the file (a header of three 32-bit numbers, the neighbours, the data of the edges) and the
  vertices that user code reads out of a page byte array. A vertex id or a number of edges is a natural
  number, stored modulo \<open>2 ^ 32\<close>; data of an edge is the list of its bytes, \<open>ds\<close> many.
\<close>

section \<open>Numbers in memory\<close>

definition u32 :: "nat \<Rightarrow> nat" where
  "u32 n = n mod 2 ^ 32"

definition u32_bytes :: "nat \<Rightarrow> byte list" where
  "u32_bytes n = [of_nat n, of_nat (n div 256), of_nat (n div 65536), of_nat (n div 16777216)]"

fun u32_of :: "byte list \<Rightarrow> nat" where
  "u32_of [] = 0"
| "u32_of (b # bs) = unat b + 256 * u32_of bs"

fun u32s_of :: "nat \<Rightarrow> byte list \<Rightarrow> nat list" where
  "u32s_of 0 bs = []"
| "u32s_of (Suc n) bs = u32_of (take 4 bs) # u32s_of n (drop 4 bs)"

definition write_mem :: "byte list \<Rightarrow> nat \<Rightarrow> byte list \<Rightarrow> byte list res" where
  "write_mem buf off bs = (if off + length bs \<le> length buf
     then Inr (take off buf @ bs @ drop (off + length bs) buf) else Inl Undefined_behaviour)"

datatype edge_type = NONE | IN_EDGE | OUT_EDGE | BOTH_EDGES | NUM_TYPES

definition INVALID_VERTEX_ID :: nat where
  "INVALID_VERTEX_ID = 2 ^ 32 - 1"

section \<open>The layout of a vertex\<close>

record ext_mem_undirected_vertex =
  emv_id :: nat
  emv_edge_data_size :: nat
  emv_num_edges :: nat

definition new_ext_mem_undirected_vertex :: "nat \<Rightarrow> nat \<Rightarrow> nat \<Rightarrow> ext_mem_undirected_vertex" where
  "new_ext_mem_undirected_vertex vid num_edges edge_data_size =
     \<lparr>emv_id = u32 vid, emv_edge_data_size = u32 edge_data_size, emv_num_edges = u32 num_edges\<rparr>"

definition emv_header_size :: nat where
  "emv_header_size = 12"

definition emv_get_size0 :: "ext_mem_undirected_vertex \<Rightarrow> nat" where
  "emv_get_size0 v = emv_header_size + 4 * emv_num_edges v"

definition emv_edge_data_addr :: "ext_mem_undirected_vertex \<Rightarrow> nat" where
  "emv_edge_data_addr v = ROUNDUP (emv_get_size0 v) (emv_edge_data_size v)"

definition emv_has_edge_data :: "ext_mem_undirected_vertex \<Rightarrow> bool" where
  "emv_has_edge_data v \<longleftrightarrow> emv_edge_data_size v > 0"

text \<open>The product of the two 32-bit numbers is taken modulo \<open>2 ^ 32\<close>.\<close>

definition emv_get_size :: "ext_mem_undirected_vertex \<Rightarrow> nat" where
  "emv_get_size v =
     (if emv_has_edge_data v
      then ROUNDUP (emv_edge_data_addr v + u32 (emv_num_edges v * emv_edge_data_size v)) 4
      else emv_header_size + emv_num_edges v * 4)"

definition get_edge_data_offset :: "nat \<Rightarrow> nat \<Rightarrow> nat" where
  "get_edge_data_offset num_edges edge_data_size =
     emv_edge_data_addr (new_ext_mem_undirected_vertex 0 num_edges edge_data_size)"

definition vsize2num_edges :: "nat \<Rightarrow> nat \<Rightarrow> nat" where
  "vsize2num_edges vertex_size edge_data_size =
     u32 (unsigned_diff vertex_size emv_header_size div (4 + edge_data_size))"

definition num_edges2vsize :: "nat \<Rightarrow> nat \<Rightarrow> nat" where
  "num_edges2vsize num_edges edge_data_size =
     emv_get_size (new_ext_mem_undirected_vertex 0 num_edges edge_data_size)"

definition emv_of_bytes :: "byte list \<Rightarrow> ext_mem_undirected_vertex" where
  "emv_of_bytes bs = \<lparr>emv_id = u32_of (take 4 bs), emv_edge_data_size = u32_of (take 4 (drop 4 bs)),
     emv_num_edges = u32_of (take 4 (drop 8 bs))\<rparr>"

definition emv_deserialize :: "byte list \<Rightarrow> ext_mem_undirected_vertex res" where
  "emv_deserialize buf = assert_then (length buf \<ge> emv_header_size)
     (let v = emv_of_bytes buf in assert_then (length buf \<ge> emv_get_size v) (Inr v))"

record ext_mem_vertex_info =
  evi_id :: nat
  evi_size :: nat
  evi_off :: int

definition new_ext_mem_vertex_info :: "nat \<Rightarrow> int \<Rightarrow> nat \<Rightarrow> ext_mem_vertex_info" where
  "new_ext_mem_vertex_info vid off sz = \<lparr>evi_id = u32 vid, evi_size = u32 sz, evi_off = off\<rparr>"

definition evi_has_edges :: "ext_mem_vertex_info \<Rightarrow> bool" where
  "evi_has_edges info \<longleftrightarrow> evi_size info > emv_header_size"

definition evi_is_valid :: "ext_mem_vertex_info \<Rightarrow> bool" where
  "evi_is_valid info \<longleftrightarrow> evi_id info \<noteq> INVALID_VERTEX_ID"

section \<open>Edges and vertices in memory\<close>

record edge =
  edge_from :: nat
  edge_to :: nat
  edge_data :: "byte list option"

definition edge_get_data :: "edge \<Rightarrow> byte list res" where
  "edge_get_data e = (case edge_data e of None \<Rightarrow> Inl Assert_failed | Some d \<Rightarrow> Inr d)"

definition edge_reverse_dir :: "edge \<Rightarrow> edge" where
  "edge_reverse_dir e = e\<lparr>edge_from := edge_to e, edge_to := edge_from e\<rparr>"

text \<open>The interface \<^verbatim>\<open>in_mem_vertex\<close>: the results of its virtual methods.\<close>

record in_mem_vertex =
  imv_id :: nat
  imv_has_edge_data :: bool
  imv_edge_data_size :: nat
  imv_num_edges :: "edge_type \<Rightarrow> nat res"
  imv_serialize_edges :: "edge_type \<Rightarrow> byte list"
  imv_serialize_edge_data :: "edge_type \<Rightarrow> byte list res"
  imv_serialize_size :: "edge_type \<Rightarrow> nat res"

record in_mem_undirected_vertex =
  iuv_has_data :: bool
  iuv_id :: nat
  iuv_edges :: "nat list"
  iuv_data_arr :: "byte list list"

definition new_in_mem_undirected_vertex :: "nat \<Rightarrow> bool \<Rightarrow> in_mem_undirected_vertex" where
  "new_in_mem_undirected_vertex vid with_data =
     \<lparr>iuv_has_data = with_data, iuv_id = vid, iuv_edges = [], iuv_data_arr = []\<rparr>"

definition iuv_add_edge :: "in_mem_undirected_vertex \<Rightarrow> edge \<Rightarrow> in_mem_undirected_vertex res" where
  "iuv_add_edge v e =
     assert_then (edge_from e = iuv_id v)
    (assert_then (iuv_edges v = [] \<or> edge_to e \<ge> last (iuv_edges v))
    (let v = v\<lparr>iuv_edges := iuv_edges v @ [edge_to e]\<rparr>
     in if iuv_has_data v
        then bind_res (edge_get_data e) (\<lambda>d. Inr (v\<lparr>iuv_data_arr := iuv_data_arr v @ [d]\<rparr>))
        else Inr v))"

definition iuv_has_edge :: "in_mem_undirected_vertex \<Rightarrow> nat \<Rightarrow> bool" where
  "iuv_has_edge v vid = list_ex (\<lambda>e. e = vid) (iuv_edges v)"

definition iuv_get_edge :: "in_mem_undirected_vertex \<Rightarrow> nat \<Rightarrow> edge res" where
  "iuv_get_edge v idx =
     (if idx < length (iuv_edges v) \<and> (iuv_has_data v \<longrightarrow> idx < length (iuv_data_arr v))
      then Inr \<lparr>edge_from = iuv_id v, edge_to = iuv_edges v ! idx,
             edge_data = (if iuv_has_data v then Some (iuv_data_arr v ! idx) else None)\<rparr>
      else Inl Undefined_behaviour)"

definition iuv_serialize_size :: "nat \<Rightarrow> in_mem_undirected_vertex \<Rightarrow> nat" where
  "iuv_serialize_size ds v = emv_get_size
     (new_ext_mem_undirected_vertex 0 (length (iuv_edges v)) (if iuv_has_data v then ds else 0))"

text \<open>The lookups of \<^verbatim>\<open>remap\<close>, each asserted to succeed.\<close>

fun remap_ids :: "(nat \<rightharpoonup> nat) \<Rightarrow> nat list \<Rightarrow> nat list res" where
  "remap_ids m [] = Inr []"
| "remap_ids m (x # xs) = (case m x of None \<Rightarrow> Inl Assert_failed
     | Some y \<Rightarrow> bind_res (remap_ids m xs) (\<lambda>ys. Inr (y # ys)))"

definition iuv_remap :: "(nat \<rightharpoonup> nat) \<Rightarrow> in_mem_undirected_vertex \<Rightarrow> in_mem_undirected_vertex res" where
  "iuv_remap m v = (case m (iuv_id v) of None \<Rightarrow> Inl Assert_failed
     | Some id' \<Rightarrow> bind_res (remap_ids m (iuv_edges v)) (\<lambda>es. Inr (v\<lparr>iuv_id := id', iuv_edges := es\<rparr>)))"

definition undirected_vertex :: "nat \<Rightarrow> in_mem_undirected_vertex \<Rightarrow> in_mem_vertex" where
  "undirected_vertex ds v =
     \<lparr>imv_id = iuv_id v, imv_has_edge_data = iuv_has_data v,
      imv_edge_data_size = (if iuv_has_data v then ds else 0),
      imv_num_edges = (\<lambda>_. Inr (length (iuv_edges v))),
      imv_serialize_edges = (\<lambda>_. concat (map u32_bytes (iuv_edges v))),
      imv_serialize_edge_data = (\<lambda>_. Inr (concat (iuv_data_arr v))),
      imv_serialize_size = (\<lambda>_. Inr (iuv_serialize_size ds v))\<rparr>"

record in_mem_directed_vertex =
  idv_id :: nat
  idv_has_data :: bool
  idv_out_edges :: "nat list"
  idv_in_edges :: "nat list"
  idv_out_data :: "byte list list"
  idv_in_data :: "byte list list"

definition new_in_mem_directed_vertex :: "nat \<Rightarrow> bool \<Rightarrow> in_mem_directed_vertex" where
  "new_in_mem_directed_vertex vid with_data = \<lparr>idv_id = vid, idv_has_data = with_data,
     idv_out_edges = [], idv_in_edges = [], idv_out_data = [], idv_in_data = []\<rparr>"

definition idv_add_in_edge :: "in_mem_directed_vertex \<Rightarrow> edge \<Rightarrow> in_mem_directed_vertex res" where
  "idv_add_in_edge v e = assert_then (edge_to e = idv_id v)
     (let v = v\<lparr>idv_in_edges := idv_in_edges v @ [edge_from e]\<rparr>
      in if idv_has_data v
         then bind_res (edge_get_data e) (\<lambda>d. Inr (v\<lparr>idv_in_data := idv_in_data v @ [d]\<rparr>))
         else Inr v)"

definition idv_add_out_edge :: "in_mem_directed_vertex \<Rightarrow> edge \<Rightarrow> in_mem_directed_vertex res" where
  "idv_add_out_edge v e = assert_then (edge_from e = idv_id v)
     (let v = v\<lparr>idv_out_edges := idv_out_edges v @ [edge_to e]\<rparr>
      in if idv_has_data v
         then bind_res (edge_get_data e) (\<lambda>d. Inr (v\<lparr>idv_out_data := idv_out_data v @ [d]\<rparr>))
         else Inr v)"

definition idv_get_num_edges :: "in_mem_directed_vertex \<Rightarrow> edge_type \<Rightarrow> nat res" where
  "idv_get_num_edges v type = (case type of
       IN_EDGE \<Rightarrow> Inr (length (idv_in_edges v))
     | OUT_EDGE \<Rightarrow> Inr (length (idv_out_edges v))
     | BOTH_EDGES \<Rightarrow> Inr (length (idv_in_edges v) + length (idv_out_edges v))
     | _ \<Rightarrow> Inl Invalid_arg_exception)"

definition idv_get_in_edge :: "in_mem_directed_vertex \<Rightarrow> nat \<Rightarrow> edge res" where
  "idv_get_in_edge v idx =
     (if idx < length (idv_in_edges v) \<and> (idv_has_data v \<longrightarrow> idx < length (idv_in_data v))
      then Inr \<lparr>edge_from = idv_in_edges v ! idx, edge_to = idv_id v,
             edge_data = (if idv_has_data v then Some (idv_in_data v ! idx) else None)\<rparr>
      else Inl Undefined_behaviour)"

definition idv_get_out_edge :: "in_mem_directed_vertex \<Rightarrow> nat \<Rightarrow> edge res" where
  "idv_get_out_edge v idx =
     (if idx < length (idv_out_edges v) \<and> (idv_has_data v \<longrightarrow> idx < length (idv_out_data v))
      then Inr \<lparr>edge_from = idv_id v, edge_to = idv_out_edges v ! idx,
             edge_data = (if idv_has_data v then Some (idv_out_data v ! idx) else None)\<rparr>
      else Inl Undefined_behaviour)"

definition idv_serialize_size :: "nat \<Rightarrow> in_mem_directed_vertex \<Rightarrow> edge_type \<Rightarrow> nat res" where
  "idv_serialize_size ds v type = assert_then (type = IN_EDGE \<or> type = OUT_EDGE)
     (Inr (emv_get_size (new_ext_mem_undirected_vertex 0
       (length (if type = IN_EDGE then idv_in_edges v else idv_out_edges v))
       (if idv_has_data v then ds else 0))))"

definition idv_remap :: "(nat \<rightharpoonup> nat) \<Rightarrow> in_mem_directed_vertex \<Rightarrow> in_mem_directed_vertex res" where
  "idv_remap m v = (case m (idv_id v) of None \<Rightarrow> Inl Assert_failed
     | Some id' \<Rightarrow> bind_res (remap_ids m (idv_out_edges v)) (\<lambda>os.
         bind_res (remap_ids m (idv_in_edges v)) (\<lambda>ins.
         Inr (v\<lparr>idv_id := id', idv_out_edges := os, idv_in_edges := ins\<rparr>))))"

definition directed_vertex :: "nat \<Rightarrow> in_mem_directed_vertex \<Rightarrow> in_mem_vertex" where
  "directed_vertex ds v =
     \<lparr>imv_id = idv_id v, imv_has_edge_data = idv_has_data v,
      imv_edge_data_size = (if idv_has_data v then ds else 0),
      imv_num_edges = idv_get_num_edges v,
      imv_serialize_edges = (\<lambda>type. case type of
          IN_EDGE \<Rightarrow> concat (map u32_bytes (idv_in_edges v))
        | OUT_EDGE \<Rightarrow> concat (map u32_bytes (idv_out_edges v)) | _ \<Rightarrow> []),
      imv_serialize_edge_data = (\<lambda>type. assert_then (idv_has_data v) (Inr (case type of
          IN_EDGE \<Rightarrow> concat (idv_in_data v) | OUT_EDGE \<Rightarrow> concat (idv_out_data v) | _ \<Rightarrow> []))),
      imv_serialize_size = idv_serialize_size ds v\<rparr>"

section \<open>Writing a vertex\<close>

definition emv_serialize :: "in_mem_vertex \<Rightarrow> byte list \<Rightarrow> edge_type \<Rightarrow> (nat \<times> byte list) res" where
  "emv_serialize v buf type =
     assert_then (emv_header_size \<le> length buf)
    (bind_res (imv_num_edges v type) (\<lambda>num_edges.
     let ext_v = new_ext_mem_undirected_vertex (imv_id v) num_edges
           (if imv_has_edge_data v then imv_edge_data_size v else 0)
     in bind_res (write_mem buf 0 (u32_bytes (emv_id ext_v) @ u32_bytes (emv_edge_data_size ext_v)
          @ u32_bytes (emv_num_edges ext_v))) (\<lambda>buf.
        let mem_size = emv_get_size ext_v
        in assert_then (length buf \<ge> mem_size)
          (bind_res (write_mem buf emv_header_size (imv_serialize_edges v type)) (\<lambda>buf.
           if imv_has_edge_data v
           then bind_res (imv_serialize_edge_data v type) (\<lambda>d.
                bind_res (write_mem buf (emv_edge_data_addr ext_v) d) (\<lambda>buf. Inr (mem_size, buf)))
           else Inr (mem_size, buf))))))"

section \<open>Reading a vertex\<close>

record page_undirected_vertex =
  puv_id :: nat
  puv_vertex_size :: nat
  puv_num_edges :: nat
  puv_array :: page_byte_array

definition new_page_undirected_vertex :: "page_byte_array \<Rightarrow> page_undirected_vertex res" where
  "new_page_undirected_vertex arr =
     assert_then (pba_size arr \<ge> emv_header_size)
    (bind_res (pba_get arr emv_header_size 0) (\<lambda>bs.
     let v = emv_of_bytes bs
     in assert_then (u32 (pba_size arr) \<ge> emv_get_size v)
       (Inr \<lparr>puv_id = emv_id v, puv_vertex_size = u32 (emv_get_size v),
             puv_num_edges = emv_num_edges v, puv_array = arr\<rparr>)))"

definition puv_neigh_begin :: "page_undirected_vertex \<Rightarrow> const_iterator res" where
  "puv_neigh_begin v = pba_begin (puv_array v) 4 emv_header_size"

definition puv_neigh_end :: "page_undirected_vertex \<Rightarrow> const_iterator res" where
  "puv_neigh_end v = bind_res (puv_neigh_begin v) (\<lambda>it. ci_advance 4 it (puv_num_edges v))"

definition puv_neigh_seq_it :: "page_undirected_vertex \<Rightarrow> nat \<Rightarrow> nat \<Rightarrow> seq_const_iterator res" where
  "puv_neigh_seq_it v start stop =
     (let stop = min stop (puv_num_edges v)
      in assert_then (start \<le> stop)
        (assert_then (stop \<le> puv_num_edges v)
        (pba_get_seq_iterator (puv_array v) 4 (emv_header_size + start * 4) (emv_header_size + stop * 4))))"

definition puv_read_edges :: "page_undirected_vertex \<Rightarrow> nat \<Rightarrow> nat list res" where
  "puv_read_edges v num = assert_then (puv_num_edges v \<le> num)
     (bind_res (pba_memcpy (puv_array v) emv_header_size (4 * puv_num_edges v))
       (\<lambda>bs. Inr (u32s_of (puv_num_edges v) bs)))"

definition puv_data_seq_it :: "nat \<Rightarrow> page_undirected_vertex \<Rightarrow> nat \<Rightarrow> nat \<Rightarrow> seq_const_iterator res" where
  "puv_data_seq_it ds v start stop =
     (let edge_end = get_edge_data_offset (puv_num_edges v) ds
      in pba_get_seq_iterator (puv_array v) ds (edge_end + start * ds) (edge_end + stop * ds))"

text \<open>\<^verbatim>\<open>in_mem_undirected_vertex(const page_undirected_vertex &, has_data)\<close>.\<close>

definition iuv_of_page :: "page_undirected_vertex \<Rightarrow> bool \<Rightarrow> in_mem_undirected_vertex res" where
  "iuv_of_page v with_data = bind_res (puv_read_edges v (puv_num_edges v)) (\<lambda>es.
     assert_then (\<not> with_data)
       (Inr \<lparr>iuv_has_data = with_data, iuv_id = puv_id v, iuv_edges = es, iuv_data_arr = []\<rparr>))"

record page_directed_vertex =
  pdv_id :: nat
  pdv_num_in_edges :: nat
  pdv_num_out_edges :: nat
  pdv_in_size :: nat
  pdv_out_size :: nat
  pdv_in_array :: "page_byte_array option"
  pdv_out_array :: "page_byte_array option"

definition pdv_header :: "page_byte_array \<Rightarrow> ext_mem_undirected_vertex res" where
  "pdv_header arr = assert_then (pba_size arr \<ge> emv_header_size)
     (bind_res (pba_get arr emv_header_size 0) (\<lambda>bs. Inr (emv_of_bytes bs)))"

definition new_page_directed_part :: "page_byte_array \<Rightarrow> bool \<Rightarrow> page_directed_vertex res" where
  "new_page_directed_part arr in_part =
     bind_res (pdv_header arr) (\<lambda>v. assert_then (pba_size arr \<ge> emv_get_size v)
       (Inr (if in_part
         then \<lparr>pdv_id = emv_id v, pdv_num_in_edges = emv_num_edges v, pdv_num_out_edges = 0,
               pdv_in_size = emv_get_size v, pdv_out_size = 0, pdv_in_array = Some arr, pdv_out_array = None\<rparr>
         else \<lparr>pdv_id = emv_id v, pdv_num_in_edges = 0, pdv_num_out_edges = emv_num_edges v,
               pdv_in_size = 0, pdv_out_size = emv_get_size v, pdv_in_array = None, pdv_out_array = Some arr\<rparr>)))"

definition new_page_directed_vertex :: "page_byte_array \<Rightarrow> page_byte_array \<Rightarrow> page_directed_vertex res" where
  "new_page_directed_vertex in_arr out_arr =
     bind_res (pdv_header in_arr) (\<lambda>v. assert_then (pba_size in_arr \<ge> emv_get_size v)
    (bind_res (pdv_header out_arr) (\<lambda>w. assert_then (pba_size out_arr \<ge> emv_get_size w)
    (assert_then (emv_id v = emv_id w)
      (Inr \<lparr>pdv_id = emv_id v, pdv_num_in_edges = emv_num_edges v, pdv_num_out_edges = emv_num_edges w,
            pdv_in_size = emv_get_size v, pdv_out_size = emv_get_size w,
            pdv_in_array = Some in_arr, pdv_out_array = Some out_arr\<rparr>)))))"

definition pdv_get_num_edges :: "page_directed_vertex \<Rightarrow> edge_type \<Rightarrow> nat res" where
  "pdv_get_num_edges v type = (case type of
       IN_EDGE \<Rightarrow> Inr (pdv_num_in_edges v)
     | OUT_EDGE \<Rightarrow> Inr (pdv_num_out_edges v)
     | BOTH_EDGES \<Rightarrow> Inr (u32 (pdv_num_in_edges v + pdv_num_out_edges v))
     | _ \<Rightarrow> Inl Invalid_arg_exception)"

text \<open>The array of one direction, as the \<^verbatim>\<open>switch\<close> statements select and assert it.\<close>

definition pdv_array :: "page_directed_vertex \<Rightarrow> edge_type \<Rightarrow> page_byte_array res" where
  "pdv_array v type = (case type of
       IN_EDGE \<Rightarrow> (case pdv_in_array v of None \<Rightarrow> Inl Assert_failed | Some a \<Rightarrow> Inr a)
     | OUT_EDGE \<Rightarrow> (case pdv_out_array v of None \<Rightarrow> Inl Assert_failed | Some a \<Rightarrow> Inr a)
     | _ \<Rightarrow> Inl Invalid_arg_exception)"

definition pdv_neigh_begin :: "page_directed_vertex \<Rightarrow> edge_type \<Rightarrow> const_iterator res" where
  "pdv_neigh_begin v type = bind_res (pdv_array v type) (\<lambda>a. pba_begin a 4 emv_header_size)"

definition pdv_neigh_end :: "page_directed_vertex \<Rightarrow> edge_type \<Rightarrow> const_iterator res" where
  "pdv_neigh_end v type = bind_res (pdv_neigh_begin v type) (\<lambda>it.
     bind_res (pdv_get_num_edges v type) (\<lambda>n. ci_advance 4 it n))"

definition pdv_neigh_seq_it :: "page_directed_vertex \<Rightarrow> edge_type \<Rightarrow> nat \<Rightarrow> nat \<Rightarrow> seq_const_iterator res" where
  "pdv_neigh_seq_it v type start stop =
     bind_res (pdv_get_num_edges v type) (\<lambda>n.
     let stop = min stop n
     in assert_then (start \<le> stop) (bind_res (pdv_array v type) (\<lambda>a.
        pba_get_seq_iterator a 4 (emv_header_size + start * 4) (emv_header_size + stop * 4))))"

definition pdv_data_begin :: "nat \<Rightarrow> page_directed_vertex \<Rightarrow> edge_type \<Rightarrow> const_iterator res" where
  "pdv_data_begin ds v type = bind_res (pdv_array v type) (\<lambda>a.
     pba_begin a ds (get_edge_data_offset
       (if type = IN_EDGE then pdv_num_in_edges v else pdv_num_out_edges v) ds))"

definition pdv_data_end :: "nat \<Rightarrow> page_directed_vertex \<Rightarrow> edge_type \<Rightarrow> const_iterator res" where
  "pdv_data_end ds v type = bind_res (pdv_data_begin ds v type) (\<lambda>it.
     bind_res (pdv_get_num_edges v type) (\<lambda>n. ci_advance ds it n))"

definition pdv_data_seq_it :: "nat \<Rightarrow> page_directed_vertex \<Rightarrow> edge_type \<Rightarrow> nat \<Rightarrow> nat \<Rightarrow> seq_const_iterator res" where
  "pdv_data_seq_it ds v type start stop = bind_res (pdv_array v type) (\<lambda>a.
     let edge_end = get_edge_data_offset (if type = IN_EDGE then pdv_num_in_edges v else pdv_num_out_edges v) ds
     in pba_get_seq_iterator a ds (edge_end + start * ds) (edge_end + stop * ds))"

text \<open>For other edge types \<^verbatim>\<open>read_edges\<close> reads nothing and returns 0.\<close>

definition pdv_read_edges :: "page_directed_vertex \<Rightarrow> edge_type \<Rightarrow> nat \<Rightarrow> nat list res" where
  "pdv_read_edges v type num =
     (if type = IN_EDGE \<or> type = OUT_EDGE
      then let n = (if type = IN_EDGE then pdv_num_in_edges v else pdv_num_out_edges v)
           in assert_then (n \<le> num) (bind_res (pdv_array v type) (\<lambda>a.
              bind_res (pba_memcpy a emv_header_size (4 * n)) (\<lambda>bs. Inr (u32s_of n bs))))
      else Inr [])"

definition idv_of_page :: "page_directed_vertex \<Rightarrow> bool \<Rightarrow> in_mem_directed_vertex res" where
  "idv_of_page v with_data =
     bind_res (pdv_read_edges v IN_EDGE (pdv_num_in_edges v)) (\<lambda>ins.
     bind_res (pdv_read_edges v OUT_EDGE (pdv_num_out_edges v)) (\<lambda>outs.
     assert_then (\<not> with_data)
       (Inr \<lparr>idv_id = pdv_id v, idv_has_data = with_data, idv_out_edges = outs, idv_in_edges = ins,
             idv_out_data = [], idv_in_data = []\<rparr>)))"

end
