(* ===== verification/Page_Arrays.thy ===== *)
theory Page_Arrays
  imports Byte_Array
begin

text \<open>
  The byte arrays of the I/O layer: a request that lies in one cached page
  (\<^verbatim>\<open>simple_page_byte_array\<close>), a request over several cached pages (\<^verbatim>\<open>original_req_byte_array\<close>), data
  read around the cache (\<^verbatim>\<open>direct_byte_array\<close>) and data held in memory (\<^verbatim>\<open>in_mem_byte_array\<close>), with
  the request \<^verbatim>\<open>original_io_request\<close> that collects the pages of the second kind and the container
  \<^verbatim>\<open>embedded_array\<close> they are kept in. A cached page is named by a number; \<open>frame\<close> gives the bytes of
  its data. What a destructor releases is the list of the pages on which it calls \<^verbatim>\<open>dec_ref\<close>.
\<close>

section \<open>Arrays with embedded storage\<close>

text \<open>\<open>ea_heap\<close> is the allocated array when \<^verbatim>\<open>real_buf\<close> differs from \<^verbatim>\<open>buf\<close>. Elements of a pointer type
  have no defined value before they are set; \<open>junk\<close> stands for it.\<close>

definition EMBEDDED_SIZE :: nat where
  "EMBEDDED_SIZE = 32"

record 'a embedded_array =
  ea_buf :: "'a list"
  ea_heap :: "'a list option"
  ea_capacity :: nat

definition new_embedded_array :: "'a \<Rightarrow> 'a embedded_array" where
  "new_embedded_array d = \<lparr>ea_buf = replicate EMBEDDED_SIZE d, ea_heap = None, ea_capacity = EMBEDDED_SIZE\<rparr>"

definition ea_clear :: "'a embedded_array \<Rightarrow> 'a embedded_array" where
  "ea_clear arr = (case ea_heap arr of None \<Rightarrow> arr
     | Some _ \<Rightarrow> arr\<lparr>ea_heap := None, ea_capacity := EMBEDDED_SIZE\<rparr>)"

text \<open>\<^verbatim>\<open>assign\<close>: the array assigned to and the array assigned from afterwards; \<open>d\<close> is \<^verbatim>\<open>T()\<close>.\<close>

definition ea_assign :: "'a \<Rightarrow> 'a embedded_array \<Rightarrow> 'a embedded_array \<Rightarrow> 'a embedded_array \<times> 'a embedded_array" where
  "ea_assign d this arr =
     (let this = ea_clear this
      in case ea_heap arr of
           None \<Rightarrow> (this\<lparr>ea_buf := take (ea_capacity this) (ea_buf arr) @ drop (ea_capacity this) (ea_buf this),
                       ea_heap := None, ea_capacity := EMBEDDED_SIZE\<rparr>,
                  arr\<lparr>ea_buf := replicate (min (ea_capacity this) (length (ea_buf arr))) d
                       @ drop (ea_capacity this) (ea_buf arr)\<rparr>)
         | Some h \<Rightarrow> (this\<lparr>ea_heap := Some h, ea_capacity := ea_capacity arr\<rparr>,
                    arr\<lparr>ea_heap := None, ea_capacity := EMBEDDED_SIZE\<rparr>))"

definition ea_real :: "'a embedded_array \<Rightarrow> 'a list" where
  "ea_real arr = (case ea_heap arr of None \<Rightarrow> ea_buf arr | Some h \<Rightarrow> h)"

definition ea_get :: "'a embedded_array \<Rightarrow> nat \<Rightarrow> 'a res" where
  "ea_get arr idx = assert_then (idx < ea_capacity arr) (Inr (ea_real arr ! idx))"

definition ea_set :: "'a embedded_array \<Rightarrow> nat \<Rightarrow> 'a \<Rightarrow> 'a embedded_array res" where
  "ea_set arr idx v = assert_then (idx < ea_capacity arr)
     (Inr (case ea_heap arr of None \<Rightarrow> arr\<lparr>ea_buf := (ea_buf arr)[idx := v]\<rparr>
           | Some h \<Rightarrow> arr\<lparr>ea_heap := Some (h[idx := v])\<rparr>))"

definition ea_resize :: "'a \<Rightarrow> 'a embedded_array \<Rightarrow> nat \<Rightarrow> 'a embedded_array" where
  "ea_resize junk arr new_size =
     (if new_size \<le> ea_capacity arr then arr
      else case ea_heap arr of
        None \<Rightarrow> arr\<lparr>ea_heap := Some (ea_buf arr @ replicate (new_size - EMBEDDED_SIZE) junk), ea_capacity := new_size\<rparr>
      | Some h \<Rightarrow> arr\<lparr>ea_heap := Some (take (ea_capacity arr) h @ replicate (new_size - ea_capacity arr) junk),
                      ea_capacity := new_size\<rparr>)"

section \<open>A request in one page\<close>

record simple_page_byte_array =
  spba_off :: nat
  spba_size :: nat
  spba_p :: "nat option"

definition new_simple_page_byte_array :: simple_page_byte_array where
  "new_simple_page_byte_array = \<lparr>spba_off = 0, spba_size = 0, spba_p = None\<rparr>"

definition spba_init :: "nat \<Rightarrow> nat \<Rightarrow> nat \<Rightarrow> simple_page_byte_array" where
  "spba_init req_off req_size p = \<lparr>spba_off = req_off, spba_size = req_size, spba_p = Some p\<rparr>"

definition spba_assign :: "simple_page_byte_array \<Rightarrow> simple_page_byte_array \<Rightarrow> simple_page_byte_array \<times> simple_page_byte_array" where
  "spba_assign this arr =
     (this\<lparr>spba_off := spba_off arr, spba_size := spba_size arr, spba_p := spba_p arr\<rparr>, arr\<lparr>spba_p := None\<rparr>)"

definition spba_clone :: "simple_page_byte_array \<Rightarrow> simple_page_byte_array \<times> simple_page_byte_array" where
  "spba_clone this = spba_assign new_simple_page_byte_array this"

definition spba_destroy :: "simple_page_byte_array \<Rightarrow> nat list" where
  "spba_destroy arr = (case spba_p arr of None \<Rightarrow> [] | Some p \<Rightarrow> [p])"

definition spba_view :: "(nat \<Rightarrow> byte list) \<Rightarrow> simple_page_byte_array \<Rightarrow> page_byte_array" where
  "spba_view frame arr =
     \<lparr>pba_size = spba_size arr, pba_offset = spba_off arr, pba_first = spba_off arr mod page_bytes,
      pba_page = (\<lambda>idx. assert_then (idx = 0)
        (case spba_p arr of None \<Rightarrow> Inl Undefined_behaviour | Some p \<Rightarrow> Inr (frame p)))\<rparr>"

section \<open>Requests that wait for their pages\<close>

record page_status =
  ps_pg :: "nat option"
  ps_completed :: bool

definition null_status :: page_status where
  "null_status = \<lparr>ps_pg = None, ps_completed = False\<rparr>"

record original_io_request =
  oir_off :: nat
  oir_size :: nat
  oir_completed_size :: int
  oir_status :: "page_status embedded_array"

definition num_covered_pages :: "nat \<Rightarrow> nat \<Rightarrow> nat" where
  "num_covered_pages off n = (next_page_off (off + n) - ROUND_PAGE off) div page_bytes"

text \<open>\<^verbatim>\<open>init(req)\<close> on a request as the constructor leaves it; \<^verbatim>\<open>memset\<close> clears the first entries.\<close>

definition oir_init :: "page_status \<Rightarrow> nat \<Rightarrow> nat \<Rightarrow> original_io_request" where
  "oir_init junk off n =
     (let num = num_covered_pages off n;
          arr = ea_resize junk (new_embedded_array null_status) num
      in \<lparr>oir_off = off, oir_size = n, oir_completed_size = 0,
          oir_status = (case ea_heap arr of
             None \<Rightarrow> arr\<lparr>ea_buf := replicate num null_status @ drop num (ea_buf arr)\<rparr>
           | Some h \<Rightarrow> arr\<lparr>ea_heap := Some (replicate num null_status @ drop num h)\<rparr>)\<rparr>)"

definition oir_first_page_offset :: "original_io_request \<Rightarrow> nat" where
  "oir_first_page_offset req = ROUND_PAGE (oir_off req)"

text \<open>The index of a page in the status array. The division rounds towards zero; a negative index passes
  the assertion of the array and reads in front of it.\<close>

definition oir_page_index :: "original_io_request \<Rightarrow> nat \<Rightarrow> nat res" where
  "oir_page_index req off =
     (let idx = (int off - int (oir_first_page_offset req)) sdiv int page_bytes
      in if idx < 0 then Inl Undefined_behaviour else Inr (nat idx))"

definition oir_get_page_status :: "original_io_request \<Rightarrow> nat \<Rightarrow> page_status res" where
  "oir_get_page_status req off = bind_res (oir_page_index req off) (ea_get (oir_status req))"

definition oir_set_page_status :: "original_io_request \<Rightarrow> nat \<Rightarrow> (page_status \<Rightarrow> page_status) \<Rightarrow> original_io_request res" where
  "oir_set_page_status req off f =
     bind_res (oir_page_index req off) (\<lambda>idx.
     bind_res (ea_get (oir_status req) idx) (\<lambda>st.
     bind_res (ea_set (oir_status req) idx (f st)) (\<lambda>arr. Inr (req\<lparr>oir_status := arr\<rparr>))))"

definition get_overlap_size :: "original_io_request \<Rightarrow> nat \<Rightarrow> int" where
  "get_overlap_size req poff = int32 (int (min (poff + page_bytes) (oir_off req + oir_size req))
     - int (max poff (oir_off req)))"

text \<open>\<^verbatim>\<open>complete_page\<close>, \<^verbatim>\<open>complete_range\<close> and \<^verbatim>\<open>is_complete\<close>; a page is given by its offset.\<close>

definition oir_complete_page :: "original_io_request \<Rightarrow> nat \<Rightarrow> (bool \<times> original_io_request) res" where
  "oir_complete_page req poff =
     bind_res (oir_set_page_status req poff (ps_completed_update (\<lambda>_. True))) (\<lambda>req.
     let ret = int64 (oir_completed_size req + get_overlap_size req poff)
     in Inr (ret = int (oir_size req), req\<lparr>oir_completed_size := ret\<rparr>))"

function mark_range :: "original_io_request \<Rightarrow> nat \<Rightarrow> nat \<Rightarrow> original_io_request res" where
  "mark_range req pg_begin pg_end =
     (if pg_begin < pg_end
      then bind_res (oir_get_page_status req pg_begin) (\<lambda>st.
           assert_then (\<not> ps_completed st)
           (bind_res (oir_set_page_status req pg_begin (ps_completed_update (\<lambda>_. True))) (\<lambda>req.
            mark_range req (pg_begin + page_bytes) pg_end)))
      else Inr req)"
  by pat_completeness auto
termination
  by (relation "measure (\<lambda>(_, b, e). e - b)") (auto simp: page_bytes_def)

declare mark_range.simps [simp del]

definition oir_complete_range :: "original_io_request \<Rightarrow> nat \<Rightarrow> nat \<Rightarrow> (bool \<times> original_io_request) res" where
  "oir_complete_range req off n =
     (let ret = int64 (oir_completed_size req + int n)
      in bind_res (mark_range (req\<lparr>oir_completed_size := ret\<rparr>) (ROUND_PAGE off) (next_page_off (off + n)))
           (\<lambda>req. Inr (ret = int (oir_size req), req)))"

definition oir_is_complete :: "original_io_request \<Rightarrow> bool" where
  "oir_is_complete req \<longleftrightarrow> oir_completed_size req = int (oir_size req)"

text \<open>\<^verbatim>\<open>complete_req\<close> for a request of a user task: the page is kept, with a reference taken.\<close>

definition oir_complete_req :: "original_io_request \<Rightarrow> nat \<Rightarrow> nat \<Rightarrow> original_io_request res" where
  "oir_complete_req req poff p = oir_set_page_status req poff (ps_pg_update (\<lambda>_. Some p))"

section \<open>A request over several pages\<close>

record original_req_byte_array =
  orba_off :: nat
  orba_valid :: bool
  orba_size :: nat
  orba_pages :: "nat option embedded_array"

definition new_original_req_byte_array :: "nat option \<Rightarrow> original_req_byte_array" where
  "new_original_req_byte_array junk =
     \<lparr>orba_off = 0, orba_valid = False, orba_size = 0, orba_pages = new_embedded_array junk\<rparr>"

definition orba_num_covered_pages :: "original_req_byte_array \<Rightarrow> nat" where
  "orba_num_covered_pages arr = num_covered_pages (orba_off arr) (orba_size arr)"

text \<open>The loop of \<^verbatim>\<open>init\<close> takes the pages out of the request, from index \<open>i\<close> on.\<close>

fun orba_take_pages :: "nat \<Rightarrow> nat \<Rightarrow> original_io_request \<Rightarrow> nat option embedded_array
    \<Rightarrow> (original_io_request \<times> nat option embedded_array) res" where
  "orba_take_pages 0 i req pages = Inr (req, pages)"
| "orba_take_pages (Suc k) i req pages =
     bind_res (ea_get (oir_status req) i) (\<lambda>st.
     bind_res (ea_set pages i (ps_pg st)) (\<lambda>pages.
     bind_res (ea_set (oir_status req) i (st\<lparr>ps_pg := None\<rparr>)) (\<lambda>sts.
     orba_take_pages k (i + 1) (req\<lparr>oir_status := sts\<rparr>) pages)))"

definition orba_init :: "nat option \<Rightarrow> original_io_request \<Rightarrow> (original_req_byte_array \<times> original_io_request) res" where
  "orba_init junk req =
     (let num_pages = num_covered_pages (oir_off req) (oir_size req);
          pages = ea_resize junk (orba_pages (new_original_req_byte_array junk)) num_pages
      in bind_res (orba_take_pages num_pages 0 req pages) (\<lambda>(req, pages).
         Inr (\<lparr>orba_off = oir_off req, orba_valid = True, orba_size = oir_size req, orba_pages = pages\<rparr>, req)))"

definition orba_assign :: "original_req_byte_array \<Rightarrow> original_req_byte_array
    \<Rightarrow> original_req_byte_array \<times> original_req_byte_array" where
  "orba_assign this arr =
     (let (pages, pages') = ea_assign None (orba_pages this) (orba_pages arr)
      in (this\<lparr>orba_off := orba_off arr, orba_size := orba_size arr, orba_pages := pages, orba_valid := True\<rparr>,
          arr\<lparr>orba_pages := pages', orba_valid := False\<rparr>))"

definition orba_clone :: "nat option \<Rightarrow> original_req_byte_array \<Rightarrow> original_req_byte_array \<times> original_req_byte_array" where
  "orba_clone junk this = orba_assign (new_original_req_byte_array junk) this"

fun orba_release :: "nat \<Rightarrow> nat \<Rightarrow> nat option embedded_array \<Rightarrow> nat list res" where
  "orba_release 0 i pages = Inr []"
| "orba_release (Suc k) i pages =
     bind_res (ea_get pages i) (\<lambda>pg.
     bind_res (orba_release k (i + 1) pages) (\<lambda>ps.
       Inr (case pg of None \<Rightarrow> ps | Some p \<Rightarrow> p # ps)))"

definition orba_destroy :: "original_req_byte_array \<Rightarrow> nat list res" where
  "orba_destroy arr = (if orba_valid arr then orba_release (orba_num_covered_pages arr) 0 (orba_pages arr) else Inr [])"

definition orba_view :: "(nat \<Rightarrow> byte list) \<Rightarrow> original_req_byte_array \<Rightarrow> page_byte_array" where
  "orba_view frame arr =
     \<lparr>pba_size = orba_size arr, pba_offset = orba_off arr, pba_first = orba_off arr mod page_bytes,
      pba_page = (\<lambda>idx. bind_res (ea_get (orba_pages arr) idx)
        (\<lambda>pg. case pg of None \<Rightarrow> Inl Undefined_behaviour | Some p \<Rightarrow> Inr (frame p)))\<rparr>"

text \<open>\<^verbatim>\<open>compute\<close> builds the array on the stack, hands it to the user task and destroys it: the view the
  task runs on, the pages released afterwards and the request. The task is the parameter \<open>run\<close>; it
  may clone the array, which moves the pages out of it.\<close>

definition oir_compute :: "nat option \<Rightarrow> (original_req_byte_array \<Rightarrow> original_req_byte_array \<times> 's)
    \<Rightarrow> original_io_request \<Rightarrow> ('s \<times> nat list \<times> original_io_request) res" where
  "oir_compute junk run req =
     bind_res (orba_init junk req) (\<lambda>(arr, req).
       let (arr, s) = run arr
       in bind_res (orba_destroy arr) (\<lambda>released. Inr (s, released, req)))"

section \<open>Data outside the cache\<close>

text \<open>\<^verbatim>\<open>direct_byte_array\<close>: the buffer starts at the disk block that holds the first byte.\<close>

definition MIN_BLOCK_SIZE :: nat where
  "MIN_BLOCK_SIZE = 512"

record direct_byte_array =
  dba_req_off :: nat
  dba_size :: nat
  dba_buf :: "byte list option"

definition new_direct_byte_array :: direct_byte_array where
  "new_direct_byte_array = \<lparr>dba_req_off = 0, dba_size = 0, dba_buf = None\<rparr>"

definition dba_get_buf_offset :: "direct_byte_array \<Rightarrow> nat" where
  "dba_get_buf_offset arr = dba_req_off arr div MIN_BLOCK_SIZE * MIN_BLOCK_SIZE"

definition dba_assign :: "direct_byte_array \<Rightarrow> direct_byte_array \<Rightarrow> direct_byte_array \<times> direct_byte_array" where
  "dba_assign this arr = (this\<lparr>dba_req_off := dba_req_off arr, dba_size := dba_size arr, dba_buf := dba_buf arr\<rparr>,
     arr\<lparr>dba_buf := None\<rparr>)"

definition dba_clone :: "direct_byte_array \<Rightarrow> direct_byte_array \<times> direct_byte_array" where
  "dba_clone this = dba_assign new_direct_byte_array this"

definition dba_view :: "direct_byte_array \<Rightarrow> page_byte_array" where
  "dba_view arr =
     \<lparr>pba_size = dba_size arr, pba_offset = dba_req_off arr,
      pba_first = dba_req_off arr - dba_get_buf_offset arr,
      pba_page = (\<lambda>idx. case dba_buf arr of None \<Rightarrow> Inl Undefined_behaviour
        | Some buf \<Rightarrow> if idx * page_bytes \<le> length buf then Inr (drop (idx * page_bytes) buf)
                      else Inl Undefined_behaviour)\<rparr>"

text \<open>\<^verbatim>\<open>in_mem_byte_array\<close>: \<^verbatim>\<open>pages\<close> points to the page that holds the first byte.\<close>

record in_mem_byte_array =
  imba_off :: nat
  imba_size :: nat
  imba_pages :: "byte list option"

definition new_in_mem_byte_array :: in_mem_byte_array where
  "new_in_mem_byte_array = \<lparr>imba_off = 0, imba_size = 0, imba_pages = None\<rparr>"

definition imba_init :: "nat \<Rightarrow> nat \<Rightarrow> byte list \<Rightarrow> in_mem_byte_array" where
  "imba_init req_off req_size pages = \<lparr>imba_off = req_off, imba_size = req_size, imba_pages = Some pages\<rparr>"

definition imba_assign :: "in_mem_byte_array \<Rightarrow> in_mem_byte_array \<Rightarrow> in_mem_byte_array" where
  "imba_assign this arr = this\<lparr>imba_off := imba_off arr, imba_size := imba_size arr, imba_pages := imba_pages arr\<rparr>"

definition imba_clone :: "in_mem_byte_array \<Rightarrow> in_mem_byte_array" where
  "imba_clone this = imba_assign new_in_mem_byte_array this"

definition imba_view :: "in_mem_byte_array \<Rightarrow> page_byte_array" where
  "imba_view arr =
     \<lparr>pba_size = imba_size arr, pba_offset = imba_off arr, pba_first = imba_off arr mod page_bytes,
      pba_page = (\<lambda>idx. case imba_pages arr of None \<Rightarrow> Inl Undefined_behaviour
        | Some pages \<Rightarrow> if idx * page_bytes \<le> length pages then Inr (drop (idx * page_bytes) pages)
                       else Inl Undefined_behaviour)\<rparr>"

end
