(* ===== verification/Byte_Array_Laws.thy ===== *)
theory Byte_Array_Laws
  imports Byte_Array
begin

text \<open>
  What a byte array promises its readers, as the locale \<open>byte_array_view\<close>: the pages hold the
  bytes \<open>contents a\<close> from the offset in the first page on. Copying, the random-access iterator, the
  sequential iterator and the \<^verbatim>\<open>PAGE_FOREACH\<close> loop are then shown to deliver exactly these bytes, and
  a region of an array keeps the contract.
\<close>

section \<open>Auxiliary facts\<close>

lemma read_mem_Inr: "off + n \<le> length p \<Longrightarrow> read_mem p off n = Inr (take n (drop off p))"
  by (simp add: read_mem_def)

lemma take_drop_append:
  "take m (drop d xs) @ take n (drop (d + m) xs) = take (m + n) (drop d xs)"
  by (metis add.commute drop_drop take_add)

lemma page_bytes_pos [simp]: "0 < page_bytes" "page_bytes \<noteq> 0"
  by (simp_all add: page_bytes_def)

lemma page_split: "q = q div page_bytes * page_bytes + q mod page_bytes" "q mod page_bytes < page_bytes"
  by simp_all

lemma div_mod_same_page:
  assumes "q mod page_bytes + k < page_bytes"
  shows "(q + k) div page_bytes = q div page_bytes" "(q + k) mod page_bytes = q mod page_bytes + k"
proof -
  have q: "q + k = (q mod page_bytes + k) + q div page_bytes * page_bytes" by simp
  have "((q mod page_bytes + k) + q div page_bytes * page_bytes) div page_bytes = q div page_bytes"
    using assms by (simp only: div_mult_self1 page_bytes_pos not_False_eq_True) simp
  then show "(q + k) div page_bytes = q div page_bytes" by (simp only: q)
  have "((q mod page_bytes + k) + q div page_bytes * page_bytes) mod page_bytes = q mod page_bytes + k"
    using assms by (simp only: mod_mult_self1) simp
  then show "(q + k) mod page_bytes = q mod page_bytes + k" by (simp only: q)
qed

lemma unsigned_diff_eq: "b \<le> a \<Longrightarrow> a < 2 ^ 64 \<Longrightarrow> unsigned_diff a b = a - b"
  by (simp add: unsigned_diff_def)

text \<open>The elements of \<open>sz\<close> bytes that lie in \<open>bs\<close> from the offset \<open>off\<close> on.\<close>

definition elems :: "nat \<Rightarrow> byte list \<Rightarrow> nat \<Rightarrow> nat \<Rightarrow> byte list list" where
  "elems sz bs off n = map (\<lambda>k. take sz (drop (off + k * sz) bs)) [0..<n]"

lemma elems_simps [simp]:
  "elems sz bs off 0 = []"
  "elems sz bs off (Suc n) = take sz (drop off bs) # elems sz bs (off + sz) n"
  by (simp_all add: elems_def upt_conv_Cons map_Suc_upt[symmetric] comp_def algebra_simps del: upt_Suc)

lemma length_elems [simp]: "length (elems sz bs off n) = n"
  by (simp add: elems_def)

lemma elems_append: "elems sz bs off k @ elems sz bs (off + k * sz) n = elems sz bs off (k + n)"
  by (induction k arbitrary: off) (simp_all add: add.assoc[symmetric])

text \<open>No element of the range from \<open>q\<close> to \<open>e\<close> crosses the end of a page.\<close>

lemma element_in_page:
  assumes "sz dvd page_bytes" "sz dvd q \<or> e < page_bytes" "q + sz \<le> e"
  shows "q mod page_bytes + sz \<le> page_bytes"
proof (cases "sz dvd q")
  case True
  then have "sz dvd q mod page_bytes" using assms(1) by (simp add: dvd_mod)
  then obtain i j where ij: "q mod page_bytes = sz * i" "page_bytes = sz * j"
    using assms(1) by (auto elim!: dvdE)
  then have "sz * i < sz * j" using page_split(2)[of q] by simp
  then have "sz * Suc i \<le> sz * j" by (intro mult_le_mono) simp_all
  then show ?thesis using ij by simp
next
  case False
  then show ?thesis using assms by simp
qed

lemma elements_fit_dvd:
  assumes "sz dvd page_bytes"
  shows "elements_fit sz q e \<longleftrightarrow> sz dvd q \<or> e < page_bytes"
proof -
  have "(page_bytes - q mod page_bytes) mod sz = 0 \<longleftrightarrow> sz dvd q mod page_bytes"
    using assms page_split(2)[of q]
    by (metis dvd_diffD1 dvd_diff_nat dvd_imp_mod_0 less_imp_le mod_0_imp_dvd)
  also have "\<dots> \<longleftrightarrow> sz dvd q" using assms by (simp add: dvd_mod_iff)
  finally show ?thesis by (simp add: elements_fit_def)
qed

lemma page_start:
  assumes "q < e"
  shows "ROUND_PAGE q + q mod page_bytes = q" "q mod page_bytes \<le> min page_bytes (e - ROUND_PAGE q)"
    "ROUND_PAGE q div page_bytes = q div page_bytes"
proof -
  show *: "ROUND_PAGE q + q mod page_bytes = q" by (simp add: ROUND_PAGE_def)
  have "q mod page_bytes \<le> e - ROUND_PAGE q" using * assms by linarith
  then show "q mod page_bytes \<le> min page_bytes (e - ROUND_PAGE q)"
    using page_split(2)[of q] by simp
qed (simp add: ROUND_PAGE_def)

section \<open>The contract\<close>

locale byte_array_view =
  fixes view :: "'a \<Rightarrow> page_byte_array" and wf :: "'a \<Rightarrow> bool" and contents :: "'a \<Rightarrow> byte list"
  assumes size_law: "wf a \<Longrightarrow> pba_size (view a) = length (contents a)"
    and page_law: "wf a \<Longrightarrow> j < length (contents a) \<Longrightarrow>
      \<exists>p. pba_page (view a) ((pba_first (view a) + j) div page_bytes) = Inr p
        \<and> (pba_first (view a) + j) mod page_bytes < length p
        \<and> p ! ((pba_first (view a) + j) mod page_bytes) = contents a ! j"
    and bound_law: "wf a \<Longrightarrow> pba_first (view a) + length (contents a) < 2 ^ 63"
begin

lemma page_window:
  assumes "wf a" "0 < n" "off + n \<le> length (contents a)"
    and fits: "(pba_first (view a) + off) mod page_bytes + n \<le> page_bytes"
  obtains p where "pba_page (view a) ((pba_first (view a) + off) div page_bytes) = Inr p"
    "read_mem p ((pba_first (view a) + off) mod page_bytes) n = Inr (take n (drop off (contents a)))"
proof -
  let ?q = "pba_first (view a) + off"
  have at: "\<exists>p. pba_page (view a) (?q div page_bytes) = Inr p \<and> ?q mod page_bytes + k < length p
      \<and> p ! (?q mod page_bytes + k) = contents a ! (off + k)" if "k < n" for k
  proof -
    have "?q mod page_bytes + k < page_bytes" using fits that by simp
    from div_mod_same_page[OF this] page_law[OF assms(1), of "off + k"] that assms(3)
    show ?thesis by (simp add: add.assoc)
  qed
  from at[of 0] assms(2) obtain p where p: "pba_page (view a) (?q div page_bytes) = Inr p" by auto
  have len: "?q mod page_bytes + n \<le> length p" using at[of "n - 1"] p assms(2) by auto
  have "take n (drop (?q mod page_bytes) p) = take n (drop off (contents a))"
    by (rule nth_equalityI) (use len assms(3) at p in auto)
  then show thesis using that p len by (simp add: read_mem_Inr)
qed

lemma copy_pages_reads:
  assumes "wf a" "pba_first (view a) + d = pg * page_bytes" "pg \<le> stop"
    "stop * page_bytes \<le> pba_first (view a) + length (contents a)"
  shows "copy_pages (view a) pg stop buf
    = Inr (buf @ take ((stop - pg) * page_bytes) (drop d (contents a)), stop)"
  using assms(2-4)
proof (induction "stop - pg" arbitrary: pg d buf)
  case 0
  then show ?case by (simp add: copy_pages.simps)
next
  case (Suc m)
  then have lt: "pg < stop" by simp
  have room: "d + page_bytes \<le> length (contents a)"
  proof -
    have "(pg + 1) * page_bytes \<le> stop * page_bytes" using lt by (intro mult_le_mono1) simp
    then show ?thesis using Suc.prems by simp
  qed
  obtain p where p: "pba_page (view a) pg = Inr p"
    "read_mem p 0 page_bytes = Inr (take page_bytes (drop d (contents a)))"
    using page_window[OF assms(1) _ room] Suc.prems(1) by (auto simp: page_bytes_def)
  have "copy_pages (view a) pg stop buf
      = copy_pages (view a) (pg + 1) stop (buf @ take page_bytes (drop d (contents a)))"
    using lt p by (subst copy_pages.simps) simp
  also have "\<dots> = Inr ((buf @ take page_bytes (drop d (contents a)))
      @ take ((stop - (pg + 1)) * page_bytes) (drop (d + page_bytes) (contents a)), stop)"
    by (rule Suc.hyps(1)) (use Suc lt in \<open>auto simp: algebra_simps\<close>)
  also have "\<dots> = Inr (buf @ take ((stop - pg) * page_bytes) (drop d (contents a)), stop)"
  proof -
    have "page_bytes + (stop - (pg + 1)) * page_bytes = (stop - pg) * page_bytes"
      using lt by (metis Suc_diff_Suc Suc_eq_plus1 mult_Suc)
    then show ?thesis by (simp add: take_drop_append)
  qed
  finally show ?case .
qed

theorem memcpy_reads:
  assumes "wf a" "off + n \<le> length (contents a)"
  shows "pba_memcpy (view a) off n = Inr (take n (drop off (contents a)))"
proof (cases "n = 0")
  case True
  then show ?thesis by (simp add: pba_memcpy_def)
next
  case False
  let ?f = "pba_first (view a)" let ?q = "?f + off"
  show ?thesis
  proof (cases "?q + n - ?q div page_bytes * page_bytes > page_bytes")
    case False2: False
    then have "?q mod page_bytes + n \<le> page_bytes"
      using page_split[of ?q] by linarith
    then obtain p where "pba_page (view a) (?q div page_bytes) = Inr p"
      "read_mem p (?q mod page_bytes) n = Inr (take n (drop off (contents a)))"
      using page_window[OF assms(1) _ assms(2)] False by blast
    then show ?thesis using False False2 assms
      by (simp add: pba_memcpy_def Let_def size_law)
  next
    case True
    let ?m = "page_bytes - ?q mod page_bytes"
    have mn: "0 < ?m" "?m \<le> n" "?q mod page_bytes + ?m \<le> page_bytes"
      using True page_split[of ?q] by linarith+
    obtain p where p: "pba_page (view a) (?q div page_bytes) = Inr p"
      "read_mem p (?q mod page_bytes) ?m = Inr (take ?m (drop off (contents a)))"
      using page_window[OF assms(1) mn(1) le_trans[OF add_left_mono[OF mn(2)] assms(2)] mn(3)] by blast
    let ?stop = "(?q + n) div page_bytes" and ?pg = "?q div page_bytes + 1"
    have pos1: "?f + (off + ?m) = ?pg * page_bytes"
      using page_split[of ?q] by (simp only: add_mult_distrib mult_1)
    have pos2: "?pg \<le> ?stop"
      using pos1 mn(2) by (simp add: less_eq_div_iff_mult_less_eq)
    have pos3: "?stop * page_bytes \<le> ?f + length (contents a)"
      using page_split[of "?q + n"] assms(2) by linarith
    note pos = pos1 pos2 pos3
    define mk where "mk = ?m + (?stop - ?pg) * page_bytes"
    have copy: "copy_pages (view a) ?pg ?stop (take ?m (drop off (contents a)))
        = Inr (take mk (drop off (contents a)), ?stop)"
      unfolding copy_pages_reads[OF assms(1) pos] take_drop_append mk_def ..
    have at: "?f + (off + mk) = ?stop * page_bytes"
    proof -
      have "(?stop - ?pg) * page_bytes + ?pg * page_bytes = ?stop * page_bytes"
        using pos2 by (metis add_mult_distrib le_add_diff_inverse2)
      then show ?thesis unfolding mk_def using pos1 by linarith
    qed
    have mk: "mk \<le> n" "n - mk \<le> page_bytes" using at page_split[of "?q + n"] by linarith+
    have len: "length (take mk (drop off (contents a))) = mk" using mk(1) assms(2) by simp
    have bnd: "?q + n \<le> length (contents a) + ?f" using assms(2) by linarith
    have start: "pba_memcpy (view a) off n = (if n - mk > 0
        then bind_res (pba_page (view a) ?stop) (\<lambda>p. bind_res (read_mem p 0 (n - mk))
          (\<lambda>part2. Inr (take mk (drop off (contents a)) @ part2)))
        else Inr (take mk (drop off (contents a))))"
      unfolding pba_memcpy_def Let_def using True False assms p copy bnd
      by (simp only: size_law bind_res_simps prod.case len if_False if_True assert_then_True)
    show ?thesis
    proof (cases "n - mk > 0")
      case False3: False
      then have "mk = n" using mk(1) by simp
      then show ?thesis using False3 start by simp
    next
      case more: True
      have le: "off + mk + (n - mk) \<le> length (contents a)" using mk(1) assms(2) by simp
      have fit: "(?f + (off + mk)) mod page_bytes + (n - mk) \<le> page_bytes"
        using mk(2) by (simp only: at mod_mult_self2_is_0)
      obtain p2 where "pba_page (view a) ?stop = Inr p2"
        "read_mem p2 0 (n - mk) = Inr (take (n - mk) (drop (off + mk) (contents a)))"
        using page_window[OF assms(1) more le fit,
          unfolded at mod_mult_self2_is_0 nonzero_mult_div_cancel_right[OF page_bytes_pos(2)]] by blast
      then show ?thesis using more start mk(1) by (simp add: take_drop_append)
    qed
  qed
qed

lemma memcpy_outside:
  assumes "wf a" "0 < n" "length (contents a) < off + n"
  shows "pba_memcpy (view a) off n = Inl Assert_failed"
  using assms by (simp add: pba_memcpy_def Let_def size_law)

text \<open>The random-access iterator.\<close>

lemma ci_deref_reads:
  assumes "wf a" "0 < sz" "ci_arr it = view a" "ci_off it = pba_first (view a) + off" "off + sz \<le> length (contents a)"
    "(pba_first (view a) + off) mod page_bytes + sz \<le> page_bytes"
  shows "ci_deref sz it = Inr (take sz (drop off (contents a)))"
proof -
  obtain p where "pba_page (view a) ((pba_first (view a) + off) div page_bytes) = Inr p"
    "read_mem p ((pba_first (view a) + off) mod page_bytes) sz = Inr (take sz (drop off (contents a)))"
    using page_window[OF assms(1,2,5,6)] by blast
  then show ?thesis using assms(3,4) by (simp add: ci_deref_def)
qed

lemma ci_loop_reads:
  assumes "wf a" "0 < sz" "sz dvd page_bytes"
    and "ci_arr it = view a" "ci_off it = pba_first (view a) + off"
    and "ci_off stop = pba_first (view a) + (off + n * sz)" "off + n * sz \<le> length (contents a)"
    and "sz dvd pba_first (view a) + off \<or> pba_first (view a) + (off + n * sz) < page_bytes"
    and "n < fuel"
  shows "ci_loop fuel sz it stop vs = Inr (vs @ elems sz (contents a) off n)"
  using assms(4-9)
proof (induction n arbitrary: it off vs fuel)
  case 0
  then show ?case by (cases fuel) (simp_all add: ci_eq_def)
next
  case (Suc n)
  then obtain f where f: "fuel = Suc f" "n < f" by (cases fuel) auto
  have "(pba_first (view a) + off) mod page_bytes + sz \<le> page_bytes"
    by (rule element_in_page[OF assms(3) Suc.prems(5)]) simp
  then have d: "ci_deref sz it = Inr (take sz (drop off (contents a)))"
    using ci_deref_reads[OF assms(1,2) Suc.prems(1,2)] Suc.prems(4) by simp
  have "sz dvd pba_first (view a) + (off + sz) \<or> pba_first (view a) + (off + sz + n * sz) < page_bytes"
    using Suc.prems(5) by (simp add: add.assoc[symmetric])
  then have "ci_loop f sz (ci_incr sz it) stop (vs @ [take sz (drop off (contents a))])
      = Inr ((vs @ [take sz (drop off (contents a))]) @ elems sz (contents a) (off + sz) n)"
    by (intro Suc.IH) (use Suc.prems f in \<open>simp_all add: ci_incr_def algebra_simps\<close>)
  then show ?case using f d Suc.prems assms(2) by (simp add: ci_eq_def)
qed

text \<open>The sequential iterator: \<open>n\<close> elements remain, the next one at the offset \<open>off\<close> of the contents.\<close>

definition seq_at :: "'a \<Rightarrow> nat \<Rightarrow> seq_const_iterator \<Rightarrow> nat \<Rightarrow> nat \<Rightarrow> bool" where
  "seq_at a sz it off n \<longleftrightarrow>
     sci_arr it = view a \<and> sci_end it = pba_first (view a) + (off + n * sz)
   \<and> off + n * sz \<le> length (contents a)
   \<and> (sz dvd pba_first (view a) + off \<or> sci_end it < page_bytes)
   \<and> (let c = sci_curr_page_it it; base = ROUND_PAGE (sci_off it)
      in (n = 0 \<and> spi_data c = spi_data_end c \<and> sci_off it = sci_end it)
       \<or> (base + spi_data c = pba_first (view a) + off \<and> spi_data c \<le> spi_data_end c
          \<and> spi_data_end c = min page_bytes (sci_end it - base)
          \<and> pba_page (view a) (base div page_bytes) = Inr (spi_page c)))"

lemma seq_at_D:
  assumes "seq_at a sz it off n"
  shows "sci_arr it = view a" "sci_end it = pba_first (view a) + (off + n * sz)"
    "off + n * sz \<le> length (contents a)"
    "sz dvd pba_first (view a) + off \<or> pba_first (view a) + (off + n * sz) < page_bytes"
  using assms by (auto simp: seq_at_def)

lemma seq_at_page:
  assumes "seq_at a sz it off n" "spi_has_next (sci_curr_page_it it)"
  shows "ROUND_PAGE (sci_off it) + spi_data (sci_curr_page_it it) = pba_first (view a) + off"
    "spi_data_end (sci_curr_page_it it) = min page_bytes (sci_end it - ROUND_PAGE (sci_off it))"
    "pba_page (view a) (ROUND_PAGE (sci_off it) div page_bytes) = Inr (spi_page (sci_curr_page_it it))"
  using assms by (auto simp: seq_at_def Let_def spi_has_next_def)

lemma seq_at_more:
  assumes "seq_at a sz it off n" "spi_has_next (sci_curr_page_it it)"
  shows "0 < n"
proof (rule ccontr)
  assume "\<not> 0 < n"
  then have "sci_end it = pba_first (view a) + off" using seq_at_D(2)[OF assms(1)] by simp
  then show False using seq_at_page[OF assms] assms(2) by (auto simp: spi_has_next_def)
qed

lemma next_page_off_eq: "next_page_off (Suc off) = ROUND_PAGE off + page_bytes"
  by (simp add: next_page_off_def ROUND_PAGE_def div_add_self2 add_mult_distrib)

lemma has_next_spec:
  assumes "wf a" "0 < sz" "seq_at a sz it off n"
  obtains it' where "sci_has_next it = Inr (0 < n, it')"
    "0 < n \<Longrightarrow> seq_at a sz it' off n" "0 < n \<Longrightarrow> spi_has_next (sci_curr_page_it it')"
    "sci_start it' = sci_start it"
proof (cases "spi_has_next (sci_curr_page_it it)")
  case True
  then show thesis using that[of it] assms seq_at_more[OF assms(3) True] by (simp add: sci_has_next_def)
next
  case False
  let ?base = "ROUND_PAGE (sci_off it)" and ?q = "pba_first (view a) + off"
  note D = seq_at_D[OF assms(3)]
  have below: "sci_off it < ?base + page_bytes"
    unfolding ROUND_PAGE_def using page_split[of "sci_off it"] by linarith
  have q: "(n = 0 \<and> sci_end it < ?base + page_bytes) \<or> ?q = ?base + min page_bytes (sci_end it - ?base)"
  proof (cases "n = 0 \<and> sci_off it = sci_end it")
    case False2: False
    then have "?base + spi_data (sci_curr_page_it it) = ?q"
      "spi_data (sci_curr_page_it it) \<le> spi_data_end (sci_curr_page_it it)"
      "spi_data_end (sci_curr_page_it it) = min page_bytes (sci_end it - ?base)"
      using assms(3) unfolding seq_at_def Let_def by blast+
    then show ?thesis using False unfolding spi_has_next_def by linarith
  qed (use below in simp)
  show thesis
  proof (cases "?base + page_bytes < sci_end it")
    case more: True
    then have q': "?q = ?base + page_bytes" using q by auto
    have n: "0 < n" using more D(2) q' by (cases n) auto
    have "off < length (contents a)"
    proof -
      have "0 < n * sz" using n assms(2) by simp
      then show ?thesis using D(3) by linarith
    qed
    then obtain p where p: "pba_page (view a) (?q div page_bytes) = Inr p"
      using page_law[OF assms(1)] by blast
    let ?it = "it\<lparr>sci_off := ?q, sci_curr_page_it := new_page_iterator p 0 (min page_bytes (sci_end it - ?q))\<rparr>"
    have R: "ROUND_PAGE ?q = ?q" unfolding q' by (simp add: ROUND_PAGE_def)
    have "seq_at a sz ?it off n" unfolding seq_at_def
      using assms(3) D R p by (simp add: Let_def new_page_iterator_def)
    moreover have "spi_has_next (sci_curr_page_it ?it)"
      using more q' by (simp add: spi_has_next_def new_page_iterator_def)
    moreover have "sci_has_next it = Inr (True, ?it)"
      using False more p D(1) by (simp add: sci_has_next_def next_page_off_eq q' Let_def)
    ultimately show thesis using that[of ?it] n by simp
  next
    case False2: False
    have "n = 0"
    proof (rule ccontr)
      assume "n \<noteq> 0"
      then have "?q = ?base + min page_bytes (sci_end it - ?base)" "0 < n * sz" using q assms(2) by auto
      then show False using False2 D(2) by linarith
    qed
    then show thesis using that[of "it\<lparr>sci_off := ?base + page_bytes\<rparr>"] False False2
      by (simp add: sci_has_next_def next_page_off_eq Let_def)
  qed
qed

lemma room_in_page:
  assumes "0 < sz" "sz dvd page_bytes" "seq_at a sz it off n" "spi_has_next (sci_curr_page_it it)"
  shows "spi_data (sci_curr_page_it it) = (pba_first (view a) + off) mod page_bytes"
    "ROUND_PAGE (sci_off it) div page_bytes = (pba_first (view a) + off) div page_bytes"
    "(pba_first (view a) + off) mod page_bytes + sz \<le> page_bytes"
    "spi_data (sci_curr_page_it it) + sz \<le> spi_data_end (sci_curr_page_it it)"
proof -
  let ?c = "sci_curr_page_it it" and ?q = "pba_first (view a) + off" and ?d = "sci_off it div page_bytes"
  note P = seq_at_page[OF assms(3,4)] and D = seq_at_D[OF assms(3)]
  obtain m where n: "n = Suc m" using seq_at_more[OF assms(3,4)] by (cases n) auto
  have lt: "spi_data ?c < page_bytes" using P assms(4) by (simp add: spi_has_next_def)
  have q: "?q = spi_data ?c + ?d * page_bytes" using P(1) by (simp add: ROUND_PAGE_def)
  show 1: "spi_data ?c = ?q mod page_bytes" using lt by (simp only: q mod_mult_self1) simp
  show "ROUND_PAGE (sci_off it) div page_bytes = ?q div page_bytes"
    using lt by (simp only: q div_mult_self1 page_bytes_pos ROUND_PAGE_def) simp
  show 2: "?q mod page_bytes + sz \<le> page_bytes"
    by (rule element_in_page[OF assms(2) D(4)]) (simp add: n)
  have "spi_data ?c + sz \<le> sci_end it - ROUND_PAGE (sci_off it)"
    using D(2) P(1) by (simp add: n)
  then show "spi_data ?c + sz \<le> spi_data_end ?c" using P(2) 1 2 by simp
qed

lemma next_spec:
  assumes "wf a" "0 < sz" "sz dvd page_bytes" "seq_at a sz it off (Suc n)" "spi_has_next (sci_curr_page_it it)"
  obtains it' where "sci_next sz it = Inr (take sz (drop off (contents a)), it')" "seq_at a sz it' (off + sz) n"
    "sci_start it' = sci_start it"
proof -
  let ?c = "sci_curr_page_it it"
  note R = room_in_page[OF assms(2-5)] and P = seq_at_page[OF assms(4,5)] and D = seq_at_D[OF assms(4)]
  have "off + sz \<le> length (contents a)" using D(3) by simp
  then have read: "read_mem (spi_page ?c) (spi_data ?c) sz = Inr (take sz (drop off (contents a)))"
    using page_window[OF assms(1,2) _ R(3)] P(3) R(1,2) by (metis Inr_inject)
  let ?it = "it\<lparr>sci_curr_page_it := ?c\<lparr>spi_data := spi_data ?c + sz\<rparr>\<rparr>"
  have "sz dvd pba_first (view a) + (off + sz) \<or> sci_end it < page_bytes"
    using D(2,4) by (simp add: add.assoc[symmetric])
  then have "seq_at a sz ?it (off + sz) n"
    unfolding seq_at_def using D P R(4) by (simp add: Let_def add.assoc)
  then show thesis using that[of ?it] read by (simp add: sci_next_def spi_next_def)
qed

lemma new_seq_spec:
  assumes "wf a" "0 < sz" "sz dvd page_bytes" "byte_off + n * sz \<le> length (contents a)"
    "sz dvd pba_first (view a) + byte_off \<or> pba_first (view a) + (byte_off + n * sz) < page_bytes"
  obtains it where "new_seq_const_iterator (view a) sz byte_off (byte_off + n * sz) = Inr it"
    "seq_at a sz it byte_off n" "sci_start it = pba_first (view a) + byte_off"
    "sci_off it = pba_first (view a) + byte_off" "sci_end it = pba_first (view a) + (byte_off + n * sz)"
proof -
  let ?q = "pba_first (view a) + byte_off" and ?e = "pba_first (view a) + (byte_off + n * sz)"
  have U: "unsigned_diff (byte_off + n * sz) byte_off mod sz = 0"
    using assms(4) bound_law[OF assms(1)] by (subst unsigned_diff_eq) auto
  have fit: "elements_fit sz ?q ?e" using assms(3,5) by (simp add: elements_fit_dvd)
  show thesis
  proof (cases "n = 0")
    case True
    then show thesis
      using that assms U fit
      by (simp add: new_seq_const_iterator_def size_law seq_at_def null_page_iterator_def Let_def)
  next
    case False
    then have lt: "byte_off < byte_off + n * sz" using assms(2) by simp
    then obtain p where p: "pba_page (view a) (?q div page_bytes) = Inr p"
      using page_law[OF assms(1) less_le_trans[OF lt assms(4)]] by blast
    have clip: "(if ?e - ROUND_PAGE ?q \<ge> page_bytes then page_bytes else ?e - ROUND_PAGE ?q)
        = min page_bytes (?e - ROUND_PAGE ?q)" by simp
    have "?q < ?e" using lt by simp
    note pos = page_start[OF this]
    let ?it = "\<lparr>sci_arr = view a,
        sci_curr_page_it = new_page_iterator p (?q mod page_bytes) (min page_bytes (?e - ROUND_PAGE ?q)),
        sci_start = ?q, sci_off = ?q, sci_end = ?e\<rparr>"
    have "new_seq_const_iterator (view a) sz byte_off (byte_off + n * sz) = Inr ?it"
      using assms(4) lt U fit p
      by (simp add: new_seq_const_iterator_def size_law[OF assms(1)] page_it_at_def Let_def clip)
    moreover have "seq_at a sz ?it byte_off n"
      using assms(4,5) pos p by (simp add: seq_at_def Let_def new_page_iterator_def)
    ultimately show thesis using that[of ?it] by simp
  qed
qed

theorem seq_loop_reads:
  assumes "wf a" "0 < sz" "sz dvd page_bytes" "seq_at a sz it off n" "n < fuel"
  shows "seq_loop fuel sz it vs = Inr (vs @ elems sz (contents a) off n)"
  using assms(4,5)
proof (induction n arbitrary: it off vs fuel)
  case 0
  then obtain f where "fuel = Suc f" by (cases fuel) auto
  moreover obtain it' where "sci_has_next it = Inr (False, it')"
    using has_next_spec[OF assms(1,2) 0(1)] by simp blast
  ultimately show ?case by simp
next
  case (Suc n)
  then obtain f where f: "fuel = Suc f" "n < f" by (cases fuel) auto
  obtain it' where h: "sci_has_next it = Inr (True, it')" "seq_at a sz it' off (Suc n)"
    "spi_has_next (sci_curr_page_it it')"
    using has_next_spec[OF assms(1,2) Suc.prems(1)] by (metis zero_less_Suc)
  obtain it'' where "sci_next sz it' = Inr (take sz (drop off (contents a)), it'')" "seq_at a sz it'' (off + sz) n"
    using next_spec[OF assms(1-3) h(2,3)] by blast
  then show ?case using h f Suc.IH[of it'' "off + sz" f] by simp
qed

lemma num_entries_pos:
  assumes "0 < sz" "sz dvd page_bytes" "seq_at a sz it off n"
  shows "0 \<le> sci_num_entries_in_page sz it"
    "0 < sci_num_entries_in_page sz it \<longleftrightarrow> spi_has_next (sci_curr_page_it it)"
proof -
  let ?c = "sci_curr_page_it it"
  have le: "spi_data ?c \<le> spi_data_end ?c" "spi_data_end ?c - spi_data ?c \<le> page_bytes"
    if "spi_data ?c \<noteq> spi_data_end ?c"
    using assms(3) that by (auto simp: seq_at_def Let_def)
  have le': "spi_data ?c \<le> spi_data_end ?c" "spi_data_end ?c - spi_data ?c \<le> 4096"
    using le by (cases "spi_data ?c = spi_data_end ?c"; simp add: page_bytes_def)+
  have "(int (spi_data_end ?c) - int (spi_data ?c)) sdiv int sz = int ((spi_data_end ?c - spi_data ?c) div sz)"
    using le'(1) assms(1) by (simp add: sdiv_div zdiv_int of_nat_diff)
  moreover have "(spi_data_end ?c - spi_data ?c) div sz \<le> 4096"
    using le'(2) by (meson div_le_dividend le_trans)
  ultimately have num: "sci_num_entries_in_page sz it = int ((spi_data_end ?c - spi_data ?c) div sz)"
    by (simp add: sci_num_entries_in_page_def spi_num_entries_def int32_id)
  then show "0 \<le> sci_num_entries_in_page sz it" by simp
  have "sz \<le> spi_data_end ?c - spi_data ?c" if "spi_has_next ?c"
    using room_in_page(4)[OF assms(1,2,3) that] by simp
  then show "0 < sci_num_entries_in_page sz it \<longleftrightarrow> spi_has_next ?c"
    using assms(1) by (auto simp: num spi_has_next_def div_greater_zero_iff)
qed

lemma foreach_inner_spec:
  assumes "wf a" "0 < sz" "sz dvd page_bytes" "seq_at a sz it off n" "n < fuel" "0 \<le> i"
  shows "\<exists>k it'. foreach_inner fuel sz i it vs = Inr (it', vs @ elems sz (contents a) off k)
    \<and> k \<le> n \<and> seq_at a sz it' (off + k * sz) (n - k) \<and> (i < sci_num_entries_in_page sz it \<longrightarrow> 0 < k)"
  using assms(4-6)
proof (induction fuel arbitrary: it off n vs i)
  case (Suc f)
  show ?case
  proof (cases "i < sci_num_entries_in_page sz it")
    case False
    then show ?thesis using Suc.prems by (intro exI[of _ 0] exI[of _ it]) simp
  next
    case True
    then have h: "spi_has_next (sci_curr_page_it it)"
      using num_entries_pos[OF assms(2,3) Suc.prems(1)] Suc.prems(3) by linarith
    then obtain m where m: "n = Suc m" using seq_at_more[OF Suc.prems(1)] by (cases n) auto
    obtain it1 where it1: "sci_next sz it = Inr (take sz (drop off (contents a)), it1)" "seq_at a sz it1 (off + sz) m"
      using next_spec[OF assms(1-3) Suc.prems(1)[unfolded m] h] by blast
    have "m < f" "0 \<le> i + 1" using Suc.prems m by simp_all
    from Suc.IH[OF it1(2) this, of "vs @ [take sz (drop off (contents a))]"] obtain k it' where
      "foreach_inner f sz (i + 1) it1 (vs @ [take sz (drop off (contents a))])
         = Inr (it', vs @ elems sz (contents a) off (Suc k))"
      "k \<le> m" "seq_at a sz it' (off + Suc k * sz) (m - k)"
      by (auto simp: add.assoc)
    then show ?thesis using True it1 m by (intro exI[of _ "Suc k"] exI[of _ it']) simp
  qed
qed simp

theorem page_foreach_reads:
  assumes "wf a" "0 < sz" "sz dvd page_bytes" "seq_at a sz it off n" "n < fuel"
  shows "page_foreach fuel sz it vs = Inr (vs @ elems sz (contents a) off n)"
  using assms(4,5)
proof (induction fuel arbitrary: it off n vs)
  case (Suc f)
  obtain it' where h: "sci_has_next it = Inr (0 < n, it')" "0 < n \<Longrightarrow> seq_at a sz it' off n"
    "0 < n \<Longrightarrow> spi_has_next (sci_curr_page_it it')"
    using has_next_spec[OF assms(1,2) Suc.prems(1)] by blast
  show ?case
  proof (cases "n = 0")
    case True
    then show ?thesis using h by simp
  next
    case False
    then have s: "seq_at a sz it' off n" "spi_has_next (sci_curr_page_it it')" using h by simp_all
    obtain k it2 where k: "foreach_inner (Suc f) sz 0 it' vs = Inr (it2, vs @ elems sz (contents a) off k)"
      "k \<le> n" "seq_at a sz it2 (off + k * sz) (n - k)" "0 < k"
      using foreach_inner_spec[OF assms(1-3) s(1) Suc.prems(2) order.refl, of vs]
        num_entries_pos(2)[OF assms(2,3) s(1)] s(2) by auto
    have "n - k < f" using k False Suc.prems(2) by simp
    from Suc.IH[OF k(3) this, of "vs @ elems sz (contents a) off k"]
    show ?thesis using h(1) k False by (simp add: elems_append)
  qed
qed simp

lemma move_to_spec:
  assumes "wf a" "0 < sz" "sz dvd page_bytes" "byte_off + n * sz \<le> length (contents a)"
    "sz dvd pba_first (view a) + byte_off \<or> pba_first (view a) + (byte_off + n * sz) < page_bytes"
    and it: "sci_arr it = view a" "sci_start it = pba_first (view a) + byte_off"
      "sci_end it = pba_first (view a) + (byte_off + n * sz)"
  shows "\<exists>it'. sci_move_to sz it idx = Inr (idx < n, it') \<and> (idx < n \<longrightarrow> seq_at a sz it' (byte_off + idx * sz) (n - idx))"
proof (cases "idx < n")
  case False
  then have "n * sz \<le> idx * sz" by simp
  then show ?thesis using False it by (simp add: sci_move_to_def Let_def)
next
  case True
  let ?o = "byte_off + idx * sz" let ?q = "pba_first (view a) + ?o" and ?e = "sci_end it"
  have split: "?o + (n - idx) * sz = byte_off + n * sz" using True
    by (metis add.assoc add_mult_distrib le_add_diff_inverse less_imp_le)
  have lt: "idx * sz < n * sz" using True assms(2) by simp
  then have q: "?q < ?e" using it by simp
  obtain p where p: "pba_page (view a) (?q div page_bytes) = Inr p"
    using page_law[OF assms(1), of ?o] lt assms(4) by auto
  note pos = page_start[OF q]
  let ?it = "it\<lparr>sci_off := ?q, sci_curr_page_it :=
      new_page_iterator p (?q mod page_bytes) (min page_bytes (?e - ROUND_PAGE ?q))\<rparr>"
  have d: "sz dvd ?q \<or> ?e < page_bytes"
    using assms(5) it(3) by (auto simp: add.assoc[symmetric])
  have "sci_move_to sz it idx = Inr (True, ?it)"
    using q p it by (simp add: sci_move_to_def page_it_at_def Let_def add.assoc min_def)
  moreover have "seq_at a sz ?it ?o (n - idx)"
    unfolding seq_at_def using split d it assms(4) pos p
    by (simp add: Let_def new_page_iterator_def)
  ultimately show ?thesis using True by auto
qed

text \<open>A region of an array is an array of the remaining bytes.\<close>

lemma sub_view:
  "byte_array_view (\<lambda>(a, off). case sub_page_byte_array (view a) off of Inr v \<Rightarrow> v | Inl _ \<Rightarrow> view a)
     (\<lambda>(a, off). wf a \<and> off \<le> length (contents a)) (\<lambda>(a, off). drop off (contents a))"
proof (unfold_locales, goal_cases)
  case (1 x)
  then show ?case by (auto simp: sub_page_byte_array_def size_law)
next
  case (2 x j)
  obtain a off where x: "x = (a, off)" by (cases x)
  have a: "wf a" "off \<le> length (contents a)" "off + j < length (contents a)" using 2 by (auto simp: x)
  let ?s = "off + pba_first (view a)"
  have eq: "pba_first (view a) + (off + j) = (?s mod page_bytes + j) + ?s div page_bytes * page_bytes"
    by simp
  have "(pba_first (view a) + (off + j)) div page_bytes = ?s div page_bytes + (?s mod page_bytes + j) div page_bytes"
    "(pba_first (view a) + (off + j)) mod page_bytes = (?s mod page_bytes + j) mod page_bytes"
    by (simp_all only: eq div_mult_self1 mod_mult_self1 page_bytes_pos not_False_eq_True)
  then show ?case using page_law[OF a(1,3)] a(2)
    by (simp add: x sub_page_byte_array_def size_law[OF a(1)])
next
  case (3 x)
  obtain a off where x: "x = (a, off)" by (cases x)
  have "(off + pba_first (view a)) mod page_bytes \<le> off + pba_first (view a)" by simp
  moreover have "wf a" "off \<le> length (contents a)" using 3 by (auto simp: x)
  moreover have "(off + pba_first (view a)) mod page_bytes + (length (contents a) - off)
      < 2 ^ 63" using calculation bound_law[of a] by linarith
  ultimately show ?case by (simp add: x sub_page_byte_array_def size_law)
qed

end

end
