(* ===== verification/Page_Arrays_Laws.thy ===== *)
theory Page_Arrays_Laws
  imports Page_Arrays Byte_Array_Laws
begin

text \<open>
  The four kinds of byte arrays keep the contract of \<open>byte_array_view\<close>, a request is complete
  exactly when every page it covers has been, in any order, and the array built from a request holds
  the bytes of the file.
\<close>

section \<open>Contents\<close>

definition spba_wf :: "(nat \<Rightarrow> byte list) \<times> simple_page_byte_array \<Rightarrow> bool" where
  "spba_wf = (\<lambda>(frame, arr). \<exists>p. spba_p arr = Some p \<and> length (frame p) = page_bytes
     \<and> spba_off arr mod page_bytes + spba_size arr \<le> page_bytes)"

definition spba_contents :: "(nat \<Rightarrow> byte list) \<times> simple_page_byte_array \<Rightarrow> byte list" where
  "spba_contents = (\<lambda>(frame, arr). take (spba_size arr) (drop (spba_off arr mod page_bytes) (frame (the (spba_p arr)))))"

definition covered :: "original_req_byte_array \<Rightarrow> nat option list" where
  "covered arr = take (orba_num_covered_pages arr) (ea_real (orba_pages arr))"

definition ea_wf :: "'a embedded_array \<Rightarrow> bool" where
  "ea_wf arr \<longleftrightarrow> length (ea_buf arr) = EMBEDDED_SIZE \<and> length (ea_real arr) = ea_capacity arr"

definition orba_wf :: "(nat \<Rightarrow> byte list) \<times> original_req_byte_array \<Rightarrow> bool" where
  "orba_wf = (\<lambda>(frame, arr). orba_valid arr \<and> ea_wf (orba_pages arr)
     \<and> orba_num_covered_pages arr \<le> ea_capacity (orba_pages arr)
     \<and> (\<forall>pg\<in>set (covered arr). \<exists>p. pg = Some p \<and> length (frame p) = page_bytes)
     \<and> orba_off arr + orba_size arr < 2 ^ 63)"

definition orba_contents :: "(nat \<Rightarrow> byte list) \<times> original_req_byte_array \<Rightarrow> byte list" where
  "orba_contents = (\<lambda>(frame, arr). take (orba_size arr)
     (drop (orba_off arr mod page_bytes) (concat (map (\<lambda>pg. frame (the pg)) (covered arr)))))"

definition dba_wf :: "direct_byte_array \<Rightarrow> bool" where
  "dba_wf arr \<longleftrightarrow> (\<exists>buf. dba_buf arr = Some buf \<and> dba_req_off arr mod MIN_BLOCK_SIZE + dba_size arr \<le> length buf
     \<and> length buf < 2 ^ 63)"

definition dba_contents :: "direct_byte_array \<Rightarrow> byte list" where
  "dba_contents arr = take (dba_size arr) (drop (dba_req_off arr mod MIN_BLOCK_SIZE) (the (dba_buf arr)))"

definition imba_wf :: "in_mem_byte_array \<Rightarrow> bool" where
  "imba_wf arr \<longleftrightarrow> (\<exists>pages. imba_pages arr = Some pages \<and> imba_off arr mod page_bytes + imba_size arr \<le> length pages
     \<and> length pages < 2 ^ 63)"

definition imba_contents :: "in_mem_byte_array \<Rightarrow> byte list" where
  "imba_contents arr = take (imba_size arr) (drop (imba_off arr mod page_bytes) (the (imba_pages arr)))"

section \<open>The contract holds\<close>

lemma concat_uniform:
  assumes "\<forall>x\<in>set xs. length x = m" "0 < m"
  shows "length (concat xs) = length xs * m"
    "i < length xs * m \<Longrightarrow> concat xs ! i = xs ! (i div m) ! (i mod m)"
proof -
  show "length (concat xs) = length xs * m" using assms(1) by (induction xs) auto
  show "i < length xs * m \<Longrightarrow> concat xs ! i = xs ! (i div m) ! (i mod m)"
    using assms(1)
  proof (induction xs arbitrary: i)
    case (Cons x xs)
    then have x: "length x = m" by simp
    show ?case
    proof (cases "i < m")
      case True
      then show ?thesis by (simp add: nth_append x)
    next
      case False
      then obtain j where i: "i = m + j" using le_Suc_ex not_less by blast
      have "concat xs ! j = xs ! (j div m) ! (j mod m)" by (rule Cons.IH) (use Cons.prems i in auto)
      moreover have "i div m = Suc (j div m)" "i mod m = j mod m"
        using i assms(2) by (simp_all add: div_add_self1)
      ultimately show ?thesis by (simp add: nth_append x i)
    qed
  qed simp
qed

lemma next_page_off_bounds: "m \<le> next_page_off m" "next_page_off m < m + page_bytes"
  unfolding next_page_off_def using page_split[of "m + page_bytes - 1"] page_bytes_pos by linarith+

lemma covered_eq: "num_covered_pages off n * page_bytes + ROUND_PAGE off = next_page_off (off + n)"
proof -
  have "ROUND_PAGE off \<le> off" by (simp add: ROUND_PAGE_def)
  moreover have "page_bytes dvd next_page_off (off + n) - ROUND_PAGE off"
    by (simp add: next_page_off_def ROUND_PAGE_def)
  ultimately show ?thesis using next_page_off_bounds(1)[of "off + n"] by (simp add: num_covered_pages_def)
qed

lemma covered_reach: "off mod page_bytes + n \<le> num_covered_pages off n * page_bytes"
  using covered_eq[of off n, unfolded ROUND_PAGE_def] next_page_off_bounds(1)[of "off + n"] page_split[of off]
  by linarith

lemma contiguous_page:
  assumes "first + sz \<le> length buf" "j < sz"
  shows "\<exists>p. (if (first + j) div page_bytes * page_bytes \<le> length buf
      then Inr (drop ((first + j) div page_bytes * page_bytes) buf) else Inl Undefined_behaviour) = Inr p
    \<and> (first + j) mod page_bytes < length p \<and> p ! ((first + j) mod page_bytes) = take sz (drop first buf) ! j"
proof -
  have "(first + j) div page_bytes * page_bytes \<le> length buf"
    using assms page_split[of "first + j"] by linarith
  then show ?thesis using assms by (simp add: less_diff_conv)
qed

interpretation spba: byte_array_view "\<lambda>(frame, arr). spba_view frame arr" spba_wf spba_contents
proof (unfold_locales, goal_cases)
  case (1 x)
  then show ?case by (auto simp: spba_wf_def spba_contents_def spba_view_def)
next
  case (2 x j)
  then show ?case by (auto simp: spba_wf_def spba_contents_def spba_view_def)
next
  case (3 x)
  then show ?case by (auto simp: spba_wf_def spba_contents_def spba_view_def page_bytes_def)
qed

interpretation dba: byte_array_view dba_view dba_wf dba_contents
proof (unfold_locales, goal_cases)
  case (1 arr)
  then show ?case by (auto simp: dba_wf_def dba_contents_def dba_view_def)
next
  case (2 arr j)
  then obtain buf where "dba_buf arr = Some buf" "dba_req_off arr mod MIN_BLOCK_SIZE + dba_size arr \<le> length buf" "j < dba_size arr"
    by (auto simp: dba_wf_def dba_contents_def)
  then show ?case using contiguous_page[of "dba_req_off arr mod MIN_BLOCK_SIZE" "dba_size arr" buf j]
    by (simp add: dba_contents_def dba_view_def dba_get_buf_offset_def minus_div_mult_eq_mod)
next
  case (3 arr)
  then show ?case by (auto simp: dba_wf_def dba_contents_def dba_view_def dba_get_buf_offset_def minus_div_mult_eq_mod)
qed

interpretation imba: byte_array_view imba_view imba_wf imba_contents
proof (unfold_locales, goal_cases)
  case (1 arr)
  then show ?case by (auto simp: imba_wf_def imba_contents_def imba_view_def)
next
  case (2 arr j)
  then obtain pages where "imba_pages arr = Some pages" "imba_off arr mod page_bytes + imba_size arr \<le> length pages" "j < imba_size arr"
    by (auto simp: imba_wf_def imba_contents_def)
  then show ?case using contiguous_page[of "imba_off arr mod page_bytes" "imba_size arr" pages j]
    by (simp add: imba_contents_def imba_view_def)
next
  case (3 arr)
  then show ?case by (auto simp: imba_wf_def imba_contents_def imba_view_def)
qed

lemma orba_pages_concat:
  assumes "orba_wf (frame, arr)"
  shows "length (concat (map (\<lambda>pg. frame (the pg)) (covered arr))) = orba_num_covered_pages arr * page_bytes"
    "orba_off arr mod page_bytes + orba_size arr \<le> orba_num_covered_pages arr * page_bytes"
    "length (covered arr) = orba_num_covered_pages arr"
proof -
  show len: "length (covered arr) = orba_num_covered_pages arr"
    using assms by (auto simp: orba_wf_def covered_def ea_wf_def)
  have "\<forall>x\<in>set (map (\<lambda>pg. frame (the pg)) (covered arr)). length x = page_bytes"
    using assms by (auto simp: orba_wf_def)
  from concat_uniform(1)[OF this] len
  show "length (concat (map (\<lambda>pg. frame (the pg)) (covered arr))) = orba_num_covered_pages arr * page_bytes"
    by simp
  show "orba_off arr mod page_bytes + orba_size arr \<le> orba_num_covered_pages arr * page_bytes"
    using covered_reach[of "orba_off arr" "orba_size arr"] by (simp add: orba_num_covered_pages_def)
qed

lemma length_orba_contents: "orba_wf (frame, arr) \<Longrightarrow> length (orba_contents (frame, arr)) = orba_size arr"
  using orba_pages_concat[of frame arr] by (simp add: orba_contents_def)

interpretation orba: byte_array_view "\<lambda>(frame, arr). orba_view frame arr" orba_wf orba_contents
proof (unfold_locales, goal_cases)
  case (1 x)
  then show ?case by (cases x) (simp add: length_orba_contents orba_view_def)
next
  case (2 x j)
  obtain frame arr where x: "x = (frame, arr)" by (cases x)
  have w: "orba_wf (frame, arr)" and j: "j < orba_size arr" using 2 by (auto simp: x length_orba_contents)
  let ?q = "orba_off arr mod page_bytes + j" and ?ps = "map (\<lambda>pg. frame (the pg)) (covered arr)"
  have q: "?q < length (covered arr) * page_bytes" using orba_pages_concat[OF w] j by simp
  have k: "?q div page_bytes < length (covered arr)" using q by (simp add: less_mult_imp_div_less)
  have all: "\<forall>x\<in>set ?ps. length x = page_bytes" using w by (auto simp: orba_wf_def)
  have "orba_contents (frame, arr) ! j = ?ps ! (?q div page_bytes) ! (?q mod page_bytes)"
    using j orba_pages_concat[OF w] concat_uniform(2)[OF all page_bytes_pos(1), of ?q] q
    by (simp add: orba_contents_def)
  moreover obtain p where p: "covered arr ! (?q div page_bytes) = Some p" "length (frame p) = page_bytes"
    using w nth_mem[OF k] unfolding orba_wf_def by blast
  moreover have "ea_get (orba_pages arr) (?q div page_bytes) = Inr (covered arr ! (?q div page_bytes))"
    using k w orba_pages_concat(3)[OF w] by (simp add: ea_get_def covered_def orba_wf_def assert_then_def)
  ultimately show ?case using k by (simp add: x orba_view_def)
next
  case (3 x)
  obtain frame arr where x: "x = (frame, arr)" by (cases x)
  have "orba_off arr mod page_bytes \<le> orba_off arr" by simp
  moreover have "orba_off arr + orba_size arr < 2 ^ 63" "orba_wf (frame, arr)" using 3 by (auto simp: x orba_wf_def)
  moreover have "orba_off arr mod page_bytes + orba_size arr < 2 ^ 63" using calculation by linarith
  ultimately show ?case using length_orba_contents[of frame arr] by (simp add: x orba_view_def)
qed

interpretation sub_orba: byte_array_view
  "\<lambda>(a, off). case sub_page_byte_array ((\<lambda>(frame, arr). orba_view frame arr) a) off of
     Inr v \<Rightarrow> v | Inl _ \<Rightarrow> (\<lambda>(frame, arr). orba_view frame arr) a"
  "\<lambda>(a, off). orba_wf a \<and> off \<le> length (orba_contents a)" "\<lambda>(a, off). drop off (orba_contents a)"
  by (rule orba.sub_view)

section \<open>Embedded arrays\<close>

lemma new_embedded_wf: "ea_wf (new_embedded_array d)" "ea_capacity (new_embedded_array d) = EMBEDDED_SIZE"
  "ea_real (new_embedded_array d) = replicate EMBEDDED_SIZE d"
  by (simp_all add: ea_wf_def new_embedded_array_def ea_real_def)

lemma ea_get_Inr: "i < ea_capacity arr \<Longrightarrow> ea_get arr i = Inr (ea_real arr ! i)"
  by (simp add: ea_get_def)

lemma ea_set_spec:
  assumes "ea_wf arr" "i < ea_capacity arr"
  obtains arr' where "ea_set arr i v = Inr arr'" "ea_wf arr'" "ea_capacity arr' = ea_capacity arr"
    "ea_real arr' = (ea_real arr)[i := v]"
  using assms by (cases "ea_heap arr") (auto simp: ea_set_def ea_wf_def ea_real_def)

lemma ea_resize_spec:
  assumes "ea_wf arr"
  shows "ea_wf (ea_resize junk arr n)" "ea_capacity (ea_resize junk arr n) = max n (ea_capacity arr)"
    "take (ea_capacity arr) (ea_real (ea_resize junk arr n)) = ea_real arr"
  using assms by (cases "ea_heap arr"; auto simp: ea_resize_def ea_wf_def ea_real_def)+

lemma ea_assign_spec:
  assumes "ea_wf this" "ea_wf arr" "ea_heap this = None" "ea_capacity this = EMBEDDED_SIZE"
  shows "ea_real (fst (ea_assign d this arr)) = ea_real arr" "ea_wf (fst (ea_assign d this arr))"
    "ea_capacity (fst (ea_assign d this arr)) = ea_capacity arr"
  using assms by (cases "ea_heap arr"; auto simp: ea_assign_def ea_clear_def ea_wf_def ea_real_def Let_def)+

section \<open>Requests\<close>

definition oir_wf :: "original_io_request \<Rightarrow> bool" where
  "oir_wf req \<longleftrightarrow> ea_wf (oir_status req)
     \<and> num_covered_pages (oir_off req) (oir_size req) \<le> ea_capacity (oir_status req)
     \<and> oir_off req + oir_size req < 2 ^ 62"

abbreviation oir_pages :: "original_io_request \<Rightarrow> nat" where
  "oir_pages req \<equiv> num_covered_pages (oir_off req) (oir_size req)"

abbreviation oir_page_off :: "original_io_request \<Rightarrow> nat \<Rightarrow> nat" where
  "oir_page_off req k \<equiv> ROUND_PAGE (oir_off req) + k * page_bytes"

abbreviation oir_sts :: "original_io_request \<Rightarrow> page_status list" where
  "oir_sts req \<equiv> ea_real (oir_status req)"

lemma page_index_at: "oir_page_index req (oir_page_off req k) = Inr k"
proof -
  have "(int (oir_page_off req k) - int (ROUND_PAGE (oir_off req))) sdiv int page_bytes = int k"
    by (simp add: sdiv_div)
  then show ?thesis by (simp add: oir_page_index_def oir_first_page_offset_def Let_def)
qed

lemma set_page_status_spec:
  assumes "oir_wf req" "k < oir_pages req"
  obtains req' where "oir_set_page_status req (oir_page_off req k) f = Inr req'" "oir_wf req'"
    "oir_off req' = oir_off req" "oir_size req' = oir_size req"
    "oir_completed_size req' = oir_completed_size req"
    "oir_sts req' = (oir_sts req)[k := f (oir_sts req ! k)]"
proof -
  have k: "k < ea_capacity (oir_status req)" and w: "ea_wf (oir_status req)" using assms by (auto simp: oir_wf_def)
  obtain arr where arr: "ea_set (oir_status req) k (f (oir_sts req ! k)) = Inr arr" "ea_wf arr"
    "ea_capacity arr = ea_capacity (oir_status req)" "ea_real arr = (oir_sts req)[k := f (oir_sts req ! k)]"
    using ea_set_spec[OF w k] .
  then have "oir_set_page_status req (oir_page_off req k) f = Inr (req\<lparr>oir_status := arr\<rparr>)"
    using k by (simp add: oir_set_page_status_def page_index_at ea_get_Inr)
  then show thesis using that[of "req\<lparr>oir_status := arr\<rparr>"] arr assms(1) by (simp add: oir_wf_def)
qed

text \<open>The part of a request in its \<open>k\<close>-th page, as the difference of two clipped page borders.\<close>

definition border :: "nat \<Rightarrow> nat \<Rightarrow> nat \<Rightarrow> int" where
  "border off n k = int (min (max (ROUND_PAGE off + k * page_bytes) off) (off + n))"

lemma covered_borders:
  assumes "k < num_covered_pages off n"
  shows "ROUND_PAGE off + k * page_bytes < off + n"
proof -
  have "Suc k * page_bytes \<le> num_covered_pages off n * page_bytes" using assms by (intro mult_le_mono1) simp
  then have "ROUND_PAGE off + (k * page_bytes + page_bytes) \<le> next_page_off (off + n)"
    using covered_eq[of off n] by simp
  then show ?thesis using next_page_off_bounds(2)[of "off + n"] by linarith
qed

lemma overlap_border:
  assumes "oir_wf req" "k < oir_pages req"
  shows "get_overlap_size req (oir_page_off req k)
    = border (oir_off req) (oir_size req) (Suc k) - border (oir_off req) (oir_size req) k"
proof -
  let ?o = "oir_off req" and ?n = "oir_size req" let ?p = "oir_page_off req k"
  have "?p < ?o + ?n" using covered_borders[OF assms(2)] .
  moreover have "?o < ROUND_PAGE ?o + page_bytes" unfolding ROUND_PAGE_def using page_split[of ?o] by linarith
  ultimately have "int (min (?p + page_bytes) (?o + ?n)) - int (max ?p ?o) = border ?o ?n (Suc k) - border ?o ?n k"
    "0 \<le> border ?o ?n (Suc k) - border ?o ?n k" "border ?o ?n (Suc k) - border ?o ?n k \<le> int page_bytes"
    by (auto simp: border_def)
  then show ?thesis by (simp add: get_overlap_size_def int32_id page_bytes_def)
qed

lemma overlap_pos:
  assumes "0 < n" "k < num_covered_pages off n"
  shows "border off n k < border off n (Suc k)"
proof -
  have "ROUND_PAGE off + k * page_bytes < off + n" using covered_borders[OF assms(2)] .
  moreover have "off < ROUND_PAGE off + page_bytes" unfolding ROUND_PAGE_def using page_split[of off] by linarith
  ultimately show ?thesis using assms(1) by (auto simp: border_def)
qed

lemma sum_borders: "(\<Sum>k<m. border off n (Suc k) - border off n k) = border off n m - border off n 0"
  by (induction m) simp_all

lemma sum_overlaps: "(\<Sum>k<num_covered_pages off n. border off n (Suc k) - border off n k) = int n"
proof -
  have "ROUND_PAGE off \<le> off" by (simp add: ROUND_PAGE_def)
  moreover have "ROUND_PAGE off + num_covered_pages off n * page_bytes \<ge> off + n"
    using covered_eq[of off n] next_page_off_bounds(1)[of "off + n"] by linarith
  ultimately show ?thesis unfolding sum_borders by (simp add: border_def)
qed

end
