(* ===== verification/Ext_Vertex_Laws.thy ===== *)
theory Ext_Vertex_Laws
  imports Ext_Vertex Page_Arrays_Laws
begin

text \<open>
  The layout of a vertex: sizes and numbers of edges determine each other, and what
  \<^verbatim>\<open>serialize\<close> writes is what a vertex on a page byte array reads.
\<close>

section \<open>Numbers\<close>

lemma u32_id: "n < 2 ^ 32 \<Longrightarrow> u32 n = n"
  by (simp add: u32_def)

lemma length_u32_bytes [simp]: "length (u32_bytes n) = 4"
  by (simp add: u32_bytes_def)

lemma unat_byte: "unat (of_nat n :: byte) = n mod 256"
  by (simp add: unat_of_nat)

lemma u32_of_bytes: "n < 2 ^ 32 \<Longrightarrow> u32_of (u32_bytes n) = n"
proof -
  assume "n < 2 ^ 32"
  then have 3: "n div 16777216 mod 256 + 256 * 0 = n div 16777216" by simp
  have 2: "n div 65536 mod 256 + 256 * (n div 16777216) = n div 65536"
    using mod_mult_div_eq[of "n div 65536" 256] by (simp add: div_mult2_eq[symmetric])
  have 1: "n div 256 mod 256 + 256 * (n div 65536) = n div 256"
    using mod_mult_div_eq[of "n div 256" 256] by (simp add: div_mult2_eq[symmetric])
  have 0: "n mod 256 + 256 * (n div 256) = n" by simp
  show "u32_of (u32_bytes n) = n"
    unfolding u32_bytes_def u32_of.simps unat_byte 3 2 1 0 ..
qed

lemma u32s_of_bytes:
  "\<forall>x\<in>set xs. x < 2 ^ 32 \<Longrightarrow> u32s_of (length xs) (concat (map u32_bytes xs)) = xs"
  by (induction xs) (simp_all add: u32_of_bytes)

lemma length_concat_u32 [simp]: "length (concat (map u32_bytes xs)) = 4 * length xs"
  by (induction xs) simp_all

section \<open>Sizes\<close>

lemma ROUNDUP_bounds:
  assumes "0 < b"
  shows "n \<le> ROUNDUP n b" "ROUNDUP n b < n + b"
proof -
  let ?x = "int n + int b - 1" and ?m = "int b - 1"
  have "(?x AND ?m) + (?x AND NOT ?m) = (?x AND ?m) OR (?x AND NOT ?m)"
    by (rule disjunctive_add) (simp add: bit_simps)
  also have "\<dots> = ?x" by (rule bit_eqI) (auto simp: bit_simps)
  finally have s: "?x AND NOT ?m = ?x - (?x AND ?m)" by linarith
  have "0 \<le> ?x AND ?m" "?x AND ?m \<le> ?m" using assms by (simp_all add: AND_upper2)
  then have "int n \<le> ?x AND NOT ?m" "?x AND NOT ?m < int n + int b" unfolding s by linarith+
  then show "n \<le> ROUNDUP n b" "ROUNDUP n b < n + b" unfolding ROUNDUP_def by linarith+
qed

lemma vertex_size_bounds:
  assumes "n < 2 ^ 32" "e < 2 ^ 32" "n * e < 2 ^ 32"
  shows "12 + n * (4 + e) \<le> num_edges2vsize n e" "num_edges2vsize n e < 12 + (n + 1) * (4 + e)"
proof -
  let ?v = "new_ext_mem_undirected_vertex 0 n e"
  have v: "emv_num_edges ?v = n" "emv_edge_data_size ?v = e" "emv_get_size0 ?v = 12 + 4 * n"
    using assms by (simp_all add: new_ext_mem_undirected_vertex_def u32_id emv_get_size0_def emv_header_size_def)
  have "12 + n * (4 + e) \<le> num_edges2vsize n e \<and> num_edges2vsize n e < 12 + (n + 1) * (4 + e)"
  proof (cases "e = 0")
    case False
    then have "num_edges2vsize n e = ROUNDUP (ROUNDUP (12 + 4 * n) e + n * e) 4"
      using v assms(3) by (simp add: num_edges2vsize_def emv_get_size_def emv_has_edge_data_def emv_edge_data_addr_def u32_id)
    then show ?thesis
      using ROUNDUP_bounds[of e "12 + 4 * n"] ROUNDUP_bounds[of 4 "ROUNDUP (12 + 4 * n) e + n * e"] False
      by (simp add: algebra_simps)
  qed (use v in \<open>simp_all add: num_edges2vsize_def emv_get_size_def emv_has_edge_data_def emv_header_size_def\<close>)
  then show "12 + n * (4 + e) \<le> num_edges2vsize n e" "num_edges2vsize n e < 12 + (n + 1) * (4 + e)" by simp_all
qed

lemma vsize2num_edges_inverse:
  assumes "n < 2 ^ 32" "e < 2 ^ 32" "n * e < 2 ^ 32"
  shows "vsize2num_edges (num_edges2vsize n e) e = n"
proof -
  let ?s = "num_edges2vsize n e"
  note b = vertex_size_bounds[OF assms]
  have "?s < 2 ^ 64" using b(2) assms by (simp add: algebra_simps)
  then have "unsigned_diff ?s 12 = ?s - 12" using b(1) by (intro unsigned_diff_eq) simp_all
  moreover have "(?s - 12) div (4 + e) = n"
    by (rule div_nat_eqI) (use b in \<open>simp_all add: algebra_simps\<close>)
  ultimately show ?thesis using assms(1) by (simp add: vsize2num_edges_def emv_header_size_def u32_id)
qed

section \<open>Writing\<close>

text \<open>A vertex that can be written for one type of edges: the neighbours \<open>es\<close> and the bytes \<open>d\<close> of the
  edge data.\<close>

definition vertex_part :: "in_mem_vertex \<Rightarrow> edge_type \<Rightarrow> nat list \<Rightarrow> byte list \<Rightarrow> nat \<Rightarrow> bool" where
  "vertex_part v type es d e \<longleftrightarrow>
     imv_id v < 2 ^ 32 \<and> imv_num_edges v type = Inr (length es) \<and> length es < 2 ^ 32
   \<and> imv_serialize_edges v type = concat (map u32_bytes es) \<and> (\<forall>x\<in>set es. x < 2 ^ 32)
   \<and> e = (if imv_has_edge_data v then imv_edge_data_size v else 0) \<and> length d = length es * e
   \<and> (imv_has_edge_data v \<longrightarrow> imv_serialize_edge_data v type = Inr d \<and> 0 < e)
   \<and> e < 2 ^ 32 \<and> length es * e < 2 ^ 32"

text \<open>The bytes of a vertex.\<close>

definition vertex_bytes :: "byte list \<Rightarrow> nat \<Rightarrow> nat list \<Rightarrow> byte list \<Rightarrow> nat \<Rightarrow> bool" where
  "vertex_bytes bs vid es d e \<longleftrightarrow>
     length bs \<ge> num_edges2vsize (length es) e
   \<and> take 12 bs = u32_bytes vid @ u32_bytes e @ u32_bytes (length es)
   \<and> take (4 * length es) (drop 12 bs) = concat (map u32_bytes es)
   \<and> take (length es * e) (drop (get_edge_data_offset (length es) e) bs) = d"

lemma write_mem_Inr:
  "off + length bs \<le> length buf \<Longrightarrow> write_mem buf off bs = Inr (take off buf @ bs @ drop (off + length bs) buf)"
  by (simp add: write_mem_def)

text \<open>Reading from a buffer after a write.\<close>

lemma take_drop_write:
  assumes "off + length bs \<le> length buf"
  defines "buf' \<equiv> take off buf @ bs @ drop (off + length bs) buf"
  shows "length buf' = length buf" "take (length bs) (drop off buf') = bs"
    "a + n \<le> off \<Longrightarrow> take n (drop a buf') = take n (drop a buf)"
proof -
  show "length buf' = length buf" "take (length bs) (drop off buf') = bs"
    using assms(1) by (simp_all add: buf'_def)
  show "a + n \<le> off \<Longrightarrow> take n (drop a buf') = take n (drop a buf)"
  proof -
    assume an: "a + n \<le> off"
    have l: "length (take off buf) = off" using assms(1) by simp
    have "take n (drop a buf') = take n (drop a (take off buf))" using l an by (simp add: buf'_def)
    also have "\<dots> = take n (drop a buf)" using an by (simp add: drop_take min_absorb1)
    finally show "take n (drop a buf') = take n (drop a buf)" .
  qed
qed

lemma edge_data_fits:
  assumes "n < 2 ^ 32" "e < 2 ^ 32" "n * e < 2 ^ 32"
  shows "12 + 4 * n \<le> num_edges2vsize n e"
    "0 < e \<Longrightarrow> 12 + 4 * n \<le> get_edge_data_offset n e \<and> get_edge_data_offset n e + n * e \<le> num_edges2vsize n e"
proof -
  show "12 + 4 * n \<le> num_edges2vsize n e" using vertex_size_bounds(1)[OF assms] by (simp add: algebra_simps)
  assume e: "0 < e"
  let ?v = "new_ext_mem_undirected_vertex 0 n e"
  have v: "emv_num_edges ?v = n" "emv_edge_data_size ?v = e" "emv_get_size0 ?v = 12 + 4 * n"
    using assms by (simp_all add: new_ext_mem_undirected_vertex_def u32_id emv_get_size0_def emv_header_size_def)
  have off: "get_edge_data_offset n e = ROUNDUP (12 + 4 * n) e"
    by (simp add: get_edge_data_offset_def emv_edge_data_addr_def v)
  have sz: "num_edges2vsize n e = ROUNDUP (ROUNDUP (12 + 4 * n) e + n * e) 4"
    using v e assms(3) by (simp add: num_edges2vsize_def emv_get_size_def emv_has_edge_data_def emv_edge_data_addr_def u32_id)
  show "12 + 4 * n \<le> get_edge_data_offset n e \<and> get_edge_data_offset n e + n * e \<le> num_edges2vsize n e"
    unfolding off sz using ROUNDUP_bounds(1)[OF e] ROUNDUP_bounds(1)[of 4] by simp
qed

lemma serialize_layout:
  assumes p: "vertex_part v type es d e" and len: "num_edges2vsize (length es) e \<le> length buf"
  shows "\<exists>buf'. emv_serialize v buf type = Inr (num_edges2vsize (length es) e, buf')
    \<and> length buf' = length buf \<and> vertex_bytes buf' (imv_id v) es d e"
proof -
  let ?n = "length es" let ?s = "num_edges2vsize ?n e" and ?a = "get_edge_data_offset ?n e"
  have b: "?n < 2 ^ 32" "e < 2 ^ 32" "?n * e < 2 ^ 32" using p unfolding vertex_part_def by blast+
  note fits = edge_data_fits[OF b]
  let ?h = "u32_bytes (imv_id v) @ u32_bytes e @ u32_bytes ?n" and ?es = "concat (map u32_bytes es)"
  let ?ext = "new_ext_mem_undirected_vertex (imv_id v) ?n e"
  have vid: "imv_id v < 2 ^ 32" using p by (simp add: vertex_part_def)
  have ext: "emv_id ?ext = imv_id v" "emv_edge_data_size ?ext = e" "emv_num_edges ?ext = ?n"
    "emv_get_size ?ext = ?s" "emv_edge_data_addr ?ext = ?a"
    using vid b by (simp_all add: new_ext_mem_undirected_vertex_def u32_id num_edges2vsize_def
      get_edge_data_offset_def emv_get_size_def emv_has_edge_data_def emv_edge_data_addr_def emv_get_size0_def)
  define b1 where "b1 = take 0 buf @ ?h @ drop (0 + length ?h) buf"
  have "0 + length ?h \<le> length buf" using fits(1) len by simp
  note w1 = take_drop_write[OF this, folded b1_def]
  have b1: "write_mem buf 0 ?h = Inr b1" "take 12 b1 = ?h" "length b1 = length buf"
    using write_mem_Inr[of 0 ?h buf] fits(1) len w1 by (simp_all add: b1_def)
  define b2 where "b2 = take 12 b1 @ ?es @ drop (12 + length ?es) b1"
  have "12 + length ?es \<le> length b1" using fits(1) len b1(3) by simp
  note w2 = take_drop_write[OF this, folded b2_def]
  have b2: "write_mem b1 12 ?es = Inr b2" "take 12 b2 = ?h" "length b2 = length buf"
    "take (4 * ?n) (drop 12 b2) = ?es"
    using write_mem_Inr[of 12 ?es b1] fits(1) len w2(1,2) w2(3)[of 0 12] b1(2,3) by (simp_all add: b2_def)
  have start: "emv_serialize v buf type = (if imv_has_edge_data v
      then bind_res (write_mem b2 ?a d) (\<lambda>buf. Inr (?s, buf)) else Inr (?s, b2))"
    using p b1 b2(1) len fits(1) ext
    by (auto simp: emv_serialize_def vertex_part_def emv_header_size_def)
  show ?thesis
  proof (cases "imv_has_edge_data v")
    case False
    then have "e = 0" "d = []" using p by (auto simp: vertex_part_def)
    then show ?thesis using start False b2 len by (simp add: vertex_bytes_def)
  next
    case True
    then have e: "0 < e" "length d = ?n * e" using p by (simp_all add: vertex_part_def)
    define b3 where "b3 = take ?a b2 @ d @ drop (?a + length d) b2"
    have ad: "12 + 4 * ?n \<le> ?a" "?a + length d \<le> length b2" using fits(2)[OF e(1)] e(2) len b2(3) by simp_all
    note w3 = take_drop_write[OF ad(2), folded b3_def]
    have "write_mem b2 ?a d = Inr b3" using write_mem_Inr[OF ad(2)] by (simp add: b3_def)
    moreover have "take 12 b3 = ?h" using w3(3)[of 0 12] ad(1) b2(2) by simp
    moreover have "take (4 * ?n) (drop 12 b3) = ?es" using w3(3)[of 12 "4 * ?n"] ad(1) b2(4) by simp
    moreover have "take (?n * e) (drop ?a b3) = d" using w3(2) e(2) by simp
    ultimately show ?thesis using start True w3(1) b2(3) len by (simp add: vertex_bytes_def)
  qed
qed

lemma vertex_bytes_take:
  assumes "vertex_bytes bs vid es d e" "length es < 2 ^ 32" "e < 2 ^ 32" "length es * e < 2 ^ 32"
  shows "vertex_bytes (take (num_edges2vsize (length es) e) bs) vid es d e"
proof -
  note fits = edge_data_fits[OF assms(2-4)]
  show ?thesis
  proof (cases "e = 0")
    case True
    then show ?thesis using assms(1) fits(1) by (auto simp: vertex_bytes_def drop_take min_def)
  next
    case False
    then have "get_edge_data_offset (length es) e + length es * e \<le> num_edges2vsize (length es) e"
      using fits(2) by simp
    then show ?thesis using assms(1) fits(1) by (auto simp: vertex_bytes_def drop_take min_def)
  qed
qed

section \<open>Reading\<close>

lemma header_of_bytes:
  assumes "take 12 bs = u32_bytes vid @ u32_bytes e @ u32_bytes n" "vid < 2 ^ 32" "e < 2 ^ 32" "n < 2 ^ 32"
  shows "emv_of_bytes (take 12 bs) = \<lparr>emv_id = vid, emv_edge_data_size = e, emv_num_edges = n\<rparr>"
  unfolding emv_of_bytes_def assms(1) using assms(2-4) by (simp add: u32_of_bytes)

lemma size_of_header:
  "n < 2 ^ 32 \<Longrightarrow> e < 2 ^ 32 \<Longrightarrow>
     emv_get_size \<lparr>emv_id = vid, emv_edge_data_size = e, emv_num_edges = n\<rparr> = num_edges2vsize n e"
  by (simp add: num_edges2vsize_def new_ext_mem_undirected_vertex_def u32_id emv_get_size_def
    emv_has_edge_data_def emv_edge_data_addr_def emv_get_size0_def)

context byte_array_view
begin

lemma get_header:
  assumes "wf a" "vertex_bytes (contents a) vid es d e" "vid < 2 ^ 32" "e < 2 ^ 32" "length es < 2 ^ 32"
    "length es * e < 2 ^ 32"
  shows "pba_get (view a) 12 0 = Inr (take 12 (contents a))"
    "emv_of_bytes (take 12 (contents a)) = \<lparr>emv_id = vid, emv_edge_data_size = e, emv_num_edges = length es\<rparr>"
    "12 \<le> pba_size (view a)" "num_edges2vsize (length es) e \<le> pba_size (view a)"
proof -
  have le: "num_edges2vsize (length es) e \<le> length (contents a)" using assms(2) by (simp add: vertex_bytes_def)
  then have "0 + 12 \<le> length (contents a)" using edge_data_fits(1)[OF assms(5,4,6)] by simp
  from memcpy_reads[OF assms(1) this] show "pba_get (view a) 12 0 = Inr (take 12 (contents a))"
    by (simp add: pba_get_def)
  show "emv_of_bytes (take 12 (contents a)) = \<lparr>emv_id = vid, emv_edge_data_size = e, emv_num_edges = length es\<rparr>"
    by (rule header_of_bytes) (use assms in \<open>simp_all add: vertex_bytes_def\<close>)
  show "num_edges2vsize (length es) e \<le> pba_size (view a)" "12 \<le> pba_size (view a)"
    using le \<open>0 + 12 \<le> _\<close> size_law[OF assms(1)] by simp_all
qed

lemma memcpy_edges:
  assumes "wf a" "vertex_bytes (contents a) vid es d e" "e < 2 ^ 32" "length es < 2 ^ 32" "length es * e < 2 ^ 32"
    "\<forall>x\<in>set es. x < 2 ^ 32"
  shows "bind_res (pba_memcpy (view a) 12 (4 * length es)) (\<lambda>bs. Inr (u32s_of (length es) bs)) = Inr es"
proof -
  have "12 + 4 * length es \<le> length (contents a)"
    using edge_data_fits(1)[OF assms(4,3,5)] assms(2) by (simp add: vertex_bytes_def)
  from memcpy_reads[OF assms(1) this] show ?thesis
    using assms(2,6) by (simp add: vertex_bytes_def u32s_of_bytes)
qed

lemma page_undirected_reads:
  assumes "wf a" "vertex_bytes (contents a) vid es d e" "vid < 2 ^ 32" "e < 2 ^ 32" "length es < 2 ^ 32"
    "length es * e < 2 ^ 32" "\<forall>x\<in>set es. x < 2 ^ 32" "length (contents a) < 2 ^ 32"
  shows "\<exists>v. new_page_undirected_vertex (view a) = Inr v \<and> puv_id v = vid \<and> puv_num_edges v = length es
    \<and> puv_array v = view a \<and> puv_vertex_size v = num_edges2vsize (length es) e
    \<and> (length es \<le> num \<longrightarrow> puv_read_edges v num = Inr es)"
proof -
  note h = get_header[OF assms(1-6)] and sz = size_of_header[OF assms(5,4), of vid]
  have "u32 (pba_size (view a)) = pba_size (view a)" using assms(8) size_law[OF assms(1)] by (simp add: u32_id)
  moreover have "u32 (num_edges2vsize (length es) e) = num_edges2vsize (length es) e"
    using h(4) assms(8) size_law[OF assms(1)] by (simp add: u32_id)
  ultimately have "new_page_undirected_vertex (view a)
      = Inr \<lparr>puv_id = vid, puv_vertex_size = num_edges2vsize (length es) e, puv_num_edges = length es, puv_array = view a\<rparr>"
    using h sz by (simp add: new_page_undirected_vertex_def emv_header_size_def Let_def)
  then show ?thesis using memcpy_edges[OF assms(1,2,4,5,6,7)]
    by (simp add: puv_read_edges_def emv_header_size_def)
qed

lemma page_header_reads:
  assumes "wf a" "vertex_bytes (contents a) vid es d e" "vid < 2 ^ 32" "e < 2 ^ 32" "length es < 2 ^ 32"
    "length es * e < 2 ^ 32"
  shows "pdv_header (view a) = Inr \<lparr>emv_id = vid, emv_edge_data_size = e, emv_num_edges = length es\<rparr>"
  using get_header[OF assms] by (simp add: pdv_header_def emv_header_size_def)

text \<open>The data of the edges, element by element, when the elements are aligned in the pages.\<close>

lemma data_reads:
  assumes "wf a" "vertex_bytes (contents a) vid es (concat ds) e" "\<forall>x\<in>set ds. length x = e" "length ds = length es"
    "e < 2 ^ 32" "length es < 2 ^ 32" "length es * e < 2 ^ 32" "0 < e" "e dvd page_bytes"
    "e dvd pba_first (view a) + get_edge_data_offset (length es) e" "length es < fuel"
  shows "bind_res (pba_get_seq_iterator (view a) e (get_edge_data_offset (length es) e)
      (get_edge_data_offset (length es) e + length es * e)) (\<lambda>it. seq_loop fuel e it []) = Inr ds"
proof -
  let ?o = "get_edge_data_offset (length es) e"
  have le: "?o + length es * e \<le> length (contents a)"
    using edge_data_fits(2)[OF assms(6,5,7,8)] assms(2) by (simp add: vertex_bytes_def)
  obtain it where it: "new_seq_const_iterator (view a) e ?o (?o + length es * e) = Inr it" "seq_at a e it ?o (length es)"
    using new_seq_spec[OF assms(1,8,9) le] assms(10) by blast
  have "elems e (contents a) ?o (length es) = ds"
  proof (rule nth_equalityI)
    show "elems e (contents a) ?o (length es) ! k = ds ! k" if "k < length (elems e (contents a) ?o (length es))" for k
    proof -
      have k: "k < length ds" using that assms(4) by simp
      have "k * e + e \<le> length es * e" using k assms(4) by (metis Suc_leI add.commute mult_Suc mult_le_mono1)
      then have "take e (drop (k * e) (concat ds)) = take e (drop (?o + k * e) (contents a))"
      proof -
        have c: "concat ds = take (length es * e) (drop ?o (contents a))" using assms(2) by (simp add: vertex_bytes_def)
        have "e \<le> length es * e - k * e" using \<open>k * e + e \<le> _\<close> by linarith
        then show ?thesis unfolding c by (simp add: drop_take min_absorb1 add.commute)
      qed
      moreover have "take e (drop (k * e) (concat ds)) = ds ! k"
      proof -
        have s: "ds = take k ds @ ds ! k # drop (Suc k) ds" using k by (rule id_take_nth_drop)
        have "length (concat (take k ds)) = k * e"
          using concat_uniform(1)[of "take k ds" e] assms(3,8) k by (auto dest: in_set_takeD)
        then show ?thesis using assms(3) k by (subst s) simp
      qed
      ultimately show ?thesis using that by (simp add: elems_def)
    qed
  qed (simp add: assms(4))
  then show ?thesis using it seq_loop_reads[OF assms(1,8,9) it(2) assms(11), of "[]"]
    by (simp add: pba_get_seq_iterator_def)
qed

end

end
