(* ===== verification/Page_Arrays_Props.thy ===== *)
theory Page_Arrays_Props
  imports Page_Arrays_Laws
begin

text \<open>
  What user tasks rely on: a request is reported complete once, by the last of its pages; the task
  then reads the bytes of the file whatever pages they lie in, and every page reference is given
  back once; the three ways to walk over an array visit the same elements.
\<close>

section \<open>Completion\<close>

fun complete_all :: "original_io_request \<Rightarrow> nat list \<Rightarrow> (bool list \<times> original_io_request) res" where
  "complete_all req [] = Inr ([], req)"
| "complete_all req (p # ps) =
     bind_res (oir_complete_page req p) (\<lambda>(b, req).
     bind_res (complete_all req ps) (\<lambda>(bs, req). Inr (b # bs, req)))"

definition oir_left :: "original_io_request \<Rightarrow> nat set \<Rightarrow> bool" where
  "oir_left req K \<longleftrightarrow> oir_wf req \<and> K \<subseteq> {..<oir_pages req}
     \<and> oir_completed_size req = int (oir_size req)
         - (\<Sum>k\<in>K. border (oir_off req) (oir_size req) (Suc k) - border (oir_off req) (oir_size req) k)"

lemma oir_left_sum_pos:
  assumes "oir_left req K" "0 < oir_size req" "K \<noteq> {}"
  shows "0 < (\<Sum>k\<in>K. border (oir_off req) (oir_size req) (Suc k) - border (oir_off req) (oir_size req) k)"
proof (rule sum_pos)
  show "finite K" using assms(1) finite_subset by (auto simp: oir_left_def)
  show "0 < border (oir_off req) (oir_size req) (Suc k) - border (oir_off req) (oir_size req) k" if "k \<in> K" for k
  proof -
    have "k < oir_pages req" using that assms(1) by (auto simp: oir_left_def)
    from overlap_pos[OF assms(2) this] show ?thesis by simp
  qed
qed (fact assms(3))

lemma complete_page_step:
  assumes "oir_left req K" "k \<in> K"
  obtains req' where "oir_complete_page req (oir_page_off req k)
      = Inr (oir_completed_size req' = int (oir_size req), req')"
    "oir_left req' (K - {k})" "oir_off req' = oir_off req" "oir_size req' = oir_size req"
proof -
  let ?d = "\<lambda>k. border (oir_off req) (oir_size req) (Suc k) - border (oir_off req) (oir_size req) k"
  have w: "oir_wf req" and k: "k < oir_pages req" and fin: "finite K"
    using assms finite_subset by (auto simp: oir_left_def)
  obtain r where r: "oir_set_page_status req (oir_page_off req k) (ps_completed_update (\<lambda>_. True)) = Inr r"
    "oir_wf r" "oir_off r = oir_off req" "oir_size r = oir_size req"
    "oir_completed_size r = oir_completed_size req"
    using set_page_status_spec[OF w k] by blast
  have ov: "get_overlap_size r (oir_page_off req k) = ?d k"
    using overlap_border[OF r(2)] k r(3,4) by simp
  have sum: "(\<Sum>j\<in>K. ?d j) = ?d k + (\<Sum>j\<in>K - {k}. ?d j)"
    using fin assms(2) by (simp add: sum.remove)
  have nn: "0 \<le> ?d j" for j by (simp add: border_def)
  have "(\<Sum>j\<in>K. ?d j) \<le> (\<Sum>j<oir_pages req. ?d j)"
    by (rule sum_mono2) (use assms(1) nn in \<open>auto simp: oir_left_def\<close>)
  then have ub: "(\<Sum>j\<in>K. ?d j) \<le> int (oir_size req)" by (simp add: sum_overlaps)
  have lo: "0 \<le> oir_completed_size req" using assms(1) ub by (simp add: oir_left_def)
  have new: "oir_completed_size req + ?d k = int (oir_size req) - (\<Sum>j\<in>K - {k}. ?d j)"
    using assms(1) sum by (simp add: oir_left_def)
  have "0 \<le> (\<Sum>j\<in>K - {k}. ?d j)" using nn by (intro sum_nonneg) simp
  then have i64: "int64 (oir_completed_size req + ?d k) = oir_completed_size req + ?d k"
    using new lo nn[of k] w by (intro int64_id) (auto simp: oir_wf_def)
  let ?r = "r\<lparr>oir_completed_size := oir_completed_size req + ?d k\<rparr>"
  have "oir_left ?r (K - {k})" using assms(1) r new by (auto simp: oir_left_def oir_wf_def)
  moreover have "oir_complete_page req (oir_page_off req k) = Inr (oir_completed_size ?r = int (oir_size req), ?r)"
    using r ov i64 by (simp add: oir_complete_page_def Let_def)
  ultimately show thesis using that[of ?r] r by simp
qed

lemma complete_all_left:
  assumes "oir_left req (set ks)" "distinct ks" "ks \<noteq> []" "0 < oir_size req"
  shows "\<exists>req'. complete_all req (map (oir_page_off req) ks) = Inr (replicate (length ks - 1) False @ [True], req')
    \<and> oir_is_complete req' \<and> oir_size req' = oir_size req"
  using assms
proof (induction ks arbitrary: req)
  case (Cons k ks)
  obtain r where r: "oir_complete_page req (oir_page_off req k) = Inr (oir_completed_size r = int (oir_size req), r)"
    "oir_left r (set (k # ks) - {k})" "oir_off r = oir_off req" "oir_size r = oir_size req"
    using complete_page_step[OF Cons.prems(1), of k] by auto
  have l: "oir_left r (set ks)" using r(2) Cons.prems(2) by simp
  show ?case
  proof (cases "ks = []")
    case True
    then have "oir_completed_size r = int (oir_size req)" using l r(4) by (simp add: oir_left_def)
    then show ?thesis using True r by (simp add: oir_is_complete_def)
  next
    case False
    have "oir_completed_size r \<noteq> int (oir_size req)"
      using oir_left_sum_pos[OF l] False l r(4) Cons.prems(4) by (simp add: oir_left_def)
    moreover obtain r' where "complete_all r (map (oir_page_off r) ks) = Inr (replicate (length ks - 1) False @ [True], r')"
      "oir_is_complete r'" "oir_size r' = oir_size r"
      using Cons.IH[OF l] Cons.prems(2,4) False r(4) by auto
    ultimately show ?thesis using r False by (cases ks) auto
  qed
qed simp

lemma oir_init_spec:
  shows "oir_off (oir_init junk off n) = off" "oir_size (oir_init junk off n) = n"
    "oir_completed_size (oir_init junk off n) = 0"
    and "off + n < 2 ^ 62 \<Longrightarrow> oir_wf (oir_init junk off n)"
proof -
  let ?num = "num_covered_pages off n" let ?a = "ea_resize junk (new_embedded_array null_status) ?num"
  have "ea_wf ?a" "?num \<le> ea_capacity ?a" "ea_heap ?a = None \<longrightarrow> ?num \<le> EMBEDDED_SIZE"
    by (auto simp: ea_resize_def ea_wf_def ea_real_def new_embedded_array_def split: if_splits)
  then show "off + n < 2 ^ 62 \<Longrightarrow> oir_wf (oir_init junk off n)"
    by (cases "ea_heap ?a") (auto simp: oir_init_def oir_wf_def ea_wf_def ea_real_def Let_def)
qed (simp_all add: oir_init_def Let_def)

text \<open>C20. The pages that a request covers may be completed in any order. Each completion but the last
  reports that the request is still waiting, the last one reports that it is complete.\<close>

theorem request_completes_with_last_page:
  assumes "0 < n" "off + n < 2 ^ 62" "distinct ks" "set ks = {..<num_covered_pages off n}"
  shows "\<exists>req. complete_all (oir_init junk off n) (map (\<lambda>k. ROUND_PAGE off + k * page_bytes) ks)
      = Inr (replicate (length ks - 1) False @ [True], req) \<and> oir_is_complete req"
proof -
  let ?r = "oir_init junk off n"
  have "oir_left ?r (set ks)"
    using oir_init_spec[where junk = junk and off = off and n = n] assms(2,4) by (simp add: oir_left_def sum_overlaps)
  moreover have "ks \<noteq> []"
  proof
    assume "ks = []"
    then have "num_covered_pages off n = 0" using assms(4) by auto
    then show False using covered_reach[of off n] assms(1) by simp
  qed
  ultimately show ?thesis
    using complete_all_left[of ?r ks] assms(1,3) oir_init_spec(1,2)[where junk = junk and off = off and n = n] by auto
qed

theorem request_completes_with_last_page_witness:
  "\<exists>req. complete_all (oir_init null_status 5000 8000) [8192, 4096, 12288] = Inr ([False, False, True], req)
    \<and> oir_is_complete req"
proof -
  have num: "num_covered_pages 5000 8000 = 3" by (simp add: num_covered_pages_def next_page_off_def ROUND_PAGE_def page_bytes_def)
  have "set [1, 0, 2 :: nat] = {..<num_covered_pages 5000 8000}" by (auto simp: num)
  from request_completes_with_last_page[OF _ _ _ this, of null_status] show ?thesis
    by (simp add: ROUND_PAGE_def page_bytes_def)
qed

section \<open>Reading the file\<close>

fun keep_pages :: "original_io_request \<Rightarrow> (nat \<times> nat) list \<Rightarrow> original_io_request res" where
  "keep_pages req [] = Inr req"
| "keep_pages req ((poff, p) # xs) = bind_res (oir_complete_req req poff p) (\<lambda>req. keep_pages req xs)"

lemma complete_reqs_spec:
  assumes "oir_wf req" "set ks \<subseteq> {..<oir_pages req}"
  shows "\<exists>req'. keep_pages req (map (\<lambda>k. (oir_page_off req k, pg k)) ks) = Inr req'
    \<and> oir_wf req' \<and> oir_off req' = oir_off req \<and> oir_size req' = oir_size req
    \<and> (\<forall>k<oir_pages req. ps_pg (oir_sts req' ! k) = (if k \<in> set ks then Some (pg k) else ps_pg (oir_sts req ! k)))"
  using assms
proof (induction ks arbitrary: req)
  case (Cons k ks)
  have k: "k < oir_pages req" using Cons.prems by simp
  obtain r where r: "oir_set_page_status req (oir_page_off req k) (ps_pg_update (\<lambda>_. Some (pg k))) = Inr r"
    "oir_wf r" "oir_off r = oir_off req" "oir_size r = oir_size req"
    "oir_sts r = (oir_sts req)[k := (oir_sts req ! k)\<lparr>ps_pg := Some (pg k)\<rparr>]"
    using set_page_status_spec[OF Cons.prems(1) k] by metis
  have len: "oir_pages req \<le> length (oir_sts req)" using Cons.prems(1) by (simp add: oir_wf_def ea_wf_def)
  obtain r' where "keep_pages r (map (\<lambda>k. (oir_page_off r k, pg k)) ks) = Inr r'" "oir_wf r'"
    "oir_off r' = oir_off r" "oir_size r' = oir_size r"
    "\<forall>j<oir_pages r. ps_pg (oir_sts r' ! j) = (if j \<in> set ks then Some (pg j) else ps_pg (oir_sts r ! j))"
    using Cons.IH[OF r(2)] Cons.prems(2) r(3,4) by auto
  then show ?case using r k len
    by (intro exI[of _ r']) (auto simp: oir_complete_req_def nth_list_update)
qed simp

lemma take_pages_spec:
  assumes "ea_wf (oir_status req)" "ea_wf pages" "i + k \<le> ea_capacity (oir_status req)" "i + k \<le> ea_capacity pages"
  shows "\<exists>req' pages'. orba_take_pages k i req pages = Inr (req', pages') \<and> ea_wf pages'
    \<and> ea_capacity pages' = ea_capacity pages \<and> oir_off req' = oir_off req \<and> oir_size req' = oir_size req
    \<and> (\<forall>j<ea_capacity pages. ea_real pages' ! j
          = (if i \<le> j \<and> j < i + k then ps_pg (oir_sts req ! j) else ea_real pages ! j))"
  using assms
proof (induction k arbitrary: i req pages)
  case (Suc k)
  have i: "i < ea_capacity (oir_status req)" "i < ea_capacity pages" using Suc.prems by simp_all
  let ?st = "oir_sts req ! i"
  obtain p1 where p1: "ea_set pages i (ps_pg ?st) = Inr p1" "ea_wf p1" "ea_capacity p1 = ea_capacity pages"
    "ea_real p1 = (ea_real pages)[i := ps_pg ?st]"
    using ea_set_spec[OF Suc.prems(2) i(2)] .
  obtain s1 where s1: "ea_set (oir_status req) i (?st\<lparr>ps_pg := None\<rparr>) = Inr s1" "ea_wf s1"
    "ea_capacity s1 = ea_capacity (oir_status req)" "ea_real s1 = (oir_sts req)[i := ?st\<lparr>ps_pg := None\<rparr>]"
    using ea_set_spec[OF Suc.prems(1) i(1)] .
  let ?r = "req\<lparr>oir_status := s1\<rparr>"
  obtain r' p' where ih: "orba_take_pages k (i + 1) ?r p1 = Inr (r', p')" "ea_wf p'"
    "ea_capacity p' = ea_capacity p1" "oir_off r' = oir_off ?r" "oir_size r' = oir_size ?r"
    "\<forall>j<ea_capacity p1. ea_real p' ! j
       = (if i + 1 \<le> j \<and> j < i + 1 + k then ps_pg (oir_sts ?r ! j) else ea_real p1 ! j)"
    using Suc.IH[of ?r p1 "i + 1"] s1 p1 Suc.prems by auto
  have len: "length (ea_real pages) = ea_capacity pages" using Suc.prems(2) by (simp add: ea_wf_def)
  have "orba_take_pages (Suc k) i req pages = Inr (r', p')"
    using ih(1) i s1(1) p1(1) by (simp add: ea_get_Inr)
  moreover have "ea_real p' ! j = (if i \<le> j \<and> j < i + Suc k then ps_pg (oir_sts req ! j) else ea_real pages ! j)"
    if "j < ea_capacity pages" for j
    using ih(6) that p1(3,4) s1(4) len by (cases "j = i") (auto simp: nth_list_update)
  ultimately show ?case using ih p1(3) by (intro exI[of _ r'] exI[of _ p']) simp
qed auto

lemma orba_init_spec:
  assumes "oir_wf req" "\<forall>k<oir_pages req. ps_pg (oir_sts req ! k) = Some (pg k)"
    "\<forall>k<oir_pages req. length (frame (pg k)) = page_bytes"
  shows "\<exists>arr req'. orba_init junk req = Inr (arr, req') \<and> orba_wf (frame, arr) \<and> orba_off arr = oir_off req
    \<and> orba_size arr = oir_size req \<and> covered arr = map (\<lambda>k. Some (pg k)) [0..<oir_pages req]"
proof -
  let ?n = "oir_pages req" and ?fresh = "new_embedded_array junk"
  let ?p = "ea_resize junk ?fresh ?n"
  have p: "ea_wf ?p" "?n \<le> ea_capacity ?p"
    using ea_resize_spec(1,2)[of ?fresh junk ?n] by (simp_all add: new_embedded_wf)
  obtain r' p' where t: "orba_take_pages ?n 0 req ?p = Inr (r', p')" "ea_wf p'"
    "ea_capacity p' = ea_capacity ?p" "oir_off r' = oir_off req" "oir_size r' = oir_size req"
    "\<forall>j<ea_capacity ?p. ea_real p' ! j = (if j < ?n then ps_pg (oir_sts req ! j) else ea_real ?p ! j)"
    using take_pages_spec[of req ?p 0 ?n] assms(1) p by (auto simp: oir_wf_def)
  let ?arr = "\<lparr>orba_off = oir_off req, orba_valid = True, orba_size = oir_size req, orba_pages = p'\<rparr>"
  have init: "orba_init junk req = Inr (?arr, r')"
    using t by (simp add: orba_init_def new_original_req_byte_array_def Let_def)
  have cov: "covered ?arr = map (\<lambda>k. Some (pg k)) [0..<?n]"
  proof (rule nth_equalityI)
    show len: "length (covered ?arr) = length (map (\<lambda>k. Some (pg k)) [0..<?n])"
      using t(2,3) p(2) by (simp add: covered_def ea_wf_def orba_num_covered_pages_def)
    show "covered ?arr ! k = map (\<lambda>k. Some (pg k)) [0..<?n] ! k" if "k < length (covered ?arr)" for k
      using that len t(6) p(2) assms(2) by (simp add: covered_def orba_num_covered_pages_def)
  qed
  have "orba_wf (frame, ?arr)"
    using t(2,3) p(2) cov assms(1,3) by (auto simp: orba_wf_def oir_wf_def orba_num_covered_pages_def)
  then show ?thesis using init cov by auto
qed

lemma concat_pages:
  assumes "\<forall>k<m. f k = take page_bytes (drop (b + k * page_bytes) fdata)"
  shows "concat (map f [0..<m]) = take (m * page_bytes) (drop b fdata)"
  using assms
proof (induction m)
  case (Suc m)
  then show ?case using take_drop_append[where m = "m * page_bytes" and d = b and xs = fdata and n = page_bytes]
    by (simp add: add.commute)
qed simp

lemma release_spec:
  assumes "ea_wf pages" "i + k \<le> ea_capacity pages"
  shows "orba_release k i pages = Inr (map the (filter (\<lambda>pg. pg \<noteq> None) (take k (drop i (ea_real pages)))))"
  using assms(2)
proof (induction k arbitrary: i)
  case (Suc k)
  have "i < length (ea_real pages)" using Suc.prems assms(1) by (simp add: ea_wf_def)
  then have "drop i (ea_real pages) = ea_real pages ! i # drop (Suc i) (ea_real pages)"
    by (simp add: Cons_nth_drop_Suc)
  then show ?case using Suc by (cases "ea_real pages ! i") (simp_all add: ea_get_Inr)
qed simp

lemma destroy_spec:
  assumes "orba_wf (frame, arr)"
  shows "orba_destroy arr = Inr (map the (covered arr))"
proof -
  have w: "orba_valid arr" "ea_wf (orba_pages arr)" "0 + orba_num_covered_pages arr \<le> ea_capacity (orba_pages arr)"
    and some: "\<forall>pg\<in>set (covered arr). pg \<noteq> None"
    using assms by (auto simp: orba_wf_def)
  show ?thesis using w(1) release_spec[OF w(2,3)] some by (simp add: orba_destroy_def covered_def)
qed

text \<open>C13. A user task that asked for \<open>n\<close> bytes at \<open>off\<close> of a file, run when every page of the request
  has arrived (in any order, each page \<open>k\<close> in some frame \<open>pg k\<close>), copies from its byte array exactly the
  bytes of the file, across page borders; afterwards each page is released once.\<close>

theorem compute_reads_file:
  assumes "off + n < 2 ^ 62" "set ks = {..<num_covered_pages off n}"
    and frames: "\<forall>k<num_covered_pages off n. length (frame (pg k)) = page_bytes
      \<and> frame (pg k) = take page_bytes (drop (ROUND_PAGE off + k * page_bytes) fdata)"
    and "rel + m \<le> n"
  shows "\<exists>req req'. keep_pages (oir_init junk off n) (map (\<lambda>k. (ROUND_PAGE off + k * page_bytes, pg k)) ks) = Inr req
    \<and> oir_compute junk' (\<lambda>arr. (arr, pba_memcpy (orba_view frame arr) rel m)) req
        = Inr (Inr (take m (drop (off + rel) fdata)), map pg [0..<num_covered_pages off n], req')"
proof -
  let ?r = "oir_init junk off n" and ?num = "num_covered_pages off n"
  note init = oir_init_spec[where junk = junk and off = off and n = n]
  obtain req where req: "keep_pages ?r (map (\<lambda>k. (ROUND_PAGE off + k * page_bytes, pg k)) ks) = Inr req"
    "oir_wf req" "oir_off req = off" "oir_size req = n" "\<forall>k<?num. ps_pg (oir_sts req ! k) = Some (pg k)"
    using complete_reqs_spec[of ?r ks pg] init assms(1,2) by auto
  obtain arr req' where arr: "orba_init junk' req = Inr (arr, req')" "orba_wf (frame, arr)" "orba_off arr = off"
    "orba_size arr = n" "covered arr = map (\<lambda>k. Some (pg k)) [0..<?num]"
  proof -
    have "\<forall>k<oir_pages req. ps_pg (oir_sts req ! k) = Some (pg k)"
      "\<forall>k<oir_pages req. length (frame (pg k)) = page_bytes"
      using req(5) frames unfolding req(3,4) by blast+
    from orba_init_spec[OF req(2) this, of junk'] show thesis using that req(3,4) by blast
  qed
  have "map (\<lambda>p. frame (the p)) (covered arr) = map (\<lambda>k. frame (pg k)) [0..<?num]"
    by (simp add: arr(5))
  then have "orba_contents (frame, arr) = take n (drop (off mod page_bytes) (take (?num * page_bytes) (drop (ROUND_PAGE off) fdata)))"
    using concat_pages[of ?num "\<lambda>k. frame (pg k)" "ROUND_PAGE off" fdata] frames arr(3,4)
    by (simp add: orba_contents_def)
  also have "\<dots> = take n (drop off fdata)"
  proof -
    have "off mod page_bytes + ROUND_PAGE off = off" by (simp add: ROUND_PAGE_def)
    then show ?thesis using covered_reach[of off n] by (simp add: drop_take min_def)
  qed
  finally have c: "orba_contents (frame, arr) = take n (drop off fdata)" .
  have len: "length (orba_contents (frame, arr)) = n" using length_orba_contents[OF arr(2)] arr(4) by simp
  have read: "pba_memcpy (orba_view frame arr) rel m = Inr (take m (drop (off + rel) fdata))"
  proof -
    have "pba_memcpy (orba_view frame arr) rel m = Inr (take m (drop rel (orba_contents (frame, arr))))"
      using orba.memcpy_reads[OF arr(2), of rel m] len assms(4) by simp
    then show ?thesis using assms(4) by (simp add: c drop_take min_def add.commute)
  qed
  have "orba_destroy arr = Inr (map pg [0..<?num])"
    unfolding destroy_spec[OF arr(2)] arr(5) by simp
  then have "oir_compute junk' (\<lambda>arr. (arr, pba_memcpy (orba_view frame arr) rel m)) req
        = Inr (Inr (take m (drop (off + rel) fdata)), map pg [0..<?num], req')"
    using arr(1) read by (simp add: oir_compute_def)
  then show ?thesis using req(1) by blast
qed

lemma drop_replicate_append: "n \<le> m \<Longrightarrow> drop n (replicate m x @ ys) = replicate (m - n) x @ ys"
  by simp

theorem compute_reads_file_witness:
  "\<exists>req req'. keep_pages (oir_init null_status 4090 10) [(4096, 3), (0, 7)] = Inr req
    \<and> oir_compute None (\<lambda>arr. (arr, pba_memcpy (orba_view
          (\<lambda>p. if p = 7 then replicate 4096 1 else replicate 4096 2) arr) 4 4)) req
        = Inr (Inr [1, 1, 2, 2], [7, 3], req')"
proof -
  have num: "num_covered_pages 4090 10 = 2"
    by (simp add: num_covered_pages_def next_page_off_def ROUND_PAGE_def page_bytes_def)
  let ?frame = "\<lambda>p. if p = 7 then replicate 4096 1 else replicate 4096 (2 :: byte)"
  let ?pg = "\<lambda>k :: nat. if k = 0 then 7 else 3 :: nat"
  let ?f = "replicate 4096 1 @ replicate 4096 (2 :: byte)"
  have ks: "set [1, 0 :: nat] = {..<num_covered_pages 4090 10}" by (auto simp: num)
  have fr: "\<forall>k<num_covered_pages 4090 10. length (?frame (?pg k)) = page_bytes
      \<and> ?frame (?pg k) = take page_bytes (drop (ROUND_PAGE 4090 + k * page_bytes) ?f)"
    unfolding num by (auto simp: less_2_cases_iff ROUND_PAGE_def page_bytes_def)
  have tk: "take 4 (drop (4090 + 4) ?f) = [1, 1, 2, 2 :: byte]"
    by (simp add: numeral_eq_Suc)
  have up: "map ?pg [0..<2] = [7, 3]" by (simp add: upt_rec)
  from compute_reads_file[where frame = ?frame and pg = ?pg and fdata = ?f, OF _ ks fr, of 4 4 null_status None]
  show ?thesis
    unfolding num tk up by (simp add: ROUND_PAGE_def page_bytes_def)
qed

lemma small_array:
  fixes arr
  defines "arr \<equiv> \<lparr>orba_off = 8, orba_valid = True, orba_size = 24, orba_pages = new_embedded_array (Some 0)\<rparr>"
  shows "orba_wf (\<lambda>_. replicate 4096 5, arr)" "covered arr = [Some 0]"
    "orba_contents (\<lambda>_. replicate 4096 5, arr) = replicate 24 5"
proof -
  have num: "orba_num_covered_pages arr = 1"
    by (simp add: arr_def orba_num_covered_pages_def num_covered_pages_def next_page_off_def ROUND_PAGE_def page_bytes_def)
  show cov: "covered arr = [Some 0]"
    unfolding covered_def num by (simp add: arr_def new_embedded_wf EMBEDDED_SIZE_def numeral_eq_Suc)
  show "orba_wf (\<lambda>_. replicate 4096 5, arr)"
    unfolding orba_wf_def using cov num by (simp add: arr_def new_embedded_wf EMBEDDED_SIZE_def page_bytes_def)
  show "orba_contents (\<lambda>_. replicate 4096 5, arr) = replicate 24 5"
    unfolding orba_contents_def prod.case cov by (simp add: arr_def page_bytes_def)
qed

section \<open>Cloning\<close>

text \<open>C29. Cloning the array of a request moves the page references: the clone reads the same bytes and
  releases every page, destroying the array that was cloned releases none.\<close>

theorem clone_moves_pages:
  assumes "orba_wf (frame, arr)"
  shows "case orba_clone junk arr of (new, old) \<Rightarrow>
      orba_destroy old = Inr [] \<and> orba_destroy new = orba_destroy arr
    \<and> (\<forall>rel m. pba_memcpy (orba_view frame new) rel m = pba_memcpy (orba_view frame arr) rel m)"
proof -
  let ?n = "fst (orba_clone junk arr)" and ?o = "snd (orba_clone junk arr)"
  have a: "ea_real (orba_pages ?n) = ea_real (orba_pages arr)" "ea_wf (orba_pages ?n)"
    "ea_capacity (orba_pages ?n) = ea_capacity (orba_pages arr)"
    using ea_assign_spec[of "new_embedded_array junk" "orba_pages arr" None] assms new_embedded_wf[of junk]
    by (simp_all add: orba_clone_def orba_assign_def new_original_req_byte_array_def orba_wf_def
      new_embedded_array_def case_prod_unfold Let_def)
  have f: "orba_off ?n = orba_off arr" "orba_size ?n = orba_size arr" "orba_valid ?n" "\<not> orba_valid ?o"
    by (simp_all add: orba_clone_def orba_assign_def case_prod_unfold Let_def)
  have cov: "covered ?n = covered arr" using a f by (simp add: covered_def orba_num_covered_pages_def)
  have "orba_wf (frame, ?n)" using assms(1) a f cov by (simp add: orba_wf_def orba_num_covered_pages_def)
  then have "orba_destroy ?n = orba_destroy arr" using assms(1) cov by (simp add: destroy_spec)
  moreover have "orba_destroy ?o = Inr []" using f by (simp add: orba_destroy_def)
  moreover have "orba_view frame ?n = orba_view frame arr"
    using a f by (simp add: orba_view_def ea_get_def)
  ultimately show ?thesis by (simp add: case_prod_unfold)
qed

theorem clone_moves_pages_witness:
  "case orba_clone None \<lparr>orba_off = 8, orba_valid = True, orba_size = 24, orba_pages = new_embedded_array (Some 0)\<rparr>
   of (new, old) \<Rightarrow> orba_destroy old = Inr [] \<and> orba_destroy new = Inr [0]"
  using clone_moves_pages[OF small_array(1), of None] destroy_spec[OF small_array(1)] small_array(2)
  by (auto split: prod.splits)

section \<open>Iteration\<close>

text \<open>C24. Over any byte array of a request, the \<^verbatim>\<open>PAGE_FOREACH\<close> loop, the loop that asks for each next
  element and the loop over a pair of random-access iterators all end and visit the same elements:
  the consecutive elements of the range, although the inner loop of \<^verbatim>\<open>PAGE_FOREACH\<close> stops before the
  page is exhausted.\<close>

theorem iterations_agree:
  assumes w: "orba_wf (frame, arr)" and sz: "0 < sz" "sz dvd page_bytes"
    and range: "byte_off + n * sz \<le> orba_size arr" "sz dvd orba_off arr + byte_off" and fuel: "n < fuel"
  defines "elements \<equiv> elems sz (orba_contents (frame, arr)) byte_off n"
  shows "bind_res (pba_get_seq_iterator (orba_view frame arr) sz byte_off (byte_off + n * sz))
      (\<lambda>it. page_foreach fuel sz it []) = Inr elements
    \<and> bind_res (pba_get_seq_iterator (orba_view frame arr) sz byte_off (byte_off + n * sz))
      (\<lambda>it. seq_loop fuel sz it []) = Inr elements
    \<and> bind_res (pba_get_iterator (orba_view frame arr) sz byte_off (byte_off + n * sz))
      (\<lambda>(it, stop). ci_loop fuel sz it stop []) = Inr elements"
proof -
  let ?v = "orba_view frame arr" let ?f = "pba_first ?v"
  have first: "?f = orba_off arr mod page_bytes" by (simp add: orba_view_def)
  have al: "sz dvd ?f + byte_off"
  proof -
    have "sz dvd orba_off arr mod page_bytes + byte_off + orba_off arr div page_bytes * page_bytes"
      using range(2) by (simp add: add.commute add.left_commute)
    then show ?thesis unfolding first using sz(2) by (metis dvd_add_left_iff dvd_mult)
  qed
  have size_v: "pba_size ?v = orba_size arr" by (simp add: orba_view_def)
  have le: "byte_off + n * sz \<le> length (orba_contents (frame, arr))"
    using range(1) length_orba_contents[OF w] by simp
  obtain it where it: "new_seq_const_iterator ?v sz byte_off (byte_off + n * sz) = Inr it"
    "orba.seq_at (frame, arr) sz it byte_off n"
    using orba.new_seq_spec[OF w sz le] al by auto
  have loops: "page_foreach fuel sz it [] = Inr elements" "seq_loop fuel sz it [] = Inr elements"
    using orba.page_foreach_reads[OF w sz it(2) fuel, of "[]"] orba.seq_loop_reads[OF w sz it(2) fuel, of "[]"]
    by (simp_all add: elements_def)
  have al2: "sz dvd ?f + (byte_off + n * sz)" using al by (simp add: add.assoc[symmetric])
  have sz64: "byte_off + n * sz < 2 ^ 64" using le orba.bound_law[OF w] by simp
  have "pba_get_iterator ?v sz byte_off (byte_off + n * sz)
      = Inr (\<lparr>ci_arr = ?v, ci_off = ?f + byte_off, ci_end = ?f + (byte_off + n * sz)\<rparr>,
             \<lparr>ci_arr = ?v, ci_off = ?f + (byte_off + n * sz), ci_end = ?f + (byte_off + n * sz)\<rparr>)"
    using al al2 range(1) sz(2) sz64 size_v
    by (simp add: pba_get_iterator_def new_const_iterator_def elements_fit_dvd unsigned_diff_eq Let_def)
  moreover have "ci_loop fuel sz \<lparr>ci_arr = ?v, ci_off = ?f + byte_off, ci_end = ?f + (byte_off + n * sz)\<rparr>
      \<lparr>ci_arr = ?v, ci_off = ?f + (byte_off + n * sz), ci_end = ?f + (byte_off + n * sz)\<rparr> [] = Inr elements"
    using orba.ci_loop_reads[OF w sz, of _ byte_off _ n fuel "[]"] le al fuel by (simp add: elements_def)
  ultimately show ?thesis using it loops by (simp add: pba_get_seq_iterator_def)
qed

theorem iterations_agree_witness:
  "bind_res (pba_get_seq_iterator (orba_view (\<lambda>_. replicate 4096 5)
      \<lparr>orba_off = 8, orba_valid = True, orba_size = 24, orba_pages = new_embedded_array (Some 0)\<rparr>) 4 4 (4 + 3 * 4))
    (\<lambda>it. page_foreach 4 4 it []) = Inr (replicate 3 (replicate 4 5))"
proof -
  have e: "elems 4 (replicate 24 5) 4 3 = replicate 3 (replicate 4 (5 :: byte))"
    by (simp add: numeral_eq_Suc)
  have "(4 :: nat) dvd page_bytes" by (simp add: page_bytes_def)
  from iterations_agree[OF small_array(1) _ this, of 4 3 4] show ?thesis
    unfolding small_array(3) e by simp
qed

text \<open>The number of remaining elements that the sequential iterator reports does not change when an
  element is taken.\<close>

lemma num_tot_entries_ignores_next:
  "sci_next sz it = Inr (e, it') \<Longrightarrow> sci_num_tot_entries sz it' = sci_num_tot_entries sz it"
  by (auto simp: sci_next_def sci_num_tot_entries_def res_simps)

text \<open>The distance of random-access iterators: right when the first one is behind the second, a huge number
  when it is one element in front of it.\<close>

lemma distance_forward:
  assumes "ci_off it = ci_off it' + n * sz" "0 < sz" "ci_off it < 2 ^ 63"
  shows "ci_distance sz it it' = int n"
proof -
  have "unsigned_diff (ci_off it) (ci_off it') = n * sz" using assms by (subst unsigned_diff_eq) auto
  moreover have "n \<le> n * sz" using assms(2) by simp
  then have "n < 2 ^ 63" using assms(1,3) by linarith
  ultimately show ?thesis using assms(2) by (simp add: ci_distance_def int64_id)
qed

lemma distance_backward:
  assumes "ci_off it' = ci_off it + 4"
  shows "ci_distance 4 it it' = 2 ^ 62 - 1"
proof -
  have "(int (ci_off it) - int (ci_off it')) mod 2 ^ 64 = 2 ^ 64 - 4" using assms by simp
  then show ?thesis unfolding ci_distance_def unsigned_diff_def by (simp add: int64_id)
qed

end
