(* ===== verification/Ext_Vertex_Props.thy ===== *)
theory Ext_Vertex_Props
  imports Ext_Vertex_Laws Page_Arrays_Props
begin

text \<open>
  Round trips of vertices through the file format, and the alignment that the iterators over edge data
  assert.
\<close>

section \<open>Sizes\<close>

text \<open>The number of edges that is computed from the size of a vertex in the file is the number the
  size was computed from, for every size of edge data, padding included, as long as the data of the
  edges is smaller than 4 GB.\<close>

theorem vertex_size_round_trip:
  assumes "n < 2 ^ 32" "e < 2 ^ 32" "n * e < 2 ^ 32"
  shows "vsize2num_edges (num_edges2vsize n e) e = n"
  by (rule vsize2num_edges_inverse[OF assms])

theorem vertex_size_round_trip_witness: "vsize2num_edges (num_edges2vsize 5 12) 12 = 5"
  using vertex_size_round_trip[of 5 12] by simp

text \<open>The product of the number and the size is a 32-bit number: half a billion edges with 8 bytes each
  get the size of a vertex whose edges carry no data.\<close>

lemma vertex_size_overflow: "num_edges2vsize (2 ^ 29) 8 = 2 ^ 31 + 16"
proof -
  have "ROUNDUP (2 ^ 31 + 12) (2 ^ 3) = 2 ^ 31 + 16" "ROUNDUP (2 ^ 31 + 16) (2 ^ 2) = 2 ^ 31 + 16"
    unfolding ROUNDUP_eq by simp_all
  then show ?thesis
    by (simp add: num_edges2vsize_def emv_get_size_def emv_has_edge_data_def emv_edge_data_addr_def
      emv_get_size0_def emv_header_size_def new_ext_mem_undirected_vertex_def u32_def)
qed

section \<open>Alignment\<close>

lemma ROUNDUP_dvd: "2 ^ k dvd ROUNDUP n (2 ^ k)"
  by (simp add: ROUNDUP_eq)

lemma ROUNDUP_id: "2 ^ k dvd n \<Longrightarrow> ROUNDUP n (2 ^ k) = n"
  using ROUNDUP_bounds[of "2 ^ k" n] ROUNDUP_dvd[of k n]
  by (metis add_diff_inverse_nat dvd_diffD1 dvd_imp_le le_add_diff_inverse less_diff_conv2 linorder_not_less
    nat_less_le zero_less_numeral zero_less_power zero_less_diff dvd_diff_nat add.commute)

text \<open>With edge data whose size is a power of two, every vertex size is a multiple of that size and
  of four, and so is the place of the edge data in the vertex: in a file of vertices behind a
  page-sized header no element of edge data crosses a page border.\<close>

theorem vertices_stay_aligned:
  assumes "e = 2 ^ k" "n < 2 ^ 32" "e < 2 ^ 32" "n * e < 2 ^ 32"
  shows "e dvd num_edges2vsize n e \<and> 4 dvd num_edges2vsize n e \<and> e dvd get_edge_data_offset n e"
proof -
  let ?v = "new_ext_mem_undirected_vertex 0 n e"
  have v: "emv_num_edges ?v = n" "emv_edge_data_size ?v = e" "emv_get_size0 ?v = 12 + 4 * n"
    using assms by (simp_all add: new_ext_mem_undirected_vertex_def u32_id emv_get_size0_def emv_header_size_def)
  have a: "get_edge_data_offset n e = ROUNDUP (12 + 4 * n) e"
    by (simp add: get_edge_data_offset_def emv_edge_data_addr_def v)
  have s: "num_edges2vsize n e = ROUNDUP (ROUNDUP (12 + 4 * n) e + n * e) (2 ^ 2)"
    using v assms by (simp add: num_edges2vsize_def emv_get_size_def emv_has_edge_data_def emv_edge_data_addr_def u32_id)
  have off: "e dvd ROUNDUP (12 + 4 * n) e" unfolding assms(1) by (rule ROUNDUP_dvd)
  have four: "4 dvd num_edges2vsize n e" unfolding s using ROUNDUP_dvd[of 2] by simp
  have "e dvd num_edges2vsize n e"
  proof (cases "k \<le> 2")
    case True
    then have "e dvd 4" using le_imp_power_dvd[of k 2 "2 :: nat"] assms(1) by simp
    then show ?thesis using four dvd_trans by blast
  next
    case False
    then have "2 ^ 2 dvd e" unfolding assms(1) by (intro le_imp_power_dvd) simp
    moreover have "e dvd ROUNDUP (12 + 4 * n) e + n * e" using off by simp
    ultimately show ?thesis unfolding s by (simp only: ROUNDUP_id dvd_trans)
  qed
  then show ?thesis using four off a by simp
qed

theorem vertices_stay_aligned_witness:
  "8 dvd num_edges2vsize 3 8 \<and> 4 dvd num_edges2vsize 3 8 \<and> 8 dvd get_edge_data_offset 3 8"
  using vertices_stay_aligned[of 8 3 3] by simp

section \<open>Round trips\<close>

definition iuv_wf :: "nat \<Rightarrow> in_mem_undirected_vertex \<Rightarrow> bool" where
  "iuv_wf ds v \<longleftrightarrow> iuv_id v < 2 ^ 32 \<and> length (iuv_edges v) < 2 ^ 32 \<and> (\<forall>x\<in>set (iuv_edges v). x < 2 ^ 32)
   \<and> (iuv_has_data v \<longrightarrow> 0 < ds \<and> ds < 2 ^ 32 \<and> length (iuv_edges v) * ds < 2 ^ 32
        \<and> length (iuv_data_arr v) = length (iuv_edges v) \<and> (\<forall>d\<in>set (iuv_data_arr v). length d = ds))
   \<and> (\<not> iuv_has_data v \<longrightarrow> iuv_data_arr v = [])"

lemma undirected_part:
  assumes "iuv_wf ds v"
  shows "vertex_part (undirected_vertex ds v) t (iuv_edges v) (concat (iuv_data_arr v)) (if iuv_has_data v then ds else 0)"
    "iuv_serialize_size ds v = num_edges2vsize (length (iuv_edges v)) (if iuv_has_data v then ds else 0)"
proof -
  have "iuv_has_data v \<Longrightarrow> length (concat (iuv_data_arr v)) = length (iuv_edges v) * ds"
    using assms concat_uniform(1)[of "iuv_data_arr v" ds] by (simp add: iuv_wf_def)
  then show "vertex_part (undirected_vertex ds v) t (iuv_edges v) (concat (iuv_data_arr v)) (if iuv_has_data v then ds else 0)"
    using assms by (auto simp: vertex_part_def undirected_vertex_def iuv_wf_def)
qed (simp add: iuv_serialize_size_def num_edges2vsize_def)

lemma vertex_part_bounds:
  assumes "vertex_part v t es d e"
  shows "imv_id v < 2 ^ 32" "e < 2 ^ 32" "length es < 2 ^ 32" "length es * e < 2 ^ 32" "\<forall>x\<in>set es. x < 2 ^ 32"
  using assms unfolding vertex_part_def by blast+

text \<open>C28. An undirected vertex that is written to a buffer and read back through the byte array of a
  request, in whatever pages its bytes have come to lie, has the same id, the same neighbours in the
  same order and, where its data is aligned, the same data of the edges.\<close>

theorem undirected_vertex_round_trip:
  assumes wf: "iuv_wf ds v" and len: "iuv_serialize_size ds v \<le> length buf" "iuv_serialize_size ds v < 2 ^ 32"
  shows "\<exists>buf'. emv_serialize (undirected_vertex ds v) buf t = Inr (iuv_serialize_size ds v, buf')
    \<and> (\<forall>frame arr. orba_wf (frame, arr) \<and> orba_contents (frame, arr) = take (iuv_serialize_size ds v) buf' \<longrightarrow>
        (\<exists>pv. new_page_undirected_vertex (orba_view frame arr) = Inr pv \<and> puv_id pv = iuv_id v
           \<and> puv_read_edges pv (length (iuv_edges v)) = Inr (iuv_edges v)
           \<and> (iuv_has_data v \<and> ds dvd page_bytes \<and> ds dvd orba_off arr + get_edge_data_offset (length (iuv_edges v)) ds \<longrightarrow>
                bind_res (puv_data_seq_it ds pv 0 (length (iuv_edges v)))
                  (\<lambda>it. seq_loop (Suc (length (iuv_edges v))) ds it []) = Inr (iuv_data_arr v))))"
proof -
  let ?es = "iuv_edges v" and ?d = "concat (iuv_data_arr v)" and ?e = "if iuv_has_data v then ds else 0"
  let ?s = "iuv_serialize_size ds v"
  note part = undirected_part[OF wf] note b = vertex_part_bounds[OF part(1)]
  obtain buf' where buf': "emv_serialize (undirected_vertex ds v) buf t = Inr (?s, buf')" "vertex_bytes buf' (iuv_id v) ?es ?d ?e"
    using serialize_layout[OF part(1), of buf t] len(1) part(2) by (auto simp: undirected_vertex_def)
  have vb: "vertex_bytes (take ?s buf') (iuv_id v) ?es ?d ?e"
    using vertex_bytes_take[OF buf'(2) b(3,2,4)] part(2) by simp
  have "\<exists>pv. new_page_undirected_vertex (orba_view frame arr) = Inr pv \<and> puv_id pv = iuv_id v
      \<and> puv_read_edges pv (length ?es) = Inr ?es
      \<and> (iuv_has_data v \<and> ds dvd page_bytes \<and> ds dvd orba_off arr + get_edge_data_offset (length ?es) ds \<longrightarrow>
           bind_res (puv_data_seq_it ds pv 0 (length ?es)) (\<lambda>it. seq_loop (Suc (length ?es)) ds it []) = Inr (iuv_data_arr v))"
    if w: "orba_wf (frame, arr)" and c: "orba_contents (frame, arr) = take ?s buf'" for frame arr
  proof -
    have id: "iuv_id v < 2 ^ 32" using wf by (simp add: iuv_wf_def)
    note vb' = vb[folded c]
    have lc: "length (orba_contents (frame, arr)) < 2 ^ 32" using c len(2) by simp
    obtain pv where pv: "new_page_undirected_vertex (orba_view frame arr) = Inr pv" "puv_id pv = iuv_id v"
      "puv_num_edges pv = length ?es" "puv_array pv = orba_view frame arr" "puv_read_edges pv (length ?es) = Inr ?es"
      using orba.page_undirected_reads[OF w vb' id b(2-5) lc, of "length ?es"] by (simp only: prod.case) blast
    have "bind_res (puv_data_seq_it ds pv 0 (length ?es)) (\<lambda>it. seq_loop (Suc (length ?es)) ds it []) = Inr (iuv_data_arr v)"
      if h: "iuv_has_data v" "ds dvd page_bytes" "ds dvd orba_off arr + get_edge_data_offset (length ?es) ds"
    proof -
      have f: "pba_first (orba_view frame arr) = orba_off arr mod page_bytes" by (simp add: orba_view_def)
      have "ds dvd orba_off arr mod page_bytes + get_edge_data_offset (length ?es) ds"
        using h(2,3) by (metis dvd_add_left_iff dvd_mod_iff dvd_add_right_iff mod_add_left_eq dvd_mod_imp_dvd dvd_mod)
      moreover have "\<forall>x\<in>set (iuv_data_arr v). length x = ds" "length (iuv_data_arr v) = length ?es" "0 < ds"
        using wf h(1) by (simp_all add: iuv_wf_def)
      ultimately show ?thesis
        using orba.data_reads[OF w, of "iuv_id v" ?es "iuv_data_arr v" ds "Suc (length ?es)"] vb' h(1,2) b pv(3,4) f
        by (simp add: puv_data_seq_it_def Let_def del: seq_loop.simps)
    qed
    then show ?thesis using pv by blast
  qed
  then show ?thesis using buf'(1) by blast
qed

theorem undirected_vertex_round_trip_witness:
  "\<exists>buf'. emv_serialize (undirected_vertex 4 \<lparr>iuv_has_data = False, iuv_id = 7, iuv_edges = [3, 9], iuv_data_arr = []\<rparr>)
      (replicate 40 0) IN_EDGE = Inr (20, buf')"
proof -
  let ?v = "\<lparr>iuv_has_data = False, iuv_id = 7, iuv_edges = [3, 9], iuv_data_arr = []\<rparr>"
  have "iuv_serialize_size 4 ?v = 20"
    by (simp add: iuv_serialize_size_def emv_get_size_def emv_has_edge_data_def emv_header_size_def
      new_ext_mem_undirected_vertex_def u32_def)
  moreover have "iuv_wf 4 ?v" by (simp add: iuv_wf_def)
  ultimately show ?thesis using undirected_vertex_round_trip[of 4 ?v "replicate 40 0" IN_EDGE] by auto
qed

definition idv_wf :: "nat \<Rightarrow> in_mem_directed_vertex \<Rightarrow> bool" where
  "idv_wf ds v \<longleftrightarrow>
     iuv_wf ds \<lparr>iuv_has_data = idv_has_data v, iuv_id = idv_id v, iuv_edges = idv_in_edges v, iuv_data_arr = idv_in_data v\<rparr>
   \<and> iuv_wf ds \<lparr>iuv_has_data = idv_has_data v, iuv_id = idv_id v, iuv_edges = idv_out_edges v, iuv_data_arr = idv_out_data v\<rparr>"

lemma directed_part:
  assumes "idv_wf ds v"
  shows "vertex_part (directed_vertex ds v) IN_EDGE (idv_in_edges v) (concat (idv_in_data v)) (if idv_has_data v then ds else 0)"
    "vertex_part (directed_vertex ds v) OUT_EDGE (idv_out_edges v) (concat (idv_out_data v)) (if idv_has_data v then ds else 0)"
  using assms undirected_part(1)[of ds "\<lparr>iuv_has_data = idv_has_data v, iuv_id = idv_id v, iuv_edges = idv_in_edges v, iuv_data_arr = idv_in_data v\<rparr>" IN_EDGE]
    undirected_part(1)[of ds "\<lparr>iuv_has_data = idv_has_data v, iuv_id = idv_id v, iuv_edges = idv_out_edges v, iuv_data_arr = idv_out_data v\<rparr>" OUT_EDGE]
  by (simp_all add: idv_wf_def vertex_part_def undirected_vertex_def directed_vertex_def idv_get_num_edges_def)

lemma serialize_then_read:
  assumes p: "vertex_part v t es d e" and len: "num_edges2vsize (length es) e \<le> length buf"
  shows "\<exists>buf'. emv_serialize v buf t = Inr (num_edges2vsize (length es) e, buf')
    \<and> (\<forall>frame arr. orba_wf (frame, arr) \<and> orba_contents (frame, arr) = take (num_edges2vsize (length es) e) buf' \<longrightarrow>
        pdv_header (orba_view frame arr) = Inr \<lparr>emv_id = imv_id v, emv_edge_data_size = e, emv_num_edges = length es\<rparr>
      \<and> num_edges2vsize (length es) e \<le> pba_size (orba_view frame arr)
      \<and> bind_res (pba_memcpy (orba_view frame arr) 12 (4 * length es)) (\<lambda>bs. Inr (u32s_of (length es) bs)) = Inr es)"
proof -
  note b = vertex_part_bounds[OF p]
  obtain buf' where buf': "emv_serialize v buf t = Inr (num_edges2vsize (length es) e, buf')" "vertex_bytes buf' (imv_id v) es d e"
    using serialize_layout[OF p len] by blast
  have vb: "vertex_bytes (take (num_edges2vsize (length es) e) buf') (imv_id v) es d e"
    by (rule vertex_bytes_take[OF buf'(2) b(3,2,4)])
  have "pdv_header (orba_view frame arr) = Inr \<lparr>emv_id = imv_id v, emv_edge_data_size = e, emv_num_edges = length es\<rparr>
      \<and> num_edges2vsize (length es) e \<le> pba_size (orba_view frame arr)
      \<and> bind_res (pba_memcpy (orba_view frame arr) 12 (4 * length es)) (\<lambda>bs. Inr (u32s_of (length es) bs)) = Inr es"
    if w: "orba_wf (frame, arr)" and c: "orba_contents (frame, arr) = take (num_edges2vsize (length es) e) buf'" for frame arr
    using orba.page_header_reads[OF w vb[folded c] b(1-4)] orba.get_header(4)[OF w vb[folded c] b(1-4)]
      orba.memcpy_edges[OF w vb[folded c] b(2-5)] by simp
  then show ?thesis using buf'(1) by blast
qed

text \<open>C17. A directed vertex is written as two vertices, one with its in-edges and one with its out-edges. Read
  back through two byte arrays it has the same id and the same neighbours in both directions; without
  edge data the vertex built from the pages is the vertex that was written.\<close>

theorem directed_vertex_round_trip:
  assumes wf: "idv_wf ds v" and "idv_serialize_size ds v IN_EDGE = Inr si" "si \<le> length ibuf"
    "idv_serialize_size ds v OUT_EDGE = Inr so" "so \<le> length obuf"
  shows "\<exists>ib ob. emv_serialize (directed_vertex ds v) ibuf IN_EDGE = Inr (si, ib)
    \<and> emv_serialize (directed_vertex ds v) obuf OUT_EDGE = Inr (so, ob)
    \<and> (\<forall>frame ia oa. orba_wf (frame, ia) \<and> orba_contents (frame, ia) = take si ib
         \<and> orba_wf (frame, oa) \<and> orba_contents (frame, oa) = take so ob \<longrightarrow>
        (\<exists>pv. new_page_directed_vertex (orba_view frame ia) (orba_view frame oa) = Inr pv \<and> pdv_id pv = idv_id v
           \<and> pdv_read_edges pv IN_EDGE (length (idv_in_edges v)) = Inr (idv_in_edges v)
           \<and> pdv_read_edges pv OUT_EDGE (length (idv_out_edges v)) = Inr (idv_out_edges v)
           \<and> (\<not> idv_has_data v \<longrightarrow> idv_of_page pv False = Inr v)))"
proof -
  let ?e = "if idv_has_data v then ds else 0" and ?i = "idv_in_edges v" and ?o = "idv_out_edges v"
  note part = directed_part[OF wf]
  note bi = vertex_part_bounds[OF part(1)] and bo = vertex_part_bounds[OF part(2)]
  have s: "si = num_edges2vsize (length ?i) ?e" "so = num_edges2vsize (length ?o) ?e"
    using assms(2,4) by (simp_all add: idv_serialize_size_def num_edges2vsize_def)
  have vid: "imv_id (directed_vertex ds v) = idv_id v" by (simp add: directed_vertex_def)
  obtain ib ob where b: "emv_serialize (directed_vertex ds v) ibuf IN_EDGE = Inr (si, ib)"
    "emv_serialize (directed_vertex ds v) obuf OUT_EDGE = Inr (so, ob)"
    and ri: "\<And>frame arr. orba_wf (frame, arr) \<Longrightarrow> orba_contents (frame, arr) = take si ib \<Longrightarrow>
        pdv_header (orba_view frame arr) = Inr \<lparr>emv_id = idv_id v, emv_edge_data_size = ?e, emv_num_edges = length ?i\<rparr>
      \<and> si \<le> pba_size (orba_view frame arr)
      \<and> bind_res (pba_memcpy (orba_view frame arr) 12 (4 * length ?i)) (\<lambda>bs. Inr (u32s_of (length ?i) bs)) = Inr ?i"
    and ro: "\<And>frame arr. orba_wf (frame, arr) \<Longrightarrow> orba_contents (frame, arr) = take so ob \<Longrightarrow>
        pdv_header (orba_view frame arr) = Inr \<lparr>emv_id = idv_id v, emv_edge_data_size = ?e, emv_num_edges = length ?o\<rparr>
      \<and> so \<le> pba_size (orba_view frame arr)
      \<and> bind_res (pba_memcpy (orba_view frame arr) 12 (4 * length ?o)) (\<lambda>bs. Inr (u32s_of (length ?o) bs)) = Inr ?o"
    using serialize_then_read[OF part(1), of ibuf] serialize_then_read[OF part(2), of obuf] assms(3,5)
    unfolding s[symmetric] vid by blast
  have z: "emv_get_size \<lparr>emv_id = idv_id v, emv_edge_data_size = ?e, emv_num_edges = length ?i\<rparr> = si"
    "emv_get_size \<lparr>emv_id = idv_id v, emv_edge_data_size = ?e, emv_num_edges = length ?o\<rparr> = so"
    unfolding s by (rule size_of_header[OF bi(3,2)], rule size_of_header[OF bo(3,2)])
  have "\<exists>pv. new_page_directed_vertex (orba_view frame ia) (orba_view frame oa) = Inr pv \<and> pdv_id pv = idv_id v
      \<and> pdv_read_edges pv IN_EDGE (length ?i) = Inr ?i \<and> pdv_read_edges pv OUT_EDGE (length ?o) = Inr ?o
      \<and> (\<not> idv_has_data v \<longrightarrow> idv_of_page pv False = Inr v)"
    if h: "orba_wf (frame, ia)" "orba_contents (frame, ia) = take si ib"
       "orba_wf (frame, oa)" "orba_contents (frame, oa) = take so ob" for frame ia oa
  proof -
    let ?pv = "\<lparr>pdv_id = idv_id v, pdv_num_in_edges = length ?i, pdv_num_out_edges = length ?o,
      pdv_in_size = si, pdv_out_size = so,
      pdv_in_array = Some (orba_view frame ia), pdv_out_array = Some (orba_view frame oa)\<rparr>"
    have "new_page_directed_vertex (orba_view frame ia) (orba_view frame oa) = Inr ?pv"
      using ri[OF h(1,2)] ro[OF h(3,4)] z by (simp add: new_page_directed_vertex_def)
    moreover have rd: "pdv_read_edges ?pv IN_EDGE (length ?i) = Inr ?i" "pdv_read_edges ?pv OUT_EDGE (length ?o) = Inr ?o"
      using ri[OF h(1,2)] ro[OF h(3,4)] by (simp_all add: pdv_read_edges_def pdv_array_def emv_header_size_def)
    moreover have "\<not> idv_has_data v \<Longrightarrow> idv_of_page ?pv False = Inr v"
      using rd wf by (auto simp: idv_of_page_def idv_wf_def iuv_wf_def)
    ultimately show ?thesis by (intro exI[of _ ?pv]) simp
  qed
  then show ?thesis using b by blast
qed

theorem directed_vertex_round_trip_witness:
  "\<exists>ib ob. emv_serialize (directed_vertex 4 \<lparr>idv_id = 7, idv_has_data = False, idv_out_edges = [1], idv_in_edges = [3, 9],
        idv_out_data = [], idv_in_data = []\<rparr>) (replicate 40 0) IN_EDGE = Inr (20, ib)
    \<and> emv_serialize (directed_vertex 4 \<lparr>idv_id = 7, idv_has_data = False, idv_out_edges = [1], idv_in_edges = [3, 9],
        idv_out_data = [], idv_in_data = []\<rparr>) (replicate 40 0) OUT_EDGE = Inr (16, ob)"
proof -
  let ?v = "\<lparr>idv_id = 7, idv_has_data = False, idv_out_edges = [1], idv_in_edges = [3, 9], idv_out_data = [], idv_in_data = []\<rparr>"
  have "idv_serialize_size 4 ?v IN_EDGE = Inr 20" "idv_serialize_size 4 ?v OUT_EDGE = Inr 16"
    by (simp_all add: idv_serialize_size_def emv_get_size_def emv_has_edge_data_def emv_header_size_def
      new_ext_mem_undirected_vertex_def u32_def)
  moreover have "idv_wf 4 ?v" by (simp add: idv_wf_def iuv_wf_def)
  ultimately show ?thesis using directed_vertex_round_trip[of 4 ?v 20 "replicate 40 0" 16 "replicate 40 0"] by auto
qed

end
