(* ===== verification/Vertex_Index.thy ===== *)
theory Vertex_Index
  imports Ext_Vertex
begin

text \<open>
  The vertex index (\<^verbatim>\<open>flash-graph/vertex_index.h\<close>, \<^verbatim>\<open>vertex_index.cpp\<close>, \<^verbatim>\<open>graph_file_header.h\<close>): where in
  the graph file a vertex lies. The plain index holds the offset of every vertex and of the end; the
  compressed index holds, for each group of 32 vertices, the offset of the first and one byte with the
  number of edges for each, and a table of the vertices with 255 edges or more. An index in a file or a
  buffer is its header and its arrays; reading behind an array is undefined behaviour.
\<close>

section \<open>The header of a graph\<close>

datatype graph_type = DIRECTED | UNDIRECTED | TS_DIRECTED | TS_UNDIRECTED

definition MAGIC_NUMBER :: int where
  "MAGIC_NUMBER = 0x123456789ABCDEF"

definition CURR_VERSION :: int where
  "CURR_VERSION = 4"

definition HEADER_SIZE :: nat where
  "HEADER_SIZE = 4096"

record graph_header =
  gh_magic_number :: int
  gh_version_number :: int
  gh_type :: graph_type
  gh_num_vertices :: nat
  gh_num_edges :: nat
  gh_edge_data_size :: int
  gh_max_num_timestamps :: int

definition new_graph_header :: "graph_type \<Rightarrow> nat \<Rightarrow> nat \<Rightarrow> int \<Rightarrow> int \<Rightarrow> graph_header" where
  "new_graph_header type num_vertices num_edges edge_data_size max_num_timestamps =
     \<lparr>gh_magic_number = MAGIC_NUMBER, gh_version_number = CURR_VERSION, gh_type = type,
      gh_num_vertices = num_vertices, gh_num_edges = num_edges, gh_edge_data_size = edge_data_size,
      gh_max_num_timestamps = max_num_timestamps\<rparr>"

definition gh_is_graph_file :: "graph_header \<Rightarrow> bool" where
  "gh_is_graph_file h \<longleftrightarrow> gh_magic_number h = MAGIC_NUMBER"

definition gh_is_right_version :: "graph_header \<Rightarrow> bool" where
  "gh_is_right_version h \<longleftrightarrow> gh_version_number h = CURR_VERSION"

definition gh_is_directed_graph :: "graph_header \<Rightarrow> bool" where
  "gh_is_directed_graph h \<longleftrightarrow> gh_type h = DIRECTED \<or> gh_type h = TS_DIRECTED"

definition gh_verify :: "graph_header \<Rightarrow> unit res" where
  "gh_verify h = assert_then (gh_is_graph_file h) (assert_then (gh_is_right_version h) (Inr ()))"

text \<open>The edge data size where it is converted to \<^verbatim>\<open>size_t\<close>.\<close>

definition gh_eds :: "graph_header \<Rightarrow> nat" where
  "gh_eds h = nat (gh_edge_data_size h mod 2 ^ 64)"

section \<open>The header of an index\<close>

record index_header =
  ih_header :: graph_header
  ih_entry_size :: nat
  ih_num_entries :: nat
  ih_out_part_loc :: int
  ih_compressed :: bool
  ih_num_large_in_vertices :: nat
  ih_num_large_out_vertices :: nat

definition new_index_header :: "graph_header \<Rightarrow> nat \<Rightarrow> index_header" where
  "new_index_header h entry_size =
     \<lparr>ih_header = h, ih_entry_size = entry_size, ih_num_entries = 1, ih_out_part_loc = 0, ih_compressed = False,
      ih_num_large_in_vertices = 0, ih_num_large_out_vertices = 0\<rparr>"

text \<open>The page of a \<^verbatim>\<open>graph_header\<close>, read as the header of an index: the rest of the page is zero.\<close>

definition header_page :: "graph_header \<Rightarrow> index_header" where
  "header_page h =
     \<lparr>ih_header = h, ih_entry_size = 0, ih_num_entries = 0, ih_out_part_loc = 0, ih_compressed = False,
      ih_num_large_in_vertices = 0, ih_num_large_out_vertices = 0\<rparr>"

text \<open>The difference of two offsets where it is converted to \<^verbatim>\<open>size_t\<close>.\<close>

definition off_diff :: "int \<Rightarrow> int \<Rightarrow> nat" where
  "off_diff a b = nat ((a - b) mod 2 ^ 64)"

section \<open>The plain index of an undirected graph\<close>

record undirected_vertex_index =
  uvi_h :: index_header
  uvi_vertices :: "int list"

definition uvi_create :: "graph_header \<Rightarrow> int list \<Rightarrow> undirected_vertex_index res" where
  "uvi_create h vertices = assert_then (gh_num_vertices h + 1 = length vertices)
     (Inr \<lparr>uvi_h = (new_index_header h 8)\<lparr>ih_num_entries := length vertices\<rparr>, uvi_vertices = vertices\<rparr>)"

definition uvi_get_vertex :: "undirected_vertex_index \<Rightarrow> nat \<Rightarrow> int res" where
  "uvi_get_vertex ix vid = assert_then (vid < ih_num_entries (uvi_h ix))
     (if vid < length (uvi_vertices ix) then Inr (uvi_vertices ix ! vid) else Inl Undefined_behaviour)"

definition uvi_verify :: "undirected_vertex_index \<Rightarrow> bool res" where
  "uvi_verify ix =
     (if \<not> (ih_entry_size (uvi_h ix) = 8 \<and> gh_num_vertices (ih_header (uvi_h ix)) + 1 = ih_num_entries (uvi_h ix))
      then Inr False
      else if gh_type (ih_header (uvi_h ix)) = DIRECTED then Inr False
      else bind_res (uvi_get_vertex ix 0) (\<lambda>off.
           Inr (off = int HEADER_SIZE \<and> ih_out_part_loc (uvi_h ix) = 0)))"

definition uvi_get_graph_size :: "undirected_vertex_index \<Rightarrow> int res" where
  "uvi_get_graph_size ix =
     (let last_idx = ih_num_entries (uvi_h ix) - 1
      in assert_then (ih_num_entries (uvi_h ix) > 0 \<and> last_idx = gh_num_vertices (ih_header (uvi_h ix)))
           (uvi_get_vertex ix (u32 last_idx)))"

definition uvi_get_vertex_info :: "undirected_vertex_index \<Rightarrow> nat \<Rightarrow> ext_mem_vertex_info res" where
  "uvi_get_vertex_info ix vid =
     bind_res (uvi_get_vertex ix (u32 (vid + 1))) (\<lambda>next_off.
     bind_res (uvi_get_vertex ix vid) (\<lambda>off.
       Inr (new_ext_mem_vertex_info vid off (off_diff next_off off))))"

section \<open>The plain index of a directed graph\<close>

record directed_vertex_entry =
  dve_in_off :: int
  dve_out_off :: int

record directed_vertex_index =
  dvi_h :: index_header
  dvi_vertices :: "directed_vertex_entry list"

definition dvi_create :: "graph_header \<Rightarrow> directed_vertex_entry list \<Rightarrow> directed_vertex_index res" where
  "dvi_create h vertices =
     (if vertices = [] then Inl Undefined_behaviour
      else assert_then (gh_num_vertices h + 1 = length vertices)
        (Inr \<lparr>dvi_h = (new_index_header h 16)\<lparr>ih_num_entries := length vertices,
                 ih_out_part_loc := dve_out_off (hd vertices)\<rparr>,
              dvi_vertices = vertices\<rparr>))"

definition dvi_get_vertex :: "directed_vertex_index \<Rightarrow> nat \<Rightarrow> directed_vertex_entry res" where
  "dvi_get_vertex ix vid = assert_then (vid < ih_num_entries (dvi_h ix))
     (if vid < length (dvi_vertices ix) then Inr (dvi_vertices ix ! vid) else Inl Undefined_behaviour)"

text \<open>\<^verbatim>\<open>get_num_vertices\<close> is converted to a 32-bit vertex id.\<close>

definition dvi_verify :: "directed_vertex_index \<Rightarrow> bool res" where
  "dvi_verify ix =
     (if \<not> (ih_entry_size (dvi_h ix) = 16 \<and> gh_num_vertices (ih_header (dvi_h ix)) + 1 = ih_num_entries (dvi_h ix))
      then Inr False
      else if gh_type (ih_header (dvi_h ix)) \<noteq> DIRECTED then Inr False
      else bind_res (dvi_get_vertex ix 0) (\<lambda>e.
           if dve_in_off e \<noteq> int HEADER_SIZE then Inr False
           else bind_res (dvi_get_vertex ix (u32 (gh_num_vertices (ih_header (dvi_h ix))))) (\<lambda>l.
                Inr (dve_out_off e = dve_in_off l \<and> ih_out_part_loc (dvi_h ix) = dve_out_off e))))"

definition dvi_get_graph_size :: "directed_vertex_index \<Rightarrow> int res" where
  "dvi_get_graph_size ix =
     (let last_idx = ih_num_entries (dvi_h ix) - 1
      in assert_then (ih_num_entries (dvi_h ix) > 0 \<and> last_idx = gh_num_vertices (ih_header (dvi_h ix)))
           (bind_res (dvi_get_vertex ix (u32 last_idx)) (\<lambda>e. Inr (dve_out_off e))))"

definition dvi_get_vertex_info_in :: "directed_vertex_index \<Rightarrow> nat \<Rightarrow> ext_mem_vertex_info res" where
  "dvi_get_vertex_info_in ix vid =
     bind_res (dvi_get_vertex ix (u32 (vid + 1))) (\<lambda>nxt.
     bind_res (dvi_get_vertex ix vid) (\<lambda>e.
       Inr (new_ext_mem_vertex_info vid (dve_in_off e) (off_diff (dve_in_off nxt) (dve_in_off e)))))"

definition dvi_get_vertex_info_out :: "directed_vertex_index \<Rightarrow> nat \<Rightarrow> ext_mem_vertex_info res" where
  "dvi_get_vertex_info_out ix vid =
     bind_res (dvi_get_vertex ix (u32 (vid + 1))) (\<lambda>nxt.
     bind_res (dvi_get_vertex ix vid) (\<lambda>e.
       Inr (new_ext_mem_vertex_info vid (dve_out_off e) (off_diff (dve_out_off nxt) (dve_out_off e)))))"

section \<open>Compressed entries\<close>

definition ENTRY_SIZE :: nat where
  "ENTRY_SIZE = 32"

definition LARGE_VERTEX_SIZE :: nat where
  "LARGE_VERTEX_SIZE = 255"

definition clip_edges :: "nat \<Rightarrow> nat" where
  "clip_edges n = (if n < LARGE_VERTEX_SIZE then n else LARGE_VERTEX_SIZE)"

record compressed_undirected_vertex_entry =
  cue_start_offs :: int
  cue_edges :: "nat list"

text \<open>The constructor from offsets: \<open>offs\<close> is the memory from the pointer on.\<close>

definition cue_of_offs :: "int list \<Rightarrow> nat \<Rightarrow> nat \<Rightarrow> compressed_undirected_vertex_entry res" where
  "cue_of_offs offs edge_data_size num =
     (let num_vertices = (if num = 0 then ENTRY_SIZE else min (num - 1) ENTRY_SIZE)
      in if num_vertices < length offs
         then Inr \<lparr>cue_start_offs = offs ! 0,
                cue_edges = map (\<lambda>i. clip_edges (vsize2num_edges (off_diff (offs ! (i + 1)) (offs ! i)) edge_data_size))
                    [0..<num_vertices] @ replicate (ENTRY_SIZE - num_vertices) 0\<rparr>
         else Inl Undefined_behaviour)"

definition cue_of_edges :: "int \<Rightarrow> nat list \<Rightarrow> nat \<Rightarrow> compressed_undirected_vertex_entry res" where
  "cue_of_edges off num_edges num_vertices =
     (if num_vertices \<le> length num_edges \<and> num_vertices \<le> ENTRY_SIZE
      then Inr \<lparr>cue_start_offs = off,
             cue_edges = map (\<lambda>i. clip_edges (num_edges ! i)) [0..<num_vertices] @ replicate (ENTRY_SIZE - num_vertices) 0\<rparr>
      else Inl Undefined_behaviour)"

definition cue_is_large_vertex :: "compressed_undirected_vertex_entry \<Rightarrow> nat \<Rightarrow> bool" where
  "cue_is_large_vertex e idx \<longleftrightarrow> cue_edges e ! idx = LARGE_VERTEX_SIZE"

record compressed_directed_vertex_entry =
  cde_start_offs :: directed_vertex_entry
  cde_edges :: "(nat \<times> nat) list"

definition cde_of_offs :: "directed_vertex_entry list \<Rightarrow> nat \<Rightarrow> nat \<Rightarrow> compressed_directed_vertex_entry res" where
  "cde_of_offs offs edge_data_size num =
     (let num_vertices = (if num = 0 then ENTRY_SIZE else min (num - 1) ENTRY_SIZE)
      in if num_vertices < length offs
         then Inr \<lparr>cde_start_offs = offs ! 0,
                cde_edges = map (\<lambda>i.
                     (clip_edges (vsize2num_edges (off_diff (dve_in_off (offs ! (i + 1))) (dve_in_off (offs ! i))) edge_data_size),
                      clip_edges (vsize2num_edges (off_diff (dve_out_off (offs ! (i + 1))) (dve_out_off (offs ! i))) edge_data_size)))
                    [0..<num_vertices] @ replicate (ENTRY_SIZE - num_vertices) (0, 0)\<rparr>
         else Inl Undefined_behaviour)"

definition cde_of_edges :: "directed_vertex_entry \<Rightarrow> nat list \<Rightarrow> nat list \<Rightarrow> nat \<Rightarrow> compressed_directed_vertex_entry res" where
  "cde_of_edges offs num_in_edges num_out_edges num_vertices =
     (if num_vertices \<le> length num_in_edges \<and> num_vertices \<le> length num_out_edges \<and> num_vertices \<le> ENTRY_SIZE
      then Inr \<lparr>cde_start_offs = offs,
             cde_edges = map (\<lambda>i. (clip_edges (num_in_edges ! i), clip_edges (num_out_edges ! i))) [0..<num_vertices]
               @ replicate (ENTRY_SIZE - num_vertices) (0, 0)\<rparr>
      else Inl Undefined_behaviour)"

definition cde_reset_start_offs :: "int \<Rightarrow> int \<Rightarrow> compressed_directed_vertex_entry \<Rightarrow> compressed_directed_vertex_entry" where
  "cde_reset_start_offs in_off out_off e = e\<lparr>cde_start_offs := \<lparr>dve_in_off = in_off, dve_out_off = out_off\<rparr>\<rparr>"

definition cde_is_large_in_vertex :: "compressed_directed_vertex_entry \<Rightarrow> nat \<Rightarrow> bool" where
  "cde_is_large_in_vertex e idx \<longleftrightarrow> fst (cde_edges e ! idx) = LARGE_VERTEX_SIZE"

definition cde_is_large_out_vertex :: "compressed_directed_vertex_entry \<Rightarrow> nat \<Rightarrow> bool" where
  "cde_is_large_out_vertex e idx \<longleftrightarrow> snd (cde_edges e ! idx) = LARGE_VERTEX_SIZE"

section \<open>Compressed indices in a file\<close>

type_synonym large_vertex_t = "nat \<times> nat"

record cundirected_vertex_index =
  cui_h :: index_header
  cui_entries :: "compressed_undirected_vertex_entry list"
  cui_large_vertices :: "large_vertex_t list"

definition cui_verify :: "cundirected_vertex_index \<Rightarrow> bool" where
  "cui_verify ix \<longleftrightarrow> ih_num_large_out_vertices (cui_h ix) = 0 \<and> ih_entry_size (cui_h ix) = 40
     \<and> ROUNDUP (gh_num_vertices (ih_header (cui_h ix))) ENTRY_SIZE div ENTRY_SIZE = ih_num_entries (cui_h ix)"

definition cui_cal_index_size :: "cundirected_vertex_index \<Rightarrow> nat" where
  "cui_cal_index_size ix = HEADER_SIZE + 40 * ih_num_entries (cui_h ix) + 8 * ih_num_large_in_vertices (cui_h ix)"

text \<open>\<^verbatim>\<open>construct(entries, large_vertices, header)\<close>: the header page is copied, then the fields of the
  compressed index are set.\<close>

definition cui_construct_entries :: "compressed_undirected_vertex_entry list \<Rightarrow> large_vertex_t list \<Rightarrow> index_header
    \<Rightarrow> cundirected_vertex_index" where
  "cui_construct_entries entries large_vertices page =
     \<lparr>cui_h = page\<lparr>ih_entry_size := 40, ih_num_entries := length entries, ih_compressed := True,
                ih_num_large_in_vertices := length large_vertices, ih_num_large_out_vertices := 0\<rparr>,
      cui_entries = entries, cui_large_vertices = large_vertices\<rparr>"

text \<open>The loop over a block of 32 entries that collects its large vertices.\<close>

fun cu_large :: "undirected_vertex_index \<Rightarrow> nat \<Rightarrow> compressed_undirected_vertex_entry \<Rightarrow> nat \<Rightarrow> nat list \<Rightarrow> large_vertex_t list res" where
  "cu_large ix eds e vid [] = Inr []"
| "cu_large ix eds e vid (i # is) =
     (if cue_is_large_vertex e i
      then bind_res (uvi_get_vertex_info ix (u32 (vid + i))) (\<lambda>info.
           bind_res (cu_large ix eds e vid is) (\<lambda>ls.
             Inr ((u32 (vid + i), vsize2num_edges (evi_size info) eds) # ls)))
      else cu_large ix eds e vid is)"

function cu_blocks :: "undirected_vertex_index \<Rightarrow> nat \<Rightarrow> nat \<Rightarrow> nat
    \<Rightarrow> (compressed_undirected_vertex_entry list \<times> large_vertex_t list) res" where
  "cu_blocks ix eds num_entries off =
     (if off < num_entries - 1
      then bind_res (cue_of_offs (drop off (uvi_vertices ix)) eds (min (ENTRY_SIZE + 1) (num_entries - off))) (\<lambda>e.
           bind_res (cu_large ix eds e (u32 off) [0..<ENTRY_SIZE]) (\<lambda>ls.
           bind_res (cu_blocks ix eds num_entries (off + ENTRY_SIZE)) (\<lambda>(es, ls').
             Inr (e # es, ls @ ls'))))
      else Inr ([], []))"
  by pat_completeness auto
termination by (relation "measure (\<lambda>(_, _, n, off). n - off)") (auto simp: ENTRY_SIZE_def)

declare cu_blocks.simps [simp del]

text \<open>With no entry the number of vertices wraps around and the first entry is written outside the empty
  vector.\<close>

definition cui_construct :: "undirected_vertex_index \<Rightarrow> cundirected_vertex_index res" where
  "cui_construct ix =
     (if ih_num_entries (uvi_h ix) = 0 then Inl Undefined_behaviour
      else bind_res (cu_blocks ix (gh_eds (ih_header (uvi_h ix))) (ih_num_entries (uvi_h ix)) 0) (\<lambda>(es, ls).
           Inr (cui_construct_entries es ls (uvi_h ix))))"

text \<open>\<^verbatim>\<open>construct(num_vertices, num_edges, header)\<close>: the loop over the blocks, the size so far in \<open>sz\<close>.\<close>

function cu_edge_blocks :: "nat \<Rightarrow> nat list \<Rightarrow> nat \<Rightarrow> nat \<Rightarrow> nat \<Rightarrow> compressed_undirected_vertex_entry list res" where
  "cu_edge_blocks num_vertices num_edges eds sz vid =
     (if vid < num_vertices
      then let num_entry_vertices = min ENTRY_SIZE (num_vertices - vid)
           in bind_res (cue_of_edges (int sz) (drop vid num_edges) num_entry_vertices) (\<lambda>e.
              bind_res (cu_edge_blocks num_vertices num_edges eds
                  (sz + sum_list (map (\<lambda>j. num_edges2vsize (num_edges ! (vid + j)) eds) [0..<num_entry_vertices]))
                  (vid + ENTRY_SIZE)) (\<lambda>es. Inr (e # es)))
      else Inr [])"
  by pat_completeness auto
termination by (relation "measure (\<lambda>(n, _, _, _, vid). n - vid)") (auto simp: ENTRY_SIZE_def)

declare cu_edge_blocks.simps [simp del]

definition cui_construct_edges :: "nat \<Rightarrow> nat list \<Rightarrow> index_header \<Rightarrow> cundirected_vertex_index res" where
  "cui_construct_edges num_vertices num_edges page =
     (if length num_edges < num_vertices then Inl Undefined_behaviour
      else let large = filter (\<lambda>(i, n). n \<ge> LARGE_VERTEX_SIZE) (map (\<lambda>i. (u32 i, num_edges ! i)) [0..<num_vertices]);
               num_entries = ROUNDUP num_vertices ENTRY_SIZE div ENTRY_SIZE
           in bind_res (cu_edge_blocks num_vertices num_edges (gh_eds (ih_header page)) HEADER_SIZE 0) (\<lambda>es.
              assert_then (num_entries * ENTRY_SIZE \<ge> gh_num_vertices (ih_header page))
                (Inr \<lparr>cui_h = page\<lparr>ih_entry_size := 40, ih_num_entries := num_entries, ih_compressed := True,
                         ih_num_large_in_vertices := length large, ih_num_large_out_vertices := 0\<rparr>,
                      cui_entries = es, cui_large_vertices = large\<rparr>)))"

section \<open>The compressed index in memory\<close>

record in_mem_cundirected_vertex_index =
  imu_num_vertices :: nat
  imu_edge_data_size :: nat
  imu_large_vmap :: "nat \<rightharpoonup> nat"
  imu_entries :: "compressed_undirected_vertex_entry list"

text \<open>\<^verbatim>\<open>unordered_map::insert\<close> keeps the entry that is there, so the map is the lookup of the first
  pair. The result of \<^verbatim>\<open>index.verify()\<close> is not used, but its assertions are checked.\<close>

definition imu_init_regular :: "undirected_vertex_index \<Rightarrow> in_mem_cundirected_vertex_index res" where
  "imu_init_regular ix = bind_res (uvi_verify ix) (\<lambda>_.
     if ih_num_entries (uvi_h ix) = 0 then Inl Undefined_behaviour
     else let eds = gh_eds (ih_header (uvi_h ix))
          in bind_res (cu_blocks ix eds (ih_num_entries (uvi_h ix)) 0) (\<lambda>(es, ls).
             Inr \<lparr>imu_num_vertices = ih_num_entries (uvi_h ix) - 1, imu_edge_data_size = eds,
                  imu_large_vmap = map_of ls, imu_entries = es\<rparr>))"

definition imu_init_compressed :: "cundirected_vertex_index \<Rightarrow> in_mem_cundirected_vertex_index res" where
  "imu_init_compressed ix =
     (if ih_num_entries (cui_h ix) \<le> length (cui_entries ix)
        \<and> ih_num_large_in_vertices (cui_h ix) \<le> length (cui_large_vertices ix)
      then Inr \<lparr>imu_num_vertices = gh_num_vertices (ih_header (cui_h ix)),
                imu_edge_data_size = gh_eds (ih_header (cui_h ix)),
                imu_large_vmap = map_of (take (ih_num_large_in_vertices (cui_h ix)) (cui_large_vertices ix)),
                imu_entries = take (ih_num_entries (cui_h ix)) (cui_entries ix)\<rparr>
      else Inl Undefined_behaviour)"

definition imu_get_num_edges :: "in_mem_cundirected_vertex_index \<Rightarrow> nat \<Rightarrow> nat res" where
  "imu_get_num_edges ix vid =
     (if vid div ENTRY_SIZE < length (imu_entries ix)
      then let num_edges = cue_edges (imu_entries ix ! (vid div ENTRY_SIZE)) ! (vid mod ENTRY_SIZE)
           in if num_edges \<ge> LARGE_VERTEX_SIZE
              then (case imu_large_vmap ix vid of None \<Rightarrow> Inl Assert_failed | Some n \<Rightarrow> Inr n)
              else Inr num_edges
      else Inl Undefined_behaviour)"

definition imu_get_size :: "in_mem_cundirected_vertex_index \<Rightarrow> nat \<Rightarrow> nat res" where
  "imu_get_size ix vid = bind_res (imu_get_num_edges ix vid) (\<lambda>n. Inr (num_edges2vsize n (imu_edge_data_size ix)))"

fun imu_add_sizes :: "in_mem_cundirected_vertex_index \<Rightarrow> nat \<Rightarrow> nat list \<Rightarrow> int \<Rightarrow> int res" where
  "imu_add_sizes ix start_id [] voff = Inr voff"
| "imu_add_sizes ix start_id (i # is) voff =
     bind_res (imu_get_size ix (start_id + i)) (\<lambda>s. imu_add_sizes ix start_id is (voff + int s))"

definition imu_get_vertex :: "in_mem_cundirected_vertex_index \<Rightarrow> nat \<Rightarrow> int res" where
  "imu_get_vertex ix vid =
     (if vid div ENTRY_SIZE < length (imu_entries ix)
      then imu_add_sizes ix (vid div ENTRY_SIZE * ENTRY_SIZE) [0..<vid mod ENTRY_SIZE]
             (cue_start_offs (imu_entries ix ! (vid div ENTRY_SIZE)))
      else Inl Undefined_behaviour)"

end
