(* ===== verification/Directed_Index.thy ===== *)
theory Directed_Index
  imports Vertex_Index
begin

text \<open>
  The compressed vertex index of a directed graph (\<^verbatim>\<open>cdirected_vertex_index\<close>,
  \<^verbatim>\<open>in_mem_cdirected_vertex_index\<close>) and the choice among the four kinds of index: loading, checking and
  querying. In-edges and out-edges are stored apart, the out-part behind the in-part.
\<close>

section \<open>The compressed index in a file\<close>

record cdirected_vertex_index =
  cdi_h :: index_header
  cdi_entries :: "compressed_directed_vertex_entry list"
  cdi_large_in_vertices :: "large_vertex_t list"
  cdi_large_out_vertices :: "large_vertex_t list"

definition cdi_verify :: "cdirected_vertex_index \<Rightarrow> bool" where
  "cdi_verify ix \<longleftrightarrow> ih_entry_size (cdi_h ix) = 80
     \<and> ROUNDUP (gh_num_vertices (ih_header (cdi_h ix))) ENTRY_SIZE div ENTRY_SIZE = ih_num_entries (cdi_h ix)"

definition cdi_cal_index_size :: "cdirected_vertex_index \<Rightarrow> nat" where
  "cdi_cal_index_size ix = HEADER_SIZE + 80 * ih_num_entries (cdi_h ix) + 8 * ih_num_large_in_vertices (cdi_h ix)
     + 8 * ih_num_large_out_vertices (cdi_h ix)"

definition cdi_construct_entries :: "compressed_directed_vertex_entry list \<Rightarrow> large_vertex_t list \<Rightarrow> large_vertex_t list
    \<Rightarrow> index_header \<Rightarrow> cdirected_vertex_index res" where
  "cdi_construct_entries entries large_in large_out page =
     (if entries = [] then Inl Undefined_behaviour
      else assert_then (length entries * ENTRY_SIZE \<ge> gh_num_vertices (ih_header page))
        (Inr \<lparr>cdi_h = page\<lparr>ih_entry_size := 80, ih_num_entries := length entries,
                 ih_out_part_loc := dve_out_off (cde_start_offs (hd entries)), ih_compressed := True,
                 ih_num_large_in_vertices := length large_in, ih_num_large_out_vertices := length large_out\<rparr>,
              cdi_entries = entries, cdi_large_in_vertices = large_in, cdi_large_out_vertices = large_out\<rparr>))"

fun cd_large :: "directed_vertex_index \<Rightarrow> nat \<Rightarrow> compressed_directed_vertex_entry \<Rightarrow> nat \<Rightarrow> nat list
    \<Rightarrow> (large_vertex_t list \<times> large_vertex_t list) res" where
  "cd_large ix eds e vid [] = Inr ([], [])"
| "cd_large ix eds e vid (i # is) =
     bind_res (if cde_is_large_in_vertex e i
        then bind_res (dvi_get_vertex_info_in ix (u32 (vid + i))) (\<lambda>info.
             Inr [(u32 (vid + i), vsize2num_edges (evi_size info) eds)]) else Inr []) (\<lambda>l1.
     bind_res (if cde_is_large_out_vertex e i
        then bind_res (dvi_get_vertex_info_out ix (u32 (vid + i))) (\<lambda>info.
             Inr [(u32 (vid + i), vsize2num_edges (evi_size info) eds)]) else Inr []) (\<lambda>l2.
     bind_res (cd_large ix eds e vid is) (\<lambda>(ls1, ls2). Inr (l1 @ ls1, l2 @ ls2))))"

function cd_blocks :: "directed_vertex_index \<Rightarrow> nat \<Rightarrow> nat \<Rightarrow> nat
    \<Rightarrow> (compressed_directed_vertex_entry list \<times> large_vertex_t list \<times> large_vertex_t list) res" where
  "cd_blocks ix eds num_entries off =
     (if off < num_entries - 1
      then bind_res (cde_of_offs (drop off (dvi_vertices ix)) eds (min (ENTRY_SIZE + 1) (num_entries - off))) (\<lambda>e.
           bind_res (cd_large ix eds e (u32 off) [0..<ENTRY_SIZE]) (\<lambda>(l1, l2).
           bind_res (cd_blocks ix eds num_entries (off + ENTRY_SIZE)) (\<lambda>(es, l1', l2').
             Inr (e # es, l1 @ l1', l2 @ l2'))))
      else Inr ([], [], []))"
  by pat_completeness auto
termination by (relation "measure (\<lambda>(_, _, n, off). n - off)") (auto simp: ENTRY_SIZE_def)

declare cd_blocks.simps [simp del]

definition cdi_construct :: "directed_vertex_index \<Rightarrow> cdirected_vertex_index res" where
  "cdi_construct ix =
     (if ih_num_entries (dvi_h ix) = 0 then Inl Undefined_behaviour
      else bind_res (cd_blocks ix (gh_eds (ih_header (dvi_h ix))) (ih_num_entries (dvi_h ix)) 0) (\<lambda>(es, l1, l2).
           cdi_construct_entries es l1 l2 (dvi_h ix)))"

text \<open>\<^verbatim>\<open>construct(num_vertices, num_in_edges, num_out_edges, header)\<close>. The first loop starts both parts at
  0; the entries are moved behind the header, the out-part behind the in-part, afterwards.\<close>

function cd_edge_blocks :: "nat \<Rightarrow> nat list \<Rightarrow> nat list \<Rightarrow> nat \<Rightarrow> nat \<Rightarrow> nat \<Rightarrow> nat
    \<Rightarrow> (compressed_directed_vertex_entry list \<times> nat \<times> nat) res" where
  "cd_edge_blocks num_vertices num_in_edges num_out_edges eds in_size out_size vid =
     (if vid < num_vertices
      then let num_entry_vertices = min ENTRY_SIZE (num_vertices - vid)
           in bind_res (cde_of_edges \<lparr>dve_in_off = int in_size, dve_out_off = int out_size\<rparr>
                (drop vid num_in_edges) (drop vid num_out_edges) num_entry_vertices) (\<lambda>e.
              bind_res (cd_edge_blocks num_vertices num_in_edges num_out_edges eds
                  (in_size + sum_list (map (\<lambda>j. num_edges2vsize (num_in_edges ! (vid + j)) eds) [0..<num_entry_vertices]))
                  (out_size + sum_list (map (\<lambda>j. num_edges2vsize (num_out_edges ! (vid + j)) eds) [0..<num_entry_vertices]))
                  (vid + ENTRY_SIZE)) (\<lambda>(es, sizes). Inr (e # es, sizes)))
      else Inr ([], in_size, out_size))"
  by pat_completeness auto
termination by (relation "measure (\<lambda>(n, _, _, _, _, _, vid). n - vid)") (auto simp: ENTRY_SIZE_def)

declare cd_edge_blocks.simps [simp del]

definition cdi_construct_edges :: "nat \<Rightarrow> nat list \<Rightarrow> nat list \<Rightarrow> index_header \<Rightarrow> cdirected_vertex_index res" where
  "cdi_construct_edges num_vertices num_in_edges num_out_edges page =
     (if length num_in_edges < num_vertices \<or> length num_out_edges < num_vertices then Inl Undefined_behaviour
      else let large = (\<lambda>num_edges. filter (\<lambda>(i, n). n \<ge> LARGE_VERTEX_SIZE) (map (\<lambda>i. (u32 i, num_edges ! i)) [0..<num_vertices]));
               num_entries = ROUNDUP num_vertices ENTRY_SIZE div ENTRY_SIZE
           in bind_res (cd_edge_blocks num_vertices num_in_edges num_out_edges (gh_eds (ih_header page)) 0 0 0)
             (\<lambda>(es, in_size, out_size).
              assert_then (in_size = out_size)
             (let es = map (\<lambda>e. cde_reset_start_offs (dve_in_off (cde_start_offs e) + int HEADER_SIZE)
                         (dve_out_off (cde_start_offs e) + int HEADER_SIZE + int in_size) e) es
              in assert_then (num_entries * ENTRY_SIZE \<ge> gh_num_vertices (ih_header page))
                (Inr \<lparr>cdi_h = page\<lparr>ih_entry_size := 80, ih_num_entries := num_entries,
                         ih_out_part_loc := int HEADER_SIZE + int in_size, ih_compressed := True,
                         ih_num_large_in_vertices := length (large num_in_edges),
                         ih_num_large_out_vertices := length (large num_out_edges)\<rparr>,
                      cdi_entries = es, cdi_large_in_vertices = large num_in_edges,
                      cdi_large_out_vertices = large num_out_edges\<rparr>))))"

section \<open>The compressed index in memory\<close>

record in_mem_cdirected_vertex_index =
  imd_num_vertices :: nat
  imd_edge_data_size :: nat
  imd_large_in_vmap :: "nat \<rightharpoonup> nat"
  imd_large_out_vmap :: "nat \<rightharpoonup> nat"
  imd_entries :: "compressed_directed_vertex_entry list"

definition imd_init_regular :: "directed_vertex_index \<Rightarrow> in_mem_cdirected_vertex_index res" where
  "imd_init_regular ix = bind_res (dvi_verify ix) (\<lambda>_.
     if ih_num_entries (dvi_h ix) = 0 then Inl Undefined_behaviour
     else let eds = gh_eds (ih_header (dvi_h ix))
          in bind_res (cd_blocks ix eds (ih_num_entries (dvi_h ix)) 0) (\<lambda>(es, l1, l2).
             Inr \<lparr>imd_num_vertices = ih_num_entries (dvi_h ix) - 1, imd_edge_data_size = eds,
                  imd_large_in_vmap = map_of l1, imd_large_out_vmap = map_of l2, imd_entries = es\<rparr>))"

definition imd_init_compressed :: "cdirected_vertex_index \<Rightarrow> in_mem_cdirected_vertex_index res" where
  "imd_init_compressed ix =
     (if ih_num_entries (cdi_h ix) \<le> length (cdi_entries ix)
        \<and> ih_num_large_in_vertices (cdi_h ix) \<le> length (cdi_large_in_vertices ix)
        \<and> ih_num_large_out_vertices (cdi_h ix) \<le> length (cdi_large_out_vertices ix)
      then Inr \<lparr>imd_num_vertices = gh_num_vertices (ih_header (cdi_h ix)),
                imd_edge_data_size = gh_eds (ih_header (cdi_h ix)),
                imd_large_in_vmap = map_of (take (ih_num_large_in_vertices (cdi_h ix)) (cdi_large_in_vertices ix)),
                imd_large_out_vmap = map_of (take (ih_num_large_out_vertices (cdi_h ix)) (cdi_large_out_vertices ix)),
                imd_entries = take (ih_num_entries (cdi_h ix)) (cdi_entries ix)\<rparr>
      else Inl Undefined_behaviour)"

definition imd_get_num_in_edges :: "in_mem_cdirected_vertex_index \<Rightarrow> nat \<Rightarrow> nat res" where
  "imd_get_num_in_edges ix vid =
     (if vid div ENTRY_SIZE < length (imd_entries ix)
      then let num_edges = fst (cde_edges (imd_entries ix ! (vid div ENTRY_SIZE)) ! (vid mod ENTRY_SIZE))
           in if num_edges \<ge> LARGE_VERTEX_SIZE
              then (case imd_large_in_vmap ix vid of None \<Rightarrow> Inl Assert_failed | Some n \<Rightarrow> Inr n)
              else Inr num_edges
      else Inl Undefined_behaviour)"

definition imd_get_num_out_edges :: "in_mem_cdirected_vertex_index \<Rightarrow> nat \<Rightarrow> nat res" where
  "imd_get_num_out_edges ix vid =
     (if vid div ENTRY_SIZE < length (imd_entries ix)
      then let num_edges = snd (cde_edges (imd_entries ix ! (vid div ENTRY_SIZE)) ! (vid mod ENTRY_SIZE))
           in if num_edges \<ge> LARGE_VERTEX_SIZE
              then (case imd_large_out_vmap ix vid of None \<Rightarrow> Inl Assert_failed | Some n \<Rightarrow> Inr n)
              else Inr num_edges
      else Inl Undefined_behaviour)"

definition imd_get_num_edges :: "in_mem_cdirected_vertex_index \<Rightarrow> nat \<Rightarrow> edge_type \<Rightarrow> nat res" where
  "imd_get_num_edges ix vid type = (case type of
       IN_EDGE \<Rightarrow> imd_get_num_in_edges ix vid
     | OUT_EDGE \<Rightarrow> imd_get_num_out_edges ix vid
     | BOTH_EDGES \<Rightarrow> bind_res (imd_get_num_in_edges ix vid) (\<lambda>a.
         bind_res (imd_get_num_out_edges ix vid) (\<lambda>b. Inr (u32 (a + b))))
     | _ \<Rightarrow> Inr 0)"

definition imd_get_in_size :: "in_mem_cdirected_vertex_index \<Rightarrow> nat \<Rightarrow> nat res" where
  "imd_get_in_size ix vid = bind_res (imd_get_num_in_edges ix vid) (\<lambda>n. Inr (num_edges2vsize n (imd_edge_data_size ix)))"

definition imd_get_out_size :: "in_mem_cdirected_vertex_index \<Rightarrow> nat \<Rightarrow> nat res" where
  "imd_get_out_size ix vid = bind_res (imd_get_num_out_edges ix vid) (\<lambda>n. Inr (num_edges2vsize n (imd_edge_data_size ix)))"

fun imd_add_sizes :: "in_mem_cdirected_vertex_index \<Rightarrow> nat \<Rightarrow> nat list \<Rightarrow> directed_vertex_entry \<Rightarrow> directed_vertex_entry res" where
  "imd_add_sizes ix start_id [] e = Inr e"
| "imd_add_sizes ix start_id (i # is) e =
     bind_res (imd_get_in_size ix (start_id + i)) (\<lambda>a.
     bind_res (imd_get_out_size ix (start_id + i)) (\<lambda>b.
     imd_add_sizes ix start_id is \<lparr>dve_in_off = dve_in_off e + int a, dve_out_off = dve_out_off e + int b\<rparr>))"

definition imd_get_vertex :: "in_mem_cdirected_vertex_index \<Rightarrow> nat \<Rightarrow> directed_vertex_entry res" where
  "imd_get_vertex ix vid =
     (if vid div ENTRY_SIZE < length (imd_entries ix)
      then imd_add_sizes ix (vid div ENTRY_SIZE * ENTRY_SIZE) [0..<vid mod ENTRY_SIZE]
             (cde_start_offs (imd_entries ix ! (vid div ENTRY_SIZE)))
      else Inl Undefined_behaviour)"

section \<open>The four kinds of index\<close>

text \<open>A buffer with an index: what its arrays hold. The code decides by the flags of the header how to
  read the arrays; reading them as another kind is undefined behaviour.\<close>

datatype vertex_index =
    UVI undirected_vertex_index
  | DVI directed_vertex_index
  | CUI cundirected_vertex_index
  | CDI cdirected_vertex_index

primrec vi_h :: "vertex_index \<Rightarrow> index_header" where
  "vi_h (UVI ix) = uvi_h ix"
| "vi_h (DVI ix) = dvi_h ix"
| "vi_h (CUI ix) = cui_h ix"
| "vi_h (CDI ix) = cdi_h ix"

definition vi_get_index_size :: "vertex_index \<Rightarrow> nat" where
  "vi_get_index_size ix =
     (let h = vi_h ix; large_in = 8 * ih_num_large_in_vertices h; large_out = 8 * ih_num_large_out_vertices h
      in if ih_compressed h \<and> gh_is_directed_graph (ih_header h) then HEADER_SIZE + 80 * ih_num_entries h + large_in + large_out
         else if ih_compressed h \<and> \<not> gh_is_directed_graph (ih_header h) then HEADER_SIZE + 40 * ih_num_entries h + large_in
         else HEADER_SIZE + ih_num_entries h * ih_entry_size h)"

definition verify_index :: "vertex_index \<Rightarrow> unit res" where
  "verify_index ix =
     (if \<not> gh_is_graph_file (ih_header (vi_h ix)) \<or> \<not> gh_is_right_version (ih_header (vi_h ix)) then Inl Wrong_format
      else bind_res
       (if gh_is_directed_graph (ih_header (vi_h ix))
        then if ih_compressed (vi_h ix)
             then (case ix of CDI i \<Rightarrow> Inr (cdi_verify i) | _ \<Rightarrow> Inl Undefined_behaviour)
             else (case ix of DVI i \<Rightarrow> dvi_verify i | _ \<Rightarrow> Inl Undefined_behaviour)
        else if ih_compressed (vi_h ix)
             then (case ix of CUI i \<Rightarrow> Inr (cui_verify i) | _ \<Rightarrow> Inl Undefined_behaviour)
             else (case ix of UVI i \<Rightarrow> uvi_verify i | _ \<Rightarrow> Inl Undefined_behaviour))
       (\<lambda>ok. if ok then Inr () else Inl Wrong_format))"

text \<open>\<^verbatim>\<open>load\<close>, after the file of \<open>len\<close> bytes is in the buffer; \<^verbatim>\<open>None\<close> is a file that does not exist.\<close>

definition vi_load :: "(nat \<times> vertex_index) option \<Rightarrow> vertex_index res" where
  "vi_load f = (case f of None \<Rightarrow> Inl Io_exception
     | Some (len, ix) \<Rightarrow>
         if len < HEADER_SIZE then Inl Wrong_format
         else if len < vi_get_index_size ix then Inl Wrong_format
         else bind_res (verify_index ix) (\<lambda>_. Inr ix))"

datatype in_mem_query_vertex_index =
    Q_undirected undirected_vertex_index
  | Q_directed directed_vertex_index
  | Q_cundirected in_mem_cundirected_vertex_index
  | Q_cdirected in_mem_cdirected_vertex_index

definition query_create :: "vertex_index \<Rightarrow> bool \<Rightarrow> in_mem_query_vertex_index res" where
  "query_create ix compress =
     (let h = vi_h ix
      in if ih_compressed h \<or> compress
         then if gh_is_directed_graph (ih_header h)
              then bind_res (if ih_compressed h
                     then (case ix of CDI i \<Rightarrow> imd_init_compressed i | _ \<Rightarrow> Inl Undefined_behaviour)
                     else (case ix of DVI i \<Rightarrow> imd_init_regular i | _ \<Rightarrow> Inl Undefined_behaviour)) (\<lambda>q. Inr (Q_cdirected q))
              else bind_res (if ih_compressed h
                     then (case ix of CUI i \<Rightarrow> imu_init_compressed i | _ \<Rightarrow> Inl Undefined_behaviour)
                     else (case ix of UVI i \<Rightarrow> imu_init_regular i | _ \<Rightarrow> Inl Undefined_behaviour)) (\<lambda>q. Inr (Q_cundirected q))
         else if gh_is_directed_graph (ih_header h)
              then (case ix of DVI i \<Rightarrow> Inr (Q_directed i) | _ \<Rightarrow> Inl Undefined_behaviour)
              else (case ix of UVI i \<Rightarrow> Inr (Q_undirected i) | _ \<Rightarrow> Inl Undefined_behaviour))"

definition dvi_num_in_edges :: "directed_vertex_index \<Rightarrow> nat \<Rightarrow> nat res" where
  "dvi_num_in_edges ix vid = bind_res (dvi_get_vertex_info_in ix vid) (\<lambda>info.
     Inr (vsize2num_edges (evi_size info) (gh_eds (ih_header (dvi_h ix)))))"

definition dvi_num_out_edges :: "directed_vertex_index \<Rightarrow> nat \<Rightarrow> nat res" where
  "dvi_num_out_edges ix vid = bind_res (dvi_get_vertex_info_out ix vid) (\<lambda>info.
     Inr (vsize2num_edges (evi_size info) (gh_eds (ih_header (dvi_h ix)))))"

definition uvi_num_edges :: "undirected_vertex_index \<Rightarrow> nat \<Rightarrow> nat res" where
  "uvi_num_edges ix vid = bind_res (uvi_get_vertex_info ix vid) (\<lambda>info.
     Inr (vsize2num_edges (evi_size info) (gh_eds (ih_header (uvi_h ix)))))"

fun query_get_num_edges :: "in_mem_query_vertex_index \<Rightarrow> nat \<Rightarrow> edge_type \<Rightarrow> nat res" where
  "query_get_num_edges (Q_undirected ix) vid type = uvi_num_edges ix vid"
| "query_get_num_edges (Q_cundirected ix) vid type = imu_get_num_edges ix vid"
| "query_get_num_edges (Q_cdirected ix) vid type = imd_get_num_edges ix vid type"
| "query_get_num_edges (Q_directed ix) vid type = (case type of
       IN_EDGE \<Rightarrow> dvi_num_in_edges ix vid
     | OUT_EDGE \<Rightarrow> dvi_num_out_edges ix vid
     | BOTH_EDGES \<Rightarrow> bind_res (dvi_num_in_edges ix vid) (\<lambda>a.
         bind_res (dvi_num_out_edges ix vid) (\<lambda>b. Inr (u32 (a + b))))
     | _ \<Rightarrow> Inr 0)"

end
