(* ===== verification/Index_Construct.thy ===== *)
theory Index_Construct
  imports Directed_Index
begin

text \<open>
  Building an index while the vertices of a graph are written (\<^verbatim>\<open>vertex_index_constructor.cpp\<close>) and
  walking over an index (the iterators of \<^verbatim>\<open>vertex_index_reader.h\<close>).
\<close>

section \<open>The plain constructors\<close>

text \<open>\<^verbatim>\<open>undirected_vertex_index_construct\<close>: the state is the vector of offsets.\<close>

definition new_uvic :: "int list" where
  "new_uvic = [int HEADER_SIZE]"

definition vertex_offset_init :: "int \<Rightarrow> in_mem_vertex \<Rightarrow> int res" where
  "vertex_offset_init prev v = bind_res (imv_serialize_size v IN_EDGE) (\<lambda>s. Inr (prev + int s))"

definition uvic_add_vertex :: "int list \<Rightarrow> in_mem_vertex \<Rightarrow> int list res" where
  "uvic_add_vertex vertices v =
     assert_then (imv_id v + 1 = length vertices)
    (bind_res (vertex_offset_init (last vertices) v) (\<lambda>off. Inr (vertices @ [off])))"

definition uvic_dump :: "int list \<Rightarrow> graph_header \<Rightarrow> bool \<Rightarrow> vertex_index res" where
  "uvic_dump vertices h compressed =
     bind_res (uvi_create h vertices) (\<lambda>ix.
       if compressed then bind_res (cui_construct ix) (\<lambda>c. Inr (CUI c)) else Inr (UVI ix))"

text \<open>\<^verbatim>\<open>directed_vertex_index_construct\<close>: the in-part starts behind the header, the out-part at 0 until
  \<^verbatim>\<open>finalize\<close> moves it behind the in-part.\<close>

definition new_dvic :: "directed_vertex_entry list" where
  "new_dvic = [\<lparr>dve_in_off = int HEADER_SIZE, dve_out_off = 0\<rparr>]"

definition directed_entry_init :: "directed_vertex_entry \<Rightarrow> in_mem_vertex \<Rightarrow> directed_vertex_entry res" where
  "directed_entry_init prev v =
     bind_res (imv_serialize_size v IN_EDGE) (\<lambda>a.
     bind_res (imv_serialize_size v OUT_EDGE) (\<lambda>b.
       Inr \<lparr>dve_in_off = dve_in_off prev + int a, dve_out_off = dve_out_off prev + int b\<rparr>))"

definition dvic_add_vertex :: "directed_vertex_entry list \<Rightarrow> in_mem_vertex \<Rightarrow> directed_vertex_entry list res" where
  "dvic_add_vertex vertices v =
     assert_then (imv_id v + 1 = length vertices)
    (bind_res (directed_entry_init (last vertices) v) (\<lambda>e. Inr (vertices @ [e])))"

definition dvic_finalize :: "directed_vertex_entry list \<Rightarrow> directed_vertex_entry list" where
  "dvic_finalize vertices =
     (let in_part_size = dve_in_off (last vertices)
      in if dve_out_off (hd vertices) \<ge> in_part_size then vertices
         else map (\<lambda>e. \<lparr>dve_in_off = dve_in_off e, dve_out_off = dve_out_off e + in_part_size\<rparr>) vertices)"

definition dvic_dump :: "directed_vertex_entry list \<Rightarrow> graph_header \<Rightarrow> bool \<Rightarrow> vertex_index res" where
  "dvic_dump vertices h compressed =
     bind_res (dvi_create h (dvic_finalize vertices)) (\<lambda>ix.
       if compressed then bind_res (cdi_construct ix) (\<lambda>c. Inr (CDI c)) else Inr (DVI ix))"

section \<open>The constructor of a compressed index\<close>

record cuvic =
  cuvic_edge_data_size :: nat
  cuvic_centries :: "compressed_undirected_vertex_entry list"
  cuvic_last_entries :: "int list"
  cuvic_large_vertices :: "large_vertex_t list"

definition new_cuvic :: "nat \<Rightarrow> cuvic" where
  "new_cuvic eds = \<lparr>cuvic_edge_data_size = eds, cuvic_centries = [], cuvic_last_entries = [int HEADER_SIZE],
     cuvic_large_vertices = []\<rparr>"

definition cuvic_get_num_vertices :: "cuvic \<Rightarrow> nat" where
  "cuvic_get_num_vertices c = length (cuvic_centries c) * ENTRY_SIZE + length (cuvic_last_entries c) - 1"

text \<open>\<^verbatim>\<open>add_large_vertices\<close>; an index above 31 reads behind the edges of the entry.\<close>

fun cuvic_large :: "nat \<Rightarrow> nat \<Rightarrow> compressed_undirected_vertex_entry \<Rightarrow> int list \<Rightarrow> nat list \<Rightarrow> large_vertex_t list" where
  "cuvic_large eds start_id e offs [] = []"
| "cuvic_large eds start_id e offs (i # is) =
     (if cue_is_large_vertex e i
      then (u32 (start_id + i), vsize2num_edges (off_diff (offs ! (i + 1)) (offs ! i)) eds) # cuvic_large eds start_id e offs is
      else cuvic_large eds start_id e offs is)"

definition cuvic_flush :: "cuvic \<Rightarrow> cuvic res" where
  "cuvic_flush c =
     bind_res (cue_of_offs (cuvic_last_entries c) (cuvic_edge_data_size c) (length (cuvic_last_entries c))) (\<lambda>e.
     let num_entries = length (cuvic_last_entries c) - 1
     in if num_entries > ENTRY_SIZE then Inl Undefined_behaviour
        else Inr (c\<lparr>cuvic_large_vertices := cuvic_large_vertices c
                      @ cuvic_large (cuvic_edge_data_size c) (u32 (length (cuvic_centries c) * ENTRY_SIZE)) e
                          (cuvic_last_entries c) [0..<num_entries],
                    cuvic_centries := cuvic_centries c @ [e],
                    cuvic_last_entries := []\<rparr>))"

definition cuvic_add_vertex :: "cuvic \<Rightarrow> in_mem_vertex \<Rightarrow> cuvic res" where
  "cuvic_add_vertex c v =
     assert_then (cuvic_get_num_vertices c = imv_id v)
    (assert_then (length (cuvic_last_entries c) \<le> ENTRY_SIZE + 1)
    (assert_then (cuvic_last_entries c \<noteq> [])
    (let last_entry = last (cuvic_last_entries c)
     in bind_res (if length (cuvic_last_entries c) = ENTRY_SIZE + 1
          then bind_res (cuvic_flush c) (\<lambda>c. Inr (c\<lparr>cuvic_last_entries := [last_entry]\<rparr>)) else Inr c) (\<lambda>c.
        bind_res (vertex_offset_init last_entry v) (\<lambda>off.
        Inr (c\<lparr>cuvic_last_entries := cuvic_last_entries c @ [off]\<rparr>))))))"

definition cuvic_finalize :: "cuvic \<Rightarrow> cuvic res" where
  "cuvic_finalize c = (if cuvic_last_entries c = [] then Inr c else cuvic_flush c)"

definition cuvic_dump :: "cuvic \<Rightarrow> graph_header \<Rightarrow> vertex_index res" where
  "cuvic_dump c h = bind_res (cuvic_finalize c) (\<lambda>c.
     Inr (CUI (cui_construct_entries (cuvic_centries c) (cuvic_large_vertices c) (header_page h))))"

record cdvic =
  cdvic_edge_data_size :: nat
  cdvic_centries :: "compressed_directed_vertex_entry list"
  cdvic_last_entries :: "directed_vertex_entry list"
  cdvic_large_in_vertices :: "large_vertex_t list"
  cdvic_large_out_vertices :: "large_vertex_t list"

definition new_cdvic :: "nat \<Rightarrow> cdvic" where
  "new_cdvic eds = \<lparr>cdvic_edge_data_size = eds, cdvic_centries = [],
     cdvic_last_entries = [\<lparr>dve_in_off = int HEADER_SIZE, dve_out_off = 0\<rparr>],
     cdvic_large_in_vertices = [], cdvic_large_out_vertices = []\<rparr>"

definition cdvic_get_num_vertices :: "cdvic \<Rightarrow> nat" where
  "cdvic_get_num_vertices c = length (cdvic_centries c) * ENTRY_SIZE + length (cdvic_last_entries c) - 1"

fun cdvic_large_in :: "nat \<Rightarrow> nat \<Rightarrow> compressed_directed_vertex_entry \<Rightarrow> directed_vertex_entry list \<Rightarrow> nat list \<Rightarrow> large_vertex_t list" where
  "cdvic_large_in eds start_id e offs [] = []"
| "cdvic_large_in eds start_id e offs (i # is) =
     (if cde_is_large_in_vertex e i
      then (u32 (start_id + i), vsize2num_edges (off_diff (dve_in_off (offs ! (i + 1))) (dve_in_off (offs ! i))) eds)
           # cdvic_large_in eds start_id e offs is
      else cdvic_large_in eds start_id e offs is)"

fun cdvic_large_out :: "nat \<Rightarrow> nat \<Rightarrow> compressed_directed_vertex_entry \<Rightarrow> directed_vertex_entry list \<Rightarrow> nat list \<Rightarrow> large_vertex_t list" where
  "cdvic_large_out eds start_id e offs [] = []"
| "cdvic_large_out eds start_id e offs (i # is) =
     (if cde_is_large_out_vertex e i
      then (u32 (start_id + i), vsize2num_edges (off_diff (dve_out_off (offs ! (i + 1))) (dve_out_off (offs ! i))) eds)
           # cdvic_large_out eds start_id e offs is
      else cdvic_large_out eds start_id e offs is)"

definition cdvic_flush :: "cdvic \<Rightarrow> cdvic res" where
  "cdvic_flush c =
     bind_res (cde_of_offs (cdvic_last_entries c) (cdvic_edge_data_size c) (length (cdvic_last_entries c))) (\<lambda>e.
     let num_entries = length (cdvic_last_entries c) - 1; start_id = u32 (length (cdvic_centries c) * ENTRY_SIZE)
     in if num_entries > ENTRY_SIZE then Inl Undefined_behaviour
        else Inr (c\<lparr>cdvic_large_in_vertices := cdvic_large_in_vertices c
                      @ cdvic_large_in (cdvic_edge_data_size c) start_id e (cdvic_last_entries c) [0..<num_entries],
                    cdvic_large_out_vertices := cdvic_large_out_vertices c
                      @ cdvic_large_out (cdvic_edge_data_size c) start_id e (cdvic_last_entries c) [0..<num_entries],
                    cdvic_centries := cdvic_centries c @ [e],
                    cdvic_last_entries := []\<rparr>))"

definition cdvic_add_vertex :: "cdvic \<Rightarrow> in_mem_vertex \<Rightarrow> cdvic res" where
  "cdvic_add_vertex c v =
     assert_then (cdvic_get_num_vertices c = imv_id v)
    (assert_then (length (cdvic_last_entries c) \<le> ENTRY_SIZE + 1)
    (assert_then (cdvic_last_entries c \<noteq> [])
    (let last_entry = last (cdvic_last_entries c)
     in bind_res (if length (cdvic_last_entries c) = ENTRY_SIZE + 1
          then bind_res (cdvic_flush c) (\<lambda>c. Inr (c\<lparr>cdvic_last_entries := [last_entry]\<rparr>)) else Inr c) (\<lambda>c.
        bind_res (directed_entry_init last_entry v) (\<lambda>e.
        Inr (c\<lparr>cdvic_last_entries := cdvic_last_entries c @ [e]\<rparr>))))))"

text \<open>\<^verbatim>\<open>finalize\<close> compresses the rest and moves the out-part behind the in-part.\<close>

definition cdvic_finalize :: "cdvic \<Rightarrow> cdvic res" where
  "cdvic_finalize c =
     (if cdvic_last_entries c = [] then Inr c
      else let in_part_size = dve_in_off (last (cdvic_last_entries c))
           in bind_res (cdvic_flush c) (\<lambda>c.
              assert_then (dve_out_off (cde_start_offs (hd (cdvic_centries c))) < in_part_size)
                (Inr (c\<lparr>cdvic_centries := map (\<lambda>e. cde_reset_start_offs (dve_in_off (cde_start_offs e))
                         (dve_out_off (cde_start_offs e) + in_part_size) e) (cdvic_centries c)\<rparr>))))"

definition cdvic_dump :: "cdvic \<Rightarrow> graph_header \<Rightarrow> vertex_index res" where
  "cdvic_dump c h = bind_res (cdvic_finalize c) (\<lambda>c.
     bind_res (cdi_construct_entries (cdvic_centries c) (cdvic_large_in_vertices c) (cdvic_large_out_vertices c) (header_page h))
       (\<lambda>ix. Inr (CDI ix)))"

section \<open>Iterators\<close>

text \<open>The buffers of \<^verbatim>\<open>index_iterator\<close> hold the entry of the current vertex and of the next one.\<close>

record 'e array_index_iterator =
  aii_curr :: 'e
  aii_next :: 'e
  aii_has_next :: bool
  aii_entries :: "'e list"
  aii_p :: nat

definition new_array_index_iterator :: "'e list \<Rightarrow> 'e array_index_iterator res" where
  "new_array_index_iterator entries = assert_then (length entries \<ge> 2)
     (Inr \<lparr>aii_curr = entries ! 0, aii_next = entries ! 1, aii_has_next = True, aii_entries = entries, aii_p = 1\<rparr>)"

definition aii_move_next :: "'e array_index_iterator \<Rightarrow> 'e array_index_iterator" where
  "aii_move_next it =
     (let it = it\<lparr>aii_curr := aii_next it, aii_p := aii_p it + 1\<rparr>;
          it = it\<lparr>aii_has_next := aii_p it < length (aii_entries it)\<rparr>
      in if aii_has_next it then it\<lparr>aii_next := aii_entries it ! aii_p it\<rparr> else it)"

definition aii_move_to :: "'e array_index_iterator \<Rightarrow> nat \<Rightarrow> 'e array_index_iterator" where
  "aii_move_to it idx =
     (let it = it\<lparr>aii_p := idx\<rparr>
      in if idx + 1 < length (aii_entries it)
         then it\<lparr>aii_curr := aii_entries it ! idx, aii_next := aii_entries it ! (idx + 1), aii_has_next := True\<rparr>
         else it\<lparr>aii_has_next := False\<rparr>)"

definition aii_get_num_vertices :: "'e array_index_iterator \<Rightarrow> int" where
  "aii_get_num_vertices it = int32 (int (length (aii_entries it)) - 1)"

record compressed_undirected_index_iterator =
  cuii_curr :: int
  cuii_next :: int
  cuii_has_next :: bool
  cuii_begin :: nat
  cuii_idx :: nat
  cuii_end :: nat
  cuii_index :: in_mem_cundirected_vertex_index

definition new_cuii :: "in_mem_cundirected_vertex_index \<Rightarrow> nat \<Rightarrow> nat \<Rightarrow> compressed_undirected_index_iterator res" where
  "new_cuii ix first second =
     bind_res (imu_get_vertex ix first) (\<lambda>off.
     bind_res (imu_get_size ix first) (\<lambda>s.
       Inr \<lparr>cuii_curr = off, cuii_next = off + int s, cuii_has_next = True,
            cuii_begin = first, cuii_idx = first, cuii_end = second, cuii_index = ix\<rparr>))"

definition cuii_move_next :: "compressed_undirected_index_iterator \<Rightarrow> compressed_undirected_index_iterator res" where
  "cuii_move_next it =
     (let e = cuii_next it;
          it = it\<lparr>cuii_curr := e, cuii_idx := cuii_idx it + 1\<rparr>;
          it = it\<lparr>cuii_has_next := cuii_idx it < cuii_end it\<rparr>
      in if cuii_has_next it
         then bind_res (imu_get_size (cuii_index it) (cuii_idx it)) (\<lambda>s. Inr (it\<lparr>cuii_next := e + int s\<rparr>))
         else Inr it)"

definition cuii_move_to :: "compressed_undirected_index_iterator \<Rightarrow> nat \<Rightarrow> compressed_undirected_index_iterator res" where
  "cuii_move_to it rel_idx =
     (let it = it\<lparr>cuii_idx := cuii_begin it + rel_idx\<rparr>
      in if cuii_idx it < cuii_end it
         then bind_res (imu_get_vertex (cuii_index it) (cuii_idx it)) (\<lambda>e.
              bind_res (imu_get_size (cuii_index it) (cuii_idx it)) (\<lambda>s.
                Inr (it\<lparr>cuii_curr := e, cuii_next := e + int s, cuii_has_next := True\<rparr>)))
         else Inr (it\<lparr>cuii_has_next := False\<rparr>))"

definition cuii_get_num_vertices :: "compressed_undirected_index_iterator \<Rightarrow> int" where
  "cuii_get_num_vertices it = int32 (int (cuii_end it) - int (cuii_idx it))"

record compressed_directed_index_iterator =
  cdii_curr :: directed_vertex_entry
  cdii_next :: directed_vertex_entry
  cdii_has_next :: bool
  cdii_begin :: nat
  cdii_idx :: nat
  cdii_end :: nat
  cdii_index :: in_mem_cdirected_vertex_index

definition new_cdii :: "in_mem_cdirected_vertex_index \<Rightarrow> nat \<Rightarrow> nat \<Rightarrow> compressed_directed_index_iterator res" where
  "new_cdii ix first second =
     bind_res (imd_get_vertex ix first) (\<lambda>e.
     bind_res (imd_get_in_size ix first) (\<lambda>a.
     bind_res (imd_get_out_size ix first) (\<lambda>b.
       Inr \<lparr>cdii_curr = e, cdii_next = \<lparr>dve_in_off = dve_in_off e + int a, dve_out_off = dve_out_off e + int b\<rparr>,
            cdii_has_next = True, cdii_begin = first, cdii_idx = first, cdii_end = second, cdii_index = ix\<rparr>)))"

definition cdii_move_next :: "compressed_directed_index_iterator \<Rightarrow> compressed_directed_index_iterator res" where
  "cdii_move_next it =
     (let e = cdii_next it;
          it = it\<lparr>cdii_curr := e, cdii_idx := cdii_idx it + 1\<rparr>;
          it = it\<lparr>cdii_has_next := cdii_idx it < cdii_end it\<rparr>
      in if cdii_has_next it
         then bind_res (imd_get_in_size (cdii_index it) (cdii_idx it)) (\<lambda>a.
              bind_res (imd_get_out_size (cdii_index it) (cdii_idx it)) (\<lambda>b.
                Inr (it\<lparr>cdii_next := \<lparr>dve_in_off = dve_in_off e + int a, dve_out_off = dve_out_off e + int b\<rparr>\<rparr>)))
         else Inr it)"

definition cdii_move_to :: "compressed_directed_index_iterator \<Rightarrow> nat \<Rightarrow> compressed_directed_index_iterator res" where
  "cdii_move_to it rel_idx =
     (let it = it\<lparr>cdii_idx := cdii_begin it + rel_idx\<rparr>
      in if cdii_idx it < cdii_end it
         then bind_res (imd_get_vertex (cdii_index it) (cdii_idx it)) (\<lambda>e.
              bind_res (imd_get_in_size (cdii_index it) (cdii_idx it)) (\<lambda>a.
              bind_res (imd_get_out_size (cdii_index it) (cdii_idx it)) (\<lambda>b.
                Inr (it\<lparr>cdii_curr := e,
                  cdii_next := \<lparr>dve_in_off = dve_in_off e + int a, dve_out_off = dve_out_off e + int b\<rparr>,
                  cdii_has_next := True\<rparr>))))
         else Inr (it\<lparr>cdii_has_next := False\<rparr>))"

definition cdii_get_num_vertices :: "compressed_directed_index_iterator \<Rightarrow> int" where
  "cdii_get_num_vertices it = int32 (int (cdii_end it) - int (cdii_idx it))"

text \<open>\<^verbatim>\<open>get_curr_off\<close>, \<^verbatim>\<open>get_curr_size\<close> and their counterparts for the out-part: the sizes are 32-bit
  numbers.\<close>

definition curr_size :: "int \<Rightarrow> int \<Rightarrow> nat" where
  "curr_size next_off curr_off = u32 (off_diff next_off curr_off)"

text \<open>The loop \<^verbatim>\<open>while (it.has_next()) \{ \dots; it.move_next(); \}\<close> that records offset and size of each vertex.\<close>

fun aii_walk :: "nat \<Rightarrow> int array_index_iterator \<Rightarrow> (int \<times> nat) list \<Rightarrow> (int \<times> nat) list res" where
  "aii_walk 0 it vs = Inl Out_of_steps"
| "aii_walk (Suc fuel) it vs = (if aii_has_next it
     then aii_walk fuel (aii_move_next it) (vs @ [(aii_curr it, curr_size (aii_next it) (aii_curr it))]) else Inr vs)"

fun cuii_walk :: "nat \<Rightarrow> compressed_undirected_index_iterator \<Rightarrow> (int \<times> nat) list \<Rightarrow> (int \<times> nat) list res" where
  "cuii_walk 0 it vs = Inl Out_of_steps"
| "cuii_walk (Suc fuel) it vs = (if cuii_has_next it
     then bind_res (cuii_move_next it) (\<lambda>it'. cuii_walk fuel it' (vs @ [(cuii_curr it, curr_size (cuii_next it) (cuii_curr it))]))
     else Inr vs)"

text \<open>\<^verbatim>\<open>verify_against\<close> of the directed index: \<^verbatim>\<open>False\<close> where it logs an error and returns. The second
  comparison is the one of the source.\<close>

fun imd_verify_loop :: "nat \<Rightarrow> compressed_directed_index_iterator \<Rightarrow> directed_vertex_index \<Rightarrow> nat \<Rightarrow> bool res" where
  "imd_verify_loop 0 it ix vid = Inl Out_of_steps"
| "imd_verify_loop (Suc fuel) it ix vid =
     (if cdii_has_next it
      then bind_res (dvi_get_vertex_info_in ix vid) (\<lambda>in_info.
           bind_res (dvi_get_vertex_info_out ix vid) (\<lambda>out_info.
             if evi_off in_info \<noteq> dve_in_off (cdii_curr it) then Inr False
             else if evi_off out_info = dve_out_off (cdii_curr it) then Inr False
             else bind_res (cdii_move_next it) (\<lambda>it. imd_verify_loop fuel it ix (u32 (vid + 1)))))
      else Inr True)"

definition imd_verify_against :: "nat \<Rightarrow> in_mem_cdirected_vertex_index \<Rightarrow> directed_vertex_index \<Rightarrow> bool res" where
  "imd_verify_against fuel q ix = bind_res (dvi_verify ix) (\<lambda>_.
     bind_res (new_cdii q 10 (u32 (min 100 (gh_num_vertices (ih_header (dvi_h ix)))))) (\<lambda>it.
       imd_verify_loop fuel it ix 10))"

end
