(* ===== verification/Vertex_Index_Laws.thy ===== *)
theory Vertex_Index_Laws
  imports Vertex_Index Ext_Vertex_Laws
begin

text \<open>
  The index of a graph whose vertices have \<open>ns ! 0\<close>, \<open>ns ! 1\<close> and so on edges with \<open>e\<close> bytes of data
  each, stored from the offset \<open>s\<close> on.
  The offsets, the compressed entries and the table of large vertices are given in closed form; the
  constructors of the compressed index compute them and its queries read them.
\<close>

section \<open>The graph\<close>

definition graph_ok :: "nat list \<Rightarrow> nat \<Rightarrow> bool" where
  "graph_ok ns e \<longleftrightarrow> length ns + 1 < 2 ^ 32 \<and> e < 2 ^ 32
     \<and> (\<forall>n\<in>set ns. n < 2 ^ 32 \<and> n * e < 2 ^ 32 \<and> num_edges2vsize n e < 2 ^ 32)"

definition vertex_off :: "nat \<Rightarrow> nat list \<Rightarrow> nat \<Rightarrow> nat \<Rightarrow> nat" where
  "vertex_off s ns e i = s + sum_list (map (\<lambda>n. num_edges2vsize n e) (take i ns))"

definition plain_index :: "nat \<Rightarrow> nat list \<Rightarrow> nat \<Rightarrow> undirected_vertex_index \<Rightarrow> bool" where
  "plain_index s ns e ix \<longleftrightarrow> uvi_vertices ix = map (\<lambda>i. int (vertex_off s ns e i)) [0..<length ns + 1]
     \<and> ih_num_entries (uvi_h ix) = length ns + 1 \<and> gh_num_vertices (ih_header (uvi_h ix)) = length ns
     \<and> gh_eds (ih_header (uvi_h ix)) = e"

definition entry_of :: "nat \<Rightarrow> nat list \<Rightarrow> nat \<Rightarrow> nat \<Rightarrow> compressed_undirected_vertex_entry" where
  "entry_of s ns e b = \<lparr>cue_start_offs = int (vertex_off s ns e (ENTRY_SIZE * b)),
     cue_edges = map (\<lambda>i. if ENTRY_SIZE * b + i < length ns then clip_edges (ns ! (ENTRY_SIZE * b + i)) else 0) [0..<ENTRY_SIZE]\<rparr>"

definition num_blocks :: "nat list \<Rightarrow> nat" where
  "num_blocks ns = ROUNDUP (length ns) ENTRY_SIZE div ENTRY_SIZE"

definition large_from :: "nat list \<Rightarrow> nat \<Rightarrow> large_vertex_t list" where
  "large_from ns k = filter (\<lambda>(i, n). n \<ge> LARGE_VERTEX_SIZE) (map (\<lambda>i. (i, ns ! i)) [k..<length ns])"

lemma num_blocks_eq: "num_blocks ns = (length ns + 31) div 32"
  using ROUNDUP_eq[of "length ns" 5] by (simp add: num_blocks_def ENTRY_SIZE_def)

lemma block_iff: "ENTRY_SIZE * b < length ns \<longleftrightarrow> b < num_blocks ns"
  by (simp add: num_blocks_eq ENTRY_SIZE_def) linarith

lemma vertex_off_0: "vertex_off s ns e 0 = s"
  by (simp add: vertex_off_def)

lemma vertex_off_Suc:
  "i < length ns \<Longrightarrow> vertex_off s ns e (Suc i) = vertex_off s ns e i + num_edges2vsize (ns ! i) e"
  by (simp add: vertex_off_def take_Suc_conv_app_nth)

lemma edges_of_vertex:
  assumes "graph_ok ns e" "i < length ns"
  shows "off_diff (int (vertex_off s ns e (Suc i))) (int (vertex_off s ns e i)) = num_edges2vsize (ns ! i) e"
    "vsize2num_edges (num_edges2vsize (ns ! i) e) e = ns ! i" "num_edges2vsize (ns ! i) e < 2 ^ 32" "ns ! i < 2 ^ 32"
proof -
  have b: "ns ! i < 2 ^ 32" "e < 2 ^ 32" "ns ! i * e < 2 ^ 32" "num_edges2vsize (ns ! i) e < 2 ^ 32"
    using assms nth_mem[OF assms(2)] unfolding graph_ok_def by blast+
  show "vsize2num_edges (num_edges2vsize (ns ! i) e) e = ns ! i" using vsize2num_edges_inverse b(1-3) .
  show "num_edges2vsize (ns ! i) e < 2 ^ 32" "ns ! i < 2 ^ 32" using b by simp_all
  show "off_diff (int (vertex_off s ns e (Suc i))) (int (vertex_off s ns e i)) = num_edges2vsize (ns ! i) e"
    using b(4) by (simp add: vertex_off_Suc[OF assms(2)] off_diff_def)
qed

section \<open>The plain index\<close>

lemma plain_get_vertex:
  assumes "plain_index s ns e ix" "i \<le> length ns"
  shows "uvi_get_vertex ix i = Inr (int (vertex_off s ns e i))"
  using assms by (simp add: plain_index_def uvi_get_vertex_def del: upt_Suc)

lemma plain_vertex_info:
  assumes "plain_index s ns e ix" "graph_ok ns e" "i < length ns"
  shows "uvi_get_vertex_info ix i
    = Inr \<lparr>evi_id = i, evi_size = num_edges2vsize (ns ! i) e, evi_off = int (vertex_off s ns e i)\<rparr>"
proof -
  have "u32 (i + 1) = Suc i" "u32 i = i" using assms(2,3) by (simp_all add: graph_ok_def u32_id)
  then show ?thesis
    using plain_get_vertex[OF assms(1)] assms(3) edges_of_vertex[OF assms(2,3)]
    by (simp add: uvi_get_vertex_info_def new_ext_mem_vertex_info_def u32_id)
qed

section \<open>Compression\<close>

lemma entry_from_list:
  assumes "graph_ok ns e" "m = min (length ns - ENTRY_SIZE * b) ENTRY_SIZE" "m < length offs"
    "(if num = 0 then ENTRY_SIZE else min (num - 1) ENTRY_SIZE) = m"
    and v: "\<And>i. i \<le> m \<Longrightarrow> offs ! i = int (vertex_off s ns e (ENTRY_SIZE * b + i))"
  shows "cue_of_offs offs e num = Inr (entry_of s ns e b)"
proof -
  let ?k = "ENTRY_SIZE * b"
  have "map (\<lambda>i. clip_edges (vsize2num_edges (off_diff (offs ! (i + 1)) (offs ! i)) e)) [0..<m]
      = map (\<lambda>i. clip_edges (ns ! (?k + i))) [0..<m]"
  proof (intro map_cong refl)
    fix i assume "i \<in> set [0..<m]"
    then have "?k + i < length ns" "i + 1 \<le> m" using assms(2) by auto
    then show "clip_edges (vsize2num_edges (off_diff (offs ! (i + 1)) (offs ! i)) e) = clip_edges (ns ! (?k + i))"
      using edges_of_vertex[OF assms(1), of "?k + i"] v[of i] v[of "i + 1"] by simp
  qed
  moreover have "map (\<lambda>i. clip_edges (ns ! (?k + i))) [0..<m] @ replicate (ENTRY_SIZE - m) 0
      = map (\<lambda>i. if ?k + i < length ns then clip_edges (ns ! (?k + i)) else 0) [0..<ENTRY_SIZE]"
    using assms(2) by (intro nth_equalityI) (auto simp: nth_append)
  moreover have "offs ! 0 = int (vertex_off s ns e ?k)" using v[of 0] by simp
  ultimately show ?thesis
    unfolding cue_of_offs_def assms(4) Let_def entry_of_def using assms(3) by (simp only: if_True)
qed

lemma entry_from_offsets:
  assumes "plain_index s ns e ix" "graph_ok ns e" "ENTRY_SIZE * b < length ns"
  shows "cue_of_offs (drop (ENTRY_SIZE * b) (uvi_vertices ix)) e (min (ENTRY_SIZE + 1) (length ns + 1 - ENTRY_SIZE * b))
    = Inr (entry_of s ns e b)"
proof (rule entry_from_list[OF assms(2) refl])
  let ?k = "ENTRY_SIZE * b" let ?m = "min (length ns - ?k) ENTRY_SIZE"
  show "drop ?k (uvi_vertices ix) ! i = int (vertex_off s ns e (?k + i))" if "i \<le> ?m" for i
  proof -
    have "?k + i < Suc (length ns)" using assms(3) that by linarith
    then show ?thesis using assms(1) by (simp add: plain_index_def nth_append del: upt_Suc)
  qed
  show "(if min (ENTRY_SIZE + 1) (length ns + 1 - ?k) = 0 then ENTRY_SIZE
      else min (min (ENTRY_SIZE + 1) (length ns + 1 - ?k) - 1) ENTRY_SIZE) = ?m" using assms(3) by auto
  show "?m < length (drop ?k (uvi_vertices ix))" using assms(1,3) by (simp add: plain_index_def)
qed

lemma entry_from_edges:
  assumes "ENTRY_SIZE * b < length ns"
  shows "cue_of_edges (int (vertex_off s ns e (ENTRY_SIZE * b))) (drop (ENTRY_SIZE * b) ns)
      (min ENTRY_SIZE (length ns - ENTRY_SIZE * b)) = Inr (entry_of s ns e b)"
proof -
  let ?k = "ENTRY_SIZE * b" let ?m = "min ENTRY_SIZE (length ns - ?k)"
  have "map (\<lambda>i. clip_edges (drop ?k ns ! i)) [0..<?m] @ replicate (ENTRY_SIZE - ?m) 0
      = map (\<lambda>i. if ?k + i < length ns then clip_edges (ns ! (?k + i)) else 0) [0..<ENTRY_SIZE]"
    using assms by (intro nth_equalityI) (auto simp: nth_append)
  then show ?thesis by (simp add: cue_of_edges_def entry_of_def)
qed

lemma entry_of_large:
  "i < ENTRY_SIZE \<Longrightarrow> cue_is_large_vertex (entry_of s ns e b) i
     \<longleftrightarrow> ENTRY_SIZE * b + i < length ns \<and> ns ! (ENTRY_SIZE * b + i) \<ge> LARGE_VERTEX_SIZE"
  by (simp add: cue_is_large_vertex_def entry_of_def clip_edges_def LARGE_VERTEX_SIZE_def)

lemma large_in_block:
  assumes "plain_index s ns e ix" "graph_ok ns e" "ENTRY_SIZE * b < length ns" "\<forall>i\<in>set is. i < ENTRY_SIZE"
  shows "cu_large ix e (entry_of s ns e b) (u32 (ENTRY_SIZE * b)) is
    = Inr (map (\<lambda>i. (ENTRY_SIZE * b + i, ns ! (ENTRY_SIZE * b + i)))
        (filter (\<lambda>i. ENTRY_SIZE * b + i < length ns \<and> ns ! (ENTRY_SIZE * b + i) \<ge> LARGE_VERTEX_SIZE) is))"
  using assms(4)
proof (induction "is")
  case (Cons i js)
  have u: "u32 (ENTRY_SIZE * b) = ENTRY_SIZE * b" using assms(2,3) by (simp add: u32_id graph_ok_def)
  show ?case
  proof (cases "cue_is_large_vertex (entry_of s ns e b) i")
    case True
    then have lt: "ENTRY_SIZE * b + i < length ns" "ns ! (ENTRY_SIZE * b + i) \<ge> LARGE_VERTEX_SIZE"
      using entry_of_large Cons.prems by auto
    have "u32 (ENTRY_SIZE * b + i) = ENTRY_SIZE * b + i" using lt(1) assms(2) by (simp add: u32_id graph_ok_def)
    then show ?thesis
      using Cons True lt plain_vertex_info[OF assms(1,2) lt(1)] edges_of_vertex(2)[OF assms(2) lt(1)] by (simp add: u)
  next
    case False
    moreover have "\<not> (ENTRY_SIZE * b + i < length ns \<and> ns ! (ENTRY_SIZE * b + i) \<ge> LARGE_VERTEX_SIZE)"
      using False entry_of_large[of i s ns e b] Cons.prems by simp
    ultimately show ?thesis using Cons by (simp only: cu_large.simps if_False filter.simps) simp
  qed
qed simp

lemma large_from_step:
  assumes "k \<le> length ns"
  shows "map (\<lambda>i. (k + i, ns ! (k + i))) (filter (\<lambda>i. k + i < length ns \<and> ns ! (k + i) \<ge> LARGE_VERTEX_SIZE) [0..<m])
    @ large_from ns (k + m) = large_from ns k"
proof -
  have shift: "filter P (map f [k..<k + j]) = map (\<lambda>i. f (k + i)) (filter (\<lambda>i. P (f (k + i))) [0..<j])"
    for j and f :: "nat \<Rightarrow> nat \<times> nat" and P
  proof -
    have "[k..<k + j] = map (\<lambda>i. k + i) [0..<j]" by (rule nth_equalityI) simp_all
    then show ?thesis by (simp add: filter_map comp_def)
  qed
  show ?thesis
  proof (cases "k + m \<le> length ns")
    case True
    then have "[k..<length ns] = [k..<k + m] @ [k + m..<length ns]"
      by (metis le_add1 le_add_diff_inverse upt_add_eq_append)
    moreover have "filter (\<lambda>i. k + i < length ns \<and> ns ! (k + i) \<ge> LARGE_VERTEX_SIZE) [0..<m]
        = filter (\<lambda>i. ns ! (k + i) \<ge> LARGE_VERTEX_SIZE) [0..<m]"
      using True by (intro filter_cong) auto
    ultimately show ?thesis by (simp add: large_from_def shift)
  next
    case False
    then have e: "large_from ns (k + m) = []" by (simp add: large_from_def)
    obtain j where j: "length ns = k + j" "j \<le> m" using assms False by (metis le_add_diff_inverse add_le_cancel_left nat_le_linear)
    have "[0..<m] = [0..<j] @ [j..<m]" using j(2) by (metis upt_add_eq_append le0 le_add_diff_inverse)
    then have "filter (\<lambda>i. k + i < length ns \<and> ns ! (k + i) \<ge> LARGE_VERTEX_SIZE) [0..<m]
        = filter (\<lambda>i. ns ! (k + i) \<ge> LARGE_VERTEX_SIZE) [0..<j]"
      using j(1) by (auto intro!: filter_cong simp: filter_empty_conv)
    then show ?thesis unfolding e by (simp add: large_from_def j(1) shift)
  qed
qed

lemma cu_blocks_spec:
  assumes "plain_index s ns e ix" "graph_ok ns e" "b \<le> num_blocks ns"
  shows "cu_blocks ix e (length ns + 1) (ENTRY_SIZE * b) = Inr (map (entry_of s ns e) [b..<num_blocks ns], large_from ns (ENTRY_SIZE * b))"
  using assms(3)
proof (induction "num_blocks ns - b" arbitrary: b)
  case 0
  then have "\<not> ENTRY_SIZE * b < length ns" by (simp add: block_iff)
  then show ?case using 0 by (simp add: cu_blocks.simps large_from_def)
next
  case (Suc d)
  then have b: "b < num_blocks ns" "ENTRY_SIZE * b < length ns" by (simp_all add: block_iff)
  have ih: "cu_blocks ix e (length ns + 1) (ENTRY_SIZE * Suc b)
      = Inr (map (entry_of s ns e) [Suc b..<num_blocks ns], large_from ns (ENTRY_SIZE * Suc b))"
    by (rule Suc.hyps(1)) (use Suc b(1) in simp_all)
  have lb: "cu_large ix e (entry_of s ns e b) (u32 (ENTRY_SIZE * b)) [0..<ENTRY_SIZE]
    = Inr (map (\<lambda>i. (ENTRY_SIZE * b + i, ns ! (ENTRY_SIZE * b + i)))
        (filter (\<lambda>i. ENTRY_SIZE * b + i < length ns \<and> ns ! (ENTRY_SIZE * b + i) \<ge> LARGE_VERTEX_SIZE) [0..<ENTRY_SIZE]))"
    by (rule large_in_block[OF assms(1,2) b(2)]) simp
  show ?case
    using entry_from_offsets[OF assms(1,2) b(2)] lb ih b large_from_step[of "ENTRY_SIZE * b" ns ENTRY_SIZE]
    by (subst cu_blocks.simps) (simp add: upt_conv_Cons add.commute)
qed

lemma block_sum:
  assumes "k + m \<le> length ns"
  shows "vertex_off s ns e k + sum_list (map (\<lambda>j. num_edges2vsize (ns ! (k + j)) e) [0..<m]) = vertex_off s ns e (k + m)"
  using assms by (induction m) (simp_all add: vertex_off_Suc)

lemma cu_edge_blocks_spec:
  assumes "b \<le> num_blocks ns"
  shows "cu_edge_blocks (length ns) ns e (vertex_off s ns e (min (ENTRY_SIZE * b) (length ns))) (ENTRY_SIZE * b)
    = Inr (map (entry_of s ns e) [b..<num_blocks ns])"
  using assms
proof (induction "num_blocks ns - b" arbitrary: b)
  case 0
  then have "\<not> ENTRY_SIZE * b < length ns" by (simp add: block_iff)
  then show ?case using 0 by (simp add: cu_edge_blocks.simps)
next
  case (Suc d)
  then have b: "b < num_blocks ns" "ENTRY_SIZE * b < length ns" by (simp_all add: block_iff)
  let ?k = "ENTRY_SIZE * b" let ?m = "min ENTRY_SIZE (length ns - ?k)"
  have nxt: "?k + ?m = min (ENTRY_SIZE * Suc b) (length ns)" using b(2) by auto
  have ih: "cu_edge_blocks (length ns) ns e (vertex_off s ns e (?k + ?m)) (ENTRY_SIZE * Suc b)
      = Inr (map (entry_of s ns e) [Suc b..<num_blocks ns])"
    unfolding nxt by (rule Suc.hyps(1)) (use Suc b(1) in simp_all)
  have sum: "vertex_off s ns e ?k + sum_list (map (\<lambda>j. num_edges2vsize (ns ! (?k + j)) e) [0..<?m]) = vertex_off s ns e (?k + ?m)"
    using b(2) by (intro block_sum) simp
  show ?case
    using entry_from_edges[OF b(2), of s e] ih b sum
    by (subst cu_edge_blocks.simps) (simp add: upt_conv_Cons min_absorb1 add.commute Let_def)
qed

section \<open>Queries\<close>

text \<open>The compressed index in memory.\<close>

definition compressed_of :: "nat \<Rightarrow> nat list \<Rightarrow> nat \<Rightarrow> in_mem_cundirected_vertex_index" where
  "compressed_of s ns e = \<lparr>imu_num_vertices = length ns, imu_edge_data_size = e,
     imu_large_vmap = map_of (large_from ns 0), imu_entries = map (entry_of s ns e) [0..<num_blocks ns]\<rparr>"

lemma map_of_large: "map_of (large_from ns 0) i = (if i < length ns \<and> ns ! i \<ge> LARGE_VERTEX_SIZE then Some (ns ! i) else None)"
proof -
  have d: "distinct (map fst (large_from ns 0))"
  proof -
    have "map fst (large_from ns 0) = filter (\<lambda>i. ns ! i \<ge> LARGE_VERTEX_SIZE) [0..<length ns]"
      by (simp add: large_from_def filter_map comp_def)
    then show ?thesis by simp
  qed
  show ?thesis
  proof (cases "i < length ns \<and> ns ! i \<ge> LARGE_VERTEX_SIZE")
    case True
    then have "(i, ns ! i) \<in> set (large_from ns 0)" by (auto simp: large_from_def)
    then show ?thesis using d True by simp
  next
    case False
    then have "i \<notin> fst ` set (large_from ns 0)" by (auto simp: large_from_def)
    then have "map_of (large_from ns 0) i = None" by (simp add: map_of_eq_None_iff)
    then show ?thesis using False by (simp only: if_False)
  qed
qed

lemma block_of: "i < length ns \<Longrightarrow> i div ENTRY_SIZE < num_blocks ns"
  by (metis block_iff ENTRY_SIZE_def le_less_trans mult.commute times_div_less_eq_dividend)

lemma compressed_num_edges:
  assumes "i < length ns"
  shows "imu_get_num_edges (compressed_of s ns e) i = Inr (ns ! i)"
proof -
  have i: "ENTRY_SIZE * (i div ENTRY_SIZE) + i mod ENTRY_SIZE = i" by simp
  have m: "i mod ENTRY_SIZE < ENTRY_SIZE" by (simp add: ENTRY_SIZE_def)
  have "cue_edges (entry_of s ns e (i div ENTRY_SIZE)) ! (i mod ENTRY_SIZE) = clip_edges (ns ! i)"
    using m assms by (simp add: entry_of_def i)
  then show ?thesis
    using block_of[OF assms] assms
    by (simp add: imu_get_num_edges_def compressed_of_def map_of_large clip_edges_def Let_def)
qed

lemma compressed_get_size:
  "i < length ns \<Longrightarrow> imu_get_size (compressed_of s ns e) i = Inr (num_edges2vsize (ns ! i) e)"
  by (simp add: imu_get_size_def compressed_num_edges) (simp add: compressed_of_def)

lemma compressed_add_sizes:
  "k + a + m \<le> length ns \<Longrightarrow>
    imu_add_sizes (compressed_of s ns e) k [a..<a + m] (int (vertex_off s ns e (k + a))) = Inr (int (vertex_off s ns e (k + a + m)))"
proof (induction m arbitrary: a)
  case (Suc m)
  have "imu_add_sizes (compressed_of s ns e) k [Suc a..<Suc a + m] (int (vertex_off s ns e (k + Suc a)))
      = Inr (int (vertex_off s ns e (k + Suc a + m)))"
    using Suc.prems by (intro Suc.IH) simp
  then show ?case using Suc.prems
    by (simp add: upt_conv_Cons compressed_get_size vertex_off_Suc del: upt_Suc)
qed simp

lemma compressed_get_vertex:
  assumes "i < length ns"
  shows "imu_get_vertex (compressed_of s ns e) i = Inr (int (vertex_off s ns e i))"
proof -
  have i: "i div ENTRY_SIZE * ENTRY_SIZE + i mod ENTRY_SIZE = i" by simp
  have "imu_add_sizes (compressed_of s ns e) (i div ENTRY_SIZE * ENTRY_SIZE) [0..<0 + i mod ENTRY_SIZE]
      (int (vertex_off s ns e (i div ENTRY_SIZE * ENTRY_SIZE + 0))) = Inr (int (vertex_off s ns e i))"
    using compressed_add_sizes[of "i div ENTRY_SIZE * ENTRY_SIZE" 0 "i mod ENTRY_SIZE" ns s e] assms i by simp
  then show ?thesis using block_of[OF assms]
    by (simp add: imu_get_vertex_def) (simp add: compressed_of_def entry_of_def mult.commute)
qed

end
