(* ===== verification/Directed_Index_Laws.thy ===== *)
theory Directed_Index_Laws
  imports Directed_Index Vertex_Index_Laws
begin

text \<open>
  The directed index is two undirected ones: its in-lane and its out-lane. Each operation of the directed
  index, seen on a lane, is the operation of the undirected index on that lane, so the laws of the
  undirected index carry over.
\<close>

section \<open>Lanes\<close>

definition in_lane :: "directed_vertex_index \<Rightarrow> undirected_vertex_index" where
  "in_lane ix = \<lparr>uvi_h = dvi_h ix, uvi_vertices = map dve_in_off (dvi_vertices ix)\<rparr>"

definition out_lane :: "directed_vertex_index \<Rightarrow> undirected_vertex_index" where
  "out_lane ix = \<lparr>uvi_h = dvi_h ix, uvi_vertices = map dve_out_off (dvi_vertices ix)\<rparr>"

definition in_entry :: "compressed_directed_vertex_entry \<Rightarrow> compressed_undirected_vertex_entry" where
  "in_entry e = \<lparr>cue_start_offs = dve_in_off (cde_start_offs e), cue_edges = map fst (cde_edges e)\<rparr>"

definition out_entry :: "compressed_directed_vertex_entry \<Rightarrow> compressed_undirected_vertex_entry" where
  "out_entry e = \<lparr>cue_start_offs = dve_out_off (cde_start_offs e), cue_edges = map snd (cde_edges e)\<rparr>"

definition imd_in_lane :: "in_mem_cdirected_vertex_index \<Rightarrow> in_mem_cundirected_vertex_index" where
  "imd_in_lane ix = \<lparr>imu_num_vertices = imd_num_vertices ix, imu_edge_data_size = imd_edge_data_size ix,
     imu_large_vmap = imd_large_in_vmap ix, imu_entries = map in_entry (imd_entries ix)\<rparr>"

definition imd_out_lane :: "in_mem_cdirected_vertex_index \<Rightarrow> in_mem_cundirected_vertex_index" where
  "imd_out_lane ix = \<lparr>imu_num_vertices = imd_num_vertices ix, imu_edge_data_size = imd_edge_data_size ix,
     imu_large_vmap = imd_large_out_vmap ix, imu_entries = map out_entry (imd_entries ix)\<rparr>"

lemma lane_get_vertex:
  "uvi_get_vertex (in_lane ix) i = bind_res (dvi_get_vertex ix i) (\<lambda>e. Inr (dve_in_off e))"
  "uvi_get_vertex (out_lane ix) i = bind_res (dvi_get_vertex ix i) (\<lambda>e. Inr (dve_out_off e))"
  by (simp_all add: uvi_get_vertex_def dvi_get_vertex_def in_lane_def out_lane_def assert_then_def)

lemma lane_vertex_info:
  "uvi_get_vertex_info (in_lane ix) i = dvi_get_vertex_info_in ix i"
  "uvi_get_vertex_info (out_lane ix) i = dvi_get_vertex_info_out ix i"
  by (cases "dvi_get_vertex ix (u32 (i + 1))"; cases "dvi_get_vertex ix i";
      simp add: uvi_get_vertex_info_def dvi_get_vertex_info_in_def dvi_get_vertex_info_out_def lane_get_vertex)+

lemma lane_of_offs:
  "cue_of_offs (map dve_in_off offs) eds num = bind_res (cde_of_offs offs eds num) (\<lambda>e. Inr (in_entry e))"
  "cue_of_offs (map dve_out_off offs) eds num = bind_res (cde_of_offs offs eds num) (\<lambda>e. Inr (out_entry e))"
  by (auto simp: cue_of_offs_def cde_of_offs_def in_entry_def out_entry_def Let_def nth_append, (rule nth_map, linarith)+)

lemma lane_of_edges:
  assumes "cde_of_edges offs ins outs n = Inr e"
  shows "cue_of_edges (dve_in_off offs) ins n = Inr (in_entry e)" "cue_of_edges (dve_out_off offs) outs n = Inr (out_entry e)"
  using assms by (auto simp: cue_of_edges_def cde_of_edges_def in_entry_def out_entry_def split: if_splits)

lemma cde_length:
  "cde_of_offs offs eds num = Inr e \<Longrightarrow> length (cde_edges e) = ENTRY_SIZE"
  "cde_of_edges offs' ins outs n = Inr e \<Longrightarrow> length (cde_edges e) = ENTRY_SIZE"
  by (auto simp: cde_of_offs_def cde_of_edges_def Let_def split: if_splits)

lemma lane_large:
  "i < length (cde_edges e) \<Longrightarrow> cue_is_large_vertex (in_entry e) i = cde_is_large_in_vertex e i"
  "i < length (cde_edges e) \<Longrightarrow> cue_is_large_vertex (out_entry e) i = cde_is_large_out_vertex e i"
  by (simp_all add: cue_is_large_vertex_def cde_is_large_in_vertex_def cde_is_large_out_vertex_def in_entry_def out_entry_def)

lemma cd_large_lanes:
  assumes "\<forall>i\<in>set is. i < length (cde_edges e)"
    "cu_large (in_lane ix) eds (in_entry e) vid is = Inr l1" "cu_large (out_lane ix) eds (out_entry e) vid is = Inr l2"
  shows "cd_large ix eds e vid is = Inr (l1, l2)"
  using assms
proof (induction "is" arbitrary: l1 l2)
  case (Cons i js)
  have i: "i < length (cde_edges e)" using Cons.prems(1) by simp
  obtain a1 k1 where 1: "(if cde_is_large_in_vertex e i
        then bind_res (dvi_get_vertex_info_in ix (u32 (vid + i))) (\<lambda>info.
             Inr [(u32 (vid + i), vsize2num_edges (evi_size info) eds)]) else Inr []) = Inr a1"
    "cu_large (in_lane ix) eds (in_entry e) vid js = Inr k1" "l1 = a1 @ k1"
    using Cons.prems(2) lane_large(1)[OF i] by (auto simp: lane_vertex_info res_simps split: if_splits)
  obtain a2 k2 where 2: "(if cde_is_large_out_vertex e i
        then bind_res (dvi_get_vertex_info_out ix (u32 (vid + i))) (\<lambda>info.
             Inr [(u32 (vid + i), vsize2num_edges (evi_size info) eds)]) else Inr []) = Inr a2"
    "cu_large (out_lane ix) eds (out_entry e) vid js = Inr k2" "l2 = a2 @ k2"
    using Cons.prems(3) lane_large(2)[OF i] by (auto simp: lane_vertex_info res_simps split: if_splits)
  have "cd_large ix eds e vid js = Inr (k1, k2)" using Cons.IH[OF _ 1(2) 2(2)] Cons.prems(1) by simp
  then show ?case unfolding cd_large.simps 1(1) 2(1) using 1(3) 2(3) by simp
qed simp

lemma cd_blocks_lanes:
  assumes "cu_blocks (in_lane ix) eds n off = Inr (es1, l1)" "cu_blocks (out_lane ix) eds n off = Inr (es2, l2)"
  shows "\<exists>es. cd_blocks ix eds n off = Inr (es, l1, l2) \<and> map in_entry es = es1 \<and> map out_entry es = es2
    \<and> (\<forall>e\<in>set es. length (cde_edges e) = ENTRY_SIZE)"
  using assms
proof (induction ix eds n off arbitrary: es1 es2 l1 l2 rule: cd_blocks.induct)
  case (1 ix eds n off)
  show ?case
  proof (cases "off < n - 1")
    case False
    then show ?thesis using 1(2,3) by (simp add: cd_blocks.simps cu_blocks.simps)
  next
    case True
    let ?num = "min (ENTRY_SIZE + 1) (n - off)"
    obtain e1 k1 es1' l1' where i: "cue_of_offs (drop off (map dve_in_off (dvi_vertices ix))) eds ?num = Inr e1"
      "cu_large (in_lane ix) eds e1 (u32 off) [0..<ENTRY_SIZE] = Inr k1"
      "cu_blocks (in_lane ix) eds n (off + ENTRY_SIZE) = Inr (es1', l1')" "es1 = e1 # es1'" "l1 = k1 @ l1'"
      using 1(2) True by (subst (asm) cu_blocks.simps) (auto simp: res_simps in_lane_def)
    obtain e2 k2 es2' l2' where o: "cue_of_offs (drop off (map dve_out_off (dvi_vertices ix))) eds ?num = Inr e2"
      "cu_large (out_lane ix) eds e2 (u32 off) [0..<ENTRY_SIZE] = Inr k2"
      "cu_blocks (out_lane ix) eds n (off + ENTRY_SIZE) = Inr (es2', l2')" "es2 = e2 # es2'" "l2 = k2 @ l2'"
      using 1(3) True by (subst (asm) cu_blocks.simps) (auto simp: res_simps out_lane_def)
    obtain e where e: "cde_of_offs (drop off (dvi_vertices ix)) eds ?num = Inr e" "e1 = in_entry e" "e2 = out_entry e"
      using i(1) o(1) by (auto simp: drop_map lane_of_offs res_simps)
    have len: "length (cde_edges e) = ENTRY_SIZE" by (rule cde_length(1)[OF e(1)])
    have lg: "cd_large ix eds e (u32 off) [0..<ENTRY_SIZE] = Inr (k1, k2)"
      using cd_large_lanes[of "[0..<ENTRY_SIZE]" e ix eds "u32 off" k1 k2] i(2) o(2) e(2,3) len by simp
    obtain es where es: "cd_blocks ix eds n (off + ENTRY_SIZE) = Inr (es, l1', l2')" "map in_entry es = es1'" "map out_entry es = es2'"
      "\<forall>e\<in>set es. length (cde_edges e) = ENTRY_SIZE"
      using 1(1)[OF True e(1) lg _ i(3) o(3)] by blast
    show ?thesis using True e lg es i o len by (subst cd_blocks.simps) simp
  qed
qed

section \<open>Queries\<close>

definition imd_wf :: "in_mem_cdirected_vertex_index \<Rightarrow> bool" where
  "imd_wf ix \<longleftrightarrow> (\<forall>e\<in>set (imd_entries ix). length (cde_edges e) = ENTRY_SIZE)"

lemma lane_num_edges:
  assumes "imd_wf ix"
  shows "imd_get_num_in_edges ix i = imu_get_num_edges (imd_in_lane ix) i"
    "imd_get_num_out_edges ix i = imu_get_num_edges (imd_out_lane ix) i"
proof -
  have m: "i mod ENTRY_SIZE < ENTRY_SIZE" by (simp add: ENTRY_SIZE_def)
  have "i mod ENTRY_SIZE < length (cde_edges (imd_entries ix ! (i div ENTRY_SIZE)))"
    if "i div ENTRY_SIZE < length (imd_entries ix)" using assms m nth_mem[OF that] by (simp add: imd_wf_def)
  then show "imd_get_num_in_edges ix i = imu_get_num_edges (imd_in_lane ix) i"
    "imd_get_num_out_edges ix i = imu_get_num_edges (imd_out_lane ix) i"
    by (simp_all add: imd_get_num_in_edges_def imd_get_num_out_edges_def imu_get_num_edges_def imd_in_lane_def
      imd_out_lane_def in_entry_def out_entry_def Let_def)
qed

lemma lane_sizes:
  assumes "imd_wf ix"
  shows "imd_get_in_size ix i = imu_get_size (imd_in_lane ix) i" "imd_get_out_size ix i = imu_get_size (imd_out_lane ix) i"
  using lane_num_edges[OF assms]
  by (simp_all add: imd_get_in_size_def imd_get_out_size_def imu_get_size_def imd_in_lane_def imd_out_lane_def)

lemma lane_add_sizes:
  assumes "imd_wf ix" "imu_add_sizes (imd_in_lane ix) k is (dve_in_off e) = Inr a"
    "imu_add_sizes (imd_out_lane ix) k is (dve_out_off e) = Inr b"
  shows "imd_add_sizes ix k is e = Inr \<lparr>dve_in_off = a, dve_out_off = b\<rparr>"
  using assms(2,3)
proof (induction "is" arbitrary: e)
  case (Cons i js)
  then show ?case by (auto simp: lane_sizes[OF assms(1)] res_simps)
qed simp

lemma lane_get_offsets:
  assumes "imd_wf ix" "imu_get_vertex (imd_in_lane ix) i = Inr a" "imu_get_vertex (imd_out_lane ix) i = Inr b"
  shows "imd_get_vertex ix i = Inr \<lparr>dve_in_off = a, dve_out_off = b\<rparr>"
proof -
  have i: "i div ENTRY_SIZE < length (imd_entries ix)"
    using assms(2) by (simp add: imu_get_vertex_def imd_in_lane_def split: if_splits)
  show ?thesis
    unfolding imd_get_vertex_def using i
    by (simp, intro lane_add_sizes[OF assms(1)])
       (use assms(2,3) i in \<open>simp_all add: imu_get_vertex_def, simp_all add: imd_in_lane_def imd_out_lane_def in_entry_def out_entry_def\<close>)
qed

end
