(* ===== verification/Index_Construct_Laws.thy ===== *)
theory Index_Construct_Laws
  imports Index_Construct Directed_Index_Laws
begin

text \<open>
  The constructors and the iterators of the vertex index compute the closed forms of the index laws.
\<close>

section \<open>Adding vertices\<close>

fun add_all :: "('c \<Rightarrow> in_mem_vertex \<Rightarrow> 'c res) \<Rightarrow> 'c \<Rightarrow> in_mem_vertex list \<Rightarrow> 'c res" where
  "add_all f c [] = Inr c"
| "add_all f c (v # vs) = bind_res (f c v) (\<lambda>c. add_all f c vs)"

text \<open>The vertex number \<open>i\<close> of an undirected graph has \<open>n\<close> edges.\<close>

definition vertex_is :: "nat \<Rightarrow> in_mem_vertex \<Rightarrow> nat \<Rightarrow> nat \<Rightarrow> bool" where
  "vertex_is e v i n \<longleftrightarrow> imv_id v = i \<and> imv_serialize_size v IN_EDGE = Inr (num_edges2vsize n e)"

definition vertices_are :: "nat \<Rightarrow> in_mem_vertex list \<Rightarrow> nat list \<Rightarrow> bool" where
  "vertices_are e vs ns \<longleftrightarrow> length vs = length ns \<and> (\<forall>i<length ns. vertex_is e (vs ! i) i (ns ! i))"

lemma add_all_states:
  assumes step: "\<And>xs v n. Q (xs @ [n]) \<Longrightarrow> R v (length xs) n \<Longrightarrow> f (st xs) v = Inr (st (xs @ [n]))"
    and Q: "\<And>xs ys. Q (xs @ ys) \<Longrightarrow> Q xs"
    and "Q (ns1 @ ns2)" "length vs = length ns2" "\<forall>i<length ns2. R (vs ! i) (length ns1 + i) (ns2 ! i)"
  shows "add_all f (st ns1) vs = Inr (st (ns1 @ ns2))"
  using assms(3-5)
proof (induction vs arbitrary: ns1 ns2)
  case (Cons v vs)
  then obtain n ns' where ns2: "ns2 = n # ns'" by (cases ns2) auto
  have "R v (length ns1) n" using Cons.prems(3)[rule_format, of 0] by (simp add: ns2)
  moreover have "Q (ns1 @ [n])" using Q[of "ns1 @ [n]" ns'] Cons.prems(1) by (simp add: ns2)
  ultimately have "f (st ns1) v = Inr (st (ns1 @ [n]))" by (intro step)
  moreover have "add_all f (st (ns1 @ [n])) vs = Inr (st ((ns1 @ [n]) @ ns'))"
  proof (rule Cons.IH)
    show "\<forall>i<length ns'. R (vs ! i) (length (ns1 @ [n]) + i) (ns' ! i)"
      using Cons.prems(3) by (auto simp: ns2)
  qed (use Cons.prems in \<open>simp_all add: ns2\<close>)
  ultimately show ?case by (simp add: ns2)
qed simp

lemma vertex_off_append: "i \<le> length ns \<Longrightarrow> vertex_off s (ns @ ms) e i = vertex_off s ns e i"
  by (simp add: vertex_off_def)

lemma entry_of_append:
  "ENTRY_SIZE * b + ENTRY_SIZE \<le> length ns \<Longrightarrow> entry_of s (ns @ ms) e b = entry_of s ns e b"
  by (simp add: entry_of_def vertex_off_append nth_append)

lemma graph_ok_append: "graph_ok (ns @ ms) e \<Longrightarrow> graph_ok ns e"
  by (auto simp: graph_ok_def)

abbreviation offsets_of :: "nat \<Rightarrow> nat list \<Rightarrow> nat \<Rightarrow> int list" where
  "offsets_of s ns e \<equiv> map (\<lambda>i. int (vertex_off s ns e i)) [0..<length ns + 1]"

lemma offsets_of_snoc: "offsets_of s (ns @ [n]) e = offsets_of s ns e @ [int (vertex_off s ns e (length ns)) + int (num_edges2vsize n e)]"
  by (simp add: vertex_off_append vertex_off_Suc)

lemma last_offsets: "last (offsets_of s ns e) = int (vertex_off s ns e (length ns))"
  by simp

lemma uvic_add_all:
  assumes "vertices_are e vs ns"
  shows "add_all uvic_add_vertex new_uvic vs = Inr (offsets_of HEADER_SIZE ns e)"
proof -
  have "add_all uvic_add_vertex (offsets_of HEADER_SIZE [] e) vs = Inr (offsets_of HEADER_SIZE ([] @ ns) e)"
  proof (rule add_all_states[where Q = "\<lambda>_. True" and R = "vertex_is e"])
    show "uvic_add_vertex (offsets_of HEADER_SIZE xs e) v = Inr (offsets_of HEADER_SIZE (xs @ [n]) e)"
      if "vertex_is e v (length xs) n" for xs v n
      using that unfolding offsets_of_snoc uvic_add_vertex_def last_offsets vertex_offset_init_def
      by (simp add: vertex_is_def)
  qed (use assms in \<open>simp_all add: vertices_are_def\<close>)
  then show ?thesis by (simp add: new_uvic_def vertex_off_0)
qed

section \<open>The compressed constructor\<close>

definition full_blocks :: "nat list \<Rightarrow> nat" where
  "full_blocks ns = (length ns - 1) div ENTRY_SIZE"

definition large_upto :: "nat list \<Rightarrow> nat \<Rightarrow> large_vertex_t list" where
  "large_upto ns k = filter (\<lambda>(i, n). n \<ge> LARGE_VERTEX_SIZE) (map (\<lambda>i. (i, ns ! i)) [0..<k])"

definition cuvic_state :: "nat \<Rightarrow> nat list \<Rightarrow> cuvic" where
  "cuvic_state e ns = \<lparr>cuvic_edge_data_size = e,
     cuvic_centries = map (entry_of HEADER_SIZE ns e) [0..<full_blocks ns],
     cuvic_last_entries = map (\<lambda>i. int (vertex_off HEADER_SIZE ns e i)) [ENTRY_SIZE * full_blocks ns..<length ns + 1],
     cuvic_large_vertices = large_upto ns (ENTRY_SIZE * full_blocks ns)\<rparr>"

lemma full_blocks_bounds:
  "ENTRY_SIZE * full_blocks ns \<le> length ns" "length ns \<le> ENTRY_SIZE * full_blocks ns + ENTRY_SIZE"
  "ns \<noteq> [] \<Longrightarrow> ENTRY_SIZE * full_blocks ns < length ns"
proof -
  have "length ns - 1 = ENTRY_SIZE * full_blocks ns + (length ns - 1) mod ENTRY_SIZE"
    "(length ns - 1) mod ENTRY_SIZE < ENTRY_SIZE"
    by (simp_all add: full_blocks_def ENTRY_SIZE_def)
  then show "ENTRY_SIZE * full_blocks ns \<le> length ns" "length ns \<le> ENTRY_SIZE * full_blocks ns + ENTRY_SIZE"
    "ns \<noteq> [] \<Longrightarrow> ENTRY_SIZE * full_blocks ns < length ns"
    by (linarith, linarith, cases ns) auto
qed

lemma full_blocks_snoc:
  "full_blocks (ns @ [n]) = (if length ns = ENTRY_SIZE * full_blocks ns + ENTRY_SIZE then Suc (full_blocks ns) else full_blocks ns)"
proof (cases "length ns = ENTRY_SIZE * full_blocks ns + ENTRY_SIZE")
  case True
  then have "full_blocks (ns @ [n]) = (Suc (full_blocks ns) * ENTRY_SIZE) div ENTRY_SIZE"
    by (simp add: full_blocks_def[of "ns @ [n]"] mult.commute)
  then show ?thesis using True by (simp add: ENTRY_SIZE_def)
next
  case False
  then have "length ns - ENTRY_SIZE * full_blocks ns < ENTRY_SIZE"
    using full_blocks_bounds(1,2)[of ns] by linarith
  moreover have "length ns = (length ns - ENTRY_SIZE * full_blocks ns) + full_blocks ns * ENTRY_SIZE"
    using full_blocks_bounds(1)[of ns] by (simp add: mult.commute)
  ultimately have "length ns div ENTRY_SIZE = full_blocks ns"
    by (metis ENTRY_SIZE_def div_less div_mult_self3 add.right_neutral zero_neq_numeral add.commute)
  then show ?thesis using False by (simp add: full_blocks_def[of "ns @ [n]"])
qed

lemma cuvic_large_spec:
  assumes "graph_ok ns e" "\<forall>i\<in>set is. i < ENTRY_SIZE \<and> ENTRY_SIZE * b + i < length ns"
    "\<forall>i\<in>set is. offs ! i = int (vertex_off s ns e (ENTRY_SIZE * b + i)) \<and> offs ! (i + 1) = int (vertex_off s ns e (ENTRY_SIZE * b + i + 1))"
    "ENTRY_SIZE * b \<le> length ns"
  shows "cuvic_large e (u32 (ENTRY_SIZE * b)) (entry_of s ns e b) offs is
    = map (\<lambda>i. (ENTRY_SIZE * b + i, ns ! (ENTRY_SIZE * b + i)))
        (filter (\<lambda>i. ENTRY_SIZE * b + i < length ns \<and> ns ! (ENTRY_SIZE * b + i) \<ge> LARGE_VERTEX_SIZE) is)"
  using assms(2,3)
proof (induction "is")
  case (Cons i js)
  have u: "u32 (ENTRY_SIZE * b) = ENTRY_SIZE * b" "u32 (ENTRY_SIZE * b + i) = ENTRY_SIZE * b + i"
    using assms(1,4) Cons.prems(1) by (simp_all add: u32_id graph_ok_def)
  have i: "ENTRY_SIZE * b + i < length ns" "i < ENTRY_SIZE" using Cons.prems(1) by simp_all
  have "vsize2num_edges (off_diff (offs ! (i + 1)) (offs ! i)) e = ns ! (ENTRY_SIZE * b + i)"
    using edges_of_vertex(1,2)[OF assms(1) i(1)] Cons.prems(2) by simp
  then show ?case using Cons u i entry_of_large[OF i(2), of s ns e b] by simp
qed simp

lemma large_upto_step:
  assumes "k + m \<le> length ns"
  shows "large_upto ns k @ map (\<lambda>i. (k + i, ns ! (k + i))) (filter (\<lambda>i. k + i < length ns \<and> ns ! (k + i) \<ge> LARGE_VERTEX_SIZE) [0..<m])
    = large_upto ns (k + m)"
proof -
  have "[0..<k + m] = [0..<k] @ map (\<lambda>i. k + i) [0..<m]" by (rule nth_equalityI) (auto simp: nth_append)
  moreover have "filter (\<lambda>i. k + i < length ns \<and> ns ! (k + i) \<ge> LARGE_VERTEX_SIZE) [0..<m] = filter (\<lambda>i. ns ! (k + i) \<ge> LARGE_VERTEX_SIZE) [0..<m]"
    using assms by (intro filter_cong) auto
  ultimately show ?thesis by (simp add: large_upto_def filter_map comp_def)
qed

lemma cuvic_flush_spec:
  assumes "graph_ok ns e"
  shows "cuvic_flush (cuvic_state e ns) = Inr \<lparr>cuvic_edge_data_size = e,
     cuvic_centries = map (entry_of HEADER_SIZE ns e) [0..<Suc (full_blocks ns)],
     cuvic_last_entries = [], cuvic_large_vertices = large_upto ns (length ns)\<rparr>"
proof -
  let ?b = "full_blocks ns" let ?k = "ENTRY_SIZE * ?b" let ?m = "length ns - ?k"
  let ?offs = "map (\<lambda>i. int (vertex_off HEADER_SIZE ns e i)) [?k..<length ns + 1]"
  note bd = full_blocks_bounds[of ns]
  have m: "?m \<le> ENTRY_SIZE" "?k + ?m = length ns" using bd by simp_all
  have len: "length ?offs = ?m + 1" using bd(1) by simp
  have at: "?offs ! i = int (vertex_off HEADER_SIZE ns e (?k + i))" if "i \<le> ?m" for i
  proof -
    have "?k + i < length ns + 1" using that bd(1) by linarith
    then show ?thesis using nth_upt[of ?k i "length ns + 1"] len that by (simp only: nth_map length_upt length_map) simp
  qed
  have e: "cue_of_offs ?offs e (length ?offs) = Inr (entry_of HEADER_SIZE ns e ?b)"
    by (rule entry_from_list[OF assms refl]) (use m at in \<open>simp_all add: len min_absorb1 del: upt_Suc\<close>)
  have l: "cuvic_large e (u32 ?k) (entry_of HEADER_SIZE ns e ?b) ?offs [0..<?m]
    = map (\<lambda>i. (?k + i, ns ! (?k + i))) (filter (\<lambda>i. ?k + i < length ns \<and> ns ! (?k + i) \<ge> LARGE_VERTEX_SIZE) [0..<?m])"
    by (rule cuvic_large_spec[OF assms]) (use m at bd(1) in \<open>auto simp del: upt_Suc\<close>)
  show ?thesis
    unfolding cuvic_flush_def
    using e l len m(1) large_upto_step[of ?k ?m ns] m(2)
    by (simp add: cuvic_state_def Let_def mult.commute del: upt_Suc) (simp add: upt_Suc_append)
qed

lemma cuvic_step:
  assumes "graph_ok (ns @ [n]) e" "vertex_is e v (length ns) n"
  shows "cuvic_add_vertex (cuvic_state e ns) v = Inr (cuvic_state e (ns @ [n]))"
proof -
  let ?b = "full_blocks ns" let ?k = "ENTRY_SIZE * ?b"
  note bd = full_blocks_bounds[of ns]
  have ok: "graph_ok ns e" using graph_ok_append[OF assms(1)] .
  have num: "cuvic_get_num_vertices (cuvic_state e ns) = length ns"
    using bd(1) by (simp add: cuvic_get_num_vertices_def cuvic_state_def mult.commute)
  have len: "length (cuvic_last_entries (cuvic_state e ns)) = length ns - ?k + 1"
    using bd(1) by (simp add: cuvic_state_def)
  have last: "last (cuvic_last_entries (cuvic_state e ns)) = int (vertex_off HEADER_SIZE ns e (length ns))"
    using bd(1) by (simp add: cuvic_state_def)
  have offn: "vertex_off HEADER_SIZE (ns @ [n]) e (Suc (length ns)) = vertex_off HEADER_SIZE ns e (length ns) + num_edges2vsize n e"
    by (simp add: vertex_off_Suc vertex_off_append)
  show ?thesis
  proof (cases "length ns = ?k + ENTRY_SIZE")
    case True
    have fb: "full_blocks (ns @ [n]) = Suc ?b" "ENTRY_SIZE * Suc ?b = length ns" using True full_blocks_snoc[of ns n] by simp_all
    have ce: "map (entry_of HEADER_SIZE (ns @ [n]) e) [0..<Suc ?b] = map (entry_of HEADER_SIZE ns e) [0..<Suc ?b]"
    proof (intro map_cong refl entry_of_append)
      fix j assume "j \<in> set [0..<Suc ?b]"
      then have "ENTRY_SIZE * Suc j \<le> ENTRY_SIZE * Suc ?b" by (intro mult_le_mono) auto
      then show "ENTRY_SIZE * j + ENTRY_SIZE \<le> length ns" unfolding fb(2) by (simp only: mult_Suc_right add.commute)
    qed
    have lu: "large_upto (ns @ [n]) (length ns) = large_upto ns (length ns)"
      by (auto simp: large_upto_def nth_append intro!: arg_cong[of _ _ "filter _"])
    have "cuvic_state e (ns @ [n]) = \<lparr>cuvic_edge_data_size = e,
        cuvic_centries = map (entry_of HEADER_SIZE ns e) [0..<Suc ?b],
        cuvic_last_entries = [int (vertex_off HEADER_SIZE ns e (length ns)),
          int (vertex_off HEADER_SIZE ns e (length ns)) + int (num_edges2vsize n e)],
        cuvic_large_vertices = large_upto ns (length ns)\<rparr>"
      unfolding cuvic_state_def fb ce lu using offn by (simp add: vertex_off_append)
    then show ?thesis
      unfolding cuvic_add_vertex_def num last Let_def
      using assms(2) len True cuvic_flush_spec[OF ok]
      by (simp add: vertex_is_def vertex_offset_init_def assert_then_def del: upt_Suc) (simp add: cuvic_state_def)
  next
    case False
    then have fb: "full_blocks (ns @ [n]) = ?b" using full_blocks_snoc[of ns n] by simp
    have small: "length ns - ?k + 1 \<le> ENTRY_SIZE" using False bd by linarith
    have ce: "map (entry_of HEADER_SIZE (ns @ [n]) e) [0..<?b] = map (entry_of HEADER_SIZE ns e) [0..<?b]"
    proof (intro map_cong refl entry_of_append)
      fix j assume "j \<in> set [0..<?b]"
      then have "ENTRY_SIZE * Suc j \<le> ENTRY_SIZE * ?b" by (intro mult_le_mono) auto
      then show "ENTRY_SIZE * j + ENTRY_SIZE \<le> length ns" using bd(1) by simp
    qed
    have lu: "large_upto (ns @ [n]) ?k = large_upto ns ?k"
      using bd(1) by (auto simp: large_upto_def nth_append intro!: arg_cong[of _ _ "filter _"])
    have le: "map (\<lambda>i. int (vertex_off HEADER_SIZE (ns @ [n]) e i)) [?k..<length (ns @ [n]) + 1]
        = map (\<lambda>i. int (vertex_off HEADER_SIZE ns e i)) [?k..<length ns + 1]
          @ [int (vertex_off HEADER_SIZE ns e (length ns)) + int (num_edges2vsize n e)]"
      using bd(1) offn by (simp add: vertex_off_append)
    have "cuvic_state e (ns @ [n]) = (cuvic_state e ns)\<lparr>cuvic_last_entries :=
        cuvic_last_entries (cuvic_state e ns) @ [int (vertex_off HEADER_SIZE ns e (length ns)) + int (num_edges2vsize n e)]\<rparr>"
      unfolding cuvic_state_def fb ce lu le by simp
    then show ?thesis
      unfolding cuvic_add_vertex_def num last Let_def
      using assms(2) len small by (auto simp: vertex_is_def vertex_offset_init_def assert_then_def)
  qed
qed

lemma cuvic_add_all:
  assumes "vertices_are e vs ns" "graph_ok ns e"
  shows "add_all cuvic_add_vertex (new_cuvic e) vs = Inr (cuvic_state e ns)"
proof -
  have "add_all cuvic_add_vertex (cuvic_state e []) vs = Inr (cuvic_state e ([] @ ns))"
    by (rule add_all_states[where Q = "\<lambda>ns. graph_ok ns e" and R = "vertex_is e"])
       (use assms cuvic_step graph_ok_append in \<open>auto simp: vertices_are_def\<close>)
  moreover have "cuvic_state e [] = new_cuvic e"
    by (simp add: cuvic_state_def new_cuvic_def full_blocks_def large_upto_def vertex_off_0)
  ultimately show ?thesis by simp
qed

lemma last_block: "ns \<noteq> [] \<Longrightarrow> Suc (full_blocks ns) = num_blocks ns"
  using full_blocks_bounds[of ns] block_iff[of "full_blocks ns" ns] block_iff[of "Suc (full_blocks ns)" ns] by fastforce

lemma cuvic_dump_spec:
  assumes "graph_ok ns e" "ns \<noteq> []"
  shows "cuvic_dump (cuvic_state e ns) h
    = Inr (CUI (cui_construct_entries (map (entry_of HEADER_SIZE ns e) [0..<num_blocks ns]) (large_from ns 0) (header_page h)))"
proof -
  have "cuvic_last_entries (cuvic_state e ns) \<noteq> []" using full_blocks_bounds(1)[of ns] by (simp add: cuvic_state_def)
  then show ?thesis using cuvic_flush_spec[OF assms(1)] last_block[OF assms(2)]
    by (simp add: cuvic_dump_def cuvic_finalize_def large_upto_def large_from_def del: upt_Suc)
qed

section \<open>Directed graphs\<close>

text \<open>The vertex number \<open>i\<close> has the numbers \<open>p\<close> of in-edges and out-edges.\<close>

definition dvertex_is :: "nat \<Rightarrow> in_mem_vertex \<Rightarrow> nat \<Rightarrow> nat \<times> nat \<Rightarrow> bool" where
  "dvertex_is e v i p \<longleftrightarrow> imv_id v = i \<and> imv_serialize_size v IN_EDGE = Inr (num_edges2vsize (fst p) e)
     \<and> imv_serialize_size v OUT_EDGE = Inr (num_edges2vsize (snd p) e)"

definition dvertices_are :: "nat \<Rightarrow> in_mem_vertex list \<Rightarrow> (nat \<times> nat) list \<Rightarrow> bool" where
  "dvertices_are e vs ps \<longleftrightarrow> length vs = length ps \<and> (\<forall>i<length ps. dvertex_is e (vs ! i) i (ps ! i))"

definition dentries :: "nat \<Rightarrow> nat \<Rightarrow> (nat \<times> nat) list \<Rightarrow> nat \<Rightarrow> directed_vertex_entry list" where
  "dentries s t ps e = map (\<lambda>i. \<lparr>dve_in_off = int (vertex_off s (map fst ps) e i), dve_out_off = int (vertex_off t (map snd ps) e i)\<rparr>)
     [0..<length ps + 1]"

lemma dentries_snoc:
  "dentries s t (ps @ [p]) e = dentries s t ps e
     @ [\<lparr>dve_in_off = int (vertex_off s (map fst ps) e (length ps)) + int (num_edges2vsize (fst p) e),
         dve_out_off = int (vertex_off t (map snd ps) e (length ps)) + int (num_edges2vsize (snd p) e)\<rparr>]"
proof -
  have off: "vertex_off r (map f ps @ [f p]) e i = vertex_off r (map f ps) e i" if "i < Suc (length ps)" for r f i
    using that by (simp add: vertex_off_def)
  have last: "vertex_off r (map f ps @ [f p]) e (Suc (length ps)) = vertex_off r (map f ps) e (length ps) + num_edges2vsize (f p) e" for r f
    by (simp add: vertex_off_def)
  have upt: "[0..<length (ps @ [p]) + 1] = [0..<length ps + 1] @ [length ps + 1]" by simp
  show ?thesis unfolding dentries_def upt map_append list.map
    by (intro arg_cong2[where f = append] refl map_cong) (simp_all add: off last del: upt_Suc)
qed

lemma last_dentries: "last (dentries s t ps e) = \<lparr>dve_in_off = int (vertex_off s (map fst ps) e (length ps)),
    dve_out_off = int (vertex_off t (map snd ps) e (length ps))\<rparr>"
  "hd (dentries s t ps e) = \<lparr>dve_in_off = int s, dve_out_off = int t\<rparr>" "length (dentries s t ps e) = length ps + 1"
proof -
  show "last (dentries s t ps e) = \<lparr>dve_in_off = int (vertex_off s (map fst ps) e (length ps)),
    dve_out_off = int (vertex_off t (map snd ps) e (length ps))\<rparr>"
    unfolding dentries_def by (subst last_map) simp_all
  show "hd (dentries s t ps e) = \<lparr>dve_in_off = int s, dve_out_off = int t\<rparr>"
    unfolding dentries_def by (subst hd_map) (simp_all add: vertex_off_0 del: upt_Suc)
qed (simp add: dentries_def)

lemma dvic_add_all:
  assumes "dvertices_are e vs ps"
  shows "add_all dvic_add_vertex new_dvic vs = Inr (dentries HEADER_SIZE 0 ps e)"
proof -
  have "add_all dvic_add_vertex (dentries HEADER_SIZE 0 [] e) vs = Inr (dentries HEADER_SIZE 0 ([] @ ps) e)"
  proof (rule add_all_states[where Q = "\<lambda>_. True" and R = "dvertex_is e"])
    show "dvic_add_vertex (dentries HEADER_SIZE 0 xs e) v = Inr (dentries HEADER_SIZE 0 (xs @ [p]) e)"
      if "dvertex_is e v (length xs) p" for xs v p
      using that unfolding dvic_add_vertex_def last_dentries dentries_snoc directed_entry_init_def
      by (simp add: dvertex_is_def)
  qed (use assms in \<open>simp_all add: dvertices_are_def\<close>)
  then show ?thesis by (simp add: new_dvic_def dentries_def vertex_off_0)
qed

lemma dvic_finalize_spec:
  "dvic_finalize (dentries HEADER_SIZE 0 ps e)
     = dentries HEADER_SIZE (vertex_off HEADER_SIZE (map fst ps) e (length ps)) ps e"
proof -
  have pos: "\<not> int 0 \<ge> int (vertex_off HEADER_SIZE (map fst ps) e (length ps))"
    by (simp add: vertex_off_def HEADER_SIZE_def)
  have shift: "vertex_off 0 (map snd ps) e i + B = vertex_off B (map snd ps) e i" for i B
    by (simp add: vertex_off_def)
  have shift_int: "int (vertex_off 0 (map snd ps) e i) + int B = int (vertex_off B (map snd ps) e i)" for i B
    using shift[of i B] by (metis of_nat_add)
  show ?thesis unfolding dvic_finalize_def last_dentries Let_def directed_vertex_entry.simps if_not_P[OF pos] shift_int
    unfolding dentries_def map_map comp_def directed_vertex_entry.simps shift_int ..
qed

text \<open>The plain index of a directed graph.\<close>

definition directed_plain :: "(nat \<times> nat) list \<Rightarrow> nat \<Rightarrow> directed_vertex_index \<Rightarrow> bool" where
  "directed_plain ps e ix \<longleftrightarrow>
     dvi_vertices ix = dentries HEADER_SIZE (vertex_off HEADER_SIZE (map fst ps) e (length ps)) ps e
   \<and> ih_num_entries (dvi_h ix) = length ps + 1 \<and> gh_num_vertices (ih_header (dvi_h ix)) = length ps
   \<and> gh_eds (ih_header (dvi_h ix)) = e"

lemma directed_lanes:
  assumes "directed_plain ps e ix"
  shows "plain_index HEADER_SIZE (map fst ps) e (in_lane ix)"
    "plain_index (vertex_off HEADER_SIZE (map fst ps) e (length ps)) (map snd ps) e (out_lane ix)"
  using assms by (simp_all add: directed_plain_def plain_index_def in_lane_def out_lane_def dentries_def comp_def)

lemma directed_get_vertex:
  assumes "directed_plain ps e ix" "i \<le> length ps"
  shows "dvi_get_vertex ix i = Inr (dentries HEADER_SIZE (vertex_off HEADER_SIZE (map fst ps) e (length ps)) ps e ! i)"
  using assms by (simp add: directed_plain_def dvi_get_vertex_def last_dentries)

lemma directed_compressed:
  assumes "directed_plain ps e ix" "graph_ok (map fst ps) e" "graph_ok (map snd ps) e" "ps \<noteq> []"
  obtains es q where
    "cd_blocks ix e (length ps + 1) 0 = Inr (es, large_from (map fst ps) 0, large_from (map snd ps) 0)"
    "imd_init_regular ix = Inr q" "imd_wf q" "length es = num_blocks (map fst ps)" "es \<noteq> []"
    "q = \<lparr>imd_num_vertices = length ps, imd_edge_data_size = e, imd_large_in_vmap = map_of (large_from (map fst ps) 0),
          imd_large_out_vmap = map_of (large_from (map snd ps) 0), imd_entries = es\<rparr>"
    "imd_in_lane q = compressed_of HEADER_SIZE (map fst ps) e"
    "imd_out_lane q = compressed_of (vertex_off HEADER_SIZE (map fst ps) e (length ps)) (map snd ps) e"
proof -
  let ?B = "vertex_off HEADER_SIZE (map fst ps) e (length ps)"
  have nb: "num_blocks (map snd ps) = num_blocks (map fst ps)" by (simp add: num_blocks_eq)
  have bl: "cu_blocks (in_lane ix) e (length ps + 1) 0
        = Inr (map (entry_of HEADER_SIZE (map fst ps) e) [0..<num_blocks (map fst ps)], large_from (map fst ps) 0)"
    "cu_blocks (out_lane ix) e (length ps + 1) 0
        = Inr (map (entry_of ?B (map snd ps) e) [0..<num_blocks (map snd ps)], large_from (map snd ps) 0)"
    using cu_blocks_spec[OF directed_lanes(1)[OF assms(1)] assms(2), of 0]
      cu_blocks_spec[OF directed_lanes(2)[OF assms(1)] assms(3), of 0] by simp_all
  obtain es where es: "cd_blocks ix e (length ps + 1) 0 = Inr (es, large_from (map fst ps) 0, large_from (map snd ps) 0)"
    "map in_entry es = map (entry_of HEADER_SIZE (map fst ps) e) [0..<num_blocks (map fst ps)]"
    "map out_entry es = map (entry_of ?B (map snd ps) e) [0..<num_blocks (map snd ps)]"
    "\<forall>e\<in>set es. length (cde_edges e) = ENTRY_SIZE"
    using cd_blocks_lanes[OF bl] by blast
  let ?q = "\<lparr>imd_num_vertices = length ps, imd_edge_data_size = e, imd_large_in_vmap = map_of (large_from (map fst ps) 0),
          imd_large_out_vmap = map_of (large_from (map snd ps) 0), imd_entries = es\<rparr>"
  have "u32 (length ps) = length ps" using assms(2) by (simp add: graph_ok_def u32_id)
  then have "\<exists>r. dvi_verify ix = Inr r"
    using directed_get_vertex[OF assms(1), of 0] directed_get_vertex[OF assms(1), of "length ps"] assms(1)
    by (simp add: dvi_verify_def directed_plain_def) blast
  then have init: "imd_init_regular ix = Inr ?q"
    using es(1) assms(1) by (auto simp: imd_init_regular_def directed_plain_def)
  have len: "length es = num_blocks (map fst ps)" using arg_cong[OF es(2), of length] by simp
  have "0 < num_blocks (map fst ps)" using assms(4) block_iff[of 0 "map fst ps"] by simp
  then have "es \<noteq> []" using len by auto
  moreover have "imd_wf ?q" using es(4) by (simp add: imd_wf_def)
  moreover have "imd_in_lane ?q = compressed_of HEADER_SIZE (map fst ps) e" "imd_out_lane ?q = compressed_of ?B (map snd ps) e"
    using es(2,3) by (simp_all add: imd_in_lane_def imd_out_lane_def compressed_of_def)
  ultimately show thesis using that[OF es(1) init _ len] by simp
qed

section \<open>Iterators\<close>

lemma aii_walk_spec:
  assumes "aii_entries it = xs" "aii_p it = Suc k" "aii_has_next it \<longleftrightarrow> Suc k < length xs"
    "Suc k < length xs \<Longrightarrow> aii_curr it = xs ! k \<and> aii_next it = xs ! Suc k" "length xs - Suc k < fuel"
  shows "aii_walk fuel it vs = Inr (vs @ map (\<lambda>i. (xs ! i, curr_size (xs ! Suc i) (xs ! i))) [k..<length xs - 1])"
  using assms
proof (induction fuel arbitrary: it k vs)
  case (Suc f)
  show ?case
  proof (cases "Suc k < length xs")
    case False
    then show ?thesis using Suc.prems by simp
  next
    case True
    have "aii_walk f (aii_move_next it) (vs @ [(xs ! k, curr_size (xs ! Suc k) (xs ! k))])
      = Inr ((vs @ [(xs ! k, curr_size (xs ! Suc k) (xs ! k))]) @ map (\<lambda>i. (xs ! i, curr_size (xs ! Suc i) (xs ! i))) [Suc k..<length xs - 1])"
      by (rule Suc.IH) (use Suc.prems True in \<open>auto simp: aii_move_next_def Let_def\<close>)
    then show ?thesis using Suc.prems True by (simp add: upt_conv_Cons)
  qed
qed simp

lemma cuii_walk_spec:
  assumes "cuii_index it = compressed_of s ns e" "cuii_idx it = k" "cuii_end it = m" "m \<le> length ns"
    "cuii_has_next it \<longleftrightarrow> k < m"
    "k < m \<Longrightarrow> cuii_curr it = int (vertex_off s ns e k) \<and> cuii_next it = int (vertex_off s ns e (Suc k))" "m - k < fuel"
  shows "cuii_walk fuel it vs
    = Inr (vs @ map (\<lambda>i. (int (vertex_off s ns e i), curr_size (int (vertex_off s ns e (Suc i))) (int (vertex_off s ns e i)))) [k..<m])"
  using assms
proof (induction fuel arbitrary: it k vs)
  case (Suc f)
  show ?case
  proof (cases "k < m")
    case False
    then show ?thesis using Suc.prems by simp
  next
    case True
    let ?v = "(int (vertex_off s ns e k), curr_size (int (vertex_off s ns e (Suc k))) (int (vertex_off s ns e k)))"
    obtain it' where it': "cuii_move_next it = Inr it'" "cuii_index it' = compressed_of s ns e" "cuii_idx it' = Suc k" "cuii_end it' = m"
      "cuii_has_next it' \<longleftrightarrow> Suc k < m"
      "Suc k < m \<Longrightarrow> cuii_curr it' = int (vertex_off s ns e (Suc k)) \<and> cuii_next it' = int (vertex_off s ns e (Suc (Suc k)))"
    proof (cases "Suc k < m")
      case True2: True
      then have "imu_get_size (compressed_of s ns e) (Suc k) = Inr (num_edges2vsize (ns ! Suc k) e)"
        "vertex_off s ns e (Suc (Suc k)) = vertex_off s ns e (Suc k) + num_edges2vsize (ns ! Suc k) e"
        using Suc.prems(4) by (simp_all add: compressed_get_size vertex_off_Suc)
      then show thesis using that Suc.prems True True2 by (auto simp: cuii_move_next_def Let_def)
    next
      case False2: False
      then show thesis using that Suc.prems True by (auto simp: cuii_move_next_def Let_def)
    qed
    have "cuii_walk f it' (vs @ [?v]) = Inr ((vs @ [?v])
        @ map (\<lambda>i. (int (vertex_off s ns e i), curr_size (int (vertex_off s ns e (Suc i))) (int (vertex_off s ns e i)))) [Suc k..<m])"
      by (rule Suc.IH[OF it'(2-4) Suc.prems(4) it'(5,6)]) (use Suc.prems(7) True in auto)
    then show ?thesis using Suc.prems True it'(1) by (simp add: upt_conv_Cons)
  qed
qed simp

end
