(* ===== verification/Index_Props.thy ===== *)
theory Index_Props
  imports Index_Construct_Laws
begin

text \<open>
  Properties of the vertex index: the ways to build a compressed index agree, the compressed index answers
  every query as the plain one, the iterators visit the same vertices, and the vertices that an index
  locates do not overlap.
\<close>

section \<open>Locating vertices\<close>

text \<open>What a user of an index relies on: every vertex has a number of edges and an offset, and the next
  vertex starts where its edges end.\<close>

locale vertex_locator =
  fixes num_vertices :: nat and eds :: nat and num_edges :: "nat \<Rightarrow> nat res" and locate :: "nat \<Rightarrow> int res"
  assumes num_edges_total: "i < num_vertices \<Longrightarrow> \<exists>n. num_edges i = Inr n"
    and locate_total: "i < num_vertices \<Longrightarrow> \<exists>off. locate i = Inr off"
    and locate_next: "\<lbrakk>i + 1 < num_vertices; locate i = Inr off; num_edges i = Inr n\<rbrakk>
      \<Longrightarrow> locate (i + 1) = Inr (off + int (num_edges2vsize n eds))"
begin

lemma vertices_disjoint:
  assumes "i < j" "j < num_vertices" "locate i = Inr a" "num_edges i = Inr n" "locate j = Inr b"
  shows "a + int (num_edges2vsize n eds) \<le> b"
  using assms
proof (induction j arbitrary: b)
  case (Suc j)
  show ?case
  proof (cases "i = j")
    case True
    then show ?thesis using Suc.prems locate_next[of j a n] by simp
  next
    case False
    obtain c m where cm: "locate j = Inr c" "num_edges j = Inr m"
      using Suc.prems(2) locate_total[of j] num_edges_total[of j] by auto
    then have "a + int (num_edges2vsize n eds) \<le> c" using Suc.IH[of c] Suc.prems False by simp
    moreover have "b = c + int (num_edges2vsize m eds)" using locate_next[of j c m] Suc.prems cm by simp
    ultimately show ?thesis by simp
  qed
qed simp

end

interpretation cul: vertex_locator "length ns" e "imu_get_num_edges (compressed_of s ns e)"
    "imu_get_vertex (compressed_of s ns e)" for s ns e
  by unfold_locales (auto simp: compressed_num_edges compressed_get_vertex vertex_off_Suc)

section \<open>Undirected graphs\<close>

text \<open>The plain index that the constructor dumps.\<close>

lemma uvic_dump_plain:
  assumes "vertices_are (gh_eds h) vs ns" "gh_num_vertices h = length ns"
  obtains ix where "bind_res (add_all uvic_add_vertex new_uvic vs) (\<lambda>c. uvic_dump c h False) = Inr (UVI ix)"
    "bind_res (add_all uvic_add_vertex new_uvic vs) (\<lambda>c. uvic_dump c h True)
       = bind_res (cui_construct ix) (\<lambda>c. Inr (CUI c))"
    "plain_index HEADER_SIZE ns (gh_eds h) ix" "uvi_h ix = (new_index_header h 8)\<lparr>ih_num_entries := length ns + 1\<rparr>"
proof
  let ?ix = "\<lparr>uvi_h = (new_index_header h 8)\<lparr>ih_num_entries := length ns + 1\<rparr>,
    uvi_vertices = offsets_of HEADER_SIZE ns (gh_eds h)\<rparr>"
  have c: "uvi_create h (offsets_of HEADER_SIZE ns (gh_eds h)) = Inr ?ix"
    using assms(2) by (simp add: uvi_create_def)
  show "bind_res (add_all uvic_add_vertex new_uvic vs) (\<lambda>c. uvic_dump c h False) = Inr (UVI ?ix)"
    "bind_res (add_all uvic_add_vertex new_uvic vs) (\<lambda>c. uvic_dump c h True)
       = bind_res (cui_construct ?ix) (\<lambda>c. Inr (CUI c))"
    using c by (simp_all add: uvic_add_all[OF assms(1)] uvic_dump_def del: upt_Suc)
  show "plain_index HEADER_SIZE ns (gh_eds h) ?ix"
    using assms(2) by (simp add: plain_index_def new_index_header_def)
qed simp

definition cui_of :: "graph_header \<Rightarrow> nat list \<Rightarrow> cundirected_vertex_index" where
  "cui_of h ns = cui_construct_entries (map (entry_of HEADER_SIZE ns (gh_eds h)) [0..<num_blocks ns]) (large_from ns 0) (header_page h)"

lemma cui_construct_plain:
  assumes "plain_index HEADER_SIZE ns (gh_eds h) ix" "graph_ok ns (gh_eds h)"
    "uvi_h ix = (new_index_header h 8)\<lparr>ih_num_entries := length ns + 1\<rparr>"
  shows "cui_construct ix = Inr (cui_of h ns)"
  using cu_blocks_spec[OF assms(1,2), of 0] assms(3)
  by (simp add: cui_construct_def cui_of_def cui_construct_entries_def new_index_header_def header_page_def)

lemma cui_of_edges:
  assumes "graph_ok ns (gh_eds h)" "gh_num_vertices h = length ns"
  shows "cui_construct_edges (length ns) ns (header_page h) = Inr (cui_of h ns)"
proof -
  have "cu_edge_blocks (length ns) ns (gh_eds h) HEADER_SIZE 0
      = Inr (map (entry_of HEADER_SIZE ns (gh_eds h)) [0..<num_blocks ns])"
    using cu_edge_blocks_spec[of 0 ns "gh_eds h" HEADER_SIZE] by (simp add: vertex_off_0)
  moreover have large: "map (\<lambda>i. (u32 i, ns ! i)) [0..<length ns] = map (\<lambda>i. (i, ns ! i)) [0..<length ns]"
    using assms(1) by (simp add: graph_ok_def u32_id)
  moreover have "length ns \<le> num_blocks ns * ENTRY_SIZE" by (simp add: num_blocks_eq ENTRY_SIZE_def)
  ultimately show ?thesis using assms(2) num_blocks_def[of ns]
    unfolding cui_construct_edges_def Let_def large
    by (simp add: cui_of_def cui_construct_entries_def large_from_def header_page_def)
qed

lemma cui_of_query:
  assumes "gh_num_vertices h = length ns"
  shows "imu_init_compressed (cui_of h ns) = Inr (compressed_of HEADER_SIZE ns (gh_eds h))" "cui_verify (cui_of h ns)"
  using assms by (simp_all add: imu_init_compressed_def cui_of_def cui_construct_entries_def compressed_of_def
    header_page_def cui_verify_def num_blocks_def)

lemma uvi_verify_plain:
  "plain_index HEADER_SIZE ns e ix \<Longrightarrow> \<exists>r. uvi_verify ix = Inr r"
  using plain_get_vertex[of HEADER_SIZE ns e ix 0] by (auto simp: uvi_verify_def)

lemma imu_init_plain:
  assumes "plain_index HEADER_SIZE ns (gh_eds h) ix" "graph_ok ns (gh_eds h)"
  shows "imu_init_regular ix = Inr (compressed_of HEADER_SIZE ns (gh_eds h))"
  using cu_blocks_spec[OF assms(1,2), of 0] uvi_verify_plain[OF assms(1)] assms(1)
  by (auto simp: imu_init_regular_def compressed_of_def plain_index_def Let_def)

text \<open>C14. There are three ways to build the compressed index of an undirected graph: compressing the
  offsets that the plain constructor collected, the constructor that compresses every 32 vertices as they
  are added, and the one from an array with the numbers of edges. For a graph with at least one vertex all
  three give the same index, and it passes its check.\<close>

theorem compressed_constructions_agree:
  assumes "vertices_are (gh_eds h) vs ns" "graph_ok ns (gh_eds h)" "ns \<noteq> []" "gh_num_vertices h = length ns"
  shows "\<exists>c. bind_res (add_all uvic_add_vertex new_uvic vs) (\<lambda>s. uvic_dump s h True) = Inr (CUI c)
    \<and> bind_res (add_all cuvic_add_vertex (new_cuvic (gh_eds h)) vs) (\<lambda>s. cuvic_dump s h) = Inr (CUI c)
    \<and> cui_construct_edges (length ns) ns (header_page h) = Inr c \<and> cui_verify c"
proof -
  obtain ix where "bind_res (add_all uvic_add_vertex new_uvic vs) (\<lambda>c. uvic_dump c h True)
       = bind_res (cui_construct ix) (\<lambda>c. Inr (CUI c))"
    "plain_index HEADER_SIZE ns (gh_eds h) ix" "uvi_h ix = (new_index_header h 8)\<lparr>ih_num_entries := length ns + 1\<rparr>"
    using uvic_dump_plain[OF assms(1,4)] by metis
  then have "bind_res (add_all uvic_add_vertex new_uvic vs) (\<lambda>s. uvic_dump s h True) = Inr (CUI (cui_of h ns))"
    using cui_construct_plain assms(2) by simp
  moreover have "bind_res (add_all cuvic_add_vertex (new_cuvic (gh_eds h)) vs) (\<lambda>s. cuvic_dump s h) = Inr (CUI (cui_of h ns))"
    by (simp add: cuvic_add_all[OF assms(1,2)] cuvic_dump_spec[OF assms(2,3)] cui_of_def)
  ultimately show ?thesis using cui_of_edges[OF assms(2,4)] cui_of_query[OF assms(4)] by blast
qed

text \<open>C25. The compressed index in memory, made from the plain index or loaded from the file of the
  compressed one, answers as the plain index: every vertex has its number of edges and lies where the
  constructor put it.\<close>

theorem compressed_queries_agree:
  assumes "vertices_are (gh_eds h) vs ns" "graph_ok ns (gh_eds h)" "gh_num_vertices h = length ns"
    "\<not> gh_is_directed_graph h"
  shows "\<exists>ix c q. bind_res (add_all uvic_add_vertex new_uvic vs) (\<lambda>s. uvic_dump s h False) = Inr (UVI ix)
    \<and> bind_res (add_all uvic_add_vertex new_uvic vs) (\<lambda>s. uvic_dump s h True) = Inr (CUI c)
    \<and> query_create (UVI ix) False = Inr (Q_undirected ix)
    \<and> query_create (UVI ix) True = Inr (Q_cundirected q) \<and> query_create (CUI c) b = Inr (Q_cundirected q)
    \<and> (\<forall>i<length ns. query_get_num_edges (Q_undirected ix) i t = Inr (ns ! i)
        \<and> query_get_num_edges (Q_cundirected q) i t = Inr (ns ! i)
        \<and> uvi_get_vertex ix i = imu_get_vertex q i)"
proof -
  obtain ix where ix: "bind_res (add_all uvic_add_vertex new_uvic vs) (\<lambda>c. uvic_dump c h False) = Inr (UVI ix)"
    "bind_res (add_all uvic_add_vertex new_uvic vs) (\<lambda>c. uvic_dump c h True)
       = bind_res (cui_construct ix) (\<lambda>c. Inr (CUI c))"
    and p: "plain_index HEADER_SIZE ns (gh_eds h) ix" "uvi_h ix = (new_index_header h 8)\<lparr>ih_num_entries := length ns + 1\<rparr>"
    using uvic_dump_plain[OF assms(1,3)] by metis
  let ?q = "compressed_of HEADER_SIZE ns (gh_eds h)"
  have "query_create (UVI ix) False = Inr (Q_undirected ix)" "query_create (UVI ix) True = Inr (Q_cundirected ?q)"
    using assms(4) imu_init_plain[OF p(1) assms(2)] p(2) by (simp_all add: query_create_def new_index_header_def)
  moreover have "query_create (CUI (cui_of h ns)) b = Inr (Q_cundirected ?q)"
    using assms(4) cui_of_query(1)[OF assms(3)]
    by (simp add: query_create_def) (simp add: cui_of_def cui_construct_entries_def header_page_def)
  moreover have "query_get_num_edges (Q_undirected ix) i t = Inr (ns ! i)" if "i < length ns" for i
    using that plain_vertex_info[OF p(1) assms(2) that] edges_of_vertex[OF assms(2) that] p
    by (simp add: uvi_num_edges_def new_index_header_def)
  ultimately show ?thesis
    using ix cui_construct_plain[OF p(1) assms(2) p(2)] compressed_num_edges compressed_get_vertex plain_get_vertex[OF p(1)]
    by (intro exI[of _ ix] exI[of _ "cui_of h ns"] exI[of _ ?q]) simp
qed

text \<open>The vertices that the compressed index locates do not overlap: a vertex starts behind all edges of
  every vertex with a smaller id.\<close>

theorem located_vertices_disjoint:
  assumes "cui_construct_edges (length ns) ns (header_page h) = Inr c" "imu_init_compressed c = Inr q"
    "graph_ok ns (gh_eds h)" "gh_num_vertices h = length ns" "i < j" "j < length ns"
  shows "\<exists>a b s. imu_get_vertex q i = Inr a \<and> imu_get_size q i = Inr s \<and> imu_get_vertex q j = Inr b
    \<and> int HEADER_SIZE \<le> a \<and> a + int s \<le> b"
proof -
  have q: "q = compressed_of HEADER_SIZE ns (gh_eds h)"
    using assms(1,2) cui_of_edges[OF assms(3,4)] cui_of_query(1)[OF assms(4)] by simp
  have v: "imu_get_vertex q i = Inr (int (vertex_off HEADER_SIZE ns (gh_eds h) i))"
    "imu_get_vertex q j = Inr (int (vertex_off HEADER_SIZE ns (gh_eds h) j))"
    "imu_get_num_edges q i = Inr (ns ! i)" "imu_get_size q i = Inr (num_edges2vsize (ns ! i) (gh_eds h))"
    unfolding q using assms(5,6) by (simp_all add: compressed_get_vertex compressed_num_edges compressed_get_size)
  show ?thesis using cul.vertices_disjoint[OF assms(5,6), of HEADER_SIZE "gh_eds h"] v unfolding q
    by (simp add: vertex_off_def)
qed

section \<open>Iterators\<close>

lemma plain_walk:
  assumes "graph_ok ns e" "ns \<noteq> []"
  shows "bind_res (new_array_index_iterator (offsets_of s ns e)) (\<lambda>it. aii_walk (length ns + 1) it [])
    = Inr (map (\<lambda>i. (int (vertex_off s ns e i), num_edges2vsize (ns ! i) e)) [0..<length ns])"
proof -
  let ?xs = "offsets_of s ns e"
  let ?it = "\<lparr>aii_curr = ?xs ! 0, aii_next = ?xs ! 1, aii_has_next = True, aii_entries = ?xs, aii_p = 1\<rparr>"
  have nth: "?xs ! i = int (vertex_off s ns e i)" if "i \<le> length ns" for i
    using that by (auto simp: nth_append le_less)
  have "aii_walk (length ns + 1) ?it [] = Inr ([] @ map (\<lambda>i. (?xs ! i, curr_size (?xs ! Suc i) (?xs ! i))) [0..<length ?xs - 1])"
    by (rule aii_walk_spec) (use assms(2) in \<open>simp_all del: upt_Suc\<close>)
  moreover have "map (\<lambda>i. (?xs ! i, curr_size (?xs ! Suc i) (?xs ! i))) [0..<length ?xs - 1]
      = map (\<lambda>i. (int (vertex_off s ns e i), num_edges2vsize (ns ! i) e)) [0..<length ns]"
    using nth edges_of_vertex[OF assms(1)] by (intro map_cong) (simp_all add: curr_size_def u32_id del: upt_Suc)
  moreover have "new_array_index_iterator ?xs = Inr ?it"
    using assms(2) by (cases ns) (simp_all add: new_array_index_iterator_def del: upt_Suc)
  ultimately show ?thesis by (simp del: upt_Suc)
qed

lemma compressed_walk:
  assumes "graph_ok ns e" "a < m" "m \<le> length ns"
  shows "bind_res (new_cuii (compressed_of s ns e) a m) (\<lambda>it. cuii_walk (m - a + 1) it [])
    = Inr (map (\<lambda>i. (int (vertex_off s ns e i), num_edges2vsize (ns ! i) e)) [a..<m])"
proof -
  have a: "a < length ns" using assms(2,3) by simp
  let ?it = "\<lparr>cuii_curr = int (vertex_off s ns e a), cuii_next = int (vertex_off s ns e (Suc a)), cuii_has_next = True,
    cuii_begin = a, cuii_idx = a, cuii_end = m, cuii_index = compressed_of s ns e\<rparr>"
  have "new_cuii (compressed_of s ns e) a m = Inr ?it"
    using a by (simp add: new_cuii_def compressed_get_vertex compressed_get_size vertex_off_Suc)
  moreover have "cuii_walk (m - a + 1) ?it []
      = Inr ([] @ map (\<lambda>i. (int (vertex_off s ns e i), curr_size (int (vertex_off s ns e (Suc i))) (int (vertex_off s ns e i)))) [a..<m])"
    by (rule cuii_walk_spec) (use assms(2,3) in simp_all)
  moreover have "map (\<lambda>i. (int (vertex_off s ns e i), curr_size (int (vertex_off s ns e (Suc i))) (int (vertex_off s ns e i)))) [a..<m]
      = map (\<lambda>i. (int (vertex_off s ns e i), num_edges2vsize (ns ! i) e)) [a..<m]"
    using edges_of_vertex[OF assms(1)] assms(3) by (intro map_cong) (simp_all add: curr_size_def u32_id)
  ultimately show ?thesis by simp
qed

text \<open>Walking over all vertices with the iterator over the array of the plain index and with the iterator
  over the compressed index gives, within one step per vertex, the same sequence of offsets and sizes.\<close>

theorem iterators_visit_same_vertices:
  assumes "vertices_are (gh_eds h) vs ns" "graph_ok ns (gh_eds h)" "gh_num_vertices h = length ns" "ns \<noteq> []"
    "add_all uvic_add_vertex new_uvic vs = Inr offs" "uvi_create h offs = Inr ix" "imu_init_regular ix = Inr q"
  shows "\<exists>ws. bind_res (new_array_index_iterator offs) (\<lambda>it. aii_walk (length ns + 1) it []) = Inr ws
    \<and> bind_res (new_cuii q 0 (length ns)) (\<lambda>it. cuii_walk (length ns + 1) it []) = Inr ws
    \<and> length ws = length ns \<and> (\<forall>i<length ns. snd (ws ! i) = num_edges2vsize (ns ! i) (gh_eds h))"
proof -
  have offs: "offs = offsets_of HEADER_SIZE ns (gh_eds h)" using assms(5) uvic_add_all[OF assms(1)] by simp
  have "plain_index HEADER_SIZE ns (gh_eds h) ix"
    using assms(3,6) by (auto simp: uvi_create_def offs plain_index_def new_index_header_def assert_then_def split: if_splits)
  then have q: "q = compressed_of HEADER_SIZE ns (gh_eds h)" using assms(7) imu_init_plain[OF _ assms(2)] by simp
  show ?thesis
    using plain_walk[OF assms(2,4), of HEADER_SIZE] compressed_walk[OF assms(2), of 0 "length ns" HEADER_SIZE] assms(4)
    unfolding offs q by simp
qed

section \<open>Witnesses\<close>

definition two_vertices :: "in_mem_vertex list" where
  "two_vertices = [undirected_vertex 0 \<lparr>iuv_has_data = False, iuv_id = 0, iuv_edges = [1, 1], iuv_data_arr = []\<rparr>,
     undirected_vertex 0 \<lparr>iuv_has_data = False, iuv_id = 1, iuv_edges = [0], iuv_data_arr = []\<rparr>]"

lemma two_vertices_are: "vertices_are 0 two_vertices [2, 1]" "graph_ok [2, 1] 0"
  "gh_eds (new_graph_header UNDIRECTED 2 3 0 0) = 0" "gh_num_vertices (new_graph_header UNDIRECTED 2 3 0 0) = length [2, 1 :: nat]"
  "\<not> gh_is_directed_graph (new_graph_header UNDIRECTED 2 3 0 0)"
  by (simp_all add: two_vertices_def vertices_are_def vertex_is_def undirected_vertex_def iuv_serialize_size_def
    num_edges2vsize_def graph_ok_def less_Suc_eq gh_eds_def new_graph_header_def gh_is_directed_graph_def
    emv_get_size_def emv_has_edge_data_def emv_get_size0_def emv_header_size_def new_ext_mem_undirected_vertex_def u32_def)

theorem compressed_constructions_agree_witness:
  "\<exists>c. bind_res (add_all cuvic_add_vertex (new_cuvic 0) two_vertices)
      (\<lambda>s. cuvic_dump s (new_graph_header UNDIRECTED 2 3 0 0)) = Inr (CUI c)
    \<and> cui_construct_edges 2 [2, 1] (header_page (new_graph_header UNDIRECTED 2 3 0 0)) = Inr c \<and> cui_verify c"
  using compressed_constructions_agree[of "new_graph_header UNDIRECTED 2 3 0 0" two_vertices "[2, 1]"] two_vertices_are
  by (auto simp: numeral_2_eq_2)

theorem compressed_queries_agree_witness:
  "\<exists>ix q. bind_res (add_all uvic_add_vertex new_uvic two_vertices)
      (\<lambda>s. uvic_dump s (new_graph_header UNDIRECTED 2 3 0 0) False) = Inr (UVI ix)
    \<and> query_create (UVI ix) True = Inr (Q_cundirected q) \<and> query_get_num_edges (Q_cundirected q) 0 IN_EDGE = Inr 2
    \<and> uvi_get_vertex ix 1 = imu_get_vertex q 1"
proof -
  have "0 < length [2, 1 :: nat]" "1 < length [2, 1 :: nat]" "[2, 1] ! 0 = (2 :: nat)" by simp_all
  then show ?thesis
    using compressed_queries_agree[of "new_graph_header UNDIRECTED 2 3 0 0" two_vertices "[2, 1]" False IN_EDGE]
      two_vertices_are by metis
qed

theorem located_vertices_disjoint_witness:
  "\<exists>c q a b s. cui_construct_edges 2 [2, 1] (header_page (new_graph_header UNDIRECTED 2 3 0 0)) = Inr c
    \<and> imu_init_compressed c = Inr q \<and> imu_get_vertex q 0 = Inr a \<and> imu_get_size q 0 = Inr s
    \<and> imu_get_vertex q 1 = Inr b \<and> a + int s \<le> b"
proof -
  let ?h = "new_graph_header UNDIRECTED 2 3 0 0" let ?ns = "[2, 1 :: nat]"
  have ok: "graph_ok ?ns (gh_eds ?h)" using two_vertices_are by simp
  note c = cui_of_edges[OF ok two_vertices_are(4)] cui_of_query(1)[OF two_vertices_are(4)]
  show ?thesis
    using located_vertices_disjoint[OF c ok two_vertices_are(4), of 0 1] c by (auto simp: numeral_2_eq_2)
qed

theorem iterators_visit_same_vertices_witness:
  "\<exists>offs ix q ws. add_all uvic_add_vertex new_uvic two_vertices = Inr offs
    \<and> uvi_create (new_graph_header UNDIRECTED 2 3 0 0) offs = Inr ix \<and> imu_init_regular ix = Inr q
    \<and> bind_res (new_array_index_iterator offs) (\<lambda>it. aii_walk 3 it []) = Inr ws
    \<and> bind_res (new_cuii q 0 2) (\<lambda>it. cuii_walk 3 it []) = Inr ws"
proof -
  let ?h = "new_graph_header UNDIRECTED 2 3 0 0" let ?ns = "[2, 1 :: nat]"
  have ok: "graph_ok ?ns (gh_eds ?h)" and vs: "vertices_are (gh_eds ?h) two_vertices ?ns" using two_vertices_are by simp_all
  obtain ix where ix: "uvi_create ?h (offsets_of HEADER_SIZE ?ns (gh_eds ?h)) = Inr ix"
    "plain_index HEADER_SIZE ?ns (gh_eds ?h) ix"
    by (simp add: uvi_create_def plain_index_def new_index_header_def new_graph_header_def)
  have "?ns \<noteq> []" by simp
  from iterators_visit_same_vertices[OF vs ok two_vertices_are(4) this uvic_add_all[OF vs] ix(1) imu_init_plain[OF ix(2) ok]]
  show ?thesis using uvic_add_all[OF vs] ix(1) imu_init_plain[OF ix(2) ok]
    by (auto simp: numeral_2_eq_2 numeral_3_eq_3)
qed

end
