(* ===== verification/Directed_Index_Props.thy ===== *)
theory Directed_Index_Props
  imports Index_Props
begin

text \<open>
  The index of a directed graph: its constructor, its queries and its file. The lanes of the directed
  index carry over the laws of the undirected one.
\<close>

section \<open>Construction\<close>

lemma dvic_dump_plain:
  assumes "dvertices_are (gh_eds h) vs ps" "gh_num_vertices h = length ps"
  obtains ix where "bind_res (add_all dvic_add_vertex new_dvic vs) (\<lambda>c. dvic_dump c h False) = Inr (DVI ix)"
    "bind_res (add_all dvic_add_vertex new_dvic vs) (\<lambda>c. dvic_dump c h True)
       = bind_res (cdi_construct ix) (\<lambda>c. Inr (CDI c))"
    "directed_plain ps (gh_eds h) ix"
    "dvi_h ix = (new_index_header h 16)\<lparr>ih_num_entries := length ps + 1,
       ih_out_part_loc := int (vertex_off HEADER_SIZE (map fst ps) (gh_eds h) (length ps))\<rparr>"
proof -
  let ?B = "vertex_off HEADER_SIZE (map fst ps) (gh_eds h) (length ps)" and ?e = "gh_eds h"
  let ?vs = "dentries HEADER_SIZE ?B ps ?e"
  let ?ix = "\<lparr>dvi_h = (new_index_header h 16)\<lparr>ih_num_entries := length ps + 1, ih_out_part_loc := int ?B\<rparr>,
    dvi_vertices = ?vs\<rparr>"
  have "?vs \<noteq> []" using last_dentries(3)[of HEADER_SIZE ?B ps ?e] by auto
  then have c: "dvi_create h ?vs = Inr ?ix" using assms(2) by (simp add: dvi_create_def last_dentries)
  show thesis
  proof (rule that[of ?ix])
    show "directed_plain ps ?e ?ix" using assms(2) by (simp add: directed_plain_def new_index_header_def)
  qed (simp_all add: dvic_add_all[OF assms(1)] dvic_dump_def dvic_finalize_spec c)
qed

lemma cdi_of_plain:
  assumes "directed_plain ps (gh_eds h) ix" "graph_ok (map fst ps) (gh_eds h)" "graph_ok (map snd ps) (gh_eds h)" "ps \<noteq> []"
    "dvi_h ix = (new_index_header h 16)\<lparr>ih_num_entries := length ps + 1,
       ih_out_part_loc := int (vertex_off HEADER_SIZE (map fst ps) (gh_eds h) (length ps))\<rparr>"
  obtains q c where "imd_init_regular ix = Inr q" "cdi_construct ix = Inr c" "imd_init_compressed c = Inr q" "cdi_verify c"
    "ih_header (cdi_h c) = h" "ih_compressed (cdi_h c)" "imd_wf q"
    "imd_in_lane q = compressed_of HEADER_SIZE (map fst ps) (gh_eds h)"
    "imd_out_lane q = compressed_of (vertex_off HEADER_SIZE (map fst ps) (gh_eds h) (length ps)) (map snd ps) (gh_eds h)"
proof -
  obtain es q where eq: "cd_blocks ix (gh_eds h) (length ps + 1) 0 = Inr (es, large_from (map fst ps) 0, large_from (map snd ps) 0)"
    "imd_init_regular ix = Inr q" "imd_wf q" "length es = num_blocks (map fst ps)" "es \<noteq> []"
    "q = \<lparr>imd_num_vertices = length ps, imd_edge_data_size = gh_eds h, imd_large_in_vmap = map_of (large_from (map fst ps) 0),
          imd_large_out_vmap = map_of (large_from (map snd ps) 0), imd_entries = es\<rparr>"
    "imd_in_lane q = compressed_of HEADER_SIZE (map fst ps) (gh_eds h)"
    "imd_out_lane q = compressed_of (vertex_off HEADER_SIZE (map fst ps) (gh_eds h) (length ps)) (map snd ps) (gh_eds h)"
    using directed_compressed[OF assms(1-4)] .
  have n: "gh_num_vertices h = length ps" "length ps \<le> length es * ENTRY_SIZE"
    using assms(1,5) eq(4) by (simp_all add: directed_plain_def new_index_header_def num_blocks_eq ENTRY_SIZE_def)
  let ?c = "\<lparr>cdi_h = (dvi_h ix)\<lparr>ih_entry_size := 80, ih_num_entries := length es,
      ih_out_part_loc := dve_out_off (cde_start_offs (hd es)), ih_compressed := True,
      ih_num_large_in_vertices := length (large_from (map fst ps) 0), ih_num_large_out_vertices := length (large_from (map snd ps) 0)\<rparr>,
    cdi_entries = es, cdi_large_in_vertices = large_from (map fst ps) 0, cdi_large_out_vertices = large_from (map snd ps) 0\<rparr>"
  have c: "cdi_construct ix = Inr ?c"
    using eq(1,5) n assms(5) by (simp add: cdi_construct_def cdi_construct_entries_def new_index_header_def)
  have nb: "ROUNDUP (length ps) ENTRY_SIZE div ENTRY_SIZE = length es" using eq(4) by (simp add: num_blocks_def)
  show thesis
    by (rule that[of q ?c]) (use eq c n nb assms(5) in \<open>simp_all add: imd_init_compressed_def cdi_verify_def new_index_header_def\<close>)
qed

section \<open>Queries\<close>

lemma directed_queries:
  assumes "directed_plain ps e ix" "graph_ok (map fst ps) e" "graph_ok (map snd ps) e" "i < length ps"
    and q: "imd_wf q" "imd_in_lane q = compressed_of HEADER_SIZE (map fst ps) e"
      "imd_out_lane q = compressed_of (vertex_off HEADER_SIZE (map fst ps) e (length ps)) (map snd ps) e"
  shows "dvi_num_in_edges ix i = Inr (fst (ps ! i))" "dvi_num_out_edges ix i = Inr (snd (ps ! i))"
    "imd_get_num_in_edges q i = Inr (fst (ps ! i))" "imd_get_num_out_edges q i = Inr (snd (ps ! i))"
    "imd_get_vertex q i = dvi_get_vertex ix i"
proof -
  have i: "i < length (map fst ps)" "i < length (map snd ps)" using assms(4) by simp_all
  have eds: "gh_eds (ih_header (dvi_h ix)) = e" using assms(1) by (simp add: directed_plain_def)
  note l = directed_lanes[OF assms(1)]
  show "dvi_num_in_edges ix i = Inr (fst (ps ! i))"
    using plain_vertex_info[OF l(1) assms(2) i(1)] edges_of_vertex(2)[OF assms(2) i(1)] assms(4) eds
    by (simp add: dvi_num_in_edges_def lane_vertex_info)
  show "dvi_num_out_edges ix i = Inr (snd (ps ! i))"
    using plain_vertex_info[OF l(2) assms(3) i(2)] edges_of_vertex(2)[OF assms(3) i(2)] assms(4) eds
    by (simp add: dvi_num_out_edges_def lane_vertex_info)
  show "imd_get_num_in_edges q i = Inr (fst (ps ! i))" "imd_get_num_out_edges q i = Inr (snd (ps ! i))"
    using assms(4) by (simp_all add: lane_num_edges[OF q(1)] q(2,3) compressed_num_edges)
  have "imd_get_vertex q i = Inr \<lparr>dve_in_off = int (vertex_off HEADER_SIZE (map fst ps) e i),
      dve_out_off = int (vertex_off (vertex_off HEADER_SIZE (map fst ps) e (length ps)) (map snd ps) e i)\<rparr>"
    by (rule lane_get_offsets[OF q(1)]) (use assms(4) in \<open>simp_all add: q(2,3) compressed_get_vertex\<close>)
  then show "imd_get_vertex q i = dvi_get_vertex ix i"
    using directed_get_vertex[OF assms(1), of i] assms(4) by (simp add: dentries_def del: upt_Suc)
qed

text \<open>C15. The compressed index of a directed graph, made from the plain index in memory or loaded from its
  file, is the same and passes its check. It answers as the plain index, whatever kind of edges is asked
  for: each vertex has its in-edges and its out-edges, and both parts of it lie where the constructor put
  them.\<close>

theorem directed_queries_agree:
  assumes "dvertices_are (gh_eds h) vs ps" "graph_ok (map fst ps) (gh_eds h)" "graph_ok (map snd ps) (gh_eds h)"
    "ps \<noteq> []" "gh_num_vertices h = length ps" "gh_is_directed_graph h"
  shows "\<exists>ix c q. bind_res (add_all dvic_add_vertex new_dvic vs) (\<lambda>s. dvic_dump s h False) = Inr (DVI ix)
    \<and> bind_res (add_all dvic_add_vertex new_dvic vs) (\<lambda>s. dvic_dump s h True) = Inr (CDI c) \<and> cdi_verify c
    \<and> query_create (DVI ix) False = Inr (Q_directed ix)
    \<and> query_create (DVI ix) True = Inr (Q_cdirected q) \<and> query_create (CDI c) b = Inr (Q_cdirected q)
    \<and> (\<forall>i<length ps. query_get_num_edges (Q_cdirected q) i IN_EDGE = Inr (fst (ps ! i))
        \<and> query_get_num_edges (Q_cdirected q) i OUT_EDGE = Inr (snd (ps ! i))
        \<and> query_get_num_edges (Q_directed ix) i t = query_get_num_edges (Q_cdirected q) i t
        \<and> imd_get_vertex q i = dvi_get_vertex ix i)"
proof -
  obtain ix where ix: "bind_res (add_all dvic_add_vertex new_dvic vs) (\<lambda>c. dvic_dump c h False) = Inr (DVI ix)"
    "bind_res (add_all dvic_add_vertex new_dvic vs) (\<lambda>c. dvic_dump c h True)
       = bind_res (cdi_construct ix) (\<lambda>c. Inr (CDI c))" "directed_plain ps (gh_eds h) ix"
    "dvi_h ix = (new_index_header h 16)\<lparr>ih_num_entries := length ps + 1,
       ih_out_part_loc := int (vertex_off HEADER_SIZE (map fst ps) (gh_eds h) (length ps))\<rparr>"
    using dvic_dump_plain[OF assms(1,5)] .
  obtain q c where q: "imd_init_regular ix = Inr q" "cdi_construct ix = Inr c" "imd_init_compressed c = Inr q" "cdi_verify c"
    "ih_header (cdi_h c) = h" "ih_compressed (cdi_h c)" "imd_wf q"
    "imd_in_lane q = compressed_of HEADER_SIZE (map fst ps) (gh_eds h)"
    "imd_out_lane q = compressed_of (vertex_off HEADER_SIZE (map fst ps) (gh_eds h) (length ps)) (map snd ps) (gh_eds h)"
    using cdi_of_plain[OF ix(3) assms(2,3,4) ix(4)] .
  have create: "query_create (DVI ix) False = Inr (Q_directed ix)" "query_create (DVI ix) True = Inr (Q_cdirected q)"
    "query_create (CDI c) b = Inr (Q_cdirected q)"
    using assms(6) q(1,3,5,6) ix(4) by (simp_all add: query_create_def new_index_header_def)
  have "query_get_num_edges (Q_cdirected q) i IN_EDGE = Inr (fst (ps ! i))
      \<and> query_get_num_edges (Q_cdirected q) i OUT_EDGE = Inr (snd (ps ! i))
      \<and> query_get_num_edges (Q_directed ix) i t = query_get_num_edges (Q_cdirected q) i t
      \<and> imd_get_vertex q i = dvi_get_vertex ix i" if "i < length ps" for i
    using directed_queries[OF ix(3) assms(2,3) that q(7,8,9)] by (cases t) (simp_all add: imd_get_num_edges_def)
  then show ?thesis using ix(1,2) q(2,4) create by (intro exI[of _ ix] exI[of _ c] exI[of _ q]) simp
qed

definition two_dvertices :: "in_mem_vertex list" where
  "two_dvertices = [directed_vertex 0 \<lparr>idv_id = 0, idv_has_data = False, idv_out_edges = [1, 1], idv_in_edges = [],
       idv_out_data = [], idv_in_data = []\<rparr>,
     directed_vertex 0 \<lparr>idv_id = 1, idv_has_data = False, idv_out_edges = [], idv_in_edges = [0, 0],
       idv_out_data = [], idv_in_data = []\<rparr>]"

lemma two_dvertices_are: "dvertices_are 0 two_dvertices [(0, 2), (2, 0)]" "graph_ok (map fst [(0 :: nat, 2 :: nat), (2, 0)]) 0"
  "graph_ok (map snd [(0 :: nat, 2 :: nat), (2, 0)]) 0" "gh_eds (new_graph_header DIRECTED 2 2 0 0) = 0"
  "gh_is_directed_graph (new_graph_header DIRECTED 2 2 0 0)" "gh_num_vertices (new_graph_header DIRECTED 2 2 0 0) = 2"
  by (simp_all add: two_dvertices_def dvertices_are_def dvertex_is_def directed_vertex_def idv_serialize_size_def
    num_edges2vsize_def graph_ok_def less_Suc_eq emv_get_size_def emv_has_edge_data_def emv_get_size0_def
    emv_header_size_def new_ext_mem_undirected_vertex_def u32_def gh_eds_def new_graph_header_def gh_is_directed_graph_def)

lemma two_dvertices_index:
  obtains c where "bind_res (add_all dvic_add_vertex new_dvic two_dvertices)
      (\<lambda>s. dvic_dump s (new_graph_header DIRECTED 2 2 0 0) True) = Inr (CDI c)"
    "cdi_verify c" "ih_header (cdi_h c) = new_graph_header DIRECTED 2 2 0 0" "ih_compressed (cdi_h c)"
proof -
  let ?h = "new_graph_header DIRECTED 2 2 0 0" let ?ps = "[(0, 2), (2, 0)] :: (nat \<times> nat) list"
  have v: "dvertices_are (gh_eds ?h) two_dvertices ?ps" "gh_num_vertices ?h = length ?ps" "?ps \<noteq> []"
    "graph_ok (map fst ?ps) (gh_eds ?h)" "graph_ok (map snd ?ps) (gh_eds ?h)" using two_dvertices_are by simp_all
  obtain ix where ix: "bind_res (add_all dvic_add_vertex new_dvic two_dvertices) (\<lambda>c. dvic_dump c ?h True)
       = bind_res (cdi_construct ix) (\<lambda>c. Inr (CDI c))" "directed_plain ?ps (gh_eds ?h) ix"
    "dvi_h ix = (new_index_header ?h 16)\<lparr>ih_num_entries := length ?ps + 1,
       ih_out_part_loc := int (vertex_off HEADER_SIZE (map fst ?ps) (gh_eds ?h) (length ?ps))\<rparr>"
    by (rule dvic_dump_plain[OF v(1,2)])
  obtain c where "cdi_construct ix = Inr c" "cdi_verify c" "ih_header (cdi_h c) = ?h" "ih_compressed (cdi_h c)"
    by (rule cdi_of_plain[OF ix(2) v(4,5,3) ix(3)])
  then show thesis using that[of c] ix(1) by simp
qed

theorem directed_queries_agree_witness:
  "\<exists>ix q. bind_res (add_all dvic_add_vertex new_dvic two_dvertices)
      (\<lambda>s. dvic_dump s (new_graph_header DIRECTED 2 2 0 0) False) = Inr (DVI ix)
    \<and> query_create (DVI ix) True = Inr (Q_cdirected q) \<and> query_get_num_edges (Q_cdirected q) 0 OUT_EDGE = Inr 2
    \<and> imd_get_vertex q 1 = dvi_get_vertex ix 1"
proof -
  let ?h = "new_graph_header DIRECTED 2 2 0 0" let ?ps = "[(0, 2), (2, 0)] :: (nat \<times> nat) list"
  have v: "dvertices_are (gh_eds ?h) two_dvertices ?ps" "graph_ok (map fst ?ps) (gh_eds ?h)" "graph_ok (map snd ?ps) (gh_eds ?h)"
    "?ps \<noteq> []" "gh_num_vertices ?h = length ?ps" "gh_is_directed_graph ?h" using two_dvertices_are by simp_all
  obtain ix c q where "bind_res (add_all dvic_add_vertex new_dvic two_dvertices) (\<lambda>s. dvic_dump s ?h False) = Inr (DVI ix)"
    "query_create (DVI ix) True = Inr (Q_cdirected q)"
    and q: "\<forall>i<length ?ps. query_get_num_edges (Q_cdirected q) i IN_EDGE = Inr (fst (?ps ! i))
        \<and> query_get_num_edges (Q_cdirected q) i OUT_EDGE = Inr (snd (?ps ! i))
        \<and> query_get_num_edges (Q_directed ix) i OUT_EDGE = query_get_num_edges (Q_cdirected q) i OUT_EDGE
        \<and> imd_get_vertex q i = dvi_get_vertex ix i"
    using directed_queries_agree[OF v, of False OUT_EDGE] by blast
  moreover have "query_get_num_edges (Q_cdirected q) 0 OUT_EDGE = Inr 2" "imd_get_vertex q 1 = dvi_get_vertex ix 1"
    using q[rule_format, of 0] q[rule_format, of 1] by simp_all
  ultimately show ?thesis by blast
qed

section \<open>Index files\<close>

lemma load_spec:
  "vi_load (Some (len, ix)) = (if len < HEADER_SIZE \<or> len < vi_get_index_size ix then Inl Wrong_format
     else bind_res (verify_index ix) (\<lambda>_. Inr ix))"
  by (simp add: vi_load_def)

lemma dvi_verify_plain:
  assumes "directed_plain ps (gh_eds h) ix" "graph_ok (map fst ps) (gh_eds h)" "gh_type h = DIRECTED"
    "dvi_h ix = (new_index_header h 16)\<lparr>ih_num_entries := length ps + 1,
       ih_out_part_loc := int (vertex_off HEADER_SIZE (map fst ps) (gh_eds h) (length ps))\<rparr>"
  shows "dvi_verify ix = Inr True"
proof -
  let ?B = "vertex_off HEADER_SIZE (map fst ps) (gh_eds h) (length ps)"
  have n: "gh_num_vertices h = length ps" "u32 (length ps) = length ps"
    using assms(1,2,4) by (simp_all add: directed_plain_def new_index_header_def graph_ok_def u32_id)
  have d: "dentries HEADER_SIZE ?B ps (gh_eds h) ! i
      = \<lparr>dve_in_off = int (vertex_off HEADER_SIZE (map fst ps) (gh_eds h) i), dve_out_off = int (vertex_off ?B (map snd ps) (gh_eds h) i)\<rparr>"
    if "i \<le> length ps" for i using that by (simp add: dentries_def del: upt_Suc)
  show ?thesis
    using directed_get_vertex[OF assms(1), of 0] directed_get_vertex[OF assms(1), of "length ps"] d[of 0] d[of "length ps"] n assms(3,4)
    by (simp add: dvi_verify_def new_index_header_def vertex_off_0)
qed

text \<open>C23. Index files round-trip: the plain and the compressed index that the constructors of an undirected and
  of a directed graph dump are accepted by \<^verbatim>\<open>load\<close>, which gives them back, while a file that ends before
  the index does is refused as having the wrong format.\<close>

theorem index_file_round_trip:
  assumes "gh_is_graph_file h" "gh_is_right_version h"
    "gh_type h = UNDIRECTED \<and> gh_num_vertices h = length ns \<and> vertices_are (gh_eds h) vs ns \<and> graph_ok ns (gh_eds h)
       \<and> bind_res (add_all uvic_add_vertex new_uvic vs) (\<lambda>s. uvic_dump s h compressed) = Inr ix
     \<or> gh_type h = DIRECTED \<and> gh_num_vertices h = length ps \<and> dvertices_are (gh_eds h) vs ps \<and> ps \<noteq> []
       \<and> graph_ok (map fst ps) (gh_eds h) \<and> graph_ok (map snd ps) (gh_eds h)
       \<and> bind_res (add_all dvic_add_vertex new_dvic vs) (\<lambda>s. dvic_dump s h compressed) = Inr ix"
  shows "(vi_get_index_size ix \<le> len \<longrightarrow> vi_load (Some (len, ix)) = Inr ix)
    \<and> (len < vi_get_index_size ix \<longrightarrow> vi_load (Some (len, ix)) = Inl Wrong_format)"
proof -
  have "verify_index ix = Inr ()" using assms(3)
  proof (elim disjE conjE)
    assume u: "gh_type h = UNDIRECTED" "gh_num_vertices h = length ns" "vertices_are (gh_eds h) vs ns"
      and ok: "graph_ok ns (gh_eds h)" and dump: "bind_res (add_all uvic_add_vertex new_uvic vs) (\<lambda>s. uvic_dump s h compressed) = Inr ix"
    obtain u_ix where ix: "bind_res (add_all uvic_add_vertex new_uvic vs) (\<lambda>c. uvic_dump c h False) = Inr (UVI u_ix)"
      "bind_res (add_all uvic_add_vertex new_uvic vs) (\<lambda>c. uvic_dump c h True) = bind_res (cui_construct u_ix) (\<lambda>c. Inr (CUI c))"
      "plain_index HEADER_SIZE ns (gh_eds h) u_ix" "uvi_h u_ix = (new_index_header h 8)\<lparr>ih_num_entries := length ns + 1\<rparr>"
      using uvic_dump_plain[OF u(3,2)] .
    have "ix = (if compressed then CUI (cui_of h ns) else UVI u_ix)"
      using dump ix(1,2) cui_construct_plain[OF ix(3) ok ix(4)] by (cases compressed) simp_all
    moreover have "uvi_verify u_ix = Inr True"
      using u(1,2) ix(4) plain_get_vertex[OF ix(3), of 0] by (simp add: uvi_verify_def new_index_header_def vertex_off_0)
    moreover have "cui_verify (cui_of h ns)" "ih_header (cui_h (cui_of h ns)) = h" "ih_compressed (cui_h (cui_of h ns))"
      using cui_of_query(2)[OF u(2)] by (simp_all add: cui_of_def cui_construct_entries_def header_page_def)
    ultimately show ?thesis using assms(1,2) u(1) ix(4)
      by (simp add: verify_index_def gh_is_directed_graph_def new_index_header_def)
  next
    assume d: "gh_type h = DIRECTED" "gh_num_vertices h = length ps" "dvertices_are (gh_eds h) vs ps" "ps \<noteq> []"
      and ok: "graph_ok (map fst ps) (gh_eds h)" "graph_ok (map snd ps) (gh_eds h)" and dump: "bind_res (add_all dvic_add_vertex new_dvic vs) (\<lambda>s. dvic_dump s h compressed) = Inr ix"
    obtain d_ix where ix: "bind_res (add_all dvic_add_vertex new_dvic vs) (\<lambda>c. dvic_dump c h False) = Inr (DVI d_ix)"
      "bind_res (add_all dvic_add_vertex new_dvic vs) (\<lambda>c. dvic_dump c h True) = bind_res (cdi_construct d_ix) (\<lambda>c. Inr (CDI c))"
      "directed_plain ps (gh_eds h) d_ix"
      "dvi_h d_ix = (new_index_header h 16)\<lparr>ih_num_entries := length ps + 1,
         ih_out_part_loc := int (vertex_off HEADER_SIZE (map fst ps) (gh_eds h) (length ps))\<rparr>"
      using dvic_dump_plain[OF d(3,2)] .
    obtain c where c: "cdi_construct d_ix = Inr c" "cdi_verify c" "ih_header (cdi_h c) = h" "ih_compressed (cdi_h c)"
      using cdi_of_plain[OF ix(3) ok d(4) ix(4)] by metis
    have "ix = (if compressed then CDI c else DVI d_ix)" using dump ix(1,2) c(1) by (cases compressed) simp_all
    then show ?thesis using dvi_verify_plain[OF ix(3) ok(1) d(1) ix(4)] c assms(1,2) d(1) ix(4)
      by (simp add: verify_index_def gh_is_directed_graph_def new_index_header_def)
  qed
  moreover have "HEADER_SIZE \<le> vi_get_index_size ix" by (simp add: vi_get_index_size_def Let_def)
  ultimately show ?thesis by (simp add: load_spec)
qed

theorem index_file_round_trip_witness:
  "\<exists>ix. bind_res (add_all dvic_add_vertex new_dvic two_dvertices)
      (\<lambda>s. dvic_dump s (new_graph_header DIRECTED 2 2 0 0) True) = Inr ix
    \<and> vi_load (Some (vi_get_index_size ix, ix)) = Inr ix \<and> vi_load (Some (4096, ix)) = Inl Wrong_format"
proof -
  let ?h = "new_graph_header DIRECTED 2 2 0 0"
  have h: "gh_is_graph_file ?h" "gh_is_right_version ?h" "gh_type ?h = DIRECTED"
    by (simp_all add: gh_is_graph_file_def gh_is_right_version_def new_graph_header_def)
  obtain c where ix: "bind_res (add_all dvic_add_vertex new_dvic two_dvertices) (\<lambda>s. dvic_dump s ?h True) = Inr (CDI c)"
      "cdi_verify c" "ih_header (cdi_h c) = ?h" "ih_compressed (cdi_h c)"
    using two_dvertices_index .
  have "4096 < vi_get_index_size (CDI c)" using ix(2-4) two_dvertices_are
    by (simp add: vi_get_index_size_def HEADER_SIZE_def cdi_verify_def ENTRY_SIZE_def Let_def ROUNDUP_eq[of _ 5, simplified])
  then show ?thesis
    using index_file_round_trip[of ?h "[]" two_dvertices True "CDI c" "[(0, 2), (2, 0)]"] ix h two_dvertices_are
    by auto
qed

section \<open>Two checks that reject correct input\<close>

text \<open>\<^verbatim>\<open>verify_against\<close> compares the compressed index with the plain one. For an index with more than ten
  vertices that was built from the plain one it reports an error, because the offsets of the out-parts are
  equal.\<close>

lemma verify_against_rejects_correct_index:
  assumes "directed_plain ps e ix" "graph_ok (map fst ps) e" "graph_ok (map snd ps) e" "10 < length ps" "0 < fuel"
    "imd_init_regular ix = Inr q"
  shows "imd_verify_against fuel q ix = Inr False"
proof -
  let ?B = "vertex_off HEADER_SIZE (map fst ps) e (length ps)"
  have "ps \<noteq> []" using assms(4) by auto
  from directed_compressed[OF assms(1-3) this] assms(6) have q: "imd_wf q"
    "imd_in_lane q = compressed_of HEADER_SIZE (map fst ps) e" "imd_out_lane q = compressed_of ?B (map snd ps) e"
    by (metis sum.inject(2))+
  obtain r where r: "dvi_verify ix = Inr r" using assms(6) by (cases "dvi_verify ix") (auto simp: imd_init_regular_def)
  have i: "10 < length (map fst ps)" "10 < length (map snd ps)" using assms(4) by simp_all
  obtain f where f: "fuel = Suc f" using assms(5) by (cases fuel) auto
  have v: "imd_get_vertex q 10 = Inr \<lparr>dve_in_off = int (vertex_off HEADER_SIZE (map fst ps) e 10),
      dve_out_off = int (vertex_off ?B (map snd ps) e 10)\<rparr>"
    by (rule lane_get_offsets[OF q(1)]) (use assms(4) in \<open>simp_all add: q(2,3) compressed_get_vertex\<close>)
  obtain a b where "imd_get_in_size q 10 = Inr a" "imd_get_out_size q 10 = Inr b"
    using i by (simp add: lane_sizes[OF q(1)] q(2,3) compressed_get_size)
  then show ?thesis
    using v r plain_vertex_info[OF directed_lanes(1)[OF assms(1)] assms(2) i(1)]
      plain_vertex_info[OF directed_lanes(2)[OF assms(1)] assms(3) i(2)]
    by (simp add: imd_verify_against_def new_cdii_def f lane_vertex_info)
qed

text \<open>The constructor from arrays asserts that the in-part and the out-part have the same size. Because of the
  padding in front of the edge data that fails for a graph whose two vertices have one in-edge each and two
  and no out-edges.\<close>

lemma construct_rejects_padded_edges:
  "cdi_construct_edges 2 [1, 1] [2, 0] (header_page (new_graph_header DIRECTED 2 2 8 0)) = Inl Assert_failed"
proof -
  have sz: "num_edges2vsize 1 8 = 24" "num_edges2vsize 2 8 = 40" "num_edges2vsize 0 8 = 16"
    by (simp_all add: num_edges2vsize_def emv_get_size_def emv_has_edge_data_def emv_edge_data_addr_def
      emv_get_size0_def emv_header_size_def new_ext_mem_undirected_vertex_def u32_def ROUNDUP_def)
  have "gh_eds (new_graph_header DIRECTED 2 2 8 0) = 8" by (simp add: gh_eds_def new_graph_header_def)
  moreover have "[0..<2] = [0, 1 :: nat]" by (simp add: upt_rec)
  ultimately show ?thesis using sz
    by (simp add: cdi_construct_edges_def header_page_def cd_edge_blocks.simps cde_of_edges_def ENTRY_SIZE_def Let_def)
qed

end
