(* ===== verification/IO_Request.thy ===== *)
theory IO_Request
  imports Page
begin

text \<open>
  I/O requests (\<^verbatim>\<open>io_request.h\<close>, \<^verbatim>\<open>io_request.cpp\<close>): the vector of buffers of an extended request, the ranges a
  request covers, extraction of a part of a request, and the requests that the cached I/O sends to the disks
  (\<^verbatim>\<open>global_cached_private.cpp\<close>): the walk over the pages of a request, merging of requests, merging of dirty pages
  into a request. Offsets and sizes are integers below the range of \<^verbatim>\<open>off_t\<close>. A pointer is a number, 0 is \<^verbatim>\<open>NULL\<close>.
\<close>

unbundle bit_operations_syntax

section \<open>Rounding\<close>

definition ROUND :: "int \<Rightarrow> int \<Rightarrow> int" where
  "ROUND off base = off AND NOT (base - 1)"

definition round_page :: "int \<Rightarrow> int" where
  "round_page off = off AND NOT (PAGE_SIZE - 1)"

definition roundup_page :: "int \<Rightarrow> int" where
  "roundup_page off = (off + PAGE_SIZE - 1) AND NOT (PAGE_SIZE - 1)"

section \<open>The buffers of a request\<close>

record io_buf =
  ib_p :: nat
  ib_size :: int
  ib_is_page :: bool

definition null_io_buf :: io_buf where
  "null_io_buf = \<lparr>ib_p = 0, ib_size = 0, ib_is_page = False\<rparr>"

definition io_buf_init :: "nat \<Rightarrow> int \<Rightarrow> bool \<Rightarrow> io_buf res" where
  "io_buf_init p sz is_page = assert_then (is_page \<longrightarrow> sz = PAGE_SIZE)
     (Inr \<lparr>ib_p = p, ib_size = sz, ib_is_page = is_page\<rparr>)"

definition ib_get_page :: "io_buf \<Rightarrow> nat res" where
  "ib_get_page b = assert_then (ib_is_page b) (Inr (ib_p b))"

definition NUM_EMBEDDED_IOVECS :: nat where
  "NUM_EMBEDDED_IOVECS = 1"

definition MIN_NUM_ALLOC_IOVECS :: nat where
  "MIN_NUM_ALLOC_IOVECS = 16"

text \<open>\<open>ext_vec\<close> is the array that \<^verbatim>\<open>vec_pointer\<close> points to. The capacity is a signed bit field of 15 bits; from 8192 on
  doubling it gives a negative number and the allocation throws.\<close>

record io_req_extension =
  ext_priv :: nat
  ext_num_bufs :: nat
  ext_capacity :: nat
  ext_embedded :: bool
  ext_vec :: "io_buf list"

definition new_io_req_extension :: io_req_extension where
  "new_io_req_extension = \<lparr>ext_priv = 0, ext_num_bufs = 0, ext_capacity = NUM_EMBEDDED_IOVECS, ext_embedded = True,
     ext_vec = replicate NUM_EMBEDDED_IOVECS null_io_buf\<rparr>"

definition ext_init :: "io_req_extension \<Rightarrow> io_req_extension" where
  "ext_init e = e\<lparr>ext_priv := 0, ext_num_bufs := 0, ext_vec := replicate (ext_capacity e) null_io_buf\<rparr>"

definition ext_init_from :: "io_req_extension \<Rightarrow> io_req_extension \<Rightarrow> io_req_extension res" where
  "ext_init_from e ext = assert_then (ext_capacity e \<ge> ext_capacity ext)
     (Inr (e\<lparr>ext_priv := ext_priv ext, ext_num_bufs := ext_num_bufs ext,
             ext_vec := take (ext_num_bufs ext) (ext_vec ext) @ drop (ext_num_bufs ext) (ext_vec e)\<rparr>))"

definition ext_grow :: "nat \<Rightarrow> io_req_extension \<Rightarrow> io_req_extension res" where
  "ext_grow front e =
     (if ext_embedded e
      then Inr (e\<lparr>ext_embedded := False, ext_capacity := MIN_NUM_ALLOC_IOVECS,
                  ext_vec := replicate front null_io_buf @ take NUM_EMBEDDED_IOVECS (ext_vec e)
                    @ replicate (MIN_NUM_ALLOC_IOVECS - NUM_EMBEDDED_IOVECS - front) null_io_buf\<rparr>)
      else if ext_capacity e * 2 \<ge> 2 ^ 14 then Inl Bad_alloc
      else Inr (e\<lparr>ext_capacity := ext_capacity e * 2,
                  ext_vec := replicate front null_io_buf @ take (ext_capacity e) (ext_vec e)
                    @ replicate (ext_capacity e - front) null_io_buf\<rparr>))"

definition ext_add_io_buf :: "io_req_extension \<Rightarrow> io_buf \<Rightarrow> io_req_extension res" where
  "ext_add_io_buf e buf =
     bind_res (if ext_num_bufs e \<ge> ext_capacity e then ext_grow 0 e else Inr e) (\<lambda>e.
       assert_then (ext_num_bufs e < ext_capacity e)
         (Inr (e\<lparr>ext_vec := (ext_vec e)[ext_num_bufs e := buf], ext_num_bufs := ext_num_bufs e + 1\<rparr>)))"

definition ext_add_buf :: "io_req_extension \<Rightarrow> nat \<Rightarrow> int \<Rightarrow> bool \<Rightarrow> io_req_extension res" where
  "ext_add_buf e p sz is_page = bind_res (io_buf_init p sz is_page) (ext_add_io_buf e)"

definition ext_add_buf_front :: "io_req_extension \<Rightarrow> nat \<Rightarrow> int \<Rightarrow> bool \<Rightarrow> io_req_extension res" where
  "ext_add_buf_front e p sz is_page =
     bind_res (if ext_num_bufs e \<ge> ext_capacity e then ext_grow 1 e
       else Inr (e\<lparr>ext_vec := take 1 (ext_vec e) @ take (ext_num_bufs e) (ext_vec e) @ drop (ext_num_bufs e + 1) (ext_vec e)\<rparr>)) (\<lambda>e.
     assert_then (ext_num_bufs e < ext_capacity e)
       (bind_res (io_buf_init p sz is_page) (\<lambda>b.
         Inr (e\<lparr>ext_vec := (ext_vec e)[0 := b], ext_num_bufs := ext_num_bufs e + 1\<rparr>))))"

definition ext_get_buf :: "io_req_extension \<Rightarrow> nat \<Rightarrow> io_buf res" where
  "ext_get_buf e idx = (if idx < length (ext_vec e) then Inr (ext_vec e ! idx) else Inl Undefined_behaviour)"

definition ext_get_size :: "io_req_extension \<Rightarrow> int" where
  "ext_get_size e = int32 (sum_list (map ib_size (take (ext_num_bufs e) (ext_vec e))))"

section \<open>Requests\<close>

datatype access_method = READ | WRITE

datatype payload = BASIC_REQ nat | EXT_REQ io_req_extension | USER_COMPUTE nat

record io_request =
  ior_buf_size :: int
  ior_offset :: int
  ior_payload :: payload
  ior_access_method :: access_method
  ior_sync :: bool
  ior_high_prio :: bool
  ior_low_latency :: bool
  ior_discarded :: bool
  ior_node_id :: int
  ior_file_id :: int
  ior_io :: nat

definition MAX_NODE_ID :: int where
  "MAX_NODE_ID = 255"

definition new_io_request :: "bool \<Rightarrow> io_request" where
  "new_io_request sync = \<lparr>ior_buf_size = 0, ior_offset = 0, ior_payload = BASIC_REQ 0, ior_access_method = READ,
     ior_sync = sync, ior_high_prio = True, ior_low_latency = False, ior_discarded = False, ior_node_id = 0,
     ior_file_id = 0, ior_io = 0\<rparr>"

definition ior_add_buf :: "io_request \<Rightarrow> nat \<Rightarrow> int \<Rightarrow> io_request res" where
  "ior_add_buf req buf sz = (case ior_payload req of
       EXT_REQ e \<Rightarrow> bind_res (ext_add_buf e buf sz False) (\<lambda>e. Inr (req\<lparr>ior_payload := EXT_REQ e\<rparr>))
     | _ \<Rightarrow> Inl Assert_failed)"

definition ior_init :: "io_request \<Rightarrow> nat \<Rightarrow> data_loc_t \<Rightarrow> int \<Rightarrow> access_method \<Rightarrow> nat \<Rightarrow> int \<Rightarrow> io_request res" where
  "ior_init req buf loc sz acc io node_id =
     (let req = req\<lparr>ior_file_id := loc_file_id loc, ior_offset := loc_off loc, ior_io := io\<rparr>
      in bind_res (case ior_payload req of
             EXT_REQ e \<Rightarrow> if buf \<noteq> 0 then ior_add_buf req buf sz else Inr req
           | BASIC_REQ b \<Rightarrow> Inr (req\<lparr>ior_buf_size := sz, ior_payload := BASIC_REQ buf\<rparr>)
           | USER_COMPUTE c \<Rightarrow> Inr (req\<lparr>ior_buf_size := sz, ior_payload := USER_COMPUTE 0\<rparr>)) (\<lambda>req.
         let req = req\<lparr>ior_access_method := acc\<rparr>
         in assert_then (node_id \<le> MAX_NODE_ID) (Inr (req\<lparr>ior_node_id := node_id\<rparr>))))"

definition new_basic_request :: "nat \<Rightarrow> data_loc_t \<Rightarrow> int \<Rightarrow> access_method \<Rightarrow> nat \<Rightarrow> int \<Rightarrow> bool \<Rightarrow> io_request res" where
  "new_basic_request buf loc sz acc io node_id sync =
     bind_res (ior_init (new_io_request False) buf loc sz acc io node_id) (\<lambda>req. Inr (req\<lparr>ior_sync := sync\<rparr>))"

definition new_ext_request :: "io_req_extension \<Rightarrow> data_loc_t \<Rightarrow> access_method \<Rightarrow> nat \<Rightarrow> int \<Rightarrow> io_request res" where
  "new_ext_request ext loc acc io node_id =
     ior_init ((new_io_request False)\<lparr>ior_payload := EXT_REQ ext\<rparr>) 0 loc 0 acc io node_id"

definition new_compute_request :: "nat \<Rightarrow> data_loc_t \<Rightarrow> int \<Rightarrow> access_method \<Rightarrow> nat \<Rightarrow> int \<Rightarrow> io_request res" where
  "new_compute_request compute loc sz acc io node_id =
     bind_res (ior_init ((new_io_request False)\<lparr>ior_payload := USER_COMPUTE 0\<rparr>) 0 loc sz acc io node_id) (\<lambda>req.
       Inr (req\<lparr>ior_payload := USER_COMPUTE compute\<rparr>))"

definition ior_is_flush :: "io_request \<Rightarrow> bool" where
  "ior_is_flush req \<longleftrightarrow> ior_sync req \<and> ior_high_prio req
     \<and> (case ior_payload req of BASIC_REQ b \<Rightarrow> b = 0 | EXT_REQ e \<Rightarrow> False | USER_COMPUTE c \<Rightarrow> c = 0)"

definition ior_extension :: "io_request \<Rightarrow> io_req_extension res" where
  "ior_extension req = (case ior_payload req of EXT_REQ e \<Rightarrow> Inr e | _ \<Rightarrow> Inl Assert_failed)"

definition ior_get_size :: "io_request \<Rightarrow> int" where
  "ior_get_size req = (case ior_payload req of EXT_REQ e \<Rightarrow> ext_get_size e | _ \<Rightarrow> ior_buf_size req)"

definition ior_get_num_bufs :: "io_request \<Rightarrow> nat" where
  "ior_get_num_bufs req = (case ior_payload req of EXT_REQ e \<Rightarrow> ext_num_bufs e | _ \<Rightarrow> 1)"

definition ior_get_page :: "io_request \<Rightarrow> nat \<Rightarrow> nat res" where
  "ior_get_page req idx = bind_res (ior_extension req) (\<lambda>e. bind_res (ext_get_buf e idx) ib_get_page)"

definition ior_set_data_loc :: "data_loc_t \<Rightarrow> io_request \<Rightarrow> io_request" where
  "ior_set_data_loc loc req = req\<lparr>ior_file_id := loc_file_id loc, ior_offset := loc_off loc\<rparr>"

definition ior_map_ext :: "(io_req_extension \<Rightarrow> io_req_extension res) \<Rightarrow> io_request \<Rightarrow> io_request res" where
  "ior_map_ext f req = bind_res (ior_extension req) (\<lambda>e. bind_res (f e) (\<lambda>e. Inr (req\<lparr>ior_payload := EXT_REQ e\<rparr>)))"

definition ior_add_page :: "nat \<Rightarrow> io_request \<Rightarrow> io_request res" where
  "ior_add_page p = ior_map_ext (\<lambda>e. ext_add_buf e p PAGE_SIZE True)"

definition ior_add_page_front :: "nat \<Rightarrow> io_request \<Rightarrow> io_request res" where
  "ior_add_page_front p = ior_map_ext (\<lambda>e. ext_add_buf_front e p PAGE_SIZE True)"

definition ior_add_io_buf :: "io_buf \<Rightarrow> io_request \<Rightarrow> io_request res" where
  "ior_add_io_buf b = ior_map_ext (\<lambda>e. ext_add_io_buf e b)"

definition ior_set_priv :: "nat \<Rightarrow> io_request \<Rightarrow> io_request res" where
  "ior_set_priv p = ior_map_ext (\<lambda>e. Inr (e\<lparr>ext_priv := p\<rparr>))"

section \<open>Ranges\<close>

definition ior_end :: "io_request \<Rightarrow> int" where
  "ior_end req = ior_offset req + ior_get_size req"

definition ior_within_1page :: "io_request \<Rightarrow> bool" where
  "ior_within_1page req \<longleftrightarrow> ior_offset req + ior_get_size req \<le> round_page (ior_offset req) + PAGE_SIZE"

definition ior_contain_offset :: "io_request \<Rightarrow> int \<Rightarrow> bool" where
  "ior_contain_offset req off \<longleftrightarrow> ior_offset req \<le> off \<and> off < ior_offset req + ior_get_size req"

definition ior_has_overlap :: "io_request \<Rightarrow> int \<Rightarrow> int \<Rightarrow> bool" where
  "ior_has_overlap req off sz \<longleftrightarrow>
     (off \<ge> ior_offset req \<and> off < ior_offset req + ior_get_size req)
   \<or> (off + sz \<ge> ior_offset req \<and> off + sz < ior_offset req + ior_get_size req)
   \<or> (off \<le> ior_offset req \<and> off + sz \<ge> ior_offset req + ior_get_size req)"

definition ior_num_covered_pages :: "io_request \<Rightarrow> int" where
  "ior_num_covered_pages req = (roundup_page (ior_offset req + ior_get_size req) - round_page (ior_offset req)) div PAGE_SIZE"

definition ior_inside_RAID_block :: "io_request \<Rightarrow> int \<Rightarrow> bool" where
  "ior_inside_RAID_block req block_size \<longleftrightarrow>
     ROUND (ior_offset req) (block_size * PAGE_SIZE) = ROUND (ior_offset req + ior_get_size req - 1) (block_size * PAGE_SIZE)"

definition ior_extract :: "io_request \<Rightarrow> int \<Rightarrow> int \<Rightarrow> io_request res" where
  "ior_extract req off sz =
     assert_then (ior_get_num_bufs req = 1)
    (assert_then (ior_has_overlap req off sz)
    (bind_res (case ior_payload req of
         EXT_REQ e \<Rightarrow> bind_res (ext_get_buf e 0) (\<lambda>b. Inr (ib_p b))
       | BASIC_REQ b \<Rightarrow> Inr b | USER_COMPUTE c \<Rightarrow> Inr c) (\<lambda>buf.
     let req_off = (if off \<le> ior_offset req then ior_offset req else off);
         req_buf = (if off \<le> ior_offset req then buf else buf + nat (off - ior_offset req));
         req_size = min (off + sz - req_off) (ior_offset req + ior_get_size req - req_off)
     in ior_init (new_io_request False) req_buf \<lparr>loc_file_id = ior_file_id req, loc_off = req_off\<rparr> req_size
          (ior_access_method req) (ior_io req) (ior_node_id req))))"

section \<open>The request in progress\<close>

record partial_request =
  pr_req :: io_request
  pr_begin_pg_offset :: int
  pr_end_pg_offset :: int
  pr_curr_pg_offset :: int

definition pr_init :: "io_request \<Rightarrow> partial_request" where
  "pr_init req = \<lparr>pr_req = req, pr_begin_pg_offset = round_page (ior_offset req),
     pr_end_pg_offset = roundup_page (ior_offset req + ior_get_size req), pr_curr_pg_offset = round_page (ior_offset req)\<rparr>"

definition pr_is_empty :: "partial_request \<Rightarrow> bool" where
  "pr_is_empty pr \<longleftrightarrow> pr_curr_pg_offset pr = pr_end_pg_offset pr"

definition pr_get_curr_page_id :: "partial_request \<Rightarrow> data_loc_t" where
  "pr_get_curr_page_id pr = \<lparr>loc_file_id = ior_file_id (pr_req pr), loc_off = pr_curr_pg_offset pr\<rparr>"

definition pr_move_next :: "partial_request \<Rightarrow> partial_request" where
  "pr_move_next pr = pr\<lparr>pr_curr_pg_offset := pr_curr_pg_offset pr + PAGE_SIZE\<rparr>"

definition pr_get_remaining_size :: "partial_request \<Rightarrow> int" where
  "pr_get_remaining_size pr = ior_offset (pr_req pr) + ior_get_size (pr_req pr)
     - max (pr_curr_pg_offset pr) (ior_offset (pr_req pr))"

section \<open>Merging requests\<close>

definition cross_RAID_block_bound :: "int \<Rightarrow> int \<Rightarrow> int \<Rightarrow> bool" where
  "cross_RAID_block_bound off sz block_size \<longleftrightarrow>
     off + sz - ROUND off (block_size * PAGE_SIZE) > block_size * PAGE_SIZE"

text \<open>\<open>poff\<close> gives the offset of the page a pointer points to.\<close>

fun merge_bufs :: "(nat \<Rightarrow> int) \<Rightarrow> io_request \<Rightarrow> io_buf list \<Rightarrow> io_request res" where
  "merge_bufs poff merged [] = Inr merged"
| "merge_bufs poff merged (b # bs) =
     bind_res (ib_get_page b) (\<lambda>p.
     bind_res (if ior_contain_offset merged (poff p)
       then bind_res (ior_get_page merged (nat ((poff p - ior_offset merged) sdiv PAGE_SIZE))) (\<lambda>p'.
            assert_then (p = p') (Inr merged))
       else ior_add_io_buf b merged) (\<lambda>merged. merge_bufs poff merged bs))"

definition merge_req :: "(nat \<Rightarrow> int) \<Rightarrow> io_request \<Rightarrow> io_request \<Rightarrow> io_request option res" where
  "merge_req poff merged req =
     assert_then (ior_offset merged \<le> ior_offset req)
    (assert_then (ior_file_id merged = ior_file_id req)
    (if ior_offset merged + ior_get_size merged \<noteq> ior_offset req
        \<or> ior_access_method merged \<noteq> ior_access_method req \<or> ior_sync merged \<noteq> ior_sync req
        \<or> ior_high_prio merged \<noteq> ior_high_prio req \<or> ior_low_latency merged \<noteq> ior_low_latency req
     then Inr None
     else bind_res (ior_extension req) (\<lambda>e.
          bind_res (merge_bufs poff merged (take (ext_num_bufs e) (ext_vec e))) (\<lambda>merged.
          bind_res (ior_set_priv 0 merged) (\<lambda>merged. Inr (Some merged))))))"

text \<open>The loop of \<^verbatim>\<open>flush_requests\<close>: \<open>req\<close> is the request collected so far, the result are the requests sent, in
  order. \<open>fails\<close> says which accesses the layer below refuses.\<close>

fun flush_loop :: "(nat \<Rightarrow> int) \<Rightarrow> int \<Rightarrow> (io_request \<Rightarrow> bool) \<Rightarrow> io_request \<Rightarrow> io_request list \<Rightarrow> io_request list res" where
  "flush_loop poff block_size fails req [] = (if fails req then Inl Io_exception else Inr [req])"
| "flush_loop poff block_size fails req (under_req # reqs) =
     bind_res (if ior_offset under_req \<noteq> ior_offset req + ior_get_size req
          \<or> cross_RAID_block_bound (ior_offset req) (ior_get_size req + ior_get_size under_req) block_size
        then Inr None else merge_req poff req under_req) (\<lambda>m. case m of
       Some merged \<Rightarrow> flush_loop poff block_size fails merged reqs
     | None \<Rightarrow> if fails req then Inl Io_exception
               else bind_res (flush_loop poff block_size fails under_req reqs) (\<lambda>sent. Inr (req # sent)))"

definition flush_requests :: "(nat \<Rightarrow> int) \<Rightarrow> int \<Rightarrow> (io_request \<Rightarrow> bool) \<Rightarrow> bool \<Rightarrow> io_request list
    \<Rightarrow> (io_request list \<times> nat \<times> nat) res" where
  "flush_requests poff block_size fails merge_reqs underlying =
     (if \<not> merge_reqs then assert_then (underlying = []) (Inr ([], 0, 0))
      else case underlying of [] \<Rightarrow> Inr ([], 0, 0)
      | req # reqs \<Rightarrow> bind_res (flush_loop poff block_size fails req reqs) (\<lambda>sent.
          Inr (sent, length sent, sum_list (map ior_get_num_bufs sent))))"

section \<open>Merging dirty pages into a request\<close>

text \<open>The pages are a store from pointers to pages, the lookup in the cache is the argument \<open>look\<close>: a hit takes a
  reference. Both loops stay within the RAID block of the request.\<close>

type_synonym page_store = "nat \<Rightarrow> page"

type_synonym page_lookup = "data_loc_t \<Rightarrow> page_store \<Rightarrow> nat option \<times> page_store"

definition upd_store :: "nat \<Rightarrow> (page \<Rightarrow> page) \<Rightarrow> page_store \<Rightarrow> page_store" where
  "upd_store p f st = st(p := f (st p))"

text \<open>The cache as the map from locations to pages that its cells implement; \<^verbatim>\<open>search(pg_id)\<close> takes a reference.\<close>

definition cache_lookup :: "(data_loc_t \<Rightarrow> nat option) \<Rightarrow> page_lookup" where
  "cache_lookup m loc st = (case m loc of None \<Rightarrow> (None, st) | Some p \<Rightarrow> (Some p, upd_store p inc_ref st))"

function merge_forward :: "page_lookup \<Rightarrow> int \<Rightarrow> int \<Rightarrow> io_request \<Rightarrow> page_store \<Rightarrow> (io_request \<times> page_store) res" where
  "merge_forward look off block_end req st =
     (if off < block_end
      then (case look \<lparr>loc_file_id = ior_file_id req, loc_off = off\<rparr> st of
              (None, st) \<Rightarrow> Inr (req, st)
            | (Some p, st) \<Rightarrow>
                if \<not> is_dirty (st p) \<or> is_io_pending (st p) then Inr (req, upd_store p dec_ref st)
                else bind_res (ior_add_page p req) (\<lambda>req.
                     merge_forward look (off + PAGE_SIZE) block_end req (upd_store p (set_io_pending True) st)))
      else Inr (req, st))"
  by pat_completeness auto
termination by (relation "measure (\<lambda>(_, off, e, _, _). nat (e - off))") (auto simp: PAGE_SIZE_def)

declare merge_forward.simps [simp del]

function merge_backward :: "page_lookup \<Rightarrow> int \<Rightarrow> int \<Rightarrow> io_request \<Rightarrow> page_store \<Rightarrow> (io_request \<times> page_store) res" where
  "merge_backward look off block_off req st =
     (if off \<ge> block_off
      then (case look \<lparr>loc_file_id = ior_file_id req, loc_off = off\<rparr> st of
              (None, st) \<Rightarrow> Inr (req, st)
            | (Some p, st) \<Rightarrow>
                if \<not> is_dirty (st p) \<or> is_io_pending (st p) then Inr (req, upd_store p dec_ref st)
                else bind_res (ior_add_page_front p req) (\<lambda>req.
                     let req = ior_set_data_loc \<lparr>loc_file_id = ior_file_id req, loc_off = off\<rparr> req;
                         st = upd_store p (set_io_pending True) st
                     in if off \<ge> PAGE_SIZE then merge_backward look (off - PAGE_SIZE) block_off req st
                        else Inr (req, st)))
      else Inr (req, st))"
  by pat_completeness auto
termination by (relation "measure (\<lambda>(_, off, b, _, _). nat (off - b + 1))") (auto simp: PAGE_SIZE_def)

declare merge_backward.simps [simp del]

definition merge_pages2req :: "bool \<Rightarrow> page_lookup \<Rightarrow> int \<Rightarrow> io_request \<Rightarrow> page_store \<Rightarrow> (io_request \<times> page_store) res" where
  "merge_pages2req cache_large_write look block_size req st =
     (if \<not> cache_large_write then Inr (req, st)
      else let off = ior_offset req; block_off = ROUND off (block_size * PAGE_SIZE)
           in bind_res (merge_forward look (off + PAGE_SIZE) (block_off + block_size * PAGE_SIZE) req st) (\<lambda>(req, st).
              bind_res (if off \<ge> PAGE_SIZE then merge_backward look (off - PAGE_SIZE) block_off req st else Inr (req, st)) (\<lambda>(req, st).
              assert_then (ior_inside_RAID_block req block_size) (Inr (req, st)))))"

section \<open>Distributing requests\<close>

text \<open>\<^verbatim>\<open>process_reqs_on_io\<close> after its \<^verbatim>\<open>std::sort\<close>: the runs of requests with the same I/O instance, in order.\<close>

fun io_runs :: "('r \<Rightarrow> nat) \<Rightarrow> nat \<Rightarrow> 'r list \<Rightarrow> 'r list \<Rightarrow> (nat \<times> 'r list) list" where
  "io_runs func prev run [] = [(prev, run)]"
| "io_runs func prev run (r # rs) =
     (if func r \<noteq> prev then (prev, run) # io_runs func (func r) [r] rs else io_runs func prev (run @ [r]) rs)"

definition process_reqs_on_io :: "('r \<Rightarrow> nat) \<Rightarrow> 'r list \<Rightarrow> (nat \<times> 'r list) list res" where
  "process_reqs_on_io func sorted_reqs = (case sorted_reqs of [] \<Rightarrow> Inl Undefined_behaviour
     | r # rs \<Rightarrow> Inr (io_runs func (func r) [r] rs))"

end
