(* ===== verification/IO_Request_Laws.thy ===== *)
theory IO_Request_Laws
  imports IO_Request
begin

text \<open>
  The vector of buffers of a request is a list; a request whose buffers are consecutive pages covers one range of
  the file. Merging keeps such requests consecutive and within a RAID block.
\<close>

section \<open>Rounding\<close>

lemma and_not_mask_int: "(x :: int) AND NOT (2 ^ k - 1) = x div 2 ^ k * 2 ^ k"
proof -
  have "x AND NOT (mask k) = push_bit k (drop_bit k x)" by (rule bit_eqI) (auto simp: bit_simps)
  then show ?thesis by (simp add: mask_eq_exp_minus_1 push_bit_eq_mult drop_bit_eq_div)
qed

lemma round_page_eq: "round_page off = off div 4096 * 4096"
  using and_not_mask_int[of off 12] by (simp add: round_page_def)

lemma roundup_page_eq: "roundup_page off = (off + 4095) div 4096 * 4096"
  using and_not_mask_int[of "off + 4095" 12] by (simp add: roundup_page_def add.commute)

lemma ROUND_eq: "ROUND off (2 ^ k) = off div 2 ^ k * 2 ^ k"
  by (simp add: ROUND_def and_not_mask_int)

lemma div_less_int: "0 < q \<Longrightarrow> b div q < n \<longleftrightarrow> b < n * (q :: int)"
proof -
  assume q: "0 < q"
  have "n \<le> b div q \<longleftrightarrow> n * q \<le> b"
  proof
    assume "n \<le> b div q"
    then have "n * q \<le> b div q * q" using q by simp
    also have "\<dots> \<le> b" using pos_mod_sign[OF q, of b] minus_mod_eq_div_mult[of b q] by linarith
    finally show "n * q \<le> b" .
  next
    assume "n * q \<le> b"
    from zdiv_mono1[OF this q] q show "n \<le> b div q" by simp
  qed
  then show ?thesis by linarith
qed

lemma round_same_iff:
  assumes "a \<le> b" "0 < q"
  shows "a div q * q = b div q * q \<longleftrightarrow> b < a div q * q + (q :: int)"
proof -
  have "a div q * q = b div q * q \<longleftrightarrow> b div q < a div q + 1" using zdiv_mono1[OF assms] assms(2) by auto
  also have "\<dots> \<longleftrightarrow> b < (a div q + 1) * q" by (rule div_less_int[OF assms(2)])
  finally show ?thesis by (simp add: distrib_right)
qed

section \<open>The vector of buffers\<close>

definition ext_wf :: "io_req_extension \<Rightarrow> bool" where
  "ext_wf e \<longleftrightarrow> length (ext_vec e) = ext_capacity e \<and> ext_num_bufs e \<le> ext_capacity e \<and> 1 \<le> ext_capacity e
     \<and> ext_capacity e < 2 ^ 14
     \<and> (ext_embedded e \<longrightarrow> ext_capacity e = NUM_EMBEDDED_IOVECS)"

definition ext_bufs :: "io_req_extension \<Rightarrow> io_buf list" where
  "ext_bufs e = take (ext_num_bufs e) (ext_vec e)"

lemmas ext_defs = ext_wf_def ext_bufs_def NUM_EMBEDDED_IOVECS_def MIN_NUM_ALLOC_IOVECS_def

lemma new_ext_wf: "ext_wf new_io_req_extension" "ext_bufs new_io_req_extension = []"
  by (simp_all add: new_io_req_extension_def ext_defs)

lemma ext_grow_spec:
  assumes "ext_wf e" "ext_num_bufs e = ext_capacity e" "ext_num_bufs e < 8192" "front \<le> 1"
  obtains e' where "ext_grow front e = Inr e'" "length (ext_vec e') = ext_capacity e'" "ext_num_bufs e' = ext_num_bufs e"
    "ext_capacity e' < 2 ^ 14"
    "ext_num_bufs e < ext_capacity e'" "\<not> ext_embedded e'" "ext_priv e' = ext_priv e"
    "take (ext_num_bufs e) (drop front (ext_vec e')) = ext_vec e"
proof (cases "ext_embedded e")
  case True
  then show ?thesis using that assms by (simp add: ext_grow_def ext_defs)
next
  case False
  then show ?thesis using that assms by (simp add: ext_grow_def ext_defs)
qed

lemma ext_add_io_buf_spec:
  assumes "ext_wf e" "ext_num_bufs e < 8192"
  obtains e' where "ext_add_io_buf e b = Inr e'" "ext_wf e'" "ext_bufs e' = ext_bufs e @ [b]" "ext_priv e' = ext_priv e"
proof (cases "ext_num_bufs e < ext_capacity e")
  case True
  then show ?thesis using that assms(1)
    by (simp add: ext_add_io_buf_def ext_wf_def ext_bufs_def take_Suc_conv_app_nth)
next
  case False
  then have n: "ext_num_bufs e = ext_capacity e" using assms(1) by (simp add: ext_wf_def)
  obtain g where g: "ext_grow 0 e = Inr g" "length (ext_vec g) = ext_capacity g" "ext_num_bufs g = ext_num_bufs e"
    "ext_capacity g < 2 ^ 14"
    "ext_num_bufs e < ext_capacity g" "\<not> ext_embedded g" "ext_priv g = ext_priv e"
    "take (ext_num_bufs e) (drop 0 (ext_vec g)) = ext_vec e" using ext_grow_spec[OF assms(1) n assms(2), of 0] by auto
  then show ?thesis using that assms(1) n
    by (simp add: ext_add_io_buf_def ext_wf_def ext_bufs_def take_Suc_conv_app_nth)
qed

lemma ext_add_front_spec:
  assumes "ext_wf e" "ext_num_bufs e < 8192" "is_page \<longrightarrow> sz = PAGE_SIZE"
  obtains e' where "ext_add_buf_front e p sz is_page = Inr e'" "ext_wf e'" "ext_priv e' = ext_priv e"
    "ext_bufs e' = \<lparr>ib_p = p, ib_size = sz, ib_is_page = is_page\<rparr> # ext_bufs e"
proof (cases "ext_num_bufs e < ext_capacity e")
  case True
  then obtain v vs where v: "ext_vec e = v # vs" using assms(1) by (cases "ext_vec e") (auto simp: ext_wf_def)
  show ?thesis
    using that assms True v by (simp add: ext_add_buf_front_def io_buf_init_def ext_wf_def ext_bufs_def)
next
  case False
  then have n: "ext_num_bufs e = ext_capacity e" using assms(1) by (simp add: ext_wf_def)
  obtain g where g: "ext_grow 1 e = Inr g" "length (ext_vec g) = ext_capacity g" "ext_num_bufs g = ext_num_bufs e"
    "ext_capacity g < 2 ^ 14"
    "ext_num_bufs e < ext_capacity g" "\<not> ext_embedded g" "ext_priv g = ext_priv e"
    "take (ext_num_bufs e) (drop 1 (ext_vec g)) = ext_vec e" using ext_grow_spec[OF assms(1) n assms(2), of 1] by auto
  obtain v vs where v: "ext_vec g = v # vs" using g(2,5) by (cases "ext_vec g") auto
  show ?thesis using that assms g n v
    by (simp add: ext_add_buf_front_def io_buf_init_def ext_wf_def ext_bufs_def)
qed

lemma ext_init_wf:
  assumes "ext_wf e" "ext_wf ext"
  shows "ext_wf (ext_init e)" "ext_bufs (ext_init e) = []"
    "ext_init_from e ext = Inr e' \<Longrightarrow> ext_wf e' \<and> ext_bufs e' = ext_bufs ext"
  using assms by (auto simp: ext_init_def ext_init_from_def ext_defs res_simps)

text \<open>The interface of the vector: both ends grow while there is \<open>room\<close>.\<close>

fun push_all :: "('e \<Rightarrow> 'b \<Rightarrow> 'e res) \<Rightarrow> 'e \<Rightarrow> 'b list \<Rightarrow> 'e res" where
  "push_all push e [] = Inr e"
| "push_all push e (b # bs) = bind_res (push e b) (\<lambda>e. push_all push e bs)"

locale buffer_vector =
  fixes push :: "'e \<Rightarrow> 'b \<Rightarrow> 'e res" and push_front :: "'e \<Rightarrow> 'b \<Rightarrow> 'e res"
    and bufs :: "'e \<Rightarrow> 'b list" and invar :: "'e \<Rightarrow> bool" and valid :: "'b \<Rightarrow> bool" and room :: nat
  assumes push_spec: "invar e \<Longrightarrow> valid b \<Longrightarrow> length (bufs e) < room
      \<Longrightarrow> \<exists>e'. push e b = Inr e' \<and> invar e' \<and> bufs e' = bufs e @ [b]"
    and push_front_spec: "invar e \<Longrightarrow> valid b \<Longrightarrow> length (bufs e) < room
      \<Longrightarrow> \<exists>e'. push_front e b = Inr e' \<and> invar e' \<and> bufs e' = b # bufs e"
begin

lemma push_all_spec:
  "invar e \<Longrightarrow> \<forall>b\<in>set bs. valid b \<Longrightarrow> length (bufs e) + length bs \<le> room
    \<Longrightarrow> \<exists>e'. push_all push e bs = Inr e' \<and> invar e' \<and> bufs e' = bufs e @ bs"
proof (induction bs arbitrary: e)
  case Nil
  then show ?case by simp
next
  case (Cons b bs)
  then obtain e1 where e1: "push e b = Inr e1" "invar e1" "bufs e1 = bufs e @ [b]" using push_spec[of e b] by auto
  with Cons.IH[of e1] Cons.prems show ?case by auto
qed

lemma push_all_front_spec:
  "invar e \<Longrightarrow> \<forall>b\<in>set bs. valid b \<Longrightarrow> length (bufs e) + length bs \<le> room
    \<Longrightarrow> \<exists>e'. push_all push_front e bs = Inr e' \<and> invar e' \<and> bufs e' = rev bs @ bufs e"
proof (induction bs arbitrary: e)
  case Nil
  then show ?case by simp
next
  case (Cons b bs)
  then obtain e1 where e1: "push_front e b = Inr e1" "invar e1" "bufs e1 = b # bufs e"
    using push_front_spec[of e b] by auto
  with Cons.IH[of e1] Cons.prems show ?case by auto
qed

end

definition buf_ok :: "io_buf \<Rightarrow> bool" where
  "buf_ok b \<longleftrightarrow> (ib_is_page b \<longrightarrow> ib_size b = PAGE_SIZE)"

interpretation ext: buffer_vector ext_add_io_buf "\<lambda>e b. ext_add_buf_front e (ib_p b) (ib_size b) (ib_is_page b)"
  ext_bufs ext_wf buf_ok 8192
proof
  fix e :: io_req_extension and b :: io_buf
  assume a: "ext_wf e" "buf_ok b" "length (ext_bufs e) < 8192"
  then have n: "ext_num_bufs e < 8192" by (auto simp: ext_defs)
  show "\<exists>e'. ext_add_io_buf e b = Inr e' \<and> ext_wf e' \<and> ext_bufs e' = ext_bufs e @ [b]"
    using ext_add_io_buf_spec[OF a(1) n, of b] by metis
  have ok: "ib_is_page b \<longrightarrow> ib_size b = PAGE_SIZE" using a(2) by (simp add: buf_ok_def)
  obtain e' where "ext_add_buf_front e (ib_p b) (ib_size b) (ib_is_page b) = Inr e'" "ext_wf e'"
    "ext_bufs e' = \<lparr>ib_p = ib_p b, ib_size = ib_size b, ib_is_page = ib_is_page b\<rparr> # ext_bufs e"
    using ext_add_front_spec[OF a(1) n ok, of "ib_p b"] by metis
  then show "\<exists>e'. ext_add_buf_front e (ib_p b) (ib_size b) (ib_is_page b) = Inr e' \<and> ext_wf e'
      \<and> ext_bufs e' = b # ext_bufs e" by simp
qed

section \<open>Requests made of consecutive pages\<close>

fun pages_from :: "(nat \<Rightarrow> int) \<Rightarrow> int \<Rightarrow> io_buf list \<Rightarrow> bool" where
  "pages_from poff off [] \<longleftrightarrow> True"
| "pages_from poff off (b # bs) \<longleftrightarrow>
     ib_is_page b \<and> ib_size b = PAGE_SIZE \<and> poff (ib_p b) = off \<and> pages_from poff (off + PAGE_SIZE) bs"

definition req_bufs :: "io_request \<Rightarrow> io_buf list" where
  "req_bufs r = (case ior_payload r of EXT_REQ e \<Rightarrow> ext_bufs e | _ \<Rightarrow> [])"

definition ext_req_wf :: "io_request \<Rightarrow> bool" where
  "ext_req_wf r \<longleftrightarrow> (case ior_payload r of EXT_REQ e \<Rightarrow> ext_wf e | _ \<Rightarrow> False)"

definition page_req :: "(nat \<Rightarrow> int) \<Rightarrow> io_request \<Rightarrow> bool" where
  "page_req poff r \<longleftrightarrow> ext_req_wf r \<and> req_bufs r \<noteq> [] \<and> pages_from poff (ior_offset r) (req_bufs r)"

lemma pages_from_append:
  "pages_from poff off (xs @ ys) \<longleftrightarrow> pages_from poff off xs \<and> pages_from poff (off + 4096 * int (length xs)) ys"
  by (induction xs arbitrary: off) (auto simp: algebra_simps)

lemma pages_from_sizes: "pages_from poff off bs \<Longrightarrow> sum_list (map ib_size bs) = 4096 * int (length bs)"
  by (induction bs arbitrary: off) auto

lemma pages_from_nth:
  "pages_from poff off bs \<Longrightarrow> i < length bs \<Longrightarrow> ib_is_page (bs ! i) \<and> poff (ib_p (bs ! i)) = off + 4096 * int i"
  by (induction bs arbitrary: off i) (auto simp: nth_Cons split: nat.split)

lemma pages_from_ok: "pages_from poff off bs \<Longrightarrow> b \<in> set bs \<Longrightarrow> buf_ok b"
  by (induction bs arbitrary: off) (auto simp: buf_ok_def)

lemma ext_size_pages:
  assumes "ext_wf e" "pages_from poff off (ext_bufs e)"
  shows "ext_get_size e = 4096 * int (length (ext_bufs e))"
proof -
  have "length (ext_bufs e) < 2 ^ 14" using assms(1) by (auto simp: ext_defs)
  then show ?thesis using pages_from_sizes[OF assms(2)]
    by (simp add: ext_get_size_def ext_bufs_def[symmetric] int32_id)
qed

lemma req_size_pages:
  "ext_req_wf r \<Longrightarrow> pages_from poff off (req_bufs r) \<Longrightarrow> ior_get_size r = 4096 * int (length (req_bufs r))"
  by (auto simp: ext_req_wf_def req_bufs_def ior_get_size_def ext_size_pages split: payload.splits)

lemma page_req_size: "page_req poff r \<Longrightarrow> ior_get_size r = 4096 * int (length (req_bufs r))"
  by (auto simp: page_req_def req_size_pages)

lemma num_bufs_req_bufs: "ext_req_wf r \<Longrightarrow> ior_get_num_bufs r = length (req_bufs r)"
  by (auto simp: ext_req_wf_def req_bufs_def ior_get_num_bufs_def ext_defs split: payload.splits)

lemma page_req_size_pos: "page_req poff r \<Longrightarrow> 0 < ior_get_size r"
  using page_req_size[of poff r] by (simp add: page_req_def)

lemma inside_iff_not_cross:
  assumes "block_size = 2 ^ k" "0 < ior_get_size r"
  shows "ior_inside_RAID_block r block_size \<longleftrightarrow> \<not> cross_RAID_block_bound (ior_offset r) (ior_get_size r) block_size"
proof -
  have e: "block_size * PAGE_SIZE = 2 ^ (k + 12)" by (simp add: assms(1) power_add)
  have "ior_offset r \<le> ior_offset r + ior_get_size r - 1" using assms(2) by simp
  from round_same_iff[OF this, of "2 ^ (k + 12)"] show ?thesis
    unfolding ior_inside_RAID_block_def cross_RAID_block_bound_def e ROUND_eq by auto
qed

lemma ior_map_ext_EXT:
  "ior_payload r = EXT_REQ e \<Longrightarrow> ior_map_ext f r = bind_res (f e) (\<lambda>e. Inr (r\<lparr>ior_payload := EXT_REQ e\<rparr>))"
  by (simp add: ior_map_ext_def ior_extension_def)

section \<open>Merging requests\<close>

lemma merge_bufs_spec:
  "ior_payload r = EXT_REQ e \<Longrightarrow> ext_wf e \<Longrightarrow> pages_from poff (ior_offset r) (ext_bufs e)
    \<Longrightarrow> pages_from poff (ior_offset r + 4096 * int (length (ext_bufs e))) bs
    \<Longrightarrow> length (ext_bufs e) + length bs \<le> 8192
    \<Longrightarrow> \<exists>e'. merge_bufs poff r bs = Inr (r\<lparr>ior_payload := EXT_REQ e'\<rparr>) \<and> ext_wf e' \<and> ext_bufs e' = ext_bufs e @ bs"
proof (induction bs arbitrary: r e)
  case Nil
  then show ?case by (intro exI[of _ e]) simp
next
  case (Cons b bs)
  have b: "ib_is_page b" "ib_size b = 4096" "poff (ib_p b) = ior_offset r + 4096 * int (length (ext_bufs e))"
    "pages_from poff (ior_offset r + 4096 * int (length (ext_bufs e)) + 4096) bs" using Cons.prems(4) by auto
  have nc: "\<not> ior_contain_offset r (poff (ib_p b))" using b(3) Cons.prems(1) ext_size_pages[OF Cons.prems(2,3)]
    by (simp add: ior_contain_offset_def ior_get_size_def)
  obtain e1 where e1: "ext_add_io_buf e b = Inr e1" "ext_wf e1" "ext_bufs e1 = ext_bufs e @ [b]"
    using ext.push_spec[OF Cons.prems(2), of b] Cons.prems(5) b(2) by (auto simp: buf_ok_def)
  let ?r = "r\<lparr>ior_payload := EXT_REQ e1\<rparr>"
  have step: "merge_bufs poff r (b # bs) = merge_bufs poff ?r bs"
    using b(1) nc by (simp add: ib_get_page_def ior_add_io_buf_def ior_map_ext_EXT[OF Cons.prems(1)] e1(1))
  have "\<exists>e'. merge_bufs poff ?r bs = Inr (?r\<lparr>ior_payload := EXT_REQ e'\<rparr>) \<and> ext_wf e' \<and> ext_bufs e' = ext_bufs e1 @ bs"
    using Cons.prems(3,5) b e1(3) by (intro Cons.IH[OF _ e1(2)]) (auto simp: pages_from_append algebra_simps)
  then show ?case unfolding step using e1(3) by auto
qed

definition same_kind :: "io_request \<Rightarrow> io_request \<Rightarrow> bool" where
  "same_kind r s \<longleftrightarrow> ior_access_method r = ior_access_method s \<and> ior_sync r = ior_sync s
     \<and> ior_high_prio r = ior_high_prio s \<and> ior_low_latency r = ior_low_latency s"

definition mergeable :: "int \<Rightarrow> io_request \<Rightarrow> io_request \<Rightarrow> bool" where
  "mergeable block_size r s \<longleftrightarrow> ior_offset s = ior_offset r + ior_get_size r \<and> same_kind r s
     \<and> \<not> cross_RAID_block_bound (ior_offset r) (ior_get_size r + ior_get_size s) block_size"

text \<open>What the layer below is asked to do with each page of a request.\<close>

definition req_pages :: "io_request \<Rightarrow> (int \<times> access_method \<times> bool \<times> bool \<times> bool \<times> nat) list" where
  "req_pages r = map (\<lambda>b. (ior_file_id r, ior_access_method r, ior_sync r, ior_high_prio r, ior_low_latency r, ib_p b))
     (req_bufs r)"

lemma merge_req_spec:
  assumes "page_req poff r" "page_req poff s" "ior_file_id r = ior_file_id s" "ior_offset s = ior_offset r + ior_get_size r"
    "length (req_bufs r) + length (req_bufs s) \<le> 8192"
  shows "if same_kind r s
    then \<exists>m. merge_req poff r s = Inr (Some m) \<and> page_req poff m \<and> req_bufs m = req_bufs r @ req_bufs s
      \<and> req_pages m = req_pages r @ req_pages s
      \<and> ior_offset m = ior_offset r \<and> ior_file_id m = ior_file_id r \<and> same_kind m r
    else merge_req poff r s = Inr None"
proof -
  obtain e where e: "ior_payload r = EXT_REQ e" "ext_wf e" "ext_bufs e = req_bufs r" "pages_from poff (ior_offset r) (ext_bufs e)"
    using assms(1) by (auto simp: page_req_def ext_req_wf_def req_bufs_def split: payload.splits)
  obtain f where f: "ior_payload s = EXT_REQ f" "ext_bufs f = req_bufs s" "pages_from poff (ior_offset s) (ext_bufs f)"
    using assms(2) by (auto simp: page_req_def ext_req_wf_def req_bufs_def split: payload.splits)
  have le: "ior_offset r \<le> ior_offset s" using assms(4) page_req_size_pos[OF assms(1)] by simp
  have from_r: "pages_from poff (ior_offset r + 4096 * int (length (ext_bufs e))) (ext_bufs f)"
    using f(3) assms(4) page_req_size[OF assms(1)] e(3) by simp
  obtain g where g: "merge_bufs poff r (ext_bufs f) = Inr (r\<lparr>ior_payload := EXT_REQ g\<rparr>)" "ext_wf g"
    "ext_bufs g = ext_bufs e @ ext_bufs f"
    using merge_bufs_spec[OF e(1,2,4) from_r] assms(5) e(3) f(2) by auto
  let ?m = "r\<lparr>ior_payload := EXT_REQ (g\<lparr>ext_priv := 0\<rparr>)\<rparr>"
  have mb: "req_bufs ?m = req_bufs r @ req_bufs s" using g(3) e(3) f(2) by (simp add: req_bufs_def ext_bufs_def)
  have m: "merge_req poff r s = (if same_kind r s then Inr (Some ?m) else Inr None)"
    using le assms(3,4) g(1) f(1)
    by (auto simp: merge_req_def same_kind_def ior_extension_def ext_bufs_def ior_set_priv_def ior_map_ext_def)
  have "page_req poff ?m" using g(2) e(4) from_r assms(1) mb e(3) f(2)
    by (auto simp: page_req_def ext_req_wf_def ext_wf_def pages_from_append)
  then show ?thesis using m mb assms(3) by (auto simp: same_kind_def req_pages_def)
qed

lemma cross_mono: "sz \<le> sz' \<Longrightarrow> cross_RAID_block_bound off sz bs \<Longrightarrow> cross_RAID_block_bound off sz' bs"
  by (simp add: cross_RAID_block_bound_def)

lemma mergeable_shorter:
  assumes "mergeable bs r t" "ior_offset t = ior_offset s" "ior_get_size s \<le> ior_get_size t" "same_kind s t"
  shows "mergeable bs r s"
  using assms cross_mono[of "ior_get_size r + ior_get_size s" "ior_get_size r + ior_get_size t"]
  by (auto simp: mergeable_def same_kind_def)

lemma not_cross_bounds:
  assumes "\<not> cross_RAID_block_bound off sz (2 ^ k)"
  shows "sz \<le> 2 ^ k * 4096"
proof -
  have "(2 :: int) ^ k * 4096 = 2 ^ (k + 12)" by (simp add: power_add)
  moreover have "off div 2 ^ (k + 12) * 2 ^ (k + 12) \<le> off"
    using minus_mod_eq_div_mult[of off "2 ^ (k + 12)"] pos_mod_sign[of "2 ^ (k + 12)" off] by (simp del: pos_mod_sign)
  ultimately show ?thesis using assms by (simp add: cross_RAID_block_bound_def ROUND_eq)
qed

lemma merge_room:
  assumes "k \<le> 12" "page_req poff r" "page_req poff s"
    "\<not> cross_RAID_block_bound (ior_offset r) (ior_get_size r + ior_get_size s) (2 ^ k)"
  shows "length (req_bufs r) + length (req_bufs s) \<le> 8192"
proof -
  have "ior_get_size r + ior_get_size s \<le> 2 ^ k * 4096" using assms(4) by (rule not_cross_bounds)
  moreover have "(2 :: int) ^ k \<le> 2 ^ 12" using assms(1) by (rule power_increasing) simp
  ultimately show ?thesis using page_req_size[OF assms(2)] page_req_size[OF assms(3)] by simp
qed

definition sendable :: "(nat \<Rightarrow> int) \<Rightarrow> int \<Rightarrow> io_request \<Rightarrow> bool" where
  "sendable poff block_size r \<longleftrightarrow> page_req poff r \<and> ior_inside_RAID_block r block_size"

lemma sendable_cross:
  "sendable poff (2 ^ k) r \<Longrightarrow> \<not> cross_RAID_block_bound (ior_offset r) (ior_get_size r) (2 ^ k)"
  using inside_iff_not_cross[OF refl] page_req_size_pos by (auto simp: sendable_def)

definition flushed_head :: "io_request \<Rightarrow> io_request list \<Rightarrow> bool" where
  "flushed_head r sent \<longleftrightarrow> sent \<noteq> [] \<and> ior_offset (hd sent) = ior_offset r \<and> ior_get_size r \<le> ior_get_size (hd sent)
     \<and> same_kind r (hd sent)"

lemma flush_loop_spec:
  assumes "k \<le> 12" "\<forall>r. \<not> fails r"
  shows "sendable poff (2 ^ k) r \<Longrightarrow> \<forall>s\<in>set rs. sendable poff (2 ^ k) s \<and> ior_file_id s = ior_file_id r
    \<Longrightarrow> \<exists>sent. flush_loop poff (2 ^ k) fails r rs = Inr sent \<and> flushed_head r sent
      \<and> (\<forall>s\<in>set sent. sendable poff (2 ^ k) s) \<and> successively (\<lambda>s t. \<not> mergeable (2 ^ k) s t) sent
      \<and> concat (map req_pages sent) = concat (map req_pages (r # rs))
      \<and> (\<forall>s\<in>set sent. s \<in> set (r # rs) \<or> 2 \<le> length (req_bufs s))"
proof (induction rs arbitrary: r)
  case Nil
  then show ?case using assms(2) by (intro exI[of _ "[r]"]) (simp add: flushed_head_def same_kind_def)
next
  case (Cons s rs)
  have sr: "page_req poff r" and ss: "page_req poff s" "sendable poff (2 ^ k) s" using Cons.prems by (auto simp: sendable_def)
  have szr: "ior_get_size r = 4096 * int (length (req_bufs r))" and szs: "ior_get_size s = 4096 * int (length (req_bufs s))"
    using page_req_size sr ss by auto
  show ?case
  proof (cases "mergeable (2 ^ k) r s")
    case True
    then have len: "length (req_bufs r) + length (req_bufs s) \<le> 8192"
      by (auto simp: mergeable_def intro: merge_room[OF assms(1) sr ss(1)])
    have off: "ior_offset s = ior_offset r + ior_get_size r" using True by (simp add: mergeable_def)
    obtain m where m: "merge_req poff r s = Inr (Some m)" "page_req poff m" "req_bufs m = req_bufs r @ req_bufs s"
      "req_pages m = req_pages r @ req_pages s" "ior_offset m = ior_offset r" "ior_file_id m = ior_file_id r" "same_kind m r"
      using merge_req_spec[OF sr ss(1) _ off len] True Cons.prems by (auto simp: mergeable_def)
    have szm: "ior_get_size m = ior_get_size r + ior_get_size s" using page_req_size[OF m(2)] m(3) szr szs by simp
    have "sendable poff (2 ^ k) m"
      using True m(2,5) szm page_req_size_pos[OF m(2)] by (simp add: sendable_def mergeable_def inside_iff_not_cross[OF refl])
    then obtain sent where sent: "flush_loop poff (2 ^ k) fails m rs = Inr sent" "flushed_head m sent"
      "\<forall>s\<in>set sent. sendable poff (2 ^ k) s" "successively (\<lambda>s t. \<not> mergeable (2 ^ k) s t) sent"
      "concat (map req_pages sent) = concat (map req_pages (m # rs))"
      "\<forall>s\<in>set sent. s \<in> set (m # rs) \<or> 2 \<le> length (req_bufs s)" using Cons.IH[of m] Cons.prems m(6) by auto
    have "flush_loop poff (2 ^ k) fails r (s # rs) = Inr sent" using True m(1) sent(1) by (simp add: mergeable_def)
    moreover have "flushed_head r sent" using sent(2) m(5,7) szm page_req_size_pos[OF ss(1)]
      by (auto simp: flushed_head_def same_kind_def)
    moreover have "req_bufs r \<noteq> []" "req_bufs s \<noteq> []" using sr ss(1) by (auto simp: page_req_def)
    then have "2 \<le> length (req_bufs m)" using m(3) by (cases "req_bufs r"; cases "req_bufs s") auto
    ultimately show ?thesis using sent(3-6) m(4) by auto
  next
    case False
    obtain sent where sent: "flush_loop poff (2 ^ k) fails s rs = Inr sent" "flushed_head s sent"
      "\<forall>s\<in>set sent. sendable poff (2 ^ k) s" "successively (\<lambda>s t. \<not> mergeable (2 ^ k) s t) sent"
      "concat (map req_pages sent) = concat (map req_pages (s # rs))"
      "\<forall>t\<in>set sent. t \<in> set (s # rs) \<or> 2 \<le> length (req_bufs t)" using Cons.IH[OF ss(2)] Cons.prems by auto
    have "flush_loop poff (2 ^ k) fails r (s # rs) = Inr (r # sent)"
    proof (cases "ior_offset s = ior_offset r + ior_get_size r
        \<and> \<not> cross_RAID_block_bound (ior_offset r) (ior_get_size r + ior_get_size s) (2 ^ k)")
      case True
      then have len: "length (req_bufs r) + length (req_bufs s) \<le> 8192"
        by (auto intro: merge_room[OF assms(1) sr ss(1)])
      have "merge_req poff r s = Inr None"
        using merge_req_spec[OF sr ss(1) _ _ len] True False Cons.prems by (auto simp: mergeable_def)
      then show ?thesis using assms(2) sent(1) by auto
    next
      case False
      then show ?thesis using assms(2) sent(1) by auto
    qed
    moreover have "\<not> mergeable (2 ^ k) r (hd sent)"
      using False sent(2) mergeable_shorter[of "2 ^ k" r "hd sent" s] by (auto simp: flushed_head_def)
    ultimately show ?thesis using sent Cons.prems(1)
      by (intro exI[of _ "r # sent"]) (auto simp: flushed_head_def same_kind_def successively_Cons)
  qed
qed

end
