(* ===== verification/IO_Merge_Laws.thy ===== *)
theory IO_Merge_Laws
  imports IO_Request_Laws
begin

text \<open>
  Merging dirty pages into the request that writes one page back. The cache is the map of the pages it holds; \<open>p0\<close> is
  the page whose old contents are written, \<open>pos\<close> the place in the file each page's dirty data belongs to.
\<close>

definition page_buf :: "nat \<Rightarrow> io_buf" where
  "page_buf p = \<lparr>ib_p = p, ib_size = PAGE_SIZE, ib_is_page = True\<rparr>"

definition merge_into :: "page_store \<Rightarrow> nat set \<Rightarrow> page_store" where
  "merge_into st ps = (\<lambda>q. if q \<in> ps then set_io_pending True (inc_ref (st q)) else st q)"

definition cache_consistent :: "(data_loc_t \<Rightarrow> nat option) \<Rightarrow> page_store \<Rightarrow> bool" where
  "cache_consistent m st \<longleftrightarrow> (\<forall>l p. m l = Some p \<longrightarrow> page_loc (st p) = l \<and> int16 (pg_refcnt (st p)) = pg_refcnt (st p))"

definition writeback_pos :: "page_store \<Rightarrow> nat \<Rightarrow> int \<Rightarrow> nat \<Rightarrow> int" where
  "writeback_pos st p0 off q = (if q = p0 then off else get_offset (st q))"

definition mergeable_page :: "page_store \<Rightarrow> int \<Rightarrow> nat \<Rightarrow> bool" where
  "mergeable_page st f q \<longleftrightarrow> is_dirty (st q) \<and> \<not> is_io_pending (st q) \<and> pg_file_id (st q) = f"

lemma pending_inc_ref [simp]: "is_io_pending (inc_ref p) = is_io_pending p"
  by (simp add: is_io_pending_def get_flags_bit_def inc_ref_def)

lemma int16_inner: "int16 (int16 x - 1) = int16 (x - 1)"
proof -
  have "take_bit 16 (signed_take_bit 15 x - 1) = take_bit 16 (take_bit 16 (signed_take_bit 15 x) - 1)"
    by (simp add: take_bit_eq_mod mod_simps)
  also have "\<dots> = take_bit 16 (take_bit 16 x - 1)" by (simp add: take_bit_signed_take_bit)
  also have "\<dots> = take_bit 16 (x - 1)" by (simp add: take_bit_eq_mod mod_simps)
  finally show ?thesis unfolding int16_def signed_take_bit_eq_iff_take_bit_eq by simp
qed

lemma dec_inc_ref: "int16 (pg_refcnt p) = pg_refcnt p \<Longrightarrow> dec_ref (inc_ref p) = p"
  using int16_inner[of "pg_refcnt p + 1"] by (simp add: dec_ref_def inc_ref_def)

lemma lookup_hit:
  assumes "cache_consistent m st" "m l = Some p" "p \<notin> ps"
  shows "cache_lookup m l (merge_into st ps) = (Some p, (merge_into st ps)(p := inc_ref (st p)))"
    and "upd_store p dec_ref ((merge_into st ps)(p := inc_ref (st p))) = merge_into st ps"
    and "upd_store p (set_io_pending True) ((merge_into st ps)(p := inc_ref (st p))) = merge_into st (insert p ps)"
proof -
  have r: "int16 (pg_refcnt (st p)) = pg_refcnt (st p)" using assms(1,2) by (auto simp: cache_consistent_def)
  have o: "merge_into st ps p = st p" using assms(3) by (simp add: merge_into_def)
  show "cache_lookup m l (merge_into st ps) = (Some p, (merge_into st ps)(p := inc_ref (st p)))"
    using assms(2) o by (simp add: cache_lookup_def upd_store_def)
  show "upd_store p dec_ref ((merge_into st ps)(p := inc_ref (st p))) = merge_into st ps"
    using o by (simp add: upd_store_def dec_inc_ref[OF r] fun_upd_idem)
  show "upd_store p (set_io_pending True) ((merge_into st ps)(p := inc_ref (st p))) = merge_into st (insert p ps)"
    by (auto simp: upd_store_def merge_into_def)
qed

text \<open>One step of either loop: the page at \<open>off\<close> is taken if it is dirty and idle, and otherwise left as it was.\<close>

lemma merge_step:
  assumes "cache_consistent m st" "is_io_pending (st p0)" "p0 \<notin> ps" "\<forall>q\<in>ps. get_offset (st q) \<noteq> off"
  obtains (stop) p st' where "cache_lookup m \<lparr>loc_file_id = f, loc_off = off\<rparr> (merge_into st ps) = (p, st')"
      "p = None \<and> st' = merge_into st ps
       \<or> (\<exists>q. p = Some q \<and> (\<not> is_dirty (st' q) \<or> is_io_pending (st' q)) \<and> upd_store q dec_ref st' = merge_into st ps)"
  | (take) q st' where "cache_lookup m \<lparr>loc_file_id = f, loc_off = off\<rparr> (merge_into st ps) = (Some q, st')" "is_dirty (st' q)" "\<not> is_io_pending (st' q)"
      "upd_store q (set_io_pending True) st' = merge_into st (insert q ps)" "mergeable_page st f q"
      "get_offset (st q) = off" "q \<noteq> p0"
proof (cases "m \<lparr>loc_file_id = f, loc_off = off\<rparr>")
  case None
  show ?thesis using None by (intro stop) (auto simp: cache_lookup_def)
next
  case (Some q)
  have loc: "page_loc (st q) = \<lparr>loc_file_id = f, loc_off = off\<rparr>" using assms(1) Some by (auto simp: cache_consistent_def)
  then have o: "get_offset (st q) = off" "pg_file_id (st q) = f" by (simp_all add: page_loc_def)
  then have "q \<notin> ps" using assms(4) by auto
  note hit = lookup_hit[OF assms(1) Some this]
  show ?thesis
  proof (cases "is_dirty (st q) \<and> \<not> is_io_pending (st q)")
    case True
    then show ?thesis using hit o assms(2) by (intro take[OF hit(1)]) (auto simp: mergeable_page_def)
  next
    case False
    then show ?thesis using hit by (intro stop[OF hit(1)]) auto
  qed
qed

lemma dvd_step:
  assumes "(4096 :: int) dvd a - b"
  shows "4096 dvd a - (b + 4096)" "4096 dvd a - 4096 - b"
  using dvd_diff[OF assms dvd_refl] by (simp_all add: algebra_simps)

lemma payload_idem: "ior_payload r = v \<Longrightarrow> r\<lparr>ior_payload := v\<rparr> = r"
  by (cases r) simp

lemma request_idem: "ior_payload r = v \<Longrightarrow> ior_offset r = off \<Longrightarrow> r\<lparr>ior_offset := off, ior_payload := v\<rparr> = r"
  "ior_payload r = v \<Longrightarrow> ior_offset r = off \<Longrightarrow> r\<lparr>ior_payload := v, ior_offset := off\<rparr> = r"
  by (cases r, simp)+

lemma merge_forward_spec:
  fixes off0 :: int
  assumes "cache_consistent m st" "is_io_pending (st p0)"
  defines "pos \<equiv> writeback_pos st p0 off0"
  shows "ior_payload req = EXT_REQ e \<Longrightarrow> ext_wf e \<Longrightarrow> off = ior_offset req + 4096 * int (length (ext_bufs e))
    \<Longrightarrow> 4096 dvd block_end - off \<Longrightarrow> off \<le> block_end \<Longrightarrow> block_end - ior_offset req \<le> 4096 * 8192
    \<Longrightarrow> p0 \<notin> ps \<Longrightarrow> \<forall>q\<in>ps. get_offset (st q) < off
    \<Longrightarrow> \<exists>e' new. merge_forward (cache_lookup m) off block_end req (merge_into st ps)
          = Inr (req\<lparr>ior_payload := EXT_REQ e'\<rparr>, merge_into st (ps \<union> set new))
        \<and> ext_wf e' \<and> ext_bufs e' = ext_bufs e @ map page_buf new \<and> pages_from pos off (map page_buf new)
        \<and> (\<forall>q\<in>set new. mergeable_page st (ior_file_id req) q \<and> q \<noteq> p0 \<and> off \<le> get_offset (st q))
        \<and> off + 4096 * int (length new) \<le> block_end"
proof (induction "nat (block_end - off)" arbitrary: req e off ps rule: less_induct)
  case less
  note unfold = merge_forward.simps[of _ off]
  show ?case
  proof (cases "off < block_end")
    case False
    then have "merge_forward (cache_lookup m) off block_end req (merge_into st ps) = Inr (req, merge_into st ps)"
      by (simp add: unfold)
    then show ?thesis using less.prems by (intro exI[of _ e] exI[of _ "[]"]) (simp add: payload_idem)
  next
    case True
    have ne: "\<forall>q\<in>ps. get_offset (st q) \<noteq> off" using less.prems(8) by auto
    show ?thesis
    proof (cases rule: merge_step[where f = "ior_file_id req", OF assms(1,2) less.prems(7) ne, case_names stop take])
      case (stop p st')
      then have "merge_forward (cache_lookup m) off block_end req (merge_into st ps) = Inr (req, merge_into st ps)"
        using True by (auto simp: unfold)
      then show ?thesis using less.prems by (intro exI[of _ e] exI[of _ "[]"]) (simp add: payload_idem)
    next
      case (take q st')
      have "length (ext_bufs e) < 8192" using less.prems(3,6) True by simp
      then obtain e1 where e1: "ext_add_io_buf e (page_buf q) = Inr e1" "ext_wf e1"
        "ext_bufs e1 = ext_bufs e @ [page_buf q]" using ext.push_spec[OF less.prems(2), of "page_buf q"]
        by (auto simp: buf_ok_def page_buf_def)
      have add: "ior_add_page q req = Inr (req\<lparr>ior_payload := EXT_REQ e1\<rparr>)" using e1(1)
        by (simp add: ior_add_page_def ior_map_ext_EXT[OF less.prems(1)] ext_add_buf_def io_buf_init_def page_buf_def)
      let ?r = "req\<lparr>ior_payload := EXT_REQ e1\<rparr>"
      have next_off: "off + 4096 \<le> block_end" using zdvd_imp_le[OF less.prems(4)] True by simp
      have "\<exists>e' new. merge_forward (cache_lookup m) (off + 4096) block_end ?r (merge_into st (insert q ps))
            = Inr (?r\<lparr>ior_payload := EXT_REQ e'\<rparr>, merge_into st (insert q ps \<union> set new))
          \<and> ext_wf e' \<and> ext_bufs e' = ext_bufs e1 @ map page_buf new \<and> pages_from pos (off + 4096) (map page_buf new)
          \<and> (\<forall>q\<in>set new. mergeable_page st (ior_file_id ?r) q \<and> q \<noteq> p0 \<and> off + 4096 \<le> get_offset (st q))
          \<and> off + 4096 + 4096 * int (length new) \<le> block_end"
        using less.prems e1 next_off take(6,7) True dvd_step[OF less.prems(4)] by (intro less.hyps) auto
      then obtain e' new where IH: "merge_forward (cache_lookup m) (off + 4096) block_end ?r (merge_into st (insert q ps))
            = Inr (?r\<lparr>ior_payload := EXT_REQ e'\<rparr>, merge_into st (insert q ps \<union> set new))"
          "ext_wf e'" "ext_bufs e' = ext_bufs e1 @ map page_buf new" "pages_from pos (off + 4096) (map page_buf new)"
          "\<forall>q\<in>set new. mergeable_page st (ior_file_id ?r) q \<and> q \<noteq> p0 \<and> off + 4096 \<le> get_offset (st q)"
          "off + 4096 + 4096 * int (length new) \<le> block_end" by blast
      show ?thesis using IH e1 take add True
        by (intro exI[of _ e'] exI[of _ "q # new"]) (auto simp: unfold pos_def writeback_pos_def page_buf_def)
    qed
  qed
qed

lemma merge_backward_spec:
  fixes off0 :: int
  assumes "cache_consistent m st" "is_io_pending (st p0)"
  defines "pos \<equiv> writeback_pos st p0 off0"
  shows "ior_payload req = EXT_REQ e \<Longrightarrow> ext_wf e \<Longrightarrow> ior_offset req = off + 4096 \<Longrightarrow> 0 \<le> block_off
    \<Longrightarrow> 4096 dvd off + 4096 - block_off \<Longrightarrow> block_off \<le> off + 4096
    \<Longrightarrow> off + 4096 - block_off + 4096 * int (length (ext_bufs e)) \<le> 4096 * 8192
    \<Longrightarrow> p0 \<notin> ps \<Longrightarrow> \<forall>q\<in>ps. off < get_offset (st q)
    \<Longrightarrow> \<exists>e' new off'. merge_backward (cache_lookup m) off block_off req (merge_into st ps)
          = Inr (req\<lparr>ior_payload := EXT_REQ e', ior_offset := off'\<rparr>, merge_into st (ps \<union> set new))
        \<and> ext_wf e' \<and> ext_bufs e' = map page_buf new @ ext_bufs e \<and> pages_from pos off' (map page_buf new)
        \<and> (\<forall>q\<in>set new. mergeable_page st (ior_file_id req) q \<and> q \<noteq> p0)
        \<and> off' = off + 4096 - 4096 * int (length new) \<and> block_off \<le> off'"
proof (induction "nat (off + 4096 - block_off)" arbitrary: req e off ps rule: less_induct)
  case less
  note unfold = merge_backward.simps[of _ off]
  have stopped: ?case if "merge_backward (cache_lookup m) off block_off req (merge_into st ps) = Inr (req, merge_into st ps)"
    using less.prems that by (intro exI[of _ e] exI[of _ "[]"] exI[of _ "off + 4096"]) (simp add: request_idem)
  show ?case
  proof (cases "off \<ge> block_off")
    case False
    then show ?thesis by (intro stopped) (simp add: unfold)
  next
    case True
    have ne: "\<forall>q\<in>ps. get_offset (st q) \<noteq> off" using less.prems(9) by auto
    show ?thesis
    proof (cases rule: merge_step[where f = "ior_file_id req", OF assms(1,2) less.prems(8) ne, case_names stop take])
      case (stop p st')
      then show ?thesis using True by (intro stopped) (auto simp: unfold)
    next
      case (take q st')
      have "length (ext_bufs e) < 8192" using less.prems(7) True by simp
      then obtain e1 where e1: "ext_add_buf_front e q 4096 True = Inr e1" "ext_wf e1"
        "ext_bufs e1 = page_buf q # ext_bufs e" using ext.push_front_spec[OF less.prems(2), of "page_buf q"]
        by (auto simp: buf_ok_def page_buf_def)
      have add: "ior_add_page_front q req = Inr (req\<lparr>ior_payload := EXT_REQ e1\<rparr>)" using e1(1)
        by (simp add: ior_add_page_front_def ior_map_ext_EXT[OF less.prems(1)])
      let ?r = "req\<lparr>ior_payload := EXT_REQ e1, ior_offset := off\<rparr>"
      have loc: "ior_set_data_loc \<lparr>loc_file_id = ior_file_id req, loc_off = off\<rparr> (req\<lparr>ior_payload := EXT_REQ e1\<rparr>) = ?r"
        by (simp add: ior_set_data_loc_def)
      have d: "4096 dvd off - block_off" using dvd_step[OF less.prems(5)] by simp
      let ?rest = "merge_backward (cache_lookup m) (off - 4096) block_off ?r (merge_into st (insert q ps))"
      have next_step: "merge_backward (cache_lookup m) off block_off req (merge_into st ps)
          = (if off \<ge> 4096 then ?rest else Inr (?r, merge_into st (insert q ps)))"
        using True take add loc by (simp add: unfold)
      show ?thesis
      proof (cases "off \<ge> 4096")
        case False
        then have z: "off = block_off" using d True less.prems(4) by (auto dest: zdvd_imp_le)
        show ?thesis using next_step False e1 take z
          by (intro exI[of _ e1] exI[of _ "[q]"] exI[of _ off]) (auto simp: pos_def writeback_pos_def page_buf_def)
      next
        case ge: True
        have "\<exists>e' new off'. ?rest = Inr (?r\<lparr>ior_payload := EXT_REQ e', ior_offset := off'\<rparr>, merge_into st (insert q ps \<union> set new))
          \<and> ext_wf e' \<and> ext_bufs e' = map page_buf new @ ext_bufs e1 \<and> pages_from pos off' (map page_buf new)
          \<and> (\<forall>q\<in>set new. mergeable_page st (ior_file_id ?r) q \<and> q \<noteq> p0)
          \<and> off' = off - 4096 + 4096 - 4096 * int (length new) \<and> block_off \<le> off'"
          using less.prems True e1 take(6,7) d by (intro less.hyps) auto
        then obtain e' new off' where IH: "?rest
            = Inr (?r\<lparr>ior_payload := EXT_REQ e', ior_offset := off'\<rparr>, merge_into st (insert q ps \<union> set new))"
          "ext_wf e'" "ext_bufs e' = map page_buf new @ ext_bufs e1" "pages_from pos off' (map page_buf new)"
          "\<forall>q\<in>set new. mergeable_page st (ior_file_id ?r) q \<and> q \<noteq> p0"
          "off' = off - 4096 * int (length new)" "block_off \<le> off'" by auto
        show ?thesis using IH e1 take next_step ge
          by (intro exI[of _ e'] exI[of _ "new @ [q]"] exI[of _ off'])
            (auto simp: pos_def writeback_pos_def page_buf_def pages_from_append)
      qed
    qed
  qed
qed

section \<open>Distributing requests over I/O instances\<close>

lemma io_runs_spec:
  "\<forall>r\<in>set run. func r = prev \<Longrightarrow> run \<noteq> [] \<Longrightarrow> sorted (prev # map func rs)
    \<Longrightarrow> concat (map snd (io_runs func prev run rs)) = run @ rs
      \<and> (\<forall>(io, xs)\<in>set (io_runs func prev run rs). xs \<noteq> [] \<and> (\<forall>r\<in>set xs. func r = io))
      \<and> sorted_wrt (<) (map fst (io_runs func prev run rs)) \<and> fst (hd (io_runs func prev run rs)) = prev
      \<and> io_runs func prev run rs \<noteq> []"
proof (induction rs arbitrary: prev run)
  case Nil
  then show ?case by simp
next
  case (Cons r rs)
  show ?case
  proof (cases "func r = prev")
    case True
    then show ?thesis using Cons.IH[of "run @ [r]" prev] Cons.prems by simp
  next
    case False
    then have lt: "prev < func r" using Cons.prems(3) by simp
    have IH: "concat (map snd (io_runs func (func r) [r] rs)) = [r] @ rs
      \<and> (\<forall>(io, xs)\<in>set (io_runs func (func r) [r] rs). xs \<noteq> [] \<and> (\<forall>r\<in>set xs. func r = io))
      \<and> sorted_wrt (<) (map fst (io_runs func (func r) [r] rs)) \<and> fst (hd (io_runs func (func r) [r] rs)) = func r
      \<and> io_runs func (func r) [r] rs \<noteq> []" using Cons.prems(3) by (intro Cons.IH) auto
    then obtain x xs where x: "io_runs func (func r) [r] rs = x # xs" by (cases "io_runs func (func r) [r] rs") auto
    show ?thesis using IH False lt Cons.prems(1,2) unfolding x by (auto simp: x)
  qed
qed

lemma concat_keyed_filter:
  "\<forall>(k, xs)\<in>set runs. \<forall>x\<in>set xs. f x = k \<Longrightarrow> distinct (map fst runs) \<Longrightarrow> (k, xs) \<in> set runs
    \<Longrightarrow> filter (\<lambda>x. f x = k) (concat (map snd runs)) = xs"
proof (induction runs)
  case Nil
  then show ?case by simp
next
  case (Cons r runs)
  obtain k' ys where r: "r = (k', ys)" by (cases r)
  have none: "filter (\<lambda>x. f x = k') (concat (map snd runs)) = []"
    using Cons.prems(1,2) r by (force simp: filter_empty_conv)
  show ?case
  proof (cases "k = k'")
    case True
    then have "xs = ys" using Cons.prems(2,3) r by force
    then show ?thesis using True r none Cons.prems(1) by simp
  next
    case False
    then have "filter (\<lambda>x. f x = k) ys = []" using Cons.prems(1) r by (force simp: filter_empty_conv)
    then show ?thesis using False r Cons by auto
  qed
qed

text \<open>Every instance gets exactly its requests, in order, in one call.\<close>

lemma process_reqs_spec:
  assumes "sorted (map func reqs)" "reqs \<noteq> []"
  obtains runs where "process_reqs_on_io func reqs = Inr runs" "concat (map snd runs) = reqs" "distinct (map fst runs)"
    "\<forall>(io, xs)\<in>set runs. xs = filter (\<lambda>r. func r = io) reqs"
proof -
  obtain r rs where r: "reqs = r # rs" using assms(2) by (cases reqs) auto
  let ?runs = "io_runs func (func r) [r] rs"
  have spec: "concat (map snd ?runs) = [r] @ rs
      \<and> (\<forall>(io, xs)\<in>set ?runs. xs \<noteq> [] \<and> (\<forall>r\<in>set xs. func r = io))
      \<and> sorted_wrt (<) (map fst ?runs) \<and> fst (hd ?runs) = func r \<and> ?runs \<noteq> []"
    using assms(1) r by (intro io_runs_spec) auto
  then have d: "distinct (map fst ?runs)" by (simp add: strict_sorted_iff)
  have f: "xs = filter (\<lambda>r. func r = io) (concat (map snd ?runs))" if "(io, xs) \<in> set ?runs" for io xs
    using concat_keyed_filter[OF _ d that, of func] spec by (fastforce dest: sym)
  show ?thesis using spec d f r by (intro that[of ?runs]) (auto simp: process_reqs_on_io_def)
qed

end
