(* ===== verification/IO_Request_Props.thy ===== *)
theory IO_Request_Props
  imports IO_Merge_Laws
begin

text \<open>
  Properties of the requests the cached I/O sends to the disks: merging queued requests, merging dirty pages into
  a write-rear.
\<close>

section \<open>Queued requests\<close>

text \<open>
  C4. \<^verbatim>\<open>flush_requests\<close> on any queue of page requests of one file, each inside a RAID block of a power of two of at
  most 4096 pages, sends exactly the queued pages in their order, each with the access method and the flags of the
  request it was queued with. Every request sent is a run of consecutive pages inside one RAID block, no two requests
  sent one after the other could have been sent as one, and the two counters grow by the numbers of requests and
  pages sent.
\<close>

theorem flush_sends_queued_pages:
  assumes "k \<le> 12" "\<forall>r. \<not> fails r" "\<forall>r\<in>set queue. page_req poff r \<and> ior_inside_RAID_block r (2 ^ k) \<and> ior_file_id r = f"
  shows "\<exists>sent. flush_requests poff (2 ^ k) fails True queue
      = Inr (sent, length sent, length (concat (map req_bufs queue)))
    \<and> concat (map req_pages sent) = concat (map req_pages queue)
    \<and> (\<forall>s\<in>set sent. page_req poff s \<and> ior_inside_RAID_block s (2 ^ k))
    \<and> successively (\<lambda>s t. \<not> mergeable (2 ^ k) s t) sent"
proof (cases queue)
  case Nil
  then show ?thesis by (simp add: flush_requests_def)
next
  case (Cons r rs)
  obtain sent where sent: "flush_loop poff (2 ^ k) fails r rs = Inr sent" "\<forall>s\<in>set sent. sendable poff (2 ^ k) s"
    "successively (\<lambda>s t. \<not> mergeable (2 ^ k) s t) sent" "concat (map req_pages sent) = concat (map req_pages queue)"
    using flush_loop_spec[OF assms(1,2), of poff r rs] assms(3) Cons by (auto simp: sendable_def)
  have len: "length (concat (map req_bufs qs)) = length (concat (map req_pages qs))" for qs
    by (induction qs) (auto simp: req_pages_def)
  have "sum_list (map ior_get_num_bufs sent) = length (concat (map req_bufs sent))"
    using sent(2) by (simp add: length_concat comp_def num_bufs_req_bufs sendable_def page_req_def cong: map_cong)
  then have "sum_list (map ior_get_num_bufs sent) = length (concat (map req_bufs queue))"
    unfolding len using sent(4) by simp
  then show ?thesis using sent Cons by (intro exI[of _ sent]) (simp add: flush_requests_def sendable_def)
qed

definition sample_page_req :: "int \<Rightarrow> nat \<Rightarrow> io_request" where
  "sample_page_req off p = (new_io_request False)\<lparr>ior_offset := off, ior_payload := EXT_REQ
     \<lparr>ext_priv = p, ext_num_bufs = 1, ext_capacity = 1, ext_embedded = True, ext_vec = [page_buf p]\<rparr>\<rparr>"

lemmas sample_req_simps = sample_page_req_def new_io_request_def page_req_def ext_req_wf_def req_bufs_def ext_defs page_buf_def
  ior_inside_RAID_block_def ior_get_size_def ext_get_size_def ROUND_def int32_def

lemma sample_page_req_simps [simp]:
  "req_pages (sample_page_req off p) = [(0, READ, False, True, False, p)]" "req_bufs (sample_page_req off p) = [page_buf p]"
  "ior_file_id (sample_page_req off p) = 0" "ior_offset (sample_page_req off p) = off"
  "page_req poff (sample_page_req off p) \<longleftrightarrow> poff p = off" "ext_req_wf (sample_page_req off p)"
  by (simp_all add: sample_req_simps req_pages_def)

theorem flush_sends_queued_pages_witness:
  "\<exists>sent. flush_requests (\<lambda>p. int p * 4096) 4 (\<lambda>_. False) True
        [sample_page_req 4096 1, sample_page_req 8192 2, sample_page_req 16384 4] = Inr (sent, length sent, 3)
    \<and> concat (map req_pages sent) = [(0, READ, False, True, False, 1), (0, READ, False, True, False, 2), (0, READ, False, True, False, 4)]
    \<and> (\<forall>s\<in>set sent. page_req (\<lambda>p. int p * 4096) s \<and> ior_inside_RAID_block s 4)"
proof -
  have "ior_inside_RAID_block (sample_page_req 4096 1) 4" "ior_inside_RAID_block (sample_page_req 8192 2) 4"
    "ior_inside_RAID_block (sample_page_req 16384 4) 4" by (simp_all add: sample_req_simps)
  then have "\<forall>r\<in>set [sample_page_req 4096 1, sample_page_req 8192 2, sample_page_req 16384 4].
      page_req (\<lambda>p. int p * 4096) r \<and> ior_inside_RAID_block r (2 ^ 2) \<and> ior_file_id r = 0" by simp
  from flush_sends_queued_pages[OF _ _ this, of "\<lambda>_. False"] show ?thesis by (auto simp: eval_nat_numeral)
qed

section \<open>Write-rear of a dirty page\<close>

text \<open>The RAID block around a page.\<close>

lemma block_around:
  fixes off :: int and k :: nat
  assumes "0 \<le> off" "4096 dvd off" "k \<le> 12"
  defines "B \<equiv> 2 ^ (k + 12)" and "b \<equiv> off div 2 ^ (k + 12) * 2 ^ (k + 12)"
  shows "0 < B" "B \<le> 4096 * 4096" "4096 dvd B" "0 \<le> b" "b \<le> off" "off < b + B" "4096 dvd b"
    "4096 dvd b + B - (off + 4096)" "4096 dvd off - b" "off + 4096 \<le> b + B"
proof -
  have pw: "(2 :: int) ^ k * 4096 = B" by (simp add: B_def power_add)
  have "(2 :: int) ^ k \<le> 2 ^ 12" using assms(3) by (rule power_increasing) simp
  then show B: "0 < B" "B \<le> 4096 * 4096" "4096 dvd B" by (simp_all add: pw[symmetric])
  show b: "0 \<le> b" "b \<le> off" "off < b + B" "4096 dvd b" unfolding b_def B_def[symmetric]
    using B assms(1) pos_mod_sign[of B off] pos_mod_bound[of B off] minus_mod_eq_div_mult[of off B]
      pos_imp_zdiv_nonneg_iff[of B off] by (auto simp del: pos_mod_sign pos_mod_bound)
  then show "4096 dvd b + B - (off + 4096)" "4096 dvd off - b" using B(3) assms(2) by auto
  show "off + 4096 \<le> b + B" using zdvd_imp_le[of 4096 "b + B - off"] b assms(2) B(3) by auto
qed

text \<open>The pages before a request that already has the pages after it; at the start of the file there are none.\<close>

lemma merge_before:
  assumes "cache_consistent m st" "is_io_pending (st p0)" "0 \<le> ior_offset req"
    "ext_wf e1" "ext_bufs e1 = page_buf p0 # map page_buf rear"
    "\<forall>q\<in>set rear. mergeable_page st (ior_file_id req) q \<and> q \<noteq> p0 \<and> ior_offset req + 4096 \<le> get_offset (st q)"
    "ior_offset req + 4096 + 4096 * int (length rear) \<le> b + B"
    "0 \<le> b" "b \<le> ior_offset req" "ior_offset req < b + B" "4096 dvd b" "B \<le> 4096 * 4096" "4096 dvd B" "4096 dvd ior_offset req - b"
  obtains e2 front off' where
    "(if ior_offset req \<ge> 4096 then merge_backward (cache_lookup m) (ior_offset req - 4096) b (req\<lparr>ior_payload := EXT_REQ e1\<rparr>) (merge_into st (set rear))
        else Inr (req\<lparr>ior_payload := EXT_REQ e1\<rparr>, merge_into st (set rear)))
      = Inr (req\<lparr>ior_payload := EXT_REQ e1, ior_payload := EXT_REQ e2, ior_offset := off'\<rparr>, merge_into st (set rear \<union> set front))"
    "ext_wf e2" "ext_bufs e2 = map page_buf front @ ext_bufs e1"
    "pages_from (writeback_pos st p0 (ior_offset req)) off' (map page_buf front)"
    "\<forall>q\<in>set front. mergeable_page st (ior_file_id req) q \<and> q \<noteq> p0" "off' = ior_offset req - 4096 * int (length front)" "b \<le> off'"
proof (cases "ior_offset req \<ge> 4096")
  case True
  let ?off = "ior_offset req" let ?r = "req\<lparr>ior_payload := EXT_REQ e1\<rparr>" let ?pos = "writeback_pos st p0 ?off"
  have p0: "p0 \<notin> set rear" using assms(6) by auto
  have "\<exists>e' new off'. merge_backward (cache_lookup m) (?off - 4096) b ?r (merge_into st (set rear))
        = Inr (?r\<lparr>ior_payload := EXT_REQ e', ior_offset := off'\<rparr>, merge_into st (set rear \<union> set new))
      \<and> ext_wf e' \<and> ext_bufs e' = map page_buf new @ ext_bufs e1 \<and> pages_from ?pos off' (map page_buf new)
      \<and> (\<forall>q\<in>set new. mergeable_page st (ior_file_id ?r) q \<and> q \<noteq> p0)
      \<and> off' = ?off - 4096 + 4096 - 4096 * int (length new) \<and> b \<le> off'"
    using assms(4-) p0 by (intro merge_backward_spec[OF assms(1,2)]) auto
  then show ?thesis using that True by auto
next
  case False
  show ?thesis using that[of "ior_offset req" e1 "[]"] False assms(4,8,9) by (auto simp: request_idem)
qed

text \<open>
  C5. \<^verbatim>\<open>merge_pages2req\<close>, called for the request that writes one page back, always passes its closing assertion: it adds
  neighbouring pages of the file on both sides, so that the request writes a consecutive run of pages inside one RAID
  block. Exactly the pages added were dirty with no I/O pending; each of them is now pending with one more reference,
  and every other page of the cache is left as it was, with its reference count.
\<close>

theorem merged_writeback:
  assumes "cache_consistent m st" "is_io_pending (st p0)" "ext_req_wf req" "req_bufs req = [page_buf p0]"
    "0 \<le> ior_offset req" "4096 dvd ior_offset req" "k \<le> 12"
  shows "\<exists>req' front rear. merge_pages2req True (cache_lookup m) (2 ^ k) req st
      = Inr (req', merge_into st (set front \<union> set rear))
    \<and> req_bufs req' = map page_buf (front @ p0 # rear) \<and> page_req (writeback_pos st p0 (ior_offset req)) req'
    \<and> ior_inside_RAID_block req' (2 ^ k)
    \<and> (\<forall>q\<in>set front \<union> set rear. mergeable_page st (ior_file_id req) q \<and> q \<noteq> p0)
    \<and> ior_file_id req' = ior_file_id req \<and> ior_access_method req' = ior_access_method req"
proof -
  let ?off = "ior_offset req" and ?B = "2 ^ (k + 12) :: int"
  let ?b = "?off div ?B * ?B" and ?pos = "writeback_pos st p0 ?off"
  obtain e where e: "ior_payload req = EXT_REQ e" "ext_wf e" "ext_bufs e = [page_buf p0]"
    using assms(3,4) by (auto simp: ext_req_wf_def req_bufs_def split: payload.splits)
  have pw: "(2 :: int) ^ k * 4096 = ?B" by (simp add: power_add)
  have B: "0 < ?B" "?B \<le> 4096 * 4096" "4096 dvd ?B" and b: "0 \<le> ?b" "?b \<le> ?off" "?off < ?b + ?B" "4096 dvd ?b"
    "4096 dvd ?b + ?B - (?off + 4096)" "4096 dvd ?off - ?b" "?off + 4096 \<le> ?b + ?B"
    by (rule block_around[OF assms(5-7)])+
  obtain e1 rear where fw: "merge_forward (cache_lookup m) (?off + 4096) (?b + ?B) req (merge_into st {})
      = Inr (req\<lparr>ior_payload := EXT_REQ e1\<rparr>, merge_into st (set rear))"
    "ext_wf e1" "ext_bufs e1 = page_buf p0 # map page_buf rear" "pages_from ?pos (?off + 4096) (map page_buf rear)"
    "\<forall>q\<in>set rear. mergeable_page st (ior_file_id req) q \<and> q \<noteq> p0 \<and> ?off + 4096 \<le> get_offset (st q)"
    "?off + 4096 + 4096 * int (length rear) \<le> ?b + ?B"
    using merge_forward_spec[OF assms(1,2) e(1,2), of "?off + 4096" "?b + ?B" "{}" ?off] e(3) B b by auto
  let ?r = "req\<lparr>ior_payload := EXT_REQ e1\<rparr>"
  have st: "merge_into st {} = st" by (auto simp: merge_into_def)
  obtain e2 front off' where bw: "(if ?off \<ge> 4096 then merge_backward (cache_lookup m) (?off - 4096) ?b ?r (merge_into st (set rear))
        else Inr (?r, merge_into st (set rear)))
      = Inr (?r\<lparr>ior_payload := EXT_REQ e2, ior_offset := off'\<rparr>, merge_into st (set rear \<union> set front))"
    "ext_wf e2" "ext_bufs e2 = map page_buf front @ ext_bufs e1" "pages_from ?pos off' (map page_buf front)"
    "\<forall>q\<in>set front. mergeable_page st (ior_file_id req) q \<and> q \<noteq> p0" "off' = ?off - 4096 * int (length front)" "?b \<le> off'"
    by (rule merge_before[OF assms(1,2,5) fw(2,3,5,6) b(1-4) B(2,3) b(6)])
  let ?r' = "?r\<lparr>ior_payload := EXT_REQ e2, ior_offset := off'\<rparr>"
  have bufs: "req_bufs ?r' = map page_buf (front @ p0 # rear)" using bw(3) fw(3) by (simp add: req_bufs_def)
  have pr: "page_req ?pos ?r'" unfolding page_req_def bufs
    using bw(2,4,6) fw(4) by (simp add: ext_req_wf_def pages_from_append page_buf_def writeback_pos_def)
  have sz: "ior_get_size ?r' = 4096 * int (length front + 1 + length rear)" using page_req_size[OF pr] bufs by simp
  have rd: "off' div ?B = ?off div ?B"
    using zdiv_mono1[OF bw(7) B(1)] zdiv_mono1[of off' ?off, OF _ B(1)] bw(6) by simp
  have "ROUND (ior_offset ?r') ?B = ?b" using rd by (simp add: ROUND_eq)
  then have "\<not> cross_RAID_block_bound (ior_offset ?r') (ior_get_size ?r') (2 ^ k)"
    using fw(6) bw(6) unfolding cross_RAID_block_bound_def sz PAGE_SIZE_def pw by simp
  then have ins: "ior_inside_RAID_block ?r' (2 ^ k)"
    using inside_iff_not_cross[OF refl, of ?r' k] page_req_size_pos[OF pr] by simp
  have "merge_pages2req True (cache_lookup m) (2 ^ k) req st = Inr (?r', merge_into st (set front \<union> set rear))"
    using fw(1) bw(1) ins unfolding merge_pages2req_def Let_def PAGE_SIZE_def pw ROUND_eq st by (simp add: Un_commute)
  then show ?thesis using bufs pr ins fw(5) bw(5)
    by (intro exI[of _ ?r'] exI[of _ front] exI[of _ rear]) auto
qed


definition sample_store :: page_store where
  "sample_store p = (if p \<le> 3 then set_dirty True (set_id \<lparr>loc_file_id = 0, loc_off = int p * 4096\<rparr> empty_page)
     else set_io_pending True (set_id \<lparr>loc_file_id = 0, loc_off = 40960\<rparr> empty_page))"

definition sample_cache :: "data_loc_t \<Rightarrow> nat option" where
  "sample_cache l = (if loc_file_id l = 0 \<and> loc_off l \<in> {0, 4096, 12288} then Some (nat (loc_off l div 4096))
     else if loc_file_id l = 0 \<and> loc_off l = 40960 then Some 10 else None)"

text \<open>Page 10 used to hold the data at offset 8192; its neighbours at 0, 4096 and 12288 are dirty.\<close>

theorem merged_writeback_witness:
  "\<exists>req' front rear. merge_pages2req True (cache_lookup sample_cache) 4 (sample_page_req 8192 10) sample_store
      = Inr (req', merge_into sample_store (set front \<union> set rear))
    \<and> req_bufs req' = map page_buf (front @ 10 # rear) \<and> ior_inside_RAID_block req' 4"
proof -
  have loc: "page_loc (set_dirty True (set_id l empty_page)) = l" "page_loc (set_io_pending True (set_id l empty_page)) = l"
    if "page_aligned_loc l" for l
    using page_loc_set_id[OF that, of empty_page] by (simp_all add: page_loc_def get_offset_def flag_set_defs page_simps)
  have ref: "pg_refcnt (set_dirty True (set_id l empty_page)) = 0" "pg_refcnt (set_io_pending True (set_id l empty_page)) = 0"
    for l by (simp_all add: flag_set_defs page_simps empty_page_def)
  have "cache_consistent sample_cache sample_store"
    by (auto simp: cache_consistent_def sample_cache_def sample_store_def loc ref page_aligned_loc_def int16_def
        split: if_splits intro!: data_loc_t.equality)
  from merged_writeback[OF this, of 10 "sample_page_req 8192 10" 2] show ?thesis
    by (simp add: sample_store_def) blast
qed

end
