(* ===== verification/Cached_IO.thy ===== *)
theory Cached_IO
  imports IO_Request Page_Arrays
begin

text \<open>
  The cached I/O of \<^verbatim>\<open>global_cached_private.cpp\<close>: how user requests wait on pages, are completed on pages that
  have their data, are read from the disks when they have not, and are woken up when the disks have answered.

  \<open>gstate\<close> is the heap of the process: pages, their data, the list of requests that wait on each page (linked through the
  requests, one link per page a request covers), the user requests in progress, the user's memory and the I/O
  instances. Pointers are numbers, 0 is \<^verbatim>\<open>NULL\<close>. What the instance hands to the layer below is appended to \<open>gc_sent\<close>; the
  requests whose waiting thread is woken are appended to \<open>gc_woken\<close>. An operation on a page is atomic, as its lock makes it.
\<close>

section \<open>State\<close>

record orig_request =
  or_req :: io_request
  or_oir :: original_io_request
  or_next :: "nat \<Rightarrow> nat"
  or_orig_io :: nat

record cached_io =
  gc_underlying_requests :: "io_request list"
  gc_sent :: "io_request list"
  gc_complete_queue :: "nat list"
  gc_pending_requests :: "(nat \<times> nat) list"
  gc_woken :: "nat list"
  gc_num_to_underlying :: "64 word"
  gc_num_from_underlying :: "64 word"
  gc_num_underlying_pages :: "64 word"

record gstate =
  g_page :: "nat \<Rightarrow> page"
  g_data :: "nat \<Rightarrow> byte list"
  g_reqs :: "nat \<Rightarrow> nat"
  g_orig :: "nat \<Rightarrow> orig_request"
  g_mem :: "nat \<Rightarrow> byte"
  g_io :: "nat \<Rightarrow> cached_io"

text \<open>The parameters of an instance; \<open>gp_fails\<close> says which accesses the layer below refuses.\<close>

record gparams =
  gp_merge_reqs :: bool
  gp_cache_large_write :: bool
  gp_block_size :: int
  gp_node_id :: int
  gp_fails :: "io_request \<Rightarrow> bool"

definition upd_gpage :: "nat \<Rightarrow> (page \<Rightarrow> page) \<Rightarrow> gstate \<Rightarrow> gstate" where
  "upd_gpage p f s = s\<lparr>g_page := upd_store p f (g_page s)\<rparr>"

definition upd_orig :: "nat \<Rightarrow> (orig_request \<Rightarrow> orig_request) \<Rightarrow> gstate \<Rightarrow> gstate" where
  "upd_orig r f s = s\<lparr>g_orig := (g_orig s)(r := f (g_orig s r))\<rparr>"

definition upd_io :: "nat \<Rightarrow> (cached_io \<Rightarrow> cached_io) \<Rightarrow> gstate \<Rightarrow> gstate" where
  "upd_io io f s = s\<lparr>g_io := (g_io s)(io := f (g_io s io))\<rparr>"

section \<open>User requests\<close>

text \<open>\<^verbatim>\<open>partial_request::init_orig\<close>: the request is copied, with the instance that processes it in place of the one it
  came from.\<close>

definition new_orig_request :: "page_status \<Rightarrow> nat \<Rightarrow> io_request \<Rightarrow> orig_request res" where
  "new_orig_request junk this req = (case ior_payload req of
       EXT_REQ _ \<Rightarrow> Inl Invalid_arg_exception
     | _ \<Rightarrow> Inr \<lparr>or_req = req\<lparr>ior_io := this\<rparr>, or_oir = oir_init junk (nat (ior_offset req)) (nat (ior_get_size req)),
                or_next = (\<lambda>_. 0), or_orig_io = ior_io req\<rparr>)"

definition or_page_index :: "orig_request \<Rightarrow> int \<Rightarrow> nat res" where
  "or_page_index r poff = (if poff < 0 then Inl Undefined_behaviour
     else bind_res (oir_page_index (or_oir r) (nat poff)) (\<lambda>i.
          assert_then (i < ea_capacity (oir_status (or_oir r))) (Inr i)))"

definition get_next_req_on_page :: "nat \<Rightarrow> nat \<Rightarrow> gstate \<Rightarrow> nat res" where
  "get_next_req_on_page p r s =
     bind_res (or_page_index (g_orig s r) (get_offset (g_page s p))) (\<lambda>i. Inr (or_next (g_orig s r) i))"

definition set_next_req_on_page :: "nat \<Rightarrow> nat \<Rightarrow> nat \<Rightarrow> gstate \<Rightarrow> gstate res" where
  "set_next_req_on_page p r v s =
     bind_res (or_page_index (g_orig s r) (get_offset (g_page s p))) (\<lambda>i.
       Inr (upd_orig r (or_next_update (\<lambda>f. f(i := v))) s))"

definition page_add_req :: "nat \<Rightarrow> nat \<Rightarrow> gstate \<Rightarrow> gstate res" where
  "page_add_req p r s =
     bind_res (set_next_req_on_page p r (g_reqs s p) s) (\<lambda>s. Inr (s\<lparr>g_reqs := (g_reqs s)(p := r)\<rparr>))"

definition page_reset_reqs :: "nat \<Rightarrow> gstate \<Rightarrow> nat \<times> gstate" where
  "page_reset_reqs p s = (g_reqs s p, s\<lparr>g_reqs := (g_reqs s)(p := 0)\<rparr>)"

section \<open>Completion on a page\<close>

text \<open>The part of a request on the page at \<open>poff\<close>: its place in the page, its place in memory and its size.\<close>

definition req_window :: "io_request \<Rightarrow> nat \<Rightarrow> int \<Rightarrow> (int \<times> nat \<times> int) res" where
  "req_window req buf poff =
     (if ior_within_1page req then Inr (ior_offset req - round_page (ior_offset req), buf, ior_get_size req)
      else bind_res (ior_extract req poff PAGE_SIZE) (\<lambda>x. case ior_payload x of
             BASIC_REQ b \<Rightarrow> Inr (ior_offset x - round_page (ior_offset x), b, ior_get_size x)
           | _ \<Rightarrow> Inl Undefined_behaviour))"

definition copy_to_mem :: "byte list \<Rightarrow> nat \<Rightarrow> nat \<Rightarrow> nat \<Rightarrow> (nat \<Rightarrow> byte) \<Rightarrow> nat \<Rightarrow> byte" where
  "copy_to_mem d off buf n mem = (\<lambda>a. if buf \<le> a \<and> a < buf + n then d ! (off + (a - buf)) else mem a)"

definition copy_to_page :: "(nat \<Rightarrow> byte) \<Rightarrow> nat \<Rightarrow> nat \<Rightarrow> nat \<Rightarrow> byte list \<Rightarrow> byte list" where
  "copy_to_page mem buf off n d = take off d @ map mem [buf ..< buf + n] @ drop (off + n) d"

text \<open>The result is the page the request has made dirty, or 0.\<close>

definition gc_complete_req :: "nat \<Rightarrow> nat \<Rightarrow> gstate \<Rightarrow> (nat \<times> gstate) res" where
  "gc_complete_req p r s =
     (let req = or_req (g_orig s r); pg = g_page s p; d = g_data s p
      in case ior_payload req of
           BASIC_REQ buf \<Rightarrow> bind_res (req_window req buf (get_offset pg)) (\<lambda>(page_off, b, n).
             if page_off < 0 \<or> n < 0 \<or> page_off + n > int (length d) then Inl Undefined_behaviour
             else if ior_access_method req = WRITE
             then Inr (if is_dirty pg then 0 else p,
                       upd_gpage p (set_dirty True)
                         (s\<lparr>g_data := (g_data s)(p := copy_to_page (g_mem s) b (nat page_off) (nat n) d)\<rparr>))
             else Inr (0, s\<lparr>g_mem := copy_to_mem d (nat page_off) b (nat n) (g_mem s)\<rparr>))
         | _ \<Rightarrow> if get_offset pg < 0 then Inl Undefined_behaviour
                else bind_res (oir_complete_req (or_oir (g_orig s r)) (nat (get_offset pg)) p) (\<lambda>oir.
                     Inr (0, upd_gpage p inc_ref (upd_orig r (or_oir_update (\<lambda>_. oir)) s))))"

text \<open>\<^verbatim>\<open>finalize_partial_request\<close>, for a range and for a page.\<close>

definition finalize_range :: "nat \<Rightarrow> int \<Rightarrow> int \<Rightarrow> nat \<Rightarrow> gstate \<Rightarrow> gstate res" where
  "finalize_range this off n r s =
     bind_res (oir_complete_range (or_oir (g_orig s r)) (nat off) (nat n)) (\<lambda>(complete, oir).
     let s = upd_orig r (or_oir_update (\<lambda>_. oir)) s
     in if \<not> complete then Inr s
        else let s = upd_orig r (\<lambda>q. q\<lparr>or_req := (or_req q)\<lparr>ior_io := or_orig_io q\<rparr>\<rparr>) s; req = or_req (g_orig s r)
             in if ior_sync req
                then assert_then (case ior_payload req of BASIC_REQ _ \<Rightarrow> True | _ \<Rightarrow> False)
                    (assert_then (ior_io req = this)
                    (assert_then (oir_is_complete (or_oir (g_orig s r)))
                      (Inr (upd_io this (gc_woken_update (\<lambda>q. q @ [r])) s))))
                else Inr (upd_io this (gc_complete_queue_update (\<lambda>q. q @ [r])) s))"

definition finalize_page :: "nat \<Rightarrow> nat \<Rightarrow> nat \<Rightarrow> gstate \<Rightarrow> gstate res" where
  "finalize_page this p r s =
     (let req = or_req (g_orig s r)
      in if ior_within_1page req then finalize_range this (ior_offset req) (ior_get_size req) r s
         else bind_res (ior_extract req (get_offset (g_page s p)) PAGE_SIZE) (\<lambda>x.
              finalize_range this (ior_offset x) (ior_get_size x) r s))"

section \<open>Requests to the layer below\<close>

definition underlying_access :: "gparams \<Rightarrow> nat \<Rightarrow> io_request \<Rightarrow> gstate \<Rightarrow> gstate res" where
  "underlying_access prm this req s =
     (if gp_fails prm req then Inl Io_exception else Inr (upd_io this (gc_sent_update (\<lambda>q. q @ [req])) s))"

definition send2underlying :: "gparams \<Rightarrow> nat \<Rightarrow> io_request \<Rightarrow> gstate \<Rightarrow> gstate res" where
  "send2underlying prm this req s =
     (if gp_merge_reqs prm then Inr (upd_io this (gc_underlying_requests_update (\<lambda>q. q @ [req])) s)
      else underlying_access prm this req (upd_io this (\<lambda>io. io\<lparr>gc_num_to_underlying := gc_num_to_underlying io + 1,
             gc_num_underlying_pages := gc_num_underlying_pages io + of_nat (ior_get_num_bufs req)\<rparr>) s))"

definition page_request :: "nat \<Rightarrow> nat \<Rightarrow> data_loc_t \<Rightarrow> access_method \<Rightarrow> int \<Rightarrow> io_request res" where
  "page_request this p loc acc node =
     bind_res (new_ext_request new_io_req_extension loc acc this node) (\<lambda>req.
     bind_res (ior_add_page p req) (ior_set_priv p))"

definition gc_flush :: "gparams \<Rightarrow> nat \<Rightarrow> gstate \<Rightarrow> gstate res" where
  "gc_flush prm this s =
     bind_res (flush_requests (\<lambda>p. get_offset (g_page s p)) (gp_block_size prm) (gp_fails prm) (gp_merge_reqs prm)
       (gc_underlying_requests (g_io s this))) (\<lambda>(sent, num_sent, num_pages).
       Inr (upd_io this (\<lambda>io. io\<lparr>gc_underlying_requests := [], gc_sent := gc_sent io @ sent,
         gc_num_to_underlying := gc_num_to_underlying io + of_nat num_sent,
         gc_num_underlying_pages := gc_num_underlying_pages io + of_nat num_pages\<rparr>) s))"

section \<open>Reading and writing one page\<close>

text \<open>\<^verbatim>\<open>__read\<close> and \<^verbatim>\<open>__write\<close>: the bytes completed and the state; \<open>__write\<close> also returns the pages it has made dirty.\<close>

definition read_page :: "gparams \<Rightarrow> nat \<Rightarrow> nat \<Rightarrow> nat \<Rightarrow> gstate \<Rightarrow> (int \<times> gstate) res" where
  "read_page prm this r p s =
     (let pg = g_page s p
      in if \<not> data_ready pg
         then if \<not> is_io_pending pg
              then assert_then (g_reqs s p = 0)
                  (let s = upd_gpage p (set_io_pending True) s
                   in assert_then (\<not> is_dirty pg)
                     (bind_res (page_request this p (page_loc pg) READ (gp_node_id prm)) (\<lambda>req.
                      bind_res (page_add_req p r s) (\<lambda>s.
                      bind_res (send2underlying prm this req s) (\<lambda>s. Inr (0, s))))))
              else assert_then (ior_access_method (or_req (g_orig s r)) = READ)
                     (bind_res (page_add_req p r s) (\<lambda>s. Inr (0, s)))
         else bind_res (gc_complete_req p r s) (\<lambda>(_, s).
              bind_res (finalize_page this p r s) (\<lambda>s'.
              Inr (ior_get_size (or_req (g_orig s r)), upd_gpage p dec_ref s'))))"

definition write_page :: "gparams \<Rightarrow> nat \<Rightarrow> nat \<Rightarrow> nat \<Rightarrow> gstate \<Rightarrow> (int \<times> nat list \<times> gstate) res" where
  "write_page prm this r p s =
     (let pg = g_page s p; orig = or_req (g_orig s r)
      in assert_then (\<not> is_old_dirty pg)
        (if \<not> data_ready pg
         then if \<not> is_io_pending pg
              then assert_then (\<not> is_dirty pg)
                  (assert_then (ior_has_overlap orig (get_offset pg) PAGE_SIZE)
                  (if ior_offset orig > get_offset pg
                      \<or> ior_offset orig + ior_get_size orig < get_offset pg + PAGE_SIZE
                   then bind_res (page_request this p \<lparr>loc_file_id = ior_file_id orig, loc_off = round_page (ior_offset orig)\<rparr>
                          READ (pg_node_id pg)) (\<lambda>read_req.
                        assert_then (g_reqs s p = 0)
                       (bind_res (page_add_req p r (upd_gpage p (set_io_pending True) s)) (\<lambda>s.
                        bind_res (send2underlying prm this read_req s) (\<lambda>s. Inr (0, [], s)))))
                   else bind_res (gc_complete_req p r (upd_gpage p (set_data_ready True) s)) (\<lambda>(dirty, s).
                        bind_res (finalize_page this p r s) (\<lambda>s.
                        Inr (PAGE_SIZE, if dirty \<noteq> 0 then [dirty] else [], upd_gpage p dec_ref s)))))
              else assert_then (ior_access_method orig = WRITE)
                     (bind_res (page_add_req p r s) (\<lambda>s. Inr (0, [], s)))
         else bind_res (gc_complete_req p r s) (\<lambda>(dirty, s).
              bind_res (finalize_page this p r s) (\<lambda>s.
              Inr (ior_get_size orig, if dirty \<noteq> 0 then [dirty] else [], upd_gpage p dec_ref s)))))"

section \<open>Reading several pages\<close>

definition new_multibuf :: "gparams \<Rightarrow> nat \<Rightarrow> access_method \<Rightarrow> io_request res" where
  "new_multibuf prm this acc = new_ext_request new_io_req_extension invalid_data_loc acc this (gp_node_id prm)"

definition submit_multibuf :: "gparams \<Rightarrow> nat \<Rightarrow> access_method \<Rightarrow> io_request \<Rightarrow> gstate \<Rightarrow> (io_request \<times> gstate) res" where
  "submit_multibuf prm this acc multibuf s =
     (if ior_get_num_bufs multibuf \<noteq> 0
      then bind_res (send2underlying prm this multibuf s) (\<lambda>s. bind_res (new_multibuf prm this acc) (\<lambda>m. Inr (m, s)))
      else Inr (multibuf, s))"

definition multibuf_add :: "nat \<Rightarrow> page \<Rightarrow> io_request \<Rightarrow> io_request res" where
  "multibuf_add p pg multibuf =
     (let m = (if ior_get_num_bufs multibuf = 0 then ior_set_data_loc (page_loc pg) multibuf else multibuf)
      in bind_res (ior_add_page p m) (ior_set_priv p))"

fun read_loop :: "gparams \<Rightarrow> nat \<Rightarrow> access_method \<Rightarrow> nat \<Rightarrow> int \<Rightarrow> nat list \<Rightarrow> io_request \<Rightarrow> int \<Rightarrow> gstate
    \<Rightarrow> (int \<times> gstate) res" where
  "read_loop prm this acc r fid [] multibuf ret s =
     (if ior_get_num_bufs multibuf \<noteq> 0 then bind_res (send2underlying prm this multibuf s) (\<lambda>s. Inr (ret, s)) else Inr (ret, s))"
| "read_loop prm this acc r fid (p # ps) multibuf ret s =
     (let pg = g_page s p
      in assert_then (fid = pg_file_id pg)
        (if \<not> data_ready pg \<and> \<not> is_io_pending pg
         then assert_then (g_reqs s p = 0)
             (bind_res (page_add_req p r s) (\<lambda>s.
              assert_then (\<not> is_dirty pg)
             (bind_res (multibuf_add p pg multibuf) (\<lambda>multibuf.
              read_loop prm this acc r fid ps multibuf ret (upd_gpage p (set_io_pending True) s)))))
         else if \<not> data_ready pg
         then bind_res (page_add_req p r s) (\<lambda>s.
              bind_res (submit_multibuf prm this acc multibuf s) (\<lambda>(multibuf, s).
              read_loop prm this acc r fid ps multibuf ret s))
         else bind_res (submit_multibuf prm this acc multibuf s) (\<lambda>(multibuf, s).
              bind_res (ior_extract (or_req (g_orig s r)) (get_offset pg) PAGE_SIZE) (\<lambda>x.
              bind_res (gc_complete_req p r s) (\<lambda>(_, s).
              bind_res (finalize_range this (ior_offset x) (ior_get_size x) r s) (\<lambda>s.
              read_loop prm this acc r fid ps multibuf (ret + ior_get_size x) (upd_gpage p dec_ref s)))))))"

definition read_pages :: "gparams \<Rightarrow> nat \<Rightarrow> access_method \<Rightarrow> nat list \<Rightarrow> nat \<Rightarrow> gstate \<Rightarrow> (int \<times> gstate) res" where
  "read_pages prm this acc pages r s =
     assert_then (int (length pages) \<le> gp_block_size prm)
    (bind_res (new_multibuf prm this acc) (\<lambda>multibuf.
     assert_then (pages \<noteq> [])
       (read_loop prm this acc r (pg_file_id (g_page s (hd pages))) pages multibuf 0 s)))"

section \<open>Requests that the disks have completed\<close>

text \<open>\<^verbatim>\<open>queue_requests\<close> takes the lists of waiting requests apart and hands every request to its instance. A list that closes
  on itself would be followed forever: the walk has a budget of steps. \<open>srt\<close> is the result of \<^verbatim>\<open>std::sort\<close>, which orders
  the pairs by instance and leaves the order of equal ones open.\<close>

fun chain_rest :: "nat \<Rightarrow> nat \<Rightarrow> nat \<Rightarrow> gstate \<Rightarrow> ((nat \<times> nat) list \<times> gstate) res" where
  "chain_rest 0 p req s = (if req = 0 then Inr ([], s) else Inl Out_of_steps)"
| "chain_rest (Suc k) p req s =
     (if req = 0 then Inr ([], s)
      else bind_res (get_next_req_on_page p req s) (\<lambda>nxt.
           bind_res (set_next_req_on_page p req 0 s) (\<lambda>s.
           bind_res (chain_rest k p nxt s) (\<lambda>(rest, s). Inr ((p, req) # rest, s)))))"

fun collect_chains :: "nat \<Rightarrow> (nat \<times> nat) list \<Rightarrow> gstate \<Rightarrow> ((nat \<times> nat) list \<times> gstate) res" where
  "collect_chains fuel [] s = Inr ([], s)"
| "collect_chains fuel ((p, head) # prs) s =
     bind_res (get_next_req_on_page p head s) (\<lambda>req.
     bind_res (chain_rest fuel p req s) (\<lambda>(rest, s).
     bind_res (set_next_req_on_page p head 0 s) (\<lambda>s.
     bind_res (collect_chains fuel prs s) (\<lambda>(rests, s). Inr (rest @ rests, s)))))"

definition req_io :: "gstate \<Rightarrow> nat \<times> nat \<Rightarrow> nat" where
  "req_io s pr = ior_io (or_req (g_orig s (snd pr)))"

definition deliver_pending :: "nat \<times> (nat \<times> nat) list \<Rightarrow> gstate \<Rightarrow> gstate" where
  "deliver_pending run s = upd_io (fst run) (gc_pending_requests_update (\<lambda>q. q @ snd run)) s"

definition queue_requests :: "nat \<Rightarrow> ((nat \<times> nat \<Rightarrow> nat) \<Rightarrow> (nat \<times> nat) list \<Rightarrow> (nat \<times> nat) list)
    \<Rightarrow> (nat \<times> nat) list \<Rightarrow> gstate \<Rightarrow> gstate res" where
  "queue_requests fuel srt pending_reqs s =
     (if pending_reqs = [] then Inr s
      else bind_res (collect_chains fuel pending_reqs s) (\<lambda>(rests, s).
           bind_res (process_reqs_on_io (req_io s) (srt (req_io s) (pending_reqs @ rests))) (\<lambda>runs.
           Inr (fold deliver_pending runs s))))"

fun multibuf_pages :: "access_method \<Rightarrow> io_buf list \<Rightarrow> gstate \<Rightarrow> ((nat \<times> nat) list \<times> gstate) res" where
  "multibuf_pages acc [] s = Inr ([], s)"
| "multibuf_pages acc (b # bs) s =
     bind_res (ib_get_page b) (\<lambda>p.
     assert_then (p \<noteq> 0)
    (assert_then (is_io_pending (g_page s p))
    (let s = upd_gpage p (\<lambda>pg. set_io_pending False
               (if acc = READ then set_data_ready True pg else set_old_dirty False (set_dirty False pg))) s;
         (pending_req, s) = page_reset_reqs p s;
         s = (if acc = WRITE then upd_gpage p dec_ref s else s)
     in assert_then (acc = WRITE \<longrightarrow> 0 \<le> pg_refcnt (g_page s p))
       (bind_res (multibuf_pages acc bs s) (\<lambda>(prs, s).
        Inr (if pending_req \<noteq> 0 then (p, pending_req) # prs else prs, s))))))"

definition multibuf_completion :: "nat \<Rightarrow> ((nat \<times> nat \<Rightarrow> nat) \<Rightarrow> (nat \<times> nat) list \<Rightarrow> (nat \<times> nat) list)
    \<Rightarrow> io_request \<Rightarrow> gstate \<Rightarrow> gstate res" where
  "multibuf_completion fuel srt request s =
     bind_res (ior_extension request) (\<lambda>e.
     bind_res (multibuf_pages (ior_access_method request) (take (ext_num_bufs e) (ext_vec e)) s) (\<lambda>(prs, s).
     queue_requests fuel srt prs s))"

definition single_completion :: "io_request \<Rightarrow> gstate \<Rightarrow> ((nat \<times> nat) list \<times> gstate) res" where
  "single_completion request s =
     bind_res (ior_extension request) (\<lambda>e.
     let p = ext_priv e; acc = ior_access_method request
     in assert_then (ior_get_size request \<le> PAGE_SIZE)
       (assert_then (acc = WRITE \<longrightarrow> is_old_dirty (g_page s p) \<and> \<not> data_ready (g_page s p))
       (let s = upd_gpage p (\<lambda>pg. set_io_pending False
                  (if acc = READ then set_data_ready True pg else set_old_dirty False pg)) s;
            (old, s) = page_reset_reqs p s;
            s = (if acc = WRITE then upd_gpage p dec_ref s else s)
        in assert_then (acc = WRITE \<longrightarrow> 0 \<le> pg_refcnt (g_page s p))
             (Inr (if old \<noteq> 0 then [(p, old)] else [], s)))))"

fun disk_completed_loop :: "nat \<Rightarrow> ((nat \<times> nat \<Rightarrow> nat) \<Rightarrow> (nat \<times> nat) list \<Rightarrow> (nat \<times> nat) list)
    \<Rightarrow> nat \<Rightarrow> io_request list \<Rightarrow> gstate \<Rightarrow> ((nat \<times> nat) list \<times> gstate) res" where
  "disk_completed_loop fuel srt this [] s = Inr ([], s)"
| "disk_completed_loop fuel srt this (request # reqs) s =
     (let s = upd_io this (gc_num_underlying_pages_update (\<lambda>n. n - of_nat (ior_get_num_bufs request))) s
      in if ior_get_num_bufs request > 1
         then bind_res (multibuf_completion fuel srt request s) (disk_completed_loop fuel srt this reqs)
         else bind_res (single_completion request s) (\<lambda>(prs, s).
              bind_res (disk_completed_loop fuel srt this reqs s) (\<lambda>(prs', s). Inr (prs @ prs', s))))"

definition process_disk_completed_requests :: "nat \<Rightarrow> ((nat \<times> nat \<Rightarrow> nat) \<Rightarrow> (nat \<times> nat) list \<Rightarrow> (nat \<times> nat) list)
    \<Rightarrow> nat \<Rightarrow> io_request list \<Rightarrow> gstate \<Rightarrow> gstate res" where
  "process_disk_completed_requests fuel srt this requests s =
     (let s = upd_io this (gc_num_from_underlying_update (\<lambda>n. n + of_nat (length requests))) s
      in bind_res (disk_completed_loop fuel srt this requests s) (\<lambda>(prs, s). queue_requests fuel srt prs s))"

text \<open>\<^verbatim>\<open>handle_pending_requests\<close>. The queue is fetched in pieces of three; nothing the loop does adds to it, so the pieces are
  processed one after the other.\<close>

fun pending_loop :: "gparams \<Rightarrow> nat \<Rightarrow> (nat \<times> nat) list \<Rightarrow> gstate \<Rightarrow> (nat list \<times> gstate) res" where
  "pending_loop prm this [] s = Inr ([], s)"
| "pending_loop prm this ((p, r) # prs) s =
     assert_then (\<not> is_old_dirty (g_page s p))
    (bind_res (get_next_req_on_page p r s) (\<lambda>nxt.
     assert_then (nxt = 0)
    (assert_then (ior_io (or_req (g_orig s r)) = this)
    (bind_res (if ior_access_method (or_req (g_orig s r)) = WRITE then write_page prm this r p s
               else bind_res (read_page prm this r p s) (\<lambda>(n, s). Inr (n, [], s))) (\<lambda>(_, dirty, s).
     bind_res (pending_loop prm this prs s) (\<lambda>(dirty_pages, s). Inr (dirty @ dirty_pages, s)))))))"

definition handle_pending_requests :: "gparams \<Rightarrow> nat \<Rightarrow> gstate \<Rightarrow> (nat \<times> nat list \<times> gstate) res" where
  "handle_pending_requests prm this s =
     (let prs = gc_pending_requests (g_io s this); s = upd_io this (gc_pending_requests_update (\<lambda>_. [])) s
      in bind_res (pending_loop prm this prs s) (\<lambda>(dirty_pages, s). Inr (length prs, dirty_pages, s)))"

section \<open>Writing an evicted page back\<close>

definition write_dirty_page :: "gparams \<Rightarrow> page_lookup \<Rightarrow> nat \<Rightarrow> nat \<Rightarrow> data_loc_t \<Rightarrow> nat \<Rightarrow> gstate \<Rightarrow> gstate res" where
  "write_dirty_page prm look this p pg_id r s =
     assert_then (\<not> is_io_pending (g_page s p))
    (let s = upd_gpage p (set_io_pending True) s
     in bind_res (new_ext_request (new_io_req_extension\<lparr>ext_priv := p\<rparr>) pg_id WRITE this (pg_node_id (g_page s p))) (\<lambda>req.
        assert_then (0 < pg_refcnt (g_page s p))
       (bind_res (ior_add_page p req) (\<lambda>req.
        bind_res (page_add_req p r s) (\<lambda>s.
        let s = upd_gpage p inc_ref s
        in bind_res (merge_pages2req (gp_cache_large_write prm) look (gp_block_size prm) req (g_page s)) (\<lambda>(req, st).
           let s = s\<lparr>g_page := st\<rparr>; orig = or_req (g_orig s r)
           in assert_then (\<not> ior_has_overlap req (ior_offset orig) (ior_get_size orig))
               (let req = (if ior_sync orig then req\<lparr>ior_low_latency := True\<rparr> else req)
                in underlying_access prm this req (upd_io this (\<lambda>io. io\<lparr>gc_num_to_underlying := gc_num_to_underlying io + 1,
                     gc_num_underlying_pages := gc_num_underlying_pages io + of_nat (ior_get_num_bufs req)\<rparr>) s))))))))"

end
