(* ===== verification/Cached_User.thy ===== *)
theory Cached_User
  imports Cached_IO
begin

text \<open>
  The part of \<^verbatim>\<open>global_cached_io\<close> that faces the application: requests are taken one at a time, the pages of a request are
  looked up in the page cache one after the other, and finished requests are reported. \<open>user_io\<close> is what the thread of an
  instance keeps for this; the heap it works on is the \<open>gstate\<close> of the cached I/O.

  The page cache is an interface of the source (\<^verbatim>\<open>page_cache\<close>): \<open>ce_search\<close> is its \<^verbatim>\<open>search(pg_id, old_id)\<close>, which returns the
  page, or 0, and the identity of the page it has evicted, with offset -1 if none; \<open>ce_look\<close> is its search for cached
  pages only and \<open>ce_mark_dirty\<close> its \<^verbatim>\<open>mark_dirty_pages\<close>. \<open>ce_alloc\<close> is the address of a new request.
  \<open>ce_run_page\<close> and \<open>ce_run_request\<close> run a user task on a byte array and return what the task leaves of it (a task may take
  the pages over); \<open>ce_sort\<close> is \<^verbatim>\<open>std::sort\<close> by I/O instance. Calls of the application's code and of other instances are logged, in order, in \<open>ui_events\<close>.
\<close>

section \<open>State\<close>

datatype io_status = IO_OK | IO_PENDING nat

datatype event =
    Callback "io_request list"
  | Notify nat "io_request list"
  | Run_on_page nat simple_page_byte_array
  | Run_on_request nat original_req_byte_array
  | Post_compute nat
  | Inc_compute nat

record cache_env =
  ce_search :: "data_loc_t \<Rightarrow> gstate \<Rightarrow> nat \<times> data_loc_t \<times> gstate"
  ce_look :: page_lookup
  ce_mark_dirty :: "nat list \<Rightarrow> gstate \<Rightarrow> gstate"
  ce_alloc :: "gstate \<Rightarrow> nat"
  ce_junk :: page_status
  ce_run_page :: "nat \<Rightarrow> simple_page_byte_array \<Rightarrow> simple_page_byte_array"
  ce_run_request :: "nat \<Rightarrow> original_req_byte_array \<Rightarrow> original_req_byte_array"
  ce_sort :: "(io_request \<Rightarrow> nat) \<Rightarrow> io_request list \<Rightarrow> io_request list"
  ce_have_callback :: bool
  ce_max_pending :: nat
  ce_file_id :: int
  ce_cache_size :: int

record user_io =
  ui_processing_req :: partial_request
  ui_orig :: nat
  ui_cached_requests :: "(io_request \<times> nat) list"
  ui_user_requests :: "io_request list"
  ui_events :: "event list"
  ui_num_pg_accesses :: "64 word"
  ui_num_bytes :: "64 word"
  ui_cache_hits :: "64 word"
  ui_num_fast_process :: "64 word"
  ui_num_evicted_dirty_pages :: "64 word"
  ui_num_completed_areqs :: "64 word"
  ui_num_issued_areqs :: "64 word"
  ui_num_processed_areqs :: "64 word"

definition log_events :: "event list \<Rightarrow> user_io \<Rightarrow> user_io" where
  "log_events evs u = u\<lparr>ui_events := ui_events u @ evs\<rparr>"

section \<open>One request of the application\<close>

text \<open>The variables of \<^verbatim>\<open>process_user_req\<close>.\<close>

record user_acc =
  ua_pages :: "nat list"
  ua_num_pages_ready :: nat
  ua_num_bytes_completed :: int
  ua_dirty_pages :: "nat list"

definition user_init_orig :: "cache_env \<Rightarrow> nat \<Rightarrow> user_io \<Rightarrow> gstate \<Rightarrow> (user_io \<times> gstate) res" where
  "user_init_orig env this u s =
     (if ui_orig u \<noteq> 0 then Inr (u, s)
      else let r = ce_alloc env s
           in bind_res (new_orig_request (ce_junk env) this (pr_req (ui_processing_req u))) (\<lambda>q.
              Inr (u\<lparr>ui_orig := r\<rparr>, upd_orig r (\<lambda>_. q) s)))"

text \<open>The pages collected so far are read together; the result is the number of bytes completed.\<close>

definition read_collected :: "gparams \<Rightarrow> nat \<Rightarrow> nat \<Rightarrow> nat list \<Rightarrow> gstate \<Rightarrow> (int \<times> gstate) res" where
  "read_collected prm this r pages s =
     (if pages = [] then Inr (0, s)
      else bind_res (ior_extract (or_req (g_orig s r)) (get_offset (g_page s (hd pages))) (int (length pages) * PAGE_SIZE)) (\<lambda>req.
           read_pages prm this (ior_access_method req) pages r s))"

definition user_page :: "gparams \<Rightarrow> nat \<Rightarrow> nat \<Rightarrow> nat \<Rightarrow> user_acc \<Rightarrow> gstate \<Rightarrow> (user_acc \<times> gstate) res" where
  "user_page prm this r p a s =
     (if ior_access_method (or_req (g_orig s r)) = WRITE
      then bind_res (write_page prm this r p s) (\<lambda>(n, dirty, s).
           Inr (a\<lparr>ua_num_bytes_completed := int32 (ua_num_bytes_completed a + n), ua_dirty_pages := ua_dirty_pages a @ dirty\<rparr>, s))
      else let pages = ua_pages a @ [p]
           in assert_then (int (length pages) \<le> gp_block_size prm)
             (if (get_offset (g_page s (hd pages)) + PAGE_SIZE * int (length pages)) mod (gp_block_size prm * PAGE_SIZE) = 0
              then bind_res (read_collected prm this r pages s) (\<lambda>(n, s).
                   Inr (a\<lparr>ua_num_bytes_completed := int32 (ua_num_bytes_completed a + n), ua_pages := []\<rparr>, s))
              else Inr (a\<lparr>ua_pages := pages\<rparr>, s)))"

text \<open>A page whose old data has to be written back first; the flag says whether the request waits on it.\<close>

definition user_old_dirty :: "cache_env \<Rightarrow> gparams \<Rightarrow> nat \<Rightarrow> nat \<Rightarrow> nat \<Rightarrow> data_loc_t \<Rightarrow> data_loc_t \<Rightarrow> gstate \<Rightarrow> (bool \<times> gstate) res" where
  "user_old_dirty env prm this r p pg_id old_id s =
     assert_then (loc_off old_id \<noteq> loc_off pg_id)
    (if loc_off old_id \<noteq> - 1 then bind_res (write_dirty_page prm (ce_look env) this p old_id r s) (\<lambda>s. Inr (True, s))
     else if is_old_dirty (g_page s p) then bind_res (page_add_req p r s) (\<lambda>s. Inr (True, s))
     else Inr (False, s))"

text \<open>One round of the loop; the flag says whether it goes on.\<close>

definition user_step :: "cache_env \<Rightarrow> gparams \<Rightarrow> nat \<Rightarrow> user_io \<Rightarrow> user_acc \<Rightarrow> gstate \<Rightarrow> (bool \<times> user_io \<times> user_acc \<times> gstate) res" where
  "user_step env prm this u a s =
     (let pg_id = pr_get_curr_page_id (ui_processing_req u); req = pr_req (ui_processing_req u);
          (p, old_id, s) = ce_search env pg_id s
      in if p = 0 then Inr (False, u, a, s)
         else let u = u\<lparr>ui_processing_req := pr_move_next (ui_processing_req u), ui_num_pg_accesses := ui_num_pg_accesses u + 1\<rparr>;
                  cache_hit = (loc_off old_id = - 1); ready = data_ready (g_page s p);
                  u = (if cache_hit then u\<lparr>ui_cache_hits := ui_cache_hits u + 1\<rparr> else u);
                  a = (if cache_hit \<and> ready then a\<lparr>ua_num_pages_ready := ua_num_pages_ready a + 1\<rparr> else a)
              in if cache_hit \<and> ior_within_1page req \<and> ready
                 then Inr (False, u\<lparr>ui_cached_requests := ui_cached_requests u @ [(req, p)]\<rparr>, a, s)
                 else bind_res (user_init_orig env this u s) (\<lambda>(u, s).
                      if is_old_dirty (g_page s p)
                      then let u = u\<lparr>ui_num_evicted_dirty_pages := ui_num_evicted_dirty_pages u + 1\<rparr>
                           in bind_res (read_collected prm this (ui_orig u) (ua_pages a) s) (\<lambda>(_, s).
                              let a = a\<lparr>ua_pages := []\<rparr>
                              in bind_res (user_old_dirty env prm this (ui_orig u) p pg_id old_id s) (\<lambda>(waits, s).
                                 if waits then Inr (True, u, a, s)
                                 else bind_res (user_page prm this (ui_orig u) p a s) (\<lambda>(a, s). Inr (True, u, a, s))))
                      else bind_res (user_page prm this (ui_orig u) p a s) (\<lambda>(a, s). Inr (True, u, a, s))))"

text \<open>The loop moves to the next page in every round that goes on; it has as many rounds as the request has pages left.\<close>

fun user_loop :: "cache_env \<Rightarrow> gparams \<Rightarrow> nat \<Rightarrow> nat \<Rightarrow> user_io \<Rightarrow> user_acc \<Rightarrow> gstate \<Rightarrow> (user_io \<times> user_acc \<times> gstate) res" where
  "user_loop env prm this 0 u a s = (if pr_is_empty (ui_processing_req u) then Inr (u, a, s) else Inl Out_of_steps)"
| "user_loop env prm this (Suc k) u a s =
     (if pr_is_empty (ui_processing_req u) then Inr (u, a, s)
      else bind_res (user_step env prm this u a s) (\<lambda>(more, u, a, s).
           if more then user_loop env prm this k u a s else Inr (u, a, s)))"

definition user_rounds :: "partial_request \<Rightarrow> nat" where
  "user_rounds pr = nat ((pr_end_pg_offset pr - pr_curr_pg_offset pr) div PAGE_SIZE)"

definition user_status :: "user_io \<Rightarrow> user_acc \<Rightarrow> io_status res" where
  "user_status u a =
     (let req = pr_req (ui_processing_req u)
      in if int (ua_num_pages_ready a) = ior_num_covered_pages req \<or> ua_num_bytes_completed a = ior_get_size req
         then Inr IO_OK
         else assert_then (ui_orig u \<noteq> 0) (Inr (IO_PENDING (ui_orig u))))"

text \<open>The status is computed when the caller asks for it.\<close>

definition process_user_req :: "cache_env \<Rightarrow> gparams \<Rightarrow> nat \<Rightarrow> bool \<Rightarrow> user_io \<Rightarrow> gstate
    \<Rightarrow> (nat list \<times> io_status option \<times> user_io \<times> gstate) res" where
  "process_user_req env prm this want_status u s =
     bind_res (user_loop env prm this (user_rounds (ui_processing_req u)) u
         \<lparr>ua_pages = [], ua_num_pages_ready = 0, ua_num_bytes_completed = 0, ua_dirty_pages = []\<rparr> s) (\<lambda>(u, a, s).
     bind_res (read_collected prm this (ui_orig u) (ua_pages a) s) (\<lambda>(_, s).
     if want_status then bind_res (user_status u a) (\<lambda>st. Inr (ua_dirty_pages a, Some st, u, s))
     else Inr (ua_dirty_pages a, None, u, s)))"

section \<open>The requests of the application\<close>

definition start_req :: "io_request \<Rightarrow> user_io \<Rightarrow> user_io" where
  "start_req req u = u\<lparr>ui_processing_req := pr_init req, ui_orig := 0, ui_num_bytes := ui_num_bytes u + of_int (ior_get_size req)\<rparr>"

definition is_extended_req :: "io_request \<Rightarrow> bool" where
  "is_extended_req req \<longleftrightarrow> (case ior_payload req of EXT_REQ _ \<Rightarrow> True | _ \<Rightarrow> False)"

text \<open>\<^verbatim>\<open>process_user_reqs\<close> on the queue \<^verbatim>\<open>user_requests\<close>: one round takes one request off the queue. The queue only shrinks.\<close>

definition may_process :: "cache_env \<Rightarrow> nat \<Rightarrow> user_io \<Rightarrow> gstate \<Rightarrow> bool" where
  "may_process env this u s \<longleftrightarrow> pr_is_empty (ui_processing_req u)
     \<and> ui_num_processed_areqs u - ui_num_completed_areqs u < of_nat (ce_max_pending env)
     \<and> gc_num_underlying_pages (g_io s this) < 1000"

fun user_reqs_loop :: "cache_env \<Rightarrow> gparams \<Rightarrow> nat \<Rightarrow> io_request list \<Rightarrow> nat list \<Rightarrow> user_io \<Rightarrow> gstate
    \<Rightarrow> (nat list \<times> user_io \<times> gstate) res" where
  "user_reqs_loop env prm this [] dirty u s = Inr (dirty, u\<lparr>ui_user_requests := []\<rparr>, s)"
| "user_reqs_loop env prm this (req # reqs) dirty u s =
     (if \<not> may_process env this u s then Inr (dirty, u\<lparr>ui_user_requests := req # reqs\<rparr>, s)
      else let u = u\<lparr>ui_num_processed_areqs := ui_num_processed_areqs u + 1\<rparr>
           in assert_then (\<not> is_extended_req req)
             (assert_then (\<not> ior_sync req)
             (assert_then (ior_get_num_bufs req = 1)
             (if ior_is_flush req
              then user_reqs_loop env prm this reqs dirty (u\<lparr>ui_num_completed_areqs := ui_num_completed_areqs u + 1\<rparr>) s
              else bind_res (process_user_req env prm this False (start_req req u) s) (\<lambda>(d, _, u, s).
                   user_reqs_loop env prm this reqs (dirty @ d) u s)))))"

definition process_user_reqs :: "cache_env \<Rightarrow> gparams \<Rightarrow> nat \<Rightarrow> user_io \<Rightarrow> gstate \<Rightarrow> (user_io \<times> gstate) res" where
  "process_user_reqs env prm this u s =
     bind_res (if pr_is_empty (ui_processing_req u) then Inr ([], u, s)
         else bind_res (process_user_req env prm this False u s) (\<lambda>(d, _, u, s). Inr (d, u, s))) (\<lambda>(dirty, u, s).
     bind_res (user_reqs_loop env prm this (ui_user_requests u) dirty u s) (\<lambda>(dirty, u, s).
     bind_res (gc_flush prm this (ce_mark_dirty env dirty s)) (\<lambda>s. Inr (u, s))))"

text \<open>\<^verbatim>\<open>access\<close> for an array of requests. \<open>access_prepare\<close> and \<open>access_refs\<close> are its first loop, \<open>access_loop\<close> its second; the latter
  returns whether the requests have to be flushed and the statuses written. The user task of a request gains a reference before
  anything is processed.\<close>

definition access_prepare :: "gparams \<Rightarrow> nat \<Rightarrow> io_request \<Rightarrow> io_request" where
  "access_prepare prm this req = (if ior_io req = 0 then req\<lparr>ior_io := this, ior_node_id := gp_node_id prm\<rparr> else req)"

definition access_refs :: "io_request list \<Rightarrow> event list" where
  "access_refs requests = concat (map (\<lambda>r. case ior_payload r of USER_COMPUTE c \<Rightarrow> [Inc_compute c] | _ \<Rightarrow> []) requests)"

fun access_loop :: "cache_env \<Rightarrow> gparams \<Rightarrow> nat \<Rightarrow> bool \<Rightarrow> io_request list \<Rightarrow> bool \<Rightarrow> nat list \<Rightarrow> io_status option list
    \<Rightarrow> user_io \<Rightarrow> gstate \<Rightarrow> (bool \<times> nat list \<times> io_status option list \<times> user_io \<times> gstate) res" where
  "access_loop env prm this want [] syncd dirty sts u s = Inr (syncd, dirty, sts, u, s)"
| "access_loop env prm this want (req # reqs) syncd dirty sts u s =
     assert_then (\<not> is_extended_req req)
    (assert_then (ior_get_num_bufs req = 1)
    (if ior_is_flush req
     then assert_then (\<not> ior_sync req)
            (access_loop env prm this want reqs True dirty (sts @ [None])
              (u\<lparr>ui_num_completed_areqs := ui_num_completed_areqs u + 1, ui_num_processed_areqs := ui_num_processed_areqs u + 1\<rparr>) s)
     else let u = (if ior_sync req then u else u\<lparr>ui_num_processed_areqs := ui_num_processed_areqs u + 1\<rparr>)
          in assert_then (pr_is_empty (ui_processing_req u))
            (bind_res (process_user_req env prm this want (start_req req u) s) (\<lambda>(d, st, u, s).
             if \<not> pr_is_empty (ui_processing_req u) \<and> reqs \<noteq> []
             then Inr (syncd \<or> ior_sync req, dirty @ d, sts @ [st], u\<lparr>ui_user_requests := ui_user_requests u @ reqs\<rparr>, s)
             else access_loop env prm this want reqs (syncd \<or> ior_sync req) (dirty @ d) (sts @ [st]) u s))))"

definition access_reqs :: "cache_env \<Rightarrow> gparams \<Rightarrow> nat \<Rightarrow> bool \<Rightarrow> io_request list \<Rightarrow> user_io \<Rightarrow> gstate
    \<Rightarrow> (io_status option list \<times> user_io \<times> gstate) res" where
  "access_reqs env prm this want requests u s =
     (if requests = [] then Inr ([], u, s)
      else let requests = map (access_prepare prm this) requests;
               u = log_events (access_refs requests)
                     (u\<lparr>ui_num_issued_areqs := ui_num_issued_areqs u + of_nat (length (filter (\<lambda>r. \<not> ior_sync r) requests))\<rparr>)
           in bind_res (if pr_is_empty (ui_processing_req u) then Inr ([], u, s)
                  else bind_res (process_user_req env prm this False u s) (\<lambda>(d, _, u, s). Inr (d, u, s))) (\<lambda>(dirty, u, s).
              if \<not> pr_is_empty (ui_processing_req u)
              then Inr ([], u\<lparr>ui_user_requests := ui_user_requests u @ requests\<rparr>, ce_mark_dirty env dirty s)
              else bind_res (access_loop env prm this want requests False dirty [] u s) (\<lambda>(syncd, dirty, sts, u, s).
                   let s = ce_mark_dirty env dirty s
                   in if syncd then bind_res (gc_flush prm this s) (\<lambda>s. Inr (sts, u, s)) else Inr (sts, u, s))))"

section \<open>Reporting requests\<close>

text \<open>\<^verbatim>\<open>notify_completion\<close> for an array of requests: the calls it makes.\<close>

definition gc_notify_completion :: "cache_env \<Rightarrow> nat \<Rightarrow> io_request list \<Rightarrow> event list res" where
  "gc_notify_completion env this reqs =
     (let local_reqs = filter (\<lambda>r. ior_io r = this \<and> (case ior_payload r of BASIC_REQ _ \<Rightarrow> True | _ \<Rightarrow> False)) reqs;
          remote_reqs = filter (\<lambda>r. ior_io r \<noteq> this) reqs;
          evs = (if ce_have_callback env \<and> local_reqs \<noteq> [] then [Callback local_reqs] else [])
      in if remote_reqs = [] then Inr evs
         else bind_res (process_reqs_on_io ior_io (ce_sort env ior_io remote_reqs)) (\<lambda>runs. Inr (evs @ map (\<lambda>(io, rs). Notify io rs) runs)))"

definition REQ_BUF_SIZE :: nat where
  "REQ_BUF_SIZE = 64"

definition release_pages :: "nat list \<Rightarrow> gstate \<Rightarrow> gstate" where
  "release_pages ps = fold (\<lambda>p. upd_gpage p dec_ref) ps"

text \<open>A request that is served by one page that has its data.\<close>

definition complete_cached_req :: "cache_env \<Rightarrow> io_request \<Rightarrow> nat \<Rightarrow> user_io \<Rightarrow> gstate \<Rightarrow> (nat \<times> user_io \<times> gstate) res" where
  "complete_cached_req env req p u s = (case ior_payload req of
       BASIC_REQ b \<Rightarrow>
         let page_off = ior_offset req - round_page (ior_offset req); n = ior_get_size req; d = g_data s p; pg = g_page s p
         in if page_off < 0 \<or> n < 0 \<or> page_off + n > int (length d) then Inl Undefined_behaviour
            else if ior_access_method req = WRITE
            then let s' = upd_gpage p (set_dirty True)
                            (s\<lparr>g_data := (g_data s)(p := copy_to_page (g_mem s) b (nat page_off) (nat n) d)\<rparr>)
                 in if is_dirty pg then Inr (0, u, upd_gpage p dec_ref s') else Inr (p, u, upd_gpage p dec_ref (upd_gpage p inc_ref s'))
            else Inr (0, u, upd_gpage p dec_ref (s\<lparr>g_mem := copy_to_mem d (nat page_off) b (nat n) (g_mem s)\<rparr>))
     | USER_COMPUTE c \<Rightarrow>
         let arr = spba_init (nat (ior_offset req)) (nat (ior_get_size req)) p
         in Inr (0, log_events [Run_on_page c arr] u, release_pages (spba_destroy (ce_run_page env c arr)) s)
     | EXT_REQ _ \<Rightarrow> Inl Assert_failed)"

text \<open>The loop of \<^verbatim>\<open>process_cached_reqs\<close>; \<open>buf\<close> holds the requests to be reported together and \<open>n\<close> counts the asynchronous ones.\<close>

fun cached_reqs_loop :: "cache_env \<Rightarrow> nat \<Rightarrow> (io_request \<times> nat) list \<Rightarrow> io_request list \<Rightarrow> nat \<Rightarrow> user_io \<Rightarrow> gstate
    \<Rightarrow> (io_request list \<times> nat \<times> user_io \<times> gstate) res" where
  "cached_reqs_loop env this [] buf n u s = Inr (buf, n, u, s)"
| "cached_reqs_loop env this ((req, p) # prs) buf n u s =
     bind_res (complete_cached_req env req p (u\<lparr>ui_num_fast_process := ui_num_fast_process u + 1\<rparr>) s) (\<lambda>(dirty, u, s).
     let s = (if dirty \<noteq> 0 then upd_gpage dirty dec_ref (ce_mark_dirty env [dirty] s) else s);
         (buf, n) = (if ior_sync req then (buf, n) else (buf @ [req], n + 1));
         u = (case ior_payload req of USER_COMPUTE c \<Rightarrow> log_events [Post_compute c] u | _ \<Rightarrow> u)
     in if length buf = REQ_BUF_SIZE
        then bind_res (gc_notify_completion env this buf) (\<lambda>evs. cached_reqs_loop env this prs [] n (log_events evs u) s)
        else cached_reqs_loop env this prs buf n u s)"

definition process_cached_reqs :: "cache_env \<Rightarrow> nat \<Rightarrow> user_io \<Rightarrow> gstate \<Rightarrow> (user_io \<times> gstate) res" where
  "process_cached_reqs env this u s =
     (if ui_cached_requests u = [] then Inr (u, s)
      else bind_res (cached_reqs_loop env this (ui_cached_requests u) [] 0 (u\<lparr>ui_cached_requests := []\<rparr>) s) (\<lambda>(buf, n, u, s).
           let u = u\<lparr>ui_num_completed_areqs := ui_num_completed_areqs u + of_nat n\<rparr>
           in if buf = [] then Inr (u, s)
              else bind_res (gc_notify_completion env this buf) (\<lambda>evs. Inr (log_events evs u, s))))"

text \<open>The loop of \<^verbatim>\<open>process_completed_requests\<close>, over the queue of completed requests. A user task runs on the pages of the
  whole request, which are released afterwards.\<close>

definition compute_req :: "cache_env \<Rightarrow> nat \<Rightarrow> nat \<Rightarrow> user_io \<Rightarrow> gstate \<Rightarrow> (user_io \<times> gstate) res" where
  "compute_req env c r u s =
     bind_res (oir_compute None (\<lambda>arr. (ce_run_request env c arr, arr)) (or_oir (g_orig s r))) (\<lambda>(arr, released, oir).
       Inr (log_events [Run_on_request c arr, Post_compute c] u,
            release_pages released (upd_orig r (or_oir_update (\<lambda>_. oir)) s)))"

fun completed_loop :: "cache_env \<Rightarrow> nat \<Rightarrow> nat list \<Rightarrow> io_request list \<Rightarrow> user_io \<Rightarrow> gstate
    \<Rightarrow> (io_request list \<times> user_io \<times> gstate) res" where
  "completed_loop env this [] buf u s = Inr (buf, u, s)"
| "completed_loop env this (r # rs) buf u s =
     (let req = or_req (g_orig s r)
      in assert_then (\<not> ior_sync req)
        (bind_res (case ior_payload req of
             USER_COMPUTE c \<Rightarrow> bind_res (compute_req env c r u s) (\<lambda>(u, s). Inr (buf, u, s))
           | _ \<Rightarrow> Inr (buf @ [req], u, s)) (\<lambda>(buf, u, s).
         if length buf = REQ_BUF_SIZE
         then bind_res (gc_notify_completion env this buf) (\<lambda>evs. completed_loop env this rs [] (log_events evs u) s)
         else completed_loop env this rs buf u s)))"

definition process_completed_requests :: "cache_env \<Rightarrow> nat \<Rightarrow> user_io \<Rightarrow> gstate \<Rightarrow> (nat \<times> user_io \<times> gstate) res" where
  "process_completed_requests env this u s =
     (let rs = gc_complete_queue (g_io s this); s = upd_io this (gc_complete_queue_update (\<lambda>_. [])) s
      in bind_res (completed_loop env this rs [] u s) (\<lambda>(buf, u, s).
         let u = u\<lparr>ui_num_completed_areqs := ui_num_completed_areqs u + of_nat (length rs)\<rparr>
         in if buf = [] then Inr (length rs, u, s)
            else bind_res (gc_notify_completion env this buf) (\<lambda>evs. Inr (length rs, log_events evs u, s))))"

text \<open>\<^verbatim>\<open>preload\<close>; a search that finds no page would be followed through a null pointer.\<close>

fun preload_loop :: "cache_env \<Rightarrow> nat \<Rightarrow> int \<Rightarrow> gstate \<Rightarrow> gstate res" where
  "preload_loop env 0 off s = Inr s"
| "preload_loop env (Suc k) off s =
     (let (p, _, s) = ce_search env \<lparr>loc_file_id = ce_file_id env, loc_off = round_page off\<rparr> s
      in if p = 0 then Inl Undefined_behaviour
         else let s = (if data_ready (g_page s p) then s else upd_gpage p (\<lambda>pg. set_data_ready True (set_io_pending False pg)) s)
              in preload_loop env k (off + PAGE_SIZE) (upd_gpage p dec_ref s))"

definition preload :: "cache_env \<Rightarrow> int \<Rightarrow> int \<Rightarrow> gstate \<Rightarrow> (int \<times> gstate) res" where
  "preload env start n s =
     (if n > ce_cache_size env then Inr (- 1, s)
      else assert_then (round_page start = start)
        (bind_res (preload_loop env (nat ((n + PAGE_SIZE - 1) div PAGE_SIZE)) start s) (\<lambda>s. Inr (0, s))))"

end
