(* ===== verification/Cached_IO_Laws.thy ===== *)
theory Cached_IO_Laws
  imports Cached_IO IO_Request_Props Page_Arrays_Props
begin

text \<open>
  Completing a user request page by page: the piece of a request on its \<open>k\<close>-th page, the bytes copied for it, and the
  account of the pages that are still missing.
\<close>

section \<open>Pieces of a request\<close>

text \<open>The offset of the \<open>k\<close>-th page a request covers; its piece there starts at \<open>pcut req k\<close> and ends at \<open>pcut req (k + 1)\<close>.\<close>

definition piece_page :: "io_request \<Rightarrow> nat \<Rightarrow> int" where
  "piece_page req k = int (ROUND_PAGE (nat (ior_offset req)) + k * page_bytes)"

definition pcut :: "io_request \<Rightarrow> nat \<Rightarrow> int" where
  "pcut req k = border (nat (ior_offset req)) (nat (ior_get_size req)) k"

definition req_num_pages :: "io_request \<Rightarrow> nat" where
  "req_num_pages req = num_covered_pages (nat (ior_offset req)) (nat (ior_get_size req))"

definition basic_req :: "nat \<Rightarrow> io_request \<Rightarrow> bool" where
  "basic_req buf req \<longleftrightarrow> ior_payload req = BASIC_REQ buf \<and> 0 \<le> ior_offset req
     \<and> 0 < ior_get_size req \<and> ior_offset req + ior_get_size req < 2 ^ 62 \<and> ior_node_id req \<le> MAX_NODE_ID"

definition basic_read :: "nat \<Rightarrow> io_request \<Rightarrow> bool" where
  "basic_read buf req \<longleftrightarrow> basic_req buf req \<and> ior_access_method req = READ"

lemmas basic_defs = basic_read_def basic_req_def

lemma basic_read_req: "basic_read buf req \<Longrightarrow> basic_req buf req"
  by (simp add: basic_read_def)

lemma size_set_io [simp]: "ior_get_size (req\<lparr>ior_io := x\<rparr>) = ior_get_size req"
  by (simp add: ior_get_size_def split: payload.split)

lemma basic_read_io [simp]: "basic_req buf (req\<lparr>ior_io := x\<rparr>) = basic_req buf req"
  "basic_read buf (req\<lparr>ior_io := x\<rparr>) = basic_read buf req" "pcut (req\<lparr>ior_io := x\<rparr>) = pcut req"
  "piece_page (req\<lparr>ior_io := x\<rparr>) = piece_page req" "req_num_pages (req\<lparr>ior_io := x\<rparr>) = req_num_pages req"
  "ior_within_1page (req\<lparr>ior_io := x\<rparr>) = ior_within_1page req"
  by (auto simp: basic_defs pcut_def piece_page_def req_num_pages_def ior_within_1page_def fun_eq_iff)

lemma cut_bounds_req:
  assumes "basic_req buf req" "k < req_num_pages req"
  shows "piece_page req k \<le> pcut req k" "pcut req k < pcut req (Suc k)" "pcut req (Suc k) \<le> piece_page req k + 4096"
    "ior_offset req \<le> pcut req k" "pcut req (Suc k) \<le> ior_offset req + ior_get_size req"
    "pcut req k = max (piece_page req k) (ior_offset req)"
    "pcut req (Suc k) = min (piece_page req k + 4096) (ior_offset req + ior_get_size req)"
proof -
  let ?o = "nat (ior_offset req)" and ?n = "nat (ior_get_size req)"
  have o: "int ?o = ior_offset req" "int ?n = ior_get_size req" using assms(1) by (simp_all add: basic_defs)
  have lt: "ROUND_PAGE ?o + k * page_bytes < ?o + ?n" using covered_borders assms(2) by (simp add: req_num_pages_def)
  have rp: "?o < ROUND_PAGE ?o + page_bytes" unfolding ROUND_PAGE_def using page_split[of ?o] by linarith
  show "pcut req k < pcut req (Suc k)" unfolding pcut_def
    using overlap_pos[of ?n k ?o] assms by (simp add: basic_defs req_num_pages_def)
  show mx: "pcut req k = max (piece_page req k) (ior_offset req)"
    using lt o unfolding pcut_def border_def piece_page_def by linarith
  show mn: "pcut req (Suc k) = min (piece_page req k + 4096) (ior_offset req + ior_get_size req)"
    using rp o unfolding pcut_def border_def piece_page_def mult_Suc page_bytes_def by linarith
  show "piece_page req k \<le> pcut req k" "pcut req (Suc k) \<le> piece_page req k + 4096"
    "ior_offset req \<le> pcut req k" "pcut req (Suc k) \<le> ior_offset req + ior_get_size req" using mx mn by auto
qed

lemmas cut_bounds = cut_bounds_req[OF basic_read_req]

lemma round_in_page:
  assumes "piece_page req k \<le> x" "x < piece_page req k + 4096"
  shows "round_page x = piece_page req k"
proof -
  obtain q where q: "piece_page req k = 4096 * q"
    by (auto simp: piece_page_def ROUND_PAGE_def page_bytes_def intro!: that[of "int (nat (ior_offset req) div 4096 + k)"])
  then have "x div 4096 = q" using assms by (intro int_div_pos_eq[of x 4096 q "x - 4096 * q"]) auto
  then show ?thesis using q by (simp add: round_page_eq)
qed

lemma round_page_int: "round_page (int a) = int (ROUND_PAGE a)"
  by (simp add: round_page_eq ROUND_PAGE_def page_bytes_def zdiv_int)

lemma one_page_iff_req:
  assumes "basic_req buf req"
  shows "ior_within_1page req \<longleftrightarrow> req_num_pages req = 1"
proof -
  let ?o = "nat (ior_offset req)" and ?n = "nat (ior_get_size req)"
  have o: "int ?o = ior_offset req" "int ?n = ior_get_size req" "0 < ?n" using assms by (simp_all add: basic_defs)
  have eq: "req_num_pages req * page_bytes + ROUND_PAGE ?o = next_page_off (?o + ?n)" unfolding req_num_pages_def by (rule covered_eq)
  have b: "?o + ?n \<le> next_page_off (?o + ?n)" "next_page_off (?o + ?n) < ?o + ?n + page_bytes" by (rule next_page_off_bounds)+
  have rp: "ROUND_PAGE ?o \<le> ?o" "?o < ROUND_PAGE ?o + page_bytes" unfolding ROUND_PAGE_def using page_split[of ?o] by linarith+
  have "round_page (ior_offset req) = int (ROUND_PAGE ?o)"
    using round_page_int[of ?o] o(1) by simp
  then have w: "ior_within_1page req \<longleftrightarrow> ?o + ?n \<le> ROUND_PAGE ?o + page_bytes"
    unfolding ior_within_1page_def PAGE_SIZE_def page_bytes_def using o(1,2) by linarith
  have "0 < req_num_pages req"
  proof (rule ccontr)
    assume "\<not> 0 < req_num_pages req"
    then show False using eq b(1) rp(1) o(3) by simp
  qed
  moreover have "?o + ?n \<le> ROUND_PAGE ?o + page_bytes" if "req_num_pages req \<le> 1"
    using eq b mult_le_mono1[OF that, of page_bytes] by linarith
  moreover have "req_num_pages req * page_bytes < 2 * page_bytes" if "?o + ?n \<le> ROUND_PAGE ?o + page_bytes"
    using eq b that by linarith
  ultimately show ?thesis unfolding w by (auto simp: page_bytes_def)
qed

lemmas one_page_iff = one_page_iff_req[OF basic_read_req]

lemma extract_piece_req:
  assumes "basic_req buf req" "k < req_num_pages req"
  obtains x where "ior_extract req (piece_page req k) 4096 = Inr x" "ior_offset x = pcut req k"
    "ior_get_size x = pcut req (Suc k) - pcut req k" "ior_payload x = BASIC_REQ (buf + nat (pcut req k - ior_offset req))"
proof -
  note c = cut_bounds_req[OF assms]
  have ov: "ior_has_overlap req (piece_page req k) 4096" using c unfolding ior_has_overlap_def by linarith
  show thesis
    using that assms(1) ov c
    by (auto simp: ior_extract_def basic_defs ior_get_num_bufs_def Let_def ior_init_def new_io_request_def
        ior_get_size_def max_def min_def split: if_splits)
qed

lemmas extract_piece = extract_piece_req[OF basic_read_req]

section \<open>The account of a request\<close>

definition oir_at :: "original_io_request \<Rightarrow> nat set \<Rightarrow> bool" where
  "oir_at oir K \<longleftrightarrow> oir_left oir K \<and> 0 < oir_size oir \<and> (\<forall>k\<in>K. \<not> ps_completed (oir_sts oir ! k))"

lemma ROUND_PAGE_in: "q * page_bytes \<le> y \<Longrightarrow> y < q * page_bytes + page_bytes \<Longrightarrow> ROUND_PAGE y = q * page_bytes"
  using div_nat_eqI[of page_bytes q y] by (simp add: ROUND_PAGE_def mult.commute)

lemma next_page_off_Suc: "next_page_off (Suc y) = ROUND_PAGE y + page_bytes"
  using div_add_self2[of page_bytes y]
  by (simp add: next_page_off_def ROUND_PAGE_def add_mult_distrib page_bytes_def add.commute)

lemma set_status_completed_size:
  "oir_set_page_status (req\<lparr>oir_completed_size := v\<rparr>) off f
    = bind_res (oir_set_page_status req off f) (\<lambda>r. Inr (r\<lparr>oir_completed_size := v\<rparr>))"
  by (auto simp: oir_set_page_status_def oir_page_index_def oir_first_page_offset_def Let_def bind_res_def split: sum.split)

lemma page_piece_bounds:
  assumes "0 < n" "k < num_covered_pages off n"
  shows "int (ROUND_PAGE off + k * page_bytes) \<le> border off n k" "border off n k < border off n (Suc k)"
    "border off n (Suc k) \<le> int (ROUND_PAGE off + Suc k * page_bytes)"
proof -
  have "ROUND_PAGE off + k * page_bytes < off + n" using covered_borders[OF assms(2)] .
  moreover have rp: "off < ROUND_PAGE off + page_bytes" unfolding ROUND_PAGE_def using page_split[of off] by linarith
  ultimately show "int (ROUND_PAGE off + k * page_bytes) \<le> border off n k"
    "border off n (Suc k) \<le> int (ROUND_PAGE off + Suc k * page_bytes)" unfolding border_def mult_Suc by linarith+
qed (rule overlap_pos[OF assms])

lemma complete_range_is_page:
  assumes "oir_wf oir" "k < oir_pages oir" "0 < oir_size oir" "\<not> ps_completed (oir_sts oir ! k)"
  defines "b \<equiv> border (oir_off oir) (oir_size oir)"
  shows "oir_complete_range oir (nat (b k)) (nat (b (Suc k) - b k)) = oir_complete_page oir (oir_page_off oir k)"
proof -
  let ?q = "oir_off oir div page_bytes + k" and ?p = "oir_page_off oir k"
  note pb = page_piece_bounds[OF assms(3,2), folded b_def]
  have p: "?p = ?q * page_bytes" by (simp add: ROUND_PAGE_def add_mult_distrib)
  have r: "ROUND_PAGE (nat (b k)) = ?p" unfolding p
    by (rule ROUND_PAGE_in) (use pb p in \<open>auto simp: page_bytes_def\<close>)
  obtain y where y: "nat (b (Suc k)) = Suc y" using pb(1,2) of_nat_0_le_iff[of ?p, where 'a = int] by (cases "nat (b (Suc k))") linarith+
  have "ROUND_PAGE y = ?p" unfolding p
    by (rule ROUND_PAGE_in) (use pb p y in \<open>auto simp: page_bytes_def\<close>)
  moreover have "nat (b k) + nat (b (Suc k) - b k) = Suc y"
    using y pb(1,2) of_nat_0_le_iff[of ?p, where 'a = int] by linarith
  ultimately have e: "next_page_off (nat (b k) + nat (b (Suc k) - b k)) = ?p + page_bytes"
    using next_page_off_Suc[of y] by simp
  have c: "k < ea_capacity (oir_status oir)" using assms(1,2) by (auto simp: oir_wf_def)
  have get: "oir_get_page_status (oir\<lparr>oir_completed_size := v\<rparr>) ?p = Inr (oir_sts oir ! k)" for v
    using page_index_at[of "oir\<lparr>oir_completed_size := v\<rparr>" k] c by (simp add: oir_get_page_status_def ea_get_Inr)
  have sz: "int (nat (b (Suc k) - b k)) = get_overlap_size oir ?p" using overlap_border[OF assms(1,2)] pb b_def by simp
  obtain oir' where set: "oir_set_page_status oir ?p (ps_completed_update (\<lambda>_. True)) = Inr oir'"
    "oir_off oir' = oir_off oir" "oir_size oir' = oir_size oir" "oir_completed_size oir' = oir_completed_size oir"
    using set_page_status_spec[OF assms(1,2)] by metis
  have sz': "get_overlap_size oir' ?p = get_overlap_size oir ?p" using set(2,3) by (simp add: get_overlap_size_def)
  have pos: "0 < page_bytes" by (simp add: page_bytes_def)
  show ?thesis unfolding oir_complete_range_def r e sz Let_def mark_range.simps[of _ ?p]
    using set pos assms(4) sz'
    by (simp add: get set_status_completed_size mark_range.simps[of _ "?p + page_bytes"] oir_complete_page_def Let_def)
qed

lemma complete_range_step:
  assumes "oir_at oir K" "k \<in> K"
  defines "b \<equiv> border (oir_off oir) (oir_size oir)"
  obtains oir' where "oir_complete_range oir (nat (b k)) (nat (b (Suc k) - b k)) = Inr (K = {k}, oir')"
    "oir_at oir' (K - {k})" "oir_off oir' = oir_off oir" "oir_size oir' = oir_size oir"
proof -
  have l: "oir_left oir K" "0 < oir_size oir" "\<forall>j\<in>K. \<not> ps_completed (oir_sts oir ! j)" using assms(1) by (auto simp: oir_at_def)
  then have w: "oir_wf oir" "k < oir_pages oir" using assms(2) by (auto simp: oir_left_def)
  obtain oir' where o: "oir_complete_page oir (oir_page_off oir k) = Inr (oir_completed_size oir' = int (oir_size oir), oir')"
    "oir_left oir' (K - {k})" "oir_off oir' = oir_off oir" "oir_size oir' = oir_size oir"
    by (rule complete_page_step[OF l(1) assms(2)])
  have eq: "oir_complete_range oir (nat (b k)) (nat (b (Suc k) - b k)) = oir_complete_page oir (oir_page_off oir k)"
    unfolding b_def using l(3) assms(2) by (intro complete_range_is_page[OF w l(2)]) simp
  have fin: "oir_completed_size oir' = int (oir_size oir) \<longleftrightarrow> K = {k}"
  proof (cases "K - {k} = {}")
    case True
    then have "oir_completed_size oir' = int (oir_size oir)" using o(2,4) unfolding oir_left_def True by simp
    then show ?thesis using True assms(2) by auto
  next
    case False
    have "oir_completed_size oir' \<noteq> int (oir_size oir)"
      using oir_left_sum_pos[OF o(2) _ False] o(2,4) l(2) unfolding oir_left_def by simp
    then show ?thesis using False by auto
  qed
  obtain oir2 where s: "oir_set_page_status oir (oir_page_off oir k) (ps_completed_update (\<lambda>_. True)) = Inr oir2"
    "oir_sts oir2 = (oir_sts oir)[k := ps_completed_update (\<lambda>_. True) (oir_sts oir ! k)]"
    using set_page_status_spec[OF w, of "ps_completed_update (\<lambda>_. True)"] by blast
  have "oir' = oir2\<lparr>oir_completed_size := int64 (oir_completed_size oir2 + get_overlap_size oir2 (oir_page_off oir k))\<rparr>"
    using o(1) s(1) by (simp add: oir_complete_page_def Let_def)
  then have "oir_sts oir' = oir_sts oir2" by simp
  then have "oir_at oir' (K - {k})" using o(2,4) l(2,3) s(2) by (simp add: oir_at_def)
  then show thesis using o(1) unfolding fin eq[symmetric] by (rule that[OF _ _ o(3,4), rotated])
qed

section \<open>Completing a page\<close>

definition file_page :: "(int \<Rightarrow> byte) \<Rightarrow> int \<Rightarrow> byte list" where
  "file_page content off = map (\<lambda>j. content (off + int j)) [0..<4096]"

text \<open>The user's memory once the pages outside \<open>K\<close> have been delivered to the buffer.\<close>

definition filled :: "io_request \<Rightarrow> nat \<Rightarrow> (int \<Rightarrow> byte) \<Rightarrow> nat set \<Rightarrow> (nat \<Rightarrow> byte) \<Rightarrow> nat \<Rightarrow> byte" where
  "filled req buf content K mem = (\<lambda>a.
     let x = ior_offset req + (int a - int buf)
     in if \<exists>k<req_num_pages req. k \<notin> K \<and> pcut req k \<le> x \<and> x < pcut req (Suc k) then content x else mem a)"

text \<open>A request in progress on the instance \<open>this\<close> that still waits for the pages \<open>K\<close> and has come from the instance \<open>oio\<close>.\<close>

definition orig_at :: "io_request \<Rightarrow> nat \<Rightarrow> nat \<Rightarrow> nat set \<Rightarrow> orig_request \<Rightarrow> bool" where
  "orig_at req this oio K q \<longleftrightarrow> or_req q = req\<lparr>ior_io := if K = {} then oio else this\<rparr> \<and> or_orig_io q = oio
     \<and> oir_at (or_oir q) K \<and> oir_off (or_oir q) = nat (ior_offset req) \<and> oir_size (or_oir q) = nat (ior_get_size req)
     \<and> or_next q = (\<lambda>_. 0)"

definition report :: "bool \<Rightarrow> nat \<Rightarrow> nat set \<Rightarrow> cached_io \<Rightarrow> cached_io" where
  "report sync r K io = (if K \<noteq> {} then io
     else if sync then gc_woken_update (\<lambda>q. q @ [r]) io else gc_complete_queue_update (\<lambda>q. q @ [r]) io)"

lemma piece_unique_req:
  assumes "basic_req buf req" "k < req_num_pages req" "j < req_num_pages req" "pcut req k \<le> x" "x < pcut req (Suc k)"
    "pcut req j \<le> x" "x < pcut req (Suc j)"
  shows "j = k"
proof -
  note k = cut_bounds_req(1,3)[OF assms(1,2)] and j = cut_bounds_req(1,3)[OF assms(1,3)]
  have "piece_page req j < piece_page req k + 4096" "piece_page req k < piece_page req j + 4096" using k j assms(4-7) by linarith+
  then show ?thesis by (simp add: piece_page_def page_bytes_def)
qed

lemmas piece_unique = piece_unique_req[OF basic_read_req]

lemma copy_piece:
  assumes "basic_read buf req" "k \<in> K" "K \<subseteq> {..<req_num_pages req}"
  shows "copy_to_mem (file_page content (piece_page req k)) (nat (pcut req k - piece_page req k))
      (buf + nat (pcut req k - ior_offset req)) (nat (pcut req (Suc k) - pcut req k)) (filled req buf content K mem)
    = filled req buf content (K - {k}) mem"
proof
  fix a
  have k: "k < req_num_pages req" using assms(2,3) by auto
  note c = cut_bounds[OF assms(1) k]
  let ?x = "ior_offset req + (int a - int buf)" let ?b = "buf + nat (pcut req k - ior_offset req)"
  have in_piece: "?b \<le> a \<and> a < ?b + nat (pcut req (Suc k) - pcut req k) \<longleftrightarrow> pcut req k \<le> ?x \<and> ?x < pcut req (Suc k)"
    using c(2,4) by linarith
  show "copy_to_mem (file_page content (piece_page req k)) (nat (pcut req k - piece_page req k)) ?b
      (nat (pcut req (Suc k) - pcut req k)) (filled req buf content K mem) a = filled req buf content (K - {k}) mem a"
  proof (cases "pcut req k \<le> ?x \<and> ?x < pcut req (Suc k)")
    case True
    let ?i = "nat (pcut req k - piece_page req k) + (a - ?b)"
    have "int ?i = ?x - piece_page req k" using True in_piece c(1,4) by linarith
    moreover have "?i < 4096" using calculation True c(3) by linarith
    ultimately have "file_page content (piece_page req k) ! ?i = content ?x" by (simp add: file_page_def)
    then have "copy_to_mem (file_page content (piece_page req k)) (nat (pcut req k - piece_page req k)) ?b
        (nat (pcut req (Suc k) - pcut req k)) (filled req buf content K mem) a = content ?x"
      using True in_piece by (simp add: copy_to_mem_def)
    moreover have "filled req buf content (K - {k}) mem a = content ?x" using True k unfolding filled_def Let_def by auto
    ultimately show ?thesis by simp
  next
    case False
    then have "(\<exists>j<req_num_pages req. j \<notin> K - {k} \<and> pcut req j \<le> ?x \<and> ?x < pcut req (Suc j))
        \<longleftrightarrow> (\<exists>j<req_num_pages req. j \<notin> K \<and> pcut req j \<le> ?x \<and> ?x < pcut req (Suc j))" by auto
    moreover have "\<not> (?b \<le> a \<and> a < ?b + nat (pcut req (Suc k) - pcut req k))" using False in_piece by blast
    ultimately show ?thesis by (auto simp: copy_to_mem_def filled_def Let_def)
  qed
qed

lemma window_piece_req:
  assumes "basic_req buf req" "k < req_num_pages req"
  shows "req_window (req\<lparr>ior_io := x\<rparr>) buf (piece_page req k) = Inr (pcut req k - piece_page req k,
    buf + nat (pcut req k - ior_offset req), pcut req (Suc k) - pcut req k)"
proof (cases "ior_within_1page req")
  case True
  then have "req_num_pages req = 1" using one_page_iff_req[OF assms(1)] by simp
  then have k: "k = 0" using assms(2) by simp
  have o: "int (nat (ior_offset req)) = ior_offset req" "int (nat (ior_get_size req)) = ior_get_size req"
    using assms(1) by (auto simp: basic_defs)
  have "round_page (ior_offset req) = piece_page req 0" using round_page_int[of "nat (ior_offset req)"] o(1)
    by (simp add: piece_page_def)
  moreover have "ROUND_PAGE (nat (ior_offset req)) \<le> nat (ior_offset req)" by (simp add: ROUND_PAGE_def)
  then have "piece_page req 0 \<le> ior_offset req" using o(1) unfolding piece_page_def by linarith
  moreover have "ior_offset req + ior_get_size req \<le> piece_page req 0 + 4096"
    using True calculation(1) by (simp add: ior_within_1page_def)
  ultimately have "pcut req 0 = ior_offset req" "pcut req (Suc 0) = ior_offset req + ior_get_size req"
    "round_page (ior_offset req) = piece_page req 0"
    using cut_bounds_req(6,7)[OF assms(1), of 0] assms(2) k by auto
  then show ?thesis using True k by (simp add: req_window_def)
next
  case False
  obtain y where y: "ior_extract (req\<lparr>ior_io := x\<rparr>) (piece_page req k) 4096 = Inr y" "ior_offset y = pcut req k"
    "ior_get_size y = pcut req (Suc k) - pcut req k" "ior_payload y = BASIC_REQ (buf + nat (pcut req k - ior_offset req))"
    using extract_piece_req[of buf "req\<lparr>ior_io := x\<rparr>" k] assms by auto
  note c = cut_bounds_req[OF assms]
  have "round_page (pcut req k) = piece_page req k" using c by (intro round_in_page) linarith+
  then show ?thesis using False y by (simp add: req_window_def)
qed

lemmas window_piece = window_piece_req[OF basic_read_req]

lemma finalize_piece_req:
  assumes "basic_req buf req" "orig_at req this oio K (g_orig s r)" "k \<in> K" "ior_sync req \<longrightarrow> oio = this"
  obtains q where "orig_at req this oio (K - {k}) q"
    "finalize_range this (pcut req k) (pcut req (Suc k) - pcut req k) r s
      = Inr (s\<lparr>g_orig := (g_orig s)(r := q), g_io := (g_io s)(this := report (ior_sync req) r (K - {k}) (g_io s this))\<rparr>)"
proof -
  let ?o = "g_orig s r" and ?oir = "or_oir (g_orig s r)"
  have o: "or_req ?o = req\<lparr>ior_io := this\<rparr>" "or_orig_io ?o = oio" "oir_at ?oir K" "oir_off ?oir = nat (ior_offset req)"
    "oir_size ?oir = nat (ior_get_size req)" "or_next ?o = (\<lambda>_. 0)" using assms(2,3) by (auto simp: orig_at_def)
  obtain oir' where c: "oir_complete_range ?oir (nat (pcut req k)) (nat (pcut req (Suc k) - pcut req k)) = Inr (K = {k}, oir')"
    "oir_at oir' (K - {k})" "oir_off oir' = oir_off ?oir" "oir_size oir' = oir_size ?oir"
    using complete_range_step[OF o(3) assms(3)] unfolding o(4,5) pcut_def by blast
  show thesis
  proof (cases "K = {k}")
    case False
    then have ne: "K - {k} \<noteq> {}" using assms(3) by auto
    then have "orig_at req this oio (K - {k}) (?o\<lparr>or_oir := oir'\<rparr>)" using o c by (auto simp: orig_at_def)
    moreover have "finalize_range this (pcut req k) (pcut req (Suc k) - pcut req k) r s
      = Inr (s\<lparr>g_orig := (g_orig s)(r := ?o\<lparr>or_oir := oir'\<rparr>), g_io := (g_io s)(this := report (ior_sync req) r (K - {k}) (g_io s this))\<rparr>)"
      using c(1) False ne by (simp add: finalize_range_def upd_orig_def report_def)
    ultimately show thesis by (rule that)
  next
    case True
    let ?q = "?o\<lparr>or_oir := oir', or_req := req\<lparr>ior_io := oio\<rparr>\<rparr>"
    have fini: "oir_is_complete oir'" using c(2) True unfolding oir_at_def oir_left_def oir_is_complete_def by simp
    have "orig_at req this oio (K - {k}) ?q" using o c True by (auto simp: orig_at_def)
    moreover have "finalize_range this (pcut req k) (pcut req (Suc k) - pcut req k) r s
      = Inr (s\<lparr>g_orig := (g_orig s)(r := ?q), g_io := (g_io s)(this := report (ior_sync req) r (K - {k}) (g_io s this))\<rparr>)"
      using c(1) True o(1,2) fini assms(1,4)
      by (auto simp: finalize_range_def upd_orig_def upd_io_def report_def basic_defs Let_def)
    ultimately show thesis by (rule that)
  qed
qed

lemmas finalize_piece = finalize_piece_req[OF basic_read_req]

lemma finalize_page_piece:
  assumes "basic_req buf req" "k < req_num_pages req" "or_req (g_orig s r) = req\<lparr>ior_io := io\<rparr>"
    "get_offset (g_page s p) = piece_page req k"
  shows "finalize_page this p r s = finalize_range this (pcut req k) (pcut req (Suc k) - pcut req k) r s"
proof (cases "ior_within_1page req")
  case True
  have "req_window (req\<lparr>ior_io := io\<rparr>) buf (piece_page req k) = Inr (ior_offset req - round_page (ior_offset req), buf, ior_get_size req)"
    using True by (simp add: req_window_def)
  then have "pcut req k = ior_offset req" "pcut req (Suc k) - pcut req k = ior_get_size req"
    using window_piece_req[OF assms(1,2), of io] cut_bounds_req(1,4)[OF assms(1,2)] by auto
  then show ?thesis using True by (simp add: finalize_page_def assms(3) Let_def)
next
  case False
  obtain y where "ior_extract (req\<lparr>ior_io := io\<rparr>) (piece_page req k) 4096 = Inr y" "ior_offset y = pcut req k"
    "ior_get_size y = pcut req (Suc k) - pcut req k"
    using extract_piece_req[of buf "req\<lparr>ior_io := io\<rparr>" k] assms(1,2) by auto
  then show ?thesis using False assms(4) by (simp add: finalize_page_def assms(3) Let_def)
qed

text \<open>\<open>gc_complete_req\<close> and \<open>finalize_partial_request\<close> on a page that holds the contents of the file.\<close>

lemma complete_on_page:
  assumes "basic_read buf req" "orig_at req this oio K (g_orig s r)" "k \<in> K" "K \<subseteq> {..<req_num_pages req}"
    "ior_sync req \<longrightarrow> oio = this" "get_offset (g_page s p) = piece_page req k"
    "g_data s p = file_page content (piece_page req k)" "g_mem s = filled req buf content K mem"
  defines "s1 \<equiv> s\<lparr>g_mem := filled req buf content (K - {k}) mem\<rparr>"
  obtains q where "gc_complete_req p r s = Inr (0, s1)" "orig_at req this oio (K - {k}) q"
    "finalize_range this (pcut req k) (pcut req (Suc k) - pcut req k) r s1
      = Inr (s1\<lparr>g_orig := (g_orig s)(r := q), g_io := (g_io s)(this := report (ior_sync req) r (K - {k}) (g_io s this))\<rparr>)"
    "finalize_page this p r s1
      = Inr (s1\<lparr>g_orig := (g_orig s)(r := q), g_io := (g_io s)(this := report (ior_sync req) r (K - {k}) (g_io s this))\<rparr>)"
proof -
  have k: "k < req_num_pages req" using assms(3,4) by auto
  note c = cut_bounds[OF assms(1) k]
  have ne: "K \<noteq> {}" using assms(3) by auto
  have o: "or_req (g_orig s r) = req\<lparr>ior_io := this\<rparr>" using assms(2) ne by (simp add: orig_at_def)
  have b: "ior_payload req = BASIC_REQ buf" "ior_access_method req = READ" using assms(1) by (simp_all add: basic_defs)
  have len: "length (file_page content (piece_page req k)) = 4096" by (simp add: file_page_def)
  have compl: "gc_complete_req p r s = Inr (0, s1)"
    unfolding gc_complete_req_def o Let_def assms(6,7)
    using b c len window_piece[OF assms(1) k, of this] assms(8) copy_piece[OF assms(1,3,4), of content mem]
    by (auto simp: s1_def)
  have s1: "g_orig s1 = g_orig s" "g_io s1 = g_io s" "g_page s1 = g_page s" by (simp_all add: s1_def)
  obtain q where q: "orig_at req this oio (K - {k}) q"
    "finalize_range this (pcut req k) (pcut req (Suc k) - pcut req k) r s1
      = Inr (s1\<lparr>g_orig := (g_orig s)(r := q), g_io := (g_io s)(this := report (ior_sync req) r (K - {k}) (g_io s this))\<rparr>)"
    using finalize_piece[OF assms(1) _ assms(3,5), of s1 r] assms(2) unfolding s1 by blast
  have "finalize_page this p r s1 = finalize_range this (pcut req k) (pcut req (Suc k) - pcut req k) r s1"
    using assms(6) by (intro finalize_page_piece[OF basic_read_req[OF assms(1)] k]) (simp_all add: s1 o)
  then show thesis using that compl q by simp
qed

end
