(* ===== verification/Cached_Read.thy ===== *)
theory Cached_Read
  imports Cached_IO_Laws
begin

text \<open>
  Reading: \<^verbatim>\<open>global_cached_io::read\<close> completes the pages that have their data at once, queues the request on the others and
  asks the disks for the runs of consecutive pages that nobody has asked for yet.
\<close>

section \<open>The instance\<close>

definition io_core :: "cached_io \<Rightarrow> nat list \<times> (nat \<times> nat) list \<times> nat list" where
  "io_core io = (gc_complete_queue io, gc_pending_requests io, gc_woken io)"

definition io_out :: "gparams \<Rightarrow> cached_io \<Rightarrow> io_request list \<times> io_request list" where
  "io_out prm io = (if gp_merge_reqs prm then (gc_underlying_requests io, gc_sent io) else (gc_sent io, gc_underlying_requests io))"

definition rep_core :: "bool \<Rightarrow> nat \<Rightarrow> nat set \<Rightarrow> nat list \<times> (nat \<times> nat) list \<times> nat list \<Rightarrow> nat list \<times> (nat \<times> nat) list \<times> nat list" where
  "rep_core sync r K c = (case c of (cq, pq, w) \<Rightarrow>
     if K \<noteq> {} then c else if sync then (cq, pq, w @ [r]) else (cq @ [r], pq, w))"

lemma report_core [simp]: "io_core (report sync r K io) = rep_core sync r K (io_core io)"
  by (simp add: io_core_def report_def rep_core_def)

lemma rep_core_waiting: "k \<in> K \<Longrightarrow> rep_core sync r K c = c"
  by (cases c) (auto simp: rep_core_def)

lemma report_out [simp]: "io_out prm (report sync r K io) = io_out prm io"
  by (simp add: io_out_def report_def)

definition send_io :: "gparams \<Rightarrow> io_request \<Rightarrow> cached_io \<Rightarrow> cached_io" where
  "send_io prm req io = (if gp_merge_reqs prm then gc_underlying_requests_update (\<lambda>q. q @ [req]) io
     else gc_sent_update (\<lambda>q. q @ [req]) (io\<lparr>gc_num_to_underlying := gc_num_to_underlying io + 1,
       gc_num_underlying_pages := gc_num_underlying_pages io + of_nat (ior_get_num_bufs req)\<rparr>))"

lemma send_io_core [simp]: "io_core (send_io prm req io) = io_core io"
  by (simp add: send_io_def io_core_def)

lemma send_io_out [simp]: "io_out prm (send_io prm req io) = (fst (io_out prm io) @ [req], snd (io_out prm io))"
  by (simp add: send_io_def io_out_def)

lemma send2underlying_ok: "\<forall>x. \<not> gp_fails prm x \<Longrightarrow> send2underlying prm this req s = Inr (upd_io this (send_io prm req) s)"
  by (simp add: send2underlying_def underlying_access_def send_io_def upd_io_def)

section \<open>The request being collected\<close>

definition priv_ok :: "io_request \<Rightarrow> bool" where
  "priv_ok m \<longleftrightarrow> (\<forall>p. map ib_p (req_bufs m) = [p] \<longrightarrow> (case ior_payload m of EXT_REQ e \<Rightarrow> ext_priv e = p | _ \<Rightarrow> False))"

definition mb_at :: "(nat \<Rightarrow> int) \<Rightarrow> int \<Rightarrow> int \<Rightarrow> io_request \<Rightarrow> bool" where
  "mb_at poff f off m \<longleftrightarrow> ext_req_wf m \<and> ior_access_method m = READ \<and> priv_ok m
     \<and> (req_bufs m \<noteq> [] \<longrightarrow> page_req poff m \<and> ior_file_id m = f \<and> ior_offset m + 4096 * int (length (req_bufs m)) = off)"

lemma new_multibuf_spec:
  assumes "gp_node_id prm \<le> MAX_NODE_ID"
  obtains m where "new_multibuf prm this READ = Inr m" "req_bufs m = []" "\<forall>poff f off. mb_at poff f off m"
proof -
  let ?m = "(new_io_request False)\<lparr>ior_payload := EXT_REQ new_io_req_extension, ior_file_id := - 1, ior_offset := - 1,
    ior_io := this, ior_access_method := READ, ior_node_id := gp_node_id prm\<rparr>"
  have "new_multibuf prm this READ = Inr ?m"
    using assms by (simp add: new_multibuf_def new_ext_request_def ior_init_def invalid_data_loc_def new_io_request_def)
  moreover have "req_bufs ?m = []" "ext_req_wf ?m" using new_ext_wf by (simp_all add: req_bufs_def ext_req_wf_def)
  ultimately show thesis by (intro that[of ?m]) (simp_all add: mb_at_def priv_ok_def)
qed

lemma page_request_parts:
  assumes "ext_req_wf m" "length (req_bufs m) < 8192"
  obtains m' where "bind_res (ior_add_page p m) (ior_set_priv p) = Inr m'" "ext_req_wf m'" "req_bufs m' = req_bufs m @ [page_buf p]"
    "ior_access_method m' = ior_access_method m" "ior_offset m' = ior_offset m" "ior_file_id m' = ior_file_id m"
    "ior_io m' = ior_io m" "\<exists>e. ior_payload m' = EXT_REQ e \<and> ext_priv e = p"
proof -
  obtain e where e: "ior_payload m = EXT_REQ e" "ext_wf e" "req_bufs m = ext_bufs e"
    using assms(1) by (auto simp: ext_req_wf_def req_bufs_def split: payload.splits)
  obtain e1 where e1: "ext_add_io_buf e (page_buf p) = Inr e1" "ext_wf e1" "ext_bufs e1 = ext_bufs e @ [page_buf p]"
    using ext.push_spec[OF e(2), of "page_buf p"] assms(2) e(3) by (auto simp: buf_ok_def page_buf_def)
  have "ior_add_page p m = Inr (m\<lparr>ior_payload := EXT_REQ e1\<rparr>)" using e1(1)
    by (simp add: ior_add_page_def ior_map_ext_EXT[OF e(1)] ext_add_buf_def io_buf_init_def page_buf_def)
  then have "bind_res (ior_add_page p m) (ior_set_priv p) = Inr (m\<lparr>ior_payload := EXT_REQ (e1\<lparr>ext_priv := p\<rparr>)\<rparr>)"
    by (simp add: ior_set_priv_def ior_map_ext_def ior_extension_def)
  then show thesis using that e e1 by (simp add: ext_req_wf_def req_bufs_def ext_wf_def ext_bufs_def)
qed

lemma multibuf_add_spec:
  assumes "mb_at poff f off m" "length (req_bufs m) < 8192" "page_loc pg = \<lparr>loc_file_id = f, loc_off = off\<rparr>" "poff p = off"
  obtains m' where "multibuf_add p pg m = Inr m'" "mb_at poff f (off + 4096) m'" "req_bufs m' = req_bufs m @ [page_buf p]"
proof -
  let ?m = "if req_bufs m = [] then ior_set_data_loc (page_loc pg) m else m"
  have w: "ext_req_wf ?m" "req_bufs ?m = req_bufs m" "ior_access_method ?m = READ" using assms(1)
    by (auto simp: mb_at_def ior_set_data_loc_def ext_req_wf_def req_bufs_def)
  have o: "ior_offset ?m + 4096 * int (length (req_bufs m)) = off" "ior_file_id ?m = f"
    using assms(1,3) by (auto simp: mb_at_def ior_set_data_loc_def)
  obtain m' where m': "bind_res (ior_add_page p ?m) (ior_set_priv p) = Inr m'" "ext_req_wf m'"
    "req_bufs m' = req_bufs ?m @ [page_buf p]" "ior_access_method m' = ior_access_method ?m" "ior_offset m' = ior_offset ?m"
    "ior_file_id m' = ior_file_id ?m" "\<exists>e. ior_payload m' = EXT_REQ e \<and> ext_priv e = p"
    using page_request_parts[of ?m p] w assms(2) by metis
  have "pages_from poff (ior_offset ?m) (req_bufs m)" using assms(1) by (cases "req_bufs m = []") (auto simp: mb_at_def page_req_def)
  then have "page_req poff m'" using m'(2,3,5) w(2) o(1) assms(4)
    by (auto simp: page_req_def pages_from_append page_buf_def)
  moreover have "priv_ok m'" using m'(3,7) by (auto simp: priv_ok_def page_buf_def)
  ultimately have "mb_at poff f (off + 4096) m'" using m' w o by (auto simp: mb_at_def)
  moreover have "multibuf_add p pg m = Inr m'" using m'(1) assms(1)
    by (simp add: multibuf_add_def num_bufs_req_bufs mb_at_def cong: if_cong)
  ultimately show thesis using that m'(3) w(2) by simp
qed

section \<open>Waiting on a page\<close>

lemma orig_index:
  assumes "orig_at req this oio K q" "k < req_num_pages req"
  shows "or_page_index q (piece_page req k) = Inr k"
proof -
  have o: "oir_off (or_oir q) = nat (ior_offset req)" "oir_size (or_oir q) = nat (ior_get_size req)" "oir_wf (or_oir q)"
    using assms(1) by (auto simp: orig_at_def oir_at_def oir_left_def)
  then have "k < ea_capacity (oir_status (or_oir q))" using assms(2) by (simp add: oir_wf_def req_num_pages_def)
  moreover have "oir_page_index (or_oir q) (nat (piece_page req k)) = Inr k"
    using page_index_at[of "or_oir q" k] o(1) by (simp add: piece_page_def nat_add_distrib nat_mult_distrib)
  moreover have "\<not> piece_page req k < 0" by (simp only: piece_page_def of_nat_less_0_iff not_False_eq_True)
  ultimately show ?thesis by (simp add: or_page_index_def)
qed

lemma next_null:
  assumes "orig_at req this oio K (g_orig s r)" "k < req_num_pages req" "get_offset (g_page s p) = piece_page req k"
  shows "get_next_req_on_page p r s = Inr 0" "set_next_req_on_page p r 0 s = Inr s"
    "g_reqs s p = 0 \<Longrightarrow> page_add_req p r s = Inr (s\<lparr>g_reqs := (g_reqs s)(p := r)\<rparr>)"
proof -
  have n: "or_next (g_orig s r) = (\<lambda>_. 0)" using assms(1) by (simp add: orig_at_def)
  then have "or_next_update (\<lambda>f. f(k := 0)) (g_orig s r) = g_orig s r" by (cases "g_orig s r") (simp add: fun_upd_idem)
  then have u: "upd_orig r (or_next_update (\<lambda>f. f(k := 0))) s = s" by (simp add: upd_orig_def)
  show "get_next_req_on_page p r s = Inr 0" using n by (simp add: get_next_req_on_page_def assms(3) orig_index[OF assms(1,2)])
  show set: "set_next_req_on_page p r 0 s = Inr s" using u by (simp add: set_next_req_on_page_def assms(3) orig_index[OF assms(1,2)])
  show "g_reqs s p = 0 \<Longrightarrow> page_add_req p r s = Inr (s\<lparr>g_reqs := (g_reqs s)(p := r)\<rparr>)" using set by (simp add: page_add_req_def)
qed

section \<open>The loop\<close>

abbreviation cold :: "gstate \<Rightarrow> nat \<Rightarrow> bool" where
  "cold s q \<equiv> \<not> data_ready (g_page s q)"

definition missing :: "gstate \<Rightarrow> nat list \<Rightarrow> nat \<Rightarrow> nat set" where
  "missing s0 ps j = {k. k < length ps \<and> (j \<le> k \<or> cold s0 (ps ! k))}"

definition page_after :: "gstate \<Rightarrow> nat set \<Rightarrow> nat \<Rightarrow> page" where
  "page_after s0 P q = (if q \<notin> P then g_page s0 q
     else if cold s0 q then set_io_pending True (g_page s0 q) else dec_ref (g_page s0 q))"

text \<open>The situation before the call: every page of the request is in the cache and either holds the contents of the file
  or has not been asked for.\<close>

definition page_state :: "io_request \<Rightarrow> (int \<Rightarrow> byte) \<Rightarrow> gstate \<Rightarrow> nat \<Rightarrow> nat \<Rightarrow> bool" where
  "page_state req content s p k \<longleftrightarrow> page_loc (g_page s p) = \<lparr>loc_file_id = ior_file_id req, loc_off = piece_page req k\<rparr>
     \<and> (if data_ready (g_page s p) then g_data s p = file_page content (piece_page req k)
        else \<not> is_io_pending (g_page s p) \<and> \<not> is_dirty (g_page s p) \<and> \<not> is_old_dirty (g_page s p) \<and> g_reqs s p = 0)"

definition read_setup :: "gparams \<Rightarrow> nat \<Rightarrow> nat \<Rightarrow> nat \<Rightarrow> io_request \<Rightarrow> nat \<Rightarrow> (int \<Rightarrow> byte) \<Rightarrow> nat list \<Rightarrow> gstate \<Rightarrow> bool" where
  "read_setup prm this oio r req buf content ps s \<longleftrightarrow>
     basic_read buf req \<and> (ior_sync req \<longrightarrow> oio = this) \<and> r \<noteq> 0 \<and> orig_at req this oio {..<req_num_pages req} (g_orig s r)
     \<and> length ps = req_num_pages req \<and> distinct ps \<and> 0 \<notin> set ps \<and> (\<forall>k<length ps. page_state req content s (ps ! k) k)
     \<and> gp_node_id prm \<le> MAX_NODE_ID \<and> (\<forall>x. \<not> gp_fails prm x) \<and> length ps \<le> 4096 \<and> int (length ps) \<le> gp_block_size prm"

definition read_mid :: "nat \<Rightarrow> nat \<Rightarrow> nat \<Rightarrow> io_request \<Rightarrow> nat \<Rightarrow> (int \<Rightarrow> byte) \<Rightarrow> nat list \<Rightarrow> gstate \<Rightarrow> nat \<Rightarrow> gstate \<Rightarrow> bool" where
  "read_mid this oio r req buf content ps s0 j s \<longleftrightarrow>
     g_page s = page_after s0 (set (take j ps)) \<and> g_data s = g_data s0
     \<and> g_reqs s = (\<lambda>q. if q \<in> set (take j ps) \<and> cold s0 q then r else g_reqs s0 q)
     \<and> orig_at req this oio (missing s0 ps j) (g_orig s r) \<and> (\<forall>q. q \<noteq> r \<longrightarrow> g_orig s q = g_orig s0 q)
     \<and> g_mem s = filled req buf content (missing s0 ps j) (g_mem s0) \<and> (\<forall>x. x \<noteq> this \<longrightarrow> g_io s x = g_io s0 x)
     \<and> io_core (g_io s this) = rep_core (ior_sync req) r (missing s0 ps j) (io_core (g_io s0 this))"

definition sent_ok :: "(nat \<Rightarrow> int) \<Rightarrow> int \<Rightarrow> io_request \<Rightarrow> bool" where
  "sent_ok poff f x \<longleftrightarrow> page_req poff x \<and> ior_file_id x = f \<and> ior_access_method x = READ \<and> priv_ok x"

definition ptrs :: "io_request list \<Rightarrow> nat list" where
  "ptrs xs = map ib_p (concat (map req_bufs xs))"

lemma ptrs_simps [simp]: "ptrs [] = []" "ptrs (xs @ ys) = ptrs xs @ ptrs ys" "ptrs [x] = map ib_p (req_bufs x)"
  by (simp_all add: ptrs_def)

lemma missing_step:
  assumes "j < length ps"
  shows "missing s0 ps (Suc j) = (if cold s0 (ps ! j) then missing s0 ps j else missing s0 ps j - {j})" "j \<in> missing s0 ps j"
  using assms by (auto simp: missing_def le_Suc_eq Suc_le_eq not_less_eq_eq)

lemma read_mid_cold:
  assumes "read_mid this oio r req buf content ps s0 j s" "j < length ps" "cold s0 (ps ! j)" "distinct ps"
  shows "read_mid this oio r req buf content ps s0 (Suc j)
    (upd_gpage (ps ! j) (set_io_pending True) (s\<lparr>g_reqs := (g_reqs s)(ps ! j := r)\<rparr>))"
proof -
  have p: "ps ! j \<notin> set (take j ps)" using assms(2,4) by (auto simp: in_set_conv_nth nth_eq_iff_index_eq)
  have t: "set (take (Suc j) ps) = insert (ps ! j) (set (take j ps))" using assms(2) by (simp add: take_Suc_conv_app_nth)
  show ?thesis using assms(1,3) p missing_step[OF assms(2)]
    unfolding read_mid_def t by (auto simp: upd_gpage_def upd_store_def page_after_def fun_eq_iff)
qed

lemma page_after_fresh: "q \<notin> P \<Longrightarrow> page_after s0 P q = g_page s0 q"
  by (simp add: page_after_def)

lemma read_mid_ready:
  assumes "read_setup prm this oio r req buf content ps s0" "read_mid this oio r req buf content ps s0 j s" "j < length ps"
    "\<not> cold s0 (ps ! j)"
  obtains s1 s2 x where "ior_extract (or_req (g_orig s r)) (get_offset (g_page s (ps ! j))) PAGE_SIZE = Inr x"
    "gc_complete_req (ps ! j) r s = Inr (0, s1)" "finalize_range this (ior_offset x) (ior_get_size x) r s1 = Inr s2"
    "read_mid this oio r req buf content ps s0 (Suc j) (upd_gpage (ps ! j) dec_ref s2)"
    "ior_get_size x = pcut req (Suc j) - pcut req j" "io_out prm (g_io (upd_gpage (ps ! j) dec_ref s2) this) = io_out prm (g_io s this)"
proof -
  let ?p = "ps ! j" and ?K = "missing s0 ps j"
  have su: "basic_read buf req" "ior_sync req \<longrightarrow> oio = this" "length ps = req_num_pages req" "distinct ps"
    "page_state req content s0 ?p j" using assms(1,3) by (auto simp: read_setup_def)
  have p: "?p \<notin> set (take j ps)" using assms(3) su(4) by (auto simp: in_set_conv_nth nth_eq_iff_index_eq)
  have t: "set (take (Suc j) ps) = insert ?p (set (take j ps))" using assms(3) by (simp add: take_Suc_conv_app_nth)
  have mid: "g_page s = page_after s0 (set (take j ps))" "g_data s = g_data s0" "orig_at req this oio ?K (g_orig s r)"
    "g_mem s = filled req buf content ?K (g_mem s0)" using assms(2) by (auto simp: read_mid_def)
  have pg: "g_page s ?p = g_page s0 ?p" using mid(1) p by (simp add: page_after_fresh)
  have loc: "get_offset (g_page s ?p) = piece_page req j" using su(5) pg by (auto simp: page_state_def page_loc_def)
  have dat: "g_data s ?p = file_page content (piece_page req j)" using su(5) assms(4) mid(2) by (simp add: page_state_def)
  have K: "?K \<subseteq> {..<req_num_pages req}" "j \<in> ?K" using su(3) missing_step(2)[OF assms(3)] by (auto simp: missing_def)
  have ne: "or_req (g_orig s r) = req\<lparr>ior_io := this\<rparr>" using mid(3) K(2) by (auto simp: orig_at_def)
  obtain x where x: "ior_extract (req\<lparr>ior_io := this\<rparr>) (piece_page req j) 4096 = Inr x" "ior_offset x = pcut req j"
    "ior_get_size x = pcut req (Suc j) - pcut req j"
    using extract_piece[of buf "req\<lparr>ior_io := this\<rparr>" j] su(1,3) assms(3) by auto
  obtain q where q: "gc_complete_req ?p r s = Inr (0, s\<lparr>g_mem := filled req buf content (?K - {j}) (g_mem s0)\<rparr>)"
    "orig_at req this oio (?K - {j}) q"
    "finalize_range this (pcut req j) (pcut req (Suc j) - pcut req j) r (s\<lparr>g_mem := filled req buf content (?K - {j}) (g_mem s0)\<rparr>)
      = Inr (s\<lparr>g_mem := filled req buf content (?K - {j}) (g_mem s0), g_orig := (g_orig s)(r := q),
           g_io := (g_io s)(this := report (ior_sync req) r (?K - {j}) (g_io s this))\<rparr>)"
    by (rule complete_on_page[OF su(1) mid(3) K(2,1) su(2) loc dat mid(4)])
  have core: "io_core (g_io s this) = io_core (g_io s0 this)" using assms(2) rep_core_waiting[OF K(2)] by (simp add: read_mid_def)
  have "read_mid this oio r req buf content ps s0 (Suc j) (upd_gpage ?p dec_ref
      (s\<lparr>g_mem := filled req buf content (?K - {j}) (g_mem s0), g_orig := (g_orig s)(r := q),
         g_io := (g_io s)(this := report (ior_sync req) r (?K - {j}) (g_io s this))\<rparr>))"
    using assms(2) q(2) p assms(4) core unfolding read_mid_def t missing_step(1)[OF assms(3)]
    by (auto simp: upd_gpage_def upd_store_def page_after_def fun_eq_iff)
  then show thesis using that[OF _ q(1)] x q(3) ne loc by (simp add: upd_gpage_def)
qed

lemma read_mid_send:
  "read_mid this oio r req buf content ps s0 j s \<Longrightarrow> read_mid this oio r req buf content ps s0 j (upd_io this (send_io prm x) s)"
  by (auto simp: read_mid_def upd_io_def)

lemma submit_spec:
  assumes "mb_at poff f off m" "gp_node_id prm \<le> MAX_NODE_ID" "\<forall>x. \<not> gp_fails prm x"
  obtains m' where "submit_multibuf prm this READ m s = Inr (m', if req_bufs m = [] then s else upd_io this (send_io prm m) s)"
    "req_bufs m' = []" "\<forall>off'. mb_at poff f off' m'"
proof (cases "req_bufs m = []")
  case True
  then have "submit_multibuf prm this READ m s = Inr (m, s)" using assms(1)
    by (simp add: submit_multibuf_def num_bufs_req_bufs mb_at_def)
  moreover have "\<forall>off'. mb_at poff f off' m" using assms(1) True by (simp add: mb_at_def)
  ultimately show thesis using that True by simp
next
  case False
  obtain m' where m': "new_multibuf prm this READ = Inr m'" "req_bufs m' = []" "\<forall>poff f off. mb_at poff f off m'"
    by (rule new_multibuf_spec[OF assms(2), of this])
  have "submit_multibuf prm this READ m s = Inr (m', upd_io this (send_io prm m) s)" using assms(1,3) False m'(1)
    by (simp add: submit_multibuf_def num_bufs_req_bufs mb_at_def send2underlying_ok)
  then show thesis using that m'(2,3) False by simp
qed

definition flush_bufs :: "io_request \<Rightarrow> io_request list" where
  "flush_bufs m = (if req_bufs m = [] then [] else [m])"

lemma piece_page_Suc: "piece_page req (Suc k) = piece_page req k + 4096"
  by (simp add: piece_page_def page_bytes_def)

text \<open>The loop collects the pages without data into runs, in order, and completes the others.\<close>

lemma read_loop_spec:
  assumes "read_setup prm this oio r req buf content ps s0"
  defines "poff \<equiv> (\<lambda>p. get_offset (g_page s0 p))" and "f \<equiv> ior_file_id req"
  shows "read_mid this oio r req buf content ps s0 j s \<Longrightarrow> j \<le> length ps \<Longrightarrow> mb_at poff f (piece_page req j) m
    \<Longrightarrow> \<forall>x\<in>set out. sent_ok poff f x \<Longrightarrow> ptrs (out @ [m]) = filter (cold s0) (take j ps)
    \<Longrightarrow> io_out prm (g_io s this) = (fst (io_out prm (g_io s0 this)) @ out, snd (io_out prm (g_io s0 this)))
    \<Longrightarrow> \<exists>s' out'. read_loop prm this READ r f (drop j ps) m ret s
          = Inr (ret + (\<Sum>k\<leftarrow>filter (\<lambda>k. \<not> cold s0 (ps ! k)) [j..<length ps]. pcut req (Suc k) - pcut req k), s')
        \<and> read_mid this oio r req buf content ps s0 (length ps) s' \<and> (\<forall>x\<in>set out'. sent_ok poff f x)
        \<and> ptrs out' = filter (cold s0) ps
        \<and> io_out prm (g_io s' this) = (fst (io_out prm (g_io s0 this)) @ out', snd (io_out prm (g_io s0 this)))"
proof (induction "length ps - j" arbitrary: j s m out ret)
  case 0
  have "\<forall>x. \<not> gp_fails prm x" using assms(1) by (simp add: read_setup_def)
  then have "read_loop prm this READ r f [] m ret s = Inr (ret, if req_bufs m = [] then s else upd_io this (send_io prm m) s)"
    using "0.prems"(3) by (simp add: mb_at_def num_bufs_req_bufs send2underlying_ok)
  moreover have "sent_ok poff f m" if "req_bufs m \<noteq> []" using that "0.prems"(3) by (simp add: mb_at_def sent_ok_def)
  ultimately show ?case using 0 read_mid_send[of this oio r req buf content ps s0 j s prm m]
    by (intro exI[of _ "if req_bufs m = [] then s else upd_io this (send_io prm m) s"] exI[of _ "out @ flush_bufs m"])
      (auto simp: flush_bufs_def upd_io_def)
next
  case (Suc n)
  have j: "j < length ps" using Suc.hyps(2) by simp
  let ?p = "ps ! j"
  have su: "distinct ps" "length ps = req_num_pages req" "page_state req content s0 ?p j" "length ps \<le> 4096"
    "gp_node_id prm \<le> MAX_NODE_ID" "\<forall>x. \<not> gp_fails prm x" using assms(1) j by (auto simp: read_setup_def)
  have p: "?p \<notin> set (take j ps)" using j su(1) by (auto simp: in_set_conv_nth nth_eq_iff_index_eq)
  have pg: "g_page s ?p = g_page s0 ?p" using Suc.prems(1) p by (simp add: read_mid_def page_after_fresh)
  have loc: "page_loc (g_page s0 ?p) = \<lparr>loc_file_id = f, loc_off = piece_page req j\<rparr>" using su(3) by (simp add: page_state_def f_def)
  then have off: "get_offset (g_page s ?p) = piece_page req j" "poff ?p = piece_page req j" "pg_file_id (g_page s ?p) = f"
    by (simp_all add: pg page_loc_def poff_def)
  have orig: "orig_at req this oio (missing s0 ps j) (g_orig s r)" using Suc.prems(1) by (simp add: read_mid_def)
  have dr: "drop j ps = ?p # drop (Suc j) ps" using j by (rule Cons_nth_drop_Suc[symmetric])
  have tk: "take (Suc j) ps = take j ps @ [?p]" using j by (rule take_Suc_conv_app_nth)
  have up: "[j..<length ps] = j # [Suc j..<length ps]" using j by (rule upt_conv_Cons)
  have n: "n = length ps - Suc j" using Suc.hyps(2) by simp
  show ?case
  proof (cases "cold s0 ?p")
    case True
    have q: "\<not> is_io_pending (g_page s ?p)" "\<not> is_dirty (g_page s ?p)" "g_reqs s ?p = 0" "cold s ?p"
      using su(3) True pg p Suc.prems(1) by (auto simp: page_state_def read_mid_def)
    have "length (req_bufs m) \<le> length (ptrs (out @ [m]))" by simp
    also have "\<dots> \<le> j" using length_filter_le[of "cold s0" "take j ps"] j unfolding Suc.prems(5) by simp
    finally have len: "length (req_bufs m) < 8192" using j su(4) by simp
    obtain m' where m': "multibuf_add ?p (g_page s0 ?p) m = Inr m'" "mb_at poff f (piece_page req j + 4096) m'"
      "req_bufs m' = req_bufs m @ [page_buf ?p]" by (rule multibuf_add_spec[OF Suc.prems(3) len loc off(2)])
    let ?s = "upd_gpage ?p (set_io_pending True) (s\<lparr>g_reqs := (g_reqs s)(?p := r)\<rparr>)"
    have step: "read_loop prm this READ r f (drop j ps) m ret s = read_loop prm this READ r f (drop (Suc j) ps) m' ret ?s"
      using q off(3) pg m'(1) next_null(3)[OF orig _ off(1)] j su(2) by (simp add: dr Let_def)
    have "\<exists>s' out'. read_loop prm this READ r f (drop (Suc j) ps) m' ret ?s
          = Inr (ret + (\<Sum>k\<leftarrow>filter (\<lambda>k. \<not> cold s0 (ps ! k)) [Suc j..<length ps]. pcut req (Suc k) - pcut req k), s')
        \<and> read_mid this oio r req buf content ps s0 (length ps) s' \<and> (\<forall>x\<in>set out'. sent_ok poff f x)
        \<and> ptrs out' = filter (cold s0) ps
        \<and> io_out prm (g_io s' this) = (fst (io_out prm (g_io s0 this)) @ out', snd (io_out prm (g_io s0 this)))"
      using Suc.prems m' j True read_mid_cold[OF Suc.prems(1) j True su(1)]
      by (intro Suc.hyps(1)[OF n, where out = out]) (auto simp: tk piece_page_Suc page_buf_def upd_gpage_def)
    then show ?thesis using step True by (simp add: up)
  next
    case False
    obtain m' where m': "submit_multibuf prm this READ m s = Inr (m', if req_bufs m = [] then s else upd_io this (send_io prm m) s)"
      "req_bufs m' = []" "\<forall>off'. mb_at poff f off' m'" by (rule submit_spec[OF Suc.prems(3) su(5,6)])
    let ?s = "if req_bufs m = [] then s else upd_io this (send_io prm m) s"
    have mid: "read_mid this oio r req buf content ps s0 j ?s" using Suc.prems(1) read_mid_send by simp
    have same: "g_page ?s = g_page s" "g_orig ?s = g_orig s" by (simp_all add: upd_io_def)
    obtain s1 s2 x where x: "ior_extract (or_req (g_orig ?s r)) (get_offset (g_page ?s ?p)) PAGE_SIZE = Inr x"
      "gc_complete_req ?p r ?s = Inr (0, s1)" "finalize_range this (ior_offset x) (ior_get_size x) r s1 = Inr s2"
      "read_mid this oio r req buf content ps s0 (Suc j) (upd_gpage ?p dec_ref s2)"
      "ior_get_size x = pcut req (Suc j) - pcut req j" "io_out prm (g_io (upd_gpage ?p dec_ref s2) this) = io_out prm (g_io ?s this)"
      by (rule read_mid_ready[OF assms(1) mid j False])
    have step: "read_loop prm this READ r f (drop j ps) m ret s
        = read_loop prm this READ r f (drop (Suc j) ps) m' (ret + (pcut req (Suc j) - pcut req j)) (upd_gpage ?p dec_ref s2)"
      using False off(3) pg m'(1) x same by (simp add: dr Let_def)
    have ok: "\<forall>y\<in>set (out @ flush_bufs m). sent_ok poff f y" using Suc.prems(3,4) by (auto simp: mb_at_def sent_ok_def flush_bufs_def)
    have "\<exists>s' out'. read_loop prm this READ r f (drop (Suc j) ps) m' (ret + (pcut req (Suc j) - pcut req j)) (upd_gpage ?p dec_ref s2)
          = Inr (ret + (pcut req (Suc j) - pcut req j)
              + (\<Sum>k\<leftarrow>filter (\<lambda>k. \<not> cold s0 (ps ! k)) [Suc j..<length ps]. pcut req (Suc k) - pcut req k), s')
        \<and> read_mid this oio r req buf content ps s0 (length ps) s' \<and> (\<forall>x\<in>set out'. sent_ok poff f x)
        \<and> ptrs out' = filter (cold s0) ps
        \<and> io_out prm (g_io s' this) = (fst (io_out prm (g_io s0 this)) @ out', snd (io_out prm (g_io s0 this)))"
      using Suc.prems(5,6) m'(2,3) j False x(4,6) ok
      by (intro Suc.hyps(1)[OF n, where out = "out @ flush_bufs m"]) (auto simp: tk flush_bufs_def upd_io_def)
    then show ?thesis using step False by (simp add: up add.assoc)
  qed
qed

section \<open>The call\<close>

lemma req_num_pages_pos_req:
  assumes "basic_req buf req"
  shows "0 < req_num_pages req"
proof (rule ccontr)
  assume "\<not> 0 < req_num_pages req"
  then show False using covered_reach[of "nat (ior_offset req)" "nat (ior_get_size req)"] assms
    by (simp add: req_num_pages_def basic_defs)
qed

lemmas req_num_pages_pos = req_num_pages_pos_req[OF basic_read_req]

lemma filled_none: "filled req buf content {..<req_num_pages req} mem = mem"
  by (auto simp: filled_def fun_eq_iff Let_def)

lemma missing_bounds: "missing s0 ps 0 = {..<length ps}" "missing s0 ps (length ps) = {k. k < length ps \<and> cold s0 (ps ! k)}"
  by (auto simp: missing_def)

lemma read_mid_start:
  assumes "read_setup prm this oio r req buf content ps s0"
  shows "read_mid this oio r req buf content ps s0 0 s0"
proof -
  have "0 \<in> missing s0 ps 0" using assms req_num_pages_pos by (auto simp: read_setup_def missing_def)
  moreover have "missing s0 ps 0 = {..<req_num_pages req}" using assms by (simp add: missing_bounds read_setup_def)
  ultimately show ?thesis using assms unfolding read_mid_def
    by (simp add: rep_core_waiting filled_none page_after_def[abs_def] read_setup_def)
qed

lemma read_pages_spec:
  assumes "read_setup prm this oio r req buf content ps s0"
  defines "poff \<equiv> (\<lambda>p. get_offset (g_page s0 p))"
  obtains s' out where "read_pages prm this READ ps r s0
      = Inr (\<Sum>k\<leftarrow>filter (\<lambda>k. \<not> cold s0 (ps ! k)) [0..<length ps]. pcut req (Suc k) - pcut req k, s')"
    "read_mid this oio r req buf content ps s0 (length ps) s'" "\<forall>x\<in>set out. sent_ok poff (ior_file_id req) x"
    "ptrs out = filter (cold s0) ps"
    "io_out prm (g_io s' this) = (fst (io_out prm (g_io s0 this)) @ out, snd (io_out prm (g_io s0 this)))"
proof -
  have su: "basic_read buf req" "length ps = req_num_pages req" "gp_node_id prm \<le> MAX_NODE_ID" "int (length ps) \<le> gp_block_size prm"
    using assms(1) by (auto simp: read_setup_def)
  have ne: "ps \<noteq> []" using su(2) req_num_pages_pos[OF su(1)] by auto
  then have fid: "pg_file_id (g_page s0 (hd ps)) = ior_file_id req" using assms(1)
    by (auto simp: read_setup_def page_state_def page_loc_def hd_conv_nth)
  obtain m where m: "new_multibuf prm this READ = Inr m" "req_bufs m = []" "\<forall>poff f off. mb_at poff f off m"
    by (rule new_multibuf_spec[OF su(3), of this])
  have "\<exists>s' out'. read_loop prm this READ r (ior_file_id req) (drop 0 ps) m 0 s0
          = Inr (0 + (\<Sum>k\<leftarrow>filter (\<lambda>k. \<not> cold s0 (ps ! k)) [0..<length ps]. pcut req (Suc k) - pcut req k), s')
        \<and> read_mid this oio r req buf content ps s0 (length ps) s' \<and> (\<forall>x\<in>set out'. sent_ok poff (ior_file_id req) x)
        \<and> ptrs out' = filter (cold s0) ps
        \<and> io_out prm (g_io s' this) = (fst (io_out prm (g_io s0 this)) @ out', snd (io_out prm (g_io s0 this)))"
    unfolding poff_def using m(2,3) read_mid_start[OF assms(1)]
    by (intro read_loop_spec[OF assms(1), where out = "[]"]) auto
  then show thesis using that m(1) su(4) ne fid by (auto simp: read_pages_def)
qed

end
