(* ===== verification/Cached_Complete.thy ===== *)
theory Cached_Complete
  imports Cached_Read "HOL-Library.Multiset"
begin

text \<open>
  From the queued disk requests to the completed user request: flushing, the answers of the disks, and the requests that
  waited on the pages.
\<close>

section \<open>Flushing\<close>

lemma poff_after [simp]: "get_offset (page_after s0 P q) = get_offset (g_page s0 q)"
  by (simp add: page_after_def get_offset_def dec_ref_def flag_set_defs page_simps)

lemma page_div_block: "(x :: int) div 4096 \<le> y div 4096 \<Longrightarrow> x div 2 ^ (b + 12) \<le> y div 2 ^ (b + 12)"
proof -
  assume "x div 4096 \<le> y div 4096"
  then have "x div 4096 div 2 ^ b \<le> y div 4096 div 2 ^ b" by (rule zdiv_mono1) simp
  moreover have "(2 :: int) ^ (b + 12) = 4096 * 2 ^ b" by (simp add: power_add)
  ultimately show ?thesis by (simp add: zdiv_zmult2_eq)
qed

lemma piece_page_div:
  assumes "basic_read buf req"
  shows "piece_page req k = (ior_offset req div 4096 + int k) * 4096"
proof -
  have "ior_offset req div 4096 = int (nat (ior_offset req) div 4096)" using assms by (simp add: basic_defs zdiv_int)
  then show ?thesis by (simp add: piece_page_def ROUND_PAGE_def page_bytes_def algebra_simps)
qed

lemma last_piece_div:
  assumes "basic_read buf req" "k < req_num_pages req"
  shows "piece_page req k div 4096 \<le> (ior_offset req + ior_get_size req - 1) div 4096"
proof -
  have "piece_page req k \<le> ior_offset req + ior_get_size req - 1"
    using cut_bounds[OF assms] by linarith
  then show ?thesis by (rule zdiv_mono1) simp
qed

lemma sent_sendable:
  assumes "basic_read buf req" "ior_inside_RAID_block req (2 ^ b)" "page_req poff x"
    "\<forall>p\<in>set (map ib_p (req_bufs x)). \<exists>k<req_num_pages req. poff p = piece_page req k"
  shows "ior_inside_RAID_block x (2 ^ b)"
proof -
  let ?B = "2 ^ (b + 12) :: int" and ?n = "length (req_bufs x)"
  have pf: "pages_from poff (ior_offset x) (req_bufs x)" and ne: "req_bufs x \<noteq> []" using assms(3) by (auto simp: page_req_def)
  have at: "\<exists>k<req_num_pages req. ior_offset x + 4096 * int i = piece_page req k" if "i < ?n" for i
    using pages_from_nth[OF pf that] assms(4) that by auto (metis nth_mem)
  obtain k where k: "k < req_num_pages req" "ior_offset x = piece_page req k" using at[of 0] ne by auto
  obtain l where l: "l < req_num_pages req" "ior_offset x + 4096 * int (?n - 1) = piece_page req l" using at[of "?n - 1"] ne by auto
  have sz: "ior_get_size x = 4096 * int ?n" using page_req_size[OF assms(3)] .
  then have e: "ior_offset x + ior_get_size x - 1 = piece_page req l + 4095" using l(2) ne by (cases ?n) auto
  have d: "(piece_page req l + 4095) div 4096 = piece_page req l div 4096"
    using piece_page_div[OF assms(1), of l] by simp
  have lo: "ior_offset req div ?B \<le> ior_offset x div ?B"
    by (rule page_div_block) (simp add: k(2) piece_page_div[OF assms(1)])
  have hi: "(ior_offset x + ior_get_size x - 1) div ?B \<le> (ior_offset req + ior_get_size req - 1) div ?B"
    by (rule page_div_block) (use last_piece_div[OF assms(1) l(1)] e d in simp)
  have pw: "(2 :: int) ^ b * 4096 = ?B" by (simp add: power_add)
  have same: "ior_offset req div ?B = (ior_offset req + ior_get_size req - 1) div ?B"
    using assms(2) unfolding ior_inside_RAID_block_def PAGE_SIZE_def pw ROUND_eq by simp
  have "ior_offset x div ?B \<le> (ior_offset x + ior_get_size x - 1) div ?B" using sz ne by (intro zdiv_mono1) (auto simp: Suc_le_eq)
  then have "ior_offset x div ?B = (ior_offset x + ior_get_size x - 1) div ?B" using lo hi same by linarith
  then show ?thesis unfolding ior_inside_RAID_block_def PAGE_SIZE_def pw ROUND_eq by simp
qed

lemma ptrs_req_pages: "ptrs xs = map (\<lambda>(_, _, _, _, _, p). p) (concat (map req_pages xs))"
  by (induction xs) (auto simp: ptrs_def req_pages_def)

lemma flush_queue_spec:
  assumes "\<forall>x\<in>set out. sent_ok poff f x \<and> ior_inside_RAID_block x (2 ^ b)" "b \<le> 12" "\<forall>x. \<not> fails x"
  obtains sent n k where "flush_requests poff (2 ^ b) fails True out = Inr (sent, n, k)" "\<forall>x\<in>set sent. sent_ok poff f x"
    "ptrs sent = ptrs out"
proof (cases out)
  case Nil
  then show thesis using that[of "[]" 0 0] by (simp add: flush_requests_def)
next
  case (Cons r rs)
  obtain sent where s: "flush_loop poff (2 ^ b) fails r rs = Inr sent" "\<forall>s\<in>set sent. sendable poff (2 ^ b) s"
    "concat (map req_pages sent) = concat (map req_pages out)" "\<forall>s\<in>set sent. s \<in> set out \<or> 2 \<le> length (req_bufs s)"
    using flush_loop_spec[OF assms(2,3), of poff r rs] assms(1) Cons by (auto simp: sendable_def sent_ok_def)
  have "sent_ok poff f x" if x: "x \<in> set sent" for x
  proof -
    have pr: "page_req poff x" using s(2) x by (auto simp: sendable_def)
    let ?t = "(ior_file_id x, ior_access_method x, ior_sync x, ior_high_prio x, ior_low_latency x, ib_p (hd (req_bufs x)))"
    have "?t \<in> set (req_pages x)" using pr by (cases "req_bufs x") (auto simp: page_req_def req_pages_def)
    then have "?t \<in> set (concat (map req_pages sent))" using x by auto
    then obtain y where "y \<in> set out" "?t \<in> set (req_pages y)" unfolding s(3) by auto
    then have "ior_file_id x = f" "ior_access_method x = READ" using assms(1) by (auto simp: req_pages_def sent_ok_def)
    moreover have "priv_ok x"
    proof (cases "2 \<le> length (req_bufs x)")
      case True
      then show ?thesis by (auto simp: priv_ok_def dest: arg_cong[of _ _ length])
    qed (use s(4) x assms(1) in \<open>auto simp: sent_ok_def\<close>)
    ultimately show ?thesis using pr by (simp add: sent_ok_def)
  qed
  moreover have "ptrs sent = ptrs out" by (simp add: ptrs_req_pages s(3))
  ultimately show thesis using that s(1) Cons by (simp add: flush_requests_def)
qed

lemma gc_flush_spec:
  assumes "\<forall>x\<in>set out. sent_ok poff f x \<and> ior_inside_RAID_block x (2 ^ b)" "b \<le> 12" "\<forall>x. \<not> gp_fails prm x"
    "gp_block_size prm = 2 ^ b" "(\<lambda>p. get_offset (g_page s p)) = poff" "gc_underlying_requests io0 = []"
    "io_out prm (g_io s this) = (fst (io_out prm io0) @ out, snd (io_out prm io0))"
  obtains io' sent where "gc_flush prm this s = Inr (s\<lparr>g_io := (g_io s)(this := io')\<rparr>)" "io_core io' = io_core (g_io s this)"
    "gc_sent io' = gc_sent io0 @ sent" "gc_underlying_requests io' = []" "\<forall>x\<in>set sent. sent_ok poff f x" "ptrs sent = ptrs out"
proof (cases "gp_merge_reqs prm")
  case True
  then have q: "gc_underlying_requests (g_io s this) = out" "gc_sent (g_io s this) = gc_sent io0"
    using assms(6,7) by (auto simp: io_out_def)
  obtain sent n k where f: "flush_requests poff (2 ^ b) (gp_fails prm) True out = Inr (sent, n, k)" "\<forall>x\<in>set sent. sent_ok poff f x"
    "ptrs sent = ptrs out" by (rule flush_queue_spec[OF assms(1-3)])
  let ?io = "(g_io s this)\<lparr>gc_underlying_requests := [], gc_sent := gc_sent (g_io s this) @ sent,
    gc_num_to_underlying := gc_num_to_underlying (g_io s this) + of_nat n,
    gc_num_underlying_pages := gc_num_underlying_pages (g_io s this) + of_nat k\<rparr>"
  have "gc_flush prm this s = Inr (s\<lparr>g_io := (g_io s)(this := ?io)\<rparr>)" using f(1) q True
    by (simp add: gc_flush_def assms(4,5) upd_io_def)
  then show thesis using f(2,3) q by (intro that[of ?io sent]) (auto simp: io_core_def)
next
  case False
  then have q: "gc_underlying_requests (g_io s this) = []" "gc_sent (g_io s this) = gc_sent io0 @ out"
    using assms(6,7) by (auto simp: io_out_def)
  have id: "io\<lparr>gc_underlying_requests := [], gc_sent := x\<rparr> = io" if "gc_underlying_requests io = []" "gc_sent io = x" for io x
    using that by (cases io) simp
  have "gc_flush prm this s = Inr (s\<lparr>g_io := (g_io s)(this := (g_io s this)\<lparr>gc_underlying_requests := [], gc_sent := gc_sent io0 @ out\<rparr>)\<rparr>)"
    using q False by (simp add: gc_flush_def flush_requests_def upd_io_def)
  then have "gc_flush prm this s = Inr s" unfolding id[OF q] by simp
  then show thesis using q assms(1) by (intro that[of "g_io s this" out]) auto
qed

section \<open>The disks\<close>

text \<open>Serving a read fills the buffers of the request, in order, with the consecutive pages of the file.\<close>

fun disk_read :: "(int \<Rightarrow> byte) \<Rightarrow> int \<Rightarrow> io_buf list \<Rightarrow> (nat \<Rightarrow> byte list) \<Rightarrow> nat \<Rightarrow> byte list" where
  "disk_read content off [] d = d"
| "disk_read content off (b # bs) d = disk_read content (off + 4096) bs (d(ib_p b := file_page content off))"

definition disk_serve :: "(int \<Rightarrow> int \<Rightarrow> byte) \<Rightarrow> io_request \<Rightarrow> gstate \<Rightarrow> gstate" where
  "disk_serve disk x s = s\<lparr>g_data := disk_read (disk (ior_file_id x)) (ior_offset x) (req_bufs x) (g_data s)\<rparr>"

lemma disk_read_spec:
  "pages_from poff off bs \<Longrightarrow> disk_read content off bs d
    = (\<lambda>q. if q \<in> set (map ib_p bs) then file_page content (poff q) else d q)"
  by (induction bs arbitrary: off d) (auto simp: fun_eq_iff)

lemma disk_serve_all:
  "\<forall>x\<in>set xs. sent_ok poff f x \<Longrightarrow> fold (disk_serve disk) xs s
    = s\<lparr>g_data := (\<lambda>q. if q \<in> set (ptrs xs) then file_page (disk f) (poff q) else g_data s q)\<rparr>"
proof (induction xs arbitrary: s)
  case Nil
  then show ?case by (simp add: ptrs_def)
next
  case (Cons x xs)
  have "disk_serve disk x s = s\<lparr>g_data := (\<lambda>q. if q \<in> set (map ib_p (req_bufs x)) then file_page (disk f) (poff q) else g_data s q)\<rparr>"
    using Cons.prems disk_read_spec[of poff "ior_offset x" "req_bufs x" "disk f" "g_data s"]
    by (simp add: disk_serve_def sent_ok_def page_req_def)
  then show ?case using Cons by (auto simp: fun_eq_iff ptrs_def)
qed

section \<open>Completed disk requests\<close>

text \<open>The state \<open>s\<close> once the pages \<open>Q\<close> have been read and the requests that waited on them taken off.\<close>

definition arrived :: "nat set \<Rightarrow> gstate \<Rightarrow> gstate" where
  "arrived Q s = s\<lparr>g_page := (\<lambda>q. if q \<in> Q then set_io_pending False (set_data_ready True (g_page s q)) else g_page s q),
     g_reqs := (\<lambda>q. if q \<in> Q then 0 else g_reqs s q)\<rparr>"

definition awaited :: "nat \<Rightarrow> gstate \<Rightarrow> nat \<Rightarrow> bool" where
  "awaited r s p \<longleftrightarrow> p \<noteq> 0 \<and> is_io_pending (g_page s p) \<and> g_reqs s p = r"

lemma arrived_insert: "p \<notin> Q \<Longrightarrow> arrived Q (arrived {p} s) = arrived (insert p Q) s"
  by (auto simp: arrived_def fun_eq_iff)

lemma arrived_empty [simp]: "arrived {} s = s"
  by (simp add: arrived_def)

lemma multibuf_pages_spec:
  "\<forall>b\<in>set bs. ib_is_page b \<Longrightarrow> distinct (map ib_p bs) \<Longrightarrow> \<forall>p\<in>set (map ib_p bs). awaited r s p \<Longrightarrow> r \<noteq> 0
    \<Longrightarrow> multibuf_pages READ bs s = Inr (map (\<lambda>p. (p, r)) (map ib_p bs), arrived (set (map ib_p bs)) s)"
proof (induction bs arbitrary: s)
  case Nil
  then show ?case by simp
next
  case (Cons b bs)
  let ?p = "ib_p b" let ?s = "arrived {?p} s"
  have st: "(upd_gpage ?p (\<lambda>pg. set_io_pending False (set_data_ready True pg)) s)\<lparr>g_reqs := (g_reqs s)(?p := 0)\<rparr> = ?s"
    by (auto simp: arrived_def upd_gpage_def upd_store_def fun_eq_iff)
  have "p \<noteq> ?p" if "p \<in> set (map ib_p bs)" for p
    using that Cons.prems(2) unfolding list.map distinct.simps by blast
  then have "\<forall>p\<in>set (map ib_p bs). awaited r ?s p" using Cons.prems(3) by (simp add: awaited_def arrived_def)
  then have rest: "multibuf_pages READ bs ?s = Inr (map (\<lambda>p. (p, r)) (map ib_p bs), arrived (set (map ib_p bs)) ?s)"
    using Cons.prems by (intro Cons.IH) auto
  have "awaited r s ?p" using Cons.prems(3) by simp
  then have "multibuf_pages READ (b # bs) s = bind_res (multibuf_pages READ bs ?s) (\<lambda>(prs, s). Inr ((?p, r) # prs, s))"
    using Cons.prems(1,4) st by (simp add: ib_get_page_def awaited_def page_reset_reqs_def Let_def) (simp add: upd_gpage_def)
  then show ?case using rest arrived_insert[of ?p "set (map ib_p bs)" s] Cons.prems(2) by auto
qed

text \<open>What \<^verbatim>\<open>std::sort\<close> promises.\<close>

definition sorts :: "((nat \<times> nat \<Rightarrow> nat) \<Rightarrow> (nat \<times> nat) list \<Rightarrow> (nat \<times> nat) list) \<Rightarrow> bool" where
  "sorts srt \<longleftrightarrow> (\<forall>key xs. mset (srt key xs) = mset xs \<and> sorted (map key (srt key xs)))"

lemma io_runs_same: "\<forall>x\<in>set rs. func x = prev \<Longrightarrow> io_runs func prev run rs = [(prev, run @ rs)]"
  by (induction rs arbitrary: run) auto

lemma process_reqs_same:
  assumes "xs \<noteq> []" "\<forall>x\<in>set xs. func x = io"
  shows "process_reqs_on_io func xs = Inr [(io, xs)]"
  using assms io_runs_same[of "tl xs" func io "[hd xs]"] by (cases xs) (auto simp: process_reqs_on_io_def)

definition on_pages :: "io_request \<Rightarrow> nat \<Rightarrow> nat \<Rightarrow> nat set \<Rightarrow> nat \<Rightarrow> nat set \<Rightarrow> gstate \<Rightarrow> bool" where
  "on_pages req this oio K r P s \<longleftrightarrow> K \<noteq> {} \<and> orig_at req this oio K (g_orig s r)
     \<and> (\<forall>p\<in>P. \<exists>k<req_num_pages req. get_offset (g_page s p) = piece_page req k)"

lemma collect_null:
  assumes "on_pages req this oio K r P s" "set qs \<subseteq> P"
  shows "collect_chains fuel (map (\<lambda>p. (p, r)) qs) s = Inr ([], s)"
  using assms(2)
proof (induction qs)
  case Nil
  then show ?case by simp
next
  case (Cons p qs)
  obtain k where k: "k < req_num_pages req" "get_offset (g_page s p) = piece_page req k"
    using assms(1) Cons.prems by (auto simp: on_pages_def)
  have o: "orig_at req this oio K (g_orig s r)" using assms(1) by (simp add: on_pages_def)
  have "chain_rest fuel p 0 s = Inr ([], s)" by (cases fuel) simp_all
  then show ?case using Cons next_null(1,2)[OF o k] by simp
qed

lemma queue_waiting:
  assumes "on_pages req this oio K r P s" "set qs \<subseteq> P" "sorts srt"
  obtains L where "mset L = mset (map (\<lambda>p. (p, r)) qs)"
    "queue_requests fuel srt (map (\<lambda>p. (p, r)) qs) s = Inr (upd_io this (gc_pending_requests_update (\<lambda>q. q @ L)) s)"
proof (cases "qs = []")
  case True
  have id: "gc_pending_requests_update (\<lambda>q. q) io = io" for io :: cached_io by (cases io) simp
  have "upd_io this (gc_pending_requests_update (\<lambda>q. q @ [])) s = s" by (simp add: upd_io_def id)
  then show thesis using that[of "[]"] True by (simp add: queue_requests_def)
next
  case False
  let ?prs = "map (\<lambda>p. (p, r)) qs" let ?L = "srt (req_io s) ?prs"
  have ms: "mset ?L = mset ?prs" using assms(3) by (simp add: sorts_def)
  then have "\<forall>x\<in>set ?L. req_io s x = this" using assms(1) mset_eq_setD[OF ms] by (auto simp: req_io_def on_pages_def orig_at_def)
  moreover have "?L \<noteq> []" using ms False by (metis list.map_disc_iff mset_zero_iff)
  ultimately have "process_reqs_on_io (req_io s) ?L = Inr [(this, ?L)]" by (intro process_reqs_same)
  then show thesis using that[OF ms] False collect_null[OF assms(1,2), of fuel]
    by (simp add: queue_requests_def deliver_pending_def)
qed

lemma on_pages_stable: "on_pages req this oio K r P (arrived Q s) = on_pages req this oio K r P s"
  "on_pages req this oio K r P (upd_io x g s) = on_pages req this oio K r P s"
proof -
  have "get_offset (set_io_pending False (set_data_ready True pg)) = get_offset pg" for pg
    by (simp add: get_offset_def flag_set_defs page_simps)
  then show "on_pages req this oio K r P (arrived Q s) = on_pages req this oio K r P s"
    by (auto simp: on_pages_def arrived_def)
qed (simp add: on_pages_def upd_io_def)

text \<open>What the completions leave of the instance: more pending requests.\<close>

definition got_pending :: "(nat \<times> nat) list \<Rightarrow> cached_io \<Rightarrow> cached_io \<Rightarrow> bool" where
  "got_pending L io io' \<longleftrightarrow> (\<exists>cq pq w. io_core io = (cq, pq, w) \<and> io_core io' = (cq, pq @ L, w))"

lemma got_pending_refl: "got_pending [] io io"
  by (cases "io_core io") (simp add: got_pending_def)

lemma got_pending_trans: "got_pending L io io1 \<Longrightarrow> got_pending L' io1 io2 \<Longrightarrow> got_pending (L @ L') io io2"
  by (auto simp: got_pending_def)

lemma multi_step:
  assumes "sent_ok poff f x" "on_pages req this oio K r P s" "set (ptrs [x]) \<subseteq> P" "distinct (ptrs [x])"
    "\<forall>p\<in>set (ptrs [x]). awaited r s p" "r \<noteq> 0" "sorts srt"
  obtains L where "mset L = mset (map (\<lambda>p. (p, r)) (ptrs [x]))"
    "multibuf_completion fuel srt x s = Inr (upd_io this (gc_pending_requests_update (\<lambda>q. q @ L)) (arrived (set (ptrs [x])) s))"
proof -
  have pr: "page_req poff x" and acc: "ior_access_method x = READ" using assms(1) by (auto simp: sent_ok_def)
  obtain e where e: "ior_payload x = EXT_REQ e" "req_bufs x = ext_bufs e"
    using pr by (auto simp: page_req_def ext_req_wf_def req_bufs_def split: payload.splits)
  have pages: "\<forall>b\<in>set (req_bufs x). ib_is_page b" using pr pages_from_nth by (fastforce simp: page_req_def in_set_conv_nth)
  have "multibuf_pages READ (ext_bufs e) s = Inr (map (\<lambda>p. (p, r)) (ptrs [x]), arrived (set (ptrs [x])) s)"
    using multibuf_pages_spec[of "req_bufs x" r s] pages assms(4-6) e(2) by simp
  moreover obtain L where "mset L = mset (map (\<lambda>p. (p, r)) (ptrs [x]))"
    "queue_requests fuel srt (map (\<lambda>p. (p, r)) (ptrs [x])) (arrived (set (ptrs [x])) s)
      = Inr (upd_io this (gc_pending_requests_update (\<lambda>q. q @ L)) (arrived (set (ptrs [x])) s))"
    using queue_waiting[of req this oio K r P "arrived (set (ptrs [x])) s" "ptrs [x]" srt] assms(2,3,7) on_pages_stable(1) by metis
  ultimately show thesis using that e acc by (simp add: multibuf_completion_def ior_extension_def ext_bufs_def)
qed

lemma single_step:
  assumes "sent_ok poff f x" "length (ptrs [x]) \<le> 1" "\<forall>p\<in>set (ptrs [x]). awaited r s p" "r \<noteq> 0"
  shows "single_completion x s = Inr (map (\<lambda>p. (p, r)) (ptrs [x]), arrived (set (ptrs [x])) s)"
proof -
  have pr: "page_req poff x" and acc: "ior_access_method x = READ" and pv: "priv_ok x" using assms(1) by (auto simp: sent_ok_def)
  then have "req_bufs x \<noteq> []" by (simp add: page_req_def)
  then obtain p where p: "map ib_p (req_bufs x) = [p]" using assms(2) by (cases "req_bufs x") auto
  obtain e where e: "ior_payload x = EXT_REQ e" "ext_priv e = p" using pv p by (auto simp: priv_ok_def split: payload.splits)
  have "ior_get_size x \<le> PAGE_SIZE" using page_req_size[OF pr] arg_cong[OF p, of length] by simp
  moreover have "awaited r s p" using assms(3) p by simp
  moreover have "(upd_gpage p (\<lambda>pg. set_io_pending False (set_data_ready True pg)) s)\<lparr>g_reqs := (g_reqs s)(p := 0)\<rparr> = arrived {p} s"
    by (auto simp: arrived_def upd_gpage_def upd_store_def fun_eq_iff)
  ultimately show ?thesis using p e acc assms(4)
    by (simp add: single_completion_def ior_extension_def Let_def page_reset_reqs_def awaited_def) (simp add: upd_gpage_def)
qed

lemma arrived_Un: "A \<inter> B = {} \<Longrightarrow> arrived B (arrived A s) = arrived (A \<union> B) s"
  by (rule gstate.equality) (auto simp: arrived_def fun_eq_iff)

lemma arrived_io: "arrived Q (upd_io x g s) = upd_io x g (arrived Q s)"
  by (rule gstate.equality) (auto simp: arrived_def upd_io_def fun_eq_iff)

lemma awaited_stable: "p \<notin> Q \<Longrightarrow> awaited r (arrived Q s) p = awaited r s p" "awaited r (upd_io x g s) p = awaited r s p"
  by (simp_all add: awaited_def arrived_def upd_io_def)

lemma upd_io_twice: "upd_io x g (upd_io x h s) = upd_io x (g \<circ> h) s"
  by (simp add: upd_io_def)

text \<open>All completions of a batch: every page has arrived, and every waiting request is either already handed to the instance
  or among the pairs still to be handed to it.\<close>

lemma disk_loop_spec:
  "\<forall>x\<in>set xs. sent_ok poff f x \<Longrightarrow> on_pages req this oio K r P s \<Longrightarrow> set (ptrs xs) \<subseteq> P \<Longrightarrow> distinct (ptrs xs)
    \<Longrightarrow> \<forall>p\<in>set (ptrs xs). awaited r s p \<Longrightarrow> r \<noteq> 0 \<Longrightarrow> sorts srt
    \<Longrightarrow> \<exists>qs L g. disk_completed_loop fuel srt this xs s
          = Inr (map (\<lambda>p. (p, r)) qs, upd_io this g (arrived (set (ptrs xs)) s))
        \<and> (\<forall>io. got_pending L io (g io) \<and> gc_sent (g io) = gc_sent io) \<and> set qs \<subseteq> P
        \<and> mset L + mset (map (\<lambda>p. (p, r)) qs) = mset (map (\<lambda>p. (p, r)) (ptrs xs))"
proof (induction xs arbitrary: s)
  case Nil
  then show ?case
    by (intro exI[of _ "[]"] exI[of _ "\<lambda>io. io"]) (auto simp: upd_io_def got_pending_refl)
next
  case (Cons x xs)
  let ?n = "gc_num_underlying_pages_update (\<lambda>n. n - of_nat (ior_get_num_bufs x))" let ?s = "upd_io this ?n s"
  let ?A = "set (ptrs [x])"
  have px: "ptrs (x # xs) = ptrs [x] @ ptrs xs" by (simp add: ptrs_def)
  have ok: "sent_ok poff f x" "set (ptrs [x]) \<subseteq> P" "distinct (ptrs [x])" "?A \<inter> set (ptrs xs) = {}"
    using Cons.prems(1,3,4) by (auto simp: px)
  have nb: "ior_get_num_bufs x = length (ptrs [x])" using ok(1) by (simp add: sent_ok_def page_req_def num_bufs_req_bufs)
  have aw: "\<forall>p\<in>?A. awaited r ?s p" using Cons.prems(5) by (auto simp: px awaited_stable)
  have on: "on_pages req this oio K r P ?s" using Cons.prems(2) by (simp add: on_pages_stable)
  have n_ok: "got_pending [] io (?n io)" "gc_sent (?n io) = gc_sent io" for io by (auto simp: got_pending_def io_core_def)
  have aw2: "awaited r (upd_io this h (arrived ?A s)) p" if "p \<in> set (ptrs xs)" for h p
  proof -
    have p: "p \<notin> ?A" using that ok(4) by blast
    show ?thesis unfolding awaited_stable(2) awaited_stable(1)[OF p] using that Cons.prems(5) by (simp add: px)
  qed
  have IH: "\<exists>qs L g'. disk_completed_loop fuel srt this xs (upd_io this h (arrived ?A s))
          = Inr (map (\<lambda>p. (p, r)) qs, upd_io this g' (arrived (set (ptrs xs)) (upd_io this h (arrived ?A s))))
        \<and> (\<forall>io. got_pending L io (g' io) \<and> gc_sent (g' io) = gc_sent io) \<and> set qs \<subseteq> P
        \<and> mset L + mset (map (\<lambda>p. (p, r)) qs) = mset (map (\<lambda>p. (p, r)) (ptrs xs))" for h
    using Cons.prems aw2 by (intro Cons.IH) (auto simp: px on_pages_stable)
  have join: "upd_io this g' (arrived (set (ptrs xs)) (upd_io this h (arrived ?A s)))
      = upd_io this (g' \<circ> h) (arrived (set (ptrs (x # xs))) s)" for g' h
    using ok(4) by (simp add: arrived_io arrived_Un upd_io_twice px)
  show ?case
  proof (cases "ior_get_num_bufs x > 1")
    case True
    obtain L1 where L1: "mset L1 = mset (map (\<lambda>p. (p, r)) (ptrs [x]))"
      "multibuf_completion fuel srt x ?s = Inr (upd_io this (gc_pending_requests_update (\<lambda>q. q @ L1)) (arrived ?A ?s))"
      by (rule multi_step[OF ok(1) on ok(2,3) aw Cons.prems(6,7)])
    let ?h = "gc_pending_requests_update (\<lambda>q. q @ L1) \<circ> ?n"
    obtain qs L g' where I: "disk_completed_loop fuel srt this xs (upd_io this ?h (arrived ?A s))
          = Inr (map (\<lambda>p. (p, r)) qs, upd_io this (g' \<circ> ?h) (arrived (set (ptrs (x # xs))) s))"
        "\<forall>io. got_pending L io (g' io) \<and> gc_sent (g' io) = gc_sent io" "set qs \<subseteq> P"
        "mset L + mset (map (\<lambda>p. (p, r)) qs) = mset (map (\<lambda>p. (p, r)) (ptrs xs))" using IH[of ?h] unfolding join by blast
    have "got_pending L1 io (?h io)" for io by (auto simp: got_pending_def io_core_def)
    then have "\<forall>io. got_pending (L1 @ L) io ((g' \<circ> ?h) io) \<and> gc_sent ((g' \<circ> ?h) io) = gc_sent io"
      using I(2) got_pending_trans by fastforce
    moreover have "mset (L1 @ L) + mset (map (\<lambda>p. (p, r)) qs) = mset (map (\<lambda>p. (p, r)) (ptrs (x # xs)))"
      using L1(1) I(4) by (simp add: px add.assoc)
    moreover have "disk_completed_loop fuel srt this (x # xs) s
        = Inr (map (\<lambda>p. (p, r)) qs, upd_io this (g' \<circ> ?h) (arrived (set (ptrs (x # xs))) s))"
      using True L1(2) I(1) by (simp add: arrived_io upd_io_twice Let_def)
    ultimately show ?thesis using I(3) by blast
  next
    case False
    have s1: "single_completion x ?s = Inr (map (\<lambda>p. (p, r)) (ptrs [x]), arrived ?A ?s)"
      using single_step[OF ok(1) _ aw Cons.prems(6)] False nb by simp
    obtain qs L g' where I: "disk_completed_loop fuel srt this xs (upd_io this ?n (arrived ?A s))
          = Inr (map (\<lambda>p. (p, r)) qs, upd_io this (g' \<circ> ?n) (arrived (set (ptrs (x # xs))) s))"
        "\<forall>io. got_pending L io (g' io) \<and> gc_sent (g' io) = gc_sent io" "set qs \<subseteq> P"
        "mset L + mset (map (\<lambda>p. (p, r)) qs) = mset (map (\<lambda>p. (p, r)) (ptrs xs))" using IH[of ?n] unfolding join by blast
    have "\<forall>io. got_pending L io ((g' \<circ> ?n) io) \<and> gc_sent ((g' \<circ> ?n) io) = gc_sent io"
      using I(2) n_ok got_pending_trans[of "[]"] by fastforce
    moreover have "mset L + mset (map (\<lambda>p. (p, r)) (ptrs [x] @ qs)) = mset (map (\<lambda>p. (p, r)) (ptrs (x # xs)))"
      using I(4) by (simp add: px ac_simps)
    moreover have "disk_completed_loop fuel srt this (x # xs) s
        = Inr (map (\<lambda>p. (p, r)) (ptrs [x] @ qs), upd_io this (g' \<circ> ?n) (arrived (set (ptrs (x # xs))) s))"
      using False s1 I(1) by (simp add: arrived_io Let_def)
    ultimately show ?thesis using I(3) ok(2) by (metis Un_subset_iff set_append)
  qed
qed

lemma completed_spec:
  assumes "\<forall>x\<in>set xs. sent_ok poff f x" "on_pages req this oio K r P s" "set (ptrs xs) \<subseteq> P" "distinct (ptrs xs)"
    "\<forall>p\<in>set (ptrs xs). awaited r s p" "r \<noteq> 0" "sorts srt"
  obtains L g where "process_disk_completed_requests fuel srt this xs s = Inr (upd_io this g (arrived (set (ptrs xs)) s))"
    "\<forall>io. got_pending L io (g io)" "mset L = mset (map (\<lambda>p. (p, r)) (ptrs xs))"
proof -
  let ?n = "gc_num_from_underlying_update (\<lambda>n. n + of_nat (length xs))"
  have "\<exists>qs L g. disk_completed_loop fuel srt this xs (upd_io this ?n s)
          = Inr (map (\<lambda>p. (p, r)) qs, upd_io this g (arrived (set (ptrs xs)) (upd_io this ?n s)))
        \<and> (\<forall>io. got_pending L io (g io) \<and> gc_sent (g io) = gc_sent io) \<and> set qs \<subseteq> P
        \<and> mset L + mset (map (\<lambda>p. (p, r)) qs) = mset (map (\<lambda>p. (p, r)) (ptrs xs))"
    using assms by (intro disk_loop_spec) (auto simp: on_pages_stable awaited_stable)
  then obtain qs L g where d: "disk_completed_loop fuel srt this xs (upd_io this ?n s)
      = Inr (map (\<lambda>p. (p, r)) qs, upd_io this (g \<circ> ?n) (arrived (set (ptrs xs)) s))" "\<forall>io. got_pending L io (g io)" "set qs \<subseteq> P"
      "mset L + mset (map (\<lambda>p. (p, r)) qs) = mset (map (\<lambda>p. (p, r)) (ptrs xs))"
    unfolding arrived_io upd_io_twice by blast
  let ?s = "upd_io this (g \<circ> ?n) (arrived (set (ptrs xs)) s)"
  have on: "on_pages req this oio K r P ?s" using assms(2) by (simp add: on_pages_stable)
  obtain L2 where L2: "mset L2 = mset (map (\<lambda>p. (p, r)) qs)"
    "queue_requests fuel srt (map (\<lambda>p. (p, r)) qs) ?s = Inr (upd_io this (gc_pending_requests_update (\<lambda>q. q @ L2)) ?s)"
    by (rule queue_waiting[OF on d(3) assms(7), of fuel])
  let ?g = "gc_pending_requests_update (\<lambda>q. q @ L2) \<circ> (g \<circ> ?n)"
  have "got_pending (L @ L2) io (?g io)" for io
  proof -
    have n: "got_pending [] io (?n io)" using got_pending_refl[of io] by (simp add: got_pending_def io_core_def)
    have l: "got_pending L (?n io) (g (?n io))" using d(2) by blast
    have "got_pending L2 (g (?n io)) (?g io)" by (auto simp: got_pending_def io_core_def)
    from got_pending_trans[OF got_pending_trans[OF n l] this] show ?thesis by simp
  qed
  moreover have "process_disk_completed_requests fuel srt this xs s = Inr (upd_io this ?g (arrived (set (ptrs xs)) s))"
    using d(1) L2(2) by (simp add: process_disk_completed_requests_def upd_io_twice Let_def)
  moreover have "mset (L @ L2) = mset (map (\<lambda>p. (p, r)) (ptrs xs))" using d(4) L2(1) by simp
  ultimately show thesis using that by blast
qed

section \<open>Requests taken off their pages\<close>

definition page_done :: "io_request \<Rightarrow> (int \<Rightarrow> byte) \<Rightarrow> nat \<Rightarrow> gstate \<Rightarrow> nat \<Rightarrow> bool" where
  "page_done req content k s p \<longleftrightarrow> k < req_num_pages req \<and> get_offset (g_page s p) = piece_page req k \<and> data_ready (g_page s p)
     \<and> \<not> is_old_dirty (g_page s p) \<and> g_data s p = file_page content (piece_page req k)"

definition deref_all :: "nat set \<Rightarrow> page_store \<Rightarrow> page_store" where
  "deref_all P st = (\<lambda>q. if q \<in> P then dec_ref (st q) else st q)"

lemma pending_loop_spec:
  assumes "basic_read buf req" "ior_sync req \<longrightarrow> oio = this"
  shows "distinct qs \<Longrightarrow> inj_on idx (set qs) \<Longrightarrow> \<forall>p\<in>set qs. page_done req content (idx p) s p
    \<Longrightarrow> orig_at req this oio (idx ` set qs) (g_orig s r) \<Longrightarrow> g_mem s = filled req buf content (idx ` set qs) mem
    \<Longrightarrow> \<exists>s'. pending_loop prm this (map (\<lambda>p. (p, r)) qs) s = Inr ([], s') \<and> g_mem s' = filled req buf content {} mem
        \<and> g_page s' = deref_all (set qs) (g_page s) \<and> g_data s' = g_data s \<and> g_reqs s' = g_reqs s
        \<and> orig_at req this oio {} (g_orig s' r) \<and> (\<forall>q. q \<noteq> r \<longrightarrow> g_orig s' q = g_orig s q)
        \<and> (\<forall>x. x \<noteq> this \<longrightarrow> g_io s' x = g_io s x)
        \<and> io_core (g_io s' this) = (if qs = [] then io_core (g_io s this) else rep_core (ior_sync req) r {} (io_core (g_io s this)))"
proof (induction qs arbitrary: s)
  case Nil
  then show ?case by (simp add: deref_all_def)
next
  case (Cons p qs)
  let ?K = "idx ` set (p # qs)" let ?k = "idx p"
  have p: "page_done req content ?k s p" using Cons.prems(3) by simp
  have K: "?K \<subseteq> {..<req_num_pages req}" "?k \<in> ?K" using Cons.prems(3) by (auto simp: page_done_def)
  have K': "?K - {?k} = idx ` set qs" using Cons.prems(1,2) by (auto simp: inj_on_def)
  have off: "get_offset (g_page s p) = piece_page req ?k" and dat: "g_data s p = file_page content (piece_page req ?k)"
    using p by (auto simp: page_done_def)
  let ?s1 = "s\<lparr>g_mem := filled req buf content (?K - {?k}) mem\<rparr>"
  obtain q where q: "gc_complete_req p r s = Inr (0, ?s1)" "orig_at req this oio (?K - {?k}) q"
    "finalize_page this p r ?s1 = Inr (?s1\<lparr>g_orig := (g_orig s)(r := q),
        g_io := (g_io s)(this := report (ior_sync req) r (?K - {?k}) (g_io s this))\<rparr>)"
    by (rule complete_on_page[OF assms(1) Cons.prems(4) K(2,1) assms(2) off dat Cons.prems(5)])
  let ?s2 = "upd_gpage p dec_ref (?s1\<lparr>g_orig := (g_orig s)(r := q),
        g_io := (g_io s)(this := report (ior_sync req) r (?K - {?k}) (g_io s this))\<rparr>)"
  have r: "or_req (g_orig s r) = req\<lparr>ior_io := this\<rparr>" using Cons.prems(4) by (auto simp: orig_at_def)
  have rd: "read_page prm this r p s = Inr (ior_get_size req, ?s2)"
    using p q(1,3) r by (simp add: read_page_def page_done_def Let_def)
  have nx: "get_next_req_on_page p r s = Inr 0" using next_null(1)[OF Cons.prems(4) _ off] p by (simp add: page_done_def)
  have acc: "ior_access_method req = READ" using assms(1) by (simp add: basic_defs)
  have step: "pending_loop prm this (map (\<lambda>p. (p, r)) (p # qs)) s = pending_loop prm this (map (\<lambda>p. (p, r)) qs) ?s2"
    using p nx r rd acc by (simp add: page_done_def bind_res_def split: sum.splits prod.splits)
  have pd: "page_done req content (idx x) ?s2 x" if "x \<in> set qs" for x
  proof -
    have "x \<noteq> p" "page_done req content (idx x) s x" using that Cons.prems(1,3) by auto
    then show ?thesis by (simp add: page_done_def upd_gpage_def upd_store_def)
  qed
  have "\<exists>s'. pending_loop prm this (map (\<lambda>p. (p, r)) qs) ?s2 = Inr ([], s') \<and> g_mem s' = filled req buf content {} mem
        \<and> g_page s' = deref_all (set qs) (g_page ?s2) \<and> g_data s' = g_data ?s2 \<and> g_reqs s' = g_reqs ?s2
        \<and> orig_at req this oio {} (g_orig s' r) \<and> (\<forall>q. q \<noteq> r \<longrightarrow> g_orig s' q = g_orig ?s2 q)
        \<and> (\<forall>x. x \<noteq> this \<longrightarrow> g_io s' x = g_io ?s2 x)
        \<and> io_core (g_io s' this) = (if qs = [] then io_core (g_io ?s2 this) else rep_core (ior_sync req) r {} (io_core (g_io ?s2 this)))"
    using Cons.prems(1,2) pd q(2) K' by (intro Cons.IH) (auto simp: upd_gpage_def)
  then obtain s' where s': "pending_loop prm this (map (\<lambda>p. (p, r)) qs) ?s2 = Inr ([], s')" "g_mem s' = filled req buf content {} mem"
        "g_page s' = deref_all (set qs) (g_page ?s2)" "g_data s' = g_data ?s2" "g_reqs s' = g_reqs ?s2"
        "orig_at req this oio {} (g_orig s' r)" "\<forall>q. q \<noteq> r \<longrightarrow> g_orig s' q = g_orig ?s2 q"
        "\<forall>x. x \<noteq> this \<longrightarrow> g_io s' x = g_io ?s2 x"
        "io_core (g_io s' this) = (if qs = [] then io_core (g_io ?s2 this) else rep_core (ior_sync req) r {} (io_core (g_io ?s2 this)))"
    by blast
  have core: "io_core (g_io s' this) = rep_core (ior_sync req) r {} (io_core (g_io s this))"
  proof (cases "qs = []")
    case True
    then show ?thesis using s'(9) K' by (simp add: upd_gpage_def)
  next
    case False
    then obtain x where "x \<in> ?K - {?k}" unfolding K' by (cases qs) auto
    then have "io_core (g_io ?s2 this) = io_core (g_io s this)" by (simp add: upd_gpage_def rep_core_waiting)
    then show ?thesis using s'(9) False by simp
  qed
  have "g_page s' = deref_all (set (p # qs)) (g_page s)"
    using s'(3) Cons.prems(1) by (auto simp: deref_all_def upd_gpage_def upd_store_def fun_eq_iff)
  then show ?case using s' core unfolding step by (intro exI[of _ s']) (simp add: upd_gpage_def)
qed

end
