(* ===== verification/Cached_Waiters.thy ===== *)
theory Cached_Waiters
  imports Cached_Complete
begin

text \<open>
  The list of requests that wait on a page. It is linked through the requests, a request has one link for each page it
  covers, and requests of several I/O instances may wait on one page.
\<close>

section \<open>Linked requests\<close>

fun linked :: "gstate \<Rightarrow> nat \<Rightarrow> nat \<Rightarrow> nat list \<Rightarrow> bool" where
  "linked s p h [] \<longleftrightarrow> h = 0"
| "linked s p h (x # xs) \<longleftrightarrow> h = x \<and> x \<noteq> 0 \<and>
     (case get_next_req_on_page p x s of Inr n \<Rightarrow> linked s p n xs | Inl _ \<Rightarrow> False)"

definition on_page :: "gstate \<Rightarrow> nat \<Rightarrow> nat \<Rightarrow> bool" where
  "on_page s p x \<longleftrightarrow> (case or_page_index (g_orig s x) (get_offset (g_page s p)) of Inr _ \<Rightarrow> True | Inl _ \<Rightarrow> False)"

text \<open>Two states that differ in links only.\<close>

definition same_but_links :: "gstate \<Rightarrow> gstate \<Rightarrow> bool" where
  "same_but_links s s' \<longleftrightarrow> g_page s' = g_page s \<and> g_data s' = g_data s \<and> g_mem s' = g_mem s \<and> g_io s' = g_io s
     \<and> (\<forall>x. or_req (g_orig s' x) = or_req (g_orig s x) \<and> or_oir (g_orig s' x) = or_oir (g_orig s x))"

lemma same_but_links_refl [simp]: "same_but_links s s"
  by (simp add: same_but_links_def)

lemma same_but_links_trans: "same_but_links s s1 \<Longrightarrow> same_but_links s1 s2 \<Longrightarrow> same_but_links s s2"
  by (simp add: same_but_links_def)

lemma index_links: "same_but_links s s' \<Longrightarrow> or_page_index (g_orig s' x) off = or_page_index (g_orig s x) off"
  by (simp add: same_but_links_def or_page_index_def)

lemma on_page_links: "same_but_links s s' \<Longrightarrow> on_page s' p x = on_page s p x"
  using index_links[of s s'] by (simp add: on_page_def same_but_links_def)

lemma set_next_spec:
  assumes "on_page s p x"
  obtains s' where "set_next_req_on_page p x v s = Inr s'" "same_but_links s s'" "g_reqs s' = g_reqs s"
    "get_next_req_on_page p x s' = Inr v" "\<forall>y. y \<noteq> x \<longrightarrow> g_orig s' y = g_orig s y"
proof -
  obtain i where i: "or_page_index (g_orig s x) (get_offset (g_page s p)) = Inr i" using assms by (auto simp: on_page_def split: sum.splits)
  let ?s = "upd_orig x (or_next_update (\<lambda>f. f(i := v))) s"
  have l: "same_but_links s ?s" by (simp add: same_but_links_def upd_orig_def)
  have pg: "g_page ?s = g_page s" by (simp add: upd_orig_def)
  have "or_page_index (g_orig ?s x) (get_offset (g_page ?s p)) = Inr i" unfolding index_links[OF l] pg by (rule i)
  then have "get_next_req_on_page p x ?s = Inr v" unfolding get_next_req_on_page_def by (simp add: upd_orig_def)
  moreover have "set_next_req_on_page p x v s = Inr ?s" using i by (simp add: set_next_req_on_page_def)
  ultimately show thesis using l by (intro that[of ?s]) (auto simp: upd_orig_def)
qed

lemma linked_frame:
  assumes "same_but_links s s'" "\<forall>y\<in>set xs. g_orig s' y = g_orig s y"
  shows "linked s' p h xs = linked s p h xs"
  using assms(2)
proof (induction xs arbitrary: h)
  case Nil
  then show ?case by simp
next
  case (Cons x xs)
  have "get_next_req_on_page p x s' = get_next_req_on_page p x s"
    using assms(1) Cons.prems by (simp add: get_next_req_on_page_def same_but_links_def)
  then show ?case using Cons by (simp split: sum.split)
qed

text \<open>\<^verbatim>\<open>add_req\<close> puts a request in front of the list.\<close>

lemma page_add_linked:
  assumes "on_page s p x" "x \<noteq> 0" "linked s p (g_reqs s p) xs" "x \<notin> set xs"
  obtains s' where "page_add_req p x s = Inr s'" "same_but_links s s'" "linked s' p (g_reqs s' p) (x # xs)"
proof -
  obtain s1 where s1: "set_next_req_on_page p x (g_reqs s p) s = Inr s1" "same_but_links s s1" "g_reqs s1 = g_reqs s"
    "get_next_req_on_page p x s1 = Inr (g_reqs s p)" "\<forall>y. y \<noteq> x \<longrightarrow> g_orig s1 y = g_orig s y"
    by (rule set_next_spec[OF assms(1)])
  let ?s = "s1\<lparr>g_reqs := (g_reqs s1)(p := x)\<rparr>"
  have l: "linked t p h zs = linked s1 p h zs" if "g_orig t = g_orig s1" "g_page t = g_page s1" for t h zs
    using that by (induction zs arbitrary: h) (simp_all add: get_next_req_on_page_def split: sum.split)
  have "linked s1 p (g_reqs s p) xs" using linked_frame[OF s1(2), of xs] s1(5) assms(3,4) by metis
  then have "linked s1 p x (x # xs)" using s1(4) assms(2) by simp
  moreover have lq: "linked ?s p h zs = linked s1 p h zs" for h zs by (rule l) simp_all
  moreover have "g_reqs ?s p = x" by simp
  ultimately have "linked ?s p (g_reqs ?s p) (x # xs)" by (simp only:)
  moreover have "same_but_links s ?s" using s1(2) by (simp add: same_but_links_def)
  ultimately show thesis using that s1(1) by (simp add: page_add_req_def)
qed

fun add_waiters :: "nat \<Rightarrow> nat list \<Rightarrow> gstate \<Rightarrow> gstate res" where
  "add_waiters p [] s = Inr s"
| "add_waiters p (r # rs) s = bind_res (page_add_req p r s) (add_waiters p rs)"

lemma add_waiters_linked:
  "\<forall>x\<in>set rs. on_page s p x \<and> x \<noteq> 0 \<Longrightarrow> distinct (rs @ xs) \<Longrightarrow> linked s p (g_reqs s p) xs
    \<Longrightarrow> \<exists>s'. add_waiters p rs s = Inr s' \<and> same_but_links s s' \<and> linked s' p (g_reqs s' p) (rev rs @ xs)"
proof (induction rs arbitrary: s xs)
  case Nil
  then show ?case by simp
next
  case (Cons r rs)
  obtain s1 where s1: "page_add_req p r s = Inr s1" "same_but_links s s1" "linked s1 p (g_reqs s1 p) (r # xs)"
    using page_add_linked[of s p r xs] Cons.prems by auto
  have "\<exists>s'. add_waiters p rs s1 = Inr s' \<and> same_but_links s1 s' \<and> linked s' p (g_reqs s' p) (rev rs @ r # xs)"
    using Cons.prems s1(2,3) by (intro Cons.IH) (auto simp: on_page_links)
  then show ?case using s1 same_but_links_trans by fastforce
qed

section \<open>Taking the list apart\<close>

lemma linked_next: "linked s p h (x # xs) \<Longrightarrow> \<exists>n. get_next_req_on_page p x s = Inr n \<and> linked s p n xs"
  by (auto split: sum.splits)

lemma get_next_on_page: "get_next_req_on_page p x s = Inr n \<Longrightarrow> on_page s p x"
  by (auto simp: get_next_req_on_page_def on_page_def res_simps)

lemma chain_rest_spec:
  "linked s p h xs \<Longrightarrow> distinct xs \<Longrightarrow> length xs \<le> fuel
    \<Longrightarrow> \<exists>s'. chain_rest fuel p h s = Inr (map (Pair p) xs, s') \<and> same_but_links s s' \<and> g_reqs s' = g_reqs s
      \<and> (\<forall>x\<in>set xs. get_next_req_on_page p x s' = Inr 0) \<and> (\<forall>y. y \<notin> set xs \<longrightarrow> g_orig s' y = g_orig s y)"
proof (induction xs arbitrary: h s fuel)
  case Nil
  then show ?case by (cases fuel) simp_all
next
  case (Cons x xs)
  obtain k where k: "fuel = Suc k" using Cons.prems(3) by (cases fuel) auto
  obtain n where n: "get_next_req_on_page p x s = Inr n" "linked s p n xs" "h = x" "x \<noteq> 0"
    using Cons.prems(1) linked_next[OF Cons.prems(1)] by auto
  obtain s1 where s1: "set_next_req_on_page p x 0 s = Inr s1" "same_but_links s s1" "g_reqs s1 = g_reqs s"
    "get_next_req_on_page p x s1 = Inr 0" "\<forall>y. y \<noteq> x \<longrightarrow> g_orig s1 y = g_orig s y"
    by (rule set_next_spec[OF get_next_on_page[OF n(1)]])
  have "linked s1 p n xs" using linked_frame[OF s1(2), of xs] s1(5) n(2) Cons.prems(2) by (metis distinct.simps(2))
  then obtain s' where s': "chain_rest k p n s1 = Inr (map (Pair p) xs, s')" "same_but_links s1 s'" "g_reqs s' = g_reqs s1"
    "\<forall>x\<in>set xs. get_next_req_on_page p x s' = Inr 0" "\<forall>y. y \<notin> set xs \<longrightarrow> g_orig s' y = g_orig s1 y"
    using Cons.IH[of s1 n k] Cons.prems(2,3) k by auto
  have "get_next_req_on_page p x s' = Inr 0"
    using s1(4) s'(2,5) Cons.prems(2) by (simp add: get_next_req_on_page_def same_but_links_def)
  then show ?case using s' s1 n k same_but_links_trans[OF s1(2) s'(2)] by auto
qed

lemma collect_one:
  assumes "linked s p h (h # xs)" "distinct (h # xs)" "length xs \<le> fuel"
  obtains s' where "collect_chains fuel [(p, h)] s = Inr (map (Pair p) xs, s')" "same_but_links s s'" "g_reqs s' = g_reqs s"
    "\<forall>x\<in>set (h # xs). get_next_req_on_page p x s' = Inr 0"
proof -
  obtain n where n: "get_next_req_on_page p h s = Inr n" "linked s p n xs" using linked_next[OF assms(1)] by auto
  obtain s1 where s1: "chain_rest fuel p n s = Inr (map (Pair p) xs, s1)" "same_but_links s s1" "g_reqs s1 = g_reqs s"
    "\<forall>x\<in>set xs. get_next_req_on_page p x s1 = Inr 0" using chain_rest_spec[OF n(2) _ assms(3)] assms(2) by auto
  have "on_page s1 p h" using get_next_on_page[OF n(1)] on_page_links[OF s1(2)] by simp
  from set_next_spec[OF this, of 0] obtain s2 where s2: "set_next_req_on_page p h 0 s1 = Inr s2" "same_but_links s1 s2"
    "g_reqs s2 = g_reqs s1" "get_next_req_on_page p h s2 = Inr 0" "\<forall>y. y \<noteq> h \<longrightarrow> g_orig s2 y = g_orig s1 y" by auto
  have "get_next_req_on_page p x s2 = Inr 0" if "x \<in> set xs" for x
  proof -
    have "x \<noteq> h" using that assms(2) by auto
    then show ?thesis using s1(4) s2(2,5) that by (simp add: get_next_req_on_page_def same_but_links_def)
  qed
  then show thesis using that[of s2] n(1) s1 s2 same_but_links_trans[OF s1(2) s2(2)] by auto
qed

text \<open>Handing the pairs to their instances.\<close>

lemma deliver_runs:
  "distinct (map fst runs) \<Longrightarrow> gc_pending_requests (g_io (fold deliver_pending runs s) io)
      = gc_pending_requests (g_io s io) @ (case map_of runs io of Some L \<Rightarrow> L | None \<Rightarrow> [])
    \<and> g_orig (fold deliver_pending runs s) = g_orig s \<and> g_page (fold deliver_pending runs s) = g_page s
    \<and> g_reqs (fold deliver_pending runs s) = g_reqs s"
proof (induction runs arbitrary: s)
  case Nil
  then show ?case by simp
next
  case (Cons run runs)
  obtain k L where run: "run = (k, L)" by (cases run)
  have none: "map_of runs k = None" using Cons.prems run by (simp add: map_of_eq_None_iff)
  have "gc_pending_requests (g_io (deliver_pending run s) io) = gc_pending_requests (g_io s io) @ (if io = k then L else [])"
    "g_orig (deliver_pending run s) = g_orig s" "g_page (deliver_pending run s) = g_page s" "g_reqs (deliver_pending run s) = g_reqs s"
    by (simp_all add: deliver_pending_def run upd_io_def)
  then show ?case using Cons.IH[of "deliver_pending run s"] Cons.prems none run by (cases "io = k") auto
qed

section \<open>Every waiting request is handed over once\<close>

text \<open>The run of an instance is the part of the requests that belong to it.\<close>

lemma runs_map_of:
  assumes "concat (map snd runs) = xs" "\<forall>(io, ys)\<in>set runs. ys = filter (\<lambda>r. key r = io) xs"
  shows "(case map_of runs io of Some ys \<Rightarrow> ys | None \<Rightarrow> []) = filter (\<lambda>r. key r = io) xs"
proof (cases "map_of runs io")
  case None
  then have none: "\<forall>(k, ys)\<in>set runs. k \<noteq> io" by (force simp: map_of_eq_None_iff)
  have "\<forall>x\<in>set xs. key x \<noteq> io"
  proof
    fix x assume "x \<in> set xs"
    then obtain k ys where "(k, ys) \<in> set runs" "x \<in> set ys" by (force simp flip: assms(1))
    then show "key x \<noteq> io" using none assms(2) by fastforce
  qed
  then show ?thesis using None by (simp add: filter_empty_conv)
next
  case (Some ys)
  then show ?thesis using map_of_SomeD[OF Some] assms(2) by auto
qed

lemma reset_linked: "linked (snd (page_reset_reqs q s)) p h xs = linked s p h xs"
  by (induction xs arbitrary: h) (simp_all add: page_reset_reqs_def get_next_req_on_page_def split: sum.split)


section \<open>A sample state\<close>

text \<open>A request as \<^verbatim>\<open>init_orig\<close> leaves it waits for all its pages.\<close>

lemma oir_init_fresh:
  assumes "k < num_covered_pages off n"
  shows "\<not> ps_completed (oir_sts (oir_init junk off n) ! k)"
proof -
  let ?num = "num_covered_pages off n" let ?a = "ea_resize junk (new_embedded_array null_status) ?num"
  have "oir_sts (oir_init junk off n) = replicate ?num null_status @ drop ?num (ea_real ?a)"
    by (cases "ea_heap ?a") (auto simp: oir_init_def ea_real_def Let_def)
  then show ?thesis using assms by (simp add: nth_append null_status_def)
qed

lemma fresh_orig:
  assumes "basic_req buf req"
  obtains q where "new_orig_request junk this req = Inr q" "orig_at req this (ior_io req) {..<req_num_pages req} q"
proof -
  let ?o = "nat (ior_offset req)" and ?n = "nat (ior_get_size req)"
  let ?oir = "oir_init junk ?o ?n"
  have b: "ior_payload req = BASIC_REQ buf" "?o + ?n < 2 ^ 62" "0 < ?n" using assms by (auto simp: basic_defs)
  have oi: "oir_off ?oir = ?o" "oir_size ?oir = ?n" "oir_completed_size ?oir = 0" "oir_wf ?oir"
    using oir_init_spec[where junk = junk and off = ?o and n = ?n] b(2) by auto
  have at: "oir_at ?oir {..<req_num_pages req}"
    unfolding oir_at_def oir_left_def oi using oi(4) b(3) oir_init_fresh by (simp add: sum_overlaps req_num_pages_def)
  have "{..<req_num_pages req} \<noteq> {}" using req_num_pages_pos_req[OF assms] by auto
  then show thesis using b(1) at oi
    by (intro that[of "\<lparr>or_req = req\<lparr>ior_io := this\<rparr>, or_oir = ?oir, or_next = (\<lambda>_. 0), or_orig_io = ior_io req\<rparr>"])
      (simp_all add: new_orig_request_def orig_at_def)
qed

definition sample_content :: "int \<Rightarrow> byte" where
  "sample_content x = word_of_int x"

definition sample_req :: io_request where
  "sample_req = (new_io_request False)\<lparr>ior_buf_size := 8000, ior_offset := 4196, ior_payload := BASIC_REQ 100000\<rparr>"

definition sample_io :: cached_io where
  "sample_io = \<lparr>gc_underlying_requests = [], gc_sent = [], gc_complete_queue = [], gc_pending_requests = [], gc_woken = [],
     gc_num_to_underlying = 0, gc_num_from_underlying = 0, gc_num_underlying_pages = 0\<rparr>"

text \<open>Page 1 holds the data at 4096, page 2 is to hold the data at 8192; odd requests belong to instance 1, even ones to 0.\<close>

definition sample_gstate :: gstate where
  "sample_gstate = \<lparr>
     g_page = (\<lambda>p. if p = 1 then set_data_ready True (set_id \<lparr>loc_file_id = 0, loc_off = 4096\<rparr> empty_page)
       else set_id \<lparr>loc_file_id = 0, loc_off = 8192\<rparr> empty_page),
     g_data = (\<lambda>p. if p = 1 then file_page sample_content 4096 else []),
     g_reqs = (\<lambda>_. 0), g_orig = (\<lambda>r. projr (new_orig_request null_status (r mod 2) sample_req)), g_mem = (\<lambda>_. 0),
     g_io = (\<lambda>_. sample_io)\<rparr>"

lemma sample_basic_read: "basic_read 100000 sample_req"
  by (simp add: basic_defs sample_req_def new_io_request_def ior_get_size_def MAX_NODE_ID_def)

lemma sample_pages: "req_num_pages sample_req = 2" "piece_page sample_req 0 = 4096" "piece_page sample_req 1 = 8192"
  by (simp_all add: req_num_pages_def piece_page_def sample_req_def new_io_request_def ior_get_size_def num_covered_pages_def
      next_page_off_def ROUND_PAGE_def page_bytes_def)

lemma sample_orig: "orig_at sample_req (r mod 2) 0 {..<2} (g_orig sample_gstate r)"
proof -
  obtain q where "new_orig_request null_status (r mod 2) sample_req = Inr q"
    "orig_at sample_req (r mod 2) (ior_io sample_req) {..<req_num_pages sample_req} q" by (rule fresh_orig[OF basic_read_req[OF sample_basic_read]])
  then show ?thesis by (simp add: sample_gstate_def sample_pages) (simp add: sample_req_def new_io_request_def)
qed

lemma sample_locs: "page_loc (g_page sample_gstate 1) = \<lparr>loc_file_id = 0, loc_off = 4096\<rparr>"
  "page_loc (g_page sample_gstate 2) = \<lparr>loc_file_id = 0, loc_off = 8192\<rparr>"
proof -
  have "page_loc (set_data_ready True pg) = page_loc pg" for pg by (simp add: page_loc_def get_offset_def flag_set_defs page_simps)
  then show "page_loc (g_page sample_gstate 1) = \<lparr>loc_file_id = 0, loc_off = 4096\<rparr>"
    "page_loc (g_page sample_gstate 2) = \<lparr>loc_file_id = 0, loc_off = 8192\<rparr>"
    by (simp_all add: sample_gstate_def page_loc_set_id page_aligned_loc_def)
qed

lemma sorts_sort_key: "sorts (\<lambda>key xs. sort_key key xs)"
  by (simp add: sorts_def)


end
