(* ===== verification/Cached_IO_Props.thy ===== *)
theory Cached_IO_Props
  imports Cached_Waiters
begin

text \<open>
  Properties of the cached I/O: a read returns the contents of the file, whatever part of it is cached and in whatever
  order the disks answer; two situations in which the code does not do what it means to.
\<close>

section \<open>Reading\<close>

lemma between_cuts:
  "x < pcut req m \<Longrightarrow> pcut req 0 \<le> x \<Longrightarrow> \<exists>k<m. pcut req k \<le> x \<and> x < pcut req (Suc k)"
proof (induction m)
  case 0
  then show ?case by simp
next
  case (Suc m)
  then show ?case by (cases "x < pcut req m") (auto simp: not_less intro: less_SucI)
qed

lemma pcut_ends:
  assumes "basic_req buf req"
  shows "pcut req 0 = ior_offset req" "pcut req (req_num_pages req) = ior_offset req + ior_get_size req"
proof -
  let ?o = "nat (ior_offset req)" and ?n = "nat (ior_get_size req)"
  have o: "int ?o = ior_offset req" "int ?n = ior_get_size req" using assms by (simp_all add: basic_req_def)
  have "ROUND_PAGE ?o \<le> ?o" by (simp add: ROUND_PAGE_def)
  then show "pcut req 0 = ior_offset req" using o unfolding pcut_def border_def by simp
  have "?o + ?n \<le> ROUND_PAGE ?o + req_num_pages req * page_bytes"
    using covered_eq[of ?o ?n] next_page_off_bounds(1)[of "?o + ?n"] unfolding req_num_pages_def by linarith
  then show "pcut req (req_num_pages req) = ior_offset req + ior_get_size req" using o unfolding pcut_def border_def by linarith
qed

lemma filled_all:
  assumes "basic_read buf req"
  shows "filled req buf content {} mem = (\<lambda>a. if buf \<le> a \<and> a < buf + nat (ior_get_size req)
    then content (ior_offset req + (int a - int buf)) else mem a)"
proof
  fix a
  let ?N = "req_num_pages req" let ?x = "ior_offset req + (int a - int buf)"
  have N: "0 < ?N" by (rule req_num_pages_pos[OF assms])
  note c = cut_bounds[OF assms]
  note ends = pcut_ends[OF basic_read_req[OF assms]]
  have "(\<exists>k<?N. pcut req k \<le> ?x \<and> ?x < pcut req (Suc k)) \<longleftrightarrow> ior_offset req \<le> ?x \<and> ?x < ior_offset req + ior_get_size req"
  proof
    assume "\<exists>k<?N. pcut req k \<le> ?x \<and> ?x < pcut req (Suc k)"
    then obtain k where k: "k < ?N" "pcut req k \<le> ?x" "?x < pcut req (Suc k)" by blast
    then show "ior_offset req \<le> ?x \<and> ?x < ior_offset req + ior_get_size req" using c(4,5)[OF k(1)] by linarith
  qed (use between_cuts[of ?x req ?N] ends in simp)
  moreover have "\<dots> \<longleftrightarrow> buf \<le> a \<and> a < buf + nat (ior_get_size req)" using assms unfolding basic_defs by linarith
  ultimately show "filled req buf content {} mem a = (if buf \<le> a \<and> a < buf + nat (ior_get_size req) then content ?x else mem a)"
    by (simp add: filled_def Let_def)
qed

lemma mset_ptrs: "mset xs = mset ys \<Longrightarrow> mset (ptrs xs) = mset (ptrs ys)"
proof -
  have "mset (ptrs zs) = (\<Sum>z\<in>#mset zs. mset (map ib_p (req_bufs z)))" for zs
    by (induction zs) (simp_all add: ptrs_def)
  then show "mset xs = mset ys \<Longrightarrow> mset (ptrs xs) = mset (ptrs ys)" by simp
qed

lemma pairs_of:
  assumes "mset L = mset (map (\<lambda>p. (p, r)) qs)"
  obtains qs' where "L = map (\<lambda>p. (p, r)) qs'" "mset qs' = mset qs"
proof -
  have "\<forall>x\<in>set L. snd x = r" using mset_eq_setD[OF assms] by auto
  then have "L = map (\<lambda>p. (p, r)) (map fst L)" by (induction L) auto
  moreover have "mset (map fst L) = mset qs" using arg_cong[OF assms, of "image_mset fst"] mset_map[of fst] by (simp only: mset_map[symmetric] map_map) (simp add: comp_def)
  ultimately show thesis by (rule that)
qed

lemma no_answers:
  assumes "read_mid this oio r req buf content ps s0 (length ps) s2" "gc_pending_requests (g_io s0 this) = []"
    "missing s0 ps (length ps) = {}"
  shows "\<exists>s3 s4. process_disk_completed_requests fuel srt this [] s2 = Inr s3
    \<and> handle_pending_requests prm this s3 = Inr (0, [], s4) \<and> g_mem s4 = g_mem s2 \<and> g_reqs s4 = g_reqs s2
    \<and> g_page s4 = g_page s2 \<and> g_data s4 = g_data s2 \<and> io_core (g_io s4 this) = io_core (g_io s2 this)"
proof -
  have pq: "gc_pending_requests (g_io s2 this) = []"
    using assms by (auto simp: read_mid_def io_core_def rep_core_def split: if_splits)
  then have "gc_pending_requests_update (\<lambda>_. []) (g_io s2 this) = g_io s2 this" by (cases "g_io s2 this") simp
  then show ?thesis using pq
    by (auto simp: process_disk_completed_requests_def queue_requests_def handle_pending_requests_def upd_io_def io_core_def Let_def)
qed

lemma arrived_pages:
  assumes "read_setup prm this oio r req buf (disk (ior_file_id req)) ps s0"
    "read_mid this oio r req buf (disk (ior_file_id req)) ps s0 (length ps) s2" "k < length ps" "cold s0 (ps ! k)"
  shows "awaited r s2 (ps ! k)"
    "\<lbrakk>set qs = set (filter (cold s0) ps); g_data s = (\<lambda>q. if q \<in> set qs then file_page (disk (ior_file_id req)) (get_offset (g_page s0 q)) else g_data s2 q);
      g_page s = g_page s2\<rbrakk> \<Longrightarrow> page_done req (disk (ior_file_id req)) k (arrived (set qs) s) (ps ! k)"
proof -
  let ?p = "ps ! k"
  have su: "page_state req (disk (ior_file_id req)) s0 ?p k" "length ps = req_num_pages req" "0 \<notin> set ps" "r \<noteq> 0"
    using assms(1,3) by (auto simp: read_setup_def)
  have p: "?p \<in> set ps" using assms(3) by simp
  have pg: "g_page s2 ?p = set_io_pending True (g_page s0 ?p)" "g_reqs s2 ?p = r"
    using assms(2,4) p by (auto simp: read_mid_def page_after_def)
  have "?p \<noteq> 0" using p su(3) by metis
  then show "awaited r s2 ?p" using pg by (simp add: awaited_def)
  assume q: "set qs = set (filter (cold s0) ps)" "g_page s = g_page s2"
    "g_data s = (\<lambda>q. if q \<in> set qs then file_page (disk (ior_file_id req)) (get_offset (g_page s0 q)) else g_data s2 q)"
  have "?p \<in> set qs" using q(1) p assms(4) by simp
  moreover have "get_offset (g_page s0 ?p) = piece_page req k" using su(1) by (auto simp: page_state_def page_loc_def)
  moreover have "\<not> is_old_dirty (g_page s0 ?p)" using su(1) assms(4) by (simp add: page_state_def)
  moreover have "get_offset (set_io_pending False (set_data_ready True (set_io_pending True pg))) = get_offset pg"
    "data_ready (set_io_pending False (set_data_ready True pg))" for pg
    by (simp_all add: get_offset_def data_ready_def flag_set_defs page_simps bit_page_set_flag)
  ultimately show "page_done req (disk (ior_file_id req)) k (arrived (set qs) s) ?p"
    using pg(1) q(2,3) su(2) assms(3) by (simp add: page_done_def arrived_def)
qed

lemma answers_complete_waiting:
  assumes "read_setup prm this oio r req buf (disk (ior_file_id req)) ps s0"
    "read_mid this oio r req buf (disk (ior_file_id req)) ps s0 (length ps) s2" "gc_pending_requests (g_io s0 this) = []"
    "\<forall>x\<in>set answers. sent_ok (\<lambda>p. get_offset (g_page s0 p)) (ior_file_id req) x"
    "mset (ptrs answers) = mset (filter (cold s0) ps)" "sorts srt" "missing s0 ps (length ps) \<noteq> {}"
  shows "\<exists>s3 s4. process_disk_completed_requests fuel srt this answers (fold (disk_serve disk) answers s2) = Inr s3
    \<and> handle_pending_requests prm this s3 = Inr (length (ptrs answers), [], s4)
    \<and> g_mem s4 = filled req buf (disk (ior_file_id req)) {} (g_mem s0) \<and> g_reqs s4 = g_reqs s0
    \<and> io_core (g_io s4 this) = rep_core (ior_sync req) r {} (io_core (g_io s0 this))
    \<and> (\<forall>k<length ps. data_ready (g_page s4 (ps ! k)) \<and> g_data s4 (ps ! k) = file_page (disk (ior_file_id req)) (piece_page req k)
        \<and> pg_refcnt (g_page s4 (ps ! k)) = int16 (pg_refcnt (g_page s0 (ps ! k)) - 1))"
proof -
  let ?f = "ior_file_id req" let ?K = "missing s0 ps (length ps)" let ?A = "set (filter (cold s0) ps)"
  have su: "basic_read buf req" "ior_sync req \<longrightarrow> oio = this" "r \<noteq> 0" "length ps = req_num_pages req" "distinct ps"
    "\<forall>k<length ps. page_state req (disk ?f) s0 (ps ! k) k" using assms(1) by (auto simp: read_setup_def)
  have orig: "orig_at req this oio ?K (g_orig s2 r)" using assms(2) by (simp add: read_mid_def)
  obtain j where "j \<in> ?K" using assms(7) by auto
  from rep_core_waiting[OF this] have core2: "io_core (g_io s2 this) = io_core (g_io s0 this)"
    using assms(2) by (simp add: read_mid_def)
  have ans: "set (ptrs answers) = ?A" "distinct (ptrs answers)"
    using mset_eq_setD[OF assms(5)] mset_eq_imp_distinct_iff[OF assms(5)] su(5) by auto
  let ?s = "fold (disk_serve disk) answers s2"
  have s: "?s = s2\<lparr>g_data := (\<lambda>q. if q \<in> set (ptrs answers) then file_page (disk ?f) (get_offset (g_page s0 q)) else g_data s2 q)\<rparr>"
    by (rule disk_serve_all[OF assms(4)])
  have at: "\<exists>k<length ps. p = ps ! k" if "p \<in> set ps" for p using that by (auto simp: in_set_conv_nth)
  have off: "get_offset (g_page s2 (ps ! k)) = piece_page req k" if "k < length ps" for k
    using su(6) that assms(2) by (auto simp: read_mid_def page_state_def page_loc_def)
  have on: "on_pages req this oio ?K r (set ps) ?s"
    using assms(7) orig off su(4) at by (auto simp: s on_pages_def)
  have aw: "\<forall>p\<in>set (ptrs answers). awaited r ?s p"
  proof
    fix p assume "p \<in> set (ptrs answers)"
    then obtain k where "k < length ps" "p = ps ! k" "cold s0 (ps ! k)" using ans(1) at by auto
    then show "awaited r ?s p" using arrived_pages(1)[where disk = disk, OF assms(1,2)] by (simp add: s awaited_def)
  qed
  obtain L g where c: "process_disk_completed_requests fuel srt this answers ?s = Inr (upd_io this g (arrived ?A ?s))"
    "\<forall>io. got_pending L io (g io)" "mset L = mset (map (\<lambda>p. (p, r)) (ptrs answers))"
    using completed_spec[OF assms(4) on _ ans(2) aw su(3) assms(6), of fuel] unfolding ans(1) by (metis (no_types, lifting) filter_is_subset)
  obtain qs where qs: "L = map (\<lambda>p. (p, r)) qs" "mset qs = mset (ptrs answers)" by (rule pairs_of[OF c(3)])
  have qset: "set qs = ?A" "distinct qs" using mset_eq_setD[OF qs(2)] mset_eq_imp_distinct_iff[OF qs(2)] ans by auto
  let ?idx = "the_inv_into {..<length ps} ((!) ps)"
  have inj: "inj_on ((!) ps) {..<length ps}" using su(5) by (auto simp: inj_on_def nth_eq_iff_index_eq)
  have idx: "?idx (ps ! k) = k" if "k < length ps" for k using the_inv_into_f_f[OF inj] that by simp
  have idx_inj: "inj_on ?idx (set qs)" unfolding qset by (rule inj_onI) (use idx at in \<open>auto, metis\<close>)
  have idxK: "?idx ` set qs = ?K" unfolding qset missing_bounds using idx at by (force simp: image_iff)
  let ?g = "gc_pending_requests_update (\<lambda>_. []) \<circ> g" let ?s3 = "upd_io this ?g (arrived ?A ?s)"
  have pd: "\<forall>p\<in>set qs. page_done req (disk ?f) (?idx p) ?s3 p"
  proof
    fix p assume "p \<in> set qs"
    then obtain k where k: "k < length ps" "p = ps ! k" "cold s0 (ps ! k)" using qset(1) at by auto
    have "page_done req (disk ?f) k (arrived (set qs) ?s) p" unfolding k(2)
      by (rule arrived_pages(2)[where disk = disk, OF assms(1,2) k(1,3)]) (simp_all add: qset(1) s ans(1))
    then show "page_done req (disk ?f) (?idx p) ?s3 p" using idx[OF k(1)] k(2) by (simp add: qset(1) page_done_def upd_io_def)
  qed
  have o3: "orig_at req this oio (?idx ` set qs) (g_orig ?s3 r)" "g_mem ?s3 = filled req buf (disk ?f) (?idx ` set qs) (g_mem s0)"
    using orig assms(2) unfolding idxK by (simp_all add: upd_io_def arrived_def s read_mid_def)
  obtain s4 where s4: "pending_loop prm this (map (\<lambda>p. (p, r)) qs) ?s3 = Inr ([], s4)" "g_mem s4 = filled req buf (disk ?f) {} (g_mem s0)"
    "g_page s4 = deref_all (set qs) (g_page ?s3)" "g_data s4 = g_data ?s3" "g_reqs s4 = g_reqs ?s3"
    "io_core (g_io s4 this) = (if qs = [] then io_core (g_io ?s3 this) else rep_core (ior_sync req) r {} (io_core (g_io ?s3 this)))"
    using pending_loop_spec[OF su(1,2) qset(2) idx_inj pd o3, of prm] by blast
  have gp: "gc_pending_requests (g (g_io s2 this)) = L" "io_core (?g (g_io s2 this)) = io_core (g_io s0 this)"
    using spec[OF c(2), of "g_io s2 this"] core2 assms(3) by (auto simp: got_pending_def io_core_def)
  have h: "handle_pending_requests prm this (upd_io this g (arrived ?A ?s)) = Inr (length (ptrs answers), [], s4)"
    using s4(1) gp(1) qs(1) mset_eq_length[OF qs(2)]
    by (simp add: handle_pending_requests_def upd_io_twice Let_def) (simp add: upd_io_def arrived_def s)
  have "qs \<noteq> []" using idxK assms(7) by auto
  then have core: "io_core (g_io s4 this) = rep_core (ior_sync req) r {} (io_core (g_io s0 this))"
    using s4(6) gp(2) by (simp add: upd_io_def arrived_def s)
  have null: "g_reqs s0 p = 0" if p: "p \<in> ?A" for p
  proof -
    obtain k where "k < length ps" "p = ps ! k" "cold s0 (ps ! k)" using p at[of p] by auto
    then show ?thesis using su(6) by (simp add: page_state_def)
  qed
  have r2: "g_reqs s2 = (\<lambda>q. if q \<in> ?A then r else g_reqs s0 q)" using assms(2) by (simp add: read_mid_def)
  have r3: "g_reqs ?s3 = (\<lambda>q. if q \<in> ?A then 0 else g_reqs s2 q)" by (simp add: upd_io_def arrived_def s cong: if_cong)
  have reqs: "g_reqs s4 = g_reqs s0" unfolding s4(5) r3 r2 using null by (intro ext) simp
  have pages: "data_ready (g_page s4 (ps ! k)) \<and> g_data s4 (ps ! k) = file_page (disk ?f) (piece_page req k)
      \<and> pg_refcnt (g_page s4 (ps ! k)) = int16 (pg_refcnt (g_page s0 (ps ! k)) - 1)" if k: "k < length ps" for k
  proof (cases "cold s0 (ps ! k)")
    case True
    then have q: "ps ! k \<in> set qs" using qset(1) k by simp
    then have "page_done req (disk ?f) k ?s3 (ps ! k)" using pd idx[OF k] by force
    moreover have "g_page ?s3 (ps ! k) = set_io_pending False (set_data_ready True (set_io_pending True (g_page s0 (ps ! k))))"
      using q qset(1) True k assms(2) by (simp add: upd_io_def arrived_def s read_mid_def page_after_def)
    ultimately show ?thesis using q s4(3,4)
      by (simp add: page_done_def deref_all_def dec_ref_def data_ready_def get_flags_bit_def flag_set_defs page_simps)
  next
    case False
    then have q: "ps ! k \<notin> set qs" using qset(1) by simp
    then have "g_page s4 (ps ! k) = dec_ref (g_page s0 (ps ! k))" "g_data s4 (ps ! k) = g_data s0 (ps ! k)"
      using s4(3,4) qset(1) ans(1) False k assms(2)
      by (simp_all add: upd_io_def arrived_def s read_mid_def page_after_def deref_all_def)
    then show ?thesis using su(6) k False by (simp add: page_state_def dec_ref_def data_ready_def get_flags_bit_def)
  qed
  show ?thesis using c(1) h s4(2) core reqs pages by blast
qed

lemma answers_complete:
  assumes "read_setup prm this oio r req buf (disk (ior_file_id req)) ps s0"
    "read_mid this oio r req buf (disk (ior_file_id req)) ps s0 (length ps) s2" "gc_pending_requests (g_io s0 this) = []"
    "\<forall>x\<in>set answers. sent_ok (\<lambda>p. get_offset (g_page s0 p)) (ior_file_id req) x"
    "mset (ptrs answers) = mset (filter (cold s0) ps)" "sorts srt"
  shows "\<exists>s3 s4. process_disk_completed_requests fuel srt this answers (fold (disk_serve disk) answers s2) = Inr s3
    \<and> handle_pending_requests prm this s3 = Inr (length (ptrs answers), [], s4)
    \<and> g_mem s4 = filled req buf (disk (ior_file_id req)) {} (g_mem s0) \<and> g_reqs s4 = g_reqs s0
    \<and> io_core (g_io s4 this) = rep_core (ior_sync req) r {} (io_core (g_io s0 this))
    \<and> (\<forall>k<length ps. data_ready (g_page s4 (ps ! k)) \<and> g_data s4 (ps ! k) = file_page (disk (ior_file_id req)) (piece_page req k)
        \<and> pg_refcnt (g_page s4 (ps ! k)) = int16 (pg_refcnt (g_page s0 (ps ! k)) - 1))"
proof (cases "missing s0 ps (length ps) = {}")
  case True
  let ?f = "ior_file_id req"
  have "filter (cold s0) ps = []" using True by (auto simp: missing_bounds filter_empty_conv in_set_conv_nth)
  then have "ptrs answers = []" using assms(5) by simp
  then have "answers = []" using assms(4) by (cases answers) (auto simp: ptrs_def sent_ok_def page_req_def)
  moreover have ready: "\<forall>k<length ps. \<not> cold s0 (ps ! k)" using True by (auto simp: missing_bounds)
  moreover have "g_reqs s2 = g_reqs s0" using assms(2) ready by (auto simp: read_mid_def fun_eq_iff in_set_conv_nth)
  moreover obtain s3 s4 where n: "process_disk_completed_requests fuel srt this [] s2 = Inr s3"
    "handle_pending_requests prm this s3 = Inr (0, [], s4)" "g_mem s4 = g_mem s2" "g_reqs s4 = g_reqs s2" "g_page s4 = g_page s2"
    "g_data s4 = g_data s2" "io_core (g_io s4 this) = io_core (g_io s2 this)"
    using no_answers[OF assms(2,3) True, of fuel srt prm] by blast
  moreover have "data_ready (g_page s4 (ps ! k)) \<and> g_data s4 (ps ! k) = file_page (disk ?f) (piece_page req k)
      \<and> pg_refcnt (g_page s4 (ps ! k)) = int16 (pg_refcnt (g_page s0 (ps ! k)) - 1)" if k: "k < length ps" for k
  proof -
    have "g_page s4 (ps ! k) = dec_ref (g_page s0 (ps ! k))" "g_data s4 (ps ! k) = g_data s0 (ps ! k)"
      using n(5,6) ready k assms(2) by (auto simp: read_mid_def page_after_def)
    then show ?thesis using assms(1) k ready
      by (simp add: read_setup_def page_state_def dec_ref_def data_ready_def get_flags_bit_def)
  qed
  moreover have "g_mem s2 = filled req buf (disk ?f) {} (g_mem s0)"
    "io_core (g_io s2 this) = rep_core (ior_sync req) r {} (io_core (g_io s0 this))"
    using assms(2) True by (auto simp: read_mid_def)
  ultimately show ?thesis by auto
next
  case False
  then show ?thesis by (rule answers_complete_waiting[where disk = disk, OF assms])
qed

text \<open>
  Reading through the cache returns the contents of the file. Take any user read that lies in one RAID block, with any
  mixture of pages that are cached and pages that nobody has asked for, and let \<^verbatim>\<open>read\<close> and \<^verbatim>\<open>flush_requests\<close> run: the disks are
  asked for exactly the pages that are missing, each once, in order. In whatever order the disks answer, processing their
  answers and then the requests pending on the pages fills the user's buffer with the bytes of the file and touches no
  other memory, reports the request exactly once (to the waiting thread if it is synchronous, to the queue of completed
  requests otherwise), and leaves every page holding its data with one reference less and no request waiting on it that
  did not wait before.
\<close>

lemma read_returns_file:
  assumes "read_setup prm this oio r req buf (disk (ior_file_id req)) ps s"
    "gp_block_size prm = 2 ^ b" "b \<le> 12" "ior_inside_RAID_block req (2 ^ b)"
    "gc_underlying_requests (g_io s this) = []" "gc_pending_requests (g_io s this) = []" "sorts srt"
  shows "\<exists>ret s1 s2 sent. read_pages prm this READ ps r s = Inr (ret, s1) \<and> gc_flush prm this s1 = Inr s2
    \<and> gc_sent (g_io s2 this) = gc_sent (g_io s this) @ sent
    \<and> ptrs sent = filter (\<lambda>p. \<not> data_ready (g_page s p)) ps
    \<and> (\<forall>answers. mset answers = mset sent \<longrightarrow>
        (\<exists>s3 s4. process_disk_completed_requests fuel srt this answers (fold (disk_serve disk) answers s2) = Inr s3
          \<and> handle_pending_requests prm this s3 = Inr (length (ptrs answers), [], s4)
          \<and> g_mem s4 = (\<lambda>a. if buf \<le> a \<and> a < buf + nat (ior_get_size req)
                then disk (ior_file_id req) (ior_offset req + (int a - int buf)) else g_mem s a)
          \<and> g_reqs s4 = g_reqs s
          \<and> io_core (g_io s4 this) = (if ior_sync req then (gc_complete_queue (g_io s this), [], gc_woken (g_io s this) @ [r])
                else (gc_complete_queue (g_io s this) @ [r], [], gc_woken (g_io s this)))
          \<and> (\<forall>k<length ps. data_ready (g_page s4 (ps ! k))
                \<and> g_data s4 (ps ! k) = file_page (disk (ior_file_id req)) (piece_page req k)
                \<and> pg_refcnt (g_page s4 (ps ! k)) = int16 (pg_refcnt (g_page s (ps ! k)) - 1))))"
proof -
  let ?f = "ior_file_id req" let ?poff = "\<lambda>p. get_offset (g_page s p)"
  have su: "basic_read buf req" "length ps = req_num_pages req" "\<forall>x. \<not> gp_fails prm x"
    "\<forall>k<length ps. page_state req (disk ?f) s (ps ! k) k" using assms(1) by (auto simp: read_setup_def)
  let ?ret = "\<Sum>k\<leftarrow>filter (\<lambda>k. \<not> cold s (ps ! k)) [0..<length ps]. pcut req (Suc k) - pcut req k"
  obtain s1 out where rd: "read_pages prm this READ ps r s = Inr (?ret, s1)"
    "read_mid this oio r req buf (disk ?f) ps s (length ps) s1" "\<forall>x\<in>set out. sent_ok ?poff ?f x" "ptrs out = filter (cold s) ps"
    "io_out prm (g_io s1 this) = (fst (io_out prm (g_io s this)) @ out, snd (io_out prm (g_io s this)))"
    by (rule read_pages_spec[OF assms(1)])
  have ins: "ior_inside_RAID_block x (2 ^ b)" if x: "x \<in> set out" for x
  proof (rule sent_sendable[OF su(1) assms(4)])
    show "page_req ?poff x" using rd(3) x by (auto simp: sent_ok_def)
    show "\<forall>p\<in>set (map ib_p (req_bufs x)). \<exists>k<req_num_pages req. ?poff p = piece_page req k"
    proof
      fix p assume "p \<in> set (map ib_p (req_bufs x))"
      then have "p \<in> set (ptrs out)" using x by (auto simp: ptrs_def)
      then obtain k where "k < length ps" "p = ps ! k" unfolding rd(4) by (auto simp: in_set_conv_nth)
      then show "\<exists>k<req_num_pages req. ?poff p = piece_page req k" using su(2,4) by (auto simp: page_state_def page_loc_def)
    qed
  qed
  have po: "(\<lambda>p. get_offset (g_page s1 p)) = ?poff" using rd(2) by (simp add: read_mid_def)
  have ok: "\<forall>x\<in>set out. sent_ok ?poff ?f x \<and> ior_inside_RAID_block x (2 ^ b)" using rd(3) ins by blast
  obtain io' sent where fl: "gc_flush prm this s1 = Inr (s1\<lparr>g_io := (g_io s1)(this := io')\<rparr>)" "io_core io' = io_core (g_io s1 this)"
    "gc_sent io' = gc_sent (g_io s this) @ sent" "\<forall>x\<in>set sent. sent_ok ?poff ?f x" "ptrs sent = ptrs out"
    by (rule gc_flush_spec[OF ok assms(3) su(3) assms(2) po assms(5) rd(5)])
  let ?s2 = "s1\<lparr>g_io := (g_io s1)(this := io')\<rparr>"
  have mid: "read_mid this oio r req buf (disk ?f) ps s (length ps) ?s2" using rd(2) fl(2) by (simp add: read_mid_def)
  have core: "rep_core (ior_sync req) r {} (io_core (g_io s this)) = (if ior_sync req
      then (gc_complete_queue (g_io s this), [], gc_woken (g_io s this) @ [r])
      else (gc_complete_queue (g_io s this) @ [r], [], gc_woken (g_io s this)))" using assms(6) by (simp add: rep_core_def io_core_def)
  have "\<exists>s3 s4. process_disk_completed_requests fuel srt this answers (fold (disk_serve disk) answers ?s2) = Inr s3
    \<and> handle_pending_requests prm this s3 = Inr (length (ptrs answers), [], s4)
    \<and> g_mem s4 = filled req buf (disk ?f) {} (g_mem s) \<and> g_reqs s4 = g_reqs s
    \<and> io_core (g_io s4 this) = rep_core (ior_sync req) r {} (io_core (g_io s this))
    \<and> (\<forall>k<length ps. data_ready (g_page s4 (ps ! k)) \<and> g_data s4 (ps ! k) = file_page (disk ?f) (piece_page req k)
        \<and> pg_refcnt (g_page s4 (ps ! k)) = int16 (pg_refcnt (g_page s (ps ! k)) - 1))" if a: "mset answers = mset sent" for answers
  proof (rule answers_complete[where disk = disk, OF assms(1) mid assms(6) _ _ assms(7)])
    show "\<forall>x\<in>set answers. sent_ok ?poff ?f x" using fl(4) mset_eq_setD[OF a] by blast
    show "mset (ptrs answers) = mset (filter (cold s) ps)" using mset_ptrs[OF a] fl(5) rd(4) by simp
  qed
  then show ?thesis using rd(1,4) fl(1,3,5) unfolding core filled_all[OF su(1)]
    by - (rule exI[of _ ?ret], rule exI[of _ s1], rule exI[of _ ?s2], rule exI[of _ sent], auto)
qed

definition sample_params :: gparams where
  "sample_params = \<lparr>gp_merge_reqs = True, gp_cache_large_write = False, gp_block_size = 4, gp_node_id = 0, gp_fails = (\<lambda>_. False)\<rparr>"

lemma sample_flags: "data_ready (g_page sample_gstate 1)" "\<not> data_ready (g_page sample_gstate 2)"
  "\<not> is_io_pending (g_page sample_gstate 2)" "\<not> is_dirty (g_page sample_gstate 2)" "\<not> is_old_dirty (g_page sample_gstate 2)"
proof -
  have "pg_flags (set_id l empty_page) = 0" for l by (simp add: page_simps empty_page_def)
  then show "data_ready (g_page sample_gstate 1)" "\<not> data_ready (g_page sample_gstate 2)"
    "\<not> is_io_pending (g_page sample_gstate 2)" "\<not> is_dirty (g_page sample_gstate 2)" "\<not> is_old_dirty (g_page sample_gstate 2)"
    by (simp_all add: sample_gstate_def) (simp_all add: flag_get_defs get_flags_bit_def)
qed

lemma sample_setup: "read_setup sample_params 0 0 6 sample_req 100000 ((\<lambda>_. sample_content) (ior_file_id sample_req)) [1, 2] sample_gstate"
proof -
  have f: "ior_file_id sample_req = 0" "ior_sync sample_req = False" by (simp_all add: sample_req_def new_io_request_def)
  have "g_data sample_gstate 1 = file_page sample_content 4096" "g_reqs sample_gstate 2 = 0" by (simp_all add: sample_gstate_def)
  then have "\<forall>k<length [1, 2 :: nat]. page_state sample_req sample_content sample_gstate ([1, 2] ! k) k"
    using sample_flags sample_locs sample_pages(2,3) f(1) by (auto simp: page_state_def less_Suc_eq nth_Cons split: nat.split)
  then show ?thesis using sample_basic_read sample_orig[of 6] sample_pages(1) f(2)
    by (simp add: read_setup_def sample_params_def MAX_NODE_ID_def)
qed

end
