(* ===== verification/Cached_User_Laws.thy ===== *)
theory Cached_User_Laws
  imports Cached_User Cached_IO_Props
begin

text \<open>
  How \<^verbatim>\<open>process_user_req\<close> walks over the pages of a request, and what the walk does for a read inside one RAID block.
\<close>

section \<open>The walk over the pages of a request\<close>

definition walk_at :: "io_request \<Rightarrow> nat \<Rightarrow> partial_request" where
  "walk_at req j = (pr_init req)\<lparr>pr_curr_pg_offset := piece_page req j\<rparr>"

lemma piece_page_less: "piece_page req i < piece_page req j \<longleftrightarrow> i < j" "piece_page req i = piece_page req j \<longleftrightarrow> i = j"
  by (simp_all add: piece_page_def page_bytes_def)

lemma walk_ends:
  assumes "basic_req buf req"
  shows "round_page (ior_offset req) = piece_page req 0" "roundup_page (ior_offset req + ior_get_size req) = piece_page req (req_num_pages req)"
    "ior_num_covered_pages req = int (req_num_pages req)"
proof -
  let ?o = "nat (ior_offset req)" and ?n = "nat (ior_get_size req)"
  have o: "int ?o = ior_offset req" "int ?n = ior_get_size req" using assms by (simp_all add: basic_req_def)
  show r: "round_page (ior_offset req) = piece_page req 0" using round_page_int[of ?o] o(1) by (simp add: piece_page_def)
  have "roundup_page (int (?o + ?n)) = int (next_page_off (?o + ?n))"
    by (simp add: roundup_page_eq next_page_off_def page_bytes_def zdiv_int)
  also have "\<dots> = piece_page req (req_num_pages req)"
    using covered_eq[of ?o ?n] unfolding piece_page_def req_num_pages_def by (simp only: add.commute)
  finally show u: "roundup_page (ior_offset req + ior_get_size req) = piece_page req (req_num_pages req)" using o by simp
  show "ior_num_covered_pages req = int (req_num_pages req)" unfolding ior_num_covered_pages_def r u
    by (simp add: piece_page_def page_bytes_def)
qed

lemma walk_simps:
  assumes "basic_req buf req"
  shows "pr_init req = walk_at req 0" "pr_is_empty (walk_at req j) \<longleftrightarrow> j = req_num_pages req"
    "pr_move_next (walk_at req j) = walk_at req (Suc j)" "pr_req (walk_at req j) = req"
    "pr_get_curr_page_id (walk_at req j) = \<lparr>loc_file_id = ior_file_id req, loc_off = piece_page req j\<rparr>"
    "user_rounds (walk_at req j) = req_num_pages req - j"
proof -
  note w = walk_ends[OF assms]
  show "pr_init req = walk_at req 0" by (simp add: walk_at_def pr_init_def w)
  show "pr_is_empty (walk_at req j) \<longleftrightarrow> j = req_num_pages req" by (simp add: walk_at_def pr_is_empty_def pr_init_def w piece_page_less)
  show "pr_move_next (walk_at req j) = walk_at req (Suc j)" by (simp add: walk_at_def pr_move_next_def pr_init_def piece_page_Suc)
  show "pr_req (walk_at req j) = req" by (simp add: walk_at_def pr_init_def)
  show "pr_get_curr_page_id (walk_at req j) = \<lparr>loc_file_id = ior_file_id req, loc_off = piece_page req j\<rparr>"
    by (simp add: walk_at_def pr_init_def pr_get_curr_page_id_def)
  have "piece_page req (req_num_pages req) - piece_page req j = (int (req_num_pages req) - int j) * 4096"
    by (simp add: piece_page_def page_bytes_def algebra_simps)
  then show "user_rounds (walk_at req j) = req_num_pages req - j"
    by (simp add: user_rounds_def walk_at_def pr_init_def w nat_diff_distrib')
qed

text \<open>The cache finds the pages \<open>ps\<close> for the request, does \<open>setf k\<close> to the \<open>k\<close>-th of them and evicts \<open>old k\<close> for it; the request
  in progress is allocated at \<open>r\<close> and starts as \<open>q\<close>.\<close>

definition found_pages :: "cache_env \<Rightarrow> io_request \<Rightarrow> nat list \<Rightarrow> (nat \<Rightarrow> data_loc_t) \<Rightarrow> (nat \<Rightarrow> page \<Rightarrow> page) \<Rightarrow> bool" where
  "found_pages env req ps old setf \<longleftrightarrow> (\<forall>k<length ps. \<forall>s.
     ce_search env \<lparr>loc_file_id = ior_file_id req, loc_off = piece_page req k\<rparr> s = (ps ! k, old k, upd_gpage (ps ! k) (setf k) s))"

definition user_walk :: "cache_env \<Rightarrow> nat \<Rightarrow> nat \<Rightarrow> io_request \<Rightarrow> nat list \<Rightarrow> (nat \<Rightarrow> data_loc_t) \<Rightarrow> (nat \<Rightarrow> page \<Rightarrow> page)
    \<Rightarrow> nat \<Rightarrow> orig_request \<Rightarrow> gstate \<Rightarrow> bool" where
  "user_walk env this buf req ps old setf r q s \<longleftrightarrow> basic_req buf req \<and> \<not> ior_within_1page req \<and> length ps = req_num_pages req
     \<and> distinct ps \<and> 0 \<notin> set ps \<and> r \<noteq> 0 \<and> found_pages env req ps old setf
     \<and> (\<forall>k<length ps. \<not> is_old_dirty (setf k (g_page s (ps ! k))))
     \<and> ce_alloc env (upd_gpage (ps ! 0) (setf 0) s) = r \<and> new_orig_request (ce_junk env) this req = Inr q"

definition stepped :: "io_request \<Rightarrow> nat \<Rightarrow> nat \<Rightarrow> bool \<Rightarrow> user_io \<Rightarrow> user_io" where
  "stepped req j r h u = u\<lparr>ui_processing_req := walk_at req (Suc j), ui_num_pg_accesses := ui_num_pg_accesses u + 1,
     ui_cache_hits := (if h then ui_cache_hits u + 1 else ui_cache_hits u), ui_orig := r\<rparr>"

definition ready_hit :: "(nat \<Rightarrow> data_loc_t) \<Rightarrow> (nat \<Rightarrow> page \<Rightarrow> page) \<Rightarrow> nat list \<Rightarrow> gstate \<Rightarrow> nat \<Rightarrow> bool" where
  "ready_hit old setf ps s k \<longleftrightarrow> loc_off (old k) = - 1 \<and> data_ready (setf k (g_page s (ps ! k)))"

definition counted_page :: "bool \<Rightarrow> user_acc \<Rightarrow> user_acc" where
  "counted_page b a = (if b then a\<lparr>ua_num_pages_ready := ua_num_pages_ready a + 1\<rparr> else a)"

lemma user_step_found:
  assumes "user_walk env this buf req ps old setf r q s0" "j < length ps" "ui_processing_req u = walk_at req j"
    "g_page s (ps ! j) = g_page s0 (ps ! j)" "j = 0 \<longrightarrow> s = s0" "ui_orig u = (if j = 0 then 0 else r)"
  defines "s1 \<equiv> (if j = 0 then upd_orig r (\<lambda>_. q) (upd_gpage (ps ! 0) (setf 0) s) else upd_gpage (ps ! j) (setf j) s)"
  shows "user_step env prm this u a s = bind_res (user_page prm this r (ps ! j) (counted_page (ready_hit old setf ps s0 j) a) s1)
    (\<lambda>(a, s). Inr (True, stepped req j r (loc_off (old j) = - 1) u, a, s))"
proof -
  note w = assms(1)[unfolded user_walk_def found_pages_def] 
  have b: "basic_req buf req" and n1: "\<not> ior_within_1page req" using w by auto
  have f: "ce_search env \<lparr>loc_file_id = ior_file_id req, loc_off = piece_page req j\<rparr> s = (ps ! j, old j, upd_gpage (ps ! j) (setf j) s)"
    using w assms(2) by blast
  have p0: "ps ! j \<noteq> 0" using w assms(2) by (metis nth_mem)
  have pg: "g_page (upd_gpage (ps ! j) (setf j) s) (ps ! j) = setf j (g_page s0 (ps ! j))" "g_page s1 (ps ! j) = setf j (g_page s0 (ps ! j))"
    using assms(4) by (auto simp: s1_def upd_gpage_def upd_store_def upd_orig_def)
  have od: "\<not> is_old_dirty (setf j (g_page s0 (ps ! j)))" using w assms(2) by blast
  have io: "user_init_orig env this v (upd_gpage (ps ! j) (setf j) s) = Inr (v\<lparr>ui_orig := r\<rparr>, s1)"
    if "ui_orig v = ui_orig u" "ui_processing_req v = walk_at req (Suc j)" for v
    using that assms(5,6) w walk_simps(4)[OF b] by (auto simp: user_init_orig_def s1_def Let_def)
  show ?thesis unfolding user_step_def assms(3) walk_simps[OF b] Let_def f
    using p0 n1 od by (simp add: pg io stepped_def counted_page_def ready_hit_def split: if_split)
qed


section \<open>Reads\<close>

definition looked_up :: "nat list \<Rightarrow> (nat \<Rightarrow> page \<Rightarrow> page) \<Rightarrow> nat \<Rightarrow> gstate \<Rightarrow> gstate" where
  "looked_up ps setf j s = fold (\<lambda>k. upd_gpage (ps ! k) (setf k)) [0..<j] s"

definition walked :: "nat \<Rightarrow> orig_request \<Rightarrow> nat list \<Rightarrow> (nat \<Rightarrow> page \<Rightarrow> page) \<Rightarrow> nat \<Rightarrow> gstate \<Rightarrow> gstate" where
  "walked r q ps setf j s = (if j = 0 then s else upd_orig r (\<lambda>_. q) (looked_up ps setf j s))"

lemma looked_up_page:
  assumes "distinct ps" "j \<le> length ps" "k < length ps"
  shows "g_page (looked_up ps setf j s) (ps ! k) = (if k < j then setf k (g_page s (ps ! k)) else g_page s (ps ! k))"
  using assms(2)
proof (induction j)
  case (Suc j)
  then have "ps ! k = ps ! j \<longleftrightarrow> k = j" using assms(1,3) by (auto simp: nth_eq_iff_index_eq)
  then show ?case using Suc by (auto simp: looked_up_def upd_gpage_def upd_store_def less_Suc_eq)
qed (simp add: looked_up_def)

lemma looked_up_rest:
  "g_io (looked_up ps setf j s) = g_io s" "g_mem (looked_up ps setf j s) = g_mem s" "g_reqs (looked_up ps setf j s) = g_reqs s"
  "g_data (looked_up ps setf j s) = g_data s" "g_orig (looked_up ps setf j s) = g_orig s"
  by (induction j) (simp_all add: looked_up_def upd_gpage_def)

lemma walked_rest:
  "g_io (walked r q ps setf j s) = g_io s" "g_mem (walked r q ps setf j s) = g_mem s" "g_reqs (walked r q ps setf j s) = g_reqs s"
  "g_data (walked r q ps setf j s) = g_data s" "0 < j \<Longrightarrow> g_orig (walked r q ps setf j s) = (g_orig s)(r := q)"
  by (simp_all add: walked_def upd_orig_def looked_up_rest)

lemma walked_page:
  assumes "distinct ps" "k < length ps"
  shows "g_page (walked r q ps setf (length ps) s) (ps ! k) = setf k (g_page s (ps ! k))"
  using looked_up_page[OF assms(1) le_refl assms(2), of setf s] assms(2) by (auto simp: walked_def upd_orig_def)

lemma walked_Suc:
  assumes "j < length ps"
  shows "walked r q ps setf (Suc j) s = (if j = 0 then upd_orig r (\<lambda>_. q) (upd_gpage (ps ! 0) (setf 0) s)
    else upd_gpage (ps ! j) (setf j) (walked r q ps setf j s))"
  by (simp add: walked_def looked_up_def upd_orig_def upd_gpage_def)

lemma read_collected_all:
  assumes "basic_read buf req" "or_req (g_orig s r) = req\<lparr>ior_io := this\<rparr>" "ps \<noteq> []" "length ps = req_num_pages req"
    "get_offset (g_page s (hd ps)) = piece_page req 0"
  shows "read_collected prm this r ps s = read_pages prm this READ ps r s"
proof -
  let ?q = "req\<lparr>ior_io := this\<rparr>"
  have b: "0 < req_num_pages req" using req_num_pages_pos[OF assms(1)] .
  have sz: "ior_offset ?q = ior_offset req" "ior_get_size ?q = ior_get_size req" by simp_all
  have "4096 \<le> int (length ps) * 4096" using b assms(4) by simp
  moreover have "piece_page req 0 \<le> ior_offset req"
    using walk_ends(1)[OF basic_read_req[OF assms(1)]] unfolding round_page_eq by linarith
  ultimately have ov: "ior_has_overlap ?q (piece_page req 0) (int (length ps) * 4096)"
    using cut_bounds[OF assms(1) b] unfolding ior_has_overlap_def sz by linarith
  have "\<exists>x. ior_extract ?q (piece_page req 0) (int (length ps) * PAGE_SIZE) = Inr x \<and> ior_access_method x = READ"
    using assms(1) ov by (auto simp: ior_extract_def basic_defs ior_get_num_bufs_def Let_def ior_init_def new_io_request_def)
  then show ?thesis using assms(2,3,5) by (auto simp: read_collected_def)
qed


text \<open>The pages are read together when the last one has been looked up, or when the walk is over.\<close>

definition block_end :: "gparams \<Rightarrow> io_request \<Rightarrow> nat \<Rightarrow> bool" where
  "block_end prm req j \<longleftrightarrow> piece_page req j mod (gp_block_size prm * 4096) = 0"

lemma user_page_read:
  assumes "ior_access_method (or_req (g_orig s r)) = READ" "int (length ps) < gp_block_size prm" "ua_pages a = ps"
    "get_offset (g_page s (hd (ps @ [p]))) = piece_page req 0"
  shows "user_page prm this r p a s = (if block_end prm req (Suc (length ps))
    then bind_res (read_collected prm this r (ps @ [p]) s) (\<lambda>(n, s).
         Inr (a\<lparr>ua_num_bytes_completed := int32 (ua_num_bytes_completed a + n), ua_pages := []\<rparr>, s))
    else Inr (a\<lparr>ua_pages := ps @ [p]\<rparr>, s))"
proof -
  have "piece_page req 0 + PAGE_SIZE * int (length (ps @ [p])) = piece_page req (Suc (length ps))"
    by (simp add: piece_page_def page_bytes_def)
  then show ?thesis using assms unfolding user_page_def block_end_def Let_def assms(3,4) by simp
qed

lemma user_loop_read:
  assumes "user_walk env this buf req ps old setf r q s0" "basic_read buf req" "or_req q = req\<lparr>ior_io := this\<rparr>"
    "get_offset (setf 0 (g_page s0 (ps ! 0))) = piece_page req 0" "int (length ps) \<le> gp_block_size prm"
    "\<forall>j. 0 < j \<and> j < length ps \<longrightarrow> \<not> block_end prm req j"
    "read_pages prm this READ ps r (walked r q ps setf (length ps) s0) = Inr (ret, s1)"
    and "j < length ps" "ui_processing_req u = walk_at req j" "ui_orig u = (if j = 0 then 0 else r)" "ua_pages a = take j ps"
  shows "\<exists>u' a'. user_loop env prm this (length ps - j) u a (walked r q ps setf j s0)
      = Inr (u', a', if block_end prm req (length ps) then s1 else walked r q ps setf (length ps) s0)
    \<and> ui_processing_req u' = walk_at req (length ps) \<and> ui_orig u' = r \<and> ua_dirty_pages a' = ua_dirty_pages a
    \<and> ua_pages a' = (if block_end prm req (length ps) then [] else ps)
    \<and> ua_num_pages_ready a' = ua_num_pages_ready a + length (filter (ready_hit old setf ps s0) [j..<length ps])
    \<and> ua_num_bytes_completed a' = (if block_end prm req (length ps) then int32 (ua_num_bytes_completed a + ret) else ua_num_bytes_completed a)"
  using assms(8-)
proof (induction "length ps - j" arbitrary: j u a)
  case 0
  then show ?case by simp
next
  case (Suc k)
  have w: "distinct ps" "length ps = req_num_pages req" "basic_req buf req" using assms(1) by (auto simp: user_walk_def)
  let ?W = "\<lambda>j. walked r q ps setf j s0" let ?p = "ps ! j" let ?a = "counted_page (ready_hit old setf ps s0 j) a"
  let ?u = "stepped req j r (loc_off (old j) = - 1) u" let ?be = "block_end prm req (length ps)"
  have gp: "g_page (?W j) ?p = g_page s0 ?p" using looked_up_page[OF w(1), of j j setf s0] Suc.prems(1)
    by (auto simp: walked_def upd_orig_def)
  have st: "user_step env prm this u a (?W j) = bind_res (user_page prm this r ?p ?a (?W (Suc j))) (\<lambda>(a, s). Inr (True, ?u, a, s))"
    using user_step_found[OF assms(1) Suc.prems(1,2) gp _ Suc.prems(3), of prm a] walked_Suc[OF Suc.prems(1), of r q setf s0]
    by (auto simp: walked_def cong: if_cong)
  have o: "or_req (g_orig (?W (Suc j)) r) = req\<lparr>ior_io := this\<rparr>" for j using assms(3) by (simp add: walked_def upd_orig_def)
  have h: "hd (take (Suc i) ps) = ps ! 0" for i using Suc.prems(1) by (cases ps) auto
  have off: "get_offset (g_page (?W (Suc i)) (ps ! 0)) = piece_page req 0" if "Suc i \<le> length ps" for i
  proof -
    have "ps \<noteq> []" using Suc.prems(1) by auto
    then show ?thesis using looked_up_page[OF w(1) that, of 0 setf s0] assms(4) by (simp add: walked_def upd_orig_def)
  qed
  have tk: "ua_pages ?a = take j ps" "take j ps @ [?p] = take (Suc j) ps" "length (take j ps) = j" using Suc.prems
    by (auto simp: counted_page_def take_Suc_conv_app_nth)
  have rd: "ior_access_method (or_req (g_orig (?W (Suc j)) r)) = READ" using o assms(2) by (simp add: basic_read_def)
  have lt: "int (length (take j ps)) < gp_block_size prm" using assms(5) Suc.prems(1) by simp
  have up: "user_page prm this r ?p ?a (?W (Suc j)) = (if block_end prm req (Suc j)
    then bind_res (read_collected prm this r (take (Suc j) ps) (?W (Suc j))) (\<lambda>(n, s).
         Inr (?a\<lparr>ua_num_bytes_completed := int32 (ua_num_bytes_completed ?a + n), ua_pages := []\<rparr>, s))
    else Inr (?a\<lparr>ua_pages := take (Suc j) ps\<rparr>, ?W (Suc j)))"
    using user_page_read[OF rd lt tk(1), of ?p req this] off[of j] Suc.prems(1) h[of j] tk(2,3) by simp
  have cnt: "ua_num_pages_ready ?a + length (filter (ready_hit old setf ps s0) [Suc j..<length ps])
      = ua_num_pages_ready a + length (filter (ready_hit old setf ps s0) [j..<length ps])"
    using Suc.prems(1) by (simp add: counted_page_def upt_conv_Cons)
  have sm: "ua_dirty_pages ?a = ua_dirty_pages a" "ua_num_bytes_completed ?a = ua_num_bytes_completed a" by (simp_all add: counted_page_def)
  have us: "ui_processing_req ?u = walk_at req (Suc j)" "ui_orig ?u = r" by (simp_all add: stepped_def)
  have ne: "\<not> pr_is_empty (walk_at req j)" using walk_simps(2)[OF w(3)] Suc.prems(1) w(2) by simp
  have loop: "user_loop env prm this (length ps - j) u a (?W j) = bind_res (user_page prm this r ?p ?a (?W (Suc j)))
    (\<lambda>(a, s). user_loop env prm this k ?u a s)"
    unfolding Suc(2)[symmetric] user_loop.simps Suc.prems(2) st using ne
    by (cases "user_page prm this r ?p ?a (?W (Suc j))") auto
  show ?case
  proof (cases "Suc j < length ps")
    case True
    have k: "k = length ps - Suc j" using Suc(2) by simp
    have "\<not> block_end prm req (Suc j)" using assms(6) True by simp
    then have e: "user_loop env prm this (length ps - j) u a (?W j) = user_loop env prm this (length ps - Suc j) ?u (?a\<lparr>ua_pages := take (Suc j) ps\<rparr>) (?W (Suc j))"
      unfolding loop up k by simp
    show ?thesis unfolding e using Suc(1)[OF k True us(1), of "?a\<lparr>ua_pages := take (Suc j) ps\<rparr>"] us(2) cnt sm by (simp cong: if_cong)
  next
    case False
    then have j: "Suc j = length ps" "k = 0" using Suc.prems(1) Suc(2) by auto
    have rc: "read_collected prm this r ps (?W (length ps)) = Inr (ret, s1)"
    proof (subst read_collected_all[OF assms(2) _ _ w(2)])
      show "ps \<noteq> []" using j(1) by auto
      then show "get_offset (g_page (?W (length ps)) (hd ps)) = piece_page req 0" using off[of j] j(1) by (simp add: hd_conv_nth)
    qed (use o[of j] j(1) assms(7) in simp_all)
    have em: "pr_is_empty (ui_processing_req ?u)" unfolding us(1) j(1) using walk_simps(2)[OF w(3)] w(2) by simp
    let ?a1 = "if ?be then ?a\<lparr>ua_num_bytes_completed := int32 (ua_num_bytes_completed ?a + ret), ua_pages := []\<rparr> else ?a\<lparr>ua_pages := ps\<rparr>"
    have "user_page prm this r ?p ?a (?W (Suc j)) = Inr (?a1, if ?be then s1 else ?W (length ps))" using up rc j(1) by simp
    then have "user_loop env prm this (length ps - j) u a (?W j) = Inr (?u, ?a1, if ?be then s1 else ?W (length ps))"
      unfolding loop j(2) using em by simp
    then show ?thesis using us cnt sm j(1) by (intro exI[of _ ?u] exI[of _ ?a1]) simp
  qed
qed


lemma inside_no_block_end:
  assumes "basic_req buf req" "gp_block_size prm = 2 ^ b" "ior_inside_RAID_block req (2 ^ b)" "0 < j" "j < req_num_pages req"
  shows "\<not> block_end prm req j"
proof
  assume e: "block_end prm req j"
  let ?B = "2 ^ (b + 12) :: int" let ?p = "piece_page req j" let ?l = "ior_offset req + ior_get_size req - 1"
  have pw: "(2 :: int) ^ b * 4096 = ?B" by (simp add: power_add)
  have m: "?p div ?B * ?B = ?p" using e div_mult_mod_eq[of ?p ?B] unfolding block_end_def assms(2) pw by simp
  have "ior_offset req < piece_page req 0 + 4096" using walk_ends(1)[OF assms(1)] unfolding round_page_eq by linarith
  also have "\<dots> \<le> ?p" using assms(4) piece_page_Suc[of req 0] piece_page_less[of req "Suc 0" j] piece_page_less(1)[of req j "Suc 0"] by auto
  finally have lt: "ior_offset req < ?p" .
  have "?p \<le> ?l" using cut_bounds_req[OF assms(1,5)] by linarith
  then have "?p div ?B \<le> ?l div ?B" by (rule zdiv_mono1) simp
  also have "\<dots> = ior_offset req div ?B" using assms(3) unfolding ior_inside_RAID_block_def PAGE_SIZE_def pw ROUND_eq by simp
  finally have "?p \<le> ior_offset req div ?B * ?B" using m mult_right_mono[of "?p div ?B" "ior_offset req div ?B" ?B] by simp
  also have "\<dots> \<le> ior_offset req"
  proof -
    have "0 \<le> ior_offset req mod ?B" by simp
    then show ?thesis using div_mult_mod_eq[of "ior_offset req" ?B] by linarith
  qed
  finally show False using lt by simp
qed

lemma process_user_req_read:
  assumes "user_walk env this buf req ps old setf r q s0" "basic_read buf req" "or_req q = req\<lparr>ior_io := this\<rparr>"
    "get_offset (setf 0 (g_page s0 (ps ! 0))) = piece_page req 0" "int (length ps) \<le> gp_block_size prm"
    "gp_block_size prm = 2 ^ b" "ior_inside_RAID_block req (2 ^ b)"
    "read_pages prm this READ ps r (walked r q ps setf (length ps) s0) = Inr (ret, s1)"
    "ui_processing_req u = pr_init req" "ui_orig u = 0"
  obtains u' st where "process_user_req env prm this want u s0 = Inr ([], st, u', s1)" "pr_is_empty (ui_processing_req u')"
    "ui_orig u' = r" "want = (st \<noteq> None)" "st \<in> {None, Some IO_OK, Some (IO_PENDING r)}"
    "st = Some IO_OK \<Longrightarrow> (\<forall>k<length ps. ready_hit old setf ps s0 k) \<or> (int32 ret = ior_get_size req)"
proof -
  have w: "distinct ps" "length ps = req_num_pages req" "basic_req buf req" "r \<noteq> 0" using assms(1) by (auto simp: user_walk_def)
  have n0: "0 < length ps" using req_num_pages_pos[OF assms(2)] w(2) by simp
  let ?a = "\<lparr>ua_pages = [], ua_num_pages_ready = 0, ua_num_bytes_completed = 0, ua_dirty_pages = []\<rparr>"
  let ?be = "block_end prm req (length ps)" let ?W = "walked r q ps setf (length ps) s0"
  have nb: "\<forall>j. 0 < j \<and> j < length ps \<longrightarrow> \<not> block_end prm req j"
    using inside_no_block_end[OF w(3) assms(6,7)] w(2) by auto
  have u0: "ui_processing_req u = walk_at req 0" using assms(9) walk_simps(1)[OF w(3)] by simp
  obtain u' a' where l: "user_loop env prm this (length ps) u ?a s0 = Inr (u', a', if ?be then s1 else ?W)"
    "ui_processing_req u' = walk_at req (length ps)" "ui_orig u' = r" "ua_dirty_pages a' = []" "ua_pages a' = (if ?be then [] else ps)"
    "ua_num_pages_ready a' = length (filter (ready_hit old setf ps s0) [0..<length ps])"
    "ua_num_bytes_completed a' = (if ?be then int32 ret else 0)"
    using user_loop_read[OF assms(1-5) nb assms(8) n0 u0, of ?a] assms(10) by (auto simp: walked_def)
  have rc: "read_collected prm this r ps ?W = Inr (ret, s1)"
  proof (subst read_collected_all[OF assms(2) _ _ w(2)])
    show "or_req (g_orig ?W r) = req\<lparr>ior_io := this\<rparr>" using n0 assms(3) by (simp add: walked_def upd_orig_def)
    show "get_offset (g_page ?W (hd ps)) = piece_page req 0"
      using looked_up_page[OF w(1) le_refl n0, of setf s0] assms(4) n0 by (simp add: walked_def upd_orig_def hd_conv_nth)
  qed (use n0 assms(8) in auto)
  have em: "pr_is_empty (ui_processing_req u')" "pr_req (ui_processing_req u') = req" using walk_simps(2,4)[OF w(3)] w(2) l(2) by auto
  let ?st = "if want then Some (if int (ua_num_pages_ready a') = int (length ps) \<or> ua_num_bytes_completed a' = ior_get_size req
      then IO_OK else IO_PENDING r) else None"
  have us: "user_status u' a' = Inr (if int (ua_num_pages_ready a') = int (length ps) \<or> ua_num_bytes_completed a' = ior_get_size req
      then IO_OK else IO_PENDING r)"
    using w(2,4) l(3) em(2) walk_ends(3)[OF w(3)] by (simp add: user_status_def Let_def)
  have "process_user_req env prm this want u s0 = Inr ([], ?st, u', s1)"
    unfolding process_user_req_def u0 walk_simps(6)[OF w(3)] w(2)[symmetric] using l rc us by (auto simp: read_collected_def)
  moreover have "(\<forall>k<length ps. ready_hit old setf ps s0 k) \<or> int32 ret = ior_get_size req" if "?st = Some IO_OK"
  proof -
    have all: "\<forall>k<length ps. ready_hit old setf ps s0 k" if "ua_num_pages_ready a' = length ps"
    proof -
      have "length (filter (ready_hit old setf ps s0) [0..<length ps]) = length [0..<length ps]" using that l(6) by simp
      then have "\<forall>k\<in>set [0..<length ps]. ready_hit old setf ps s0 k" by (metis length_filter_less less_irrefl)
      then show ?thesis by simp
    qed
    moreover have "0 < ior_get_size req" using assms(2) by (simp add: basic_defs)
    ultimately show ?thesis using that l(7) by (auto split: if_splits)
  qed
  ultimately show thesis using that em(1) l(3) by (auto split: if_splits)
qed

end
