(* ===== verification/Cached_User_Write.thy ===== *)
theory Cached_User_Write
  imports Cached_User_Laws
begin

text \<open>
  Writes through \<^verbatim>\<open>process_user_req\<close>, on pages that hold their data or are overwritten as a whole.
\<close>

section \<open>Writing one page\<close>

text \<open>The contents of the file once the request has been carried out.\<close>

definition overlay :: "io_request \<Rightarrow> nat \<Rightarrow> (nat \<Rightarrow> byte) \<Rightarrow> (int \<Rightarrow> byte) \<Rightarrow> int \<Rightarrow> byte" where
  "overlay req buf mem content x = (if ior_offset req \<le> x \<and> x < ior_offset req + ior_get_size req
     then mem (buf + nat (x - ior_offset req)) else content x)"

definition covers_page :: "io_request \<Rightarrow> nat \<Rightarrow> bool" where
  "covers_page req k \<longleftrightarrow> ior_offset req \<le> piece_page req k \<and> piece_page req k + 4096 \<le> ior_offset req + ior_get_size req"

lemma copy_to_page_inside:
  assumes "off + n \<le> length d" "off \<le> i" "i < off + n"
  shows "copy_to_page mem b off n d ! i = mem (b + (i - off))"
proof -
  obtain m where "i = off + m" "m < n" using assms(2,3) by (metis add_less_cancel_left le_iff_add)
  then show ?thesis using assms(1) by (simp add: copy_to_page_def nth_append)
qed

lemma copy_page_overlay:
  assumes "basic_req buf req" "k < req_num_pages req" "length d = 4096" "d = file_page content (piece_page req k) \<or> covers_page req k"
  shows "copy_to_page mem (buf + nat (pcut req k - ior_offset req)) (nat (pcut req k - piece_page req k)) (nat (pcut req (Suc k) - pcut req k)) d
    = file_page (overlay req buf mem content) (piece_page req k)"
proof (rule nth_equalityI)
  note c = cut_bounds_req[OF assms(1,2)]
  let ?o = "nat (pcut req k - piece_page req k)" let ?n = "nat (pcut req (Suc k) - pcut req k)" let ?b = "buf + nat (pcut req k - ior_offset req)"
  have on: "?o + ?n \<le> 4096" using c by linarith
  then show "length (copy_to_page mem ?b ?o ?n d) = length (file_page (overlay req buf mem content) (piece_page req k))"
    using assms(3) by (simp add: copy_to_page_def file_page_def)
  fix i assume "i < length (copy_to_page mem ?b ?o ?n d)"
  then have i: "i < 4096" using on assms(3) by (simp add: copy_to_page_def)
  let ?x = "piece_page req k + int i"
  have r: "file_page (overlay req buf mem content) (piece_page req k) ! i = overlay req buf mem content ?x" using i by (simp add: file_page_def)
  show "copy_to_page mem ?b ?o ?n d ! i = file_page (overlay req buf mem content) (piece_page req k) ! i"
  proof (cases "?o \<le> i \<and> i < ?o + ?n")
    case True
    then have "pcut req k \<le> ?x" "?x < pcut req (Suc k)" using c by linarith+
    then have in_req: "ior_offset req \<le> ?x" "?x < ior_offset req + ior_get_size req" using c by linarith+
    have "copy_to_page mem ?b ?o ?n d ! i = mem (?b + (i - ?o))" using True on assms(3) by (intro copy_to_page_inside) auto
    moreover have "?b + (i - ?o) = buf + nat (?x - ior_offset req)" using True c by linarith
    ultimately show ?thesis unfolding r overlay_def using in_req by simp
  next
    case False
    then have "\<not> (pcut req k \<le> ?x \<and> ?x < pcut req (Suc k))" using c by linarith
    then have out: "\<not> (ior_offset req \<le> ?x \<and> ?x < ior_offset req + ior_get_size req)" using c(6,7) i by linarith
    then have "\<not> covers_page req k" using i unfolding covers_page_def by linarith
    then have "d ! i = content ?x" using assms(4) i by (auto simp: file_page_def)
    moreover have "copy_to_page mem ?b ?o ?n d ! i = d ! i" using False i assms(3) by (auto simp: copy_to_page_def nth_append)
    ultimately show ?thesis unfolding r overlay_def using out by auto
  qed
qed

text \<open>A page fit for the write: it holds its data, or it is clean, idle and overwritten as a whole.\<close>

definition write_fit :: "io_request \<Rightarrow> (int \<Rightarrow> byte) \<Rightarrow> page \<Rightarrow> byte list \<Rightarrow> nat \<Rightarrow> bool" where
  "write_fit req content pg d k \<longleftrightarrow> get_offset pg = piece_page req k \<and> \<not> is_old_dirty pg \<and> length d = 4096
     \<and> (if data_ready pg then d = file_page content (piece_page req k)
        else \<not> is_io_pending pg \<and> \<not> is_dirty pg \<and> covers_page req k)"

definition written :: "page \<Rightarrow> page" where
  "written pg = dec_ref (set_dirty True (if data_ready pg then pg else set_data_ready True pg))"

lemma complete_write:
  assumes "basic_req buf req" "ior_access_method req = WRITE" "or_req (g_orig s r) = req\<lparr>ior_io := io\<rparr>" "k < req_num_pages req"
    "get_offset (g_page s p) = piece_page req k" "length (g_data s p) = 4096"
    "g_data s p = file_page content (piece_page req k) \<or> covers_page req k"
  shows "gc_complete_req p r s = Inr (if is_dirty (g_page s p) then 0 else p,
    upd_gpage p (set_dirty True) (s\<lparr>g_data := (g_data s)(p := file_page (overlay req buf (g_mem s) content) (piece_page req k))\<rparr>))"
proof -
  note c = cut_bounds_req[OF assms(1,4)]
  have b: "ior_payload req = BASIC_REQ buf" using assms(1) by (simp add: basic_req_def)
  have cp: "copy_to_page (g_mem s) (buf + nat (pcut req k - ior_offset req)) (nat (pcut req k - piece_page req k))
      (nat (pcut req (Suc k) - pcut req k)) (g_data s p) = file_page (overlay req buf (g_mem s) content) (piece_page req k)"
    by (rule copy_page_overlay[OF assms(1,4,6,7)])
  show ?thesis unfolding gc_complete_req_def assms(3,5) Let_def
    using b window_piece_req[OF assms(1,4), of io] c(1-3) assms(2,6) cp by simp
qed

lemma write_page_ok:
  assumes "basic_req buf req" "ior_access_method req = WRITE" "orig_at req this oio K (g_orig s r)" "k \<in> K" "K \<subseteq> {..<req_num_pages req}"
    "ior_sync req \<longrightarrow> oio = this" "p \<noteq> 0" "write_fit req content (g_page s p) (g_data s p) k"
  obtains q where "orig_at req this oio (K - {k}) q"
    "write_page prm this r p s = Inr (if data_ready (g_page s p) then ior_get_size req else 4096, if is_dirty (g_page s p) then [] else [p],
       s\<lparr>g_page := (g_page s)(p := written (g_page s p)),
         g_data := (g_data s)(p := file_page (overlay req buf (g_mem s) content) (piece_page req k)),
         g_orig := (g_orig s)(r := q), g_io := (g_io s)(this := report (ior_sync req) r (K - {k}) (g_io s this))\<rparr>)"
proof -
  let ?pg = "g_page s p" let ?s0 = "if data_ready ?pg then s else upd_gpage p (set_data_ready True) s"
  have k: "k < req_num_pages req" and ne: "K \<noteq> {}" using assms(4,5) by auto
  have o: "or_req (g_orig s r) = req\<lparr>ior_io := this\<rparr>" using assms(3) ne by (simp add: orig_at_def)
  have fit: "get_offset ?pg = piece_page req k" "\<not> is_old_dirty ?pg" "length (g_data s p) = 4096"
    "g_data s p = file_page content (piece_page req k) \<or> covers_page req k"
    "\<not> data_ready ?pg \<Longrightarrow> \<not> is_io_pending ?pg \<and> \<not> is_dirty ?pg \<and> covers_page req k"
    using assms(8) by (auto simp: write_fit_def split: if_splits)
  have fl: "get_offset (set_data_ready True pg) = get_offset pg" "get_offset (set_dirty True pg) = get_offset pg" for pg
    by (simp_all add: get_offset_def flag_set_defs page_simps)
  have s0: "g_orig ?s0 = g_orig s" "g_io ?s0 = g_io s" "g_data ?s0 = g_data s" "g_mem ?s0 = g_mem s"
    "get_offset (g_page ?s0 p) = piece_page req k" "is_dirty (g_page ?s0 p) = is_dirty ?pg"
    using fit(1) by (auto simp: upd_gpage_def upd_store_def fl)
  let ?s1 = "upd_gpage p (set_dirty True) (?s0\<lparr>g_data := (g_data s)(p := file_page (overlay req buf (g_mem s) content) (piece_page req k))\<rparr>)"
  have c: "gc_complete_req p r ?s0 = Inr (if is_dirty ?pg then 0 else p, ?s1)"
    using complete_write[OF assms(1,2) _ k, of ?s0 r this p content] o fit(3,4) unfolding s0 by simp
  have s1: "g_orig ?s1 = g_orig s" "g_io ?s1 = g_io s" "get_offset (g_page ?s1 p) = piece_page req k"
    using s0 by (auto simp: upd_gpage_def upd_store_def fl)
  obtain q where q: "orig_at req this oio (K - {k}) q" "finalize_range this (pcut req k) (pcut req (Suc k) - pcut req k) r ?s1
      = Inr (?s1\<lparr>g_orig := (g_orig s)(r := q), g_io := (g_io s)(this := report (ior_sync req) r (K - {k}) (g_io s this))\<rparr>)"
    using finalize_piece_req[OF assms(1) _ assms(4,6), of ?s1 r] assms(3) unfolding s1 by blast
  have f: "finalize_page this p r ?s1 = Inr (?s1\<lparr>g_orig := (g_orig s)(r := q), g_io := (g_io s)(this := report (ior_sync req) r (K - {k}) (g_io s this))\<rparr>)"
    using finalize_page_piece[OF assms(1) k, of ?s1 r this p] o q(2) unfolding s1 by simp
  have res: "upd_gpage p dec_ref (?s1\<lparr>g_orig := (g_orig s)(r := q), g_io := (g_io s)(this := report (ior_sync req) r (K - {k}) (g_io s this))\<rparr>)
    = s\<lparr>g_page := (g_page s)(p := written ?pg),
         g_data := (g_data s)(p := file_page (overlay req buf (g_mem s) content) (piece_page req k)),
         g_orig := (g_orig s)(r := q), g_io := (g_io s)(this := report (ior_sync req) r (K - {k}) (g_io s this))\<rparr>"
    by (auto simp: upd_gpage_def upd_store_def written_def)
  note cb = cut_bounds_req[OF assms(1) k]
  have ov: "ior_has_overlap (req\<lparr>ior_io := this\<rparr>) (piece_page req k) 4096" using cb(1-7) by (auto simp: ior_has_overlap_def)
  show thesis
  proof (rule that[OF q(1)])
    show "write_page prm this r p s = Inr (if data_ready ?pg then ior_get_size req else 4096, if is_dirty ?pg then [] else [p],
       s\<lparr>g_page := (g_page s)(p := written ?pg),
         g_data := (g_data s)(p := file_page (overlay req buf (g_mem s) content) (piece_page req k)),
         g_orig := (g_orig s)(r := q), g_io := (g_io s)(this := report (ior_sync req) r (K - {k}) (g_io s this))\<rparr>)"
    proof (cases "data_ready ?pg")
      case True
      then show ?thesis using c f res fit(2) o assms(7) by (simp add: write_page_def Let_def)
    next
      case False
      then have cv: "\<not> is_io_pending ?pg" "\<not> is_dirty ?pg" "ior_offset req \<le> piece_page req k" "piece_page req k + 4096 \<le> ior_offset req + ior_get_size req"
        using fit(5) by (auto simp: covers_page_def)
      then show ?thesis using False c f res fit(1,2) o ov assms(7) by (simp add: write_page_def Let_def)
    qed
  qed
qed


section \<open>The walk of a write\<close>

lemma written_props: "data_ready (written pg)" "is_dirty (written pg)" "is_old_dirty (written pg) = is_old_dirty pg"
  "page_loc (written pg) = page_loc pg" "pg_refcnt (written pg) = int16 (pg_refcnt pg - 1)"
  by (cases "data_ready pg"; simp add: written_def dec_ref_def;
      simp add: flag_set_defs flag_get_defs page_simps bit_page_set_flag page_loc_def get_offset_def get_flags_bit_def)+

definition write_mid :: "nat \<Rightarrow> io_request \<Rightarrow> nat \<Rightarrow> (int \<Rightarrow> byte) \<Rightarrow> nat list \<Rightarrow> (nat \<Rightarrow> page \<Rightarrow> page) \<Rightarrow> nat \<Rightarrow> gstate \<Rightarrow> nat \<Rightarrow> gstate \<Rightarrow> bool" where
  "write_mid this req buf content ps setf r s0 j s \<longleftrightarrow> g_mem s = g_mem s0 \<and> g_reqs s = g_reqs s0
     \<and> (\<forall>k<length ps. if k < j then g_page s (ps ! k) = written (setf k (g_page s0 (ps ! k)))
            \<and> g_data s (ps ! k) = file_page (overlay req buf (g_mem s0) content) (piece_page req k)
          else g_page s (ps ! k) = g_page s0 (ps ! k) \<and> g_data s (ps ! k) = g_data s0 (ps ! k))
     \<and> (\<forall>p. p \<notin> set ps \<longrightarrow> g_page s p = g_page s0 p \<and> g_data s p = g_data s0 p)
     \<and> (j = 0 \<longrightarrow> s = s0) \<and> (0 < j \<longrightarrow> orig_at req this (ior_io req) {j..<length ps} (g_orig s r))
     \<and> g_io s = (if j = length ps then (g_io s0)(this := report (ior_sync req) r {} (g_io s0 this)) else g_io s0)"

lemma write_step:
  assumes "user_walk env this buf req ps old setf r q s0" "orig_at req this (ior_io req) {..<length ps} q"
    "ior_access_method req = WRITE" "ior_sync req \<longrightarrow> ior_io req = this"
    "write_fit req content (setf j (g_page s0 (ps ! j))) (g_data s0 (ps ! j)) j"
    "write_mid this req buf content ps setf r s0 j s" "j < length ps" "ui_processing_req u = walk_at req j" "ui_orig u = (if j = 0 then 0 else r)"
  obtains a' s' where "user_step env prm this u a s = Inr (True, stepped req j r (loc_off (old j) = - 1) u, a', s')"
    "write_mid this req buf content ps setf r s0 (Suc j) s'"
    "ua_pages a' = ua_pages a" "ua_num_pages_ready a' = ua_num_pages_ready a + (if ready_hit old setf ps s0 j then 1 else 0)"
    "ua_dirty_pages a' = ua_dirty_pages a @ (if is_dirty (setf j (g_page s0 (ps ! j))) then [] else [ps ! j])"
    "ua_num_bytes_completed a' = int32 (ua_num_bytes_completed a +
       (if data_ready (setf j (g_page s0 (ps ! j))) then ior_get_size req else 4096))"
proof -
  have w: "basic_req buf req" "distinct ps" "length ps = req_num_pages req" "0 \<notin> set ps" "r \<noteq> 0" using assms(1) by (auto simp: user_walk_def)
  let ?p = "ps ! j" let ?pg = "setf j (g_page s0 ?p)" let ?a = "counted_page (ready_hit old setf ps s0 j) a"
  let ?s1 = "if j = 0 then upd_orig r (\<lambda>_. q) (upd_gpage (ps ! 0) (setf 0) s) else upd_gpage (ps ! j) (setf j) s"
  let ?K = "{j..<length ps}" let ?ov = "overlay req buf (g_mem s0) content"
  have m: "g_mem s = g_mem s0" "g_page s ?p = g_page s0 ?p" "g_data s ?p = g_data s0 ?p" "j = 0 \<longrightarrow> s = s0" "g_io s = g_io s0"
    using assms(6,7) by (auto simp: write_mid_def)
  have st: "user_step env prm this u a s = bind_res (user_page prm this r ?p ?a ?s1)
      (\<lambda>(a, s). Inr (True, stepped req j r (loc_off (old j) = - 1) u, a, s))"
    by (rule user_step_found[OF assms(1,7,8) m(2,4) assms(9)])
  have s1: "g_page ?s1 = (g_page s)(?p := ?pg)" "g_data ?s1 = g_data s" "g_mem ?s1 = g_mem s0" "g_io ?s1 = g_io s0" "g_reqs ?s1 = g_reqs s"
    using m by (auto simp: upd_orig_def upd_gpage_def upd_store_def)
  have o: "orig_at req this (ior_io req) ?K (g_orig ?s1 r)" using assms(2,6) lessThan_atLeast0[of "length ps"]
    by (cases "j = 0") (auto simp: write_mid_def upd_orig_def upd_gpage_def)
  have fit: "write_fit req content (g_page ?s1 ?p) (g_data ?s1 ?p) j" using assms(5,7) m(3) s1(1,2) by simp
  have p0: "?p \<noteq> 0" using w(4) assms(7) by (metis nth_mem)
  have K: "j \<in> ?K" "?K \<subseteq> {..<req_num_pages req}" "?K - {j} = {Suc j..<length ps}" using assms(7) w(3) by auto
  obtain q' where q': "orig_at req this (ior_io req) {Suc j..<length ps} q'"
    "write_page prm this r ?p ?s1 = Inr (if data_ready ?pg then ior_get_size req else 4096, if is_dirty ?pg then [] else [?p],
       ?s1\<lparr>g_page := (g_page ?s1)(?p := written ?pg), g_data := (g_data s)(?p := file_page ?ov (piece_page req j)),
         g_orig := (g_orig ?s1)(r := q'), g_io := (g_io s0)(this := report (ior_sync req) r {Suc j..<length ps} (g_io s0 this))\<rparr>)"
    using write_page_ok[OF w(1) assms(3) o K(1,2) assms(4) p0 fit, of prm] unfolding K(3) s1(2,3,4) by (auto simp: s1(1))
  let ?s2 = "?s1\<lparr>g_page := (g_page ?s1)(?p := written ?pg), g_data := (g_data s)(?p := file_page ?ov (piece_page req j)),
         g_orig := (g_orig ?s1)(r := q'), g_io := (g_io s0)(this := report (ior_sync req) r {Suc j..<length ps} (g_io s0 this))\<rparr>"
  let ?a2 = "?a\<lparr>ua_num_bytes_completed := int32 (ua_num_bytes_completed ?a + (if data_ready ?pg then ior_get_size req else 4096)),
    ua_dirty_pages := ua_dirty_pages ?a @ (if is_dirty ?pg then [] else [?p])\<rparr>"
  have "or_req (g_orig ?s1 r) = req\<lparr>ior_io := this\<rparr>" using o K(1) by (auto simp: orig_at_def)
  then have up: "user_page prm this r ?p ?a ?s1 = Inr (?a2, ?s2)" unfolding user_page_def q'(2) using assms(3) by simp
  have ne: "ps ! k = ?p \<longleftrightarrow> k = j" if "k < length ps" for k using w(2) that assms(7) by (simp add: nth_eq_iff_index_eq)
  have mid: "write_mid this req buf content ps setf r s0 (Suc j) ?s2"
    unfolding write_mid_def
  proof (intro conjI allI impI)
    fix k assume k: "k < length ps"
    show "if k < Suc j then g_page ?s2 (ps ! k) = written (setf k (g_page s0 (ps ! k))) \<and> g_data ?s2 (ps ! k) = file_page ?ov (piece_page req k)
      else g_page ?s2 (ps ! k) = g_page s0 (ps ! k) \<and> g_data ?s2 (ps ! k) = g_data s0 (ps ! k)"
      using assms(6) k ne[OF k] s1(1) by (auto simp: write_mid_def less_Suc_eq)
  next
    fix p assume p: "p \<notin> set ps"
    then have "p \<noteq> ?p" using assms(7) by auto
    then show "g_page ?s2 p = g_page s0 p" "g_data ?s2 p = g_data s0 p" using assms(6) p s1(1) by (auto simp: write_mid_def)
  next
    show "g_io ?s2 = (if Suc j = length ps then (g_io s0)(this := report (ior_sync req) r {} (g_io s0 this)) else g_io s0)"
      using assms(7) by (auto simp: report_def)
    show "g_reqs ?s2 = g_reqs s0" using assms(6) s1(5) by (simp add: write_mid_def)
  qed (use s1(3) q'(1) in simp_all)
  show thesis by (rule that[of ?a2 ?s2]) (use st up mid in \<open>auto simp: counted_page_def\<close>)
qed


lemma user_loop_write:
  assumes "user_walk env this buf req ps old setf r q s0" "orig_at req this (ior_io req) {..<length ps} q"
    "ior_access_method req = WRITE" "ior_sync req \<longrightarrow> ior_io req = this"
    "\<forall>k<length ps. write_fit req content (setf k (g_page s0 (ps ! k))) (g_data s0 (ps ! k)) k"
    and "j \<le> length ps" "write_mid this req buf content ps setf r s0 j s" "ui_processing_req u = walk_at req j"
      "ui_orig u = (if j = 0 then 0 else r)"
  shows "\<exists>u' a' s'. user_loop env prm this (length ps - j) u a s = Inr (u', a', s')
    \<and> write_mid this req buf content ps setf r s0 (length ps) s' \<and> ui_processing_req u' = walk_at req (length ps) \<and> ui_orig u' = r
    \<and> ua_pages a' = ua_pages a
    \<and> ua_dirty_pages a' = ua_dirty_pages a @ map (nth ps) (filter (\<lambda>k. \<not> is_dirty (setf k (g_page s0 (ps ! k)))) [j..<length ps])"
  using assms(6-)
proof (induction "length ps - j" arbitrary: j u a s)
  case 0
  have w: "basic_req buf req" "length ps = req_num_pages req" using assms(1) by (auto simp: user_walk_def)
  have "j = length ps" using 0 by simp
  moreover have "length ps \<noteq> 0" using req_num_pages_pos_req[OF w(1)] w(2) by simp
  ultimately show ?case using 0 walk_simps(2)[OF w(1)] w(2) by auto
next
  case (Suc k)
  have w: "basic_req buf req" "length ps = req_num_pages req" using assms(1) by (auto simp: user_walk_def)
  have j: "j < length ps" "k = length ps - Suc j" using Suc(2) by auto
  let ?u = "stepped req j r (loc_off (old j) = - 1) u"
  obtain a1 s1 where st: "user_step env prm this u a s = Inr (True, ?u, a1, s1)" "write_mid this req buf content ps setf r s0 (Suc j) s1"
    "ua_pages a1 = ua_pages a" "ua_dirty_pages a1 = ua_dirty_pages a @ (if is_dirty (setf j (g_page s0 (ps ! j))) then [] else [ps ! j])"
    by (rule write_step[where content = content, OF assms(1-4) _ Suc.prems(2) j(1) Suc.prems(3,4), of prm a])
      (use assms(5) j(1) in blast)
  have us: "ui_processing_req ?u = walk_at req (Suc j)" "ui_orig ?u = (if Suc j = 0 then 0 else r)" by (simp_all add: stepped_def)
  have "\<not> pr_is_empty (walk_at req j)" using walk_simps(2)[OF w(1)] j(1) w(2) by simp
  then have e: "user_loop env prm this (length ps - j) u a s = user_loop env prm this (length ps - Suc j) ?u a1 s1"
    unfolding Suc(2)[symmetric] j(2)[symmetric] using st(1) Suc.prems(3) by simp
  have "Suc j \<le> length ps" using j(1) by simp
  from Suc(1)[OF j(2) this st(2) us, of a1] show ?case unfolding e using st(3,4) j(1) by (auto simp: upt_conv_Cons)
qed

end
