(* ===== verification/Cached_Write_Props.thy ===== *)
theory Cached_Write_Props
  imports Cached_IO_Props
begin

text \<open>
  Two places where the write path of \<^verbatim>\<open>global_cached_private.cpp\<close> goes wrong: the page that \<^verbatim>\<open>__write\<close> reads before it
  writes a part of it, and the assertion of \<^verbatim>\<open>write_dirty_page\<close>.
\<close>

lemma page_request_spec:
  assumes "node \<le> MAX_NODE_ID"
  obtains x where "page_request this p loc acc node = Inr x" "req_bufs x = [page_buf p]" "ior_offset x = loc_off loc"
    "ior_file_id x = loc_file_id loc" "ior_access_method x = acc"
proof -
  let ?m = "(new_io_request False)\<lparr>ior_payload := EXT_REQ new_io_req_extension, ior_file_id := loc_file_id loc, ior_offset := loc_off loc,
    ior_io := this, ior_access_method := acc, ior_node_id := node\<rparr>"
  have m: "new_ext_request new_io_req_extension loc acc this node = Inr ?m"
    using assms by (simp add: new_ext_request_def ior_init_def new_io_request_def)
  have w: "ext_req_wf ?m" "req_bufs ?m = []" using new_ext_wf by (simp_all add: req_bufs_def ext_req_wf_def)
  obtain x where "bind_res (ior_add_page p ?m) (ior_set_priv p) = Inr x" "req_bufs x = req_bufs ?m @ [page_buf p]"
    "ior_access_method x = ior_access_method ?m" "ior_offset x = ior_offset ?m" "ior_file_id x = ior_file_id ?m"
    using page_request_parts[OF w(1), of p] w(2) by auto
  then show thesis using m w(2) by (intro that[of x]) (simp_all add: page_request_def)
qed

lemma page_add_req_ok:
  assumes "on_page s p r"
  obtains s' where "page_add_req p r s = Inr s'" "g_io s' = g_io s" "g_page s' = g_page s" "g_reqs s' p = r"
    "or_req (g_orig s' r) = or_req (g_orig s r)" "or_oir (g_orig s' r) = or_oir (g_orig s r)"
  using assms by (auto simp: on_page_def page_add_req_def set_next_req_on_page_def upd_orig_def split: sum.splits)

lemma write_page_partial:
  assumes "\<not> data_ready (g_page s p)" "\<not> is_io_pending (g_page s p)" "\<not> is_dirty (g_page s p)" "\<not> is_old_dirty (g_page s p)"
    "g_reqs s p = 0" "on_page s p r" "gp_merge_reqs prm" "pg_node_id (g_page s p) \<le> MAX_NODE_ID"
    "ior_offset (or_req (g_orig s r)) < get_offset (g_page s p)" "get_offset (g_page s p) < ior_end (or_req (g_orig s r))"
    "ior_end (or_req (g_orig s r)) < get_offset (g_page s p) + PAGE_SIZE"
  obtains s' x where "write_page prm this r p s = Inr (0, [], s')"
    "g_io s' = (g_io s)(this := gc_underlying_requests_update (\<lambda>q. q @ [x]) (g_io s this))"
    "req_bufs x = [page_buf p]" "ior_access_method x = READ" "ior_offset x = round_page (ior_offset (or_req (g_orig s r)))"
    "get_offset (g_page s' p) = get_offset (g_page s p)" "g_reqs s' p = r" "or_oir (g_orig s' r) = or_oir (g_orig s r)"
proof -
  let ?orig = "or_req (g_orig s r)" let ?s0 = "upd_gpage p (set_io_pending True) s"
  have off: "get_offset (set_io_pending True pg) = get_offset pg" for pg by (simp add: get_offset_def flag_set_defs page_simps)
  have ov: "ior_has_overlap ?orig (get_offset (g_page s p)) PAGE_SIZE" using assms(9-11) by (simp add: ior_has_overlap_def ior_end_def)
  obtain x where x: "page_request this p \<lparr>loc_file_id = ior_file_id ?orig, loc_off = round_page (ior_offset ?orig)\<rparr> READ
      (pg_node_id (g_page s p)) = Inr x" "req_bufs x = [page_buf p]" "ior_offset x = round_page (ior_offset ?orig)" "ior_access_method x = READ"
    using page_request_spec[OF assms(8)] by (metis data_loc_t.select_convs(2))
  have "on_page ?s0 p r" using assms(6) by (simp add: on_page_def upd_gpage_def upd_store_def off)
  then obtain s1 where s1: "page_add_req p r ?s0 = Inr s1" "g_io s1 = g_io s" "g_page s1 = g_page ?s0" "g_reqs s1 p = r"
    "or_oir (g_orig s1 r) = or_oir (g_orig s r)" by (rule page_add_req_ok) (simp add: upd_gpage_def)
  let ?s' = "upd_io this (gc_underlying_requests_update (\<lambda>q. q @ [x])) s1"
  show thesis
  proof (rule that)
    show "write_page prm this r p s = Inr (0, [], ?s')"
      using assms(1-5,7,9-11) ov x(1) s1(1) by (simp add: write_page_def Let_def send2underlying_def ior_end_def)
    show "get_offset (g_page ?s' p) = get_offset (g_page s p)" using s1(3) by (simp add: upd_io_def upd_gpage_def upd_store_def off)
  qed (use x s1 in \<open>simp_all add: upd_io_def\<close>)
qed

text \<open>
  C38. A write whose last page is only partly overwritten corrupts that page when it is not in the cache. \<^verbatim>\<open>__write\<close> first
  reads the page, but from the offset of the first page of the request (\<^verbatim>\<open>ROUND_PAGE(off)\<close> of the request, not
  \<^verbatim>\<open>p->get_offset()\<close>): once the disk has answered, the page of the end of the request holds the bytes of its beginning.
\<close>

theorem partial_write_reads_wrong_page:
  assumes "\<not> data_ready (g_page s p)" "\<not> is_io_pending (g_page s p)" "\<not> is_dirty (g_page s p)" "\<not> is_old_dirty (g_page s p)"
    "g_reqs s p = 0" "on_page s p r" "gp_merge_reqs prm" "pg_node_id (g_page s p) \<le> MAX_NODE_ID"
    "ior_offset (or_req (g_orig s r)) < get_offset (g_page s p)" "get_offset (g_page s p) < ior_end (or_req (g_orig s r))"
    "ior_end (or_req (g_orig s r)) < get_offset (g_page s p) + PAGE_SIZE"
  shows "\<exists>s' x. write_page prm this r p s = Inr (0, [], s')
    \<and> gc_underlying_requests (g_io s' this) = gc_underlying_requests (g_io s this) @ [x]
    \<and> req_bufs x = [page_buf p] \<and> ior_access_method x = READ \<and> ior_offset x \<noteq> get_offset (g_page s' p) \<and> g_reqs s' p = r
    \<and> g_data (disk_serve disk x s') p = file_page (disk (ior_file_id x)) (round_page (ior_offset (or_req (g_orig s r))))"
proof -
  obtain s' x where w: "write_page prm this r p s = Inr (0, [], s')"
    "g_io s' = (g_io s)(this := gc_underlying_requests_update (\<lambda>q. q @ [x]) (g_io s this))"
    "req_bufs x = [page_buf p]" "ior_access_method x = READ" "ior_offset x = round_page (ior_offset (or_req (g_orig s r)))"
    "get_offset (g_page s' p) = get_offset (g_page s p)" "g_reqs s' p = r"
    by (rule write_page_partial[OF assms])
  have "round_page (ior_offset (or_req (g_orig s r))) \<noteq> get_offset (g_page s p)" using assms(9) unfolding round_page_eq by linarith
  then show ?thesis using w by (intro exI[of _ s'] exI[of _ x]) (simp add: disk_serve_def page_buf_def)
qed

definition sample_write :: io_request where
  "sample_write = sample_req\<lparr>ior_access_method := WRITE\<rparr>"

definition sample_write_state :: gstate where
  "sample_write_state = sample_gstate\<lparr>g_orig := (\<lambda>r. (g_orig sample_gstate r)\<lparr>or_req := sample_write\<rparr>)\<rparr>"

theorem partial_write_reads_wrong_page_witness:
  "\<exists>s' x. write_page sample_params 0 6 2 sample_write_state = Inr (0, [], s')
    \<and> req_bufs x = [page_buf 2] \<and> ior_access_method x = READ \<and> get_offset (g_page sample_write_state 2) = 8192
    \<and> g_data (disk_serve (\<lambda>_. sample_content) x s') 2 = file_page sample_content 4096"
proof -
  let ?s = sample_write_state
  have st: "g_page ?s = g_page sample_gstate" "g_reqs ?s 2 = 0" "or_req (g_orig ?s 6) = sample_write" "gp_merge_reqs sample_params"
    by (simp_all add: sample_write_state_def sample_gstate_def sample_params_def)
  have r: "ior_offset sample_write = 4196" "ior_end sample_write = 12196" "round_page 4196 = 4096"
    by (simp_all add: sample_write_def sample_req_def new_io_request_def ior_end_def ior_get_size_def round_page_def ROUND_def)
  have o: "get_offset (g_page ?s 2) = 8192" "pg_node_id (g_page ?s 2) \<le> MAX_NODE_ID"
    using sample_locs(2) by (simp_all add: st(1) page_loc_def sample_gstate_def page_simps set_id_def set_offset_def empty_page_def MAX_NODE_ID_def)
  have "or_page_index (g_orig sample_gstate 6) 8192 = Inr 1"
    using orig_index[OF sample_orig[of 6], of 1] unfolding sample_pages(1,3) by simp
  moreover have "or_oir (g_orig ?s 6) = or_oir (g_orig sample_gstate 6)" by (simp add: sample_write_state_def)
  ultimately have on: "on_page ?s 2 6" by (simp add: on_page_def o(1) or_page_index_def)
  have e: "\<exists>s' x. write_page sample_params 0 6 2 ?s = Inr (0, [], s')
    \<and> gc_underlying_requests (g_io s' 0) = gc_underlying_requests (g_io ?s 0) @ [x]
    \<and> req_bufs x = [page_buf 2] \<and> ior_access_method x = READ \<and> ior_offset x \<noteq> get_offset (g_page s' 2) \<and> g_reqs s' 2 = 6
    \<and> g_data (disk_serve (\<lambda>_. sample_content) x s') 2 = file_page sample_content (round_page (ior_offset (or_req (g_orig ?s 6))))"
  proof (rule partial_write_reads_wrong_page)
  qed (use sample_flags(2-5) st on o r in \<open>simp_all\<close>)
  then show ?thesis using o(1) r(1,3) st(3) by auto
qed

text \<open>
  The assertion of \<^verbatim>\<open>write_dirty_page\<close> that the data written back does not overlap the request that caused the eviction:
  \<^verbatim>\<open>has_overlap\<close> counts a range that ends exactly where the request begins, so a request that ends at the page being
  evicted aborts the program.
\<close>

lemma adjacent_writeback_asserts:
  assumes "\<not> is_io_pending (g_page s p)" "0 < pg_refcnt (g_page s p)" "on_page s p r" "pg_node_id (g_page s p) \<le> MAX_NODE_ID"
    "\<not> gp_cache_large_write prm" "ior_end (or_req (g_orig s r)) = loc_off pg_id"
  shows "write_dirty_page prm look this p pg_id r s = Inl Assert_failed"
proof -
  let ?s0 = "upd_gpage p (set_io_pending True) s"
  let ?m = "(new_io_request False)\<lparr>ior_payload := EXT_REQ (new_io_req_extension\<lparr>ext_priv := p\<rparr>), ior_file_id := loc_file_id pg_id,
    ior_offset := loc_off pg_id, ior_io := this, ior_access_method := WRITE, ior_node_id := pg_node_id (g_page ?s0 p)\<rparr>"
  have fl: "get_offset (set_io_pending True pg) = get_offset pg" "pg_refcnt (set_io_pending True pg) = pg_refcnt pg"
    "pg_node_id (set_io_pending True pg) = pg_node_id pg" for pg by (simp_all add: get_offset_def flag_set_defs page_simps)
  have n: "pg_node_id (g_page ?s0 p) \<le> MAX_NODE_ID" "0 < pg_refcnt (g_page ?s0 p)" "on_page ?s0 p r"
    using assms(2-4) by (simp_all add: on_page_def upd_gpage_def upd_store_def fl)
  have m: "new_ext_request (new_io_req_extension\<lparr>ext_priv := p\<rparr>) pg_id WRITE this (pg_node_id (g_page ?s0 p)) = Inr ?m"
    using n(1) by (simp add: new_ext_request_def ior_init_def new_io_request_def)
  let ?e = "new_io_req_extension\<lparr>ext_priv := p\<rparr>"
  have w: "ext_wf ?e" "ext_bufs ?e = []" using new_ext_wf by (simp_all add: ext_wf_def ext_bufs_def)
  obtain e1 where e1: "ext_add_io_buf ?e (page_buf p) = Inr e1" "ext_wf e1" "ext_bufs e1 = [page_buf p]"
    using ext.push_spec[OF w(1), of "page_buf p"] w(2) by (auto simp: buf_ok_def page_buf_def)
  let ?x = "?m\<lparr>ior_payload := EXT_REQ e1\<rparr>"
  have pl: "ior_payload ?m = EXT_REQ ?e" by simp
  have "ior_get_size ?x = ext_get_size e1" by (simp add: ior_get_size_def)
  also have "\<dots> = PAGE_SIZE" using ext_size_pages[OF e1(2), of "\<lambda>_. 0" 0] e1(3) by (simp add: page_buf_def)
  finally have x: "ior_add_page p ?m = Inr ?x" "ior_offset ?x = loc_off pg_id" "ior_get_size ?x = PAGE_SIZE" using e1(1)
    by (simp_all add: ior_add_page_def ior_map_ext_EXT[OF pl] ext_add_buf_def io_buf_init_def page_buf_def)
  obtain s1 where s1: "page_add_req p r ?s0 = Inr s1" "or_req (g_orig s1 r) = or_req (g_orig s r)"
    using n(3) by (rule page_add_req_ok) (simp add: upd_gpage_def)
  show ?thesis
    using assms(1,5,6) m n(2) x s1 by (simp add: write_dirty_page_def Let_def merge_pages2req_def ior_has_overlap_def ior_end_def upd_gpage_def)
qed

end
