(* ===== verification/Cached_User_Props.thy ===== *)
theory Cached_User_Props
  imports Cached_User_Laws Cached_Write_Props
begin

text \<open>
  What the application observes: reads and writes through \<^verbatim>\<open>process_user_req\<close>, the status it returns, and the callbacks.
\<close>

section \<open>Reads\<close>

text \<open>The bytes completed are all the bytes of the request only if no page is missing.\<close>

lemma partial_sum:
  assumes "basic_read buf req" "n = req_num_pages req" "n \<le> 4096" "k < n" "\<not> P k"
  shows "int32 (\<Sum>i\<leftarrow>filter P [0..<n]. pcut req (Suc i) - pcut req i) \<noteq> ior_get_size req"
proof -
  let ?f = "\<lambda>i. pcut req (Suc i) - pcut req i"
  have pos: "0 < ?f i" "?f i \<le> 4096" if "i < n" for i using cut_bounds[OF assms(1), of i] that assms(2) by linarith+
  have "(\<Sum>i<m. ?f i) = pcut req m - pcut req 0" for m by (induction m) auto
  then have tot: "(\<Sum>i<n. ?f i) = ior_get_size req" using pcut_ends[OF basic_read_req[OF assms(1)]] assms(2) by simp
  have sl: "(\<Sum>i\<leftarrow>filter P [0..<n]. ?f i) = (\<Sum>i\<in>{i. i < n \<and> P i}. ?f i)"
    by (subst sum_list_distinct_conv_sum_set) (auto simp: conj_commute)
  have "(\<Sum>i\<in>{i. i < n \<and> P i}. ?f i) < (\<Sum>i<n. ?f i)"
    using assms(4,5) pos(1) by (intro sum_strict_mono2[of _ _ k]) (auto intro: less_imp_le)
  moreover have "0 \<le> (\<Sum>i\<in>{i. i < n \<and> P i}. ?f i)" using pos(1) by (intro sum_nonneg) (auto intro: less_imp_le)
  moreover have "(\<Sum>i<n. ?f i) \<le> of_nat (card {..<n}) * 4096" using pos(2) by (intro sum_bounded_above) auto
  ultimately show ?thesis using assms(3) unfolding sl tot by (simp add: int32_id)
qed


text \<open>
  C1. A read of the application returns the contents of the file. Let \<^verbatim>\<open>process_user_req\<close> walk over a request for several pages
  inside one RAID block, with whatever pages the page cache finds for it (\<open>ps\<close>, to which the search does \<open>setf\<close>): the walk
  ends, asks the disks for exactly the pages that are missing, and reports \<^verbatim>\<open>IO_OK\<close> only if none is. In whatever order the
  disks answer, processing their answers and the pending requests fills the buffer of the request with the bytes of the
  file and no other memory, reports the request exactly once and gives back the references the searches have taken.
\<close>

theorem user_read_returns_file:
  assumes "user_walk env this buf req ps old setf r q s"
    "read_setup prm this (ior_io req) r req buf (disk (ior_file_id req)) ps (walked r q ps setf (length ps) s)"
    "gp_block_size prm = 2 ^ b" "b \<le> 12" "ior_inside_RAID_block req (2 ^ b)"
    "gc_underlying_requests (g_io s this) = []" "gc_pending_requests (g_io s this) = []" "sorts srt"
    "ui_processing_req u = pr_init req" "ui_orig u = 0"
  shows "\<exists>st u' s1 s2 sent. process_user_req env prm this want u s = Inr ([], st, u', s1) \<and> gc_flush prm this s1 = Inr s2
    \<and> pr_is_empty (ui_processing_req u') \<and> want = (st \<noteq> None) \<and> st \<in> {None, Some IO_OK, Some (IO_PENDING r)}
    \<and> (st = Some IO_OK \<longrightarrow> (\<forall>k<length ps. data_ready (setf k (g_page s (ps ! k)))))
    \<and> gc_sent (g_io s2 this) = gc_sent (g_io s this) @ sent
    \<and> ptrs sent = filter (\<lambda>p. \<not> data_ready (g_page (walked r q ps setf (length ps) s) p)) ps
    \<and> (\<forall>answers. mset answers = mset sent \<longrightarrow>
        (\<exists>s3 s4. process_disk_completed_requests fuel srt this answers (fold (disk_serve disk) answers s2) = Inr s3
          \<and> handle_pending_requests prm this s3 = Inr (length (ptrs answers), [], s4)
          \<and> g_mem s4 = (\<lambda>a. if buf \<le> a \<and> a < buf + nat (ior_get_size req)
                then disk (ior_file_id req) (ior_offset req + (int a - int buf)) else g_mem s a)
          \<and> g_reqs s4 = g_reqs s
          \<and> io_core (g_io s4 this) = (if ior_sync req then (gc_complete_queue (g_io s this), [], gc_woken (g_io s this) @ [r])
                else (gc_complete_queue (g_io s this) @ [r], [], gc_woken (g_io s this)))
          \<and> (\<forall>k<length ps. data_ready (g_page s4 (ps ! k))
                \<and> g_data s4 (ps ! k) = file_page (disk (ior_file_id req)) (piece_page req k)
                \<and> pg_refcnt (g_page s4 (ps ! k)) = int16 (pg_refcnt (setf k (g_page s (ps ! k))) - 1))))"
proof -
  let ?W = "walked r q ps setf (length ps) s"
  have su: "basic_read buf req" "length ps = req_num_pages req" "int (length ps) \<le> gp_block_size prm" "length ps \<le> 4096"
    "orig_at req this (ior_io req) {..<req_num_pages req} (g_orig ?W r)" "distinct ps"
    using assms(2) by (auto simp: read_setup_def)
  have n0: "0 < length ps" using req_num_pages_pos[OF su(1)] su(2) by simp
  have W: "g_io ?W = g_io s" "g_mem ?W = g_mem s" "g_reqs ?W = g_reqs s" "g_orig ?W r = q"
    using walked_rest n0 by simp_all
  have gp: "g_page ?W (ps ! k) = setf k (g_page s (ps ! k))" if "k < length ps" for k
    by (rule walked_page[OF su(6) that])
  have q: "or_req q = req\<lparr>ior_io := this\<rparr>" using su(2,5) W(4) n0 by (auto simp: orig_at_def)
  have po: "get_offset (setf 0 (g_page s (ps ! 0))) = piece_page req 0"
    using assms(2) n0 gp[of 0] by (auto simp: read_setup_def page_state_def page_loc_def)
  obtain ret s1 s2 sent where rd: "read_pages prm this READ ps r ?W = Inr (ret, s1)" "gc_flush prm this s1 = Inr s2"
    and rest: "gc_sent (g_io s2 this) = gc_sent (g_io ?W this) @ sent" "ptrs sent = filter (cold ?W) ps"
      "\<forall>answers. mset answers = mset sent \<longrightarrow>
        (\<exists>s3 s4. process_disk_completed_requests fuel srt this answers (fold (disk_serve disk) answers s2) = Inr s3
          \<and> handle_pending_requests prm this s3 = Inr (length (ptrs answers), [], s4)
          \<and> g_mem s4 = (\<lambda>a. if buf \<le> a \<and> a < buf + nat (ior_get_size req)
                then disk (ior_file_id req) (ior_offset req + (int a - int buf)) else g_mem ?W a)
          \<and> g_reqs s4 = g_reqs ?W
          \<and> io_core (g_io s4 this) = (if ior_sync req then (gc_complete_queue (g_io ?W this), [], gc_woken (g_io ?W this) @ [r])
                else (gc_complete_queue (g_io ?W this) @ [r], [], gc_woken (g_io ?W this)))
          \<and> (\<forall>k<length ps. data_ready (g_page s4 (ps ! k))
                \<and> g_data s4 (ps ! k) = file_page (disk (ior_file_id req)) (piece_page req k)
                \<and> pg_refcnt (g_page s4 (ps ! k)) = int16 (pg_refcnt (g_page ?W (ps ! k)) - 1)))"
    using read_returns_file[where disk = disk, OF assms(2,3,4,5), of srt fuel] assms(6-8) unfolding W by blast
  obtain s1' where ret: "Inr (ret, s1) = Inr (\<Sum>k\<leftarrow>filter (\<lambda>k. \<not> cold ?W (ps ! k)) [0..<length ps]. pcut req (Suc k) - pcut req k, s1')"
    by (rule read_pages_spec[OF assms(2)]) (use rd(1) in simp)
  obtain u' st where p: "process_user_req env prm this want u s = Inr ([], st, u', s1)" "pr_is_empty (ui_processing_req u')"
    "want = (st \<noteq> None)" "st \<in> {None, Some IO_OK, Some (IO_PENDING r)}"
    "st = Some IO_OK \<longrightarrow> (\<forall>k<length ps. ready_hit old setf ps s k) \<or> (int32 ret = ior_get_size req)"
    using process_user_req_read[OF assms(1) su(1) q po su(3) assms(3,5) rd(1) assms(9,10), of want] by metis
  have "\<forall>k<length ps. data_ready (setf k (g_page s (ps ! k)))" if "st = Some IO_OK"
  proof (cases "\<forall>k<length ps. ready_hit old setf ps s k")
    case False
    then have "int32 (\<Sum>k\<leftarrow>filter (\<lambda>k. \<not> cold ?W (ps ! k)) [0..<length ps]. pcut req (Suc k) - pcut req k) = ior_get_size req"
      using p(5) that ret by auto
    then have "\<not> cold ?W (ps ! k)" if "k < length ps" for k
      using partial_sum[OF su(1,2,4) that, of "\<lambda>k. \<not> cold ?W (ps ! k)"] by (rule contrapos_pp) simp
    then show ?thesis using gp by simp
  qed (simp add: ready_hit_def)
  then show ?thesis using p rd(2) rest gp unfolding W
    by - (rule exI[of _ st], rule exI[of _ u'], rule exI[of _ s1], rule exI[of _ s2], rule exI[of _ sent], simp)
qed


definition sample_env :: cache_env where
  "sample_env = \<lparr>
     ce_search = (\<lambda>l s. let p = (if loc_off l = 4096 then 1 else 2) in (p, invalid_data_loc, upd_gpage p inc_ref s)),
     ce_look = (\<lambda>_ st. (None, st)), ce_mark_dirty = (\<lambda>_ s. s), ce_alloc = (\<lambda>_. 6), ce_junk = null_status,
     ce_run_page = (\<lambda>_ arr. arr), ce_run_request = (\<lambda>_ arr. arr), ce_sort = (\<lambda>key xs. sort_key key xs), ce_have_callback = True,
     ce_max_pending = 32, ce_file_id = 0, ce_cache_size = 8192\<rparr>"

definition sample_user :: "io_request \<Rightarrow> user_io" where
  "sample_user req = \<lparr>ui_processing_req = pr_init req, ui_orig = 0, ui_cached_requests = [], ui_user_requests = [], ui_events = [],
     ui_num_pg_accesses = 0, ui_num_bytes = 0, ui_cache_hits = 0, ui_num_fast_process = 0, ui_num_evicted_dirty_pages = 0,
     ui_num_completed_areqs = 0, ui_num_issued_areqs = 0, ui_num_processed_areqs = 0\<rparr>"

lemma inc_ref_flags [simp]: "data_ready (inc_ref pg) = data_ready pg" "is_io_pending (inc_ref pg) = is_io_pending pg"
  "is_dirty (inc_ref pg) = is_dirty pg" "is_old_dirty (inc_ref pg) = is_old_dirty pg" "page_loc (inc_ref pg) = page_loc pg"
  by (simp_all add: inc_ref_def flag_get_defs get_flags_bit_def page_loc_def get_offset_def)

lemma sample_found: "found_pages sample_env sample_req [1, 2] (\<lambda>_. invalid_data_loc) (\<lambda>_. inc_ref)"
  using sample_pages(2,3) by (auto simp: found_pages_def sample_env_def less_Suc_eq nth_Cons Let_def split: nat.split)

lemma sample_walk:
  obtains q where "user_walk sample_env 0 100000 sample_req [1, 2] (\<lambda>_. invalid_data_loc) (\<lambda>_. inc_ref) 6 q sample_gstate"
    "orig_at sample_req 0 0 {..<2} q"
proof -
  obtain q where q: "new_orig_request null_status 0 sample_req = Inr q" "orig_at sample_req 0 (ior_io sample_req) {..<req_num_pages sample_req} q"
    by (rule fresh_orig[OF basic_read_req[OF sample_basic_read]])
  have i: "ior_io sample_req = 0" by (simp add: sample_req_def new_io_request_def)
  have "\<not> ior_within_1page sample_req" using one_page_iff[OF sample_basic_read] sample_pages(1) by simp
  moreover have "\<not> is_old_dirty (g_page sample_gstate 1)"
    by (simp add: sample_gstate_def) (simp add: flag_get_defs get_flags_bit_def page_simps set_id_def set_offset_def empty_page_def)
  ultimately have "user_walk sample_env 0 100000 sample_req [1, 2] (\<lambda>_. invalid_data_loc) (\<lambda>_. inc_ref) 6 q sample_gstate"
    using sample_found sample_flags(5) basic_read_req[OF sample_basic_read] sample_pages(1) q(1)
    by (auto simp: user_walk_def less_Suc_eq nth_Cons sample_env_def split: nat.split)
  then show thesis using that q(2) i sample_pages(1) by simp
qed

text \<open>Searches that only take a reference leave the pages fit for reading.\<close>

lemma read_setup_walked:
  assumes "read_setup prm this oio r req buf content ps s" "orig_at req this oio {..<req_num_pages req} q"
  shows "read_setup prm this oio r req buf content ps (walked r q ps (\<lambda>_. inc_ref) (length ps) s)"
proof -
  have n: "distinct ps" "0 < length ps" using assms(1) req_num_pages_pos by (auto simp: read_setup_def)
  show ?thesis using assms walked_page[OF n(1), of _ r q "\<lambda>_. inc_ref" s]
      walked_rest(5)[OF n(2), of r q ps "\<lambda>_. inc_ref" s] by (simp add: read_setup_def page_state_def walked_rest(3,4))
qed

theorem user_read_returns_file_witness:
  "\<exists>st u' s1 s2 sent s3 s4. process_user_req sample_env sample_params 0 True (sample_user sample_req) sample_gstate = Inr ([], Some st, u', s1)
    \<and> gc_flush sample_params 0 s1 = Inr s2 \<and> ptrs sent = [2]
    \<and> process_disk_completed_requests 0 (\<lambda>key xs. sort_key key xs) 0 sent (fold (disk_serve (\<lambda>_. sample_content)) sent s2) = Inr s3
    \<and> handle_pending_requests sample_params 0 s3 = Inr (1, [], s4)
    \<and> g_mem s4 100000 = sample_content 4196 \<and> g_mem s4 108000 = 0 \<and> pg_refcnt (g_page s4 2) = 0"
proof -
  let ?f = "\<lambda>_ :: nat. inc_ref"
  obtain q where q: "user_walk sample_env 0 100000 sample_req [1, 2] (\<lambda>_. invalid_data_loc) ?f 6 q sample_gstate" "orig_at sample_req 0 0 {..<2} q"
    by (rule sample_walk)
  have i: "ior_io sample_req = 0" by (simp add: sample_req_def new_io_request_def)
  let ?W = "walked 6 q [1, 2] ?f (length [1 :: nat, 2]) sample_gstate"
  have su: "read_setup sample_params 0 (ior_io sample_req) 6 sample_req 100000 ((\<lambda>_. sample_content) (ior_file_id sample_req)) [1, 2] ?W"
    unfolding i using read_setup_walked[OF sample_setup] q(2) sample_pages(1) by simp
  have blk: "gp_block_size sample_params = 2 ^ 2" "ior_inside_RAID_block sample_req (2 ^ 2)" "(2::nat) \<le> 12"
    by (simp_all add: sample_params_def ior_inside_RAID_block_def sample_req_def new_io_request_def ior_get_size_def ROUND_def)
  have io: "gc_underlying_requests (g_io sample_gstate 0) = []" "gc_pending_requests (g_io sample_gstate 0) = []"
    by (simp_all add: sample_gstate_def sample_io_def)
  have u: "ui_processing_req (sample_user sample_req) = pr_init sample_req" "ui_orig (sample_user sample_req) = 0" by (simp_all add: sample_user_def)
  have "g_page ?W 1 = inc_ref (g_page sample_gstate 1)" "g_page ?W 2 = inc_ref (g_page sample_gstate 2)"
    using walked_page[of "[1, 2]" 0 6 q ?f sample_gstate] walked_page[of "[1, 2]" 1 6 q ?f sample_gstate] by simp_all
  then have c: "filter (cold ?W) [1, 2] = [2]" using sample_flags(1,2) by simp
  have f: "ior_get_size sample_req = 8000" "ior_offset sample_req = 4196" "g_mem sample_gstate = (\<lambda>_. 0)"
    "int16 (pg_refcnt (inc_ref (g_page sample_gstate 2)) - 1) = 0"
    by (simp_all add: sample_gstate_def sample_req_def new_io_request_def ior_get_size_def)
       (simp add: inc_ref_def set_id_def set_offset_def empty_page_def page_simps int16_def)
  obtain st u' s1 s2 sent where w: "process_user_req sample_env sample_params 0 True (sample_user sample_req) sample_gstate = Inr ([], st, u', s1)"
    "gc_flush sample_params 0 s1 = Inr s2" "True = (st \<noteq> None)" "ptrs sent = filter (cold ?W) [1, 2]"
    and a: "\<forall>answers. mset answers = mset sent \<longrightarrow>
        (\<exists>s3 s4. process_disk_completed_requests 0 (\<lambda>key xs. sort_key key xs) 0 answers
              (fold (disk_serve (\<lambda>_. sample_content)) answers s2) = Inr s3
          \<and> handle_pending_requests sample_params 0 s3 = Inr (length (ptrs answers), [], s4)
          \<and> g_mem s4 = (\<lambda>a. if 100000 \<le> a \<and> a < 100000 + nat (ior_get_size sample_req)
                then sample_content (ior_offset sample_req + (int a - int 100000)) else g_mem sample_gstate a)
          \<and> (\<forall>k<length [1 :: nat, 2]. pg_refcnt (g_page s4 ([1, 2] ! k)) = int16 (pg_refcnt (inc_ref (g_page sample_gstate ([1, 2] ! k))) - 1)))"
    using user_read_returns_file[where disk = "\<lambda>_. sample_content", OF q(1) su blk(1,3,2) io sorts_sort_key u, of True 0] by meson
  obtain s3 s4 where h: "process_disk_completed_requests 0 (\<lambda>key xs. sort_key key xs) 0 sent (fold (disk_serve (\<lambda>_. sample_content)) sent s2) = Inr s3"
    "handle_pending_requests sample_params 0 s3 = Inr (length (ptrs sent), [], s4)"
    "g_mem s4 = (\<lambda>a. if 100000 \<le> a \<and> a < 100000 + nat 8000 then sample_content (4196 + (int a - int 100000)) else 0)"
    "\<forall>k<length [1 :: nat, 2]. pg_refcnt (g_page s4 ([1, 2] ! k)) = int16 (pg_refcnt (inc_ref (g_page sample_gstate ([1, 2] ! k))) - 1)"
    using mp[OF spec[OF a, of sent] refl] unfolding f(1-3) by blast
  have "pg_refcnt (g_page s4 2) = 0" using spec[OF h(4), of 1] f(4) by simp
  moreover obtain st' where "st = Some st'" using w(3) by auto
  ultimately show ?thesis using w h(1-3) unfolding c
    by - (rule exI[of _ st'], rule exI[of _ u'], rule exI[of _ s1], rule exI[of _ s2], rule exI[of _ sent], rule exI[of _ s3], rule exI[of _ s4], simp)
qed

end
