(* ===== verification/Cached_Write_Back.thy ===== *)
theory Cached_Write_Back
  imports Cached_User_Write Cached_User_Props
begin

text \<open>
  Writes of the application: what they leave in the cache, what a later read returns, and the status they report.
\<close>

section \<open>Writes that need no data from the disks\<close>

lemma user_write_spec:
  assumes "user_walk env this buf req ps old setf r q s" "ior_access_method req = WRITE" "ior_sync req \<longrightarrow> ior_io req = this"
    "\<forall>k<length ps. write_fit req content (setf k (g_page s (ps ! k))) (g_data s (ps ! k)) k"
    "ui_processing_req u = pr_init req" "ui_orig u = 0"
  obtains st u' s' where "process_user_req env prm this want u s
      = Inr (map (nth ps) (filter (\<lambda>k. \<not> is_dirty (setf k (g_page s (ps ! k)))) [0..<length ps]), st, u', s')"
    "pr_is_empty (ui_processing_req u')" "write_mid this req buf content ps setf r s (length ps) s'"
proof -
  have w: "basic_req buf req" "length ps = req_num_pages req" "new_orig_request (ce_junk env) this req = Inr q" "r \<noteq> 0"
    using assms(1) by (auto simp: user_walk_def)
  have o: "orig_at req this (ior_io req) {..<length ps} q"
    by (rule fresh_orig[OF w(1), of "ce_junk env" this]) (use w(2,3) in simp)
  have n0: "0 < length ps" using req_num_pages_pos_req[OF w(1)] w(2) by simp
  have m0: "write_mid this req buf content ps setf r s 0 s" using n0 by (simp add: write_mid_def)
  let ?a = "\<lparr>ua_pages = [], ua_num_pages_ready = 0, ua_num_bytes_completed = 0, ua_dirty_pages = []\<rparr>"
  have u0: "ui_processing_req u = walk_at req 0" using assms(5) walk_simps(1)[OF w(1)] by simp
  obtain u' a' s' where l: "user_loop env prm this (length ps) u ?a s = Inr (u', a', s')"
    "write_mid this req buf content ps setf r s (length ps) s'" "ui_processing_req u' = walk_at req (length ps)" "ui_orig u' = r" "ua_pages a' = []"
    "ua_dirty_pages a' = map (nth ps) (filter (\<lambda>k. \<not> is_dirty (setf k (g_page s (ps ! k)))) [0..<length ps])"
    using user_loop_write[OF assms(1) o assms(2,3,4) _ m0 u0, of prm ?a] assms(6) by auto
  have em: "pr_is_empty (ui_processing_req u')" using walk_simps(2)[OF w(1)] w(2) l(3) by simp
  have "\<exists>st. user_status u' a' = Inr st" using l(4) w(4) by (auto simp: user_status_def Let_def)
  then obtain st where us: "user_status u' a' = Inr st" by blast
  have "process_user_req env prm this want u s = Inr (ua_dirty_pages a', if want then Some st else None, u', s')"
    unfolding process_user_req_def u0 walk_simps(6)[OF w(1)] w(2)[symmetric] using l(1,5) us by (simp add: read_collected_def)
  then show thesis using that em l(2,6) by simp
qed



text \<open>The request that reads back what \<open>req\<close> has written.\<close>

definition read_back_req :: "nat \<Rightarrow> io_request \<Rightarrow> io_request" where
  "read_back_req buf req = req\<lparr>ior_access_method := READ, ior_payload := BASIC_REQ buf\<rparr>"

lemma read_back_simps:
  assumes "basic_req buf req"
  shows "basic_read buf' (read_back_req buf' req)" "ior_get_size (read_back_req buf' req) = ior_get_size req"
    "ior_offset (read_back_req buf' req) = ior_offset req" "ior_file_id (read_back_req buf' req) = ior_file_id req"
    "ior_sync (read_back_req buf' req) = ior_sync req" "ior_io (read_back_req buf' req) = ior_io req"
    "piece_page (read_back_req buf' req) = piece_page req" "req_num_pages (read_back_req buf' req) = req_num_pages req"
    "ior_within_1page (read_back_req buf' req) = ior_within_1page req"
    "ior_inside_RAID_block (read_back_req buf' req) n = ior_inside_RAID_block req n"
  using assms by (auto simp: read_back_req_def basic_defs ior_get_size_def piece_page_def req_num_pages_def ior_within_1page_def
      ior_inside_RAID_block_def fun_eq_iff)

lemma read_back_walk:
  assumes "user_walk env this buf req ps old (\<lambda>_. inc_ref) r q s" "write_mid this req buf content ps (\<lambda>_. inc_ref) r s (length ps) s1"
    "\<forall>s. ce_alloc env s \<noteq> 0" "ior_sync req \<longrightarrow> ior_io req = this"
    "\<forall>k<length ps. page_loc (g_page s (ps ! k)) = \<lparr>loc_file_id = ior_file_id req, loc_off = piece_page req k\<rparr>"
    "gp_node_id prm \<le> MAX_NODE_ID" "\<forall>x. \<not> gp_fails prm x" "length ps \<le> 4096" "int (length ps) \<le> gp_block_size prm"
  obtains r' q' where "user_walk env this buf' (read_back_req buf' req) ps old (\<lambda>_. inc_ref) r' q' s1"
    "read_setup prm this (ior_io req) r' (read_back_req buf' req) buf' (overlay req buf (g_mem s) content) ps
       (walked r' q' ps (\<lambda>_. inc_ref) (length ps) s1)" "orig_at (read_back_req buf' req) this (ior_io req) {..<length ps} q'"
proof -
  have w: "basic_req buf req" "distinct ps" "length ps = req_num_pages req" "0 \<notin> set ps" "\<not> ior_within_1page req"
    "found_pages env req ps old (\<lambda>_. inc_ref)" "\<forall>k<length ps. \<not> is_old_dirty (g_page s (ps ! k))"
    using assms(1) by (auto simp: user_walk_def)
  note b = read_back_simps[OF w(1), of buf'] let ?req = "read_back_req buf' req" let ?r = "ce_alloc env (upd_gpage (ps ! 0) inc_ref s1)"
  have n0: "0 < length ps" using req_num_pages_pos_req[OF w(1)] w(3) by simp
  obtain q' where q': "new_orig_request (ce_junk env) this ?req = Inr q'" "orig_at ?req this (ior_io req) {..<length ps} q'"
    using fresh_orig[OF basic_read_req[OF b(1)], of "ce_junk env" this] b(6,8) w(3) by metis
  have pg: "g_page s1 (ps ! k) = written (inc_ref (g_page s (ps ! k)))" "g_data s1 (ps ! k) = file_page (overlay req buf (g_mem s) content) (piece_page req k)"
    if "k < length ps" for k using assms(2) that by (auto simp: write_mid_def)
  have walk: "user_walk env this buf' ?req ps old (\<lambda>_. inc_ref) ?r q' s1"
    unfolding user_walk_def found_pages_def b using w b(1) assms(3) q'(1) pg(1) by (auto simp: found_pages_def written_props basic_read_req)
  let ?W = "walked ?r q' ps (\<lambda>_. inc_ref) (length ps) s1"
  have "page_state ?req (overlay req buf (g_mem s) content) ?W (ps ! k) k" if "k < length ps" for k
    unfolding page_state_def b walked_page[OF w(2) that] walked_rest using that pg[OF that] assms(5) by (simp add: written_props)
  then have "read_setup prm this (ior_io req) ?r ?req buf' (overlay req buf (g_mem s) content) ps ?W"
    unfolding read_setup_def walked_rest(5)[OF n0] b using b(1) assms(3,4,6-9) q'(2) w(2-4) by auto
  then show thesis using that walk q'(2) by blast
qed



section \<open>The status of a write\<close>

lemma left_incomplete: "oir_at oir K \<Longrightarrow> K \<noteq> {} \<Longrightarrow> \<not> oir_is_complete oir"
  using oir_left_sum_pos[of oir K] by (auto simp: oir_at_def oir_left_def oir_is_complete_def)

text \<open>
  C37. A write can be reported as complete while it is not. \<^verbatim>\<open>__write\<close> returns the size of the whole request for a page that
  holds its data, and \<^verbatim>\<open>process_user_req\<close> compares the sum with that size: for a write to two pages, of which the first is
  cached and the second has to be read first, the status is \<^verbatim>\<open>IO_OK\<close> although the request still waits on its second page,
  has not been reported, and its data is still in the application's buffer only.
\<close>

theorem write_reported_too_early:
  assumes "user_walk env this buf req [p1, p2] old setf r q s" "ior_access_method req = WRITE" "ior_sync req \<longrightarrow> ior_io req = this"
    "write_fit req content (setf 0 (g_page s p1)) (g_data s p1) 0" "data_ready (setf 0 (g_page s p1))"
    "\<not> data_ready (setf 1 (g_page s p2))" "\<not> is_io_pending (setf 1 (g_page s p2))" "\<not> is_dirty (setf 1 (g_page s p2))"
    "g_reqs s p2 = 0" "get_offset (setf 1 (g_page s p2)) = piece_page req 1" "pg_node_id (setf 1 (g_page s p2)) \<le> MAX_NODE_ID"
    "ior_end req < piece_page req 1 + 4096" "gp_merge_reqs prm" "ui_processing_req u = pr_init req" "ui_orig u = 0"
  shows "\<exists>d u' s'. process_user_req env prm this True u s = Inr (d, Some IO_OK, u', s')
    \<and> \<not> oir_is_complete (or_oir (g_orig s' r)) \<and> g_reqs s' p2 = r
    \<and> gc_complete_queue (g_io s' this) = gc_complete_queue (g_io s this) \<and> gc_woken (g_io s' this) = gc_woken (g_io s this)"
proof -
  let ?ps = "[p1, p2]" let ?pg = "setf 1 (g_page s p2)"
  have w: "basic_req buf req" "length ?ps = req_num_pages req" "new_orig_request (ce_junk env) this req = Inr q" "r \<noteq> 0"
    "\<not> is_old_dirty ?pg" using assms(1) by (auto simp: user_walk_def)
  have n2: "req_num_pages req = 2" using w(2) by simp
  have o: "orig_at req this (ior_io req) {..<length ?ps} q"
    by (rule fresh_orig[OF w(1), of "ce_junk env" this]) (use w(2,3) in simp)
  note c = cut_bounds_req[OF w(1), of 1, unfolded n2, simplified]
  have P: "piece_page req 1 = piece_page req 0 + 4096" "piece_page req 0 \<le> ior_offset req" "ior_offset req < piece_page req 1"
    using piece_page_Suc[of req 0] walk_ends(1)[OF w(1)] unfolding round_page_eq by auto
  have sz: "int32 (ior_get_size req) = ior_get_size req" "0 < ior_get_size req" "piece_page req 1 < ior_end req"
    using assms(12) P w(1) c by (auto simp: ior_end_def basic_req_def intro!: int32_id)
  let ?a = "\<lparr>ua_pages = [], ua_num_pages_ready = 0, ua_num_bytes_completed = 0, ua_dirty_pages = []\<rparr>"
  have u0: "ui_processing_req u = walk_at req 0" using assms(14) walk_simps(1)[OF w(1)] by simp
  have m0: "write_mid this req buf content ?ps setf r s 0 s" by (simp add: write_mid_def)
  let ?u1 = "stepped req 0 r (loc_off (old 0) = - 1) u" let ?u2 = "stepped req 1 r (loc_off (old 1) = - 1) ?u1"
  obtain a1 s1 where st1: "user_step env prm this u ?a s = Inr (True, ?u1, a1, s1)" "write_mid this req buf content ?ps setf r s 1 s1"
    "ua_pages a1 = []" "ua_num_bytes_completed a1 = ior_get_size req"
    by (rule write_step[where content = content and j = 0, OF assms(1) o assms(2,3) _ m0 _ u0, of prm ?a]) (use assms(4,5,15) sz in simp_all)
  have m: "g_page s1 p2 = g_page s p2" "g_reqs s1 p2 = 0" "g_io s1 = g_io s" "orig_at req this (ior_io req) {1} (g_orig s1 r)"
    using st1(2) assms(9) by (auto simp: write_mid_def atLeastLessThanSuc)
  let ?s1 = "upd_gpage p2 (setf 1) s1"
  have st2: "user_step env prm this ?u1 a1 s1 = bind_res (user_page prm this r p2 (counted_page (ready_hit old setf ?ps s 1) a1) ?s1) (\<lambda>(a, s). Inr (True, ?u2, a, s))"
    using user_step_found[OF assms(1), of 1 ?u1 s1 prm a1] m(1) by (simp add: stepped_def)
  have s1: "g_page ?s1 p2 = ?pg" "g_orig ?s1 = g_orig s1" "g_reqs ?s1 = g_reqs s1" "g_io ?s1 = g_io s"
    using m by (auto simp: upd_gpage_def upd_store_def)
  have oq: "or_req (g_orig s1 r) = req\<lparr>ior_io := this\<rparr>" "oir_at (or_oir (g_orig s1 r)) {1}" using m(4) by (auto simp: orig_at_def)
  have on: "on_page ?s1 p2 r" unfolding on_page_def s1 assms(10) using orig_index[OF m(4), of 1] n2 by simp
  obtain s2 x where wp: "write_page prm this r p2 ?s1 = Inr (0, [], s2)"
    "g_io s2 = (g_io s)(this := gc_underlying_requests_update (\<lambda>q. q @ [x]) (g_io s this))" "g_reqs s2 p2 = r"
    "or_oir (g_orig s2 r) = or_oir (g_orig s1 r)"
    by (rule write_page_partial[of ?s1 p2 r prm this])
      (use s1 m(2) oq on assms(6-8,10-13) w(5) P sz in \<open>simp_all add: ior_end_def\<close>)
  let ?a2 = "(counted_page (ready_hit old setf ?ps s 1) a1)\<lparr>ua_num_bytes_completed := ior_get_size req\<rparr>"
  have "user_page prm this r p2 (counted_page (ready_hit old setf ?ps s 1) a1) ?s1 = Inr (?a2, s2)"
    unfolding user_page_def s1(2) oq(1) wp(1) using assms(2) st1(4) sz(1) by (simp add: counted_page_def)
  then have st2': "user_step env prm this ?u1 a1 s1 = Inr (True, ?u2, ?a2, s2)" using st2 by simp
  have us: "ui_processing_req ?u1 = walk_at req 1" "ui_processing_req ?u2 = walk_at req 2" by (simp_all add: stepped_def eval_nat_numeral)
  have "user_loop env prm this 2 u ?a s = Inr (?u2, ?a2, s2)"
    unfolding numeral_2_eq_2 user_loop.simps u0 us walk_simps(2)[OF w(1)] n2 using st1(1) st2' us walk_simps(2)[OF w(1)] n2 by simp
  moreover have "user_status ?u2 ?a2 = Inr IO_OK" unfolding user_status_def us walk_simps(4)[OF w(1)] by simp
  moreover have "ua_pages ?a2 = []" using st1(3) by (simp add: counted_page_def)
  ultimately have "process_user_req env prm this True u s = Inr (ua_dirty_pages ?a2, Some IO_OK, ?u2, s2)"
    unfolding process_user_req_def u0 walk_simps(6)[OF w(1)] n2 by (simp add: read_collected_def)
  moreover have "\<not> oir_is_complete (or_oir (g_orig s2 r))" using left_incomplete[OF oq(2)] wp(4) by simp
  ultimately show ?thesis using wp(2,3)
    by (intro exI[of _ "ua_dirty_pages ?a2"] exI[of _ ?u2] exI[of _ s2]) simp
qed


section \<open>Samples\<close>

text \<open>\<open>sample_write\<close> writes 8000 bytes from address 100000 to the two pages of \<open>sample_gstate\<close>; in \<open>sample_cached\<close> both pages hold their
  data and the memory holds something else.\<close>

definition sample_cached :: gstate where
  "sample_cached = sample_gstate\<lparr>g_page := (g_page sample_gstate)(2 := set_data_ready True (g_page sample_gstate 2)),
     g_data := (g_data sample_gstate)(2 := file_page sample_content 8192), g_mem := (\<lambda>a. word_of_nat (a + 7))\<rparr>"

lemma sample_write_req: "basic_req 100000 sample_write" "piece_page sample_write = piece_page sample_req" "req_num_pages sample_write = 2"
  "ior_offset sample_write = 4196" "ior_get_size sample_write = 8000" "ior_access_method sample_write = WRITE" "ior_sync sample_write = False"
  "ior_file_id sample_write = 0" "\<not> ior_within_1page sample_write"
  using sample_pages(1) by (simp_all add: sample_write_def sample_req_def new_io_request_def basic_req_def ior_get_size_def MAX_NODE_ID_def
      piece_page_def req_num_pages_def ior_within_1page_def fun_eq_iff round_page_eq)

lemma sample_write_walk:
  assumes "\<not> is_old_dirty (g_page s 1)" "\<not> is_old_dirty (g_page s 2)"
  obtains q where "user_walk sample_env 0 100000 sample_write [1, 2] (\<lambda>_. invalid_data_loc) (\<lambda>_. inc_ref) 6 q s"
proof -
  obtain q where q: "new_orig_request null_status 0 sample_write = Inr q" by (rule fresh_orig[OF sample_write_req(1)])
  have "found_pages sample_env sample_write [1, 2] (\<lambda>_. invalid_data_loc) (\<lambda>_. inc_ref)"
    using sample_found unfolding found_pages_def sample_write_req(2,8) by (simp add: sample_req_def new_io_request_def)
  then show thesis using assms sample_write_req(1,3,9) q
    by (intro that) (auto simp: user_walk_def less_Suc_eq nth_Cons sample_env_def split: nat.split)
qed

lemma sample_clean: "\<not> is_old_dirty (g_page sample_gstate 1)" "\<not> is_dirty (g_page sample_gstate 1)"
  by (simp_all add: sample_gstate_def) (simp_all add: flag_get_defs get_flags_bit_def page_simps set_id_def set_offset_def empty_page_def)

lemma sample_offsets: "get_offset (inc_ref (g_page sample_gstate 1)) = piece_page sample_req 0"
  "get_offset (inc_ref (g_page sample_gstate 2)) = piece_page sample_req 1"
  using sample_locs inc_ref_flags(5)[of "g_page sample_gstate 1"] inc_ref_flags(5)[of "g_page sample_gstate 2"]
  by (simp_all add: page_loc_def sample_pages(2) sample_pages(3)[simplified])

lemma sample_fit1: "write_fit sample_write sample_content (inc_ref (g_page sample_gstate 1)) (g_data sample_gstate 1) 0"
  using sample_flags(1) sample_clean sample_offsets(1) sample_pages(2)
  by (simp add: write_fit_def sample_write_req(2)) (simp add: sample_gstate_def file_page_def)

theorem write_reported_too_early_witness:
  "\<exists>d u' s'. process_user_req sample_env sample_params 0 True (sample_user sample_write) sample_gstate = Inr (d, Some IO_OK, u', s')
    \<and> \<not> oir_is_complete (or_oir (g_orig s' 6)) \<and> g_reqs s' 2 = 6"
proof -
  obtain q where q: "user_walk sample_env 0 100000 sample_write [1, 2] (\<lambda>_. invalid_data_loc) (\<lambda>_. inc_ref) 6 q sample_gstate"
    by (rule sample_write_walk[OF sample_clean(1) sample_flags(5)])
  have n: "pg_node_id (inc_ref (g_page sample_gstate 2)) \<le> MAX_NODE_ID"
    by (simp add: sample_gstate_def inc_ref_def page_simps set_id_def set_offset_def empty_page_def MAX_NODE_ID_def)
  have e: "ior_end sample_write < piece_page sample_write 1 + 4096"
    using sample_write_req(4,5) sample_pages(3) by (simp add: ior_end_def sample_write_req(2))
  have "\<exists>d u' s'. process_user_req sample_env sample_params 0 True (sample_user sample_write) sample_gstate = Inr (d, Some IO_OK, u', s')
    \<and> \<not> oir_is_complete (or_oir (g_orig s' 6)) \<and> g_reqs s' 2 = 6
    \<and> gc_complete_queue (g_io s' 0) = gc_complete_queue (g_io sample_gstate 0) \<and> gc_woken (g_io s' 0) = gc_woken (g_io sample_gstate 0)"
    by (rule write_reported_too_early[OF q sample_write_req(6) _ sample_fit1])
      (use sample_write_req(2,7) sample_flags n e sample_offsets(2) in \<open>simp_all add: sample_params_def sample_user_def sample_gstate_def\<close>)
  then show ?thesis by blast
qed

lemma cached_pages: "g_page sample_cached 1 = g_page sample_gstate 1" "g_page sample_cached 2 = set_data_ready True (g_page sample_gstate 2)"
  "g_data sample_cached 1 = g_data sample_gstate 1" "g_data sample_cached 2 = file_page sample_content 8192"
  "g_page sample_cached (Suc 0) = g_page sample_gstate (Suc 0)" "g_data sample_cached (Suc 0) = g_data sample_gstate (Suc 0)"
  by (simp_all add: sample_cached_def)

lemma cached_fit: "\<forall>k<length [1, 2 :: nat]. write_fit sample_write sample_content (inc_ref (g_page sample_cached ([1, 2] ! k)))
    (g_data sample_cached ([1, 2] ! k)) k"
proof -
  have "get_offset (inc_ref (set_data_ready True (g_page sample_gstate 2))) = piece_page sample_req 1"
    using sample_offsets(2) by (simp add: inc_ref_def get_offset_def flag_set_defs page_simps)
  then have "write_fit sample_write sample_content (inc_ref (g_page sample_cached 2)) (g_data sample_cached 2) 1"
    using sample_flags(5) sample_pages(3) by (simp add: write_fit_def sample_write_req(2) cached_pages file_page_def)
  then show ?thesis using sample_fit1 by (auto simp: less_Suc_eq cached_pages)
qed



end
