(* ===== verification/Cached_Report.thy ===== *)
theory Cached_Report
  imports Cached_User_Props
begin

text \<open>
  How finished requests reach the application: \<^verbatim>\<open>process_completed_requests\<close> and \<^verbatim>\<open>process_cached_reqs\<close> collect them in a buffer
  of fixed size and report them with \<^verbatim>\<open>notify_completion\<close>.
\<close>

section \<open>Deliveries\<close>

text \<open>The requests that a sequence of calls reports to the instance \<open>x\<close>, seen from the instance \<open>this\<close>.\<close>

definition delivered :: "nat \<Rightarrow> nat \<Rightarrow> event list \<Rightarrow> io_request list" where
  "delivered this x evs = concat (map (\<lambda>e. case e of Callback rs \<Rightarrow> if x = this then rs else []
     | Notify io rs \<Rightarrow> if x = io then rs else [] | _ \<Rightarrow> []) evs)"

definition batch_bound :: "event list \<Rightarrow> bool" where
  "batch_bound evs \<longleftrightarrow> (\<forall>e\<in>set evs. case e of Callback rs \<Rightarrow> rs \<noteq> [] \<and> length rs \<le> 64 | Notify _ rs \<Rightarrow> length rs \<le> 64 | _ \<Rightarrow> True)"

definition basic_async :: "io_request \<Rightarrow> bool" where
  "basic_async req \<longleftrightarrow> \<not> ior_sync req \<and> (case ior_payload req of BASIC_REQ _ \<Rightarrow> True | _ \<Rightarrow> False)"

definition sorts_reqs :: "cache_env \<Rightarrow> bool" where
  "sorts_reqs env \<longleftrightarrow> (\<forall>key xs. mset (ce_sort env key xs) = mset xs \<and> sorted (map key (ce_sort env key xs)))"

lemma delivered_append [simp]: "delivered this x (es @ fs) = delivered this x es @ delivered this x fs"
  "delivered this x [] = []" by (simp_all add: delivered_def)

lemma batch_bound_append [simp]: "batch_bound (es @ fs) \<longleftrightarrow> batch_bound es \<and> batch_bound fs" "batch_bound []"
  by (auto simp: batch_bound_def)

lemma delivered_runs:
  "\<forall>(io, rs)\<in>set runs. \<forall>r\<in>set rs. ior_io r = io
    \<Longrightarrow> delivered this x (map (\<lambda>(io, rs). Notify io rs) runs) = filter (\<lambda>r. ior_io r = x) (concat (map snd runs))"
proof (induction runs)
  case (Cons run runs)
  have "filter (\<lambda>r. ior_io r = x) (snd run) = (if x = fst run then snd run else [])"
    using Cons.prems by (cases run) (auto simp: filter_id_conv filter_empty_conv)
  then show ?case using Cons by (cases run) (auto simp: delivered_def)
qed simp

lemma notify_delivers:
  assumes "ce_have_callback env" "sorts_reqs env" "\<forall>r\<in>set reqs. basic_async r" "length reqs \<le> 64"
  obtains evs where "gc_notify_completion env this reqs = Inr evs" "batch_bound evs"
    "\<forall>x. mset (delivered this x evs) = mset (filter (\<lambda>r. ior_io r = x) reqs)"
proof -
  let ?loc = "filter (\<lambda>r. ior_io r = this \<and> (case ior_payload r of BASIC_REQ _ \<Rightarrow> True | _ \<Rightarrow> False)) reqs"
  let ?rem = "filter (\<lambda>r. ior_io r \<noteq> this) reqs"
  have loc: "?loc = filter (\<lambda>r. ior_io r = this) reqs" using assms(3) by (auto simp: basic_async_def intro: filter_cong)
  let ?cb = "if ?loc \<noteq> [] then [Callback ?loc] else []"
  have len: "length (filter P reqs) \<le> 64" for P using assms(4) length_filter_le[of P reqs] by linarith
  have cb: "batch_bound ?cb" "delivered this x ?cb = (if x = this then filter (\<lambda>r. ior_io r = this) reqs else [])" for x
    using len loc by (auto simp: batch_bound_def delivered_def)
  show thesis
  proof (cases "?rem = []")
    case True
    then have e: "gc_notify_completion env this reqs = Inr ?cb" using assms(1) by (simp add: gc_notify_completion_def Let_def)
    have "delivered this x ?cb = filter (\<lambda>r. ior_io r = x) reqs" for x
      unfolding cb(2) using True by (auto simp: filter_empty_conv filter_id_conv)
    then show thesis using e cb(1) by (intro that[of ?cb]) simp_all
  next
    case False
    let ?srt = "ce_sort env ior_io ?rem"
    have srt: "mset ?srt = mset ?rem" "sorted (map ior_io ?srt)" "?srt \<noteq> []" using assms(2) False
      by (auto simp: sorts_reqs_def) (metis mset.simps(1) mset_zero_iff)
    obtain runs where runs: "process_reqs_on_io ior_io ?srt = Inr runs" "concat (map snd runs) = ?srt"
      "\<forall>(io, xs)\<in>set runs. xs = filter (\<lambda>r. ior_io r = io) ?srt" by (rule process_reqs_spec[OF srt(2,3)])
    let ?n = "map (\<lambda>(io, rs). Notify io rs) runs"
    have "\<forall>(io, rs)\<in>set runs. \<forall>r\<in>set rs. ior_io r = io" using runs(3) by fastforce
    from delivered_runs[OF this, of this] have d: "delivered this x ?n = filter (\<lambda>r. ior_io r = x) ?srt" for x unfolding runs(2) .
    have "length ?srt \<le> 64" using srt(1) len by (metis size_mset)
    then have "length (filter P ?srt) \<le> 64" for P using length_filter_le[of P ?srt] by linarith
    then have bb: "batch_bound ?n" using runs(3) by (auto simp: batch_bound_def)
    have e: "gc_notify_completion env this reqs = Inr (?cb @ ?n)" using assms(1) False runs(1) by (simp add: gc_notify_completion_def Let_def)
    have "mset (delivered this x (?cb @ ?n)) = mset (filter (\<lambda>r. ior_io r = x) reqs)" for x
    proof -
      have "mset (filter (\<lambda>r. ior_io r = x) ?srt) = mset (filter (\<lambda>r. ior_io r = x) ?rem)" using srt(1) by (metis mset_filter)
      also have "filter (\<lambda>r. ior_io r = x) ?rem = (if x = this then [] else filter (\<lambda>r. ior_io r = x) reqs)"
        by (auto simp: filter_empty_conv intro: filter_cong)
      finally have A: "mset (filter (\<lambda>r. ior_io r = x) ?srt) = mset (if x = this then [] else filter (\<lambda>r. ior_io r = x) reqs)" .
      show ?thesis unfolding delivered_append d cb(2) mset_append A by (cases "x = this") simp_all
    qed
    then show thesis using e cb(1) bb by (intro that[of "?cb @ ?n"]) simp_all
  qed
qed


section \<open>Completed requests\<close>

lemma completed_loop_spec:
  assumes "ce_have_callback env" "sorts_reqs env"
  shows "\<forall>r\<in>set rs. basic_async (or_req (g_orig s r)) \<Longrightarrow> \<forall>q\<in>set buf. basic_async q \<Longrightarrow> length buf < 64 \<Longrightarrow>
    \<exists>buf' evs. completed_loop env this rs buf u s = Inr (buf', log_events evs u, s) \<and> length buf' < 64 \<and> batch_bound evs
      \<and> (\<forall>q\<in>set buf'. basic_async q)
      \<and> (\<forall>x. mset (delivered this x evs) + mset (filter (\<lambda>q. ior_io q = x) buf')
           = mset (filter (\<lambda>q. ior_io q = x) (buf @ map (\<lambda>r. or_req (g_orig s r)) rs)))"
proof (induction rs arbitrary: buf u)
  case Nil
  then show ?case by (intro exI[of _ buf] exI[of _ "[]"]) (simp add: log_events_def)
next
  case (Cons r rs)
  let ?req = "or_req (g_orig s r)" let ?buf = "buf @ [?req]"
  have r: "\<not> ior_sync ?req" "\<exists>b. ior_payload ?req = BASIC_REQ b" "basic_async ?req"
    using Cons.prems(1) by (auto simp: basic_async_def split: payload.splits)
  have ok: "\<forall>q\<in>set ?buf. basic_async q" "\<forall>r\<in>set rs. basic_async (or_req (g_orig s r))" using Cons.prems r(3) by auto
  show ?case
  proof (cases "length ?buf = 64")
    case False
    have st: "completed_loop env this (r # rs) buf u s = completed_loop env this rs ?buf u s"
      using False r by (auto simp: REQ_BUF_SIZE_def)
    have "length ?buf < 64" using False Cons.prems(3) by simp
    from Cons.IH[OF ok(2,1) this, of u] show ?thesis unfolding st by simp
  next
    case True
    then have "length ?buf \<le> 64" by simp
    then obtain ev where ev: "gc_notify_completion env this ?buf = Inr ev" "batch_bound ev"
      "\<forall>x. mset (delivered this x ev) = mset (filter (\<lambda>r. ior_io r = x) ?buf)"
      by (rule notify_delivers[OF assms ok(1)])
    have st: "completed_loop env this (r # rs) buf u s = completed_loop env this rs [] (log_events ev u) s"
      using True r ev(1) by (auto simp: REQ_BUF_SIZE_def)
    obtain buf' evs where IH: "completed_loop env this rs [] (log_events ev u) s = Inr (buf', log_events evs (log_events ev u), s)"
      "length buf' < 64" "batch_bound evs" "\<forall>q\<in>set buf'. basic_async q"
      "\<forall>x. mset (delivered this x evs) + mset (filter (\<lambda>q. ior_io q = x) buf')
         = mset (filter (\<lambda>q. ior_io q = x) ([] @ map (\<lambda>r. or_req (g_orig s r)) rs))"
      using Cons.IH[OF ok(2), of "[]" "log_events ev u"] by auto
    have "log_events evs (log_events ev u) = log_events (ev @ evs) u" by (simp add: log_events_def)
    moreover have "mset (delivered this x (ev @ evs)) + mset (filter (\<lambda>q. ior_io q = x) buf')
        = mset (filter (\<lambda>q. ior_io q = x) (buf @ map (\<lambda>r. or_req (g_orig s r)) (r # rs)))" for x
      using spec[OF ev(3), of x] spec[OF IH(5), of x] by (simp add: ac_simps)
    ultimately show ?thesis unfolding st IH(1) using IH(2-4) ev(2) by (intro exI[of _ buf'] exI[of _ "ev @ evs"]) simp
  qed
qed



section \<open>Requests that abort\<close>

text \<open>\<^verbatim>\<open>is_flush\<close> holds of synchronous requests only, and \<^verbatim>\<open>access\<close> asserts that a flush request is not synchronous: every flush
  request aborts the program.\<close>

lemma flush_request_asserts:
  assumes "ior_is_flush (access_prepare prm this req)" "pr_is_empty (ui_processing_req u)"
  shows "access_reqs env prm this want (req # reqs) u s = Inl Assert_failed"
proof -
  have "ior_sync (access_prepare prm this req)" using assms(1) by (simp add: ior_is_flush_def)
  then show ?thesis using assms by (simp add: access_reqs_def log_events_def Let_def assert_then_def)
qed

text \<open>When the page cache finds no page for the first page of a request whose status is asked for, there is no request to
  wait for and the assertion fails.\<close>

lemma no_page_asserts:
  assumes "fst (ce_search env (pr_get_curr_page_id (ui_processing_req u)) s) = 0" "0 < user_rounds (ui_processing_req u)"
    "\<not> pr_is_empty (ui_processing_req u)" "ui_orig u = 0" "0 < ior_num_covered_pages (pr_req (ui_processing_req u))"
    "ior_get_size (pr_req (ui_processing_req u)) \<noteq> 0"
  shows "process_user_req env prm this True u s = Inl Assert_failed"
proof -
  obtain k where k: "user_rounds (ui_processing_req u) = Suc k" using assms(2) by (cases "user_rounds (ui_processing_req u)") auto
  have "user_step env prm this u a s = Inr (False, u, a, snd (snd (ce_search env (pr_get_curr_page_id (ui_processing_req u)) s)))" for a
    using assms(1) by (cases "ce_search env (pr_get_curr_page_id (ui_processing_req u)) s") (simp add: user_step_def)
  then show ?thesis using assms(3-6) k by (simp add: process_user_req_def read_collected_def user_status_def Let_def)
qed

end
