(* ===== verification/Spec2Isabelle.thy ===== *)
theory Spec2Isabelle
  imports Page Page_Cell Policy_Props Cell_Props Assoc_Props Blocking_Queue File_Mapper Slab_Props Flusher_Run Bitmap_Props Vertex_Queue_Props Ext_Vertex_Props Directed_Index_Props IO_Request_Props Cached_Write_Back Cached_Report
begin

text \<open>
  The page cache of SAFS, the user-space file system below FlashGraph, as it stands in \<^verbatim>\<open>src/libsafs\<close>
  of GraphCache, a fork that adds an adaptive page replacement policy (APR); and the containers of the graph engine
  in \<^verbatim>\<open>src/flash-graph\<close> that decide which vertices a worker thread runs, the file format of vertices and the vertex
  index that says where in the file a vertex lies.

  \<^bold>\<open>The program.\<close> A request for a page goes to \<^verbatim>\<open>associative_cache::search\<close>. Linear hashing sends the
  page's location (file and offset) to one page set (\<^verbatim>\<open>hash_cell\<close>) of a table of arrays of sets. The
  set looks through its pages (\<^verbatim>\<open>page_cell\<close>, at most 16); if the page is not there, the set's eviction
  policy picks a victim, which is given the new location and handed out with a reference. The table
  grows by splitting one set after another (\<^verbatim>\<open>expand\<close>, \<^verbatim>\<open>rehash\<close>) and shrinks by merging them.
  A flusher writes dirty pages back.

  Applications issue requests to an instance of \<^verbatim>\<open>global_cached_io\<close>. It walks over the pages of a request, looks each one up in the
  page cache, completes the request on the pages that have their data and lets it wait on the others, for which it sends requests
  to the disks, merged where the pages are neighbours. A page that had to be evicted dirty is written back first. When the disks have
  answered, the requests that wait on the pages are handed to their instances and go on; a request whose last page
  is done is reported to the application.

  The graph engine partitions the vertices over its worker threads. Each thread collects the vertices activated for
  the next iteration in an \<^verbatim>\<open>active_vertex_set\<close>, a vector that becomes a bitmap when it grows; at the start of the iteration the set
  moves into a vertex queue, from which the thread and the threads that steal from it fetch the vertices to run.
  A vertex that runs asks for its edges. The vertex index gives the place of the vertex in the graph file; the pages that the
  request covers are looked up in the cache or read, and when the last one has arrived the vertex program runs on a
  byte array over these pages, in which it iterates over its neighbours.

  \<^bold>\<open>Theories.\<close>
  \<^item> \<open>Prelude\<close>: results with errors as values (\<open>'a res\<close>: assertion failures, undefined behaviour,
    loops that never return), C integer conversions, \<^verbatim>\<open>std::map\<close> insertion, shared lemmas.
  \<^item> \<open>Page\<close>: a page descriptor (\<^verbatim>\<open>cache.h\<close>, classes \<^verbatim>\<open>page\<close> and \<^verbatim>\<open>thread_safe_page\<close>): location, flag byte,
    8-bit hit counter, 16-bit reference count and the members the adaptive policy uses.
  \<^item> \<open>Page_Cell\<close>: the pages of a set (\<^verbatim>\<open>page_cell\<close> of \<^verbatim>\<open>associative_cache.h\<close>): a buffer with gaps and the
    map of its used slots. A pointer to a page is its slot. \<open>cell_wf\<close> is the invariant the run-time
    sanity check tests.
  \<^item> \<open>Eviction\<close>, \<open>Eviction_Laws\<close>, \<open>Policy_Proofs\<close>, \<open>Policy_Props\<close>: the policies LRU, LFU, FIFO, clock,
    gclock, LIFO and random of \<^verbatim>\<open>associative_cache.cpp\<close>; the locale \<open>eviction\<close> is the contract a page set
    relies on (the victim is an unreferenced page of the set, nothing but bookkeeping changes) and
    every policy interprets it.
  \<^item> \<open>Hash_Cell\<close>, \<open>Hash_Cell_Laws\<close>: a page set (\<^verbatim>\<open>hash_cell\<close>): \<^verbatim>\<open>search\<close>, \<^verbatim>\<open>rehash\<close>, \<^verbatim>\<open>merge\<close>, \<^verbatim>\<open>steal_pages\<close>,
    selection by flags. Lookup is proved inside \<open>eviction\<close>, for every policy at once.
  \<^item> \<open>APR\<close>, \<open>APR_Laws\<close>, \<open>Cell_Props\<close>: the adaptive policy (voters that run clock and LIFO side by side
    and settle challenges with ghosts and scores, followers that obey the global policy), its
    interpretation of \<open>eviction\<close>, and the properties of a set managed by it.
  \<^item> \<open>Assoc_Cache\<close>, \<open>Assoc_Laws\<close>, \<open>Assoc_Props\<close>: the table (\<^verbatim>\<open>associative_cache\<close>): hashing, lookup, \<^verbatim>\<open>expand\<close>,
    \<^verbatim>\<open>shrink\<close>, counting. \<open>placed\<close> says that every page is in the set its location hashes to; the locale
    \<open>shared_eviction\<close> extends \<open>eviction\<close> to policies whose sets share state.

  \<^item> \<open>Fifo_Queue\<close>, \<open>Fifo_Laws\<close>, \<open>Blocking_Queue\<close>: the queues of \<^verbatim>\<open>container.h\<close>. \<open>fq_list\<close> is the list a ring buffer stands for;
    the locale \<open>bounded_queue\<close> is what users of a queue rely on, with the ring buffer and the locked queue
    as interpretations. The blocking queue with its condition variable is the step relation \<open>bq_step\<close> of a
    producer and a consumer.
  \<^item> \<open>Flusher\<close>, \<open>Flusher_Laws\<close>, \<open>Flusher_Run\<close>: the dirty page flusher (\<^verbatim>\<open>associative_flusher\<close>, \<^verbatim>\<open>flush_io\<close>). The locale
    \<open>page_selector\<close> is the contract of the policy that selects pages, interpreted by the forecast of gclock;
    \<open>queue_ok\<close> says that the page sets marked as queued are those in the queue, \<open>progress\<close> what new requests are.
    The number of rounds the loops may take is an argument; as many as there are queued page sets and pages to be
    flushed are enough.

  \<^item> \<open>IO_Request\<close>, \<open>IO_Request_Laws\<close>, \<open>IO_Merge_Laws\<close>, \<open>IO_Request_Props\<close>: requests (\<^verbatim>\<open>io_request.h\<close>, \<^verbatim>\<open>io_request.cpp\<close>): the growing vector of buffers,
    whose contract is the locale \<open>buffer_vector\<close>, ranges and extraction, the request in progress, merging of requests and of dirty
    pages into a request. \<open>page_req\<close> says that the buffers of a request are consecutive pages from its offset on.
  \<^item> \<open>Cached_IO\<close>, \<open>Cached_IO_Laws\<close>, \<open>Cached_Read\<close>, \<open>Cached_Complete\<close>, \<open>Cached_Waiters\<close>, \<open>Cached_IO_Props\<close>, \<open>Cached_Write_Props\<close>: cached I/O below the walk
    (\<^verbatim>\<open>global_cached_private.cpp\<close>), on the heap \<open>gstate\<close> of pages, their data, the chains of waiting requests, the requests in progress,
    the application's memory and the instances. \<open>orig_at\<close> says which pieces of a request are still open, \<open>read_mid\<close> is the
    invariant of the loop of \<^verbatim>\<open>read\<close>. The walk along a chain has a number of steps; as many as requests wait on the page are enough.
  \<^item> \<open>Cached_User\<close>, \<open>Cached_User_Laws\<close>, \<open>Cached_User_Props\<close>, \<open>Cached_User_Write\<close>, \<open>Cached_Write_Back\<close>, \<open>Cached_Report\<close>: the side of the application:
    \<^verbatim>\<open>process_user_req\<close>, \<^verbatim>\<open>access\<close>, the queue of requests, requests served by one cached page, reporting, preloading. The page cache is
    the interface \<open>cache_env\<close>; \<open>user_walk\<close> and \<open>found_pages\<close> say what its search does for the pages of a request: the page of the location is
    returned with a reference taken, as the lookup of \<open>Assoc_Props\<close> is proved to do. The loop over the pages has as many rounds as the
    request has pages left. Calls of the application's code are a log of events.
  \<^item> \<open>File_Mapper\<close>: the mapping of file pages to disks (\<^verbatim>\<open>file_mapper.h\<close>, \<^verbatim>\<open>file_partition.h\<close>); the locale \<open>striping\<close> is
    interpreted by RAID0, RAID5 and hash mapping.
  \<^item> \<open>Slab_Allocator\<close>, \<open>Slab_Laws\<close>, \<open>Slab_Props\<close>: the slab allocator with its linked lists on an explicit heap and the
    memory manager; the locale \<open>object_pool\<close> is the contract of an allocator.

  \<^item> \<open>Bitmap\<close>, \<open>Bitmap_Laws\<close>, \<open>Bitmap_Props\<close>: the bitmaps of the graph engine; the locale \<open>bit_set\<close> is the contract of a set of
    indexes that \<^verbatim>\<open>bitmap\<close> and \<^verbatim>\<open>thread_safe_bitmap\<close> fulfil.
  \<^item> \<open>Partitioner\<close>, \<open>Partitioner_Laws\<close>, \<open>Partitioner_Props\<close>: modulo and range partitioning; the locale \<open>graph_partitioner\<close> says that
    every vertex has one place and the places of a partition are numbered without gaps. \<open>rp_fits\<close> is the bound on
    the number of vertices under which the 32-bit arithmetic does not wrap around.
  \<^item> \<open>Graph_Index\<close>, \<open>Graph_Index_Props\<close>: the arrays of vertices (\<^verbatim>\<open>graph_index.h\<close>), proved from the contract of the partitioner.
  \<^item> \<open>Active_Set\<close>, \<open>Vertex_Queue\<close>, \<open>Vertex_Queue_Laws\<close>, \<open>Vertex_Queue_Props\<close>: scan pointers, active vertex sets and vertex queues (\<^verbatim>\<open>scan_pointer.h\<close>,
    \<^verbatim>\<open>worker_thread.h\<close>, \<^verbatim>\<open>worker_thread.cpp\<close>). \<open>as_ready\<close> says that all set bits are ahead of the scan pointer; \<open>pending\<close> is
    the multiset of vertices a queue has still to deliver.

  \<^item> \<open>Byte_Array\<close>, \<open>Byte_Array_Laws\<close>, \<open>Page_Arrays\<close>, \<open>Page_Arrays_Laws\<close>, \<open>Page_Arrays_Props\<close>: byte arrays over pages (\<^verbatim>\<open>page_byte_array\<close> of
    \<^verbatim>\<open>cache.h\<close>) with the copying routine, random-access and sequential iterators and \<^verbatim>\<open>PAGE_FOREACH\<close>; the arrays of a
    request in one page, in several cached pages, read around the cache and in memory; the pages of a pending request
    (\<^verbatim>\<open>original_io_request\<close> of \<^verbatim>\<open>global_cached_private.cpp\<close>). The locale \<open>byte_array_view\<close> says that an array shows a list
    of bytes; copying and iterating are proved in it once and each array, and a region of one, interprets it.
  \<^item> \<open>Ext_Vertex\<close>, \<open>Ext_Vertex_Laws\<close>, \<open>Ext_Vertex_Props\<close>: vertices in the file, in memory and in pages (\<^verbatim>\<open>vertex.h\<close>, \<^verbatim>\<open>vertex.cpp\<close>): sizes
    in 32-bit arithmetic, writing and reading.
  \<^item> \<open>Vertex_Index\<close>, \<open>Directed_Index\<close>, \<open>Index_Construct\<close> and their laws, \<open>Index_Props\<close>, \<open>Directed_Index_Props\<close>: the plain and the compressed vertex
    index (\<^verbatim>\<open>vertex_index.h\<close>, \<^verbatim>\<open>vertex_index.cpp\<close>), its constructors (\<^verbatim>\<open>vertex_index_constructor.cpp\<close>) and iterators
    (\<^verbatim>\<open>vertex_index_reader.h\<close>). The laws give the index of a graph with given numbers of edges in closed form
    (\<open>vertex_off\<close>, \<open>entry_of\<close>, \<open>large_from\<close>); a directed index is a pair of undirected ones, its lanes. \<open>graph_ok\<close> bounds the
    graph so that the 32-bit sizes do not wrap around. The locale \<open>vertex_locator\<close> is what users of an index rely on.

  \<^bold>\<open>Conventions.\<close> One call runs under the lock the code takes, so it is a function from state to state;
  readers guarded by the sequence lock see one consistent state. An assertion that fails is
  \<open>Inl Assert_failed\<close>, an access the language leaves undefined \<open>Inl Undefined_behaviour\<close>, a wait no step of
  the same thread can end \<open>Inl Never_returns\<close>. Scans that are not bounded by the data carry a list of
  reads or a number of rounds; running out of it is \<open>Inl Out_of_steps\<close>. Loops of the graph engine that may run forever are
  partial functions, with \<open>None\<close> for not returning. The clock and gclock scans are
  total functions with a termination proof. The doubles of the adaptive policy's scores are
  rational numbers, so rounding and underflow are not modelled. Page memory is an identifier.
  What the memory manager hands out, what \<^verbatim>\<open>rand\<close> returns, what reading a list iterator past the end
  gives and the uninitialised member of a new page are arguments.

  \<^bold>\<open>What is not modelled.\<close> Printing and timing, the routines of the adaptive policy's variant without
  sampling (not compiled or not called), the NUMA placement of memory, the parts of
  \<^verbatim>\<open>libsafs\<close> that only issue system calls, and the matrix library. Of the cached I/O: the waiting of a thread (\<^verbatim>\<open>wait4req\<close>,
  \<^verbatim>\<open>wait4complete\<close> and the synchronous \<^verbatim>\<open>access\<close>, which wait for other threads), the loop \<^verbatim>\<open>process_all_requests\<close> around the scheduler of
  user tasks, and the allocators of requests and byte arrays.

  \<^bold>\<open>Plan.\<close> Next: the index requests of \<^verbatim>\<open>vertex_index_reader\<close> and the messages of \<^verbatim>\<open>flash-graph\<close>, the shadow cells, the mapping
  of files to NUMA nodes, the scheduler of user tasks with \<^verbatim>\<open>process_all_requests\<close>.
\<close>

end
